(* ===== verification/Skynet_Prelude.thy ===== *)
theory Skynet_Prelude
  imports Main "HOL-Library.Word" "HOL-Library.Monad_Syntax"
begin

text \<open>
  Shared vocabulary of the development.

  Conventions used by every component theory:
  \<^item> a C function that may fail an \<open>assert\<close>, read uninitialised or out-of-range memory or
    overflow a signed integer returns \<open>'a option\<close>; \<open>None\<close> is the abort (or undefined
    behaviour) and \<open>Some\<close> the normal return;
  \<^item> \<open>uint32_t\<close>, \<open>uint64_t\<close> and \<open>size_t\<close> are words of their width (64-bit target), so their
    arithmetic wraps; a C \<open>int\<close> is an \<open>int\<close> or \<open>nat\<close> with the overflow checks written out where a
    size can reach them, and a conversion of a \<open>size_t\<close> to \<open>int\<close> keeps the low 32 bits (\<open>c_int\<close>);
  \<^item> two counters are the exception to the rule on signed overflow: the session of a context
    (\<open>++ctx->session_id\<close>) and the id of a socket (\<open>ATOM_FINC(&ss->alloc_id) + 1\<close>) are modelled with the
    two's complement wrap, because the code runs past \<open>INT_MAX\<close> on purpose and tests for the negative value;
  \<^item> an array of C is a list of \<open>'a option\<close> whose \<open>None\<close> cells have never been written;
  \<^item> C pointers to heap objects are addresses (\<open>nat\<close>), \<open>NULL\<close> is \<open>None\<close> of an \<open>addr option\<close>.
\<close>

type_synonym u8 = "8 word"
type_synonym u16 = "16 word"
type_synonym u32 = "32 word"
type_synonym u64 = "64 word"
type_synonym addr = nat

named_theorems c_simps \<open>rewrite rules for the C run-time helpers\<close>

section \<open>Aborts, arrays and signed integers\<close>

definition INT_MAX :: int where
  "INT_MAX = 2147483647"

definition INT_MIN :: int where
  "INT_MIN = -2147483648"

text \<open>The conversion of a \<open>size_t\<close> to an \<open>int\<close>: the low 32 bits, read as a signed number.\<close>

definition c_int :: "nat \<Rightarrow> int" where
  "c_int n = (int n + 2 ^ 31) mod 2 ^ 32 - 2 ^ 31"

lemma c_int_small: "n < 2 ^ 31 \<Longrightarrow> c_int n = int n"
  by (simp add: c_int_def)

lemma c_int_range: "INT_MIN \<le> c_int n" "c_int n \<le> INT_MAX"
proof -
  have "0 \<le> (int n + 2 ^ 31) mod 2 ^ 32" "(int n + 2 ^ 31) mod 2 ^ 32 < 2 ^ 32" by simp_all
  then show "INT_MIN \<le> c_int n" "c_int n \<le> INT_MAX" by (simp_all add: c_int_def INT_MIN_def INT_MAX_def)
qed

definition c_assert :: "bool \<Rightarrow> unit option" where
  "c_assert b = (if b then Some () else None)"

lemma c_assert_bind [simp, c_simps]: "(c_assert b \<bind> f) = (if b then f () else None)"
  by (simp add: c_assert_def)

lemma c_assert_Some [simp, c_simps]: "c_assert b = Some u \<longleftrightarrow> b"
  by (simp add: c_assert_def)

text \<open>A cell read: out of range and never-written cells are undefined behaviour.\<close>

definition arr_get :: "'a option list \<Rightarrow> nat \<Rightarrow> 'a option" where
  "arr_get xs i = (if i < length xs then xs ! i else None)"

definition arr_set :: "'a option list \<Rightarrow> nat \<Rightarrow> 'a \<Rightarrow> 'a option list option" where
  "arr_set xs i v = (if i < length xs then Some (xs[i := Some v]) else None)"

lemma arr_get_set:
  "arr_set xs i v = Some ys \<Longrightarrow> arr_get ys j = (if j = i then Some v else arr_get xs j)"
  by (auto simp: arr_set_def arr_get_def nth_list_update split: if_splits)

lemma arr_set_length: "arr_set xs i v = Some ys \<Longrightarrow> length ys = length xs"
  by (auto simp: arr_set_def split: if_splits)

lemma arr_set_ok: "i < length xs \<Longrightarrow> arr_set xs i v = Some (xs[i := Some v])"
  by (simp add: arr_set_def)

lemma arr_get_ok: "i < length xs \<Longrightarrow> arr_get xs i = xs ! i"
  by (simp add: arr_get_def)

lemma bind_Some_iff [c_simps]:
  "(m \<bind> f = Some r) \<longleftrightarrow> (\<exists>x. m = Some x \<and> f x = Some r)"
  by (cases m) auto

text \<open>Copying a cell, written or not.\<close>

definition arr_copy :: "'a option list \<Rightarrow> nat \<Rightarrow> 'a option list \<Rightarrow> nat \<Rightarrow> 'a option list option" where
  "arr_copy dst i src j =
     (if i < length dst \<and> j < length src then Some (dst[i := src ! j]) else None)"

section \<open>Counted loops\<close>

text \<open>\<open>c_for is body s\<close> runs \<open>body\<close> for every index of \<open>is\<close>, in order.\<close>

primrec c_for :: "'i list \<Rightarrow> ('i \<Rightarrow> 's \<Rightarrow> 's option) \<Rightarrow> 's \<Rightarrow> 's option" where
  "c_for [] body s = Some s"
| "c_for (i # is) body s = body i s \<bind> c_for is body"

lemma c_for_append: "c_for (is @ js) body s = c_for is body s \<bind> c_for js body"
  by (induction "is" arbitrary: s) (auto split: Option.bind_splits)

text \<open>
  Total correctness of an ascending loop: an invariant \<open>I i\<close> before iteration \<open>i\<close> that every
  iteration can re-establish.
\<close>

lemma c_for_upt:
  assumes "I a s" and "a \<le> b"
    and step: "\<And>i s. a \<le> i \<Longrightarrow> i < b \<Longrightarrow> I i s \<Longrightarrow> \<exists>s'. body i s = Some s' \<and> I (Suc i) s'"
  shows "\<exists>s'. c_for [a..<b] body s = Some s' \<and> I b s'"
  using assms(2)
proof (induction b rule: dec_induct)
  case base
  then show ?case using assms(1) by simp
next
  case (step n)
  then obtain s' where s': "c_for [a..<n] body s = Some s'" "I n s'" by blast
  from assms(3) [OF step(1,2) s'(2)] obtain s'' where "body n s' = Some s''" "I (Suc n) s''"
    by blast
  with s' step(1) show ?case by (simp add: c_for_append)
qed

section \<open>C strings\<close>

text \<open>A C string is the list of its characters before the terminating NUL.\<close>

fun strcmp :: "string \<Rightarrow> string \<Rightarrow> int" where
  "strcmp [] [] = 0"
| "strcmp [] (d # ds) = -1"
| "strcmp (c # cs) [] = 1"
| "strcmp (c # cs) (d # ds) =
     (if c = d then strcmp cs ds else if (of_char c :: nat) < of_char d then -1 else 1)"

lemma strcmp_eq_0 [simp]: "strcmp a b = 0 \<longleftrightarrow> a = b"
  by (induction a b rule: strcmp.induct) auto

lemma strcmp_self [simp]: "strcmp a a = 0"
  by simp

lemma strcmp_cases: "strcmp a b \<in> {-1, 0, 1}"
  by (induction a b rule: strcmp.induct) auto

lemma strcmp_antisym: "strcmp b a = - strcmp a b"
proof (induction a b rule: strcmp.induct)
  case (4 c cs d ds)
  have "(of_char c :: nat) \<noteq> of_char d" if "c \<noteq> d" using that by simp
  with 4 show ?case by auto
qed auto

lemma strcmp_trans: "strcmp a b < 0 \<Longrightarrow> strcmp b c < 0 \<Longrightarrow> strcmp a c < 0"
proof (induction a b arbitrary: c rule: strcmp.induct)
  case (2 d ds)
  then show ?case by (cases c) auto
next
  case (4 x xs y ys)
  then show ?case by (cases c) (auto split: if_splits)
qed auto

section \<open>First-in first-out queues as an interface\<close>

text \<open>
  Both the ring buffer of a service and the global list of runnable services are queues. The
  interface: an abstraction to a list, an invariant, and a condition under which the enqueue is
  allowed (room in the buffer, the element not being linked already).
\<close>

datatype 'a qop = Enq 'a | Deq

fun fifo_run ::
  "('a \<Rightarrow> 'q \<Rightarrow> 'q option) \<Rightarrow> ('q \<Rightarrow> ('a option \<times> 'q) option) \<Rightarrow> 'a qop list \<Rightarrow> 'q
    \<Rightarrow> ('a option list \<times> 'q) option" where
  "fifo_run enq deq [] q = Some ([], q)"
| "fifo_run enq deq (Enq x # ops) q = do { q' \<leftarrow> enq x q; fifo_run enq deq ops q' }"
| "fifo_run enq deq (Deq # ops) q =
     do { (r, q') \<leftarrow> deq q; (rs, q'') \<leftarrow> fifo_run enq deq ops q'; Some (r # rs, q'') }"

text \<open>The specification: the same operations on a list.\<close>

fun list_run :: "'a qop list \<Rightarrow> 'a list \<Rightarrow> 'a option list \<times> 'a list" where
  "list_run [] xs = ([], xs)"
| "list_run (Enq x # ops) xs = list_run ops (xs @ [x])"
| "list_run (Deq # ops) [] = (let (rs, ys) = list_run ops [] in (None # rs, ys))"
| "list_run (Deq # ops) (x # xs) = (let (rs, ys) = list_run ops xs in (Some x # rs, ys))"

text \<open>The enqueues of a sequence are allowed along the abstract run.\<close>

fun ops_ok :: "('a \<Rightarrow> 'a list \<Rightarrow> bool) \<Rightarrow> 'a qop list \<Rightarrow> 'a list \<Rightarrow> bool" where
  "ops_ok P [] xs = True"
| "ops_ok P (Enq x # ops) xs = (P x xs \<and> ops_ok P ops (xs @ [x]))"
| "ops_ok P (Deq # ops) xs = ops_ok P ops (tl xs)"

lemma list_run_enqs: "list_run (map Enq ys @ ops) xs = list_run ops (xs @ ys)"
  by (induction ys arbitrary: xs) auto

lemma list_run_deqs: "list_run (replicate (length xs) Deq) xs = (map Some xs, [])"
  by (induction xs) auto

locale fifo_queue =
  fixes enq :: "'a \<Rightarrow> 'q \<Rightarrow> 'q option"
    and deq :: "'q \<Rightarrow> ('a option \<times> 'q) option"
    and abs :: "'q \<Rightarrow> 'a list"
    and inv :: "'q \<Rightarrow> bool"
    and allowed :: "'a \<Rightarrow> 'a list \<Rightarrow> bool"
  assumes enq_spec: "inv q \<Longrightarrow> allowed x (abs q) \<Longrightarrow>
      \<exists>q'. enq x q = Some q' \<and> inv q' \<and> abs q' = abs q @ [x]"
    and deq_spec: "inv q \<Longrightarrow>
      \<exists>r q'. deq q = Some (r, q') \<and> inv q' \<and> abs q' = tl (abs q) \<and>
        r = (case abs q of [] \<Rightarrow> None | x # _ \<Rightarrow> Some x)"
begin

text \<open>Every sequence of operations behaves as on the list, and never aborts.\<close>

lemma run_refines:
  assumes "inv q" and "ops_ok allowed ops (abs q)"
  shows "\<exists>q'. fifo_run enq deq ops q = Some (fst (list_run ops (abs q)), q') \<and> inv q' \<and>
     abs q' = snd (list_run ops (abs q))"
  using assms
proof (induction ops arbitrary: q)
  case Nil
  then show ?case by simp
next
  case (Cons op ops)
  show ?case
  proof (cases op)
    case (Enq x)
    with Cons.prems obtain q' where "enq x q = Some q'" "inv q'" "abs q' = abs q @ [x]"
      using enq_spec by force
    with Enq Cons.prems Cons.IH [of q'] show ?thesis by simp
  next
    case Deq
    from deq_spec [OF Cons.prems(1)] obtain r q' where q': "deq q = Some (r, q')" "inv q'"
      "abs q' = tl (abs q)" "r = (case abs q of [] \<Rightarrow> None | x # _ \<Rightarrow> Some x)"
      by blast
    with Deq Cons.prems Cons.IH [of q'] show ?thesis
      by (cases "abs q") (auto simp: Let_def split: prod.splits)
  qed
qed

lemma deq_empty: "inv q \<Longrightarrow> abs q = [] \<Longrightarrow> \<exists>q'. deq q = Some (None, q') \<and> inv q' \<and> abs q' = []"
  using deq_spec [of q] by force

lemma deq_nonempty:
  "inv q \<Longrightarrow> abs q = x # xs \<Longrightarrow> \<exists>q'. deq q = Some (Some x, q') \<and> inv q' \<and> abs q' = xs"
  using deq_spec [of q] by force

end

end
