(* ===== verification/Skynet_Mq.thy ===== *)
theory Skynet_Mq
  imports Skynet_Prelude
begin

text \<open>
  The message queues of \<^verbatim>\<open>skynet-src/skynet_mq.c\<close>: one growing ring buffer per service and the
  global list of queues that have work. A queue is a heap object: the workers, the owning context
  and the \<open>next\<close> links of the global list hold its address. Every operation is the body of one
  critical section (\<open>SPIN_LOCK\<close> .. \<open>SPIN_UNLOCK\<close>), so it is one atomic state change.
\<close>

section \<open>State\<close>

record skynet_message =
  m_source :: u32
  m_session :: int
  m_data :: "addr option"
  m_sz :: u64

definition MESSAGE_TYPE_MASK :: u64 where
  "MESSAGE_TYPE_MASK = drop_bit 8 (- 1)"

definition MESSAGE_TYPE_SHIFT :: nat where
  "MESSAGE_TYPE_SHIFT = (8 - 1) * 8"

definition DEFAULT_QUEUE_SIZE :: nat where
  "DEFAULT_QUEUE_SIZE = 64"

definition MQ_OVERLOAD :: int where
  "MQ_OVERLOAD = 1024"

record message_queue =
  q_handle :: u32
  q_cap :: nat
  q_head :: nat
  q_tail :: nat
  q_release :: bool
  q_in_global :: bool
  q_overload :: int
  q_overload_threshold :: int
  q_queue :: "skynet_message option list"
  q_next :: "addr option"

text \<open>The global queue \<open>Q\<close> and the heap of message queues; \<open>mq_brk\<close> is the next free address.\<close>

record mq_state =
  gq_head :: "addr option"
  gq_tail :: "addr option"
  mqs :: "addr \<Rightarrow> message_queue option"
  mq_brk :: addr

abbreviation mq_upd :: "addr \<Rightarrow> message_queue \<Rightarrow> mq_state \<Rightarrow> mq_state" where
  "mq_upd a q s \<equiv> s\<lparr>mqs := (mqs s)(a := Some q)\<rparr>"

section \<open>The global queue\<close>

definition skynet_mq_init :: mq_state where
  "skynet_mq_init = \<lparr>gq_head = None, gq_tail = None, mqs = (\<lambda>_. None), mq_brk = 0\<rparr>"

definition skynet_globalmq_push :: "addr \<Rightarrow> mq_state \<Rightarrow> mq_state option" where
  "skynet_globalmq_push queue s = do {
     q \<leftarrow> mqs s queue;
     c_assert (q_next q = None);
     case gq_tail s of
       Some t \<Rightarrow> do {
         tq \<leftarrow> mqs s t;
         Some ((mq_upd t (tq\<lparr>q_next := Some queue\<rparr>) s)\<lparr>gq_tail := Some queue\<rparr>)
       }
     | None \<Rightarrow> Some (s\<lparr>gq_head := Some queue, gq_tail := Some queue\<rparr>)
   }"

definition skynet_globalmq_pop :: "mq_state \<Rightarrow> (addr option \<times> mq_state) option" where
  "skynet_globalmq_pop s =
     (case gq_head s of
        None \<Rightarrow> Some (None, s)
      | Some a \<Rightarrow> do {
          mq \<leftarrow> mqs s a;
          c_assert (q_next mq = None \<longrightarrow> gq_tail s = Some a);
          Some (Some a, (mq_upd a (mq\<lparr>q_next := None\<rparr>) s)
             \<lparr>gq_head := q_next mq,
              gq_tail := (if q_next mq = None then None else gq_tail s)\<rparr>)
        })"

section \<open>Operations on one queue\<close>

definition mq_new :: "u32 \<Rightarrow> message_queue" where
  "mq_new handle = \<lparr>q_handle = handle, q_cap = DEFAULT_QUEUE_SIZE, q_head = 0, q_tail = 0,
     q_release = False, q_in_global = True, q_overload = 0, q_overload_threshold = MQ_OVERLOAD,
     q_queue = replicate DEFAULT_QUEUE_SIZE None, q_next = None\<rparr>"

definition skynet_mq_create :: "u32 \<Rightarrow> mq_state \<Rightarrow> addr \<times> mq_state" where
  "skynet_mq_create handle s =
     (mq_brk s, (mq_upd (mq_brk s) (mq_new handle) s)\<lparr>mq_brk := Suc (mq_brk s)\<rparr>)"

definition skynet_mq_length :: "message_queue \<Rightarrow> int" where
  "skynet_mq_length q =
     (if q_head q \<le> q_tail q then int (q_tail q) - int (q_head q)
      else int (q_tail q) + int (q_cap q) - int (q_head q))"

definition skynet_mq_overload :: "message_queue \<Rightarrow> int \<times> message_queue" where
  "skynet_mq_overload q =
     (if q_overload q \<noteq> 0 then (q_overload q, q\<lparr>q_overload := 0\<rparr>) else (0, q))"

text \<open>
  The loop \<open>while (length > threshold) { overload = length; threshold *= 2; }\<close>. Doubling past
  \<open>INT_MAX\<close> is undefined behaviour; a threshold that is not positive would loop for ever.
\<close>

partial_function (option) overload_loop :: "int \<Rightarrow> int \<Rightarrow> int \<Rightarrow> (int \<times> int) option" where
  "overload_loop len overload threshold =
     (if len > threshold then
        (if threshold * 2 > INT_MAX then None else overload_loop len len (threshold * 2))
      else Some (overload, threshold))"

text \<open>
  \<open>skynet_mq_pop\<close> returns \<open>(Some m, q')\<close> where the C function returns 0 and fills
  \<open>*message\<close>, and \<open>(None, q')\<close> where it returns 1.
\<close>

definition mq_pop :: "message_queue \<Rightarrow> (skynet_message option \<times> message_queue) option" where
  "mq_pop q =
     (if q_head q \<noteq> q_tail q then do {
        message \<leftarrow> arr_get (q_queue q) (q_head q);
        let head = (if q_head q + 1 \<ge> q_cap q then 0 else q_head q + 1);
        let len0 = int (q_tail q) - int head;
        let len = (if len0 < 0 then len0 + int (q_cap q) else len0);
        (overload, threshold) \<leftarrow> overload_loop len (q_overload q) (q_overload_threshold q);
        Some (Some message,
          q\<lparr>q_head := head, q_overload := overload, q_overload_threshold := threshold\<rparr>)
      }
      else Some (None, q\<lparr>q_overload_threshold := MQ_OVERLOAD, q_in_global := False\<rparr>))"

definition expand_queue :: "message_queue \<Rightarrow> message_queue option" where
  "expand_queue q = do {
     c_assert (int (q_cap q) * 2 \<le> INT_MAX);
     Some (q\<lparr>q_queue := map (\<lambda>i. q_queue q ! ((q_head q + i) mod q_cap q)) [0..<q_cap q]
                        @ replicate (q_cap q) None,
             q_head := 0, q_tail := q_cap q, q_cap := q_cap q * 2\<rparr>)
   }"

text \<open>The part of \<open>skynet_mq_push\<close> that touches the ring buffer alone.\<close>

definition mq_enq :: "skynet_message \<Rightarrow> message_queue \<Rightarrow> message_queue option" where
  "mq_enq message q = do {
     buf \<leftarrow> arr_set (q_queue q) (q_tail q) message;
     let q1 = q\<lparr>q_queue := buf,
               q_tail := (if q_tail q + 1 \<ge> q_cap q then 0 else q_tail q + 1)\<rparr>;
     if q_head q1 = q_tail q1 then expand_queue q1 else Some q1
   }"

definition skynet_mq_push :: "addr \<Rightarrow> skynet_message \<Rightarrow> mq_state \<Rightarrow> mq_state option" where
  "skynet_mq_push a message s = do {
     q \<leftarrow> mqs s a;
     q1 \<leftarrow> mq_enq message q;
     if \<not> q_in_global q1 then
       skynet_globalmq_push a (mq_upd a (q1\<lparr>q_in_global := True\<rparr>) s)
     else Some (mq_upd a q1 s)
   }"

definition skynet_mq_pop ::
  "addr \<Rightarrow> mq_state \<Rightarrow> (skynet_message option \<times> mq_state) option" where
  "skynet_mq_pop a s = do {
     q \<leftarrow> mqs s a;
     (m, q') \<leftarrow> mq_pop q;
     Some (m, mq_upd a q' s)
   }"

definition skynet_mq_mark_release :: "addr \<Rightarrow> mq_state \<Rightarrow> mq_state option" where
  "skynet_mq_mark_release a s = do {
     q \<leftarrow> mqs s a;
     c_assert (\<not> q_release q);
     let s1 = mq_upd a (q\<lparr>q_release := True\<rparr>) s;
     if \<not> q_in_global q then skynet_globalmq_push a s1 else Some s1
   }"

definition mq_free :: "addr \<Rightarrow> mq_state \<Rightarrow> mq_state option" where
  "mq_free a s = do {
     q \<leftarrow> mqs s a;
     c_assert (q_next q = None);
     Some (s\<lparr>mqs := (mqs s)(a := None)\<rparr>)
   }"

text \<open>
  \<open>_drop_queue\<close>: pop every message and give it to \<open>drop_func\<close>, then free the queue. The
  callback may change the rest of the system (it reports an error to the source of the message),
  so the loop is stated over a system state \<open>'s\<close> with the queue state inside it.
\<close>

partial_function (option) drop_loop ::
  "('s \<Rightarrow> mq_state) \<Rightarrow> (mq_state \<Rightarrow> 's \<Rightarrow> 's) \<Rightarrow> (skynet_message \<Rightarrow> 's \<Rightarrow> 's option)
    \<Rightarrow> addr \<Rightarrow> 's \<Rightarrow> 's option" where
  "drop_loop get put drop_func a s = do {
     r \<leftarrow> skynet_mq_pop a (get s);
     (case fst r of
        None \<Rightarrow> Some (put (snd r) s)
      | Some m \<Rightarrow> do {
          s' \<leftarrow> drop_func m (put (snd r) s);
          drop_loop get put drop_func a s'
        })
   }"

definition drop_queue ::
  "('s \<Rightarrow> mq_state) \<Rightarrow> (mq_state \<Rightarrow> 's \<Rightarrow> 's) \<Rightarrow> (skynet_message \<Rightarrow> 's \<Rightarrow> 's option)
    \<Rightarrow> addr \<Rightarrow> 's \<Rightarrow> 's option" where
  "drop_queue get put drop_func a s = do {
     s' \<leftarrow> drop_loop get put drop_func a s;
     m \<leftarrow> mq_free a (get s');
     Some (put m s')
   }"

definition skynet_mq_release ::
  "('s \<Rightarrow> mq_state) \<Rightarrow> (mq_state \<Rightarrow> 's \<Rightarrow> 's) \<Rightarrow> (skynet_message \<Rightarrow> 's \<Rightarrow> 's option)
    \<Rightarrow> addr \<Rightarrow> 's \<Rightarrow> 's option" where
  "skynet_mq_release get put drop_func a s = do {
     q \<leftarrow> mqs (get s) a;
     if q_release q then drop_queue get put drop_func a s
     else do {
       m \<leftarrow> skynet_globalmq_push a (get s);
       Some (put m s)
     }
   }"


section \<open>The ring buffer is a first-in first-out queue\<close>

definition mq_count :: "message_queue \<Rightarrow> nat" where
  "mq_count q = (q_tail q + q_cap q - q_head q) mod q_cap q"

definition mq_abs :: "message_queue \<Rightarrow> skynet_message list" where
  "mq_abs q = map (\<lambda>i. the (q_queue q ! ((q_head q + i) mod q_cap q))) [0..<mq_count q]"

definition mq_inv :: "message_queue \<Rightarrow> bool" where
  "mq_inv q \<longleftrightarrow> (\<exists>k. q_cap q = 64 * 2 ^ k) \<and> q_cap q \<le> 2 ^ 30 \<and>
     q_head q < q_cap q \<and> q_tail q < q_cap q \<and> length (q_queue q) = q_cap q \<and>
     0 < q_overload_threshold q \<and>
     (\<forall>i < mq_count q. q_queue q ! ((q_head q + i) mod q_cap q) \<noteq> None)"

text \<open>The buffer has room: at most \<open>2 ^ 30 - 2\<close> messages may be waiting before a push.\<close>

definition mq_room :: "skynet_message list \<Rightarrow> bool" where
  "mq_room ms \<longleftrightarrow> length ms < 2 ^ 30 - 1"

lemma mq_count_cases:
  assumes "q_head q < q_cap q" "q_tail q < q_cap q"
  shows "mq_count q = (if q_head q \<le> q_tail q then q_tail q - q_head q
                       else q_tail q + q_cap q - q_head q)"
proof (cases "q_head q \<le> q_tail q")
  case True
  then have "q_tail q + q_cap q - q_head q = (q_tail q - q_head q) + q_cap q" by simp
  moreover have "q_tail q - q_head q < q_cap q" using assms by simp
  ultimately have "(q_tail q + q_cap q - q_head q) mod q_cap q = q_tail q - q_head q"
    by (metis mod_add_self2 mod_less)
  then show ?thesis using True by (simp add: mq_count_def)
next
  case False
  then show ?thesis using assms by (simp add: mq_count_def)
qed

lemma mq_count_less: "mq_inv q \<Longrightarrow> mq_count q < q_cap q"
  by (auto simp: mq_inv_def mq_count_def)

lemma length_mq_abs [simp]: "length (mq_abs q) = mq_count q"
  by (simp add: mq_abs_def)

lemma mq_abs_nth: "i < mq_count q \<Longrightarrow> mq_abs q ! i = the (q_queue q ! ((q_head q + i) mod q_cap q))"
  by (simp add: mq_abs_def)

lemma skynet_mq_length_abs: "mq_inv q \<Longrightarrow> skynet_mq_length q = int (length (mq_abs q))"
  by (auto simp: mq_inv_def skynet_mq_length_def mq_count_cases)

lemma mq_new_inv: "mq_inv (mq_new h)" and mq_new_abs: "mq_abs (mq_new h) = []"
  by (auto simp: mq_inv_def mq_new_def mq_count_def mq_abs_def DEFAULT_QUEUE_SIZE_def MQ_OVERLOAD_def
      intro: exI [of _ 0])

lemma overload_loop_terminates:
  assumes "0 < threshold" "len \<le> 2 ^ 30"
  shows "\<exists>k. overload_loop len overload threshold =
     Some (if len > threshold then len else overload, threshold * 2 ^ k) \<and>
     len \<le> threshold * 2 ^ k \<and> (k = 0 \<or> threshold * 2 ^ (k - 1) < len)"
  using assms
proof (induction "nat (len - threshold)" arbitrary: overload threshold rule: less_induct)
  case less
  show ?case
  proof (cases "len > threshold")
    case True
    with less.prems have b: "\<not> threshold * 2 > INT_MAX" by (simp add: INT_MAX_def)
    have "nat (len - threshold * 2) < nat (len - threshold)" using True less.prems by simp
    from less.hyps [OF this, of len] less.prems obtain k where
      k: "overload_loop len len (threshold * 2) = Some (len, threshold * 2 * 2 ^ k)"
        "len \<le> threshold * 2 * 2 ^ k" "k = 0 \<or> threshold * 2 * 2 ^ (k - 1) < len"
      by auto
    have "threshold * 2 ^ (Suc k - 1) < len"
      using k(3) True by (cases k) (auto simp: algebra_simps)
    with k True b show ?thesis
      by (intro exI [of _ "Suc k"]) (simp add: overload_loop.simps [of len overload] algebra_simps)
  next
    case False
    then show ?thesis
      by (intro exI [of _ 0]) (simp add: overload_loop.simps)
  qed
qed

lemma pow_cap_half:
  assumes "n = 64 * 2 ^ j" "n < (2 ^ 30 :: nat)"
  shows "n \<le> 2 ^ 29"
proof -
  have "(2::nat) ^ j < 2 ^ 24" using assms by simp
  then have "j \<le> 23" using power_less_imp_less_exp [of "2::nat" j 24] by simp
  then have "(2::nat) ^ j \<le> 2 ^ 23" by (intro power_increasing) auto
  then show ?thesis using assms(1) by simp
qed

lemma ring_mod: "h < n \<Longrightarrow> i < n \<Longrightarrow> (h + i) mod n = (if h + i < n then h + i else h + i - (n::nat))"
  by (simp add: mod_if)

lemma ring_inj: "h < n \<Longrightarrow> i < n \<Longrightarrow> j < n \<Longrightarrow> (h + i) mod n = (h + j) mod n \<longleftrightarrow> i = (j::nat)"
  by (auto simp: ring_mod split: if_splits)

lemma mod_succ: "0 < n \<Longrightarrow> a < n \<Longrightarrow> (if a + 1 \<ge> n then 0 else a + 1) = (a + 1) mod (n::nat)"
  by (cases "a + 1 = n") auto

lemma mq_pop_empty:
  assumes "mq_inv q" "mq_abs q = []"
  shows "mq_pop q = Some (None, q\<lparr>q_overload_threshold := MQ_OVERLOAD, q_in_global := False\<rparr>)"
proof -
  have "mq_count q = 0" using assms(2) length_mq_abs [of q] by simp
  then have "q_head q = q_tail q"
    using assms(1) by (auto simp: mq_inv_def mq_count_cases split: if_splits)
  then show ?thesis by (simp add: mq_pop_def)
qed

lemma mq_pop_cons:
  assumes inv: "mq_inv q" and abs: "mq_abs q = m # ms"
  shows "\<exists>q'. mq_pop q = Some (Some m, q') \<and> mq_inv q' \<and> mq_abs q' = ms \<and>
     (\<exists>k. q_overload_threshold q' = q_overload_threshold q * 2 ^ k \<and>
        int (length ms) \<le> q_overload_threshold q * 2 ^ k \<and>
        (k = 0 \<or> q_overload_threshold q * 2 ^ (k - 1) < int (length ms)) \<and>
        q_overload q' = (if int (length ms) > q_overload_threshold q then int (length ms)
                         else q_overload q)) \<and>
     q_in_global q' = q_in_global q \<and> q_release q' = q_release q \<and> q_next q' = q_next q \<and>
     q_handle q' = q_handle q"
proof -
  let ?n = "q_cap q" and ?h = "q_head q" and ?t = "q_tail q"
  have n: "0 < ?n" "?h < ?n" "?t < ?n" "length (q_queue q) = ?n" "0 < q_overload_threshold q"
    "?n \<le> 2 ^ 30"
    and full: "\<And>i. i < mq_count q \<Longrightarrow> q_queue q ! ((?h + i) mod ?n) \<noteq> None"
    using inv by (auto simp: mq_inv_def)
  have c: "mq_count q = Suc (length ms)" using abs length_mq_abs [of q] by simp
  then have ne: "?h \<noteq> ?t" using n by (auto simp: mq_count_cases split: if_splits)
  have m: "arr_get (q_queue q) ?h = Some m"
    using full [of 0] abs mq_abs_nth [of 0 q] n c by (auto simp: arr_get_def)
  define h' where "h' = (if ?h + 1 \<ge> ?n then 0 else ?h + 1)"
  have h': "h' = (?h + 1) mod ?n" "h' < ?n" using n mod_succ unfolding h'_def by auto
  define len0 where "len0 = int ?t - int h'"
  define len where "len = (if len0 < 0 then len0 + int ?n else len0)"
  have len: "len = int (length ms)"
    using c n ne unfolding len_def len0_def h'_def
    by (auto simp: mq_count_cases split: if_splits)
  obtain k where k: "overload_loop len (q_overload q) (q_overload_threshold q) =
     Some (if len > q_overload_threshold q then len else q_overload q,
           q_overload_threshold q * 2 ^ k)"
    "len \<le> q_overload_threshold q * 2 ^ k"
    "k = 0 \<or> q_overload_threshold q * 2 ^ (k - 1) < len"
    using overload_loop_terminates [OF n(5), of len "q_overload q"] n c mq_count_less [OF inv]
    unfolding len by fastforce
  let ?q = "q\<lparr>q_head := h', q_overload := (if len > q_overload_threshold q then len else q_overload q),
     q_overload_threshold := q_overload_threshold q * 2 ^ k\<rparr>"
  have pop: "mq_pop q = Some (Some m, ?q)"
    using ne m k(1) unfolding mq_pop_def h'_def [symmetric] len0_def len_def by (simp add: Let_def)
  have cnt: "mq_count ?q = length ms"
    using c n h'(2) ne unfolding h'_def by (auto simp: mq_count_cases split: if_splits)
  have shift: "(h' + i) mod ?n = (?h + Suc i) mod ?n" for i
    unfolding h'(1) by (simp add: mod_simps)
  have "q_queue q ! ((h' + i) mod ?n) \<noteq> None" if "i < length ms" for i
    using full [of "Suc i"] that c by (simp add: shift)
  then have inv': "mq_inv ?q" using inv h'(2) unfolding mq_inv_def cnt by simp
  have "mq_abs ?q = ms"
  proof (rule nth_equalityI)
    show "length (mq_abs ?q) = length ms" by (simp add: cnt)
    fix i assume "i < length (mq_abs ?q)"
    then have i: "i < length ms" by (simp add: cnt)
    then have "mq_abs ?q ! i = the (q_queue q ! ((?h + Suc i) mod ?n))"
      using mq_abs_nth [of i ?q] cnt by (simp add: shift)
    also have "\<dots> = mq_abs q ! Suc i" using mq_abs_nth [of "Suc i" q] c i by simp
    finally show "mq_abs ?q ! i = ms ! i" by (simp add: abs)
  qed
  then show ?thesis using pop inv' k len by auto
qed

lemma expand_queue_spec:
  assumes cap: "q_cap q \<le> 2 ^ 29" "\<exists>k. q_cap q = 64 * 2 ^ k"
    and len: "length (q_queue q) = q_cap q" "q_head q < q_cap q"
    and thr: "0 < q_overload_threshold q"
    and full: "\<And>i. i < q_cap q \<Longrightarrow> q_queue q ! ((q_head q + i) mod q_cap q) \<noteq> None"
  shows "\<exists>q'. expand_queue q = Some q' \<and> mq_inv q' \<and>
     mq_abs q' = map (\<lambda>i. the (q_queue q ! ((q_head q + i) mod q_cap q))) [0..<q_cap q] \<and>
     q' = q\<lparr>q_queue := q_queue q', q_head := q_head q', q_tail := q_tail q', q_cap := q_cap q'\<rparr>"
proof -
  let ?n = "q_cap q"
  let ?b = "map (\<lambda>i. q_queue q ! ((q_head q + i) mod ?n)) [0..<?n] @ replicate ?n None"
  let ?q = "q\<lparr>q_queue := ?b, q_head := 0, q_tail := ?n, q_cap := ?n * 2\<rparr>"
  have n: "0 < ?n" using len by simp
  have e: "expand_queue q = Some ?q" using cap by (simp add: expand_queue_def INT_MAX_def)
  have c: "mq_count ?q = ?n" using n by (simp add: mq_count_cases)
  have b: "?b ! i = q_queue q ! ((q_head q + i) mod ?n)" if "i < ?n" for i
    using that by (simp add: nth_append)
  have "mq_inv ?q"
    unfolding mq_inv_def c using cap n thr full b
    by (auto intro: exI [of _ "Suc _"])
  moreover have "mq_abs ?q = map (\<lambda>i. the (q_queue q ! ((q_head q + i) mod ?n))) [0..<?n]"
    unfolding mq_abs_def c by (rule map_cong) (auto simp: nth_append)
  ultimately show ?thesis using e by simp
qed

lemma mq_enq_spec:
  assumes inv: "mq_inv q" and room: "mq_room (mq_abs q)"
  shows "\<exists>q'. mq_enq m q = Some q' \<and> mq_inv q' \<and> mq_abs q' = mq_abs q @ [m] \<and>
     q' = q\<lparr>q_queue := q_queue q', q_head := q_head q', q_tail := q_tail q', q_cap := q_cap q'\<rparr>"
proof -
  let ?n = "q_cap q" and ?h = "q_head q" and ?t = "q_tail q" and ?c = "mq_count q"
  have n: "0 < ?n" "?h < ?n" "?t < ?n" "length (q_queue q) = ?n" "0 < q_overload_threshold q"
    "?n \<le> 2 ^ 30"
    and full: "\<And>i. i < ?c \<Longrightarrow> q_queue q ! ((?h + i) mod ?n) \<noteq> None"
    and k: "\<exists>k. ?n = 64 * 2 ^ k"
    using inv by (auto simp: mq_inv_def)
  define t' where "t' = (if ?t + 1 \<ge> ?n then 0 else ?t + 1)"
  define b where "b = (q_queue q)[?t := Some m]"
  define q1 where "q1 = q\<lparr>q_queue := b, q_tail := t'\<rparr>"
  have t'n: "t' < ?n" using n unfolding t'_def by simp
  have tc: "?t = (?h + ?c) mod ?n"
    using n by (auto simp: mq_count_cases)
  have c: "?c < ?n" using mq_count_less [OF inv] .
  have bi: "b ! ((?h + i) mod ?n) = (if i = ?c then Some m else q_queue q ! ((?h + i) mod ?n))"
    if "i < ?n" for i
  proof -
    have "(?h + i) mod ?n = (?h + ?c) mod ?n \<longleftrightarrow> i = ?c"
      using that c n(2) by (rule ring_inj [rotated])
    then show ?thesis using n unfolding b_def tc by (auto simp: nth_list_update)
  qed
  have b_full: "b ! ((?h + i) mod ?n) \<noteq> None" if "i < Suc ?c" for i
    using that bi [of i] full [of i] c by (cases "i = ?c") auto
  have abs1: "map (\<lambda>i. the (b ! ((?h + i) mod ?n))) [0..<Suc ?c] = mq_abs q @ [m]"
    using bi c by (simp add: mq_abs_def)
  have push: "mq_enq m q = (if ?h = t' then expand_queue q1 else Some q1)"
    using n unfolding mq_enq_def q1_def b_def t'_def by (simp add: arr_set_ok Let_def)
  show ?thesis
  proof (cases "?h = t'")
    case True
    then have cn: "Suc ?c = ?n"
      using n by (auto simp: t'_def mq_count_cases split: if_splits)
    have "?n < 2 ^ 30" using room cn by (simp add: mq_room_def)
    then have "?n \<le> 2 ^ 29" using k pow_cap_half by blast
    then show ?thesis
      using expand_queue_spec [of q1] k n b_full cn abs1 push True
      unfolding q1_def b_def by simp
  next
    case False
    then have "mq_count q1 = Suc ?c"
      using n t'n unfolding q1_def t'_def by (auto simp: mq_count_cases split: if_splits)
    then show ?thesis
      using False push abs1 b_full n k t'n inv
      unfolding mq_inv_def mq_abs_def q1_def b_def by simp
  qed
qed

lemma mq_deq_spec:
  assumes "mq_inv q"
  shows "\<exists>r q'. mq_pop q = Some (r, q') \<and> mq_inv q' \<and> mq_abs q' = tl (mq_abs q) \<and>
     r = (case mq_abs q of [] \<Rightarrow> None | x # _ \<Rightarrow> Some x)"
proof (cases "mq_abs q")
  case Nil
  moreover from Nil have "mq_abs (q\<lparr>q_overload_threshold := MQ_OVERLOAD, q_in_global := False\<rparr>) = []"
    by (simp add: mq_abs_def mq_count_def)
  ultimately show ?thesis
    using mq_pop_empty [OF assms Nil] assms by (simp add: mq_inv_def mq_count_def MQ_OVERLOAD_def)
next
  case (Cons m ms)
  then show ?thesis using mq_pop_cons [OF assms Cons] by auto
qed

interpretation mq: fifo_queue mq_enq mq_pop mq_abs mq_inv "\<lambda>_. mq_room"
  using mq_enq_spec mq_deq_spec by unfold_locales (blast, blast)

section \<open>The global queue is a first-in first-out queue of addresses\<close>

text \<open>The queues linked from \<open>p\<close> through their \<open>next\<close> fields.\<close>

fun chain :: "(addr \<Rightarrow> message_queue option) \<Rightarrow> addr option \<Rightarrow> addr list \<Rightarrow> bool" where
  "chain m p [] \<longleftrightarrow> p = None"
| "chain m p (a # as) \<longleftrightarrow> p = Some a \<and> (\<exists>q. m a = Some q \<and> chain m (q_next q) as)"

text \<open>
  \<open>gq_rep s xs\<close>: the global queue of \<open>s\<close> holds the queues \<open>xs\<close>, front first. Queues outside the
  list have a null \<open>next\<close>, which is what \<open>skynet_globalmq_push\<close> asserts of its argument.
\<close>

definition gq_rep :: "mq_state \<Rightarrow> addr list \<Rightarrow> bool" where
  "gq_rep s xs \<longleftrightarrow> chain (mqs s) (gq_head s) xs \<and>
     gq_tail s = (if xs = [] then None else Some (last xs)) \<and>
     (\<forall>a q. mqs s a = Some q \<longrightarrow> a \<notin> set xs \<longrightarrow> q_next q = None)"

lemma chain_unique: "chain m p xs \<Longrightarrow> chain m p ys \<Longrightarrow> xs = ys"
proof (induction xs arbitrary: p ys)
  case Nil
  then show ?case by (cases ys) auto
next
  case (Cons a xs)
  then show ?case by (cases ys) auto
qed

lemma chain_upd_other [simp]:
  "a \<notin> set xs \<Longrightarrow> chain (m(a := v)) p xs = chain m p xs"
  by (induction xs arbitrary: p) auto

lemma chain_set: "chain m p xs \<Longrightarrow> a \<in> set xs \<Longrightarrow> \<exists>q. m a = Some q"
  by (induction xs arbitrary: p) auto

lemma chain_suffix: "chain m p (xs @ a # ys) \<Longrightarrow> \<exists>q. m a = Some q \<and> chain m (q_next q) ys"
  by (induction xs arbitrary: p) auto

lemma chain_distinct: "chain m p xs \<Longrightarrow> distinct xs"
proof (induction xs arbitrary: p)
  case Nil
  then show ?case by simp
next
  case (Cons a xs)
  then obtain q where q: "m a = Some q" "chain m (q_next q) xs" by auto
  have "a \<notin> set xs"
  proof
    assume "a \<in> set xs"
    then obtain ys zs where "xs = ys @ a # zs" by (metis split_list)
    with q chain_suffix [of m _ ys a zs] have "chain m (q_next q) zs" by auto
    with q(2) have "xs = zs" by (rule chain_unique)
    with \<open>xs = ys @ a # zs\<close> show False by auto
  qed
  with q Cons.IH show ?case by auto
qed

lemma chain_next_cong:
  assumes "\<And>a. a \<in> set xs \<Longrightarrow> map_option q_next (m a) = map_option q_next (m' a)"
  shows "chain m p xs = chain m' p xs"
  using assms
proof (induction xs arbitrary: p)
  case (Cons a xs)
  from Cons.prems [of a] have h: "map_option q_next (m a) = map_option q_next (m' a)" by simp
  from Cons have IH: "\<And>p. chain m p xs = chain m' p xs" by simp
  show ?case using h by (cases "m a"; cases "m' a") (auto simp: IH)
qed simp

lemma gq_rep_unique: "gq_rep s xs \<Longrightarrow> gq_rep s ys \<Longrightarrow> xs = ys"
  by (auto simp: gq_rep_def dest: chain_unique)

lemma gq_rep_distinct: "gq_rep s xs \<Longrightarrow> distinct xs"
  by (auto simp: gq_rep_def dest: chain_distinct)

lemma gq_rep_live: "gq_rep s xs \<Longrightarrow> a \<in> set xs \<Longrightarrow> \<exists>q. mqs s a = Some q"
  by (auto simp: gq_rep_def dest: chain_set)

lemma gq_rep_init: "gq_rep skynet_mq_init []"
  by (simp add: gq_rep_def skynet_mq_init_def)

text \<open>Changing a queue without touching its \<open>next\<close> field does not change the list.\<close>

lemma gq_rep_upd:
  assumes "gq_rep s xs" "mqs s a = Some q" "q_next q' = q_next q"
  shows "gq_rep (mq_upd a q' s) xs"
proof -
  have "chain ((mqs s)(a := Some q')) (gq_head s) xs = chain (mqs s) (gq_head s) xs"
    by (rule chain_next_cong) (auto simp: assms)
  then show ?thesis using assms by (auto simp: gq_rep_def)
qed

text \<open>Two states whose queues differ at most in the \<open>next\<close> links.\<close>

definition mqs_agree :: "mq_state \<Rightarrow> mq_state \<Rightarrow> bool" where
  "mqs_agree s s' \<longleftrightarrow> mq_brk s' = mq_brk s \<and>
     (\<forall>b. map_option (q_next_update (\<lambda>_. None)) (mqs s' b) =
          map_option (q_next_update (\<lambda>_. None)) (mqs s b))"

lemma mqs_agree_refl [simp]: "mqs_agree s s"
  by (simp add: mqs_agree_def)

lemma mqs_agree_trans: "mqs_agree s t \<Longrightarrow> mqs_agree t u \<Longrightarrow> mqs_agree s u"
  by (simp add: mqs_agree_def)

lemma mqs_agree_live: "mqs_agree s s' \<Longrightarrow> (mqs s' b = None) = (mqs s b = None)"
  by (metis mqs_agree_def option.map_disc_iff)

lemma mqs_agreeD:
  assumes "mqs_agree s s'" "mqs s b = Some q"
  shows "\<exists>n. mqs s' b = Some (q\<lparr>q_next := n\<rparr>)"
proof -
  from assms have "map_option (q_next_update (\<lambda>_. None)) (mqs s' b) = Some (q\<lparr>q_next := None\<rparr>)"
    by (simp add: mqs_agree_def)
  then obtain q' where q': "mqs s' b = Some q'" "q'\<lparr>q_next := None\<rparr> = q\<lparr>q_next := None\<rparr>" by auto
  then have "q' = q\<lparr>q_next := q_next q'\<rparr>" by (cases q, cases q') simp
  with q'(1) show ?thesis by (metis (no_types))
qed

lemma chain_append_node:
  assumes "chain m p xs" "xs \<noteq> []" "last xs = t" "m t = Some tq" "a \<notin> set xs"
    "m a = Some q" "q_next q = None"
  shows "chain (m(t := Some (tq\<lparr>q_next := Some a\<rparr>))) p (xs @ [a])"
  using assms
proof (induction xs arbitrary: p)
  case Nil
  then show ?case by simp
next
  case (Cons b xs)
  from Cons.prems(1) have d: "b \<notin> set xs" using chain_distinct [OF Cons.prems(1)] by simp
  show ?case
  proof (cases "xs = []")
    case True
    with Cons.prems show ?thesis by auto
  next
    case False
    with Cons.prems d have "b \<noteq> t" by auto
    with Cons False show ?thesis by auto
  qed
qed

lemma skynet_globalmq_push_spec:
  assumes rep: "gq_rep s xs" and live: "mqs s a = Some q" and new: "a \<notin> set xs"
  shows "\<exists>s'. skynet_globalmq_push a s = Some s' \<and> gq_rep s' (xs @ [a]) \<and>
     mqs_agree s s'"
proof -
  have nx: "q_next q = None" using rep live new by (simp add: gq_rep_def)
  show ?thesis
  proof (cases "xs = []")
    case True
    with rep live nx show ?thesis by (auto simp: skynet_globalmq_push_def gq_rep_def mqs_agree_def)
  next
    case False
    let ?t = "last xs"
    obtain tq where tq: "mqs s ?t = Some tq" using gq_rep_live [OF rep, of ?t] False by auto
    from False rep new have "?t \<noteq> a" by (metis last_in_set)
    with tq nx live have "mqs s a = Some q" "q_next q = None" by auto
    with chain_append_node [of "mqs s" "gq_head s" xs ?t tq a q] rep False tq new
    have "chain ((mqs s)(?t := Some (tq\<lparr>q_next := Some a\<rparr>))) (gq_head s) (xs @ [a])"
      by (simp add: gq_rep_def)
    with rep False tq live nx show ?thesis
      by (auto simp: skynet_globalmq_push_def gq_rep_def mqs_agree_def)
  qed
qed

lemma skynet_globalmq_pop_spec:
  assumes rep: "gq_rep s xs"
  shows "\<exists>s'. skynet_globalmq_pop s = Some (case xs of [] \<Rightarrow> None | a # _ \<Rightarrow> Some a, s') \<and>
     gq_rep s' (tl xs) \<and>
     mqs_agree s s'"
proof (cases xs)
  case Nil
  with rep show ?thesis by (simp add: skynet_globalmq_pop_def gq_rep_def)
next
  case (Cons a ys)
  with rep obtain q where q: "mqs s a = Some q" "chain (mqs s) (q_next q) ys" "gq_head s = Some a"
    by (auto simp: gq_rep_def)
  have "distinct xs" using gq_rep_distinct [OF rep] .
  then have "a \<notin> set ys" using Cons by simp
  moreover have "q_next q = None \<longleftrightarrow> ys = []" using q(2) by (cases ys) auto
  ultimately show ?thesis
    using rep q Cons by (auto simp: skynet_globalmq_pop_def gq_rep_def mqs_agree_def)
qed

definition gq_abs :: "mq_state \<Rightarrow> addr list" where
  "gq_abs s = (THE xs. gq_rep s xs)"

definition gq_inv :: "addr set \<Rightarrow> mq_state \<Rightarrow> bool" where
  "gq_inv A s \<longleftrightarrow> (\<exists>xs. gq_rep s xs) \<and> (\<forall>a \<in> A. mqs s a \<noteq> None)"

lemma gq_abs_eq: "gq_rep s xs \<Longrightarrow> gq_abs s = xs"
  unfolding gq_abs_def by (blast intro: gq_rep_unique)

interpretation gq: fifo_queue skynet_globalmq_push skynet_globalmq_pop gq_abs "gq_inv A"
    "\<lambda>a xs. a \<in> A \<and> a \<notin> set xs"
  for A
proof unfold_locales
  fix q :: mq_state and x
  assume inv: "gq_inv A q" and x: "x \<in> A \<and> x \<notin> set (gq_abs q)"
  then obtain xs mq where xs: "gq_rep q xs" "mqs q x = Some mq" by (auto simp: gq_inv_def)
  with x have "x \<notin> set xs" by (simp add: gq_abs_eq)
  from skynet_globalmq_push_spec [OF xs this] obtain s' where
    s': "skynet_globalmq_push x q = Some s'" "gq_rep s' (xs @ [x])"
      "mqs_agree q s'" by blast
  moreover have "gq_inv A s'" using inv s' mqs_agree_live [OF s'(3)] by (auto simp: gq_inv_def)
  ultimately show "\<exists>q'. skynet_globalmq_push x q = Some q' \<and> gq_inv A q' \<and> gq_abs q' = gq_abs q @ [x]"
    using xs by (auto simp: gq_abs_eq)
next
  fix q :: mq_state
  assume inv: "gq_inv A q"
  then obtain xs where xs: "gq_rep q xs" by (auto simp: gq_inv_def)
  from skynet_globalmq_pop_spec [OF this] obtain s' where
    s': "skynet_globalmq_pop q = Some (case xs of [] \<Rightarrow> None | a # _ \<Rightarrow> Some a, s')"
      "gq_rep s' (tl xs)"
      "mqs_agree q s'" by blast
  moreover have "gq_inv A s'" using inv s' mqs_agree_live [OF s'(3)] by (auto simp: gq_inv_def)
  ultimately show "\<exists>r q'. skynet_globalmq_pop q = Some (r, q') \<and> gq_inv A q' \<and>
      gq_abs q' = tl (gq_abs q) \<and> r = (case gq_abs q of [] \<Rightarrow> None | x # _ \<Rightarrow> Some x)"
    using xs by (auto simp: gq_abs_eq)
qed

section \<open>Properties\<close>

text \<open>
  C6. The ring buffer of a service is a first-in first-out queue, whatever sequence of pushes and
  pops is applied to a new queue, however long it is and however often the buffer grows on the
  way: every pop returns what the pop of an ordinary list returns, no operation fails an
  assertion or reads an unwritten cell, and the buffer ends holding exactly the messages the list
  ends with. The condition is that a push finds fewer than \<open>2 ^ 30 - 1\<close> messages waiting: beyond that,
  doubling the \<open>int\<close> capacity would overflow.
\<close>

theorem mq_refines_list:
  assumes "ops_ok (\<lambda>_ waiting. length waiting < 2 ^ 30 - 1) ops []"
  shows "\<exists>q'. fifo_run mq_enq mq_pop ops (mq_new h) = Some (fst (list_run ops []), q') \<and>
     mq_inv q' \<and> mq_abs q' = snd (list_run ops [])"
proof -
  have "(\<lambda>_. mq_room) = (\<lambda>(_ :: skynet_message) waiting. length waiting < 2 ^ 30 - 1)" by (simp add: mq_room_def fun_eq_iff)
  with mq.run_refines [OF mq_new_inv [of h], of ops] assms show ?thesis by (simp add: mq_new_abs)
qed

theorem mq_refines_list_witness:
  "\<exists>q'. fifo_run mq_enq mq_pop
      [Enq \<lparr>m_source = 1, m_session = 5, m_data = None, m_sz = 0\<rparr>,
       Enq \<lparr>m_source = 2, m_session = 6, m_data = None, m_sz = 0\<rparr>, Deq, Deq, Deq] (mq_new 7) =
    Some ([Some \<lparr>m_source = 1, m_session = 5, m_data = None, m_sz = 0\<rparr>,
           Some \<lparr>m_source = 2, m_session = 6, m_data = None, m_sz = 0\<rparr>, None], q') \<and> mq_abs q' = []"
  using mq_refines_list [of
      "[Enq \<lparr>m_source = 1, m_session = 5, m_data = None, m_sz = 0\<rparr>,
       Enq \<lparr>m_source = 2, m_session = 6, m_data = None, m_sz = 0\<rparr>, Deq, Deq, Deq]" 7]
  by (auto simp del: fifo_run.simps)

text \<open>
  The global queue is a first-in first-out queue of services: starting from any well-formed
  global list \<open>xs\<close>, any sequence of pushes of live queues that are not linked already and of pops
  behaves as on the list, and the intrusive \<open>next\<close> links and the tail pointer end up
  representing the resulting list, so no assertion of the push or the pop can fail.
\<close>

theorem globalmq_refines_list:
  assumes "gq_rep s xs" "\<forall>a \<in> A. mqs s a \<noteq> None"
    "ops_ok (\<lambda>a xs. a \<in> A \<and> a \<notin> set xs) ops xs"
  shows "\<exists>s'. fifo_run skynet_globalmq_push skynet_globalmq_pop ops s =
       Some (fst (list_run ops xs), s') \<and> gq_rep s' (snd (list_run ops xs))"
proof -
  have "gq_inv A s" using assms(1,2) by (auto simp: gq_inv_def)
  from gq.run_refines [OF this, of ops] assms show ?thesis
    by (auto simp: gq_abs_eq gq_inv_def)
qed

theorem globalmq_refines_list_witness:
  "\<exists>s'. fifo_run skynet_globalmq_push skynet_globalmq_pop [Enq 0, Enq 1, Deq, Enq 0, Deq]
      (snd (skynet_mq_create 9 (snd (skynet_mq_create 8 skynet_mq_init)))) =
    Some ([Some 0, Some 1], s') \<and> gq_rep s' [0]"
proof -
  let ?s = "snd (skynet_mq_create 9 (snd (skynet_mq_create 8 skynet_mq_init)))"
  have "gq_rep ?s []" "\<forall>a \<in> {0, 1}. mqs ?s a \<noteq> None"
    by (auto simp: gq_rep_def skynet_mq_create_def skynet_mq_init_def mq_new_def)
  from globalmq_refines_list [OF this, of "[Enq 0, Enq 1, Deq, Enq 0, Deq]"]
  show ?thesis by (auto simp del: fifo_run.simps)
qed

lemma skynet_mq_push_spec:
  assumes rep: "gq_rep s xs" and q: "mqs s a = Some q" "mq_inv q" "mq_room (mq_abs q)"
    and idle: "\<not> q_in_global q \<Longrightarrow> a \<notin> set xs"
  shows "\<exists>s' q'. skynet_mq_push a m s = Some s' \<and> mqs s' a = Some q' \<and> mq_inv q' \<and>
     mq_abs q' = mq_abs q @ [m] \<and> q_in_global q' \<and> q_handle q' = q_handle q \<and>
     q_release q' = q_release q \<and>
     gq_rep s' (if q_in_global q then xs else xs @ [a]) \<and>
     (\<forall>b. b \<noteq> a \<longrightarrow> map_option (q_next_update (\<lambda>_. None)) (mqs s' b) =
        map_option (q_next_update (\<lambda>_. None)) (mqs s b))"
proof -
  from mq_enq_spec [OF q(2,3), of m] obtain q1 where
    q1: "mq_enq m q = Some q1" "mq_inv q1" "mq_abs q1 = mq_abs q @ [m]"
      and same: "q1 = q\<lparr>q_queue := q_queue q1, q_head := q_head q1, q_tail := q_tail q1, q_cap := q_cap q1\<rparr>"
    by blast
  from same have f: "q_next q1 = q_next q" "q_in_global q1 = q_in_global q" "q_handle q1 = q_handle q"
    "q_release q1 = q_release q"
    by (cases q; cases q1; simp)+
  show ?thesis
  proof (cases "q_in_global q")
    case True
    with q1 f q(1) gq_rep_upd [OF rep q(1) f(1)] show ?thesis
      by (auto simp: skynet_mq_push_def)
  next
    case False
    let ?q = "q1\<lparr>q_in_global := True\<rparr>"
    have rep': "gq_rep (mq_upd a ?q s) xs" using gq_rep_upd [OF rep q(1), of ?q] f by simp
    have "mqs (mq_upd a ?q s) a = Some ?q" by simp
    from skynet_globalmq_push_spec [OF rep' this idle [OF False]] obtain s' where
      s': "skynet_globalmq_push a (mq_upd a ?q s) = Some s'" "gq_rep s' (xs @ [a])"
        "mqs_agree (mq_upd a ?q s) s'" by blast
    from mqs_agreeD [OF s'(3), of a ?q] obtain n where n: "mqs s' a = Some (?q\<lparr>q_next := n\<rparr>)" by auto
    have "mq_inv (?q\<lparr>q_next := n\<rparr>)" "mq_abs (?q\<lparr>q_next := n\<rparr>) = mq_abs q1"
      using q1(2) by (simp_all add: mq_inv_def mq_abs_def mq_count_def)
    with s' n q1 f False q(1) show ?thesis
      by (auto simp: skynet_mq_push_def mqs_agree_def)
  qed
qed

text \<open>
  A push never loses a wake-up: it appends the message to the queue of the service and, when
  that queue was idle, links it once at the back of the global list; a queue that is scheduled
  already stays where it is. No other queue changes, but for its \<open>next\<close> link.
\<close>

theorem mq_push_wakes:
  assumes rep: "gq_rep s xs" and q: "mqs s a = Some q" "mq_inv q" "mq_room (mq_abs q)"
    and idle: "\<not> q_in_global q \<Longrightarrow> a \<notin> set xs"
  shows "\<exists>s' q'. skynet_mq_push a m s = Some s' \<and> mqs s' a = Some q' \<and> mq_inv q' \<and>
     mq_abs q' = mq_abs q @ [m] \<and> q_in_global q' \<and> q_handle q' = q_handle q \<and>
     q_release q' = q_release q \<and>
     gq_rep s' (if q_in_global q then xs else xs @ [a]) \<and>
     (\<forall>b. b \<noteq> a \<longrightarrow> map_option (q_next_update (\<lambda>_. None)) (mqs s' b) =
        map_option (q_next_update (\<lambda>_. None)) (mqs s b))"
  using skynet_mq_push_spec [OF rep q idle, of m] by blast

theorem mq_push_wakes_witness:
  "\<exists>s' q'. skynet_mq_push 0 \<lparr>m_source = 1, m_session = 5, m_data = None, m_sz = 0\<rparr>
      (skynet_mq_init\<lparr>mqs := [0 \<mapsto> mq_new 8\<lparr>q_in_global := False\<rparr>], mq_brk := 1\<rparr>) = Some s' \<and>
    mqs s' 0 = Some q' \<and> mq_abs q' = [\<lparr>m_source = 1, m_session = 5, m_data = None, m_sz = 0\<rparr>] \<and>
    gq_rep s' [0]"
proof -
  let ?q = "mq_new 8\<lparr>q_in_global := False\<rparr>"
  let ?s = "skynet_mq_init\<lparr>mqs := [0 \<mapsto> ?q], mq_brk := 1\<rparr>"
  have "gq_rep ?s []" "mqs ?s 0 = Some ?q" by (simp_all add: gq_rep_def skynet_mq_init_def mq_new_def)
  moreover have inv: "mq_inv ?q" "mq_abs ?q = []"
    using mq_new_inv [of 8] mq_new_abs [of 8] by (simp_all add: mq_inv_def mq_abs_def mq_count_def)
  moreover have "mq_room (mq_abs ?q)" by (simp add: inv mq_room_def)
  ultimately show ?thesis using mq_push_wakes [of ?s "[]" 0 ?q] by fastforce
qed

text \<open>
  The overload report. A pop that leaves more messages waiting than the threshold records
  that number and doubles the threshold until it is reached, so that the same backlog is reported
  once per doubling; otherwise the record is unchanged. Reading the record returns and clears it,
  and a pop from the empty queue resets the threshold.
\<close>

theorem mq_overload_report:
  assumes inv: "mq_inv q"
  shows "case mq_abs q of
      [] \<Rightarrow> mq_pop q = Some (None, q\<lparr>q_overload_threshold := MQ_OVERLOAD, q_in_global := False\<rparr>)
    | m # ms \<Rightarrow> \<exists>q' k. mq_pop q = Some (Some m, q') \<and> mq_inv q' \<and>
        q_overload_threshold q' = q_overload_threshold q * 2 ^ k \<and>
        int (length ms) \<le> q_overload_threshold q' \<and>
        (k = 0 \<or> q_overload_threshold q * 2 ^ (k - 1) < int (length ms)) \<and>
        (let r = (if q_overload_threshold q < int (length ms) then int (length ms) else q_overload q) in
         skynet_mq_overload q' = (r, q'\<lparr>q_overload := 0\<rparr>))"
proof (cases "mq_abs q")
  case Nil
  then show ?thesis using mq_pop_empty [OF inv Nil] by simp
next
  case (Cons m ms)
  from mq_pop_cons [OF inv Cons] obtain q' k where q': "mq_pop q = Some (Some m, q')" "mq_inv q'"
    "q_overload_threshold q' = q_overload_threshold q * 2 ^ k"
    "int (length ms) \<le> q_overload_threshold q * 2 ^ k"
    "k = 0 \<or> q_overload_threshold q * 2 ^ (k - 1) < int (length ms)"
    "q_overload q' = (if int (length ms) > q_overload_threshold q then int (length ms) else q_overload q)"
    by blast
  have "skynet_mq_overload q' = (q_overload q', q'\<lparr>q_overload := 0\<rparr>)"
    by (cases q') (simp add: skynet_mq_overload_def)
  with q' show ?thesis unfolding Cons list.case
    by (intro exI [of _ q'] exI [of _ k]) (simp add: Let_def)
qed

theorem mq_overload_report_witness:
  "\<exists>q. mq_enq \<lparr>m_source = 1, m_session = 5, m_data = None, m_sz = 0\<rparr> (mq_new 8) = Some q \<and>
    (\<exists>q' k. mq_pop q = Some (Some \<lparr>m_source = 1, m_session = 5, m_data = None, m_sz = 0\<rparr>, q') \<and>
       q_overload_threshold q' = q_overload_threshold q * 2 ^ (k :: nat))"
proof -
  let ?m = "\<lparr>m_source = 1, m_session = 5, m_data = None, m_sz = 0\<rparr>"
  have "mq_room (mq_abs (mq_new 8))" by (simp add: mq_new_abs mq_room_def)
  from mq_enq_spec [OF mq_new_inv [of 8] this, of ?m] obtain q where
    q: "mq_enq ?m (mq_new 8) = Some q" "mq_inv q" "mq_abs q = [?m]" by (auto simp: mq_new_abs)
  from mq_overload_report [OF q(2)] q(1,3) show ?thesis by (auto simp: Let_def)
qed

end
