(* ===== verification/Skynet_Tokens.thy ===== *)
theory Skynet_Tokens
  imports Skynet_Mq
begin

text \<open>
  Who may touch a queue. A queue that has work, or that is to be released, has one token: it is
  either linked in the global list or held by one worker (or by the thread that is creating the
  service). \<open>in_global\<close> and \<open>release\<close> say that the token exists; an idle queue has none and is
  empty. The invariant is stated for the set \<open>A\<close> of queues held by threads, and every operation
  of \<^verbatim>\<open>skynet_mq.c\<close> moves tokens as the comments of that file and of \<^verbatim>\<open>skynet_server.c\<close> say.
\<close>

section \<open>The token invariant\<close>

definition token_ok :: "bool \<Rightarrow> message_queue \<Rightarrow> bool" where
  "token_ok t q \<longleftrightarrow> ((q_in_global q \<or> q_release q) \<longleftrightarrow> t) \<and> (\<not> q_in_global q \<longrightarrow> mq_abs q = [])"

definition queues_rep :: "addr set \<Rightarrow> mq_state \<Rightarrow> addr list \<Rightarrow> bool" where
  "queues_rep A m xs \<longleftrightarrow> gq_rep m xs \<and> A \<inter> set xs = {} \<and> (\<forall>a \<in> A. mqs m a \<noteq> None) \<and>
     (\<forall>a q. mqs m a = Some q \<longrightarrow> token_ok (a \<in> A \<or> a \<in> set xs) q \<and> mq_inv q \<and> a < mq_brk m)"

definition queues_inv :: "addr set \<Rightarrow> mq_state \<Rightarrow> bool" where
  "queues_inv A m \<longleftrightarrow> (\<exists>xs. queues_rep A m xs)"

lemma queues_repD:
  assumes "queues_rep A m xs" "mqs m a = Some q"
  shows "token_ok (a \<in> A \<or> a \<in> set xs) q" "mq_inv q" "a < mq_brk m"
  using assms by (auto simp: queues_rep_def)

lemma queues_rep_live: "queues_rep A m xs \<Longrightarrow> a \<in> A \<or> a \<in> set xs \<Longrightarrow> \<exists>q. mqs m a = Some q"
  by (auto simp: queues_rep_def dest: gq_rep_live)

text \<open>Fields of a queue that do not depend on its \<open>next\<close> link.\<close>

lemma mq_next_simps [simp]:
  "mq_inv (q\<lparr>q_next := x\<rparr>) = mq_inv q" "mq_abs (q\<lparr>q_next := x\<rparr>) = mq_abs q"
  "token_ok t (q\<lparr>q_next := x\<rparr>) = token_ok t q"
  by (simp_all add: mq_inv_def mq_abs_def mq_count_def token_ok_def)

text \<open>Queues equal up to their \<open>next\<close> links.\<close>

definition eq_next :: "message_queue option \<Rightarrow> message_queue option \<Rightarrow> bool" where
  "eq_next a b \<longleftrightarrow> map_option (q_next_update (\<lambda>_. None)) a = map_option (q_next_update (\<lambda>_. None)) b"

lemma eq_next_refl [simp]: "eq_next a a"
  by (simp add: eq_next_def)

lemma eq_next_trans: "eq_next a b \<Longrightarrow> eq_next b c \<Longrightarrow> eq_next a c"
  by (simp add: eq_next_def)

lemma eq_nextD:
  assumes "eq_next (Some q) b"
  shows "\<exists>x. b = Some (q\<lparr>q_next := x\<rparr>)"
proof -
  from assms obtain q' where q': "b = Some q'" "q'\<lparr>q_next := None\<rparr> = q\<lparr>q_next := None\<rparr>"
    by (cases b) (auto simp: eq_next_def)
  then have "q' = q\<lparr>q_next := q_next q'\<rparr>" by (cases q, cases q') simp
  with q'(1) show ?thesis by metis
qed

lemma eq_next_None [simp]: "eq_next None b \<longleftrightarrow> b = None" "eq_next a None \<longleftrightarrow> a = None"
  by (auto simp: eq_next_def)

lemma eq_next_sym: "eq_next a b \<Longrightarrow> eq_next b a"
  by (simp add: eq_next_def)

lemma mqs_agree_eq_next: "mqs_agree s s' \<Longrightarrow> eq_next (mqs s b) (mqs s' b)"
  by (simp add: mqs_agree_def eq_next_def)

text \<open>Re-establishing the invariant from a new list, new holders and the changed queues.\<close>

lemma queues_rep_intro:
  assumes "gq_rep m' xs'" "A' \<inter> set xs' = {}" "\<And>a. a \<in> A' \<Longrightarrow> mqs m' a \<noteq> None"
    and "\<And>a q. mqs m' a = Some q \<Longrightarrow> token_ok (a \<in> A' \<or> a \<in> set xs') q"
    and "\<And>a q. mqs m' a = Some q \<Longrightarrow> mq_inv q" "\<And>a q. mqs m' a = Some q \<Longrightarrow> a < mq_brk m'"
  shows "queues_rep A' m' xs'"
  using assms by (auto simp: queues_rep_def)

text \<open>The common step: one queue changes, the others at most in their links.\<close>

lemma queues_rep_change:
  assumes rep: "queues_rep A m xs"
    and new: "gq_rep m' xs'" "A' \<inter> set xs' = {}" "mq_brk m' = mq_brk m"
    and a: "mqs m a = Some q" "mqs m' a = Some q'" "mq_inv q'" "token_ok (a \<in> A' \<or> a \<in> set xs') q'"
    and oth: "\<And>b. b \<noteq> a \<Longrightarrow> eq_next (mqs m b) (mqs m' b)"
    and tok: "\<And>b. b \<noteq> a \<Longrightarrow> (b \<in> A' \<or> b \<in> set xs') = (b \<in> A \<or> b \<in> set xs)"
  shows "queues_rep A' m' xs'"
proof (rule queues_rep_intro [OF new(1,2)])
  fix b assume b: "b \<in> A'"
  show "mqs m' b \<noteq> None"
  proof (cases "b = a")
    case False
    with tok b have "b \<in> A \<or> b \<in> set xs" by blast
    then obtain p where p: "mqs m b = Some p" using queues_rep_live [OF rep] by blast
    from eq_nextD [OF oth [OF False, unfolded p]] show ?thesis by auto
  qed (use a in simp)
next
  fix b p assume p: "mqs m' b = Some p"
  have *: "token_ok (b \<in> A' \<or> b \<in> set xs') p \<and> mq_inv p \<and> b < mq_brk m'"
  proof (cases "b = a")
    case True
    with p a queues_repD(3) [OF rep a(1)] new(3) show ?thesis by auto
  next
    case False
    from eq_nextD [OF eq_next_sym [OF oth [OF False, unfolded p]]] obtain x where
      x: "mqs m b = Some (p\<lparr>q_next := x\<rparr>)" by blast
    from queues_repD [OF rep x] new(3) tok [OF False] show ?thesis by simp
  qed
  then show "token_ok (b \<in> A' \<or> b \<in> set xs') p" "mq_inv p" "b < mq_brk m'" by auto
qed

section \<open>How the operations move the tokens\<close>

text \<open>Popping the global list gives the token of its first queue to the caller.\<close>

lemma globalmq_pop_token:
  assumes rep: "queues_rep A m xs"
  shows "\<exists>m'. skynet_globalmq_pop m = Some (case xs of [] \<Rightarrow> None | a # _ \<Rightarrow> Some a, m') \<and>
     queues_rep (case xs of [] \<Rightarrow> A | a # _ \<Rightarrow> insert a A) m' (tl xs) \<and> mqs_agree m m'"
proof -
  from rep have g: "gq_rep m xs" by (simp add: queues_rep_def)
  from skynet_globalmq_pop_spec [OF g] obtain m' where
    m': "skynet_globalmq_pop m = Some (case xs of [] \<Rightarrow> None | a # _ \<Rightarrow> Some a, m')"
      "gq_rep m' (tl xs)" "mqs_agree m m'" by blast
  have brk: "mq_brk m' = mq_brk m" using m'(3) by (simp add: mqs_agree_def)
  have "queues_rep (case xs of [] \<Rightarrow> A | a # _ \<Rightarrow> insert a A) m' (tl xs)"
  proof (rule queues_rep_intro [OF m'(2)])
    show "(case xs of [] \<Rightarrow> A | a # _ \<Rightarrow> insert a A) \<inter> set (tl xs) = {}"
      using rep gq_rep_distinct [OF g] by (cases xs) (auto simp: queues_rep_def)
    fix b assume "b \<in> (case xs of [] \<Rightarrow> A | a # _ \<Rightarrow> insert a A)"
    then have "b \<in> A \<or> b \<in> set xs" by (cases xs) auto
    then show "mqs m' b \<noteq> None"
      using queues_rep_live [OF rep] mqs_agree_live [OF m'(3), of b] by auto
  next
    fix b p assume p: "mqs m' b = Some p"
    from eq_nextD [OF eq_next_sym [OF mqs_agree_eq_next [OF m'(3), of b], unfolded p]] obtain x where
      x: "mqs m b = Some (p\<lparr>q_next := x\<rparr>)" by blast
    have t: "(b \<in> (case xs of [] \<Rightarrow> A | a # _ \<Rightarrow> insert a A) \<or> b \<in> set (tl xs)) = (b \<in> A \<or> b \<in> set xs)"
      by (cases xs) auto
    show "token_ok (b \<in> (case xs of [] \<Rightarrow> A | a # _ \<Rightarrow> insert a A) \<or> b \<in> set (tl xs)) p" "mq_inv p"
      "b < mq_brk m'"
      using queues_repD [OF rep x] brk unfolding t by simp_all
  qed
  with m' show ?thesis by blast
qed

text \<open>Linking a held queue gives its token to the global list.\<close>

lemma globalmq_push_token:
  assumes rep: "queues_rep A m xs" and a: "a \<in> A"
  shows "\<exists>m'. skynet_globalmq_push a m = Some m' \<and> queues_rep (A - {a}) m' (xs @ [a]) \<and> mqs_agree m m'"
proof -
  from rep a obtain q where q: "mqs m a = Some q" by (auto simp: queues_rep_def)
  from rep a have g: "gq_rep m xs" "a \<notin> set xs" by (auto simp: queues_rep_def)
  from skynet_globalmq_push_spec [OF g(1) q g(2)] obtain m' where
    m': "skynet_globalmq_push a m = Some m'" "gq_rep m' (xs @ [a])" "mqs_agree m m'" by blast
  from mqs_agreeD [OF m'(3) q] obtain x where x: "mqs m' a = Some (q\<lparr>q_next := x\<rparr>)" by blast
  have "queues_rep (A - {a}) m' (xs @ [a])"
  proof (rule queues_rep_change [OF rep m'(2) _ _ q x])
    show "token_ok (a \<in> A - {a} \<or> a \<in> set (xs @ [a])) (q\<lparr>q_next := x\<rparr>)"
      using queues_repD(1) [OF rep q] a by simp
  qed (use rep m'(3) queues_repD [OF rep q] in
      \<open>auto simp: queues_rep_def mqs_agree_def eq_next_def\<close>)
  with m' show ?thesis by blast
qed

text \<open>
  Pushing a message to a queue whose service is alive: the message is appended and an idle queue
  gets its token, in the global list.
\<close>

lemma mq_push_token:
  assumes rep: "queues_rep A m xs" and q: "mqs m a = Some q" "\<not> q_release q" "mq_room (mq_abs q)"
  shows "\<exists>m' q' xs'. skynet_mq_push a msg m = Some m' \<and> queues_rep A m' xs' \<and>
     set xs \<subseteq> set xs' \<and> set xs' \<subseteq> insert a (set xs) \<and>
     mqs m' a = Some q' \<and> mq_abs q' = mq_abs q @ [msg] \<and> q_in_global q' \<and> \<not> q_release q' \<and>
     q_handle q' = q_handle q \<and> mq_brk m' = mq_brk m \<and>
     (\<forall>b. b \<noteq> a \<longrightarrow> eq_next (mqs m b) (mqs m' b))"
proof -
  note t = queues_repD [OF rep q(1)]
  have g: "gq_rep m xs" using rep by (simp add: queues_rep_def)
  have idle: "a \<notin> A \<and> a \<notin> set xs" if "\<not> q_in_global q"
    using that t(1) q(2) by (auto simp: token_ok_def)
  let ?xs = "if q_in_global q then xs else xs @ [a]"
  from skynet_mq_push_spec [OF g q(1) t(2) q(3), of msg] idle obtain m' q' where
    r: "skynet_mq_push a msg m = Some m'" "mqs m' a = Some q'" "mq_inv q'"
      "mq_abs q' = mq_abs q @ [msg]" "q_in_global q'" "q_handle q' = q_handle q"
      "q_release q' = q_release q" "gq_rep m' ?xs"
      and oth: "\<And>b. b \<noteq> a \<Longrightarrow> map_option (q_next_update (\<lambda>_. None)) (mqs m' b) =
         map_option (q_next_update (\<lambda>_. None)) (mqs m b)" by blast
  have brk: "mq_brk m' = mq_brk m"
    using r(1) by (auto simp: skynet_mq_push_def skynet_globalmq_push_def bind_Some_iff
        split: if_splits option.splits)
  have "queues_rep A m' ?xs"
  proof (rule queues_rep_change [OF rep r(8) _ brk q(1) r(2,3)])
    show "token_ok (a \<in> A \<or> a \<in> set ?xs) q'"
      using t(1) r(5) by (auto simp: token_ok_def)
  qed (use rep idle oth in \<open>auto simp: queues_rep_def eq_next_def\<close>)
  moreover have "set xs \<subseteq> set ?xs" "set ?xs \<subseteq> insert a (set xs)" by auto
  moreover have "\<forall>b. b \<noteq> a \<longrightarrow> eq_next (mqs m b) (mqs m' b)" using oth by (simp add: eq_next_def)
  ultimately show ?thesis using r q(2) brk
    by (intro exI [of _ m'] exI [of _ q'] exI [of _ ?xs]) (auto simp del: if_split)
qed

text \<open>
  A pop by the holder. A message leaves the token where it is; finding the queue empty gives the
  token up, unless the queue is being released, when it stays with the holder.
\<close>

lemma mq_pop_token:
  assumes rep: "queues_rep A m xs" and a: "a \<in> A" and q: "mqs m a = Some q"
  shows "\<exists>m' q'. skynet_mq_pop a m = Some (case mq_abs q of [] \<Rightarrow> None | x # _ \<Rightarrow> Some x, m') \<and>
     m' = mq_upd a q' m \<and> mq_abs q' = tl (mq_abs q) \<and> q_release q' = q_release q \<and>
     q_handle q' = q_handle q \<and> q_next q' = q_next q \<and>
     queues_rep (if mq_abs q = [] \<and> \<not> q_release q then A - {a} else A) m' xs"
proof -
  note t = queues_repD [OF rep q]
  have g: "gq_rep m xs" "a \<notin> set xs" "A \<inter> set xs = {}" using rep a by (auto simp: queues_rep_def)
  have change: "queues_rep A' (mq_upd a q' m) xs"
    if "A' = A \<or> A' = A - {a}" "q_next q' = q_next q" "mq_inv q'" "token_ok (a \<in> A') q'" for A' q'
  proof (rule queues_rep_change [OF rep gq_rep_upd [OF g(1) q that(2)] _ _ q])
    show "A' \<inter> set xs = {}" using g(3) that(1) by auto
    show "(b \<in> A' \<or> b \<in> set xs) = (b \<in> A \<or> b \<in> set xs)" if "b \<noteq> a" for b
      using \<open>A' = A \<or> A' = A - {a}\<close> that by auto
  qed (use that g in auto)
  show ?thesis
  proof (cases "mq_abs q")
    case Nil
    let ?q = "q\<lparr>q_overload_threshold := MQ_OVERLOAD, q_in_global := False\<rparr>"
    have i: "mq_inv ?q" "mq_abs ?q = []"
      using t(2) Nil by (simp_all add: mq_inv_def mq_abs_def mq_count_def MQ_OVERLOAD_def)
    have "token_ok (a \<in> (if \<not> q_release q then A - {a} else A)) ?q"
      using i a by (simp add: token_ok_def)
    with change [of "if \<not> q_release q then A - {a} else A" ?q] i Nil mq_pop_empty [OF t(2) Nil] q
    show ?thesis
      by (intro exI [of _ "mq_upd a ?q m"] exI [of _ ?q]) (simp add: skynet_mq_pop_def)
  next
    case (Cons x ms)
    from mq_pop_cons [OF t(2) Cons] obtain q' where q': "mq_pop q = Some (Some x, q')" "mq_inv q'"
      "mq_abs q' = ms" "q_in_global q' = q_in_global q" "q_release q' = q_release q"
      "q_next q' = q_next q" "q_handle q' = q_handle q" by blast
    have "token_ok (a \<in> A) q'" using t(1) q' a Cons by (auto simp: token_ok_def)
    with change [of A q'] q' Cons q show ?thesis by (auto simp: skynet_mq_pop_def)
  qed
qed

text \<open>Marking a queue for release makes sure that it has a token.\<close>

lemma mq_mark_release_token:
  assumes rep: "queues_rep A m xs" and q: "mqs m a = Some q" "\<not> q_release q"
  shows "\<exists>m' q' xs'. skynet_mq_mark_release a m = Some m' \<and> queues_rep A m' xs' \<and>
     set xs \<subseteq> set xs' \<and> set xs' \<subseteq> insert a (set xs) \<and>
     mqs m' a = Some q' \<and> q_release q' \<and> mq_abs q' = mq_abs q \<and> q_handle q' = q_handle q \<and>
     mq_brk m' = mq_brk m \<and>
     (\<forall>b. b \<noteq> a \<longrightarrow> eq_next (mqs m b) (mqs m' b))"
proof -
  note t = queues_repD [OF rep q(1)]
  let ?q = "q\<lparr>q_release := True\<rparr>" and ?m = "mq_upd a (q\<lparr>q_release := True\<rparr>) m"
  have g: "gq_rep m xs" using rep by (simp add: queues_rep_def)
  have g1: "gq_rep ?m xs" using gq_rep_upd [OF g q(1), of ?q] by simp
  have i: "mq_inv ?q" "mq_abs ?q = mq_abs q" using t(2) by (simp_all add: mq_inv_def mq_abs_def mq_count_def)
  show ?thesis
  proof (cases "q_in_global q")
    case True
    have "queues_rep A ?m xs"
      by (rule queues_rep_change [OF rep g1 _ _ q(1), of _ ?q])
        (use rep t i True in \<open>auto simp: queues_rep_def token_ok_def\<close>)
    with True q i show ?thesis
      by (intro exI [of _ ?m] exI [of _ ?q] exI [of _ xs]) (auto simp: skynet_mq_mark_release_def)
  next
    case False
    with t(1) q(2) have idle: "a \<notin> A" "a \<notin> set xs" by (auto simp: token_ok_def)
    from skynet_globalmq_push_spec [OF g1 _ idle(2), of ?q] obtain m' where
      m': "skynet_globalmq_push a ?m = Some m'" "gq_rep m' (xs @ [a])" "mqs_agree ?m m'" by auto
    from mqs_agreeD [OF m'(3), of a ?q] obtain x where x: "mqs m' a = Some (?q\<lparr>q_next := x\<rparr>)" by auto
    have oth: "eq_next (mqs m b) (mqs m' b)" if "b \<noteq> a" for b
      using mqs_agree_eq_next [OF m'(3), of b] that by simp
    have brk: "mq_brk m' = mq_brk m" using m'(3) by (simp add: mqs_agree_def)
    have "queues_rep A m' (xs @ [a])"
      by (rule queues_rep_change [OF rep m'(2) _ brk q(1) x])
        (use rep t i idle oth False in \<open>auto simp: queues_rep_def token_ok_def\<close>)
    with m' x q i oth brk False show ?thesis
      by (intro exI [of _ m'] exI [of _ "?q\<lparr>q_next := x\<rparr>"] exI [of _ "xs @ [a]"])
        (auto simp: skynet_mq_mark_release_def)
  qed
qed

text \<open>Freeing a held queue.\<close>

lemma mq_free_token:
  assumes rep: "queues_rep A m xs" and a: "a \<in> A"
  shows "\<exists>m'. mq_free a m = Some m' \<and> queues_rep (A - {a}) m' xs \<and> mqs m' = (mqs m)(a := None) \<and>
     mq_brk m' = mq_brk m"
proof -
  from rep a obtain q where q: "mqs m a = Some q" by (auto simp: queues_rep_def)
  from rep a have g: "gq_rep m xs" "a \<notin> set xs" by (auto simp: queues_rep_def)
  then have "q_next q = None" using q by (auto simp: gq_rep_def)
  moreover have "gq_rep (m\<lparr>mqs := (mqs m)(a := None)\<rparr>) xs"
    using g by (auto simp: gq_rep_def)
  moreover from this have "queues_rep (A - {a}) (m\<lparr>mqs := (mqs m)(a := None)\<rparr>) xs"
    by (rule queues_rep_intro) (use rep in \<open>auto simp: queues_rep_def split: if_splits\<close>)
  ultimately show ?thesis using q by (simp add: mq_free_def)
qed

text \<open>
  A new queue belongs to the thread that creates it, until it links it. Its address may have been
  set aside before.
\<close>

lemma queues_rep_brk: "queues_rep A m xs \<Longrightarrow> queues_rep A (m\<lparr>mq_brk := Suc (mq_brk m)\<rparr>) xs"
  unfolding queues_rep_def gq_rep_def by (auto simp: less_SucI)

lemma mq_place_token:
  assumes rep: "queues_rep A m xs" and a: "mqs m a = None" "a < mq_brk m"
  shows "queues_rep (insert a A) (mq_upd a (mq_new h) m) xs"
proof -
  have new: "a \<notin> set xs" "a \<notin> A" using queues_rep_live [OF rep, of a] a(1) by auto
  have "gq_rep (mq_upd a (mq_new h) m) xs" using rep new by (auto simp: queues_rep_def gq_rep_def mq_new_def)
  then show ?thesis
  proof (rule queues_rep_intro)
    show "insert a A \<inter> set xs = {}" using rep new by (auto simp: queues_rep_def)
    show "mqs (mq_upd a (mq_new h) m) b \<noteq> None" if "b \<in> insert a A" for b
      using that rep by (auto simp: queues_rep_def)
  next
    fix b p assume p: "mqs (mq_upd a (mq_new h) m) b = Some p"
    have "token_ok (b \<in> insert a A \<or> b \<in> set xs) p \<and> mq_inv p \<and> b < mq_brk (mq_upd a (mq_new h) m)"
    proof (cases "b = a")
      case True
      with p a mq_new_inv [of h] mq_new_abs [of h] show ?thesis
        by (auto simp: token_ok_def) (simp add: mq_new_def)
    next
      case False
      with p queues_repD [OF rep, of b p] show ?thesis by auto
    qed
    then show "token_ok (b \<in> insert a A \<or> b \<in> set xs) p" "mq_inv p" "b < mq_brk (mq_upd a (mq_new h) m)" by auto
  qed
qed

lemma mq_brk_fresh: "queues_rep A m xs \<Longrightarrow> mqs m (mq_brk m) = None"
  by (cases "mqs m (mq_brk m)") (auto simp: queues_rep_def)

text \<open>The address is set aside, then the queue is made.\<close>

lemma skynet_mq_create_steps:
  "skynet_mq_create h m = (mq_brk m, mq_upd (mq_brk m) (mq_new h) (m\<lparr>mq_brk := Suc (mq_brk m)\<rparr>))"
  by (cases m) (simp add: skynet_mq_create_def)

lemma mq_create_token:
  assumes rep: "queues_rep A m xs"
  shows "queues_rep (insert (mq_brk m) A) (snd (skynet_mq_create h m)) xs"
  using mq_place_token [OF queues_rep_brk [OF rep], of "mq_brk m" h] mq_brk_fresh [OF rep]
  by (simp add: skynet_mq_create_steps)

lemma queues_rep_init: "queues_rep {} skynet_mq_init []"
  using gq_rep_init by (rule queues_rep_intro) (simp_all add: skynet_mq_init_def)

end
