(* ===== verification/Skynet_Sched.thy ===== *)
theory Skynet_Sched
  imports Skynet_Tokens
begin

text \<open>
  The threads of a node around the queues: workers (\<open>skynet_context_message_dispatch\<close>), senders
  (\<open>skynet_context_push\<close>), threads that retire a handle (\<open>skynet_handle_retire\<close>) and threads that
  create a service (\<open>skynet_context_new\<close>), interleaved at the granularity of the locks. A context
  and its queue have one name, the address of the queue, which is set aside when the handle of the
  context becomes visible and used when the queue is created. A thread that sends or creates while
  it dispatches is a second activity. A thread has no step when its next operation has no
  result; which operations have one is a theorem.
\<close>

section \<open>Activities\<close>

text \<open>
  What a thread is doing with a queue \<open>a\<close>:
  \<^item> \<open>Held a\<close>: a worker whose \<open>q\<close> is \<open>a\<close>, before \<open>skynet_handle_grab\<close>;
  \<^item> \<open>Disp a\<close>: in the dispatch loop of \<open>a\<close>, with a reference to its context;
  \<^item> \<open>Both a b\<close>: after the loop, having popped \<open>b\<close> from the global list and not yet pushed \<open>a\<close>;
  \<^item> \<open>Dropping a\<close>: in \<open>skynet_mq_release\<close>;
  \<^item> \<open>Sending a\<close>: in \<open>skynet_context_push\<close>, with a reference, before \<open>skynet_mq_push\<close>;
  \<^item> \<open>New a\<close>: in \<open>skynet_context_new\<close>, after \<open>ctx->handle = skynet_handle_register(ctx)\<close> and before
    \<open>skynet_mq_create\<close>: the context can be found, its queue is not there yet;
  \<^item> \<open>Creating a\<close>, \<open>Failed a\<close>, \<open>Pushing a\<close>: in \<open>skynet_context_new\<close>, during \<open>init\<close>, after a failed
    \<open>init\<close> and before the final \<open>skynet_globalmq_push\<close>;
  \<^item> \<open>Rel a k\<close>: about to give a reference back (\<open>skynet_context_release\<close>), then \<open>k\<close>;
  \<^item> \<open>Del a k\<close>: in \<open>delete_context\<close>, before \<open>skynet_mq_mark_release\<close>, then \<open>k\<close>.
\<close>

datatype activity =
    Idle
  | Held addr
  | Disp addr
  | Both addr addr
  | Dropping addr
  | Sending addr
  | New addr
  | Creating addr
  | Failed addr
  | Pushing addr
  | Rel addr activity
  | Del addr activity

text \<open>
  The queues, the set of contexts in the handle table, the reference counts, the number of
  threads and what they do.
\<close>

record sched =
  s_mq :: mq_state
  s_reg :: "addr set"
  s_ref :: "addr \<Rightarrow> nat"
  s_n :: nat
  s_act :: "nat \<Rightarrow> activity"

abbreviation become :: "nat \<Rightarrow> activity \<Rightarrow> sched \<Rightarrow> sched" where
  "become t k s \<equiv> s\<lparr>s_act := (s_act s)(t := k)\<rparr>"

inductive step :: "sched \<Rightarrow> sched \<Rightarrow> bool" where
  take: "t < s_n s \<Longrightarrow> s_act s t = Idle \<Longrightarrow> skynet_globalmq_pop (s_mq s) = Some (Some a, m) \<Longrightarrow>
    step s (become t (Held a) (s\<lparr>s_mq := m\<rparr>))"
| grab: "t < s_n s \<Longrightarrow> s_act s t = Held a \<Longrightarrow> a \<in> s_reg s \<Longrightarrow>
    step s (become t (Disp a) (s\<lparr>s_ref := (s_ref s)(a := s_ref s a + 1)\<rparr>))"
| miss: "t < s_n s \<Longrightarrow> s_act s t = Held a \<Longrightarrow> a \<notin> s_reg s \<Longrightarrow>
    step s (become t (Dropping a) s)"
| pop: "t < s_n s \<Longrightarrow> s_act s t = Disp a \<Longrightarrow> skynet_mq_pop a (s_mq s) = Some (Some msg, m) \<Longrightarrow>
    step s (s\<lparr>s_mq := m\<rparr>)"
| empty: "t < s_n s \<Longrightarrow> s_act s t = Disp a \<Longrightarrow> skynet_mq_pop a (s_mq s) = Some (None, m) \<Longrightarrow>
    step s (become t (Rel a Idle) (s\<lparr>s_mq := m\<rparr>))"
| switch: "t < s_n s \<Longrightarrow> s_act s t = Disp a \<Longrightarrow> skynet_globalmq_pop (s_mq s) = Some (Some b, m) \<Longrightarrow>
    step s (become t (Both a b) (s\<lparr>s_mq := m\<rparr>))"
| put_back: "t < s_n s \<Longrightarrow> s_act s t = Both a b \<Longrightarrow> skynet_globalmq_push a (s_mq s) = Some m \<Longrightarrow>
    step s (become t (Rel a (Held b)) (s\<lparr>s_mq := m\<rparr>))"
| keep: "t < s_n s \<Longrightarrow> s_act s t = Disp a \<Longrightarrow> skynet_globalmq_pop (s_mq s) = Some (None, m) \<Longrightarrow>
    step s (become t (Rel a (Held a)) (s\<lparr>s_mq := m\<rparr>))"
| release: "t < s_n s \<Longrightarrow> s_act s t = Rel a k \<Longrightarrow>
    step s (become t (if s_ref s a = 1 then Del a k else k) (s\<lparr>s_ref := (s_ref s)(a := s_ref s a - 1)\<rparr>))"
| delete: "t < s_n s \<Longrightarrow> s_act s t = Del a k \<Longrightarrow> skynet_mq_mark_release a (s_mq s) = Some m \<Longrightarrow>
    step s (become t k (s\<lparr>s_mq := m\<rparr>))"
| send_grab: "t < s_n s \<Longrightarrow> s_act s t = Idle \<Longrightarrow> a \<in> s_reg s \<Longrightarrow>
    step s (become t (Sending a) (s\<lparr>s_ref := (s_ref s)(a := s_ref s a + 1)\<rparr>))"
| send_push: "t < s_n s \<Longrightarrow> s_act s t = Sending a \<Longrightarrow> mqs (s_mq s) a = Some q \<Longrightarrow> mq_room (mq_abs q) \<Longrightarrow>
    skynet_mq_push a msg (s_mq s) = Some m \<Longrightarrow>
    step s (become t (Rel a Idle) (s\<lparr>s_mq := m\<rparr>))"
| retire: "t < s_n s \<Longrightarrow> s_act s t = Idle \<Longrightarrow> a \<in> s_reg s \<Longrightarrow>
    step s (become t (Rel a Idle) (s\<lparr>s_reg := s_reg s - {a}\<rparr>))"
| drop_msg: "t < s_n s \<Longrightarrow> s_act s t = Dropping a \<Longrightarrow> mqs (s_mq s) a = Some q \<Longrightarrow> q_release q \<Longrightarrow>
    skynet_mq_pop a (s_mq s) = Some (Some msg, m) \<Longrightarrow>
    step s (s\<lparr>s_mq := m\<rparr>)"
| drop_end: "t < s_n s \<Longrightarrow> s_act s t = Dropping a \<Longrightarrow> mqs (s_mq s) a = Some q \<Longrightarrow> q_release q \<Longrightarrow>
    skynet_mq_pop a (s_mq s) = Some (None, m1) \<Longrightarrow> mq_free a m1 = Some m \<Longrightarrow>
    step s (become t Idle (s\<lparr>s_mq := m\<rparr>))"
| drop_later: "t < s_n s \<Longrightarrow> s_act s t = Dropping a \<Longrightarrow> mqs (s_mq s) a = Some q \<Longrightarrow> \<not> q_release q \<Longrightarrow>
    skynet_globalmq_push a (s_mq s) = Some m \<Longrightarrow>
    step s (become t Idle (s\<lparr>s_mq := m\<rparr>))"
| publish: "t < s_n s \<Longrightarrow> s_act s t = Idle \<Longrightarrow> a = mq_brk (s_mq s) \<Longrightarrow>
    step s (become t (New a)
      (s\<lparr>s_mq := (s_mq s)\<lparr>mq_brk := Suc a\<rparr>, s_reg := insert a (s_reg s), s_ref := (s_ref s)(a := 2)\<rparr>))"
| create: "t < s_n s \<Longrightarrow> s_act s t = New a \<Longrightarrow>
    step s (become t (Creating a) (s\<lparr>s_mq := mq_upd a (mq_new h) (s_mq s)\<rparr>))"
| created: "t < s_n s \<Longrightarrow> s_act s t = Creating a \<Longrightarrow> step s (become t (Rel a (Pushing a)) s)"
| failed: "t < s_n s \<Longrightarrow> s_act s t = Creating a \<Longrightarrow> step s (become t (Rel a (Failed a)) s)"
| unregister: "t < s_n s \<Longrightarrow> s_act s t = Failed a \<Longrightarrow>
    step s (become t (if a \<in> s_reg s then Rel a (Dropping a) else Dropping a)
      (s\<lparr>s_reg := s_reg s - {a}\<rparr>))"
| push_new: "t < s_n s \<Longrightarrow> s_act s t = Pushing a \<Longrightarrow> skynet_globalmq_push a (s_mq s) = Some m \<Longrightarrow>
    step s (become t Idle (s\<lparr>s_mq := m\<rparr>))"

definition sched_init :: "nat \<Rightarrow> sched" where
  "sched_init n = \<lparr>s_mq = skynet_mq_init, s_reg = {}, s_ref = (\<lambda>_. 0), s_n = n, s_act = (\<lambda>_. Idle)\<rparr>"

inductive reachable :: "nat \<Rightarrow> sched \<Rightarrow> bool" where
  start: "reachable n (sched_init n)"
| step: "reachable n s \<Longrightarrow> step s s' \<Longrightarrow> reachable n s'"

text \<open>The steps \<open>publish\<close> and \<open>create\<close> make together the call of \<open>skynet_mq_create\<close>, see \<open>skynet_mq_create_steps\<close>.\<close>

section \<open>Counting tokens, references and deletions\<close>

fun tokens :: "activity \<Rightarrow> addr \<Rightarrow> nat" where
  "tokens (Held a) x = of_bool (x = a)"
| "tokens (Disp a) x = of_bool (x = a)"
| "tokens (Both a b) x = of_bool (x = a) + of_bool (x = b)"
| "tokens (Dropping a) x = of_bool (x = a)"
| "tokens (Creating a) x = of_bool (x = a)"
| "tokens (Failed a) x = of_bool (x = a)"
| "tokens (Pushing a) x = of_bool (x = a)"
| "tokens (Rel a k) x = tokens k x"
| "tokens (Del a k) x = tokens k x"
| "tokens _ x = 0"

fun refs :: "activity \<Rightarrow> addr \<Rightarrow> nat" where
  "refs (Disp a) x = of_bool (x = a)"
| "refs (Both a b) x = of_bool (x = a)"
| "refs (Sending a) x = of_bool (x = a)"
| "refs (New a) x = of_bool (x = a)"
| "refs (Creating a) x = of_bool (x = a)"
| "refs (Rel a k) x = of_bool (x = a) + refs k x"
| "refs (Del a k) x = refs k x"
| "refs _ x = 0"

fun dels :: "activity \<Rightarrow> addr \<Rightarrow> nat" where
  "dels (Rel a k) x = dels k x"
| "dels (Del a k) x = of_bool (x = a) + dels k x"
| "dels _ x = 0"

text \<open>Who still has to create the queue.\<close>

fun news :: "activity \<Rightarrow> addr \<Rightarrow> nat" where
  "news (New a) x = of_bool (x = a)"
| "news (Rel a k) x = news k x"
| "news (Del a k) x = news k x"
| "news _ x = 0"

lemma news_le_refs: "news u x \<le> refs u x"
  by (induction u) (auto intro: trans_le_add2)

definition tot :: "(activity \<Rightarrow> addr \<Rightarrow> nat) \<Rightarrow> sched \<Rightarrow> addr \<Rightarrow> nat" where
  "tot f s x = (\<Sum>t\<in>{..<s_n s}. f (s_act s t) x)"

lemma sum_upd:
  fixes f :: "activity \<Rightarrow> nat"
  assumes "t < (n::nat)"
  shows "(\<Sum>i\<in>{..<n}. f ((g(t := k)) i)) + f (g t) = (\<Sum>i\<in>{..<n}. f (g i)) + f k"
proof -
  have "(\<Sum>i\<in>{..<n}. f ((g(t := k)) i)) = f k + (\<Sum>i\<in>{..<n} - {t}. f ((g(t := k)) i))"
    using assms by (subst sum.remove [of _ t]) auto
  also have "(\<Sum>i\<in>{..<n} - {t}. f ((g(t := k)) i)) = (\<Sum>i\<in>{..<n} - {t}. f (g i))"
    by (intro sum.cong) auto
  finally show ?thesis using assms by (subst (2) sum.remove [of _ t]) auto
qed

text \<open>The totals after thread \<open>t\<close> changed from what it did to \<open>k\<close>.\<close>

lemma tot_become:
  assumes "t < s_n s" "s_act s' = (s_act s)(t := k)" "s_n s' = s_n s"
  shows "tot f s' x + f (s_act s t) x = tot f s x + f k x"
  using sum_upd [OF assms(1), of "\<lambda>u. f u x" "s_act s" k] assms(2,3) by (simp add: tot_def)

lemma tot_same: "s_act s' = s_act s \<Longrightarrow> s_n s' = s_n s \<Longrightarrow> tot f s' x = tot f s x"
  by (simp add: tot_def)

lemma tot_ge: "t < s_n s \<Longrightarrow> f (s_act s t) x \<le> tot f s x"
  unfolding tot_def by (rule member_le_sum) auto

lemma tot_two:
  assumes "t < s_n s" "u < s_n s" "t \<noteq> u"
  shows "f (s_act s t) x + f (s_act s u) x \<le> tot f s x"
proof -
  have "(\<Sum>i\<in>{t, u}. f (s_act s i) x) \<le> (\<Sum>i\<in>{..<s_n s}. f (s_act s i) x)"
    by (rule sum_mono2) (use assms in auto)
  then show ?thesis using assms(3) by (simp add: tot_def)
qed

section \<open>The invariant\<close>

definition released :: "mq_state \<Rightarrow> addr \<Rightarrow> bool option" where
  "released m a = map_option q_release (mqs m a)"

text \<open>
  The life of a context: freed queues are not referred to; while there are references nobody
  deletes the context and the queue is not marked; without references either one thread is
  deleting the context or the queue is marked.
\<close>

fun life :: "bool option \<Rightarrow> nat \<Rightarrow> nat \<Rightarrow> bool" where
  "life None r d \<longleftrightarrow> r = 0 \<and> d = 0"
| "life (Some rel) r d \<longleftrightarrow> (if 0 < r then d = 0 \<and> \<not> rel else d + of_bool rel = 1)"

text \<open>A queue that has yet to be created counts as unmarked.\<close>

definition status :: "sched \<Rightarrow> addr \<Rightarrow> bool option" where
  "status s a = (if 0 < tot news s a then Some False else released (s_mq s) a)"

abbreviation held :: "sched \<Rightarrow> addr set" where
  "held s \<equiv> {a. tot tokens s a = 1}"

definition sched_inv :: "sched \<Rightarrow> bool" where
  "sched_inv s \<longleftrightarrow> queues_inv (held s) (s_mq s) \<and>
     (\<forall>a. tot tokens s a \<le> 1 \<and> s_ref s a = of_bool (a \<in> s_reg s) + tot refs s a \<and>
       life (status s a) (s_ref s a) (tot dels s a) \<and>
       (0 < tot news s a \<longrightarrow> tot news s a = 1 \<and> mqs (s_mq s) a = None \<and> a < mq_brk (s_mq s)))"

lemma sched_invD:
  assumes "sched_inv s"
  shows "tot tokens s a \<le> 1" "s_ref s a = of_bool (a \<in> s_reg s) + tot refs s a"
    "life (status s a) (s_ref s a) (tot dels s a)"
    "\<exists>xs. queues_rep (held s) (s_mq s) xs"
    "0 < tot news s a \<Longrightarrow> tot news s a = 1 \<and> mqs (s_mq s) a = None \<and> a < mq_brk (s_mq s)"
  using assms unfolding sched_inv_def queues_inv_def by blast+

lemma status_born: "sched_inv s \<Longrightarrow> mqs (s_mq s) a = Some q \<Longrightarrow> tot news s a = 0 \<and> status s a = Some (q_release q)"
  using sched_invD(5) [of s a] by (auto simp: status_def released_def)

lemma new_has_ref: "sched_inv s \<Longrightarrow> 0 < tot news s a \<Longrightarrow> 0 < s_ref s a"
proof -
  assume inv: "sched_inv s" and n: "0 < tot news s a"
  have "tot news s a \<le> tot refs s a" unfolding tot_def by (intro sum_mono news_le_refs)
  then show ?thesis using sched_invD(2) [OF inv, of a] n by simp
qed

lemma released_eq_next: "eq_next (mqs m a) (mqs m' a) \<Longrightarrow> released m' a = released m a"
  by (cases "mqs m a") (auto simp: released_def dest: eq_nextD)

lemma released_agree: "mqs_agree m m' \<Longrightarrow> released m' = released m"
  using released_eq_next mqs_agree_eq_next by (metis ext)

lemma mqs_agree_brk: "mqs_agree m m' \<Longrightarrow> mq_brk m' = mq_brk m"
  by (simp add: mqs_agree_def)

lemma released_None: "released m a = None \<longleftrightarrow> mqs m a = None"
  by (simp add: released_def)

text \<open>A referenced context has a live queue that is not marked, unless it has yet to be created.\<close>

lemma sched_ref_live:
  assumes "sched_inv s" "0 < s_ref s a" "tot news s a = 0"
  shows "\<exists>q. mqs (s_mq s) a = Some q \<and> \<not> q_release q"
  using sched_invD(3) [OF assms(1), of a] assms(2,3)
  by (cases "mqs (s_mq s) a") (auto simp: released_def status_def)

lemma held_born:
  assumes "sched_inv s" "a \<in> held s"
  shows "tot news s a = 0"
proof -
  from sched_invD(4) [OF assms(1)] obtain xs where "queues_rep (held s) (s_mq s) xs" by blast
  then obtain q where "mqs (s_mq s) a = Some q" using queues_rep_live assms(2) by blast
  then show ?thesis using status_born [OF assms(1)] by blast
qed

lemma sched_thread_ref:
  assumes "sched_inv s" "t < s_n s" "0 < refs (s_act s t) a"
  shows "0 < s_ref s a"
  using sched_invD(2) [OF assms(1), of a] tot_ge [OF assms(2), of refs a] assms(3) by simp

lemma sched_thread_token:
  assumes "sched_inv s" "t < s_n s" "0 < tokens (s_act s t) a"
  shows "a \<in> held s"
  using sched_invD(1) [OF assms(1), of a] tot_ge [OF assms(2), of tokens a] assms(3) by simp

section \<open>Every step keeps the invariant\<close>

lemma sched_inv_step:
  assumes inv: "sched_inv s" and t: "t < s_n s" "s_act s' = (s_act s)(t := k)" "s_n s' = s_n s"
    and q: "queues_inv {a. tot tokens s a + tokens k a = 1 + tokens (s_act s t) a} (s_mq s')"
    and tk: "\<And>a. tot tokens s a + tokens k a \<le> 1 + tokens (s_act s t) a"
    and rf: "\<And>a. s_ref s' a + of_bool (a \<in> s_reg s) + refs (s_act s t) a =
        s_ref s a + of_bool (a \<in> s_reg s') + refs k a"
    and lf: "\<And>a. life (status s' a) (s_ref s' a) (tot dels s a + dels k a - dels (s_act s t) a)"
    and nw: "\<And>a. 0 < tot news s' a \<Longrightarrow> tot news s' a = 1 \<and> mqs (s_mq s') a = None \<and> a < mq_brk (s_mq s')"
  shows "sched_inv s'"
proof -
  note T = tot_become [OF t]
  have "held s' = {a. tot tokens s a + tokens k a = 1 + tokens (s_act s t) a}"
    using T [of tokens] by (intro Collect_cong) (metis add.commute add_right_cancel)
  moreover have "tot tokens s' a \<le> 1" for a using T [of tokens a] tk [of a] by linarith
  moreover have "s_ref s' a = of_bool (a \<in> s_reg s') + tot refs s' a" for a
    using T [of refs a] rf [of a] sched_invD(2) [OF inv, of a] by linarith
  moreover have "tot dels s' a = tot dels s a + dels k a - dels (s_act s t) a" for a
    using T [of dels a] by linarith
  ultimately show ?thesis using q lf nw by (simp add: sched_inv_def)
qed

text \<open>Steps that create nothing: the queues to be created stay absent.\<close>

definition same_news :: "sched \<Rightarrow> sched \<Rightarrow> nat \<Rightarrow> activity \<Rightarrow> bool" where
  "same_news s s' t k \<longleftrightarrow> news k = news (s_act s t) \<and> mq_brk (s_mq s') = mq_brk (s_mq s) \<and>
     (\<forall>a. mqs (s_mq s) a = None \<longrightarrow> mqs (s_mq s') a = None)"

lemma sched_inv_old:
  assumes inv: "sched_inv s" and t: "t < s_n s" "s_act s' = (s_act s)(t := k)" "s_n s' = s_n s"
    and n: "same_news s s' t k"
    and q: "queues_inv {a. tot tokens s a + tokens k a = 1 + tokens (s_act s t) a} (s_mq s')"
    and tk: "\<And>a. tot tokens s a + tokens k a \<le> 1 + tokens (s_act s t) a"
    and rf: "\<And>a. s_ref s' a + of_bool (a \<in> s_reg s) + refs (s_act s t) a =
        s_ref s a + of_bool (a \<in> s_reg s') + refs k a"
    and lf: "\<And>a. life (if 0 < tot news s a then Some False else released (s_mq s') a) (s_ref s' a)
        (tot dels s a + dels k a - dels (s_act s t) a)"
  shows "sched_inv s'"
proof -
  have e: "tot news s' a = tot news s a" for a
    using tot_become [OF t, of news a] n by (simp add: same_news_def)
  show ?thesis
  proof (rule sched_inv_step [OF inv t q tk rf])
    show "life (status s' a) (s_ref s' a) (tot dels s a + dels k a - dels (s_act s t) a)" for a
      using lf [of a] by (simp add: status_def e)
    show "tot news s' a = 1 \<and> mqs (s_mq s') a = None \<and> a < mq_brk (s_mq s')" if "0 < tot news s' a" for a
      using sched_invD(5) [OF inv, of a] n that by (simp add: same_news_def e)
  qed
qed

text \<open>Steps that do not touch the queues and keep the tokens of the thread.\<close>

lemma sched_inv_silent:
  assumes inv: "sched_inv s" and t: "t < s_n s" "s_act s' = (s_act s)(t := k)" "s_n s' = s_n s"
    and same: "s_mq s' = s_mq s" "tokens k = tokens (s_act s t)" "news k = news (s_act s t)"
    and rf: "\<And>a. s_ref s' a + of_bool (a \<in> s_reg s) + refs (s_act s t) a =
        s_ref s a + of_bool (a \<in> s_reg s') + refs k a"
    and lf: "\<And>a r. life r (s_ref s a) (tot dels s a) \<Longrightarrow>
        life r (s_ref s' a) (tot dels s a + dels k a - dels (s_act s t) a)"
  shows "sched_inv s'"
proof (rule sched_inv_old [OF inv t])
  show "same_news s s' t k" using same by (simp add: same_news_def)
  have "{a. tot tokens s a + tokens k a = 1 + tokens (s_act s t) a} = held s" unfolding same by auto
  then show "queues_inv {a. tot tokens s a + tokens k a = 1 + tokens (s_act s t) a} (s_mq s')"
    using inv same(1) by (simp add: sched_inv_def)
  show "tot tokens s a + tokens k a \<le> 1 + tokens (s_act s t) a" for a
    using sched_invD(1) [OF inv, of a] unfolding same by simp
  show "life (if 0 < tot news s a then Some False else released (s_mq s') a) (s_ref s' a)
      (tot dels s a + dels k a - dels (s_act s t) a)" for a
    using lf [OF sched_invD(3) [OF inv, of a]] unfolding status_def same(1) .
qed (use rf in auto)

lemma life_more: "0 < r \<Longrightarrow> life b r d \<Longrightarrow> life b (r + k) d"
  by (cases b) auto

lemma reg_ref: "sched_inv s \<Longrightarrow> a \<in> s_reg s \<Longrightarrow> 0 < s_ref s a"
  using sched_invD(2) [of s a] by simp

lemma inv_grab:
  assumes "sched_inv s" "t < s_n s" "a \<in> s_reg s"
    and k: "s_act s t = Held a \<and> k = Disp a \<or> s_act s t = Idle \<and> k = Sending a"
  shows "sched_inv (become t k (s\<lparr>s_ref := (s_ref s)(a := s_ref s a + 1)\<rparr>))"
proof (rule sched_inv_silent [OF assms(1,2)])
  fix x r assume "life r (s_ref s x) (tot dels s x)"
  then show "life r (s_ref (become t k (s\<lparr>s_ref := (s_ref s)(a := s_ref s a + 1)\<rparr>)) x)
      (tot dels s x + dels k x - dels (s_act s t) x)"
    using k life_more [OF reg_ref [OF assms(1,3)], of r _ 1] by (cases "x = a") auto
qed (use k in \<open>auto simp: fun_eq_iff\<close>)

lemma inv_silent_simple:
  assumes "sched_inv s" "t < s_n s"
    and k: "s_act s t = Held a \<and> k = Dropping a \<or> s_act s t = Creating a \<and> k = Rel a (Pushing a) \<or>
      s_act s t = Creating a \<and> k = Rel a (Failed a)"
  shows "sched_inv (become t k s)"
  by (rule sched_inv_silent [OF assms(1,2), where k = k]) (use k in \<open>auto simp: fun_eq_iff\<close>)

lemma inv_unreg:
  assumes "sched_inv s" "t < s_n s"
    and k: "s_act s t = Idle \<and> a \<in> s_reg s \<and> k = Rel a Idle \<or>
      s_act s t = Failed a \<and> k = (if a \<in> s_reg s then Rel a (Dropping a) else Dropping a)"
  shows "sched_inv (become t k (s\<lparr>s_reg := s_reg s - {a}\<rparr>))"
  by (rule sched_inv_silent [OF assms(1,2), where k = k]) (use k in \<open>auto simp: fun_eq_iff\<close>)

lemma inv_release:
  assumes "sched_inv s" "t < s_n s" "s_act s t = Rel a k"
  shows "sched_inv (become t (if s_ref s a = 1 then Del a k else k)
     (s\<lparr>s_ref := (s_ref s)(a := s_ref s a - 1)\<rparr>))"
proof (rule sched_inv_silent [OF assms(1,2)])
  have p: "0 < s_ref s a" using sched_thread_ref [OF assms(1,2), of a] assms(3) by simp
  show "s_ref (become t (if s_ref s a = 1 then Del a k else k) (s\<lparr>s_ref := (s_ref s)(a := s_ref s a - 1)\<rparr>)) x +
      of_bool (x \<in> s_reg s) + refs (s_act s t) x = s_ref s x +
      of_bool (x \<in> s_reg (become t (if s_ref s a = 1 then Del a k else k) (s\<lparr>s_ref := (s_ref s)(a := s_ref s a - 1)\<rparr>))) +
      refs (if s_ref s a = 1 then Del a k else k) x" for x
    using assms(3) p by auto
  fix x r assume l: "life r (s_ref s x) (tot dels s x)"
  show "life r (s_ref (become t (if s_ref s a = 1 then Del a k else k) (s\<lparr>s_ref := (s_ref s)(a := s_ref s a - 1)\<rparr>)) x)
      (tot dels s x + dels (if s_ref s a = 1 then Del a k else k) x - dels (s_act s t) x)"
    using assms(3) p l by (cases r) (auto split: if_splits)
qed (use assms(3) in \<open>auto simp: fun_eq_iff\<close>)

text \<open>
  Steps on the queues that keep references and marks: the thread gains a token, loses one or
  keeps the ones it has.
\<close>

definition same_life :: "sched \<Rightarrow> sched \<Rightarrow> nat \<Rightarrow> activity \<Rightarrow> bool" where
  "same_life s s' t k \<longleftrightarrow> t < s_n s \<and> s_act s' = (s_act s)(t := k) \<and> s_n s' = s_n s \<and>
     s_ref s' = s_ref s \<and> s_reg s' = s_reg s \<and> refs k = refs (s_act s t) \<and>
     dels k = dels (s_act s t) \<and> news k = news (s_act s t) \<and>
     mq_brk (s_mq s') = mq_brk (s_mq s) \<and> released (s_mq s') = released (s_mq s)"

lemma sched_inv_tokens:
  assumes inv: "sched_inv s" and l: "same_life s s' t k"
    and q: "queues_rep {a. tot tokens s a + tokens k a = 1 + tokens (s_act s t) a} (s_mq s') xs"
    and tk: "\<And>a. tot tokens s a + tokens k a \<le> 1 + tokens (s_act s t) a"
  shows "sched_inv s'"
proof -
  from l have t: "t < s_n s" "s_act s' = (s_act s)(t := k)" "s_n s' = s_n s" by (auto simp: same_life_def)
  show ?thesis
  proof (rule sched_inv_old [OF inv t _ _ tk])
    have "mqs (s_mq s') a = None" if "mqs (s_mq s) a = None" for a
      using l that released_None [of "s_mq s" a] released_None [of "s_mq s'" a] by (simp add: same_life_def)
    then show "same_news s s' t k" using l by (simp add: same_life_def same_news_def)
    show "queues_inv {a. tot tokens s a + tokens k a = 1 + tokens (s_act s t) a} (s_mq s')"
      using q by (auto simp: queues_inv_def)
    show "life (if 0 < tot news s a then Some False else released (s_mq s') a) (s_ref s' a)
        (tot dels s a + dels k a - dels (s_act s t) a)" for a
      using l sched_invD(3) [OF inv, of a] by (cases "0 < tot news s a") (auto simp: same_life_def status_def)
  qed (use l in \<open>auto simp: same_life_def\<close>)
qed

lemma sched_inv_gain:
  assumes inv: "sched_inv s" and l: "same_life s s' t k"
    and a: "\<And>x. tokens k x = tokens (s_act s t) x + of_bool (x = a)" "a \<notin> held s"
    and q: "queues_rep (insert a (held s)) (s_mq s') xs"
  shows "sched_inv s'"
proof (rule sched_inv_tokens [OF inv l])
  have a0: "tot tokens s a = 0" using a(2) sched_invD(1) [OF inv, of a] by simp
  then have "{x. tot tokens s x + tokens k x = 1 + tokens (s_act s t) x} = insert a (held s)"
    by (auto simp: a(1))
  then show "queues_rep {x. tot tokens s x + tokens k x = 1 + tokens (s_act s t) x} (s_mq s') xs"
    using q by (simp only:)
  show "tot tokens s x + tokens k x \<le> 1 + tokens (s_act s t) x" for x
    using a0 sched_invD(1) [OF inv, of x] by (simp add: a(1))
qed

lemma sched_inv_lose:
  assumes inv: "sched_inv s" and l: "same_life s s' t k"
    and a: "\<And>x. tokens (s_act s t) x = tokens k x + of_bool (x = a)"
    and q: "queues_rep (held s - {a}) (s_mq s') xs"
  shows "sched_inv s'"
proof (rule sched_inv_tokens [OF inv l])
  have le: "tot tokens s x \<le> 1" for x by (rule sched_invD(1) [OF inv])
  have "(tot tokens s x + tokens k x = 1 + tokens (s_act s t) x) = (x \<in> held s - {a})" for x
    using le [of x] by (auto simp: a)
  then have "{x. tot tokens s x + tokens k x = 1 + tokens (s_act s t) x} = held s - {a}" by blast
  then show "queues_rep {x. tot tokens s x + tokens k x = 1 + tokens (s_act s t) x} (s_mq s') xs"
    using q by (simp only:)
  show "tot tokens s x + tokens k x \<le> 1 + tokens (s_act s t) x" for x
    using le [of x] by (simp add: a)
qed

lemma sched_inv_keep:
  assumes inv: "sched_inv s" and l: "same_life s s' t k"
    and a: "tokens k = tokens (s_act s t)" and q: "queues_rep (held s) (s_mq s') xs"
  shows "sched_inv s'"
proof (rule sched_inv_tokens [OF inv l])
  have "{x. tot tokens s x + tokens k x = 1 + tokens (s_act s t) x} = held s" by (auto simp: a)
  then show "queues_rep {x. tot tokens s x + tokens k x = 1 + tokens (s_act s t) x} (s_mq s') xs"
    using q by (simp only:)
  show "tot tokens s x + tokens k x \<le> 1 + tokens (s_act s t) x" for x
    using sched_invD(1) [OF inv, of x] by (simp add: a)
qed

lemma inv_global_pop:
  assumes inv: "sched_inv s" and t: "t < s_n s"
    and pop: "skynet_globalmq_pop (s_mq s) = Some (r, m)"
    and k: "(case r of Some b \<Rightarrow> s_act s t = Idle \<and> k = Held b \<or> s_act s t = Disp a \<and> k = Both a b
       | None \<Rightarrow> s_act s t = Disp a \<and> k = Rel a (Held a))"
  shows "sched_inv (become t k (s\<lparr>s_mq := m\<rparr>))"
proof -
  from sched_invD(4) [OF inv] obtain xs where xs: "queues_rep (held s) (s_mq s) xs" by blast
  from globalmq_pop_token [OF xs] pop have
    q: "queues_rep (case xs of [] \<Rightarrow> held s | b # _ \<Rightarrow> insert b (held s)) m (tl xs)"
    and r: "r = (case xs of [] \<Rightarrow> None | b # _ \<Rightarrow> Some b)" and ag: "mqs_agree (s_mq s) m" by auto
  have l: "same_life s (become t k (s\<lparr>s_mq := m\<rparr>)) t k"
    using t k released_agree [OF ag] mqs_agree_brk [OF ag] unfolding r
    by (cases xs) (auto simp: same_life_def fun_eq_iff)
  show ?thesis
  proof (cases xs)
    case Nil
    with q k r show ?thesis by (intro sched_inv_keep [OF inv l]) (auto simp: fun_eq_iff)
  next
    case (Cons b ys)
    with xs have "b \<notin> held s" by (auto simp: queues_rep_def)
    with q k r Cons show ?thesis by (intro sched_inv_gain [OF inv l, of b]) auto
  qed
qed

lemma inv_global_push:
  assumes inv: "sched_inv s" and t: "t < s_n s"
    and push: "skynet_globalmq_push a (s_mq s) = Some m"
    and k: "s_act s t = Both a b \<and> k = Rel a (Held b) \<or> s_act s t = Dropping a \<and> k = Idle \<or>
       s_act s t = Pushing a \<and> k = Idle"
  shows "sched_inv (become t k (s\<lparr>s_mq := m\<rparr>))"
proof -
  from sched_invD(4) [OF inv] obtain xs where xs: "queues_rep (held s) (s_mq s) xs" by blast
  have a: "a \<in> held s" using k by (intro sched_thread_token [OF inv t]) auto
  from globalmq_push_token [OF xs a] push have
    q: "queues_rep (held s - {a}) m (xs @ [a])" and ag: "mqs_agree (s_mq s) m" by auto
  have l: "same_life s (become t k (s\<lparr>s_mq := m\<rparr>)) t k"
    using t k released_agree [OF ag] mqs_agree_brk [OF ag] by (auto simp: same_life_def fun_eq_iff)
  show ?thesis using q k by (intro sched_inv_lose [OF inv l, of a]) auto
qed

lemma released_upd: "mqs m a = Some q \<Longrightarrow> q_release q' = q_release q \<Longrightarrow> released (mq_upd a q' m) = released m"
  by (auto simp: released_def fun_eq_iff)

lemma inv_pop:
  assumes inv: "sched_inv s" and t: "t < s_n s" and u: "s_act s t = Disp a \<or> s_act s t = Dropping a"
    and pop: "skynet_mq_pop a (s_mq s) = Some (Some msg, m)"
  shows "sched_inv (s\<lparr>s_mq := m\<rparr>)"
proof -
  from sched_invD(4) [OF inv] obtain xs where xs: "queues_rep (held s) (s_mq s) xs" by blast
  have a: "a \<in> held s" using u by (intro sched_thread_token [OF inv t]) auto
  then obtain q where q: "mqs (s_mq s) a = Some q" using queues_rep_live [OF xs] by blast
  from mq_pop_token [OF xs a q] pop obtain q' where
    m: "m = mq_upd a q' (s_mq s)" "q_release q' = q_release q" "mq_abs q \<noteq> []" "queues_rep (held s) m xs"
    by (auto split: list.splits)
  have l: "same_life s (s\<lparr>s_mq := m\<rparr>) t (s_act s t)"
    using t released_upd [OF q m(2)] m(1) by (simp add: same_life_def)
  show ?thesis using m(4) by (intro sched_inv_keep [OF inv l]) auto
qed

lemma inv_empty:
  assumes inv: "sched_inv s" and t: "t < s_n s" and u: "s_act s t = Disp a"
    and pop: "skynet_mq_pop a (s_mq s) = Some (None, m)"
  shows "sched_inv (become t (Rel a Idle) (s\<lparr>s_mq := m\<rparr>))"
proof -
  from sched_invD(4) [OF inv] obtain xs where xs: "queues_rep (held s) (s_mq s) xs" by blast
  have a: "a \<in> held s" using u by (intro sched_thread_token [OF inv t]) auto
  have "0 < s_ref s a" using u by (intro sched_thread_ref [OF inv t]) auto
  then obtain q where q: "mqs (s_mq s) a = Some q" "\<not> q_release q"
    using sched_ref_live [OF inv _ held_born [OF inv a]] by blast
  from mq_pop_token [OF xs a q(1)] pop q(2) obtain q' where
    m: "m = mq_upd a q' (s_mq s)" "q_release q' = q_release q" "queues_rep (held s - {a}) m xs"
    by (auto split: list.splits)
  have l: "same_life s (become t (Rel a Idle) (s\<lparr>s_mq := m\<rparr>)) t (Rel a Idle)"
    using t u released_upd [OF q(1) m(2)] m(1) by (auto simp: same_life_def fun_eq_iff)
  show ?thesis using m(3) u by (intro sched_inv_lose [OF inv l, of a]) auto
qed

lemma inv_send:
  assumes inv: "sched_inv s" and t: "t < s_n s" and u: "s_act s t = Sending a"
    and q: "mqs (s_mq s) a = Some q" "mq_room (mq_abs q)"
    and push: "skynet_mq_push a msg (s_mq s) = Some m"
  shows "sched_inv (become t (Rel a Idle) (s\<lparr>s_mq := m\<rparr>))"
proof -
  from sched_invD(4) [OF inv] obtain xs where xs: "queues_rep (held s) (s_mq s) xs" by blast
  have "0 < s_ref s a" using u by (intro sched_thread_ref [OF inv t]) auto
  from sched_ref_live [OF inv this] status_born [OF inv q(1)] q have nr: "\<not> q_release q" by auto
  from mq_push_token [OF xs q(1) nr q(2), of msg] push obtain q' xs' where
    m: "queues_rep (held s) m xs'" "mqs m a = Some q'" "\<not> q_release q'"
      "\<And>b. b \<noteq> a \<Longrightarrow> eq_next (mqs (s_mq s) b) (mqs m b)" and brk: "mq_brk m = mq_brk (s_mq s)" by auto
  have "released m b = released (s_mq s) b" for b
    using m(2,3) q(1) nr released_eq_next [OF m(4), of b] by (cases "b = a") (auto simp: released_def)
  then have l: "same_life s (become t (Rel a Idle) (s\<lparr>s_mq := m\<rparr>)) t (Rel a Idle)"
    using t u brk by (auto simp: same_life_def fun_eq_iff)
  show ?thesis using m(1) u by (intro sched_inv_keep [OF inv l]) (auto simp: fun_eq_iff)
qed

lemma inv_drop_end:
  assumes inv: "sched_inv s" and t: "t < s_n s" and u: "s_act s t = Dropping a"
    and q: "mqs (s_mq s) a = Some q" "q_release q"
    and pop: "skynet_mq_pop a (s_mq s) = Some (None, m1)" and free: "mq_free a m1 = Some m"
  shows "sched_inv (become t Idle (s\<lparr>s_mq := m\<rparr>))"
proof -
  from sched_invD(4) [OF inv] obtain xs where xs: "queues_rep (held s) (s_mq s) xs" by blast
  have a: "a \<in> held s" using u by (intro sched_thread_token [OF inv t]) auto
  from mq_pop_token [OF xs a q(1)] pop q(2) obtain q' where
    m1: "m1 = mq_upd a q' (s_mq s)" "queues_rep (held s) m1 xs" by (auto split: list.splits)
  from mq_free_token [OF m1(2) a] free have
    m: "queues_rep (held s - {a}) m xs" "mqs m = (mqs m1)(a := None)" "mq_brk m = mq_brk m1" by auto
  have "life (Some True) (s_ref s a) (tot dels s a)"
    using sched_invD(3) [OF inv, of a] status_born [OF inv q(1)] q by simp
  then have z: "s_ref s a = 0" "tot dels s a = 0" by (auto split: if_splits)
  have ts: "{x. tot tokens s x + tokens Idle x = 1 + tokens (s_act s t) x} = held s - {a}"
    using sched_invD(1) [OF inv, of a] u by auto
  show ?thesis
  proof (rule sched_inv_old [OF inv t, of _ Idle])
    show "same_news s (become t Idle (s\<lparr>s_mq := m\<rparr>)) t Idle"
      using u m(2,3) m1(1) by (auto simp: same_news_def)
    show "queues_inv {x. tot tokens s x + tokens Idle x = 1 + tokens (s_act s t) x}
        (s_mq (become t Idle (s\<lparr>s_mq := m\<rparr>)))"
      unfolding ts using m(1) by (auto simp: queues_inv_def)
    show "life (if 0 < tot news s x then Some False else released (s_mq (become t Idle (s\<lparr>s_mq := m\<rparr>))) x)
        (s_ref (become t Idle (s\<lparr>s_mq := m\<rparr>)) x) (tot dels s x + dels Idle x - dels (s_act s t) x)" for x
      using sched_invD(3) [OF inv, of x] status_born [OF inv q(1)] z u m(2) m1(1)
      by (cases "x = a") (auto simp: released_def status_def)
  qed (use u sched_invD(1) [OF inv] in \<open>auto simp: le_SucI\<close>)
qed

lemma deleting_live:
  assumes "sched_inv s" "1 \<le> tot dels s a"
  shows "\<exists>q. mqs (s_mq s) a = Some q \<and> \<not> q_release q \<and> s_ref s a = 0 \<and> tot dels s a = 1"
proof -
  note l = sched_invD(3) [OF assms(1), of a]
  have r: "s_ref s a = 0" using l assms(2) by (cases "status s a") (auto split: if_splits)
  then have "status s a = released (s_mq s) a" using new_has_ref [OF assms(1), of a] by (auto simp: status_def)
  with l r assms(2) show ?thesis
    by (cases "mqs (s_mq s) a") (auto simp: released_def of_bool_def split: if_splits)
qed

lemma inv_delete:
  assumes inv: "sched_inv s" and t: "t < s_n s" and u: "s_act s t = Del a k"
    and mark: "skynet_mq_mark_release a (s_mq s) = Some m"
  shows "sched_inv (become t k (s\<lparr>s_mq := m\<rparr>))"
proof -
  from sched_invD(4) [OF inv] obtain xs where xs: "queues_rep (held s) (s_mq s) xs" by blast
  have d: "1 + dels k a \<le> tot dels s a" using tot_ge [OF t, of dels a] u by simp
  obtain q where q: "mqs (s_mq s) a = Some q" "\<not> q_release q" and z: "s_ref s a = 0" "tot dels s a = 1"
    using deleting_live [OF inv, of a] d by auto
  from mq_mark_release_token [OF xs q] mark obtain q' xs' where
    m: "queues_rep (held s) m xs'" "mqs m a = Some q'" "q_release q'"
      "\<And>b. b \<noteq> a \<Longrightarrow> eq_next (mqs (s_mq s) b) (mqs m b)" and brk: "mq_brk m = mq_brk (s_mq s)" by auto
  have ts: "{x. tot tokens s x + tokens k x = 1 + tokens (s_act s t) x} = held s" using u by auto
  show ?thesis
  proof (rule sched_inv_old [OF inv t, of _ k])
    show "same_news s (become t k (s\<lparr>s_mq := m\<rparr>)) t k"
      using u m(4) q(1) brk by (simp add: same_news_def fun_eq_iff) (metis eq_next_None(1) option.distinct(1))
    show "queues_inv {x. tot tokens s x + tokens k x = 1 + tokens (s_act s t) x}
        (s_mq (become t k (s\<lparr>s_mq := m\<rparr>)))"
      unfolding ts using m(1) by (auto simp: queues_inv_def)
    show "life (if 0 < tot news s x then Some False else released (s_mq (become t k (s\<lparr>s_mq := m\<rparr>))) x)
        (s_ref (become t k (s\<lparr>s_mq := m\<rparr>)) x) (tot dels s x + dels k x - dels (s_act s t) x)" for x
    proof (cases "x = a")
      case True
      with z d u m(2,3) status_born [OF inv q(1)] show ?thesis by (simp add: released_def)
    next
      case False
      with u sched_invD(3) [OF inv, of x] released_eq_next [OF m(4) [OF False]] show ?thesis
        by (cases "0 < tot news s x") (auto simp: status_def)
    qed
  qed (use u sched_invD(1) [OF inv] in \<open>auto\<close>)
qed

lemma inv_publish:
  assumes inv: "sched_inv s" and t: "t < s_n s" and u: "s_act s t = Idle" and a: "a = mq_brk (s_mq s)"
  shows "sched_inv (become t (New a)
     (s\<lparr>s_mq := (s_mq s)\<lparr>mq_brk := Suc a\<rparr>, s_reg := insert a (s_reg s), s_ref := (s_ref s)(a := 2)\<rparr>))" (is "sched_inv ?s")
proof -
  from sched_invD(4) [OF inv] obtain xs where xs: "queues_rep (held s) (s_mq s) xs" by blast
  have dead: "mqs (s_mq s) a = None" using mq_brk_fresh [OF xs] a by simp
  have n0: "tot news s a = 0" using sched_invD(5) [OF inv, of a] a by auto
  then have "status s a = None" using dead by (simp add: status_def released_None)
  then have z: "s_ref s a = 0" "tot dels s a = 0" using sched_invD(3) [OF inv, of a] by simp_all
  then have nreg: "a \<notin> s_reg s" using sched_invD(2) [OF inv, of a] by (auto split: if_splits)
  have n: "tot news ?s x = tot news s x + of_bool (x = a)" for x
    using tot_become [OF t, of ?s "New a" news x] u by simp
  show ?thesis
  proof (rule sched_inv_step [OF inv t, of _ "New a"])
    have "{x. tot tokens s x + tokens (New a) x = 1 + tokens (s_act s t) x} = held s" using u by auto
    then show "queues_inv {x. tot tokens s x + tokens (New a) x = 1 + tokens (s_act s t) x} (s_mq ?s)"
      using queues_rep_brk [OF xs] a by (auto simp: queues_inv_def)
    show "life (status ?s x) (s_ref ?s x) (tot dels s x + dels (New a) x - dels (s_act s t) x)" for x
    proof (cases "x = a")
      case True
      have "status ?s a = Some False" unfolding status_def n by simp
      with True z u show ?thesis by simp
    next
      case False
      have "released (s_mq ?s) x = released (s_mq s) x" by (simp add: released_def)
      then have "status ?s x = status s x" unfolding status_def n using False by simp
      with False sched_invD(3) [OF inv, of x] u show ?thesis by simp
    qed
    show "tot news ?s x = 1 \<and> mqs (s_mq ?s) x = None \<and> x < mq_brk (s_mq ?s)" if p: "0 < tot news ?s x" for x
      using sched_invD(5) [OF inv, of x] p n0 dead a unfolding n by (cases "x = a") auto
  qed (use u sched_invD(1) [OF inv] z nreg in \<open>auto\<close>)
qed

lemma inv_create:
  assumes inv: "sched_inv s" and t: "t < s_n s" and u: "s_act s t = New a"
  shows "sched_inv (become t (Creating a) (s\<lparr>s_mq := mq_upd a (mq_new h) (s_mq s)\<rparr>))" (is "sched_inv ?s")
proof -
  from sched_invD(4) [OF inv] obtain xs where xs: "queues_rep (held s) (s_mq s) xs" by blast
  have n1: "tot news s a = 1" and dead: "mqs (s_mq s) a = None" "a < mq_brk (s_mq s)"
    using sched_invD(5) [OF inv, of a] tot_ge [OF t, of news a] u by auto
  have T0: "tot tokens s a = 0"
    using queues_rep_live [OF xs, of a] dead sched_invD(1) [OF inv, of a] by (auto simp: le_Suc_eq)
  have r: "0 < s_ref s a" by (rule new_has_ref [OF inv]) (simp add: n1)
  have n: "tot news ?s x + of_bool (x = a) = tot news s x" for x
    using tot_become [OF t, of ?s "Creating a" news x] u by simp
  have na: "tot news ?s a = 0" using n [of a] n1 by simp
  have nx: "tot news ?s x = tot news s x" if "x \<noteq> a" for x using n [of x] that by simp
  show ?thesis
  proof (rule sched_inv_step [OF inv t, of _ "Creating a"])
    have "{x. tot tokens s x + tokens (Creating a) x = 1 + tokens (s_act s t) x} = insert a (held s)"
      using T0 u by auto
    then show "queues_inv {x. tot tokens s x + tokens (Creating a) x = 1 + tokens (s_act s t) x} (s_mq ?s)"
      using mq_place_token [OF xs dead, of h] by (auto simp: queues_inv_def)
    show "life (status ?s x) (s_ref ?s x) (tot dels s x + dels (Creating a) x - dels (s_act s t) x)" for x
    proof (cases "x = a")
      case True
      have "status s a = Some False" "status ?s a = Some False"
        using n1 na by (simp_all add: status_def released_def mq_new_def)
      with True sched_invD(3) [OF inv, of a] u show ?thesis by simp
    next
      case False
      then have "released (s_mq ?s) x = released (s_mq s) x" by (simp add: released_def)
      then have "status ?s x = status s x" unfolding status_def nx [OF False] by (simp only:)
      with False sched_invD(3) [OF inv, of x] u show ?thesis by simp
    qed
    show "tot news ?s x = 1 \<and> mqs (s_mq ?s) x = None \<and> x < mq_brk (s_mq ?s)" if "0 < tot news ?s x" for x
    proof -
      have "x \<noteq> a" using that na by auto
      with that sched_invD(5) [OF inv, of x] nx [of x] show ?thesis by simp
    qed
  qed (use u sched_invD(1) [OF inv] T0 in \<open>auto\<close>)
qed

lemma step_inv: "step s s' \<Longrightarrow> sched_inv s \<Longrightarrow> sched_inv s'"
proof (induction rule: step.induct)
  case (take t s a m)
  then show ?case using inv_global_pop [OF take(4,1,3)] by auto
next
  case (grab t s a)
  then show ?case using inv_grab by blast
next
  case (miss t s a)
  then show ?case using inv_silent_simple by blast
next
  case (pop t s a msg m)
  then show ?case using inv_pop by blast
next
  case (empty t s a m)
  then show ?case using inv_empty by blast
next
  case (switch t s a b m)
  then show ?case using inv_global_pop [OF switch(4,1,3)] by auto
next
  case (put_back t s a b m)
  then show ?case using inv_global_push by blast
next
  case (keep t s a m)
  then show ?case using inv_global_pop [OF keep(4,1,3)] by auto
next
  case (release t s a k)
  then show ?case using inv_release by blast
next
  case (delete t s a k m)
  then show ?case using inv_delete by blast
next
  case (send_grab t s a)
  then show ?case using inv_grab by blast
next
  case (send_push t s a q msg m)
  then show ?case using inv_send by blast
next
  case (retire t s a)
  then show ?case using inv_unreg by blast
next
  case (drop_msg t s a q msg m)
  then show ?case using inv_pop by blast
next
  case (drop_end t s a q m1 m)
  then show ?case using inv_drop_end by blast
next
  case (drop_later t s a q m)
  then show ?case using inv_global_push by blast
next
  case (publish t s a)
  then show ?case using inv_publish by blast
next
  case (create t s a h)
  then show ?case using inv_create by blast
next
  case (created t s a)
  then show ?case using inv_silent_simple by blast
next
  case (failed t s a)
  then show ?case using inv_silent_simple by blast
next
  case (unregister t s a)
  then show ?case using inv_unreg by blast
next
  case (push_new t s a m)
  then show ?case using inv_global_push by blast
qed

lemma reachable_inv: "reachable n s \<Longrightarrow> sched_inv s"
proof (induction rule: reachable.induct)
  case (start n)
  have "queues_inv {} skynet_mq_init" using queues_rep_init by (auto simp: queues_inv_def)
  then show ?case
    by (simp add: sched_inv_def sched_init_def tot_def status_def released_def skynet_mq_init_def)
next
  case (step n s s')
  then show ?case using step_inv by blast
qed

section \<open>Properties\<close>

lemma step_n: "step s s' \<Longrightarrow> s_n s' = s_n s"
  by (induction rule: step.induct) auto

lemma reachable_n: "reachable n s \<Longrightarrow> s_n s = n"
  by (induction rule: reachable.induct) (auto simp: sched_init_def step_n)

text \<open>Nobody creates a service in the middle of a release.\<close>

fun flat :: "activity \<Rightarrow> bool" where
  "flat (Rel a k) \<longleftrightarrow> news k = (\<lambda>_. 0)"
| "flat (Del a k) \<longleftrightarrow> news k = (\<lambda>_. 0)"
| "flat _ \<longleftrightarrow> True"

lemma flat_after: "news k = (\<lambda>_. 0) \<Longrightarrow> flat k"
  by (cases k) (auto simp: fun_eq_iff)

lemma step_flat: "step s s' \<Longrightarrow> (\<And>t. flat (s_act s t)) \<Longrightarrow> flat (s_act s' t)"
proof (induction rule: step.induct)
  case (release u s a k)
  from release.prems [of u] release.hyps(2) show ?case using release.prems [of t] flat_after by auto
next
  case (delete u s a k m)
  from delete.prems [of u] delete.hyps(2) show ?case using delete.prems [of t] flat_after by auto
qed (auto simp: fun_eq_iff)

lemma reachable_flat: "reachable n s \<Longrightarrow> flat (s_act s t)"
proof (induction arbitrary: t rule: reachable.induct)
  case (start n)
  then show ?case by (simp add: sched_init_def)
next
  case (step n s s')
  then show ?case using step_flat by blast
qed

lemma token_unique:
  assumes "sched_inv s" "t < s_n s" "u < s_n s" "0 < tokens (s_act s t) a" "0 < tokens (s_act s u) a"
  shows "t = u"
proof (rule ccontr)
  assume "t \<noteq> u"
  from tot_two [OF assms(2,3) this, of tokens a] sched_invD(1) [OF assms(1), of a] assms(4,5)
  show False by linarith
qed

lemma held_by_thread:
  assumes "a \<in> held s"
  shows "\<exists>t < s_n s. 0 < tokens (s_act s t) a"
proof (rule ccontr)
  assume "\<not> ?thesis"
  then have "tot tokens s a = 0" by (simp add: tot_def)
  with assms show False by simp
qed

lemma ref_new_or_live:
  assumes "reachable n s" "t < n" "0 < refs (s_act s t) a"
  shows "(\<exists>u < n. s_act s u = New a) \<or> (\<exists>q. mqs (s_mq s) a = Some q \<and> \<not> q_release q)"
proof (cases "tot news s a = 0")
  case True
  note inv = reachable_inv [OF assms(1)]
  have "0 < s_ref s a" using sched_thread_ref [OF inv] assms reachable_n [OF assms(1)] by simp
  with sched_ref_live [OF inv _ True] show ?thesis by blast
next
  case False
  then obtain u where u: "u < s_n s" "0 < news (s_act s u) a" by (auto simp: tot_def)
  then have "s_act s u = New a" using reachable_flat [OF assms(1), of u] by (cases "s_act s u") (auto split: if_splits)
  with u(1) reachable_n [OF assms(1)] show ?thesis by blast
qed

text \<open>The first service of a node, with its handle visible and its queue not yet created.\<close>

definition published :: sched where
  "published = become 0 (New 0) ((sched_init 2)\<lparr>s_mq := skynet_mq_init\<lparr>mq_brk := 1\<rparr>, s_reg := {0}, s_ref := (\<lambda>_. 0)(0 := 2)\<rparr>)"

lemma published_reachable: "reachable 2 published"
proof -
  have "step (sched_init 2) published"
    using step.publish [of 0 "sched_init 2" 0] by (simp add: published_def sched_init_def skynet_mq_init_def)
  then show ?thesis by (rule reachable.step [OF reachable.start])
qed

text \<open>A reachable state in which a new service has one message, and its creator still runs.\<close>

lemma reachable_example:
  "\<exists>s q. reachable 2 s \<and> s_act s 0 = Creating 0 \<and> s_act s 1 = Rel 0 Idle \<and>
     mqs (s_mq s) 0 = Some q \<and> mq_abs q = [msg]"
proof -
  let ?m = "snd (skynet_mq_create 1 skynet_mq_init)"
  let ?s1 = "become 0 (Creating 0) (published\<lparr>s_mq := ?m\<rparr>)"
  let ?s2 = "become 1 (Sending 0) (?s1\<lparr>s_ref := (s_ref ?s1)(0 := s_ref ?s1 0 + 1)\<rparr>)"
  have c: "?m = mq_upd 0 (mq_new 1) (s_mq published)"
    by (simp add: skynet_mq_create_steps published_def sched_init_def skynet_mq_init_def)
  have "step published ?s1" unfolding c using step.create [of 0 published 0 1] by (simp add: published_def sched_init_def)
  with published_reachable have r1: "reachable 2 ?s1" by (rule reachable.step)
  have "step ?s1 ?s2" using step.send_grab [of 1 ?s1 0] by (simp add: published_def sched_init_def)
  with r1 have r2: "reachable 2 ?s2" by (rule reachable.step)
  have q: "mqs ?m 0 = Some (mq_new 1)" by (simp add: skynet_mq_create_def skynet_mq_init_def)
  have room: "mq_room (mq_abs (mq_new 1))" by (simp add: mq_new_abs mq_room_def)
  have "queues_rep {0} ?m []"
    using mq_create_token [OF queues_rep_init, of 1] by (simp add: skynet_mq_init_def)
  moreover have "\<not> q_release (mq_new 1)" by (simp add: mq_new_def)
  ultimately obtain m' q' where
    m': "skynet_mq_push 0 msg ?m = Some m'" "mqs m' 0 = Some q'" "mq_abs q' = [msg]"
    using mq_push_token [of "{0}" ?m "[]" 0 "mq_new 1" msg] q room by (auto simp: mq_new_abs)
  let ?s3 = "become 1 (Rel 0 Idle) (?s2\<lparr>s_mq := m'\<rparr>)"
  have "step ?s2 ?s3"
    using step.send_push [of 1 ?s2 0 "mq_new 1" msg m'] q room m'(1) by (simp add: published_def sched_init_def)
  with r2 have "reachable 2 ?s3" by (rule reachable.step)
  with m' show ?thesis by (intro exI [of _ ?s3] exI [of _ q']) simp
qed

text \<open>
  C1. One service, one worker: in every reachable interleaving no two threads hold the same queue.
  In particular two workers never run the message callback of one service at the same time.
\<close>

theorem dispatch_exclusive:
  assumes "reachable n s" "t < n" "u < n"
    and "0 < tokens (s_act s t) a" "0 < tokens (s_act s u) a"
  shows "t = u"
  using token_unique [OF reachable_inv [OF assms(1)]] reachable_n [OF assms(1)] assms by blast

theorem dispatch_exclusive_witness:
  "\<exists>s. reachable 2 s \<and> 0 < tokens (s_act s 0) 0 \<and> \<not> 0 < tokens (s_act s 1) 0"
proof -
  from reachable_example obtain s where s: "reachable 2 s" "s_act s 0 = Creating 0" by blast
  have "0 < tokens (s_act s 0) 0" using s(2) by simp
  moreover from this dispatch_exclusive [OF s(1), of 0 1 0] have "\<not> 0 < tokens (s_act s 1) 0" by auto
  ultimately show ?thesis using s(1) by blast
qed

text \<open>
  C2. No message is forgotten: in every reachable interleaving a queue that holds a message is
  either linked in the global list and held by nobody, or held by exactly one thread and not
  linked; so some worker will look at it.
\<close>

theorem message_has_token:
  assumes "reachable n s" "mqs (s_mq s) a = Some q" "mq_abs q \<noteq> []"
  shows "\<exists>xs. gq_rep (s_mq s) xs \<and>
     (a \<in> set xs \<and> (\<forall>t < n. tokens (s_act s t) a = 0) \<or>
      a \<notin> set xs \<and> (\<exists>!t. t < n \<and> 0 < tokens (s_act s t) a))"
proof -
  note inv = reachable_inv [OF assms(1)] and n = reachable_n [OF assms(1)]
  from sched_invD(4) [OF inv] obtain xs where xs: "queues_rep (held s) (s_mq s) xs" by blast
  from queues_repD(1) [OF xs assms(2)] assms(3) have "a \<in> held s \<or> a \<in> set xs"
    by (auto simp: token_ok_def)
  moreover have "\<exists>!t. t < n \<and> 0 < tokens (s_act s t) a" if "a \<in> held s"
    using held_by_thread [OF that] token_unique [OF inv] n by metis
  moreover have "\<forall>t < n. tokens (s_act s t) a = 0" if "a \<notin> held s"
    using that sched_thread_token [OF inv] n by blast
  moreover have "held s \<inter> set xs = {}" "gq_rep (s_mq s) xs" using xs by (auto simp: queues_rep_def)
  ultimately show ?thesis by blast
qed

theorem message_has_token_witness:
  "\<exists>s q xs. reachable 2 s \<and> mqs (s_mq s) 0 = Some q \<and> mq_abs q \<noteq> [] \<and> gq_rep (s_mq s) xs \<and> 0 \<notin> set xs"
proof -
  from reachable_example [of "\<lparr>m_source = 1, m_session = 5, m_data = None, m_sz = 0\<rparr>"] obtain s q where
    s: "reachable 2 s" "s_act s 0 = Creating 0" "mqs (s_mq s) 0 = Some q" "mq_abs q \<noteq> []" by auto
  from message_has_token [OF s(1,3,4)] s(2) obtain xs where "gq_rep (s_mq s) xs" "0 \<notin> set xs"
    by (metis of_bool_eq(2) tokens.simps(5) zero_less_numeral zero_neq_one)
  with s show ?thesis by blast
qed

text \<open>
  C3. No use after free: in every reachable interleaving the queues linked in the global list
  exist, a queue that some thread holds exists, and a queue whose context some thread has a
  reference to exists and is not marked for release, unless the thread that creates the service has
  yet to create it.
\<close>

theorem no_use_after_free:
  assumes "reachable n s"
  shows "\<exists>xs. gq_rep (s_mq s) xs \<and> (\<forall>a \<in> set xs. mqs (s_mq s) a \<noteq> None) \<and>
     (\<forall>t < n. \<forall>a. (0 < tokens (s_act s t) a \<longrightarrow> mqs (s_mq s) a \<noteq> None) \<and>
       (0 < refs (s_act s t) a \<longrightarrow>
          (\<exists>u < n. s_act s u = New a) \<or> (\<exists>q. mqs (s_mq s) a = Some q \<and> \<not> q_release q)))"
proof -
  note inv = reachable_inv [OF assms(1)]
  from sched_invD(4) [OF inv] obtain xs where xs: "queues_rep (held s) (s_mq s) xs" by blast
  have "mqs (s_mq s) a \<noteq> None" if "t < n" "0 < tokens (s_act s t) a" for t a
    using queues_rep_live [OF xs] sched_thread_token [OF inv] that reachable_n [OF assms(1)] by blast
  moreover have "(\<exists>u < n. s_act s u = New a) \<or> (\<exists>q. mqs (s_mq s) a = Some q \<and> \<not> q_release q)"
    if "t < n" "0 < refs (s_act s t) a" for t a
    using ref_new_or_live [OF assms(1) that] .
  ultimately show ?thesis using xs queues_rep_live [OF xs] unfolding queues_rep_def by (intro exI [of _ xs]) auto
qed

theorem no_use_after_free_witness:
  "\<exists>s q. reachable 2 s \<and> s_act s 1 = Rel 0 Idle \<and> mqs (s_mq s) 0 = Some q \<and> \<not> q_release q"
proof -
  from reachable_example obtain s where s: "reachable 2 s" "s_act s 0 = Creating 0" "s_act s 1 = Rel 0 Idle" by blast
  have n: "s_act s u \<noteq> New 0" if u: "u < 2" for u
  proof -
    consider "u = 0" | "u = 1" using u by linarith
    then show ?thesis using s(2,3) by cases simp_all
  qed
  have "0 < refs (s_act s 1) 0" using s(3) by simp
  with no_use_after_free [OF s(1)] n have "\<exists>q. mqs (s_mq s) 0 = Some q \<and> \<not> q_release q"
    by (metis one_less_numeral_iff semiring_norm(76))
  with s show ?thesis by blast
qed

text \<open>
  C24. No assertion of the queue code fails: in every reachable interleaving the next queue
  operation of every thread succeeds, whatever it is doing: the global pop, the pop of a held
  queue, the push back, the mark of a deleted context. So does the push of a message, with two
  conditions: fewer than \<open>2 ^ 30 - 1\<close> messages wait in the queue, and its creator has passed
  \<open>skynet_mq_create\<close>.
\<close>

theorem queue_ops_succeed:
  assumes "reachable n s" "t < n"
  shows "skynet_globalmq_pop (s_mq s) \<noteq> None \<and>
    (case s_act s t of
       Disp a \<Rightarrow> skynet_mq_pop a (s_mq s) \<noteq> None
     | Both a b \<Rightarrow> skynet_globalmq_push a (s_mq s) \<noteq> None
     | Dropping a \<Rightarrow> skynet_mq_pop a (s_mq s) \<noteq> None \<and> skynet_globalmq_push a (s_mq s) \<noteq> None \<and>
         mq_free a (s_mq s) \<noteq> None
     | Sending a \<Rightarrow> (\<exists>u < n. s_act s u = New a) \<or> (\<exists>q. mqs (s_mq s) a = Some q \<and>
         (mq_room (mq_abs q) \<longrightarrow> skynet_mq_push a msg (s_mq s) \<noteq> None))
     | Pushing a \<Rightarrow> skynet_globalmq_push a (s_mq s) \<noteq> None
     | Del a k \<Rightarrow> skynet_mq_mark_release a (s_mq s) \<noteq> None
     | _ \<Rightarrow> True)"
proof -
  note inv = reachable_inv [OF assms(1)]
  have t: "t < s_n s" using reachable_n [OF assms(1)] assms(2) by simp
  from sched_invD(4) [OF inv] obtain xs where xs: "queues_rep (held s) (s_mq s) xs" by blast
  have tok: "skynet_mq_pop a (s_mq s) \<noteq> None \<and> skynet_globalmq_push a (s_mq s) \<noteq> None \<and>
      mq_free a (s_mq s) \<noteq> None" if "0 < tokens (s_act s t) a" for a
  proof -
    have a: "a \<in> held s" by (rule sched_thread_token [OF inv t that])
    then obtain q where "mqs (s_mq s) a = Some q" using queues_rep_live [OF xs] by blast
    with mq_pop_token [OF xs a] globalmq_push_token [OF xs a] mq_free_token [OF xs a] show ?thesis by fastforce
  qed
  have send: "(\<exists>u < n. s_act s u = New a) \<or> (\<exists>q. mqs (s_mq s) a = Some q \<and>
      (mq_room (mq_abs q) \<longrightarrow> skynet_mq_push a msg (s_mq s) \<noteq> None))" if "0 < refs (s_act s t) a" for a
    using ref_new_or_live [OF assms that] mq_push_token [OF xs] by (metis option.distinct(1))
  have del: "skynet_mq_mark_release a (s_mq s) \<noteq> None" if u: "s_act s t = Del a k" for a k
  proof -
    have "1 \<le> tot dels s a" using tot_ge [OF t, of dels a] u by simp
    from deleting_live [OF inv this] obtain q where "mqs (s_mq s) a = Some q" "\<not> q_release q" by blast
    with mq_mark_release_token [OF xs this] show ?thesis by fastforce
  qed
  have "skynet_globalmq_pop (s_mq s) \<noteq> None" using globalmq_pop_token [OF xs] by auto
  then show ?thesis using tok send del by (cases "s_act s t") auto
qed

theorem queue_ops_succeed_witness:
  "\<exists>s. reachable 2 s \<and> s_act s 0 = Creating 0 \<and> skynet_globalmq_pop (s_mq s) \<noteq> None"
proof -
  from reachable_example obtain s where s: "reachable 2 s" "s_act s 0 = Creating 0" by blast
  with queue_ops_succeed [OF s(1), of 0] show ?thesis by auto
qed

text \<open>
  The second condition on a push is needed: a service can be found by its handle before its queue
  is created, and a push at that moment has no queue.
\<close>

lemma push_before_queue:
  "\<exists>s. reachable 2 s \<and> s_act s 0 = New 0 \<and> s_act s 1 = Sending 0 \<and> skynet_mq_push 0 msg (s_mq s) = None"
proof -
  let ?s = "become 1 (Sending 0) (published\<lparr>s_ref := (s_ref published)(0 := s_ref published 0 + 1)\<rparr>)"
  have "step published ?s" using step.send_grab [of 1 published 0] by (simp add: published_def sched_init_def)
  with published_reachable have "reachable 2 ?s" by (rule reachable.step)
  moreover have "skynet_mq_push 0 msg (s_mq ?s) = None"
    by (simp add: skynet_mq_push_def published_def skynet_mq_init_def)
  ultimately show ?thesis by (intro exI [of _ ?s]) (simp add: published_def)
qed

end
