(* ===== verification/Skynet_Handle.thy ===== *)
theory Skynet_Handle
  imports Skynet_Prelude
begin

text \<open>
  The handle storage of \<^verbatim>\<open>skynet-src/skynet_handle.c\<close>: an open-addressed table from handles to
  contexts, which doubles when it is full, and a sorted array of local names. The handle of a
  context (\<open>skynet_context_handle\<close>) is a field of the context object, so the operations take the
  function \<open>ch\<close> that reads it. Every operation is the body of one critical section of the
  reader-writer lock. Releasing the reference held by the table after a retire is part of the
  server theory, which owns the contexts.
\<close>

unbundle bit_operations_syntax

section \<open>State\<close>

definition DEFAULT_SLOT_SIZE :: nat where
  "DEFAULT_SLOT_SIZE = 4"

definition MAX_SLOT_SIZE :: nat where
  "MAX_SLOT_SIZE = 1073741824"

definition HANDLE_MASK :: u32 where
  "HANDLE_MASK = 16777215"

definition HANDLE_REMOTE_SHIFT :: nat where
  "HANDLE_REMOTE_SHIFT = 24"

type_synonym handle_name = "string \<times> u32"

record handle_storage =
  h_harbor :: u32
  h_index :: u32
  h_slot_size :: nat
  h_slot :: "addr option list"
  h_name_cap :: nat
  h_name_count :: nat
  h_name :: "handle_name option list"

definition skynet_handle_init :: "int \<Rightarrow> handle_storage" where
  "skynet_handle_init harbor = \<lparr>
     h_harbor = push_bit HANDLE_REMOTE_SHIFT (word_of_int harbor AND 255),
     h_index = 1,
     h_slot_size = DEFAULT_SLOT_SIZE,
     h_slot = replicate DEFAULT_SLOT_SIZE None,
     h_name_cap = 2, h_name_count = 0, h_name = replicate 2 None\<rparr>"

section \<open>Handles\<close>

definition slot_hash :: "u32 \<Rightarrow> nat \<Rightarrow> nat" where
  "slot_hash handle sz = unat (handle AND (of_nat sz - 1))"

text \<open>The probe loop of \<open>skynet_handle_register\<close>: \<open>n\<close> iterations left, at \<open>handle\<close>.\<close>

fun probe :: "addr option list \<Rightarrow> nat \<Rightarrow> nat \<Rightarrow> u32 \<Rightarrow> u32 option" where
  "probe slot sz 0 handle = None"
| "probe slot sz (Suc n) handle =
     (let handle = (if handle > HANDLE_MASK then 1 else handle) in
      if slot ! slot_hash handle sz = None then Some handle
      else probe slot sz n (handle + 1))"

text \<open>The table of twice the size, every context rehashed from its own handle.\<close>

definition rehash :: "(addr \<Rightarrow> u32) \<Rightarrow> addr option list \<Rightarrow> nat \<Rightarrow> addr option list option" where
  "rehash ch slot sz =
     c_for [0..<sz]
       (\<lambda>i new_slot. case slot ! i of
          None \<Rightarrow> Some new_slot
        | Some ctx \<Rightarrow> do {
            let hash = slot_hash (ch ctx) (sz * 2);
            c_assert (new_slot ! hash = None);
            Some (new_slot[hash := Some ctx])
          })
       (replicate (sz * 2) None)"

partial_function (option) skynet_handle_register ::
  "(addr \<Rightarrow> u32) \<Rightarrow> addr \<Rightarrow> handle_storage \<Rightarrow> (u32 \<times> handle_storage) option" where
  "skynet_handle_register ch ctx s =
     (case probe (h_slot s) (h_slot_size s) (h_slot_size s) (h_index s) of
        Some handle \<Rightarrow>
          Some (handle OR h_harbor s,
            s\<lparr>h_slot := (h_slot s)[slot_hash handle (h_slot_size s) := Some ctx],
              h_index := handle + 1\<rparr>)
      | None \<Rightarrow> do {
          c_assert (h_slot_size s * 2 - 1 \<le> unat HANDLE_MASK);
          new_slot \<leftarrow> rehash ch (h_slot s) (h_slot_size s);
          skynet_handle_register ch ctx
            (s\<lparr>h_slot := new_slot, h_slot_size := h_slot_size s * 2\<rparr>)
        })"

definition skynet_handle_grab :: "(addr \<Rightarrow> u32) \<Rightarrow> u32 \<Rightarrow> handle_storage \<Rightarrow> addr option" where
  "skynet_handle_grab ch handle s =
     (case h_slot s ! slot_hash handle (h_slot_size s) of
        None \<Rightarrow> None
      | Some ctx \<Rightarrow> (if ch ctx = handle then Some ctx else None))"

text \<open>The compaction loop of \<open>skynet_handle_retire\<close> over the names, with its two indices.\<close>

definition drop_names :: "u32 \<Rightarrow> nat \<Rightarrow> handle_name option list \<Rightarrow>
    (handle_name option list \<times> nat) option" where
  "drop_names handle n name =
     c_for [0..<n]
       (\<lambda>i (name, j). do {
          e \<leftarrow> arr_get name i;
          if snd e = handle then Some (name, j)
          else do {
            name' \<leftarrow> (if i \<noteq> j then arr_copy name j name i else Some name);
            Some (name', Suc j)
          }
        })
       (name, 0)"

text \<open>
  The locked part of \<open>skynet_handle_retire\<close>: the context whose table reference is to be released
  (\<open>Some\<close> where C returns 1).
\<close>

definition handle_retire ::
  "(addr \<Rightarrow> u32) \<Rightarrow> u32 \<Rightarrow> handle_storage \<Rightarrow> (addr option \<times> handle_storage) option" where
  "handle_retire ch handle s =
     (let hash = slot_hash handle (h_slot_size s) in
      case h_slot s ! hash of
        None \<Rightarrow> Some (None, s)
      | Some ctx \<Rightarrow>
          (if ch ctx = handle then do {
             (name, j) \<leftarrow> drop_names handle (h_name_count s) (h_name s);
             Some (Some ctx,
               s\<lparr>h_slot := (h_slot s)[hash := None], h_name := name, h_name_count := j\<rparr>)
           }
           else Some (None, s)))"

section \<open>Names\<close>

text \<open>
  The binary search of \<open>skynet_handle_findname\<close> and \<open>_insert_name\<close>: \<open>Inl\<close> the handle found, or
  \<open>Inr\<close> the final value of \<open>begin\<close>.
\<close>

function name_search :: "handle_name option list \<Rightarrow> string \<Rightarrow> int \<Rightarrow> int \<Rightarrow> (u32 + int) option" where
  "name_search arr name begin end' =
     (if begin \<le> end' then
        (let mid = (begin + end') div 2 in
         case arr_get arr (nat mid) of
           None \<Rightarrow> None
         | Some n \<Rightarrow>
             (let c = strcmp (fst n) name in
              if c = 0 then Some (Inl (snd n))
              else if c < 0 then name_search arr name (mid + 1) end'
              else name_search arr name begin (mid - 1)))
      else Some (Inr begin))"
  by pat_completeness auto
termination
  by (relation "measure (\<lambda>(arr, name, begin, end'). nat (end' - begin + 1))") auto

declare name_search.simps [simp del]

definition skynet_handle_findname :: "string \<Rightarrow> handle_storage \<Rightarrow> u32 option" where
  "skynet_handle_findname name s =
     map_option (\<lambda>r. case r of Inl handle \<Rightarrow> handle | Inr _ \<Rightarrow> 0)
       (name_search (h_name s) name 0 (int (h_name_count s) - 1))"

definition insert_name_before ::
  "string \<Rightarrow> u32 \<Rightarrow> nat \<Rightarrow> handle_storage \<Rightarrow> handle_storage option" where
  "insert_name_before name handle before s = do {
     s1 \<leftarrow> (if h_name_count s \<ge> h_name_cap s then do {
              let cap = h_name_cap s * 2;
              c_assert (cap \<le> MAX_SLOT_SIZE);
              n1 \<leftarrow> c_for [0..<before] (\<lambda>i n. arr_copy n i (h_name s) i) (replicate cap None);
              n2 \<leftarrow> c_for [before..<h_name_count s] (\<lambda>i n. arr_copy n (i + 1) (h_name s) i) n1;
              Some (s\<lparr>h_name_cap := cap, h_name := n2\<rparr>)
            }
            else do {
              n1 \<leftarrow> c_for (rev [before + 1..<h_name_count s + 1])
                       (\<lambda>i n. arr_copy n i n (i - 1)) (h_name s);
              Some (s\<lparr>h_name := n1\<rparr>)
            });
     n \<leftarrow> arr_set (h_name s1) before (name, handle);
     Some (s1\<lparr>h_name := n, h_name_count := h_name_count s1 + 1\<rparr>)
   }"

text \<open>\<open>Some (Some name, s')\<close> where C returns the stored name, \<open>Some (None, s)\<close> where it returns \<open>NULL\<close>.\<close>

definition skynet_handle_namehandle ::
  "u32 \<Rightarrow> string \<Rightarrow> handle_storage \<Rightarrow> (string option \<times> handle_storage) option" where
  "skynet_handle_namehandle handle name s = do {
     r \<leftarrow> name_search (h_name s) name 0 (int (h_name_count s) - 1);
     (case r of
        Inl _ \<Rightarrow> Some (None, s)
      | Inr begin \<Rightarrow> do {
          s' \<leftarrow> insert_name_before name handle (nat begin) s;
          Some (Some name, s')
        })
   }"


section \<open>The slot table\<close>

lemma slot_hash_mod:
  assumes "k \<le> 31"
  shows "slot_hash h (2 ^ k) = unat h mod 2 ^ k"
proof -
  have "(of_nat (2 ^ k) - 1 :: u32) = mask k" by (simp add: mask_eq_exp_minus_1)
  then have "h AND (of_nat (2 ^ k) - 1) = take_bit k h" by (simp add: take_bit_eq_mask)
  then have "slot_hash h (2 ^ k) = unat (take_bit k h)" by (simp only: slot_hash_def)
  also have "\<dots> = take_bit k (unat h)" by (rule unsigned_take_bit_eq)
  finally show ?thesis by (simp only: take_bit_eq_mod)
qed

text \<open>
  A handle is valid in a node: the low 24 bits are not zero and the high 8 bits are the harbor.
\<close>

definition valid_handle :: "u32 \<Rightarrow> u32 \<Rightarrow> bool" where
  "valid_handle harbor h \<longleftrightarrow> take_bit 24 h \<noteq> 0 \<and> h AND NOT (mask 24) = harbor"

definition slots_inv :: "(addr \<Rightarrow> u32) \<Rightarrow> handle_storage \<Rightarrow> bool" where
  "slots_inv ch s \<longleftrightarrow> (\<exists>k. 2 \<le> k \<and> k \<le> 24 \<and> h_slot_size s = 2 ^ k) \<and>
     length (h_slot s) = h_slot_size s \<and> 1 \<le> unat (h_index s) \<and> unat (h_index s) \<le> 2 ^ 24 \<and>
     take_bit 24 (h_harbor s) = 0 \<and>
     (\<forall>i < h_slot_size s. \<forall>c. h_slot s ! i = Some c \<longrightarrow>
        unat (ch c) mod h_slot_size s = i \<and> valid_handle (h_harbor s) (ch c))"

text \<open>A new service can be registered: the table may grow, or a slot the probe reaches is free.\<close>

definition slots_room :: "handle_storage \<Rightarrow> bool" where
  "slots_room s \<longleftrightarrow> h_slot_size s < 2 ^ 24 \<or>
     (\<exists>r. 1 \<le> r \<and> r < h_slot_size s \<and> h_slot s ! r = None)"

lemma slots_hash:
  "slots_inv ch s \<Longrightarrow> slot_hash h (h_slot_size s) = unat h mod h_slot_size s"
  by (auto simp: slots_inv_def slot_hash_mod)

lemma slots_hash_double:
  assumes "slots_inv ch s"
  shows "slot_hash h (h_slot_size s * 2) = unat h mod (h_slot_size s * 2)"
proof -
  from assms obtain k where "k \<le> 24" "h_slot_size s = 2 ^ k" by (auto simp: slots_inv_def)
  then show ?thesis using slot_hash_mod [of "Suc k" h] by (simp add: mult.commute)
qed

lemma slots_size_pos: "slots_inv ch s \<Longrightarrow> 0 < h_slot_size s"
  by (auto simp: slots_inv_def)

lemma slots_hash_less:
  "slots_inv ch s \<Longrightarrow> unat h mod h_slot_size s < length (h_slot s)"
  by (simp add: slots_inv_def) (metis mod_less_divisor zero_less_numeral zero_less_power)

text \<open>The handle tried in iteration \<open>i\<close>: cyclic in \<open>1 .. HANDLE_MASK\<close>.\<close>

lemma unat_HANDLE_MASK: "unat HANDLE_MASK = 2 ^ 24 - 1"
  by (simp add: HANDLE_MASK_def)

lemma probe_Some:
  assumes "probe slot sz n h = Some h'" "1 \<le> unat h" "unat h \<le> 2 ^ 24"
  shows "slot ! slot_hash h' sz = None \<and> 1 \<le> unat h' \<and> unat h' < 2 ^ 24"
  using assms
proof (induction n arbitrary: h)
  case 0
  then show ?case by simp
next
  case (Suc n)
  define g where "g = (if h > HANDLE_MASK then 1 else h)"
  have g: "1 \<le> unat g" "unat g < 2 ^ 24"
    using Suc.prems(2) unfolding g_def
    by (auto simp: word_less_nat_alt unat_HANDLE_MASK)
  then have "unat (g + 1) = unat g + 1" by (simp add: unat_word_ariths)
  with Suc g show ?case
    by (auto simp: Let_def g_def [symmetric] split: if_splits)
qed

lemma probe_None_step:
  assumes "probe slot sz n h = None" "1 \<le> unat h" "unat h + i < 2 ^ 24" "i < n"
  shows "slot ! slot_hash (h + of_nat i) sz \<noteq> None"
  using assms
proof (induction n arbitrary: h i)
  case 0
  then show ?case by simp
next
  case (Suc n)
  have h: "\<not> h > HANDLE_MASK"
    using Suc.prems(3) by (simp add: word_less_nat_alt unat_HANDLE_MASK)
  with Suc.prems(1) have p: "slot ! slot_hash h sz \<noteq> None" "probe slot sz n (h + 1) = None"
    by (auto simp: Let_def split: if_splits)
  show ?case
  proof (cases i)
    case 0
    with p show ?thesis by simp
  next
    case (Suc j)
    have "unat (h + 1) = unat h + 1"
      using Suc.prems(3) by (simp add: unat_word_ariths)
    with Suc.IH [of "h + 1" j] p(2) Suc.prems Suc show ?thesis by (simp add: add.assoc)
  qed
qed

lemma probe_one: "probe slot sz n (2 ^ 24) = probe slot sz n 1"
  by (cases n) (simp_all add: HANDLE_MASK_def)

lemma probe_None_wrap:
  assumes "probe slot sz n h = None" "1 \<le> unat h" "unat h + d = 2 ^ 24" "d \<le> n"
  shows "probe slot sz (n - d) 1 = None"
  using assms
proof (induction d arbitrary: h n)
  case 0
  then have "h = 2 ^ 24" by (simp add: word_unat_eq_iff)
  with 0 show ?case by (simp only: probe_one diff_zero)
next
  case (Suc d)
  then obtain m where m: "n = Suc m" by (cases n) auto
  have h: "\<not> h > HANDLE_MASK"
    using Suc.prems(3) by (simp add: word_less_nat_alt unat_HANDLE_MASK)
  with Suc.prems(1) m have "probe slot sz m (h + 1) = None"
    by (auto simp: Let_def split: if_splits)
  moreover have "unat (h + 1) = unat h + 1"
    using Suc.prems(3) by (simp add: unat_word_ariths)
  ultimately show ?case using Suc.IH [of m "h + 1"] Suc.prems m by simp
qed

text \<open>
  A failed probe of \<open>2 ^ k\<close> handles has seen every slot but possibly slot 0, which is skipped
  when the counter wraps from \<open>HANDLE_MASK\<close> to 1.
\<close>

lemma probe_None_full:
  assumes p: "probe slot (2 ^ k) (2 ^ k) h = None" and k: "k \<le> 24"
    and h: "1 \<le> unat h" "unat h \<le> 2 ^ 24" and r: "1 \<le> r" "r < 2 ^ k"
  shows "slot ! r \<noteq> None"
proof -
  let ?n = "2 ^ k :: nat"
  have hash: "slot_hash (g + of_nat i) ?n = (unat g + i) mod ?n" if "unat g + i < 2 ^ 24" for g i
  proof -
    have "unat (g + of_nat i) = unat g + i" using that by (simp add: unat_word_ariths unat_of_nat)
    then show ?thesis using slot_hash_mod [of k "g + of_nat i"] k by simp
  qed
  have n24: "?n dvd 2 ^ 24" using k by (rule le_imp_power_dvd)
  show ?thesis
  proof (cases "unat h + ?n \<le> 2 ^ 24")
    case True
    define i where "i = (r + ?n - unat h mod ?n) mod ?n"
    have "(unat h + i) mod ?n = (unat h mod ?n + (r + ?n - unat h mod ?n)) mod ?n"
      unfolding i_def by (simp add: mod_simps)
    also have "unat h mod ?n + (r + ?n - unat h mod ?n) = r + ?n"
      by (rule le_add_diff_inverse) (simp add: less_imp_le trans_le_add2)
    also have "(r + ?n) mod ?n = r" using r by simp
    finally have "(unat h + i) mod ?n = r" .
    moreover have "i < ?n" unfolding i_def by simp
    ultimately show ?thesis using probe_None_step [OF p h(1), of i] hash [of h i] True by simp
  next
    case False
    define d where "d = 2 ^ 24 - unat h"
    obtain b where b: "2 ^ 24 = ?n * b" using n24 by (elim dvdE)
    have d: "unat h + d = 2 ^ 24" "d < ?n" using h False unfolding d_def by auto
    show ?thesis
    proof (cases "?n - d \<le> r")
      case True
      define i where "i = r - (?n - d)"
      have i: "unat h + i + ?n = 2 ^ 24 + r" "i < d" using d True r unfolding i_def by auto
      then have "(unat h + i + ?n) mod ?n = r" using r n24 by (metis mod_less mod_mod_trivial dvd_imp_mod_0 mod_add_left_eq add_0)
      then have "(unat h + i) mod ?n = r" by simp
      then show ?thesis using probe_None_step [OF p h(1), of i] hash [of h i] i d by simp
    next
      case False
      have "probe slot ?n (?n - d) 1 = None" using probe_None_wrap [OF p h(1) d(1)] d(2) by simp
      from probe_None_step [OF this, of "r - 1"] show ?thesis
        using hash [of 1 "r - 1"] r False k
        using order_less_le_trans [OF r(2) power_increasing [OF k, of "2::nat"]] by simp
    qed
  qed
qed


section \<open>Growing the table\<close>

definition rehashed :: "(addr \<Rightarrow> u32) \<Rightarrow> addr option list \<Rightarrow> nat \<Rightarrow> nat \<Rightarrow> addr option" where
  "rehashed ch slot n r =
     (case slot ! (r mod n) of
        None \<Rightarrow> None
      | Some c \<Rightarrow> if unat (ch c) mod (n * 2) = r then Some c else None)"

lemma mod_double_mod: "(a::nat) mod (n * 2) mod n = a mod n"
  by (simp add: mod_mod_cancel)

lemma rehash_spec:
  assumes inv: "slots_inv ch s"
  shows "\<exists>new. rehash ch (h_slot s) (h_slot_size s) = Some new \<and>
     length new = h_slot_size s * 2 \<and>
     (\<forall>r < h_slot_size s * 2. new ! r = rehashed ch (h_slot s) (h_slot_size s) r)"
proof -
  let ?n = "h_slot_size s" and ?slot = "h_slot s"
  let ?I = "\<lambda>i new. length new = ?n * 2 \<and>
     (\<forall>r < ?n * 2. new ! r = (if r mod ?n < i then rehashed ch ?slot ?n r else None))"
  have "\<exists>new. rehash ch ?slot ?n = Some new \<and> ?I ?n new"
    unfolding rehash_def
  proof (rule c_for_upt [where I = ?I])
    show "?I 0 (replicate (?n * 2) None)" by simp
    fix i new assume i: "i < ?n" and I: "?I i new"
    show "\<exists>s'. (case ?slot ! i of None \<Rightarrow> Some new
        | Some ctx \<Rightarrow> do {
            let hash = slot_hash (ch ctx) (?n * 2);
            c_assert (new ! hash = None);
            Some (new[hash := Some ctx]) }) = Some s' \<and> ?I (Suc i) s'"
    proof (cases "?slot ! i")
      case None
      with I show ?thesis by (auto simp: rehashed_def less_Suc_eq)
    next
      case (Some c)
      let ?h = "unat (ch c) mod (?n * 2)"
      have h: "?h mod ?n = i" "?h < ?n * 2"
        using inv Some i by (auto simp: slots_inv_def mod_double_mod)
      with I have "new ! ?h = None" by auto
      moreover have "?I (Suc i) (new[?h := Some c])"
        using I h Some by (auto simp: rehashed_def less_Suc_eq nth_list_update)
      ultimately show ?thesis using Some by (simp add: slots_hash_double [OF inv] Let_def)
    qed
  qed simp
  then obtain new where "rehash ch ?slot ?n = Some new" "?I ?n new" by blast
  moreover have "r mod ?n < ?n" for r using slots_size_pos [OF inv] by simp
  ultimately show ?thesis by auto
qed

lemma grow_inv:
  assumes inv: "slots_inv ch s" and room: "h_slot_size s < 2 ^ 24"
    and new: "length new = h_slot_size s * 2"
      "\<forall>r < h_slot_size s * 2. new ! r = rehashed ch (h_slot s) (h_slot_size s) r"
  shows "slots_inv ch (s\<lparr>h_slot := new, h_slot_size := h_slot_size s * 2\<rparr>)" (is ?inv)
    and "\<exists>r. 1 \<le> r \<and> r < h_slot_size s * 2 \<and> new ! r = None" (is ?free)
    and "skynet_handle_grab ch h (s\<lparr>h_slot := new, h_slot_size := h_slot_size s * 2\<rparr>) =
         skynet_handle_grab ch h s" (is ?grab)
proof -
  let ?n = "h_slot_size s"
  from inv obtain k where k: "2 \<le> k" "k \<le> 24" "?n = 2 ^ k" by (auto simp: slots_inv_def)
  with room have "k < 24" using power_strict_increasing_iff [of "2::nat" k 24] by simp
  with k have "\<exists>k. 2 \<le> k \<and> k \<le> 24 \<and> ?n * 2 = 2 ^ k" by (intro exI [of _ "Suc k"]) simp
  moreover have "valid_handle (h_harbor s) (ch c) \<and> unat (ch c) mod (?n * 2) = i"
    if "i < ?n * 2" "new ! i = Some c" for i c
  proof -
    have "?n > 0" using k by simp
    then have "i mod ?n < ?n" by simp
    moreover have "h_slot s ! (i mod ?n) = Some c" "unat (ch c) mod (?n * 2) = i"
      using that new by (auto simp: rehashed_def split: option.splits if_splits)
    ultimately show ?thesis using inv unfolding slots_inv_def by blast
  qed
  ultimately show i2: ?inv using inv new by (auto simp: slots_inv_def)
  have n: "1 < ?n" using k one_less_power [of "2::nat" k] by simp
  show ?free
  proof (cases "new ! 1 = None")
    case True
    then show ?thesis using n by (intro exI [of _ 1]) simp
  next
    case False
    then have "unat (ch c) mod (?n * 2) = 1" if "h_slot s ! 1 = Some c" for c
      using that n new by (auto simp: rehashed_def split: option.splits if_splits)
    moreover have "(?n + 1) mod ?n = 1" using n by (simp add: mod_if)
    ultimately have "new ! (?n + 1) = None"
      using n new by (simp add: rehashed_def split: option.splits)
    then show ?thesis using n by (intro exI [of _ "?n + 1"]) simp
  qed
  show ?grab
    using new k slots_hash [OF inv, of h] slots_hash_double [OF inv, of h]
    by (auto simp: skynet_handle_grab_def rehashed_def mod_double_mod split: option.splits)
qed


section \<open>Registering\<close>

lemma take_bit_small: "unat (h :: u32) < 2 ^ k \<Longrightarrow> take_bit k h = h"
  by (simp add: word_unat_eq_iff unsigned_take_bit_eq take_bit_nat_eq_self)

lemma high_bits_of_harbor:
  assumes "take_bit 24 (harbor :: u32) = 0"
  shows "harbor AND NOT (mask 24) = harbor"
proof (rule bit_word_eqI)
  fix i assume "i < LENGTH(32)"
  from assms have "\<not> bit (take_bit 24 harbor) i" by simp
  then have "\<not> (i < 24 \<and> bit harbor i)" by (simp add: bit_take_bit_iff)
  then show "bit (harbor AND NOT (mask 24)) i = bit harbor i"
    using \<open>i < LENGTH(32)\<close> by (auto simp: bit_simps)
qed

lemma low_bits_mod:
  assumes "k \<le> 24" "take_bit 24 (x :: u32) = take_bit 24 y"
  shows "unat x mod 2 ^ k = unat y mod 2 ^ k"
proof -
  have "unat z mod 2 ^ k = unat (take_bit k (take_bit 24 z))" for z :: u32
  proof -
    have eq: "take_bit k (take_bit 24 z) = take_bit k z" using assms(1) by (simp add: min_def)
    show ?thesis unfolding eq unsigned_take_bit_eq by (simp only: take_bit_eq_mod)
  qed
  with assms(2) show ?thesis by metis
qed

lemma handle_or_harbor:
  assumes "unat h < 2 ^ 24" "1 \<le> unat h" "take_bit 24 harbor = 0"
  shows "valid_handle harbor (h OR harbor)"
    and "k \<le> 24 \<Longrightarrow> unat (h OR harbor) mod 2 ^ k = unat h mod 2 ^ k"
    and "take_bit 24 (h OR harbor) = h"
proof -
  have th: "take_bit 24 h = h" using assms(1) by (rule take_bit_small)
  show t: "take_bit 24 (h OR harbor) = h" using th assms(3) by simp
  have "h AND NOT (mask 24) = take_bit 24 h AND NOT (mask 24)" by (simp only: th)
  also have "\<dots> = 0" by (rule bit_word_eqI) (auto simp: bit_simps)
  finally have "(h OR harbor) AND NOT (mask 24) = harbor"
    using high_bits_of_harbor [OF assms(3)] by (simp add: bit.conj_disj_distrib2)
  then show "valid_handle harbor (h OR harbor)"
    using t assms(2) by (auto simp: valid_handle_def)
  show "k \<le> 24 \<Longrightarrow> unat (h OR harbor) mod 2 ^ k = unat h mod 2 ^ k"
    using t th by (intro low_bits_mod) auto
qed

text \<open>The probe succeeds: the new handle is fresh and the other handles keep their contexts.\<close>

lemma register_found:
  assumes inv: "slots_inv ch s"
    and p: "probe (h_slot s) (h_slot_size s) (h_slot_size s) (h_index s) = Some h"
    and new: "Some ctx \<notin> set (h_slot s)"
  defines "g \<equiv> h OR h_harbor s"
  defines "s' \<equiv> s\<lparr>h_slot := (h_slot s)[slot_hash h (h_slot_size s) := Some ctx], h_index := h + 1\<rparr>"
  shows "slots_inv (ch(ctx := g)) s'" and "skynet_handle_grab ch g s = None"
    and "skynet_handle_grab (ch(ctx := g)) x s' =
           (if x = g then Some ctx else skynet_handle_grab ch x s)"
    and "valid_handle (h_harbor s) g"
proof -
  let ?n = "h_slot_size s"
  have h: "h_slot s ! (unat h mod ?n) = None" "1 \<le> unat h" "unat h < 2 ^ 24"
    using probe_Some [OF p] inv by (auto simp: slots_inv_def slot_hash_mod)
  have harb: "take_bit 24 (h_harbor s) = 0" and len: "length (h_slot s) = ?n"
    using inv by (auto simp: slots_inv_def)
  have gm: "unat g mod ?n = unat h mod ?n"
    using inv handle_or_harbor(2) [OF h(3,2) harb] unfolding g_def by (auto simp: slots_inv_def)
  show v: "valid_handle (h_harbor s) g"
    using handle_or_harbor(1) [OF h(3,2) harb] unfolding g_def .
  have i: "unat (h + 1) = unat h + 1" using h(3) by (simp add: unat_word_ariths)
  have notin: "h_slot s ! j \<noteq> Some ctx" if "j < ?n" for j
    using new that len by (metis nth_mem)
  show "slots_inv (ch(ctx := g)) s'"
    using inv v gm i h len notin unfolding slots_inv_def s'_def
    by (auto simp: nth_list_update slot_hash_mod split: if_splits)
  show "skynet_handle_grab ch g s = None"
    using h(1) gm by (simp add: skynet_handle_grab_def slots_hash [OF inv])
  show "skynet_handle_grab (ch(ctx := g)) x s' =
      (if x = g then Some ctx else skynet_handle_grab ch x s)"
    using h(1) gm len notin slots_size_pos [OF inv]
    unfolding s'_def skynet_handle_grab_def
    by (auto simp: slots_hash [OF inv] nth_list_update split: option.splits)
qed

lemma register_spec:
  assumes inv: "slots_inv ch s" and room: "slots_room s" and new: "Some ctx \<notin> set (h_slot s)"
  shows "\<exists>g s'. skynet_handle_register ch ctx s = Some (g, s') \<and> slots_inv (ch(ctx := g)) s' \<and>
     skynet_handle_grab ch g s = None \<and> valid_handle (h_harbor s) g \<and>
     (\<forall>x. skynet_handle_grab (ch(ctx := g)) x s' =
        (if x = g then Some ctx else skynet_handle_grab ch x s)) \<and>
     h_name s' = h_name s \<and> h_name_count s' = h_name_count s \<and> h_name_cap s' = h_name_cap s \<and>
     h_harbor s' = h_harbor s"
proof (cases "probe (h_slot s) (h_slot_size s) (h_slot_size s) (h_index s)")
  case (Some h)
  then show ?thesis
    using register_found [OF inv Some new]
    by (auto simp: skynet_handle_register.simps [of ch ctx s])
next
  case None
  let ?n = "h_slot_size s"
  from inv obtain k where k: "?n = 2 ^ k" "k \<le> 24" by (auto simp: slots_inv_def)
  have full: "h_slot s ! r \<noteq> None" if "1 \<le> r" "r < ?n" for r
    using probe_None_full [of "h_slot s" k "h_index s" r] None inv k that by (auto simp: slots_inv_def)
  with room have n24: "?n < 2 ^ 24" unfolding slots_room_def by blast
  then have "k < 24" using k power_strict_increasing_iff [of "2::nat" k 24] by simp
  then have n23: "?n \<le> 2 ^ 23" using k power_increasing [of k 23 "2::nat"] by simp
  from rehash_spec [OF inv] obtain new where r: "rehash ch (h_slot s) ?n = Some new"
    and len: "length new = ?n * 2" "\<forall>r < ?n * 2. new ! r = rehashed ch (h_slot s) ?n r" by blast
  define t where "t = s\<lparr>h_slot := new, h_slot_size := ?n * 2\<rparr>"
  note g = grow_inv [OF inv n24 len, folded t_def]
  have "?n * 2 - 1 \<le> unat HANDLE_MASK" using n23 by (simp add: unat_HANDLE_MASK le_diff_conv)
  then have reg: "skynet_handle_register ch ctx s = skynet_handle_register ch ctx t"
    using None r by (simp add: skynet_handle_register.simps [of ch ctx s] t_def)
  obtain h where h: "probe (h_slot t) (h_slot_size t) (h_slot_size t) (h_index t) = Some h"
  proof (cases "probe (h_slot t) (h_slot_size t) (h_slot_size t) (h_index t)")
    case None
    from g(1) obtain j where j: "?n * 2 = 2 ^ j" "j \<le> 24" by (auto simp: slots_inv_def t_def)
    have "new ! r \<noteq> None" if "1 \<le> r" "r < ?n * 2" for r
      using probe_None_full [of new j "h_index s" r] None inv j that
      by (auto simp: slots_inv_def t_def)
    with g(2) show ?thesis by blast
  qed
  have new': "Some ctx \<notin> set (h_slot t)"
  proof
    assume "Some ctx \<in> set (h_slot t)"
    then obtain i where i: "i < ?n * 2" "new ! i = Some ctx"
      using len by (auto simp: in_set_conv_nth t_def)
    then have "h_slot s ! (i mod ?n) = Some ctx"
      using len by (auto simp: rehashed_def split: option.splits if_splits)
    moreover have "i mod ?n < length (h_slot s)"
      using inv i(1) by (auto simp: slots_inv_def)
    ultimately show False using new by (metis nth_mem)
  qed
  have t: "h_harbor t = h_harbor s" "h_name t = h_name s" "h_name_count t = h_name_count s"
    "h_name_cap t = h_name_cap s"
    by (simp_all add: t_def)
  have reg_t: "skynet_handle_register ch ctx t = Some (h OR h_harbor t,
      t\<lparr>h_slot := (h_slot t)[slot_hash h (h_slot_size t) := Some ctx], h_index := h + 1\<rparr>)"
    by (simp add: skynet_handle_register.simps [of ch ctx t] h)
  show ?thesis
    unfolding reg reg_t using register_found [OF g(1) h new'] g(3)
    by (simp add: t)
qed


section \<open>The sorted array of names\<close>

definition names :: "handle_storage \<Rightarrow> handle_name list" where
  "names s = map the (take (h_name_count s) (h_name s))"

abbreviation name_less :: "handle_name \<Rightarrow> handle_name \<Rightarrow> bool" where
  "name_less a b \<equiv> strcmp (fst a) (fst b) < 0"

definition names_inv :: "handle_storage \<Rightarrow> bool" where
  "names_inv s \<longleftrightarrow> (\<exists>k \<le> 30. h_name_cap s = 2 ^ k) \<and>
     length (h_name s) = h_name_cap s \<and> h_name_count s \<le> h_name_cap s \<and>
     (\<forall>i < h_name_count s. h_name s ! i \<noteq> None) \<and> sorted_wrt name_less (names s)"

lemma length_names: "names_inv s \<Longrightarrow> length (names s) = h_name_count s"
  by (auto simp: names_def names_inv_def)

lemma names_cell:
  "names_inv s \<Longrightarrow> i < h_name_count s \<Longrightarrow> arr_get (h_name s) i = Some (names s ! i)"
  by (auto simp: names_def names_inv_def arr_get_def)

lemma strcmp_pos: "0 < strcmp a b \<longleftrightarrow> strcmp b a < 0"
  using strcmp_antisym [of a b] by simp

lemma names_sorted_nth:
  "names_inv s \<Longrightarrow> i < j \<Longrightarrow> j < h_name_count s \<Longrightarrow> name_less (names s ! i) (names s ! j)"
  using sorted_wrt_nth_less [of name_less "names s" i j] length_names [of s]
  by (simp add: names_inv_def)

definition split_at :: "handle_name list \<Rightarrow> string \<Rightarrow> nat \<Rightarrow> bool" where
  "split_at ns name p \<longleftrightarrow> p \<le> length ns \<and> (\<forall>i < p. strcmp (fst (ns ! i)) name < 0) \<and>
     (\<forall>i. p \<le> i \<longrightarrow> i < length ns \<longrightarrow> strcmp name (fst (ns ! i)) < 0)"

text \<open>
  The binary search: it never reads outside the array, terminates, and finds the entry, or the
  position where the name belongs.
\<close>

lemma name_search_spec:
  assumes inv: "names_inv s"
    and "0 \<le> lo" "hi < int (h_name_count s)" "lo \<le> hi + 1"
    and "\<And>i. int i < lo \<Longrightarrow> strcmp (fst (names s ! i)) name < 0"
    and "\<And>i. hi < int i \<Longrightarrow> i < h_name_count s \<Longrightarrow> strcmp name (fst (names s ! i)) < 0"
  shows "(\<exists>i < h_name_count s. fst (names s ! i) = name \<and>
            name_search (h_name s) name lo hi = Some (Inl (snd (names s ! i)))) \<or>
         (\<exists>p. name_search (h_name s) name lo hi = Some (Inr (int p)) \<and>
            split_at (names s) name p)"
  using assms(2-6)
proof (induction "nat (hi - lo + 1)" arbitrary: lo hi rule: less_induct)
  case less
  show ?case
  proof (cases "lo \<le> hi")
    case False
    with less.prems have lo: "lo = hi + 1" by simp
    have "name_search (h_name s) name lo hi = Some (Inr (int (nat lo)))"
      using False less.prems by (simp add: name_search.simps [of _ _ lo])
    moreover have "split_at (names s) name (nat lo)"
      using less.prems lo by (auto simp: split_at_def length_names [OF inv])
    ultimately show ?thesis by blast
  next
    case True
    define mid where "mid = (lo + hi) div 2"
    have mid: "lo \<le> mid" "mid \<le> hi" "0 \<le> mid" "nat mid < h_name_count s"
      using True less.prems unfolding mid_def by auto
    let ?n = "names s ! nat mid"
    have cell: "arr_get (h_name s) (nat mid) = Some ?n" using names_cell [OF inv mid(4)] .
    have eq: "name_search (h_name s) name lo hi =
       (if fst ?n = name then Some (Inl (snd ?n))
        else if strcmp (fst ?n) name < 0 then name_search (h_name s) name (mid + 1) hi
        else name_search (h_name s) name lo (mid - 1))"
      using True cell by (simp add: name_search.simps [of _ _ lo] mid_def [symmetric] Let_def)
    consider "fst ?n = name" | "strcmp (fst ?n) name < 0" | "strcmp name (fst ?n) < 0"
      using strcmp_pos strcmp_eq_0 by (metis linorder_neqE_linordered_idom)
    then show ?thesis
    proof cases
      case 1
      then show ?thesis
        using eq mid by auto
    next
      case 2
      have "strcmp (fst (names s ! i)) name < 0" if "int i < mid + 1" for i
      proof (cases "i = nat mid")
        case False
        with that mid have "i < nat mid" by linarith
        from names_sorted_nth [OF inv this mid(4)] 2 show ?thesis by (rule strcmp_trans)
      qed (use 2 in simp)
      moreover have "fst ?n \<noteq> name" using 2 by auto
      ultimately show ?thesis
        using less.hyps [of hi "mid + 1"] less.prems 2 mid unfolding eq by simp
    next
      case 3
      have "strcmp name (fst (names s ! i)) < 0" if "mid - 1 < int i" "i < h_name_count s" for i
      proof (cases "i = nat mid")
        case False
        with that mid have "nat mid < i" by linarith
        from 3 names_sorted_nth [OF inv this that(2)] show ?thesis by (rule strcmp_trans)
      qed (use 3 in simp)
      moreover have "\<not> strcmp (fst ?n) name < 0" "fst ?n \<noteq> name"
        using 3 strcmp_antisym [of "fst ?n" name] by auto
      ultimately show ?thesis
        using less.hyps [of "mid - 1" lo] less.prems mid unfolding eq by simp
    qed
  qed
qed

lemma name_search_whole:
  assumes inv: "names_inv s"
  shows "(\<exists>h. (name, h) \<in> set (names s) \<and>
            name_search (h_name s) name 0 (int (h_name_count s) - 1) = Some (Inl h)) \<or>
         (\<exists>p. name_search (h_name s) name 0 (int (h_name_count s) - 1) = Some (Inr (int p)) \<and>
            split_at (names s) name p)"
  using name_search_spec [OF inv, of 0 "int (h_name_count s) - 1" name] length_names [OF inv]
  by (auto simp: in_set_conv_nth prod_eq_iff) 

lemma names_unique:
  assumes "names_inv s" "(name, h) \<in> set (names s)" "(name, h') \<in> set (names s)"
  shows "h = h'"
proof -
  from assms obtain i j where "i < h_name_count s" "j < h_name_count s"
    "names s ! i = (name, h)" "names s ! j = (name, h')"
    by (auto simp: in_set_conv_nth length_names)
  then show ?thesis
    using names_sorted_nth [OF assms(1), of i j] names_sorted_nth [OF assms(1), of j i]
    by (cases i j rule: linorder_cases) auto
qed

lemma split_at_absent: "split_at ns name p \<Longrightarrow> (name, h) \<notin> set ns"
  by (auto simp: split_at_def in_set_conv_nth not_less) (metis fst_conv linorder_not_less order_less_irrefl strcmp_eq_0)

lemma findname_spec:
  assumes "names_inv s"
  shows "skynet_handle_findname name s =
     Some (case map_of (names s) name of None \<Rightarrow> 0 | Some h \<Rightarrow> h)"
proof -
  from name_search_whole [OF assms, of name] show ?thesis
  proof (elim disjE exE conjE)
    fix h assume h: "(name, h) \<in> set (names s)"
      "name_search (h_name s) name 0 (int (h_name_count s) - 1) = Some (Inl h)"
    then obtain h' where h': "map_of (names s) name = Some h'"
      by (metis map_of_eq_None_iff not_None_eq fst_conv image_eqI)
    then have "h' = h" using names_unique [OF assms _ h(1)] map_of_SomeD by metis
    with h h' show ?thesis by (simp add: skynet_handle_findname_def)
  next
    fix p assume p: "name_search (h_name s) name 0 (int (h_name_count s) - 1) = Some (Inr (int p))"
      "split_at (names s) name p"
    then have "map_of (names s) name = None"
      by (metis map_of_SomeD not_None_eq split_at_absent)
    with p show ?thesis by (simp add: skynet_handle_findname_def)
  qed
qed


section \<open>Inserting and removing names\<close>

lemma shift_up_spec:
  assumes "b \<le> c" "c < length xs"
  shows "\<exists>ys. c_for (rev [b + 1..<c + 1]) (\<lambda>i n. arr_copy n i n (i - 1)) xs = Some ys \<and>
     length ys = length xs \<and>
     (\<forall>j < length xs. ys ! j = (if b < j \<and> j \<le> c then xs ! (j - 1) else xs ! j))"
  using assms
proof (induction c arbitrary: xs)
  case 0
  then show ?case by simp
next
  case (Suc c)
  show ?case
  proof (cases "b = Suc c")
    case True
    then show ?thesis by auto
  next
    case False
    with Suc.prems have b: "b \<le> c" by simp
    then have r: "rev [b + 1..<Suc c + 1] = Suc c # rev [b + 1..<c + 1]" by simp
    let ?xs = "xs[Suc c := xs ! c]"
    from Suc.IH [of ?xs] b Suc.prems obtain ys where
      ys: "c_for (rev [b + 1..<c + 1]) (\<lambda>i n. arr_copy n i n (i - 1)) ?xs = Some ys"
      "length ys = length xs"
      "\<forall>j < length xs. ys ! j = (if b < j \<and> j \<le> c then ?xs ! (j - 1) else ?xs ! j)"
      by auto
    moreover have "arr_copy xs (Suc c) xs c = Some ?xs" using Suc.prems by (simp add: arr_copy_def)
    moreover have "(if b < j \<and> j \<le> c then ?xs ! (j - 1) else ?xs ! j) =
        (if b < j \<and> j \<le> Suc c then xs ! (j - 1) else xs ! j)" if "j < length xs" for j
      using that b by (cases "j = Suc c") (auto simp: nth_list_update)
    ultimately show ?thesis unfolding r by simp
  qed
qed

lemma copy_range_spec:
  assumes "a \<le> b" "b \<le> length src" "b + d \<le> length dst"
  shows "\<exists>ys. c_for [a..<b] (\<lambda>i n. arr_copy n (i + d) src i) dst = Some ys \<and>
     length ys = length dst \<and>
     (\<forall>j < length dst. ys ! j = (if a + d \<le> j \<and> j < b + d then src ! (j - d) else dst ! j))"
proof -
  let ?I = "\<lambda>k ys. length ys = length dst \<and>
     (\<forall>j < length dst. ys ! j = (if a + d \<le> j \<and> j < k + d then src ! (j - d) else dst ! j))"
  show ?thesis
  proof (rule c_for_upt [where I = ?I])
    show "?I a dst" by auto
    show "a \<le> b" by fact
    fix i ys assume "a \<le> i" "i < b" "?I i ys"
    then show "\<exists>s'. arr_copy ys (i + d) src i = Some s' \<and> ?I (Suc i) s'"
      using assms by (auto simp: arr_copy_def nth_list_update less_Suc_eq)
  qed
qed

text \<open>Whichever way the array makes room, the cells from \<open>p\<close> on move up by one.\<close>

definition room_made :: "nat \<Rightarrow> handle_storage \<Rightarrow> handle_storage \<Rightarrow> bool" where
  "room_made p s t \<longleftrightarrow> h_name_count s < h_name_cap t \<and> (\<exists>k \<le> 30. h_name_cap t = 2 ^ k) \<and>
     length (h_name t) = h_name_cap t \<and>
     (\<forall>j \<le> h_name_count s. j \<noteq> p \<longrightarrow>
        h_name t ! j = h_name s ! (if j < p then j else j - 1)) \<and>
     t = s\<lparr>h_name := h_name t, h_name_cap := h_name_cap t\<rparr>"

lemma make_room_grow:
  assumes inv: "names_inv s" and p: "p \<le> h_name_count s"
    and full: "h_name_count s \<ge> h_name_cap s" "h_name_count s < MAX_SLOT_SIZE"
  shows "h_name_cap s * 2 \<le> MAX_SLOT_SIZE \<and> (\<exists>n1 n2.
     c_for [0..<p] (\<lambda>i n. arr_copy n i (h_name s) i) (replicate (h_name_cap s * 2) None) = Some n1 \<and>
     c_for [p..<h_name_count s] (\<lambda>i n. arr_copy n (i + 1) (h_name s) i) n1 = Some n2 \<and>
     room_made p s (s\<lparr>h_name_cap := h_name_cap s * 2, h_name := n2\<rparr>))"
proof -
  let ?c = "h_name_count s" and ?cap = "h_name_cap s * 2"
  from inv have len: "length (h_name s) = h_name_cap s" "?c \<le> h_name_cap s"
    by (auto simp: names_inv_def)
  from inv obtain k where k: "h_name_cap s = 2 ^ k" by (auto simp: names_inv_def)
  then have pos: "1 \<le> h_name_cap s" by simp
  have "(2::nat) ^ k < 2 ^ 30" using full k by (simp add: MAX_SLOT_SIZE_def)
  then have "k < 30" using power_strict_increasing_iff [of "2::nat" k 30] by simp
  then have cap: "?cap = 2 ^ Suc k" "Suc k \<le> 30" using k by auto
  then have "?cap \<le> 2 ^ 30" using power_increasing [of "Suc k" 30 "2::nat"] by simp
  moreover obtain n1 where n1: "c_for [0..<p] (\<lambda>i n. arr_copy n i (h_name s) i) (replicate ?cap None) = Some n1"
    "length n1 = ?cap" "\<forall>j < ?cap. n1 ! j = (if j < p then h_name s ! j else None)"
    using copy_range_spec [of 0 p "h_name s" 0 "replicate ?cap None"] p len by auto
  moreover obtain n2 where n2: "c_for [p..<?c] (\<lambda>i n. arr_copy n (i + 1) (h_name s) i) n1 = Some n2"
    "length n2 = ?cap" "\<forall>j < ?cap. n2 ! j = (if p + 1 \<le> j \<and> j < ?c + 1 then h_name s ! (j - 1) else n1 ! j)"
    using copy_range_spec [of p ?c "h_name s" 1 n1] p len n1 full pos by auto
  moreover have "room_made p s (s\<lparr>h_name_cap := ?cap, h_name := n2\<rparr>)"
  proof -
    have "?c < ?cap" using len pos by simp
    moreover have "\<exists>k \<le> 30. ?cap = 2 ^ k" using cap by blast
    ultimately show ?thesis using n1 n2 p by (auto simp: room_made_def)
  qed
  ultimately show ?thesis by (simp add: MAX_SLOT_SIZE_def)
qed

lemma make_room_shift:
  assumes inv: "names_inv s" and p: "p \<le> h_name_count s" and room: "h_name_count s < h_name_cap s"
  shows "\<exists>n1. c_for (rev [p + 1..<h_name_count s + 1]) (\<lambda>i n. arr_copy n i n (i - 1)) (h_name s) = Some n1 \<and>
     room_made p s (s\<lparr>h_name := n1\<rparr>)"
proof -
  from inv have "length (h_name s) = h_name_cap s" "\<exists>k \<le> 30. h_name_cap s = 2 ^ k"
    by (auto simp: names_inv_def)
  with shift_up_spec [of p "h_name_count s" "h_name s"] p room show ?thesis
    by (auto simp: room_made_def)
qed

lemma room_made_count: "room_made p s t \<Longrightarrow> h_name_count t = h_name_count s"
  by (cases s, cases t) (auto simp: room_made_def)

lemma room_made_insert:
  assumes inv: "names_inv s" and p: "p \<le> h_name_count s" and room: "room_made p s t"
    and t': "t' = t\<lparr>h_name := (h_name t)[p := Some e], h_name_count := h_name_count t + 1\<rparr>"
  shows "names t' = take p (names s) @ e # drop p (names s)"
    and "\<forall>i < h_name_count t'. h_name t' ! i \<noteq> None"
proof -
  let ?c = "h_name_count s"
  from inv have s: "length (h_name s) = h_name_cap s" "?c \<le> h_name_cap s"
    "\<forall>i < ?c. h_name s ! i \<noteq> None" by (auto simp: names_inv_def)
  have c: "h_name_count t = ?c" by (rule room_made_count [OF room])
  have l: "?c < length (h_name t)" using room by (auto simp: room_made_def)
  have cell: "h_name t' ! j = (if j < p then h_name s ! j else if j = p then Some e else h_name s ! (j - 1))"
    if "j \<le> ?c" for j
    using that room l p unfolding t' by (auto simp: room_made_def nth_list_update)
  show "\<forall>i < h_name_count t'. h_name t' ! i \<noteq> None"
    using cell s c p unfolding t' by (auto simp: less_Suc_eq_le)
  show "names t' = take p (names s) @ e # drop p (names s)"
  proof (rule nth_equalityI)
    show "length (names t') = length (take p (names s) @ e # drop p (names s))"
      using l p s c unfolding t' by (simp add: names_def)
    fix j assume "j < length (names t')"
    then have j: "j \<le> ?c" using l c unfolding t' by (simp add: names_def)
    then have "names t' ! j = the (h_name t' ! j)"
      using l c unfolding t' by (simp add: names_def)
    with cell [OF j] j p s show "names t' ! j = (take p (names s) @ e # drop p (names s)) ! j"
      by (auto simp: names_def nth_append nth_Cons' min_def)
  qed
qed


lemma insert_name_before_spec:
  assumes inv: "names_inv s" and p: "p \<le> h_name_count s" and room: "h_name_count s < MAX_SLOT_SIZE"
    and sorted: "sorted_wrt name_less (take p (names s) @ (name, h) # drop p (names s))"
  shows "\<exists>s'. insert_name_before name h p s = Some s' \<and> names_inv s' \<and>
     names s' = take p (names s) @ (name, h) # drop p (names s) \<and>
     s' = s\<lparr>h_name := h_name s', h_name_count := h_name_count s', h_name_cap := h_name_cap s'\<rparr>"
proof -
  obtain t where t: "room_made p s t" and ins: "insert_name_before name h p s = do {
      n \<leftarrow> arr_set (h_name t) p (name, h);
      Some (t\<lparr>h_name := n, h_name_count := h_name_count t + 1\<rparr>) }"
  proof (cases "h_name_count s \<ge> h_name_cap s")
    case True
    from make_room_grow [OF inv p True room] that show ?thesis
      by (auto simp: insert_name_before_def True Let_def)
  next
    case False
    then have f: "h_name_count s < h_name_cap s" by simp
    from make_room_shift [OF inv p f] that False show ?thesis
      by (auto simp: insert_name_before_def)
  qed
  let ?t = "t\<lparr>h_name := (h_name t)[p := Some (name, h)], h_name_count := h_name_count t + 1\<rparr>"
  have c: "h_name_count t = h_name_count s" by (rule room_made_count [OF t])
  have l: "h_name_count s < length (h_name t)"
    and cap: "\<exists>k \<le> 30. h_name_cap t = 2 ^ k" "length (h_name t) = h_name_cap t"
    and eq: "t = s\<lparr>h_name := h_name t, h_name_cap := h_name_cap t\<rparr>"
    using t unfolding room_made_def by auto
  note r = room_made_insert [OF inv p t refl, of "(name, h)"]
  have "insert_name_before name h p s = Some ?t" using ins p l by (simp add: arr_set_ok)
  moreover have "names_inv ?t"
    using r sorted c cap l unfolding names_inv_def by simp
  moreover have "?t = s\<lparr>h_name := h_name ?t, h_name_count := h_name_count ?t, h_name_cap := h_name_cap ?t\<rparr>"
    using eq by (cases s, cases t) simp
  ultimately show ?thesis using r(1) by blast
qed


lemma map_of_insert_middle:
  "map_of xs k = None \<Longrightarrow> map_of (xs @ (k, v) # ys) = (map_of (xs @ ys))(k \<mapsto> v)"
  by (auto simp: fun_eq_iff map_add_def split: option.splits)

lemma names_insert_sorted:
  assumes inv: "names_inv s" and sp: "split_at (names s) name p"
  shows "sorted_wrt name_less (take p (names s) @ (name, h) # drop p (names s))"
proof -
  have "sorted_wrt name_less (take p (names s))" "sorted_wrt name_less (drop p (names s))"
    "\<forall>a \<in> set (take p (names s)). \<forall>b \<in> set (drop p (names s)). name_less a b"
    using inv sorted_wrt_append [of name_less "take p (names s)" "drop p (names s)"]
    unfolding names_inv_def append_take_drop_id by blast+
  moreover have "strcmp (fst a) name < 0" if "a \<in> set (take p (names s))" for a
    using that sp by (auto simp: split_at_def in_set_conv_nth)
  moreover have "strcmp name (fst a) < 0" if "a \<in> set (drop p (names s))" for a
    using that sp by (auto simp: split_at_def in_set_conv_nth)
  ultimately show ?thesis by (simp add: sorted_wrt_append)
qed

lemma namehandle_spec:
  assumes inv: "names_inv s" and room: "h_name_count s < MAX_SLOT_SIZE"
  shows "if map_of (names s) name = None
     then \<exists>s'. skynet_handle_namehandle h name s = Some (Some name, s') \<and> names_inv s' \<and>
       map_of (names s') = (map_of (names s))(name \<mapsto> h) \<and>
       s' = s\<lparr>h_name := h_name s', h_name_count := h_name_count s', h_name_cap := h_name_cap s'\<rparr>
     else skynet_handle_namehandle h name s = Some (None, s)"
  using name_search_whole [OF inv, of name]
proof (elim disjE exE conjE)
  fix g assume "(name, g) \<in> set (names s)"
    "name_search (h_name s) name 0 (int (h_name_count s) - 1) = Some (Inl g)"
  moreover from this have "map_of (names s) name \<noteq> None"
    by (metis map_of_eq_None_iff fst_conv image_eqI)
  ultimately show ?thesis by (simp add: skynet_handle_namehandle_def)
next
  fix p assume p: "name_search (h_name s) name 0 (int (h_name_count s) - 1) = Some (Inr (int p))"
    "split_at (names s) name p"
  have none: "map_of (names s) name = None"
    using split_at_absent [OF p(2)] by (metis map_of_SomeD not_None_eq)
  have "p \<le> h_name_count s" using p(2) length_names [OF inv] by (simp add: split_at_def)
  from insert_name_before_spec [OF inv this room names_insert_sorted [OF inv p(2), of h]]
  obtain s' where s': "insert_name_before name h p s = Some s'" "names_inv s'"
    "names s' = take p (names s) @ (name, h) # drop p (names s)"
    "s' = s\<lparr>h_name := h_name s', h_name_count := h_name_count s', h_name_cap := h_name_cap s'\<rparr>"
    by blast
  have "map_of (take p (names s)) name = None"
    using none by (auto simp: map_of_eq_None_iff dest: in_set_takeD)
  then have "map_of (names s') = (map_of (names s))(name \<mapsto> h)"
    unfolding s'(3) by (subst map_of_insert_middle) simp_all
  with p s' none show ?thesis by (simp add: skynet_handle_namehandle_def)
qed

text \<open>Retiring a handle keeps the other names, in order.\<close>

lemma drop_names_spec:
  assumes inv: "names_inv s"
  shows "\<exists>name j. drop_names h (h_name_count s) (h_name s) = Some (name, j) \<and>
     length name = length (h_name s) \<and> j \<le> h_name_count s \<and>
     map the (take j name) = filter (\<lambda>e. snd e \<noteq> h) (names s) \<and>
     (\<forall>i < j. name ! i \<noteq> None)"
proof -
  let ?c = "h_name_count s" and ?a = "h_name s"
  let ?I = "\<lambda>i (name, j). length name = length ?a \<and> j \<le> i \<and>
     (\<forall>k. i \<le> k \<longrightarrow> name ! k = ?a ! k) \<and> (\<forall>k < j. name ! k \<noteq> None) \<and>
     map the (take j name) = filter (\<lambda>e. snd e \<noteq> h) (take i (names s))"
  have len: "?c \<le> length ?a" using inv by (auto simp: names_inv_def)
  have "\<exists>r. drop_names h ?c ?a = Some r \<and> ?I ?c r"
    unfolding drop_names_def
  proof (rule c_for_upt [where I = ?I])
    show "?I 0 (?a, 0)" by simp
    fix i r assume i: "i < ?c" and I: "?I i r"
    obtain name j where r: "r = (name, j)" by (cases r)
    have cell: "arr_get name i = Some (names s ! i)"
      using I i len names_cell [OF inv i] by (simp add: r arr_get_def)
    have snoc: "take (Suc i) (names s) = take i (names s) @ [names s ! i]"
      using i length_names [OF inv] by (simp add: take_Suc_conv_app_nth)
    show "\<exists>s'. (case r of (name, j) \<Rightarrow> do {
          e \<leftarrow> arr_get name i;
          if snd e = h then Some (name, j)
          else do {
            name' \<leftarrow> (if i \<noteq> j then arr_copy name j name i else Some name);
            Some (name', Suc j) } }) = Some s' \<and> ?I (Suc i) s'"
    proof (cases "snd (names s ! i) = h")
      case True
      then show ?thesis using I cell snoc by (auto simp: r)
    next
      case False
      let ?n = "name[j := name ! i]"
      have n: "(if i \<noteq> j then arr_copy name j name i else Some name) = Some ?n"
      proof -
        have "j < length name" "i < length name" using I i len by (auto simp: r)
        then show ?thesis by (simp add: arr_copy_def)
      qed
      have "take (Suc j) ?n = take j name @ [name ! i]"
        using I i len by (simp add: r take_Suc_conv_app_nth)
      moreover have "the (name ! i) = names s ! i" "name ! i \<noteq> None"
        using cell by (auto simp: arr_get_def split: if_splits)
      ultimately show ?thesis
        using False I cell n snoc i len by (auto simp: r less_Suc_eq nth_list_update)
    qed
  qed simp
  then show ?thesis using length_names [OF inv] by auto
qed


section \<open>The handle table as an interface\<close>

text \<open>
  What the clients of the storage rely on: registering gives a handle that nobody has, and keeps
  every other handle; retiring removes exactly one.
\<close>

locale handle_table =
  fixes lookup :: "'t \<Rightarrow> 'h \<Rightarrow> 'c option"
    and register :: "'c \<Rightarrow> 't \<Rightarrow> ('h \<times> 't) option"
    and retire :: "'h \<Rightarrow> 't \<Rightarrow> ('c option \<times> 't) option"
    and inv :: "'t \<Rightarrow> bool"
    and room :: "'t \<Rightarrow> bool"
  assumes register_law: "inv t \<Longrightarrow> room t \<Longrightarrow> c \<notin> ran (lookup t) \<Longrightarrow>
      \<exists>h t'. register c t = Some (h, t') \<and> inv t' \<and> lookup t h = None \<and>
        lookup t' = (lookup t)(h \<mapsto> c)"
    and retire_law: "inv t \<Longrightarrow>
      \<exists>t'. retire h t = Some (lookup t h, t') \<and> inv t' \<and> lookup t' = (lookup t)(h := None)"
begin

lemma register_then_retire:
  assumes "inv t" "room t" "c \<notin> ran (lookup t)"
  shows "\<exists>h t1 t2. register c t = Some (h, t1) \<and> lookup t1 h = Some c \<and>
     retire h t1 = Some (Some c, t2) \<and> inv t2 \<and> lookup t2 = lookup t"
proof -
  from register_law [OF assms] obtain h t1 where
    r: "register c t = Some (h, t1)" "inv t1" "lookup t h = None" "lookup t1 = (lookup t)(h \<mapsto> c)"
    by blast
  from retire_law [OF r(2), of h] r obtain t2 where
    "retire h t1 = Some (Some c, t2)" "inv t2" "lookup t2 = (lookup t1)(h := None)" by auto
  moreover from this(3) r have "lookup t2 = lookup t" by (auto simp: fun_eq_iff)
  ultimately show ?thesis using r by auto
qed

lemma retire_twice:
  assumes "inv t" "retire h t = Some (r, t')"
  shows "\<exists>t''. retire h t' = Some (None, t'') \<and> lookup t'' = lookup t'"
proof -
  from retire_law [OF assms(1), of h] assms(2) have
    t': "inv t'" "lookup t' = (lookup t)(h := None)" by auto
  from retire_law [OF t'(1), of h] t'(2) show ?thesis by auto
qed

text \<open>No two live services share a handle, and no service has two.\<close>

lemma register_injective:
  assumes "inv t" "room t" "c \<notin> ran (lookup t)" "register c t = Some (h, t')"
    and inj: "\<And>g g' d. lookup t g = Some d \<Longrightarrow> lookup t g' = Some d \<Longrightarrow> g = g'"
  shows "lookup t' g = Some d \<Longrightarrow> lookup t' g' = Some d \<Longrightarrow> g = g'"
  using register_law [OF assms(1,2,3)] assms(3,4) inj
  by (auto split: if_splits simp: ran_def)

end

text \<open>The state of the table: the handles stored in the contexts and the storage itself.\<close>

definition handle_inv :: "(addr \<Rightarrow> u32) \<Rightarrow> handle_storage \<Rightarrow> bool" where
  "handle_inv ch s \<longleftrightarrow> slots_inv ch s \<and> names_inv s"

text \<open>\<open>ctx->handle = skynet_handle_register(ctx)\<close>, as \<open>skynet_context_new\<close> does it.\<close>

definition assign_handle ::
  "addr \<Rightarrow> (addr \<Rightarrow> u32) \<times> handle_storage \<Rightarrow> (u32 \<times> (addr \<Rightarrow> u32) \<times> handle_storage) option" where
  "assign_handle ctx t = do {
     (h, s') \<leftarrow> skynet_handle_register (fst t) ctx (snd t);
     Some (h, (fst t)(ctx := h), s')
   }"

definition retire_handle ::
  "u32 \<Rightarrow> (addr \<Rightarrow> u32) \<times> handle_storage \<Rightarrow> (addr option \<times> (addr \<Rightarrow> u32) \<times> handle_storage) option" where
  "retire_handle h t = do {
     (c, s') \<leftarrow> handle_retire (fst t) h (snd t);
     Some (c, fst t, s')
   }"

lemma names_cong:
  assumes "h_name s' = h_name s" "h_name_count s' = h_name_count s" "h_name_cap s' = h_name_cap s"
  shows "names s' = names s" "names_inv s' = names_inv s"
  using assms by (simp_all add: names_def names_inv_def)

lemma grab_slot:
  assumes "slots_inv ch s"
  shows "skynet_handle_grab ch h s = Some c \<longleftrightarrow> ch c = h \<and> Some c \<in> set (h_slot s)"
proof -
  let ?x = "h_slot s ! (unat h mod h_slot_size s)"
  have mem: "?x \<in> set (h_slot s)" using slots_hash_less [OF assms] by (rule nth_mem)
  have x: "?x = Some c" if "Some c \<in> set (h_slot s)" "ch c = h"
    using that assms by (auto simp: slots_inv_def in_set_conv_nth)
  have "skynet_handle_grab ch h s = Some c \<longleftrightarrow> ?x = Some c \<and> ch c = h"
    unfolding skynet_handle_grab_def slots_hash [OF assms] by (cases ?x) auto
  then show ?thesis using mem x by metis
qed

lemma handle_retire_spec:
  assumes inv: "handle_inv ch s"
  shows "\<exists>s'. handle_retire ch h s = Some (skynet_handle_grab ch h s, s') \<and> handle_inv ch s' \<and>
     (\<forall>g. skynet_handle_grab ch g s' = (if g = h then None else skynet_handle_grab ch g s)) \<and>
     names s' = (if skynet_handle_grab ch h s = None then names s
                 else filter (\<lambda>e. snd e \<noteq> h) (names s)) \<and> h_harbor s' = h_harbor s"
proof (cases "skynet_handle_grab ch h s")
  case None
  then show ?thesis
    using inv by (auto simp: handle_retire_def skynet_handle_grab_def split: option.splits if_splits)
next
  case (Some c)
  have si: "slots_inv ch s" and ni: "names_inv s" using inv by (auto simp: handle_inv_def)
  let ?i = "unat h mod h_slot_size s"
  have slot: "h_slot s ! ?i = Some c" "ch c = h"
    using Some unfolding skynet_handle_grab_def slots_hash [OF si]
    by (auto split: option.splits if_splits)
  from drop_names_spec [OF ni, of h] obtain name j where d:
    "drop_names h (h_name_count s) (h_name s) = Some (name, j)" "length name = length (h_name s)"
    "j \<le> h_name_count s" "map the (take j name) = filter (\<lambda>e. snd e \<noteq> h) (names s)"
    "\<forall>i < j. name ! i \<noteq> None" by blast
  let ?s = "s\<lparr>h_slot := (h_slot s)[?i := None], h_name := name, h_name_count := j\<rparr>"
  have r: "handle_retire ch h s = Some (Some c, ?s)"
    using slot d by (simp add: handle_retire_def slots_hash [OF si] Let_def)
  have "slots_inv ch ?s"
    using si by (auto simp: slots_inv_def nth_list_update split: if_splits)
  moreover have "names_inv ?s"
    using ni d by (auto simp: names_inv_def names_def sorted_wrt_filter)
  moreover have "skynet_handle_grab ch g ?s = (if g = h then None else skynet_handle_grab ch g s)" for g
    using slot slots_hash_less [OF si, of h]
    by (cases "unat g mod h_slot_size s = ?i")
      (auto simp: skynet_handle_grab_def slots_hash [OF si])
  moreover have "names ?s = filter (\<lambda>e. snd e \<noteq> h) (names s)" using d by (simp add: names_def)
  ultimately show ?thesis using r Some by (auto simp: handle_inv_def)
qed

interpretation handles: handle_table "\<lambda>(ch, s) h. skynet_handle_grab ch h s" assign_handle
    retire_handle "\<lambda>(ch, s). handle_inv ch s" "\<lambda>(ch, s). slots_room s"
proof unfold_locales
  fix t :: "(addr \<Rightarrow> u32) \<times> handle_storage" and c
  obtain ch s where t: "t = (ch, s)" by (cases t)
  assume "case t of (ch, s) \<Rightarrow> handle_inv ch s" and "case t of (ch, s) \<Rightarrow> slots_room s"
    and c: "c \<notin> ran (case t of (ch, s) \<Rightarrow> \<lambda>h. skynet_handle_grab ch h s)"
  then have inv: "slots_inv ch s" "slots_room s" "names_inv s" by (auto simp: t handle_inv_def)
  have "Some c \<notin> set (h_slot s)"
    using c grab_slot [OF inv(1), of "ch c" c] by (auto simp: t ran_def)
  from register_spec [OF inv(1,2) this] obtain g s' where
    r: "skynet_handle_register ch c s = Some (g, s')" "slots_inv (ch(c := g)) s'"
      "skynet_handle_grab ch g s = None"
      "\<And>x. skynet_handle_grab (ch(c := g)) x s' = (if x = g then Some c else skynet_handle_grab ch x s)"
      "h_name s' = h_name s" "h_name_count s' = h_name_count s" "h_name_cap s' = h_name_cap s"
    by blast
  have "handle_inv (ch(c := g)) s'" using r(2) names_cong(2) [OF r(5,6,7)] inv(3)
    by (simp add: handle_inv_def)
  with r(1,3,4) show "\<exists>h t'. assign_handle c t = Some (h, t') \<and> (case t' of (ch, s) \<Rightarrow> handle_inv ch s) \<and>
      (case t of (ch, s) \<Rightarrow> \<lambda>h. skynet_handle_grab ch h s) h = None \<and>
      (case t' of (ch, s) \<Rightarrow> \<lambda>h. skynet_handle_grab ch h s) =
      (case t of (ch, s) \<Rightarrow> \<lambda>h. skynet_handle_grab ch h s)(h \<mapsto> c)"
    by (auto simp: t assign_handle_def fun_eq_iff)
next
  fix t :: "(addr \<Rightarrow> u32) \<times> handle_storage" and h
  obtain ch s where t: "t = (ch, s)" by (cases t)
  assume "case t of (ch, s) \<Rightarrow> handle_inv ch s"
  then have "handle_inv ch s" by (simp add: t)
  from handle_retire_spec [OF this, of h] obtain s' where
    "handle_retire ch h s = Some (skynet_handle_grab ch h s, s')" "handle_inv ch s'"
    "\<forall>g. skynet_handle_grab ch g s' = (if g = h then None else skynet_handle_grab ch g s)"
    by blast
  then show "\<exists>t'. retire_handle h t =
      Some ((case t of (ch, s) \<Rightarrow> \<lambda>h. skynet_handle_grab ch h s) h, t') \<and>
      (case t' of (ch, s) \<Rightarrow> handle_inv ch s) \<and>
      (case t' of (ch, s) \<Rightarrow> \<lambda>h. skynet_handle_grab ch h s) =
      (case t of (ch, s) \<Rightarrow> \<lambda>h. skynet_handle_grab ch h s)(h := None)"
    by (intro exI [of _ "(ch, s')"]) (auto simp: t retire_handle_def fun_eq_iff)
qed

lemma skynet_handle_init_inv: "handle_inv ch (skynet_handle_init harbor)"
proof -
  have "take_bit 24 (h_harbor (skynet_handle_init harbor)) = 0"
    by (simp add: skynet_handle_init_def HANDLE_REMOTE_SHIFT_def take_bit_push_bit)
  moreover have "\<exists>k. 2 \<le> k \<and> k \<le> 24 \<and> (4::nat) = 2 ^ k" by (rule exI [of _ 2]) simp
  ultimately have "slots_inv ch (skynet_handle_init harbor)"
    by (simp add: slots_inv_def skynet_handle_init_def DEFAULT_SLOT_SIZE_def)
  moreover have "\<exists>k \<le> 30. (2::nat) = 2 ^ k" by (rule exI [of _ 1]) simp
  then have "names_inv (skynet_handle_init harbor)"
    by (simp add: names_inv_def names_def skynet_handle_init_def)
  ultimately show ?thesis by (simp add: handle_inv_def)
qed

section \<open>Properties\<close>

text \<open>
  C13. Registering a service gives it a handle that no live service of the node has, with a
  non-zero local part and the harbor of the node in the high bits, and every other handle keeps
  naming the same service, also when the table is full and is rehashed into one of twice the
  size. The loop ends: the registration returns whenever the table may grow or a slot is free.
\<close>

theorem register_fresh:
  assumes "handle_inv ch s" "slots_room s" "\<forall>h. skynet_handle_grab ch h s \<noteq> Some ctx"
  shows "\<exists>g s'. skynet_handle_register ch ctx s = Some (g, s') \<and> handle_inv (ch(ctx := g)) s' \<and>
     skynet_handle_grab ch g s = None \<and> valid_handle (h_harbor s) g \<and> names s' = names s \<and>
     (\<forall>x. skynet_handle_grab (ch(ctx := g)) x s' =
        (if x = g then Some ctx else skynet_handle_grab ch x s))"
proof -
  have i: "slots_inv ch s" "names_inv s" using assms(1) by (auto simp: handle_inv_def)
  have "Some ctx \<notin> set (h_slot s)" using assms(3) grab_slot [OF i(1), of "ch ctx" ctx] by auto
  from register_spec [OF i(1) assms(2) this] obtain g s' where
    r: "skynet_handle_register ch ctx s = Some (g, s')" "slots_inv (ch(ctx := g)) s'"
      "skynet_handle_grab ch g s = None" "valid_handle (h_harbor s) g"
      "\<forall>x. skynet_handle_grab (ch(ctx := g)) x s' = (if x = g then Some ctx else skynet_handle_grab ch x s)"
      and nm: "h_name s' = h_name s" "h_name_count s' = h_name_count s" "h_name_cap s' = h_name_cap s"
    by blast
  from names_cong [OF nm] i r show ?thesis by (auto simp: handle_inv_def)
qed

theorem register_fresh_witness:
  "\<exists>g s'. skynet_handle_register (\<lambda>_. 0) 5 (skynet_handle_init 1) = Some (g, s') \<and>
     skynet_handle_grab ((\<lambda>_. 0)(5 := g)) g s' = Some 5 \<and> valid_handle 16777216 g"
proof -
  have "slots_room (skynet_handle_init 1)"
    by (simp add: slots_room_def skynet_handle_init_def DEFAULT_SLOT_SIZE_def)
  moreover have "skynet_handle_grab (\<lambda>_. 0) h (skynet_handle_init 1) \<noteq> Some 5" for h
    using grab_slot [of "\<lambda>_. 0" "skynet_handle_init 1" h 5] skynet_handle_init_inv [of "\<lambda>_. 0" 1]
    by (simp add: handle_inv_def) (simp add: skynet_handle_init_def)
  moreover have "h_harbor (skynet_handle_init 1) = 16777216"
    by (simp add: skynet_handle_init_def HANDLE_REMOTE_SHIFT_def push_bit_eq_mult)
  ultimately show ?thesis
    using register_fresh [OF skynet_handle_init_inv [of "\<lambda>_. 0" 1], of 5] by force
qed

text \<open>
  A handle registered and then retired: in between it names the service, the retire returns
  exactly that service for release, and afterwards the table maps every handle as before the
  registration.
\<close>

theorem register_retire_roundtrip:
  assumes "handle_inv ch s" "slots_room s" "\<forall>h. skynet_handle_grab ch h s \<noteq> Some ctx"
  shows "\<exists>g s1 s2. skynet_handle_register ch ctx s = Some (g, s1) \<and>
     skynet_handle_grab (ch(ctx := g)) g s1 = Some ctx \<and>
     handle_retire (ch(ctx := g)) g s1 = Some (Some ctx, s2) \<and> handle_inv (ch(ctx := g)) s2 \<and>
     (\<forall>h. skynet_handle_grab (ch(ctx := g)) h s2 = skynet_handle_grab ch h s)"
proof -
  have "ctx \<notin> ran (case (ch, s) of (ch, s) \<Rightarrow> \<lambda>h. skynet_handle_grab ch h s)"
    using assms(3) by (simp add: ran_def)
  from handles.register_then_retire [OF _ _ this] assms obtain g t1 t2 where
    t: "assign_handle ctx (ch, s) = Some (g, t1)"
      "(case t1 of (ch, s) \<Rightarrow> \<lambda>h. skynet_handle_grab ch h s) g = Some ctx"
      "retire_handle g t1 = Some (Some ctx, t2)" "case t2 of (ch, s) \<Rightarrow> handle_inv ch s"
      "(case t2 of (ch, s) \<Rightarrow> \<lambda>h. skynet_handle_grab ch h s) = (\<lambda>h. skynet_handle_grab ch h s)"
    by auto
  obtain s1 where s1: "skynet_handle_register ch ctx s = Some (g, s1)" "t1 = (ch(ctx := g), s1)"
    using t(1) by (auto simp: assign_handle_def bind_Some_iff)
  obtain s2 where "handle_retire (ch(ctx := g)) g s1 = Some (Some ctx, s2)" "t2 = (ch(ctx := g), s2)"
    using t(3) by (auto simp: s1 retire_handle_def bind_Some_iff)
  with s1 t show ?thesis by (auto simp: fun_eq_iff)
qed

theorem register_retire_roundtrip_witness:
  "\<exists>g s1 s2. skynet_handle_register (\<lambda>_. 0) 5 (skynet_handle_init 1) = Some (g, s1) \<and>
     handle_retire ((\<lambda>_. 0)(5 := g)) g s1 = Some (Some 5, s2)"
proof -
  have "slots_room (skynet_handle_init 1)"
    by (simp add: slots_room_def skynet_handle_init_def DEFAULT_SLOT_SIZE_def)
  moreover have "skynet_handle_grab (\<lambda>_. 0) h (skynet_handle_init 1) \<noteq> Some 5" for h
    using grab_slot [of "\<lambda>_. 0" "skynet_handle_init 1" h 5] skynet_handle_init_inv [of "\<lambda>_. 0" 1]
    by (simp add: handle_inv_def) (simp add: skynet_handle_init_def)
  ultimately show ?thesis
    using register_retire_roundtrip [OF skynet_handle_init_inv [of "\<lambda>_. 0" 1], of 5] by force
qed

text \<open>
  C25. Retiring a handle unregisters the service it names, together with all the names of that
  handle and no other name; every other handle is kept, and a handle that names nothing leaves
  the storage as it is.
\<close>

theorem retire_exact:
  assumes "handle_inv ch s"
  shows "\<exists>s'. handle_retire ch h s = Some (skynet_handle_grab ch h s, s') \<and> handle_inv ch s' \<and>
     (\<forall>g. skynet_handle_grab ch g s' = (if g = h then None else skynet_handle_grab ch g s)) \<and>
     names s' = (if skynet_handle_grab ch h s = None then names s
                 else filter (\<lambda>e. snd e \<noteq> h) (names s))"
  using handle_retire_spec [OF assms, of h] by blast

theorem retire_exact_witness:
  "\<exists>s'. handle_retire (\<lambda>_. 7) 7 ((skynet_handle_init 0)\<lparr>h_slot := [None, None, None, Some 1],
       h_name_count := 2, h_name := [Some (''a'', 7), Some (''b'', 8)]\<rparr>) = Some (Some 1, s') \<and>
     names s' = [(''b'', 8)]"
proof -
  let ?s = "(skynet_handle_init 0)\<lparr>h_slot := [None, None, None, Some 1],
       h_name_count := 2, h_name := [Some (''a'', 7), Some (''b'', 8)]\<rparr>"
  have k: "\<exists>k. 2 \<le> k \<and> k \<le> 24 \<and> (4::nat) = 2 ^ k" "\<exists>k \<le> 30. (2::nat) = 2 ^ k"
    by (rule exI [of _ 2], simp, rule exI [of _ 1], simp)
  have "valid_handle 0 7" by (simp add: valid_handle_def mask_eq_exp_minus_1 take_bit_eq_mask)
  then have i: "slots_inv (\<lambda>_. 7) ?s"
    using k(1) by (auto simp: slots_inv_def skynet_handle_init_def DEFAULT_SLOT_SIZE_def
        nth_Cons' split: if_splits)
  have "names_inv ?s"
    using k(2) by (auto simp: names_inv_def names_def skynet_handle_init_def less_2_cases_iff)
  with i have "handle_inv (\<lambda>_. 7) ?s" by (simp add: handle_inv_def)
  moreover have "skynet_handle_grab (\<lambda>_. 7) 7 ?s = Some 1"
    using grab_slot [OF i, of 7 1] by simp
  moreover have "names ?s = [(''a'', 7), (''b'', 8)]" by (simp add: names_def)
  ultimately show ?thesis using retire_exact [of "\<lambda>_. 7" ?s 7] by auto
qed

text \<open>
  C26. The local names form a finite map kept in a sorted array: naming a handle under a new name
  stores it and changes no other name, growing the array when it is full; a name that is taken is
  refused and nothing changes; and the binary search finds for every name the handle stored, or 0.
\<close>

theorem name_then_find:
  assumes "names_inv s" "h_name_count s < MAX_SLOT_SIZE"
  shows "\<exists>r s'. skynet_handle_namehandle h name s = Some (r, s') \<and> names_inv s' \<and>
     (if map_of (names s) name = None
      then r = Some name \<and>
        (\<forall>x. skynet_handle_findname x s' = (if x = name then Some h else skynet_handle_findname x s))
      else r = None \<and> s' = s) \<and>
     skynet_handle_findname name s = Some (case map_of (names s) name of None \<Rightarrow> 0 | Some g \<Rightarrow> g)"
proof (cases "map_of (names s) name = None")
  case True
  with namehandle_spec [OF assms, of name h] obtain s' where
    s': "skynet_handle_namehandle h name s = Some (Some name, s')" "names_inv s'"
      "map_of (names s') = (map_of (names s))(name \<mapsto> h)" by auto
  with True findname_spec [OF assms(1)] findname_spec [OF s'(2)] show ?thesis by auto
next
  case False
  with namehandle_spec [OF assms, of name h] findname_spec [OF assms(1), of name] assms(1)
  show ?thesis by auto
qed

theorem name_then_find_witness:
  "\<exists>s'. skynet_handle_namehandle 9 ''launcher'' (skynet_handle_init 0) = Some (Some ''launcher'', s') \<and>
     skynet_handle_findname ''launcher'' s' = Some 9"
proof -
  have "names_inv (skynet_handle_init 0)" using skynet_handle_init_inv by (simp add: handle_inv_def)
  moreover have "h_name_count (skynet_handle_init 0) < MAX_SLOT_SIZE"
    "map_of (names (skynet_handle_init 0)) ''launcher'' = None"
    by (simp_all add: skynet_handle_init_def MAX_SLOT_SIZE_def names_def)
  ultimately show ?thesis using name_then_find [of "skynet_handle_init 0" 9 "''launcher''"] by auto
qed

end
