(* ===== verification/Skynet_Timer.thy ===== *)
theory Skynet_Timer
  imports Skynet_Prelude
begin

text \<open>
  The timer wheel of \<^verbatim>\<open>skynet-src/skynet_timer.c\<close>: 256 near slots and four levels of 64 slots,
  indexed by the digits of the 32-bit tick counter, which wraps. Time is in centiseconds. The
  nodes a call dispatches are returned as a list; the server theory turns them into messages.
\<close>

unbundle bit_operations_syntax

section \<open>State\<close>

definition TIME_NEAR_SHIFT :: nat where "TIME_NEAR_SHIFT = 8"
definition TIME_LEVEL_SHIFT :: nat where "TIME_LEVEL_SHIFT = 6"
definition TIME_NEAR :: nat where "TIME_NEAR = 256"
definition TIME_LEVEL :: nat where "TIME_LEVEL = 64"
definition TIME_NEAR_MASK :: u32 where "TIME_NEAR_MASK = 255"
definition TIME_LEVEL_MASK :: u32 where "TIME_LEVEL_MASK = 63"

lemmas time_consts = TIME_NEAR_SHIFT_def TIME_LEVEL_SHIFT_def TIME_NEAR_def TIME_LEVEL_def
  TIME_NEAR_MASK_def TIME_LEVEL_MASK_def

record timer_event =
  ev_handle :: u32
  ev_session :: int

text \<open>A node and the event stored behind it in the same allocation.\<close>

record timer_node =
  n_expire :: u32
  n_event :: timer_event

text \<open>A \<open>link_list\<close> is the list of its nodes, first linked first.\<close>

record timer =
  t_near :: "timer_node list list"
  t_level :: "timer_node list list list"
  t_time :: u32
  t_starttime :: u32
  t_current :: u64
  t_current_point :: u64

definition timer_create_timer :: timer where
  "timer_create_timer = \<lparr>t_near = replicate TIME_NEAR [], t_level = replicate 4 (replicate TIME_LEVEL []),
     t_time = 0, t_starttime = 0, t_current = 0, t_current_point = 0\<rparr>"

section \<open>Operations\<close>

text \<open>The loop of \<open>add_node\<close> that finds the level: \<open>n\<close> iterations left at level \<open>i\<close>.\<close>

fun level_loop :: "u32 \<Rightarrow> u32 \<Rightarrow> nat \<Rightarrow> u32 \<Rightarrow> nat \<Rightarrow> nat" where
  "level_loop time current_time 0 msk i = i"
| "level_loop time current_time (Suc n) msk i =
     (if time OR (msk - 1) = current_time OR (msk - 1) then i
      else level_loop time current_time n (push_bit TIME_LEVEL_SHIFT msk) (i + 1))"

definition near_link :: "nat \<Rightarrow> timer_node \<Rightarrow> timer \<Rightarrow> timer" where
  "near_link idx node T = T\<lparr>t_near := (t_near T)[idx := t_near T ! idx @ [node]]\<rparr>"

definition level_link :: "nat \<Rightarrow> nat \<Rightarrow> timer_node \<Rightarrow> timer \<Rightarrow> timer" where
  "level_link i idx node T =
     T\<lparr>t_level := (t_level T)[i := (t_level T ! i)[idx := t_level T ! i ! idx @ [node]]]\<rparr>"

definition add_node :: "timer_node \<Rightarrow> timer \<Rightarrow> timer" where
  "add_node node T =
     (let time = n_expire node; current_time = t_time T in
      if time OR TIME_NEAR_MASK = current_time OR TIME_NEAR_MASK
      then near_link (unat (time AND TIME_NEAR_MASK)) node T
      else
        (let i = level_loop time current_time 3
                   (push_bit TIME_LEVEL_SHIFT (of_nat TIME_NEAR)) 0 in
         level_link i
           (unat (drop_bit (TIME_NEAR_SHIFT + i * TIME_LEVEL_SHIFT) time AND TIME_LEVEL_MASK))
           node T))"

definition timer_add :: "timer_event \<Rightarrow> int \<Rightarrow> timer \<Rightarrow> timer" where
  "timer_add arg time T = add_node \<lparr>n_expire = word_of_int time + t_time T, n_event = arg\<rparr> T"

definition move_list :: "nat \<Rightarrow> nat \<Rightarrow> timer \<Rightarrow> timer option" where
  "move_list level idx T = do {
     c_assert (level < length (t_level T) \<and> idx < length (t_level T ! level));
     let current = t_level T ! level ! idx;
     let T1 = T\<lparr>t_level := (t_level T)[level := (t_level T ! level)[idx := []]]\<rparr>;
     Some (fold add_node current T1)
   }"

text \<open>The loop of \<open>timer_shift\<close>. Shifting the \<open>int\<close> mask past \<open>INT_MAX\<close> is undefined.\<close>

partial_function (option) shift_loop :: "u32 \<Rightarrow> nat \<Rightarrow> u32 \<Rightarrow> nat \<Rightarrow> timer \<Rightarrow> timer option" where
  "shift_loop ct msk time i T =
     (if ct AND (of_nat msk - 1) = 0 then
        (if time AND TIME_LEVEL_MASK \<noteq> 0 then
           move_list i (unat (time AND TIME_LEVEL_MASK)) T
         else if int msk * 64 > INT_MAX then None
         else shift_loop ct (msk * 64) (drop_bit TIME_LEVEL_SHIFT time) (i + 1) T)
      else Some T)"

definition timer_shift :: "timer \<Rightarrow> timer option" where
  "timer_shift T =
     (let ct = t_time T + 1; T1 = T\<lparr>t_time := ct\<rparr> in
      if ct = 0 then move_list 3 0 T1
      else shift_loop ct TIME_NEAR (drop_bit TIME_NEAR_SHIFT ct) 0 T1)"

text \<open>The nodes handed to \<open>dispatch_list\<close>, in order, and the timer afterwards.\<close>

partial_function (option) timer_execute :: "timer \<Rightarrow> (timer_node list \<times> timer) option" where
  "timer_execute T =
     (let idx = unat (t_time T AND TIME_NEAR_MASK) in
      if t_near T ! idx \<noteq> [] then do {
        (rest, T') \<leftarrow> timer_execute (T\<lparr>t_near := (t_near T)[idx := []]\<rparr>);
        Some (t_near T ! idx @ rest, T')
      }
      else Some ([], T))"

definition timer_update :: "timer \<Rightarrow> (timer_node list \<times> timer) option" where
  "timer_update T = do {
     (d1, T1) \<leftarrow> timer_execute T;
     T2 \<leftarrow> timer_shift T1;
     (d2, T3) \<leftarrow> timer_execute T2;
     Some (d1 @ d2, T3)
   }"

primrec timer_updates :: "nat \<Rightarrow> timer \<Rightarrow> (timer_node list \<times> timer) option" where
  "timer_updates 0 T = Some ([], T)"
| "timer_updates (Suc n) T = do {
     (d, T1) \<leftarrow> timer_update T;
     (ds, T2) \<leftarrow> timer_updates n T1;
     Some (d @ ds, T2)
   }"

text \<open>
  \<open>skynet_updatetime\<close> with the monotonic clock reading \<open>cp\<close>. The second result says whether the
  clock went backwards, which is logged. The loop counter is an \<open>int\<close>.
\<close>

definition skynet_updatetime :: "u64 \<Rightarrow> timer \<Rightarrow> (timer_node list \<times> bool \<times> timer) option" where
  "skynet_updatetime cp T =
     (if cp < t_current_point T then Some ([], True, T\<lparr>t_current_point := cp\<rparr>)
      else if cp \<noteq> t_current_point T then do {
        let diff = (ucast (cp - t_current_point T) :: u32);
        c_assert (int (unat diff) \<le> INT_MAX);
        (ds, T') \<leftarrow> timer_updates (unat diff)
          (T\<lparr>t_current_point := cp, t_current := t_current T + ucast diff\<rparr>);
        Some (ds, False, T')
      }
      else Some ([], False, T))"

definition skynet_starttime :: "timer \<Rightarrow> u32" where
  "skynet_starttime T = t_starttime T"

definition skynet_now :: "timer \<Rightarrow> u64" where
  "skynet_now T = t_current T"

text \<open>\<open>skynet_timer_init\<close> with the readings of the two clocks: seconds, centiseconds, ticks.\<close>

definition skynet_timer_init :: "u32 \<Rightarrow> u32 \<Rightarrow> u64 \<Rightarrow> timer" where
  "skynet_timer_init sec cs now =
     timer_create_timer\<lparr>t_starttime := sec, t_current := ucast cs, t_current_point := now\<rparr>"

text \<open>The clock conversions: \<open>tv_sec\<close> and \<open>tv_nsec\<close> to centiseconds and microseconds.\<close>

definition systime :: "int \<Rightarrow> int \<Rightarrow> u32 \<times> u32" where
  "systime tv_sec tv_nsec = (word_of_int tv_sec, word_of_int (tv_nsec div 10000000))"

definition gettime :: "int \<Rightarrow> int \<Rightarrow> u64" where
  "gettime tv_sec tv_nsec = word_of_int tv_sec * 100 + word_of_int (tv_nsec div 10000000)"

definition skynet_thread_time :: "int \<Rightarrow> int \<Rightarrow> u64" where
  "skynet_thread_time tv_sec tv_nsec =
     word_of_int tv_sec * 1000000 + word_of_int tv_nsec div (1000000000 div 1000000)"

section \<open>Where a node belongs\<close>

datatype place = Near nat | Level nat nat

text \<open>The slot of a node that expires at tick \<open>e\<close>, seen from tick \<open>c\<close>.\<close>

definition place :: "nat \<Rightarrow> nat \<Rightarrow> place" where
  "place e c =
     (if e div 2 ^ 8 = c div 2 ^ 8 then Near (e mod 2 ^ 8)
      else if e div 2 ^ 14 = c div 2 ^ 14 then Level 0 (e div 2 ^ 8 mod 64)
      else if e div 2 ^ 20 = c div 2 ^ 20 then Level 1 (e div 2 ^ 14 mod 64)
      else if e div 2 ^ 26 = c div 2 ^ 26 then Level 2 (e div 2 ^ 20 mod 64)
      else Level 3 (e div 2 ^ 26 mod 64))"

fun slot :: "timer \<Rightarrow> place \<Rightarrow> timer_node list" where
  "slot T (Near i) = t_near T ! i"
| "slot T (Level i j) = t_level T ! i ! j"

fun valid_place :: "place \<Rightarrow> bool" where
  "valid_place (Near i) \<longleftrightarrow> i < 256"
| "valid_place (Level i j) \<longleftrightarrow> i < 4 \<and> j < 64"

fun set_slot :: "place \<Rightarrow> timer_node list \<Rightarrow> timer \<Rightarrow> timer" where
  "set_slot (Near i) l T = T\<lparr>t_near := (t_near T)[i := l]\<rparr>"
| "set_slot (Level i j) l T = T\<lparr>t_level := (t_level T)[i := (t_level T ! i)[j := l]]\<rparr>"

definition timer_shape :: "timer \<Rightarrow> bool" where
  "timer_shape T \<longleftrightarrow> length (t_near T) = 256 \<and> length (t_level T) = 4 \<and>
     (\<forall>i < 4. length (t_level T ! i) = 64)"

lemma slot_set_slot:
  "timer_shape T \<Longrightarrow> valid_place p \<Longrightarrow> slot (set_slot p l T) q = (if q = p then l else slot T q)"
  by (cases p; cases q) (auto simp: timer_shape_def nth_list_update)

lemma shape_set_slot: "timer_shape T \<Longrightarrow> valid_place p \<Longrightarrow> timer_shape (set_slot p l T)"
  by (cases p) (auto simp: timer_shape_def nth_list_update)

lemma time_set_slot [simp]: "t_time (set_slot p l T) = t_time T"
  by (cases p) auto

lemma valid_place_place: "valid_place (place e c)"
proof -
  have m: "(x::nat) mod 64 < 64" "(x::nat) mod 2 ^ 8 < 256" for x by simp_all
  have n: "(0::nat) < 4" "(1::nat) < 4" "(2::nat) < 4" "(3::nat) < 4" by simp_all
  show ?thesis
    by (simp only: place_def if_distrib [of valid_place] valid_place.simps m n simp_thms if_cancel)
qed

lemma or_mask_eq:
  "((a :: u32) OR (2 ^ k - 1) = b OR (2 ^ k - 1)) \<longleftrightarrow> unat a div 2 ^ k = unat b div 2 ^ k"
proof -
  have "drop_bit k (x OR mask k) = drop_bit k x" for x :: u32
    by (rule bit_word_eqI) (auto simp: bit_simps)
  moreover have "x OR mask k = push_bit k (drop_bit k x) OR mask k" for x :: u32
    by (rule bit_word_eqI) (auto simp: bit_simps)
  ultimately have "(a OR mask k = b OR mask k) \<longleftrightarrow> drop_bit k a = drop_bit k b" by metis
  also have "\<dots> \<longleftrightarrow> drop_bit k (unat a) = drop_bit k (unat b)"
    by (simp add: word_unat_eq_iff unat_drop_bit_eq)
  finally show ?thesis by (simp add: mask_eq_exp_minus_1 drop_bit_eq_div)
qed

lemma and_mask_unat: "unat ((a :: u32) AND mask k) = unat a mod 2 ^ k"
proof -
  have "unat (take_bit k a) = take_bit k (unat a)" by (rule unsigned_take_bit_eq)
  then show ?thesis by (simp only: take_bit_eq_mask [symmetric] take_bit_eq_mod)
qed


lemma digit_unat:
  "unat (drop_bit s (a :: u32) AND TIME_LEVEL_MASK) = unat a div 2 ^ s mod 64"
proof -
  have m: "TIME_LEVEL_MASK = mask 6" by (simp add: TIME_LEVEL_MASK_def mask_eq_exp_minus_1)
  have "unat (drop_bit s a AND TIME_LEVEL_MASK) = unat (drop_bit s a) mod 2 ^ 6"
    unfolding m by (rule and_mask_unat)
  also have "unat (drop_bit s a) = drop_bit s (unat a)" by (rule unat_drop_bit_eq)
  also have "\<dots> = unat a div 2 ^ s" by (rule drop_bit_eq_div)
  finally show ?thesis by simp
qed

lemma near_unat: "unat ((a :: u32) AND TIME_NEAR_MASK) = unat a mod 2 ^ 8"
proof -
  have m: "TIME_NEAR_MASK = mask 8" by (simp add: TIME_NEAR_MASK_def mask_eq_exp_minus_1)
  show ?thesis unfolding m by (rule and_mask_unat)
qed

lemma near_test:
  "(a OR TIME_NEAR_MASK = b OR TIME_NEAR_MASK) \<longleftrightarrow> unat a div 2 ^ 8 = unat b div 2 ^ 8"
  using or_mask_eq [of a 8 b] by (simp add: TIME_NEAR_MASK_def)

lemma level_loop_eq:
  "level_loop e c 3 (push_bit TIME_LEVEL_SHIFT (of_nat TIME_NEAR)) 0 =
     (if unat e div 2 ^ 14 = unat c div 2 ^ 14 then 0
      else if unat e div 2 ^ 20 = unat c div 2 ^ 20 then 1
      else if unat e div 2 ^ 26 = unat c div 2 ^ 26 then 2 else 3)"
  using or_mask_eq [of e 14 c] or_mask_eq [of e 20 c] or_mask_eq [of e 26 c]
  by (simp add: numeral_3_eq_3 TIME_NEAR_def TIME_LEVEL_SHIFT_def push_bit_eq_mult)

text \<open>\<open>add_node\<close> appends the node to the slot where it belongs.\<close>

lemma add_node_place:
  "add_node node T =
     (let p = place (unat (n_expire node)) (unat (t_time T)) in set_slot p (slot T p @ [node]) T)"
proof -
  let ?e = "unat (n_expire node)" and ?c = "unat (t_time T)"
  have idx: "TIME_NEAR_SHIFT + i * TIME_LEVEL_SHIFT = 8 + 6 * i" for i by (simp add: time_consts)
  have shifts: "8 + 6 * 0 = (8::nat)" "8 + 6 * 1 = (14::nat)" "8 + 6 * 2 = (20::nat)"
    "8 + 6 * 3 = (26::nat)" by simp_all
  show ?thesis
    unfolding add_node_def Let_def near_test level_loop_eq near_unat digit_unat place_def idx
      near_link_def level_link_def
    by (cases "?e div 2 ^ 8 = ?c div 2 ^ 8"; cases "?e div 2 ^ 14 = ?c div 2 ^ 14";
        cases "?e div 2 ^ 20 = ?c div 2 ^ 20"; cases "?e div 2 ^ 26 = ?c div 2 ^ 26")
      (simp_all only: if_True if_False slot.simps set_slot.simps refl simp_thms shifts)
qed

section \<open>How the slots move when the tick counter advances\<close>

text \<open>The slot that \<open>timer_shift\<close> empties when the counter becomes \<open>c\<close>, if any.\<close>

definition moved :: "nat \<Rightarrow> place option" where
  "moved c =
     (if c = 0 then Some (Level 3 0)
      else if c mod 2 ^ 8 \<noteq> 0 then None
      else if c div 2 ^ 8 mod 64 \<noteq> 0 then Some (Level 0 (c div 2 ^ 8 mod 64))
      else if c div 2 ^ 14 mod 64 \<noteq> 0 then Some (Level 1 (c div 2 ^ 14 mod 64))
      else if c div 2 ^ 20 mod 64 \<noteq> 0 then Some (Level 2 (c div 2 ^ 20 mod 64))
      else Some (Level 3 (c div 2 ^ 26 mod 64)))"

text \<open>A node in the future of \<open>c\<close>, at most \<open>2 ^ 31 - 1\<close> ticks ahead, the counter wrapping.\<close>

definition ahead :: "nat \<Rightarrow> nat \<Rightarrow> bool" where
  "ahead e c \<longleftrightarrow> e < 2 ^ 32 \<and> c < 2 ^ 32 \<and>
     (c < e \<and> e - c < 2 ^ 31 \<or> e < c \<and> e + 2 ^ 32 - c < 2 ^ 31)"

lemma succ_div_cases:
  fixes c b :: nat
  assumes "0 < b"
  obtains "(c + 1) div b = c div b" | "(c + 1) mod b = 0" "(c + 1) div b = c div b + 1"
  using assms by (metis Suc_eq_plus1 div_Suc mod_Suc)

lemma succ_block:
  fixes c b e :: nat
  assumes "0 < b" "e div b = c div b" "c < e"
  shows "(c + 1) div b = c div b"
proof -
  have "c div b \<le> (c + 1) div b" "(c + 1) div b \<le> e div b" using assms(3) by (simp_all add: div_le_mono)
  with assms(2) show ?thesis by linarith
qed

text \<open>The counter stays in the block of size \<open>64 * b\<close> and enters the block \<open>e\<close> of size \<open>b\<close>.\<close>

lemma succ_enters:
  fixes c b e :: nat
  assumes b: "0 < b" and e: "e div (64 * b) = c div (64 * b)" "c < e" "e div b \<noteq> c div b"
    and enter: "e div b = (c + 1) div b"
  shows "(c + 1) mod b = 0 \<and> (c + 1) div b mod 64 \<noteq> 0 \<and> (c + 1) div b mod 64 = e div b mod 64"
proof -
  from enter e(3) have n: "(c + 1) mod b = 0" "(c + 1) div b = c div b + 1"
    using succ_div_cases [OF b, of c] by metis+
  have "(c + 1) div (64 * b) = c div (64 * b)" using succ_block [OF _ e(1,2)] b by simp
  then have "(c div b + 1) div 64 = c div b div 64"
    unfolding n(2) [symmetric] using div_mult2_eq [of _ b 64] by (simp only: mult.commute [of 64])
  moreover have "(x + 1) div 64 = x div 64 \<Longrightarrow> (x + 1) mod 64 \<noteq> 0" for x :: nat
    by (auto simp: div_Suc mod_Suc split: if_splits)
  ultimately have "(c + 1) div b mod 64 \<noteq> 0" unfolding n(2) by blast
  with n enter show ?thesis by simp
qed


text \<open>Every node of the future keeps its slot, unless its slot is the one that is emptied.\<close>

lemma same_block_less:
  assumes "ahead e c" "e div 2 ^ k = c div 2 ^ k" "k \<le> 26"
  shows "c < e"
proof (rule ccontr)
  assume "\<not> c < e"
  with assms(1) have "e + 2 ^ 31 < c" by (auto simp: ahead_def)
  then have "(e + 2 ^ 31) div 2 ^ k \<le> c div 2 ^ k" by (intro div_le_mono) simp
  moreover have p: "(2::nat) ^ 31 = 2 ^ (31 - k) * 2 ^ k"
    using assms(3) by (simp flip: power_add)
  have "(e + 2 ^ 31) div 2 ^ k = e div 2 ^ k + 2 ^ (31 - k)" unfolding p by simp
  ultimately show False using assms(2) by simp
qed

lemma low_digits_zero:
  fixes c :: nat
  assumes "c mod (64 * b) = 0" "0 < b"
  shows "c mod b = 0 \<and> c div b mod 64 = 0"
proof -
  from assms(1) obtain q where "c = 64 * b * q" by (metis dvd_eq_mod_eq_0 dvdE)
  then have "c = b * (64 * q)" by (simp only: ac_simps)
  then show ?thesis using assms(2) by (simp only: nonzero_mult_div_cancel_left) simp
qed

lemma moved_level:
  fixes c :: nat
  assumes c: "c \<noteq> 0"
  shows "c mod 2 ^ 8 = 0 \<Longrightarrow> c div 2 ^ 8 mod 64 \<noteq> 0 \<Longrightarrow> moved c = Some (Level 0 (c div 2 ^ 8 mod 64))"
    and "c mod 2 ^ 14 = 0 \<Longrightarrow> c div 2 ^ 14 mod 64 \<noteq> 0 \<Longrightarrow> moved c = Some (Level 1 (c div 2 ^ 14 mod 64))"
    and "c mod 2 ^ 20 = 0 \<Longrightarrow> c div 2 ^ 20 mod 64 \<noteq> 0 \<Longrightarrow> moved c = Some (Level 2 (c div 2 ^ 20 mod 64))"
    and "c mod 2 ^ 26 = 0 \<Longrightarrow> moved c = Some (Level 3 (c div 2 ^ 26 mod 64))"
  using c low_digits_zero [of c "2 ^ 8"] low_digits_zero [of c "2 ^ 14"] low_digits_zero [of c "2 ^ 20"]
  by (simp_all add: moved_def)

lemma div_coarse: "(x::nat) div b = y div b \<Longrightarrow> x div (64 * b) = y div (64 * b)"
  by (metis div_mult2_eq mult.commute)

lemma place_levels:
  "e div 2 ^ 8 = c div 2 ^ 8 \<Longrightarrow> place e c = Near (e mod 2 ^ 8)"
  "e div 2 ^ 14 = c div 2 ^ 14 \<Longrightarrow> e div 2 ^ 8 \<noteq> c div 2 ^ 8 \<Longrightarrow>
     place e c = Level 0 (e div 2 ^ 8 mod 64)"
  "e div 2 ^ 20 = c div 2 ^ 20 \<Longrightarrow> e div 2 ^ 14 \<noteq> c div 2 ^ 14 \<Longrightarrow>
     place e c = Level 1 (e div 2 ^ 14 mod 64)"
  "e div 2 ^ 26 = c div 2 ^ 26 \<Longrightarrow> e div 2 ^ 20 \<noteq> c div 2 ^ 20 \<Longrightarrow>
     place e c = Level 2 (e div 2 ^ 20 mod 64)"
  "e div 2 ^ 26 \<noteq> c div 2 ^ 26 \<Longrightarrow> place e c = Level 3 (e div 2 ^ 26 mod 64)"
proof -
  have coarse: "e div 2 ^ 8 = c div 2 ^ 8 \<Longrightarrow> e div 2 ^ 14 = c div 2 ^ 14"
    "e div 2 ^ 14 = c div 2 ^ 14 \<Longrightarrow> e div 2 ^ 20 = c div 2 ^ 20"
    "e div 2 ^ 20 = c div 2 ^ 20 \<Longrightarrow> e div 2 ^ 26 = c div 2 ^ 26"
    using div_coarse [of e "2 ^ 8" c] div_coarse [of e "2 ^ 14" c] div_coarse [of e "2 ^ 20" c]
    by simp_all
  show "e div 2 ^ 8 = c div 2 ^ 8 \<Longrightarrow> place e c = Near (e mod 2 ^ 8)"
    unfolding place_def by (rule if_P)
  show "e div 2 ^ 14 = c div 2 ^ 14 \<Longrightarrow> e div 2 ^ 8 \<noteq> c div 2 ^ 8 \<Longrightarrow>
     place e c = Level 0 (e div 2 ^ 8 mod 64)"
    by (simp only: place_def if_True if_False simp_thms)
  show "e div 2 ^ 20 = c div 2 ^ 20 \<Longrightarrow> e div 2 ^ 14 \<noteq> c div 2 ^ 14 \<Longrightarrow>
     place e c = Level 1 (e div 2 ^ 14 mod 64)"
    using coarse(1) by (cases "e div 2 ^ 8 = c div 2 ^ 8") (simp_all only: place_def if_True if_False simp_thms)
  show "e div 2 ^ 26 = c div 2 ^ 26 \<Longrightarrow> e div 2 ^ 20 \<noteq> c div 2 ^ 20 \<Longrightarrow>
     place e c = Level 2 (e div 2 ^ 20 mod 64)"
    using coarse(1,2) by (cases "e div 2 ^ 8 = c div 2 ^ 8"; cases "e div 2 ^ 14 = c div 2 ^ 14")
      (simp_all only: place_def if_True if_False simp_thms)
  show "e div 2 ^ 26 \<noteq> c div 2 ^ 26 \<Longrightarrow> place e c = Level 3 (e div 2 ^ 26 mod 64)"
    using coarse by (cases "e div 2 ^ 8 = c div 2 ^ 8"; cases "e div 2 ^ 14 = c div 2 ^ 14";
        cases "e div 2 ^ 20 = c div 2 ^ 20")
      (simp_all only: place_def if_True if_False simp_thms)
qed

lemma place_Near:
  assumes "place e c = Near i"
  shows "e div 2 ^ 8 = c div 2 ^ 8 \<and> i = e mod 2 ^ 8"
proof (rule ccontr)
  assume n: "\<not> ?thesis"
  then have "e div 2 ^ 8 \<noteq> c div 2 ^ 8" using assms place_levels(1) by (metis place.inject(1))
  then show False using assms place_levels(2-5) by (metis place.distinct(1))
qed

lemma place_stable:
  assumes a: "ahead e c" and c': "c' = (c + 1) mod 2 ^ 32" and mv: "moved c' \<noteq> Some (place e c)"
  shows "place e c' = place e c"
proof -
  have c32: "c < 2 ^ 32" "e < 2 ^ 32" using a by (auto simp: ahead_def)
  have less: "c < e \<and> c' = c + 1 \<and> (c + 1) div 2 ^ k = c div 2 ^ k"
    if "e div 2 ^ k = c div 2 ^ k" "k \<le> 26" for k
  proof -
    have "c < e" using same_block_less [OF a that] .
    then show ?thesis using succ_block [OF _ that(1)] c32 by (simp add: c')
  qed
  have enters: "(c + 1) mod 2 ^ k = 0 \<and> (c + 1) div 2 ^ k mod 64 \<noteq> 0 \<and>
      (c + 1) div 2 ^ k mod 64 = e div 2 ^ k mod 64"
    if "e div (64 * 2 ^ k) = c div (64 * 2 ^ k)" "e div 2 ^ k \<noteq> c div 2 ^ k" "c < e"
      "e div 2 ^ k = (c + 1) div 2 ^ k" for k
    using succ_enters [of "2 ^ k" e c] that by simp
  consider "e div 2 ^ 8 = c div 2 ^ 8"
    | "e div 2 ^ 14 = c div 2 ^ 14" "e div 2 ^ 8 \<noteq> c div 2 ^ 8"
    | "e div 2 ^ 20 = c div 2 ^ 20" "e div 2 ^ 14 \<noteq> c div 2 ^ 14"
    | "e div 2 ^ 26 = c div 2 ^ 26" "e div 2 ^ 20 \<noteq> c div 2 ^ 20"
    | "e div 2 ^ 26 \<noteq> c div 2 ^ 26" by blast
  then show ?thesis
  proof cases
    case 1
    from less [of 8] 1 have "e div 2 ^ 8 = c' div 2 ^ 8" by auto
    then show ?thesis using place_levels(1) 1 by metis
  next
    case 2
    from less [of 14] 2 have l: "c < e" "c' = c + 1" "e div 2 ^ 14 = c' div 2 ^ 14" by auto
    have "e div 2 ^ 8 \<noteq> c' div 2 ^ 8"
    proof
      assume "e div 2 ^ 8 = c' div 2 ^ 8"
      with enters [of 8] 2 l have "moved c' = Some (Level 0 (e div 2 ^ 8 mod 64))"
        using moved_level(1) [of c'] by simp
      with mv place_levels(2) [OF 2] show False by metis
    qed
    then show ?thesis using place_levels(2) [OF 2] place_levels(2) [OF l(3)] by metis
  next
    case 3
    from less [of 20] 3 have l: "c < e" "c' = c + 1" "e div 2 ^ 20 = c' div 2 ^ 20" by auto
    have "e div 2 ^ 14 \<noteq> c' div 2 ^ 14"
    proof
      assume "e div 2 ^ 14 = c' div 2 ^ 14"
      with enters [of 14] 3 l have "moved c' = Some (Level 1 (e div 2 ^ 14 mod 64))"
        using moved_level(2) [of c'] by simp
      with mv place_levels(3) [OF 3] show False by metis
    qed
    then show ?thesis using place_levels(3) [OF 3] place_levels(3) [OF l(3)] by metis
  next
    case 4
    from less [of 26] 4 have l: "c < e" "c' = c + 1" "e div 2 ^ 26 = c' div 2 ^ 26" by auto
    have "e div 2 ^ 20 \<noteq> c' div 2 ^ 20"
    proof
      assume "e div 2 ^ 20 = c' div 2 ^ 20"
      with enters [of 20] 4 l have "moved c' = Some (Level 2 (e div 2 ^ 20 mod 64))"
        using moved_level(3) [of c'] by simp
      with mv place_levels(4) [OF 4] show False by metis
    qed
    then show ?thesis using place_levels(4) [OF 4] place_levels(4) [OF l(3)] by metis
  next
    case 5
    have "e div 2 ^ 26 \<noteq> c' div 2 ^ 26"
    proof
      assume eq: "e div 2 ^ 26 = c' div 2 ^ 26"
      show False
      proof (cases "c' = 0")
        case True
        then show ?thesis using mv eq place_levels(5) [OF 5] by (simp add: moved_def)
      next
        case False
        with c32 have "c' = c + 1" by (cases "c + 1 = 2 ^ 32") (auto simp: c')
        moreover from this have "(c + 1) mod 2 ^ 26 = 0"
          using succ_div_cases [of "2 ^ 26" c] 5 eq by (metis zero_less_numeral zero_less_power)
        ultimately have "moved c' = Some (Level 3 (c' div 2 ^ 26 mod 64))"
          using moved_level(4) [OF False] by metis
        with mv eq place_levels(5) [OF 5] show ?thesis by simp
      qed
    qed
    then show ?thesis using place_levels(5) 5 by metis
  qed
qed


section \<open>The wheel invariant\<close>

text \<open>
  Between updates every node sits in the slot where it belongs as seen from the current tick and
  expires 1 to \<open>2 ^ 31 - 1\<close> ticks later. \<open>timer_inv' d\<close> is the same with distances from \<open>d\<close> on:
  inside \<open>timer_update\<close>, after the shift, the nodes due now (distance 0) are still linked.
\<close>

definition timer_inv' :: "nat \<Rightarrow> timer \<Rightarrow> bool" where
  "timer_inv' d T \<longleftrightarrow> timer_shape T \<and>
     (\<forall>p. valid_place p \<longrightarrow> (\<forall>n \<in> set (slot T p).
        place (unat (n_expire n)) (unat (t_time T)) = p \<and>
        d \<le> unat (n_expire n - t_time T) \<and> unat (n_expire n - t_time T) < 2 ^ 31))"

abbreviation timer_inv :: "timer \<Rightarrow> bool" where
  "timer_inv \<equiv> timer_inv' 1"

text \<open>The nodes due at tick \<open>e\<close>, in the order in which they will be dispatched.\<close>

definition pending :: "timer \<Rightarrow> u32 \<Rightarrow> timer_node list" where
  "pending T e = filter (\<lambda>n. n_expire n = e) (slot T (place (unat e) (unat (t_time T))))"

lemma ahead_unat:
  assumes "1 \<le> unat (e - c)" "unat (e - c) < 2 ^ 31"
  shows "ahead (unat (e :: u32)) (unat c)"
proof -
  have u: "unat e < 2 ^ 32" "unat c < 2 ^ 32"
    using unsigned_less [of e] unsigned_less [of c] by simp_all
  show ?thesis
  proof (cases "unat c \<le> unat e")
    case True
    then have "unat (e - c) = unat e - unat c" by (simp add: unat_sub word_le_nat_alt)
    with assms u True show ?thesis by (auto simp: ahead_def)
  next
    case False
    then have "unat (e - c) = unat e + 2 ^ 32 - unat c" using unat_sub_if_size [of e c] by (simp add: word_size)
    with assms u False show ?thesis by (auto simp: ahead_def)
  qed
qed

lemma unat_succ: "unat (c + 1 :: u32) = (unat c + 1) mod 2 ^ 32"
  by (simp add: unat_word_ariths)

text \<open>A fold of \<open>add_node\<close> appends to every slot the nodes that belong there, in order.\<close>

lemma fold_add_node:
  assumes "timer_shape T"
  shows "timer_shape (fold add_node ns T) \<and> t_time (fold add_node ns T) = t_time T \<and>
     (\<forall>p. valid_place p \<longrightarrow> slot (fold add_node ns T) p =
        slot T p @ filter (\<lambda>n. place (unat (n_expire n)) (unat (t_time T)) = p) ns)"
  using assms
proof (induction ns arbitrary: T)
  case Nil
  then show ?case by simp
next
  case (Cons n ns)
  let ?p = "place (unat (n_expire n)) (unat (t_time T))"
  let ?T = "set_slot ?p (slot T ?p @ [n]) T"
  have "timer_shape ?T" using Cons.prems valid_place_place by (rule shape_set_slot)
  from Cons.IH [OF this] show ?case
    by (auto simp: add_node_place Let_def slot_set_slot [OF Cons.prems valid_place_place])
qed

text \<open>Moving the emptied slot re-establishes the invariant at the next tick.\<close>

definition shifted :: "timer \<Rightarrow> timer \<Rightarrow> bool" where
  "shifted T T' \<longleftrightarrow>
     (let T1 = T\<lparr>t_time := t_time T + 1\<rparr> in
      case moved (unat (t_time T1)) of
        None \<Rightarrow> T' = T1
      | Some m \<Rightarrow> T' = fold add_node (slot T1 m) (set_slot m [] T1))"

lemma slot_time [simp]: "slot (T\<lparr>t_time := c\<rparr>) p = slot T p"
  by (cases p) auto

lemma moved_valid: "moved c = Some m \<Longrightarrow> valid_place m"
  by (auto simp: moved_def split: if_splits)

lemma shifted_slots:
  assumes sh: "timer_shape T" and "shifted T T'"
  defines "c' \<equiv> unat (t_time T + 1)"
  defines "M \<equiv> (case moved c' of None \<Rightarrow> [] | Some m \<Rightarrow> slot T m)"
  shows "timer_shape T' \<and> t_time T' = t_time T + 1 \<and>
     (\<forall>p. valid_place p \<longrightarrow> slot T' p = (if moved c' = Some p then [] else slot T p) @
        filter (\<lambda>n. place (unat (n_expire n)) c' = p) M)"
proof -
  let ?T1 = "T\<lparr>t_time := t_time T + 1\<rparr>"
  have sh1: "timer_shape ?T1" using sh by (simp add: timer_shape_def)
  show ?thesis
  proof (cases "moved c'")
    case None
    with assms(2) sh1 show ?thesis by (simp add: shifted_def Let_def c'_def M_def)
  next
    case (Some m)
    then have v: "valid_place m" by (rule moved_valid)
    with assms(2) Some have T': "T' = fold add_node (slot T m) (set_slot m [] ?T1)"
      by (simp add: shifted_def Let_def c'_def)
    show ?thesis
      using fold_add_node [OF shape_set_slot [OF sh1 v], of "slot T m" "[]"] Some
      unfolding T' by (auto simp: slot_set_slot [OF sh1 v] M_def c'_def)
  qed
qed

lemma timer_invD:
  assumes "timer_inv' d T" "valid_place p" "n \<in> set (slot T p)"
  shows "place (unat (n_expire n)) (unat (t_time T)) = p" "d \<le> unat (n_expire n - t_time T)"
    "unat (n_expire n - t_time T) < 2 ^ 31"
  using assms by (auto simp: timer_inv'_def)

lemma unat_pred: "1 \<le> unat (x :: u32) \<Longrightarrow> unat (x - 1) = unat x - 1"
  by (rule unat_minus_one) auto

lemma shifted_inv:
  assumes inv: "timer_inv T" and sh: "shifted T T'"
  shows "timer_inv' 0 T' \<and> t_time T' = t_time T + 1 \<and> pending T' = pending T"
proof -
  let ?c' = "unat (t_time T + 1)"
  define M where "M = (case moved ?c' of None \<Rightarrow> [] | Some m \<Rightarrow> slot T m)"
  have shape: "timer_shape T" using inv by (simp add: timer_inv'_def)
  have slots: "slot T' p = (if moved ?c' = Some p then [] else slot T p) @
      filter (\<lambda>n. place (unat (n_expire n)) ?c' = p) M" if "valid_place p" for p
    using shifted_slots [OF shape sh] that unfolding M_def by simp
  have T': "timer_shape T'" "t_time T' = t_time T + 1" using shifted_slots [OF shape sh] by auto
  have M: "\<exists>m. moved ?c' = Some m \<and> valid_place m \<and> n \<in> set (slot T m)" if "n \<in> set M" for n
    using that moved_valid [of ?c'] by (cases "moved ?c'") (auto simp: M_def)
  have src: "\<exists>q. valid_place q \<and> n \<in> set (slot T q)" if "valid_place p" "n \<in> set (slot T' p)" for n p
    using that M by (auto simp: slots split: if_splits)
  have stable: "place (unat (n_expire n)) ?c' = place (unat (n_expire n)) (unat (t_time T))"
    if "valid_place q" "n \<in> set (slot T q)" "moved ?c' \<noteq> Some q" for n q
    using timer_invD [OF inv that(1,2)] that(3)
      place_stable [OF ahead_unat unat_succ, of "n_expire n" "t_time T"] by simp
  have dist: "unat (n_expire n - t_time T') < 2 ^ 31" if "valid_place p" "n \<in> set (slot T' p)" for n p
  proof -
    from src [OF that] obtain q where "valid_place q" "n \<in> set (slot T q)" by blast
    from timer_invD [OF inv this] unat_pred [of "n_expire n - t_time T"] show ?thesis
      by (simp add: T' diff_diff_eq)
  qed
  have "place (unat (n_expire n)) ?c' = p" if "valid_place p" "n \<in> set (slot T' p)" for n p
    using that stable [of p n] timer_invD(1) [OF inv that(1), of n] by (auto simp: slots split: if_splits)
  then have "timer_inv' 0 T'" using T' dist by (auto simp: timer_inv'_def)
  moreover have "pending T' e = pending T e" for e
  proof -
    let ?p = "place (unat e) (unat (t_time T))" and ?q = "place (unat e) ?c'"
    have here: "q = ?p" if "valid_place q" "n \<in> set (slot T q)" "n_expire n = e" for q n
      using timer_invD(1) [OF inv that(1,2)] that(3) by simp
    have "pending T' e = filter (\<lambda>n. n_expire n = e) (if moved ?c' = Some ?q then [] else slot T ?q) @
        filter (\<lambda>n. n_expire n = e) M"
      by (auto simp: pending_def T' slots [OF valid_place_place] intro: filter_cong)
    also have "\<dots> = pending T e"
    proof (cases "moved ?c' = Some ?p")
      case True
      then have "filter (\<lambda>n. n_expire n = e) (if moved ?c' = Some ?q then [] else slot T ?q) = []"
        using here [OF valid_place_place] by (auto simp: filter_empty_conv)
      with True show ?thesis by (simp add: pending_def M_def)
    next
      case False
      have "filter (\<lambda>n. n_expire n = e) M = []"
        using M here False by (fastforce simp: filter_empty_conv)
      moreover have "?q = ?p" if "n \<in> set (slot T ?p)" "n_expire n = e" for n
        using stable [OF valid_place_place that(1) False] that(2) by simp
      then have "filter (\<lambda>n. n_expire n = e) (if moved ?c' = Some ?q then [] else slot T ?q) =
          pending T e"
      proof (cases "?q = ?p")
        case True
        with False show ?thesis by (simp add: pending_def)
      next
        case False
        with \<open>\<And>n. n \<in> set (slot T ?p) \<Longrightarrow> n_expire n = e \<Longrightarrow> ?q = ?p\<close>
        have "pending T e = []" unfolding pending_def filter_empty_conv by blast
        moreover have "filter (\<lambda>n. n_expire n = e) (slot T ?q) = []"
          unfolding filter_empty_conv using here [OF valid_place_place] False by blast
        ultimately show ?thesis by simp
      qed
      ultimately show ?thesis by simp
    qed
    finally show ?thesis .
  qed
  ultimately show ?thesis using T' by blast
qed


lemma and_low_zero: "(a AND (of_nat (2 ^ k) - 1) = (0 :: u32)) \<longleftrightarrow> unat a mod 2 ^ k = 0"
proof -
  have m: "(of_nat (2 ^ k) - 1 :: u32) = mask k" by (simp add: mask_eq_exp_minus_1)
  show ?thesis unfolding m and_mask_unat [symmetric] by (rule unat_eq_zero [symmetric])
qed

lemma digit_zero: "(drop_bit s a AND TIME_LEVEL_MASK = 0) \<longleftrightarrow> unat (a :: u32) div 2 ^ s mod 64 = 0"
  unfolding digit_unat [symmetric] by (rule unat_eq_zero [symmetric])

lemma move_list_fold:
  assumes "timer_shape T" "i < 4" "j < 64"
  shows "move_list i j T = Some (fold add_node (slot T (Level i j)) (set_slot (Level i j) [] T))"
  using assms by (simp add: move_list_def timer_shape_def Let_def)

lemma shift_loop_step:
  assumes "s' = s + 6" "i' = i + 1"
  shows "shift_loop ct (2 ^ s) (drop_bit s ct) i T =
     (if unat ct mod 2 ^ s = 0 then
        (if unat ct div 2 ^ s mod 64 \<noteq> 0 then move_list i (unat ct div 2 ^ s mod 64) T
         else if int (2 ^ s) * 64 > INT_MAX then None
         else shift_loop ct (2 ^ s') (drop_bit s' ct) i' T)
      else Some T)"
proof -
  have "drop_bit TIME_LEVEL_SHIFT (drop_bit s ct) = drop_bit (s + 6) ct"
    by (simp add: TIME_LEVEL_SHIFT_def add.commute)
  moreover have "(2::nat) ^ s * 64 = 2 ^ (s + 6)" by (simp add: power_add)
  ultimately show ?thesis
    by (subst shift_loop.simps) (simp only: and_low_zero digit_zero digit_unat assms)
qed

text \<open>The loop of \<open>timer_shift\<close> finds the slot to empty and never runs past level 3.\<close>

lemma digits_zero: "(c::nat) mod (b * 64) = 0 \<longleftrightarrow> c mod b = 0 \<and> c div b mod 64 = 0"
  by (cases "b = 0") (auto simp: mod_mult2_eq)

lemma shift_loop_moved:
  assumes c0: "unat (ct :: u32) \<noteq> 0"
  shows "shift_loop ct (2 ^ 8) (drop_bit 8 ct) 0 T =
     (case moved (unat ct) of None \<Rightarrow> Some T | Some (Level i j) \<Rightarrow> move_list i j T)"
proof -
  let ?c = "unat ct"
  have c32: "?c < 2 ^ 32" using unsigned_less [of ct] by simp
  have top: "?c div 2 ^ 26 mod 64 \<noteq> 0" if "?c mod 2 ^ 26 = 0"
  proof -
    from that obtain q where q: "?c = 2 ^ 26 * q" by (metis dvd_eq_mod_eq_0 dvdE)
    with c32 have "q < 64" by simp
    with q c0 show ?thesis by simp
  qed
  have d: "?c mod 2 ^ 14 = 0 \<longleftrightarrow> ?c mod 2 ^ 8 = 0 \<and> ?c div 2 ^ 8 mod 64 = 0"
    "?c mod 2 ^ 20 = 0 \<longleftrightarrow> ?c mod 2 ^ 14 = 0 \<and> ?c div 2 ^ 14 mod 64 = 0"
    "?c mod 2 ^ 26 = 0 \<longleftrightarrow> ?c mod 2 ^ 20 = 0 \<and> ?c div 2 ^ 20 mod 64 = 0"
    using digits_zero [of ?c "2 ^ 8"] digits_zero [of ?c "2 ^ 14"] digits_zero [of ?c "2 ^ 20"]
    by simp_all
  note loops = shift_loop_step [of 14 8 1 0 ct T] shift_loop_step [of 20 14 2 1 ct T]
    shift_loop_step [of 26 20 3 2 ct T] shift_loop_step [of 32 26 4 3 ct T]
  show ?thesis
    using loops top d c0 unfolding moved_def by (simp add: INT_MAX_def)
qed

lemma timer_shift_shifted:
  assumes "timer_shape T"
  shows "\<exists>T'. timer_shift T = Some T' \<and> shifted T T'"
proof -
  let ?ct = "t_time T + 1" and ?T1 = "T\<lparr>t_time := t_time T + 1\<rparr>"
  have sh: "timer_shape ?T1" using assms by (simp add: timer_shape_def)
  have eq: "timer_shift T = (case moved (unat ?ct) of None \<Rightarrow> Some ?T1 | Some (Level i j) \<Rightarrow> move_list i j ?T1)"
  proof (cases "?ct = 0")
    case True
    then show ?thesis by (simp add: timer_shift_def Let_def moved_def)
  next
    case False
    then have "unat ?ct \<noteq> 0" by (simp add: unat_eq_zero)
    from shift_loop_moved [OF this, of ?T1] False show ?thesis
      by (simp add: timer_shift_def Let_def TIME_NEAR_def TIME_NEAR_SHIFT_def)
  qed
  show ?thesis
  proof (cases "moved (unat ?ct)")
    case None
    with eq show ?thesis by (simp add: shifted_def Let_def)
  next
    case (Some m)
    moreover from Some obtain i j where "m = Level i j" by (auto simp: moved_def split: if_splits)
    moreover from this Some have "i < 4" "j < 64" using moved_valid [of "unat ?ct" m] by auto
    ultimately show ?thesis
      using eq move_list_fold [OF sh, of i j] by (simp add: shifted_def Let_def)
  qed
qed

section \<open>One tick\<close>

lemma timer_execute_spec:
  assumes "timer_shape T"
  defines "p \<equiv> Near (unat (t_time T AND TIME_NEAR_MASK))"
  shows "timer_execute T = Some (slot T p, set_slot p [] T)"
proof -
  let ?i = "unat (t_time T AND TIME_NEAR_MASK)"
  have i: "?i < length (t_near T)" using assms(1) by (simp add: near_unat timer_shape_def)
  let ?T = "T\<lparr>t_near := (t_near T)[?i := []]\<rparr>"
  have "timer_execute ?T = Some ([], ?T)"
    using i by (subst timer_execute.simps) (simp add: Let_def)
  moreover have "?T = T" if "t_near T ! ?i = []" using that by (metis list_update_id timer.surjective timer.update_convs(1))
  ultimately show ?thesis
    by (subst timer_execute.simps) (auto simp: p_def Let_def)
qed

lemma near_due:
  assumes inv: "timer_inv' d T" and "n \<in> set (slot T (Near (unat (t_time T) mod 2 ^ 8)))"
  shows "n_expire n = t_time T"
proof -
  have "valid_place (Near (unat (t_time T) mod 2 ^ 8))" by simp
  from timer_invD(1) [OF inv this assms(2)]
  have "unat (n_expire n) div 2 ^ 8 = unat (t_time T) div 2 ^ 8"
    "unat (n_expire n) mod 2 ^ 8 = unat (t_time T) mod 2 ^ 8"
    by (auto dest: place_Near)
  then have "unat (n_expire n) = unat (t_time T)" by (metis div_mult_mod_eq)
  then show ?thesis by (simp add: word_unat_eq_iff)
qed

lemma place_now: "place c c = Near (c mod 2 ^ 8)"
  by (simp add: place_def)

lemma timer_update_spec:
  assumes inv: "timer_inv T"
  shows "\<exists>T'. timer_update T = Some (pending T (t_time T + 1), T') \<and> timer_inv T' \<and>
     t_time T' = t_time T + 1 \<and>
     (\<forall>e. pending T' e = (if e = t_time T + 1 then [] else pending T e))"
proof -
  have sh: "timer_shape T" using inv by (simp add: timer_inv'_def)
  let ?p = "Near (unat (t_time T) mod 2 ^ 8)"
  have "n \<notin> set (slot T ?p)" for n
    using near_due [OF inv, of n] timer_invD(2) [OF inv, of ?p n] by auto
  then have e: "slot T ?p = []" by (metis equals0I set_empty)
  have "set_slot ?p [] T = T" using e by (simp add: list_update_same_conv)
    (metis list_update_id timer.surjective timer.update_convs(1))
  with e timer_execute_spec [OF sh] have x1: "timer_execute T = Some ([], T)" by (simp add: near_unat)
  from timer_shift_shifted [OF sh] obtain T2 where T2: "timer_shift T = Some T2" "shifted T T2" by blast
  from shifted_inv [OF inv T2(2)] have inv2: "timer_inv' 0 T2" and t2: "t_time T2 = t_time T + 1"
    and pe: "pending T2 = pending T" by auto
  have sh2: "timer_shape T2" using inv2 by (simp add: timer_inv'_def)
  let ?q = "Near (unat (t_time T2) mod 2 ^ 8)"
  let ?T3 = "set_slot ?q [] T2"
  have v: "valid_place ?q" by simp
  have x2: "timer_execute T2 = Some (slot T2 ?q, ?T3)"
    using timer_execute_spec [OF sh2] by (simp add: near_unat)
  have due: "slot T2 ?q = pending T (t_time T + 1)"
  proof -
    have "filter (\<lambda>n. n_expire n = t_time T2) (slot T2 ?q) = slot T2 ?q"
      using near_due [OF inv2] by (simp add: filter_id_conv)
    then show ?thesis by (simp add: pe [symmetric] pending_def t2 [symmetric] place_now)
  qed
  have slot3: "slot ?T3 p = (if p = ?q then [] else slot T2 p)" for p
    by (rule slot_set_slot [OF sh2 v])
  have "timer_inv ?T3"
  proof -
    have "1 \<le> unat (n_expire n - t_time T2)" if "valid_place p" "n \<in> set (slot T2 p)" "p \<noteq> ?q" for p n
    proof (rule ccontr)
      assume "\<not> 1 \<le> unat (n_expire n - t_time T2)"
      then have "unat (n_expire n - t_time T2) = 0" by simp
      then have "n_expire n - t_time T2 = 0" by (simp only: unat_eq_zero)
      then have "n_expire n = t_time T2" by simp
      with timer_invD(1) [OF inv2 that(1,2)] that(3) show False by (simp add: place_now)
    qed
    with inv2 shape_set_slot [OF sh2 v, of "[]"] show ?thesis
      unfolding timer_inv'_def time_set_slot slot3 by auto
  qed
  moreover have "pending ?T3 e = (if e = t_time T + 1 then [] else pending T e)" for e
  proof (cases "e = t_time T2")
    case True
    then show ?thesis unfolding pending_def time_set_slot slot3 by (simp add: place_now t2)
  next
    case False
    then have "filter (\<lambda>n. n_expire n = e) (slot T2 ?q) = []"
      using near_due [OF inv2] by (auto simp: filter_empty_conv)
    with False show ?thesis unfolding pe [symmetric] pending_def time_set_slot slot3 t2 [symmetric] by simp
  qed
  ultimately show ?thesis
    using x1 T2 x2 due t2 by (auto simp: timer_update_def simp del: set_slot.simps slot.simps)
qed

text \<open>Adding a timer: it goes to the end of the list of its tick.\<close>

lemma timer_add_spec:
  assumes inv: "timer_inv T" and t: "1 \<le> time" "time \<le> INT_MAX"
  defines "e \<equiv> word_of_int time + t_time T"
  shows "timer_inv (timer_add ev time T) \<and> t_time (timer_add ev time T) = t_time T \<and>
     (\<forall>x. pending (timer_add ev time T) x =
        (if x = e then pending T e @ [\<lparr>n_expire = e, n_event = ev\<rparr>] else pending T x))"
proof -
  let ?n = "\<lparr>n_expire = e, n_event = ev\<rparr>" and ?p = "place (unat e) (unat (t_time T))"
  have sh: "timer_shape T" using inv by (simp add: timer_inv'_def)
  have T': "timer_add ev time T = set_slot ?p (slot T ?p @ [?n]) T"
    unfolding timer_add_def add_node_place e_def Let_def by simp
  have "e - t_time T = word_of_int time" by (simp add: e_def)
  moreover have "unat (word_of_int time :: u32) = nat time"
    using t by (simp add: unat_eq_nat_uint uint_word_of_int INT_MAX_def)
  ultimately have d: "1 \<le> unat (e - t_time T)" "unat (e - t_time T) < 2 ^ 31"
    using t by (simp_all add: INT_MAX_def)
  have slot': "slot (set_slot ?p l T) q = (if q = ?p then l else slot T q)" for l q
    by (rule slot_set_slot [OF sh valid_place_place])
  have "timer_inv (set_slot ?p (slot T ?p @ [?n]) T)"
    using inv d shape_set_slot [OF sh valid_place_place] unfolding timer_inv'_def time_set_slot slot'
    by auto
  then show ?thesis unfolding T' by (auto simp: pending_def slot')
qed

lemma timer_create_inv: "timer_inv timer_create_timer" "pending timer_create_timer e = []"
proof -
  have s: "slot timer_create_timer p = []" if "valid_place p" for p
    using that by (cases p) (auto simp: timer_create_timer_def time_consts)
  then show "timer_inv timer_create_timer"
    by (auto simp: timer_inv'_def timer_shape_def) (auto simp: timer_create_timer_def time_consts)
  show "pending timer_create_timer e = []" using s [OF valid_place_place] by (simp add: pending_def)
qed


section \<open>Many ticks\<close>

text \<open>
  What a client of a timer relies on: a tick dispatches exactly the nodes due at the new time, in
  order, and nothing else changes. A number of ticks then dispatches the nodes of that interval.
\<close>

primrec ticks :: "('t \<Rightarrow> ('n list \<times> 't) option) \<Rightarrow> nat \<Rightarrow> 't \<Rightarrow> ('n list \<times> 't) option" where
  "ticks tick 0 T = Some ([], T)"
| "ticks tick (Suc n) T = do {
     (d, T1) \<leftarrow> tick T;
     (ds, T2) \<leftarrow> ticks tick n T1;
     Some (d @ ds, T2)
   }"

lemma of_nat_u32_inj: "i < 2 ^ 32 \<Longrightarrow> j < 2 ^ 32 \<Longrightarrow> (of_nat i = (of_nat j :: u32)) \<longleftrightarrow> i = j"
  by (simp add: word_unat_eq_iff unat_of_nat)

locale tick_timer =
  fixes tick :: "'t \<Rightarrow> ('n list \<times> 't) option"
    and now :: "'t \<Rightarrow> u32"
    and pend :: "'t \<Rightarrow> u32 \<Rightarrow> 'n list"
    and inv :: "'t \<Rightarrow> bool"
  assumes tick_law: "inv T \<Longrightarrow> \<exists>T'. tick T = Some (pend T (now T + 1), T') \<and> inv T' \<and>
      now T' = now T + 1 \<and> (\<forall>e. pend T' e = (if e = now T + 1 then [] else pend T e))"
begin

lemma ticks_spec:
  assumes "inv T" "n < 2 ^ 32"
  shows "\<exists>T'. ticks tick n T =
       Some (concat (map (\<lambda>i. pend T (now T + of_nat i)) [1..<Suc n]), T') \<and>
     inv T' \<and> now T' = now T + of_nat n \<and>
     (\<forall>e. pend T' e = (if \<exists>i \<in> {1..n}. e = now T + of_nat i then [] else pend T e))"
  using assms
proof (induction n arbitrary: T)
  case 0
  then show ?case by simp
next
  case (Suc n)
  from tick_law [OF Suc.prems(1)] obtain T1 where
    T1: "tick T = Some (pend T (now T + 1), T1)" "inv T1"
      "now T1 = now T + 1"
      "\<And>e. pend T1 e = (if e = now T + 1 then [] else pend T e)" by blast
  from Suc.IH [OF T1(2)] Suc.prems(2) obtain T2 where
    T2: "ticks tick n T1 = Some (concat (map (\<lambda>i. pend T1 (now T1 + of_nat i)) [1..<Suc n]), T2)"
      "inv T2" "now T2 = now T1 + of_nat n"
      "\<And>e. pend T2 e = (if \<exists>i \<in> {1..n}. e = now T1 + of_nat i then [] else pend T1 e)" by auto
  have later: "pend T1 (now T1 + of_nat i) = pend T (now T + of_nat (Suc i))"
    if "i \<in> {1..n}" for i
  proof -
    have "(of_nat (Suc i) :: u32) \<noteq> of_nat 1"
      using that Suc.prems(2) of_nat_u32_inj [of "Suc i" 1] by simp
    then show ?thesis by (simp add: T1 add.assoc)
  qed
  have "map (\<lambda>i. pend T1 (now T1 + of_nat i)) [1..<Suc n] =
      map (\<lambda>i. pend T (now T + of_nat (Suc i))) [1..<Suc n]"
    using later by (intro map_cong) auto
  also have "\<dots> = map (\<lambda>i. pend T (now T + of_nat i)) [2..<Suc (Suc n)]"
    by (simp only: map_Suc_upt [symmetric] map_map comp_def numeral_2_eq_2 One_nat_def)
  finally have tail: "map (\<lambda>i. pend T1 (now T1 + of_nat i)) [1..<Suc n] =
      map (\<lambda>i. pend T (now T + of_nat i)) [2..<Suc (Suc n)]" .
  have head: "[1..<Suc (Suc n)] = 1 # [2..<Suc (Suc n)]" by (simp add: upt_rec numeral_2_eq_2)
  have "(\<exists>i \<in> {1..Suc n}. e = now T + of_nat i) \<longleftrightarrow>
      e = now T + 1 \<or> (\<exists>i \<in> {1..n}. e = now T1 + of_nat i)" for e
  proof -
    have "{1..Suc n} = insert 1 (Suc ` {1..n})" by (auto simp: image_Suc_atLeastAtMost)
    then have "(\<exists>i \<in> {1..Suc n}. e = now T + of_nat i) \<longleftrightarrow>
        e = now T + 1 \<or> (\<exists>i \<in> {1..n}. e = now T + of_nat (Suc i))"
      by (simp only: bex_simps of_nat_1)
    then show ?thesis by (simp add: T1 add.assoc)
  qed
  then have "pend T2 e = (if \<exists>i \<in> {1..Suc n}. e = now T + of_nat i then [] else pend T e)" for e
    by (simp add: T2 T1)
  moreover have "ticks tick (Suc n) T =
      Some (concat (map (\<lambda>i. pend T (now T + of_nat i)) [1..<Suc (Suc n)]), T2)"
    unfolding head list.map concat.simps tail [symmetric] by (simp add: T1 T2)
  moreover have "now T2 = now T + of_nat (Suc n)" by (simp add: T1 T2 add.assoc)
  ultimately show ?case using T2(2) by blast
qed

text \<open>A node due \<open>k\<close> ticks ahead is not among the nodes of the first \<open>k - 1\<close> ticks.\<close>

lemma not_early:
  assumes "inv T" "n < k" "k < 2 ^ 32"
  shows "\<exists>ds T'. ticks tick n T = Some (ds, T') \<and> inv T' \<and>
     pend T' (now T + of_nat k) = pend T (now T + of_nat k)"
proof -
  from ticks_spec [OF assms(1), of n] assms obtain T' where
    T': "ticks tick n T = Some (concat (map (\<lambda>i. pend T (now T + of_nat i)) [1..<Suc n]), T')"
      "inv T'" "\<And>e. pend T' e = (if \<exists>i \<in> {1..n}. e = now T + of_nat i then [] else pend T e)" by auto
  have "(of_nat k :: u32) \<noteq> of_nat i" if "i \<in> {1..n}" for i
    using that assms of_nat_u32_inj [of k i] by simp
  then show ?thesis using T' by auto
qed

end

interpretation wheel: tick_timer timer_update t_time pending timer_inv
  by unfold_locales (rule timer_update_spec)

lemma timer_updates_ticks: "timer_updates n T = ticks timer_update n T"
  by (induction n arbitrary: T) (simp_all)

section \<open>Properties\<close>

lemma fold_add_node_current [simp]: "t_current (fold add_node ns T) = t_current T"
  by (induction ns arbitrary: T) (simp_all add: add_node_def near_link_def level_link_def Let_def)

lemma move_list_current: "move_list l i T = Some T' \<Longrightarrow> t_current T' = t_current T"
  by (auto simp: move_list_def Let_def split: if_splits)

lemma shift_loop_current:
  assumes "shift_loop ct msk time i T = Some T'"
  shows "t_current T' = t_current T"
  using assms
  by (rule shift_loop.raw_induct [of "\<lambda>_ _ _ _ T T'. t_current T' = t_current T", rotated])
    (auto split: if_splits dest: move_list_current)

lemma timer_execute_current:
  assumes "timer_execute T = Some (d, T')"
  shows "t_current T' = t_current T"
proof -
  have "t_current (snd (d, T')) = t_current T"
    using assms
    by (rule timer_execute.raw_induct [of "\<lambda>T r. t_current (snd r) = t_current T", rotated])
      (fastforce simp: Let_def bind_Some_iff split: if_splits)
  then show ?thesis by simp
qed

lemma timer_updates_current: "timer_updates n T = Some (ds, T') \<Longrightarrow> t_current T' = t_current T"
proof (induction n arbitrary: T ds)
  case (Suc n)
  then obtain d T1 where "timer_update T = Some (d, T1)" and T': "t_current T' = t_current T1"
    by (auto simp: bind_Some_iff)
  then have "t_current T1 = t_current T"
    by (auto simp: timer_update_def timer_shift_def bind_Some_iff Let_def split: if_splits
        dest!: timer_execute_current move_list_current shift_loop_current)
  with T' show ?case by simp
qed simp

lemma pending_expire: "n \<in> set (pending T e) \<Longrightarrow> n_expire n = e"
  by (auto simp: pending_def)

text \<open>
  C7. A timer fires exactly when it is due. A timer added for \<open>t\<close> ticks ahead is not among the
  nodes dispatched by the next \<open>t - 1\<close> ticks (which are the ones dispatched without it), and the
  \<open>t\<close>-th tick dispatches it last among the timers due at that tick, in the order in which they
  were added. This holds across every cascade between the levels of the wheel and across the
  wrap-around of the 32-bit tick counter, and no tick fails.
\<close>

theorem timer_fires_on_time:
  assumes inv: "timer_inv T" and t: "1 \<le> t" "t \<le> INT_MAX"
  defines "e \<equiv> t_time T + word_of_int t"
  shows "\<exists>ds T2 T2' T3. timer_updates (nat (t - 1)) (timer_add ev t T) = Some (ds, T2) \<and>
     timer_updates (nat (t - 1)) T = Some (ds, T2') \<and>
     (\<forall>n \<in> set ds. n_expire n \<noteq> e) \<and>
     timer_update T2 = Some (pending T e @ [\<lparr>n_expire = e, n_event = ev\<rparr>], T3) \<and>
     t_time T3 = e \<and> timer_inv T3"
proof -
  let ?T1 = "timer_add ev t T" and ?n = "nat (t - 1)"
  have n: "?n < 2 ^ 32" using t by (simp add: INT_MAX_def)
  have e': "e = word_of_int t + t_time T" by (simp add: e_def)
  have e1: "t_time T + of_nat ?n + 1 = e"
  proof -
    have "(of_nat ?n :: u32) = word_of_int (t - 1)" using t by (simp add: of_nat_nat)
    then show ?thesis by (simp add: e_def)
  qed
  have early: "e \<noteq> t_time T + of_nat i" if "i \<in> {1..?n}" for i
  proof -
    have "(of_nat i :: u32) \<noteq> of_nat (?n + 1)"
      using that t of_nat_u32_inj [of i "?n + 1"] by (simp add: INT_MAX_def)
    then show ?thesis unfolding e1 [symmetric] by (simp add: add.assoc add.commute [of 1])
  qed
  from timer_add_spec [OF inv t, of ev] have
    T1: "timer_inv ?T1" "t_time ?T1 = t_time T"
      "\<And>x. pending ?T1 x = (if x = e then pending T e @ [\<lparr>n_expire = e, n_event = ev\<rparr>] else pending T x)"
    by (auto simp: e')
  let ?ds = "concat (map (\<lambda>i. pending T (t_time T + of_nat i)) [1..<Suc ?n])"
  from wheel.ticks_spec [OF inv n] obtain T2' where
    T2': "ticks timer_update ?n T = Some (?ds, T2')" by blast
  have "map (\<lambda>i. pending ?T1 (t_time ?T1 + of_nat i)) [1..<Suc ?n] =
      map (\<lambda>i. pending T (t_time T + of_nat i)) [1..<Suc ?n]"
  proof (rule map_cong)
    fix i assume "i \<in> set [1..<Suc ?n]"
    then have "i \<in> {1..?n}" by auto
    from early [OF this] show "pending ?T1 (t_time ?T1 + of_nat i) = pending T (t_time T + of_nat i)"
      by (auto simp: T1)
  qed simp
  moreover from wheel.ticks_spec [OF T1(1) n] obtain T2 where
    T2: "ticks timer_update ?n ?T1 =
        Some (concat (map (\<lambda>i. pending ?T1 (t_time ?T1 + of_nat i)) [1..<Suc ?n]), T2)" "timer_inv T2"
      "t_time T2 = t_time ?T1 + of_nat ?n"
      "\<And>e. pending T2 e = (if \<exists>i \<in> {1..?n}. e = t_time ?T1 + of_nat i then [] else pending ?T1 e)"
    by blast
  ultimately have u: "ticks timer_update ?n ?T1 = Some (?ds, T2)" by (simp only:)
  have "\<not> (\<exists>i \<in> {1..?n}. e = t_time ?T1 + of_nat i)" using early T1(2) by auto
  then have p2: "pending T2 e = pending T e @ [\<lparr>n_expire = e, n_event = ev\<rparr>]"
    by (simp only: T2(4) T1(3) if_False refl if_True)
  have "n_expire n \<noteq> e" if n: "n \<in> set ?ds" for n
  proof -
    from n obtain i where i: "i \<in> {1..?n}" "n \<in> set (pending T (t_time T + of_nat i))"
      by (auto simp: less_Suc_eq_le simp del: upt_Suc)
    from early [OF i(1)] pending_expire [OF i(2)] show ?thesis by simp
  qed
  moreover from timer_update_spec [OF T2(2)] T2(3) p2 T1(2) e1 obtain T3 where
    "timer_update T2 = Some (pending T e @ [\<lparr>n_expire = e, n_event = ev\<rparr>], T3)" "timer_inv T3"
    "t_time T3 = e" by auto
  ultimately show ?thesis unfolding timer_updates_ticks using u T2' by blast
qed

theorem timer_fires_on_time_witness:
  "\<exists>ds T2 T3. timer_updates 299 (timer_add \<lparr>ev_handle = 16, ev_session = 3\<rparr> 300 timer_create_timer) =
     Some (ds, T2) \<and>
     timer_update T2 = Some ([\<lparr>n_expire = 300, n_event = \<lparr>ev_handle = 16, ev_session = 3\<rparr>\<rparr>], T3)"
proof -
  have "t_time timer_create_timer = 0" by (simp add: timer_create_timer_def)
  then show ?thesis
    using timer_fires_on_time [OF timer_create_inv(1), of 300 "\<lparr>ev_handle = 16, ev_session = 3\<rparr>"]
    by (auto simp: timer_create_inv(2) INT_MAX_def)
qed

lemma skynet_updatetime_spec:
  assumes inv: "timer_inv T" and d: "unat (cp - t_current_point T) < 2 ^ 31"
  shows "if cp < t_current_point T
     then skynet_updatetime cp T = Some ([], True, T\<lparr>t_current_point := cp\<rparr>)
     else (let n = unat (cp - t_current_point T) in
       \<exists>T'. skynet_updatetime cp T =
           Some (concat (map (\<lambda>i. pending T (t_time T + of_nat i)) [1..<Suc n]), False, T') \<and>
         timer_inv T' \<and> t_time T' = t_time T + of_nat n \<and> t_current T' = t_current T + of_nat n)"
proof -
  let ?n = "unat (cp - t_current_point T)"
  consider "cp < t_current_point T" | "cp = t_current_point T"
    | "\<not> cp < t_current_point T" "cp \<noteq> t_current_point T" by blast
  then show ?thesis
  proof cases
    case 3
    let ?d = "ucast (cp - t_current_point T) :: u32"
    let ?T = "T\<lparr>t_current_point := cp, t_current := t_current T + ucast ?d\<rparr>"
    have s: "slot ?T p = slot T p" for p by (cases p) simp_all
    have inv': "timer_inv ?T" using inv by (simp add: timer_inv'_def timer_shape_def s)
    have p: "pending ?T = pending T" by (simp add: pending_def s fun_eq_iff)
    have u: "unat ?d = ?n" using d by (simp add: unsigned_ucast_eq take_bit_nat_eq_self)
    have n: "?n < 2 ^ 32" using d by simp
    from wheel.ticks_spec [OF inv' n] obtain T' where
      "ticks timer_update ?n ?T = Some (concat (map (\<lambda>i. pending T (t_time T + of_nat i)) [1..<Suc ?n]), T')"
      "timer_inv T'" "t_time T' = t_time T + of_nat ?n" unfolding p by auto
    moreover from this(1) have "t_current T' = t_current ?T"
      by (metis timer_updates_ticks timer_updates_current)
    moreover have "ucast ?d = (of_nat ?n :: u64)" using u by (metis of_nat_unat)
    moreover have "int m \<le> INT_MAX" if "m < 2 ^ 31" for m using that by (simp add: INT_MAX_def)
    then have "uint ?d \<le> INT_MAX" using d u by (metis uint_nat)
    ultimately show ?thesis using 3
      by (simp add: skynet_updatetime_def Let_def u timer_updates_ticks)
  qed (use inv in \<open>simp_all add: skynet_updatetime_def\<close>)
qed

text \<open>
  When the monotonic clock reads \<open>cp\<close>, the timer thread advances the wheel by exactly the
  centiseconds elapsed since the last reading and dispatches the nodes due in that interval in
  the order of their ticks; the wall clock advances by the same amount. A reading that went
  backwards is recorded and dispatches nothing.
\<close>

theorem updatetime_catches_up:
  assumes inv: "timer_inv T" and d: "unat (cp - t_current_point T) < 2 ^ 31"
  shows "if cp < t_current_point T
     then skynet_updatetime cp T = Some ([], True, T\<lparr>t_current_point := cp\<rparr>)
     else (let n = unat (cp - t_current_point T) in
       \<exists>T'. skynet_updatetime cp T =
           Some (concat (map (\<lambda>i. pending T (t_time T + of_nat i)) [1..<Suc n]), False, T') \<and>
         timer_inv T' \<and> t_time T' = t_time T + of_nat n \<and> t_current T' = t_current T + of_nat n)"
  using skynet_updatetime_spec [OF inv d] .

theorem updatetime_catches_up_witness:
  "\<exists>T'. skynet_updatetime 5 timer_create_timer = Some ([], False, T') \<and> t_time T' = 5"
proof -
  have "t_current_point timer_create_timer = 0" "t_time timer_create_timer = 0"
    by (simp_all add: timer_create_timer_def)
  then show ?thesis using updatetime_catches_up [OF timer_create_inv(1), of 5]
    by (auto simp: timer_create_inv(2) Let_def)
qed

end
