(* ===== verification/Skynet_Libc.thy ===== *)
theory Skynet_Libc
  imports Skynet_Prelude
begin

text \<open>
  The C library functions on strings and numbers that the server uses: \<open>strtoul\<close>, \<open>strtol\<close>, the
  conversions of \<open>sprintf\<close>, \<open>sscanf("%s")\<close>, \<open>strsep\<close> and \<open>strchr\<close>. Numbers saturate and wrap as
  on the 64-bit targets of the program.
\<close>

unbundle bit_operations_syntax

section \<open>Signed 32-bit integers\<close>

text \<open>The conversion of an integer to \<open>int\<close>, in two's complement.\<close>

definition to_int32 :: "int \<Rightarrow> int" where
  "to_int32 x = (x + 2147483648) mod 4294967296 - 2147483648"

lemma to_int32_range: "INT_MIN \<le> to_int32 x \<and> to_int32 x \<le> INT_MAX"
proof -
  have "0 \<le> (x + 2147483648) mod 4294967296" "(x + 2147483648) mod 4294967296 < 4294967296" by simp_all
  then show ?thesis unfolding to_int32_def INT_MIN_def INT_MAX_def by linarith
qed

lemma to_int32_id: "INT_MIN \<le> x \<Longrightarrow> x \<le> INT_MAX \<Longrightarrow> to_int32 x = x"
  by (simp add: to_int32_def INT_MIN_def INT_MAX_def)

section \<open>Reading numbers\<close>

definition c_isspace :: "char \<Rightarrow> bool" where
  "c_isspace c \<longleftrightarrow> c = CHR '' '' \<or> (9 \<le> (of_char c :: nat) \<and> (of_char c :: nat) \<le> 13)"

definition digit_val :: "char \<Rightarrow> nat option" where
  "digit_val c =
     (let n = (of_char c :: nat) in
      if 48 \<le> n \<and> n \<le> 57 then Some (n - 48)
      else if 97 \<le> n \<and> n \<le> 122 then Some (n - 87)
      else if 65 \<le> n \<and> n \<le> 90 then Some (n - 55)
      else None)"

fun read_digits :: "nat \<Rightarrow> nat \<Rightarrow> string \<Rightarrow> nat" where
  "read_digits b acc [] = acc"
| "read_digits b acc (c # cs) =
     (case digit_val c of
        None \<Rightarrow> acc
      | Some d \<Rightarrow> (if d < b then read_digits b (acc * b + d) cs else acc))"

fun strip_0x :: "string \<Rightarrow> string" where
  "strip_0x (a # x # cs) = (if a = CHR ''0'' \<and> (x = CHR ''x'' \<or> x = CHR ''X'') then cs else a # x # cs)"
| "strip_0x cs = cs"

text \<open>The sign and the rest of the number.\<close>

definition read_sign :: "string \<Rightarrow> bool \<times> string" where
  "read_sign s =
     (case dropWhile c_isspace s of
        [] \<Rightarrow> (False, [])
      | c # cs \<Rightarrow> (if c = CHR ''-'' then (True, cs) else if c = CHR ''+'' then (False, cs)
                   else (False, c # cs)))"

text \<open>\<open>strtoul(s, NULL, 16)\<close>.\<close>

definition strtoul16 :: "string \<Rightarrow> u64" where
  "strtoul16 s =
     (let (neg, cs) = read_sign s; v = read_digits 16 0 (strip_0x cs) in
      if v \<ge> 2 ^ 64 then - 1 else if neg then - of_nat v else of_nat v)"

definition strtol_val :: "bool \<Rightarrow> nat \<Rightarrow> int" where
  "strtol_val neg v =
     (if neg then max (- (2 ^ 63)) (- int v) else min (2 ^ 63 - 1) (int v))"

text \<open>\<open>strtol(s, NULL, 10)\<close> and \<open>strtol(s, NULL, 0)\<close>.\<close>

definition strtol10 :: "string \<Rightarrow> int" where
  "strtol10 s = (let (neg, cs) = read_sign s in strtol_val neg (read_digits 10 0 cs))"

definition strtol0 :: "string \<Rightarrow> int" where
  "strtol0 s =
     (let (neg, cs) = read_sign s in
      strtol_val neg
        (if strip_0x cs \<noteq> cs then read_digits 16 0 (strip_0x cs)
         else if take 1 cs = ''0'' then read_digits 8 0 cs
         else read_digits 10 0 cs))"

section \<open>Printing numbers\<close>

definition hex_chars :: string where
  "hex_chars = ''0123456789abcdef''"

fun print_nat :: "nat \<Rightarrow> nat \<Rightarrow> string" where
  "print_nat b n =
     (if n < b \<or> b < 2 then [hex_chars ! n] else print_nat b (n div b) @ [hex_chars ! (n mod b)])"

declare print_nat.simps [simp del]

text \<open>\<open>%d\<close>, \<open>%u\<close>, \<open>%x\<close> and \<open>%08x\<close>.\<close>

definition fmt_d :: "int \<Rightarrow> string" where
  "fmt_d i = (if i < 0 then CHR ''-'' # print_nat 10 (nat (- i)) else print_nat 10 (nat i))"

definition fmt_u :: "u32 \<Rightarrow> string" where
  "fmt_u w = print_nat 10 (unat w)"

definition fmt_x :: "u32 \<Rightarrow> string" where
  "fmt_x w = print_nat 16 (unat w)"

definition pad0 :: "nat \<Rightarrow> string \<Rightarrow> string" where
  "pad0 n s = replicate (n - length s) CHR ''0'' @ s"

definition fmt_08x :: "u32 \<Rightarrow> string" where
  "fmt_08x w = pad0 8 (fmt_x w)"

text \<open>
  \<open>sprintf("%lf", us / 1000000.0)\<close>: seconds with six decimals. The division in \<open>double\<close> is exact
  to the sixth decimal below \<open>2 ^ 52\<close> microseconds.
\<close>

definition fmt_usec :: "u64 \<Rightarrow> string" where
  "fmt_usec us = print_nat 10 (unat us div 1000000) @ ''.'' @ pad0 6 (print_nat 10 (unat us mod 1000000))"

section \<open>Splitting strings\<close>

text \<open>\<open>sscanf(s, "%s %s", ..)\<close>: the first two words, when there are as many.\<close>

definition scan_word :: "string \<Rightarrow> (string \<times> string) option" where
  "scan_word s =
     (let cs = dropWhile c_isspace s; w = takeWhile (\<lambda>c. \<not> c_isspace c) cs in
      if w = [] then None else Some (w, dropWhile (\<lambda>c. \<not> c_isspace c) cs))"

text \<open>\<open>strsep(&s, delim)\<close>: the token and the new value of \<open>s\<close>.\<close>

definition strsep :: "string option \<Rightarrow> string \<Rightarrow> string option \<times> string option" where
  "strsep s delim =
     (case s of
        None \<Rightarrow> (None, None)
      | Some cs \<Rightarrow>
          (Some (takeWhile (\<lambda>c. c \<notin> set delim) cs),
           case dropWhile (\<lambda>c. c \<notin> set delim) cs of [] \<Rightarrow> None | _ # r \<Rightarrow> Some r))"

definition strchr :: "string \<Rightarrow> char \<Rightarrow> string option" where
  "strchr s c = (case dropWhile (\<lambda>d. d \<noteq> c) s of [] \<Rightarrow> None | r \<Rightarrow> Some r)"

section \<open>Printing and reading back\<close>

lemma digit_val_hex:
  assumes "d < 16"
  shows "digit_val (hex_chars ! d) = Some d"
proof -
  have "d = 0 \<or> d = 1 \<or> d = 2 \<or> d = 3 \<or> d = 4 \<or> d = 5 \<or> d = 6 \<or> d = 7 \<or> d = 8 \<or> d = 9 \<or>
      d = 10 \<or> d = 11 \<or> d = 12 \<or> d = 13 \<or> d = 14 \<or> d = 15" using assms by arith
  then show ?thesis by (elim disjE) (simp_all add: hex_chars_def digit_val_def)
qed

lemma read_print_nat:
  assumes "2 \<le> b" "b \<le> 16"
  shows "read_digits b 0 (print_nat b n @ cs) = read_digits b n cs"
proof (induction n arbitrary: cs rule: less_induct)
  case (less n)
  show ?case
  proof (cases "n < b")
    case True
    then show ?thesis using assms digit_val_hex [of n] by (simp add: print_nat.simps [of b n])
  next
    case False
    then have "n div b < n" using assms by (simp add: div_less_dividend)
    moreover have m: "n mod b < b" using assms by simp
    moreover have "digit_val (hex_chars ! (n mod b)) = Some (n mod b)"
      using m assms by (intro digit_val_hex) linarith
    ultimately show ?thesis
      using less [of "n div b"] False assms by (simp add: print_nat.simps [of b n])
  qed
qed

text \<open>A printed number starts with a digit and its second character is not an \<open>x\<close>.\<close>

definition hex_string :: "string \<Rightarrow> bool" where
  "hex_string s \<longleftrightarrow> s \<noteq> [] \<and> (\<forall>c \<in> set s. \<exists>d < 16. digit_val c = Some d)"

lemma print_nat_hex: "2 \<le> b \<Longrightarrow> b \<le> 16 \<Longrightarrow> hex_string (print_nat b n)"
proof (induction n rule: less_induct)
  case (less n)
  have d: "\<exists>k<16. digit_val (hex_chars ! m) = Some k" if "m < b" for m
    using digit_val_hex [of m] that less.prems by auto
  show ?case
  proof (cases "n < b")
    case True
    then show ?thesis using d [of n] by (simp add: hex_string_def print_nat.simps [of b n])
  next
    case False
    then have "n div b < n" using less.prems by (simp add: div_less_dividend)
    then have "hex_string (print_nat b (n div b))" using less by blast
    then show ?thesis
      using False less.prems d [of "n mod b"] by (auto simp: hex_string_def print_nat.simps [of b n])
  qed
qed

lemma hex_not_special:
  assumes "digit_val c = Some d" "d < 16"
  shows "\<not> c_isspace c \<and> c \<noteq> CHR ''-'' \<and> c \<noteq> CHR ''+'' \<and> c \<noteq> CHR ''x'' \<and> c \<noteq> CHR ''X''"
proof -
  have "c = CHR '' '' \<or> c \<in> {CHR ''-'', CHR ''+'', CHR ''x'', CHR ''X''} \<Longrightarrow> False"
    using assms by (auto simp: digit_val_def)
  moreover have "\<not> (9 \<le> (of_char c :: nat) \<and> (of_char c :: nat) \<le> 13)"
    using assms by (auto simp: digit_val_def Let_def split: if_splits)
  ultimately show ?thesis by (auto simp: c_isspace_def)
qed

lemma read_sign_hex: "hex_string s \<Longrightarrow> read_sign s = (False, s)"
  using hex_not_special by (cases s) (fastforce simp: read_sign_def hex_string_def)+

lemma strip_0x_hex: "hex_string s \<Longrightarrow> strip_0x s = s"
  using hex_not_special by (cases s rule: strip_0x.cases) (fastforce simp: hex_string_def)+

lemma strtoul16_hex: "hex_string s \<Longrightarrow> read_digits 16 0 s < 2 ^ 64 \<Longrightarrow> strtoul16 s = of_nat (read_digits 16 0 s)"
  by (simp add: strtoul16_def read_sign_hex strip_0x_hex)

lemma strtoul16_fmt_x: "ucast (strtoul16 (fmt_x h)) = h"
proof -
  have r: "read_digits 16 0 (fmt_x h) = unat h"
    using read_print_nat [of 16 "unat h" "[]"] by (simp add: fmt_x_def)
  have "unat h < 2 ^ 32" using unsigned_less [of h] by simp
  then have "read_digits 16 0 (fmt_x h) < 2 ^ 64" unfolding r by simp
  moreover have "hex_string (fmt_x h)" by (simp add: fmt_x_def print_nat_hex)
  ultimately have "strtoul16 (fmt_x h) = of_nat (unat h)" using strtoul16_hex r by simp
  moreover have "ucast (ucast h :: u64) = h" by (rule bit_word_eqI) (auto simp: bit_simps)
  ultimately show ?thesis by simp
qed

end
