(* ===== verification/Skynet_Node.thy ===== *)
theory Skynet_Node
  imports Skynet_Mq Skynet_Handle Skynet_Timer Skynet_Libc
begin

text \<open>
  The state of a node and the operations on contexts that every other part of the server uses:
  \<^verbatim>\<open>skynet-src/skynet_server.c\<close> (contexts, reference counts, \<open>skynet_context_push\<close>),
  \<^verbatim>\<open>skynet_error.c\<close>, \<^verbatim>\<open>skynet_harbor.c\<close>, \<^verbatim>\<open>skynet_env.c\<close>, \<^verbatim>\<open>skynet_monitor.c\<close>,
  \<^verbatim>\<open>skynet_module.c\<close>, \<^verbatim>\<open>skynet_log.c\<close>, the message-sending part of \<^verbatim>\<open>skynet_timer.c\<close> and the
  forwarding of socket events of \<^verbatim>\<open>skynet_socket.c\<close>.

  The code of the services (the functions of a loaded module and its message callback), the
  dynamic linker and \<open>fopen\<close> are not part of the kernel: they are the fields of a record
  \<open>services\<close>, an argument of the operations that call them. A callback may change the whole node.
\<close>

unbundle bit_operations_syntax

section \<open>Constants\<close>

definition PTYPE_TEXT :: int where "PTYPE_TEXT = 0"
definition PTYPE_RESPONSE :: int where "PTYPE_RESPONSE = 1"
definition PTYPE_CLIENT :: int where "PTYPE_CLIENT = 3"
definition PTYPE_SYSTEM :: int where "PTYPE_SYSTEM = 4"
definition PTYPE_HARBOR :: int where "PTYPE_HARBOR = 5"
definition PTYPE_SOCKET :: int where "PTYPE_SOCKET = 6"
definition PTYPE_ERROR :: int where "PTYPE_ERROR = 7"
definition PTYPE_TAG_DONTCOPY :: int where "PTYPE_TAG_DONTCOPY = 65536"
definition PTYPE_TAG_ALLOCSESSION :: int where "PTYPE_TAG_ALLOCSESSION = 131072"
definition MAX_MODULE_TYPE :: nat where "MAX_MODULE_TYPE = 32"
definition GLOBALNAME_LENGTH :: nat where "GLOBALNAME_LENGTH = 16"
definition THREAD_MAIN :: int where "THREAD_MAIN = 1"

lemmas ptype_defs = PTYPE_TEXT_def PTYPE_RESPONSE_def PTYPE_CLIENT_def PTYPE_SYSTEM_def
  PTYPE_HARBOR_def PTYPE_SOCKET_def PTYPE_ERROR_def PTYPE_TAG_DONTCOPY_def PTYPE_TAG_ALLOCSESSION_def

section \<open>State\<close>

text \<open>The \<open>name\<close> array is left uninitialised when a message is sent to a handle.\<close>

record remote_message =
  rm_name :: "string option"
  rm_handle :: u32
  rm_message :: "addr option"
  rm_sz :: u64
  rm_type :: int

text \<open>A socket event; \<open>sm_tail\<close> is the text stored behind the structure.\<close>

record skynet_socket_message =
  sm_type :: int
  sm_id :: int
  sm_ud :: int
  sm_buffer :: "addr option"
  sm_tail :: "u8 list"

text \<open>What a message may point to.\<close>

datatype block = Bytes "u8 list" | Rmsg remote_message | Sock skynet_socket_message

definition sizeof_remote_message :: u64 where "sizeof_remote_message = 48"
definition sizeof_socket_message :: nat where "sizeof_socket_message = 24"

record skynet_module =
  md_name :: string
  md_create :: bool
  md_release :: bool
  md_signal :: bool

record skynet_context =
  c_instance :: addr
  c_mod :: skynet_module
  c_cb_ud :: "addr option"
  c_cb :: "addr option"
  c_queue :: "addr option"
  c_logfile :: "addr option"
  c_cpu_cost :: u64
  c_cpu_start :: u64
  c_result :: string
  c_handle :: u32
  c_session_id :: int
  c_ref :: int
  c_message_count :: int
  c_init :: bool
  c_endless :: bool
  c_profile :: bool

text \<open>
  The node: the components above, the contexts and the messages in the heap, the static variables
  of the server (\<open>G_NODE\<close>, \<open>REMOTE\<close>, \<open>HARBOR\<close>, \<open>M\<close>, \<open>E\<close>, \<open>logger\<close>), the open log files with what
  was written to them, the handle of the running thread and its CPU clock.
\<close>

record node =
  n_mq :: mq_state
  n_handles :: handle_storage
  n_timer :: timer
  n_ctxs :: "addr \<Rightarrow> skynet_context option"
  n_ctx_brk :: addr
  n_mem :: "addr \<Rightarrow> block option"
  n_mem_brk :: addr
  n_total :: int
  n_monitor_exit :: u32
  n_profile :: bool
  n_remote :: "addr option"
  n_harbor :: u32
  n_modules :: "skynet_module list"
  n_modpath :: string
  n_env :: "string \<Rightarrow> string option"
  n_logger :: u32
  n_files :: "addr \<Rightarrow> string option"
  n_current :: u32
  n_cpu_clock :: u64

text \<open>
  The code outside the kernel. \<open>sv_dlsym m f\<close> says whether the library found for module \<open>m\<close>
  has the symbol \<open>f\<close>. The functions return \<open>None\<close> when the service code aborts.
\<close>

record services =
  sv_dlopen :: "string \<Rightarrow> bool"
  sv_dlsym :: "string \<Rightarrow> string \<Rightarrow> bool"
  sv_create :: "string \<Rightarrow> node \<Rightarrow> (addr option \<times> node) option"
  sv_init :: "string \<Rightarrow> addr \<Rightarrow> addr \<Rightarrow> string option \<Rightarrow> node \<Rightarrow> (int \<times> node) option"
  sv_release :: "string \<Rightarrow> addr \<Rightarrow> node \<Rightarrow> node option"
  sv_signal :: "string \<Rightarrow> addr \<Rightarrow> int \<Rightarrow> node \<Rightarrow> node option"
  sv_cb :: "addr \<Rightarrow> addr \<Rightarrow> addr option \<Rightarrow> int \<Rightarrow> int \<Rightarrow> u32 \<Rightarrow> addr option \<Rightarrow> u64
    \<Rightarrow> node \<Rightarrow> (int \<times> node) option"
  sv_fopen :: "string \<Rightarrow> addr option"
  sv_ctime :: "int \<Rightarrow> string"

abbreviation ctx_upd :: "addr \<Rightarrow> skynet_context \<Rightarrow> node \<Rightarrow> node" where
  "ctx_upd c x n \<equiv> n\<lparr>n_ctxs := (n_ctxs n)(c := Some x)\<rparr>"

definition ctx_handle :: "node \<Rightarrow> addr \<Rightarrow> u32" where
  "ctx_handle n c = (case n_ctxs n c of None \<Rightarrow> 0 | Some x \<Rightarrow> c_handle x)"

text \<open>Running an operation on the queues.\<close>

definition on_mq :: "(mq_state \<Rightarrow> mq_state option) \<Rightarrow> node \<Rightarrow> node option" where
  "on_mq f n = map_option (\<lambda>m. n\<lparr>n_mq := m\<rparr>) (f (n_mq n))"

section \<open>The heap of messages\<close>

definition mem_alloc :: "block \<Rightarrow> node \<Rightarrow> addr \<times> node" where
  "mem_alloc b n = (n_mem_brk n,
     n\<lparr>n_mem := (n_mem n)(n_mem_brk n := Some b), n_mem_brk := Suc (n_mem_brk n)\<rparr>)"

definition skynet_free :: "addr option \<Rightarrow> node \<Rightarrow> node option" where
  "skynet_free p n =
     (case p of
        None \<Rightarrow> Some n
      | Some a \<Rightarrow> do { _ \<leftarrow> n_mem n a; Some (n\<lparr>n_mem := (n_mem n)(a := None)\<rparr>) })"

text \<open>The bytes of a block from which \<open>sz\<close> are read.\<close>

definition read_bytes :: "addr option \<Rightarrow> nat \<Rightarrow> node \<Rightarrow> u8 list option" where
  "read_bytes p sz n =
     (if sz = 0 then Some []
      else do {
        a \<leftarrow> p;
        b \<leftarrow> n_mem n a;
        (case b of
           Bytes bs \<Rightarrow> (if sz \<le> length bs then Some (take sz bs) else None)
         | _ \<Rightarrow> None)
      })"

definition pack_sz :: "u64 \<Rightarrow> int \<Rightarrow> u64" where
  "pack_sz sz type = sz OR push_bit MESSAGE_TYPE_SHIFT (word_of_int type)"

section \<open>Contexts\<close>

definition context_inc :: "node \<Rightarrow> node" where
  "context_inc n = n\<lparr>n_total := n_total n + 1\<rparr>"

definition context_dec :: "node \<Rightarrow> node" where
  "context_dec n = n\<lparr>n_total := n_total n - 1\<rparr>"

text \<open>
  The increment of the largest \<open>int\<close> is taken to wrap, as the code means it to: the session that is not
  positive is then replaced by 1.
\<close>

definition skynet_context_newsession :: "skynet_context \<Rightarrow> int \<times> skynet_context" where
  "skynet_context_newsession x =
     (let session = to_int32 (c_session_id x + 1) in
      if session \<le> 0 then (1, x\<lparr>c_session_id := 1\<rparr>) else (session, x\<lparr>c_session_id := session\<rparr>))"

definition skynet_context_grab :: "addr \<Rightarrow> node \<Rightarrow> node option" where
  "skynet_context_grab c n = do {
     x \<leftarrow> n_ctxs n c;
     Some (ctx_upd c (x\<lparr>c_ref := c_ref x + 1\<rparr>) n)
   }"

definition skynet_context_reserve :: "addr \<Rightarrow> node \<Rightarrow> node option" where
  "skynet_context_reserve c n = map_option context_dec (skynet_context_grab c n)"

definition skynet_module_instance_release :: "services \<Rightarrow> skynet_module \<Rightarrow> addr \<Rightarrow> node \<Rightarrow> node option" where
  "skynet_module_instance_release W m inst n =
     (if md_release m then sv_release W (md_name m) inst n else Some n)"

definition delete_context :: "services \<Rightarrow> addr \<Rightarrow> node \<Rightarrow> node option" where
  "delete_context W c n = do {
     x \<leftarrow> n_ctxs n c;
     let n1 = (case c_logfile x of None \<Rightarrow> n | Some f \<Rightarrow> n\<lparr>n_files := (n_files n)(f := None)\<rparr>);
     n2 \<leftarrow> skynet_module_instance_release W (c_mod x) (c_instance x) n1;
     q \<leftarrow> c_queue x;
     n3 \<leftarrow> on_mq (skynet_mq_mark_release q) n2;
     Some (context_dec (n3\<lparr>n_ctxs := (n_ctxs n3)(c := None)\<rparr>))
   }"

text \<open>The first result is the returned pointer, \<open>NULL\<close> when the context was deleted.\<close>

definition skynet_context_release :: "services \<Rightarrow> addr \<Rightarrow> node \<Rightarrow> (addr option \<times> node) option" where
  "skynet_context_release W c n = do {
     x \<leftarrow> n_ctxs n c;
     let n1 = ctx_upd c (x\<lparr>c_ref := c_ref x - 1\<rparr>) n;
     if c_ref x = 1 then do { n2 \<leftarrow> delete_context W c n1; Some (None, n2) }
     else Some (Some c, n1)
   }"

text \<open>\<open>skynet_handle_grab\<close> with the reference it takes.\<close>

definition handle_grab :: "u32 \<Rightarrow> node \<Rightarrow> (addr option \<times> node) option" where
  "handle_grab handle n =
     (case skynet_handle_grab (ctx_handle n) handle (n_handles n) of
        None \<Rightarrow> Some (None, n)
      | Some c \<Rightarrow> do { n1 \<leftarrow> skynet_context_grab c n; Some (Some c, n1) })"

definition findname :: "string \<Rightarrow> node \<Rightarrow> u32 option" where
  "findname name n = skynet_handle_findname name (n_handles n)"

definition skynet_context_push ::
  "services \<Rightarrow> u32 \<Rightarrow> skynet_message \<Rightarrow> node \<Rightarrow> (int \<times> node) option" where
  "skynet_context_push W handle message n = do {
     (ctx, n1) \<leftarrow> handle_grab handle n;
     (case ctx of
        None \<Rightarrow> Some (-1, n1)
      | Some c \<Rightarrow> do {
          x \<leftarrow> n_ctxs n1 c;
          q \<leftarrow> c_queue x;
          n2 \<leftarrow> on_mq (skynet_mq_push q message) n1;
          (_, n3) \<leftarrow> skynet_context_release W c n2;
          Some (0, n3)
        })
   }"

definition skynet_context_endless :: "services \<Rightarrow> u32 \<Rightarrow> node \<Rightarrow> node option" where
  "skynet_context_endless W handle n = do {
     (ctx, n1) \<leftarrow> handle_grab handle n;
     (case ctx of
        None \<Rightarrow> Some n1
      | Some c \<Rightarrow> do {
          x \<leftarrow> n_ctxs n1 c;
          (_, n2) \<leftarrow> skynet_context_release W c (ctx_upd c (x\<lparr>c_endless := True\<rparr>) n1);
          Some n2
        })
   }"

definition skynet_context_send ::
  "addr \<Rightarrow> addr option \<Rightarrow> u64 \<Rightarrow> u32 \<Rightarrow> int \<Rightarrow> int \<Rightarrow> node \<Rightarrow> node option" where
  "skynet_context_send ctx msg sz source type session n = do {
     x \<leftarrow> n_ctxs n ctx;
     q \<leftarrow> c_queue x;
     on_mq (skynet_mq_push q \<lparr>m_source = source, m_session = session, m_data = msg,
        m_sz = pack_sz sz type\<rparr>) n
   }"

definition skynet_callback :: "addr \<Rightarrow> addr option \<Rightarrow> addr option \<Rightarrow> node \<Rightarrow> node option" where
  "skynet_callback c ud cb n = do {
     x \<leftarrow> n_ctxs n c;
     Some (ctx_upd c (x\<lparr>c_cb := cb, c_cb_ud := ud\<rparr>) n)
   }"

section \<open>Errors\<close>

text \<open>
  \<open>skynet_error\<close> with the formatted text. The buffer doubles until the text fits; past
  \<open>2 ^ 30\<close> characters its size would overflow. The result of the push is ignored.
\<close>

definition skynet_error :: "services \<Rightarrow> addr option \<Rightarrow> string \<Rightarrow> node \<Rightarrow> node option" where
  "skynet_error W context msg n = do {
     logger \<leftarrow> (if n_logger n = 0 then findname ''logger'' n else Some (n_logger n));
     let n = n\<lparr>n_logger := logger\<rparr>;
     if logger = 0 then Some n
     else do {
       c_assert (length msg < 2 ^ 30);
       let (data, n1) = mem_alloc (Bytes (map of_char msg @ [0])) n;
       source \<leftarrow> (case context of None \<Rightarrow> Some 0 | Some c \<Rightarrow> map_option c_handle (n_ctxs n1 c));
       (_, n2) \<leftarrow> skynet_context_push W logger
         \<lparr>m_source = source, m_session = 0, m_data = Some data,
          m_sz = pack_sz (of_nat (length msg)) PTYPE_TEXT\<rparr> n1;
       Some n2
     }
   }"

section \<open>Harbor\<close>

definition invalid_type :: "int \<Rightarrow> bool" where
  "invalid_type type \<longleftrightarrow> type \<noteq> PTYPE_SYSTEM \<and> type \<noteq> PTYPE_HARBOR"

definition skynet_harbor_send :: "addr \<Rightarrow> u32 \<Rightarrow> int \<Rightarrow> node \<Rightarrow> node option" where
  "skynet_harbor_send rmsg source session n = do {
     b \<leftarrow> n_mem n rmsg;
     (case b of
        Rmsg r \<Rightarrow> do {
          c_assert (invalid_type (rm_type r));
          remote \<leftarrow> n_remote n;
          skynet_context_send remote (Some rmsg) sizeof_remote_message source PTYPE_SYSTEM session n
        }
      | _ \<Rightarrow> None)
   }"

definition skynet_harbor_message_isremote :: "u32 \<Rightarrow> node \<Rightarrow> bool option" where
  "skynet_harbor_message_isremote handle n = do {
     c_assert (n_harbor n \<noteq> - 1);
     let h = handle AND NOT HANDLE_MASK;
     Some (h \<noteq> n_harbor n \<and> h \<noteq> 0)
   }"

definition skynet_harbor_init :: "int \<Rightarrow> node \<Rightarrow> node" where
  "skynet_harbor_init harbor n = n\<lparr>n_harbor := push_bit HANDLE_REMOTE_SHIFT (word_of_int harbor)\<rparr>"

definition skynet_harbor_start :: "addr \<Rightarrow> node \<Rightarrow> node option" where
  "skynet_harbor_start ctx n = map_option (\<lambda>n. n\<lparr>n_remote := Some ctx\<rparr>) (skynet_context_reserve ctx n)"

definition skynet_harbor_exit :: "services \<Rightarrow> node \<Rightarrow> node option" where
  "skynet_harbor_exit W n =
     (case n_remote n of
        None \<Rightarrow> Some n
      | Some ctx \<Rightarrow> map_option snd (skynet_context_release W ctx (n\<lparr>n_remote := None\<rparr>)))"

definition skynet_isremote :: "u32 \<Rightarrow> node \<Rightarrow> (bool \<times> int) option" where
  "skynet_isremote handle n = do {
     r \<leftarrow> skynet_harbor_message_isremote handle n;
     Some (r, int (unat (drop_bit HANDLE_REMOTE_SHIFT handle)))
   }"

section \<open>Environment\<close>

definition skynet_getenv :: "string \<Rightarrow> node \<Rightarrow> string option" where
  "skynet_getenv key n = n_env n key"

definition skynet_setenv :: "string \<Rightarrow> string \<Rightarrow> node \<Rightarrow> node option" where
  "skynet_setenv key value n = do {
     c_assert (n_env n key = None);
     Some (n\<lparr>n_env := (n_env n)(key \<mapsto> value)\<rparr>)
   }"

section \<open>Modules\<close>

lemma skip_entry:
  assumes "dropWhile (\<lambda>c. c = d) path \<noteq> []"
  shows "length (dropWhile (\<lambda>c. c \<noteq> d) (dropWhile (\<lambda>c. c = d) path)) < length path"
proof -
  let ?p = "dropWhile (\<lambda>c. c = d) path"
  have "hd ?p \<noteq> d" using assms by (rule hd_dropWhile)
  with assms have "length (dropWhile (\<lambda>c. c \<noteq> d) ?p) < length ?p"
    by (cases ?p) (auto simp: less_Suc_eq_le length_dropWhile_le)
  then show ?thesis using length_dropWhile_le [of "\<lambda>c. c = d" path] by linarith
qed

text \<open>
  The search loop of \<open>_try_open\<close> over the entries of the path: \<open>None\<close> where the program exits
  because an entry has no \<open>?\<close>, \<open>Some False\<close> where no entry opens. The first \<open>?\<close> of an entry is
  replaced by the name.
\<close>

function try_open :: "(string \<Rightarrow> bool) \<Rightarrow> string \<Rightarrow> string \<Rightarrow> bool option" where
  "try_open dlopen name path =
     (let p = dropWhile (\<lambda>c. c = CHR '';'') path in
      if p = [] then Some False
      else
        (let entry = takeWhile (\<lambda>c. c \<noteq> CHR '';'') p;
             pre = takeWhile (\<lambda>c. c \<noteq> CHR ''?'') entry;
             post = dropWhile (\<lambda>c. c \<noteq> CHR ''?'') entry in
         if post = [] then None
         else if dlopen (pre @ name @ tl post) then Some True
         else try_open dlopen name (dropWhile (\<lambda>c. c \<noteq> CHR '';'') p)))"
  by pat_completeness auto
termination
  by (relation "measure (\<lambda>(d, name, path). length path)", simp)
    (simp add: skip_entry del: dropWhile_eq_Nil_conv)

declare try_open.simps [simp del]

fun query_module :: "skynet_module list \<Rightarrow> string \<Rightarrow> skynet_module option" where
  "query_module [] name = None"
| "query_module (m # ms) name = (if strcmp (md_name m) name = 0 then Some m else query_module ms name)"

text \<open>The symbol looked up for an api name: what follows the last dot.\<close>

definition get_api :: "services \<Rightarrow> string \<Rightarrow> string \<Rightarrow> bool" where
  "get_api W name api_name =
     sv_dlsym W name (rev (takeWhile (\<lambda>c. c \<noteq> CHR ''.'') (rev (name @ api_name))))"

text \<open>\<open>None\<close> where \<open>open_sym\<close> returns a non-zero value: the module has no \<open>init\<close>.\<close>

definition open_sym :: "services \<Rightarrow> string \<Rightarrow> skynet_module option" where
  "open_sym W name =
     (if get_api W name ''_init'' then
        Some \<lparr>md_name = name, md_create = get_api W name ''_create'',
              md_release = get_api W name ''_release'', md_signal = get_api W name ''_signal''\<rparr>
      else None)"

definition skynet_module_query :: "services \<Rightarrow> string \<Rightarrow> node \<Rightarrow> (skynet_module option \<times> node) option" where
  "skynet_module_query W name n =
     (case query_module (n_modules n) name of
        Some m \<Rightarrow> Some (Some m, n)
      | None \<Rightarrow>
          (if length (n_modules n) < MAX_MODULE_TYPE then do {
             dl \<leftarrow> try_open (sv_dlopen W) name (n_modpath n);
             (if dl then
                (case open_sym W name of
                   Some m \<Rightarrow> Some (Some m, n\<lparr>n_modules := n_modules n @ [m]\<rparr>)
                 | None \<Rightarrow> Some (None, n))
              else Some (None, n))
           }
           else Some (None, n)))"

text \<open>A module without a \<open>create\<close> function has the instance \<open>~0\<close>.\<close>

definition skynet_module_instance_create ::
  "services \<Rightarrow> skynet_module \<Rightarrow> node \<Rightarrow> (addr option \<times> node) option" where
  "skynet_module_instance_create W m n =
     (if md_create m then sv_create W (md_name m) n else Some (Some (2 ^ 64 - 1), n))"

definition skynet_module_instance_init ::
  "services \<Rightarrow> skynet_module \<Rightarrow> addr \<Rightarrow> addr \<Rightarrow> string option \<Rightarrow> node \<Rightarrow> (int \<times> node) option" where
  "skynet_module_instance_init W m inst ctx parm n = sv_init W (md_name m) inst ctx parm n"

definition skynet_module_instance_signal ::
  "services \<Rightarrow> skynet_module \<Rightarrow> addr \<Rightarrow> int \<Rightarrow> node \<Rightarrow> node option" where
  "skynet_module_instance_signal W m inst signal n =
     (if md_signal m then sv_signal W (md_name m) inst signal n else Some n)"

definition skynet_module_init :: "string \<Rightarrow> node \<Rightarrow> node" where
  "skynet_module_init path n = n\<lparr>n_modules := [], n_modpath := path\<rparr>"

section \<open>Message logs\<close>

definition fwrite :: "addr \<Rightarrow> string \<Rightarrow> node \<Rightarrow> node option" where
  "fwrite f text n = do {
     old \<leftarrow> n_files n f;
     Some (n\<lparr>n_files := (n_files n)(f \<mapsto> old @ text)\<rparr>)
   }"

definition fclose :: "addr \<Rightarrow> node \<Rightarrow> node option" where
  "fclose f n = do { _ \<leftarrow> n_files n f; Some (n\<lparr>n_files := (n_files n)(f := None)\<rparr>) }"

definition skynet_log_open :: "services \<Rightarrow> addr \<Rightarrow> u32 \<Rightarrow> node \<Rightarrow> (addr option \<times> node) option" where
  "skynet_log_open W ctx handle n =
     (case skynet_getenv ''logpath'' n of
        None \<Rightarrow> Some (None, n)
      | Some logpath \<Rightarrow>
          (let tmp = logpath @ ''/'' @ fmt_08x handle @ ''.log'' in
           case sv_fopen W tmp of
             Some f \<Rightarrow> do {
               let n1 = n\<lparr>n_files := (n_files n)(f \<mapsto> [])\<rparr>;
               let currenttime = skynet_now (n_timer n1);
               let ti = int (unat (skynet_starttime (n_timer n1))) + int (unat (currenttime div 100));
               n2 \<leftarrow> skynet_error W (Some ctx) (''Open log file '' @ tmp) n1;
               n3 \<leftarrow> fwrite f (''open time: '' @ fmt_u (ucast currenttime) @ '' '' @ sv_ctime W ti) n2;
               Some (Some f, n3)
             }
           | None \<Rightarrow> do {
               n1 \<leftarrow> skynet_error W (Some ctx) (''Open log file '' @ tmp @ '' fail'') n;
               Some (None, n1)
             }))"

definition skynet_log_close :: "services \<Rightarrow> addr \<Rightarrow> addr \<Rightarrow> u32 \<Rightarrow> node \<Rightarrow> node option" where
  "skynet_log_close W ctx f handle n = do {
     n1 \<leftarrow> skynet_error W (Some ctx) (''Close log file :'' @ fmt_08x handle) n;
     n2 \<leftarrow> fwrite f (''close time: '' @ fmt_u (ucast (skynet_now (n_timer n1))) @ [CHR 0x0A]) n1;
     fclose f n2
   }"

definition hex_byte :: "u8 \<Rightarrow> string" where
  "hex_byte b = pad0 2 (print_nat 16 (unat b))"

definition log_blob :: "u8 list \<Rightarrow> string" where
  "log_blob bs = concat (map hex_byte bs)"

text \<open>
  A socket event without a buffer is printed with \<open>%*s\<close>, where the number is a width and not a
  precision: the text is read up to its terminating NUL, wherever that is.
\<close>

definition log_socket :: "addr \<Rightarrow> addr option \<Rightarrow> nat \<Rightarrow> node \<Rightarrow> node option" where
  "log_socket f p sz n = do {
     a \<leftarrow> p;
     b \<leftarrow> n_mem n a;
     (case b of
        Sock message \<Rightarrow> do {
          n1 \<leftarrow> fwrite f (''[socket] '' @ fmt_d (sm_type message) @ '' '' @ fmt_d (sm_id message) @ '' '' @
             fmt_d (sm_ud message) @ '' '') n;
          text \<leftarrow> (case sm_buffer message of
             None \<Rightarrow> do {
               c_assert (0 \<in> set (sm_tail message));
               Some (''['' @ map (\<lambda>w. char_of (unat w)) (takeWhile (\<lambda>w. w \<noteq> 0) (sm_tail message)) @ '']'')
             }
           | Some buf \<Rightarrow> map_option log_blob (read_bytes (Some buf) (nat (sm_ud message)) n1));
          fwrite f (text @ [CHR 0x0A]) n1
        }
      | _ \<Rightarrow> None)
   }"

definition skynet_log_output ::
  "addr \<Rightarrow> u32 \<Rightarrow> int \<Rightarrow> int \<Rightarrow> addr option \<Rightarrow> u64 \<Rightarrow> node \<Rightarrow> node option" where
  "skynet_log_output f source type session buffer sz n =
     (if type = PTYPE_SOCKET then log_socket f buffer (unat sz) n
      else do {
        bs \<leftarrow> read_bytes buffer (unat sz) n;
        fwrite f ('':'' @ fmt_08x source @ '' '' @ fmt_d type @ '' '' @ fmt_d session @ '' '' @
          fmt_u (ucast (skynet_now (n_timer n))) @ '' '' @ log_blob bs @ [CHR 0x0A]) n
      })"

section \<open>The monitor of a worker\<close>

record skynet_monitor =
  sm_version :: int
  sm_check_version :: int
  sm_source :: u32
  sm_destination :: u32

definition skynet_monitor_new :: skynet_monitor where
  "skynet_monitor_new = \<lparr>sm_version = 0, sm_check_version = 0, sm_source = 0, sm_destination = 0\<rparr>"

definition skynet_monitor_trigger :: "u32 \<Rightarrow> u32 \<Rightarrow> skynet_monitor \<Rightarrow> skynet_monitor" where
  "skynet_monitor_trigger source destination sm =
     sm\<lparr>sm_source := source, sm_destination := destination, sm_version := to_int32 (sm_version sm + 1)\<rparr>"

definition skynet_monitor_check ::
  "services \<Rightarrow> skynet_monitor \<Rightarrow> node \<Rightarrow> (skynet_monitor \<times> node) option" where
  "skynet_monitor_check W sm n =
     (if sm_version sm = sm_check_version sm then
        (if sm_destination sm \<noteq> 0 then do {
           n1 \<leftarrow> skynet_context_endless W (sm_destination sm) n;
           n2 \<leftarrow> skynet_error W None
             (''A message from [ :'' @ fmt_08x (sm_source sm) @ '' ] to [ :'' @
              fmt_08x (sm_destination sm) @ '' ] maybe in an endless loop (version = '' @
              fmt_d (sm_version sm) @ '')'') n1;
           Some (sm, n2)
         }
         else Some (sm, n))
      else Some (sm\<lparr>sm_check_version := sm_version sm\<rparr>, n))"

section \<open>Timers and socket events as messages\<close>

definition timer_message :: "int \<Rightarrow> skynet_message" where
  "timer_message session = \<lparr>m_source = 0, m_session = session, m_data = None,
     m_sz = push_bit MESSAGE_TYPE_SHIFT (word_of_int PTYPE_RESPONSE)\<rparr>"

definition skynet_timeout :: "services \<Rightarrow> u32 \<Rightarrow> int \<Rightarrow> int \<Rightarrow> node \<Rightarrow> (int \<times> node) option" where
  "skynet_timeout W handle time session n =
     (if time \<le> 0 then do {
        (r, n1) \<leftarrow> skynet_context_push W handle (timer_message session) n;
        Some (if r \<noteq> 0 then -1 else session, n1)
      }
      else Some (session,
        n\<lparr>n_timer := timer_add \<lparr>ev_handle = handle, ev_session = session\<rparr> time (n_timer n)\<rparr>))"

primrec dispatch_list :: "services \<Rightarrow> timer_node list \<Rightarrow> node \<Rightarrow> node option" where
  "dispatch_list W [] n = Some n"
| "dispatch_list W (t # ts) n = do {
     (_, n1) \<leftarrow> skynet_context_push W (ev_handle (n_event t)) (timer_message (ev_session (n_event t))) n;
     dispatch_list W ts n1
   }"

text \<open>
  \<open>skynet_updatetime\<close> on the node: the wheel advances and the nodes it dispatches become
  messages. The pushes do not hold the lock of the wheel and do not touch it.
\<close>

definition updatetime :: "services \<Rightarrow> u64 \<Rightarrow> node \<Rightarrow> node option" where
  "updatetime W cp n = do {
     (ds, back, T) \<leftarrow> skynet_updatetime cp (n_timer n);
     n1 \<leftarrow> (if back then skynet_error W None (''time diff error: change from '' @ fmt_d (sint cp) @
              '' to '' @ fmt_d (sint (t_current_point (n_timer n)))) n
            else Some n);
     dispatch_list W ds (n1\<lparr>n_timer := T\<rparr>)
   }"

text \<open>
  \<open>forward_message\<close>: \<open>data\<close> is the C string of the event when there is padding, and the buffer
  received otherwise.
\<close>

definition forward_message ::
  "services \<Rightarrow> int \<Rightarrow> string option + addr option \<Rightarrow> int \<Rightarrow> int \<Rightarrow> u32 \<Rightarrow> node \<Rightarrow> node option" where
  "forward_message W type data sid ud opaque n = do {
     let tail = (case data of
        Inl (Some text) \<Rightarrow> map of_char (take 128 text)
      | _ \<Rightarrow> []);
     let buffer = (case data of Inl _ \<Rightarrow> None | Inr buf \<Rightarrow> buf);
     let (sm, n1) = mem_alloc (Sock \<lparr>sm_type = type, sm_id = sid, sm_ud = ud, sm_buffer = buffer,
                                     sm_tail = tail\<rparr>) n;
     (r, n2) \<leftarrow> skynet_context_push W opaque
       \<lparr>m_source = 0, m_session = 0, m_data = Some sm,
        m_sz = pack_sz (of_nat (sizeof_socket_message + length tail)) PTYPE_SOCKET\<rparr> n1;
     (if r \<noteq> 0 then do { n3 \<leftarrow> skynet_free buffer n2; skynet_free (Some sm) n3 } else Some n2)
   }"

end
