(* ===== verification/Skynet_Server.thy ===== *)
theory Skynet_Server
  imports Skynet_Node
begin

text \<open>
  The service layer of \<^verbatim>\<open>skynet-src/skynet_server.c\<close>: sending, creating and retiring services, and
  the dispatch of their messages. One call is one sequence of state changes of the node; the
  interleaving of several workers is the subject of the scheduling theory.
\<close>

unbundle bit_operations_syntax

section \<open>Sending\<close>

text \<open>The session of \<open>_filter_args\<close>: allocated when the type asks for it.\<close>

definition alloc_session :: "addr option \<Rightarrow> int \<Rightarrow> int \<Rightarrow> node \<Rightarrow> (int \<times> node) option" where
  "alloc_session context type session n =
     (if type AND PTYPE_TAG_ALLOCSESSION \<noteq> 0 then do {
        c_assert (session = 0);
        c \<leftarrow> context;
        x \<leftarrow> n_ctxs n c;
        Some (fst (skynet_context_newsession x), ctx_upd c (snd (skynet_context_newsession x)) n)
      }
      else Some (session, n))"

text \<open>The data of \<open>_filter_args\<close>: a copy with a terminating zero, unless the type forbids it.\<close>

definition copy_data :: "int \<Rightarrow> addr option \<Rightarrow> u64 \<Rightarrow> node \<Rightarrow> (addr option \<times> node) option" where
  "copy_data type data sz n =
     (if type AND PTYPE_TAG_DONTCOPY = 0 \<and> data \<noteq> None then do {
        bs \<leftarrow> read_bytes data (unat sz) n;
        let (msg, n') = mem_alloc (Bytes (bs @ [0])) n;
        Some (Some msg, n')
      }
      else Some (data, n))"

text \<open>\<open>_filter_args\<close>: the new values of \<open>*session\<close>, \<open>*data\<close> and \<open>*sz\<close>.\<close>

definition filter_args ::
  "addr option \<Rightarrow> int \<Rightarrow> int \<Rightarrow> addr option \<Rightarrow> u64 \<Rightarrow> node
    \<Rightarrow> (int \<times> addr option \<times> u64 \<times> node) option" where
  "filter_args context type session data sz n = do {
     (session, n1) \<leftarrow> alloc_session context type session n;
     (data, n2) \<leftarrow> copy_data type data sz n1;
     Some (session, data, pack_sz sz (type AND 255), n2)
   }"

text \<open>The remote message built by \<open>skynet_send\<close> and \<open>skynet_sendname\<close>.\<close>

definition make_remote :: "string option \<Rightarrow> u32 \<Rightarrow> addr option \<Rightarrow> u64 \<Rightarrow> remote_message" where
  "make_remote name handle data sz = \<lparr>rm_name = name, rm_handle = handle, rm_message = data,
     rm_sz = sz AND MESSAGE_TYPE_MASK, rm_type = int (unat (drop_bit MESSAGE_TYPE_SHIFT sz))\<rparr>"

definition skynet_send ::
  "services \<Rightarrow> addr option \<Rightarrow> u32 \<Rightarrow> u32 \<Rightarrow> int \<Rightarrow> int \<Rightarrow> addr option \<Rightarrow> u64 \<Rightarrow> node
    \<Rightarrow> (int \<times> node) option" where
  "skynet_send W context source destination type session data sz n =
     (if sz AND MESSAGE_TYPE_MASK \<noteq> sz then do {
        n1 \<leftarrow> skynet_error W context (''The message to '' @ fmt_x destination @ '' is too large'') n;
        n2 \<leftarrow> (if type AND PTYPE_TAG_DONTCOPY \<noteq> 0 then skynet_free data n1 else Some n1);
        Some (-2, n2)
      }
      else do {
        (session, data, sz, n) \<leftarrow> filter_args context type session data sz n;
        source \<leftarrow> (if source = 0 then do { c \<leftarrow> context; x \<leftarrow> n_ctxs n c; Some (c_handle x) }
                   else Some source);
        (if destination = 0 then
           (if data \<noteq> None then do {
              n1 \<leftarrow> skynet_error W context (''Destination address can''@[CHR 0x27]@''t be 0'') n;
              n2 \<leftarrow> skynet_free data n1;
              Some (-1, n2)
            }
            else Some (session, n))
         else do {
           remote \<leftarrow> skynet_harbor_message_isremote destination n;
           (if remote then do {
              let (rmsg, n1) = mem_alloc (Rmsg (make_remote None destination data sz)) n;
              n2 \<leftarrow> skynet_harbor_send rmsg source session n1;
              Some (session, n2)
            }
            else do {
              (r, n1) \<leftarrow> skynet_context_push W destination
                \<lparr>m_source = source, m_session = session, m_data = data, m_sz = sz\<rparr> n;
              (if r \<noteq> 0 then do { n2 \<leftarrow> skynet_free data n1; Some (-1, n2) }
               else Some (session, n1))
            })
         })
      })"

definition copy_name :: "string \<Rightarrow> string" where
  "copy_name a = take GLOBALNAME_LENGTH a @ replicate (GLOBALNAME_LENGTH - length a) (CHR 0x00)"

definition skynet_sendname ::
  "services \<Rightarrow> addr \<Rightarrow> u32 \<Rightarrow> string \<Rightarrow> int \<Rightarrow> int \<Rightarrow> addr option \<Rightarrow> u64 \<Rightarrow> node
    \<Rightarrow> (int \<times> node) option" where
  "skynet_sendname W context source a type session data sz n = do {
     x \<leftarrow> n_ctxs n context;
     let source = (if source = 0 then c_handle x else source);
     (if take 1 a = '':'' then
        skynet_send W (Some context) source (ucast (strtoul16 (tl a))) type session data sz n
      else if take 1 a = ''.'' then do {
        des \<leftarrow> findname (tl a) n;
        (if des = 0 then do {
           n1 \<leftarrow> (if type AND PTYPE_TAG_DONTCOPY \<noteq> 0 then skynet_free data n else Some n);
           Some (-1, n1)
         }
         else skynet_send W (Some context) source des type session data sz n)
      }
      else if sz AND MESSAGE_TYPE_MASK \<noteq> sz then do {
        n1 \<leftarrow> skynet_error W (Some context) (''The message to '' @ a @ '' is too large'') n;
        n2 \<leftarrow> (if type AND PTYPE_TAG_DONTCOPY \<noteq> 0 then skynet_free data n1 else Some n1);
        Some (-2, n2)
      }
      else do {
        (session, data, sz, n) \<leftarrow> filter_args (Some context) type session data sz n;
        let (rmsg, n1) = mem_alloc (Rmsg (make_remote (Some (copy_name a)) 0 data sz)) n;
        n2 \<leftarrow> skynet_harbor_send rmsg source session n1;
        Some (session, n2)
      })
   }"

section \<open>Creating and retiring services\<close>

definition id_to_hex :: "u32 \<Rightarrow> string" where
  "id_to_hex h = CHR '':'' #
     map (\<lambda>i. ''0123456789ABCDEF'' ! unat (drop_bit ((7 - i) * 4) h AND 15)) [0..<8]"

definition drop_message :: "services \<Rightarrow> u32 \<Rightarrow> skynet_message \<Rightarrow> node \<Rightarrow> node option" where
  "drop_message W handle msg n = do {
     n1 \<leftarrow> skynet_free (m_data msg) n;
     c_assert (handle \<noteq> 0);
     (_, n2) \<leftarrow> skynet_send W None handle (m_source msg) PTYPE_ERROR 0 None 0 n1;
     Some n2
   }"

definition mq_release :: "services \<Rightarrow> u32 \<Rightarrow> addr \<Rightarrow> node \<Rightarrow> node option" where
  "mq_release W handle q n =
     skynet_mq_release n_mq (\<lambda>m n. n\<lparr>n_mq := m\<rparr>) (drop_message W handle) q n"

text \<open>\<open>skynet_handle_retire\<close> with the release of the reference of the table.\<close>

definition skynet_handle_retire :: "services \<Rightarrow> u32 \<Rightarrow> node \<Rightarrow> (bool \<times> node) option" where
  "skynet_handle_retire W handle n = do {
     (ctx, hs) \<leftarrow> handle_retire (ctx_handle n) handle (n_handles n);
     let n1 = n\<lparr>n_handles := hs\<rparr>;
     (case ctx of
        None \<Rightarrow> Some (False, n1)
      | Some c \<Rightarrow> do { (_, n2) \<leftarrow> skynet_context_release W c n1; Some (True, n2) })
   }"

text \<open>One pass of \<open>skynet_handle_retireall\<close> from slot \<open>i\<close>, counting the contexts it meets.\<close>

partial_function (option) retire_pass :: "services \<Rightarrow> nat \<Rightarrow> nat \<Rightarrow> node \<Rightarrow> (nat \<times> node) option" where
  "retire_pass W i cnt n =
     (if i < h_slot_size (n_handles n) then
        (case h_slot (n_handles n) ! i of
           None \<Rightarrow> retire_pass W (Suc i) cnt n
         | Some c \<Rightarrow>
             (let handle = ctx_handle n c in
              if handle \<noteq> 0 then do {
                r \<leftarrow> skynet_handle_retire W handle n;
                retire_pass W (Suc i) (Suc cnt) (snd r)
              }
              else retire_pass W (Suc i) (Suc cnt) n))
      else Some (cnt, n))"

partial_function (option) skynet_handle_retireall :: "services \<Rightarrow> node \<Rightarrow> node option" where
  "skynet_handle_retireall W n = do {
     r \<leftarrow> retire_pass W 0 0 n;
     (if fst r = 0 then Some (snd r) else skynet_handle_retireall W (snd r))
   }"

definition new_context :: "skynet_module \<Rightarrow> addr \<Rightarrow> bool \<Rightarrow> skynet_context" where
  "new_context m inst profile = \<lparr>c_instance = inst, c_mod = m, c_cb_ud = None, c_cb = None,
     c_queue = None, c_logfile = None, c_cpu_cost = 0, c_cpu_start = 0, c_result = [],
     c_handle = 0, c_session_id = 0, c_ref = 2, c_message_count = 0, c_init = False,
     c_endless = False, c_profile = profile\<rparr>"

text \<open>The allocation, registration and queue creation of \<open>skynet_context_new\<close>.\<close>

definition context_alloc :: "skynet_module \<Rightarrow> addr \<Rightarrow> node \<Rightarrow> (addr \<times> addr \<times> node) option" where
  "context_alloc m inst n = do {
     let c = n_ctx_brk n;
     let n1 = (ctx_upd c (new_context m inst (n_profile n)) n)\<lparr>n_ctx_brk := Suc c\<rparr>;
     (h, hs) \<leftarrow> skynet_handle_register (ctx_handle n1) c (n_handles n1);
     let (q, mq) = skynet_mq_create h (n_mq n1);
     let x = (new_context m inst (n_profile n))\<lparr>c_handle := h, c_queue := Some q\<rparr>;
     Some (c, q, context_inc ((ctx_upd c x n1)\<lparr>n_handles := hs, n_mq := mq\<rparr>))
   }"

definition skynet_context_new ::
  "services \<Rightarrow> string \<Rightarrow> string option \<Rightarrow> node \<Rightarrow> (addr option \<times> node) option" where
  "skynet_context_new W name param n = do {
     (md, n) \<leftarrow> skynet_module_query W name n;
     (case md of
        None \<Rightarrow> Some (None, n)
      | Some m \<Rightarrow> do {
          (inst, n) \<leftarrow> skynet_module_instance_create W m n;
          (case inst of
             None \<Rightarrow> Some (None, n)
           | Some inst \<Rightarrow> do {
               (c, q, n) \<leftarrow> context_alloc m inst n;
               (r, n) \<leftarrow> skynet_module_instance_init W m inst c param n;
               (if r = 0 then do {
                  (ret, n) \<leftarrow> skynet_context_release W c n;
                  n \<leftarrow> (if ret \<noteq> None then do { x \<leftarrow> n_ctxs n c; Some (ctx_upd c (x\<lparr>c_init := True\<rparr>) n) }
                       else Some n);
                  n \<leftarrow> on_mq (skynet_globalmq_push q) n;
                  n \<leftarrow> (if ret \<noteq> None
                       then skynet_error W ret (''LAUNCH '' @ name @ '' '' @ (case param of None \<Rightarrow> [] | Some p \<Rightarrow> p)) n
                       else Some n);
                  Some (ret, n)
                }
                else do {
                  n \<leftarrow> skynet_error W (Some c) (''FAILED launch '' @ name) n;
                  x \<leftarrow> n_ctxs n c;
                  (_, n) \<leftarrow> skynet_context_release W c n;
                  (_, n) \<leftarrow> skynet_handle_retire W (c_handle x) n;
                  n \<leftarrow> mq_release W (c_handle x) q n;
                  Some (None, n)
                })
             })
        })
   }"

section \<open>Dispatch\<close>

definition dispatch_message :: "services \<Rightarrow> addr \<Rightarrow> skynet_message \<Rightarrow> node \<Rightarrow> node option" where
  "dispatch_message W c msg n = do {
     x \<leftarrow> n_ctxs n c;
     c_assert (c_init x);
     let n1 = n\<lparr>n_current := c_handle x\<rparr>;
     let type = int (unat (drop_bit MESSAGE_TYPE_SHIFT (m_sz msg)));
     let sz = m_sz msg AND MESSAGE_TYPE_MASK;
     n2 \<leftarrow> (case c_logfile x of
              None \<Rightarrow> Some n1
            | Some f \<Rightarrow> skynet_log_output f (m_source msg) type (m_session msg) (m_data msg) sz n1);
     let x1 = x\<lparr>c_message_count := to_int32 (c_message_count x + 1)\<rparr>;
     let x2 = (if c_profile x then x1\<lparr>c_cpu_start := n_cpu_clock n2\<rparr> else x1);
     cb \<leftarrow> c_cb x;
     (reserve_msg, n3) \<leftarrow> sv_cb W cb c (c_cb_ud x) type (m_session msg) (m_source msg) (m_data msg) sz
                            (ctx_upd c x2 n2);
     n4 \<leftarrow> (if c_profile x then do {
              y \<leftarrow> n_ctxs n3 c;
              Some (ctx_upd c (y\<lparr>c_cpu_cost := c_cpu_cost y + (n_cpu_clock n3 - c_cpu_start y)\<rparr>) n3)
            }
            else Some n3);
     (if reserve_msg = 0 then skynet_free (m_data msg) n4 else Some n4)
   }"

partial_function (option) skynet_context_dispatchall :: "services \<Rightarrow> addr \<Rightarrow> addr \<Rightarrow> node \<Rightarrow> node option" where
  "skynet_context_dispatchall W c q n = do {
     r \<leftarrow> skynet_mq_pop q (n_mq n);
     (case fst r of
        None \<Rightarrow> Some (n\<lparr>n_mq := snd r\<rparr>)
      | Some msg \<Rightarrow> do {
          n1 \<leftarrow> dispatch_message W c msg (n\<lparr>n_mq := snd r\<rparr>);
          skynet_context_dispatchall W c q n1
        })
   }"

definition globalmq_pop :: "node \<Rightarrow> (addr option \<times> node) option" where
  "globalmq_pop n = map_option (\<lambda>(q, m). (q, n\<lparr>n_mq := m\<rparr>)) (skynet_globalmq_pop (n_mq n))"

text \<open>
  The work on one popped message: the overload report, the monitor and the callback (a service
  without a callback has its message freed).
\<close>

definition dispatch_one ::
  "services \<Rightarrow> addr \<Rightarrow> addr \<Rightarrow> u32 \<Rightarrow> skynet_message \<Rightarrow> skynet_monitor \<times> node
    \<Rightarrow> (skynet_monitor \<times> node) option" where
  "dispatch_one W q c handle msg s = do {
     let (sm, n) = s;
     mq \<leftarrow> mqs (n_mq n) q;
     let (overload, mq') = skynet_mq_overload mq;
     let n1 = n\<lparr>n_mq := mq_upd q mq' (n_mq n)\<rparr>;
     n2 \<leftarrow> (if overload \<noteq> 0
            then skynet_error W (Some c) (''May overload, message queue length = '' @ fmt_d overload) n1
            else Some n1);
     let sm1 = skynet_monitor_trigger (m_source msg) handle sm;
     x \<leftarrow> n_ctxs n2 c;
     n3 \<leftarrow> (if c_cb x = None then skynet_free (m_data msg) n2 else dispatch_message W c msg n2);
     Some (skynet_monitor_trigger 0 0 sm1, n3)
   }"

text \<open>
  The loop of \<open>skynet_context_message_dispatch\<close>: \<open>Inl\<close> the early return when the queue is found
  empty, \<open>Inr\<close> the end of the loop.
\<close>

partial_function (option) dispatch_loop ::
  "services \<Rightarrow> addr \<Rightarrow> addr \<Rightarrow> u32 \<Rightarrow> int \<Rightarrow> int \<Rightarrow> int \<Rightarrow> skynet_monitor \<times> node
    \<Rightarrow> ((addr option \<times> skynet_monitor \<times> node) + (skynet_monitor \<times> node)) option" where
  "dispatch_loop W q c handle weight i k s =
     (if i < k then do {
        r \<leftarrow> skynet_mq_pop q (n_mq (snd s));
        (case fst r of
           None \<Rightarrow> do {
             e \<leftarrow> skynet_context_release W c ((snd s)\<lparr>n_mq := snd r\<rparr>);
             g \<leftarrow> globalmq_pop (snd e);
             Some (Inl (fst g, fst s, snd g))
           }
         | Some msg \<Rightarrow> do {
             mq \<leftarrow> mqs (snd r) q;
             s' \<leftarrow> dispatch_one W q c handle msg (fst s, (snd s)\<lparr>n_mq := snd r\<rparr>);
             dispatch_loop W q c handle weight (i + 1)
               (if i = 0 \<and> weight \<ge> 0 then skynet_mq_length mq div 2 ^ nat weight else k) s'
           })
      }
      else Some (Inr s))"

definition skynet_context_message_dispatch ::
  "services \<Rightarrow> addr option \<Rightarrow> int \<Rightarrow> skynet_monitor \<Rightarrow> node
    \<Rightarrow> (addr option \<times> skynet_monitor \<times> node) option" where
  "skynet_context_message_dispatch W q weight sm n = do {
     (q, n) \<leftarrow> (if q = None then globalmq_pop n else Some (q, n));
     (case q of
        None \<Rightarrow> Some (None, sm, n)
      | Some q \<Rightarrow> do {
          mq \<leftarrow> mqs (n_mq n) q;
          let handle = q_handle mq;
          (ctx, n) \<leftarrow> handle_grab handle n;
          (case ctx of
             None \<Rightarrow> do {
               n \<leftarrow> mq_release W handle q n;
               (nq, n) \<leftarrow> globalmq_pop n;
               Some (nq, sm, n)
             }
           | Some c \<Rightarrow> do {
               r \<leftarrow> dispatch_loop W q c handle weight 0 1 (sm, n);
               (case r of
                  Inl e \<Rightarrow> Some e
                | Inr (sm, n) \<Rightarrow> do {
                    x \<leftarrow> n_ctxs n c;
                    c_assert (c_queue x = Some q);
                    (nq, n) \<leftarrow> globalmq_pop n;
                    (q, n) \<leftarrow> (case nq of
                        Some nq \<Rightarrow> do { n \<leftarrow> on_mq (skynet_globalmq_push q) n; Some (nq, n) }
                      | None \<Rightarrow> Some (q, n));
                    (_, n) \<leftarrow> skynet_context_release W c n;
                    Some (Some q, sm, n)
                  })
             })
        })
   }"

section \<open>Names and exit\<close>

definition skynet_queryname :: "services \<Rightarrow> addr option \<Rightarrow> string \<Rightarrow> node \<Rightarrow> (u32 \<times> node) option" where
  "skynet_queryname W context name n =
     (if take 1 name = '':'' then Some (ucast (strtoul16 (tl name)), n)
      else if take 1 name = ''.'' then do { h \<leftarrow> findname (tl name) n; Some (h, n) }
      else do {
        n1 \<leftarrow> skynet_error W context (''Don''@[CHR 0x27]@''t support query global name '' @ name) n;
        Some (0, n1)
      })"

definition handle_exit :: "services \<Rightarrow> addr \<Rightarrow> u32 \<Rightarrow> node \<Rightarrow> node option" where
  "handle_exit W context handle n = do {
     x \<leftarrow> n_ctxs n context;
     (handle, n) \<leftarrow> (if handle = 0 then do {
          n1 \<leftarrow> skynet_error W (Some context) ''KILL self'' n;
          Some (c_handle x, n1)
        }
        else do {
          n1 \<leftarrow> skynet_error W (Some context) (''KILL :'' @ fmt_x handle) n;
          Some (handle, n1)
        });
     n \<leftarrow> (if n_monitor_exit n \<noteq> 0 then do {
           (_, n1) \<leftarrow> skynet_send W (Some context) handle (n_monitor_exit n) PTYPE_CLIENT 0 None 0 n;
           Some n1
         }
         else Some n);
     (_, n) \<leftarrow> skynet_handle_retire W handle n;
     Some n
   }"

section \<open>Threads and initialisation\<close>

definition skynet_initthread :: "int \<Rightarrow> node \<Rightarrow> node" where
  "skynet_initthread m n = n\<lparr>n_current := word_of_int (- m)\<rparr>"

definition skynet_globalinit :: "node \<Rightarrow> node" where
  "skynet_globalinit n = skynet_initthread THREAD_MAIN (n\<lparr>n_total := 0, n_monitor_exit := 0\<rparr>)"

definition skynet_profile_enable :: "bool \<Rightarrow> node \<Rightarrow> node" where
  "skynet_profile_enable enable n = n\<lparr>n_profile := enable\<rparr>"

end
