(* ===== verification/Skynet_Mailbox.thy ===== *)
theory Skynet_Mailbox
  imports Skynet_Server Skynet_Tokens
begin

text \<open>
  What the node promises to the services: every live handle has a mailbox. The invariant of the
  node, the mailboxes as an abstraction of handle table, contexts and queues, and the interface
  through which messages are delivered.
\<close>

unbundle bit_operations_syntax

section \<open>The invariant of a node\<close>

text \<open>
  Every context in the table is live; a live context has a reference, and a queue of its own that
  is not marked for release.
\<close>

definition ctxs_ok ::
  "(addr \<Rightarrow> skynet_context option) \<Rightarrow> addr \<Rightarrow> addr option list \<Rightarrow> (addr \<Rightarrow> message_queue option) \<Rightarrow> bool" where
  "ctxs_ok ctxs brk slots qs \<longleftrightarrow>
     (\<forall>c. Some c \<in> set slots \<longrightarrow> ctxs c \<noteq> None) \<and>
     (\<forall>c x. ctxs c = Some x \<longrightarrow> 1 \<le> c_ref x \<and> c < brk \<and>
        (\<exists>q mq. c_queue x = Some q \<and> qs q = Some mq \<and> \<not> q_release mq \<and> q_handle mq = c_handle x)) \<and>
     (\<forall>c d x y. ctxs c = Some x \<longrightarrow> ctxs d = Some y \<longrightarrow> c_queue x = c_queue y \<longrightarrow> c = d)"

abbreviation ctxs_inv :: "node \<Rightarrow> bool" where
  "ctxs_inv n \<equiv> ctxs_ok (n_ctxs n) (n_ctx_brk n) (h_slot (n_handles n)) (mqs (n_mq n))"

text \<open>The node is consistent, \<open>A\<close> being the queues held by threads.\<close>

definition node_inv :: "addr set \<Rightarrow> node \<Rightarrow> bool" where
  "node_inv A n \<longleftrightarrow> handle_inv (ctx_handle n) (n_handles n) \<and> ctxs_inv n \<and> queues_inv A (n_mq n) \<and>
     (\<forall>a. n_mem n a \<noteq> None \<longrightarrow> a < n_mem_brk n)"

text \<open>The messages waiting for a handle; \<open>None\<close> when no service has it.\<close>

definition mailbox :: "node \<Rightarrow> u32 \<Rightarrow> skynet_message list option" where
  "mailbox n h = do {
     c \<leftarrow> skynet_handle_grab (ctx_handle n) h (n_handles n);
     x \<leftarrow> n_ctxs n c;
     q \<leftarrow> c_queue x;
     mq \<leftarrow> mqs (n_mq n) q;
     Some (mq_abs mq)
   }"

lemma ctx_handle_upd [simp]:
  "n_ctxs n c = Some x \<Longrightarrow> c_handle y = c_handle x \<Longrightarrow> ctx_handle (ctx_upd c y n) = ctx_handle n"
  by (auto simp: ctx_handle_def fun_eq_iff)

lemma ctx_handle_cong: "n_ctxs n' = n_ctxs n \<Longrightarrow> ctx_handle n' = ctx_handle n"
  by (simp add: ctx_handle_def fun_eq_iff)

lemma ctx_handle_simps [simp]:
  "ctx_handle (n\<lparr>n_mq := m\<rparr>) = ctx_handle n"
  "ctx_handle (n\<lparr>n_mem := me\<rparr>) = ctx_handle n"
  "ctx_handle (n\<lparr>n_mem_brk := b\<rparr>) = ctx_handle n"
  "ctx_handle (n\<lparr>n_logger := l\<rparr>) = ctx_handle n"
  "ctx_handle (n\<lparr>n_timer := T\<rparr>) = ctx_handle n"
  "ctx_handle (n\<lparr>n_handles := hs\<rparr>) = ctx_handle n"
  by (simp_all add: ctx_handle_def fun_eq_iff)

lemma mailbox_simps [simp]:
  "mailbox (n\<lparr>n_mem := me\<rparr>) = mailbox n"
  "mailbox (n\<lparr>n_mem_brk := b\<rparr>) = mailbox n"
  "mailbox (n\<lparr>n_logger := l\<rparr>) = mailbox n"
  "mailbox (n\<lparr>n_timer := T\<rparr>) = mailbox n"
  by (simp_all add: mailbox_def fun_eq_iff)

lemma ctxs_okD:
  assumes "ctxs_ok ctxs brk slots qs" "ctxs c = Some x"
  obtains q mq where "c_queue x = Some q" "qs q = Some mq" "\<not> q_release mq" "q_handle mq = c_handle x"
    "1 \<le> c_ref x" "c < brk"
  using assms unfolding ctxs_ok_def by blast

text \<open>The queues may change as long as those of the contexts stay unmarked.\<close>

lemma ctxs_ok_queues:
  assumes ok: "ctxs_ok ctxs brk slots qs"
    and "\<And>a q. qs a = Some q \<Longrightarrow> \<not> q_release q \<Longrightarrow>
       \<exists>q'. qs' a = Some q' \<and> \<not> q_release q' \<and> q_handle q' = q_handle q"
  shows "ctxs_ok ctxs brk slots qs'"
  using assms unfolding ctxs_ok_def by metis

lemma node_grab:
  assumes "node_inv A n" "skynet_handle_grab (ctx_handle n) h (n_handles n) = Some c"
  obtains x q mq where "n_ctxs n c = Some x" "c_queue x = Some q" "mqs (n_mq n) q = Some mq"
    "mq_inv mq" "1 \<le> c_ref x" "c_handle x = h" "\<not> q_release mq"
proof -
  from assms(1) have s: "slots_inv (ctx_handle n) (n_handles n)" and c: "ctxs_inv n"
    and q: "queues_inv A (n_mq n)" by (auto simp: node_inv_def handle_inv_def)
  from grab_slot [OF s] assms(2) have "ctx_handle n c = h" "Some c \<in> set (h_slot (n_handles n))" by auto
  moreover from this(2) c obtain x where x: "n_ctxs n c = Some x" by (auto simp: ctxs_ok_def)
  ultimately have h: "c_handle x = h" by (simp add: ctx_handle_def)
  obtain q mq where "c_queue x = Some q" "mqs (n_mq n) q = Some mq" "\<not> q_release mq" "1 \<le> c_ref x"
    by (rule ctxs_okD [OF c x])
  with that x q h show ?thesis by (auto simp: queues_inv_def queues_rep_def)
qed

lemma mailbox_live:
  "node_inv A n \<Longrightarrow> (mailbox n h = None) = (skynet_handle_grab (ctx_handle n) h (n_handles n) = None)"
  by (cases "skynet_handle_grab (ctx_handle n) h (n_handles n)")
    (auto simp: mailbox_def elim: node_grab)

section \<open>Pushing to a mailbox\<close>

lemma node_inv_mq:
  assumes "node_inv A n" "queues_inv B m"
    "\<And>a q. mqs (n_mq n) a = Some q \<Longrightarrow> \<not> q_release q \<Longrightarrow>
       \<exists>q'. mqs m a = Some q' \<and> \<not> q_release q' \<and> q_handle q' = q_handle q"
  shows "node_inv B (n\<lparr>n_mq := m\<rparr>)"
proof -
  from assms(1) have "ctxs_inv n" by (simp add: node_inv_def)
  from ctxs_ok_queues [OF this assms(3)] assms(1,2) show ?thesis unfolding node_inv_def by simp
qed

lemma node_ctxs_id: "n_ctxs n c = Some x \<Longrightarrow> n\<lparr>n_mq := m, n_ctxs := (n_ctxs n)(c := Some x)\<rparr> = n\<lparr>n_mq := m\<rparr>"
  by (simp only: fun_upd_idem) simp

lemma grab_release:
  assumes "n_ctxs n c = Some x" "1 \<le> c_ref x"
  shows "skynet_context_grab c n = Some (ctx_upd c (x\<lparr>c_ref := c_ref x + 1\<rparr>) n)"
    "skynet_context_release W c ((ctx_upd c (x\<lparr>c_ref := c_ref x + 1\<rparr>) n)\<lparr>n_mq := m\<rparr>) =
       Some (Some c, n\<lparr>n_mq := m\<rparr>)"
proof -
  show "skynet_context_grab c n = Some (ctx_upd c (x\<lparr>c_ref := c_ref x + 1\<rparr>) n)"
    using assms by (simp add: skynet_context_grab_def)
  show "skynet_context_release W c ((ctx_upd c (x\<lparr>c_ref := c_ref x + 1\<rparr>) n)\<lparr>n_mq := m\<rparr>) =
       Some (Some c, n\<lparr>n_mq := m\<rparr>)"
    using assms node_ctxs_id [OF assms(1)] by (simp add: skynet_context_release_def Let_def)
qed

lemma eq_next_abs: "eq_next a b \<Longrightarrow> map_option mq_abs b = map_option mq_abs a"
  by (cases a) (auto dest: eq_nextD)

lemma eq_next_unmarked:
  "eq_next a b \<Longrightarrow> a = Some q \<Longrightarrow> \<not> q_release q \<Longrightarrow>
    \<exists>q'. b = Some q' \<and> \<not> q_release q' \<and> q_handle q' = q_handle q"
  by (auto dest!: eq_nextD)

text \<open>The mailbox that a changed queue belongs to is the only one that changes.\<close>

lemma mailbox_change:
  assumes inv: "node_inv A n" and h: "skynet_handle_grab (ctx_handle n) h (n_handles n) = Some c"
    and x: "n_ctxs n c = Some x" "c_queue x = Some q" and q': "mqs m q = Some q'"
    and oth: "\<And>b. b \<noteq> q \<Longrightarrow> eq_next (mqs (n_mq n) b) (mqs m b)"
  shows "mailbox (n\<lparr>n_mq := m\<rparr>) = (mailbox n)(h \<mapsto> mq_abs q')"
proof
  fix g
  have hx: "c_handle x = h" using node_grab [OF inv h] x(1) by auto
  show "mailbox (n\<lparr>n_mq := m\<rparr>) g = ((mailbox n)(h \<mapsto> mq_abs q')) g"
  proof (cases "skynet_handle_grab (ctx_handle n) g (n_handles n)")
    case None
    then show ?thesis using h by (auto simp: mailbox_def)
  next
    case (Some d)
    obtain y p where y: "n_ctxs n d = Some y" "c_queue y = Some p" "c_handle y = g"
      using node_grab [OF inv Some] by blast
    show ?thesis
    proof (cases "g = h")
      case True
      with Some h y x q' show ?thesis by (simp add: mailbox_def)
    next
      case False
      with y hx x(1) have "d \<noteq> c" by auto
      with y x inv have "p \<noteq> q" by (auto simp: node_inv_def ctxs_ok_def)
      from eq_next_abs [OF oth [OF this]] Some y False show ?thesis
        by (cases "mqs m p"; cases "mqs (n_mq n) p") (auto simp: mailbox_def)
    qed
  qed
qed

lemma context_push_live:
  assumes inv: "node_inv A n" and box: "mailbox n h = Some ms" and room: "mq_room ms"
  shows "\<exists>m. skynet_context_push W h msg n = Some (0, n\<lparr>n_mq := m\<rparr>) \<and> node_inv A (n\<lparr>n_mq := m\<rparr>) \<and>
     mailbox (n\<lparr>n_mq := m\<rparr>) = (mailbox n)(h \<mapsto> ms @ [msg]) \<and>
     (\<forall>a q. mqs (n_mq n) a = Some q \<longrightarrow> q_release q \<longrightarrow> eq_next (Some q) (mqs m a))"
proof -
  obtain c where c: "skynet_handle_grab (ctx_handle n) h (n_handles n) = Some c"
    using box mailbox_live [OF inv, of h] by auto
  obtain x q mq where x: "n_ctxs n c = Some x" "c_queue x = Some q" "mqs (n_mq n) q = Some mq"
    "mq_inv mq" "1 \<le> c_ref x" "c_handle x = h" "\<not> q_release mq" using node_grab [OF inv c] by blast
  have ms: "ms = mq_abs mq" using box c x by (simp add: mailbox_def)
  from inv obtain xs where xs: "queues_rep A (n_mq n) xs" by (auto simp: node_inv_def queues_inv_def)
  from mq_push_token [OF xs x(3,7), of msg] room ms obtain m mq' xs' where
    m: "skynet_mq_push q msg (n_mq n) = Some m" "queues_rep A m xs'" "mqs m q = Some mq'"
      "mq_abs mq' = ms @ [msg]" "\<not> q_release mq'" "q_handle mq' = q_handle mq"
      and oth: "\<And>b. b \<noteq> q \<Longrightarrow> eq_next (mqs (n_mq n) b) (mqs m b)" by auto
  have push: "skynet_context_push W h msg n = Some (0, n\<lparr>n_mq := m\<rparr>)"
    using c x m grab_release(1) [OF x(1,5)] grab_release(2) [OF x(1,5), of W]
    by (simp add: skynet_context_push_def handle_grab_def on_mq_def)
  have keep: "\<exists>p'. mqs m a = Some p' \<and> \<not> q_release p' \<and> q_handle p' = q_handle p"
    if "mqs (n_mq n) a = Some p" "\<not> q_release p" for a p
    using that m x(3) eq_next_unmarked [OF oth that] by (cases "a = q") auto
  have "node_inv A (n\<lparr>n_mq := m\<rparr>)"
    by (rule node_inv_mq [OF inv _ keep]) (use m(2) in \<open>auto simp: queues_inv_def\<close>)
  moreover have "eq_next (Some p) (mqs m a)" if "mqs (n_mq n) a = Some p" "q_release p" for a p
    using oth [of a] that x(3,7) by (cases "a = q") auto
  ultimately show ?thesis
    using push mailbox_change [OF inv c x(1,2) m(3) oth] m(4) by auto
qed

lemma context_push_dead:
  assumes "node_inv A n" "mailbox n h = None"
  shows "skynet_context_push W h msg n = Some (-1, n)"
  using assms mailbox_live [OF assms(1), of h]
  by (simp add: skynet_context_push_def handle_grab_def)

section \<open>Delivery as an interface\<close>

text \<open>Delivering one message: it is appended to its mailbox, if there is one.\<close>

definition deliver :: "'h \<times> 'm \<Rightarrow> ('h \<Rightarrow> 'm list option) \<Rightarrow> 'h \<Rightarrow> 'm list option" where
  "deliver p b = (case b (fst p) of None \<Rightarrow> b | Some ms \<Rightarrow> b(fst p \<mapsto> ms @ [snd p]))"

primrec push_seq :: "('h \<Rightarrow> 'm \<Rightarrow> 's \<Rightarrow> (int \<times> 's) option) \<Rightarrow> ('h \<times> 'm) list \<Rightarrow> 's \<Rightarrow> 's option" where
  "push_seq push [] s = Some s"
| "push_seq push (p # ps) s = do { r \<leftarrow> push (fst p) (snd p) s; push_seq push ps (snd r) }"

lemma deliver_None [simp]: "b (fst p) = None \<Longrightarrow> deliver p b = b"
  by (simp add: deliver_def)

lemma deliver_Some [simp]: "b (fst p) = Some ms \<Longrightarrow> deliver p b = b(fst p \<mapsto> ms @ [snd p])"
  by (simp add: deliver_def)

text \<open>The order of delivery: a mailbox receives its messages in the order in which they are pushed.\<close>

lemma fold_deliver:
  "fold deliver ps b h =
     (case b h of None \<Rightarrow> None | Some ms \<Rightarrow> Some (ms @ map snd (filter (\<lambda>p. fst p = h) ps)))"
proof (induction ps arbitrary: b)
  case Nil
  then show ?case by (simp split: option.splits)
next
  case (Cons p ps)
  show ?case
    by (cases "b (fst p)") (auto simp: Cons split: option.splits)
qed

locale message_delivery =
  fixes push :: "'h \<Rightarrow> 'm \<Rightarrow> 's \<Rightarrow> (int \<times> 's) option"
    and boxes :: "'s \<Rightarrow> 'h \<Rightarrow> 'm list option"
    and inv :: "'s \<Rightarrow> bool"
    and cap :: nat
  assumes push_law: "inv s \<Longrightarrow> (\<And>ms. boxes s h = Some ms \<Longrightarrow> length ms < cap) \<Longrightarrow>
      \<exists>r s'. push h m s = Some (r, s') \<and> inv s' \<and> boxes s' = deliver (h, m) (boxes s) \<and>
        r = (if boxes s h = None then -1 else 0)"
begin

lemma push_seq_law:
  assumes "inv s" "\<And>h ms. boxes s h = Some ms \<Longrightarrow> length ms + length ps \<le> cap"
  shows "\<exists>s'. push_seq push ps s = Some s' \<and> inv s' \<and> boxes s' = fold deliver ps (boxes s)"
  using assms
proof (induction ps arbitrary: s)
  case Nil
  then show ?case by simp
next
  case (Cons p ps)
  have "length ms < cap" if "boxes s (fst p) = Some ms" for ms
    using Cons.prems(2) [OF that] by simp
  from push_law [OF Cons.prems(1), where h = "fst p" and m = "snd p", OF this] obtain r s' where
    s': "push (fst p) (snd p) s = Some (r, s')" "inv s'" "boxes s' = deliver p (boxes s)" by auto
  have "length ms + length ps \<le> cap" if "boxes s' h = Some ms" for h ms
    using that Cons.prems(2) unfolding s'(3)
    by (cases "boxes s (fst p)") (fastforce split: if_splits)+
  from Cons.IH [OF s'(2) this] s' show ?case by auto
qed

end

interpretation delivery: message_delivery "skynet_context_push W" mailbox "node_inv A" "2 ^ 30 - 1"
  for W A
proof
  fix s :: node and h m
  assume inv: "node_inv A s" and room: "\<And>ms. mailbox s h = Some ms \<Longrightarrow> length ms < 2 ^ 30 - 1"
  show "\<exists>r s'. skynet_context_push W h m s = Some (r, s') \<and> node_inv A s' \<and>
      mailbox s' = deliver (h, m) (mailbox s) \<and> r = (if mailbox s h = None then -1 else 0)"
  proof (cases "mailbox s h")
    case None
    then show ?thesis using context_push_dead [OF inv None] inv by simp
  next
    case (Some ms)
    then have "mq_room ms" using room by (simp add: mq_room_def)
    from context_push_live [OF inv Some this, of W m] Some inv show ?thesis by auto
  qed
qed

section \<open>Sending\<close>

lemma handle_ctx_upd:
  assumes "n_ctxs n c = Some x" "c_handle y = c_handle x" "c_queue y = c_queue x"
  shows "mailbox (ctx_upd c y n) = mailbox n"
proof
  fix h
  show "mailbox (ctx_upd c y n) h = mailbox n h"
  proof (cases "skynet_handle_grab (ctx_handle n) h (n_handles n) = Some c")
    case True
    then show ?thesis using assms by (simp add: mailbox_def)
  next
    case False
    then show ?thesis using assms
      by (cases "skynet_handle_grab (ctx_handle n) h (n_handles n)") (auto simp: mailbox_def)
  qed
qed

lemma ctxs_ok_upd:
  assumes ok: "ctxs_ok ctxs brk slots qs" and x: "ctxs c = Some x"
    and y: "c_handle y = c_handle x" "c_queue y = c_queue x" "1 \<le> c_ref y"
  shows "ctxs_ok (ctxs(c := Some y)) brk slots qs"
proof -
  obtain q mq where q: "c_queue x = Some q" "qs q = Some mq" "\<not> q_release mq" "q_handle mq = c_handle x"
    "c < brk" using ctxs_okD [OF ok x] by blast
  show ?thesis
    unfolding ctxs_ok_def
  proof (intro conjI allI impI)
    fix c' assume "Some c' \<in> set slots"
    then show "(ctxs(c := Some y)) c' \<noteq> None" using ok by (auto simp: ctxs_ok_def)
  next
    fix c' u assume u: "(ctxs(c := Some y)) c' = Some u"
    have "1 \<le> c_ref u \<and> c' < brk \<and>
        (\<exists>q mq. c_queue u = Some q \<and> qs q = Some mq \<and> \<not> q_release mq \<and> q_handle mq = c_handle u)"
    proof (cases "c' = c")
      case True
      with u q y show ?thesis by auto
    next
      case False
      with u have "ctxs c' = Some u" by simp
      from ctxs_okD [OF ok this] show ?thesis by blast
    qed
    then show "1 \<le> c_ref u" "c' < brk"
      "\<exists>q mq. c_queue u = Some q \<and> qs q = Some mq \<and> \<not> q_release mq \<and> q_handle mq = c_handle u" by auto
  next
    fix c' d u v assume "(ctxs(c := Some y)) c' = Some u" "(ctxs(c := Some y)) d = Some v" "c_queue u = c_queue v"
    then show "c' = d"
      using x y(2) ok unfolding ctxs_ok_def by (metis fun_upd_apply option.inject)
  qed
qed

lemma node_inv_ctx_upd:
  assumes inv: "node_inv A n" and x: "n_ctxs n c = Some x"
    and y: "c_handle y = c_handle x" "c_queue y = c_queue x" "1 \<le> c_ref y"
  shows "node_inv A (ctx_upd c y n)"
proof -
  from inv have "ctxs_inv n" by (simp add: node_inv_def)
  from ctxs_ok_upd [OF this x y] inv x y(1) show ?thesis by (simp add: node_inv_def)
qed

lemma node_inv_mem:
  "node_inv A n \<Longrightarrow> (\<And>a. me a \<noteq> None \<Longrightarrow> a < b) \<Longrightarrow> node_inv A (n\<lparr>n_mem := me, n_mem_brk := b\<rparr>)"
  unfolding node_inv_def by simp

text \<open>The arguments of a send are usable: a session to allocate, memory to copy or to hand over.\<close>

definition send_ok :: "addr option \<Rightarrow> int \<Rightarrow> int \<Rightarrow> addr option \<Rightarrow> u64 \<Rightarrow> node \<Rightarrow> bool" where
  "send_ok context type session data sz n \<longleftrightarrow>
     (type AND PTYPE_TAG_ALLOCSESSION \<noteq> 0 \<longrightarrow>
        session = 0 \<and> (\<exists>c. context = Some c \<and> n_ctxs n c \<noteq> None)) \<and>
     (type AND PTYPE_TAG_DONTCOPY = 0 \<longrightarrow> data \<noteq> None \<longrightarrow> read_bytes data (unat sz) n \<noteq> None) \<and>
     (type AND PTYPE_TAG_DONTCOPY \<noteq> 0 \<longrightarrow> (\<forall>a. data = Some a \<longrightarrow> n_mem n a \<noteq> None))"

text \<open>The session a send returns, and the payload it puts into the message.\<close>

definition send_session :: "addr option \<Rightarrow> int \<Rightarrow> int \<Rightarrow> node \<Rightarrow> int" where
  "send_session context type session n =
     (if type AND PTYPE_TAG_ALLOCSESSION \<noteq> 0
      then fst (skynet_context_newsession (the (n_ctxs n (the context)))) else session)"

definition copies :: "int \<Rightarrow> addr option \<Rightarrow> bool" where
  "copies type data \<longleftrightarrow> type AND PTYPE_TAG_DONTCOPY = 0 \<and> data \<noteq> None"

definition send_data :: "int \<Rightarrow> addr option \<Rightarrow> node \<Rightarrow> addr option" where
  "send_data type data n = (if copies type data then Some (n_mem_brk n) else data)"

definition send_mem :: "int \<Rightarrow> addr option \<Rightarrow> u64 \<Rightarrow> node \<Rightarrow> addr \<Rightarrow> block option" where
  "send_mem type data sz n =
     (if copies type data
      then (n_mem n)(n_mem_brk n \<mapsto> Bytes (the (read_bytes data (unat sz) n) @ [0]))
      else n_mem n)"

lemma newsession_fields:
  "c_handle (snd (skynet_context_newsession x)) = c_handle x"
  "c_queue (snd (skynet_context_newsession x)) = c_queue x"
  "c_ref (snd (skynet_context_newsession x)) = c_ref x"
  by (simp_all add: skynet_context_newsession_def Let_def)

lemma read_bytes_cong: "n_mem n' = n_mem n \<Longrightarrow> read_bytes p sz n' = read_bytes p sz n"
  by (simp add: read_bytes_def)

lemma alloc_session_spec:
  assumes inv: "node_inv A n" and ok: "send_ok context type session data sz n"
  shows "\<exists>n'. alloc_session context type session n = Some (send_session context type session n, n') \<and>
     node_inv A n' \<and> mailbox n' = mailbox n \<and> n_harbor n' = n_harbor n \<and> n_logger n' = n_logger n \<and>
     n_mem n' = n_mem n \<and> n_mem_brk n' = n_mem_brk n \<and>
     (\<forall>c. map_option c_handle (n_ctxs n' c) = map_option c_handle (n_ctxs n c))"
proof (cases "type AND PTYPE_TAG_ALLOCSESSION \<noteq> 0")
  case True
  with ok obtain c x where x: "session = 0" "context = Some c" "n_ctxs n c = Some x"
    by (auto simp: send_ok_def)
  from inv have "ctxs_inv n" by (simp add: node_inv_def)
  from ctxs_okD [OF this x(3)] have "1 \<le> c_ref x" by blast
  with node_inv_ctx_upd [OF inv x(3) newsession_fields(1,2)]
    handle_ctx_upd [OF x(3) newsession_fields(1,2)] True x
  show ?thesis by (simp add: alloc_session_def send_session_def newsession_fields)
next
  case False
  with inv show ?thesis by (simp add: alloc_session_def send_session_def)
qed

lemma copy_data_spec:
  assumes inv: "node_inv A n" and ok: "send_ok context type session data sz n"
  shows "\<exists>n'. copy_data type data sz n = Some (send_data type data n, n') \<and>
     node_inv A n' \<and> mailbox n' = mailbox n \<and> n_harbor n' = n_harbor n \<and> n_logger n' = n_logger n \<and>
     n_mem n' = send_mem type data sz n \<and> n_ctxs n' = n_ctxs n"
proof (cases "copies type data")
  case True
  with ok obtain bs where bs: "read_bytes data (unat sz) n = Some bs" by (auto simp: send_ok_def copies_def)
  let ?n = "n\<lparr>n_mem := (n_mem n)(n_mem_brk n \<mapsto> Bytes (bs @ [0])), n_mem_brk := Suc (n_mem_brk n)\<rparr>"
  have "node_inv A ?n"
    by (rule node_inv_mem [OF inv]) (use inv in \<open>auto simp: node_inv_def less_SucI split: if_splits\<close>)
  with True bs show ?thesis
    by (simp add: copies_def copy_data_def mem_alloc_def send_data_def send_mem_def)
next
  case False
  with inv show ?thesis by (auto simp: copies_def copy_data_def send_data_def send_mem_def)
qed

lemma filter_args_spec:
  assumes inv: "node_inv A n" and ok: "send_ok context type session data sz n"
  shows "\<exists>n'. filter_args context type session data sz n =
       Some (send_session context type session n, send_data type data n, pack_sz sz (type AND 255), n') \<and>
     node_inv A n' \<and> mailbox n' = mailbox n \<and> n_harbor n' = n_harbor n \<and> n_logger n' = n_logger n \<and>
     n_mem n' = send_mem type data sz n \<and>
     (\<forall>c. map_option c_handle (n_ctxs n' c) = map_option c_handle (n_ctxs n c))"
proof -
  from alloc_session_spec [OF assms] obtain n1 where
    n1: "alloc_session context type session n = Some (send_session context type session n, n1)"
      "node_inv A n1" "mailbox n1 = mailbox n" "n_harbor n1 = n_harbor n" "n_logger n1 = n_logger n"
      "n_mem n1 = n_mem n" "n_mem_brk n1 = n_mem_brk n"
      "\<forall>c. map_option c_handle (n_ctxs n1 c) = map_option c_handle (n_ctxs n c)" by blast
  have rb: "read_bytes p k n1 = read_bytes p k n" for p k by (rule read_bytes_cong [OF n1(6)])
  have "(n_ctxs n1 c = None) = (n_ctxs n c = None)" for c using n1(8) by (metis option.map_disc_iff)
  with ok have "send_ok context type session data sz n1" by (simp add: send_ok_def rb n1(6))
  from copy_data_spec [OF n1(2) this] n1 show ?thesis
    by (auto simp: filter_args_def send_data_def send_mem_def rb)
qed

end
