(* ===== verification/Skynet_Messages.thy ===== *)
theory Skynet_Messages
  imports Skynet_Mailbox
begin

text \<open>
  The properties of sending, dropping and timing out, stated over the mailboxes and the heap of
  messages: who receives what, and who frees the data.
\<close>

unbundle bit_operations_syntax

section \<open>Packing the type into the size\<close>

lemma message_type_mask: "MESSAGE_TYPE_MASK = mask 56"
  by (rule bit_word_eqI) (auto simp: MESSAGE_TYPE_MASK_def bit_simps)

lemma pack_sz_parts:
  assumes "sz AND MESSAGE_TYPE_MASK = sz" "0 \<le> t" "t < 256"
  shows "pack_sz sz t AND MESSAGE_TYPE_MASK = sz"
    "int (unat (drop_bit MESSAGE_TYPE_SHIFT (pack_sz sz t))) = t"
proof -
  have s: "bit sz i \<Longrightarrow> i < 56" for i
    using assms(1) unfolding message_type_mask by (metis bit_and_iff bit_mask_iff)
  have sh: "MESSAGE_TYPE_SHIFT = 56" by (simp add: MESSAGE_TYPE_SHIFT_def)
  show "pack_sz sz t AND MESSAGE_TYPE_MASK = sz"
    unfolding pack_sz_def message_type_mask sh
    by (rule bit_word_eqI) (auto simp: bit_simps dest: s)
  have "drop_bit 56 (pack_sz sz t) = take_bit 8 (word_of_int t)"
    unfolding pack_sz_def sh
    by (rule bit_word_eqI) (auto simp: bit_simps dest: s)
  moreover have "uint (take_bit 8 (word_of_int t :: u64)) = t"
    using assms(2,3) by (simp add: unsigned_take_bit_eq uint_word_of_int_eq take_bit_int_eq_self)
  ultimately show "int (unat (drop_bit MESSAGE_TYPE_SHIFT (pack_sz sz t))) = t"
    by (simp add: sh)
qed

lemma type_byte: "0 \<le> type AND 255 \<and> type AND (255::int) < 256"
proof -
  have "(255::int) = mask 8" by (simp add: mask_eq_exp_minus_1)
  then have "type AND (255::int) = take_bit 8 type" by (simp add: take_bit_eq_mask)
  then show ?thesis by (simp add: take_bit_int_less_exp [of 8 type, simplified])
qed

section \<open>Sending to a local handle\<close>

text \<open>The source that a send writes into the message.\<close>

definition send_source :: "addr option \<Rightarrow> u32 \<Rightarrow> node \<Rightarrow> u32" where
  "send_source context source n = (if source = 0 then ctx_handle n (the context) else source)"

definition source_ok :: "addr option \<Rightarrow> u32 \<Rightarrow> node \<Rightarrow> bool" where
  "source_ok context source n \<longleftrightarrow> source = 0 \<longrightarrow> (\<exists>c. context = Some c \<and> n_ctxs n c \<noteq> None)"

definition sent_message :: "addr option \<Rightarrow> u32 \<Rightarrow> int \<Rightarrow> int \<Rightarrow> addr option \<Rightarrow> u64 \<Rightarrow> node \<Rightarrow> skynet_message" where
  "sent_message context source type session data sz n =
     \<lparr>m_source = send_source context source n, m_session = send_session context type session n,
      m_data = send_data type data n, m_sz = pack_sz sz (type AND 255)\<rparr>"

lemma send_local_eq:
  assumes inv: "node_inv A n" and fits: "sz AND MESSAGE_TYPE_MASK = sz"
    and ok: "send_ok context type session data sz n" "source_ok context source n"
    and dst: "destination \<noteq> 0" "skynet_harbor_message_isremote destination n = Some False"
  shows "\<exists>n0. node_inv A n0 \<and> mailbox n0 = mailbox n \<and> n_mem n0 = send_mem type data sz n \<and>
     skynet_send W context source destination type session data sz n = do {
       (r, n1) \<leftarrow> skynet_context_push W destination (sent_message context source type session data sz n) n0;
       (if r \<noteq> 0 then do { n2 \<leftarrow> skynet_free (send_data type data n) n1; Some (-1, n2) }
        else Some (send_session context type session n, n1)) }"
proof -
  from filter_args_spec [OF inv ok(1)] obtain n0 where
    f: "filter_args context type session data sz n =
         Some (send_session context type session n, send_data type data n, pack_sz sz (type AND 255), n0)"
      and n0: "node_inv A n0" "mailbox n0 = mailbox n" "n_harbor n0 = n_harbor n"
        "n_mem n0 = send_mem type data sz n"
        "\<And>c. map_option c_handle (n_ctxs n0 c) = map_option c_handle (n_ctxs n c)" by blast
  have src: "(if source = 0 then do { c \<leftarrow> context; x \<leftarrow> n_ctxs n0 c; Some (c_handle x) } else Some source) =
      Some (send_source context source n)"
  proof (cases "source = 0")
    case True
    with ok(2) obtain c x where x: "context = Some c" "n_ctxs n c = Some x" by (auto simp: source_ok_def)
    with n0(5) [of c] obtain y where "n_ctxs n0 c = Some y" "c_handle y = c_handle x" by auto
    with True x show ?thesis by (simp add: send_source_def ctx_handle_def)
  qed (simp add: send_source_def)
  have rem: "skynet_harbor_message_isremote destination n0 = Some False"
    using dst(2) n0(3) by (simp add: skynet_harbor_message_isremote_def)
  have "skynet_send W context source destination type session data sz n = do {
       (r, n1) \<leftarrow> skynet_context_push W destination (sent_message context source type session data sz n) n0;
       (if r \<noteq> 0 then do { n2 \<leftarrow> skynet_free (send_data type data n) n1; Some (-1, n2) }
        else Some (send_session context type session n, n1)) }"
    using fits dst(1) unfolding skynet_send_def f
    by (simp add: src rem sent_message_def)
  with n0 show ?thesis by blast
qed

lemma send_live:
  assumes "node_inv A n" "sz AND MESSAGE_TYPE_MASK = sz"
    "send_ok context type session data sz n" "source_ok context source n"
    "destination \<noteq> 0" "skynet_harbor_message_isremote destination n = Some False"
    and box: "mailbox n destination = Some ms" "mq_room ms"
  shows "\<exists>n'. skynet_send W context source destination type session data sz n =
       Some (send_session context type session n, n') \<and> node_inv A n' \<and>
     mailbox n' = (mailbox n)(destination \<mapsto> ms @ [sent_message context source type session data sz n]) \<and>
     n_mem n' = send_mem type data sz n"
proof -
  from send_local_eq [OF assms(1-6), of W] obtain n0 where
    n0: "node_inv A n0" "mailbox n0 = mailbox n" "n_mem n0 = send_mem type data sz n"
      and s: "skynet_send W context source destination type session data sz n = do {
       (r, n1) \<leftarrow> skynet_context_push W destination (sent_message context source type session data sz n) n0;
       (if r \<noteq> 0 then do { n2 \<leftarrow> skynet_free (send_data type data n) n1; Some (-1, n2) }
        else Some (send_session context type session n, n1)) }" by blast
  from context_push_live [OF n0(1) _ box(2)] n0(2) box(1) obtain m where
    "skynet_context_push W destination (sent_message context source type session data sz n) n0 = Some (0, n0\<lparr>n_mq := m\<rparr>)"
    "node_inv A (n0\<lparr>n_mq := m\<rparr>)"
    "mailbox (n0\<lparr>n_mq := m\<rparr>) = (mailbox n)(destination \<mapsto> ms @ [sent_message context source type session data sz n])"
    by metis
  with s n0 show ?thesis by simp
qed

lemma fun_upd_None_fresh: "m k = None \<Longrightarrow> (m(k \<mapsto> v))(k := None) = m"
  by (auto simp: fun_eq_iff)

lemma send_dead:
  assumes "node_inv A n" "sz AND MESSAGE_TYPE_MASK = sz"
    "send_ok context type session data sz n" "source_ok context source n"
    "destination \<noteq> 0" "skynet_harbor_message_isremote destination n = Some False"
    and box: "mailbox n destination = None"
  shows "\<exists>n'. skynet_send W context source destination type session data sz n = Some (-1, n') \<and>
     node_inv A n' \<and> mailbox n' = mailbox n \<and>
     n_mem n' = (if type AND PTYPE_TAG_DONTCOPY = 0 then n_mem n
                 else case data of None \<Rightarrow> n_mem n | Some a \<Rightarrow> (n_mem n)(a := None))"
proof -
  from send_local_eq [OF assms(1-6), of W] obtain n0 where
    n0: "node_inv A n0" "mailbox n0 = mailbox n" "n_mem n0 = send_mem type data sz n"
      and s: "skynet_send W context source destination type session data sz n = do {
       (r, n1) \<leftarrow> skynet_context_push W destination (sent_message context source type session data sz n) n0;
       (if r \<noteq> 0 then do { n2 \<leftarrow> skynet_free (send_data type data n) n1; Some (-1, n2) }
        else Some (send_session context type session n, n1)) }" by blast
  have "skynet_context_push W destination (sent_message context source type session data sz n) n0 = Some (-1, n0)"
    using context_push_dead [OF n0(1)] n0(2) box by simp
  with s have s: "skynet_send W context source destination type session data sz n =
     do { n2 \<leftarrow> skynet_free (send_data type data n) n0; Some (-1, n2) }" by simp
  have fresh: "n_mem n (n_mem_brk n) = None" using assms(1) by (auto simp: node_inv_def)
  have inv': "node_inv A (n0\<lparr>n_mem := (n_mem n0)(a := None)\<rparr>)" for a
    using n0(1) unfolding node_inv_def by simp
  show ?thesis
  proof (cases "send_data type data n")
    case None
    with s n0 show ?thesis by (auto simp: skynet_free_def send_data_def send_mem_def copies_def split: if_splits)
  next
    case (Some a)
    have live: "n_mem n0 a \<noteq> None"
      using Some assms(3) by (auto simp: n0(3) send_data_def send_mem_def send_ok_def copies_def split: if_splits)
    then have "skynet_free (send_data type data n) n0 = Some (n0\<lparr>n_mem := (n_mem n0)(a := None)\<rparr>)"
      using Some by (auto simp: skynet_free_def)
    moreover have "(n_mem n0)(a := None) = (if type AND PTYPE_TAG_DONTCOPY = 0 then n_mem n
        else case data of None \<Rightarrow> n_mem n | Some a \<Rightarrow> (n_mem n)(a := None))"
      using Some fresh by (auto simp: n0(3) send_data_def send_mem_def copies_def fun_upd_None_fresh split: if_splits)
    ultimately show ?thesis using s n0(2) inv' [of a] by simp
  qed
qed

section \<open>Dropping the messages of a dead service\<close>

text \<open>The handle 0 is never registered.\<close>

lemma mailbox_zero: "node_inv A n \<Longrightarrow> mailbox n 0 = None"
proof (rule ccontr)
  assume inv: "node_inv A n" and "mailbox n 0 \<noteq> None"
  then obtain c where c: "skynet_handle_grab (ctx_handle n) 0 (n_handles n) = Some c"
    using mailbox_live [OF inv, of 0] by auto
  from inv have s: "slots_inv (ctx_handle n) (n_handles n)" by (simp add: node_inv_def handle_inv_def)
  from grab_slot [OF s] c have h: "ctx_handle n c = 0" and m: "Some c \<in> set (h_slot (n_handles n))" by auto
  from m obtain i where "i < length (h_slot (n_handles n))" "h_slot (n_handles n) ! i = Some c"
    by (auto simp: in_set_conv_nth)
  with s have "valid_handle (h_harbor (n_handles n)) (ctx_handle n c)" by (auto simp: slots_inv_def)
  with h show False by (simp add: valid_handle_def)
qed

definition error_message :: "u32 \<Rightarrow> skynet_message" where
  "error_message h = \<lparr>m_source = h, m_session = 0, m_data = None, m_sz = pack_sz 0 PTYPE_ERROR\<rparr>"

text \<open>A message from outside the node would be answered through the harbor.\<close>

definition local_source :: "node \<Rightarrow> skynet_message \<Rightarrow> bool" where
  "local_source n m \<longleftrightarrow> m_source m = 0 \<or> skynet_harbor_message_isremote (m_source m) n = Some False"

definition free_mem :: "addr option \<Rightarrow> (addr \<Rightarrow> block option) \<Rightarrow> addr \<Rightarrow> block option" where
  "free_mem p me = (case p of None \<Rightarrow> me | Some a \<Rightarrow> me(a := None))"

lemma skynet_free_None [simp]: "skynet_free None n = Some n"
  by (simp add: skynet_free_def)

lemma skynet_free_spec:
  assumes inv: "node_inv A n" and p: "\<And>a. p = Some a \<Longrightarrow> n_mem n a \<noteq> None"
  shows "skynet_free p n = Some (n\<lparr>n_mem := free_mem p (n_mem n)\<rparr>)"
    "node_inv A (n\<lparr>n_mem := free_mem p (n_mem n)\<rparr>)"
proof -
  show "skynet_free p n = Some (n\<lparr>n_mem := free_mem p (n_mem n)\<rparr>)"
    using p by (cases p) (auto simp: skynet_free_def free_mem_def)
  show "node_inv A (n\<lparr>n_mem := free_mem p (n_mem n)\<rparr>)"
    using inv unfolding node_inv_def by (simp add: free_mem_def split: option.splits)
qed

lemma error_args:
  "filter_args None PTYPE_ERROR 0 None 0 n = Some (0, None, pack_sz 0 PTYPE_ERROR, n)"
  by (simp add: filter_args_def alloc_session_def copy_data_def ptype_defs)

lemma send_error:
  assumes inv: "node_inv A n" and h: "h \<noteq> 0"
    and dst: "d = 0 \<or> skynet_harbor_message_isremote d n = Some False"
    and room: "\<And>ms. mailbox n d = Some ms \<Longrightarrow> mq_room ms"
  shows "\<exists>r m. skynet_send W None h d PTYPE_ERROR 0 None 0 n = Some (r, n\<lparr>n_mq := m\<rparr>) \<and>
     node_inv A (n\<lparr>n_mq := m\<rparr>) \<and> mailbox (n\<lparr>n_mq := m\<rparr>) = deliver (d, error_message h) (mailbox n) \<and>
     (\<forall>a q. mqs (n_mq n) a = Some q \<longrightarrow> q_release q \<longrightarrow> eq_next (Some q) (mqs m a))"
proof (cases "d = 0")
  case True
  with inv h show ?thesis
    by (intro exI [of _ 0] exI [of _ "n_mq n"]) (simp add: skynet_send_def error_args mailbox_zero [OF inv])
next
  case False
  with dst have r: "skynet_harbor_message_isremote d n = Some False" by simp
  have s: "skynet_send W None h d PTYPE_ERROR 0 None 0 n =
      do { (r, n1) \<leftarrow> skynet_context_push W d (error_message h) n;
           (if r \<noteq> 0 then Some (-1, n1) else Some (0, n1)) }"
    using False h r by (simp add: skynet_send_def error_args error_message_def cong: if_cong)
  show ?thesis
  proof (cases "mailbox n d")
    case None
    with s context_push_dead [OF inv None] inv show ?thesis
      by (intro exI [of _ "-1"] exI [of _ "n_mq n"]) simp
  next
    case (Some ms)
    from context_push_live [OF inv Some room [OF Some], of W "error_message h"] s Some show ?thesis
      by (auto split: prod.splits)
  qed
qed

lemma drop_message_spec:
  assumes inv: "node_inv A n" and h: "h \<noteq> 0" and src: "local_source n msg"
    and data: "\<And>a. m_data msg = Some a \<Longrightarrow> n_mem n a \<noteq> None"
    and room: "\<And>ms. mailbox n (m_source msg) = Some ms \<Longrightarrow> mq_room ms"
  shows "\<exists>m. let n' = n\<lparr>n_mem := free_mem (m_data msg) (n_mem n), n_mq := m\<rparr> in
     drop_message W h msg n = Some n' \<and> node_inv A n' \<and>
     mailbox n' = deliver (m_source msg, error_message h) (mailbox n) \<and>
     (\<forall>a q. mqs (n_mq n) a = Some q \<longrightarrow> q_release q \<longrightarrow> eq_next (Some q) (mqs m a))"
proof -
  let ?n = "n\<lparr>n_mem := free_mem (m_data msg) (n_mem n)\<rparr>"
  note f = skynet_free_spec [OF inv data]
  have d: "m_source msg = 0 \<or> skynet_harbor_message_isremote (m_source msg) ?n = Some False"
    using src by (auto simp: local_source_def skynet_harbor_message_isremote_def)
  from send_error [OF f(2) h d, of W] room obtain r m where
    "skynet_send W None h (m_source msg) PTYPE_ERROR 0 None 0 ?n = Some (r, ?n\<lparr>n_mq := m\<rparr>)"
    "node_inv A (?n\<lparr>n_mq := m\<rparr>)" "mailbox (?n\<lparr>n_mq := m\<rparr>) = deliver (m_source msg, error_message h) (mailbox n)"
    "\<forall>a q. mqs (n_mq n) a = Some q \<longrightarrow> q_release q \<longrightarrow> eq_next (Some q) (mqs m a)" by auto
  moreover from this(1) have "drop_message W h msg n = Some (?n\<lparr>n_mq := m\<rparr>)"
    using f(1) h by (simp add: drop_message_def)
  ultimately show ?thesis unfolding Let_def by (intro exI [of _ m] conjI)
qed

text \<open>Queues that are marked for release are in nobody's mailbox.\<close>

lemma mailbox_marked:
  assumes inv: "node_inv A n" and a: "mqs (n_mq n) a = Some q" "q_release q"
  shows "mailbox (n\<lparr>n_mq := (n_mq n)\<lparr>mqs := (mqs (n_mq n))(a := v)\<rparr>\<rparr>) = mailbox n"
proof
  fix h
  show "mailbox (n\<lparr>n_mq := (n_mq n)\<lparr>mqs := (mqs (n_mq n))(a := v)\<rparr>\<rparr>) h = mailbox n h"
  proof (cases "skynet_handle_grab (ctx_handle n) h (n_handles n)")
    case None
    then show ?thesis by (simp add: mailbox_def)
  next
    case (Some c)
    obtain x p mq where "n_ctxs n c = Some x" "c_queue x = Some p" "mqs (n_mq n) p = Some mq" "\<not> q_release mq"
      by (rule node_grab [OF inv Some], rule that)
    moreover from this a have "p \<noteq> a" by auto
    ultimately show ?thesis using Some by (simp add: mailbox_def)
  qed
qed

lemma pop_marked:
  assumes inv: "node_inv A n" and a: "a \<in> A" "mqs (n_mq n) a = Some q" "q_release q"
  shows "\<exists>q'. skynet_mq_pop a (n_mq n) =
       Some (case mq_abs q of [] \<Rightarrow> None | x # _ \<Rightarrow> Some x, mq_upd a q' (n_mq n)) \<and>
     mq_abs q' = tl (mq_abs q) \<and> q_release q' \<and>
     node_inv A (n\<lparr>n_mq := mq_upd a q' (n_mq n)\<rparr>) \<and>
     mailbox (n\<lparr>n_mq := mq_upd a q' (n_mq n)\<rparr>) = mailbox n"
proof -
  from inv obtain xs where xs: "queues_rep A (n_mq n) xs" by (auto simp: node_inv_def queues_inv_def)
  from mq_pop_token [OF xs a(1,2)] a(3) obtain q' where
    q': "skynet_mq_pop a (n_mq n) = Some (case mq_abs q of [] \<Rightarrow> None | x # _ \<Rightarrow> Some x, mq_upd a q' (n_mq n))"
      "mq_abs q' = tl (mq_abs q)" "q_release q'" "queues_rep A (mq_upd a q' (n_mq n)) xs" by auto
  have "node_inv A (n\<lparr>n_mq := mq_upd a q' (n_mq n)\<rparr>)"
    by (rule node_inv_mq [OF inv]) (use q'(4) a in \<open>auto simp: queues_inv_def\<close>)
  with q' mailbox_marked [OF inv a(2,3)] show ?thesis by blast
qed

abbreviation put_mq :: "mq_state \<Rightarrow> node \<Rightarrow> node" where
  "put_mq \<equiv> \<lambda>m n. n\<lparr>n_mq := m\<rparr>"

text \<open>The heap after the data of some messages was freed.\<close>

definition free_all :: "skynet_message list \<Rightarrow> (addr \<Rightarrow> block option) \<Rightarrow> addr \<Rightarrow> block option" where
  "free_all ms me = fold (free_mem \<circ> m_data) ms me"

lemma free_all_Cons: "free_all (m # ms) me = free_all ms (free_mem (m_data m) me)"
  by (simp add: free_all_def)

lemma free_all_eq: "free_all ms me a = (if Some a \<in> m_data ` set ms then None else me a)"
proof (induction ms arbitrary: me)
  case Nil
  then show ?case by (simp add: free_all_def)
next
  case (Cons m ms)
  then show ?case by (cases "m_data m") (auto simp: free_all_Cons free_mem_def)
qed

text \<open>The messages of a queue own their data: allocated, and each block in one message only.\<close>

fun own_data :: "skynet_message list \<Rightarrow> (addr \<Rightarrow> block option) \<Rightarrow> bool" where
  "own_data [] me = True"
| "own_data (m # ms) me =
     ((case m_data m of None \<Rightarrow> True | Some a \<Rightarrow> me a \<noteq> None) \<and> own_data ms (free_mem (m_data m) me))"

lemma drop_loop_spec:
  assumes "node_inv A n" "h \<noteq> 0" "a \<in> A" "mqs (n_mq n) a = Some q" "q_release q" "mq_abs q = ms"
    "\<forall>m \<in> set ms. local_source n m" "own_data ms (n_mem n)"
    "\<forall>g bs. mailbox n g = Some bs \<longrightarrow> length bs + length ms \<le> 2 ^ 30 - 1"
  shows "\<exists>n'. drop_loop n_mq put_mq (drop_message W h) a n = Some n' \<and> node_inv A n' \<and>
     mailbox n' = fold deliver (map (\<lambda>m. (m_source m, error_message h)) ms) (mailbox n) \<and>
     n_mem n' = free_all ms (n_mem n) \<and> (\<exists>q'. mqs (n_mq n') a = Some q' \<and> q_release q') \<and>
     n_ctxs n' = n_ctxs n \<and> n_total n' = n_total n"
  using assms
proof (induction ms arbitrary: n q)
  case Nil
  from pop_marked [OF Nil.prems(1,3,4,5)] Nil.prems(6) show ?case
    by (subst drop_loop.simps) (auto simp: free_all_def)
next
  case (Cons msg ms)
  from pop_marked [OF Cons.prems(1,3,4,5)] Cons.prems(6) obtain q' where
    pop: "skynet_mq_pop a (n_mq n) = Some (Some msg, mq_upd a q' (n_mq n))" "mq_abs q' = ms" "q_release q'"
      "node_inv A (n\<lparr>n_mq := mq_upd a q' (n_mq n)\<rparr>)"
      "mailbox (n\<lparr>n_mq := mq_upd a q' (n_mq n)\<rparr>) = mailbox n" by auto
  let ?n1 = "n\<lparr>n_mq := mq_upd a q' (n_mq n)\<rparr>"
  have src: "local_source ?n1 msg"
    using Cons.prems(7) by (simp add: local_source_def skynet_harbor_message_isremote_def)
  have data: "n_mem ?n1 b \<noteq> None" if "m_data msg = Some b" for b
    using Cons.prems(8) that by simp
  have room: "mq_room bs" if "mailbox ?n1 (m_source msg) = Some bs" for bs
    using Cons.prems(9) that pop(5) by (fastforce simp: mq_room_def)
  from drop_message_spec [OF pop(4) Cons.prems(2) src data room, of W] obtain m where
    d: "drop_message W h msg ?n1 = Some (?n1\<lparr>n_mem := free_mem (m_data msg) (n_mem n), n_mq := m\<rparr>)"
      and n2: "node_inv A (?n1\<lparr>n_mem := free_mem (m_data msg) (n_mem n), n_mq := m\<rparr>)"
        "mailbox (?n1\<lparr>n_mem := free_mem (m_data msg) (n_mem n), n_mq := m\<rparr>) =
           deliver (m_source msg, error_message h) (mailbox n)"
        "eq_next (Some q') (mqs m a)"
    using pop(3,5) by (auto simp: Let_def)
  let ?n2 = "?n1\<lparr>n_mem := free_mem (m_data msg) (n_mem n), n_mq := m\<rparr>"
  from eq_nextD [OF n2(3)] obtain x where x: "mqs (n_mq ?n2) a = Some (q'\<lparr>q_next := x\<rparr>)" by auto
  have loc: "\<forall>m \<in> set ms. local_source ?n2 m"
    using Cons.prems(7) by (simp add: local_source_def skynet_harbor_message_isremote_def)
  have own: "own_data ms (n_mem ?n2)" using Cons.prems(8) by simp
  have rooms: "\<forall>g bs. mailbox ?n2 g = Some bs \<longrightarrow> length bs + length ms \<le> 2 ^ 30 - 1"
    using Cons.prems(9) unfolding n2(2)
    by (cases "mailbox n (m_source msg)") (fastforce split: if_splits)+
  have rel: "q_release (q'\<lparr>q_next := x\<rparr>)" "mq_abs (q'\<lparr>q_next := x\<rparr>) = ms" using pop by simp_all
  from Cons.IH [OF n2(1) Cons.prems(2,3) x rel loc own rooms] obtain n' where
    "drop_loop n_mq put_mq (drop_message W h) a ?n2 = Some n'" "node_inv A n'"
    "mailbox n' = fold deliver (map (\<lambda>m. (m_source m, error_message h)) ms) (mailbox ?n2)"
    "n_mem n' = free_all ms (n_mem ?n2)" "\<exists>q'. mqs (n_mq n') a = Some q' \<and> q_release q'"
    "n_ctxs n' = n_ctxs ?n2" "n_total n' = n_total ?n2" by blast
  with pop(1) d n2(2) show ?case
    by (subst drop_loop.simps) (auto simp: free_all_Cons)
qed

lemma mq_release_spec:
  assumes inv: "node_inv A n" and h: "h \<noteq> 0" and a: "a \<in> A" "mqs (n_mq n) a = Some q" "q_release q"
    and ms: "\<forall>m \<in> set (mq_abs q). local_source n m" "own_data (mq_abs q) (n_mem n)"
    and room: "\<forall>g bs. mailbox n g = Some bs \<longrightarrow> length bs + length (mq_abs q) \<le> 2 ^ 30 - 1"
  shows "\<exists>n'. mq_release W h a n = Some n' \<and> node_inv (A - {a}) n' \<and> mqs (n_mq n') a = None \<and>
     mailbox n' = fold deliver (map (\<lambda>m. (m_source m, error_message h)) (mq_abs q)) (mailbox n) \<and>
     n_mem n' = free_all (mq_abs q) (n_mem n) \<and> n_ctxs n' = n_ctxs n \<and> n_total n' = n_total n"
proof -
  from drop_loop_spec [OF inv h a refl ms room, of W] obtain n1 q1 where
    n1: "drop_loop n_mq put_mq (drop_message W h) a n = Some n1" "node_inv A n1"
      "mailbox n1 = fold deliver (map (\<lambda>m. (m_source m, error_message h)) (mq_abs q)) (mailbox n)"
      "n_mem n1 = free_all (mq_abs q) (n_mem n)" "mqs (n_mq n1) a = Some q1" "q_release q1"
      "n_ctxs n1 = n_ctxs n" "n_total n1 = n_total n" by blast
  from n1(2) obtain xs where xs: "queues_rep A (n_mq n1) xs" by (auto simp: node_inv_def queues_inv_def)
  from mq_free_token [OF xs a(1)] obtain m where
    m: "mq_free a (n_mq n1) = Some m" "queues_rep (A - {a}) m xs" by blast
  have m': "m = (n_mq n1)\<lparr>mqs := (mqs (n_mq n1))(a := None)\<rparr>"
    using m(1) by (auto simp: mq_free_def n1(5) split: if_splits)
  have "node_inv (A - {a}) (n1\<lparr>n_mq := m\<rparr>)"
    by (rule node_inv_mq [OF n1(2)]) (use m(2) n1(5,6) in \<open>auto simp: queues_inv_def m'\<close>)
  moreover have "mailbox (n1\<lparr>n_mq := m\<rparr>) = mailbox n1"
    unfolding m' by (rule mailbox_marked [OF n1(2,5,6)])
  moreover have "mq_release W h a n = Some (n1\<lparr>n_mq := m\<rparr>)"
    using a n1(1) m(1) by (simp add: mq_release_def skynet_mq_release_def drop_queue_def)
  ultimately show ?thesis using n1 by (auto simp: m')
qed

section \<open>Timers\<close>

definition timer_push :: "timer_node \<Rightarrow> u32 \<times> skynet_message" where
  "timer_push t = (ev_handle (n_event t), timer_message (ev_session (n_event t)))"

lemma dispatch_list_seq: "dispatch_list W ts n = push_seq (skynet_context_push W) (map timer_push ts) n"
  by (induction ts arbitrary: n) (auto simp: timer_push_def case_prod_unfold)

lemma node_inv_timer [simp]: "node_inv A (n\<lparr>n_timer := T\<rparr>) = node_inv A n"
  unfolding node_inv_def by simp

lemma updatetime_spec:
  assumes inv: "node_inv A n" "timer_inv (n_timer n)"
    and cp: "\<not> cp < t_current_point (n_timer n)" "unat (cp - t_current_point (n_timer n)) = k" "k < 2 ^ 31"
  defines "ds \<equiv> concat (map (\<lambda>i. pending (n_timer n) (t_time (n_timer n) + of_nat i)) [1..<Suc k])"
  assumes room: "\<forall>g bs. mailbox n g = Some bs \<longrightarrow> length bs + length ds \<le> 2 ^ 30 - 1"
  shows "\<exists>n'. updatetime W cp n = Some n' \<and> node_inv A n' \<and>
     mailbox n' = fold deliver (map timer_push ds) (mailbox n)"
proof -
  from skynet_updatetime_spec [OF inv(2), of cp] cp obtain T where
    T: "skynet_updatetime cp (n_timer n) = Some (ds, False, T)" by (auto simp: Let_def ds_def)
  have i: "node_inv A (n\<lparr>n_timer := T\<rparr>)" using inv(1) by simp
  from delivery.push_seq_law [OF i, of "map timer_push ds" W] room obtain n' where
    "push_seq (skynet_context_push W) (map timer_push ds) (n\<lparr>n_timer := T\<rparr>) = Some n'" "node_inv A n'"
    "mailbox n' = fold deliver (map timer_push ds) (mailbox n)" by auto
  with T show ?thesis by (simp add: updatetime_def dispatch_list_seq)
qed

lemma concat_map_Nil: "concat (map (\<lambda>i. []) xs) = []"
  by simp

lemma timer_add_point: "t_current_point (timer_add ev t T) = t_current_point T"
  by (simp add: timer_add_def add_node_def near_link_def level_link_def Let_def)

lemma of_nat_nat_word: "0 \<le> t \<Longrightarrow> (of_nat (nat t) :: u32) = word_of_int t"
  by (simp add: of_nat_nat)

text \<open>What the wheel dispatches up to the due tick of a timer just added.\<close>

lemma pending_after_add:
  assumes inv: "timer_inv T" and t: "1 \<le> t" "t \<le> INT_MAX"
  defines "e \<equiv> t_time T + word_of_int t"
  shows "concat (map (\<lambda>i. pending (timer_add ev t T) (t_time T + of_nat i)) [1..<Suc (nat t)]) =
     concat (map (\<lambda>i. pending T (t_time T + of_nat i)) [1..<nat t]) @ pending T e @
       [\<lparr>n_expire = e, n_event = ev\<rparr>]"
proof -
  from timer_add_spec [OF inv t, of ev] have
    p: "pending (timer_add ev t T) x =
        (if x = e then pending T e @ [\<lparr>n_expire = e, n_event = ev\<rparr>] else pending T x)" for x
    by (auto simp: e_def add.commute)
  have e: "t_time T + of_nat (nat t) = e" using t of_nat_nat_word [of t] by (simp add: e_def)
  have "t_time T + of_nat i \<noteq> e" if "i < nat t" for i
    using that t of_nat_u32_inj [of i "nat t"] unfolding e [symmetric] by (simp add: INT_MAX_def)
  then have "map (\<lambda>i. pending (timer_add ev t T) (t_time T + of_nat i)) [1..<nat t] =
      map (\<lambda>i. pending T (t_time T + of_nat i)) [1..<nat t]"
    by (intro map_cong) (simp_all add: p)
  moreover have "[1..<Suc (nat t)] = [1..<nat t] @ [nat t]" using t by simp
  moreover have "pending (timer_add ev t T) (t_time T + of_nat (nat t)) =
      pending T e @ [\<lparr>n_expire = e, n_event = ev\<rparr>]" unfolding e by (simp add: p)
  ultimately show ?thesis by (simp only: map_append concat_append list.map concat.simps append_Nil2)
qed

section \<open>A node with one service\<close>

text \<open>A service with handle 1 on harbor 0, whose queue is held by the thread that created it.\<close>

definition sample_module :: skynet_module where
  "sample_module = \<lparr>md_name = ''svc'', md_create = False, md_release = False, md_signal = False\<rparr>"

definition sample_node :: node where
  "sample_node = \<lparr>n_mq = snd (skynet_mq_create 1 skynet_mq_init),
     n_handles = (skynet_handle_init 0)\<lparr>h_slot := [None, Some 0, None, None], h_index := 2\<rparr>,
     n_timer = timer_create_timer,
     n_ctxs = [0 \<mapsto> (new_context sample_module 0 False)\<lparr>c_handle := 1, c_queue := Some 0, c_ref := 1\<rparr>],
     n_ctx_brk = 1, n_mem = [0 \<mapsto> Bytes [65, 66]], n_mem_brk = 1, n_total = 1, n_monitor_exit = 0,
     n_profile = False, n_remote = None, n_harbor = 0, n_modules = [sample_module], n_modpath = [],
     n_env = (\<lambda>_. None), n_logger = 0, n_files = (\<lambda>_. None), n_current = 0, n_cpu_clock = 0\<rparr>"

text \<open>Service code that does nothing.\<close>

definition sample_services :: services where
  "sample_services = \<lparr>sv_dlopen = (\<lambda>_. False), sv_dlsym = (\<lambda>_ _. False), sv_create = (\<lambda>_ n. Some (Some 0, n)),
     sv_init = (\<lambda>_ _ _ _ n. Some (0, n)), sv_release = (\<lambda>_ _ n. Some n), sv_signal = (\<lambda>_ _ _ n. Some n),
     sv_cb = (\<lambda>_ _ _ _ _ _ _ _ n. Some (0, n)), sv_fopen = (\<lambda>_. None), sv_ctime = (\<lambda>_. [])\<rparr>"

lemma sample_node_inv: "node_inv {0} sample_node"
proof -
  have ch: "ctx_handle sample_node = (\<lambda>c. if c = 0 then 1 else 0)"
    by (auto simp: ctx_handle_def sample_node_def fun_eq_iff)
  have "\<exists>k. 2 \<le> k \<and> k \<le> 24 \<and> (4::nat) = 2 ^ k" by (rule exI [of _ 2]) simp
  moreover have "valid_handle 0 1" by (simp add: valid_handle_def mask_eq_exp_minus_1 take_bit_eq_mask)
  ultimately have "slots_inv (ctx_handle sample_node) (n_handles sample_node)"
    unfolding ch by (auto simp: slots_inv_def sample_node_def skynet_handle_init_def
        DEFAULT_SLOT_SIZE_def nth_Cons' split: if_splits)
  moreover have "names_inv (n_handles sample_node)"
    using skynet_handle_init_inv [of "\<lambda>_. 0" 0]
    by (simp add: handle_inv_def names_inv_def names_def sample_node_def)
  moreover have "queues_rep {0} (n_mq sample_node) []"
    using mq_create_token [OF queues_rep_init, of 1] by (simp add: sample_node_def skynet_mq_init_def)
  moreover have "ctxs_inv sample_node"
    by (auto simp: ctxs_ok_def sample_node_def skynet_handle_init_def skynet_mq_create_def
        skynet_mq_init_def mq_new_def split: if_splits)
  ultimately show ?thesis
    by (auto simp: node_inv_def handle_inv_def queues_inv_def) (simp add: sample_node_def split: if_splits)
qed

lemma sample_grab: "skynet_handle_grab (ctx_handle sample_node) h (n_handles sample_node) = (if h = 1 then Some 0 else None)"
proof -
  have s: "slots_inv (ctx_handle sample_node) (n_handles sample_node)"
    using sample_node_inv by (simp add: node_inv_def handle_inv_def)
  have sl: "set (h_slot (n_handles sample_node)) = {None, Some 0}"
    by (auto simp: sample_node_def skynet_handle_init_def)
  have h: "ctx_handle sample_node 0 = 1" by (simp add: ctx_handle_def sample_node_def)
  have one: "skynet_handle_grab (ctx_handle sample_node) 1 (n_handles sample_node) = Some 0"
    by (rule grab_slot [OF s, THEN iffD2]) (simp add: sl h)
  show ?thesis
  proof (cases "skynet_handle_grab (ctx_handle sample_node) h (n_handles sample_node)")
    case None
    have "h \<noteq> 1" using one None by auto
    with None show ?thesis by simp
  next
    case (Some c)
    then have "ctx_handle sample_node c = h" "Some c \<in> {None, Some 0}" unfolding grab_slot [OF s] sl by auto
    with h Some show ?thesis by auto
  qed
qed

text \<open>Only handle 1 has a mailbox, as long as its queue is the one at address 0.\<close>

lemma sample_mailbox_mq:
  assumes "mqs m 0 = Some (mq_new 1)"
  shows "mailbox (sample_node\<lparr>n_mq := m\<rparr>) h = (if h = 1 then Some [] else None)"
  using assms by (simp add: mailbox_def sample_grab) (simp add: sample_node_def mq_new_abs)

lemma sample_mailbox: "mailbox sample_node 1 = Some []" "mailbox sample_node 2 = None"
proof -
  have "mqs (n_mq sample_node) 0 = Some (mq_new 1)"
    by (simp add: sample_node_def skynet_mq_create_def skynet_mq_init_def)
  from sample_mailbox_mq [OF this] show "mailbox sample_node 1 = Some []" "mailbox sample_node 2 = None" by simp_all
qed

lemma sample_local: "h = 1 \<or> h = 2 \<Longrightarrow> skynet_harbor_message_isremote h sample_node = Some False"
  by (auto simp: skynet_harbor_message_isremote_def sample_node_def HANDLE_MASK_def)

section \<open>Properties\<close>

text \<open>
  C8. Sending to a live service of the node: the call returns the session (a fresh one when asked
  for), the message is appended to the mailbox of the destination and to no other, its packed size
  gives back the requested type byte and size when it is dispatched, and its data is a private
  copy, or the block handed over when the type says so; nothing else in the heap changes.
\<close>

theorem send_delivers:
  assumes "node_inv A n" "sz AND MESSAGE_TYPE_MASK = sz"
    "send_ok context type session data sz n" "source_ok context source n"
    "destination \<noteq> 0" "skynet_harbor_message_isremote destination n = Some False"
    "mailbox n destination = Some ms" "mq_room ms"
  shows "\<exists>n' msg. skynet_send W context source destination type session data sz n =
       Some (send_session context type session n, n') \<and> node_inv A n' \<and>
     mailbox n' = (mailbox n)(destination \<mapsto> ms @ [msg]) \<and> n_mem n' = send_mem type data sz n \<and>
     m_source msg = send_source context source n \<and> m_session msg = send_session context type session n \<and>
     m_data msg = send_data type data n \<and> m_sz msg AND MESSAGE_TYPE_MASK = sz \<and>
     int (unat (drop_bit MESSAGE_TYPE_SHIFT (m_sz msg))) = type AND 255"
proof -
  from send_live [OF assms, of W] obtain n' where
    "skynet_send W context source destination type session data sz n =
       Some (send_session context type session n, n')" "node_inv A n'"
    "mailbox n' = (mailbox n)(destination \<mapsto> ms @ [sent_message context source type session data sz n])"
    "n_mem n' = send_mem type data sz n" by blast
  with pack_sz_parts [OF assms(2)] type_byte [of type] show ?thesis
    by (intro exI [of _ n'] exI [of _ "sent_message context source type session data sz n"])
      (simp add: sent_message_def)
qed

theorem send_delivers_witness:
  "\<exists>n' msg. skynet_send sample_services None 7 1 10 5 (Some 0) 2 sample_node = Some (5, n') \<and>
     mailbox n' = (mailbox sample_node)(1 \<mapsto> [msg]) \<and> m_data msg = Some 1 \<and>
     n_mem n' 1 = Some (Bytes [65, 66, 0])"
proof -
  have ok: "send_ok None 10 5 (Some 0) 2 sample_node" "source_ok None 7 sample_node"
    "(2 :: u64) AND MESSAGE_TYPE_MASK = 2"
    by (simp_all add: send_ok_def ptype_defs read_bytes_def source_ok_def message_type_mask
        mask_eq_exp_minus_1) (simp add: sample_node_def)
  have m: "n_mem_brk sample_node = 1" "send_mem 10 (Some 0) 2 sample_node 1 = Some (Bytes [65, 66, 0])"
    by (simp_all add: send_mem_def copies_def ptype_defs read_bytes_def) (simp_all add: sample_node_def)
  have d: "send_data 10 (Some 0) sample_node = Some 1" "send_session None 10 5 sample_node = 5"
    by (simp_all add: send_session_def send_data_def copies_def ptype_defs m(1))
  have l: "skynet_harbor_message_isremote 1 sample_node = Some False" by (rule sample_local) simp
  from send_delivers [OF sample_node_inv ok(3,1,2) _ l sample_mailbox(1), of sample_services] m d
  show ?thesis by (auto simp: mq_room_def simp del: One_nat_def)
qed

text \<open>
  Sending to a handle that no service has fails with -1 and leaks nothing: no mailbox changes,
  a private copy that was made is freed again, and a block that was handed over (the type says not
  to copy) is freed exactly once.
\<close>

theorem send_to_dead_frees:
  assumes "node_inv A n" "sz AND MESSAGE_TYPE_MASK = sz"
    "send_ok context type session data sz n" "source_ok context source n"
    "destination \<noteq> 0" "skynet_harbor_message_isremote destination n = Some False"
    "mailbox n destination = None"
  shows "\<exists>n'. skynet_send W context source destination type session data sz n = Some (-1, n') \<and>
     node_inv A n' \<and> mailbox n' = mailbox n \<and>
     n_mem n' = (if type AND PTYPE_TAG_DONTCOPY = 0 then n_mem n
                 else case data of None \<Rightarrow> n_mem n | Some a \<Rightarrow> (n_mem n)(a := None))"
  using send_dead [OF assms, of W] .

theorem send_to_dead_frees_witness:
  "\<exists>n'. skynet_send sample_services None 7 2 65546 5 (Some 0) 2 sample_node = Some (-1, n') \<and>
     n_mem n' 0 = None"
proof -
  have ok: "send_ok None 65546 5 (Some 0) 2 sample_node" "source_ok None 7 sample_node"
    "(2 :: u64) AND MESSAGE_TYPE_MASK = 2"
    by (simp_all add: send_ok_def ptype_defs source_ok_def message_type_mask
        mask_eq_exp_minus_1) (simp add: sample_node_def)
  have l: "skynet_harbor_message_isremote 2 sample_node = Some False" by (rule sample_local) simp
  from send_to_dead_frees [OF sample_node_inv ok(3,1,2) _ l sample_mailbox(2), of sample_services]
  show ?thesis by (auto simp: ptype_defs)
qed

text \<open>
  C40. A session number is always positive: counting up from the last one, and starting again at 1
  after the largest \<open>int\<close>.
\<close>

theorem newsession_positive:
  assumes "0 \<le> c_session_id x" "c_session_id x \<le> INT_MAX"
  shows "skynet_context_newsession x =
     (let s = (if c_session_id x = INT_MAX then 1 else c_session_id x + 1) in (s, x\<lparr>c_session_id := s\<rparr>)) \<and>
     1 \<le> fst (skynet_context_newsession x) \<and> fst (skynet_context_newsession x) \<le> INT_MAX"
proof (cases "c_session_id x = INT_MAX")
  case True
  then have "to_int32 (c_session_id x + 1) = INT_MIN" by (simp add: to_int32_def INT_MAX_def INT_MIN_def)
  with True show ?thesis by (simp add: skynet_context_newsession_def INT_MIN_def INT_MAX_def)
next
  case False
  with assms have "to_int32 (c_session_id x + 1) = c_session_id x + 1"
    by (intro to_int32_id) (simp_all add: INT_MIN_def INT_MAX_def)
  with False assms show ?thesis by (simp add: skynet_context_newsession_def Let_def)
qed

theorem newsession_positive_witness:
  "fst (skynet_context_newsession ((new_context sample_module 0 False)\<lparr>c_session_id := 2147483647\<rparr>)) = 1"
  using newsession_positive [of "(new_context sample_module 0 False)\<lparr>c_session_id := 2147483647\<rparr>"]
  by (simp add: INT_MAX_def)

text \<open>
  C22. Releasing the queue of a dead service, which terminates, gives up no message silently: every
  message that was waiting is answered by exactly one error message to its source, in order, from
  the dead handle; the data of every message is freed; the queue itself is freed; the mailboxes of
  the other services receive nothing else. The messages that were waiting come from this node (a
  message from another node would be answered through the harbor) and own their data.
\<close>

theorem dead_queue_reports:
  assumes "node_inv A n" "h \<noteq> 0" "a \<in> A" "mqs (n_mq n) a = Some q" "q_release q"
    "\<forall>m \<in> set (mq_abs q). local_source n m" "own_data (mq_abs q) (n_mem n)"
    "\<forall>g bs. mailbox n g = Some bs \<longrightarrow> length bs + length (mq_abs q) \<le> 2 ^ 30 - 1"
  shows "\<exists>n'. mq_release W h a n = Some n' \<and> node_inv (A - {a}) n' \<and> mqs (n_mq n') a = None \<and>
     (\<forall>g. mailbox n' g = map_option (\<lambda>ms. ms @ map (\<lambda>_. error_message h)
        (filter (\<lambda>m. m_source m = g) (mq_abs q))) (mailbox n g)) \<and>
     (\<forall>x. n_mem n' x = (if Some x \<in> m_data ` set (mq_abs q) then None else n_mem n x))"
proof -
  from mq_release_spec [OF assms, of W] obtain n' where
    n': "mq_release W h a n = Some n'" "node_inv (A - {a}) n'" "mqs (n_mq n') a = None"
      "mailbox n' = fold deliver (map (\<lambda>m. (m_source m, error_message h)) (mq_abs q)) (mailbox n)"
      "n_mem n' = free_all (mq_abs q) (n_mem n)" by blast
  have "mailbox n' g = map_option (\<lambda>ms. ms @ map (\<lambda>_. error_message h)
      (filter (\<lambda>m. m_source m = g) (mq_abs q))) (mailbox n g)" for g
    unfolding n'(4) fold_deliver by (cases "mailbox n g") (simp_all add: filter_map comp_def)
  with n' show ?thesis by (simp add: free_all_eq)
qed

lemma sample_dead_queue:
  "\<exists>q. mq_abs q = [\<lparr>m_source = 1, m_session = 3, m_data = Some 0, m_sz = 2\<rparr>] \<and> q_release q \<and>
     node_inv {0, 1} (sample_node\<lparr>n_mq := (mq_upd 1 q (n_mq sample_node))\<lparr>mq_brk := 2\<rparr>\<rparr>)"
proof -
  let ?msg = "\<lparr>m_source = 1, m_session = 3, m_data = Some 0, m_sz = 2\<rparr>"
  have "mq_room (mq_abs (mq_new 9))" by (simp add: mq_new_abs mq_room_def)
  from mq_enq_spec [OF mq_new_inv this, of ?msg] obtain p where
    p: "mq_inv p" "mq_abs p = [?msg]" and same: "p = (mq_new 9)\<lparr>q_queue := q_queue p, q_head := q_head p,
      q_tail := q_tail p, q_cap := q_cap p\<rparr>" by (auto simp: mq_new_abs)
  have nx: "q_next p = None" by (subst same) (simp add: mq_new_def)
  let ?q = "p\<lparr>q_release := True\<rparr>"
  let ?m = "(mq_upd 1 ?q (n_mq sample_node))\<lparr>mq_brk := 2\<rparr>"
  have q: "mq_inv ?q" "mq_abs ?q = [?msg]" using p by (simp_all add: mq_inv_def mq_abs_def mq_count_def)
  have "gq_rep ?m []" using nx
    by (simp add: gq_rep_def sample_node_def skynet_mq_create_def skynet_mq_init_def mq_new_def)
  moreover have "q_in_global p" by (subst same) (simp add: mq_new_def)
  ultimately have "queues_rep {0, 1} ?m []"
    using q mq_new_inv [of 1] mq_new_abs [of 1]
    by (auto simp: queues_rep_def sample_node_def skynet_mq_create_def skynet_mq_init_def token_ok_def)
      (simp add: mq_new_def)
  then have "node_inv {0, 1} (sample_node\<lparr>n_mq := ?m\<rparr>)"
    by (intro node_inv_mq [OF sample_node_inv])
      (auto simp: queues_inv_def sample_node_def skynet_mq_create_def skynet_mq_init_def)
  with q show ?thesis by (intro exI [of _ ?q]) simp
qed

theorem dead_queue_reports_witness:
  "\<exists>q n'. q_release q \<and>
     mq_release sample_services 9 1 (sample_node\<lparr>n_mq := (mq_upd 1 q (n_mq sample_node))\<lparr>mq_brk := 2\<rparr>\<rparr>) = Some n' \<and>
     mailbox n' 1 = Some [error_message 9] \<and> n_mem n' 0 = None"
proof -
  let ?msg = "\<lparr>m_source = 1, m_session = 3, m_data = Some 0, m_sz = 2\<rparr>"
  from sample_dead_queue obtain q where q: "mq_abs q = [?msg]" "q_release q"
    and inv: "node_inv {0, 1} (sample_node\<lparr>n_mq := (mq_upd 1 q (n_mq sample_node))\<lparr>mq_brk := 2\<rparr>\<rparr>)" by blast
  let ?n = "sample_node\<lparr>n_mq := (mq_upd 1 q (n_mq sample_node))\<lparr>mq_brk := 2\<rparr>\<rparr>"
  have box: "mailbox ?n g = (if g = 1 then Some [] else None)" for g
    by (rule sample_mailbox_mq) (simp add: sample_node_def skynet_mq_create_def skynet_mq_init_def)
  have loc: "\<forall>m \<in> set (mq_abs q). local_source ?n m"
    using sample_local [of 1] q(1) by (simp add: local_source_def skynet_harbor_message_isremote_def)
  have own: "own_data (mq_abs q) (n_mem ?n)" by (simp add: q(1)) (simp add: sample_node_def)
  have room: "\<forall>g bs. mailbox ?n g = Some bs \<longrightarrow> length bs + length (mq_abs q) \<le> 2 ^ 30 - 1"
    unfolding box q(1) by simp
  have mq: "mqs (n_mq ?n) 1 = Some q" by simp
  from dead_queue_reports [OF inv _ _ mq q(2) loc own room, of 9 sample_services] obtain n' where
    "mq_release sample_services 9 1 ?n = Some n'"
    "mailbox n' 1 = Some [error_message 9]" "n_mem n' 0 = None"
    unfolding box q(1) by (auto simp del: One_nat_def)
  with q box show ?thesis by (intro exI [of _ q] exI [of _ n']) simp
qed

text \<open>
  C23. From the request to the message: a timeout of \<open>t > 0\<close> centiseconds returns its session, and
  when the clock has advanced by \<open>t\<close> the update turns all timers due until then into response
  messages, in the order of their ticks, the new one being the last of them with its session. A
  timeout of a service that exited meanwhile disappears.
\<close>

theorem timeout_delivers:
  assumes inv: "node_inv A n" "timer_inv (n_timer n)" and t: "1 \<le> t" "t \<le> INT_MAX"
    and cp: "\<not> t_current_point (n_timer n) + word_of_int t < t_current_point (n_timer n)"
  defines "T \<equiv> n_timer n"
  defines "ds \<equiv> concat (map (\<lambda>i. pending T (t_time T + of_nat i)) [1..<nat t]) @
      pending T (t_time T + word_of_int t)"
  assumes room: "\<forall>g bs. mailbox n g = Some bs \<longrightarrow> length bs + length ds + 1 \<le> 2 ^ 30 - 1"
  shows "\<exists>n1 n2. skynet_timeout W h t session n = Some (session, n1) \<and>
     updatetime W (t_current_point T + word_of_int t) n1 = Some n2 \<and> node_inv A n2 \<and>
     mailbox n2 = fold deliver (map timer_push ds @ [(h, timer_message session)]) (mailbox n)"
proof -
  let ?ev = "\<lparr>ev_handle = h, ev_session = session\<rparr>"
  let ?T = "timer_add ?ev t T" and ?e = "t_time T + word_of_int t"
  let ?n1 = "n\<lparr>n_timer := ?T\<rparr>" and ?node = "\<lparr>n_expire = ?e, n_event = ?ev\<rparr>"
  from timer_add_spec [OF inv(2) t, of ?ev] have
    T1: "timer_inv ?T" "t_time ?T = t_time T" by (auto simp: T_def)
  have k: "unat (word_of_int t :: u64) = nat t"
    using t by (simp add: unat_eq_nat_uint uint_word_of_int INT_MAX_def)
  have p: "concat (map (\<lambda>i. pending ?T (t_time ?T + of_nat i)) [1..<Suc (nat t)]) = ds @ [?node]"
    using pending_after_add [OF inv(2) t, of ?ev] T1 unfolding ds_def T_def by simp
  have n1: "n_timer ?n1 = ?T" by simp
  have i1: "node_inv A ?n1" "timer_inv (n_timer ?n1)" using inv(1) T1(1) by simp_all
  have c1: "\<not> t_current_point T + word_of_int t < t_current_point (n_timer ?n1)"
    using cp by (simp add: timer_add_point T_def)
  have c2: "unat (t_current_point T + word_of_int t - t_current_point (n_timer ?n1)) = nat t"
    using k unfolding n1 timer_add_point by simp
  have c3: "nat t < 2 ^ 31" using t by (simp add: INT_MAX_def)
  have r: "\<forall>g bs. mailbox ?n1 g = Some bs \<longrightarrow> length bs +
      length (concat (map (\<lambda>i. pending (n_timer ?n1) (t_time (n_timer ?n1) + of_nat i)) [1..<Suc (nat t)])) \<le> 2 ^ 30 - 1"
    unfolding n1 p using room by simp
  from updatetime_spec [OF i1 c1 c2 c3 r, of W, unfolded n1 p] obtain n2 where
    "updatetime W (t_current_point T + word_of_int t) ?n1 = Some n2" "node_inv A n2"
    "mailbox n2 = fold deliver (map timer_push (ds @ [?node])) (mailbox n)" by auto
  moreover have "timer_push ?node = (h, timer_message session)" by (simp add: timer_push_def)
  moreover have "skynet_timeout W h t session n = Some (session, ?n1)"
    using t by (simp add: skynet_timeout_def T_def)
  ultimately show ?thesis by auto
qed

theorem timeout_delivers_witness:
  "\<exists>n1 n2. skynet_timeout sample_services 1 300 8 sample_node = Some (8, n1) \<and>
     updatetime sample_services 300 n1 = Some n2 \<and> mailbox n2 1 = Some [timer_message 8]"
proof -
  have T: "n_timer sample_node = timer_create_timer" by (simp add: sample_node_def)
  have cp: "t_current_point timer_create_timer = 0" by (simp add: timer_create_timer_def)
  have box: "mailbox sample_node g = (if g = 1 then Some [] else None)" for g
    using sample_mailbox_mq [of "n_mq sample_node" g]
    by (simp add: sample_node_def skynet_mq_create_def skynet_mq_init_def)
  show ?thesis
    using timeout_delivers [OF sample_node_inv, of 300 sample_services 1 8] timer_create_inv
    by (force simp: T cp box INT_MAX_def fold_deliver concat_map_Nil split: if_splits)
qed

section \<open>Printed addresses\<close>

lemma upper_digit: "d < 16 \<Longrightarrow> digit_val (''0123456789ABCDEF'' ! d) = Some d"
proof -
  assume "d < 16"
  then have "d = 0 \<or> d = 1 \<or> d = 2 \<or> d = 3 \<or> d = 4 \<or> d = 5 \<or> d = 6 \<or> d = 7 \<or> d = 8 \<or> d = 9 \<or>
      d = 10 \<or> d = 11 \<or> d = 12 \<or> d = 13 \<or> d = 14 \<or> d = 15" by arith
  then show ?thesis by (elim disjE) (simp_all add: digit_val_def)
qed

lemma read_upper:
  "\<forall>d \<in> set ds. d < 16 \<Longrightarrow>
    read_digits 16 acc (map (\<lambda>d. ''0123456789ABCDEF'' ! d) ds) = foldl (\<lambda>a d. a * 16 + d) acc ds"
  by (induction ds arbitrary: acc) (auto simp: upper_digit simp del: nth_Cons_numeral)

lemma horner16:
  "foldl (\<lambda>a d. a * 16 + d) (n div 16 ^ m) (map (\<lambda>i. n div 16 ^ (m - 1 - i) mod 16) [0..<m]) = (n::nat)"
proof (induction m)
  case (Suc k)
  have "n div 16 ^ Suc k * 16 + n div 16 ^ k mod 16 = n div 16 ^ k"
    by (simp add: div_mult2_eq mult.commute [of 16])
  moreover have "map (\<lambda>i. n div 16 ^ (Suc k - 1 - i) mod 16) [0..<Suc k] =
      n div 16 ^ k mod 16 # map (\<lambda>i. n div 16 ^ (k - 1 - i) mod 16) [0..<k]"
    by (simp add: upt_conv_Cons map_Suc_upt [symmetric] comp_def del: upt_Suc)
  ultimately show ?case using Suc by (simp del: upt_Suc)
qed simp

lemma hex_digit_unat: "unat (drop_bit (k * 4) (h :: u32) AND 15) = unat h div 16 ^ k mod 16"
proof -
  have "(15 :: u32) = mask 4" by (simp add: mask_eq_exp_minus_1)
  then have "unat (drop_bit (k * 4) h AND 15) = unat (drop_bit (k * 4) h) mod 2 ^ 4" by (simp only: and_mask_unat)
  also have "unat (drop_bit (k * 4) h) = drop_bit (k * 4) (unat h)" by (rule unat_drop_bit_eq)
  also have "\<dots> = unat h div 2 ^ (k * 4)" by (rule drop_bit_eq_div)
  also have "(2::nat) ^ (k * 4) = 16 ^ k" by (simp add: mult.commute [of k] power_mult)
  finally show ?thesis by simp
qed

lemma id_to_hex_digits:
  "tl (id_to_hex h) = map (\<lambda>d. ''0123456789ABCDEF'' ! d) (map (\<lambda>i. unat h div 16 ^ (8 - 1 - i) mod 16) [0..<8])"
  by (simp add: id_to_hex_def hex_digit_unat del: upt_rec_numeral)

lemma strtoul16_id_to_hex: "ucast (strtoul16 (tl (id_to_hex h))) = h"
proof -
  let ?ds = "map (\<lambda>i. unat h div 16 ^ (8 - 1 - i) mod 16) [0..<8]"
  have "unat h < 2 ^ 32" using unsigned_less [of h] by simp
  then have z: "unat h div 16 ^ 8 = 0" by simp
  have ds: "\<forall>d \<in> set ?ds. d < 16" by auto
  have r: "read_digits 16 0 (tl (id_to_hex h)) = unat h"
    using horner16 [of "unat h" 8] unfolding id_to_hex_digits read_upper [OF ds] z .
  have "hex_string (tl (id_to_hex h))"
    unfolding hex_string_def id_to_hex_digits using upper_digit
    by (auto simp del: upt_rec_numeral nth_Cons_numeral)
  moreover have "unat h < 2 ^ 64" using \<open>unat h < 2 ^ 32\<close> by simp
  ultimately have "strtoul16 (tl (id_to_hex h)) = of_nat (unat h)" using strtoul16_hex r by metis
  moreover have "ucast (ucast h :: u64) = h" by (rule bit_word_eqI) (auto simp: bit_simps)
  ultimately show ?thesis by simp
qed

text \<open>
  The printed address of a service leads back to it: the text returned by a launch (a colon and
  eight upper-case digits) and the one of a registration or a query (\<open>:%x\<close>) are both read back by
  \<open>skynet_queryname\<close> as the same handle, without a change of the node.
\<close>

theorem printed_handle_roundtrip:
  "skynet_queryname W context (id_to_hex h) n = Some (h, n) \<and>
   skynet_queryname W context ('':'' @ fmt_x h) n = Some (h, n) \<and> length (id_to_hex h) = 9"
  using strtoul16_id_to_hex [of h] strtoul16_fmt_x [of h]
  by (simp add: skynet_queryname_def id_to_hex_def)

end
