(* ===== verification/Skynet_Cmd.thy ===== *)
theory Skynet_Cmd
  imports Skynet_Messages
begin

text \<open>
  The text commands of \<^verbatim>\<open>skynet-src/skynet_server.c\<close> (\<open>skynet_command\<close>) and the start of a node of
  \<^verbatim>\<open>skynet-src/skynet_start.c\<close>. A command returns \<open>Some (r, n)\<close> where \<open>r\<close> is the returned C string,
  \<open>None\<close> of it being \<open>NULL\<close>; a result printed into \<open>context->result\<close> is stored there too. A
  parameter that is \<open>NULL\<close> where the code dereferences it aborts.
\<close>

unbundle bit_operations_syntax

section \<open>Commands\<close>

type_synonym cmd_result = "(string option \<times> node) option"

text \<open>Printing into \<open>context->result\<close> and returning it.\<close>

definition set_result :: "addr \<Rightarrow> string \<Rightarrow> node \<Rightarrow> cmd_result" where
  "set_result c text n = do {
     x \<leftarrow> n_ctxs n c;
     Some (Some text, ctx_upd c (x\<lparr>c_result := text\<rparr>) n)
   }"

definition cmd_timeout :: "services \<Rightarrow> addr \<Rightarrow> string option \<Rightarrow> node \<Rightarrow> cmd_result" where
  "cmd_timeout W c param n = do {
     p \<leftarrow> param;
     let ti = to_int32 (strtol10 p);
     x \<leftarrow> n_ctxs n c;
     let (session, x') = skynet_context_newsession x;
     (_, n1) \<leftarrow> skynet_timeout W (c_handle x') ti session (ctx_upd c x' n);
     set_result c (fmt_d session) n1
   }"

definition namehandle :: "u32 \<Rightarrow> string \<Rightarrow> node \<Rightarrow> cmd_result" where
  "namehandle handle name n = do {
     (r, hs) \<leftarrow> skynet_handle_namehandle handle name (n_handles n);
     Some (r, n\<lparr>n_handles := hs\<rparr>)
   }"

definition cmd_reg :: "services \<Rightarrow> addr \<Rightarrow> string option \<Rightarrow> node \<Rightarrow> cmd_result" where
  "cmd_reg W c param n = do {
     x \<leftarrow> n_ctxs n c;
     (case param of
        None \<Rightarrow> set_result c ('':'' @ fmt_x (c_handle x)) n
      | Some p \<Rightarrow>
          (if p = [] then set_result c ('':'' @ fmt_x (c_handle x)) n
           else if take 1 p = ''.'' then namehandle (c_handle x) (tl p) n
           else do {
             n1 \<leftarrow> skynet_error W (Some c) (''Can'' @ [CHR 0x27] @ ''t register global name '' @ p @ '' in C'') n;
             Some (None, n1)
           }))
   }"

definition cmd_query :: "services \<Rightarrow> addr \<Rightarrow> string option \<Rightarrow> node \<Rightarrow> cmd_result" where
  "cmd_query W c param n = do {
     p \<leftarrow> param;
     (if take 1 p = ''.'' then do {
        h \<leftarrow> findname (tl p) n;
        (if h \<noteq> 0 then set_result c ('':'' @ fmt_x h) n else Some (None, n))
      }
      else Some (None, n))
   }"

text \<open>A missing word leaves its buffer unwritten, and reading it is undefined.\<close>

definition cmd_name :: "services \<Rightarrow> addr \<Rightarrow> string option \<Rightarrow> node \<Rightarrow> cmd_result" where
  "cmd_name W c param n = do {
     p \<leftarrow> param;
     (name, rest) \<leftarrow> scan_word p;
     (handle, _) \<leftarrow> scan_word rest;
     (if take 1 handle \<noteq> '':'' then Some (None, n)
      else do {
        let handle_id = (ucast (strtoul16 (tl handle)) :: u32);
        (if handle_id = 0 then Some (None, n)
         else if take 1 name = ''.'' then namehandle handle_id (tl name) n
         else do {
           n1 \<leftarrow> skynet_error W (Some c) (''Can'' @ [CHR 0x27] @ ''t set global name '' @ name @ '' in C'') n;
           Some (None, n1)
         })
      })
   }"

definition cmd_exit :: "services \<Rightarrow> addr \<Rightarrow> string option \<Rightarrow> node \<Rightarrow> cmd_result" where
  "cmd_exit W c param n = do { n1 \<leftarrow> handle_exit W c 0 n; Some (None, n1) }"

definition tohandle :: "services \<Rightarrow> addr \<Rightarrow> string \<Rightarrow> node \<Rightarrow> (u32 \<times> node) option" where
  "tohandle W c p n =
     (if take 1 p = '':'' then Some (ucast (strtoul16 (tl p)), n)
      else if take 1 p = ''.'' then do { h \<leftarrow> findname (tl p) n; Some (h, n) }
      else do {
        n1 \<leftarrow> skynet_error W (Some c) (''Can'' @ [CHR 0x27] @ ''t convert '' @ p @ '' to handle'') n;
        Some (0, n1)
      })"

definition cmd_kill :: "services \<Rightarrow> addr \<Rightarrow> string option \<Rightarrow> node \<Rightarrow> cmd_result" where
  "cmd_kill W c param n = do {
     p \<leftarrow> param;
     (handle, n1) \<leftarrow> tohandle W c p n;
     (if handle \<noteq> 0 then do { n2 \<leftarrow> handle_exit W c handle n1; Some (None, n2) } else Some (None, n1))
   }"

text \<open>The module name and the arguments of a launch.\<close>

definition launch_args :: "string \<Rightarrow> string \<times> string option" where
  "launch_args p =
     (let (md, rest) = strsep (Some p) [CHR '' '', CHR 0x09, CHR 0x0D, CHR 0x0A] in
      (the md, fst (strsep rest [CHR 0x0D, CHR 0x0A])))"

definition cmd_launch :: "services \<Rightarrow> addr \<Rightarrow> string option \<Rightarrow> node \<Rightarrow> cmd_result" where
  "cmd_launch W c param n = do {
     p \<leftarrow> param;
     let (md, args) = launch_args p;
     (inst, n1) \<leftarrow> skynet_context_new W md args n;
     (case inst of
        None \<Rightarrow> Some (None, n1)
      | Some i \<Rightarrow> do { y \<leftarrow> n_ctxs n1 i; set_result c (id_to_hex (c_handle y)) n1 })
   }"

definition cmd_getenv :: "services \<Rightarrow> addr \<Rightarrow> string option \<Rightarrow> node \<Rightarrow> cmd_result" where
  "cmd_getenv W c param n = do { p \<leftarrow> param; Some (skynet_getenv p n, n) }"

definition cmd_setenv :: "services \<Rightarrow> addr \<Rightarrow> string option \<Rightarrow> node \<Rightarrow> cmd_result" where
  "cmd_setenv W c param n = do {
     p \<leftarrow> param;
     let key = takeWhile (\<lambda>d. d \<noteq> CHR '' '') p;
     (case dropWhile (\<lambda>d. d \<noteq> CHR '' '') p of
        [] \<Rightarrow> Some (None, n)
      | _ # val \<Rightarrow> do { n1 \<leftarrow> skynet_setenv key val n; Some (None, n1) })
   }"

definition cmd_starttime :: "services \<Rightarrow> addr \<Rightarrow> string option \<Rightarrow> node \<Rightarrow> cmd_result" where
  "cmd_starttime W c param n = set_result c (fmt_u (skynet_starttime (n_timer n))) n"

definition cmd_abort :: "services \<Rightarrow> addr \<Rightarrow> string option \<Rightarrow> node \<Rightarrow> cmd_result" where
  "cmd_abort W c param n = do { n1 \<leftarrow> skynet_handle_retireall W n; Some (None, n1) }"

definition cmd_monitor :: "services \<Rightarrow> addr \<Rightarrow> string option \<Rightarrow> node \<Rightarrow> cmd_result" where
  "cmd_monitor W c param n =
     (if param = None \<or> param = Some [] then
        (if n_monitor_exit n \<noteq> 0 then set_result c ('':'' @ fmt_x (n_monitor_exit n)) n else Some (None, n))
      else do {
        p \<leftarrow> param;
        (handle, n1) \<leftarrow> tohandle W c p n;
        Some (None, n1\<lparr>n_monitor_exit := handle\<rparr>)
      })"

definition cmd_stat :: "services \<Rightarrow> addr \<Rightarrow> string option \<Rightarrow> node \<Rightarrow> cmd_result" where
  "cmd_stat W c param n = do {
     p \<leftarrow> param;
     x \<leftarrow> n_ctxs n c;
     (if strcmp p ''mqlen'' = 0 then do {
        q \<leftarrow> c_queue x;
        mq \<leftarrow> mqs (n_mq n) q;
        set_result c (fmt_d (skynet_mq_length mq)) n
      }
      else if strcmp p ''endless'' = 0 then
        (if c_endless x then set_result c ''1'' (ctx_upd c (x\<lparr>c_endless := False\<rparr>) n)
         else set_result c ''0'' n)
      else if strcmp p ''cpu'' = 0 then set_result c (fmt_usec (c_cpu_cost x)) n
      else if strcmp p ''time'' = 0 then
        (if c_profile x then set_result c (fmt_usec (n_cpu_clock n - c_cpu_start x)) n
         else set_result c ''0'' n)
      else if strcmp p ''message'' = 0 then set_result c (fmt_d (c_message_count x)) n
      else set_result c [] n)
   }"

definition cmd_logon :: "services \<Rightarrow> addr \<Rightarrow> string option \<Rightarrow> node \<Rightarrow> cmd_result" where
  "cmd_logon W c param n = do {
     p \<leftarrow> param;
     (handle, n) \<leftarrow> tohandle W c p n;
     (if handle = 0 then Some (None, n)
      else do {
        (ctx, n) \<leftarrow> handle_grab handle n;
        (case ctx of
           None \<Rightarrow> Some (None, n)
         | Some d \<Rightarrow> do {
             x \<leftarrow> n_ctxs n d;
             n \<leftarrow> (if c_logfile x = None then do {
                    (f, n) \<leftarrow> skynet_log_open W c handle n;
                    (case f of
                       None \<Rightarrow> Some n
                     | Some f \<Rightarrow> do {
                         y \<leftarrow> n_ctxs n d;
                         (if c_logfile y = None then Some (ctx_upd d (y\<lparr>c_logfile := Some f\<rparr>) n)
                          else fclose f n)
                       })
                  }
                  else Some n);
             (_, n) \<leftarrow> skynet_context_release W d n;
             Some (None, n)
           })
      })
   }"

definition cmd_logoff :: "services \<Rightarrow> addr \<Rightarrow> string option \<Rightarrow> node \<Rightarrow> cmd_result" where
  "cmd_logoff W c param n = do {
     p \<leftarrow> param;
     (handle, n) \<leftarrow> tohandle W c p n;
     (if handle = 0 then Some (None, n)
      else do {
        (ctx, n) \<leftarrow> handle_grab handle n;
        (case ctx of
           None \<Rightarrow> Some (None, n)
         | Some d \<Rightarrow> do {
             x \<leftarrow> n_ctxs n d;
             n \<leftarrow> (case c_logfile x of
                    None \<Rightarrow> Some n
                  | Some f \<Rightarrow> skynet_log_close W c f handle (ctx_upd d (x\<lparr>c_logfile := None\<rparr>) n));
             (_, n) \<leftarrow> skynet_context_release W d n;
             Some (None, n)
           })
      })
   }"

definition cmd_signal :: "services \<Rightarrow> addr \<Rightarrow> string option \<Rightarrow> node \<Rightarrow> cmd_result" where
  "cmd_signal W c param n = do {
     p \<leftarrow> param;
     (handle, n) \<leftarrow> tohandle W c p n;
     (if handle = 0 then Some (None, n)
      else do {
        (ctx, n) \<leftarrow> handle_grab handle n;
        (case ctx of
           None \<Rightarrow> Some (None, n)
         | Some d \<Rightarrow> do {
             x \<leftarrow> n_ctxs n d;
             let sig = (case strchr p (CHR '' '') of None \<Rightarrow> 0 | Some s \<Rightarrow> to_int32 (strtol0 s));
             n \<leftarrow> skynet_module_instance_signal W (c_mod x) (c_instance x) sig n;
             (_, n) \<leftarrow> skynet_context_release W d n;
             Some (None, n)
           })
      })
   }"

definition cmd_funcs :: "(string \<times> (services \<Rightarrow> addr \<Rightarrow> string option \<Rightarrow> node \<Rightarrow> cmd_result)) list" where
  "cmd_funcs = [(''TIMEOUT'', cmd_timeout), (''REG'', cmd_reg), (''QUERY'', cmd_query), (''NAME'', cmd_name),
     (''EXIT'', cmd_exit), (''KILL'', cmd_kill), (''LAUNCH'', cmd_launch), (''GETENV'', cmd_getenv),
     (''SETENV'', cmd_setenv), (''STARTTIME'', cmd_starttime), (''ABORT'', cmd_abort),
     (''MONITOR'', cmd_monitor), (''STAT'', cmd_stat), (''LOGON'', cmd_logon), (''LOGOFF'', cmd_logoff),
     (''SIGNAL'', cmd_signal)]"

fun find_command :: "(string \<times> 'f) list \<Rightarrow> string \<Rightarrow> 'f option" where
  "find_command [] cmd = None"
| "find_command ((name, func) # rest) cmd =
     (if strcmp cmd name = 0 then Some func else find_command rest cmd)"

definition skynet_command :: "services \<Rightarrow> addr \<Rightarrow> string \<Rightarrow> string option \<Rightarrow> node \<Rightarrow> cmd_result" where
  "skynet_command W c cmd param n =
     (case find_command cmd_funcs cmd of
        Some func \<Rightarrow> func W c param n
      | None \<Rightarrow> Some (None, n))"

section \<open>Starting a node\<close>

record skynet_config =
  cfg_thread :: nat
  cfg_harbor :: int
  cfg_profile :: bool
  cfg_module_path :: string
  cfg_bootstrap :: string
  cfg_logger :: "string option"
  cfg_logservice :: string

text \<open>
  The parsing of \<open>bootstrap\<close>: the first word, and the rest of the line from the length of that
  word, without leading blanks. An empty line has no word.
\<close>

definition bootstrap_args :: "string \<Rightarrow> (string \<times> string) option" where
  "bootstrap_args cmdline = do {
     (name, _) \<leftarrow> scan_word cmdline;
     let arg_pos = length name;
     Some (name, if arg_pos < length cmdline then dropWhile (\<lambda>c. c = CHR '' '') (drop arg_pos cmdline) else [])
   }"

text \<open>\<open>None\<close> where the program exits.\<close>

definition bootstrap :: "services \<Rightarrow> addr \<Rightarrow> string \<Rightarrow> node \<Rightarrow> node option" where
  "bootstrap W logger cmdline n = do {
     (name, args) \<leftarrow> bootstrap_args cmdline;
     (ctx, n1) \<leftarrow> skynet_context_new W name (Some args) n;
     (case ctx of None \<Rightarrow> None | Some _ \<Rightarrow> Some n1)
   }"

text \<open>The state before anything is initialised, except the environment and the globals.\<close>

definition node_before_start :: "(string \<Rightarrow> string option) \<Rightarrow> node" where
  "node_before_start env = \<lparr>n_mq = skynet_mq_init, n_handles = skynet_handle_init 0,
     n_timer = timer_create_timer, n_ctxs = (\<lambda>_. None), n_ctx_brk = 0, n_mem = (\<lambda>_. None), n_mem_brk = 0,
     n_total = 0, n_monitor_exit = 0, n_profile = False, n_remote = None, n_harbor = - 1, n_modules = [],
     n_modpath = [], n_env = env, n_logger = 0, n_files = (\<lambda>_. None), n_current = 0, n_cpu_clock = 0\<rparr>"

definition skynet_init :: "skynet_config \<Rightarrow> u32 \<Rightarrow> u32 \<Rightarrow> u64 \<Rightarrow> node \<Rightarrow> node" where
  "skynet_init cfg sec cs now n =
     (let n1 = skynet_harbor_init (cfg_harbor cfg) (skynet_globalinit n);
          n2 = n1\<lparr>n_handles := skynet_handle_init (cfg_harbor cfg), n_mq := skynet_mq_init\<rparr>;
          n3 = skynet_module_init (cfg_module_path cfg) n2;
          n4 = n3\<lparr>n_timer := skynet_timer_init sec cs now\<rparr>
      in skynet_profile_enable (cfg_profile cfg) n4)"

text \<open>\<open>skynet_start\<close> up to the start of the threads.\<close>

definition skynet_start :: "services \<Rightarrow> skynet_config \<Rightarrow> u32 \<Rightarrow> u32 \<Rightarrow> u64 \<Rightarrow> node \<Rightarrow> node option" where
  "skynet_start W cfg sec cs now n = do {
     let n1 = skynet_init cfg sec cs now n;
     (ctx, n2) \<leftarrow> skynet_context_new W (cfg_logservice cfg) (cfg_logger cfg) n1;
     logger \<leftarrow> ctx;
     x \<leftarrow> n_ctxs n2 logger;
     (_, n3) \<leftarrow> namehandle (c_handle x) ''logger'' n2;
     bootstrap W logger (cfg_bootstrap cfg) n3
   }"

section \<open>Threads\<close>

definition weight :: "int list" where
  "weight = [-1, -1, -1, -1, 0, 0, 0, 0, 1, 1, 1, 1, 1, 1, 1, 1, 2, 2, 2, 2, 2, 2, 2, 2, 3, 3, 3, 3, 3, 3, 3, 3]"

definition worker_weight :: "nat \<Rightarrow> int" where
  "worker_weight i = (if i < length weight then weight ! i else 0)"

record monitor =
  mon_count :: int
  mon_sleep :: int
  mon_quit :: bool

text \<open>Whether \<open>wakeup\<close> signals a sleeping worker.\<close>

definition wakeup :: "monitor \<Rightarrow> int \<Rightarrow> bool" where
  "wakeup m busy \<longleftrightarrow> mon_sleep m \<ge> mon_count m - busy"

definition signal_hup :: "services \<Rightarrow> node \<Rightarrow> node option" where
  "signal_hup W n = do {
     logger \<leftarrow> findname ''logger'' n;
     (if logger \<noteq> 0 then do {
        (_, n1) \<leftarrow> skynet_context_push W logger
          \<lparr>m_source = 0, m_session = 0, m_data = None,
           m_sz = push_bit MESSAGE_TYPE_SHIFT (word_of_int PTYPE_SYSTEM)\<rparr> n;
        Some n1
      }
      else Some n)
   }"

text \<open>One round of a worker: \<open>True\<close> when it goes to sleep because it has no queue.\<close>

definition worker_round ::
  "services \<Rightarrow> int \<Rightarrow> addr option \<Rightarrow> skynet_monitor \<Rightarrow> node
    \<Rightarrow> (bool \<times> addr option \<times> skynet_monitor \<times> node) option" where
  "worker_round W w q sm n = do {
     (q', sm', n') \<leftarrow> skynet_context_message_dispatch W q w sm n;
     Some (q' = None, q', sm', n')
   }"

text \<open>One round of the monitor thread over the monitors of the workers.\<close>

primrec monitor_round :: "services \<Rightarrow> skynet_monitor list \<Rightarrow> node \<Rightarrow> (skynet_monitor list \<times> node) option" where
  "monitor_round W [] n = Some ([], n)"
| "monitor_round W (sm # sms) n = do {
     (sm', n1) \<leftarrow> skynet_monitor_check W sm n;
     (sms', n2) \<leftarrow> monitor_round W sms n1;
     Some (sm' # sms', n2)
   }"

end
