(* ===== verification/Skynet_Launch.thy ===== *)
theory Skynet_Launch
  imports Skynet_Cmd
begin

text \<open>
  The life of a service in a node: what \<open>skynet_context_new\<close> does when the service starts and when
  its \<open>init\<close> fails, and what the retirement of a handle leaves behind.
\<close>

unbundle bit_operations_syntax

section \<open>The log\<close>

text \<open>The handle of the logger as \<open>skynet_error\<close> finds it, 0 when there is none.\<close>

definition logger_of :: "node \<Rightarrow> u32" where
  "logger_of n = (if n_logger n = 0 then
     (case map_of (names (n_handles n)) ''logger'' of None \<Rightarrow> 0 | Some h \<Rightarrow> h) else n_logger n)"

definition log_message :: "u32 \<Rightarrow> addr \<Rightarrow> nat \<Rightarrow> skynet_message" where
  "log_message source a len = \<lparr>m_source = source, m_session = 0, m_data = Some a,
     m_sz = pack_sz (of_nat len) PTYPE_TEXT\<rparr>"

text \<open>The mailboxes after one line was logged.\<close>

definition logged :: "node \<Rightarrow> u32 \<Rightarrow> nat \<Rightarrow> u32 \<Rightarrow> skynet_message list option" where
  "logged n source len =
     (if logger_of n = 0 then mailbox n
      else deliver (logger_of n, log_message source (n_mem_brk n) len) (mailbox n))"

lemma node_inv_logger [simp]: "node_inv A (n\<lparr>n_logger := l\<rparr>) = node_inv A n"
  unfolding node_inv_def by simp

lemma skynet_error_spec:
  assumes inv: "node_inv A n" and ctx: "\<forall>c. context = Some c \<longrightarrow> n_ctxs n c \<noteq> None"
    and len: "length msg < 2 ^ 30"
    and room: "\<forall>g bs. mailbox n g = Some bs \<longrightarrow> mq_room bs"
  defines "src \<equiv> (case context of None \<Rightarrow> 0 | Some c \<Rightarrow> ctx_handle n c)"
  shows "\<exists>n'. skynet_error W context msg n = Some n' \<and> node_inv A n' \<and>
     mailbox n' = logged n src (length msg) \<and> n_ctxs n' = n_ctxs n \<and> n_ctx_brk n' = n_ctx_brk n \<and>
     n_handles n' = n_handles n \<and> n_total n' = n_total n \<and> n_harbor n' = n_harbor n \<and>
     (\<forall>a. n_mem n a \<noteq> None \<longrightarrow> n_mem n' a \<noteq> None)"
proof -
  have f: "(if n_logger n = 0 then findname ''logger'' n else Some (n_logger n)) = Some (logger_of n)"
    using findname_spec [of "n_handles n" "''logger''"] inv
    by (simp add: findname_def logger_of_def node_inv_def handle_inv_def)
  show ?thesis
  proof (cases "logger_of n = 0")
    case True
    with f inv show ?thesis by (simp add: skynet_error_def logged_def)
  next
    case False
    let ?n = "n\<lparr>n_logger := logger_of n, n_mem := (n_mem n)(n_mem_brk n \<mapsto> Bytes (map of_char msg @ [0])),
       n_mem_brk := Suc (n_mem_brk n)\<rparr>"
    let ?m = "log_message src (n_mem_brk n) (length msg)"
    have i: "node_inv A ?n" using inv by (auto simp: node_inv_def less_SucI)
    have src: "(case context of None \<Rightarrow> Some 0 | Some c \<Rightarrow> map_option c_handle (n_ctxs ?n c)) = Some src"
      using ctx by (cases "context") (auto simp: src_def ctx_handle_def)
    have e: "skynet_error W context msg n =
        do { (_, n2) \<leftarrow> skynet_context_push W (logger_of n) ?m ?n; Some n2 }"
      using False len unfolding skynet_error_def f
      by (simp add: mem_alloc_def Let_def src log_message_def)
    have box: "mailbox ?n = mailbox n" by simp
    show ?thesis
    proof (cases "mailbox n (logger_of n)")
      case None
      with context_push_dead [OF i, of "logger_of n" W ?m] e i False show ?thesis
        by (simp add: logged_def)
    next
      case (Some ms)
      with room have "mq_room ms" by blast
      from context_push_live [OF i _ this, of "logger_of n" W ?m] Some obtain m where
        "skynet_context_push W (logger_of n) ?m ?n = Some (0, ?n\<lparr>n_mq := m\<rparr>)" "node_inv A (?n\<lparr>n_mq := m\<rparr>)"
        "mailbox (?n\<lparr>n_mq := m\<rparr>) = (mailbox n)(logger_of n \<mapsto> ms @ [?m])" unfolding box by blast
      with e False Some show ?thesis by (simp add: logged_def)
    qed
  qed
qed

section \<open>Allocation of a context\<close>

lemma context_alloc_spec:
  assumes inv: "node_inv A n" and room: "slots_room (n_handles n)"
  shows "\<exists>q h n' x. context_alloc m inst n = Some (n_ctx_brk n, q, n') \<and> node_inv (insert q A) n' \<and> q \<notin> A \<and>
     mailbox n h = None \<and> mailbox n' = (mailbox n)(h \<mapsto> []) \<and> valid_handle (h_harbor (n_handles n)) h \<and>
     n_ctxs n (n_ctx_brk n) = None \<and> n_ctxs n' = (n_ctxs n)(n_ctx_brk n \<mapsto> x) \<and>
     x = (new_context m inst (n_profile n))\<lparr>c_handle := h, c_queue := Some q\<rparr> \<and>
     n_total n' = n_total n + 1 \<and> n_mem n' = n_mem n \<and> n_mem_brk n' = n_mem_brk n \<and> n_logger n' = n_logger n \<and>
     names (n_handles n') = names (n_handles n) \<and> n_harbor n' = n_harbor n \<and>
     skynet_handle_grab (ctx_handle n') h (n_handles n') = Some (n_ctx_brk n)"
proof -
  let ?c = "n_ctx_brk n" and ?x0 = "new_context m inst (n_profile n)"
  have ok: "ctxs_inv n" and hi: "handle_inv (ctx_handle n) (n_handles n)" and qi: "queues_inv A (n_mq n)"
    using inv by (auto simp: node_inv_def)
  have dead: "n_ctxs n ?c = None"
  proof (rule ccontr)
    assume "n_ctxs n ?c \<noteq> None"
    then obtain x where x: "n_ctxs n ?c = Some x" by blast
    from ctxs_okD [OF ok x] show False by blast
  qed
  have h0: "ctx_handle (n\<lparr>n_ctxs := (n_ctxs n)(?c := Some ?x0), n_ctx_brk := Suc ?c\<rparr>) = ctx_handle n"
    using dead by (auto simp: ctx_handle_def new_context_def fun_eq_iff)
  have nslot: "Some ?c \<notin> set (h_slot (n_handles n))" using ok dead by (auto simp: ctxs_ok_def)
  have si: "slots_inv (ctx_handle n) (n_handles n)" "names_inv (n_handles n)" using hi by (auto simp: handle_inv_def)
  from register_spec [OF si(1) room nslot] obtain h hs where
    r: "skynet_handle_register (ctx_handle n) ?c (n_handles n) = Some (h, hs)"
      "slots_inv ((ctx_handle n)(?c := h)) hs" "skynet_handle_grab (ctx_handle n) h (n_handles n) = None"
      "valid_handle (h_harbor (n_handles n)) h"
      and g: "\<And>y. skynet_handle_grab ((ctx_handle n)(?c := h)) y hs =
         (if y = h then Some ?c else skynet_handle_grab (ctx_handle n) y (n_handles n))"
      and nm: "h_name hs = h_name (n_handles n)" "h_name_count hs = h_name_count (n_handles n)"
        "h_name_cap hs = h_name_cap (n_handles n)" by blast
  have hi': "handle_inv ((ctx_handle n)(?c := h)) hs"
    using r(2) names_cong(2) [OF nm] si(2) by (simp add: handle_inv_def)
  let ?q = "mq_brk (n_mq n)" and ?mq = "snd (skynet_mq_create h (n_mq n))"
  let ?x = "?x0\<lparr>c_handle := h, c_queue := Some ?q\<rparr>"
  have "\<exists>n'. context_alloc m inst n = Some (?c, ?q, n') \<and> n_ctxs n' = (n_ctxs n)(?c \<mapsto> ?x) \<and>
      n_handles n' = hs \<and> n_mq n' = ?mq \<and> n_ctx_brk n' = Suc ?c \<and> n_total n' = n_total n + 1 \<and>
      n_mem n' = n_mem n \<and> n_mem_brk n' = n_mem_brk n \<and> n_logger n' = n_logger n \<and> n_harbor n' = n_harbor n"
    using r(1) by (simp add: context_alloc_def Let_def h0 skynet_mq_create_def context_inc_def)
  then obtain n' where a: "context_alloc m inst n = Some (?c, ?q, n')" and ctxs: "n_ctxs n' = (n_ctxs n)(?c \<mapsto> ?x)"
    and hs: "n_handles n' = hs" "n_mq n' = ?mq" "n_ctx_brk n' = Suc ?c"
    and oth: "n_total n' = n_total n + 1" "n_mem n' = n_mem n" "n_mem_brk n' = n_mem_brk n"
      "n_logger n' = n_logger n" "n_harbor n' = n_harbor n" by blast
  have ch: "ctx_handle n' = (ctx_handle n)(?c := h)" using ctxs by (auto simp: ctx_handle_def fun_eq_iff)
  from qi obtain xs where xs: "queues_rep A (n_mq n) xs" by (auto simp: queues_inv_def)
  have fresh: "mqs (n_mq n) ?q = None"
    using xs by (cases "mqs (n_mq n) ?q") (auto simp: queues_rep_def)
  have qs: "mqs ?mq = (mqs (n_mq n))(?q \<mapsto> mq_new h)" by (simp add: skynet_mq_create_def)
  have "ctxs_ok ((n_ctxs n)(?c \<mapsto> ?x)) (Suc ?c) (h_slot hs) ((mqs (n_mq n))(?q \<mapsto> mq_new h))"
    unfolding ctxs_ok_def
  proof (intro conjI allI impI)
    fix d assume "Some d \<in> set (h_slot hs)"
    then have "skynet_handle_grab ((ctx_handle n)(?c := h)) (((ctx_handle n)(?c := h)) d) hs = Some d"
      using grab_slot [OF r(2)] by simp
    then show "((n_ctxs n)(?c \<mapsto> ?x)) d \<noteq> None"
      using ok grab_slot [OF si(1)] by (auto simp: g ctxs_ok_def split: if_splits)
  next
    fix d y assume y: "((n_ctxs n)(?c \<mapsto> ?x)) d = Some y"
    have "1 \<le> c_ref y \<and> d < Suc ?c \<and> (\<exists>q mq. c_queue y = Some q \<and>
        ((mqs (n_mq n))(?q \<mapsto> mq_new h)) q = Some mq \<and> \<not> q_release mq \<and> q_handle mq = c_handle y)"
    proof (cases "d = ?c")
      case True
      with y show ?thesis by (auto simp: new_context_def mq_new_def)
    next
      case False
      with y have "n_ctxs n d = Some y" by simp
      from ctxs_okD [OF ok this] fresh show ?thesis by (metis fun_upd_other less_SucI option.distinct(1))
    qed
    then show "1 \<le> c_ref y" "d < Suc ?c" "\<exists>q mq. c_queue y = Some q \<and>
        ((mqs (n_mq n))(?q \<mapsto> mq_new h)) q = Some mq \<and> \<not> q_release mq \<and> q_handle mq = c_handle y" by auto
  next
    fix d e y z assume yz: "((n_ctxs n)(?c \<mapsto> ?x)) d = Some y" "((n_ctxs n)(?c \<mapsto> ?x)) e = Some z"
      "c_queue y = c_queue z"
    have old: "c_queue u \<noteq> Some ?q" if "n_ctxs n b = Some u" for b u
      using ctxs_okD [OF ok that] fresh by (metis option.distinct(1) option.inject)
    consider "d = ?c" "e = ?c" | "d = ?c" "n_ctxs n e = Some z" "c_queue y = Some ?q"
      | "e = ?c" "n_ctxs n d = Some y" "c_queue z = Some ?q" | "n_ctxs n d = Some y" "n_ctxs n e = Some z"
      using yz(1,2) by (auto split: if_splits)
    then show "d = e" using old yz(3) ok unfolding ctxs_ok_def by cases metis+
  qed
  then have "node_inv (insert ?q A) n'"
    using mq_create_token [OF xs, of h] hi' inv unfolding node_inv_def ctxs ch hs qs
    by (auto simp: queues_inv_def oth)
  moreover have "mailbox n' g = ((mailbox n)(h \<mapsto> [])) g" for g
  proof (cases "g = h")
    case True
    then show ?thesis unfolding mailbox_def ch hs g ctxs by (simp add: qs mq_new_abs)
  next
    case False
    have q': "c_queue u \<noteq> Some ?q" if "n_ctxs n b = Some u" for b u
      using ctxs_okD [OF ok that] fresh by (metis option.distinct(1) option.inject)
    show ?thesis
    proof (cases "skynet_handle_grab (ctx_handle n) g (n_handles n)")
      case None
      with False show ?thesis by (simp add: mailbox_def ch hs g)
    next
      case (Some d)
      from node_grab [OF inv Some] obtain y p where y: "n_ctxs n d = Some y" "c_queue y = Some p" by blast
      with dead q' [OF y(1)] have "d \<noteq> ?c" "p \<noteq> ?q" by auto
      with Some False y show ?thesis by (simp add: mailbox_def ch hs g ctxs qs)
    qed
  qed
  then have "mailbox n' = (mailbox n)(h \<mapsto> [])" by (rule ext)
  moreover have "mailbox n h = None" using mailbox_live [OF inv] r(3) by simp
  moreover have "?q \<notin> A" using queues_rep_live [OF xs, of ?q] fresh by auto
  moreover have "names (n_handles n') = names (n_handles n)" using names_cong(1) [OF nm] by (simp add: hs)
  moreover have "skynet_handle_grab (ctx_handle n') h (n_handles n') = Some ?c" by (simp add: ch hs g)
  ultimately show ?thesis using a r(4) dead ctxs
    by (intro exI [of _ ?q] exI [of _ h] exI [of _ n'] exI [of _ ?x]) (simp add: oth)
qed

section \<open>Retirement\<close>

lemma ctxs_ok_retire:
  assumes ok: "ctxs_ok ctxs brk slots qs" and sub: "\<And>d. Some d \<in> set slots' \<Longrightarrow> Some d \<in> set slots" and c: "Some c \<notin> set slots'"
    and q: "ctxs c = Some x" "c_queue x = Some q"
    and oth: "\<And>b. b \<noteq> q \<Longrightarrow> eq_next (qs b) (qs' b)"
  shows "ctxs_ok (ctxs(c := None)) brk slots' qs'"
  unfolding ctxs_ok_def
proof (intro conjI allI impI)
  fix d assume "Some d \<in> set slots'"
  then show "(ctxs(c := None)) d \<noteq> None" using ok sub c by (auto simp: ctxs_ok_def)
next
  fix d y assume "(ctxs(c := None)) d = Some y"
  then have y: "d \<noteq> c" "ctxs d = Some y" by (auto split: if_splits)
  obtain p mq where p: "c_queue y = Some p" "qs p = Some mq" "\<not> q_release mq" "q_handle mq = c_handle y"
    "1 \<le> c_ref y" "d < brk" by (rule ctxs_okD [OF ok y(2)])
  from p(1) q y ok have "p \<noteq> q" by (auto simp: ctxs_ok_def)
  from eq_next_unmarked [OF oth [OF this] p(2,3)] p show "1 \<le> c_ref y" "d < brk"
    "\<exists>q mq. c_queue y = Some q \<and> qs' q = Some mq \<and> \<not> q_release mq \<and> q_handle mq = c_handle y" by auto
next
  fix d e y z assume "(ctxs(c := None)) d = Some y" "(ctxs(c := None)) e = Some z" "c_queue y = c_queue z"
  then show "d = e" using ok unfolding ctxs_ok_def by (metis fun_upd_apply option.distinct(1))
qed

lemma retire_slots:
  assumes inv: "handle_inv ch s" and r: "handle_retire ch h s = Some (Some c, s')"
  shows "set (h_slot s') \<subseteq> insert None (set (h_slot s))" "Some c \<notin> set (h_slot s')"
proof -
  have si: "slots_inv ch s" using inv by (simp add: handle_inv_def)
  have h: "skynet_handle_grab ch h s = Some c" and inv': "handle_inv ch s'"
    and g: "\<And>x. skynet_handle_grab ch x s' = (if x = h then None else skynet_handle_grab ch x s)"
    using handle_retire_spec [OF inv, of h] r by auto
  have si': "slots_inv ch s'" using inv' by (simp add: handle_inv_def)
  have ch: "ch c = h" using grab_slot [OF si] h by simp
  show "Some c \<notin> set (h_slot s')"
    using grab_slot [OF si', of h c] g [of h] ch by auto
  show "set (h_slot s') \<subseteq> insert None (set (h_slot s))"
    using r by (auto simp: handle_retire_def Let_def split: option.splits if_splits dest: set_update_subset_insert [THEN subsetD] simp: bind_Some_iff)
qed

lemma retire_idle:
  assumes inv: "node_inv A n" and h: "skynet_handle_grab (ctx_handle n) h (n_handles n) = Some c"
    and x: "n_ctxs n c = Some x" "c_ref x = 1" "c_logfile x = None" "c_queue x = Some q"
    and rel: "\<And>n'. skynet_module_instance_release W (c_mod x) (c_instance x) n' = Some n'"
  shows "\<exists>n' mq mq'. skynet_handle_retire W h n = Some (True, n') \<and> node_inv A n' \<and>
     mailbox n' = (mailbox n)(h := None) \<and> n_ctxs n' = (n_ctxs n)(c := None) \<and> n_total n' = n_total n - 1 \<and>
     n_mem n' = n_mem n \<and> n_harbor n' = n_harbor n \<and>
     mqs (n_mq n) q = Some mq \<and> mqs (n_mq n') q = Some mq' \<and> q_release mq' \<and> mq_abs mq' = mq_abs mq"
proof -
  have hi: "handle_inv (ctx_handle n) (n_handles n)" and ok: "ctxs_inv n" using inv by (auto simp: node_inv_def)
  from inv obtain xs where xs: "queues_rep A (n_mq n) xs" by (auto simp: node_inv_def queues_inv_def)
  obtain mq where mq: "mqs (n_mq n) q = Some mq" "\<not> q_release mq"
    using ctxs_okD [OF ok x(1)] x(4) by (metis option.inject)
  from handle_retire_spec [OF hi, of h] h obtain hs where
    hs: "handle_retire (ctx_handle n) h (n_handles n) = Some (Some c, hs)" "handle_inv (ctx_handle n) hs"
      "\<And>g. skynet_handle_grab (ctx_handle n) g hs = (if g = h then None else skynet_handle_grab (ctx_handle n) g (n_handles n))"
    by auto
  from mq_mark_release_token [OF xs mq] obtain m mq' xs' where
    m: "skynet_mq_mark_release q (n_mq n) = Some m" "queues_rep A m xs'" "mqs m q = Some mq'" "q_release mq'"
      "mq_abs mq' = mq_abs mq" and oth: "\<And>b. b \<noteq> q \<Longrightarrow> eq_next (mqs (n_mq n) b) (mqs m b)" by blast
  have "\<exists>n'. skynet_handle_retire W h n = Some (True, n') \<and> n_ctxs n' = (n_ctxs n)(c := None) \<and>
      n_handles n' = hs \<and> n_mq n' = m \<and> n_ctx_brk n' = n_ctx_brk n \<and> n_total n' = n_total n - 1 \<and>
      n_mem n' = n_mem n \<and> n_mem_brk n' = n_mem_brk n \<and> n_harbor n' = n_harbor n"
    using hs(1) x rel m(1)
    by (simp add: skynet_handle_retire_def skynet_context_release_def delete_context_def Let_def
        on_mq_def context_dec_def)
  then obtain n' where n': "skynet_handle_retire W h n = Some (True, n')" "n_ctxs n' = (n_ctxs n)(c := None)"
      "n_handles n' = hs" "n_mq n' = m" "n_ctx_brk n' = n_ctx_brk n" "n_total n' = n_total n - 1"
      "n_mem n' = n_mem n" "n_mem_brk n' = n_mem_brk n" "n_harbor n' = n_harbor n" by blast
  have c: "Some c \<notin> set (h_slot hs)" and sub: "set (h_slot hs) \<subseteq> insert None (set (h_slot (n_handles n)))"
    using retire_slots [OF hi hs(1)] by auto
  have ch: "ctx_handle n' d = ctx_handle n d" if "d \<noteq> c" for d using that n'(2) by (simp add: ctx_handle_def)
  have same: "skynet_handle_grab (ctx_handle n') g hs = skynet_handle_grab (ctx_handle n) g hs" for g
  proof -
    have "h_slot hs ! slot_hash g (h_slot_size hs) \<noteq> Some c"
      using c hs(2) slots_hash_less [of "ctx_handle n" hs g] slots_hash [of "ctx_handle n" hs g]
      by (metis handle_inv_def nth_mem)
    then show ?thesis using ch by (auto simp: skynet_handle_grab_def split: option.splits)
  qed
  have "handle_inv (ctx_handle n') hs"
    using hs(2) c ch unfolding handle_inv_def slots_inv_def by (metis nth_mem)
  moreover have "ctxs_inv n'"
    unfolding n' by (rule ctxs_ok_retire [OF ok _ c x(1,4) oth]) (use sub in auto)
  ultimately have inv': "node_inv A n'"
    using inv m(2) unfolding node_inv_def n'(3,4,7,8) by (auto simp: queues_inv_def)
  have "mailbox n' g = ((mailbox n)(h := None)) g" for g
  proof (cases "g = h")
    case True
    then show ?thesis by (simp add: mailbox_def n' same hs)
  next
    case False
    show ?thesis
    proof (cases "skynet_handle_grab (ctx_handle n) g (n_handles n)")
      case None
      with False show ?thesis by (simp add: mailbox_def n' same hs)
    next
      case (Some d)
      obtain y p where y: "n_ctxs n d = Some y" "c_queue y = Some p" "c_handle y = g"
        by (rule node_grab [OF inv Some], rule that)
      obtain x' where "n_ctxs n c = Some x'" "c_handle x' = h" by (rule node_grab [OF inv h], rule that)
      with y False x(1) have d: "d \<noteq> c" by auto
      with y x ok have "p \<noteq> q" by (auto simp: ctxs_ok_def)
      from eq_next_abs [OF oth [OF this]] Some False y d show ?thesis
        by (cases "mqs m p"; cases "mqs (n_mq n) p") (auto simp: mailbox_def n' same hs)
    qed
  qed
  then have "mailbox n' = (mailbox n)(h := None)" by (rule ext)
  with n' inv' mq(1) m show ?thesis by auto
qed

section \<open>Launching\<close>

lemma logged_other: "g \<noteq> logger_of n \<Longrightarrow> logged n src len g = mailbox n g"
  by (auto simp: logged_def deliver_def split: option.splits)

lemma logger_of_cong: "n_logger n' = n_logger n \<Longrightarrow> names (n_handles n') = names (n_handles n) \<Longrightarrow> logger_of n' = logger_of n"
  by (simp add: logger_of_def)

text \<open>
  What a launch relies on: the module is loaded, its instance is created and leaves a node \<open>n1\<close>
  in order, and the table of handles has room.
\<close>

definition launch_ok :: "services \<Rightarrow> addr set \<Rightarrow> string \<Rightarrow> skynet_module \<Rightarrow> addr \<Rightarrow> node \<Rightarrow> node \<Rightarrow> bool" where
  "launch_ok W A name m inst n n1 \<longleftrightarrow> query_module (n_modules n) name = Some m \<and>
     skynet_module_instance_create W m n = Some (Some inst, n1) \<and> node_inv A n1 \<and> slots_room (n_handles n1)"

text \<open>
  What is asked of \<open>init\<close> of the service: it may set the callback, send messages (to itself too) and
  call every other function of the kernel, but it does not let its own context go, and it leaves the
  node in order with room in the mailboxes. The queue \<open>q\<close> is still with the creating thread.
\<close>

definition init_kept :: "addr set \<Rightarrow> addr \<Rightarrow> addr \<Rightarrow> u32 \<Rightarrow> skynet_context \<Rightarrow> node \<Rightarrow> bool" where
  "init_kept A c q h x n \<longleftrightarrow> node_inv (insert q A) n \<and> n_ctxs n c = Some x \<and> c_ref x = 2 \<and> c_queue x = Some q \<and>
     c_handle x = h \<and> skynet_handle_grab (ctx_handle n) h (n_handles n) = Some c \<and>
     (\<forall>g bs. mailbox n g = Some bs \<longrightarrow> mq_room bs)"

lemma init_keptD:
  assumes "init_kept A c q h x n"
  shows "node_inv (insert q A) n" "n_ctxs n c = Some x" "c_ref x = 2" "c_queue x = Some q" "c_handle x = h"
    "skynet_handle_grab (ctx_handle n) h (n_handles n) = Some c" "\<forall>g bs. mailbox n g = Some bs \<longrightarrow> mq_room bs"
    "ctx_handle n c = h"
  using assms by (auto simp: init_kept_def ctx_handle_def)

text \<open>The node in which \<open>init\<close> is called: a fresh handle with an empty mailbox.\<close>

definition new_service :: "skynet_module \<Rightarrow> addr \<Rightarrow> node \<Rightarrow> addr \<Rightarrow> addr \<Rightarrow> u32 \<Rightarrow> node \<Rightarrow> bool" where
  "new_service m inst n1 c q h n2 \<longleftrightarrow> mailbox n1 h = None \<and> valid_handle (h_harbor (n_handles n1)) h \<and>
     mailbox n2 = (mailbox n1)(h \<mapsto> []) \<and> n_ctxs n1 c = None \<and>
     n_ctxs n2 = (n_ctxs n1)(c \<mapsto> (new_context m inst (n_profile n1))\<lparr>c_handle := h, c_queue := Some q\<rparr>) \<and>
     n_total n2 = n_total n1 + 1 \<and> n_mem n2 = n_mem n1 \<and> n_harbor n2 = n_harbor n1 \<and> logger_of n2 = logger_of n1"

lemma launch_new:
  assumes ok: "launch_ok W A name m inst n n1" and al: "context_alloc m inst n1 = Some (c, q, n2)"
  shows "q \<notin> A" "new_service m inst n1 c q (ctx_handle n2 c) n2" "ctx_handle n2 c \<noteq> 0" "node_inv (insert q A) n2"
    "skynet_handle_grab (ctx_handle n2) (ctx_handle n2 c) (n_handles n2) = Some c"
proof -
  from ok have "node_inv A n1" "slots_room (n_handles n1)" by (auto simp: launch_ok_def)
  from context_alloc_spec [OF this, of m inst] al obtain h x where
    a: "c = n_ctx_brk n1" "node_inv (insert q A) n2" "q \<notin> A"
     "mailbox n1 h = None" "mailbox n2 = (mailbox n1)(h \<mapsto> [])" "valid_handle (h_harbor (n_handles n1)) h"
     "n_ctxs n1 (n_ctx_brk n1) = None" "n_ctxs n2 = (n_ctxs n1)(n_ctx_brk n1 \<mapsto> x)"
     "x = (new_context m inst (n_profile n1))\<lparr>c_handle := h, c_queue := Some q\<rparr>"
     "n_total n2 = n_total n1 + 1" "n_mem n2 = n_mem n1" "n_logger n2 = n_logger n1"
     "names (n_handles n2) = names (n_handles n1)" "n_harbor n2 = n_harbor n1"
     "skynet_handle_grab (ctx_handle n2) h (n_handles n2) = Some (n_ctx_brk n1)" by auto
  have h: "ctx_handle n2 c = h" unfolding a(1) by (simp add: ctx_handle_def a(8,9))
  show "new_service m inst n1 c q (ctx_handle n2 c) n2"
    using a logger_of_cong [OF a(12,13)] unfolding new_service_def h by simp
  show "q \<notin> A" "ctx_handle n2 c \<noteq> 0" "node_inv (insert q A) n2"
    "skynet_handle_grab (ctx_handle n2) (ctx_handle n2 c) (n_handles n2) = Some c"
    using a unfolding h by (auto simp: valid_handle_def)
qed

lemma launch_started:
  assumes ok: "launch_ok W A name m inst n n1" and al: "context_alloc m inst n1 = Some (c, q, n2)"
    and init: "skynet_module_instance_init W m inst c param n2 = Some (0, n3)"
    and kept: "init_kept A c q (ctx_handle n2 c) x n3"
    and len: "length (''LAUNCH '' @ name @ '' '' @ (case param of None \<Rightarrow> [] | Some p \<Rightarrow> p)) < 2 ^ 30"
  shows "\<exists>n'. skynet_context_new W name param n = Some (Some c, n') \<and> node_inv A n' \<and>
     mailbox n' = logged n3 (ctx_handle n2 c) (length (''LAUNCH '' @ name @ '' '' @ (case param of None \<Rightarrow> [] | Some p \<Rightarrow> p))) \<and>
     n_ctxs n' = (n_ctxs n3)(c \<mapsto> x\<lparr>c_ref := 1, c_init := True\<rparr>) \<and> n_total n' = n_total n3"
proof -
  let ?msg = "''LAUNCH '' @ name @ '' '' @ (case param of None \<Rightarrow> [] | Some p \<Rightarrow> p)" and ?h = "ctx_handle n2 c"
  let ?x = "x\<lparr>c_ref := 1, c_init := True\<rparr>"
  let ?n4 = "ctx_upd c ?x n3"
  note k = init_keptD [OF kept]
  have qA: "q \<notin> A" by (rule launch_new(1) [OF ok al])
  have i4: "node_inv (insert q A) ?n4" by (rule node_inv_ctx_upd [OF k(1,2)]) simp_all
  have b4: "mailbox ?n4 = mailbox n3" by (rule handle_ctx_upd [OF k(2)]) simp_all
  from i4 obtain xs where xs: "queues_rep (insert q A) (n_mq ?n4) xs" by (auto simp: node_inv_def queues_inv_def)
  from globalmq_push_token [OF xs, of q] obtain m' where
    m': "skynet_globalmq_push q (n_mq ?n4) = Some m'" "queues_rep (insert q A - {q}) m' (xs @ [q])" "mqs_agree (n_mq ?n4) m'"
    by auto
  have A: "insert q A - {q} = A" using qA by simp
  let ?n5 = "?n4\<lparr>n_mq := m'\<rparr>"
  have "\<exists>p'. mqs m' b = Some p' \<and> \<not> q_release p' \<and> q_handle p' = q_handle p"
    if "mqs (n_mq ?n4) b = Some p" "\<not> q_release p" for b p
    by (rule eq_next_unmarked [OF mqs_agree_eq_next [OF m'(3), of b] that])
  then have i5: "node_inv A ?n5"
    by (rule node_inv_mq [OF i4, rotated]) (use m'(2) A in \<open>auto simp: queues_inv_def\<close>)
  have "map_option mq_abs (mqs m' p) = map_option mq_abs (mqs (n_mq ?n4) p)" for p
    by (rule eq_next_abs [OF mqs_agree_eq_next [OF m'(3)]])
  then have "(mqs m' p \<bind> (\<lambda>mq. Some (mq_abs mq))) = (mqs (n_mq ?n4) p \<bind> (\<lambda>mq. Some (mq_abs mq)))" for p
    by (simp add: map_conv_bind_option comp_def)
  then have "mailbox ?n5 = mailbox ?n4" by (simp add: mailbox_def fun_eq_iff)
  then have b5: "mailbox ?n5 = mailbox n3" using b4 by simp
  have room5: "\<forall>g bs. mailbox ?n5 g = Some bs \<longrightarrow> mq_room bs" using k(7) unfolding b5 .
  have ctx5: "\<forall>d. Some c = Some d \<longrightarrow> n_ctxs ?n5 d \<noteq> None" by simp
  from skynet_error_spec [OF i5 ctx5 len room5, of W] obtain n' where
    n': "skynet_error W (Some c) ?msg ?n5 = Some n'" "node_inv A n'"
      "mailbox n' = logged ?n5 (ctx_handle ?n5 c) (length ?msg)" "n_ctxs n' = n_ctxs ?n5" "n_total n' = n_total ?n5"
    by auto
  have "logger_of ?n5 = logger_of n3" by (rule logger_of_cong) simp_all
  then have "logged ?n5 (ctx_handle ?n5 c) (length ?msg) = logged n3 ?h (length ?msg)"
    unfolding logged_def b5 using k(5) by (simp add: ctx_handle_def)
  moreover have "skynet_context_new W name param n = Some (Some c, n')"
    using ok n'(1) m'(1) init al k(2,3)
    by (simp add: skynet_context_new_def skynet_module_query_def launch_ok_def
        skynet_context_release_def Let_def on_mq_def)
  ultimately show ?thesis using n'(2-5) by (intro exI [of _ n']) (simp del: fun_upd_apply)
qed

lemma logged_length:
  assumes "\<forall>g bs. mailbox n g = Some bs \<longrightarrow> length bs + k + 1 \<le> N" "logged n src len g = Some bs"
  shows "length bs + k \<le> N"
proof -
  have "mailbox n g = Some bs \<or> (\<exists>cs m. mailbox n g = Some cs \<and> bs = cs @ [m])"
    using assms(2) by (auto simp: logged_def deliver_def split: if_splits option.splits)
  with assms(1) show ?thesis by fastforce
qed

lemma own_data_mono: "own_data ms me \<Longrightarrow> (\<And>a. me a \<noteq> None \<Longrightarrow> me' a \<noteq> None) \<Longrightarrow> own_data ms me'"
proof (induction ms arbitrary: me me')
  case (Cons m ms)
  have "own_data ms (free_mem (m_data m) me)" using Cons.prems(1) by simp
  moreover have "free_mem (m_data m) me' a \<noteq> None" if "free_mem (m_data m) me a \<noteq> None" for a
    using that Cons.prems(2) [of a] by (cases "m_data m") (auto simp: free_mem_def split: if_splits)
  ultimately have "own_data ms (free_mem (m_data m) me')" by (rule Cons.IH)
  with Cons.prems show ?case by (cases "m_data m") simp_all
qed simp

text \<open>
  When \<open>init\<close> fails the new service is taken back, with the messages that wait in its queue. The
  release function of the module leaves the state of the kernel alone; the logger is another service.
\<close>

definition failing_ok :: "services \<Rightarrow> skynet_module \<Rightarrow> addr \<Rightarrow> u32 \<Rightarrow> skynet_context \<Rightarrow> skynet_message list \<Rightarrow> node \<Rightarrow> bool" where
  "failing_ok W m inst h x ms n \<longleftrightarrow> c_logfile x = None \<and>
     (\<forall>n'. skynet_module_instance_release W (c_mod x) (c_instance x) n' = Some n') \<and> h \<noteq> logger_of n \<and>
     mailbox n h = Some ms \<and> (\<forall>m \<in> set ms. local_source n m) \<and> own_data ms (n_mem n) \<and>
     (\<forall>g bs. mailbox n g = Some bs \<longrightarrow> length bs + length ms + 1 \<le> 2 ^ 30 - 1)"

lemma launch_failed:
  assumes ok: "launch_ok W A name m inst n n1" and al: "context_alloc m inst n1 = Some (c, q, n2)"
    and init: "skynet_module_instance_init W m inst c param n2 = Some (r, n3)" "r \<noteq> 0"
    and kept: "init_kept A c q (ctx_handle n2 c) x n3" and fail: "failing_ok W m inst (ctx_handle n2 c) x ms n3"
    and len: "length (''FAILED launch '' @ name) < 2 ^ 30"
  shows "\<exists>n'. skynet_context_new W name param n = Some (None, n') \<and> node_inv A n' \<and> mqs (n_mq n') q = None \<and>
     n_ctxs n' = (n_ctxs n3)(c := None) \<and> n_total n' = n_total n3 - 1 \<and>
     mailbox n' = fold deliver (map (\<lambda>m. (m_source m, error_message (ctx_handle n2 c))) ms)
       ((logged n3 (ctx_handle n2 c) (length (''FAILED launch '' @ name)))(ctx_handle n2 c := None))"
proof -
  let ?msg = "''FAILED launch '' @ name" and ?h = "ctx_handle n2 c"
  note k = init_keptD [OF kept]
  have qA: "q \<notin> A" and h0: "?h \<noteq> 0" using launch_new(1,3) [OF ok al] by auto
  have f: "c_logfile x = None" "?h \<noteq> logger_of n3" "mailbox n3 ?h = Some ms" "\<forall>m \<in> set ms. local_source n3 m"
    "own_data ms (n_mem n3)" "\<forall>g bs. mailbox n3 g = Some bs \<longrightarrow> length bs + length ms + 1 \<le> 2 ^ 30 - 1"
    and rel: "\<And>n'. skynet_module_instance_release W (c_mod x) (c_instance x) n' = Some n'"
    using fail by (auto simp: failing_ok_def)
  have ctx3: "\<forall>d. Some c = Some d \<longrightarrow> n_ctxs n3 d \<noteq> None" using k(2) by simp
  from skynet_error_spec [OF k(1) ctx3 len k(7), of W] k(8) obtain n4 where
    n4: "skynet_error W (Some c) ?msg n3 = Some n4" "node_inv (insert q A) n4"
      "mailbox n4 = logged n3 ?h (length ?msg)" "n_ctxs n4 = n_ctxs n3" "n_total n4 = n_total n3"
      "n_handles n4 = n_handles n3" "n_harbor n4 = n_harbor n3" "\<And>a. n_mem n3 a \<noteq> None \<Longrightarrow> n_mem n4 a \<noteq> None" by auto
  let ?x = "x\<lparr>c_ref := 1\<rparr>"
  let ?n5 = "ctx_upd c ?x n4"
  have cx: "n_ctxs n4 c = Some x" using k(2) by (simp add: n4(4))
  have i5: "node_inv (insert q A) ?n5" by (rule node_inv_ctx_upd [OF n4(2) cx]) simp_all
  have b5: "mailbox ?n5 = mailbox n4" by (rule handle_ctx_upd [OF cx]) simp_all
  have ch5: "ctx_handle ?n5 = ctx_handle n3" using ctx_handle_upd [OF cx, of ?x] ctx_handle_cong [OF n4(4)] by simp
  have g5: "skynet_handle_grab (ctx_handle ?n5) ?h (n_handles ?n5) = Some c" using k(6) by (simp add: ch5 n4(6))
  have rel5: "skynet_module_instance_release W (c_mod ?x) (c_instance ?x) n' = Some n'" for n' using rel by simp
  from retire_idle [OF i5 g5 _ _ _ _ rel5, of q] k f(1) obtain n6 mq mq' where
    n6: "skynet_handle_retire W ?h ?n5 = Some (True, n6)" "node_inv (insert q A) n6"
      "mailbox n6 = (mailbox ?n5)(?h := None)" "n_ctxs n6 = (n_ctxs ?n5)(c := None)" "n_total n6 = n_total ?n5 - 1"
      "n_mem n6 = n_mem ?n5" "n_harbor n6 = n_harbor ?n5"
      "mqs (n_mq ?n5) q = Some mq" "mqs (n_mq n6) q = Some mq'" "q_release mq'" "mq_abs mq' = mq_abs mq" by auto
  have "mailbox ?n5 ?h = Some ms" unfolding b5 n4(3) using f(2,3) by (simp add: logged_other)
  then have e: "mq_abs mq' = ms" unfolding mailbox_def g5 using n6(8,11) k(4) by simp
  have r6: "\<forall>g bs. mailbox n6 g = Some bs \<longrightarrow> length bs + length (mq_abs mq') \<le> 2 ^ 30 - 1"
    using logged_length [OF f(6)] unfolding n6(3) b5 n4(3) e by (auto split: if_splits)
  have loc: "\<forall>m \<in> set (mq_abs mq'). local_source n6 m"
    using f(4) n6(7) n4(7) unfolding e by (auto simp: local_source_def skynet_harbor_message_isremote_def)
  have own: "own_data (mq_abs mq') (n_mem n6)"
    unfolding e by (rule own_data_mono [OF f(5)]) (use n4(8) n6(6) in auto)
  from mq_release_spec [OF n6(2) h0 _ n6(9,10) loc own r6, of W] obtain n' where
    n': "mq_release W ?h q n6 = Some n'" "node_inv (insert q A - {q}) n'" "mqs (n_mq n') q = None"
      "mailbox n' = fold deliver (map (\<lambda>m. (m_source m, error_message ?h)) ms) (mailbox n6)"
      "n_ctxs n' = n_ctxs n6" "n_total n' = n_total n6" unfolding e by auto
  have "skynet_context_new W name param n = Some (None, n')"
    using ok n4(1) init al cx k(3,5) n6(1) n'(1)
    by (simp add: skynet_context_new_def skynet_module_query_def launch_ok_def
        skynet_context_release_def Let_def)
  moreover have "n_ctxs n' = (n_ctxs n3)(c := None)" by (simp add: n'(5) n6(4) n4(4))
  moreover have "n_total n' = n_total n3 - 1" by (simp add: n'(6) n6(5) n4(5))
  moreover have "node_inv A n'" using n'(2) qA by simp
  ultimately show ?thesis using n'(3,4) unfolding n6(3) b5 n4(3) by blast
qed

text \<open>
  A service whose \<open>init\<close> sets its callback and sends a message to itself, as \<open>snlua_init\<close> does, and
  returns \<open>r\<close>.
\<close>

definition self_message :: "u32 \<Rightarrow> skynet_message" where
  "self_message h = \<lparr>m_source = h, m_session = 0, m_data = None, m_sz = 0\<rparr>"

definition eager_init :: "int \<Rightarrow> addr \<Rightarrow> node \<Rightarrow> (int \<times> node) option" where
  "eager_init r c n = do {
     n \<leftarrow> skynet_callback c None (Some 5) n;
     (_, n) \<leftarrow> skynet_context_push sample_services (ctx_handle n c) (self_message (ctx_handle n c)) n;
     Some (r, n)
   }"

definition eager_services :: "int \<Rightarrow> services" where
  "eager_services r = sample_services\<lparr>sv_init := (\<lambda>_ _ c _ n. eager_init r c n)\<rparr>"

lemma eager_kept:
  assumes k: "init_kept A c q h x n" and b: "mailbox n h = Some []"
  shows "\<exists>n'. eager_init r c n = Some (r, n') \<and> init_kept A c q h (x\<lparr>c_cb := Some 5, c_cb_ud := None\<rparr>) n' \<and>
     mailbox n' = (mailbox n)(h \<mapsto> [self_message h]) \<and> n_total n' = n_total n \<and> n_mem n' = n_mem n \<and>
     n_harbor n' = n_harbor n \<and> logger_of n' = logger_of n \<and> n_ctxs n' = (n_ctxs n)(c \<mapsto> x\<lparr>c_cb := Some 5, c_cb_ud := None\<rparr>)"
proof -
  note D = init_keptD [OF k]
  let ?x = "x\<lparr>c_cb := Some 5, c_cb_ud := None\<rparr>"
  let ?n = "ctx_upd c ?x n"
  have i: "node_inv (insert q A) ?n" by (rule node_inv_ctx_upd [OF D(1,2)]) (simp_all add: D(3))
  have m: "mailbox ?n = mailbox n" by (rule handle_ctx_upd [OF D(2)]) simp_all
  have ch: "ctx_handle ?n = ctx_handle n" using ctx_handle_upd [OF D(2), of ?x] by simp
  have bn: "mailbox ?n h = Some []" using b m by simp
  have r0: "mq_room []" by (simp add: mq_room_def)
  from context_push_live [OF i bn r0, of sample_services "self_message h"] obtain mq where
    p: "skynet_context_push sample_services h (self_message h) ?n = Some (0, ?n\<lparr>n_mq := mq\<rparr>)"
      "node_inv (insert q A) (?n\<lparr>n_mq := mq\<rparr>)" "mailbox (?n\<lparr>n_mq := mq\<rparr>) = (mailbox n)(h \<mapsto> [self_message h])"
    unfolding m by auto
  let ?n' = "?n\<lparr>n_mq := mq\<rparr>"
  have "eager_init r c n = Some (r, ?n')"
    using p(1) D(2,8) ch by (simp add: eager_init_def skynet_callback_def)
  moreover have "init_kept A c q h ?x ?n'"
    unfolding init_kept_def using p(2) D(3-7) by (auto simp: p(3) ch mq_room_def)
  moreover have "logger_of ?n' = logger_of n" by (rule logger_of_cong) simp_all
  ultimately show ?thesis using p(3) by (intro exI [of _ ?n']) simp
qed

section \<open>Properties\<close>

text \<open>
  C20. Starting a service: \<open>skynet_context_new\<close> registers a context under a fresh valid handle with an
  empty mailbox and calls \<open>init\<close> of the module, which may send messages, to the new service too.
  When \<open>init\<close> returns 0 and has not let its own context go, the launch returns the context,
  initialised and with one reference; what \<open>init\<close> did stays, the only other change of a mailbox is the
  launch line to the logger, and the invariant of the node is kept with the queue handed over by
  the creating thread.
\<close>

theorem launch_succeeds:
  assumes "launch_ok W A name m inst n n1" "context_alloc m inst n1 = Some (c, q, n2)"
    "skynet_module_instance_init W m inst c param n2 = Some (0, n3)" "init_kept A c q (ctx_handle n2 c) x n3"
    "length (''LAUNCH '' @ name @ '' '' @ (case param of None \<Rightarrow> [] | Some p \<Rightarrow> p)) < 2 ^ 30"
  shows "\<exists>n'. skynet_context_new W name param n = Some (Some c, n') \<and> node_inv A n' \<and>
     new_service m inst n1 c q (ctx_handle n2 c) n2 \<and>
     mailbox n' = logged n3 (ctx_handle n2 c) (length (''LAUNCH '' @ name @ '' '' @ (case param of None \<Rightarrow> [] | Some p \<Rightarrow> p))) \<and>
     n_ctxs n' = (n_ctxs n3)(c \<mapsto> x\<lparr>c_ref := 1, c_init := True\<rparr>) \<and> n_total n' = n_total n3"
  using launch_started [OF assms] launch_new(2) [OF assms(1,2)] by blast

lemma sample_launch:
  assumes "sv_create W = sv_create sample_services"
  obtains c q n2 x where "launch_ok W {0} ''svc'' sample_module (2 ^ 64 - 1) sample_node sample_node"
    "context_alloc sample_module (2 ^ 64 - 1) sample_node = Some (c, q, n2)"
    "init_kept {0} c q (ctx_handle n2 c) x n2" "mailbox n2 (ctx_handle n2 c) = Some []"
    "new_service sample_module (2 ^ 64 - 1) sample_node c q (ctx_handle n2 c) n2" "ctx_handle n2 c \<noteq> 0" "ctx_handle n2 c \<noteq> 1"
    "c_logfile x = None" "c_mod x = sample_module"
proof -
  have sr: "slots_room (n_handles sample_node)"
    by (simp add: slots_room_def sample_node_def skynet_handle_init_def DEFAULT_SLOT_SIZE_def)
  have "query_module (n_modules sample_node) ''svc'' = Some sample_module"
    by (simp add: sample_node_def sample_module_def)
  with sr have ok: "launch_ok W {0} ''svc'' sample_module (2 ^ 64 - 1) sample_node sample_node"
    by (simp add: launch_ok_def sample_node_inv skynet_module_instance_create_def sample_module_def)
  from context_alloc_spec [OF sample_node_inv sr, of sample_module "2 ^ 64 - 1"] obtain c q n2 where
    al: "context_alloc sample_module (2 ^ 64 - 1) sample_node = Some (c, q, n2)" by blast
  note l = launch_new [OF ok al]
  let ?h = "ctx_handle n2 c"
  let ?x = "(new_context sample_module (2 ^ 64 - 1) (n_profile sample_node))\<lparr>c_handle := ?h, c_queue := Some q\<rparr>"
  have mq: "mqs (n_mq sample_node) 0 = Some (mq_new 1)"
    by (simp add: sample_node_def skynet_mq_create_def skynet_mq_init_def)
  have b: "mailbox n2 = (mailbox sample_node)(?h \<mapsto> [])" "mailbox sample_node ?h = None" "n_ctxs n2 c = Some ?x"
    using l(2) by (auto simp: new_service_def)
  have room: "mq_room bs" if "mailbox n2 g = Some bs" for g bs
    using that sample_mailbox_mq [OF mq, of g] unfolding b(1) by (auto simp: mq_room_def mq_new_abs split: if_splits)
  have "init_kept {0} c q ?h ?x n2"
    unfolding init_kept_def using l(4,5) b(3) room by (auto simp: new_context_def)
  moreover have "?h \<noteq> 1" using b(2) sample_mailbox(1) by auto
  ultimately show ?thesis using that [OF ok al _ _ l(2,3)] b(1) by (auto simp: new_context_def)
qed

lemma eager_instance_init: "skynet_module_instance_init (eager_services r) sample_module inst c param n = eager_init r c n"
  by (simp add: skynet_module_instance_init_def eager_services_def)

lemma sample_logger: "logger_of sample_node = 0"
  by (simp add: logger_of_def sample_node_def names_def skynet_handle_init_def)

theorem launch_succeeds_witness:
  "\<exists>c h n'. skynet_context_new (eager_services 0) ''svc'' None sample_node = Some (Some c, n') \<and>
     mailbox sample_node h = None \<and> mailbox n' h = Some [self_message h] \<and> n_total n' = 2"
proof -
  obtain c q n2 x where s: "launch_ok (eager_services 0) {0} ''svc'' sample_module (2 ^ 64 - 1) sample_node sample_node"
    "context_alloc sample_module (2 ^ 64 - 1) sample_node = Some (c, q, n2)"
    "init_kept {0} c q (ctx_handle n2 c) x n2" "mailbox n2 (ctx_handle n2 c) = Some []"
    "new_service sample_module (2 ^ 64 - 1) sample_node c q (ctx_handle n2 c) n2"
    by (rule sample_launch [of "eager_services 0"]) (simp_all add: eager_services_def)
  let ?h = "ctx_handle n2 c"
  from eager_kept [OF s(3,4), of 0] obtain n3 y where
    e: "eager_init 0 c n2 = Some (0, n3)" "init_kept {0} c q ?h y n3" "mailbox n3 = (mailbox n2)(?h \<mapsto> [self_message ?h])"
      "n_total n3 = n_total n2" "logger_of n3 = logger_of n2" by blast
  have "length (''LAUNCH '' @ ''svc'' @ '' '' @ (case None of None \<Rightarrow> [] | Some p \<Rightarrow> p)) < 2 ^ 30" by simp
  moreover have "skynet_module_instance_init (eager_services 0) sample_module (2 ^ 64 - 1) c None n2 = Some (0, n3)"
    by (simp only: eager_instance_init e(1))
  ultimately obtain n' where
    n': "skynet_context_new (eager_services 0) ''svc'' None sample_node = Some (Some c, n')"
      "mailbox n' = logged n3 ?h (length (''LAUNCH '' @ ''svc'' @ '' '' @ (case None of None \<Rightarrow> [] | Some p \<Rightarrow> p)))" "n_total n' = n_total n3"
    using launch_succeeds [OF s(1,2) _ e(2)] by blast
  have "logger_of n3 = 0" using e(5) s(5) sample_logger by (simp add: new_service_def)
  then have "mailbox n' ?h = Some [self_message ?h]" unfolding n'(2) logged_def using e(3) by simp
  moreover have "n_total n' = 2" using n'(3) e(4) s(5) by (simp add: new_service_def sample_node_def)
  ultimately show ?thesis using n'(1) s(5) unfolding new_service_def by blast
qed

text \<open>
  C21. A service whose \<open>init\<close> fails is taken back: its context is deleted, its handle has no mailbox,
  its queue is freed and the counter of services goes down. What \<open>init\<close> did to other services stays:
  their mailboxes are as \<open>init\<close> left them, but for the failure line to the logger and one error
  message for each message that was still waiting for the new service, to its sender. The
  messages that wait come from this node, and the release function of the module leaves the state of
  the kernel alone.
\<close>

theorem launch_failure_undone:
  assumes "launch_ok W A name m inst n n1" "context_alloc m inst n1 = Some (c, q, n2)"
    "skynet_module_instance_init W m inst c param n2 = Some (r, n3)" "r \<noteq> 0"
    "init_kept A c q (ctx_handle n2 c) x n3" "failing_ok W m inst (ctx_handle n2 c) x ms n3"
    "length (''FAILED launch '' @ name) < 2 ^ 30"
  shows "\<exists>n'. skynet_context_new W name param n = Some (None, n') \<and> node_inv A n' \<and> mqs (n_mq n') q = None \<and>
     n_ctxs n' = (n_ctxs n3)(c := None) \<and> n_total n' = n_total n3 - 1 \<and> mailbox n' (ctx_handle n2 c) = None \<and>
     (\<forall>g. g \<noteq> ctx_handle n2 c \<longrightarrow> mailbox n' g = map_option (\<lambda>bs. bs @ map (\<lambda>_. error_message (ctx_handle n2 c))
        (filter (\<lambda>m. m_source m = g) ms)) (logged n3 (ctx_handle n2 c) (length (''FAILED launch '' @ name)) g))"
proof -
  let ?h = "ctx_handle n2 c" and ?b = "logged n3 (ctx_handle n2 c) (length (''FAILED launch '' @ name))"
  from launch_failed [OF assms] obtain n' where
    n': "skynet_context_new W name param n = Some (None, n')" "node_inv A n'" "mqs (n_mq n') q = None"
      "n_ctxs n' = (n_ctxs n3)(c := None)" "n_total n' = n_total n3 - 1"
      "mailbox n' = fold deliver (map (\<lambda>m. (m_source m, error_message ?h)) ms) (?b(?h := None))" by blast
  have "mailbox n' g = (if g = ?h then None else
      map_option (\<lambda>bs. bs @ map (\<lambda>_. error_message ?h) (filter (\<lambda>m. m_source m = g) ms)) (?b g))" for g
    unfolding n'(6) fold_deliver by (cases "?b g") (simp_all add: filter_map comp_def)
  with n'(1-5) show ?thesis by auto
qed

theorem launch_failure_undone_witness:
  "\<exists>n'. skynet_context_new (eager_services 1) ''svc'' None sample_node = Some (None, n') \<and>
     mailbox n' 1 = Some [] \<and> n_total n' = 1"
proof -
  obtain c q n2 x where s: "launch_ok (eager_services 1) {0} ''svc'' sample_module (2 ^ 64 - 1) sample_node sample_node"
    "context_alloc sample_module (2 ^ 64 - 1) sample_node = Some (c, q, n2)"
    "init_kept {0} c q (ctx_handle n2 c) x n2" "mailbox n2 (ctx_handle n2 c) = Some []"
    "new_service sample_module (2 ^ 64 - 1) sample_node c q (ctx_handle n2 c) n2" "ctx_handle n2 c \<noteq> 0" "ctx_handle n2 c \<noteq> 1"
    "c_logfile x = None" "c_mod x = sample_module"
    by (rule sample_launch [of "eager_services 1"]) (simp_all add: eager_services_def)
  let ?h = "ctx_handle n2 c" and ?x = "x\<lparr>c_cb := Some 5, c_cb_ud := None\<rparr>"
  from eager_kept [OF s(3,4), of 1] obtain n3 where
    e: "eager_init 1 c n2 = Some (1, n3)" "init_kept {0} c q ?h ?x n3" "mailbox n3 = (mailbox n2)(?h \<mapsto> [self_message ?h])"
      "n_total n3 = n_total n2" "logger_of n3 = logger_of n2" "n_harbor n3 = n_harbor n2" by blast
  have b: "mailbox n3 = (mailbox sample_node)(?h \<mapsto> [self_message ?h])" and lg: "logger_of n3 = 0"
    using e(3,5) s(5) sample_logger by (auto simp: new_service_def)
  have mq: "mqs (n_mq sample_node) 0 = Some (mq_new 1)"
    by (simp add: sample_node_def skynet_mq_create_def skynet_mq_init_def)
  have "?h AND NOT (mask 24) = 0" "n_harbor n3 = 0"
    using s(5) e(6) by (auto simp: new_service_def valid_handle_def sample_node_def skynet_handle_init_def)
  moreover have "HANDLE_MASK = mask 24" by (simp add: HANDLE_MASK_def mask_eq_exp_minus_1)
  ultimately have "local_source n3 (self_message ?h)"
    by (simp add: local_source_def self_message_def skynet_harbor_message_isremote_def)
  then have f: "failing_ok (eager_services 1) sample_module (2 ^ 64 - 1) ?h ?x [self_message ?h] n3"
    unfolding failing_ok_def b lg using s(6,8,9) sample_mailbox_mq [OF mq]
    by (auto simp: self_message_def mq_new_abs skynet_module_instance_release_def sample_module_def eager_services_def split: if_splits)
  have "length (''FAILED launch '' @ ''svc'') < 2 ^ 30" by simp
  moreover have "skynet_module_instance_init (eager_services 1) sample_module (2 ^ 64 - 1) c None n2 = Some (1, n3)"
    by (simp only: eager_instance_init e(1))
  ultimately obtain n' where
    n': "skynet_context_new (eager_services 1) ''svc'' None sample_node = Some (None, n')" "n_total n' = n_total n3 - 1"
      "\<forall>g. g \<noteq> ?h \<longrightarrow> mailbox n' g = map_option (\<lambda>bs. bs @ map (\<lambda>_. error_message ?h)
        (filter (\<lambda>m. m_source m = g) [self_message ?h])) (logged n3 ?h (length (''FAILED launch '' @ ''svc'')) g)"
    using launch_failure_undone [OF s(1,2) _ one_neq_zero e(2) f] by blast
  have "mailbox n' 1 = Some []"
    using n'(3) s(7) sample_mailbox(1) by (simp add: logged_def lg b self_message_def)
  moreover have "n_total n' = 1" using n'(2) e(4) s(5) by (simp add: new_service_def sample_node_def)
  ultimately show ?thesis using n'(1) by blast
qed

text \<open>
  Killing a service that is not running: \<open>skynet_handle_retire\<close> removes its handle and mailbox
  and nothing else, deletes its context, decrements the counter of services, and marks its queue for
  release with the pending messages still in it, so that the worker that takes it reports them.
\<close>

theorem retire_marks_queue:
  assumes "node_inv A n" "skynet_handle_grab (ctx_handle n) h (n_handles n) = Some c"
    "n_ctxs n c = Some x" "c_ref x = 1" "c_logfile x = None" "c_queue x = Some q"
    "\<And>n'. skynet_module_instance_release W (c_mod x) (c_instance x) n' = Some n'"
  shows "\<exists>n' mq mq'. skynet_handle_retire W h n = Some (True, n') \<and> node_inv A n' \<and>
     mailbox n' = (mailbox n)(h := None) \<and> n_ctxs n' = (n_ctxs n)(c := None) \<and> n_total n' = n_total n - 1 \<and>
     mqs (n_mq n) q = Some mq \<and> mqs (n_mq n') q = Some mq' \<and> q_release mq' \<and> mq_abs mq' = mq_abs mq"
  using retire_idle [OF assms] by blast

theorem retire_marks_queue_witness:
  "\<exists>n' mq'. skynet_handle_retire sample_services 1 sample_node = Some (True, n') \<and>
     mailbox n' 1 = None \<and> mqs (n_mq n') 0 = Some mq' \<and> q_release mq' \<and> n_total n' = 0"
proof -
  let ?x = "(new_context sample_module 0 False)\<lparr>c_handle := 1, c_queue := Some 0, c_ref := 1\<rparr>"
  have g: "skynet_handle_grab (ctx_handle sample_node) 1 (n_handles sample_node) = Some 0" by (simp add: sample_grab)
  have x: "n_ctxs sample_node 0 = Some ?x" by (simp add: sample_node_def)
  have r: "skynet_module_instance_release sample_services (c_mod ?x) (c_instance ?x) n' = Some n'" for n'
    by (simp add: skynet_module_instance_release_def new_context_def sample_module_def)
  have f: "c_ref ?x = 1" "c_logfile ?x = None" "c_queue ?x = Some 0" by (simp_all add: new_context_def)
  from retire_marks_queue [OF sample_node_inv g x f r] show ?thesis by (fastforce simp: sample_node_def)
qed

end
