(* ===== verification/Skynet_Linked.thy ===== *)
theory Skynet_Linked
  imports Skynet_Libc
begin

text \<open>
  Singly linked lists in a heap of nodes: \<open>linked m nx p xs\<close> says that following the \<open>next\<close> field
  \<open>nx\<close> from the pointer \<open>p\<close> in the heap \<open>m\<close> visits exactly the addresses \<open>xs\<close> and ends in \<open>NULL\<close>.
  The message lists and free lists of the gate service and the buckets of its table of
  connections are such lists.
\<close>

named_theorems linked_simps \<open>rewrite rules for linked lists\<close>

fun linked :: "(addr \<Rightarrow> 'n option) \<Rightarrow> ('n \<Rightarrow> addr option) \<Rightarrow> addr option \<Rightarrow> addr list \<Rightarrow> bool" where
  "linked m nx p [] \<longleftrightarrow> p = None"
| "linked m nx p (a # as) \<longleftrightarrow> p = Some a \<and> (\<exists>r. m a = Some r \<and> linked m nx (nx r) as)"

lemma linked_unique: "linked m nx p xs \<Longrightarrow> linked m nx p ys \<Longrightarrow> xs = ys"
proof (induction xs arbitrary: p ys)
  case Nil
  then show ?case by (cases ys) auto
next
  case (Cons a xs)
  then show ?case by (cases ys) auto
qed

lemma linked_None [simp, linked_simps]: "linked m nx None xs \<longleftrightarrow> xs = []"
  by (cases xs) auto

lemma linked_Some: "linked m nx (Some a) xs \<longleftrightarrow>
    (\<exists>r ys. m a = Some r \<and> xs = a # ys \<and> linked m nx (nx r) ys)"
  by (cases xs) auto

lemma linked_live: "linked m nx p xs \<Longrightarrow> a \<in> set xs \<Longrightarrow> m a \<noteq> None"
  by (induction xs arbitrary: p) auto

lemma linked_suffix: "linked m nx p (xs @ a # ys) \<Longrightarrow> \<exists>r. m a = Some r \<and> linked m nx (nx r) ys"
  by (induction xs arbitrary: p) auto

lemma linked_distinct: "linked m nx p xs \<Longrightarrow> distinct xs"
proof (induction xs arbitrary: p)
  case (Cons a xs)
  then obtain r where r: "m a = Some r" "linked m nx (nx r) xs" by auto
  have "a \<notin> set xs"
  proof
    assume "a \<in> set xs"
    then obtain ys zs where xs: "xs = ys @ a # zs" by (auto simp: in_set_conv_decomp)
    from linked_suffix [OF r(2) [unfolded xs]] r(1) have "linked m nx (nx r) zs" by auto
    from linked_unique [OF r(2) this] xs show False by simp
  qed
  with Cons.IH [OF r(2)] show ?case by simp
qed simp

text \<open>A list does not depend on the nodes outside it, nor on the other fields of its nodes.\<close>

lemma linked_cong:
  assumes "\<And>a. a \<in> set xs \<Longrightarrow> map_option nx (m' a) = map_option nx (m a)"
  shows "linked m' nx p xs = linked m nx p xs"
  using assms
proof (induction xs arbitrary: p)
  case (Cons a xs)
  then have "linked m' nx p xs = linked m nx p xs" for p by simp
  with Cons.prems [of a] show ?case by (cases "m a"; cases "m' a") auto
qed simp

lemma linked_upd_other [simp, linked_simps]:
  "a \<notin> set xs \<Longrightarrow> linked (m(a := v)) nx p xs = linked m nx p xs"
  by (rule linked_cong) auto

text \<open>Linking a node behind the last one.\<close>

lemma linked_snoc:
  assumes "linked m nx p xs" "xs \<noteq> []" "m (last xs) = Some t" "nx t' = Some a"
    and "a \<notin> set xs" "m a = Some r" "nx r = None"
  shows "linked (m(last xs \<mapsto> t')) nx p (xs @ [a])"
  using assms(1-3,5)
proof (induction xs arbitrary: p)
  case (Cons b xs)
  show ?case
  proof (cases "xs = []")
    case True
    with Cons.prems assms(4,6,7) show ?thesis by auto
  next
    case False
    from Cons.prems(1) obtain s where s: "p = Some b" "m b = Some s" "linked m nx (nx s) xs" by auto
    have b: "b \<noteq> last xs" using linked_distinct [OF Cons.prems(1)] False by auto
    have "linked (m(last xs \<mapsto> t')) nx (nx s) (xs @ [a])"
      by (rule Cons.IH [OF s(3) False]) (use Cons.prems False in auto)
    moreover have "(m(last xs \<mapsto> t')) b = Some s" using s b by simp
    ultimately show ?thesis using s(1) False by (simp del: fun_upd_apply)
  qed
qed simp

end
