(* ===== verification/Gate_Databuffer.thy ===== *)
theory Gate_Databuffer
  imports Skynet_Linked
begin

text \<open>
  The receive buffer of a connection, \<^verbatim>\<open>service-src/databuffer.h\<close>: a linked list of the blocks that the
  socket thread delivered, whose nodes come from a pool shared by all connections. A block is the
  list of its bytes; \<open>skynet_free\<close> of a block empties the node that owned it.

  The lemmas show that the buffer is a queue of bytes: a push appends the bytes of the block, a read
  of at most the buffered size takes them from the front, whatever the borders of the blocks, and
  neither touches the nodes of another connection.
\<close>

unbundle bit_operations_syntax

definition in_int :: "int \<Rightarrow> bool" where
  "in_int x \<longleftrightarrow> INT_MIN \<le> x \<and> x \<le> INT_MAX"

definition MESSAGEPOOL :: nat where
  "MESSAGEPOOL = 1023"

record message =
  mg_buffer :: "u8 list option"
  mg_size :: int
  mg_next :: "addr option"

record databuffer =
  db_header :: int
  db_offset :: int
  db_size :: int
  db_head :: "addr option"
  db_tail :: "addr option"

text \<open>The heap of nodes is part of the pool; \<open>mp_pool\<close> lists the blocks of nodes, newest first.\<close>

record messagepool =
  mp_nodes :: "addr \<Rightarrow> message option"
  mp_brk :: addr
  mp_pool :: "addr list"
  mp_freelist :: "addr option"

definition databuffer_zero :: databuffer where
  "databuffer_zero = \<lparr>db_header = 0, db_offset = 0, db_size = 0, db_head = None, db_tail = None\<rparr>"

definition messagepool_zero :: messagepool where
  "messagepool_zero = \<lparr>mp_nodes = (\<lambda>_. None), mp_brk = 0, mp_pool = [], mp_freelist = None\<rparr>"

primrec free_blocks :: "addr list \<Rightarrow> (addr \<Rightarrow> message option) \<Rightarrow> addr \<Rightarrow> message option" where
  "free_blocks [] nodes = nodes"
| "free_blocks (p # ps) nodes =
     free_blocks ps (\<lambda>a. if p \<le> a \<and> a < p + MESSAGEPOOL then None else nodes a)"

definition messagepool_free :: "messagepool \<Rightarrow> messagepool" where
  "messagepool_free mp =
     mp\<lparr>mp_nodes := free_blocks (mp_pool mp) (mp_nodes mp), mp_pool := [], mp_freelist := None\<rparr>"

definition return_message :: "databuffer \<Rightarrow> messagepool \<Rightarrow> (databuffer \<times> messagepool) option" where
  "return_message db mp = do {
     a \<leftarrow> db_head db;
     m \<leftarrow> mp_nodes mp a;
     db' \<leftarrow> (if mg_next m = None then do {
              c_assert (db_tail db = Some a);
              Some (db\<lparr>db_head := None, db_tail := None\<rparr>)
            }
            else Some (db\<lparr>db_head := mg_next m\<rparr>));
     Some (db', mp\<lparr>mp_nodes := (mp_nodes mp)(a \<mapsto>
                     \<lparr>mg_buffer = None, mg_size = 0, mg_next = mp_freelist mp\<rparr>),
                   mp_freelist := Some a\<rparr>)
   }"

text \<open>\<open>memcpy\<close> out of a node; outside the block it is undefined.\<close>

definition copy_out :: "message \<Rightarrow> int \<Rightarrow> int \<Rightarrow> u8 list option" where
  "copy_out m off n = do {
     bs \<leftarrow> mg_buffer m;
     c_assert (0 \<le> off \<and> 0 \<le> n \<and> off + n \<le> int (length bs));
     Some (take (nat n) (drop (nat off) bs))
   }"

text \<open>The loop of \<open>databuffer_read\<close>: the bytes it copies, in order.\<close>

partial_function (option) read_loop ::
  "databuffer \<Rightarrow> messagepool \<Rightarrow> int \<Rightarrow> (u8 list \<times> databuffer \<times> messagepool) option" where
  "read_loop db mp sz = do {
     a \<leftarrow> db_head db;
     current \<leftarrow> mp_nodes mp a;
     let bsz = mg_size current - db_offset db;
     (if bsz > sz then do {
        bs \<leftarrow> copy_out current (db_offset db) sz;
        Some (bs, db\<lparr>db_offset := db_offset db + sz\<rparr>, mp)
      }
      else if bsz = sz then do {
        bs \<leftarrow> copy_out current (db_offset db) sz;
        r \<leftarrow> return_message (db\<lparr>db_offset := 0\<rparr>) mp;
        Some (bs, r)
      }
      else do {
        bs \<leftarrow> copy_out current (db_offset db) bsz;
        r \<leftarrow> return_message db mp;
        s \<leftarrow> read_loop ((fst r)\<lparr>db_offset := 0\<rparr>) (snd r) (sz - bsz);
        Some (bs @ fst s, snd s)
      })
   }"

definition databuffer_read ::
  "databuffer \<Rightarrow> messagepool \<Rightarrow> int \<Rightarrow> (u8 list \<times> databuffer \<times> messagepool) option" where
  "databuffer_read db mp sz = do {
     c_assert (db_size db \<ge> sz);
     read_loop (db\<lparr>db_size := db_size db - sz\<rparr>) mp sz
   }"

text \<open>A new block of nodes: the first is handed out, the others form the free list.\<close>

definition pool_grow :: "messagepool \<Rightarrow> addr \<times> messagepool" where
  "pool_grow mp =
     (let b = mp_brk mp in
      (b, mp\<lparr>mp_nodes := (\<lambda>a. if a = b then Some \<lparr>mg_buffer = None, mg_size = 0, mg_next = None\<rparr>
                              else if b < a \<and> a < b + MESSAGEPOOL
                              then Some \<lparr>mg_buffer = None, mg_size = 0,
                                         mg_next = (if Suc a < b + MESSAGEPOOL then Some (Suc a) else None)\<rparr>
                              else mp_nodes mp a),
            mp_brk := b + MESSAGEPOOL, mp_pool := b # mp_pool mp, mp_freelist := Some (Suc b)\<rparr>))"

definition pool_alloc :: "messagepool \<Rightarrow> (addr \<times> messagepool) option" where
  "pool_alloc mp =
     (case mp_freelist mp of
        Some a \<Rightarrow> do { m \<leftarrow> mp_nodes mp a; Some (a, mp\<lparr>mp_freelist := mg_next m\<rparr>) }
      | None \<Rightarrow> Some (pool_grow mp))"

definition databuffer_push ::
  "databuffer \<Rightarrow> messagepool \<Rightarrow> u8 list \<Rightarrow> int \<Rightarrow> (databuffer \<times> messagepool) option" where
  "databuffer_push db mp data sz = do {
     (a, mp) \<leftarrow> pool_alloc mp;
     let mp = mp\<lparr>mp_nodes := (mp_nodes mp)(a \<mapsto> \<lparr>mg_buffer = Some data, mg_size = sz, mg_next = None\<rparr>)\<rparr>;
     c_assert (in_int (db_size db + sz));
     let db = db\<lparr>db_size := db_size db + sz\<rparr>;
     (case db_head db of
        None \<Rightarrow> do {
          c_assert (db_tail db = None);
          Some (db\<lparr>db_head := Some a, db_tail := Some a\<rparr>, mp)
        }
      | Some _ \<Rightarrow> do {
          t \<leftarrow> db_tail db;
          m \<leftarrow> mp_nodes mp t;
          Some (db\<lparr>db_tail := Some a\<rparr>, mp\<lparr>mp_nodes := (mp_nodes mp)(t \<mapsto> m\<lparr>mg_next := Some a\<rparr>)\<rparr>)
        })
   }"

text \<open>A big-endian length; the shift of the first byte reaches the sign bit.\<close>

definition header_value :: "u8 list \<Rightarrow> int" where
  "header_value plen =
     (if length plen = 2 then 256 * uint (plen ! 0) + uint (plen ! 1)
      else to_int32 (16777216 * uint (plen ! 0) + 65536 * uint (plen ! 1) + 256 * uint (plen ! 2) + uint (plen ! 3)))"

definition databuffer_readheader ::
  "databuffer \<Rightarrow> messagepool \<Rightarrow> int \<Rightarrow> (int \<times> databuffer \<times> messagepool) option" where
  "databuffer_readheader db mp header_size =
     (if db_header db = 0 \<and> db_size db < header_size then Some (- 1, db, mp)
      else do {
        (db, mp) \<leftarrow> (if db_header db = 0 then do {
                       (plen, db, mp) \<leftarrow> databuffer_read db mp header_size;
                       Some (db\<lparr>db_header := header_value plen\<rparr>, mp)
                     }
                     else Some (db, mp));
        Some (if db_size db < db_header db then - 1 else db_header db, db, mp)
      })"

definition databuffer_reset :: "databuffer \<Rightarrow> databuffer" where
  "databuffer_reset db = db\<lparr>db_header := 0\<rparr>"

partial_function (option) clear_loop :: "databuffer \<Rightarrow> messagepool \<Rightarrow> messagepool option" where
  "clear_loop db mp =
     (if db_head db = None then Some mp
      else do { r \<leftarrow> return_message db mp; clear_loop (fst r) (snd r) })"

definition databuffer_clear :: "databuffer \<Rightarrow> messagepool \<Rightarrow> (databuffer \<times> messagepool) option" where
  "databuffer_clear db mp = do { mp \<leftarrow> clear_loop db mp; Some (databuffer_zero, mp) }"

section \<open>Representation\<close>

abbreviation mg_linked :: "messagepool \<Rightarrow> addr option \<Rightarrow> addr list \<Rightarrow> bool" where
  "mg_linked mp \<equiv> linked (mp_nodes mp) mg_next"

definition node_ok :: "messagepool \<Rightarrow> addr \<Rightarrow> bool" where
  "node_ok mp a \<longleftrightarrow> (\<exists>m b. mp_nodes mp a = Some m \<and> mg_buffer m = Some b \<and> mg_size m = int (length b))"

definition node_bytes :: "messagepool \<Rightarrow> addr \<Rightarrow> u8 list" where
  "node_bytes mp a = (case mp_nodes mp a of None \<Rightarrow> [] | Some m \<Rightarrow> (case mg_buffer m of None \<Rightarrow> [] | Some b \<Rightarrow> b))"

text \<open>The bytes in the nodes \<open>xs\<close>, and that a buffer with the nodes \<open>xs\<close> holds the bytes \<open>bs\<close>.\<close>

definition nodes_bytes :: "messagepool \<Rightarrow> addr list \<Rightarrow> u8 list" where
  "nodes_bytes mp xs = concat (map (node_bytes mp) xs)"

definition head_bytes :: "messagepool \<Rightarrow> addr list \<Rightarrow> u8 list" where
  "head_bytes mp xs = (case xs of [] \<Rightarrow> [] | a # _ \<Rightarrow> node_bytes mp a)"

definition db_shape :: "messagepool \<Rightarrow> databuffer \<Rightarrow> addr list \<Rightarrow> u8 list \<Rightarrow> bool" where
  "db_shape mp db xs bs \<longleftrightarrow> mg_linked mp (db_head db) xs \<and>
     db_tail db = (if xs = [] then None else Some (last xs)) \<and> (\<forall>a \<in> set xs. node_ok mp a) \<and>
     0 \<le> db_offset db \<and> db_offset db \<le> int (length (head_bytes mp xs)) \<and>
     bs = drop (nat (db_offset db)) (nodes_bytes mp xs)"

definition db_rep :: "messagepool \<Rightarrow> databuffer \<Rightarrow> addr list \<Rightarrow> u8 list \<Rightarrow> bool" where
  "db_rep mp db xs bs \<longleftrightarrow> db_shape mp db xs bs \<and> db_size db = int (length bs)"

text \<open>The free nodes \<open>fs\<close>.\<close>

definition pool_rep :: "messagepool \<Rightarrow> addr list \<Rightarrow> bool" where
  "pool_rep mp fs \<longleftrightarrow> mg_linked mp (mp_freelist mp) fs \<and> (\<forall>a. mp_brk mp \<le> a \<longrightarrow> mp_nodes mp a = None)"

text \<open>
  A step from a connection with the nodes \<open>xs\<close> and the free nodes \<open>fs\<close> to \<open>xs'\<close> and \<open>fs'\<close>: nodes
  move between the two lists or are new, and no other node changes.
\<close>

definition pool_step ::
  "messagepool \<Rightarrow> addr list \<Rightarrow> addr list \<Rightarrow> messagepool \<Rightarrow> addr list \<Rightarrow> addr list \<Rightarrow> bool" where
  "pool_step mp xs fs mp' xs' fs' \<longleftrightarrow> pool_rep mp' fs' \<and> set xs' \<inter> set fs' = {} \<and>
     (\<forall>a. a \<notin> set xs \<union> set fs \<longrightarrow> mp_nodes mp a \<noteq> None \<longrightarrow>
        mp_nodes mp' a = mp_nodes mp a \<and> a \<notin> set xs' \<union> set fs')"

lemma nodes_bytes_simps [simp]:
  "nodes_bytes mp [] = []" "nodes_bytes mp (a # xs) = node_bytes mp a @ nodes_bytes mp xs"
  "nodes_bytes mp (xs @ ys) = nodes_bytes mp xs @ nodes_bytes mp ys"
  by (simp_all add: nodes_bytes_def)

lemma head_bytes_simps [simp]: "head_bytes mp [] = []" "head_bytes mp (a # xs) = node_bytes mp a"
  by (simp_all add: head_bytes_def)

lemma head_bytes_hd:
  "xs \<noteq> [] \<Longrightarrow> head_bytes mp (xs @ ys) = node_bytes mp (hd xs) \<and> head_bytes mp xs = node_bytes mp (hd xs)"
  by (cases xs) simp_all

lemma node_okD: "node_ok mp a \<Longrightarrow> \<exists>m. mp_nodes mp a = Some m \<and> mg_buffer m = Some (node_bytes mp a) \<and>
    mg_size m = int (length (node_bytes mp a))"
  by (auto simp: node_ok_def node_bytes_def)

text \<open>A buffer depends on its own nodes only.\<close>

lemma db_shape_cong:
  assumes "\<And>a. a \<in> set xs \<Longrightarrow> mp_nodes mp' a = mp_nodes mp a"
  shows "db_shape mp' db xs bs = db_shape mp db xs bs"
proof -
  have "mg_linked mp' p xs = mg_linked mp p xs" for p
    by (rule linked_cong) (use assms in simp)
  moreover have b: "node_bytes mp' a = node_bytes mp a" "node_ok mp' a = node_ok mp a" if "a \<in> set xs" for a
    using assms [OF that] by (simp_all add: node_bytes_def node_ok_def)
  moreover have "nodes_bytes mp' xs = nodes_bytes mp xs" using b(1) by (simp add: nodes_bytes_def cong: map_cong)
  moreover have "head_bytes mp' xs = head_bytes mp xs" using b(1) by (cases xs) simp_all
  ultimately show ?thesis unfolding db_shape_def by simp
qed

lemma db_rep_frame:
  assumes "db_rep mp db ys bs" "pool_step mp xs fs mp' xs' fs'" "set ys \<inter> (set xs \<union> set fs) = {}"
  shows "db_rep mp' db ys bs"
proof -
  have live: "mp_nodes mp a \<noteq> None" if "a \<in> set ys" for a
    using assms(1) that node_okD [of mp a] by (auto simp: db_rep_def db_shape_def)
  have "mp_nodes mp' a = mp_nodes mp a" if "a \<in> set ys" for a
    using assms(2,3) live [OF that] that unfolding pool_step_def by blast
  from db_shape_cong [OF this] assms(1) show ?thesis by (simp add: db_rep_def)
qed

section \<open>Operations\<close>

text \<open>Taking off the first node does not depend on the offset into it.\<close>

lemma return_message_any:
  assumes sh: "db_shape mp (db\<lparr>db_offset := z\<rparr>) (a # xs) bs" and pool: "pool_rep mp fs" and dis: "set (a # xs) \<inter> set fs = {}"
  shows "\<exists>db' mp'. return_message db mp = Some (db', mp') \<and>
     db_header db' = db_header db \<and> db_size db' = db_size db \<and> db_offset db' = db_offset db \<and>
     db_shape mp' (db'\<lparr>db_offset := 0\<rparr>) xs (nodes_bytes mp xs) \<and>
     pool_step mp (a # xs) fs mp' xs (a # fs)"
proof -
  from sh obtain m where m: "db_head db = Some a" "mp_nodes mp a = Some m" "mg_linked mp (mg_next m) xs"
    and ok: "\<forall>b \<in> set xs. node_ok mp b" and tl: "db_tail db = Some (last (a # xs))"
    by (auto simp: db_shape_def)
  have da: "distinct (a # xs)"
    by (rule linked_distinct [of "mp_nodes mp" mg_next "db_head (db\<lparr>db_offset := z\<rparr>)"])
      (use sh in \<open>simp only: db_shape_def\<close>)
  let ?m = "\<lparr>mg_buffer = None, mg_size = 0, mg_next = mp_freelist mp\<rparr>"
  let ?mp = "mp\<lparr>mp_nodes := (mp_nodes mp)(a \<mapsto> ?m), mp_freelist := Some a\<rparr>"
  let ?db = "if mg_next m = None then db\<lparr>db_head := None, db_tail := None\<rparr> else db\<lparr>db_head := mg_next m\<rparr>"
  have xs: "mg_next m = None \<longleftrightarrow> xs = []" using m(3) by (cases xs) auto
  have "return_message db mp = Some (?db, ?mp)"
    using m tl xs by (simp add: return_message_def)
  moreover have "db_shape mp (?db\<lparr>db_offset := 0\<rparr>) xs (nodes_bytes mp xs)"
    using m(3) ok tl xs by (simp add: db_shape_def)
  then have "db_shape ?mp (?db\<lparr>db_offset := 0\<rparr>) xs (nodes_bytes mp xs)"
    by (subst db_shape_cong) (use da in auto)
  moreover have "pool_step mp (a # xs) fs ?mp xs (a # fs)"
    using pool dis da m(2) unfolding pool_step_def pool_rep_def by auto
  ultimately show ?thesis
    by (intro exI [of _ ?db] exI [of _ ?mp]) simp
qed

lemma return_message_spec:
  assumes "db_shape mp db (a # xs) bs" "pool_rep mp fs" "set (a # xs) \<inter> set fs = {}"
  shows "\<exists>db' mp'. return_message db mp = Some (db', mp') \<and>
     db_header db' = db_header db \<and> db_size db' = db_size db \<and> db_offset db' = db_offset db \<and>
     db_shape mp' (db'\<lparr>db_offset := 0\<rparr>) xs (nodes_bytes mp xs) \<and>
     pool_step mp (a # xs) fs mp' xs (a # fs)"
  using return_message_any [of mp "db_offset db" db, OF _ assms(2,3)] assms(1) by auto

lemma pool_step_trans:
  assumes "pool_step mp xs fs mp' xs' fs'" "pool_step mp' xs' fs' mp'' xs'' fs''"
  shows "pool_step mp xs fs mp'' xs'' fs''"
  using assms unfolding pool_step_def by (metis (no_types, lifting))

lemma read_loop_spec:
  assumes "db_shape mp db xs bs" "pool_rep mp fs" "set xs \<inter> set fs = {}" "0 < sz" "sz \<le> int (length bs)"
  shows "\<exists>db' mp' xs' fs'. read_loop db mp sz = Some (take (nat sz) bs, db', mp') \<and>
     db_shape mp' db' xs' (drop (nat sz) bs) \<and> db_header db' = db_header db \<and> db_size db' = db_size db \<and>
     pool_step mp xs fs mp' xs' fs'"
  using assms
proof (induction xs arbitrary: mp db bs fs sz)
  case Nil
  then show ?case by (simp add: db_shape_def)
next
  case (Cons a xs)
  let ?b = "node_bytes mp a" and ?off = "nat (db_offset db)"
  from Cons.prems(1) have sh: "db_head db = Some a" "0 \<le> db_offset db" "db_offset db \<le> int (length ?b)"
    "bs = drop ?off ?b @ nodes_bytes mp xs" and ok: "node_ok mp a" by (auto simp: db_shape_def)
  from node_okD [OF ok] obtain m where m: "mp_nodes mp a = Some m" "mg_buffer m = Some ?b"
    "mg_size m = int (length ?b)" by blast
  let ?bsz = "mg_size m - db_offset db"
  have len: "length (drop ?off ?b) = nat ?bsz" "0 \<le> ?bsz" using sh m(3) by simp_all
  from return_message_spec [OF Cons.prems(1,2,3)] obtain db1 mp1 where
    r: "return_message db mp = Some (db1, mp1)" "db_header db1 = db_header db" "db_size db1 = db_size db"
      "db_shape mp1 (db1\<lparr>db_offset := 0\<rparr>) xs (nodes_bytes mp xs)"
      "pool_step mp (a # xs) fs mp1 xs (a # fs)" by blast
  consider "?bsz > sz" | "?bsz = sz" | "?bsz < sz" by linarith
  then show ?case
  proof cases
    case 1
    have "read_loop db mp sz = Some (take (nat sz) bs, db\<lparr>db_offset := db_offset db + sz\<rparr>, mp)"
      using 1 sh m Cons.prems(4) len(1)
      by (subst read_loop.simps) (simp add: copy_out_def Let_def)
    moreover have "db_shape mp (db\<lparr>db_offset := db_offset db + sz\<rparr>) (a # xs) (drop (nat sz) bs)"
      using Cons.prems(1,4) 1 m(3) len(1) sh
      by (auto simp: db_shape_def nat_add_distrib add.commute)
    moreover have "pool_step mp (a # xs) fs mp (a # xs) fs"
      using Cons.prems(2,3) by (auto simp: pool_step_def)
    ultimately show ?thesis by fastforce
  next
    case 2
    from return_message_spec [of mp "db\<lparr>db_offset := 0\<rparr>" a xs "?b @ nodes_bytes mp xs", OF _ Cons.prems(2,3)] Cons.prems(1)
    obtain db2 mp2 where r2: "return_message (db\<lparr>db_offset := 0\<rparr>) mp = Some (db2, mp2)" "db_offset db2 = 0"
      "db_header db2 = db_header db" "db_size db2 = db_size db"
      "db_shape mp2 (db2\<lparr>db_offset := 0\<rparr>) xs (nodes_bytes mp xs)"
      "pool_step mp (a # xs) fs mp2 xs (a # fs)"
      by (auto simp: db_shape_def)
    have "read_loop db mp sz = Some (take (nat sz) bs, db2, mp2)"
      using 2 sh m r2(1) len(1)
      by (subst read_loop.simps) (simp add: copy_out_def Let_def)
    moreover have "db2\<lparr>db_offset := 0\<rparr> = db2" using r2(2) by simp
    moreover have "drop (nat sz) bs = nodes_bytes mp xs" using 2 len(1) sh(4) by simp
    ultimately show ?thesis using r2 by metis
  next
    case 3
    have l: "0 < sz - ?bsz" "sz - ?bsz \<le> int (length (nodes_bytes mp xs))"
      using 3 Cons.prems(5) sh(4) len by simp_all
    from r(5) have p1: "pool_rep mp1 (a # fs)" "set xs \<inter> set (a # fs) = {}" by (simp_all add: pool_step_def)
    from Cons.IH [OF r(4) p1 l] obtain db' mp' xs' fs' where
      ih: "read_loop (db1\<lparr>db_offset := 0\<rparr>) mp1 (sz - ?bsz) =
          Some (take (nat (sz - ?bsz)) (nodes_bytes mp xs), db', mp')"
        "db_shape mp' db' xs' (drop (nat (sz - ?bsz)) (nodes_bytes mp xs))"
        "db_header db' = db_header db1" "db_size db' = db_size db1" "pool_step mp1 xs (a # fs) mp' xs' fs'" by auto
    have n: "nat sz - length (drop ?off ?b) = nat (sz - ?bsz)" "length (drop ?off ?b) \<le> nat sz"
      using 3 len by (simp_all add: nat_diff_distrib)
    have "read_loop db mp sz = Some (drop ?off ?b @ take (nat (sz - ?bsz)) (nodes_bytes mp xs), db', mp')"
      using 3 sh(1-3) m r(1) ih(1) len
      by (subst read_loop.simps) (simp add: copy_out_def Let_def)
    moreover have "drop ?off ?b @ take (nat (sz - ?bsz)) (nodes_bytes mp xs) = take (nat sz) bs"
      unfolding sh(4) take_append n(1) using n(2) by simp
    moreover have "drop (nat sz) bs = drop (nat (sz - ?bsz)) (nodes_bytes mp xs)"
      unfolding sh(4) drop_append n(1) using n(2) by simp
    ultimately show ?thesis using ih r(2,3) pool_step_trans [OF r(5) ih(5)] by metis
  qed
qed

lemma databuffer_read_spec:
  assumes "db_rep mp db xs bs" "pool_rep mp fs" "set xs \<inter> set fs = {}" "0 < sz" "sz \<le> int (length bs)"
  shows "\<exists>db' mp' xs' fs'. databuffer_read db mp sz = Some (take (nat sz) bs, db', mp') \<and>
     db_rep mp' db' xs' (drop (nat sz) bs) \<and> db_header db' = db_header db \<and> pool_step mp xs fs mp' xs' fs'"
proof -
  have "db_shape mp (db\<lparr>db_size := db_size db - sz\<rparr>) xs bs" and size: "db_size db = int (length bs)"
    using assms(1) by (simp_all add: db_rep_def db_shape_def)
  from read_loop_spec [OF this(1) assms(2-5)] size assms(4,5) show ?thesis
    by (fastforce simp: databuffer_read_def db_rep_def)
qed

lemma pool_grow_spec:
  assumes "pool_rep mp []"
  shows "\<exists>mp' fs. pool_grow mp = (mp_brk mp, mp') \<and> pool_rep mp' fs \<and> mp_brk mp \<notin> set fs \<and>
     mp_nodes mp (mp_brk mp) = None \<and> mp_nodes mp' (mp_brk mp) \<noteq> None \<and> (\<forall>a. mp_nodes mp a \<noteq> None \<longrightarrow> mp_nodes mp' a = mp_nodes mp a \<and> a \<notin> set fs)"
proof -
  let ?b = "mp_brk mp" and ?mp = "snd (pool_grow mp)"
  let ?fs = "[Suc ?b..<?b + MESSAGEPOOL]"
  have fresh: "mp_nodes mp a = None" if "?b \<le> a" for a using assms that by (simp add: pool_rep_def)
  have "mg_linked ?mp (if c < ?b + MESSAGEPOOL then Some c else None) [c..<?b + MESSAGEPOOL]" if "?b < c" for c
    using that
  proof (induction "?b + MESSAGEPOOL - c" arbitrary: c)
    case (Suc n)
    then have "mg_linked ?mp (if Suc c < ?b + MESSAGEPOOL then Some (Suc c) else None) [Suc c..<?b + MESSAGEPOOL]" by simp
    with Suc show ?case by (simp add: upt_conv_Cons pool_grow_def Let_def del: upt_Suc)
  qed simp
  from this [of "Suc ?b"] have "mg_linked ?mp (Some (Suc ?b)) ?fs" by (simp add: MESSAGEPOOL_def del: upt_Suc)
  then have "pool_rep ?mp ?fs" using fresh by (auto simp: pool_rep_def pool_grow_def Let_def MESSAGEPOOL_def simp del: upt_Suc)
  moreover have "mp_nodes ?mp a = mp_nodes mp a \<and> a \<notin> set ?fs" if "mp_nodes mp a \<noteq> None" for a
  proof -
    have "a < ?b" using that fresh [of a] by (cases "a < ?b") auto
    then show ?thesis by (auto simp: pool_grow_def Let_def)
  qed
  ultimately show ?thesis using fresh [of ?b]
    by (intro exI [of _ ?mp] exI [of _ ?fs]) (simp add: pool_grow_def Let_def)
qed

text \<open>An allocated node is in no list.\<close>

lemma pool_alloc_spec:
  assumes "pool_rep mp fs"
  shows "\<exists>a mp' fs'. pool_alloc mp = Some (a, mp') \<and> pool_rep mp' fs' \<and> a \<notin> set fs' \<and>
     (a \<in> set fs \<or> mp_nodes mp a = None) \<and> mp_nodes mp' a \<noteq> None \<and>
     (\<forall>b. mp_nodes mp b \<noteq> None \<longrightarrow> mp_nodes mp' b = mp_nodes mp b \<and> (b \<notin> set fs \<longrightarrow> b \<notin> set fs'))"
proof (cases fs)
  case Nil
  with assms have "mp_freelist mp = None" by (simp add: pool_rep_def)
  with pool_grow_spec [OF assms [unfolded Nil]] show ?thesis by (fastforce simp: pool_alloc_def Nil)
next
  case (Cons a fs')
  with assms obtain m where m: "mp_freelist mp = Some a" "mp_nodes mp a = Some m" "mg_linked mp (mg_next m) fs'"
    by (auto simp: pool_rep_def)
  have "distinct (a # fs')"
    by (rule linked_distinct [of "mp_nodes mp" mg_next "mp_freelist mp"]) (use assms Cons in \<open>simp only: pool_rep_def\<close>)
  with m assms show ?thesis by (auto simp: pool_alloc_def pool_rep_def Cons)
qed

lemma databuffer_push_spec:
  assumes rep: "db_rep mp db xs bs" and pool: "pool_rep mp fs" and dis: "set xs \<inter> set fs = {}"
    and room: "int (length bs + length data) \<le> INT_MAX"
  shows "\<exists>db' mp' xs' fs'. databuffer_push db mp data (int (length data)) = Some (db', mp') \<and>
     db_rep mp' db' xs' (bs @ data) \<and> db_header db' = db_header db \<and> pool_step mp xs fs mp' xs' fs'"
proof -
  from pool_alloc_spec [OF pool] obtain a mp1 fs' where
    al: "pool_alloc mp = Some (a, mp1)" "pool_rep mp1 fs'" "a \<notin> set fs'" "a \<in> set fs \<or> mp_nodes mp a = None"
      "mp_nodes mp1 a \<noteq> None"
      and keep: "\<And>b. mp_nodes mp b \<noteq> None \<Longrightarrow> mp_nodes mp1 b = mp_nodes mp b \<and> (b \<notin> set fs \<longrightarrow> b \<notin> set fs')" by blast
  from rep have sh: "db_shape mp db xs bs" and size: "db_size db = int (length bs)" by (simp_all add: db_rep_def)
  have live: "mp_nodes mp b \<noteq> None" if "b \<in> set xs" for b
    using sh that node_okD [of mp b] by (auto simp: db_shape_def)
  have ax: "a \<notin> set xs" using al(4) live [of a] dis by auto
  let ?m = "\<lparr>mg_buffer = Some data, mg_size = int (length data), mg_next = None\<rparr>"
  let ?mp2 = "mp1\<lparr>mp_nodes := (mp_nodes mp1)(a \<mapsto> ?m)\<rparr>"
  have same: "mp_nodes ?mp2 b = mp_nodes mp b" if "b \<in> set xs" for b
    using keep [OF live [OF that]] that ax by auto
  have sh2: "db_shape ?mp2 db xs bs" by (subst db_shape_cong [OF same]) (use sh in auto)
  have p2: "mg_linked ?mp2 (mp_freelist mp1) fs'" "\<forall>b. mp_brk mp1 \<le> b \<longrightarrow> mp_nodes ?mp2 b = None"
    using al(2,3,5) by (auto simp: pool_rep_def)
  have inr: "in_int (db_size db + int (length data))"
    using room size by (simp add: in_int_def INT_MIN_def)
  have a2: "node_ok ?mp2 a" "node_bytes ?mp2 a = data" by (simp_all add: node_ok_def node_bytes_def)
  show ?thesis
  proof (cases "xs = []")
    case True
    with sh have e: "db_head db = None" "db_tail db = None" "bs = []" "db_offset db = 0" by (auto simp: db_shape_def)
    let ?db = "db\<lparr>db_size := db_size db + int (length data), db_head := Some a, db_tail := Some a\<rparr>"
    have "databuffer_push db mp data (int (length data)) = Some (?db, ?mp2)"
      using al(1) inr e by (simp add: databuffer_push_def Let_def)
    moreover have "db_rep ?mp2 ?db [a] (bs @ data)"
      using a2 e size by (simp add: db_rep_def db_shape_def)
    moreover have "pool_step mp xs fs ?mp2 [a] fs'"
      using p2 al(3,4) keep True unfolding pool_step_def pool_rep_def by auto
    ultimately show ?thesis by (intro exI [of _ ?db] exI [of _ ?mp2]) auto
  next
    case False
    let ?t = "last xs"
    have tx: "?t \<in> set xs" using False by simp
    from False sh have e: "\<exists>y. db_head db = Some y" "db_tail db = Some ?t"
      by (cases xs; auto simp: db_shape_def)+
    from sh2 tx node_okD [of ?mp2 ?t] obtain t where t: "mp_nodes ?mp2 ?t = Some t" by (auto simp: db_shape_def)
    let ?t' = "t\<lparr>mg_next := Some a\<rparr>"
    let ?db = "db\<lparr>db_size := db_size db + int (length data), db_tail := Some a\<rparr>"
    let ?mp3 = "?mp2\<lparr>mp_nodes := (mp_nodes ?mp2)(?t \<mapsto> ?t')\<rparr>"
    have ta: "?t \<noteq> a" using tx ax by auto
    have push: "databuffer_push db mp data (int (length data)) = Some (?db, ?mp3)"
      using al(1) inr e t by (auto simp: databuffer_push_def Let_def)
    have l3: "mg_linked ?mp3 (db_head db) (xs @ [a])"
      using linked_snoc [of "mp_nodes ?mp2" mg_next "db_head db" xs t ?t' a ?m] sh2 False t ax ta
      by (simp add: db_shape_def)
    have b3: "node_bytes ?mp3 b = node_bytes ?mp2 b" "node_ok ?mp3 b = node_ok ?mp2 b" for b
      using t by (auto simp: node_bytes_def node_ok_def)
    have n3: "nodes_bytes ?mp3 ys = nodes_bytes ?mp2 ys" for ys
      unfolding nodes_bytes_def by (intro arg_cong [of _ _ concat] map_cong refl b3)
    have h3: "head_bytes ?mp3 (xs @ [a]) = head_bytes ?mp2 xs" 
      using head_bytes_hd [OF False, of ?mp3] head_bytes_hd [OF False, of ?mp2] b3(1) [of "hd xs"] by metis
    have hl: "length (head_bytes ?mp2 xs) \<le> length (nodes_bytes ?mp2 xs)" by (cases xs) simp_all
    have "db_shape ?mp3 ?db (xs @ [a]) (bs @ data)"
      unfolding db_shape_def h3 n3 b3 using l3 sh2 a2 hl by (auto simp: db_shape_def)
    then have r3: "db_rep ?mp3 ?db (xs @ [a]) (bs @ data)" by (simp add: db_rep_def size)
    have tf: "?t \<notin> set fs'" using keep [OF live [OF tx]] tx dis by auto
    then have "pool_rep ?mp3 fs'" using p2 t by (auto simp: pool_rep_def)
    moreover have "set (xs @ [a]) \<inter> set fs' = {}" using al(3) keep [OF live] dis by auto
    moreover have "mp_nodes ?mp3 b = mp_nodes mp b \<and> b \<notin> set (xs @ [a]) \<union> set fs'"
      if "b \<notin> set xs \<union> set fs" "mp_nodes mp b \<noteq> None" for b
      using keep [OF that(2)] that al(4) tx by auto
    ultimately have "pool_step mp xs fs ?mp3 (xs @ [a]) fs'" unfolding pool_step_def by blast
    with push r3 show ?thesis by (intro exI [of _ ?db] exI [of _ ?mp3]) auto
  qed
qed

lemma clear_loop_spec:
  assumes "db_shape mp (db\<lparr>db_offset := z\<rparr>) xs bs" "pool_rep mp fs" "set xs \<inter> set fs = {}"
  shows "\<exists>mp' fs'. clear_loop db mp = Some mp' \<and> pool_step mp xs fs mp' [] fs'"
  using assms
proof (induction xs arbitrary: mp db bs fs z)
  case Nil
  then show ?case by (subst clear_loop.simps) (auto simp: db_shape_def pool_step_def)
next
  case (Cons a xs)
  from return_message_any [OF Cons.prems] obtain db1 mp1 where
    r: "return_message db mp = Some (db1, mp1)" "db_shape mp1 (db1\<lparr>db_offset := 0\<rparr>) xs (nodes_bytes mp xs)"
      "pool_step mp (a # xs) fs mp1 xs (a # fs)" by blast
  from r(3) have "pool_rep mp1 (a # fs)" "set xs \<inter> set (a # fs) = {}" by (simp_all add: pool_step_def)
  from Cons.IH [OF r(2) this] obtain mp' fs' where
    "clear_loop db1 mp1 = Some mp'" and p: "pool_step mp1 xs (a # fs) mp' [] fs'" by blast
  moreover have "db_head db = Some a" using Cons.prems(1) by (auto simp: db_shape_def)
  ultimately have "clear_loop db mp = Some mp'" using r(1) by (subst clear_loop.simps) simp
  with pool_step_trans [OF r(3) p] show ?case by blast
qed

lemma databuffer_clear_spec:
  assumes "db_rep mp db xs bs" "pool_rep mp fs" "set xs \<inter> set fs = {}"
  shows "\<exists>mp' fs'. databuffer_clear db mp = Some (databuffer_zero, mp') \<and>
     db_rep mp' databuffer_zero [] [] \<and> pool_step mp xs fs mp' [] fs'"
  using clear_loop_spec [of mp "db_offset db" db xs bs fs] assms
  by (fastforce simp: db_rep_def databuffer_clear_def db_shape_def databuffer_zero_def)

section \<open>A queue of bytes\<close>

text \<open>
  What the users of a receive buffer rely on: a push appends and a read takes from the front. Reading
  after any sequence of pushes cuts the received stream into pieces, whatever its fragmentation.
\<close>

primrec reads :: "(int \<Rightarrow> 's \<Rightarrow> (u8 list \<times> 's) option) \<Rightarrow> int list \<Rightarrow> 's \<Rightarrow> (u8 list list \<times> 's) option" where
  "reads rd [] s = Some ([], s)"
| "reads rd (n # ns) s = do { (b, s1) \<leftarrow> rd n s; (bs, s2) \<leftarrow> reads rd ns s1; Some (b # bs, s2) }"

primrec pieces :: "int list \<Rightarrow> u8 list \<Rightarrow> u8 list list" where
  "pieces [] bs = []"
| "pieces (n # ns) bs = take (nat n) bs # pieces ns (drop (nat n) bs)"

locale byte_queue =
  fixes rep :: "'s \<Rightarrow> u8 list \<Rightarrow> bool"
    and push :: "u8 list \<Rightarrow> 's \<Rightarrow> 's option"
    and rd :: "int \<Rightarrow> 's \<Rightarrow> (u8 list \<times> 's) option"
  assumes push_law: "rep s bs \<Longrightarrow> int (length bs + length xs) \<le> INT_MAX \<Longrightarrow>
      \<exists>s'. push xs s = Some s' \<and> rep s' (bs @ xs)"
    and read_law: "rep s bs \<Longrightarrow> 0 < n \<Longrightarrow> n \<le> int (length bs) \<Longrightarrow>
      \<exists>s'. rd n s = Some (take (nat n) bs, s') \<and> rep s' (drop (nat n) bs)"
begin

lemma pushes:
  assumes "rep s bs" "int (length bs + length (concat css)) \<le> INT_MAX"
  shows "\<exists>s'. c_for css push s = Some s' \<and> rep s' (bs @ concat css)"
  using assms
proof (induction css arbitrary: s bs)
  case (Cons c css)
  from push_law [OF Cons.prems(1), of c] Cons.prems(2) obtain s1 where
    "push c s = Some s1" "rep s1 (bs @ c)" by auto
  with Cons.IH [of s1 "bs @ c"] Cons.prems(2) show ?case by (simp add: add.assoc)
qed simp

lemma reads_pieces:
  assumes "rep s bs" "\<forall>n \<in> set ns. 0 < n" "sum_list ns \<le> int (length bs)"
  shows "\<exists>s'. reads rd ns s = Some (pieces ns bs, s') \<and> rep s' (drop (nat (sum_list ns)) bs)"
  using assms
proof (induction ns arbitrary: s bs)
  case (Cons n ns)
  have nn: "0 \<le> sum_list ns" using Cons.prems(2) by (intro sum_list_nonneg) (simp add: order_less_imp_le)
  then have n: "0 < n" "n \<le> int (length bs)" using Cons.prems(2,3) by simp_all
  from read_law [OF Cons.prems(1) n] obtain s1 where
    s1: "rd n s = Some (take (nat n) bs, s1)" "rep s1 (drop (nat n) bs)" by blast
  have "sum_list ns \<le> int (length (drop (nat n) bs))" using Cons.prems(3) n by simp
  with Cons.IH [OF s1(2)] Cons.prems(2) obtain s2 where
    "reads rd ns s1 = Some (pieces ns (drop (nat n) bs), s2)" "rep s2 (drop (nat (sum_list ns)) (drop (nat n) bs))" by auto
  moreover have "nat (sum_list ns) + nat n = nat (n + sum_list ns)" using n nn by (simp add: nat_add_distrib)
  ultimately show ?case using s1(1) by (simp add: add.commute)
qed simp

lemma stream:
  assumes "rep s []" "int (length (concat css)) \<le> INT_MAX" "\<forall>n \<in> set ns. 0 < n"
    "sum_list ns \<le> int (length (concat css))"
  shows "\<exists>s1 s2. c_for css push s = Some s1 \<and> reads rd ns s1 = Some (pieces ns (concat css), s2) \<and>
     rep s2 (drop (nat (sum_list ns)) (concat css))"
  using pushes [OF assms(1), of css] reads_pieces [OF _ assms(3)] assms(2,4) by fastforce

end

text \<open>
  A connection \<open>db\<close> with the bytes \<open>bs\<close> beside another connection \<open>other\<close> with the bytes \<open>obs\<close>, both
  with nodes of the same pool.
\<close>

definition conn_rep :: "databuffer \<Rightarrow> u8 list \<Rightarrow> databuffer \<times> messagepool \<Rightarrow> u8 list \<Rightarrow> bool" where
  "conn_rep other obs s bs \<longleftrightarrow> (\<exists>xs ys fs. db_rep (snd s) (fst s) xs bs \<and> db_rep (snd s) other ys obs \<and>
     pool_rep (snd s) fs \<and> set xs \<inter> set fs = {} \<and> set ys \<inter> (set xs \<union> set fs) = {})"

lemma conn_rep_step:
  assumes "db_rep mp other ys obs" "set ys \<inter> (set xs \<union> set fs) = {}"
    and step: "pool_step mp xs fs mp' xs' fs'" and db': "db_rep mp' db' xs' bs'"
  shows "conn_rep other obs (db', mp') bs'"
proof -
  have live: "mp_nodes mp a \<noteq> None" if "a \<in> set ys" for a
    using assms(1) that node_okD [of mp a] by (auto simp: db_rep_def db_shape_def)
  have "set ys \<inter> (set xs' \<union> set fs') = {}"
    using assms(2) step live unfolding pool_step_def by blast
  moreover have "db_rep mp' other ys obs" by (rule db_rep_frame [OF assms(1) step assms(2)])
  ultimately show ?thesis using step db' unfolding conn_rep_def pool_step_def by auto
qed

lemma conn_push:
  assumes "conn_rep other obs (db, mp) bs" "int (length bs + length data) \<le> INT_MAX"
  shows "\<exists>db' mp'. databuffer_push db mp data (int (length data)) = Some (db', mp') \<and>
     conn_rep other obs (db', mp') (bs @ data) \<and> db_header db' = db_header db"
proof -
  from assms(1) obtain xs ys fs where r: "db_rep mp db xs bs" "db_rep mp other ys obs" "pool_rep mp fs"
    "set xs \<inter> set fs = {}" "set ys \<inter> (set xs \<union> set fs) = {}" by (auto simp: conn_rep_def)
  from databuffer_push_spec [OF r(1,3,4) assms(2)] conn_rep_step [OF r(2,5)] show ?thesis by blast
qed

lemma conn_read:
  assumes "conn_rep other obs (db, mp) bs" "0 < sz" "sz \<le> int (length bs)"
  shows "\<exists>db' mp'. databuffer_read db mp sz = Some (take (nat sz) bs, db', mp') \<and>
     conn_rep other obs (db', mp') (drop (nat sz) bs) \<and> db_header db' = db_header db"
proof -
  from assms(1) obtain xs ys fs where r: "db_rep mp db xs bs" "db_rep mp other ys obs" "pool_rep mp fs"
    "set xs \<inter> set fs = {}" "set ys \<inter> (set xs \<union> set fs) = {}" by (auto simp: conn_rep_def)
  from databuffer_read_spec [OF r(1,3,4) assms(2,3)] conn_rep_step [OF r(2,5)] show ?thesis by blast
qed

lemma conn_clear:
  assumes "conn_rep other obs (db, mp) bs"
  shows "\<exists>mp'. databuffer_clear db mp = Some (databuffer_zero, mp') \<and> conn_rep other obs (databuffer_zero, mp') []"
proof -
  from assms obtain xs ys fs where r: "db_rep mp db xs bs" "db_rep mp other ys obs" "pool_rep mp fs"
    "set xs \<inter> set fs = {}" "set ys \<inter> (set xs \<union> set fs) = {}" by (auto simp: conn_rep_def)
  from databuffer_clear_spec [OF r(1,3,4)] conn_rep_step [OF r(2,5)] show ?thesis by blast
qed

lemma conn_rep_size: "conn_rep other obs (db, mp) bs \<Longrightarrow> db_size db = int (length bs)"
  by (auto simp: conn_rep_def db_rep_def)

lemma conn_rep_header [simp]: "conn_rep other obs (db\<lparr>db_header := h\<rparr>, mp) bs = conn_rep other obs (db, mp) bs"
  by (simp add: conn_rep_def db_rep_def db_shape_def)

abbreviation conn_push_op :: "u8 list \<Rightarrow> databuffer \<times> messagepool \<Rightarrow> (databuffer \<times> messagepool) option" where
  "conn_push_op data s \<equiv> databuffer_push (fst s) (snd s) data (int (length data))"

abbreviation conn_read_op ::
  "int \<Rightarrow> databuffer \<times> messagepool \<Rightarrow> (u8 list \<times> databuffer \<times> messagepool) option" where
  "conn_read_op n s \<equiv> databuffer_read (fst s) (snd s) n"

interpretation conn: byte_queue "conn_rep other obs" conn_push_op conn_read_op for other obs
proof unfold_locales
  fix s :: "databuffer \<times> messagepool" and bs xs :: "u8 list" and n :: int
  obtain db mp where s: "s = (db, mp)" by (cases s)
  assume r: "conn_rep other obs s bs"
  show "\<exists>s'. conn_push_op xs s = Some s' \<and> conn_rep other obs s' (bs @ xs)"
    if "int (length bs + length xs) \<le> INT_MAX"
    using conn_push [OF r [unfolded s] that] s by auto
  show "\<exists>s'. conn_read_op n s = Some (take (nat n) bs, s') \<and> conn_rep other obs s' (drop (nat n) bs)"
    if "0 < n" "n \<le> int (length bs)"
    using conn_read [OF r [unfolded s] that] s by auto
qed

section \<open>Properties\<close>

text \<open>
  C31. The receive buffer is a byte stream: after any blocks are pushed, reading any positive sizes
  within the received total gives exactly the consecutive pieces of the concatenated blocks and leaves
  the rest, without an assertion failing; a second connection that shares the node pool keeps its
  bytes.
\<close>

theorem databuffer_stream:
  assumes "conn_rep other obs s []" "int (length (concat css)) \<le> INT_MAX" "\<forall>n \<in> set ns. 0 < n"
    "sum_list ns \<le> int (length (concat css))"
  shows "\<exists>s1 s2. c_for css conn_push_op s = Some s1 \<and>
     reads conn_read_op ns s1 = Some (pieces ns (concat css), s2) \<and>
     conn_rep other obs s2 (drop (nat (sum_list ns)) (concat css))"
  by (rule conn.stream [OF assms])

lemma conn_rep_zero: "conn_rep databuffer_zero [] (databuffer_zero, messagepool_zero) []"
  by (auto simp: conn_rep_def db_rep_def db_shape_def pool_rep_def databuffer_zero_def messagepool_zero_def)

theorem databuffer_stream_witness:
  "\<exists>s1 s2. c_for [[1, 2], [3], [4, 5, 6]] conn_push_op (databuffer_zero, messagepool_zero) = Some s1 \<and>
     reads conn_read_op [1, 4] s1 = Some ([[1], [2, 3, 4, 5]], s2)"
  using databuffer_stream [OF conn_rep_zero, of "[[1, 2], [3], [4, 5, 6]]" "[1, 4]"]
  by (auto simp: INT_MAX_def numeral_eq_Suc)

end
