(* ===== verification/Gate_Hashid.thy ===== *)
theory Gate_Hashid
  imports Gate_Databuffer
begin

text \<open>
  The table from socket ids to slots of the gate service, \<^verbatim>\<open>service-src/hashid.h\<close>: an array of nodes
  whose index is the slot, chained into buckets. Pointers to nodes are indices of that array.
\<close>

unbundle bit_operations_syntax

record hashid_node =
  hn_id :: int
  hn_next :: "addr option"

record hashid =
  hi_hashmod :: int
  hi_cap :: int
  hi_count :: int
  hi_id :: "hashid_node list"
  hi_hash :: "addr option list"

abbreviation hn_free :: hashid_node where
  "hn_free \<equiv> \<lparr>hn_id = - 1, hn_next = None\<rparr>"

text \<open>Doubling beyond the range of \<open>int\<close> is undefined.\<close>

partial_function (option) hashcap_loop :: "int \<Rightarrow> int \<Rightarrow> int option" where
  "hashcap_loop hashcap mx =
     (if hashcap < mx then do { c_assert (in_int (hashcap * 2)); hashcap_loop (hashcap * 2) mx }
      else Some hashcap)"

definition hashid_init :: "int \<Rightarrow> hashid option" where
  "hashid_init mx = do {
     hashcap \<leftarrow> hashcap_loop 16 mx;
     Some \<lparr>hi_hashmod = hashcap - 1, hi_cap = mx, hi_count = 0,
           hi_id = replicate (nat mx) hn_free, hi_hash = replicate (nat hashcap) None\<rparr>
   }"

definition hashid_clear :: "hashid \<Rightarrow> hashid" where
  "hashid_clear hi = \<lparr>hi_hashmod = 1, hi_cap = 0, hi_count = 0, hi_id = [], hi_hash = []\<rparr>"

definition hi_node :: "hashid \<Rightarrow> addr \<Rightarrow> hashid_node option" where
  "hi_node hi a = (if a < length (hi_id hi) then Some (hi_id hi ! a) else None)"

definition hi_bucket :: "hashid \<Rightarrow> int \<Rightarrow> addr option option" where
  "hi_bucket hi sid =
     (let h = sid AND hi_hashmod hi in
      if 0 \<le> h \<and> h < int (length (hi_hash hi)) then Some (hi_hash hi ! nat h) else None)"

partial_function (option) lookup_loop :: "hashid \<Rightarrow> int \<Rightarrow> addr option \<Rightarrow> int option" where
  "lookup_loop hi sid c =
     (case c of
        None \<Rightarrow> Some (- 1)
      | Some a \<Rightarrow> do {
          n \<leftarrow> hi_node hi a;
          (if hn_id n = sid then Some (int a) else lookup_loop hi sid (hn_next n))
        })"

definition hashid_lookup :: "hashid \<Rightarrow> int \<Rightarrow> int option" where
  "hashid_lookup hi sid = do { c \<leftarrow> hi_bucket hi sid; lookup_loop hi sid c }"

text \<open>The common end of a removal (label \<open>_clear\<close>).\<close>

definition clear_node :: "hashid \<Rightarrow> addr \<Rightarrow> int \<times> hashid" where
  "clear_node hi c = (int c, hi\<lparr>hi_id := (hi_id hi)[c := hn_free], hi_count := hi_count hi - 1\<rparr>)"

partial_function (option) remove_loop :: "hashid \<Rightarrow> int \<Rightarrow> addr \<Rightarrow> (int \<times> hashid) option" where
  "remove_loop hi sid c = do {
     n \<leftarrow> hi_node hi c;
     (case hn_next n of
        None \<Rightarrow> Some (- 1, hi)
      | Some t \<Rightarrow> do {
          m \<leftarrow> hi_node hi t;
          (if hn_id m = sid
           then Some (clear_node (hi\<lparr>hi_id := (hi_id hi)[c := n\<lparr>hn_next := hn_next m\<rparr>]\<rparr>) t)
           else remove_loop hi sid t)
        })
   }"

definition hashid_remove :: "hashid \<Rightarrow> int \<Rightarrow> (int \<times> hashid) option" where
  "hashid_remove hi sid = do {
     p \<leftarrow> hi_bucket hi sid;
     (case p of
        None \<Rightarrow> Some (- 1, hi)
      | Some c \<Rightarrow> do {
          n \<leftarrow> hi_node hi c;
          (if hn_id n = sid
           then Some (clear_node (hi\<lparr>hi_hash := (hi_hash hi)[nat (sid AND hi_hashmod hi) := hn_next n]\<rparr>) c)
           else remove_loop hi sid c)
        })
   }"

text \<open>
  The search for a free node. A negative index (the remainder of a negative sum) is out of range, and
  so is an \<open>i + sid\<close> beyond \<open>int\<close>.
\<close>

primrec free_slot :: "hashid \<Rightarrow> int \<Rightarrow> nat list \<Rightarrow> addr option option" where
  "free_slot hi sid [] = Some None"
| "free_slot hi sid (i # is) = do {
     c_assert (0 \<le> int i + sid \<and> in_int (int i + sid));
     let index = nat ((int i + sid) mod hi_cap hi);
     n \<leftarrow> hi_node hi index;
     (if hn_id n = - 1 then Some (Some index) else free_slot hi sid is)
   }"

definition hashid_insert :: "hashid \<Rightarrow> int \<Rightarrow> (int \<times> hashid) option" where
  "hashid_insert hi sid = do {
     c \<leftarrow> free_slot hi sid [0..<nat (hi_cap hi)];
     c \<leftarrow> c;
     n \<leftarrow> hi_node hi c;
     c_assert (hn_next n = None);
     p \<leftarrow> hi_bucket hi sid;
     Some (int c, hi\<lparr>hi_count := hi_count hi + 1, hi_id := (hi_id hi)[c := \<lparr>hn_id = sid, hn_next = p\<rparr>],
                     hi_hash := (hi_hash hi)[nat (sid AND hi_hashmod hi) := Some c]\<rparr>)
   }"

definition hashid_full :: "hashid \<Rightarrow> bool" where
  "hashid_full hi \<longleftrightarrow> hi_count hi = hi_cap hi"

section \<open>Invariant\<close>

abbreviation hi_linked :: "hashid \<Rightarrow> addr option \<Rightarrow> addr list \<Rightarrow> bool" where
  "hi_linked hi \<equiv> linked (hi_node hi) hn_next"

abbreviation id_of :: "hashid \<Rightarrow> addr \<Rightarrow> int" where
  "id_of hi a \<equiv> hn_id (hi_id hi ! a)"

definition used :: "hashid \<Rightarrow> addr set" where
  "used hi = {a. a < length (hi_id hi) \<and> id_of hi a \<noteq> - 1}"

definition bucket :: "hashid \<Rightarrow> int \<Rightarrow> nat" where
  "bucket hi sid = nat (sid AND hi_hashmod hi)"

text \<open>\<open>B h\<close> is the list of nodes of the bucket \<open>h\<close>.\<close>

definition buckets :: "hashid \<Rightarrow> (nat \<Rightarrow> addr list) \<Rightarrow> bool" where
  "buckets hi B \<longleftrightarrow> (\<forall>h < length (hi_hash hi). hi_linked hi (hi_hash hi ! h) (B h) \<and>
     set (B h) = {a \<in> used hi. bucket hi (id_of hi a) = h})"

definition hash_inv :: "hashid \<Rightarrow> bool" where
  "hash_inv hi \<longleftrightarrow> (\<exists>k. length (hi_hash hi) = 2 ^ k) \<and> hi_hashmod hi = int (length (hi_hash hi)) - 1 \<and>
     hi_cap hi = int (length (hi_id hi)) \<and> hi_count hi = int (card (used hi)) \<and>
     (\<forall>a < length (hi_id hi). id_of hi a = - 1 \<longrightarrow> hn_next (hi_id hi ! a) = None) \<and>
     inj_on (id_of hi) (used hi) \<and> (\<exists>B. buckets hi B)"

text \<open>The slot of an id.\<close>

definition slot_of :: "hashid \<Rightarrow> int \<Rightarrow> addr option" where
  "slot_of hi sid = (if sid = - 1 then None else find (\<lambda>a. id_of hi a = sid) [0..<length (hi_id hi)])"

definition slot_int :: "addr option \<Rightarrow> int" where
  "slot_int p = (case p of None \<Rightarrow> - 1 | Some a \<Rightarrow> int a)"

lemma slot_of_Some:
  assumes "inj_on (id_of hi) (used hi)"
  shows "slot_of hi sid = Some a \<longleftrightarrow> a \<in> used hi \<and> id_of hi a = sid"
proof
  assume "slot_of hi sid = Some a"
  then show "a \<in> used hi \<and> id_of hi a = sid"
    by (auto simp: slot_of_def used_def find_Some_iff split: if_splits)
next
  assume a: "a \<in> used hi \<and> id_of hi a = sid"
  then have "a < length (hi_id hi)" "sid \<noteq> - 1" by (auto simp: used_def)
  moreover have "id_of hi b \<noteq> sid" if "b < a" for b
    using a that inj_onD [OF assms, of b a] by (auto simp: used_def)
  ultimately show "slot_of hi sid = Some a"
    using a by (auto simp: slot_of_def find_Some_iff intro!: exI [of _ a])
qed

lemma slot_of_None:
  assumes "inj_on (id_of hi) (used hi)"
  shows "slot_of hi sid = None \<longleftrightarrow> (\<forall>a \<in> used hi. id_of hi a \<noteq> sid)"
  using slot_of_Some [OF assms] by (metis not_Some_eq)

lemma bucket_less:
  assumes "hash_inv hi"
  shows "bucket hi sid < length (hi_hash hi)" "hi_bucket hi sid = Some (hi_hash hi ! bucket hi sid)"
proof -
  from assms obtain k where k: "length (hi_hash hi) = 2 ^ k" "hi_hashmod hi = int (2 ^ k) - 1"
    by (auto simp: hash_inv_def)
  then have m: "hi_hashmod hi = mask k" by (simp add: mask_eq_exp_minus_1)
  have "sid AND hi_hashmod hi = take_bit k sid" unfolding m by (simp add: take_bit_eq_mask)
  moreover have "0 \<le> take_bit k sid" "take_bit k sid < int (2 ^ k)" by (simp_all add: take_bit_int_less_exp)
  ultimately have "0 \<le> sid AND hi_hashmod hi" "sid AND hi_hashmod hi < int (length (hi_hash hi))" using k by simp_all
  then show "bucket hi sid < length (hi_hash hi)" "hi_bucket hi sid = Some (hi_hash hi ! bucket hi sid)"
    by (simp_all add: bucket_def hi_bucket_def Let_def nat_less_iff)
qed

lemma option_map_eqI: "(\<And>s c. f s = Some c \<longleftrightarrow> g s = Some c) \<Longrightarrow> f = g"
  by (rule ext) (metis not_Some_eq)

section \<open>Lookup\<close>

lemma lookup_loop_spec:
  "hi_linked hi p xs \<Longrightarrow> lookup_loop hi sid p = Some (slot_int (find (\<lambda>a. id_of hi a = sid) xs))"
proof (induction xs arbitrary: p)
  case Nil
  then show ?case by (subst lookup_loop.simps) (simp add: slot_int_def)
next
  case (Cons a xs)
  then obtain r where "p = Some a" "hi_node hi a = Some r" "hi_linked hi (hn_next r) xs" by auto
  moreover from this have "r = hi_id hi ! a" by (simp add: hi_node_def split: if_splits)
  ultimately show ?case using Cons.IH by (subst lookup_loop.simps) (simp add: slot_int_def)
qed

text \<open>Searching the bucket of an id finds its slot.\<close>

lemma find_bucket:
  assumes inv: "hash_inv hi" and B: "buckets hi B"
  shows "find (\<lambda>a. id_of hi a = sid) (B (bucket hi sid)) = slot_of hi sid"
proof -
  have inj: "inj_on (id_of hi) (used hi)" using inv by (simp add: hash_inv_def)
  have set: "set (B (bucket hi sid)) = {a \<in> used hi. bucket hi (id_of hi a) = bucket hi sid}"
    using B bucket_less(1) [OF inv] by (simp add: buckets_def)
  show ?thesis
  proof (cases "find (\<lambda>a. id_of hi a = sid) (B (bucket hi sid))")
    case None
    then have "slot_of hi sid = None" unfolding slot_of_None [OF inj] find_None_iff set by auto
    with None show ?thesis by simp
  next
    case (Some a)
    then have "a \<in> set (B (bucket hi sid))" "id_of hi a = sid" by (auto simp: find_Some_iff)
    then have "slot_of hi sid = Some a" unfolding slot_of_Some [OF inj] set by simp
    with Some show ?thesis by simp
  qed
qed

lemma hashid_lookup_spec:
  assumes "hash_inv hi"
  shows "hashid_lookup hi sid = Some (slot_int (slot_of hi sid))"
proof -
  from assms obtain B where B: "buckets hi B" by (auto simp: hash_inv_def)
  have "hi_linked hi (hi_hash hi ! bucket hi sid) (B (bucket hi sid))"
    using B bucket_less(1) [OF assms] by (simp add: buckets_def)
  from lookup_loop_spec [OF this] show ?thesis
    by (simp add: hashid_lookup_def bucket_less(2) [OF assms] find_bucket [OF assms B])
qed

section \<open>Insertion\<close>

lemma free_slot_find:
  assumes "hi_cap hi = int (length (hi_id hi))" "0 \<le> sid" "\<forall>i \<in> set is. i < length (hi_id hi) \<and> int i + sid \<le> INT_MAX"
  shows "free_slot hi sid is =
     Some (find (\<lambda>a. id_of hi a = - 1) (map (\<lambda>i. nat ((int i + sid) mod hi_cap hi)) is))"
  using assms(3)
proof (induction "is")
  case (Cons i "is")
  then have "0 < length (hi_id hi)" by auto
  then have "nat ((int i + sid) mod hi_cap hi) < length (hi_id hi)" using assms(1) by (simp add: nat_less_iff)
  moreover have "in_int (int i + sid)" using Cons.prems assms(2) by (simp add: in_int_def INT_MIN_def)
  ultimately show ?case using Cons assms(2) by (simp add: Let_def hi_node_def)
qed simp

text \<open>The search visits every node.\<close>

lemma slot_visited:
  assumes "a < n"
  shows "\<exists>i < n. nat ((int i + sid) mod int n) = a"
proof -
  let ?i = "(int a - sid) mod int n"
  have i: "0 \<le> ?i" "?i < int n" using assms by simp_all
  have "(?i + sid) mod int n = int a" using assms by (simp add: mod_simps)
  then show ?thesis using i by (intro exI [of _ "nat ?i"]) (simp add: nat_less_iff)
qed

text \<open>A free node exists while the table is not full, and the search finds one.\<close>

lemma free_slot_ok:
  assumes inv: "hash_inv hi" and nf: "\<not> hashid_full hi" and sid: "0 \<le> sid" "sid + hi_cap hi \<le> INT_MAX"
  shows "\<exists>a. free_slot hi sid [0..<nat (hi_cap hi)] = Some (Some a) \<and> a < length (hi_id hi) \<and> id_of hi a = - 1"
proof -
  let ?n = "length (hi_id hi)"
  from inv have cap: "hi_cap hi = int ?n" and cnt: "hi_count hi = int (card (used hi))" by (auto simp: hash_inv_def)
  have "\<exists>b < ?n. b \<notin> used hi"
  proof (rule ccontr)
    assume "\<not> ?thesis"
    then have "used hi = {..<?n}" by (auto simp: used_def)
    with nf show False by (simp add: hashid_full_def cap cnt)
  qed
  then obtain b where b: "b < ?n" "id_of hi b = - 1" by (auto simp: used_def)
  let ?idx = "map (\<lambda>i. nat ((int i + sid) mod hi_cap hi)) [0..<?n]"
  have "b \<in> set ?idx" using slot_visited [OF b(1), of sid] unfolding cap by auto
  then obtain a where a: "find (\<lambda>a. id_of hi a = - 1) ?idx = Some a"
    using b(2) find_None_iff [of "\<lambda>a. id_of hi a = - 1" ?idx] by (metis not_Some_eq)
  have "free_slot hi sid [0..<?n] = Some (Some a)"
    unfolding a [symmetric] by (rule free_slot_find [OF cap sid(1)]) (use sid(2) cap in auto)
  moreover have "a \<in> set ?idx" "id_of hi a = - 1" using a by (auto simp: find_Some_iff)
  moreover have "a < ?n"
  proof -
    from \<open>a \<in> set ?idx\<close> obtain i where i: "i < ?n" "a = nat ((int i + sid) mod int ?n)" by (auto simp: cap)
    then have "0 < int ?n" by linarith
    then have "(int i + sid) mod int ?n < int ?n" by (rule pos_mod_bound)
    then show ?thesis unfolding i(2) using \<open>0 < int ?n\<close> by (simp add: nat_less_iff)
  qed
  ultimately show ?thesis by (auto simp: cap)
qed

text \<open>The used nodes and the slots when one node changes its id.\<close>

lemma occupy:
  assumes inj: "inj_on (id_of hi) (used hi)" and len: "length (hi_id hi') = length (hi_id hi)"
    and a: "a < length (hi_id hi)" "a \<notin> used hi" and new: "slot_of hi sid = None" "sid \<noteq> - 1"
    and ids: "\<And>c. id_of hi' c = (if c = a then sid else id_of hi c)"
  shows "used hi' = insert a (used hi)" "inj_on (id_of hi') (used hi')" "slot_of hi' = (slot_of hi)(sid \<mapsto> a)"
proof -
  show us: "used hi' = insert a (used hi)" using a new(2) by (auto simp: used_def ids len)
  have other: "id_of hi c \<noteq> sid" if "c \<in> used hi" for c using new(1) that by (simp add: slot_of_None [OF inj])
  show inj': "inj_on (id_of hi') (used hi')"
    unfolding us using inj other a(2) by (intro inj_onI) (auto simp: ids dest: inj_onD split: if_splits)
  have "slot_of hi' s = Some c \<longleftrightarrow> ((slot_of hi)(sid \<mapsto> a)) s = Some c" for s c
    unfolding slot_of_Some [OF inj'] us ids using a(2) slot_of_Some [OF inj, of s c] other by auto
  then show "slot_of hi' = (slot_of hi)(sid \<mapsto> a)" by (metis option_map_eqI)
qed

lemma vacate:
  assumes inj: "inj_on (id_of hi) (used hi)" and len: "length (hi_id hi') = length (hi_id hi)"
    and a: "a \<in> used hi" and ids: "\<And>c. id_of hi' c = (if c = a then - 1 else id_of hi c)"
  shows "used hi' = used hi - {a}" "inj_on (id_of hi') (used hi')" "slot_of hi' = (slot_of hi)(id_of hi a := None)"
proof -
  show us: "used hi' = used hi - {a}" by (auto simp: used_def ids len split: if_splits)
  show inj': "inj_on (id_of hi') (used hi')"
    unfolding us using inj by (intro inj_onI) (auto simp: ids dest: inj_onD split: if_splits)
  have "slot_of hi' s = Some c \<longleftrightarrow> ((slot_of hi)(id_of hi a := None)) s = Some c" for s c
    unfolding slot_of_Some [OF inj'] us ids using slot_of_Some [OF inj, of s c] inj a by (auto dest: inj_onD)
  then show "slot_of hi' = (slot_of hi)(id_of hi a := None)" by (metis option_map_eqI)
qed

lemma linked_bucket_cong:
  assumes "buckets hi B" "h < length (hi_hash hi)" "a \<notin> used hi \<or> bucket hi (id_of hi a) \<noteq> h"
    and "\<And>c. c \<noteq> a \<Longrightarrow> hi_node hi' c = hi_node hi c"
  shows "hi_linked hi' p (B h) = hi_linked hi p (B h)"
proof (rule linked_cong)
  fix c assume "c \<in> set (B h)"
  then have "c \<noteq> a" using assms(1-3) by (auto simp: buckets_def)
  then show "map_option hn_next (hi_node hi' c) = map_option hn_next (hi_node hi c)" by (simp add: assms(4))
qed

lemma hashid_insert_spec:
  assumes inv: "hash_inv hi" and nf: "\<not> hashid_full hi" and sid: "0 \<le> sid" "sid + hi_cap hi \<le> INT_MAX"
    and new: "slot_of hi sid = None"
  shows "\<exists>a hi'. hashid_insert hi sid = Some (int a, hi') \<and> a < length (hi_id hi) \<and> a \<notin> used hi \<and>
     hash_inv hi' \<and> slot_of hi' = (slot_of hi)(sid \<mapsto> a) \<and> hi_cap hi' = hi_cap hi \<and> hi_count hi' = hi_count hi + 1"
proof -
  let ?h = "bucket hi sid" and ?p = "hi_hash hi ! bucket hi sid"
  from free_slot_ok [OF inv nf sid] obtain a where
    a: "free_slot hi sid [0..<nat (hi_cap hi)] = Some (Some a)" "a < length (hi_id hi)" "id_of hi a = - 1" by blast
  from inv obtain B where cnt: "hi_count hi = int (card (used hi))" and inj: "inj_on (id_of hi) (used hi)"
    and nx: "\<And>c. c < length (hi_id hi) \<Longrightarrow> id_of hi c = - 1 \<Longrightarrow> hn_next (hi_id hi ! c) = None"
    and B: "buckets hi B" by (auto simp: hash_inv_def)
  have au: "a \<notin> used hi" and s1: "sid \<noteq> - 1" using a(3) sid(1) by (simp_all add: used_def)
  define hi' where "hi' = hi\<lparr>hi_count := hi_count hi + 1, hi_id := (hi_id hi)[a := \<lparr>hn_id = sid, hn_next = ?p\<rparr>],
                hi_hash := (hi_hash hi)[?h := Some a]\<rparr>"
  have ins: "hashid_insert hi sid = Some (int a, hi')"
    using a nx bucket_less [OF inv, of sid] by (simp add: hashid_insert_def hi_node_def bucket_def hi'_def)
  have ids: "id_of hi' c = (if c = a then sid else id_of hi c)" for c using a(2) by (simp add: hi'_def)
  have f: "length (hi_id hi') = length (hi_id hi)" "length (hi_hash hi') = length (hi_hash hi)"
    "hi_hashmod hi' = hi_hashmod hi" "hi_cap hi' = hi_cap hi" "hi_count hi' = hi_count hi + 1" by (simp_all add: hi'_def)
  note occ = occupy [OF inj f(1) a(2) au new s1 ids]
  have bk: "bucket hi' = bucket hi" by (simp add: bucket_def fun_eq_iff f)
  have lk: "hi_linked hi' p (B h) = hi_linked hi p (B h)" if "h < length (hi_hash hi)" for p h
    by (rule linked_bucket_cong [OF B that, of a]) (use au in \<open>simp_all add: hi_node_def hi'_def\<close>)
  have ss: "set (B h) = {c \<in> used hi. bucket hi (id_of hi c) = h}" "hi_linked hi (hi_hash hi ! h) (B h)"
    if "h < length (hi_hash hi)" for h using B that by (auto simp: buckets_def)
  have na: "hi_node hi' a = Some \<lparr>hn_id = sid, hn_next = ?p\<rparr>" using a(2) by (simp add: hi_node_def hi'_def)
  have hh: "hi_hash hi' ! h = (if h = ?h then Some a else hi_hash hi ! h)" if "h < length (hi_hash hi)" for h
    using that by (simp add: hi'_def)
  have "buckets hi' (B(?h := a # B ?h))"
    unfolding buckets_def occ bk ids f(2) using ss lk na hh au by auto
  moreover have "finite (used hi)" by (simp add: used_def)
  then have "hi_count hi' = int (card (used hi'))" unfolding occ f using au cnt by simp
  moreover have "hn_next (hi_id hi' ! c) = None" if "c < length (hi_id hi)" "id_of hi' c = - 1" for c
    using that nx [of c] s1 a(2) by (auto simp: hi'_def nth_list_update split: if_splits)
  ultimately have "hash_inv hi'" using inv occ(2) unfolding hash_inv_def f by auto
  with ins a(2) au occ(3) f show ?thesis by blast
qed

section \<open>Removal\<close>

lemma remove_loop_spec:
  assumes "hi_linked hi (Some c) (c # xs)"
  shows "case find (\<lambda>a. id_of hi a = sid) xs of
     None \<Rightarrow> remove_loop hi sid c = Some (- 1, hi)
   | Some t \<Rightarrow> \<exists>ids. remove_loop hi sid c = Some (int t, hi\<lparr>hi_id := ids, hi_count := hi_count hi - 1\<rparr>) \<and>
       length ids = length (hi_id hi) \<and> ids ! t = hn_free \<and> (\<forall>a. a \<noteq> t \<longrightarrow> hn_id (ids ! a) = id_of hi a) \<and>
       (\<forall>a. a \<notin> set (c # xs) \<longrightarrow> ids ! a = hi_id hi ! a) \<and>
       hi_linked (hi\<lparr>hi_id := ids\<rparr>) (Some c) (removeAll t (c # xs))"
  using assms
proof (induction xs arbitrary: c)
  case Nil
  then show ?case by (subst remove_loop.simps) auto
next
  case (Cons d ys)
  from Cons.prems obtain n m where n: "hi_node hi c = Some n" "hn_next n = Some d"
    and m: "hi_node hi d = Some m" "hi_linked hi (hn_next m) ys" by auto
  have dist: "distinct (c # d # ys)" by (rule linked_distinct [OF Cons.prems])
  have nm: "n = hi_id hi ! c" "m = hi_id hi ! d" "c < length (hi_id hi)" "d < length (hi_id hi)"
    using n(1) m(1) by (auto simp: hi_node_def split: if_splits)
  show ?case
  proof (cases "id_of hi d = sid")
    case True
    let ?ids = "(hi_id hi)[c := n\<lparr>hn_next := hn_next m\<rparr>, d := hn_free]"
    have "remove_loop hi sid c = Some (int d, hi\<lparr>hi_id := ?ids, hi_count := hi_count hi - 1\<rparr>)"
      using n m nm(2) True by (subst remove_loop.simps) (simp add: clear_node_def)
    moreover have "hi_linked (hi\<lparr>hi_id := ?ids\<rparr>) p ys = hi_linked hi p ys" for p
    proof (rule linked_cong)
      fix a assume "a \<in> set ys"
      then have "a \<noteq> c" "a \<noteq> d" using dist by auto
      then show "map_option hn_next (hi_node (hi\<lparr>hi_id := ?ids\<rparr>) a) = map_option hn_next (hi_node hi a)"
        by (simp add: hi_node_def)
    qed
    then have "hi_linked (hi\<lparr>hi_id := ?ids\<rparr>) (Some c) (removeAll d (c # d # ys))"
      using dist nm m(2) by (simp add: hi_node_def nth_list_update removeAll_id)
    ultimately show ?thesis using True dist nm by (auto simp: nth_list_update)
  next
    case False
    have ld: "hi_linked hi (Some d) (d # ys)" using m by simp
    have step: "remove_loop hi sid c = remove_loop hi sid d"
      using n m nm(2) False by (subst remove_loop.simps) simp
    show ?thesis
    proof (cases "find (\<lambda>a. id_of hi a = sid) ys")
      case None
      with Cons.IH [OF ld] step False show ?thesis by simp
    next
      case (Some t)
      with Cons.IH [OF ld] obtain ids where ih: "remove_loop hi sid d = Some (int t, hi\<lparr>hi_id := ids, hi_count := hi_count hi - 1\<rparr>)"
        "length ids = length (hi_id hi)" "ids ! t = hn_free" "\<forall>a. a \<noteq> t \<longrightarrow> hn_id (ids ! a) = id_of hi a"
        "\<forall>a. a \<notin> set (d # ys) \<longrightarrow> ids ! a = hi_id hi ! a"
        "hi_linked (hi\<lparr>hi_id := ids\<rparr>) (Some d) (removeAll t (d # ys))" by auto
      have "t \<in> set ys" using Some by (auto simp: find_Some_iff)
      then have ct: "c \<noteq> t" using dist by auto
      have "ids ! c = n" using ih(5) dist nm(1) by simp
      then have "hi_node (hi\<lparr>hi_id := ids\<rparr>) c = Some n" using nm(3) ih(2) by (simp add: hi_node_def)
      then have "hi_linked (hi\<lparr>hi_id := ids\<rparr>) (Some c) (removeAll t (c # d # ys))"
        using ih(6) n(2) ct linked.simps(2) by (metis removeAll.simps(2))
      moreover have "\<forall>a. a \<notin> set (c # d # ys) \<longrightarrow> ids ! a = hi_id hi ! a" using ih(5) by simp
      ultimately show ?thesis using Some step ih(1-4) False by (simp del: removeAll.simps) blast
    qed
  qed
qed

lemma hi_node_clear:
  "a \<noteq> c \<Longrightarrow> hi_node (hi\<lparr>hi_hash := b, hi_id := (hi_id hi)[c := n], hi_count := k\<rparr>) a = hi_node hi a"
  by (simp add: hi_node_def)

text \<open>The table after the node \<open>a\<close> was unlinked from its bucket and cleared.\<close>

lemma hash_inv_remove:
  assumes inv: "hash_inv hi" and B: "buckets hi B" and a: "a \<in> used hi" "id_of hi a = sid"
    and f: "length (hi_id hi') = length (hi_id hi)" "length (hi_hash hi') = length (hi_hash hi)"
      "hi_hashmod hi' = hi_hashmod hi" "hi_cap hi' = hi_cap hi" "hi_count hi' = hi_count hi - 1"
    and free: "hi_id hi' ! a = hn_free" and ids: "\<forall>c. c \<noteq> a \<longrightarrow> id_of hi' c = id_of hi c"
    and out: "\<forall>c. c \<notin> set (B (bucket hi sid)) \<longrightarrow> hi_id hi' ! c = hi_id hi ! c"
    and hash: "\<forall>h. h \<noteq> bucket hi sid \<longrightarrow> hi_hash hi' ! h = hi_hash hi ! h"
    and lk: "hi_linked hi' (hi_hash hi' ! bucket hi sid) (removeAll a (B (bucket hi sid)))"
  shows "hash_inv hi' \<and> slot_of hi' = (slot_of hi)(sid := None)"
proof -
  let ?h = "bucket hi sid"
  have inj: "inj_on (id_of hi) (used hi)" and cnt: "hi_count hi = int (card (used hi))"
    and nx: "\<And>c. c < length (hi_id hi) \<Longrightarrow> id_of hi c = - 1 \<Longrightarrow> hn_next (hi_id hi ! c) = None"
    using inv by (auto simp: hash_inv_def)
  have ids': "id_of hi' c = (if c = a then - 1 else id_of hi c)" for c using ids free by simp
  note vac = vacate [OF inj f(1) a(1) ids']
  have bk: "bucket hi' = bucket hi" by (simp add: bucket_def fun_eq_iff f)
  have ss: "set (B h) = {c \<in> used hi. bucket hi (id_of hi c) = h}" "hi_linked hi (hi_hash hi ! h) (B h)"
    if "h < length (hi_hash hi)" for h using B that by (auto simp: buckets_def)
  have other: "hi_linked hi' (hi_hash hi' ! h) (B h)" if "h < length (hi_hash hi)" "h \<noteq> ?h" for h
  proof -
    have "hi_linked hi' p (B h) = hi_linked hi p (B h)" for p
    proof (rule linked_cong)
      fix c assume "c \<in> set (B h)"
      then have "c \<notin> set (B ?h)" using ss(1) that bucket_less(1) [OF inv] by auto
      then show "map_option hn_next (hi_node hi' c) = map_option hn_next (hi_node hi c)"
        using out f(1) by (simp add: hi_node_def)
    qed
    then show ?thesis using ss(2) [OF that(1)] hash that(2) by simp
  qed
  have "buckets hi' (B(?h := removeAll a (B ?h)))"
    unfolding buckets_def vac bk f(2) using ss(1) other lk a ids' by auto
  moreover have "finite (used hi)" by (simp add: used_def)
  then have "card (used hi) = Suc (card (used hi - {a}))" using a(1) by (metis card.remove)
  then have "hi_count hi' = int (card (used hi'))" unfolding vac f cnt by simp
  moreover have "hn_next (hi_id hi' ! c) = None" if "c < length (hi_id hi)" "id_of hi' c = - 1" for c
  proof (cases "c = a")
    case False
    then have "id_of hi c = - 1" using that(2) ids by simp
    moreover from this have "c \<notin> set (B ?h)" using ss(1) [OF bucket_less(1) [OF inv]] by (auto simp: used_def)
    ultimately show ?thesis using nx that(1) out by simp
  qed (simp add: free)
  ultimately have "hash_inv hi'" using inv vac(2) unfolding hash_inv_def f by auto
  then show ?thesis using vac(3) a(2) by simp
qed

lemma hashid_remove_spec:
  assumes inv: "hash_inv hi"
  shows "\<exists>hi'. hashid_remove hi sid = Some (slot_int (slot_of hi sid), hi') \<and> hash_inv hi' \<and>
     slot_of hi' = (slot_of hi)(sid := None) \<and> hi_cap hi' = hi_cap hi"
proof -
  let ?h = "bucket hi sid"
  from inv obtain B where B: "buckets hi B" and inj: "inj_on (id_of hi) (used hi)" by (auto simp: hash_inv_def)
  have h: "?h < length (hi_hash hi)" "hi_bucket hi sid = Some (hi_hash hi ! ?h)" by (rule bucket_less [OF inv])+
  then have lk: "hi_linked hi (hi_hash hi ! ?h) (B ?h)" and set: "set (B ?h) \<subseteq> used hi" using B by (auto simp: buckets_def)
  note fb = find_bucket [OF inv B, of sid]
  show ?thesis
  proof (cases "B ?h")
    case Nil
    then have "slot_of hi sid = None" using fb [symmetric] by simp
    with Nil lk h show ?thesis using inv by (auto simp: hashid_remove_def slot_int_def fun_upd_idem)
  next
    case (Cons c ys)
    with lk obtain n where n: "hi_hash hi ! ?h = Some c" "hi_node hi c = Some n" "hi_linked hi (hn_next n) ys" by auto
    then have nc: "n = hi_id hi ! c" by (simp add: hi_node_def split: if_splits)
    show ?thesis
    proof (cases "id_of hi c = sid")
      case True
      let ?hi = "hi\<lparr>hi_hash := (hi_hash hi)[?h := hn_next n], hi_id := (hi_id hi)[c := hn_free], hi_count := hi_count hi - 1\<rparr>"
      have r: "hashid_remove hi sid = Some (int c, ?hi)"
        using h n nc True by (simp add: hashid_remove_def clear_node_def bucket_def)
      have "c \<notin> set ys" using linked_distinct [OF lk] Cons by simp
      then have "hi_linked ?hi p ys = hi_linked hi p ys" for p
        by (intro linked_cong) (metis hi_node_clear)
      then have "hi_linked ?hi (hi_hash ?hi ! ?h) (removeAll c (B ?h))"
        using n(3) h(1) Cons \<open>c \<notin> set ys\<close> by (simp add: removeAll_id)
      then have "hash_inv ?hi \<and> slot_of ?hi = (slot_of hi)(sid := None)"
        by (intro hash_inv_remove [OF inv B _ True]) (use set Cons in \<open>auto simp: used_def\<close>)
      moreover have "slot_int (slot_of hi sid) = int c" using fb [symmetric] Cons True by (simp add: slot_int_def)
      ultimately show ?thesis using r by auto
    next
      case False
      have lc: "hi_linked hi (Some c) (c # ys)" using n by auto
      have step: "hashid_remove hi sid = remove_loop hi sid c"
        using h n nc False by (simp add: hashid_remove_def)
      show ?thesis
      proof (cases "find (\<lambda>a. id_of hi a = sid) ys")
        case None
        then have "slot_of hi sid = None" using fb [symmetric] Cons False by simp
        with remove_loop_spec [OF lc, of sid] step None inv show ?thesis
          by (auto simp: slot_int_def fun_upd_idem)
      next
        case (Some t)
        with remove_loop_spec [OF lc, of sid] obtain ids where
          r: "remove_loop hi sid c = Some (int t, hi\<lparr>hi_id := ids, hi_count := hi_count hi - 1\<rparr>)"
            "length ids = length (hi_id hi)" "ids ! t = hn_free" "\<forall>a. a \<noteq> t \<longrightarrow> hn_id (ids ! a) = id_of hi a"
            "\<forall>a. a \<notin> set (c # ys) \<longrightarrow> ids ! a = hi_id hi ! a"
            "hi_linked (hi\<lparr>hi_id := ids\<rparr>) (Some c) (removeAll t (c # ys))" by auto
        let ?hi = "hi\<lparr>hi_id := ids, hi_count := hi_count hi - 1\<rparr>"
        have t: "t \<in> used hi" "id_of hi t = sid" using Some set Cons by (auto simp: find_Some_iff)
        have "hi_node ?hi = hi_node (hi\<lparr>hi_id := ids\<rparr>)" by (simp add: fun_eq_iff hi_node_def)
        then have "hi_linked ?hi (hi_hash ?hi ! ?h) (removeAll t (B ?h))" using r(6) n(1) Cons by simp
        then have "hash_inv ?hi \<and> slot_of ?hi = (slot_of hi)(sid := None)"
          by (intro hash_inv_remove [OF inv B t]) (use r(2-5) Cons in simp_all)
        moreover have "slot_int (slot_of hi sid) = int t"
          using fb [symmetric] Cons False Some by (simp add: slot_int_def)
        ultimately show ?thesis using r(1) step by auto
      qed
    qed
  qed
qed

section \<open>Initialisation\<close>

lemma hashcap_loop_spec:
  "mx \<le> 2 ^ 30 \<Longrightarrow> k \<le> 30 \<Longrightarrow> \<exists>j. hashcap_loop (2 ^ k) mx = Some (2 ^ j) \<and> mx \<le> 2 ^ j"
proof (induction "30 - k" arbitrary: k)
  case 0
  then show ?case by (subst hashcap_loop.simps) (auto intro!: exI [of _ 30])
next
  case (Suc n)
  have "(2::int) ^ k * 2 = 2 ^ Suc k" by simp
  moreover have "(2::int) ^ Suc k \<le> 2 ^ 30" by (rule power_increasing) (use Suc.hyps(2) in simp_all)
  then have "in_int (2 ^ Suc k)" by (simp add: in_int_def INT_MAX_def INT_MIN_def order_trans [of _ 0])
  ultimately show ?case using Suc.hyps(1) [of "Suc k"] Suc.hyps(2) Suc.prems
    by (subst hashcap_loop.simps) (auto simp: mult.commute)
qed

lemma hashid_init_spec:
  assumes "0 < mx" "mx \<le> 2 ^ 30"
  shows "\<exists>hi. hashid_init mx = Some hi \<and> hash_inv hi \<and> slot_of hi = (\<lambda>_. None) \<and> hi_cap hi = mx \<and> hi_count hi = 0"
proof -
  from hashcap_loop_spec [OF assms(2), of 4] obtain j where j: "hashcap_loop 16 mx = Some (2 ^ j)" by auto
  define hi where "hi = \<lparr>hi_hashmod = 2 ^ j - 1, hi_cap = mx, hi_count = 0,
     hi_id = replicate (nat mx) hn_free, hi_hash = replicate (nat (2 ^ j)) None\<rparr>"
  have u: "used hi = {}" by (auto simp: used_def hi_def)
  have "nat (2 ^ j) = (2::nat) ^ j" by (simp add: nat_power_eq)
  then have "hash_inv hi"
    using assms(1) u unfolding hash_inv_def buckets_def by (auto simp: hi_def intro!: exI [of _ "\<lambda>_. []"])
  moreover have "slot_of hi s = None" for s
    using slot_of_None [of hi s] u by simp
  ultimately show ?thesis using j by (auto simp: hashid_init_def hi_def)
qed

section \<open>Properties\<close>

text \<open>
  C30. The table of connections is a finite map from socket ids to slots: inserting a new id into a table
  that is not full gives a slot that was free, and afterwards a lookup of any id gives that slot for the
  new id and the old answer (its slot, or -1) for every other, whatever the collisions in the buckets.
\<close>

theorem hashid_insert_lookup:
  assumes "hash_inv hi" "\<not> hashid_full hi" "0 \<le> sid" "sid + hi_cap hi \<le> INT_MAX"
    "hashid_lookup hi sid = Some (- 1)"
  shows "\<exists>a hi'. hashid_insert hi sid = Some (a, hi') \<and> hash_inv hi' \<and> 0 \<le> a \<and> a < hi_cap hi \<and>
     (\<forall>t. hashid_lookup hi t \<noteq> Some a) \<and>
     (\<forall>t. hashid_lookup hi' t = (if t = sid then Some a else hashid_lookup hi t))"
proof -
  have new: "slot_of hi sid = None"
    using assms(5) unfolding hashid_lookup_spec [OF assms(1)] by (simp add: slot_int_def split: option.splits)
  from hashid_insert_spec [OF assms(1-4) new] obtain a hi' where
    h: "hashid_insert hi sid = Some (int a, hi')" "a < length (hi_id hi)" "a \<notin> used hi" "hash_inv hi'"
      "slot_of hi' = (slot_of hi)(sid \<mapsto> a)" by blast
  have "inj_on (id_of hi) (used hi)" "hi_cap hi = int (length (hi_id hi))" using assms(1) by (auto simp: hash_inv_def)
  then have "slot_of hi t \<noteq> Some a" for t using slot_of_Some h(3) by blast
  then have "hashid_lookup hi t \<noteq> Some (int a)" for t
    unfolding hashid_lookup_spec [OF assms(1)] by (auto simp: slot_int_def split: option.splits)
  then show ?thesis using h hashid_lookup_spec [OF assms(1)] hashid_lookup_spec [OF h(4)]
    \<open>hi_cap hi = int (length (hi_id hi))\<close> by (intro exI [of _ "int a"] exI [of _ hi']) (auto simp: slot_int_def)
qed

text \<open>
  Removing an id returns its slot, or -1 when it is not in the table, and afterwards only that id
  is gone; the freed node can be used again.
\<close>

theorem hashid_remove_lookup:
  assumes "hash_inv hi"
  shows "\<exists>r hi'. hashid_remove hi sid = Some (r, hi') \<and> hash_inv hi' \<and> hashid_lookup hi sid = Some r \<and>
     (\<forall>t. hashid_lookup hi' t = (if t = sid then Some (- 1) else hashid_lookup hi t))"
proof -
  from hashid_remove_spec [OF assms, of sid] obtain hi' where
    h: "hashid_remove hi sid = Some (slot_int (slot_of hi sid), hi')" "hash_inv hi'"
      "slot_of hi' = (slot_of hi)(sid := None)" by blast
  then show ?thesis using hashid_lookup_spec [OF assms] hashid_lookup_spec [OF h(2)]
    by (auto simp: slot_int_def)
qed

definition sample_hash :: hashid where
  "sample_hash = \<lparr>hi_hashmod = 15, hi_cap = 4, hi_count = 0, hi_id = replicate 4 hn_free, hi_hash = replicate 16 None\<rparr>"

lemma sample_hash_inv: "hash_inv sample_hash"
proof -
  have "hashcap_loop 16 4 = Some 16" by (subst hashcap_loop.simps) simp
  then have "hashid_init 4 = Some sample_hash" by (simp add: hashid_init_def sample_hash_def)
  with hashid_init_spec [of 4] show ?thesis by simp
qed

lemma sample_hash_empty: "hashid_lookup sample_hash 5 = Some (- 1)"
  unfolding hashid_lookup_spec [OF sample_hash_inv]
  by (simp add: slot_of_def slot_int_def sample_hash_def numeral_eq_Suc)

theorem hashid_insert_lookup_witness:
  "\<exists>a hi'. hashid_insert sample_hash 5 = Some (a, hi') \<and> hashid_lookup hi' 5 = Some a"
proof -
  have "\<not> hashid_full sample_hash" "5 + hi_cap sample_hash \<le> INT_MAX"
    by (simp_all add: hashid_full_def sample_hash_def INT_MAX_def)
  from hashid_insert_lookup [OF sample_hash_inv this(1) _ this(2) sample_hash_empty] show ?thesis by auto
qed

theorem hashid_remove_lookup_witness:
  "\<exists>hi'. hashid_remove sample_hash 5 = Some (- 1, hi')"
  using hashid_remove_lookup [OF sample_hash_inv, of 5] sample_hash_empty by auto

end
