(* ===== verification/Gate_Service.thy ===== *)
theory Gate_Service
  imports Gate_Hashid Skynet_Node
begin

text \<open>
  The gate service, \<^verbatim>\<open>service-src/service_gate.c\<close>: it accepts client connections, cuts their byte
  streams into packets and forwards each packet to the broker, to the agent of the connection or to
  the watchdog.

  A handler returns the new state and the list of the calls it makes, in order: messages sent
  with \<open>skynet_send\<close>, lines of \<open>skynet_error\<close> and the operations on sockets. The answer of
  \<open>skynet_queryname\<close> and of \<open>skynet_socket_listen\<close> are arguments. A text message is the list of its
  characters.
\<close>

unbundle bit_operations_syntax

section \<open>State\<close>

definition BACKLOG :: int where
  "BACKLOG = 128"

record connection =
  cn_id :: int
  cn_agent :: u32
  cn_client :: u32
  cn_remote_name :: string
  cn_buffer :: databuffer

record gate =
  g_listen_id :: int
  g_watchdog :: u32
  g_broker :: u32
  g_client_tag :: int
  g_header_size :: int
  g_max_connection :: int
  g_hash :: hashid
  g_conn :: "connection list"
  g_mp :: messagepool

datatype gate_call =
    SocketClose int
  | SocketStart int
  | SocketSend int "u8 list"
  | SocketListen string int int
  | Send u32 u32 int int "u8 list"
  | SkynetError string
  | FreeBuffer
  | SetCallback

definition connection_zero :: connection where
  "connection_zero = \<lparr>cn_id = 0, cn_agent = 0, cn_client = 0, cn_remote_name = [], cn_buffer = databuffer_zero\<rparr>"

definition gate_create :: gate where
  "gate_create = \<lparr>g_listen_id = - 1, g_watchdog = 0, g_broker = 0, g_client_tag = 0, g_header_size = 0,
     g_max_connection = 0, g_hash = \<lparr>hi_hashmod = 0, hi_cap = 0, hi_count = 0, hi_id = [], hi_hash = []\<rparr>,
     g_conn = [], g_mp = messagepool_zero\<rparr>"

text \<open>The gate itself is freed; what is left are the calls.\<close>

definition gate_release :: "gate \<Rightarrow> gate_call list" where
  "gate_release g =
     map SocketClose (filter (\<lambda>i. i \<ge> 0) (map cn_id (take (nat (g_max_connection g)) (g_conn g)))) @
     (if g_listen_id g \<ge> 0 then [SocketClose (g_listen_id g)] else [])"

section \<open>Text commands\<close>

definition NUL :: char where
  "NUL = CHR 0x00"

definition c_str :: "string \<Rightarrow> string" where
  "c_str b = takeWhile (\<lambda>c. c \<noteq> NUL) b"

text \<open>
  \<open>memcmp(command, lit, i) == 0\<close> for a literal, which is followed by its terminator; a comparison that
  would run past the terminator without finding a difference is undefined.
\<close>

definition cmd_is :: "string \<Rightarrow> string \<Rightarrow> nat \<Rightarrow> bool option" where
  "cmd_is command lit i =
     (let l = lit @ [NUL] in
      if i \<le> length l then Some (take i command = take i l)
      else if take (length l) command = l then None else Some False)"

text \<open>\<open>_parm\<close> moves the arguments to the front of the buffer; what was behind them stays.\<close>

definition parm :: "string \<Rightarrow> nat \<Rightarrow> nat \<Rightarrow> string" where
  "parm buf sz command_sz =
     (let args = dropWhile (\<lambda>c. c = CHR '' '') (drop command_sz (take sz buf))
      in args @ [NUL] @ drop (Suc (length args)) buf)"

definition forward_agent :: "gate \<Rightarrow> int \<Rightarrow> u32 \<Rightarrow> u32 \<Rightarrow> gate option" where
  "forward_agent g fd agentaddr clientaddr = do {
     i \<leftarrow> hashid_lookup (g_hash g) fd;
     (if i \<ge> 0 then do {
        c_assert (nat i < length (g_conn g));
        Some (g\<lparr>g_conn := (g_conn g)[nat i := (g_conn g ! nat i)\<lparr>cn_agent := agentaddr, cn_client := clientaddr\<rparr>]\<rparr>)
      }
      else Some g)
   }"

text \<open>
  The arguments of \<open>forward\<close>: the two blanks that \<open>strsep\<close> overwrites with terminators, and the two
  addresses, read from one character behind the start of their words.
\<close>

definition forward_args :: "string \<Rightarrow> (int \<times> u32 \<times> u32) option" where
  "forward_args buf = do {
     let s = c_str buf;
     let p1 = length (takeWhile (\<lambda>c. c \<noteq> CHR '' '') s);
     (if p1 = length s then None
      else do {
        let p2 = Suc p1 + length (takeWhile (\<lambda>c. c \<noteq> CHR '' '') (drop (Suc p1) s));
        (if p2 = length s then None
         else do {
           let b = buf[p1 := NUL, p2 := NUL];
           Some (to_int32 (strtol10 (c_str b)), ucast (strtoul16 (c_str (drop (p1 + 2) b))),
                 ucast (strtoul16 (c_str (drop (p2 + 2) b))))
         })
      })
   }"

definition gate_ctrl :: "(string \<Rightarrow> u32) \<Rightarrow> gate \<Rightarrow> string \<Rightarrow> (gate \<times> gate_call list) option" where
  "gate_ctrl query g msg =
     (let sz = length msg; tmp = msg @ [NUL]; i = length (takeWhile (\<lambda>c. c \<noteq> CHR '' '') msg) in
      if sz = 0 then Some (g, [])
      else do {
        kick \<leftarrow> cmd_is tmp ''kick'' i;
        (if kick then do {
           let uid = to_int32 (strtol10 (c_str (parm tmp sz i)));
           r \<leftarrow> hashid_lookup (g_hash g) uid;
           Some (g, if r \<ge> 0 then [SocketClose uid] else [])
         }
         else do {
        forward \<leftarrow> cmd_is tmp ''forward'' i;
        (if forward then
           (case forward_args (parm tmp sz i) of
              None \<Rightarrow> Some (g, [])
            | Some (fd, agent, client) \<Rightarrow> do { g' \<leftarrow> forward_agent g fd agent client; Some (g', []) })
         else do {
        broker \<leftarrow> cmd_is tmp ''broker'' i;
        (if broker then Some (g\<lparr>g_broker := query (c_str (parm tmp sz i))\<rparr>, [])
         else do {
        start \<leftarrow> cmd_is tmp ''start'' i;
        (if start then do {
           let uid = to_int32 (strtol10 (c_str (parm tmp sz i)));
           r \<leftarrow> hashid_lookup (g_hash g) uid;
           Some (g, if r \<ge> 0 then [SocketStart uid] else [])
         }
         else do {
        close \<leftarrow> cmd_is tmp ''close'' i;
        (if close then
           Some (if g_listen_id g \<ge> 0 then (g\<lparr>g_listen_id := - 1\<rparr>, [SocketClose (g_listen_id g)]) else (g, []))
         else Some (g, [SkynetError (''[gate] Unkown command : '' @ c_str tmp)])) }) }) }) }) })"

definition report :: "gate \<Rightarrow> string \<Rightarrow> gate_call list" where
  "report g text =
     (if g_watchdog g = 0 then []
      else [Send 0 (g_watchdog g) PTYPE_TEXT 0 (map of_char text)])"

section \<open>Packets\<close>

text \<open>\<open>_forward\<close>: it reads the packet out of the buffer only when it has somebody to send it to.\<close>

definition gate_forward ::
  "gate \<Rightarrow> connection \<Rightarrow> messagepool \<Rightarrow> int \<Rightarrow> (connection \<times> messagepool \<times> gate_call list) option" where
  "gate_forward g c mp len =
     (let fd = cn_id c in
      if fd \<le> 0 then Some (c, mp, [])
      else if g_broker g \<noteq> 0 then do {
        (temp, db, mp) \<leftarrow> databuffer_read (cn_buffer c) mp len;
        Some (c\<lparr>cn_buffer := db\<rparr>, mp, [Send 0 (g_broker g) (g_client_tag g OR PTYPE_TAG_DONTCOPY) fd temp])
      }
      else if cn_agent c \<noteq> 0 then do {
        (temp, db, mp) \<leftarrow> databuffer_read (cn_buffer c) mp len;
        Some (c\<lparr>cn_buffer := db\<rparr>, mp,
              [Send (cn_client c) (cn_agent c) (g_client_tag g OR PTYPE_TAG_DONTCOPY) fd temp])
      }
      else if g_watchdog g \<noteq> 0 then do {
        (temp, db, mp) \<leftarrow> databuffer_read (cn_buffer c) mp len;
        Some (c\<lparr>cn_buffer := db\<rparr>, mp,
              [Send 0 (g_watchdog g) (PTYPE_TEXT OR PTYPE_TAG_DONTCOPY) fd
                 (map of_char (fmt_d fd @ '' data '') @ temp)])
      }
      else Some (c, mp, []))"

partial_function (option) packet_loop ::
  "gate \<Rightarrow> int \<Rightarrow> connection \<Rightarrow> messagepool \<Rightarrow> (connection \<times> messagepool \<times> gate_call list) option" where
  "packet_loop g sid c mp = do {
     r \<leftarrow> databuffer_readheader (cn_buffer c) mp (g_header_size g);
     (let len = fst r; c = c\<lparr>cn_buffer := fst (snd r)\<rparr>; mp = snd (snd r) in
      if len < 0 then Some (c, mp, [])
      else if len > 0 then
        (if len \<ge> 16777216 then do {
           e \<leftarrow> databuffer_clear (cn_buffer c) mp;
           Some (c\<lparr>cn_buffer := fst e\<rparr>, snd e, [SocketClose sid, SkynetError ''Recv socket message > 16M''])
         }
         else do {
           f \<leftarrow> gate_forward g c mp len;
           s \<leftarrow> packet_loop g sid ((fst f)\<lparr>cn_buffer := databuffer_reset (cn_buffer (fst f))\<rparr>) (fst (snd f));
           Some (fst s, fst (snd s), snd (snd f) @ snd (snd s))
         })
      else packet_loop g sid c mp)
   }"

definition gate_dispatch_message ::
  "gate \<Rightarrow> connection \<Rightarrow> messagepool \<Rightarrow> int \<Rightarrow> u8 list \<Rightarrow> int
    \<Rightarrow> (connection \<times> messagepool \<times> gate_call list) option" where
  "gate_dispatch_message g c mp sid data sz = do {
     (db, mp) \<leftarrow> databuffer_push (cn_buffer c) mp data sz;
     packet_loop g sid (c\<lparr>cn_buffer := db\<rparr>) mp
   }"

section \<open>Socket events\<close>

text \<open>A socket event with the bytes of its buffer and the text behind it.\<close>

record socket_event =
  se_type :: int
  se_id :: int
  se_ud :: int
  se_buffer :: "u8 list"
  se_tail :: string

definition SKYNET_SOCKET_TYPE_DATA :: int where "SKYNET_SOCKET_TYPE_DATA = 1"
definition SKYNET_SOCKET_TYPE_CONNECT :: int where "SKYNET_SOCKET_TYPE_CONNECT = 2"
definition SKYNET_SOCKET_TYPE_CLOSE :: int where "SKYNET_SOCKET_TYPE_CLOSE = 3"
definition SKYNET_SOCKET_TYPE_ACCEPT :: int where "SKYNET_SOCKET_TYPE_ACCEPT = 4"
definition SKYNET_SOCKET_TYPE_ERROR :: int where "SKYNET_SOCKET_TYPE_ERROR = 5"
definition SKYNET_SOCKET_TYPE_WARNING :: int where "SKYNET_SOCKET_TYPE_WARNING = 7"

lemmas socket_type_defs = SKYNET_SOCKET_TYPE_DATA_def SKYNET_SOCKET_TYPE_CONNECT_def
  SKYNET_SOCKET_TYPE_CLOSE_def SKYNET_SOCKET_TYPE_ACCEPT_def SKYNET_SOCKET_TYPE_ERROR_def
  SKYNET_SOCKET_TYPE_WARNING_def

definition on_data :: "gate \<Rightarrow> socket_event \<Rightarrow> (gate \<times> gate_call list) option" where
  "on_data g e = do {
     i \<leftarrow> hashid_lookup (g_hash g) (se_id e);
     (if i \<ge> 0 then do {
        c_assert (nat i < length (g_conn g));
        (c, mp, calls) \<leftarrow> gate_dispatch_message g (g_conn g ! nat i) (g_mp g) (se_id e) (se_buffer e) (se_ud e);
        Some (g\<lparr>g_conn := (g_conn g)[nat i := c], g_mp := mp\<rparr>, calls)
      }
      else Some (g, [SkynetError (''Drop unknown connection '' @ fmt_d (se_id e) @ '' message''),
                     SocketClose (se_id e), FreeBuffer]))
   }"

definition on_connect :: "gate \<Rightarrow> socket_event \<Rightarrow> (gate \<times> gate_call list) option" where
  "on_connect g e =
     (if se_id e = g_listen_id g then Some (g, [])
      else do {
        i \<leftarrow> hashid_lookup (g_hash g) (se_id e);
        Some (g, if i < 0 then [SkynetError (''Close unknown connection '' @ fmt_d (se_id e)), SocketClose (se_id e)]
                 else [])
      })"

definition on_close :: "gate \<Rightarrow> socket_event \<Rightarrow> (gate \<times> gate_call list) option" where
  "on_close g e = do {
     (i, h) \<leftarrow> hashid_remove (g_hash g) (se_id e);
     let g = g\<lparr>g_hash := h\<rparr>;
     (if i \<ge> 0 then do {
        c_assert (nat i < length (g_conn g));
        (_, mp) \<leftarrow> databuffer_clear (cn_buffer (g_conn g ! nat i)) (g_mp g);
        Some (g\<lparr>g_conn := (g_conn g)[nat i := connection_zero\<lparr>cn_id := - 1\<rparr>], g_mp := mp\<rparr>,
              report g (fmt_d (se_id e) @ '' close''))
      }
      else Some (g, []))
   }"

definition on_accept :: "gate \<Rightarrow> socket_event \<Rightarrow> (gate \<times> gate_call list) option" where
  "on_accept g e = do {
     c_assert (g_listen_id g = se_id e);
     (if hashid_full (g_hash g) then Some (g, [SocketClose (se_ud e)])
      else do {
        (i, h) \<leftarrow> hashid_insert (g_hash g) (se_ud e);
        c_assert (nat i < length (g_conn g));
        let name = c_str (take 31 (se_tail e));
        let c = (g_conn g ! nat i)\<lparr>cn_id := se_ud e, cn_remote_name := name\<rparr>;
        Some (g\<lparr>g_hash := h, g_conn := (g_conn g)[nat i := c]\<rparr>,
              report g (fmt_d (cn_id c) @ '' open '' @ fmt_d (cn_id c) @ '' '' @ name @ '':0'') @
              [SkynetError (''socket open: '' @ fmt_x (word_of_int (cn_id c)))])
      })
   }"

definition dispatch_socket_message :: "gate \<Rightarrow> socket_event \<Rightarrow> (gate \<times> gate_call list) option" where
  "dispatch_socket_message g e =
     (if se_type e = SKYNET_SOCKET_TYPE_DATA then on_data g e
      else if se_type e = SKYNET_SOCKET_TYPE_CONNECT then on_connect g e
      else if se_type e = SKYNET_SOCKET_TYPE_CLOSE \<or> se_type e = SKYNET_SOCKET_TYPE_ERROR then on_close g e
      else if se_type e = SKYNET_SOCKET_TYPE_ACCEPT then on_accept g e
      else if se_type e = SKYNET_SOCKET_TYPE_WARNING then
        Some (g, [SkynetError (''fd ('' @ fmt_d (se_id e) @ '') send buffer ('' @ fmt_d (se_ud e) @ '')K'')])
      else Some (g, []))"

section \<open>Messages\<close>

definition client_id :: "u8 list \<Rightarrow> u32" where
  "client_id idbuf = ucast (idbuf ! 0) OR push_bit 8 (ucast (idbuf ! 1)) OR push_bit 16 (ucast (idbuf ! 2)) OR
     push_bit 24 (ucast (idbuf ! 3))"

definition on_client :: "gate \<Rightarrow> u32 \<Rightarrow> u8 list \<Rightarrow> (int \<times> gate_call list) option" where
  "on_client g source msg =
     (if length msg \<le> 4 then Some (0, [SkynetError (''Invalid client message from '' @ fmt_x source)])
      else do {
        let uid = sint (client_id (drop (length msg - 4) msg));
        i \<leftarrow> hashid_lookup (g_hash g) uid;
        Some (if i \<ge> 0 then (1, [SocketSend uid (take (length msg - 4) msg)])
              else (0, [SkynetError (''Invalid client id '' @ fmt_d uid @ '' from '' @ fmt_x source)]))
      })"

datatype gate_payload = Text string | Client "u8 list" | Socket socket_event | Other

text \<open>The callback: the payload is what the type of the message announces.\<close>

definition gate_cb :: "(string \<Rightarrow> u32) \<Rightarrow> gate \<Rightarrow> u32 \<Rightarrow> gate_payload \<Rightarrow> (int \<times> gate \<times> gate_call list) option" where
  "gate_cb query g source msg =
     (case msg of
        Text s \<Rightarrow> do { (g, calls) \<leftarrow> gate_ctrl query g s; Some (0, g, calls) }
      | Client bs \<Rightarrow> do { (r, calls) \<leftarrow> on_client g source bs; Some (r, g, calls) }
      | Socket e \<Rightarrow> do { (g, calls) \<leftarrow> dispatch_socket_message g e; Some (0, g, calls) }
      | Other \<Rightarrow> Some (0, g, []))"

section \<open>Start\<close>

definition start_listen :: "(string \<Rightarrow> int \<Rightarrow> int) \<Rightarrow> gate \<Rightarrow> string \<Rightarrow> int \<times> gate \<times> gate_call list" where
  "start_listen listen g addr =
     (let rport = takeWhile (\<lambda>c. c \<noteq> CHR '':'') (rev addr);
          colon = CHR '':'' \<in> set addr;
          port = to_int32 (strtol10 (if colon then rev rport else addr));
          host = (if colon then take (length addr - length rport - 1) addr else [])
      in if port \<le> 0 then (1, g, [SkynetError (''Invalid gate address '' @ addr)])
         else let l = listen host port; g = g\<lparr>g_listen_id := l\<rparr> in
           if l < 0 then (1, g, [SocketListen host port BACKLOG])
           else (0, g, [SocketListen host port BACKLOG, SocketStart l]))"

text \<open>\<open>%d\<close> of \<open>sscanf\<close>: a value when there is at least one digit.\<close>

definition scan_int :: "string \<Rightarrow> (int \<times> string) option" where
  "scan_int s =
     (let (neg, cs) = read_sign s; ds = takeWhile (\<lambda>c. case digit_val c of None \<Rightarrow> False | Some d \<Rightarrow> d < 10) cs in
      if ds = [] then None
      else Some (to_int32 (strtol_val neg (read_digits 10 0 ds)), drop (length ds) cs))"

text \<open>\<open>sscanf(parm, "%c %s %s %d %d", ..)\<close> with the fourth conversion required.\<close>

definition gate_parm :: "string \<Rightarrow> (char \<times> string \<times> string \<times> int \<times> int) option" where
  "gate_parm p =
     (case p of
        [] \<Rightarrow> None
      | header # r \<Rightarrow> do {
          (watchdog, r) \<leftarrow> scan_word r;
          (binding, r) \<leftarrow> scan_word r;
          (client_tag, r) \<leftarrow> scan_int r;
          Some (header, watchdog, binding, client_tag, case scan_int r of None \<Rightarrow> 0 | Some (m, _) \<Rightarrow> m)
        })"

definition gate_init ::
  "(string \<Rightarrow> u32) \<Rightarrow> (string \<Rightarrow> int \<Rightarrow> int) \<Rightarrow> gate \<Rightarrow> string option \<Rightarrow> (int \<times> gate \<times> gate_call list) option" where
  "gate_init query listen g p =
     (case p of
        None \<Rightarrow> Some (1, g, [])
      | Some p \<Rightarrow>
          (case gate_parm p of
             None \<Rightarrow> Some (1, g, [SkynetError (''Invalid gate parm '' @ p)])
           | Some (header, watchdog, binding, client_tag, mx) \<Rightarrow>
               if mx \<le> 0 then Some (1, g, [SkynetError ''Need max connection''])
               else if header \<noteq> CHR ''S'' \<and> header \<noteq> CHR ''L'' then
                 Some (1, g, [SkynetError ''Invalid data header style''])
               else
                 (let g = g\<lparr>g_watchdog := (if take 1 watchdog = ''!'' then 0 else query watchdog)\<rparr> in
                  if take 1 watchdog \<noteq> ''!'' \<and> g_watchdog g = 0 then
                    Some (1, g, [SkynetError (''Invalid watchdog '' @ watchdog)])
                  else do {
                    h \<leftarrow> hashid_init mx;
                    let g = g\<lparr>g_hash := h, g_conn := replicate (nat mx) (connection_zero\<lparr>cn_id := - 1\<rparr>),
                       g_max_connection := mx, g_client_tag := (if client_tag = 0 then PTYPE_CLIENT else client_tag),
                       g_header_size := (if header = CHR ''S'' then 2 else 4)\<rparr>;
                    let (r, g, calls) = start_listen listen g binding;
                    Some (r, g, SetCallback # calls)
                  })))"

end
