(* ===== verification/Gate_Framing.thy ===== *)
theory Gate_Framing
  imports Gate_Service
begin

text \<open>
  What the gate service does with a byte stream. A reference parser cuts a stream into packets; the
  loop of \<open>dispatch_message\<close> over the linked receive buffer follows it, so the packets that are
  forwarded do not depend on how the stream was cut into blocks by the network.
\<close>

unbundle bit_operations_syntax

section \<open>The reference parser\<close>

text \<open>
  \<open>parse hs h bs\<close>: the packets of the bytes \<open>bs\<close> with headers of \<open>hs\<close> bytes, after the pending header
  \<open>h\<close> (0 when there is none); then the new pending header and the bytes that are left.
\<close>

function parse :: "int \<Rightarrow> int \<Rightarrow> u8 list \<Rightarrow> u8 list list \<times> int \<times> u8 list" where
  "parse hs h bs =
     (if h = 0 then
        (if hs \<le> 0 \<or> int (length bs) < hs then ([], 0, bs)
         else parse hs (header_value (take (nat hs) bs)) (drop (nat hs) bs))
      else if h < 0 \<or> int (length bs) < h then ([], h, bs)
      else (case parse hs 0 (drop (nat h) bs) of (ps, h', r) \<Rightarrow> (take (nat h) bs # ps, h', r)))"
  by pat_completeness auto
termination by (relation "measure (\<lambda>(hs, h, bs). length bs)") auto

declare parse.simps [simp del]

lemma parse_steps:
  "int (length bs) < hs \<Longrightarrow> parse hs 0 bs = ([], 0, bs)"
  "0 < hs \<Longrightarrow> hs \<le> int (length bs) \<Longrightarrow>
    parse hs 0 bs = parse hs (header_value (take (nat hs) bs)) (drop (nat hs) bs)"
  "h < 0 \<or> 0 < h \<and> int (length bs) < h \<Longrightarrow> parse hs h bs = ([], h, bs)"
  "0 < h \<Longrightarrow> h \<le> int (length bs) \<Longrightarrow>
    parse hs h bs = (case parse hs 0 (drop (nat h) bs) of (ps, h', r) \<Rightarrow> (take (nat h) bs # ps, h', r))"
  by (subst parse.simps, auto)+

text \<open>Induction along the parser, for a header of positive size.\<close>

lemma parse_cases:
  assumes "0 < hs"
  obtains (short) "h = 0" "int (length bs) < hs" | (header) "h = 0" "hs \<le> int (length bs)"
    | (wait) "h < 0 \<or> 0 < h \<and> int (length bs) < h" | (packet) "0 < h" "h \<le> int (length bs)"
  using assms by linarith

lemma parse_induct [consumes 1, case_names short header wait packet]:
  assumes "0 < hs"
    and "\<And>bs. int (length bs) < hs \<Longrightarrow> P 0 bs"
    and "\<And>bs. hs \<le> int (length bs) \<Longrightarrow> P (header_value (take (nat hs) bs)) (drop (nat hs) bs) \<Longrightarrow> P 0 bs"
    and "\<And>h bs. h < 0 \<or> 0 < h \<and> int (length bs) < h \<Longrightarrow> P h bs"
    and "\<And>h bs. 0 < h \<Longrightarrow> h \<le> int (length bs) \<Longrightarrow> P 0 (drop (nat h) bs) \<Longrightarrow> P h bs"
  shows "P h bs"
proof (induction "length bs" arbitrary: h bs rule: less_induct)
  case less
  from assms(1) show ?case
  proof (cases rule: parse_cases [of _ h bs])
    case short
    then show ?thesis using assms(2) by simp
  next
    case header
    moreover from this assms(1) have "length (drop (nat hs) bs) < length bs" by simp
    ultimately show ?thesis using assms(3) less by blast
  next
    case wait
    then show ?thesis by (rule assms(4))
  next
    case packet
    moreover from this have "length (drop (nat h) bs) < length bs" by simp
    ultimately show ?thesis using assms(5) less by blast
  qed
qed

lemma parse_append:
  assumes "0 < hs" "parse hs h bs = (ps, h', r)"
  shows "parse hs h (bs @ xs) = (case parse hs h' (r @ xs) of (qs, h'', r') \<Rightarrow> (ps @ qs, h'', r'))"
  using assms
proof (induction h bs arbitrary: ps h' r rule: parse_induct)
  case (short bs)
  then show ?case by (simp add: parse_steps(1))
next
  case (header bs)
  then have "parse hs (header_value (take (nat hs) bs)) (drop (nat hs) bs) = (ps, h', r)"
    using assms(1) by (simp add: parse_steps(2))
  from header.IH [OF this] show ?case using header.hyps assms(1) by (simp add: parse_steps(2))
next
  case (wait h bs)
  then show ?case by (simp add: parse_steps(3))
next
  case (packet h bs)
  then obtain qs where q: "parse hs 0 (drop (nat h) bs) = (qs, h', r)" "ps = take (nat h) bs # qs"
    by (auto simp: parse_steps(4) split: prod.splits)
  from packet.IH [OF q(1)] packet.hyps q(2) show ?case by (simp add: parse_steps(4) split: prod.splits)
qed

lemma parse_length:
  assumes "0 < hs" "parse hs h bs = (ps, h', r)"
  shows "length r \<le> length bs"
  using assms
proof (induction h bs arbitrary: ps h' r rule: parse_induct)
  case (header bs)
  then show ?case using assms(1) by (fastforce simp: parse_steps(2))
next
  case (packet h bs)
  then show ?case by (fastforce simp: parse_steps(4) split: prod.splits)
qed (simp_all add: parse_steps)

text \<open>Encoding of a packet, and that a stream of encoded packets is parsed back.\<close>

definition frame_header :: "int \<Rightarrow> nat \<Rightarrow> u8 list" where
  "frame_header hs n =
     (if hs = 2 then [of_nat (n div 256), of_nat n]
      else [of_nat (n div 16777216), of_nat (n div 65536), of_nat (n div 256), of_nat n])"

definition frame :: "int \<Rightarrow> u8 list \<Rightarrow> u8 list" where
  "frame hs p = frame_header hs (length p) @ p"

definition packet_ok :: "int \<Rightarrow> u8 list \<Rightarrow> bool" where
  "packet_ok hs p \<longleftrightarrow> p \<noteq> [] \<and> length p < (if hs = 2 then 65536 else 16777216)"

lemma uint_byte: "uint (of_nat n :: u8) = int (n mod 256)"
  by (simp add: unsigned_of_nat take_bit_eq_mod flip: of_nat_mod)

lemma header_value_frame:
  assumes "hs = 2 \<or> hs = 4" "n < (if hs = 2 then 65536 else 16777216)"
  shows "header_value (frame_header hs n) = int n"
proof (cases "hs = 2")
  case True
  have "n div 256 < 256" using assms(2) True by (simp add: less_mult_imp_div_less)
  then have "256 * (n div 256 mod 256) + n mod 256 = n" by (simp only: mod_less mult_div_mod_eq)
  from arg_cong [OF this, of int] have "256 * int (n div 256 mod 256) + int (n mod 256) = int n"
    by (simp only: of_nat_add of_nat_mult of_nat_numeral)
  moreover have "header_value (frame_header hs n) = 256 * uint (of_nat (n div 256) :: u8) + uint (of_nat n :: u8)"
    using True by (simp add: header_value_def frame_header_def)
  ultimately show ?thesis by (simp only: uint_byte)
next
  case False
  then have n: "n < 16777216" using assms(2) by simp
  have "65536 * (n div 65536 mod 256) + 256 * (n div 256 mod 256) + n mod 256 = n"
  proof -
    have "n div 65536 < 256" using n by (simp add: less_mult_imp_div_less)
    then have "n div 65536 mod 256 = n div 65536" by (rule mod_less)
    moreover have "n div 65536 = n div 256 div 256" by (simp only: div_mult2_eq [symmetric]) simp
    moreover have "256 * (n div 256 div 256) + n div 256 mod 256 = n div 256" by (rule mult_div_mod_eq)
    moreover have "256 * (n div 256) + n mod 256 = n" by (rule mult_div_mod_eq)
    ultimately show ?thesis by linarith
  qed
  from arg_cong [OF this, of int]
  have "65536 * int (n div 65536 mod 256) + 256 * int (n div 256 mod 256) + int (n mod 256) = int n"
    by (simp only: of_nat_add of_nat_mult of_nat_numeral)
  moreover have "n div 16777216 = 0" using n by simp
  moreover have "to_int32 (int n) = int n" using n by (intro to_int32_id) (simp_all add: INT_MIN_def INT_MAX_def)
  moreover have "header_value (frame_header hs n) = to_int32 (16777216 * uint (of_nat (n div 16777216) :: u8) +
      65536 * uint (of_nat (n div 65536) :: u8) + 256 * uint (of_nat (n div 256) :: u8) + uint (of_nat n :: u8))"
    using False by (simp add: header_value_def frame_header_def)
  ultimately show ?thesis by (simp only: uint_byte) simp
qed

lemma parse_frame:
  assumes "hs = 2 \<or> hs = 4" "packet_ok hs p"
  shows "parse hs 0 (frame hs p @ bs) = (case parse hs 0 bs of (ps, h', r) \<Rightarrow> (p # ps, h', r))"
proof -
  let ?h = "frame_header hs (length p)"
  have l: "length ?h = nat hs" "0 < hs" using assms(1) by (auto simp: frame_header_def)
  have v: "header_value ?h = int (length p)" by (rule header_value_frame) (use assms in \<open>auto simp: packet_ok_def\<close>)
  have "parse hs 0 (frame hs p @ bs) = parse hs (int (length p)) (p @ bs)"
    using l v by (simp add: parse_steps(2) frame_def)
  then show ?thesis using assms(2) by (simp add: parse_steps(4) packet_ok_def)
qed

lemma parse_frames:
  assumes "hs = 2 \<or> hs = 4" "\<forall>p \<in> set ps. packet_ok hs p"
  shows "parse hs 0 (concat (map (frame hs) ps)) = (ps, 0, [])"
  using assms(2)
proof (induction ps)
  case Nil
  show ?case using assms(1) by (auto simp: parse_steps(1))
next
  case (Cons p ps)
  then show ?case by (simp add: parse_frame [OF assms(1)])
qed

section \<open>The loop follows the parser\<close>

text \<open>A connection whose packets have a receiver, and the message it becomes.\<close>

definition routed :: "gate \<Rightarrow> connection \<Rightarrow> bool" where
  "routed g c \<longleftrightarrow> cn_id c > 0 \<and> (g_broker g \<noteq> 0 \<or> cn_agent c \<noteq> 0 \<or> g_watchdog g \<noteq> 0)"

definition packet_call :: "gate \<Rightarrow> connection \<Rightarrow> u8 list \<Rightarrow> gate_call" where
  "packet_call g c p =
     (if g_broker g \<noteq> 0 then Send 0 (g_broker g) (g_client_tag g OR PTYPE_TAG_DONTCOPY) (cn_id c) p
      else if cn_agent c \<noteq> 0 then
        Send (cn_client c) (cn_agent c) (g_client_tag g OR PTYPE_TAG_DONTCOPY) (cn_id c) p
      else Send 0 (g_watchdog g) (PTYPE_TEXT OR PTYPE_TAG_DONTCOPY) (cn_id c)
             (map of_char (fmt_d (cn_id c) @ '' data '') @ p))"

lemma gate_forward_spec:
  assumes "conn_rep other obs (cn_buffer c, mp) bs" "0 < len" "len \<le> int (length bs)" "routed g c"
  shows "\<exists>db' mp'. gate_forward g c mp len = Some (c\<lparr>cn_buffer := db'\<rparr>, mp', [packet_call g c (take (nat len) bs)]) \<and>
     conn_rep other obs (db', mp') (drop (nat len) bs)"
proof -
  from conn_read [OF assms(1-3)] obtain db' mp' where
    "databuffer_read (cn_buffer c) mp len = Some (take (nat len) bs, db', mp')"
    "conn_rep other obs (db', mp') (drop (nat len) bs)" by blast
  with assms(4) show ?thesis by (auto simp: gate_forward_def Let_def routed_def packet_call_def)
qed

text \<open>Reading a header and going on with it pending is the same.\<close>

lemma readheader_pending:
  assumes "conn_rep other obs (db, mp) bs" "db_header db = 0" "0 < hs" "hs \<le> int (length bs)"
  shows "\<exists>db' mp'. conn_rep other obs (db', mp') (drop (nat hs) bs) \<and>
     db_header db' = header_value (take (nat hs) bs) \<and>
     databuffer_readheader db mp hs =
       Some (if db_size db' < db_header db' then - 1 else db_header db', db', mp')"
proof -
  from conn_read [OF assms(1,3,4)] obtain db' mp' where
    r: "databuffer_read db mp hs = Some (take (nat hs) bs, db', mp')" "conn_rep other obs (db', mp') (drop (nat hs) bs)"
    by blast
  let ?db = "db'\<lparr>db_header := header_value (take (nat hs) bs)\<rparr>"
  have "databuffer_readheader db mp hs = Some (if db_size ?db < db_header ?db then - 1 else db_header ?db, ?db, mp')"
    using r(1) assms(2,4) conn_rep_size [OF assms(1)] by (simp add: databuffer_readheader_def)
  with r(2) show ?thesis by (intro exI [of _ ?db] exI [of _ mp']) simp
qed

lemma readheader_have:
  "db_header db \<noteq> 0 \<Longrightarrow>
    databuffer_readheader db mp hs = Some (if db_size db < db_header db then - 1 else db_header db, db, mp)"
  by (simp add: databuffer_readheader_def)

lemma packet_loop_pending:
  assumes "conn_rep other obs (cn_buffer c, mp) bs" "db_header (cn_buffer c) = 0" "0 < g_header_size g"
    "g_header_size g \<le> int (length bs)"
  shows "\<exists>db' mp'. conn_rep other obs (db', mp') (drop (nat (g_header_size g)) bs) \<and>
     db_header db' = header_value (take (nat (g_header_size g)) bs) \<and>
     packet_loop g sid c mp = packet_loop g sid (c\<lparr>cn_buffer := db'\<rparr>) mp'"
proof -
  from readheader_pending [OF assms] obtain db' mp' where
    d: "conn_rep other obs (db', mp') (drop (nat (g_header_size g)) bs)"
      "db_header db' = header_value (take (nat (g_header_size g)) bs)"
      "databuffer_readheader (cn_buffer c) mp (g_header_size g) =
       Some (if db_size db' < db_header db' then - 1 else db_header db', db', mp')" by blast
  have "packet_loop g sid c mp = packet_loop g sid (c\<lparr>cn_buffer := db'\<rparr>) mp'"
  proof (cases "db_header db' = 0")
    case True
    have "0 \<le> db_size db'" using conn_rep_size [OF d(1)] by simp
    with True d(3) show ?thesis by (subst packet_loop.simps) (simp add: Let_def)
  next
    case False
    have "packet_loop g sid c mp = do {
        r \<leftarrow> databuffer_readheader (cn_buffer (c\<lparr>cn_buffer := db'\<rparr>)) mp' (g_header_size g);
        (let len = fst r; c = c\<lparr>cn_buffer := fst (snd r)\<rparr>; mp = snd (snd r) in
         if len < 0 then Some (c, mp, [])
         else if len > 0 then
           (if len \<ge> 16777216 then do {
              e \<leftarrow> databuffer_clear (cn_buffer c) mp;
              Some (c\<lparr>cn_buffer := fst e\<rparr>, snd e, [SocketClose sid, SkynetError ''Recv socket message > 16M''])
            }
            else do {
              f \<leftarrow> gate_forward g c mp len;
              s \<leftarrow> packet_loop g sid ((fst f)\<lparr>cn_buffer := databuffer_reset (cn_buffer (fst f))\<rparr>) (fst (snd f));
              Some (fst s, fst (snd s), snd (snd f) @ snd (snd s))
            })
         else packet_loop g sid c mp) }"
      using False d(3) readheader_have [OF False] by (subst packet_loop.simps) (simp add: Let_def)
    also have "\<dots> = packet_loop g sid (c\<lparr>cn_buffer := db'\<rparr>) mp'"
      by (subst (3) packet_loop.simps) (simp add: Let_def cong: if_cong)
    finally show ?thesis .
  qed
  with d(1,2) show ?thesis by blast
qed

lemma packet_loop_spec:
  assumes "0 < g_header_size g" "parse (g_header_size g) h bs = (ps, h', r)"
    "conn_rep other obs (cn_buffer c, mp) bs" "db_header (cn_buffer c) = h" "ps = [] \<or> routed g c"
    "\<forall>p \<in> set ps. length p < 16777216"
  shows "\<exists>db' mp'. packet_loop g sid c mp = Some (c\<lparr>cn_buffer := db'\<rparr>, mp', map (packet_call g c) ps) \<and>
     conn_rep other obs (db', mp') r \<and> db_header db' = h'"
  using assms
proof (induction h bs arbitrary: ps h' r c mp rule: parse_induct)
  case (short bs)
  then have "databuffer_readheader (cn_buffer c) mp (g_header_size g) = Some (- 1, cn_buffer c, mp)"
    using conn_rep_size [OF short.prems(2)] by (simp add: databuffer_readheader_def)
  then show ?case using short by (subst packet_loop.simps) (auto simp: parse_steps(1) intro!: exI [of _ "cn_buffer c"])
next
  case (header bs)
  from packet_loop_pending [OF header.prems(2,3) assms(1) header.hyps, of sid] obtain db1 mp1 where
    l: "conn_rep other obs (db1, mp1) (drop (nat (g_header_size g)) bs)"
      "db_header db1 = header_value (take (nat (g_header_size g)) bs)"
      "packet_loop g sid c mp = packet_loop g sid (c\<lparr>cn_buffer := db1\<rparr>) mp1" by blast
  have "ps = [] \<or> routed g (c\<lparr>cn_buffer := db1\<rparr>)" using header.prems(4) by (simp add: routed_def)
  moreover have "parse (g_header_size g) (header_value (take (nat (g_header_size g)) bs)) (drop (nat (g_header_size g)) bs) = (ps, h', r)"
    using header assms(1) by (simp add: parse_steps(2))
  moreover have "packet_call g (c\<lparr>cn_buffer := db1\<rparr>) = packet_call g c" by (simp add: packet_call_def fun_eq_iff)
  ultimately show ?case using header.IH [of ps h' r "c\<lparr>cn_buffer := db1\<rparr>" mp1] l header.prems(5) by simp
next
  case (wait h bs)
  then have "databuffer_readheader (cn_buffer c) mp (g_header_size g) =
      Some (if int (length bs) < h then - 1 else h, cn_buffer c, mp)"
    using readheader_have [of "cn_buffer c"] conn_rep_size [OF wait.prems(2)] by auto
  then show ?case using wait by (subst packet_loop.simps) (auto simp: parse_steps(3) intro!: exI [of _ "cn_buffer c"])
next
  case (packet h bs)
  obtain qs where q: "parse (g_header_size g) 0 (drop (nat h) bs) = (qs, h', r)" "ps = take (nat h) bs # qs"
    using packet by (auto simp: parse_steps(4) split: prod.splits)
  have rt: "routed g c" using packet.prems(4) q(2) by simp
  have small: "h < 16777216" using packet.prems(5) q(2) packet.hyps by (simp add: nat_less_iff)
  have rh: "databuffer_readheader (cn_buffer c) mp (g_header_size g) = Some (h, cn_buffer c, mp)"
    using readheader_have [of "cn_buffer c"] conn_rep_size [OF packet.prems(2)] packet.hyps packet.prems(3) by simp
  from gate_forward_spec [OF packet.prems(2) packet.hyps(1,2) rt] obtain db1 mp1 where
    f: "gate_forward g c mp h = Some (c\<lparr>cn_buffer := db1\<rparr>, mp1, [packet_call g c (take (nat h) bs)])"
      "conn_rep other obs (db1, mp1) (drop (nat h) bs)" by blast
  let ?c = "c\<lparr>cn_buffer := databuffer_reset db1\<rparr>"
  have c: "packet_call g ?c = packet_call g c" "routed g ?c" using rt
    by (simp_all add: packet_call_def fun_eq_iff routed_def)
  have "packet_loop g sid c mp = do {
      s \<leftarrow> packet_loop g sid ?c mp1;
      Some (fst s, fst (snd s), packet_call g c (take (nat h) bs) # snd (snd s)) }"
    using rh f(1) packet.hyps small by (subst packet_loop.simps) (simp add: Let_def)
  moreover from packet.IH [OF q(1), of ?c mp1] c packet.prems(5) q(2) f(2) obtain db' mp' where
    "packet_loop g sid ?c mp1 = Some (c\<lparr>cn_buffer := db'\<rparr>, mp', map (packet_call g c) qs)"
    "conn_rep other obs (db', mp') r" "db_header db' = h'"
    by (auto simp: databuffer_reset_def)
  ultimately show ?case using q(2) by (intro exI [of _ db'] exI [of _ mp']) simp
qed

lemma to_int32_neg:
  assumes "2147483648 \<le> v" "v < 4294967296"
  shows "to_int32 v < 0"
proof -
  have "(v + 2147483648) mod 4294967296 = (v - 2147483648) mod 4294967296"
    using mod_add_self2 [of "v - 2147483648" 4294967296] by (simp add: add.commute)
  then have "(v + 2147483648) mod 4294967296 = v - 2147483648" using assms by (simp add: mod_pos_pos_trivial)
  then show ?thesis using assms by (simp add: to_int32_def)
qed

section \<open>Streams of blocks\<close>

text \<open>The blocks \<open>css\<close> arrive one by one on a connection.\<close>

primrec feed :: "gate \<Rightarrow> int \<Rightarrow> u8 list list \<Rightarrow> connection \<Rightarrow> messagepool \<Rightarrow>
    (connection \<times> messagepool \<times> gate_call list) option" where
  "feed g sid [] c mp = Some (c, mp, [])"
| "feed g sid (d # ds) c mp = do {
     (c, mp, calls) \<leftarrow> gate_dispatch_message g c mp sid d (int (length d));
     (c, mp, more) \<leftarrow> feed g sid ds c mp;
     Some (c, mp, calls @ more)
   }"

lemma feed_spec:
  assumes hs: "0 < g_header_size g" and "parse (g_header_size g) h (bs @ concat css) = (ps, h', r)"
    "conn_rep other obs (cn_buffer c, mp) bs" "db_header (cn_buffer c) = h" "ps = [] \<or> routed g c"
    "\<forall>p \<in> set ps. length p < 16777216" "int (length bs + length (concat css)) \<le> INT_MAX"
    and fixed: "parse (g_header_size g) h bs = ([], h, bs)"
  shows "\<exists>db' mp'. feed g sid css c mp = Some (c\<lparr>cn_buffer := db'\<rparr>, mp', map (packet_call g c) ps) \<and>
     conn_rep other obs (db', mp') r \<and> db_header db' = h'"
  using assms(2-)
proof (induction css arbitrary: h bs ps c mp)
  case Nil
  then show ?case by (auto intro!: exI [of _ "cn_buffer c"])
next
  case (Cons d ds)
  obtain ps1 h1 r1 where p1: "parse (g_header_size g) h (bs @ d) = (ps1, h1, r1)" by (metis prod_cases3)
  from parse_append [OF hs p1, of "concat ds"] Cons.prems(1) obtain ps2 where
    p2: "parse (g_header_size g) h1 (r1 @ concat ds) = (ps2, h', r)" "ps = ps1 @ ps2"
    by (auto split: prod.splits)
  from conn_push [OF Cons.prems(2), of d] Cons.prems(6) obtain db0 mp0 where
    p: "databuffer_push (cn_buffer c) mp d (int (length d)) = Some (db0, mp0)"
      "conn_rep other obs (db0, mp0) (bs @ d)" "db_header db0 = db_header (cn_buffer c)" by auto
  have "ps1 = [] \<or> routed g (c\<lparr>cn_buffer := db0\<rparr>)" using Cons.prems(4) p2(2) by (auto simp: routed_def)
  with packet_loop_spec [OF hs p1, of other obs "c\<lparr>cn_buffer := db0\<rparr>" mp0 sid] p Cons.prems(3,5) p2(2) obtain db1 mp1 where
    l: "packet_loop g sid (c\<lparr>cn_buffer := db0\<rparr>) mp0 = Some (c\<lparr>cn_buffer := db1\<rparr>, mp1, map (packet_call g (c\<lparr>cn_buffer := db0\<rparr>)) ps1)"
      "conn_rep other obs (db1, mp1) r1" "db_header db1 = h1" by auto
  have c: "packet_call g (c\<lparr>cn_buffer := b\<rparr>) = packet_call g c" "routed g (c\<lparr>cn_buffer := b\<rparr>) = routed g c" for b
    by (simp_all add: packet_call_def fun_eq_iff routed_def)
  have "length r1 \<le> length (bs @ d)" by (rule parse_length [OF hs p1])
  then have room: "int (length r1 + length (concat ds)) \<le> INT_MAX" using Cons.prems(6) by simp
  have fix1: "parse (g_header_size g) h1 r1 = ([], h1, r1)"
    using parse_append [OF hs p1, of "[]"] p1 by (auto split: prod.splits)
  have "\<exists>db' mp'. feed g sid ds (c\<lparr>cn_buffer := db1\<rparr>) mp1 =
      Some (c\<lparr>cn_buffer := db1\<rparr>\<lparr>cn_buffer := db'\<rparr>, mp', map (packet_call g (c\<lparr>cn_buffer := db1\<rparr>)) ps2) \<and>
      conn_rep other obs (db', mp') r \<and> db_header db' = h'"
    by (rule Cons.IH [OF p2(1) _ _ _ _ room fix1]) (use l Cons.prems(4,5) p2(2) c in auto)
  then show ?case using p l(1) p2(2) by (auto simp: gate_dispatch_message_def c)
qed

section \<open>Properties\<close>

text \<open>
  C9. Packets survive fragmentation: when the bytes that arrive on a routed connection are encoded
  packets (each not empty and below the size limit of the header), cut into blocks anywhere, the gate
  sends exactly these packets, in order, one message each, and ends with an empty buffer; another
  connection with nodes of the same pool keeps its buffer.
\<close>

theorem gate_packets_any_split:
  assumes "g_header_size g = 2 \<or> g_header_size g = 4" "conn_rep other obs (cn_buffer c, mp) []"
    "db_header (cn_buffer c) = 0" "routed g c" "\<forall>p \<in> set ps. packet_ok (g_header_size g) p"
    "concat css = concat (map (frame (g_header_size g)) ps)" "int (length (concat css)) \<le> INT_MAX"
  shows "\<exists>db' mp'. feed g sid css c mp = Some (c\<lparr>cn_buffer := db'\<rparr>, mp', map (packet_call g c) ps) \<and>
     conn_rep other obs (db', mp') [] \<and> db_header db' = 0"
proof (rule feed_spec [where bs = "[]" and h = 0])
  show hs: "0 < g_header_size g" using assms(1) by auto
  show "parse (g_header_size g) 0 ([] @ concat css) = (ps, 0, [])"
    using parse_frames [OF assms(1,5)] assms(6) by simp
  show "parse (g_header_size g) 0 [] = ([], 0, [])" using hs by (simp add: parse_steps(1))
  show "\<forall>p \<in> set ps. length p < 16777216" using assms(5) by (fastforce simp: packet_ok_def split: if_splits)
qed (use assms in simp_all)

definition sample_gate :: gate where
  "sample_gate = gate_create\<lparr>g_header_size := 2, g_client_tag := 3\<rparr>"

definition sample_conn :: connection where
  "sample_conn = connection_zero\<lparr>cn_id := 7, cn_agent := 9, cn_client := 8\<rparr>"

theorem gate_packets_any_split_witness:
  "\<exists>db' mp'. feed sample_gate 7 [[0], [2, 65], [66, 0, 1, 67]] sample_conn messagepool_zero =
     Some (sample_conn\<lparr>cn_buffer := db'\<rparr>, mp', [Send 8 9 65539 7 [65, 66], Send 8 9 65539 7 [67]])"
proof -
  have r: "conn_rep databuffer_zero [] (cn_buffer sample_conn, messagepool_zero) []"
    using conn_rep_zero by (simp add: sample_conn_def connection_zero_def)
  have f: "frame 2 [65, 66] = [0, 2, 65, 66]" "frame 2 [67] = [0, 1, 67]"
    by (simp_all add: frame_def frame_header_def)
  have c: "packet_call sample_gate sample_conn p = Send 8 9 65539 7 p" for p
    by (simp add: packet_call_def sample_gate_def gate_create_def sample_conn_def PTYPE_TAG_DONTCOPY_def)
  have "g_header_size sample_gate = 2" by (simp add: sample_gate_def)
  with gate_packets_any_split [of sample_gate, OF _ r, of "[[65, 66], [67]]" "[[0], [2, 65], [66, 0, 1, 67]]" 7] f c
  show ?thesis
    by (auto simp: sample_conn_def connection_zero_def databuffer_zero_def routed_def packet_ok_def INT_MAX_def)
qed

text \<open>
  A four-byte length with the top bit set becomes a negative \<open>int\<close>, which the code takes for an
  incomplete packet: nothing is ever forwarded again, the size limit of 16M is not applied and the
  socket is not closed; all later blocks of the connection are kept in its buffer.
\<close>

theorem gate_negative_header_stuck:
  assumes "g_header_size g = 4" "conn_rep other obs (cn_buffer c, mp) []" "db_header (cn_buffer c) = 0"
    "128 \<le> uint b0" "int (4 + length rest) \<le> INT_MAX" "concat css = [b0, b1, b2, b3] @ rest"
  shows "\<exists>db' mp'. feed g sid css c mp = Some (c\<lparr>cn_buffer := db'\<rparr>, mp', []) \<and>
     conn_rep other obs (db', mp') rest \<and> db_header db' < 0"
proof -
  let ?v = "16777216 * uint b0 + 65536 * uint b1 + 256 * uint b2 + uint b3"
  have u: "uint b < 256" "0 \<le> uint b" for b :: u8 using unsigned_less [of b] by simp_all
  have "2147483648 \<le> ?v" "?v < 4294967296" using assms(4) u [of b0] u [of b1] u [of b2] u [of b3] by linarith+
  then have neg: "to_int32 ?v < 0" by (rule to_int32_neg)
  have hv: "header_value [b0, b1, b2, b3] = to_int32 ?v" by (simp add: header_value_def)
  have "parse 4 0 ([] @ concat css) = ([], to_int32 ?v, rest)"
    unfolding assms(6) using neg by (simp add: parse_steps(2) hv parse_steps(3))
  moreover have "parse 4 0 [] = ([], 0, [])" by (simp add: parse_steps(1))
  ultimately have "\<exists>db' mp'. feed g sid css c mp = Some (c\<lparr>cn_buffer := db'\<rparr>, mp', map (packet_call g c) []) \<and>
     conn_rep other obs (db', mp') rest \<and> db_header db' = to_int32 ?v"
    by (intro feed_spec [where bs = "[]" and h = 0]) (use assms in simp_all)
  then obtain db' mp' where "feed g sid css c mp = Some (c\<lparr>cn_buffer := db'\<rparr>, mp', [])"
    "conn_rep other obs (db', mp') rest" "db_header db' = to_int32 ?v" by auto
  with neg show ?thesis by (intro exI [of _ db'] exI [of _ mp']) simp
qed

theorem gate_negative_header_stuck_witness:
  "\<exists>db' mp'. feed (sample_gate\<lparr>g_header_size := 4\<rparr>) 7 [[128, 0], [0, 1], [65]] sample_conn messagepool_zero =
     Some (sample_conn\<lparr>cn_buffer := db'\<rparr>, mp', []) \<and> db_header db' < 0"
proof -
  have r: "conn_rep databuffer_zero [] (cn_buffer sample_conn, messagepool_zero) []" "db_header (cn_buffer sample_conn) = 0"
    using conn_rep_zero by (simp_all add: sample_conn_def connection_zero_def databuffer_zero_def)
  from gate_negative_header_stuck [of "sample_gate\<lparr>g_header_size := 4\<rparr>", OF _ r, of 128 "[65]" "[[128, 0], [0, 1], [65]]" 0 0 1 7]
  show ?thesis by (auto simp: INT_MAX_def)
qed

end
