(* ===== verification/Skynet_Netpack.thy ===== *)
theory Skynet_Netpack
  imports Skynet_Mq Skynet_Libc
begin

text \<open>
  The packet assembler of the Lua gate server, \<^verbatim>\<open>lualib-src/lua-netpack.c\<close>: per connection it keeps the
  packet that is not complete yet, in a hash table of lists, and it collects complete packets in a
  ring buffer that grows. A list of nodes with one owner is an Isabelle list; the buffer of an
  incomplete packet is the list of the bytes written to it so far. The queue is a userdata that is
  created by the first operation that needs it.

  The ring buffer is shown to be a queue by the interface \<open>fifo_queue\<close>, and the assembler to deliver
  the packets of every connection in order, for any interleaving of blocks of any size.
\<close>

unbundle bit_operations_syntax

section \<open>State\<close>

definition QUEUESIZE :: nat where
  "QUEUESIZE = 1024"

definition HASHSIZE :: nat where
  "HASHSIZE = 4096"

record netpack =
  np_id :: int
  np_size :: int
  np_buffer :: "u8 list"

record uncomplete =
  uc_pack :: netpack
  uc_read :: int
  uc_header :: int

record npqueue =
  nq_cap :: nat
  nq_head :: nat
  nq_tail :: nat
  nq_hash :: "nat \<Rightarrow> uncomplete list"
  nq_queue :: "netpack option list"

definition npqueue_new :: npqueue where
  "npqueue_new = \<lparr>nq_cap = QUEUESIZE, nq_head = 0, nq_tail = 0, nq_hash = (\<lambda>_. []),
     nq_queue = replicate QUEUESIZE None\<rparr>"

definition get_queue :: "npqueue option \<Rightarrow> npqueue" where
  "get_queue L = (case L of None \<Rightarrow> npqueue_new | Some q \<Rightarrow> q)"

text \<open>The packets that are freed are no longer in the ring.\<close>

definition lclear :: "npqueue option \<Rightarrow> npqueue option" where
  "lclear L = map_option (\<lambda>q. q\<lparr>nq_hash := (\<lambda>_. []), nq_head := 0, nq_tail := 0\<rparr>) L"

definition hash_fd :: "int \<Rightarrow> nat" where
  "hash_fd fd = unat (word_of_int (drop_bit 24 fd + drop_bit 12 fd + fd) :: u32) mod HASHSIZE"

text \<open>The first node of the connection, taken off the list.\<close>

fun take_uc :: "int \<Rightarrow> uncomplete list \<Rightarrow> (uncomplete \<times> uncomplete list) option" where
  "take_uc fd [] = None"
| "take_uc fd (uc # us) =
     (if np_id (uc_pack uc) = fd then Some (uc, us)
      else map_option (\<lambda>(v, vs). (v, uc # vs)) (take_uc fd us))"

definition find_uncomplete :: "npqueue option \<Rightarrow> int \<Rightarrow> (uncomplete \<times> npqueue) option" where
  "find_uncomplete L fd = do {
     q \<leftarrow> L;
     (uc, us) \<leftarrow> take_uc fd (nq_hash q (hash_fd fd));
     Some (uc, q\<lparr>nq_hash := (nq_hash q)(hash_fd fd := us)\<rparr>)
   }"

definition np_expand_queue :: "npqueue \<Rightarrow> npqueue" where
  "np_expand_queue q =
     \<lparr>nq_cap = nq_cap q + QUEUESIZE, nq_head = 0, nq_tail = nq_cap q, nq_hash = nq_hash q,
      nq_queue = map (\<lambda>i. nq_queue q ! ((nq_head q + i) mod nq_cap q)) [0..<nq_cap q] @ replicate QUEUESIZE None\<rparr>"

definition np_push :: "netpack \<Rightarrow> npqueue \<Rightarrow> npqueue option" where
  "np_push np q = do {
     c_assert (nq_tail q < length (nq_queue q));
     let tail = (if nq_tail q + 1 \<ge> nq_cap q then nq_tail q + 1 - nq_cap q else nq_tail q + 1);
     let q' = q\<lparr>nq_queue := (nq_queue q)[nq_tail q := Some np], nq_tail := tail\<rparr>;
     Some (if nq_head q' = nq_tail q' then np_expand_queue q' else q')
   }"

definition push_data :: "npqueue option \<Rightarrow> int \<Rightarrow> u8 list \<Rightarrow> int \<Rightarrow> npqueue option" where
  "push_data L fd buffer sz = np_push \<lparr>np_id = fd, np_size = sz, np_buffer = buffer\<rparr> (get_queue L)"

text \<open>A new node at the front of its list.\<close>

definition save_uncomplete :: "npqueue option \<Rightarrow> int \<Rightarrow> uncomplete \<Rightarrow> npqueue" where
  "save_uncomplete L fd uc =
     (let q = get_queue L; h = hash_fd fd in q\<lparr>nq_hash := (nq_hash q)(h := uc # nq_hash q h)\<rparr>)"

definition uc_half :: "int \<Rightarrow> u8 \<Rightarrow> uncomplete" where
  "uc_half fd b = \<lparr>uc_pack = \<lparr>np_id = fd, np_size = 0, np_buffer = []\<rparr>, uc_read = - 1, uc_header = uint b\<rparr>"

definition uc_partial :: "int \<Rightarrow> int \<Rightarrow> u8 list \<Rightarrow> uncomplete" where
  "uc_partial fd pack_size bs =
     \<lparr>uc_pack = \<lparr>np_id = fd, np_size = pack_size, np_buffer = bs\<rparr>, uc_read = int (length bs), uc_header = 0\<rparr>"

definition read_size :: "u8 \<Rightarrow> u8 \<Rightarrow> nat" where
  "read_size b0 b1 = 256 * unat b0 + unat b1"

text \<open>An empty block would be read past its end.\<close>

function (sequential) push_more :: "npqueue option \<Rightarrow> int \<Rightarrow> u8 list \<Rightarrow> npqueue option" where
  "push_more L fd [] = None"
| "push_more L fd [b] = Some (save_uncomplete L fd (uc_half fd b))"
| "push_more L fd (b0 # b1 # bs) =
     (let n = read_size b0 b1 in
      if length bs < n then Some (save_uncomplete L fd (uc_partial fd (int n) bs))
      else do {
        q \<leftarrow> push_data L fd (take n bs) (int n);
        (if drop n bs = [] then Some q else push_more (Some q) fd (drop n bs))
      })"
  by pat_completeness auto
termination by (relation "measure (\<lambda>(L, fd, bs). length bs)") (auto simp: Let_def)

definition close_uncomplete :: "npqueue option \<Rightarrow> int \<Rightarrow> npqueue option" where
  "close_uncomplete L fd = (case find_uncomplete L fd of None \<Rightarrow> L | Some (uc, q) \<Rightarrow> Some q)"

section \<open>Filtering data\<close>

datatype filter_ret = FilterNone | FilterData int "u8 list" int | FilterMore

text \<open>The second byte of a length, when the first came alone.\<close>

definition fill_header :: "uncomplete \<Rightarrow> u8 list \<Rightarrow> (uncomplete \<times> u8 list) option" where
  "fill_header uc buffer =
     (if uc_read uc < 0 then
        (case buffer of
           [] \<Rightarrow> None
         | b # bs \<Rightarrow> do {
             c_assert (uc_read uc = - 1);
             Some (uc\<lparr>uc_pack := (uc_pack uc)\<lparr>np_size := 256 * uc_header uc + uint b, np_buffer := []\<rparr>, uc_read := 0\<rparr>, bs)
           })
      else Some (uc, buffer))"

text \<open>The node \<open>uc\<close>, taken off its list, is filled with the bytes of the block.\<close>

definition filter_uc :: "npqueue \<Rightarrow> int \<Rightarrow> uncomplete \<Rightarrow> u8 list \<Rightarrow> (filter_ret \<times> npqueue option) option" where
  "filter_uc q fd uc buffer =
     (let need = np_size (uc_pack uc) - uc_read uc; pack = uc_pack uc in
      if int (length buffer) < need then
        (let uc = uc\<lparr>uc_pack := pack\<lparr>np_buffer := np_buffer pack @ buffer\<rparr>,
                     uc_read := uc_read uc + int (length buffer)\<rparr>
         in Some (FilterNone, Some (save_uncomplete (Some q) fd uc)))
      else
        (let packet = np_buffer pack @ take (nat need) buffer in
         if drop (nat need) buffer = [] then Some (FilterData fd packet (np_size pack), Some q)
         else do {
           q \<leftarrow> push_data (Some q) fd packet (np_size pack);
           q \<leftarrow> push_more (Some q) fd (drop (nat need) buffer);
           Some (FilterMore, Some q)
         }))"

definition filter_data :: "npqueue option \<Rightarrow> int \<Rightarrow> u8 list \<Rightarrow> (filter_ret \<times> npqueue option) option" where
  "filter_data L fd buffer =
     (case find_uncomplete L fd of
        Some (uc, q) \<Rightarrow> do {
          (uc, buffer) \<leftarrow> fill_header uc buffer;
          filter_uc q fd uc buffer
        }
      | None \<Rightarrow>
          (case buffer of
             [] \<Rightarrow> None
           | [b] \<Rightarrow> Some (FilterNone, Some (save_uncomplete L fd (uc_half fd b)))
           | b0 # b1 # bs \<Rightarrow>
               (let n = read_size b0 b1 in
                if length bs < n then Some (FilterNone, Some (save_uncomplete L fd (uc_partial fd (int n) bs)))
                else if length bs = n then Some (FilterData fd bs (int n), L)
                else do {
                  q \<leftarrow> push_data L fd (take n bs) (int n);
                  q \<leftarrow> push_more (Some q) fd (drop n bs);
                  Some (FilterMore, Some q)
                })))"

definition lpop :: "npqueue \<Rightarrow> (netpack option \<times> npqueue) option" where
  "lpop q =
     (if nq_head q = nq_tail q then Some (None, q)
      else do {
        np \<leftarrow> arr_get (nq_queue q) (nq_head q);
        Some (Some np, q\<lparr>nq_head := (if nq_head q + 1 \<ge> nq_cap q then 0 else nq_head q + 1)\<rparr>)
      })"

section \<open>Socket events\<close>

datatype filter_event =
    EvFilter filter_ret
  | EvInit int string int
  | EvClose int
  | EvOpen int string
  | EvError int string
  | EvWarning int int
  | EvNothing

text \<open>
  \<open>lfilter\<close>: a socket event of type \<open>ty\<close> with the data \<open>buffer\<close>, or with the text \<open>tail\<close> behind the
  structure when its buffer is \<open>NULL\<close>. Making a string of a buffer (length -1) is undefined.
\<close>

definition lfilter ::
  "npqueue option \<Rightarrow> int \<Rightarrow> int \<Rightarrow> int \<Rightarrow> u8 list option \<Rightarrow> string \<Rightarrow> (filter_event \<times> npqueue option) option" where
  "lfilter L ty fd ud buffer tail =
     (if ty = 1 then do {
        bs \<leftarrow> buffer;
        c_assert (ud = int (length bs));
        (r, L) \<leftarrow> filter_data L fd bs;
        Some (EvFilter r, L)
      }
      else if ty = 2 then do { c_assert (buffer = None); Some (EvInit fd tail ud, L) }
      else if ty = 3 then Some (EvClose fd, close_uncomplete L fd)
      else if ty = 4 then do { c_assert (buffer = None); Some (EvOpen ud tail, L) }
      else if ty = 5 then do { c_assert (buffer = None); Some (EvError fd tail, close_uncomplete L fd) }
      else if ty = 7 then Some (EvWarning fd ud, L)
      else Some (EvNothing, L))"

section \<open>Packing\<close>

definition write_size :: "nat \<Rightarrow> u8 list" where
  "write_size len = [of_nat (drop_bit 8 len), of_nat len]"

text \<open>\<open>Inl\<close> the Lua error.\<close>

definition lpack :: "u8 list \<Rightarrow> string + u8 list" where
  "lpack msg =
     (if length msg \<ge> 65536 then Inl (''Invalid size (too long) of data : '' @ fmt_d (to_int32 (int (length msg))))
      else Inr (write_size (length msg) @ msg))"

section \<open>The ring buffer\<close>

definition nq_count :: "npqueue \<Rightarrow> nat" where
  "nq_count q = (nq_tail q + nq_cap q - nq_head q) mod nq_cap q"

definition nq_abs :: "npqueue \<Rightarrow> netpack list" where
  "nq_abs q = map (\<lambda>i. the (nq_queue q ! ((nq_head q + i) mod nq_cap q))) [0..<nq_count q]"

definition nq_inv :: "npqueue \<Rightarrow> bool" where
  "nq_inv q \<longleftrightarrow> 0 < nq_cap q \<and> nq_head q < nq_cap q \<and> nq_tail q < nq_cap q \<and> length (nq_queue q) = nq_cap q \<and>
     (\<forall>i < nq_count q. nq_queue q ! ((nq_head q + i) mod nq_cap q) \<noteq> None)"

lemma nq_count_cases:
  "nq_head q < nq_cap q \<Longrightarrow> nq_tail q < nq_cap q \<Longrightarrow>
    nq_count q = (if nq_head q \<le> nq_tail q then nq_tail q - nq_head q else nq_tail q + nq_cap q - nq_head q)"
  by (auto simp: nq_count_def ring_mod mod_if)

lemma nq_new_inv: "nq_inv npqueue_new" and nq_new_abs: "nq_abs npqueue_new = []"
  by (auto simp: nq_inv_def npqueue_new_def nq_count_def nq_abs_def QUEUESIZE_def)

lemma lpop_spec:
  assumes inv: "nq_inv q"
  shows "\<exists>r q'. lpop q = Some (r, q') \<and> nq_inv q' \<and> nq_abs q' = tl (nq_abs q) \<and>
    r = (case nq_abs q of [] \<Rightarrow> None | x # _ \<Rightarrow> Some x)"
proof (cases "nq_head q = nq_tail q")
  case True
  then have "nq_count q = 0" using inv by (simp add: nq_inv_def nq_count_cases)
  then show ?thesis using True inv by (simp add: lpop_def nq_abs_def)
next
  case False
  let ?n = "nq_cap q" and ?h = "nq_head q" and ?c = "nq_count q"
  have b: "0 < ?n" "?h < ?n" "nq_tail q < ?n" "length (nq_queue q) = ?n"
    and el: "\<And>i. i < ?c \<Longrightarrow> nq_queue q ! ((?h + i) mod ?n) \<noteq> None" using inv by (auto simp: nq_inv_def)
  have c: "0 < ?c" "?c < ?n" using False b by (auto simp: nq_count_cases split: if_splits)
  let ?q = "q\<lparr>nq_head := (?h + 1) mod ?n\<rparr>"
  have c': "nq_count ?q = ?c - 1"
    using False b by (auto simp: nq_count_def mod_if)
  have idx: "((?h + 1) mod ?n + i) mod ?n = (?h + Suc i) mod ?n" for i by (simp add: mod_simps add.assoc)
  obtain np where np: "nq_queue q ! ?h = Some np" using el [of 0] c b by auto
  have "lpop q = Some (Some np, ?q)"
    using False b np mod_succ [of ?n ?h] by (simp add: lpop_def arr_get_def)
  moreover have up: "[0..<?c] = 0 # map Suc [0..<?c - 1]"
    using c by (simp add: upt_conv_Cons map_Suc_upt)
  have "nq_abs q = np # nq_abs ?q"
    unfolding nq_abs_def up c' using np b by (simp add: idx [simplified] comp_def)
  moreover have "nq_queue q ! ((?h + Suc i) mod ?n) \<noteq> None" if "i < ?c - 1" for i using el [of "Suc i"] that by simp
  then have "nq_inv ?q" using b c' idx by (auto simp: nq_inv_def)
  ultimately show ?thesis by auto
qed

lemma np_push_spec:
  assumes inv: "nq_inv q"
  shows "\<exists>q'. np_push np q = Some q' \<and> nq_inv q' \<and> nq_abs q' = nq_abs q @ [np] \<and> nq_hash q' = nq_hash q"
proof -
  let ?n = "nq_cap q" and ?h = "nq_head q" and ?c = "nq_count q" and ?t = "nq_tail q"
  have b: "0 < ?n" "?h < ?n" "?t < ?n" "length (nq_queue q) = ?n"
    and el: "\<And>i. i < ?c \<Longrightarrow> nq_queue q ! ((?h + i) mod ?n) \<noteq> None" using inv by (auto simp: nq_inv_def)
  have c: "?c < ?n" and t: "?t = (?h + ?c) mod ?n" using b by (auto simp: nq_count_cases mod_if split: if_splits)
  let ?arr = "(nq_queue q)[?t := Some np]"
  let ?q = "q\<lparr>nq_queue := ?arr, nq_tail := Suc ?t mod ?n\<rparr>"
  have tail: "(if ?t + 1 \<ge> ?n then ?t + 1 - ?n else ?t + 1) = Suc ?t mod ?n" using b by (cases "?t + 1 = ?n") auto
  have push: "np_push np q = Some (if ?h = Suc ?t mod ?n then np_expand_queue ?q else ?q)"
    unfolding np_push_def Let_def tail using b by simp
  have arr: "?arr ! ((?h + i) mod ?n) = (if i = ?c then Some np else nq_queue q ! ((?h + i) mod ?n))"
    if "i < ?n" for i
    using that b c t ring_inj [of ?h ?n i ?c] by (auto simp: nth_list_update)
  have abs: "map (\<lambda>i. the (?arr ! ((?h + i) mod ?n))) [0..<Suc ?c] = nq_abs q @ [np]"
    using c by (simp add: nq_abs_def arr)
  show ?thesis
  proof (cases "?h = Suc ?t mod ?n")
    case True
    then have full: "Suc ?c = ?n" using b by (auto simp: nq_count_cases mod_if split: if_splits)
    let ?e = "np_expand_queue ?q"
    have f: "nq_cap ?e = ?n + 1024" "nq_head ?e = 0" "nq_tail ?e = ?n" "nq_hash ?e = nq_hash q"
      "nq_queue ?e = map (\<lambda>i. ?arr ! ((?h + i) mod ?n)) [0..<?n] @ replicate 1024 None"
      by (simp_all add: np_expand_queue_def QUEUESIZE_def)
    have ce: "nq_count ?e = ?n" by (simp add: nq_count_cases f)
    have cell: "nq_queue ?e ! ((nq_head ?e + i) mod nq_cap ?e) = ?arr ! ((?h + i) mod ?n)" if "i < ?n" for i
      using that by (simp add: f nth_append)
    have "nq_abs ?e = map (\<lambda>i. the (?arr ! ((?h + i) mod ?n))) [0..<Suc ?c]"
      unfolding nq_abs_def ce full using cell by (simp cong: map_cong)
    moreover have "nq_inv ?e" unfolding nq_inv_def ce using cell arr el full
      by (auto simp: f less_Suc_eq)
    ultimately show ?thesis using push True abs f(4) by auto
  next
    case False
    have ce: "nq_count ?q = Suc ?c" using False b by (auto simp: nq_count_def mod_if)
    have "Suc ?c < ?n" using False b by (auto simp: nq_count_cases mod_if split: if_splits)
    then have "nq_inv ?q" unfolding nq_inv_def ce using arr el b by (auto simp: less_Suc_eq)
    moreover have "nq_abs ?q = nq_abs q @ [np]" using abs by (simp add: nq_abs_def ce del: upt_Suc)
    ultimately show ?thesis using push False by auto
  qed
qed

interpretation npq: fifo_queue np_push lpop nq_abs nq_inv "\<lambda>_ _. True"
  using np_push_spec lpop_spec by unfold_locales blast+

section \<open>The reference parser\<close>

text \<open>The packets of a stream of bytes, and the incomplete rest.\<close>

function (sequential) np_parse :: "u8 list \<Rightarrow> u8 list list \<times> u8 list" where
  "np_parse (b0 # b1 # bs) =
     (let n = read_size b0 b1 in
      if length bs < n then ([], b0 # b1 # bs)
      else (case np_parse (drop n bs) of (ps, r) \<Rightarrow> (take n bs # ps, r)))"
| "np_parse bs = ([], bs)"
  by pat_completeness auto
termination by (relation "measure length") auto

lemma np_parse_append:
  "np_parse bs = (ps, r) \<Longrightarrow> np_parse (bs @ xs) = (case np_parse (r @ xs) of (qs, r') \<Rightarrow> (ps @ qs, r'))"
proof (induction bs arbitrary: ps r rule: np_parse.induct)
  case (1 b0 b1 bs)
  show ?case
  proof (cases "length bs < read_size b0 b1")
    case True
    with "1.prems" show ?thesis by (auto simp: Let_def split: prod.splits)
  next
    case False
    then obtain qs where q: "np_parse (drop (read_size b0 b1) bs) = (qs, r)" "ps = take (read_size b0 b1) bs # qs"
      using "1.prems" by (auto simp: Let_def split: prod.splits)
    from "1.IH" [OF refl False q(1)] q(2) False show ?thesis by (simp add: Let_def split: prod.splits)
  qed
qed (auto split: prod.splits)

lemma read_write_size: "n < 65536 \<Longrightarrow> read_size (of_nat (drop_bit 8 n)) (of_nat n) = n"
proof -
  assume "n < 65536"
  then have "n div 256 < 256" by (simp add: less_mult_imp_div_less)
  then have "256 * (n div 256 mod 256) + n mod 256 = n" by (simp only: mod_less mult_div_mod_eq)
  then show ?thesis by (simp add: read_size_def unsigned_of_nat take_bit_eq_mod drop_bit_eq_div)
qed

lemma np_parse_pack:
  assumes "length p < 65536"
  shows "np_parse (write_size (length p) @ p @ bs) = (case np_parse bs of (ps, r) \<Rightarrow> (p # ps, r))"
  using read_write_size [OF assms] by (simp add: write_size_def Let_def)

lemma np_parse_short: "length bs < n \<Longrightarrow> n < 65536 \<Longrightarrow> np_parse (write_size n @ bs) = ([], write_size n @ bs)"
  using read_write_size [of n] by (simp add: write_size_def Let_def)

lemma np_parse_packs:
  "\<forall>p \<in> set ps. length p < 65536 \<Longrightarrow> np_parse (concat (map (\<lambda>p. write_size (length p) @ p) ps)) = (ps, [])"
  by (induction ps) (simp_all add: np_parse_pack)

section \<open>Incomplete packets\<close>

text \<open>The bytes that an incomplete packet stands for.\<close>

definition uc_bytes :: "uncomplete \<Rightarrow> u8 list" where
  "uc_bytes uc =
     (if uc_read uc < 0 then [of_int (uc_header uc)]
      else write_size (nat (np_size (uc_pack uc))) @ np_buffer (uc_pack uc))"

definition uc_ok :: "uncomplete \<Rightarrow> bool" where
  "uc_ok uc \<longleftrightarrow> (uc_read uc = - 1 \<and> 0 \<le> uc_header uc \<and> uc_header uc < 256) \<or>
     (uc_read uc = int (length (np_buffer (uc_pack uc))) \<and> uc_read uc < np_size (uc_pack uc) \<and>
      np_size (uc_pack uc) < 65536)"

abbreviation uc_id :: "uncomplete \<Rightarrow> int" where
  "uc_id uc \<equiv> np_id (uc_pack uc)"

definition hash_ok :: "(nat \<Rightarrow> uncomplete list) \<Rightarrow> bool" where
  "hash_ok H \<longleftrightarrow> (\<forall>h. distinct (map uc_id (H h)) \<and> (\<forall>uc \<in> set (H h). uc_ok uc))"

text \<open>The incomplete packet of a connection, and the bytes that wait for more.\<close>

definition pending_uc :: "npqueue option \<Rightarrow> int \<Rightarrow> uncomplete option" where
  "pending_uc L fd = (case L of None \<Rightarrow> None | Some q \<Rightarrow> find (\<lambda>uc. uc_id uc = fd) (nq_hash q (hash_fd fd)))"

definition pending_bytes :: "npqueue option \<Rightarrow> int \<Rightarrow> u8 list" where
  "pending_bytes L fd = (case pending_uc L fd of None \<Rightarrow> [] | Some uc \<Rightarrow> uc_bytes uc)"

definition packets :: "npqueue option \<Rightarrow> netpack list" where
  "packets L = (case L of None \<Rightarrow> [] | Some q \<Rightarrow> nq_abs q)"

definition np_inv :: "npqueue option \<Rightarrow> bool" where
  "np_inv L \<longleftrightarrow> (case L of None \<Rightarrow> True | Some q \<Rightarrow> nq_inv q \<and> hash_ok (nq_hash q))"

lemma get_queue_inv: "np_inv L \<Longrightarrow> nq_inv (get_queue L) \<and> hash_ok (nq_hash (get_queue L))"
  using nq_new_inv by (auto simp: np_inv_def get_queue_def hash_ok_def npqueue_new_def split: option.splits)

lemma get_queue_packets: "nq_abs (get_queue L) = packets L"
  by (auto simp: packets_def get_queue_def nq_new_abs split: option.splits)

lemma get_queue_pending: "pending_uc (Some (get_queue L)) = pending_uc L"
  by (auto simp: pending_uc_def get_queue_def npqueue_new_def fun_eq_iff split: option.splits)

lemma take_uc_spec:
  assumes "distinct (map uc_id us)"
  shows "case find (\<lambda>uc. uc_id uc = fd) us of
     None \<Rightarrow> take_uc fd us = None
   | Some uc \<Rightarrow> \<exists>vs. take_uc fd us = Some (uc, vs) \<and> distinct (map uc_id vs) \<and> set vs \<subseteq> set us \<and>
       (\<forall>g. find (\<lambda>uc. uc_id uc = g) vs = (if g = fd then None else find (\<lambda>uc. uc_id uc = g) us))"
  using assms
proof (induction us)
  case (Cons u us)
  show ?case
  proof (cases "uc_id u = fd")
    case True
    then have "find (\<lambda>uc. uc_id uc = fd) us = None" using Cons.prems by (simp add: find_None_iff image_iff) metis
    with True Cons.prems show ?thesis by auto
  next
    case False
    show ?thesis
    proof (cases "find (\<lambda>uc. uc_id uc = fd) us")
      case None
      with Cons False show ?thesis by simp
    next
      case (Some uc)
      with Cons obtain vs where vs: "take_uc fd us = Some (uc, vs)" "distinct (map uc_id vs)" "set vs \<subseteq> set us"
        "\<forall>g. find (\<lambda>uc. uc_id uc = g) vs = (if g = fd then None else find (\<lambda>uc. uc_id uc = g) us)" by auto
      have "uc_id u \<notin> uc_id ` set vs" using Cons.prems vs(3) by auto
      with vs False Some Cons.prems show ?thesis by auto
    qed
  qed
qed simp

lemma find_uncomplete_spec:
  assumes "np_inv L"
  shows "case pending_uc L fd of
     None \<Rightarrow> find_uncomplete L fd = None
   | Some uc \<Rightarrow> \<exists>q. find_uncomplete L fd = Some (uc, q) \<and> np_inv (Some q) \<and> uc_ok uc \<and> uc_id uc = fd \<and>
       packets (Some q) = packets L \<and> pending_uc (Some q) = (pending_uc L)(fd := None)"
proof (cases L)
  case None
  then show ?thesis by (simp add: pending_uc_def find_uncomplete_def)
next
  case (Some q)
  let ?us = "nq_hash q (hash_fd fd)"
  have d: "distinct (map uc_id ?us)" and ok: "\<And>h. distinct (map uc_id (nq_hash q h)) \<and> (\<forall>uc \<in> set (nq_hash q h). uc_ok uc)"
    using assms Some by (auto simp: np_inv_def hash_ok_def)
  show ?thesis
  proof (cases "find (\<lambda>uc. uc_id uc = fd) ?us")
    case None
    with take_uc_spec [OF d, of fd] Some show ?thesis by (simp add: pending_uc_def find_uncomplete_def)
  next
    case (Some uc)
    with take_uc_spec [OF d, of fd] obtain vs where
      vs: "take_uc fd ?us = Some (uc, vs)" "distinct (map uc_id vs)" "set vs \<subseteq> set ?us"
        "\<forall>g. find (\<lambda>uc. uc_id uc = g) vs = (if g = fd then None else find (\<lambda>uc. uc_id uc = g) ?us)" by auto
    let ?q = "q\<lparr>nq_hash := (nq_hash q)(hash_fd fd := vs)\<rparr>"
    have "np_inv (Some ?q)" using assms \<open>L = Some q\<close> vs(2,3) ok
      by (auto simp: np_inv_def hash_ok_def nq_inv_def nq_count_def)
    moreover have "uc \<in> set ?us" "uc_id uc = fd" using Some by (auto simp: find_Some_iff)
    moreover have "pending_uc (Some ?q) = (pending_uc L)(fd := None)"
      using vs(4) \<open>L = Some q\<close> by (auto simp: pending_uc_def fun_eq_iff)
    moreover have "packets (Some ?q) = packets L" using \<open>L = Some q\<close> by (simp add: packets_def nq_abs_def nq_count_def)
    ultimately show ?thesis using vs(1) Some \<open>L = Some q\<close> ok by (simp add: pending_uc_def find_uncomplete_def)
  qed
qed

lemma save_uncomplete_spec:
  assumes "np_inv L" "pending_uc L fd = None" "uc_ok uc" "uc_id uc = fd"
  shows "np_inv (Some (save_uncomplete L fd uc))" "packets (Some (save_uncomplete L fd uc)) = packets L"
    "pending_uc (Some (save_uncomplete L fd uc)) = (pending_uc L)(fd \<mapsto> uc)"
proof -
  let ?q = "get_queue L" and ?h = "hash_fd fd"
  have q: "nq_inv ?q" "hash_ok (nq_hash ?q)" using get_queue_inv [OF assms(1)] by auto
  have n: "find (\<lambda>uc. uc_id uc = fd) (nq_hash ?q ?h) = None"
    using assms(2) get_queue_pending [of L] by (simp add: pending_uc_def fun_eq_iff)
  then have "uc_id uc \<notin> uc_id ` set (nq_hash ?q ?h)" using assms(4) by (auto simp: find_None_iff)
  then show "np_inv (Some (save_uncomplete L fd uc))"
    using q assms(3) by (auto simp: np_inv_def save_uncomplete_def Let_def hash_ok_def nq_inv_def nq_count_def)
  show "packets (Some (save_uncomplete L fd uc)) = packets L"
    using get_queue_packets [of L]
    by (simp add: packets_def save_uncomplete_def Let_def nq_abs_def nq_count_def)
  have "pending_uc (Some (save_uncomplete L fd uc)) = (pending_uc (Some ?q))(fd \<mapsto> uc)"
    using assms(4) by (auto simp: pending_uc_def save_uncomplete_def Let_def fun_eq_iff)
  then show "pending_uc (Some (save_uncomplete L fd uc)) = (pending_uc L)(fd \<mapsto> uc)"
    by (simp add: get_queue_pending)
qed

lemma push_data_spec:
  assumes "np_inv L"
  shows "\<exists>q. push_data L fd p n = Some q \<and> np_inv (Some q) \<and> pending_uc (Some q) = pending_uc L \<and>
    packets (Some q) = packets L @ [\<lparr>np_id = fd, np_size = n, np_buffer = p\<rparr>]"
proof -
  have q: "nq_inv (get_queue L)" "hash_ok (nq_hash (get_queue L))" using get_queue_inv [OF assms] by auto
  from np_push_spec [OF q(1)] obtain q' where
    q': "np_push \<lparr>np_id = fd, np_size = n, np_buffer = p\<rparr> (get_queue L) = Some q'" "nq_inv q'"
      "nq_abs q' = packets L @ [\<lparr>np_id = fd, np_size = n, np_buffer = p\<rparr>]" "nq_hash q' = nq_hash (get_queue L)"
    unfolding get_queue_packets by blast
  have "pending_uc (Some q') = pending_uc (Some (get_queue L))" by (simp add: pending_uc_def fun_eq_iff q'(4))
  then have "pending_uc (Some q') = pending_uc L" by (simp add: get_queue_pending)
  with q' q(2) show ?thesis by (auto simp: push_data_def np_inv_def packets_def)
qed

lemma uc_half_ok: "uc_ok (uc_half fd b)" "uc_id (uc_half fd b) = fd" "uc_bytes (uc_half fd b) = [b]"
  using unsigned_less [of b] by (simp_all add: uc_ok_def uc_half_def uc_bytes_def)

lemma unat_byte: "unat (b :: u8) < 256"
  using unsigned_less [of b, where 'a = nat] by simp

lemma read_size_less: "read_size b0 b1 < 65536"
  using unat_byte [of b0] unat_byte [of b1] by (simp add: read_size_def)

lemma write_read_size: "write_size (read_size b0 b1) = [b0, b1]"
proof -
  have l: "unat b1 < 256" "unat b0 < 256" by (rule unat_byte)+
  have "(256 * unat b0 + unat b1) div 256 = unat b0" using l by simp
  moreover have "(of_nat (256 * unat b0 + unat b1) :: u8) = b1"
  proof -
    have "(of_nat (256 * unat b0) :: u8) = 0" by (rule word_of_nat_eq_0_iff [THEN iffD2]) simp
    then show ?thesis by simp
  qed
  ultimately show ?thesis by (simp add: write_size_def read_size_def drop_bit_eq_div)
qed

lemma uc_partial_ok:
  assumes "length bs < read_size b0 b1"
  shows "uc_ok (uc_partial fd (int (read_size b0 b1)) bs)" "uc_id (uc_partial fd (int (read_size b0 b1)) bs) = fd"
    "uc_bytes (uc_partial fd (int (read_size b0 b1)) bs) = b0 # b1 # bs"
  using assms read_size_less [of b0 b1] write_read_size [of b0 b1]
  by (simp_all add: uc_ok_def uc_partial_def uc_bytes_def)

section \<open>Assembling\<close>

definition pack_of :: "int \<Rightarrow> u8 list \<Rightarrow> netpack" where
  "pack_of fd p = \<lparr>np_id = fd, np_size = int (length p), np_buffer = p\<rparr>"

lemma pending_bytes_upd:
  assumes "pending_uc L' = (pending_uc L)(fd := u)"
  shows "pending_bytes L' = (pending_bytes L)(fd := (case u of None \<Rightarrow> [] | Some uc \<Rightarrow> uc_bytes uc))"
  using assms by (auto simp: pending_bytes_def fun_eq_iff)

lemma pending_bytes_None: "pending_uc L fd = None \<Longrightarrow> (pending_bytes L)(fd := []) = pending_bytes L"
  by (simp add: pending_bytes_def fun_upd_idem)

text \<open>The end of every call: a state with the packets \<open>ps\<close> added and the bytes \<open>r\<close> pending.\<close>

definition np_result :: "npqueue option \<Rightarrow> int \<Rightarrow> u8 list list \<Rightarrow> u8 list \<Rightarrow> npqueue option \<Rightarrow> bool" where
  "np_result L fd ps r L' \<longleftrightarrow> np_inv L' \<and> packets L' = packets L @ map (pack_of fd) ps \<and>
     pending_bytes L' = (pending_bytes L)(fd := r)"

lemma save_result:
  assumes "np_inv L" "pending_uc L fd = None" "uc_ok uc" "uc_id uc = fd"
  shows "np_result L fd [] (uc_bytes uc) (Some (save_uncomplete L fd uc))"
  using save_uncomplete_spec [OF assms] pending_bytes_upd [of "Some (save_uncomplete L fd uc)" L fd "Some uc"]
  by (simp add: np_result_def)

lemma push_result:
  assumes "np_inv L" "pending_uc L fd = None"
  shows "\<exists>q. push_data L fd p (int (length p)) = Some q \<and> np_result L fd [p] [] (Some q) \<and> pending_uc (Some q) fd = None"
proof -
  from push_data_spec [OF assms(1), of fd p "int (length p)"] obtain q where
    q: "push_data L fd p (int (length p)) = Some q" "np_inv (Some q)" "pending_uc (Some q) = pending_uc L"
      "packets (Some q) = packets L @ [pack_of fd p]" by (auto simp: pack_of_def)
  have "pending_bytes (Some q) = pending_bytes L" using q(3) by (simp add: pending_bytes_def fun_eq_iff)
  with q assms(2) pending_bytes_None [OF assms(2)] show ?thesis by (simp add: np_result_def)
qed

lemma np_result_trans:
  "np_result L fd ps r L1 \<Longrightarrow> np_result L1 fd qs s L2 \<Longrightarrow> np_result L fd (ps @ qs) s L2"
  by (auto simp: np_result_def)

lemma push_more_spec:
  assumes "np_inv L" "pending_uc L fd = None" "np_parse buf = (ps, r)" "buf \<noteq> []"
  shows "\<exists>q. push_more L fd buf = Some q \<and> np_result L fd ps r (Some q)"
  using assms
proof (induction L fd buf arbitrary: ps r rule: push_more.induct)
  case (2 L fd b)
  have "ps = []" "r = [b]" using "2.prems"(3) by auto
  then show ?case using save_result [OF "2.prems"(1,2) uc_half_ok(1,2) [of fd b]] by (simp add: uc_half_ok(3))
next
  case (3 L fd b0 b1 bs)
  let ?n = "read_size b0 b1"
  show ?case
  proof (cases "length bs < ?n")
    case True
    then have "ps = []" "r = b0 # b1 # bs" using "3.prems"(3) by (auto simp: Let_def)
    with True show ?thesis using save_result [OF "3.prems"(1,2) uc_partial_ok(1,2) [OF True, of fd]]
      by (simp add: Let_def uc_partial_ok(3) [OF True])
  next
    case False
    then obtain qs where q: "np_parse (drop ?n bs) = (qs, r)" "ps = take ?n bs # qs"
      using "3.prems"(3) by (auto simp: Let_def split: prod.splits)
    have len: "int (length (take ?n bs)) = int ?n" using False by simp
    from push_result [OF "3.prems"(1,2), of "take ?n bs"] obtain q1 where
      q1: "push_data L fd (take ?n bs) (int ?n) = Some q1" "np_result L fd [take ?n bs] [] (Some q1)" "pending_uc (Some q1) fd = None"
      unfolding len by blast
    show ?thesis
    proof (cases "drop ?n bs = []")
      case True
      then have "qs = []" "r = []" using q(1) by simp_all
      with True q1 q(2) False show ?thesis by (simp add: Let_def)
    next
      case ne: False
      from q1(2) have "np_inv (Some q1)" by (simp add: np_result_def)
      from "3.IH" [OF refl False q1(1) ne this q1(3) q(1) ne] obtain q2 where
        "push_more (Some q1) fd (drop ?n bs) = Some q2" "np_result (Some q1) fd qs r (Some q2)" by blast
      with q1(1) np_result_trans [OF q1(2)] q(2) False ne show ?thesis by (fastforce simp: Let_def)
    qed
  qed
qed simp

text \<open>What a call of \<open>filter_data\<close> hands to Lua: a packet, or the packets of the queue.\<close>

definition handed :: "filter_ret \<Rightarrow> npqueue option \<Rightarrow> netpack list" where
  "handed r L = (case r of FilterNone \<Rightarrow> [] | FilterData fd p n \<Rightarrow> [\<lparr>np_id = fd, np_size = n, np_buffer = p\<rparr>]
     | FilterMore \<Rightarrow> packets L)"

definition filtered :: "npqueue option \<Rightarrow> int \<Rightarrow> u8 list list \<Rightarrow> u8 list \<Rightarrow> (filter_ret \<times> npqueue option) option \<Rightarrow> bool" where
  "filtered L fd ps r x \<longleftrightarrow> (\<exists>ret L'. x = Some (ret, L') \<and> np_inv L' \<and> handed ret L' = map (pack_of fd) ps \<and>
     (if ret = FilterMore then L' \<noteq> None else packets L' = []) \<and> pending_bytes L' = (pending_bytes L)(fd := r))"

lemma filter_rest:
  assumes "np_inv L" "pending_uc L fd = None" "packets L = []" "np_parse bs = (ps, r)" "bs \<noteq> []"
  shows "filtered L fd (p # ps) r (do {
      q \<leftarrow> push_data L fd p (int (length p));
      q \<leftarrow> push_more (Some q) fd bs;
      Some (FilterMore, Some q) })"
proof -
  from push_result [OF assms(1,2), of p] obtain q1 where
    q1: "push_data L fd p (int (length p)) = Some q1" "np_result L fd [p] [] (Some q1)" "pending_uc (Some q1) fd = None" by blast
  from q1(2) have "np_inv (Some q1)" by (simp add: np_result_def)
  from push_more_spec [OF this q1(3) assms(4,5)] obtain q2 where
    q2: "push_more (Some q1) fd bs = Some q2" "np_result (Some q1) fd ps r (Some q2)" by blast
  from np_result_trans [OF q1(2) q2(2)] q1(1) q2(1) assms(3) show ?thesis
    by (simp add: filtered_def np_result_def handed_def)
qed

text \<open>A connection with a packet of known length that waits for bytes.\<close>

lemma filter_uc_spec:
  assumes "np_inv (Some q)" "pending_uc (Some q) fd = None" "packets (Some q) = []" "n < 65536" "length buf \<le> n"
    and u: "np_id (uc_pack uc) = fd" "np_size (uc_pack uc) = int n" "np_buffer (uc_pack uc) = buf" "uc_read uc = int (length buf)"
    and parse: "np_parse (write_size n @ buf @ bs) = (ps, r)"
  shows "filtered (Some q) fd ps r (filter_uc q fd uc bs)"
proof (cases "length bs < n - length buf")
  case True
  let ?uc = "uc\<lparr>uc_pack := (uc_pack uc)\<lparr>np_buffer := buf @ bs\<rparr>, uc_read := int (length buf) + int (length bs)\<rparr>"
  have ok: "uc_ok ?uc" "uc_id ?uc = fd" "uc_bytes ?uc = write_size n @ buf @ bs"
    using True assms(4) u by (auto simp: uc_ok_def uc_bytes_def)
  have "length buf + length bs < n" using True by simp
  then have "ps = [] \<and> r = write_size n @ buf @ bs"
    using parse read_write_size [OF assms(4)] by (auto simp: write_size_def Let_def)
  moreover have "int (length bs) < np_size (uc_pack uc) - uc_read uc" using True u by simp
  ultimately show ?thesis using save_result [OF assms(1,2) ok(1,2)] ok(3) u assms(3)
    by (simp add: filter_uc_def Let_def filtered_def np_result_def handed_def)
next
  case False
  let ?k = "n - length buf"
  let ?p = "buf @ take ?k bs"
  have need: "nat (np_size (uc_pack uc) - uc_read uc) = ?k" "\<not> int (length bs) < np_size (uc_pack uc) - uc_read uc"
    using False u assms(5) by simp_all
  have len: "length ?p = n" using False assms(5) by simp
  obtain qs where qs: "np_parse (drop ?k bs) = (qs, r)" "ps = ?p # qs"
  proof -
    have "\<not> length (buf @ bs) < n" "take n (buf @ bs) = ?p" "drop n (buf @ bs) = drop ?k bs"
      using False assms(5) by simp_all
    with parse read_write_size [OF assms(4)] that show ?thesis
      by (auto simp: write_size_def Let_def split: prod.splits)
  qed
  show ?thesis
  proof (cases "drop ?k bs = []")
    case True
    then have "qs = []" "r = []" using qs(1) by simp_all
    with True need u len qs(2) assms(1,3) pending_bytes_None [OF assms(2)] show ?thesis
      by (simp add: filter_uc_def Let_def filtered_def handed_def pack_of_def)
  next
    case ne: False
    from filter_rest [OF assms(1-3) qs(1) ne, of ?p] ne need u len qs(2) show ?thesis by (simp add: filter_uc_def Let_def)
  qed
qed

lemma filter_data_spec:
  assumes inv: "np_inv L" and emp: "packets L = []" and ne: "buf \<noteq> []" and parse: "np_parse (pending_bytes L fd @ buf) = (ps, r)"
  shows "filtered L fd ps r (filter_data L fd buf)"
proof (cases "pending_uc L fd")
  case None
  then have f: "find_uncomplete L fd = None" using find_uncomplete_spec [OF inv, of fd] by simp
  have pb: "pending_bytes L fd = []" using None by (simp add: pending_bytes_def)
  from ne consider b where "buf = [b]" | b0 b1 bs where "buf = b0 # b1 # bs" by (metis neq_Nil_conv)
  then show ?thesis
  proof cases
    case 1
    then have "ps = []" "r = [b]" using parse pb by auto
    with 1 show ?thesis using f emp save_result [OF inv None uc_half_ok(1,2) [of fd b]]
      by (simp add: filter_data_def filtered_def np_result_def handed_def uc_half_ok(3))
  next
    case 2
    let ?n = "read_size b0 b1"
    consider "length bs < ?n" | "length bs = ?n" | "length bs > ?n" by linarith
    then show ?thesis
    proof cases
      case 1
      then have "ps = []" "r = b0 # b1 # bs" using parse pb 2 by (auto simp: Let_def)
      with 1 show ?thesis using f emp 2 save_result [OF inv None uc_partial_ok(1,2) [OF 1, of fd]]
        by (simp add: filter_data_def filtered_def np_result_def handed_def uc_partial_ok(3) [OF 1] Let_def)
    next
      case eq: 2
      then have "ps = [bs]" "r = []" using parse pb 2 by (auto simp: Let_def)
      with eq show ?thesis using f emp 2 inv pending_bytes_None [OF None]
        by (simp add: filter_data_def filtered_def handed_def Let_def pack_of_def)
    next
      case 3
      obtain qs where q: "np_parse (drop ?n bs) = (qs, r)" "ps = take ?n bs # qs"
        using parse 3 2 pb by (auto simp: Let_def split: prod.splits)
      have d: "drop ?n bs \<noteq> []" "length (take ?n bs) = ?n" using 3 by simp_all
      from filter_rest [OF inv None emp q(1) d(1), of "take ?n bs"] show ?thesis
        using 3 2 f q(2) d(2) by (simp add: filter_data_def Let_def)
    qed
  qed
next
  case (Some uc)
  with find_uncomplete_spec [OF inv, of fd] obtain q where
    q: "find_uncomplete L fd = Some (uc, q)" "np_inv (Some q)" "uc_ok uc" "uc_id uc = fd" "packets (Some q) = packets L"
      "pending_uc (Some q) = (pending_uc L)(fd := None)" by auto
  have n: "pending_uc (Some q) fd = None" "packets (Some q) = []" using q(5,6) emp by simp_all
  have pq: "(pending_bytes (Some q))(fd := x) = (pending_bytes L)(fd := x)" for x
    using pending_bytes_upd [OF q(6)] by (simp add: fun_eq_iff)
  have outer: "filtered L fd ps r x" if "filtered (Some q) fd ps r x" for x
    using that by (simp add: filtered_def pq)
  have pb: "pending_bytes L fd = uc_bytes uc" using Some by (simp add: pending_bytes_def)
  show ?thesis
  proof (cases "uc_read uc < 0")
    case True
    from ne obtain b bs where b: "buf = b # bs" by (cases buf) auto
    from True q(3) have h: "uc_read uc = - 1" "0 \<le> uc_header uc" "uc_header uc < 256" by (auto simp: uc_ok_def)
    let ?h = "of_int (uc_header uc) :: u8" and ?uc = "uc\<lparr>uc_pack := (uc_pack uc)\<lparr>np_size := 256 * uc_header uc + uint b, np_buffer := []\<rparr>, uc_read := 0\<rparr>"
    have "uint ?h = uc_header uc" using h by (simp add: uint_word_of_int_eq take_bit_int_eq_self)
    then have sz: "np_size (uc_pack ?uc) = int (read_size ?h b)" by (simp add: read_size_def)
    have "np_parse (write_size (read_size ?h b) @ [] @ bs) = (ps, r)"
      using parse pb True b by (simp add: uc_bytes_def write_read_size)
    from filter_uc_spec [OF q(2) n read_size_less _ _ sz _ _ this] show ?thesis
      using q(1,4) b h(1) by (intro outer) (simp add: filter_data_def fill_header_def)
  next
    case False
    from False q(3) have h: "uc_read uc = int (length (np_buffer (uc_pack uc)))" "uc_read uc < np_size (uc_pack uc)"
      "np_size (uc_pack uc) < 65536" by (auto simp: uc_ok_def)
    let ?n = "nat (np_size (uc_pack uc))" and ?buf = "np_buffer (uc_pack uc)"
    have "?n < 65536" "length ?buf \<le> ?n" "np_size (uc_pack uc) = int ?n" using h by auto
    moreover have "np_parse (write_size ?n @ ?buf @ buf) = (ps, r)" using parse pb False by (simp add: uc_bytes_def)
    ultimately show ?thesis
      using filter_uc_spec [OF q(2) n, of ?n ?buf uc buf ps r] q(1,4) h(1) False
      by (intro outer) (simp add: filter_data_def fill_header_def)
  qed
qed

section \<open>A session\<close>

text \<open>
  The use of the module by the Lua gate server: after \<open>more\<close> it pops until the queue is empty. A
  session is a list of received blocks with their connections; the result is what Lua received.
\<close>

partial_function (option) pop_all :: "npqueue \<Rightarrow> (netpack list \<times> npqueue) option" where
  "pop_all q = do {
     r \<leftarrow> lpop q;
     (case fst r of
        None \<Rightarrow> Some ([], snd r)
      | Some np \<Rightarrow> do { s \<leftarrow> pop_all (snd r); Some (np # fst s, snd s) })
   }"

definition receive :: "filter_ret \<Rightarrow> npqueue option \<Rightarrow> (netpack list \<times> npqueue option) option" where
  "receive r L =
     (case r of
        FilterNone \<Rightarrow> Some ([], L)
      | FilterData fd p n \<Rightarrow> Some ([\<lparr>np_id = fd, np_size = n, np_buffer = p\<rparr>], L)
      | FilterMore \<Rightarrow> do { q \<leftarrow> L; (nps, q) \<leftarrow> pop_all q; Some (nps, Some q) })"

primrec np_session :: "(int \<times> u8 list) list \<Rightarrow> npqueue option \<Rightarrow> (netpack list \<times> npqueue option) option" where
  "np_session [] L = Some ([], L)"
| "np_session (e # es) L = do {
     (r, L) \<leftarrow> filter_data L (fst e) (snd e);
     (nps, L) \<leftarrow> receive r L;
     (more, L) \<leftarrow> np_session es L;
     Some (nps @ more, L)
   }"

lemma pop_all_spec:
  assumes "nq_inv q"
  shows "\<exists>q'. pop_all q = Some (nq_abs q, q') \<and> nq_inv q' \<and> nq_abs q' = [] \<and> nq_hash q' = nq_hash q"
  using assms
proof (induction "nq_abs q" arbitrary: q)
  case Nil
  from npq.deq_empty [OF Nil.prems Nil.hyps [symmetric]] obtain q' where
    "lpop q = Some (None, q')" "nq_inv q'" "nq_abs q' = []" by blast
  moreover from this have "nq_hash q' = nq_hash q" by (auto simp: lpop_def bind_Some_iff split: if_splits)
  ultimately show ?case using Nil.hyps by (subst pop_all.simps) simp
next
  case (Cons np nps)
  from npq.deq_nonempty [OF Cons.prems Cons.hyps(2) [symmetric]] obtain q1 where
    q1: "lpop q = Some (Some np, q1)" "nq_inv q1" "nq_abs q1 = nps" by blast
  moreover from this have "nq_hash q1 = nq_hash q" by (auto simp: lpop_def bind_Some_iff split: if_splits)
  moreover from Cons.hyps(1) [OF q1(3) [symmetric] q1(2)] obtain q' where
    "pop_all q1 = Some (nps, q')" "nq_inv q'" "nq_abs q' = []" "nq_hash q' = nq_hash q1" using q1(3) by auto
  ultimately show ?case using Cons.hyps(2) [symmetric] by (subst pop_all.simps) simp
qed

lemma receive_spec:
  assumes "filtered L fd ps r x"
  shows "\<exists>ret L1 L2. x = Some (ret, L1) \<and> receive ret L1 = Some (map (pack_of fd) ps, L2) \<and> np_inv L2 \<and>
     packets L2 = [] \<and> pending_bytes L2 = (pending_bytes L)(fd := r)"
proof -
  from assms obtain ret L1 where x: "x = Some (ret, L1)" "np_inv L1" "handed ret L1 = map (pack_of fd) ps"
    "if ret = FilterMore then L1 \<noteq> None else packets L1 = []" "pending_bytes L1 = (pending_bytes L)(fd := r)"
    by (auto simp: filtered_def)
  show ?thesis
  proof (cases "ret = FilterMore")
    case True
    then obtain q where q: "L1 = Some q" using x(4) by auto
    from pop_all_spec [of q] x(2) q obtain q' where
      q': "pop_all q = Some (nq_abs q, q')" "nq_inv q'" "nq_abs q' = []" "nq_hash q' = nq_hash q" by (auto simp: np_inv_def)
    have "pending_bytes (Some q') = pending_bytes L1"
      using q q'(4) by (simp add: pending_bytes_def pending_uc_def fun_eq_iff)
    with x q q' True show ?thesis
      by (intro exI [of _ ret] exI [of _ L1] exI [of _ "Some q'"]) (simp add: receive_def handed_def packets_def np_inv_def)
  next
    case False
    with x show ?thesis by (cases ret) (auto simp: receive_def handed_def)
  qed
qed

lemma pending_incomplete:
  assumes "np_inv L"
  shows "np_parse (pending_bytes L fd) = ([], pending_bytes L fd)"
proof (cases "pending_uc L fd")
  case None
  then show ?thesis by (simp add: pending_bytes_def)
next
  case (Some uc)
  with find_uncomplete_spec [OF assms, of fd] have ok: "uc_ok uc" by auto
  have pb: "pending_bytes L fd = uc_bytes uc" using Some by (simp add: pending_bytes_def)
  show ?thesis
  proof (cases "uc_read uc < 0")
    case True
    then show ?thesis by (simp add: pb uc_bytes_def)
  next
    case False
    with ok have "length (np_buffer (uc_pack uc)) < nat (np_size (uc_pack uc))" "nat (np_size (uc_pack uc)) < 65536"
      by (auto simp: uc_ok_def)
    from np_parse_short [OF this] False show ?thesis by (simp add: pb uc_bytes_def)
  qed
qed

text \<open>The bytes that a connection received, and the packets that came out for it.\<close>

definition stream_of :: "int \<Rightarrow> (int \<times> u8 list) list \<Rightarrow> u8 list" where
  "stream_of fd es = concat (map snd (filter (\<lambda>e. fst e = fd) es))"

definition received :: "int \<Rightarrow> netpack list \<Rightarrow> u8 list list" where
  "received fd nps = map np_buffer (filter (\<lambda>np. np_id np = fd) nps)"

lemma received_simps: "received fd (xs @ ys) = received fd xs @ received fd ys"
    "received fd (map (pack_of g) ps) = (if g = fd then ps else [])"
  by (induction ps) (auto simp: received_def pack_of_def)

lemma session_spec:
  assumes "np_inv L" "packets L = []" "\<forall>e \<in> set es. snd e \<noteq> []"
  shows "\<exists>nps L'. np_session es L = Some (nps, L') \<and> np_inv L' \<and>
     (\<forall>fd. np_parse (pending_bytes L fd @ stream_of fd es) = (received fd nps, pending_bytes L' fd))"
  using assms
proof (induction es arbitrary: L)
  case Nil
  then show ?case by (simp add: stream_of_def received_def pending_incomplete)
next
  case (Cons e es)
  obtain f b where e: "e = (f, b)" by (cases e)
  obtain ps r where p: "np_parse (pending_bytes L f @ b) = (ps, r)" by fastforce
  have "b \<noteq> []" using Cons.prems(3) e by simp
  from receive_spec [OF filter_data_spec [OF Cons.prems(1,2) this p]] obtain ret L1 L2 where
    s: "filter_data L f b = Some (ret, L1)" "receive ret L1 = Some (map (pack_of f) ps, L2)" "np_inv L2"
      "packets L2 = []" "pending_bytes L2 = (pending_bytes L)(f := r)" by blast
  from Cons.IH [OF s(3,4)] Cons.prems(3) obtain nps L3 where
    n: "np_session es L2 = Some (nps, L3)" "np_inv L3"
      "\<And>fd. np_parse (pending_bytes L2 fd @ stream_of fd es) = (received fd nps, pending_bytes L3 fd)" by auto
  have "np_parse (pending_bytes L fd @ stream_of fd (e # es)) =
      (received fd (map (pack_of f) ps @ nps), pending_bytes L3 fd)" for fd
  proof (cases "fd = f")
    case True
    from np_parse_append [OF p, of "stream_of f es"] n(3) [of f] s(5) True show ?thesis
      by (simp add: stream_of_def e received_simps)
  next
    case False
    then show ?thesis using n(3) [of fd] s(5) by (simp add: stream_of_def e received_simps)
  qed
  with s(1,2) n(1,2) e show ?case by auto
qed

section \<open>Properties\<close>

text \<open>
  C11. Packets survive fragmentation and interleaving: let the bytes that each connection receives be
  the packed forms of its messages, cut into non-empty blocks anywhere, and let the blocks of all
  connections arrive in any order. Then the gate server receives exactly the messages of every
  connection, each complete and in order, and no bytes are left over.
\<close>

theorem netpack_interleaved:
  assumes "\<forall>e \<in> set es. snd e \<noteq> []" "\<forall>fd. \<forall>p \<in> set (sent fd). length p < 65536"
    "\<forall>fd. stream_of fd es = concat (map (\<lambda>p. write_size (length p) @ p) (sent fd))"
  shows "\<exists>nps L. np_session es None = Some (nps, L) \<and> (\<forall>fd. received fd nps = sent fd \<and> pending_bytes L fd = [])"
proof -
  have "np_inv None" "packets None = []" by (simp_all add: np_inv_def packets_def)
  from session_spec [OF this assms(1)] obtain nps L where
    s: "np_session es None = Some (nps, L)"
      "\<And>fd. np_parse (pending_bytes None fd @ stream_of fd es) = (received fd nps, pending_bytes L fd)" by blast
  have "pending_bytes None fd = []" for fd by (simp add: pending_bytes_def pending_uc_def)
  then have "received fd nps = sent fd \<and> pending_bytes L fd = []" for fd
    using s(2) [of fd] np_parse_packs [of "sent fd"] assms(2,3) by simp
  with s(1) show ?thesis by blast
qed

theorem netpack_interleaved_witness:
  "\<exists>nps L. np_session [(5, [0]), (6, [0, 1, 70, 0]), (5, [2, 65]), (6, [0]), (5, [66, 0, 1, 67])] None = Some (nps, L) \<and>
     received 5 nps = [[65, 66], [67]] \<and> received 6 nps = [[70], []]"
proof -
  let ?sent = "\<lambda>fd :: int. if fd = 5 then [[65 :: u8, 66], [67]] else if fd = 6 then [[70], []] else []"
  let ?es = "[(5, [0]), (6, [0, 1, 70, 0]), (5, [2, 65]), (6, [0]), (5, [66, 0, 1, 67])]"
  have s: "\<forall>fd. stream_of fd ?es = concat (map (\<lambda>p. write_size (length p) @ p) (?sent fd))"
    by (simp add: stream_of_def write_size_def drop_bit_eq_div)
  have l: "\<forall>fd. \<forall>p \<in> set (?sent fd). length p < 65536" by auto
  have "\<forall>e \<in> set ?es. snd e \<noteq> []" by simp
  from netpack_interleaved [OF this l s] obtain nps L where
    r: "np_session ?es None = Some (nps, L)" "\<And>fd. received fd nps = ?sent fd" by blast
  then show ?thesis using r(2) [of 5] r(2) [of 6] by (intro exI [of _ nps] exI [of _ L]) simp
qed

text \<open>
  The ring of complete packets is a first-in first-out queue that grows without bound: any
  sequence of pushes and pops behaves as on a list and never reads an unwritten cell.
\<close>

theorem netpack_queue_refines_list:
  "\<exists>q'. fifo_run np_push lpop ops npqueue_new = Some (fst (list_run ops []), q') \<and> nq_abs q' = snd (list_run ops [])"
proof -
  have "ops_ok (\<lambda>_ _. True) ops xs" for xs :: "netpack list"
  proof (induction ops arbitrary: xs)
    case (Cons op ops)
    then show ?case by (cases op) auto
  qed simp
  with npq.run_refines [OF nq_new_inv, of ops] show ?thesis by (auto simp: nq_new_abs)
qed

end
