(* ===== verification/Skynet_Seri.thy ===== *)
theory Skynet_Seri
  imports Skynet_Libc
begin

text \<open>
  The serialisation of Lua values in messages, \<^verbatim>\<open>lualib-src/lua-seri.c\<close>. A Lua value is a tree: a
  number is an integer or the 64 bits of a \<open>double\<close>, a table has the elements \<open>1 .. lua_rawlen\<close> and
  the pairs that \<open>lua_next\<close> visits (or, when it has a \<open>__pairs\<close> metamethod, the pairs that it yields and
  the error that ends it, if any). An unpacked table has the elements and the pairs in the order in
  which they are set. Numbers are stored in the byte order of the little-endian targets.

  Reading may fail with a Lua error; reading a string of negative length is undefined behaviour.
  The nesting of tables is bounded only by the input, so the recursive reader takes fuel; four units
  for every byte are enough, and \<open>luaseri_unpack\<close> starts with that. The \<open>int\<close> counters of the blocks are
  natural numbers here; the properties state where they need the lengths below \<open>2 ^ 31\<close>. The limits of
  the Lua stack and memory are not modelled.
\<close>

unbundle bit_operations_syntax

section \<open>Values\<close>

datatype lua_value =
    LNil
  | LBool bool
  | LInt int
  | LReal u64
  | LPtr u64
  | LStr "u8 list"
  | LTable "lua_value list" "(lua_value \<times> lua_value) list"
  | LMeta "(lua_value \<times> lua_value) list" "string option"
  | LOther string

definition TYPE_NIL :: nat where "TYPE_NIL = 0"
definition TYPE_BOOLEAN :: nat where "TYPE_BOOLEAN = 1"
definition TYPE_NUMBER :: nat where "TYPE_NUMBER = 2"
definition TYPE_NUMBER_ZERO :: nat where "TYPE_NUMBER_ZERO = 0"
definition TYPE_NUMBER_BYTE :: nat where "TYPE_NUMBER_BYTE = 1"
definition TYPE_NUMBER_WORD :: nat where "TYPE_NUMBER_WORD = 2"
definition TYPE_NUMBER_DWORD :: nat where "TYPE_NUMBER_DWORD = 4"
definition TYPE_NUMBER_QWORD :: nat where "TYPE_NUMBER_QWORD = 6"
definition TYPE_NUMBER_REAL :: nat where "TYPE_NUMBER_REAL = 8"
definition TYPE_USERDATA :: nat where "TYPE_USERDATA = 3"
definition TYPE_SHORT_STRING :: nat where "TYPE_SHORT_STRING = 4"
definition TYPE_LONG_STRING :: nat where "TYPE_LONG_STRING = 5"
definition TYPE_TABLE :: nat where "TYPE_TABLE = 6"
definition MAX_COOKIE :: nat where "MAX_COOKIE = 32"
definition MAX_DEPTH :: nat where "MAX_DEPTH = 32"
definition BLOCK_SIZE :: nat where "BLOCK_SIZE = 128"

lemmas seri_consts = TYPE_NIL_def TYPE_BOOLEAN_def TYPE_NUMBER_def TYPE_NUMBER_ZERO_def TYPE_NUMBER_BYTE_def
  TYPE_NUMBER_WORD_def TYPE_NUMBER_DWORD_def TYPE_NUMBER_QWORD_def TYPE_NUMBER_REAL_def TYPE_USERDATA_def
  TYPE_SHORT_STRING_def TYPE_LONG_STRING_def TYPE_TABLE_def MAX_COOKIE_def

definition COMBINE_TYPE :: "nat \<Rightarrow> nat \<Rightarrow> u8" where
  "COMBINE_TYPE t v = of_nat (t OR push_bit 3 v)"

section \<open>Writing\<close>

text \<open>The full blocks, the content of the current one (its length is \<open>ptr\<close>) and the total.\<close>

record write_block =
  wb_full :: "u8 list list"
  wb_current :: "u8 list"
  wb_len :: nat

definition wb_init :: write_block where
  "wb_init = \<lparr>wb_full = [], wb_current = [], wb_len = 0\<rparr>"

text \<open>The step that label \<open>_again\<close> makes: the current block is complete.\<close>

definition wb_next :: "write_block \<Rightarrow> write_block" where
  "wb_next b = b\<lparr>wb_full := wb_full b @ [wb_current b], wb_current := []\<rparr>"

function wb_fill :: "write_block \<Rightarrow> u8 list \<Rightarrow> write_block" where
  "wb_fill b buf =
     (let ptr = length (wb_current b); copy = BLOCK_SIZE - ptr in
      if ptr \<ge> BLOCK_SIZE \<or> ptr + length buf \<le> BLOCK_SIZE
      then b\<lparr>wb_current := wb_current b @ buf, wb_len := wb_len b + length buf\<rparr>
      else wb_fill (wb_next (b\<lparr>wb_current := wb_current b @ take copy buf, wb_len := wb_len b + copy\<rparr>)) (drop copy buf))"
  by pat_completeness auto
termination by (relation "measure (\<lambda>(b, buf). length buf)") (auto simp: Let_def BLOCK_SIZE_def)

declare wb_fill.simps [simp del]

definition wb_push :: "write_block \<Rightarrow> u8 list \<Rightarrow> write_block" where
  "wb_push b buf = (if length (wb_current b) = BLOCK_SIZE then wb_fill (wb_next b) buf else wb_fill b buf)"

text \<open>A little-endian number of \<open>k\<close> bytes.\<close>

definition le :: "nat \<Rightarrow> int \<Rightarrow> u8 list" where
  "le k v = map (\<lambda>i. word_of_int (v div 256 ^ i)) [0..<k]"

definition wb_nil :: "write_block \<Rightarrow> write_block" where
  "wb_nil wb = wb_push wb [COMBINE_TYPE TYPE_NIL 0]"

definition wb_boolean :: "write_block \<Rightarrow> bool \<Rightarrow> write_block" where
  "wb_boolean wb boolean = wb_push wb [COMBINE_TYPE TYPE_BOOLEAN (if boolean then 1 else 0)]"

definition wb_integer :: "write_block \<Rightarrow> int \<Rightarrow> write_block" where
  "wb_integer wb v =
     (if v = 0 then wb_push wb [COMBINE_TYPE TYPE_NUMBER TYPE_NUMBER_ZERO]
      else if v \<noteq> to_int32 v then wb_push (wb_push wb [COMBINE_TYPE TYPE_NUMBER TYPE_NUMBER_QWORD]) (le 8 v)
      else if v < 0 then wb_push (wb_push wb [COMBINE_TYPE TYPE_NUMBER TYPE_NUMBER_DWORD]) (le 4 v)
      else if v < 256 then wb_push (wb_push wb [COMBINE_TYPE TYPE_NUMBER TYPE_NUMBER_BYTE]) (le 1 v)
      else if v < 65536 then wb_push (wb_push wb [COMBINE_TYPE TYPE_NUMBER TYPE_NUMBER_WORD]) (le 2 v)
      else wb_push (wb_push wb [COMBINE_TYPE TYPE_NUMBER TYPE_NUMBER_DWORD]) (le 4 v))"

definition wb_real :: "write_block \<Rightarrow> u64 \<Rightarrow> write_block" where
  "wb_real wb v = wb_push (wb_push wb [COMBINE_TYPE TYPE_NUMBER TYPE_NUMBER_REAL]) (le 8 (uint v))"

definition wb_pointer :: "write_block \<Rightarrow> u64 \<Rightarrow> write_block" where
  "wb_pointer wb v = wb_push (wb_push wb [COMBINE_TYPE TYPE_USERDATA 0]) (le 8 (uint v))"

definition wb_string :: "write_block \<Rightarrow> u8 list \<Rightarrow> write_block" where
  "wb_string wb str =
     (let len = length str in
      if len < MAX_COOKIE then
        (let wb = wb_push wb [COMBINE_TYPE TYPE_SHORT_STRING len] in if len > 0 then wb_push wb str else wb)
      else if len < 65536 then
        wb_push (wb_push (wb_push wb [COMBINE_TYPE TYPE_LONG_STRING 2]) (le 2 (int len))) str
      else wb_push (wb_push (wb_push wb [COMBINE_TYPE TYPE_LONG_STRING 4]) (le 4 (int len))) str)"

text \<open>The head of a table with an array part.\<close>

definition wb_table_head :: "write_block \<Rightarrow> nat \<Rightarrow> write_block" where
  "wb_table_head wb array_size =
     (if array_size \<ge> MAX_COOKIE - 1
      then wb_integer (wb_push wb [COMBINE_TYPE TYPE_TABLE (MAX_COOKIE - 1)]) (int array_size)
      else wb_push wb [COMBINE_TYPE TYPE_TABLE array_size])"

text \<open>A key of the array part, which \<open>wb_table_hash\<close> skips.\<close>

fun array_key :: "nat \<Rightarrow> lua_value \<Rightarrow> bool" where
  "array_key array_size (LInt x) = (0 < x \<and> x \<le> int array_size)"
| "array_key array_size _ = False"

text \<open>Packing: \<open>Inl\<close> a Lua error.\<close>

function (sequential) pack_one :: "nat \<Rightarrow> lua_value \<Rightarrow> write_block \<Rightarrow> string + write_block"
  and pack_array :: "nat \<Rightarrow> lua_value list \<Rightarrow> write_block \<Rightarrow> string + write_block"
  and pack_pairs :: "nat \<Rightarrow> nat \<Rightarrow> (lua_value \<times> lua_value) list \<Rightarrow> write_block \<Rightarrow> string + write_block"
where
  "pack_one depth v b =
     (if depth > MAX_DEPTH then Inl (''serialize can'' @ [CHR 0x27] @ ''t pack too depth table'')
      else (case v of
        LNil \<Rightarrow> Inr (wb_nil b)
      | LInt x \<Rightarrow> Inr (wb_integer b x)
      | LReal x \<Rightarrow> Inr (wb_real b x)
      | LBool x \<Rightarrow> Inr (wb_boolean b x)
      | LStr s \<Rightarrow> Inr (wb_string b s)
      | LPtr p \<Rightarrow> Inr (wb_pointer b p)
      | LTable arr hash \<Rightarrow>
          (case pack_array (Suc depth) arr (wb_table_head b (length arr)) of
             Inl e \<Rightarrow> Inl e
           | Inr b \<Rightarrow> (case pack_pairs (Suc depth) (length arr) hash b of Inl e \<Rightarrow> Inl e | Inr b \<Rightarrow> Inr (wb_nil b)))
      | LMeta ps err \<Rightarrow>
          (case pack_pairs (Suc depth) 0 ps (wb_push b [COMBINE_TYPE TYPE_TABLE 0]) of
             Inl e \<Rightarrow> Inl e
           | Inr b \<Rightarrow> (case err of Some e \<Rightarrow> Inl e | None \<Rightarrow> Inr (wb_nil b)))
      | LOther t \<Rightarrow> Inl (''Unsupport type '' @ t @ '' to serialize'')))"
| "pack_array depth [] b = Inr b"
| "pack_array depth (v # vs) b = (case pack_one depth v b of Inl e \<Rightarrow> Inl e | Inr b \<Rightarrow> pack_array depth vs b)"
| "pack_pairs depth n [] b = Inr b"
| "pack_pairs depth n ((k, v) # ps) b =
     (if array_key n k then pack_pairs depth n ps b
      else (case pack_one depth k b of
              Inl e \<Rightarrow> Inl e
            | Inr b \<Rightarrow> (case pack_one depth v b of Inl e \<Rightarrow> Inl e | Inr b \<Rightarrow> pack_pairs depth n ps b)))"
  by pat_completeness auto
termination
  by (relation "measure (\<lambda>x. case x of
       Inl (d, v, b) \<Rightarrow> size v
     | Inr (Inl (d, vs, b)) \<Rightarrow> size_list size vs
     | Inr (Inr (d, n, ps, b)) \<Rightarrow> size_list (size_prod size size) ps)") auto

declare pack_one.simps [simp del]

definition pack_from :: "lua_value list \<Rightarrow> write_block \<Rightarrow> string + write_block" where
  "pack_from vs b = pack_array 0 vs b"

text \<open>The copy of the blocks into one buffer.\<close>

fun seri :: "u8 list list \<Rightarrow> nat \<Rightarrow> u8 list" where
  "seri [] len = []"
| "seri (b # bs) len = (if len \<ge> BLOCK_SIZE then b @ seri bs (len - BLOCK_SIZE) else take len b)"

definition luaseri_pack :: "lua_value list \<Rightarrow> string + u8 list" where
  "luaseri_pack vs =
     (case pack_from vs wb_init of
        Inl e \<Rightarrow> Inl e
      | Inr wb \<Rightarrow> Inr (seri (wb_full wb @ [wb_current wb]) (wb_len wb)))"

section \<open>Reading\<close>

text \<open>The outcome of reading: a Lua error carries the number of unread bytes, which its text prints.\<close>

datatype 'a seri_res = Done 'a | InvalidStream nat | IndexIsNaN | Undef | OutOfFuel

definition rbind :: "'a seri_res \<Rightarrow> ('a \<Rightarrow> 'b seri_res) \<Rightarrow> 'b seri_res" where
  "rbind m f = (case m of Done x \<Rightarrow> f x | InvalidStream n \<Rightarrow> InvalidStream n | IndexIsNaN \<Rightarrow> IndexIsNaN
     | Undef \<Rightarrow> Undef | OutOfFuel \<Rightarrow> OutOfFuel)"

lemma rbind_Done [simp]: "rbind (Done x) f = f x"
  by (simp add: rbind_def)

text \<open>
  The bytes read and the bytes left. A negative size passes the test of \<open>rb_read\<close> and moves the
  read position backwards.
\<close>

definition rb_read :: "int \<Rightarrow> u8 list \<Rightarrow> (u8 list \<times> u8 list) seri_res" where
  "rb_read sz rb =
     (if int (length rb) < sz then InvalidStream (length rb)
      else if sz < 0 then Undef
      else Done (take (nat sz) rb, drop (nat sz) rb))"

definition le_val :: "u8 list \<Rightarrow> int" where
  "le_val bs = foldr (\<lambda>b a. uint b + 256 * a) bs 0"

text \<open>Two's complement of \<open>k\<close> bytes.\<close>

definition le_signed :: "nat \<Rightarrow> int \<Rightarrow> int" where
  "le_signed k v = (if v < 256 ^ k div 2 then v else v - 256 ^ k)"

definition get_integer :: "nat \<Rightarrow> u8 list \<Rightarrow> (int \<times> u8 list) seri_res" where
  "get_integer cookie rb =
     (if cookie = TYPE_NUMBER_ZERO then Done (0, rb)
      else if cookie = TYPE_NUMBER_BYTE then rbind (rb_read 1 rb) (\<lambda>(n, rb). Done (le_val n, rb))
      else if cookie = TYPE_NUMBER_WORD then rbind (rb_read 2 rb) (\<lambda>(n, rb). Done (le_val n, rb))
      else if cookie = TYPE_NUMBER_DWORD then rbind (rb_read 4 rb) (\<lambda>(n, rb). Done (le_signed 4 (le_val n), rb))
      else if cookie = TYPE_NUMBER_QWORD then rbind (rb_read 8 rb) (\<lambda>(n, rb). Done (le_signed 8 (le_val n), rb))
      else InvalidStream (length rb))"

definition get_real :: "u8 list \<Rightarrow> (u64 \<times> u8 list) seri_res" where
  "get_real rb = rbind (rb_read 8 rb) (\<lambda>(n, rb). Done (word_of_int (le_val n), rb))"

definition get_pointer :: "u8 list \<Rightarrow> (u64 \<times> u8 list) seri_res" where
  "get_pointer rb = rbind (rb_read 8 rb) (\<lambda>(n, rb). Done (word_of_int (le_val n), rb))"

definition get_buffer :: "int \<Rightarrow> u8 list \<Rightarrow> (lua_value \<times> u8 list) seri_res" where
  "get_buffer len rb = rbind (rb_read len rb) (\<lambda>(p, rb). Done (LStr p, rb))"

text \<open>The size of the array part.\<close>

definition get_array_size :: "nat \<Rightarrow> u8 list \<Rightarrow> (int \<times> u8 list) seri_res" where
  "get_array_size array_size rb =
     (if array_size = MAX_COOKIE - 1 then
        rbind (rb_read 1 rb) (\<lambda>(t, rb).
          (let cookie = unat (hd t) div 8 in
           if unat (hd t) mod 8 \<noteq> TYPE_NUMBER \<or> cookie = TYPE_NUMBER_REAL then InvalidStream (length rb)
           else rbind (get_integer cookie rb) (\<lambda>(n, rb). Done (to_int32 n, rb))))
      else Done (int array_size, rb))"

definition get_string :: "nat \<Rightarrow> u8 list \<Rightarrow> (lua_value \<times> u8 list) seri_res" where
  "get_string cookie rb =
     (if cookie = 2 then rbind (rb_read 2 rb) (\<lambda>(n, rb). get_buffer (le_val n) rb)
      else if cookie \<noteq> 4 then InvalidStream (length rb)
      else rbind (rb_read 4 rb) (\<lambda>(n, rb). get_buffer (to_int32 (le_val n)) rb))"

text \<open>\<open>lua_rawset\<close> refuses a key that is not a number.\<close>

fun nan_key :: "lua_value \<Rightarrow> bool" where
  "nan_key (LReal x) = (drop_bit 52 (x AND mask 63) = 2047 \<and> x AND mask 52 \<noteq> 0)"
| "nan_key _ = False"

fun unpack_one :: "nat \<Rightarrow> u8 list \<Rightarrow> (lua_value \<times> u8 list) seri_res"
  and push_value :: "nat \<Rightarrow> nat \<Rightarrow> nat \<Rightarrow> u8 list \<Rightarrow> (lua_value \<times> u8 list) seri_res"
  and unpack_array :: "nat \<Rightarrow> int \<Rightarrow> u8 list \<Rightarrow> (lua_value list \<times> u8 list) seri_res"
  and unpack_pairs :: "nat \<Rightarrow> u8 list \<Rightarrow> ((lua_value \<times> lua_value) list \<times> u8 list) seri_res"
where
  "unpack_one 0 rb = OutOfFuel"
| "unpack_one (Suc f) rb = rbind (rb_read 1 rb) (\<lambda>(t, rb). push_value f (unat (hd t) mod 8) (unat (hd t) div 8) rb)"
| "push_value 0 type cookie rb = OutOfFuel"
| "push_value (Suc f) type cookie rb =
     (if type = TYPE_NIL then Done (LNil, rb)
      else if type = TYPE_BOOLEAN then Done (LBool (cookie \<noteq> 0), rb)
      else if type = TYPE_NUMBER then
        (if cookie = TYPE_NUMBER_REAL then rbind (get_real rb) (\<lambda>(x, rb). Done (LReal x, rb))
         else rbind (get_integer cookie rb) (\<lambda>(x, rb). Done (LInt x, rb)))
      else if type = TYPE_USERDATA then rbind (get_pointer rb) (\<lambda>(x, rb). Done (LPtr x, rb))
      else if type = TYPE_SHORT_STRING then get_buffer (int cookie) rb
      else if type = TYPE_LONG_STRING then get_string cookie rb
      else if type = TYPE_TABLE then
        rbind (get_array_size cookie rb) (\<lambda>(n, rb).
        rbind (unpack_array f n rb) (\<lambda>(arr, rb).
        rbind (unpack_pairs f rb) (\<lambda>(ps, rb). Done (LTable arr ps, rb))))
      else InvalidStream (length rb))"
| "unpack_array 0 n rb = OutOfFuel"
| "unpack_array (Suc f) n rb =
     (if n \<le> 0 then Done ([], rb)
      else rbind (unpack_one f rb) (\<lambda>(v, rb).
           rbind (unpack_array f (n - 1) rb) (\<lambda>(vs, rb). Done (v # vs, rb))))"
| "unpack_pairs 0 rb = OutOfFuel"
| "unpack_pairs (Suc f) rb =
     rbind (unpack_one f rb) (\<lambda>(k, rb).
       if k = LNil then Done ([], rb)
       else rbind (unpack_one f rb) (\<lambda>(v, rb).
            if nan_key k then IndexIsNaN
            else rbind (unpack_pairs f rb) (\<lambda>(ps, rb). Done ((k, v) # ps, rb))))"

text \<open>Values until the end of the buffer.\<close>

fun unpack_all :: "nat \<Rightarrow> u8 list \<Rightarrow> lua_value list seri_res" where
  "unpack_all 0 rb = OutOfFuel"
| "unpack_all (Suc f) rb =
     (if rb = [] then Done []
      else rbind (unpack_one f rb) (\<lambda>(v, rb). rbind (unpack_all f rb) (\<lambda>vs. Done (v # vs))))"

definition luaseri_unpack :: "u8 list \<Rightarrow> lua_value list seri_res" where
  "luaseri_unpack buffer = unpack_all (4 * length buffer + 4) buffer"

end
