(* ===== verification/Skynet_Seri_Proofs.thy ===== *)
theory Skynet_Seri_Proofs
  imports Skynet_Seri
begin

text \<open>
  Correctness of the serialisation: what is packed is unpacked, reading ends on every input, and the
  writer with its chain of blocks produces the concatenation of what is pushed.
\<close>

unbundle bit_operations_syntax

section \<open>The chain of blocks\<close>

definition wb_bytes :: "write_block \<Rightarrow> u8 list" where
  "wb_bytes wb = concat (wb_full wb) @ wb_current wb"

definition wb_ok :: "write_block \<Rightarrow> bool" where
  "wb_ok wb \<longleftrightarrow> (\<forall>b \<in> set (wb_full wb). length b = BLOCK_SIZE) \<and> length (wb_current wb) \<le> BLOCK_SIZE \<and>
     wb_len wb = length (wb_bytes wb)"

lemma wb_fill_spec:
  assumes "wb_ok wb" "length (wb_current wb) < BLOCK_SIZE"
  shows "wb_ok (wb_fill wb buf) \<and> wb_bytes (wb_fill wb buf) = wb_bytes wb @ buf"
  using assms
proof (induction wb buf rule: wb_fill.induct)
  case (1 wb buf)
  let ?copy = "BLOCK_SIZE - length (wb_current wb)"
  show ?case
  proof (cases "length (wb_current wb) + length buf \<le> BLOCK_SIZE")
    case True
    then have "wb_fill wb buf = wb\<lparr>wb_current := wb_current wb @ buf, wb_len := wb_len wb + length buf\<rparr>"
      by (subst wb_fill.simps) (simp add: Let_def)
    then show ?thesis using "1.prems" True by (simp add: wb_ok_def wb_bytes_def)
  next
    case False
    let ?wb = "wb_next (wb\<lparr>wb_current := wb_current wb @ take ?copy buf, wb_len := wb_len wb + ?copy\<rparr>)"
    have ok: "wb_ok ?wb" "length (wb_current ?wb) < BLOCK_SIZE"
      using False "1.prems" by (auto simp: wb_ok_def wb_bytes_def wb_next_def BLOCK_SIZE_def)
    have fill: "wb_fill wb buf = wb_fill ?wb (drop ?copy buf)"
      using False "1.prems"(2) by (subst wb_fill.simps) (simp add: Let_def)
    have bts: "wb_bytes ?wb = wb_bytes wb @ take ?copy buf" by (simp add: wb_bytes_def wb_next_def)
    have "\<not> (length (wb_current wb) \<ge> BLOCK_SIZE \<or> length (wb_current wb) + length buf \<le> BLOCK_SIZE)"
      using False "1.prems"(2) by simp
    from "1.IH" [OF refl refl this ok] show ?thesis unfolding fill by (simp add: bts)
  qed
qed

lemma wb_push_spec:
  assumes "wb_ok wb"
  shows "wb_ok (wb_push wb buf)" "wb_bytes (wb_push wb buf) = wb_bytes wb @ buf"
proof -
  have nxt: "wb_ok (wb_next wb) \<and> length (wb_current (wb_next wb)) < BLOCK_SIZE \<and> wb_bytes (wb_next wb) = wb_bytes wb"
    if "length (wb_current wb) = BLOCK_SIZE"
    using assms that by (auto simp: wb_ok_def wb_next_def wb_bytes_def BLOCK_SIZE_def)
  have "length (wb_current wb) \<noteq> BLOCK_SIZE \<Longrightarrow> length (wb_current wb) < BLOCK_SIZE"
    using assms by (simp add: wb_ok_def)
  with nxt assms wb_fill_spec [of wb buf] wb_fill_spec [of "wb_next wb" buf]
  show "wb_ok (wb_push wb buf)" "wb_bytes (wb_push wb buf) = wb_bytes wb @ buf"
    by (auto simp: wb_push_def)
qed

lemma wb_init_ok: "wb_ok wb_init" "wb_bytes wb_init = []"
  by (simp_all add: wb_ok_def wb_init_def wb_bytes_def)

lemma seri_spec:
  assumes "\<forall>b \<in> set bs. length b = BLOCK_SIZE" "length c \<le> BLOCK_SIZE"
  shows "seri (bs @ [c]) (length (concat bs @ c)) = concat bs @ c"
  using assms(1)
proof (induction bs)
  case Nil
  then show ?case using assms(2) by simp
next
  case (Cons b bs)
  then show ?case by (simp add: add.assoc)
qed

lemma seri_wb: "wb_ok wb \<Longrightarrow> seri (wb_full wb @ [wb_current wb]) (wb_len wb) = wb_bytes wb"
  using seri_spec [of "wb_full wb" "wb_current wb"] by (simp add: wb_ok_def wb_bytes_def)

section \<open>Little-endian numbers\<close>

lemma length_le [simp]: "length (le k v) = k"
  by (simp add: le_def)

lemma le_Suc: "le (Suc k) v = word_of_int v # le k (v div 256)"
proof -
  have "[0..<Suc k] = 0 # map Suc [0..<k]" by (simp add: upt_conv_Cons map_Suc_upt)
  then show ?thesis by (simp add: le_def zdiv_zmult2_eq comp_def)
qed

lemma le_val_le: "le_val (le k v) = v mod 256 ^ k"
proof (induction k arbitrary: v)
  case 0
  then show ?case by (simp add: le_def le_val_def)
next
  case (Suc k)
  have "uint (word_of_int v :: u8) = v mod 256" by (simp add: uint_word_of_int)
  moreover have "v mod (256 * 256 ^ k) = 256 * (v div 256 mod 256 ^ k) + v mod 256"
    by (rule zmod_zmult2_eq) simp
  ultimately show ?case using Suc [of "v div 256"] by (simp add: le_Suc le_val_def)
qed

lemma le_signed_mod:
  assumes "- (256 ^ k div 2) \<le> v" "v < 256 ^ k div 2" "0 < k"
  shows "le_signed k (v mod 256 ^ k) = v"
proof -
  have e: "(256::int) ^ k = 2 * (256 ^ k div 2)" using assms(3) by (cases k) simp_all
  show ?thesis
  proof (cases "0 \<le> v")
    case True
    then have "v mod 256 ^ k = v" using assms(2) e by (intro mod_pos_pos_trivial) linarith+
    then show ?thesis using assms(2) by (simp add: le_signed_def)
  next
    case False
    have "v mod 256 ^ k = (v + 256 ^ k) mod 256 ^ k" by simp
    also have "\<dots> = v + 256 ^ k" using False assms(1) e by (intro mod_pos_pos_trivial) linarith+
    finally show ?thesis using assms(1) e False by (simp add: le_signed_def)
  qed
qed

lemma rb_read_append: "length p = n \<Longrightarrow> rb_read (int n) (p @ rb) = Done (p, rb)"
  by (simp add: rb_read_def)

section \<open>The encoding\<close>

text \<open>The bytes of a value, the values that can be packed, and what unpacking gives for them.\<close>

definition enc_int :: "int \<Rightarrow> u8 list" where
  "enc_int v =
     (if v = 0 then [COMBINE_TYPE TYPE_NUMBER TYPE_NUMBER_ZERO]
      else if v \<noteq> to_int32 v then COMBINE_TYPE TYPE_NUMBER TYPE_NUMBER_QWORD # le 8 v
      else if v < 0 then COMBINE_TYPE TYPE_NUMBER TYPE_NUMBER_DWORD # le 4 v
      else if v < 256 then COMBINE_TYPE TYPE_NUMBER TYPE_NUMBER_BYTE # le 1 v
      else if v < 65536 then COMBINE_TYPE TYPE_NUMBER TYPE_NUMBER_WORD # le 2 v
      else COMBINE_TYPE TYPE_NUMBER TYPE_NUMBER_DWORD # le 4 v)"

definition enc_string :: "u8 list \<Rightarrow> u8 list" where
  "enc_string str =
     (let len = length str in
      if len < MAX_COOKIE then COMBINE_TYPE TYPE_SHORT_STRING len # str
      else if len < 65536 then COMBINE_TYPE TYPE_LONG_STRING 2 # le 2 (int len) @ str
      else COMBINE_TYPE TYPE_LONG_STRING 4 # le 4 (int len) @ str)"

definition enc_head :: "nat \<Rightarrow> u8 list" where
  "enc_head n =
     (if n \<ge> MAX_COOKIE - 1 then COMBINE_TYPE TYPE_TABLE (MAX_COOKIE - 1) # enc_int (int n)
      else [COMBINE_TYPE TYPE_TABLE n])"

abbreviation nil_byte :: u8 where
  "nil_byte \<equiv> COMBINE_TYPE TYPE_NIL 0"

function (sequential) enc :: "lua_value \<Rightarrow> u8 list"
  and encs :: "lua_value list \<Rightarrow> u8 list"
  and encps :: "nat \<Rightarrow> (lua_value \<times> lua_value) list \<Rightarrow> u8 list"
where
  "enc LNil = [nil_byte]"
| "enc (LBool x) = [COMBINE_TYPE TYPE_BOOLEAN (if x then 1 else 0)]"
| "enc (LInt x) = enc_int x"
| "enc (LReal x) = COMBINE_TYPE TYPE_NUMBER TYPE_NUMBER_REAL # le 8 (uint x)"
| "enc (LPtr x) = COMBINE_TYPE TYPE_USERDATA 0 # le 8 (uint x)"
| "enc (LStr x) = enc_string x"
| "enc (LTable arr hash) = enc_head (length arr) @ encs arr @ encps (length arr) hash @ [nil_byte]"
| "enc (LMeta ps err) = COMBINE_TYPE TYPE_TABLE 0 # encps 0 ps @ [nil_byte]"
| "enc (LOther t) = []"
| "encs [] = []"
| "encs (v # vs) = enc v @ encs vs"
| "encps n [] = []"
| "encps n ((k, v) # ps) = (if array_key n k then encps n ps else enc k @ enc v @ encps n ps)"
  by pat_completeness auto
termination
  by (relation "measure (\<lambda>x. case x of Inl v \<Rightarrow> size v | Inr (Inl vs) \<Rightarrow> size_list size vs
     | Inr (Inr (n, ps)) \<Rightarrow> size_list (size_prod size size) ps)") auto

function (sequential) seri_ok :: "nat \<Rightarrow> lua_value \<Rightarrow> bool"
  and seri_oks :: "nat \<Rightarrow> lua_value list \<Rightarrow> bool"
  and seri_okps :: "nat \<Rightarrow> nat \<Rightarrow> (lua_value \<times> lua_value) list \<Rightarrow> bool"
where
  "seri_ok d (LInt x) \<longleftrightarrow> d \<le> MAX_DEPTH \<and> - (2 ^ 63) \<le> x \<and> x < 2 ^ 63"
| "seri_ok d (LStr s) \<longleftrightarrow> d \<le> MAX_DEPTH \<and> length s < 2 ^ 31"
| "seri_ok d (LTable arr hash) \<longleftrightarrow> d \<le> MAX_DEPTH \<and> length arr < 2 ^ 31 \<and> seri_oks (Suc d) arr \<and> seri_okps (Suc d) (length arr) hash"
| "seri_ok d (LMeta ps err) \<longleftrightarrow> d \<le> MAX_DEPTH \<and> err = None \<and> seri_okps (Suc d) 0 ps"
| "seri_ok d (LOther t) \<longleftrightarrow> False"
| "seri_ok d v \<longleftrightarrow> d \<le> MAX_DEPTH"
| "seri_oks d [] \<longleftrightarrow> True"
| "seri_oks d (v # vs) \<longleftrightarrow> seri_ok d v \<and> seri_oks d vs"
| "seri_okps d n [] \<longleftrightarrow> True"
| "seri_okps d n ((k, v) # ps) \<longleftrightarrow>
     (array_key n k \<or> (k \<noteq> LNil \<and> \<not> nan_key k \<and> seri_ok d k \<and> seri_ok d v)) \<and> seri_okps d n ps"
  by pat_completeness auto
termination
  by (relation "measure (\<lambda>x. case x of Inl (d, v) \<Rightarrow> size v | Inr (Inl (d, vs)) \<Rightarrow> size_list size vs
     | Inr (Inr (d, n, ps)) \<Rightarrow> size_list (size_prod size size) ps)") auto

function (sequential) norm :: "lua_value \<Rightarrow> lua_value"
  and norms :: "lua_value list \<Rightarrow> lua_value list"
  and normps :: "nat \<Rightarrow> (lua_value \<times> lua_value) list \<Rightarrow> (lua_value \<times> lua_value) list"
where
  "norm (LTable arr hash) = LTable (norms arr) (normps (length arr) hash)"
| "norm (LMeta ps err) = LTable [] (normps 0 ps)"
| "norm v = v"
| "norms [] = []"
| "norms (v # vs) = norm v # norms vs"
| "normps n [] = []"
| "normps n ((k, v) # ps) = (if array_key n k then normps n ps else (norm k, norm v) # normps n ps)"
  by pat_completeness auto
termination
  by (relation "measure (\<lambda>x. case x of Inl v \<Rightarrow> size v | Inr (Inl vs) \<Rightarrow> size_list size vs
     | Inr (Inr (n, ps)) \<Rightarrow> size_list (size_prod size size) ps)") auto

section \<open>Packing writes the encoding\<close>

text \<open>A writer appends \<open>bs\<close>.\<close>

definition writes :: "(write_block \<Rightarrow> write_block) \<Rightarrow> u8 list \<Rightarrow> bool" where
  "writes f bs \<longleftrightarrow> (\<forall>wb. wb_ok wb \<longrightarrow> wb_ok (f wb) \<and> wb_bytes (f wb) = wb_bytes wb @ bs)"

lemma writes_leaf:
  "writes wb_nil [nil_byte]" "writes (\<lambda>wb. wb_boolean wb x) (enc (LBool x))" "writes (\<lambda>wb. wb_integer wb v) (enc_int v)"
  "writes (\<lambda>wb. wb_real wb r) (enc (LReal r))" "writes (\<lambda>wb. wb_pointer wb r) (enc (LPtr r))"
  "writes (\<lambda>wb. wb_string wb str) (enc_string str)"
  by (simp_all add: writes_def wb_push_spec wb_nil_def wb_boolean_def wb_integer_def enc_int_def wb_real_def
      wb_pointer_def wb_string_def enc_string_def Let_def)

lemma writes_head: "writes (\<lambda>wb. wb_table_head wb n) (enc_head n)"
  using writes_leaf(3) [of "int n"] by (simp add: writes_def wb_table_head_def enc_head_def wb_push_spec)

text \<open>A packer appends \<open>bs\<close> and succeeds.\<close>

definition packs :: "(write_block \<Rightarrow> string + write_block) \<Rightarrow> u8 list \<Rightarrow> bool" where
  "packs f bs \<longleftrightarrow> (\<forall>wb. wb_ok wb \<longrightarrow> (\<exists>wb'. f wb = Inr wb' \<and> wb_ok wb' \<and> wb_bytes wb' = wb_bytes wb @ bs))"

lemma packsD: "packs f bs \<Longrightarrow> wb_ok wb \<Longrightarrow> \<exists>wb'. f wb = Inr wb' \<and> wb_ok wb' \<and> wb_bytes wb' = wb_bytes wb @ bs"
  by (simp add: packs_def)

lemma packs_bind:
  assumes "packs f as" "packs g bs"
  shows "packs (\<lambda>wb. case f wb of Inl e \<Rightarrow> Inl e | Inr wb \<Rightarrow> g wb) (as @ bs)"
  unfolding packs_def
proof (intro allI impI)
  fix wb assume "wb_ok wb"
  from packsD [OF assms(1) this] obtain wb1 where 1: "f wb = Inr wb1" "wb_ok wb1" "wb_bytes wb1 = wb_bytes wb @ as" by blast
  from packsD [OF assms(2) 1(2)] 1 show "\<exists>wb'. (case f wb of Inl e \<Rightarrow> Inl e | Inr wb \<Rightarrow> g wb) = Inr wb' \<and>
      wb_ok wb' \<and> wb_bytes wb' = wb_bytes wb @ as @ bs" by auto
qed

lemma packs_after: "writes f as \<Longrightarrow> packs g bs \<Longrightarrow> packs (\<lambda>wb. g (f wb)) (as @ bs)"
  by (fastforce simp: packs_def writes_def)

lemma packs_write: "writes f as \<Longrightarrow> packs (\<lambda>wb. Inr (f wb)) as"
  by (simp add: packs_def writes_def)

lemma packs_Inr: "packs Inr []"
  by (simp add: packs_def)

lemma pack_spec:
  "seri_ok d v \<Longrightarrow> packs (pack_one d v) (enc v)"
  "seri_oks d vs \<Longrightarrow> packs (pack_array d vs) (encs vs)"
  "seri_okps d n ps \<Longrightarrow> packs (pack_pairs d n ps) (encps n ps)"
proof (induction d v and d vs and d n ps rule: seri_ok_seri_oks_seri_okps.induct)
  case (3 d arr hash)
  then have ih: "packs (pack_array (Suc d) arr) (encs arr)" "packs (pack_pairs (Suc d) (length arr) hash) (encps (length arr) hash)" by simp_all
  from packs_bind [OF packs_after [OF writes_head [of "length arr"] ih(1)] packs_bind [OF ih(2) packs_write [OF writes_leaf(1)]]]
  show ?case using "3.prems" by (simp add: pack_one.simps [abs_def])
next
  case (4 d ps err)
  then have ih: "packs (pack_pairs (Suc d) 0 ps) (encps 0 ps)" by simp
  have w: "writes (\<lambda>wb. wb_push wb [COMBINE_TYPE TYPE_TABLE 0]) [COMBINE_TYPE TYPE_TABLE 0]"
    by (simp add: writes_def wb_push_spec)
  from packs_bind [OF packs_after [OF w ih] packs_write [OF writes_leaf(1)]]
  show ?case using "4.prems" by (simp add: pack_one.simps [abs_def] cong: sum.case_cong)
next
  case (8 d v vs)
  then show ?case using packs_bind [of "pack_one d v" "enc v" "pack_array d vs" "encs vs"] by (simp add: packs_def)
next
  case (10 d n k v ps)
  show ?case
  proof (cases "array_key n k")
    case True
    with 10 show ?thesis by (simp add: packs_def)
  next
    case False
    with 10 have "packs (pack_one d k) (enc k)" "packs (pack_one d v) (enc v)" "packs (pack_pairs d n ps) (encps n ps)" by simp_all
    from packs_bind [OF this(1) packs_bind [OF this(2,3)]] False show ?thesis by (simp add: packs_def)
  qed
qed (use writes_leaf in \<open>auto simp: pack_one.simps packs_def writes_def split: if_splits\<close>)

section \<open>Unpacking reads the encoding\<close>

lemma or_tag: "t < 8 \<Longrightarrow> t OR push_bit 3 c = t + 8 * c" for t c :: nat
proof -
  assume t: "t < 8"
  have "t = take_bit 3 t" using t by (simp add: take_bit_nat_eq_self)
  then have "bit t n \<Longrightarrow> n < 3" for n by (metis bit_take_bit_iff)
  then have "t OR push_bit 3 c = t + push_bit 3 c" by (intro disjunctive_add [symmetric]) (auto simp: bit_push_bit_iff not_le)
  then show ?thesis by (simp add: push_bit_eq_mult)
qed

lemma unat_tag: "t < 8 \<Longrightarrow> c < 32 \<Longrightarrow> unat (COMBINE_TYPE t c) mod 8 = t \<and> unat (COMBINE_TYPE t c) div 8 = c"
  by (simp add: COMBINE_TYPE_def or_tag unat_of_nat take_bit_nat_eq_self del: of_nat_add of_nat_mult)

lemma unpack_tag:
  assumes "t < 8" "c < 32"
  shows "unpack_one (Suc f) (COMBINE_TYPE t c # rb) = push_value f t c rb"
  using unat_tag [OF assms] by (simp add: rb_read_def)

lemma read_le: "rbind (rb_read (int k) (le k v @ rb)) (\<lambda>(n, rb). Done (g (le_val n), rb)) = Done (g (v mod 256 ^ k), rb)"
  by (simp add: rb_read_append le_val_le)

lemma enc_int_read:
  assumes "- (2 ^ 63) \<le> v" "v < 2 ^ 63"
  shows "\<exists>c bs. enc_int v = COMBINE_TYPE TYPE_NUMBER c # bs \<and> c < 32 \<and> c \<noteq> TYPE_NUMBER_REAL \<and>
    get_integer c (bs @ rb) = Done (v, rb)"
proof -
  note rd = read_le [of 1, simplified of_nat_1, of _ _ "\<lambda>x. x"] read_le [of 2, simplified of_nat_numeral, of _ _ "\<lambda>x. x"]
    read_le [of 4, simplified of_nat_numeral, of _ _ "le_signed 4"] read_le [of 8, simplified of_nat_numeral, of _ _ "le_signed 8"]
  have s8: "le_signed 8 (v mod 256 ^ 8) = v" using assms by (intro le_signed_mod) simp_all
  have s4: "le_signed 4 (v mod 256 ^ 4) = v" if "v = to_int32 v"
  proof -
    have "INT_MIN \<le> v \<and> v \<le> INT_MAX" using to_int32_range [of v] that by simp
    then show ?thesis by (intro le_signed_mod) (simp_all add: INT_MIN_def INT_MAX_def)
  qed
  consider "v = 0" | "v \<noteq> 0" "v \<noteq> to_int32 v" | "v = to_int32 v" "v < 0 \<or> v \<ge> 65536" | "v = to_int32 v" "0 < v" "v < 256"
    | "v = to_int32 v" "256 \<le> v" "v < 65536" by linarith
  then show ?thesis
  proof cases
    case 1
    then show ?thesis by (intro exI [of _ TYPE_NUMBER_ZERO] exI [of _ "[]"]) (simp add: enc_int_def get_integer_def seri_consts)
  next
    case 2
    then have "enc_int v = COMBINE_TYPE TYPE_NUMBER TYPE_NUMBER_QWORD # le 8 v" unfolding enc_int_def by simp
    moreover have "get_integer TYPE_NUMBER_QWORD (le 8 v @ rb) = Done (v, rb)"
      unfolding get_integer_def rd s8 by (simp add: seri_consts)
    ultimately show ?thesis by (intro exI conjI) (assumption | simp add: seri_consts)+
  next
    case 3
    then have "enc_int v = COMBINE_TYPE TYPE_NUMBER TYPE_NUMBER_DWORD # le 4 v" unfolding enc_int_def by auto
    moreover have "get_integer TYPE_NUMBER_DWORD (le 4 v @ rb) = Done (v, rb)"
      unfolding get_integer_def rd s4 [OF 3(1)] by (simp add: seri_consts)
    ultimately show ?thesis by (intro exI conjI) (assumption | simp add: seri_consts)+
  next
    case 4
    then have "enc_int v = COMBINE_TYPE TYPE_NUMBER TYPE_NUMBER_BYTE # le 1 v" unfolding enc_int_def by auto
    moreover have "get_integer TYPE_NUMBER_BYTE (le 1 v @ rb) = Done (v, rb)"
      unfolding get_integer_def rd using 4 by (simp add: seri_consts)
    ultimately show ?thesis by (intro exI conjI) (assumption | simp add: seri_consts)+
  next
    case 5
    then have "enc_int v = COMBINE_TYPE TYPE_NUMBER TYPE_NUMBER_WORD # le 2 v" unfolding enc_int_def by auto
    moreover have "get_integer TYPE_NUMBER_WORD (le 2 v @ rb) = Done (v, rb)"
      unfolding get_integer_def rd using 5 by (simp add: seri_consts)
    ultimately show ?thesis by (intro exI conjI) (assumption | simp add: seri_consts)+
  qed
qed

lemma unpack_string:
  assumes "length s < 2 ^ 31"
  shows "unpack_one (Suc (Suc f)) (enc_string s @ rb) = Done (LStr s, rb)"
proof -
  have buf: "get_buffer (int (length s)) (s @ rb) = Done (LStr s, rb)" by (simp add: get_buffer_def rb_read_append)
  consider "length s < 32" | "32 \<le> length s" "length s < 65536" | "65536 \<le> length s" by linarith
  then show ?thesis
  proof cases
    case 1
    then show ?thesis using buf
      by (simp add: enc_string_def Let_def unpack_tag seri_consts del: unpack_one.simps)
  next
    case 2
    have "rb_read 2 (le 2 (int (length s)) @ s @ rb) = Done (le 2 (int (length s)), s @ rb)"
      using rb_read_append [of "le 2 (int (length s))" 2] by simp
    moreover have "int (length s) mod 65536 = int (length s)" using 2 by simp
    ultimately have "get_string 2 (le 2 (int (length s)) @ s @ rb) = Done (LStr s, rb)"
      using buf by (simp add: get_string_def le_val_le)
    moreover have "enc_string s = COMBINE_TYPE TYPE_LONG_STRING 2 # le 2 (int (length s)) @ s"
      using 2 by (simp add: enc_string_def Let_def MAX_COOKIE_def)
    ultimately show ?thesis by (simp add: unpack_tag seri_consts del: unpack_one.simps)
  next
    case 3
    have "rb_read 4 (le 4 (int (length s)) @ s @ rb) = Done (le 4 (int (length s)), s @ rb)"
      using rb_read_append [of "le 4 (int (length s))" 4] by simp
    moreover have "to_int32 (int (length s) mod 4294967296) = int (length s)"
      using assms by (simp add: to_int32_def)
    ultimately have "get_string 4 (le 4 (int (length s)) @ s @ rb) = Done (LStr s, rb)"
      using buf by (simp add: get_string_def le_val_le)
    moreover have "enc_string s = COMBINE_TYPE TYPE_LONG_STRING 4 # le 4 (int (length s)) @ s"
      using 3 by (simp add: enc_string_def Let_def MAX_COOKIE_def)
    ultimately show ?thesis by (simp add: unpack_tag seri_consts del: unpack_one.simps)
  qed
qed

lemma enc_head_read:
  assumes "n < 2 ^ 31"
  shows "\<exists>c bs. enc_head n = COMBINE_TYPE TYPE_TABLE c # bs \<and> c < 32 \<and> get_array_size c (bs @ rb) = Done (int n, rb)"
proof (cases "n \<ge> 31")
  case True
  obtain c bs where e: "enc_int (int n) = COMBINE_TYPE TYPE_NUMBER c # bs" "c < 32" "c \<noteq> TYPE_NUMBER_REAL"
      "get_integer c (bs @ rb) = Done (int n, rb)"
    using enc_int_read [of "int n" rb] assms by fastforce
  have "to_int32 (int n) = int n" using assms by (simp add: to_int32_def)
  then have "get_array_size 31 (enc_int (int n) @ rb) = Done (int n, rb)"
    using e unat_tag [of TYPE_NUMBER c] by (simp add: get_array_size_def rb_read_def Let_def MAX_COOKIE_def TYPE_NUMBER_def)
  then show ?thesis using True by (intro exI [of _ 31] exI [of _ "enc_int (int n)"]) (simp add: enc_head_def MAX_COOKIE_def)
next
  case False
  then show ?thesis by (intro exI [of _ n] exI [of _ "[]"]) (simp add: enc_head_def MAX_COOKIE_def get_array_size_def)
qed

lemma unpack_int:
  assumes "- (2 ^ 63) \<le> v" "v < 2 ^ 63"
  shows "unpack_one (Suc (Suc f)) (enc_int v @ rb) = Done (LInt v, rb)"
proof -
  obtain c bs where "enc_int v = COMBINE_TYPE TYPE_NUMBER c # bs" "c < 32" "c \<noteq> TYPE_NUMBER_REAL"
    "get_integer c (bs @ rb) = Done (v, rb)" using enc_int_read [OF assms] by blast
  then show ?thesis by (simp add: unpack_tag seri_consts del: unpack_one.simps)
qed

lemma unpack_eight:
  "unpack_one (Suc (Suc f)) (COMBINE_TYPE TYPE_NUMBER TYPE_NUMBER_REAL # le 8 (uint x) @ rb) = Done (LReal x, rb)"
  "unpack_one (Suc (Suc f)) (COMBINE_TYPE TYPE_USERDATA 0 # le 8 (uint x) @ rb) = Done (LPtr x, rb)"
proof -
  have "word_of_int (uint x mod 256 ^ 8) = x"
    using uint_range_size [of x] by (simp add: word_size)
  then have "get_real (le 8 (uint x) @ rb) = Done (x, rb)" "get_pointer (le 8 (uint x) @ rb) = Done (x, rb)"
    using read_le [of 8 "uint x" rb "word_of_int :: int \<Rightarrow> u64"] by (simp_all add: get_real_def get_pointer_def)
  then show "unpack_one (Suc (Suc f)) (COMBINE_TYPE TYPE_NUMBER TYPE_NUMBER_REAL # le 8 (uint x) @ rb) = Done (LReal x, rb)"
    "unpack_one (Suc (Suc f)) (COMBINE_TYPE TYPE_USERDATA 0 # le 8 (uint x) @ rb) = Done (LPtr x, rb)"
    by (simp_all add: unpack_tag seri_consts del: unpack_one.simps)
qed

lemma norm_key [simp]: "norm k = LNil \<longleftrightarrow> k = LNil" "nan_key (norm k) = nan_key k"
  by (cases k; simp)+

lemma fuel2: "4 * n \<le> f \<Longrightarrow> 0 < n \<Longrightarrow> \<exists>g. f = Suc (Suc g) \<and> 4 * (n - 1) + 2 \<le> g"
  for n f :: nat
  by (intro exI [of _ "f - 2"]) linarith

lemma enc_int_pos: "enc_int v \<noteq> []"
  by (simp add: enc_int_def)

lemma enc_pos: "seri_ok d v \<Longrightarrow> 0 < length (enc v)"
  by (cases v) (simp_all add: enc_int_pos enc_string_def Let_def)

lemma norms_length: "length (norms vs) = length vs"
  by (induction vs) simp_all

lemma unpack_nil: "unpack_one (Suc (Suc f)) (nil_byte # rb) = Done (LNil, rb)"
  by (simp add: unpack_tag seri_consts del: unpack_one.simps)

lemma unpack_bool: "unpack_one (Suc (Suc f)) (COMBINE_TYPE TYPE_BOOLEAN (if x then 1 else 0) # rb) = Done (LBool x, rb)"
  by (simp add: unpack_tag seri_consts del: unpack_one.simps)

lemma unpack_leaf:
  assumes "seri_ok d v" "4 * length (enc v) \<le> f" "case v of LTable _ _ \<Rightarrow> False | LMeta _ _ \<Rightarrow> False | _ \<Rightarrow> True"
  shows "unpack_one f (enc v @ rb) = Done (norm v, rb)"
proof -
  obtain g where "f = Suc (Suc g)" using fuel2 [OF assms(2) enc_pos [OF assms(1)]] by blast
  with assms unpack_bool show ?thesis
    by (cases v) (simp_all add: unpack_int unpack_string unpack_nil unpack_eight del: unpack_one.simps)
qed

text \<open>A table: its head, its elements, its pairs.\<close>

lemma unpack_table:
  assumes "n < 2 ^ 31" "unpack_array f (int n) (as @ bs @ rb) = Done (arr, bs @ rb)" "unpack_pairs f (bs @ rb) = Done (ps, rb)"
  shows "unpack_one (Suc (Suc f)) (enc_head n @ as @ bs @ rb) = Done (LTable arr ps, rb)"
proof -
  obtain c hs where "enc_head n = COMBINE_TYPE TYPE_TABLE c # hs" "c < 32"
    "get_array_size c (hs @ as @ bs @ rb) = Done (int n, as @ bs @ rb)" using enc_head_read [OF assms(1)] by blast
  with assms show ?thesis by (simp add: unpack_tag seri_consts del: unpack_one.simps)
qed

lemma unpack_spec:
  "seri_ok d v \<Longrightarrow> 4 * length (enc v) \<le> f \<Longrightarrow> unpack_one f (enc v @ rb) = Done (norm v, rb)"
  "seri_oks d vs \<Longrightarrow> 4 * length (encs vs) + 1 \<le> f \<Longrightarrow>
     unpack_array f (int (length vs)) (encs vs @ rb) = Done (norms vs, rb)"
  "seri_okps d n ps \<Longrightarrow> 4 * length (encps n ps) + 5 \<le> f \<Longrightarrow>
     unpack_pairs f (encps n ps @ nil_byte # rb) = Done (normps n ps, rb)"
proof (induction d v and d vs and d n ps arbitrary: f rb and f rb and f rb rule: seri_ok_seri_oks_seri_okps.induct)
  case (3 d arr hash)
  obtain g where g: "f = Suc (Suc g)" "4 * (length (enc (LTable arr hash)) - 1) + 2 \<le> g"
    using fuel2 [OF "3.prems"(2) enc_pos [OF "3.prems"(1)]] by blast
  obtain b hs where h: "enc_head (length arr) = b # hs" by (cases "enc_head (length arr)") (simp_all add: enc_head_def split: if_splits)
  have "unpack_array g (int (length arr)) (encs arr @ (encps (length arr) hash @ [nil_byte]) @ rb) = Done (norms arr, (encps (length arr) hash @ [nil_byte]) @ rb)"
    using "3.prems"(1) g(2) h by (intro "3.IH"(1)) simp_all
  moreover have "unpack_pairs g ((encps (length arr) hash @ [nil_byte]) @ rb) = Done (normps (length arr) hash, rb)"
    using "3.prems"(1) g(2) h "3.IH"(2) [of g rb] by simp
  ultimately show ?case using "3.prems"(1) unpack_table [of "length arr" g "encs arr" "encps (length arr) hash @ [nil_byte]" rb "norms arr" "normps (length arr) hash"]
    by (simp add: g(1) del: unpack_one.simps)
next
  case (4 d ps err)
  obtain g where g: "f = Suc (Suc g)" "4 * (length (enc (LMeta ps err)) - 1) + 2 \<le> g"
    using fuel2 [OF "4.prems"(2) enc_pos [OF "4.prems"(1)]] by blast
  have "unpack_pairs g ((encps 0 ps @ [nil_byte]) @ rb) = Done (normps 0 ps, rb)"
    using "4.prems"(1) g(2) "4.IH" [of g rb] by simp
  moreover have "unpack_array g 0 bs = Done ([], bs)" for bs using g(2) by (cases g) simp_all
  ultimately show ?case using unpack_table [of 0 g "[]" "encps 0 ps @ [nil_byte]" rb "[]" "normps 0 ps"]
    by (simp add: g(1) enc_head_def MAX_COOKIE_def del: unpack_one.simps)
next
  case (8 d v vs)
  then obtain g where "f = Suc g" by (cases f) simp_all
  moreover obtain b bs where "enc v = b # bs" using enc_pos [of d v] "8.prems"(1) by (cases "enc v") simp_all
  ultimately show ?case using 8 by simp
next
  case (9 d n)
  then obtain g where "f = Suc (Suc (Suc g))" using less_imp_Suc_add [of 4 f] by (auto simp: numeral_eq_Suc)
  then show ?case by (simp add: unpack_nil del: unpack_one.simps)
next
  case (10 d n k v ps)
  show ?case
  proof (cases "array_key n k")
    case True
    with 10 show ?thesis by simp
  next
    case False
    from "10.prems" obtain g where "f = Suc g" by (cases f) simp_all
    moreover obtain b bs where "enc k = b # bs" using enc_pos [of d k] "10.prems"(1) False by (cases "enc k") simp_all
    ultimately show ?thesis using 10 False by simp
  qed
next
  case (7 d)
  then show ?case by (cases f) simp_all
qed (rule unpack_leaf, assumption+, simp)+

section \<open>The round trip\<close>

lemma unpack_all_spec:
  "seri_oks d vs \<Longrightarrow> 4 * length (encs vs) + 1 \<le> f \<Longrightarrow> unpack_all f (encs vs) = Done (norms vs)"
proof (induction vs arbitrary: f)
  case Nil
  then show ?case by (cases f) simp_all
next
  case (Cons v vs)
  obtain g where g: "f = Suc g" using Cons.prems(2) by (cases f) simp_all
  obtain b bs where e: "enc v = b # bs" using enc_pos [of d v] Cons.prems(1) by (cases "enc v") simp_all
  have "unpack_one g (enc v @ encs vs) = Done (norm v, encs vs)"
    using Cons.prems g by (intro unpack_spec(1) [of d]) simp_all
  moreover have "unpack_all g (encs vs) = Done (norms vs)" using Cons e g by simp
  ultimately show ?case using e g by simp
qed

text \<open>
  C12: What \<open>luaseri_pack\<close> writes, \<open>luaseri_unpack\<close> reads back: the values are packed without error, whatever
  the sizes of the blocks they fill, and the buffer unpacks to the same values. Tables come back with
  the same elements and the same other pairs; a table with a \<open>__pairs\<close> metamethod comes back as the
  pairs that it yields. The values are those that Lua can hold, no deeper than \<open>MAX_DEPTH\<close>, of
  serialisable types, and the lengths are below \<open>2 ^ 31\<close>, where the \<open>int\<close> counters do not overflow.
\<close>

theorem seri_roundtrip:
  assumes "seri_oks 0 vs" "length (encs vs) < 2 ^ 31"
  shows "\<exists>bs. luaseri_pack vs = Inr bs \<and> luaseri_unpack bs = Done (norms vs)"
proof -
  obtain wb where wb: "pack_from vs wb_init = Inr wb" "wb_ok wb" "wb_bytes wb = encs vs"
    using packsD [OF pack_spec(2) [OF assms(1)] wb_init_ok(1)] by (auto simp: pack_from_def wb_init_ok)
  have "luaseri_unpack (encs vs) = Done (norms vs)"
    unfolding luaseri_unpack_def by (intro unpack_all_spec [OF assms(1)]) simp
  with wb show ?thesis by (simp add: luaseri_pack_def seri_wb)
qed

theorem seri_roundtrip_witness:
  "\<exists>bs. luaseri_pack [LInt (- 5), LTable [LStr [104, 105], LInt 70000] [(LStr [107], LBool True), (LInt 1, LStr [])]] = Inr bs \<and>
     luaseri_unpack bs = Done [LInt (- 5), LTable [LStr [104, 105], LInt 70000] [(LStr [107], LBool True)]]"
  using seri_roundtrip [of "[LInt (- 5), LTable [LStr [104, 105], LInt 70000] [(LStr [107], LBool True), (LInt 1, LStr [])]]"]
  by (simp add: MAX_DEPTH_def enc_int_def enc_string_def enc_head_def Let_def MAX_COOKIE_def)

section \<open>Reading ends\<close>

lemma rbind_Done_iff: "rbind m f = Done y \<longleftrightarrow> (\<exists>x. m = Done x \<and> f x = Done y)"
  by (cases m) (simp_all add: rbind_def)

lemma rbind_OutOfFuel_iff: "rbind m f = OutOfFuel \<longleftrightarrow> m = OutOfFuel \<or> (\<exists>x. m = Done x \<and> f x = OutOfFuel)"
  by (cases m) (simp_all add: rbind_def)

lemmas rbind_iffs = rbind_Done_iff rbind_OutOfFuel_iff

lemma rb_read_iff:
  "rb_read sz rb = Done (p, rb') \<longleftrightarrow> 0 \<le> sz \<and> sz \<le> int (length rb) \<and> p = take (nat sz) rb \<and> rb' = drop (nat sz) rb"
  "rb_read sz rb \<noteq> OutOfFuel"
  by (auto simp: rb_read_def)

lemma get_left:
  "get_integer c rb = Done (x, rb') \<Longrightarrow> length rb' \<le> length rb"
  "get_real rb = Done (y, rb') \<Longrightarrow> length rb' \<le> length rb"
  "get_pointer rb = Done (y, rb') \<Longrightarrow> length rb' \<le> length rb"
  "get_buffer n rb = Done (z, rb') \<Longrightarrow> length rb' \<le> length rb"
  "get_string c rb = Done (z, rb') \<Longrightarrow> length rb' \<le> length rb"
  by (auto simp: get_integer_def get_real_def get_pointer_def get_string_def get_buffer_def rbind_iffs rb_read_iff split: if_splits)

lemma get_array_size_left: "get_array_size c rb = Done (x, rb') \<Longrightarrow> length rb' \<le> length rb"
  by (auto simp: get_array_size_def Let_def rbind_iffs rb_read_iff split: if_splits dest!: get_left(1))

lemma get_fuel:
  "get_integer c rb \<noteq> OutOfFuel" "get_real rb \<noteq> OutOfFuel" "get_pointer rb \<noteq> OutOfFuel"
  "get_buffer n rb \<noteq> OutOfFuel" "get_string c rb \<noteq> OutOfFuel" "get_array_size c rb \<noteq> OutOfFuel"
  by (auto simp: get_integer_def get_real_def get_pointer_def get_string_def get_buffer_def get_array_size_def Let_def
      rbind_iffs rb_read_iff split: if_splits)

text \<open>Reading a value consumes at least a byte of the buffer, the other readers never give bytes back.\<close>

lemma unpack_left:
  "\<forall>v rb'. unpack_one f rb = Done (v, rb') \<longrightarrow> length rb' < length rb"
  "\<forall>v rb'. push_value f t c rb = Done (v, rb') \<longrightarrow> length rb' \<le> length rb"
  "\<forall>vs rb'. unpack_array f n rb = Done (vs, rb') \<longrightarrow> length rb' \<le> length rb"
  "\<forall>ps rb'. unpack_pairs f rb = Done (ps, rb') \<longrightarrow> length rb' \<le> length rb"
proof (induction f arbitrary: rb t c n)
  case 0
  { case 1 show ?case by simp }
  { case 2 show ?case by simp }
  { case 3 show ?case by simp }
  { case 4 show ?case by simp }
next
  case (Suc f)
  { case 1 show ?case using Suc(2) by (fastforce simp: rbind_iffs rb_read_iff) }
  { case 2
    have "length rb' \<le> length rb" if "get_array_size c rb = Done (a, r1)" "unpack_array f a r1 = Done (vs, r2)"
      "unpack_pairs f r2 = Done (ps, rb')" for a r1 vs r2 ps rb'
    proof -
      have "length r2 \<le> length r1" "length rb' \<le> length r2" using Suc(3) [of a r1] Suc(4) [of r2] that by simp_all
      then show ?thesis using get_array_size_left [OF that(1)] by simp
    qed
    then show ?case by (auto simp: rbind_iffs get_left split: if_splits) }
  { case 3
    have "length rb' \<le> length rb" if "unpack_one f rb = Done (v, r1)" "unpack_array f (n - 1) r1 = Done (vs, rb')" for v r1 vs rb'
      using Suc(1) [of rb] Suc(3) [of "n - 1" r1] that by fastforce
    then show ?case by (auto simp: rbind_iffs) }
  { case 4
    have "length rb' \<le> length rb" if "unpack_one f rb = Done (k, r1)" "unpack_one f r1 = Done (v, r2)"
      "unpack_pairs f r2 = Done (ps, rb')" for k r1 v r2 ps rb'
    proof -
      have "length r1 < length rb" "length r2 < length r1" "length rb' \<le> length r2"
        using Suc(1) [of rb] Suc(1) [of r1] Suc(4) [of r2] that by simp_all
      then show ?thesis by simp
    qed
    moreover have "length r1 \<le> length rb" if "unpack_one f rb = Done (LNil, r1)" for r1
      using Suc(1) [of rb] that by (simp add: less_imp_le)
    ultimately show ?case by (auto simp: rbind_iffs split: if_splits) }
qed

lemma unpack_fuel:
  "4 * length rb + 1 \<le> f \<Longrightarrow> unpack_one f rb \<noteq> OutOfFuel"
  "4 * length rb + 4 \<le> f \<Longrightarrow> push_value f t c rb \<noteq> OutOfFuel"
  "4 * length rb + 2 \<le> f \<Longrightarrow> unpack_array f n rb \<noteq> OutOfFuel"
  "4 * length rb + 2 \<le> f \<Longrightarrow> unpack_pairs f rb \<noteq> OutOfFuel"
proof (induction f arbitrary: rb t c n)
  case 0
  { case 1 then show ?case by simp }
  { case 2 then show ?case by simp }
  { case 3 then show ?case by simp }
  { case 4 then show ?case by simp }
next
  case (Suc f)
  { case 1 then show ?case using Suc(2) by (fastforce simp: rbind_iffs rb_read_iff) }
  { case 2
    have "unpack_array f a r1 \<noteq> OutOfFuel" "unpack_array f a r1 = Done (vs, r2) \<Longrightarrow> unpack_pairs f r2 \<noteq> OutOfFuel"
      if "get_array_size c rb = Done (a, r1)" for a r1 vs r2
    proof -
      have "4 * length r1 + 2 \<le> f" using get_array_size_left [OF that] 2 by simp
      then show "unpack_array f a r1 \<noteq> OutOfFuel" "unpack_array f a r1 = Done (vs, r2) \<Longrightarrow> unpack_pairs f r2 \<noteq> OutOfFuel"
        using Suc(3) [of r1 a] Suc(4) [of r2] unpack_left(3) [of f a r1] by fastforce+
    qed
    then show ?case by (auto simp: rbind_iffs get_fuel split: if_splits) }
  { case 3
    have "unpack_one f rb \<noteq> OutOfFuel" using Suc(1) 3 by simp
    moreover have "unpack_array f (n - 1) r1 \<noteq> OutOfFuel" if "unpack_one f rb = Done (v, r1)" for v r1
      using unpack_left(1) [of f rb] that 3 by (intro Suc(3)) fastforce
    ultimately show ?case by (auto simp: rbind_iffs) }
  { case 4
    have one: "unpack_one f rb \<noteq> OutOfFuel" using Suc(1) 4 by simp
    have two: "unpack_one f r1 \<noteq> OutOfFuel" if "unpack_one f rb = Done (k, r1)" for k r1
      using unpack_left(1) [of f rb] that 4 by (intro Suc(1)) fastforce
    have "unpack_pairs f r2 \<noteq> OutOfFuel" if "unpack_one f rb = Done (k, r1)" "unpack_one f r1 = Done (v, r2)" for k r1 v r2
    proof -
      have "length r1 < length rb" "length r2 < length r1" using unpack_left(1) that by blast+
      then show ?thesis using 4 by (intro Suc(4)) simp
    qed
    with one two show ?case by (auto simp: rbind_iffs split: if_splits) }
qed

lemma unpack_all_fuel: "4 * length rb + 2 \<le> f \<Longrightarrow> unpack_all f rb \<noteq> OutOfFuel"
proof (induction f arbitrary: rb)
  case (Suc f)
  have "unpack_one f rb \<noteq> OutOfFuel" using Suc.prems by (intro unpack_fuel(1)) simp
  moreover have "unpack_all f rb' \<noteq> OutOfFuel" if "unpack_one f rb = Done (v, rb')" for v rb'
    using unpack_left(1) [of f rb] that Suc.prems by (intro Suc.IH) fastforce
  ultimately show ?case by (auto simp: rbind_iffs)
qed simp

text \<open>
  C34: \<open>luaseri_unpack\<close> ends on every buffer, well formed or not: it returns the values, raises a Lua error,
  or reaches a string of negative length. Its nesting is not limited by \<open>MAX_DEPTH\<close>; the length of
  the buffer bounds it.
\<close>

theorem unpack_terminates: "luaseri_unpack buffer \<noteq> OutOfFuel"
  unfolding luaseri_unpack_def by (rule unpack_all_fuel) simp

section \<open>Errors\<close>

text \<open>Values of serialisable types, of any depth, and the levels of tables inside a value that packing visits.\<close>

function (sequential) typed :: "lua_value \<Rightarrow> bool"
  and typeds :: "lua_value list \<Rightarrow> bool"
  and typedps :: "nat \<Rightarrow> (lua_value \<times> lua_value) list \<Rightarrow> bool"
where
  "typed (LTable arr hash) \<longleftrightarrow> typeds arr \<and> typedps (length arr) hash"
| "typed (LMeta ps err) \<longleftrightarrow> err = None \<and> typedps 0 ps"
| "typed (LOther t) \<longleftrightarrow> False"
| "typed v \<longleftrightarrow> True"
| "typeds [] \<longleftrightarrow> True"
| "typeds (v # vs) \<longleftrightarrow> typed v \<and> typeds vs"
| "typedps n [] \<longleftrightarrow> True"
| "typedps n ((k, v) # ps) \<longleftrightarrow> (array_key n k \<or> typed k \<and> typed v) \<and> typedps n ps"
  by pat_completeness auto
termination
  by (relation "measure (\<lambda>x. case x of Inl v \<Rightarrow> size v | Inr (Inl vs) \<Rightarrow> size_list size vs
     | Inr (Inr (n, ps)) \<Rightarrow> size_list (size_prod size size) ps)") auto

function (sequential) lvl :: "lua_value \<Rightarrow> nat"
  and lvls :: "lua_value list \<Rightarrow> nat"
  and lvlps :: "nat \<Rightarrow> (lua_value \<times> lua_value) list \<Rightarrow> nat"
where
  "lvl (LTable arr hash) = max (lvls arr) (lvlps (length arr) hash)"
| "lvl (LMeta ps err) = lvlps 0 ps"
| "lvl v = 0"
| "lvls [] = 0"
| "lvls (v # vs) = max (Suc (lvl v)) (lvls vs)"
| "lvlps n [] = 0"
| "lvlps n ((k, v) # ps) = (if array_key n k then lvlps n ps else max (Suc (max (lvl k) (lvl v))) (lvlps n ps))"
  by pat_completeness auto
termination
  by (relation "measure (\<lambda>x. case x of Inl v \<Rightarrow> size v | Inr (Inl vs) \<Rightarrow> size_list size vs
     | Inr (Inr (n, ps)) \<Rightarrow> size_list (size_prod size size) ps)") auto

definition too_deep :: string where
  "too_deep = ''serialize can'' @ [CHR 0x27] @ ''t pack too depth table''"

definition fails_if :: "(write_block \<Rightarrow> string + write_block) \<Rightarrow> bool \<Rightarrow> bool" where
  "fails_if f c \<longleftrightarrow> (\<forall>wb. if c then f wb = Inl too_deep else \<exists>wb'. f wb = Inr wb')"

lemma fails_if_bind:
  "fails_if f c \<Longrightarrow> fails_if g c' \<Longrightarrow> fails_if (\<lambda>wb. case f wb of Inl e \<Rightarrow> Inl e | Inr wb \<Rightarrow> g wb) (c \<or> c')"
  unfolding fails_if_def
proof
  fix wb
  assume f: "\<forall>wb. if c then f wb = Inl too_deep else \<exists>wb'. f wb = Inr wb'"
    and g: "\<forall>wb. if c' then g wb = Inl too_deep else \<exists>wb'. g wb = Inr wb'"
  show "if c \<or> c' then (case f wb of Inl e \<Rightarrow> Inl e | Inr wb \<Rightarrow> g wb) = Inl too_deep
    else \<exists>wb'. (case f wb of Inl e \<Rightarrow> Inl e | Inr wb \<Rightarrow> g wb) = Inr wb'"
    using f [rule_format, of wb] g by (cases c; cases c'; cases "f wb") auto
qed

lemma fails_if_Inr: "fails_if (\<lambda>wb. Inr (h wb)) False"
  by (simp add: fails_if_def)

lemma pack_one_deep: "MAX_DEPTH < d \<Longrightarrow> fails_if (pack_one d v) True"
  by (simp add: fails_if_def pack_one.simps too_deep_def)

lemma less_max: "m < d + max a b \<longleftrightarrow> m < d + a \<or> m < d + b" for m d a b :: nat
  by (auto simp: max_def)

lemma pack_fails:
  "typed v \<Longrightarrow> fails_if (pack_one d v) (MAX_DEPTH < d + lvl v)"
  "typeds vs \<Longrightarrow> d \<le> MAX_DEPTH \<Longrightarrow> fails_if (pack_array (Suc d) vs) (MAX_DEPTH < d + lvls vs)"
  "typedps n ps \<Longrightarrow> d \<le> MAX_DEPTH \<Longrightarrow> fails_if (pack_pairs (Suc d) n ps) (MAX_DEPTH < d + lvlps n ps)"
proof (induction v and vs and n ps arbitrary: d and d and d rule: typed_typeds_typedps.induct)
  case (1 arr hash)
  show ?case
  proof (cases "d \<le> MAX_DEPTH")
    case True
    with 1 have ih: "fails_if (\<lambda>b. pack_array (Suc d) arr (wb_table_head b (length arr))) (MAX_DEPTH < d + lvls arr)"
      "fails_if (pack_pairs (Suc d) (length arr) hash) (MAX_DEPTH < d + lvlps (length arr) hash)" by (simp_all add: fails_if_def)
    from fails_if_bind [OF ih(1) fails_if_bind [OF ih(2) fails_if_Inr [of wb_nil]]] True
    show ?thesis by (simp add: pack_one.simps [abs_def] less_max)
  qed (use pack_one_deep in simp)
next
  case (2 ps err)
  show ?case
  proof (cases "d \<le> MAX_DEPTH")
    case True
    with 2 have ih: "fails_if (\<lambda>b. pack_pairs (Suc d) 0 ps (wb_push b [COMBINE_TYPE TYPE_TABLE 0])) (MAX_DEPTH < d + lvlps 0 ps)"
      by (simp add: fails_if_def)
    from fails_if_bind [OF ih fails_if_Inr [of wb_nil]] True 2
    show ?thesis by (simp add: pack_one.simps [abs_def] cong: sum.case_cong)
  qed (use pack_one_deep in simp)
next
  case (6 v vs)
  then have "fails_if (pack_one (Suc d) v) (MAX_DEPTH < d + Suc (lvl v))" "fails_if (pack_array (Suc d) vs) (MAX_DEPTH < d + lvls vs)"
    using 6(1) [of "Suc d"] by simp_all
  from fails_if_bind [OF this] show ?case by (simp only: lvls.simps less_max) (simp add: fails_if_def)
next
  case (8 n k v ps)
  show ?case
  proof (cases "array_key n k")
    case False
    with 8 have "fails_if (pack_one (Suc d) k) (MAX_DEPTH < d + Suc (lvl k))" "fails_if (pack_one (Suc d) v) (MAX_DEPTH < d + Suc (lvl v))"
      "fails_if (pack_pairs (Suc d) n ps) (MAX_DEPTH < d + lvlps n ps)"
      using 8(1,2) [of "Suc d"] by simp_all
    from fails_if_bind [OF this(1) fails_if_bind [OF this(2,3)]] False show ?thesis
      by (simp only: lvlps.simps less_max max_Suc_Suc [symmetric] if_False disj_assoc) (simp add: fails_if_def)
  qed (use 8 in \<open>simp add: fails_if_def\<close>)
qed (simp_all add: pack_one.simps fails_if_def too_deep_def)

lemma pack_array_0: "typeds vs \<Longrightarrow> fails_if (pack_array 0 vs) (MAX_DEPTH + 1 < lvls vs)"
proof (induction vs)
  case (Cons v vs)
  then have "fails_if (pack_one 0 v) (MAX_DEPTH + 1 < 0 + Suc (lvl v))" "fails_if (pack_array 0 vs) (MAX_DEPTH + 1 < 0 + lvls vs)"
    using pack_fails(1) [of v 0] by simp_all
  from fails_if_bind [OF this] show ?case using less_max [of "MAX_DEPTH + 1" 0] by (simp add: fails_if_def)
qed (simp add: fails_if_def)

text \<open>
  C35: Values of serialisable types are refused for one reason only: \<open>luaseri_pack\<close> raises the error
  about too deep tables exactly when a table is nested more than \<open>MAX_DEPTH\<close> levels inside a value, and
  produces a buffer otherwise. The encoding is shorter than \<open>2 ^ 31\<close> bytes, the range of the counters.
\<close>

theorem pack_too_deep:
  assumes "typeds vs" "length (encs vs) < 2 ^ 31"
  shows "if MAX_DEPTH + 1 < lvls vs then luaseri_pack vs = Inl too_deep else \<exists>bs. luaseri_pack vs = Inr bs"
proof (cases "MAX_DEPTH + 1 < lvls vs")
  case True
  with pack_array_0 [OF assms(1)] have "pack_array 0 vs wb_init = Inl too_deep" by (simp add: fails_if_def)
  with True show ?thesis by (simp add: luaseri_pack_def pack_from_def)
next
  case False
  with pack_array_0 [OF assms(1)] obtain wb where "pack_array 0 vs wb_init = Inr wb" by (fastforce simp: fails_if_def)
  with False show ?thesis by (simp add: luaseri_pack_def pack_from_def)
qed

theorem pack_too_deep_witness:
  "\<exists>bs. luaseri_pack [LTable [LTable [] [(LStr [97], LTable [LNil] [])]] []] = Inr bs"
  using pack_too_deep [of "[LTable [LTable [] [(LStr [97], LTable [LNil] [])]] []]"]
  by (simp add: MAX_DEPTH_def enc_string_def enc_head_def Let_def MAX_COOKIE_def)

text \<open>
  A long string whose stored length is at least \<open>2 ^ 31\<close> is not refused: the length becomes a negative
  \<open>int\<close>, passes the test of \<open>rb_read\<close>, and the read is undefined behaviour, whatever follows.
\<close>

lemma unpack_negative_string:
  assumes "2 ^ 31 \<le> n" "n < 2 ^ 32"
  shows "luaseri_unpack (COMBINE_TYPE TYPE_LONG_STRING 4 # le 4 n @ rest) = Undef"
proof -
  have "rb_read 4 (le 4 n @ rest) = Done (le 4 n, rest)" using rb_read_append [of "le 4 n" 4] by simp
  moreover have "le_val (le 4 n) = n" using assms by (simp add: le_val_le)
  moreover have "to_int32 n < 0"
  proof -
    have "(n + 2147483648) mod 4294967296 = (n - 2147483648) mod 4294967296" using mod_add_self2 [of "n - 2147483648" 4294967296] by (simp add: add.commute)
    also have "\<dots> = n - 2147483648" using assms by (intro mod_pos_pos_trivial) simp_all
    finally show ?thesis using assms by (simp add: to_int32_def)
  qed
  ultimately have "get_string 4 (le 4 n @ rest) = Undef"
    by (simp add: get_string_def get_buffer_def rb_read_def [of "to_int32 n"] rbind_def)
  then have "unpack_one (Suc (Suc f)) (COMBINE_TYPE TYPE_LONG_STRING 4 # le 4 n @ rest) = Undef" for f
    by (simp add: unpack_tag seri_consts del: unpack_one.simps)
  then show ?thesis by (simp add: luaseri_unpack_def rbind_def numeral_eq_Suc del: unpack_one.simps)
qed

end
