(* ===== verification/Crypt_Text.thy ===== *)
theory Crypt_Text
  imports Skynet_Prelude
begin

text \<open>
  The text codecs of \<^verbatim>\<open>lualib-src/lua-crypt.c\<close>: hexadecimal, base64 and the cyclic exclusive or. A Lua
  string is its list of bytes and the errors are values. Loops over an index become recursion over the
  unread bytes. Sizes and indices are the \<open>int\<close> of the code: where one overflows, where a write leaves the
  buffer or where the result has bytes that were never written, the result is \<open>None\<close>.
\<close>

unbundle bit_operations_syntax

section \<open>Definitions\<close>

datatype text_error = InvalidHexSize nat | InvalidHex | InvalidBase64 | EmptyXor | StringTooBig

definition bytes_of :: "string \<Rightarrow> u8 list" where
  "bytes_of s = map of_char s"

definition SMALL_CHUNK :: nat where
  "SMALL_CHUNK = 256"

text \<open>The room behind \<open>buffer\<close>: a userdata of the given size when it is larger than the array on the stack.\<close>

definition buffer_room :: "int \<Rightarrow> nat" where
  "buffer_room sz = (if sz > int SMALL_CHUNK then nat sz else SMALL_CHUNK)"

definition hex_digits :: "u8 list" where
  "hex_digits = bytes_of ''0123456789abcdef''"

fun tohex_loop :: "u8 list \<Rightarrow> u8 list" where
  "tohex_loop [] = []"
| "tohex_loop (c # text) = hex_digits ! unat (drop_bit 4 c) # hex_digits ! unat (c AND 0xf) # tohex_loop text"

text \<open>The offset \<open>i*2\<close> overflows for \<open>i = 2^30\<close>.\<close>

definition ltohex :: "u8 list \<Rightarrow> u8 list option" where
  "ltohex text = (if int (length text) > 2 ^ 30 then None else Some (tohex_loop text))"

text \<open>The macro \<open>HEX\<close>: a byte that is no decimal digit counts from the letter \<open>a\<close>, in arithmetic modulo 256.\<close>

definition HEX :: "u8 \<Rightarrow> u8" where
  "HEX c = (if c \<ge> of_char CHR ''0'' \<and> c \<le> of_char CHR ''9'' then c - of_char CHR ''0'' else c - of_char CHR ''a'' + 10)"

fun fromhex_loop :: "u8 list \<Rightarrow> text_error + u8 list" where
  "fromhex_loop (c # d # text) =
     (let hi = HEX c; low = HEX d in
      if hi > 16 \<or> low > 16 then Inl InvalidHex
      else (case fromhex_loop text of Inl e \<Rightarrow> Inl e | Inr buffer \<Rightarrow> Inr ((push_bit 4 hi OR low) # buffer)))"
| "fromhex_loop _ = Inr []"

text \<open>In a longer text the index overflows, unless an error ends the loop before.\<close>

definition lfromhex :: "u8 list \<Rightarrow> (text_error + u8 list) option" where
  "lfromhex text =
     (if odd (length text) then Some (Inl (InvalidHexSize (length text)))
      else if int (length text) > INT_MAX then
        (case fromhex_loop (take (2 ^ 31) text) of Inl e \<Rightarrow> Some (Inl e) | Inr _ \<Rightarrow> None)
      else Some (fromhex_loop text))"

definition encoding :: "u8 list" where
  "encoding = bytes_of ''ABCDEFGHIJKLMNOPQRSTUVWXYZabcdefghijklmnopqrstuvwxyz0123456789+/''"

definition enc64 :: "u32 \<Rightarrow> u8" where
  "enc64 v = encoding ! unat v"

definition pad_byte :: u8 where
  "pad_byte = of_char CHR ''=''"

text \<open>The loop over the complete groups of three bytes, and the switch on the rest.\<close>

fun b64_groups :: "u8 list \<Rightarrow> u8 list" where
  "b64_groups (a # b # c # text) =
     (let v = push_bit 16 (ucast a) OR push_bit 8 (ucast b) OR ucast c :: u32 in
      [enc64 (drop_bit 18 v), enc64 (drop_bit 12 v AND 0x3f), enc64 (drop_bit 6 v AND 0x3f), enc64 (v AND 0x3f)] @
      b64_groups text)"
| "b64_groups _ = []"

definition b64_tail :: "int \<Rightarrow> u8 list \<Rightarrow> u8 list" where
  "b64_tail padding text =
     (if padding = 1 then
        (let v = ucast (text ! 0) :: u32 in [enc64 (drop_bit 2 v), enc64 (push_bit 4 (v AND 3)), pad_byte, pad_byte])
      else if padding = 2 then
        (let v = push_bit 8 (ucast (text ! 0)) OR ucast (text ! 1) :: u32 in
         [enc64 (drop_bit 10 v), enc64 (drop_bit 4 v AND 0x3f), enc64 (push_bit 2 (v AND 0xf)), pad_byte])
      else [])"

text \<open>
  The size of the result, the bound of the loop and the number of bytes in the last group are truncated to
  \<open>int\<close>. A negative size selects the small buffer and, at the end, is a size that Lua refuses.
\<close>

definition lb64encode :: "u8 list \<Rightarrow> (text_error + u8 list) option" where
  "lb64encode text =
     (let sz = length text; encode_sz = c_int ((sz + 2) div 3 * 4) in
      if c_int sz - 2 < INT_MIN then None
      else
        (let n = nat (c_int sz); i = 3 * (n div 3);
             buffer = b64_groups (take n text) @ b64_tail (c_int (sz - i)) (drop i text)
         in if length buffer > buffer_room encode_sz then None
            else if encode_sz < 0 then Some (Inl StringTooBig)
            else if nat encode_sz > length buffer then None
            else Some (Inr (take (nat encode_sz) buffer))))"

definition decoding :: "int list" where
  "decoding = [62,-1,-1,-1,63,52,53,54,55,56,57,58,59,60,61,-1,-1,-1,-2,-1,-1,-1,0,1,2,3,4,5,6,7,8,9,10,11,12,13,14,15,
     16,17,18,19,20,21,22,23,24,25,-1,-1,-1,-1,-1,-1,26,27,28,29,30,31,32,33,34,35,36,37,38,39,40,41,42,43,44,45,46,47,48,
     49,50,51]"

definition b64index :: "u8 \<Rightarrow> int" where
  "b64index c =
     (if c < 43 then -1
      else let c = c - 43 in if unat c \<ge> length decoding then -1 else decoding ! unat c)"

text \<open>
  The inner loop: the next codes, \<open>-2\<close> for an equal sign or the end of the text, and the number of steps of
  the index; other bytes are skipped.
\<close>

fun next_codes :: "nat \<Rightarrow> u8 list \<Rightarrow> int list \<times> nat \<times> u8 list" where
  "next_codes 0 text = ([], 0, text)"
| "next_codes (Suc j) [] = (let (c, n, text) = next_codes j [] in (-2 # c, n + 1, text))"
| "next_codes (Suc j) (x # text) =
     (if b64index x = -1 then (let (c, n, text) = next_codes (Suc j) text in (c, n + 1, text))
      else let (c, n, text) = next_codes j text in (b64index x # c, n + 1, text))"

lemma next_codes_left: "length (snd (snd (next_codes j text))) \<le> length text"
  by (induction j "text" rule: next_codes.induct) (auto simp: Let_def split: prod.splits)

lemma next_codes_less: "length (snd (snd (next_codes (Suc j) (x # text)))) < length (x # text)"
proof (induction "text" arbitrary: x)
  case Nil
  then show ?case using next_codes_left [of j "[]"] next_codes_left [of "Suc j" "[]"] by (simp add: Let_def split: prod.splits)
next
  case (Cons y ys)
  show ?case using Cons.IH [of y] next_codes_left [of j "y # ys"]
    by (subst next_codes.simps(3)) (auto simp: Let_def case_prod_beta simp del: next_codes.simps)
qed

text \<open>The switch on the number of missing codes.\<close>

definition group_bytes :: "int list \<Rightarrow> text_error + u8 list" where
  "group_bytes c =
     (let u = (\<lambda>i. word_of_int (c ! i) :: u32); padding = count_list c (-2) in
      if padding = 0 then
        (let v = push_bit 18 (u 0) OR push_bit 12 (u 1) OR push_bit 6 (u 2) OR u 3 in
         Inr [ucast (drop_bit 16 v), ucast (drop_bit 8 v AND 0xff), ucast (v AND 0xff)])
      else if padding = 1 then
        (if c ! 3 \<noteq> -2 \<or> u 2 AND 3 \<noteq> 0 then Inl InvalidBase64
         else let v = push_bit 10 (u 0) OR push_bit 4 (u 1) OR drop_bit 2 (u 2) in
              Inr [ucast (drop_bit 8 v), ucast (v AND 0xff)])
      else if padding = 2 then
        (if c ! 3 \<noteq> -2 \<or> c ! 2 \<noteq> -2 \<or> u 1 AND 0xf \<noteq> 0 then Inl InvalidBase64
         else let v = push_bit 2 (u 0) OR drop_bit 4 (u 1) in Inr [ucast v])
      else Inl InvalidBase64)"

text \<open>The outer loop, with the room of the buffer, the index and the number of bytes written.\<close>

function b64decode_loop :: "nat \<Rightarrow> nat \<Rightarrow> nat \<Rightarrow> u8 list \<Rightarrow> (text_error + u8 list) option" where
  "b64decode_loop room i written text =
     (if text = [] then Some (Inr [])
      else
        (let (c, n, rest) = next_codes 4 text in
         if int (i + n) > INT_MAX then None
         else
           (case group_bytes c of
              Inl e \<Rightarrow> Some (Inl e)
            | Inr out \<Rightarrow>
                if written + length out > room then None
                else
                  (case b64decode_loop room (i + n) (written + length out) rest of
                     None \<Rightarrow> None
                   | Some (Inl e) \<Rightarrow> Some (Inl e)
                   | Some (Inr buffer) \<Rightarrow> Some (Inr (out @ buffer))))))"
  by pat_completeness auto
termination
proof (relation "measure (\<lambda>(room, i, written, text). length text)", goal_cases)
  case (2 room i written ts x c y n rest out)
  then obtain z zs where "ts = z # zs" by (cases ts) simp_all
  moreover have "next_codes 4 = next_codes (Suc 3)" by (rule arg_cong) simp
  ultimately have "length (snd (snd (next_codes 4 ts))) < length ts" using next_codes_less [of 3 z zs] by (simp only:)
  moreover have "rest = snd (snd (next_codes 4 ts))" using 2(2-4) by (metis snd_conv)
  ultimately show ?case by simp
qed simp

declare b64decode_loop.simps [simp del]

definition lb64decode :: "u8 list \<Rightarrow> (text_error + u8 list) option" where
  "lb64decode text =
     (let decode_sz = c_int ((length text + 3) div 4 * 3) in b64decode_loop (buffer_room decode_sz) 0 0 text)"

definition lxor_str :: "u8 list \<Rightarrow> u8 list \<Rightarrow> (text_error + u8 list) option" where
  "lxor_str s1 s2 =
     (if length s2 = 0 then Some (Inl EmptyXor)
      else if int (length s1) > INT_MAX then None
      else Some (Inr (map (\<lambda>i. s1 ! i XOR s2 ! (i mod length s2)) [0..<length s1])))"

section \<open>Hexadecimal\<close>

lemma hex_digit_value: "i < 16 \<Longrightarrow> HEX (hex_digits ! i) = of_nat i"
proof -
  have "\<forall>i \<in> set [0..<16]. HEX (hex_digits ! i) = of_nat i"
    by code_simp
  then show "i < 16 \<Longrightarrow> ?thesis" by simp
qed


lemma nibbles: "push_bit 4 (drop_bit 4 c) OR (c AND 0xf) = c" for c :: u8
proof (rule bit_word_eqI)
  fix n assume n: "n < LENGTH(8)"
  have m: "(0xf :: u8) = mask 4" by (simp add: mask_eq_exp_minus_1)
  show "bit (push_bit 4 (drop_bit 4 c) OR (c AND 0xf)) n = bit c n"
    unfolding m using n by (cases "n < 4") (auto simp: bit_simps)
qed

lemma nibble_less: "unat (drop_bit 4 c) < 16" "unat (c AND 0xf) < 16" for c :: u8
proof -
  have "unat c < 256" using unsigned_less [of c, where 'a = nat] by simp
  then show "unat (drop_bit 4 c) < 16" by (simp add: unat_drop_bit_eq drop_bit_eq_div unat_div)
  have "c AND 0xf \<le> 0xf" by (rule word_and_le1)
  then show "unat (c AND 0xf) < 16" by (simp add: word_le_nat_alt)
qed

lemma fromhex_tohex: "fromhex_loop (tohex_loop str) = Inr str"
proof (induction str)
  case (Cons c str)
  have "HEX (hex_digits ! unat (drop_bit 4 c)) = drop_bit 4 c" "HEX (hex_digits ! unat (c AND 0xf)) = c AND 0xf"
    using hex_digit_value nibble_less [of c] by simp_all
  moreover have "drop_bit 4 c \<le> 16" "c AND 0xf \<le> 16" using nibble_less [of c] by (simp_all add: word_le_nat_alt)
  ultimately show ?case using Cons nibbles [of c] by (simp add: Let_def not_less)
qed simp

lemma length_tohex: "length (tohex_loop str) = 2 * length str"
  by (induction str) simp_all

text \<open>Decoding the hexadecimal text of a string of fewer than \<open>2^30\<close> bytes gives the string back.\<close>

lemma hex_roundtrip:
  assumes "length str < 2 ^ 30"
  shows "\<exists>t. ltohex str = Some t \<and> lfromhex t = Some (Inr str)"
  using assms by (simp add: ltohex_def lfromhex_def fromhex_tohex length_tohex INT_MAX_def)

text \<open>
  The test for invalid text is too weak: it accepts the bytes from \<open>W\<close> to the one before \<open>a\<close> as the digits
  \<open>0\<close> to \<open>9\<close>, and the letter \<open>g\<close> as a digit \<open>16\<close>.
\<close>

lemma hex_accepts_invalid:
  "lfromhex (bytes_of ''WX'') = Some (Inr [0x01])" "lfromhex (bytes_of ''0g'') = Some (Inr [0x10])" "lfromhex (bytes_of ''gg'') = Some (Inr [0x10])"
  by code_simp+

lemma enc64_index: "i < 64 \<Longrightarrow> b64index (encoding ! i) = int i"
proof -
  have "\<forall>i \<in> set [0..<64]. b64index (encoding ! i) = int i"
    by code_simp
  then show "i < 64 \<Longrightarrow> ?thesis" by simp
qed


section \<open>Base64\<close>

lemma encoding_no_pad: "b64index pad_byte = -2"
  by code_simp

lemma next_codes_four:
  assumes "b64index a \<noteq> -1" "b64index b \<noteq> -1" "b64index c \<noteq> -1" "b64index d \<noteq> -1"
  shows "next_codes 4 (a # b # c # d # str) = ([b64index a, b64index b, b64index c, b64index d], 4, str)"
proof -
  have "next_codes 4 = next_codes (Suc (Suc (Suc (Suc 0))))" by (rule arg_cong) simp
  then show ?thesis using assms by simp
qed

text \<open>A complete group in a text that fits.\<close>

lemma decode_group:
  assumes "b64index a = c0" "b64index b = c1" "b64index c = c2" "b64index d = c3" "-1 \<notin> {c0, c1, c2, c3}"
    "group_bytes [c0, c1, c2, c3] = Inr out"
    "int (i + 4) \<le> INT_MAX" "w = written + length out" "w \<le> room"
    "b64decode_loop room (i + 4) w str = Some (Inr buffer)"
  shows "b64decode_loop room i written (a # b # c # d # str) = Some (Inr (out @ buffer))"
  using assms by (subst b64decode_loop.simps) (simp add: next_codes_four)

lemma word_of_index: "unat v < 64 \<Longrightarrow> b64index (enc64 v) = int (unat v)" for v :: u32
  by (simp add: enc64_def enc64_index)

lemma unat_code: "int (unat v) \<noteq> -1" for v :: u32
  by linarith

lemma masks: "(0x3f :: u32) = mask 6" "(0xff :: u32) = mask 8" "(0xf :: u32) = mask 4" "(3 :: u32) = mask 2"
  by (simp_all add: mask_eq_exp_minus_1)

lemma code_less: "v AND mask 6 = v \<Longrightarrow> unat v < 64" for v :: u32
proof -
  assume "v AND mask 6 = v"
  moreover have "v AND mask 6 \<le> 0x3f" unfolding masks(1) [symmetric] by (rule word_and_le1)
  ultimately show ?thesis by (simp add: word_le_nat_alt)
qed

lemma code_lessI: "(\<And>n. n < 32 \<Longrightarrow> bit v n \<Longrightarrow> n < 6) \<Longrightarrow> unat v < 64" for v :: u32
  by (rule code_less, rule bit_word_eqI) (auto simp: bit_simps)

lemma sextets:
  "push_bit 18 (drop_bit 18 v) OR push_bit 12 (drop_bit 12 v AND mask 6) OR push_bit 6 (drop_bit 6 v AND mask 6) OR (v AND mask 6) = v"
  "push_bit 10 (drop_bit 10 v) OR push_bit 4 (drop_bit 4 v AND mask 6) OR drop_bit 2 (push_bit 2 (v AND mask 4)) = v"
  "push_bit 2 (drop_bit 2 v) OR drop_bit 4 (push_bit 4 (v AND mask 2)) = v" for v :: u32
proof -
  have "bit (push_bit 18 (drop_bit 18 v) OR push_bit 12 (drop_bit 12 v AND mask 6) OR push_bit 6 (drop_bit 6 v AND mask 6) OR (v AND mask 6)) n = bit v n"
    if "n < 32" for n
    using that by (cases "n < 6"; cases "n < 12"; cases "n < 18") (auto simp: bit_simps)
  then show "push_bit 18 (drop_bit 18 v) OR push_bit 12 (drop_bit 12 v AND mask 6) OR push_bit 6 (drop_bit 6 v AND mask 6) OR (v AND mask 6) = v"
    by (intro bit_word_eqI) simp
  have "bit (push_bit 10 (drop_bit 10 v) OR push_bit 4 (drop_bit 4 v AND mask 6) OR drop_bit 2 (push_bit 2 (v AND mask 4))) n = bit v n"
    if "n < 32" for n
    using that by (cases "n < 4"; cases "n < 10") (auto simp: bit_simps)
  then show "push_bit 10 (drop_bit 10 v) OR push_bit 4 (drop_bit 4 v AND mask 6) OR drop_bit 2 (push_bit 2 (v AND mask 4)) = v"
    by (intro bit_word_eqI) simp
  have "bit (push_bit 2 (drop_bit 2 v) OR drop_bit 4 (push_bit 4 (v AND mask 2))) n = bit v n" if "n < 32" for n
    using that by (cases "n < 2") (auto simp: bit_simps simp flip: Suc_diff_le)
  then show "push_bit 2 (drop_bit 2 v) OR drop_bit 4 (push_bit 4 (v AND mask 2)) = v"
    by (intro bit_word_eqI) simp
qed

lemma uint_not_pad: "uint x \<noteq> -2" for x :: u32
  using uint_ge_0 [of x] by linarith

text \<open>The switch, on codes given as words.\<close>

lemma group_bytes_words:
  "group_bytes [int (unat x), int (unat y), int (unat z), int (unat w)] =
     (let v = push_bit 18 x OR push_bit 12 y OR push_bit 6 z OR w in Inr [ucast (drop_bit 16 v), ucast (drop_bit 8 v AND mask 8), ucast (v AND mask 8)])"
  "z AND mask 2 = 0 \<Longrightarrow> group_bytes [int (unat x), int (unat y), int (unat z), -2] =
     (let v = push_bit 10 x OR push_bit 4 y OR drop_bit 2 z in Inr [ucast (drop_bit 8 v), ucast (v AND mask 8)])"
  "y AND mask 4 = 0 \<Longrightarrow> group_bytes [int (unat x), int (unat y), -2, -2] = Inr [ucast (push_bit 2 x OR drop_bit 4 y)]"
  for x y z w :: u32
  by (simp_all add: group_bytes_def Let_def masks uint_not_pad)

text \<open>Groups of three, two and one bytes.\<close>

lemma group3:
  fixes a b c :: u8
  defines "v \<equiv> push_bit 16 (ucast a) OR push_bit 8 (ucast b) OR ucast c :: u32"
  assumes fits: "int (i + 4) \<le> INT_MAX" "written + 3 \<le> room"
    and rest: "b64decode_loop room (i + 4) (written + 3) str = Some (Inr buffer)"
  shows "b64decode_loop room i written
    (enc64 (drop_bit 18 v) # enc64 (drop_bit 12 v AND 0x3f) # enc64 (drop_bit 6 v AND 0x3f) # enc64 (v AND 0x3f) # str) =
    Some (Inr (a # b # c # buffer))"
proof -
  have v: "bit v n \<longleftrightarrow> n < 8 \<and> bit c n \<or> 8 \<le> n \<and> n < 16 \<and> bit b (n - 8) \<or> 16 \<le> n \<and> n < 24 \<and> bit a (n - 16)" for n
    by (auto simp: v_def bit_simps dest: bit_imp_le_length)
  have less: "unat (drop_bit 18 v) < 64" "unat (drop_bit 12 v AND mask 6) < 64" "unat (drop_bit 6 v AND mask 6) < 64" "unat (v AND mask 6) < 64"
    by (rule code_lessI, auto simp: bit_simps v)+
  have "ucast (drop_bit 16 v) = a" "ucast (drop_bit 8 v AND mask 8) = b" "ucast (v AND mask 8) = c"
    by (rule bit_word_eqI, auto simp: bit_simps v)+
  then have "group_bytes [int (unat (drop_bit 18 v)), int (unat (drop_bit 12 v AND mask 6)), int (unat (drop_bit 6 v AND mask 6)), int (unat (v AND mask 6))] = Inr [a, b, c]"
    by (simp only: group_bytes_words sextets Let_def)
  from decode_group [OF less [THEN word_of_index] _ this fits(1) _ fits(2) rest] show ?thesis
    unfolding masks by (simp add: unat_code del: of_nat_unat)
qed


lemma group2:
  fixes a b :: u8
  defines "v \<equiv> push_bit 8 (ucast a) OR ucast b :: u32"
  assumes fits: "int (i + 4) \<le> INT_MAX" "written + 2 \<le> room"
  shows "b64decode_loop room i written
    [enc64 (drop_bit 10 v), enc64 (drop_bit 4 v AND 0x3f), enc64 (push_bit 2 (v AND 0xf)), pad_byte] = Some (Inr [a, b])"
proof -
  have v: "bit v n \<longleftrightarrow> n < 8 \<and> bit b n \<or> 8 \<le> n \<and> n < 16 \<and> bit a (n - 8)" for n
    by (auto simp: v_def bit_simps dest: bit_imp_le_length)
  have less: "unat (drop_bit 10 v) < 64" "unat (drop_bit 4 v AND mask 6) < 64" "unat (push_bit 2 (v AND mask 4)) < 64"
    by (rule code_lessI, auto simp: bit_simps v)+
  have "ucast (drop_bit 8 v) = a" "ucast (v AND mask 8) = b"
    by (rule bit_word_eqI, auto simp: bit_simps v)+
  moreover have "push_bit 2 (v AND mask 4) AND mask 2 = 0" by (rule bit_word_eqI) (auto simp: bit_simps)
  ultimately have "group_bytes [int (unat (drop_bit 10 v)), int (unat (drop_bit 4 v AND mask 6)), int (unat (push_bit 2 (v AND mask 4))), -2] = Inr [a, b]"
    by (simp only: group_bytes_words sextets Let_def)
  from decode_group [OF less [THEN word_of_index] encoding_no_pad _ this fits(1) _ fits(2), where buffer = "[]" and str = "[]"] show ?thesis
    unfolding masks by (simp add: unat_code b64decode_loop.simps [of _ _ _ "[]"] del: of_nat_unat)
qed

lemma group1:
  fixes a :: u8
  defines "v \<equiv> ucast a :: u32"
  assumes fits: "int (i + 4) \<le> INT_MAX" "written + 1 \<le> room"
  shows "b64decode_loop room i written [enc64 (drop_bit 2 v), enc64 (push_bit 4 (v AND 3)), pad_byte, pad_byte] = Some (Inr [a])"
proof -
  have v: "bit v n \<longleftrightarrow> n < 8 \<and> bit a n" for n
    by (auto simp: v_def bit_simps dest: bit_imp_le_length)
  have less: "unat (drop_bit 2 v) < 64" "unat (push_bit 4 (v AND mask 2)) < 64"
    by (rule code_lessI, auto simp: bit_simps v)+
  have "ucast v = a"
    by (rule bit_word_eqI, auto simp: bit_simps v)
  moreover have "push_bit 4 (v AND mask 2) AND mask 4 = 0" by (rule bit_word_eqI) (auto simp: bit_simps)
  ultimately have "group_bytes [int (unat (drop_bit 2 v)), int (unat (push_bit 4 (v AND mask 2))), -2, -2] = Inr [a]"
    by (simp only: group_bytes_words sextets Let_def)
  from decode_group [OF less [THEN word_of_index] encoding_no_pad encoding_no_pad _ this fits(1) _ fits(2), where buffer = "[]" and str = "[]"] show ?thesis
    unfolding masks by (simp add: unat_code b64decode_loop.simps [of _ _ _ "[]"] del: of_nat_unat)
qed

text \<open>The text that the encoder writes: the groups, and the rest of at most two bytes.\<close>

definition b64_text :: "u8 list \<Rightarrow> u8 list" where
  "b64_text str = b64_groups str @ b64_tail (int (length str mod 3)) (drop (3 * (length str div 3)) str)"

lemma b64_text_Cons: "b64_text (a # b # c # str) = b64_groups [a, b, c] @ b64_text str"
proof -
  have "length (a # b # c # str) = length str + 3" by simp
  moreover have "drop (3 * ((length str + 3) div 3)) (a # b # c # str) = drop (3 * (length str div 3)) str"
    using drop_drop [of "3 * (length str div 3)" 3 "a # b # c # str"] div_add_self2 [of "3 :: nat" "length str"]
    by (simp add: add.commute)
  moreover have "b64_groups (a # b # c # str) = b64_groups [a, b, c] @ b64_groups str" by (simp add: Let_def)
  ultimately show ?thesis by (simp only: b64_text_def mod_add_self2 append_assoc)
qed

lemma length_b64_text: "length (b64_text str) = (length str + 2) div 3 * 4"
proof (induction str rule: b64_groups.induct)
  case (1 a b c str)
  have "(length (a # b # c # str) + 2) div 3 = Suc ((length str + 2) div 3)"
    using div_add_self2 [of "3 :: nat" "length str + 2"] by simp
  then show ?case using 1 by (simp add: b64_text_Cons Let_def)
qed (simp_all add: b64_text_def b64_tail_def Let_def)

lemma decode_text:
  assumes "int (i + length (b64_text str)) \<le> INT_MAX" "written + length str \<le> room"
  shows "b64decode_loop room i written (b64_text str) = Some (Inr str)"
  using assms
proof (induction str arbitrary: i written rule: b64_groups.induct)
  case (1 a b c str)
  then have "b64decode_loop room (i + 4) (written + 3) (b64_text str) = Some (Inr str)"
    by (simp add: b64_text_Cons Let_def)
  then show ?case using group3 [of i written room "b64_text str" str a b c] 1(2,3) by (simp add: b64_text_Cons Let_def)
qed (use group1 group2 in \<open>simp_all add: b64_text_def b64_tail_def Let_def b64decode_loop.simps [of _ _ _ "[]"]\<close>)

lemma encode_text:
  assumes "length str < 3 * 2 ^ 29 - 2"
  shows "lb64encode str = Some (Inr (b64_text str))"
proof -
  define n where "n = (length str + 2) div 3 * 4"
  have "n < 2 ^ 31" using assms by (simp add: n_def)
  then have n: "c_int n = int n" by (rule c_int_small)
  have sz: "c_int (length str) = int (length str)" "c_int (length str - 3 * (length str div 3)) = int (length str mod 3)"
    using assms by (simp_all add: c_int_small minus_mult_div_eq_mod)
  have "\<not> int (length str) - 2 < INT_MIN" by (simp add: INT_MIN_def)
  moreover have "length (b64_text str) = n" by (simp add: length_b64_text n_def)
  moreover have "take (length str) str = str" by simp
  ultimately show ?thesis
    by (simp only: lb64encode_def Let_def n_def [symmetric] n sz nat_int if_False b64_text_def [symmetric])
      (simp add: buffer_room_def)
qed

text \<open>
  A longer string, as long as its own length is still an \<open>int\<close>: the size of the result is negative, so the
  encoder writes it to the array on the stack and overruns it.
\<close>

lemma b64_encode_overrun:
  assumes "3 * 2 ^ 29 - 2 \<le> length str" "length str < 2 ^ 31"
  shows "lb64encode str = None"
proof -
  define n where "n = (length str + 2) div 3 * 4"
  have "2 ^ 31 \<le> n" "n < 2 ^ 32" using assms by (simp_all add: n_def)
  then have "(int n - 2 ^ 31) mod 2 ^ 32 = int n - 2 ^ 31" by (intro mod_pos_pos_trivial) simp_all
  moreover have "(int n + 2 ^ 31) mod 2 ^ 32 = (int n - 2 ^ 31) mod 2 ^ 32"
    using mod_add_self2 [of "int n - 2 ^ 31" "2 ^ 32"] by (simp add: add.commute)
  ultimately have n: "c_int n = int n - 2 ^ 32" by (simp add: c_int_def)
  have sz: "c_int (length str) = int (length str)" "c_int (length str - 3 * (length str div 3)) = int (length str mod 3)"
    using assms by (simp_all add: c_int_small minus_mult_div_eq_mod)
  have "\<not> int (length str) - 2 < INT_MIN" by (simp add: INT_MIN_def)
  moreover have "length (b64_text str) = n" by (simp add: length_b64_text n_def)
  moreover have "take (length str) str = str" by simp
  moreover have "buffer_room (int n - 2 ^ 32) < n" using \<open>2 ^ 31 \<le> n\<close> \<open>n < 2 ^ 32\<close> by (simp add: buffer_room_def SMALL_CHUNK_def)
  ultimately show ?thesis
    by (simp only: lb64encode_def Let_def n_def [symmetric] n sz nat_int if_False if_True b64_text_def [symmetric])
qed

text \<open>
  C38: Base64 round trip: \<open>lb64encode\<close> encodes every string of fewer than \<open>3 * 2^29 - 2\<close> bytes, with whatever
  number of equal signs at its end, and decoding the result gives the string back. (For a longer one the size
  of the result is no \<open>int\<close>.)
\<close>

theorem b64_roundtrip:
  assumes "length str < 3 * 2 ^ 29 - 2"
  shows "\<exists>c. lb64encode str = Some (Inr c) \<and> lb64decode c = Some (Inr str)"
proof (intro exI conjI)
  let ?c = "b64_text str"
  show "lb64encode str = Some (Inr ?c)" by (rule encode_text [OF assms])
  have k: "(length ?c + 3) div 4 * 3 = (length str + 2) div 3 * 3" by (simp add: length_b64_text)
  then have "c_int ((length ?c + 3) div 4 * 3) = int ((length str + 2) div 3 * 3)" using assms by (simp only: k) (rule c_int_small, simp)
  moreover have "length str \<le> (length str + 2) div 3 * 3" by linarith
  ultimately have "length str \<le> buffer_room (c_int ((length ?c + 3) div 4 * 3))"
    by (simp only: buffer_room_def SMALL_CHUNK_def split: if_split) linarith
  moreover have "int (length ?c) \<le> INT_MAX" using assms by (simp add: length_b64_text INT_MAX_def)
  ultimately show "lb64decode ?c = Some (Inr str)" by (simp add: lb64decode_def Let_def decode_text)
qed

theorem b64_roundtrip_witness:
  "\<exists>c. lb64encode [104, 101, 108, 108, 111] = Some (Inr c) \<and> lb64decode c = Some (Inr [104, 101, 108, 108, 111])"
  by (rule b64_roundtrip) simp

section \<open>Exclusive or\<close>

text \<open>Applying \<open>lxor_str\<close> twice with the same nonempty key gives the string back.\<close>

lemma xor_str_involution:
  assumes "key \<noteq> []" "int (length str) \<le> INT_MAX"
  shows "\<exists>s. lxor_str str key = Some (Inr s) \<and> length s = length str \<and> lxor_str s key = Some (Inr str)"
  using assms by (auto simp: lxor_str_def xor.assoc intro: nth_equalityI)

end
