(* ===== verification/Crypt_Des.thy ===== *)
theory Crypt_Des
  imports Skynet_Prelude
begin

text \<open>
  DES and its use in \<^verbatim>\<open>lualib-src/lua-crypt.c\<close>: the S-boxes and the key schedule as the code has them, the
  block function, the two padding modes and the functions \<open>ldesencode\<close> and \<open>ldesdecode\<close>. The interface
  between the block cipher, the padding and the encryption of a text are locales; the correctness of
  the whole is proved in them, once for both padding modes.
\<close>

unbundle bit_operations_syntax

section \<open>Tables\<close>

definition SB1 :: "u32 list" where
  "SB1 =
    [0x01010400, 0x00000000, 0x00010000, 0x01010404, 0x01010004, 0x00010404, 0x00000004, 0x00010000,
     0x00000400, 0x01010400, 0x01010404, 0x00000400, 0x01000404, 0x01010004, 0x01000000, 0x00000004,
     0x00000404, 0x01000400, 0x01000400, 0x00010400, 0x00010400, 0x01010000, 0x01010000, 0x01000404,
     0x00010004, 0x01000004, 0x01000004, 0x00010004, 0x00000000, 0x00000404, 0x00010404, 0x01000000,
     0x00010000, 0x01010404, 0x00000004, 0x01010000, 0x01010400, 0x01000000, 0x01000000, 0x00000400,
     0x01010004, 0x00010000, 0x00010400, 0x01000004, 0x00000400, 0x00000004, 0x01000404, 0x00010404,
     0x01010404, 0x00010004, 0x01010000, 0x01000404, 0x01000004, 0x00000404, 0x00010404, 0x01010400,
     0x00000404, 0x01000400, 0x01000400, 0x00000000, 0x00010004, 0x00010400, 0x00000000, 0x01010004]"

definition SB2 :: "u32 list" where
  "SB2 =
    [0x80108020, 0x80008000, 0x00008000, 0x00108020, 0x00100000, 0x00000020, 0x80100020, 0x80008020,
     0x80000020, 0x80108020, 0x80108000, 0x80000000, 0x80008000, 0x00100000, 0x00000020, 0x80100020,
     0x00108000, 0x00100020, 0x80008020, 0x00000000, 0x80000000, 0x00008000, 0x00108020, 0x80100000,
     0x00100020, 0x80000020, 0x00000000, 0x00108000, 0x00008020, 0x80108000, 0x80100000, 0x00008020,
     0x00000000, 0x00108020, 0x80100020, 0x00100000, 0x80008020, 0x80100000, 0x80108000, 0x00008000,
     0x80100000, 0x80008000, 0x00000020, 0x80108020, 0x00108020, 0x00000020, 0x00008000, 0x80000000,
     0x00008020, 0x80108000, 0x00100000, 0x80000020, 0x00100020, 0x80008020, 0x80000020, 0x00100020,
     0x00108000, 0x00000000, 0x80008000, 0x00008020, 0x80000000, 0x80100020, 0x80108020, 0x00108000]"

definition SB3 :: "u32 list" where
  "SB3 =
    [0x00000208, 0x08020200, 0x00000000, 0x08020008, 0x08000200, 0x00000000, 0x00020208, 0x08000200,
     0x00020008, 0x08000008, 0x08000008, 0x00020000, 0x08020208, 0x00020008, 0x08020000, 0x00000208,
     0x08000000, 0x00000008, 0x08020200, 0x00000200, 0x00020200, 0x08020000, 0x08020008, 0x00020208,
     0x08000208, 0x00020200, 0x00020000, 0x08000208, 0x00000008, 0x08020208, 0x00000200, 0x08000000,
     0x08020200, 0x08000000, 0x00020008, 0x00000208, 0x00020000, 0x08020200, 0x08000200, 0x00000000,
     0x00000200, 0x00020008, 0x08020208, 0x08000200, 0x08000008, 0x00000200, 0x00000000, 0x08020008,
     0x08000208, 0x00020000, 0x08000000, 0x08020208, 0x00000008, 0x00020208, 0x00020200, 0x08000008,
     0x08020000, 0x08000208, 0x00000208, 0x08020000, 0x00020208, 0x00000008, 0x08020008, 0x00020200]"

definition SB4 :: "u32 list" where
  "SB4 =
    [0x00802001, 0x00002081, 0x00002081, 0x00000080, 0x00802080, 0x00800081, 0x00800001, 0x00002001,
     0x00000000, 0x00802000, 0x00802000, 0x00802081, 0x00000081, 0x00000000, 0x00800080, 0x00800001,
     0x00000001, 0x00002000, 0x00800000, 0x00802001, 0x00000080, 0x00800000, 0x00002001, 0x00002080,
     0x00800081, 0x00000001, 0x00002080, 0x00800080, 0x00002000, 0x00802080, 0x00802081, 0x00000081,
     0x00800080, 0x00800001, 0x00802000, 0x00802081, 0x00000081, 0x00000000, 0x00000000, 0x00802000,
     0x00002080, 0x00800080, 0x00800081, 0x00000001, 0x00802001, 0x00002081, 0x00002081, 0x00000080,
     0x00802081, 0x00000081, 0x00000001, 0x00002000, 0x00800001, 0x00002001, 0x00802080, 0x00800081,
     0x00002001, 0x00002080, 0x00800000, 0x00802001, 0x00000080, 0x00800000, 0x00002000, 0x00802080]"

definition SB5 :: "u32 list" where
  "SB5 =
    [0x00000100, 0x02080100, 0x02080000, 0x42000100, 0x00080000, 0x00000100, 0x40000000, 0x02080000,
     0x40080100, 0x00080000, 0x02000100, 0x40080100, 0x42000100, 0x42080000, 0x00080100, 0x40000000,
     0x02000000, 0x40080000, 0x40080000, 0x00000000, 0x40000100, 0x42080100, 0x42080100, 0x02000100,
     0x42080000, 0x40000100, 0x00000000, 0x42000000, 0x02080100, 0x02000000, 0x42000000, 0x00080100,
     0x00080000, 0x42000100, 0x00000100, 0x02000000, 0x40000000, 0x02080000, 0x42000100, 0x40080100,
     0x02000100, 0x40000000, 0x42080000, 0x02080100, 0x40080100, 0x00000100, 0x02000000, 0x42080000,
     0x42080100, 0x00080100, 0x42000000, 0x42080100, 0x02080000, 0x00000000, 0x40080000, 0x42000000,
     0x00080100, 0x02000100, 0x40000100, 0x00080000, 0x00000000, 0x40080000, 0x02080100, 0x40000100]"

definition SB6 :: "u32 list" where
  "SB6 =
    [0x20000010, 0x20400000, 0x00004000, 0x20404010, 0x20400000, 0x00000010, 0x20404010, 0x00400000,
     0x20004000, 0x00404010, 0x00400000, 0x20000010, 0x00400010, 0x20004000, 0x20000000, 0x00004010,
     0x00000000, 0x00400010, 0x20004010, 0x00004000, 0x00404000, 0x20004010, 0x00000010, 0x20400010,
     0x20400010, 0x00000000, 0x00404010, 0x20404000, 0x00004010, 0x00404000, 0x20404000, 0x20000000,
     0x20004000, 0x00000010, 0x20400010, 0x00404000, 0x20404010, 0x00400000, 0x00004010, 0x20000010,
     0x00400000, 0x20004000, 0x20000000, 0x00004010, 0x20000010, 0x20404010, 0x00404000, 0x20400000,
     0x00404010, 0x20404000, 0x00000000, 0x20400010, 0x00000010, 0x00004000, 0x20400000, 0x00404010,
     0x00004000, 0x00400010, 0x20004010, 0x00000000, 0x20404000, 0x20000000, 0x00400010, 0x20004010]"

definition SB7 :: "u32 list" where
  "SB7 =
    [0x00200000, 0x04200002, 0x04000802, 0x00000000, 0x00000800, 0x04000802, 0x00200802, 0x04200800,
     0x04200802, 0x00200000, 0x00000000, 0x04000002, 0x00000002, 0x04000000, 0x04200002, 0x00000802,
     0x04000800, 0x00200802, 0x00200002, 0x04000800, 0x04000002, 0x04200000, 0x04200800, 0x00200002,
     0x04200000, 0x00000800, 0x00000802, 0x04200802, 0x00200800, 0x00000002, 0x04000000, 0x00200800,
     0x04000000, 0x00200800, 0x00200000, 0x04000802, 0x04000802, 0x04200002, 0x04200002, 0x00000002,
     0x00200002, 0x04000000, 0x04000800, 0x00200000, 0x04200800, 0x00000802, 0x00200802, 0x04200800,
     0x00000802, 0x04000002, 0x04200802, 0x04200000, 0x00200800, 0x00000000, 0x00000002, 0x04200802,
     0x00000000, 0x00200802, 0x04200000, 0x00000800, 0x04000002, 0x04000800, 0x00000800, 0x00200002]"

definition SB8 :: "u32 list" where
  "SB8 =
    [0x10001040, 0x00001000, 0x00040000, 0x10041040, 0x10000000, 0x10001040, 0x00000040, 0x10000000,
     0x00040040, 0x10040000, 0x10041040, 0x00041000, 0x10041000, 0x00041040, 0x00001000, 0x00000040,
     0x10040000, 0x10000040, 0x10001000, 0x00001040, 0x00041000, 0x00040040, 0x10040040, 0x10041000,
     0x00001040, 0x00000000, 0x00000000, 0x10040040, 0x10000040, 0x10001000, 0x00041040, 0x00040000,
     0x00041040, 0x00040000, 0x10041000, 0x00001000, 0x00000040, 0x10040040, 0x00001000, 0x00041040,
     0x10001000, 0x00000040, 0x10000040, 0x10040000, 0x10040040, 0x10000000, 0x00040000, 0x10001040,
     0x00000000, 0x10041040, 0x00040040, 0x10000040, 0x10040000, 0x10001000, 0x10001040, 0x00000000,
     0x10041040, 0x00041000, 0x00041000, 0x00001040, 0x00001040, 0x00040040, 0x10000000, 0x10041000]"

definition LHs :: "u32 list" where
  "LHs =
    [0x00000000, 0x00000001, 0x00000100, 0x00000101, 0x00010000, 0x00010001, 0x00010100, 0x00010101,
     0x01000000, 0x01000001, 0x01000100, 0x01000101, 0x01010000, 0x01010001, 0x01010100, 0x01010101]"

definition RHs :: "u32 list" where
  "RHs =
    [0x00000000, 0x01000000, 0x00010000, 0x01010000, 0x00000100, 0x01000100, 0x00010100, 0x01010100,
     0x00000001, 0x01000001, 0x00010001, 0x01010001, 0x00000101, 0x01000101, 0x00010101, 0x01010101]"

section \<open>Blocks\<close>

definition GET_UINT32 :: "u8 list \<Rightarrow> nat \<Rightarrow> u32" where
  "GET_UINT32 b i = push_bit 24 (ucast (b ! i)) OR push_bit 16 (ucast (b ! (i + 1))) OR push_bit 8 (ucast (b ! (i + 2))) OR
     ucast (b ! (i + 3))"

definition PUT_UINT32 :: "u32 \<Rightarrow> u8 list" where
  "PUT_UINT32 n = [ucast (drop_bit 24 n), ucast (drop_bit 16 n), ucast (drop_bit 8 n), ucast n]"

text \<open>
  The statements \<open>T = ((X >> s) ^ Y) & m; Y ^= T; X ^= (T << s)\<close> that the permutations are made of, on the
  pair of \<open>X\<close> and \<open>Y\<close>, and the two rotations.
\<close>

definition dswap :: "nat \<Rightarrow> u32 \<Rightarrow> u32 \<times> u32 \<Rightarrow> u32 \<times> u32" where
  "dswap s m XY = (let (X, Y) = XY; T = (drop_bit s X XOR Y) AND m in (X XOR push_bit s T, Y XOR T))"

definition rotl1 :: "u32 \<Rightarrow> u32" where
  "rotl1 Y = (push_bit 1 Y OR drop_bit 31 Y) AND 0xFFFFFFFF"

definition rotr1 :: "u32 \<Rightarrow> u32" where
  "rotr1 X = (push_bit 31 X OR drop_bit 1 X) AND 0xFFFFFFFF"

definition DES_IP :: "u32 \<times> u32 \<Rightarrow> u32 \<times> u32" where
  "DES_IP XY =
     (let (X, Y) = dswap 4 0x0F0F0F0F XY;
          (X, Y) = dswap 16 0x0000FFFF (X, Y);
          (Y, X) = dswap 2 0x33333333 (Y, X);
          (Y, X) = dswap 8 0x00FF00FF (Y, X);
          Y = rotl1 Y;
          (X, Y) = dswap 0 0xAAAAAAAA (X, Y);
          X = rotl1 X
      in (X, Y))"

definition DES_FP :: "u32 \<times> u32 \<Rightarrow> u32 \<times> u32" where
  "DES_FP XY =
     (let (X, Y) = XY;
          X = rotr1 X;
          (X, Y) = dswap 0 0xAAAAAAAA (X, Y);
          Y = rotr1 Y;
          (Y, X) = dswap 8 0x00FF00FF (Y, X);
          (Y, X) = dswap 2 0x33333333 (Y, X);
          (X, Y) = dswap 16 0x0000FFFF (X, Y);
          (X, Y) = dswap 4 0x0F0F0F0F (X, Y)
      in (X, Y))"

text \<open>\<open>DES_ROUND(X, Y)\<close> with the two words of the key schedule that it takes: the new \<open>Y\<close>.\<close>

definition DES_ROUND :: "u32 \<Rightarrow> u32 \<Rightarrow> u32 \<Rightarrow> u32 \<Rightarrow> u32" where
  "DES_ROUND k0 k1 X Y =
     (let T = k0 XOR X;
          Y = Y XOR (SB8 ! unat (T AND 0x3F) XOR SB6 ! unat (drop_bit 8 T AND 0x3F) XOR
                SB4 ! unat (drop_bit 16 T AND 0x3F) XOR SB2 ! unat (drop_bit 24 T AND 0x3F));
          T = k1 XOR (push_bit 28 X OR drop_bit 4 X)
      in Y XOR (SB7 ! unat (T AND 0x3F) XOR SB5 ! unat (drop_bit 8 T AND 0x3F) XOR
                SB3 ! unat (drop_bit 16 T AND 0x3F) XOR SB1 ! unat (drop_bit 24 T AND 0x3F)))"

text \<open>The key schedule: permuted choice one, the shifts of a round, and the two words of a round.\<close>

definition des_pc1 :: "u8 list \<Rightarrow> u32 \<times> u32" where
  "des_pc1 key =
     (let X = GET_UINT32 key 0; Y = GET_UINT32 key 4;
          T = (drop_bit 4 Y XOR X) AND 0x0F0F0F0F; X = X XOR T; Y = Y XOR push_bit 4 T;
          T = (Y XOR X) AND 0x10101010; X = X XOR T; Y = Y XOR T;
          X = push_bit 3 (LHs ! unat (X AND 0xF)) OR push_bit 2 (LHs ! unat (drop_bit 8 X AND 0xF)) OR push_bit 1 (LHs ! unat (drop_bit 16 X AND 0xF)) OR
              LHs ! unat (drop_bit 24 X AND 0xF) OR push_bit 7 (LHs ! unat (drop_bit 5 X AND 0xF)) OR push_bit 6 (LHs ! unat (drop_bit 13 X AND 0xF)) OR
              push_bit 5 (LHs ! unat (drop_bit 21 X AND 0xF)) OR push_bit 4 (LHs ! unat (drop_bit 29 X AND 0xF));
          Y = push_bit 3 (RHs ! unat (drop_bit 1 Y AND 0xF)) OR push_bit 2 (RHs ! unat (drop_bit 9 Y AND 0xF)) OR push_bit 1 (RHs ! unat (drop_bit 17 Y AND 0xF)) OR
              RHs ! unat (drop_bit 25 Y AND 0xF) OR push_bit 7 (RHs ! unat (drop_bit 4 Y AND 0xF)) OR push_bit 6 (RHs ! unat (drop_bit 12 Y AND 0xF)) OR
              push_bit 5 (RHs ! unat (drop_bit 20 Y AND 0xF)) OR push_bit 4 (RHs ! unat (drop_bit 28 Y AND 0xF))
      in (X AND 0x0FFFFFFF, Y AND 0x0FFFFFFF))"

definition des_shift :: "nat \<Rightarrow> u32 \<Rightarrow> u32" where
  "des_shift i X =
     (if i < 2 \<or> i = 8 \<or> i = 15 then (push_bit 1 X OR drop_bit 27 X) AND 0x0FFFFFFF
      else (push_bit 2 X OR drop_bit 26 X) AND 0x0FFFFFFF)"

definition des_subkeys :: "u32 \<Rightarrow> u32 \<Rightarrow> u32 list" where
  "des_subkeys X Y =
     [(push_bit 4 X AND 0x24000000) OR (push_bit 28 X AND 0x10000000) OR (push_bit 14 X AND 0x08000000) OR
      (push_bit 18 X AND 0x02080000) OR (push_bit 6 X AND 0x01000000) OR (push_bit 9 X AND 0x00200000) OR
      (drop_bit 1 X AND 0x00100000) OR (push_bit 10 X AND 0x00040000) OR (push_bit 2 X AND 0x00020000) OR
      (drop_bit 10 X AND 0x00010000) OR (drop_bit 13 Y AND 0x00002000) OR (drop_bit 4 Y AND 0x00001000) OR
      (push_bit 6 Y AND 0x00000800) OR (drop_bit 1 Y AND 0x00000400) OR (drop_bit 14 Y AND 0x00000200) OR
      (Y AND 0x00000100) OR (drop_bit 5 Y AND 0x00000020) OR (drop_bit 10 Y AND 0x00000010) OR
      (drop_bit 3 Y AND 0x00000008) OR (drop_bit 18 Y AND 0x00000004) OR (drop_bit 26 Y AND 0x00000002) OR
      (drop_bit 24 Y AND 0x00000001),
      (push_bit 15 X AND 0x20000000) OR (push_bit 17 X AND 0x10000000) OR (push_bit 10 X AND 0x08000000) OR
      (push_bit 22 X AND 0x04000000) OR (drop_bit 2 X AND 0x02000000) OR (push_bit 1 X AND 0x01000000) OR
      (push_bit 16 X AND 0x00200000) OR (push_bit 11 X AND 0x00100000) OR (push_bit 3 X AND 0x00080000) OR
      (drop_bit 6 X AND 0x00040000) OR (push_bit 15 X AND 0x00020000) OR (drop_bit 4 X AND 0x00010000) OR
      (drop_bit 2 Y AND 0x00002000) OR (push_bit 8 Y AND 0x00001000) OR (drop_bit 14 Y AND 0x00000808) OR
      (drop_bit 9 Y AND 0x00000400) OR (Y AND 0x00000200) OR (push_bit 7 Y AND 0x00000100) OR
      (drop_bit 7 Y AND 0x00000020) OR (drop_bit 3 Y AND 0x00000011) OR (push_bit 2 Y AND 0x00000004) OR
      (drop_bit 21 Y AND 0x00000002)]"

text \<open>The loop from round \<open>i\<close> on.\<close>

function des_ks_loop :: "nat \<Rightarrow> u32 \<Rightarrow> u32 \<Rightarrow> u32 list" where
  "des_ks_loop i X Y =
     (if i < 16 then (let X = des_shift i X; Y = des_shift i Y in des_subkeys X Y @ des_ks_loop (i + 1) X Y) else [])"
  by pat_completeness auto
termination by (relation "measure (\<lambda>(i, X, Y). 16 - i)") auto

declare des_ks_loop.simps [simp del]

definition des_main_ks :: "u8 list \<Rightarrow> u32 list" where
  "des_main_ks key = (let (X, Y) = des_pc1 key in des_ks_loop 0 X Y)"

text \<open>The unrolled rounds: two for every four words of the key schedule.\<close>

fun des_rounds :: "u32 list \<Rightarrow> u32 \<times> u32 \<Rightarrow> u32 \<times> u32" where
  "des_rounds (k0 # k1 # k2 # k3 # SK) (X, Y) =
     (let X = DES_ROUND k0 k1 Y X; Y = DES_ROUND k2 k3 X Y in des_rounds SK (X, Y))"
| "des_rounds _ XY = XY"

definition des_crypt :: "u32 list \<Rightarrow> u8 list \<Rightarrow> u8 list" where
  "des_crypt SK input =
     (let X = GET_UINT32 input 0; Y = GET_UINT32 input 4;
          (X, Y) = DES_IP (X, Y);
          (X, Y) = des_rounds SK (X, Y);
          (Y, X) = DES_FP (Y, X)
      in PUT_UINT32 Y @ PUT_UINT32 X)"


section \<open>Padding\<close>

datatype des_error = InvalidPaddingMode int | InvalidPadding | InvalidKeySize nat | InvalidTextLength nat | InvalidCryptText

definition PADDING_MODE_ISO7816_4 :: int where "PADDING_MODE_ISO7816_4 = 0"
definition PADDING_MODE_PKCS7 :: int where "PADDING_MODE_PKCS7 = 1"
definition PADDING_MODE_COUNT :: int where "PADDING_MODE_COUNT = 2"

text \<open>The first \<open>offset\<close> bytes of the block are the given ones.\<close>

definition padding_add_iso7816_4 :: "u8 list \<Rightarrow> u8 list" where
  "padding_add_iso7816_4 buf = buf @ [0x80] @ replicate (7 - length buf) 0"

definition padding_add_pkcs7 :: "u8 list \<Rightarrow> u8 list" where
  "padding_add_pkcs7 buf = (let x = of_nat (8 - length buf) in buf @ replicate (8 - length buf) x)"

text \<open>
  Removal walks backwards from the last byte: the argument is the reversed buffer, and a read in
  front of the buffer is undefined behaviour.
\<close>

fun remove_iso_loop :: "nat \<Rightarrow> nat \<Rightarrow> u8 list \<Rightarrow> nat option" where
  "remove_iso_loop 0 padding before = Some 0"
| "remove_iso_loop (Suc n) padding [] = None"
| "remove_iso_loop (Suc n) padding (b # before) =
     (if b = 0 then remove_iso_loop n (padding + 1) before
      else if b = 0x80 then Some padding
      else Some 0)"

definition padding_remove_iso7816_4 :: "u8 list \<Rightarrow> nat option" where
  "padding_remove_iso7816_4 before = remove_iso_loop 8 1 before"

fun remove_pkcs7_loop :: "nat \<Rightarrow> u8 \<Rightarrow> u8 list \<Rightarrow> nat option" where
  "remove_pkcs7_loop 0 padding before = Some (unat padding)"
| "remove_pkcs7_loop (Suc n) padding [] = None"
| "remove_pkcs7_loop (Suc n) padding (b # before) =
     (if b \<noteq> padding then Some 0 else remove_pkcs7_loop n padding before)"

definition padding_remove_pkcs7 :: "u8 list \<Rightarrow> nat option" where
  "padding_remove_pkcs7 before = (case before of [] \<Rightarrow> None | b # bs \<Rightarrow> remove_pkcs7_loop (unat b - 1) b bs)"

definition check_padding_mode :: "int \<Rightarrow> des_error + unit" where
  "check_padding_mode mode = (if mode < 0 \<or> mode \<ge> PADDING_MODE_COUNT then Inl (InvalidPaddingMode mode) else Inr ())"

definition padding_add_func :: "int \<Rightarrow> u8 list \<Rightarrow> u8 list" where
  "padding_add_func mode = (if mode = PADDING_MODE_ISO7816_4 then padding_add_iso7816_4 else padding_add_pkcs7)"

definition padding_remove_func :: "int \<Rightarrow> u8 list \<Rightarrow> nat option" where
  "padding_remove_func mode = (if mode = PADDING_MODE_ISO7816_4 then padding_remove_iso7816_4 else padding_remove_pkcs7)"

text \<open>
  The offset is an \<open>int\<close>. A negative one passes the test and is undefined behaviour in the copy (\<open>None\<close>).
\<close>

definition add_padding :: "u8 list \<Rightarrow> int \<Rightarrow> int \<Rightarrow> (des_error + u8 list) option" where
  "add_padding src offset mode =
     (case check_padding_mode mode of
        Inl e \<Rightarrow> Some (Inl e)
      | Inr _ \<Rightarrow>
          if offset \<ge> 8 then Some (Inl InvalidPadding)
          else if offset < 0 then None
          else Some (Inr (padding_add_func mode (take (nat offset) src))))"

definition remove_padding :: "u8 list \<Rightarrow> int \<Rightarrow> des_error + nat option" where
  "remove_padding before mode =
     (case check_padding_mode mode of Inl e \<Rightarrow> Inl e | Inr _ \<Rightarrow> Inr (padding_remove_func mode before))"

section \<open>Encryption of a text\<close>

text \<open>The loop over the complete blocks.\<close>

function crypt_blocks :: "(u8 list \<Rightarrow> u8 list) \<Rightarrow> u8 list \<Rightarrow> u8 list" where
  "crypt_blocks f str = (if length str < 8 then [] else f (take 8 str) @ crypt_blocks f (drop 8 str))"
  by pat_completeness auto
termination by (relation "measure (\<lambda>(f, str). length str)") auto

declare crypt_blocks.simps [simp del]

definition des_key :: "u8 list \<Rightarrow> des_error + u32 list" where
  "des_key key = (if length key \<noteq> 8 then Inl (InvalidKeySize (length key)) else Inr (des_main_ks key))"

text \<open>
  The bound of the loop and the offset of the last block are computed from \<open>(int)textsz\<close>. For a text of
  \<open>2^31\<close> bytes or more the bound is truncated: then the subtraction may overflow, the offset may be
  negative, or blocks of the result are never written; each is \<open>None\<close>.
\<close>

definition ldesencode :: "u8 list \<Rightarrow> u8 list \<Rightarrow> int \<Rightarrow> (des_error + u8 list) option" where
  "ldesencode key str padding_mode =
     (case des_key key of
        Inl e \<Rightarrow> Some (Inl e)
      | Inr SK \<Rightarrow>
          (let textsz = length str; chunksz = 8 * ((textsz + 8) div 8) in
           if c_int textsz - 7 < INT_MIN then None
           else
             (let sz = nat (c_int textsz); i = 8 * (sz div 8); buffer = crypt_blocks (des_crypt SK) (take sz str) in
              case add_padding (drop i str) (c_int (textsz - i)) padding_mode of
                None \<Rightarrow> None
              | Some (Inl e) \<Rightarrow> Some (Inl e)
              | Some (Inr tail) \<Rightarrow> if chunksz = i + 8 then Some (Inr (buffer @ des_crypt SK tail)) else None)))"

text \<open>The key schedule of the decryption.\<close>

definition reverse_keys :: "u32 list \<Rightarrow> u32 list" where
  "reverse_keys ESK = concat (map (\<lambda>i. [ESK ! (30 - 2 * i), ESK ! (31 - 2 * i)]) [0..<16])"

text \<open>
  The result is \<open>None\<close> for undefined behaviour. The index of the loop is an \<open>int\<close> that is compared with a
  \<open>size_t\<close>: it overflows when the text has \<open>2^31\<close> bytes or more.
\<close>

definition ldesdecode :: "u8 list \<Rightarrow> u8 list \<Rightarrow> int \<Rightarrow> (des_error + u8 list) option" where
  "ldesdecode key str padding_mode =
     (case des_key key of
        Inl e \<Rightarrow> Some (Inl e)
      | Inr ESK \<Rightarrow>
          (let SK = reverse_keys ESK in
           if length str mod 8 \<noteq> 0 \<or> length str = 0 then Some (Inl (InvalidTextLength (length str)))
           else if int (length str) > INT_MAX then None
           else
             (let buffer = crypt_blocks (des_crypt SK) str in
              case remove_padding (rev buffer) padding_mode of
                Inl e \<Rightarrow> Some (Inl e)
              | Inr None \<Rightarrow> None
              | Inr (Some padding) \<Rightarrow>
                  (if padding \<le> 0 \<or> padding > 8 then Some (Inl InvalidCryptText)
                   else Some (Inr (take (length str - padding) buffer))))))"

section \<open>The permutations\<close>

text \<open>An exchange of bits undoes itself.\<close>

lemma xor_cancel: "(x XOR y) XOR y = x" for x y :: u32
  by (simp add: xor.assoc)

lemma dswap_value: "(drop_bit s X XOR Y) AND m = T \<Longrightarrow> dswap s m (X, Y) = (X XOR push_bit s T, Y XOR T)"
  by (auto simp: dswap_def Let_def)

lemma dswap_dswap:
  assumes "drop_bit s (push_bit s m) = m"
  shows "dswap s m (dswap s m XY) = XY"
proof -
  obtain X Y where XY: "XY = (X, Y)" by (cases XY)
  define T where "T = (drop_bit s X XOR Y) AND m"
  have "drop_bit s (push_bit s T) = T"
  proof (rule bit_word_eqI)
    fix n assume "n < LENGTH(32)"
    moreover have "bit m n \<Longrightarrow> s + n < 32"
      using arg_cong [OF assms, of "\<lambda>w. bit w n"] by (auto simp: bit_simps)
    ultimately show "bit (drop_bit s (push_bit s T)) n = bit T n" by (auto simp: T_def bit_simps)
  qed
  moreover have "drop_bit s (X XOR push_bit s T) XOR (Y XOR T) = (drop_bit s X XOR Y) XOR (drop_bit s (push_bit s T) XOR T)"
    by (simp only: drop_bit_xor) (simp only: xor.assoc xor.left_commute)
  ultimately have "drop_bit s (X XOR push_bit s T) XOR (Y XOR T) = drop_bit s X XOR Y" by simp
  then have "(drop_bit s (X XOR push_bit s T) XOR (Y XOR T)) AND m = T" unfolding T_def by (rule arg_cong)
  then show ?thesis unfolding XY dswap_value [OF T_def [symmetric]] by (simp only: dswap_value xor_cancel)
qed


lemma dswaps:
  "dswap 4 0x0F0F0F0F (dswap 4 0x0F0F0F0F XY) = XY" "dswap 16 0x0000FFFF (dswap 16 0x0000FFFF XY) = XY"
  "dswap 2 0x33333333 (dswap 2 0x33333333 XY) = XY" "dswap 8 0x00FF00FF (dswap 8 0x00FF00FF XY) = XY"
  "dswap 0 0xAAAAAAAA (dswap 0 0xAAAAAAAA XY) = XY"
  by (rule dswap_dswap, simp)+

lemma bit_times2: "bit (w * 2) n \<longleftrightarrow> 0 < n \<and> n < 32 \<and> bit w (n - 1)" for w :: u32
  using bit_double_iff [of w n] by (simp add: mult.commute possible_bit_def) (metis bit_imp_le_length)

lemma rotations: "rotr1 (rotl1 X) = X" "rotl1 (rotr1 X) = X"
proof -
  have m: "(0xFFFFFFFF :: u32) = mask 32" by (simp add: mask_eq_exp_minus_1)
  show "rotr1 (rotl1 X) = X" unfolding rotl1_def rotr1_def m
  proof (rule bit_word_eqI)
    fix n assume n: "n < LENGTH(32)"
    show "bit ((push_bit 31 ((push_bit 1 X OR drop_bit 31 X) AND mask 32) OR drop_bit 1 ((push_bit 1 X OR drop_bit 31 X) AND mask 32)) AND mask 32) n = bit X n"
      using n by (cases "n = 31") (auto simp: bit_simps bit_times2)
  qed
  show "rotl1 (rotr1 X) = X" unfolding rotl1_def rotr1_def m
  proof (rule bit_word_eqI)
    fix n assume n: "n < LENGTH(32)"
    show "bit ((push_bit 1 ((push_bit 31 X OR drop_bit 1 X) AND mask 32) OR drop_bit 31 ((push_bit 31 X OR drop_bit 1 X) AND mask 32)) AND mask 32) n = bit X n"
      using n by (cases "n = 0") (auto simp: bit_simps bit_times2)
  qed
qed

lemma DES_IP_FP: "DES_IP (DES_FP XY) = XY" "DES_FP (DES_IP XY) = XY"
  by (simp_all only: DES_IP_def DES_FP_def Let_def case_prod_beta fst_conv snd_conv prod.collapse dswaps rotations)

section \<open>The rounds\<close>

text \<open>A round with its exchange of the halves, and the rounds as a fold over the pairs of words of the key.\<close>

definition half :: "u32 \<times> u32 \<Rightarrow> u32 \<times> u32 \<Rightarrow> u32 \<times> u32" where
  "half k XY = (snd XY, DES_ROUND (fst k) (snd k) (snd XY) (fst XY))"

fun key_pairs :: "u32 list \<Rightarrow> (u32 \<times> u32) list" where
  "key_pairs (k0 # k1 # SK) = (k0, k1) # key_pairs SK"
| "key_pairs _ = []"

lemma DES_ROUND_twice: "DES_ROUND k0 k1 X (DES_ROUND k0 k1 X Y) = Y"
proof -
  obtain F where "DES_ROUND k0 k1 X = (\<lambda>Y. Y XOR F)"
    by (simp add: DES_ROUND_def Let_def xor.assoc fun_eq_iff) blast
  then show ?thesis by (simp add: xor_cancel)
qed

lemma half_swap: "half k (prod.swap (half k XY)) = prod.swap XY"
  by (cases XY) (simp add: half_def DES_ROUND_twice)

lemma fold_half_rev: "fold half (rev ks) (prod.swap (fold half ks XY)) = prod.swap XY"
  by (induction ks arbitrary: XY) (simp_all add: half_swap)

lemma des_rounds_fold: "4 dvd length SK \<Longrightarrow> des_rounds SK XY = fold half (key_pairs SK) XY"
proof (induction SK XY rule: des_rounds.induct)
  case (1 k0 k1 k2 k3 SK X Y)
  then have "4 dvd length SK" by (simp) presburger
  with 1 show ?case by (simp add: half_def Let_def)
qed (auto dest: dvd_imp_le)


lemma length_des_subkeys: "length (des_subkeys X Y) = 2"
  by (simp add: des_subkeys_def)

lemma length_ks_loop: "length (des_ks_loop i X Y) = 2 * (16 - i)"
  by (induction i X Y rule: des_ks_loop.induct) (subst des_ks_loop.simps, auto simp: Let_def length_des_subkeys)

lemma length_main_ks: "length (des_main_ks key) = 32"
  by (simp add: des_main_ks_def length_ks_loop split: prod.splits)

lemma key_pairs_nth: "even (length SK) \<Longrightarrow> key_pairs SK = map (\<lambda>i. (SK ! (2 * i), SK ! (2 * i + 1))) [0..<length SK div 2]"
proof (induction SK rule: key_pairs.induct)
  case (1 k0 k1 SK)
  have "[0..<length (k0 # k1 # SK) div 2] = 0 # map Suc [0..<length SK div 2]" by (simp add: upt_conv_Cons map_Suc_upt)
  with 1 show ?case by (simp add: comp_def)
qed auto

lemma reverse_pairs:
  assumes "length SK = 32"
  shows "length (reverse_keys SK) = 32" "key_pairs (reverse_keys SK) = rev (key_pairs SK)"
proof -
  have "[0..<16] = [0, 1, 2, 3, 4, 5, 6, 7, 8, 9, 10, 11, 12, 13, 14, 15 :: nat]" by (simp add: upt_rec)
  then show "length (reverse_keys SK) = 32" "key_pairs (reverse_keys SK) = rev (key_pairs SK)"
    using key_pairs_nth [of SK] assms by (simp_all add: reverse_keys_def)
qed

lemma get_put: "GET_UINT32 (PUT_UINT32 X @ str) 0 = X" "GET_UINT32 (PUT_UINT32 X @ PUT_UINT32 Y @ str) 4 = Y"
proof -
  have get: "push_bit 24 (ucast (ucast (drop_bit 24 Z) :: u8)) OR push_bit 16 (ucast (ucast (drop_bit 16 Z) :: u8)) OR
    push_bit 8 (ucast (ucast (drop_bit 8 Z) :: u8)) OR ucast (ucast Z :: u8) = Z" for Z :: u32
  proof (rule bit_word_eqI)
    fix n assume n: "n < LENGTH(32)"
    consider "n < 8" | "8 \<le> n" "n < 16" | "16 \<le> n" "n < 24" | "24 \<le> n" by linarith
    then show "bit (push_bit 24 (ucast (ucast (drop_bit 24 Z) :: u8) :: u32) OR push_bit 16 (ucast (ucast (drop_bit 16 Z) :: u8)) OR
        push_bit 8 (ucast (ucast (drop_bit 8 Z) :: u8)) OR ucast (ucast Z :: u8)) n = bit Z n"
      using n by cases (auto simp: bit_simps)
  qed
  show "GET_UINT32 (PUT_UINT32 X @ str) 0 = X" "GET_UINT32 (PUT_UINT32 X @ PUT_UINT32 Y @ str) 4 = Y"
    using get by (simp_all add: GET_UINT32_def PUT_UINT32_def)
qed

lemma put_get:
  assumes "length b = 8"
  shows "PUT_UINT32 (GET_UINT32 b 0) @ PUT_UINT32 (GET_UINT32 b 4) = b"
proof -
  obtain b0 b1 b2 b3 b4 b5 b6 b7 where b: "b = [b0, b1, b2, b3, b4, b5, b6, b7]"
    using assms by (auto simp: length_Suc_conv numeral_eq_Suc)
  have put: "PUT_UINT32 (push_bit 24 (ucast c0) OR push_bit 16 (ucast c1) OR push_bit 8 (ucast c2) OR ucast c3) = [c0, c1, c2, c3]"
    for c0 c1 c2 c3 :: u8
    unfolding PUT_UINT32_def list.inject by (intro conjI bit_word_eqI) (auto simp: bit_simps dest: bit_imp_le_length)
  show ?thesis by (simp add: b GET_UINT32_def put)
qed

lemma des_crypt_inverse:
  assumes "length b = 8" "length SK = 32"
  shows "des_crypt (reverse_keys SK) (des_crypt SK b) = b"
proof -
  define XY where "XY = (GET_UINT32 b 0, GET_UINT32 b 4)"
  define AB where "AB = fold half (key_pairs SK) (DES_IP XY)"
  have enc: "des_crypt SK b = PUT_UINT32 (fst (DES_FP (prod.swap AB))) @ PUT_UINT32 (snd (DES_FP (prod.swap AB)))"
    using assms(2) by (simp add: des_crypt_def AB_def XY_def Let_def des_rounds_fold case_prod_beta prod.swap_def)
  have "fold half (key_pairs (reverse_keys SK)) (DES_IP (DES_FP (prod.swap AB))) = prod.swap (DES_IP XY)"
    unfolding DES_IP_FP reverse_pairs(2) [OF assms(2)] AB_def by (rule fold_half_rev)
  then have "des_crypt (reverse_keys SK) (des_crypt SK b) = PUT_UINT32 (fst (DES_FP (DES_IP XY))) @ PUT_UINT32 (snd (DES_FP (DES_IP XY)))"
    using reverse_pairs(1) [OF assms(2)] get_put(2) [where str = "[]"]
    by (simp add: enc des_crypt_def [of "reverse_keys SK"] Let_def des_rounds_fold case_prod_beta get_put)
  then show ?thesis using put_get [OF assms(1)] by (simp add: DES_IP_FP XY_def)
qed


lemma des_crypt_length: "length (des_crypt SK b) = 8"
  by (simp add: des_crypt_def Let_def PUT_UINT32_def split: prod.splits)

section \<open>Interfaces\<close>

text \<open>A cipher on blocks of eight bytes.\<close>

locale block_cipher =
  fixes enc dec :: "u8 list \<Rightarrow> u8 list"
  assumes enc_length: "length b = 8 \<Longrightarrow> length (enc b) = 8"
    and dec_enc: "length b = 8 \<Longrightarrow> dec (enc b) = b"
begin

lemma crypt_blocks_inverse:
  "crypt_blocks dec (crypt_blocks enc str @ rest) = take (8 * (length str div 8)) str @ crypt_blocks dec rest"
proof (induction str rule: length_induct)
  case (1 str)
  show ?case
  proof (cases "length str < 8")
    case True
    then show ?thesis by (simp add: crypt_blocks.simps [of enc])
  next
    case False
    then have len: "length (enc (take 8 str)) = 8" "dec (enc (take 8 str)) = take 8 str" by (simp_all add: enc_length dec_enc)
    have "crypt_blocks dec (crypt_blocks enc str @ rest) = take 8 str @ crypt_blocks dec (crypt_blocks enc (drop 8 str) @ rest)"
      using False len by (simp add: crypt_blocks.simps [of enc str] crypt_blocks.simps [of dec "_ @ _"])
    also have "\<dots> = take 8 str @ take (8 * (length (drop 8 str) div 8)) (drop 8 str) @ crypt_blocks dec rest"
      using 1 False by simp
    also have "\<dots> = take (8 + 8 * (length (drop 8 str) div 8)) str @ crypt_blocks dec rest"
      by (simp only: take_add append_assoc)
    also have "8 + 8 * (length (drop 8 str) div 8) = 8 * (length str div 8)" using False by (simp add: le_div_geq)
    finally show ?thesis .
  qed
qed

lemma crypt_blocks_length: "length (crypt_blocks enc str) = 8 * (length str div 8)"
proof (induction str rule: length_induct)
  case (1 str)
  then show ?case by (cases "length str < 8") (simp_all add: crypt_blocks.simps [of enc str] enc_length le_div_geq)
qed

end

text \<open>A padding of an incomplete block; removal is given the reversed text.\<close>

locale padding_scheme =
  fixes add :: "u8 list \<Rightarrow> u8 list" and remove :: "u8 list \<Rightarrow> nat option"
  assumes add_length: "length t < 8 \<Longrightarrow> length (add t) = 8"
    and add_prefix: "length t < 8 \<Longrightarrow> take (length t) (add t) = t"
    and remove_add: "length t < 8 \<Longrightarrow> remove (rev (pre @ add t)) = Some (8 - length t)"

text \<open>The encryption of a text by both.\<close>

locale padded_cipher = block_cipher enc dec + padding_scheme add remove
  for enc dec :: "u8 list \<Rightarrow> u8 list" and add :: "u8 list \<Rightarrow> u8 list" and remove :: "u8 list \<Rightarrow> nat option"
begin

lemma roundtrip:
  fixes str :: "u8 list"
  defines "t \<equiv> drop (8 * (length str div 8)) str"
  defines "c \<equiv> crypt_blocks enc str @ enc (add t)"
  shows "length t < 8" "length c mod 8 = 0" "length c \<noteq> 0" "remove (rev (crypt_blocks dec c)) = Some (8 - length t)"
    "length c = 8 * (length str div 8) + 8" "take (length c - (8 - length t)) (crypt_blocks dec c) = str"
proof -
  have len: "length t = length str mod 8" by (simp add: t_def minus_mult_div_eq_mod)
  then show t: "length t < 8" by simp
  have elen: "length (enc (add t)) = 8" using t by (simp add: enc_length add_length)
  show clen: "length c = 8 * (length str div 8) + 8" by (simp add: c_def crypt_blocks_length elen)
  then show "length c mod 8 = 0" "length c \<noteq> 0" by simp_all
  have "crypt_blocks dec (enc (add t)) = add t"
    using elen t by (simp add: crypt_blocks.simps [of dec] dec_enc add_length)
  then have dec: "crypt_blocks dec c = take (8 * (length str div 8)) str @ add t"
    by (simp only: c_def crypt_blocks_inverse)
  then show "remove (rev (crypt_blocks dec c)) = Some (8 - length t)" using t by (simp only: remove_add)
  have "length c - (8 - length t) = 8 * (length str div 8) + length t" using clen t by simp
  moreover have "length (take (8 * (length str div 8)) str) = 8 * (length str div 8)" by simp
  ultimately have "take (length c - (8 - length t)) (crypt_blocks dec c) = take (8 * (length str div 8)) str @ take (length t) (add t)"
    unfolding dec by simp
  then show "take (length c - (8 - length t)) (crypt_blocks dec c) = str" using t by (simp add: add_prefix) (simp add: t_def)
qed

end

interpretation des: block_cipher "des_crypt (des_main_ks key)" "des_crypt (reverse_keys (des_main_ks key))" for key
  by unfold_locales (simp_all add: des_crypt_inverse length_main_ks des_crypt_length)

lemma remove_iso_zeros: "n < 8 \<Longrightarrow> remove_iso_loop (Suc n + k) p (replicate n 0 @ 0x80 # before) = Some (p + n)"
  by (induction n arbitrary: p) simp_all

interpretation iso7816_4: padding_scheme padding_add_iso7816_4 padding_remove_iso7816_4
proof
  fix t pre :: "u8 list" assume t: "length t < 8"
  then show "length (padding_add_iso7816_4 t) = 8" "take (length t) (padding_add_iso7816_4 t) = t" by (simp_all add: padding_add_iso7816_4_def)
  have "8 = Suc (7 - length t) + length t" using t by simp
  then show "padding_remove_iso7816_4 (rev (pre @ padding_add_iso7816_4 t)) = Some (8 - length t)"
    using remove_iso_zeros [of "7 - length t" "length t" 1 "rev t @ rev pre"] t
    by (simp add: padding_remove_iso7816_4_def padding_add_iso7816_4_def)
qed

lemma remove_pkcs7_run: "remove_pkcs7_loop n x (replicate n x @ before) = Some (unat x)"
  by (induction n) simp_all

interpretation pkcs7: padding_scheme padding_add_pkcs7 padding_remove_pkcs7
proof
  fix t pre :: "u8 list" assume t: "length t < 8"
  then show "length (padding_add_pkcs7 t) = 8" "take (length t) (padding_add_pkcs7 t) = t" by (simp_all add: padding_add_pkcs7_def Let_def)
  obtain n where n: "8 - length t = Suc n" "n < 8" using t by (cases "8 - length t") auto
  then have u: "unat (of_nat (Suc n) :: u8) = Suc n" by (simp only: unat_of_nat) (simp add: take_bit_nat_eq_self)
  have "rev (pre @ padding_add_pkcs7 t) = of_nat (Suc n) # replicate n (of_nat (Suc n)) @ rev t @ rev pre"
    by (simp only: padding_add_pkcs7_def Let_def n(1)) (simp add: replicate_append_same)
  then show "padding_remove_pkcs7 (rev (pre @ padding_add_pkcs7 t)) = Some (8 - length t)"
    by (simp only: padding_remove_pkcs7_def list.case u n(1) diff_Suc_1 remove_pkcs7_run)
qed

interpretation des_iso7816_4: padded_cipher "des_crypt (des_main_ks key)" "des_crypt (reverse_keys (des_main_ks key))"
  padding_add_iso7816_4 padding_remove_iso7816_4 for key ..

interpretation des_pkcs7: padded_cipher "des_crypt (des_main_ks key)" "des_crypt (reverse_keys (des_main_ks key))"
  padding_add_pkcs7 padding_remove_pkcs7 for key ..

text \<open>What the locale promises of a pair of padding functions is the round trip of a mode that selects them.\<close>

lemma des_codec:
  fixes str key :: "u8 list" and mode :: int
  defines "t \<equiv> drop (8 * (length str div 8)) str"
  defines "c \<equiv> crypt_blocks (des_crypt (des_main_ks key)) str @ des_crypt (des_main_ks key) (padding_add_func mode t)"
  defines "buffer \<equiv> crypt_blocks (des_crypt (reverse_keys (des_main_ks key))) c"
  assumes "length key = 8" "check_padding_mode mode = Inr ()" "length t < 8" "length c mod 8 = 0" "length c \<noteq> 0"
    "padding_remove_func mode (rev buffer) = Some (8 - length t)" "take (length c - (8 - length t)) buffer = str"
    "length c = 8 * (length str div 8) + 8" "length str < 2 ^ 31 - 8"
  shows "ldesencode key str mode = Some (Inr c) \<and> ldesdecode key c mode = Some (Inr str)"
proof -
  have sz: "c_int (length str) = int (length str)" "c_int (length str - 8 * (length str div 8)) = int (length t)"
    using assms(12) by (simp_all add: c_int_small t_def)
  have chunk: "8 * ((length str + 8) div 8) = 8 * (length str div 8) + 8"
    using div_add_self2 [of "8 :: nat" "length str"] by simp
  have "\<not> int (length str) - 7 < INT_MIN" by (simp add: INT_MIN_def)
  then have "ldesencode key str mode = Some (Inr c)"
    using assms(4-6)
    by (simp add: ldesencode_def des_key_def add_padding_def Let_def sz chunk c_def t_def [symmetric] del: div_add_self2)
  moreover have "int (length c) \<le> INT_MAX" using assms(11,12) by (simp add: INT_MAX_def)
  then have "ldesdecode key c mode = Some (Inr str)"
    using assms(4-10) by (simp add: ldesdecode_def des_key_def remove_padding_def Let_def buffer_def [symmetric])
  ultimately show ?thesis by blast
qed

text \<open>
  C17: Decryption undoes encryption: with an eight-byte key and either padding mode, \<open>ldesencode\<close> encrypts
  every text of fewer than \<open>2^31 - 8\<close> bytes, and \<open>ldesdecode\<close> with the same key and mode returns the text.
\<close>

theorem des_roundtrip:
  assumes "length key = 8" "mode \<in> {PADDING_MODE_ISO7816_4, PADDING_MODE_PKCS7}"
    and bound: "length str < 2 ^ 31 - 8"
  shows "\<exists>c. ldesencode key str mode = Some (Inr c) \<and> ldesdecode key c mode = Some (Inr str)"
proof -
  have mode: "check_padding_mode mode = Inr ()"
    using assms(2) by (auto simp: check_padding_mode_def PADDING_MODE_ISO7816_4_def PADDING_MODE_PKCS7_def PADDING_MODE_COUNT_def)
  note modes = padding_add_func_def padding_remove_func_def PADDING_MODE_ISO7816_4_def PADDING_MODE_PKCS7_def
  from assms(2) have "mode = 0 \<or> mode = 1" by (auto simp: modes)
  then show ?thesis
  proof
    assume "mode = 0"
    then have f: "padding_add_func mode = padding_add_iso7816_4" "padding_remove_func mode = padding_remove_iso7816_4" by (simp_all add: modes)
    show ?thesis by (rule exI, rule des_codec [OF assms(1) mode], unfold f) (rule des_iso7816_4.roundtrip bound)+
  next
    assume "mode = 1"
    then have f: "padding_add_func mode = padding_add_pkcs7" "padding_remove_func mode = padding_remove_pkcs7" by (simp_all add: modes)
    show ?thesis by (rule exI, rule des_codec [OF assms(1) mode], unfold f) (rule des_pkcs7.roundtrip bound)+
  qed
qed

theorem des_roundtrip_witness:
  "\<exists>c. ldesencode [1, 2, 3, 4, 5, 6, 7, 8] [104, 105] PADDING_MODE_PKCS7 = Some (Inr c) \<and>
    ldesdecode [1, 2, 3, 4, 5, 6, 7, 8] c PADDING_MODE_PKCS7 = Some (Inr [104, 105])"
  by (rule des_roundtrip) simp_all


text \<open>
  Removal of the padding \<open>pkcs7\<close> trusts the length in the last byte: for a text that decrypts to one block
  of eight equal bytes above eight, it reads in front of the buffer.
\<close>

lemma remove_pkcs7_underrun: "m < n \<Longrightarrow> remove_pkcs7_loop n x (replicate m x) = None"
proof (induction m arbitrary: n)
  case 0
  then show ?case by (cases n) simp_all
next
  case (Suc m)
  then show ?case by (cases n) simp_all
qed

lemma pkcs7_reads_before_buffer:
  assumes "length key = 8" "8 < unat b"
  shows "ldesdecode key (des_crypt (des_main_ks key) (replicate 8 b)) PADDING_MODE_PKCS7 = None"
proof -
  have "crypt_blocks (des_crypt (reverse_keys (des_main_ks key))) (des_crypt (des_main_ks key) (replicate 8 b)) = replicate 8 b"
    using des.dec_enc [of "replicate 8 b" key]
    by (simp add: crypt_blocks.simps [of _ "des_crypt _ _"] des_crypt_length crypt_blocks.simps [of _ "[]"])
  moreover have "replicate 8 b = b # replicate 7 b" using replicate_Suc [of 7 b] by simp
  then have "padding_remove_pkcs7 (rev (replicate 8 b)) = None"
    using assms(2) unfolding rev_replicate by (simp add: padding_remove_pkcs7_def remove_pkcs7_underrun)
  ultimately show ?thesis using assms(1)
    by (simp add: ldesdecode_def des_key_def des_crypt_length remove_padding_def check_padding_mode_def padding_remove_func_def
        PADDING_MODE_ISO7816_4_def PADDING_MODE_PKCS7_def PADDING_MODE_COUNT_def Let_def)
qed

end
