(* ===== verification/Crypt_Dh.thy ===== *)
theory Crypt_Dh
  imports Skynet_Prelude
begin

text \<open>
  The Diffie-Hellman key exchange of \<^verbatim>\<open>lualib-src/lua-crypt.c\<close>: arithmetic modulo the biggest 64-bit
  prime on \<open>uint64_t\<close>, where products and even sums overflow. A Lua string is its list of bytes; a
  function registered in Lua returns \<open>Inl\<close> the text of a Lua error or \<open>Inr\<close> the string it pushes.
\<close>

unbundle bit_operations_syntax

section \<open>Definitions\<close>

definition P :: u64 where "P = 0xffffffffffffffc5"
definition G :: u64 where "G = 5"

text \<open>The loop of \<open>mul_mod_p\<close>.\<close>

function mul_loop :: "u64 \<Rightarrow> u64 \<Rightarrow> u64 \<Rightarrow> u64" where
  "mul_loop a b m =
     (if b = 0 then m
      else
        let m = (if b AND 1 \<noteq> 0 then (let t = P - a in if m \<ge> t then m - t else m + a) else m);
            a = (if a \<ge> P - a then a * 2 - P else a * 2)
        in mul_loop a (drop_bit 1 b) m)"
  by pat_completeness auto
termination
  by (relation "measure (\<lambda>(a, b, m). unat b)") (auto simp: unat_drop_bit_eq drop_bit_Suc drop_bit_eq_div unat_div intro!: div_less_dividend simp flip: unat_gt_0)

declare mul_loop.simps [simp del]

definition mul_mod_p :: "u64 \<Rightarrow> u64 \<Rightarrow> u64" where
  "mul_mod_p a b = mul_loop a b 0"

text \<open>The recursion ends at exponent one: for exponent zero it does not return.\<close>

partial_function (option) pow_mod_p :: "u64 \<Rightarrow> u64 \<Rightarrow> u64 option" where
  "pow_mod_p a b =
     (if b = 1 then Some a
      else do {
        t \<leftarrow> pow_mod_p a (drop_bit 1 b);
        let t = mul_mod_p t t;
        Some (if b mod 2 \<noteq> 0 then mul_mod_p t a else t)
      })"

definition powmodp :: "u64 \<Rightarrow> u64 \<Rightarrow> u64 option" where
  "powmodp a b = pow_mod_p (if a > P then a mod P else a) b"

definition le32 :: "u8 list \<Rightarrow> u32" where
  "le32 x = ucast (x ! 0) OR push_bit 8 (ucast (x ! 1)) OR push_bit 16 (ucast (x ! 2)) OR push_bit 24 (ucast (x ! 3))"

definition read64 :: "u8 list \<Rightarrow> u8 list \<Rightarrow> string + (u32 \<times> u32) \<times> (u32 \<times> u32)" where
  "read64 x y =
     (if length x \<noteq> 8 then Inl ''Invalid uint64 x''
      else if length y \<noteq> 8 then Inl ''Invalid uint64 y''
      else Inr ((le32 x, le32 (drop 4 x)), (le32 y, le32 (drop 4 y))))"

definition join64 :: "u32 \<times> u32 \<Rightarrow> u64" where
  "join64 x = ucast (fst x) OR push_bit 32 (ucast (snd x))"

definition push64 :: "u64 \<Rightarrow> u8 list" where
  "push64 r = [ucast (r AND 0xff), ucast (drop_bit 8 r AND 0xff), ucast (drop_bit 16 r AND 0xff),
     ucast (drop_bit 24 r AND 0xff), ucast (drop_bit 32 r AND 0xff), ucast (drop_bit 40 r AND 0xff),
     ucast (drop_bit 48 r AND 0xff), ucast (drop_bit 56 r AND 0xff)]"

definition cant_be_0 :: string where
  "cant_be_0 = ''Can'' @ [CHR 0x27] @ ''t be 0''"

text \<open>The outer \<open>None\<close> is a computation that does not return.\<close>

definition ldhsecret :: "u8 list \<Rightarrow> u8 list \<Rightarrow> (string + u8 list) option" where
  "ldhsecret x y =
     (case read64 x y of
        Inl e \<Rightarrow> Some (Inl e)
      | Inr (x, y) \<Rightarrow>
          (let xx = join64 x; yy = join64 y in
           if xx = 0 \<or> yy = 0 then Some (Inl cant_be_0)
           else do { r \<leftarrow> powmodp xx yy; Some (Inr (push64 r)) }))"

definition ldhexchange :: "u8 list \<Rightarrow> (string + u8 list) option" where
  "ldhexchange x =
     (if length x \<noteq> 8 then Some (Inl ''Invalid dh uint64 key'')
      else
        (let x64 = join64 (le32 x, le32 (drop 4 x)) in
         if x64 = 0 then Some (Inl cant_be_0)
         else do { r \<leftarrow> powmodp G x64; Some (Inr (push64 r)) }))"

section \<open>Modular arithmetic\<close>

definition p :: nat where "p = 18446744073709551557"

lemma p_facts: "unat P = p" "0 < p" "1 < p" "p < 2 ^ 64"
  by (simp_all add: P_def p_def)

lemma unat_sub_P: "unat a \<le> p \<Longrightarrow> unat (P - a) = p - unat a"
  by (simp add: unat_sub p_facts word_le_nat_alt)

lemma sum_mod_p:
  assumes "unat a \<le> p" "unat m < p"
  shows "unat (if m \<ge> P - a then m - (P - a) else m + a) = (unat m + unat a) mod p"
proof (cases "m \<ge> P - a")
  case True
  then have le: "p - unat a \<le> unat m" using assms by (simp add: word_le_nat_alt unat_sub_P)
  have "unat (m - (P - a)) = unat m + unat a - p" using True le assms by (simp add: unat_sub unat_sub_P)
  also have "\<dots> = (unat m + unat a) mod p" using le assms by (subst le_mod_geq) simp_all
  finally show ?thesis using True by simp
next
  case False
  then have less: "unat m + unat a < p" using assms by (simp add: word_le_nat_alt unat_sub_P)
  then have "unat (m + a) = unat m + unat a" using p_facts(4) by (subst unat_add_lem [THEN iffD1]) simp_all
  with less False show ?thesis by simp
qed

lemma double_mod_p:
  assumes "unat a \<le> p"
  shows "unat (if a \<ge> P - a then a * 2 - P else a * 2) \<le> p \<and>
    unat (if a \<ge> P - a then a * 2 - P else a * 2) mod p = (2 * unat a) mod p"
proof (cases "a \<ge> P - a")
  case True
  then have le: "p \<le> 2 * unat a" using assms by (simp add: word_le_nat_alt unat_sub_P)
  have "a * 2 - P = a - (P - a)" by simp
  then have "unat (a * 2 - P) = unat (a - (P - a))" by (rule arg_cong)
  then have e: "unat (a * 2 - P) = 2 * unat a - p" using unat_sub [OF True] assms le by (simp add: unat_sub_P)
  have "(2 * unat a - p) mod p = (2 * unat a) mod p" using le by (simp add: le_mod_geq)
  with e True assms show ?thesis by simp
next
  case False
  then have less: "2 * unat a < p" using assms by (simp add: word_le_nat_alt unat_sub_P)
  then have "unat (a * 2) = 2 * unat a" using p_facts(4) by (simp add: unat_word_ariths)
  with less False show ?thesis by simp
qed

lemma unat_half: "unat (drop_bit 1 b) = unat b div 2" for b :: u64
  by (simp add: drop_bit_Suc unat_div)

lemma mul_loop_spec:
  "unat a \<le> p \<Longrightarrow> unat m < p \<Longrightarrow> unat (mul_loop a b m) = (unat m + unat a * unat b) mod p"
proof (induction a b m rule: mul_loop.induct)
  case (1 a b m)
  show ?case
  proof (cases "b = 0")
    case True
    then show ?thesis using "1.prems" by (simp add: mul_loop.simps)
  next
    case False
    define m' where "m' = (if b AND 1 \<noteq> 0 then (let t = P - a in if m \<ge> t then m - t else m + a) else m)"
    define a' where "a' = (if a \<ge> P - a then a * 2 - P else a * 2)"
    have a': "unat a' \<le> p" "unat a' mod p = (2 * unat a) mod p" using double_mod_p [OF "1.prems"(1)] by (simp_all only: a'_def)
    have "unat (b AND 1) = unat b mod 2" by (simp add: and_one_eq unat_mod)
    then have bit: "b AND 1 \<noteq> 0 \<longleftrightarrow> odd (unat b)" using unat_eq_0 [of "b AND 1"] by (metis even_iff_mod_2_eq_zero)
    have m': "unat m' = (unat m + unat a * (unat b mod 2)) mod p"
      using sum_mod_p [OF "1.prems"] "1.prems"(2) by (simp add: m'_def Let_def bit mod2_eq_if)
    have "unat (mul_loop a b m) = unat (mul_loop a' (drop_bit 1 b) m')"
      using False by (subst mul_loop.simps) (simp add: Let_def a'_def m'_def)
    also have "\<dots> = (unat m' + unat a' * (unat b div 2)) mod p"
      unfolding unat_half [symmetric] using a'(1) m' p_facts(2) by (intro "1.IH" [OF False m'_def a'_def]) simp_all
    also have "\<dots> = (unat m' mod p + (unat a' mod p) * (unat b div 2)) mod p"
      by (rule mod_add_cong) (simp_all add: mod_mult_left_eq)
    also have "\<dots> = ((unat m + unat a * (unat b mod 2)) mod p + (2 * unat a) mod p * (unat b div 2)) mod p"
      unfolding a'(2) m' by simp
    also have "\<dots> = (unat m + unat a * (unat b mod 2) + 2 * unat a * (unat b div 2)) mod p"
      by (rule mod_add_cong) (simp_all only: mod_mod_trivial mod_mult_left_eq)
    also have "unat m + unat a * (unat b mod 2) + 2 * unat a * (unat b div 2) = unat m + unat a * (2 * (unat b div 2) + unat b mod 2)"
      by (simp only: algebra_simps)
    finally show ?thesis by simp
  qed
qed

lemma mul_mod_p_spec: "unat a \<le> p \<Longrightarrow> unat (mul_mod_p a b) = unat a * unat b mod p"
  by (simp add: mul_mod_p_def mul_loop_spec p_facts)

lemma pow_mod_p_spec:
  assumes "unat a \<le> p" "b \<noteq> 0"
  shows "\<exists>r. pow_mod_p a b = Some r \<and> unat r = (if b = 1 then unat a else unat a ^ unat b mod p)"
  using assms(2)
proof (induction "unat b" arbitrary: b rule: less_induct)
  case less
  show ?case
  proof (cases "b = 1")
    case True
    then show ?thesis by (subst pow_mod_p.simps) simp
  next
    case False
    define c where "c = drop_bit 1 b"
    have u: "unat c = unat b div 2" by (simp only: c_def unat_half)
    have "unat b \<noteq> 0" "unat b \<noteq> 1" using less.prems False by (simp_all add: unat_eq_0) (metis unat_1 word_eq_iff_unsigned One_nat_def)
    then have "1 < unat b" by simp
    then have c: "unat c < unat b" "c \<noteq> 0" using u by (auto simp: unat_eq_0 [symmetric] div_eq_0_iff)
    obtain t where t: "pow_mod_p a c = Some t" "unat t \<le> p" "unat t mod p = unat a ^ unat c mod p"
      using less.hyps [OF c] assms(1) p_facts(2) by (auto split: if_splits simp: less_imp_le)
    define s where "s = mul_mod_p t t"
    have s: "unat s = unat a ^ (2 * (unat b div 2)) mod p"
    proof -
      have "unat s = (unat t mod p) * (unat t mod p) mod p" using mul_mod_p_spec [OF t(2)] by (simp add: s_def mod_simps)
      also have "\<dots> = unat a ^ unat c * unat a ^ unat c mod p" unfolding t(3) by (simp add: mod_simps)
      finally show ?thesis by (simp add: u power_add [symmetric] mult_2)
    qed
    define r where "r = (if b mod 2 \<noteq> 0 then mul_mod_p s a else s)"
    have odd: "b mod 2 \<noteq> 0 \<longleftrightarrow> odd (unat b)"
      using unat_eq_0 [of "b mod 2"] unat_mod [of b 2] by (simp add: even_iff_mod_2_eq_zero)
    have r: "unat r = unat a ^ unat b mod p"
    proof (cases "odd (unat b)")
      case True
      then have "unat b = Suc (2 * (unat b div 2))" by simp
      then have "unat a ^ unat b = unat a ^ (2 * (unat b div 2)) * unat a" by (metis power_Suc2)
      moreover have "unat s \<le> p" using s p_facts(2) by (simp add: less_imp_le)
      moreover have "r = mul_mod_p s a" unfolding r_def using odd True by (metis (full_types))
      ultimately show ?thesis using mul_mod_p_spec [of s a] by (simp add: s mod_simps)
    next
      case False
      then have "b mod 2 = 0" using odd by blast
      then have "r = s" by (simp add: r_def)
      then show ?thesis using s False by simp
    qed
    moreover have "pow_mod_p a b = Some r"
      using False t(1) by (subst pow_mod_p.simps) (simp add: c_def s_def r_def Let_def)
    ultimately show ?thesis using False by simp
  qed
qed

section \<open>Strings of eight bytes\<close>

lemma ucast_byte: "ucast (x AND 0xff) = (ucast x :: u8)" for x :: u64
proof (rule bit_word_eqI)
  fix n assume "n < LENGTH(8)"
  moreover have m: "(0xff :: u64) = mask 8" by (simp add: mask_eq_exp_minus_1)
  ultimately show "bit (ucast (x AND 0xff) :: u8) n = bit (ucast x :: u8) n" unfolding m by (auto simp: bit_simps)
qed

lemma le32_bytes:
  "le32 (ucast w # ucast (drop_bit 8 w) # ucast (drop_bit 16 w) # ucast (drop_bit 24 w) # xs) = ucast w" for w :: u64
proof (rule bit_word_eqI)
  fix n assume n: "n < LENGTH(32)"
  consider "n < 8" | "8 \<le> n" "n < 16" | "16 \<le> n" "n < 24" | "24 \<le> n" by linarith
  then show "bit (le32 (ucast w # ucast (drop_bit 8 w) # ucast (drop_bit 16 w) # ucast (drop_bit 24 w) # xs)) n = bit (ucast w :: u32) n"
    using n by cases (auto simp: le32_def bit_simps)
qed

lemma join64_push64: "join64 (le32 (push64 r), le32 (drop 4 (push64 r))) = r"
proof -
  have hi: "drop 4 (push64 r) = [ucast (drop_bit 32 r), ucast (drop_bit 8 (drop_bit 32 r)), ucast (drop_bit 16 (drop_bit 32 r)), ucast (drop_bit 24 (drop_bit 32 r))]"
    by (simp add: push64_def ucast_byte)
  have "join64 (ucast r, ucast (drop_bit 32 r)) = r"
  proof (rule bit_word_eqI)
    fix n assume "n < LENGTH(64)"
    then show "bit (join64 (ucast r, ucast (drop_bit 32 r))) n = bit r n"
      by (cases "n < 32") (auto simp: join64_def bit_simps)
  qed
  then show ?thesis unfolding hi le32_bytes by (simp add: push64_def ucast_byte le32_bytes)
qed

lemma length_push64 [simp]: "length (push64 r) = 8"
  by (simp add: push64_def)

lemma powmodp_spec:
  assumes "b \<noteq> 0"
  shows "\<exists>r. powmodp a b = Some r \<and> unat r = (if a = P \<and> b = 1 then p else unat a ^ unat b mod p)"
proof -
  define a' where "a' = (if a > P then a mod P else a)"
  have a': "unat a' \<le> p" "unat a' mod p = unat a mod p" "b = 1 \<Longrightarrow> a \<noteq> P \<Longrightarrow> unat a' = unat a mod p"
    using p_facts(1,2) by (auto simp: a'_def unat_mod word_less_nat_alt less_imp_le word_eq_iff_unsigned [where ?'a = nat])
  obtain r where r: "pow_mod_p a' b = Some r" "unat r = (if b = 1 then unat a' else unat a' ^ unat b mod p)"
    using pow_mod_p_spec [OF a'(1) assms] by blast
  have "unat a' ^ unat b mod p = unat a ^ unat b mod p" using a'(2) by (metis power_mod)
  then show ?thesis using r a'(3) by (auto simp: powmodp_def a'_def [symmetric] p_facts(1))
     (simp add: a'_def p_facts(1))
qed

text \<open>
  \<open>powmodp\<close> is modular exponentiation, although the products do not fit in 64 bits: for a nonzero
  exponent it returns \<open>a ^ b\<close> modulo \<open>P\<close>. The one exception is the base \<open>P\<close> itself with exponent one,
  which is returned unreduced.
\<close>

theorem powmodp_correct:
  assumes "b \<noteq> 0"
  shows "\<exists>r. powmodp a b = Some r \<and> unat r = (if a = P \<and> b = 1 then unat P else unat a ^ unat b mod unat P)"
  using powmodp_spec [OF assms, of a] unfolding p_facts(1) .

theorem powmodp_correct_witness:
  "\<exists>r. powmodp 2 100 = Some r \<and> unat r = 2 ^ 100 mod unat P"
proof -
  have "(2 :: u64) \<noteq> P" "unat (2 :: u64) = 2" "unat (100 :: u64) = 100" by (simp_all add: P_def)
  then show ?thesis using powmodp_correct [of 100 2] by simp
qed


section \<open>The shared secret\<close>

lemma pow5_pos: "0 < 5 ^ n mod p"
proof -
  have "coprime (5 ^ n) p" by (rule coprime_power_left_iff [THEN iffD2]) (simp add: p_def coprime_iff_gcd_eq_1 gcd_non_0_nat)
  then show ?thesis using p_facts(3) by (metis coprime_absorb_right gr0I less_irrefl mod_0_imp_dvd nat_dvd_1_iff_1)
qed


lemma ldhexchange_value:
  assumes "length x = 8" "join64 (le32 x, le32 (drop 4 x)) = k" "k \<noteq> 0"
  shows "\<exists>r. ldhexchange x = Some (Inr (push64 r)) \<and> unat r = 5 ^ unat k mod p"
proof -
  have "G \<noteq> P" "unat G = 5" by (simp_all add: G_def P_def)
  then obtain r where "powmodp G k = Some r" "unat r = 5 ^ unat k mod p"
    using powmodp_spec [OF assms(3), of G] by auto
  then show ?thesis using assms by (auto simp: ldhexchange_def Let_def)
qed

lemma ldhsecret_value:
  assumes "unat r = 5 ^ unat k mod p" "length y = 8" "join64 (le32 y, le32 (drop 4 y)) = l" "l \<noteq> 0"
  shows "\<exists>s. ldhsecret (push64 r) y = Some (Inr (push64 s)) \<and> unat s = 5 ^ (unat k * unat l) mod p"
proof -
  have "r \<noteq> 0" using pow5_pos [of "unat k"] assms(1) by (auto simp: unat_eq_0)
  moreover have "r \<noteq> P" using assms(1) p_facts(1,2) by (metis less_irrefl mod_less_divisor)
  then obtain s where "powmodp r l = Some s" "unat s = unat r ^ unat l mod p"
    using powmodp_spec [OF assms(4), of r] by auto
  ultimately show ?thesis using assms
    by (auto simp: ldhsecret_def read64_def join64_push64 Let_def power_mult power_mod)
qed

text \<open>
  C18: Diffie-Hellman agreement: two parties with nonzero eight-byte keys exchange \<open>ldhexchange\<close> of their
  keys, neither call fails, and both compute the same secret with \<open>ldhsecret\<close>.
\<close>

theorem dh_agreement:
  assumes "length x = 8" "length y = 8" "join64 (le32 x, le32 (drop 4 x)) \<noteq> 0" "join64 (le32 y, le32 (drop 4 y)) \<noteq> 0"
  shows "\<exists>X Y s. ldhexchange x = Some (Inr X) \<and> ldhexchange y = Some (Inr Y) \<and>
    ldhsecret X y = Some (Inr s) \<and> ldhsecret Y x = Some (Inr s)"
proof -
  define k l where "k = join64 (le32 x, le32 (drop 4 x))" and "l = join64 (le32 y, le32 (drop 4 y))"
  obtain r t where r: "ldhexchange x = Some (Inr (push64 r))" "unat r = 5 ^ unat k mod p"
    and t: "ldhexchange y = Some (Inr (push64 t))" "unat t = 5 ^ unat l mod p"
    using ldhexchange_value assms k_def l_def by metis
  obtain s s' where s: "ldhsecret (push64 r) y = Some (Inr (push64 s))" "unat s = 5 ^ (unat k * unat l) mod p"
    and s': "ldhsecret (push64 t) x = Some (Inr (push64 s'))" "unat s' = 5 ^ (unat l * unat k) mod p"
    using ldhsecret_value r(2) t(2) assms k_def l_def by metis
  have "s = s'" using s(2) s'(2) by (metis mult.commute word_eq_iff_unsigned)
  with r t s s' show ?thesis by blast
qed

theorem dh_agreement_witness:
  "\<exists>X Y s. ldhexchange [1, 2, 3, 4, 5, 6, 7, 8] = Some (Inr X) \<and> ldhexchange [9, 0, 0, 0, 0, 0, 0, 0] = Some (Inr Y) \<and>
    ldhsecret X [9, 0, 0, 0, 0, 0, 0, 0] = Some (Inr s) \<and> ldhsecret Y [1, 2, 3, 4, 5, 6, 7, 8] = Some (Inr s)"
  by (rule dh_agreement) (simp_all add: join64_def le32_def)

end
