(* ===== verification/Crypt_Sha1.thy ===== *)
theory Crypt_Sha1
  imports Skynet_Prelude
begin

text \<open>
  SHA-1 and HMAC-SHA-1, \<^verbatim>\<open>lualib-src/lsha1.c\<close>, for the little-endian targets. A Lua string is its list of
  bytes. The working variables of the unrolled rounds change their roles from one macro call to the
  next; here a round returns them in the order in which the next call names them, so that after the
  eighty rounds they are back in place.

  The reference definitions follow FIPS 180 and RFC 2104: the padded message, the schedule of eighty
  words, the functions and constants of the rounds, and the two nested hashes.
\<close>

unbundle bit_operations_syntax

section \<open>Definitions\<close>

record SHA1_CTX =
  sha_state :: "u32 \<times> u32 \<times> u32 \<times> u32 \<times> u32"
  count0 :: u32
  count1 :: u32
  sha_buffer :: "u8 list"

definition SHA1_DIGEST_SIZE :: nat where "SHA1_DIGEST_SIZE = 20"
definition BLOCKSIZE :: nat where "BLOCKSIZE = 64"

definition rol :: "u32 \<Rightarrow> nat \<Rightarrow> u32" where
  "rol v n = push_bit n v OR drop_bit (32 - n) v"

definition blk0 :: "nat \<Rightarrow> u32 list \<Rightarrow> u32 list" where
  "blk0 i l = l[i := (rol (l ! i) 24 AND 0xFF00FF00) OR (rol (l ! i) 8 AND 0x00FF00FF)]"

definition blk :: "nat \<Rightarrow> u32 list \<Rightarrow> u32 list" where
  "blk i l = l[i mod 16 := rol (l ! ((i + 13) mod 16) XOR l ! ((i + 8) mod 16) XOR l ! ((i + 2) mod 16) XOR l ! (i mod 16)) 1]"

type_synonym sha_regs = "u32 \<times> u32 \<times> u32 \<times> u32 \<times> u32"

definition R0 :: "sha_regs \<Rightarrow> nat \<Rightarrow> u32 list \<Rightarrow> sha_regs \<times> u32 list" where
  "R0 r i l = (let (v, w, x, y, z) = r; l = blk0 i l;
     z = z + ((w AND (x XOR y)) XOR y) + l ! i + 0x5A827999 + rol v 5; w = rol w 30 in ((z, v, w, x, y), l))"

definition R1 :: "sha_regs \<Rightarrow> nat \<Rightarrow> u32 list \<Rightarrow> sha_regs \<times> u32 list" where
  "R1 r i l = (let (v, w, x, y, z) = r; l = blk i l;
     z = z + ((w AND (x XOR y)) XOR y) + l ! (i mod 16) + 0x5A827999 + rol v 5; w = rol w 30 in ((z, v, w, x, y), l))"

definition R2 :: "sha_regs \<Rightarrow> nat \<Rightarrow> u32 list \<Rightarrow> sha_regs \<times> u32 list" where
  "R2 r i l = (let (v, w, x, y, z) = r; l = blk i l;
     z = z + (w XOR x XOR y) + l ! (i mod 16) + 0x6ED9EBA1 + rol v 5; w = rol w 30 in ((z, v, w, x, y), l))"

definition R3 :: "sha_regs \<Rightarrow> nat \<Rightarrow> u32 list \<Rightarrow> sha_regs \<times> u32 list" where
  "R3 r i l = (let (v, w, x, y, z) = r; l = blk i l;
     z = z + (((w OR x) AND y) OR (w AND x)) + l ! (i mod 16) + 0x8F1BBCDC + rol v 5; w = rol w 30 in ((z, v, w, x, y), l))"

definition R4 :: "sha_regs \<Rightarrow> nat \<Rightarrow> u32 list \<Rightarrow> sha_regs \<times> u32 list" where
  "R4 r i l = (let (v, w, x, y, z) = r; l = blk i l;
     z = z + (w XOR x XOR y) + l ! (i mod 16) + 0xCA62C1D6 + rol v 5; w = rol w 30 in ((z, v, w, x, y), l))"

text \<open>The macro call of round \<open>i\<close>, and the calls from round \<open>i\<close> on.\<close>

definition sha_round :: "nat \<Rightarrow> sha_regs \<times> u32 list \<Rightarrow> sha_regs \<times> u32 list" where
  "sha_round i s =
     (let (r, l) = s in
      if i < 16 then R0 r i l else if i < 20 then R1 r i l else if i < 40 then R2 r i l
      else if i < 60 then R3 r i l else R4 r i l)"

text \<open>The union of bytes and words: word \<open>i\<close> in the little-endian order of the target.\<close>

definition block_word :: "u8 list \<Rightarrow> nat \<Rightarrow> u32" where
  "block_word b i = ucast (b ! (4 * i)) OR push_bit 8 (ucast (b ! (4 * i + 1))) OR push_bit 16 (ucast (b ! (4 * i + 2))) OR
     push_bit 24 (ucast (b ! (4 * i + 3)))"

definition SHA1_Transform :: "sha_regs \<Rightarrow> u8 list \<Rightarrow> sha_regs" where
  "SHA1_Transform state buffer =
     (let ((a, b, c, d, e), l) = fold sha_round [0..<80] (state, map (block_word buffer) [0..<16]);
          (s0, s1, s2, s3, s4) = state
      in (s0 + a, s1 + b, s2 + c, s3 + d, s4 + e))"

definition sat_SHA1_Init :: "u8 list \<Rightarrow> SHA1_CTX" where
  "sat_SHA1_Init buffer =
     \<lparr>sha_state = (0x67452301, 0xEFCDAB89, 0x98BADCFE, 0x10325476, 0xC3D2E1F0), count0 = 0, count1 = 0, sha_buffer = buffer\<rparr>"

text \<open>The loop over the complete blocks of the data: the state and the bytes that are left.\<close>

function sha_blocks :: "sha_regs \<Rightarrow> u8 list \<Rightarrow> sha_regs \<times> u8 list" where
  "sha_blocks state data =
     (if length data < 64 then (state, data) else sha_blocks (SHA1_Transform state (take 64 data)) (drop 64 data))"
  by pat_completeness auto
termination by (relation "measure (\<lambda>(s, d). length d)") auto

declare sha_blocks.simps [simp del]

text \<open>A copy into the buffer at offset \<open>j\<close>.\<close>

definition buffer_copy :: "u8 list \<Rightarrow> nat \<Rightarrow> u8 list \<Rightarrow> u8 list" where
  "buffer_copy buffer j data = take j buffer @ data @ drop (j + length data) buffer"

text \<open>
  The carry test compares the 32-bit counter with the 64-bit \<open>len << 3\<close>.
\<close>

definition sat_SHA1_Update :: "SHA1_CTX \<Rightarrow> u8 list \<Rightarrow> SHA1_CTX" where
  "sat_SHA1_Update ctx data =
     (let len = of_nat (length data) :: u64;
          j = unat (drop_bit 3 (count0 ctx) AND 63);
          c0 = count0 ctx + ucast (push_bit 3 len);
          c1 = (if (ucast c0 :: u64) < push_bit 3 len then count1 ctx + 1 else count1 ctx);
          c1 = c1 + ucast (drop_bit 29 len)
      in
        if j + length data > 63 then
          (let i = 64 - j;
               buffer = buffer_copy (sha_buffer ctx) j (take i data);
               (state, rest) = sha_blocks (SHA1_Transform (sha_state ctx) buffer) (drop i data)
           in \<lparr>sha_state = state, count0 = c0, count1 = c1, sha_buffer = buffer_copy buffer 0 rest\<rparr>)
        else \<lparr>sha_state = sha_state ctx, count0 = c0, count1 = c1, sha_buffer = buffer_copy (sha_buffer ctx) j data\<rparr>)"

definition be_bytes :: "u32 \<Rightarrow> u8 list" where
  "be_bytes w = map (\<lambda>i. ucast (drop_bit ((3 - i) * 8) w AND 255)) [0..<4]"

lemma update_count0: "count0 (sat_SHA1_Update ctx [b]) = count0 ctx + 8"
  by (simp add: sat_SHA1_Update_def Let_def split: prod.splits)

text \<open>The loop that pads with zero bytes; each byte moves the counter towards \<open>448\<close> modulo \<open>512\<close> bits.\<close>

definition pad_left :: "u32 \<Rightarrow> nat" where
  "pad_left c = (120 - unat c div 8 mod 64) mod 64"

lemma byte_offset: "m div 8 mod 64 = (m mod 512) div 8" for m :: nat
  using mod_mult2_eq [of m 8 64] by simp

lemma byte_offset_32: "(m mod 2 ^ 32) div 8 mod 64 = m div 8 mod 64" for m :: nat
  by (simp add: byte_offset mod_mod_cancel)

lemma unat_and_504: "unat (c AND 504) = 8 * (unat c div 8 mod 64)" for c :: u32
proof -
  have m: "(504 :: u32) = push_bit 3 (mask 6)" by (simp add: mask_eq_exp_minus_1)
  have "c AND 504 = push_bit 3 (take_bit 6 (drop_bit 3 c))"
    unfolding m by (rule bit_word_eqI) (auto simp: bit_simps)
  moreover have "unat (take_bit 6 (drop_bit 3 c)) = unat c div 8 mod 64"
    by (simp add: unsigned_take_bit_eq unsigned_drop_bit_eq take_bit_eq_mod drop_bit_eq_div unat_div unat_mod)
  ultimately show ?thesis by (simp add: unat_word_ariths push_bit_eq_mult mult.commute)
qed

lemma pad_value: "j < 64 \<Longrightarrow> (120 - j) mod 64 = (if j \<le> 56 then 56 - j else 120 - j)" for j :: nat
proof -
  assume j: "j < 64"
  show ?thesis
  proof (cases "j \<le> 56")
    case True
    then have "120 - j = (56 - j) + 64" by simp
    then have "(120 - j) mod 64 = (56 - j) mod 64" by (simp only: mod_add_self2)
    then show ?thesis using True by simp
  qed (use j in simp)
qed

lemma pad_left_step:
  assumes "c AND 504 \<noteq> 448"
  shows "pad_left (c + 8) < pad_left c"
proof -
  define j where "j = unat c div 8 mod 64"
  have "unat (c AND 504) \<noteq> unat (448 :: u32)" using assms by (simp add: word_unat_eq_iff)
  then have j: "j \<noteq> 56" "j < 64" by (simp_all add: unat_and_504 j_def)
  have "unat (c + 8) div 8 mod 64 = (unat c + 8) div 8 mod 64" by (simp add: unat_word_ariths byte_offset_32 [simplified])
  then have "unat (c + 8) div 8 mod 64 = (if j = 63 then 0 else j + 1)" by (simp add: j_def mod_Suc div_add_self2)
  then show ?thesis using j by (auto simp: pad_left_def j_def [symmetric] pad_value)
qed

function sha_pad :: "SHA1_CTX \<Rightarrow> SHA1_CTX" where
  "sha_pad ctx = (if count0 ctx AND 504 \<noteq> 448 then sha_pad (sat_SHA1_Update ctx [0]) else ctx)"
  by pat_completeness auto
termination
  by (relation "measure (pad_left o count0)") (simp_all add: update_count0 pad_left_step)

declare sha_pad.simps [simp del]

definition sat_SHA1_Final :: "SHA1_CTX \<Rightarrow> u8 list" where
  "sat_SHA1_Final ctx =
     (let finalcount = be_bytes (count1 ctx) @ be_bytes (count0 ctx);
          ctx = sat_SHA1_Update ctx [0x80];
          ctx = sha_pad ctx;
          ctx = sat_SHA1_Update ctx finalcount;
          (a, b, c, d, e) = sha_state ctx
      in be_bytes a @ be_bytes b @ be_bytes c @ be_bytes d @ be_bytes e)"

text \<open>The contexts are on the stack, so that their buffers start with arbitrary bytes.\<close>

definition lsha1 :: "u8 list \<Rightarrow> u8 list \<Rightarrow> u8 list" where
  "lsha1 stack buffer = sat_SHA1_Final (sat_SHA1_Update (sat_SHA1_Init stack) buffer)"

text \<open>The key is changed word by word, in the little-endian order of the target.\<close>

definition xor_key :: "u8 list \<Rightarrow> u32 \<Rightarrow> u8 list" where
  "xor_key key x = map (\<lambda>i. key ! i XOR ucast (drop_bit (8 * (i mod 4)) x)) [0..<length key]"

definition lhmac_sha1 :: "u8 list \<Rightarrow> u8 list \<Rightarrow> u8 list \<Rightarrow> u8 list \<Rightarrow> u8 list \<Rightarrow> u8 list" where
  "lhmac_sha1 stack stack1 stack2 key str =
     (let rkey = replicate BLOCKSIZE 0;
          rkey = (if length key > BLOCKSIZE
                  then buffer_copy rkey 0 (sat_SHA1_Final (sat_SHA1_Update (sat_SHA1_Init stack) key))
                  else buffer_copy rkey 0 key);
          rkey = xor_key rkey 0x5c5c5c5c;
          ctx1 = sat_SHA1_Update (sat_SHA1_Init stack1) rkey;
          rkey = xor_key rkey (0x5c5c5c5c XOR 0x36363636);
          ctx2 = sat_SHA1_Update (sat_SHA1_Init stack2) rkey;
          ctx2 = sat_SHA1_Update ctx2 str;
          digest2 = sat_SHA1_Final ctx2;
          ctx1 = sat_SHA1_Update ctx1 digest2
      in sat_SHA1_Final ctx1)"

section \<open>Reference definitions\<close>

text \<open>FIPS 180: the functions, constants, schedule and step of the rounds.\<close>

definition sha_f :: "nat \<Rightarrow> u32 \<Rightarrow> u32 \<Rightarrow> u32 \<Rightarrow> u32" where
  "sha_f t x y z =
     (if t < 20 then (x AND y) XOR (NOT x AND z)
      else if t < 40 then x XOR y XOR z
      else if t < 60 then (x AND y) XOR (x AND z) XOR (y AND z)
      else x XOR y XOR z)"

definition sha_K :: "nat \<Rightarrow> u32" where
  "sha_K t = (if t < 20 then 0x5a827999 else if t < 40 then 0x6ed9eba1 else if t < 60 then 0x8f1bbcdc else 0xca62c1d6)"

definition be_word :: "u8 list \<Rightarrow> nat \<Rightarrow> u32" where
  "be_word m i = push_bit 24 (ucast (m ! (4 * i))) OR push_bit 16 (ucast (m ! (4 * i + 1))) OR
     push_bit 8 (ucast (m ! (4 * i + 2))) OR ucast (m ! (4 * i + 3))"

definition sha_W :: "u8 list \<Rightarrow> u32 list" where
  "sha_W m = fold (\<lambda>t W. W @ [word_rotl 1 (W ! (t - 3) XOR W ! (t - 8) XOR W ! (t - 14) XOR W ! (t - 16))])
     [16..<80] (map (be_word m) [0..<16])"

definition fips_step :: "u32 list \<Rightarrow> nat \<Rightarrow> sha_regs \<Rightarrow> sha_regs" where
  "fips_step W t r = (let (a, b, c, d, e) = r in
     (word_rotl 5 a + sha_f t b c d + e + sha_K t + W ! t, a, word_rotl 30 b, c, d))"

definition fips_compress :: "sha_regs \<Rightarrow> u8 list \<Rightarrow> sha_regs" where
  "fips_compress H m =
     (let (a, b, c, d, e) = fold (fips_step (sha_W m)) [0..<80] H; (h0, h1, h2, h3, h4) = H
      in (a + h0, b + h1, c + h2, d + h3, e + h4))"

text \<open>The padded message: a one bit, zero bits, and the length in bits as a 64-bit number.\<close>

definition fips_pad :: "u8 list \<Rightarrow> u8 list" where
  "fips_pad m = m @ [0x80] @ replicate ((119 - length m mod 64) mod 64) 0 @
     map (\<lambda>i. ucast (drop_bit (56 - 8 * i) (of_nat (8 * length m) :: u64))) [0..<8]"

fun fips_blocks :: "sha_regs \<Rightarrow> u8 list \<Rightarrow> sha_regs" where
  "fips_blocks H m = (if length m < 64 then H else fips_blocks (fips_compress H (take 64 m)) (drop 64 m))"

declare fips_blocks.simps [simp del]

definition fips_IV :: sha_regs where
  "fips_IV = (0x67452301, 0xefcdab89, 0x98badcfe, 0x10325476, 0xc3d2e1f0)"

definition fips_sha1 :: "u8 list \<Rightarrow> u8 list" where
  "fips_sha1 m =
     (let (a, b, c, d, e) = fips_blocks fips_IV (fips_pad m)
      in concat (map (\<lambda>w. map (\<lambda>i. ucast (drop_bit (24 - 8 * i) w)) [0..<4]) [a, b, c, d, e]))"

text \<open>RFC 2104.\<close>

definition rfc_hmac :: "u8 list \<Rightarrow> u8 list \<Rightarrow> u8 list" where
  "rfc_hmac K str =
     (let K = (if length K > 64 then fips_sha1 K else K);
          K = K @ replicate (64 - length K) 0;
          opad = map (\<lambda>k. k XOR 0x5c) K;
          ipad = map (\<lambda>k. k XOR 0x36) K
      in fips_sha1 (opad @ fips_sha1 (ipad @ str)))"

end
