(* ===== verification/Crypt_Sha1_Proofs.thy ===== *)
theory Crypt_Sha1_Proofs
  imports Crypt_Sha1
begin

text \<open>
  The code of \<^verbatim>\<open>lualib-src/lsha1.c\<close> computes SHA-1 of FIPS 180 and HMAC of RFC 2104: the in-place schedule
  of sixteen words is the schedule of eighty, a context represents the bytes given to it so far, and
  padding completes the last block.
\<close>

unbundle bit_operations_syntax

section \<open>Words\<close>

lemma rol_word_rotl:
  assumes "0 < k" "k < 32"
  shows "rol v k = word_rotl k v"
proof (rule bit_word_eqI)
  fix n assume "n < LENGTH(32)"
  then have n: "n < 32" by simp
  have l: "bit (rol v k) n \<longleftrightarrow> k \<le> n \<and> bit v (n - k) \<or> bit v (32 - k + n)" using n by (simp add: rol_def bit_simps)
  have r: "bit (word_rotl k v) n \<longleftrightarrow> bit v ((n + (32 - k)) mod 32)" using n assms by (simp add: bit_word_rotl_iff)
  show "bit (rol v k) n = bit (word_rotl k v) n"
  proof (cases "k \<le> n")
    case True
    then have "(n + (32 - k)) mod 32 = n - k" using n assms by (simp add: le_mod_geq)
    moreover have "\<not> bit v (32 - k + n)" using True bit_imp_le_length [of v "32 - k + n"] by auto
    ultimately show ?thesis unfolding l r using True by simp
  next
    case False
    then show ?thesis unfolding l r using n assms by (simp add: add.commute)
  qed
qed

lemma swap_bytes:
  "(rol (block_word b i) 24 AND 0xFF00FF00) OR (rol (block_word b i) 8 AND 0x00FF00FF) = be_word b i"
proof (rule bit_word_eqI)
  fix n assume n: "n < LENGTH(32)"
  have m: "(0xFF00FF00 :: u32) = push_bit 8 (mask 8) OR push_bit 24 (mask 8)" "(0x00FF00FF :: u32) = mask 8 OR push_bit 16 (mask 8)"
    by (simp_all add: mask_eq_exp_minus_1)
  consider "n < 8" | "8 \<le> n" "n < 16" | "16 \<le> n" "n < 24" | "24 \<le> n" by linarith
  then show "bit ((rol (block_word b i) 24 AND 0xFF00FF00) OR (rol (block_word b i) 8 AND 0x00FF00FF)) n = bit (be_word b i) n"
    unfolding m using n
    by cases (auto simp: rol_def block_word_def be_word_def bit_simps dest: bit_imp_le_length)
qed

lemma round_functions:
  "(w AND (x XOR y)) XOR y = (w AND x) XOR (NOT w AND y)"
  "((w OR x) AND y) OR (w AND x) = (w AND x) XOR (w AND y) XOR (x AND y)" for w x y :: u32
  by (rule bit_word_eqI; auto simp: bit_simps)+

section \<open>The schedule\<close>

definition sched :: "u8 list \<Rightarrow> nat \<Rightarrow> u32 list" where
  "sched m n = fold (\<lambda>t W. W @ [word_rotl 1 (W ! (t - 3) XOR W ! (t - 8) XOR W ! (t - 14) XOR W ! (t - 16))])
     [16..<n] (map (be_word m) [0..<16])"

lemma sched_Suc: "16 \<le> n \<Longrightarrow> sched m (Suc n) =
  sched m n @ [word_rotl 1 (sched m n ! (n - 3) XOR sched m n ! (n - 8) XOR sched m n ! (n - 14) XOR sched m n ! (n - 16))]"
  by (simp add: sched_def)

lemma length_sched: "16 \<le> n \<Longrightarrow> length (sched m n) = n"
proof (induction n rule: nat_induct_at_least)
  case base
  then show ?case by (simp add: sched_def)
next
  case (Suc n)
  then show ?case by (simp add: sched_Suc)
qed

lemma sched_stable: "16 \<le> n \<Longrightarrow> n \<le> k \<Longrightarrow> i < n \<Longrightarrow> sched m k ! i = sched m n ! i"
proof (induction k)
  case (Suc k)
  then show ?case by (cases "n = Suc k") (simp_all add: sched_Suc nth_append length_sched)
qed simp

lemma sha_W_sched: "sha_W m = sched m 80"
  by (simp only: sha_W_def sched_def)

lemma sha_W_first: "t < 16 \<Longrightarrow> sha_W m ! t = be_word m t"
  using sched_stable [of 16 80 t m] by (simp add: sha_W_sched sched_def [of m 16])

lemma sha_W_next:
  assumes "16 \<le> t" "t < 80"
  shows "sha_W m ! t = word_rotl 1 (sha_W m ! (t - 3) XOR sha_W m ! (t - 8) XOR sha_W m ! (t - 14) XOR sha_W m ! (t - 16))"
proof -
  have st: "sched m t ! i = sched m 80 ! i" if "i < t" for i using sched_stable [of t 80 i m] assms that by simp
  have "sched m 80 ! t = sched m (Suc t) ! t" using assms by (intro sched_stable) simp_all
  also have "\<dots> = word_rotl 1 (sched m t ! (t - 3) XOR sched m t ! (t - 8) XOR sched m t ! (t - 14) XOR sched m t ! (t - 16))"
    using assms by (simp add: sched_Suc nth_append length_sched)
  finally show ?thesis using assms by (simp add: sha_W_sched st)
qed

section \<open>The rounds\<close>

text \<open>The sixteen words before round \<open>t\<close>: the last words of the schedule, and message words not yet swapped.\<close>

definition words_inv :: "u8 list \<Rightarrow> nat \<Rightarrow> u32 list \<Rightarrow> bool" where
  "words_inv m t l \<longleftrightarrow> length l = 16 \<and> (\<forall>s<t. t \<le> s + 16 \<longrightarrow> l ! (s mod 16) = sha_W m ! s) \<and>
     (\<forall>j. t \<le> j \<and> j < 16 \<longrightarrow> l ! j = block_word m j)"

lemma mod16_distinct:
  fixes s t :: nat
  assumes "t mod 16 = s mod 16" "s < t" "t \<le> 15 + s"
  shows False
proof -
  have "16 dvd t - s" using assms(1,2) mod_eq_dvd_iff_nat [of s t 16] by simp
  then show False using assms(2,3) by (auto dest: dvd_imp_le)
qed

lemma words_inv_step:
  assumes "words_inv m t l" "t < 80"
  defines "l' \<equiv> (if t < 16 then blk0 t l else blk t l)"
  shows "words_inv m (Suc t) l'" "l' ! (t mod 16) = sha_W m ! t"
proof -
  have len: "length l = 16" and old: "\<And>s. s < t \<Longrightarrow> t \<le> s + 16 \<Longrightarrow> l ! (s mod 16) = sha_W m ! s"
    and raw: "\<And>j. t \<le> j \<Longrightarrow> j < 16 \<Longrightarrow> l ! j = block_word m j" using assms(1) by (auto simp: words_inv_def)
  have new: "l' = l[t mod 16 := sha_W m ! t]"
  proof (cases "t < 16")
    case True
    then show ?thesis by (simp add: l'_def blk0_def raw swap_bytes sha_W_first)
  next
    case False
    have idx: "(t + 13) mod 16 = (t - 3) mod 16" "(t + 8) mod 16 = (t - 8) mod 16" "(t + 2) mod 16 = (t - 14) mod 16" "t mod 16 = (t - 16) mod 16"
      using False mod_add_self2 [of "t - 3" 16] mod_add_self2 [of "t - 8" 16] mod_add_self2 [of "t - 14" 16] mod_add_self2 [of "t - 16" 16]
      by (simp_all add: add.commute)
    have "blk t l = l[t mod 16 := rol (sha_W m ! (t - 3) XOR sha_W m ! (t - 8) XOR sha_W m ! (t - 14) XOR sha_W m ! (t - 16)) 1]"
      unfolding blk_def idx(1-3) using False old [of "t - 3"] old [of "t - 8"] old [of "t - 14"] old [of "t - 16"]
      by (simp add: idx(4))
    then show ?thesis using False assms(2) by (simp add: l'_def rol_word_rotl sha_W_next)
  qed
  show "l' ! (t mod 16) = sha_W m ! t" using len by (simp add: new)
  show "words_inv m (Suc t) l'" unfolding words_inv_def new
    using len old raw by (auto simp: nth_list_update less_Suc_eq dest: mod16_distinct)
qed

lemma sha_round_step:
  assumes "words_inv m t l" "t < 80"
  shows "\<exists>l'. sha_round t (r, l) = (fips_step (sha_W m) t r, l') \<and> words_inv m (Suc t) l'"
proof -
  define l' where "l' = (if t < 16 then blk0 t l else blk t l)"
  note step = words_inv_step [OF assms, folded l'_def]
  obtain a b c d e where r: "r = (a, b, c, d, e)" by (cases r)
  have "sha_round t (r, l) = (fips_step (sha_W m) t r, l')"
  proof -
    consider "t < 16" | "16 \<le> t" "t < 20" | "20 \<le> t" "t < 40" | "40 \<le> t" "t < 60" | "60 \<le> t" by linarith
    then show ?thesis
      using step(2) by cases (auto simp: r sha_round_def fips_step_def R0_def R1_def R2_def R3_def R4_def Let_def l'_def
          sha_f_def sha_K_def rol_word_rotl round_functions add_ac)
  qed
  with step(1) show ?thesis by blast
qed

lemma sha_rounds:
  "t \<le> 80 \<Longrightarrow> \<exists>l. fold sha_round [0..<t] (r, map (block_word m) [0..<16]) = (fold (fips_step (sha_W m)) [0..<t] r, l) \<and> words_inv m t l"
proof (induction t)
  case 0
  then show ?case by (simp add: words_inv_def)
next
  case (Suc t)
  then obtain l where "fold sha_round [0..<t] (r, map (block_word m) [0..<16]) = (fold (fips_step (sha_W m)) [0..<t] r, l)" "words_inv m t l"
    by auto
  then show ?case using sha_round_step [of m t l "fold (fips_step (sha_W m)) [0..<t] r"] Suc.prems by simp
qed

lemma SHA1_Transform_fips: "SHA1_Transform = fips_compress"
proof (intro ext)
  fix H m
  obtain l where "fold sha_round [0..<80] (H, map (block_word m) [0..<16]) = (fold (fips_step (sha_W m)) [0..<80] H, l)"
    using sha_rounds [of 80 H m] by blast
  then show "SHA1_Transform H m = fips_compress H m"
    unfolding SHA1_Transform_def fips_compress_def by (simp only: Let_def) (simp only: case_prod_beta fst_conv snd_conv add.commute)
qed

section \<open>Blocks of a message\<close>

lemma fips_blocks_short: "length m < 64 \<Longrightarrow> fips_blocks H m = H"
  by (simp add: fips_blocks.simps)

lemma fips_blocks_append:
  "length m mod 64 = 0 \<Longrightarrow> fips_blocks H (m @ n) = fips_blocks (fips_blocks H m) n"
proof (induction H m rule: fips_blocks.induct)
  case (1 H m)
  show ?case
  proof (cases "length m < 64")
    case True
    with 1 have "m = []" by simp
    then show ?thesis by (simp add: fips_blocks_short)
  next
    case False
    then have "length (drop 64 m) mod 64 = 0" using "1.prems" by (simp add: le_mod_geq)
    then have "fips_blocks (fips_compress H (take 64 m)) (drop 64 m @ n) = fips_blocks (fips_blocks (fips_compress H (take 64 m)) (drop 64 m)) n"
      using "1.IH" False by simp
    then show ?thesis using False by (simp add: fips_blocks.simps [of H m] fips_blocks.simps [of H "m @ n"])
  qed
qed

lemma sha_blocks_fips: "sha_blocks H d = (fips_blocks H d, drop (64 * (length d div 64)) d)"
proof (induction H d rule: sha_blocks.induct)
  case (1 H d)
  show ?case
  proof (cases "length d < 64")
    case False
    then have "length d div 64 = Suc (length (drop 64 d) div 64)" by (simp add: le_div_geq)
    then have "64 * (length d div 64) = 64 * (length (drop 64 d) div 64) + 64" by simp
    then show ?thesis using False 1
      by (simp add: sha_blocks.simps [of H d] fips_blocks.simps [of H d] SHA1_Transform_fips)
  qed (simp add: sha_blocks.simps fips_blocks.simps)
qed

section \<open>Contexts\<close>

text \<open>A context represents the bytes given to it.\<close>

definition sha_rep :: "SHA1_CTX \<Rightarrow> u8 list \<Rightarrow> bool" where
  "sha_rep ctx m \<longleftrightarrow> sha_state ctx = fips_blocks fips_IV m \<and> length (sha_buffer ctx) = 64 \<and>
     take (length m mod 64) (sha_buffer ctx) = drop (64 * (length m div 64)) m \<and>
     count0 ctx = of_nat (8 * length m) \<and> count1 ctx = of_nat (8 * length m div 2 ^ 32)"

lemma sha_rep_init: "length stack = 64 \<Longrightarrow> sha_rep (sat_SHA1_Init stack) []"
  by (simp add: sha_rep_def sat_SHA1_Init_def fips_IV_def fips_blocks_short)

lemma count_offset: "count0 ctx = of_nat (8 * n) \<Longrightarrow> unat (drop_bit 3 (count0 ctx) AND 63) = n mod 64"
proof -
  assume c: "count0 ctx = of_nat (8 * n)"
  have m: "(63 :: u32) = mask 6" by (simp add: mask_eq_exp_minus_1)
  have "unat (drop_bit 3 (count0 ctx) AND 63) = unat (count0 ctx) div 8 mod 64"
    unfolding m by (simp add: take_bit_eq_mask [symmetric] unsigned_take_bit_eq unsigned_drop_bit_eq take_bit_eq_mod drop_bit_eq_div unat_div unat_mod)
  also have "unat (count0 ctx) = (8 * n) mod 2 ^ 32" unfolding c by (simp only: unat_of_nat) (simp add: take_bit_eq_mod)
  also have "((8 * n) mod 2 ^ 32) div 8 mod 64 = n mod 64" by (simp only: byte_offset_32) simp
  finally show ?thesis .
qed

lemma carry:
  fixes a b m :: nat
  assumes "b < m"
  shows "(a + b) mod m < b \<longleftrightarrow> m \<le> a mod m + b" "(a + b) div m = a div m + (if m \<le> a mod m + b then 1 else 0)"
proof -
  define q r where "q = a div m" and "r = a mod m"
  have e: "a + b = q * m + (r + b)" by (simp add: q_def r_def)
  have r: "r < m" using assms by (simp add: r_def)
  have "(a + b) mod m = (r + b) mod m" unfolding e by simp
  also have "\<dots> = (if m \<le> r + b then r + b - m else r + b)" using r assms by (simp add: le_mod_geq)
  finally show "(a + b) mod m < b \<longleftrightarrow> m \<le> a mod m + b" unfolding r_def [symmetric] using r assms by auto
  have "(a + b) div m = q + (r + b) div m" unfolding e using assms by simp
  also have "(r + b) div m = (if m \<le> r + b then 1 else 0)" using r assms by (simp add: le_div_geq)
  finally show "(a + b) div m = a div m + (if m \<le> a mod m + b then 1 else 0)" by (simp only: q_def r_def)
qed

lemma counts_step:
  fixes k n :: nat
  assumes "n < 2 ^ 29"
  defines "len \<equiv> of_nat n :: u64"
  defines "c0 \<equiv> of_nat (8 * k) + ucast (push_bit 3 len) :: u32"
  shows "c0 = of_nat (8 * (k + n))"
    "(if (ucast c0 :: u64) < push_bit 3 len then of_nat (8 * k div 2 ^ 32) + 1 else of_nat (8 * k div 2 ^ 32)) +
       ucast (drop_bit 29 len) = (of_nat (8 * (k + n) div 2 ^ 32) :: u32)"
proof -
  have p: "push_bit 3 len = of_nat (8 * n)" by (simp add: len_def push_bit_eq_mult)
  have b: "8 * n < 2 ^ 32" using assms(1) by simp
  have "ucast (push_bit 3 len) = (of_nat (8 * n) :: u32)" unfolding p using b by (simp only: unsigned_of_nat) (simp add: take_bit_nat_eq_self)
  then show c: "c0 = of_nat (8 * (k + n))" by (simp add: c0_def distrib_left)
  have "unat c0 < 2 ^ 64" using unsigned_less [of c0, where 'a = nat] by simp
  then have "unat (ucast c0 :: u64) = unat c0" by (simp add: unsigned_ucast_eq take_bit_nat_eq_self)
  also have "\<dots> = (8 * k + 8 * n) mod 2 ^ 32"
    unfolding c distrib_left [of 8 k n] by (simp only: unat_of_nat) (simp add: take_bit_eq_mod)
  finally have "unat (ucast c0 :: u64) = (8 * k + 8 * n) mod 2 ^ 32" .
  moreover have "unat (push_bit 3 len) = 8 * n" unfolding p using b by (simp only: unat_of_nat) (simp add: take_bit_nat_eq_self)
  ultimately have less: "(ucast c0 :: u64) < push_bit 3 len \<longleftrightarrow> 2 ^ 32 \<le> (8 * k) mod 2 ^ 32 + 8 * n"
    using carry(1) [OF b, of "8 * k"] by (simp only: word_less_nat_alt)
  have d: "drop_bit 29 len = 0"
    using assms(1) by (intro unat_eq_0 [THEN iffD1]) (simp add: len_def unsigned_drop_bit_eq unat_of_nat take_bit_nat_eq_self drop_bit_eq_div unat_div)
  show "(if (ucast c0 :: u64) < push_bit 3 len then of_nat (8 * k div 2 ^ 32) + 1 else of_nat (8 * k div 2 ^ 32)) +
       ucast (drop_bit 29 len) = (of_nat (8 * (k + n) div 2 ^ 32) :: u32)"
    unfolding less d distrib_left [of 8 k n] carry(2) [OF b, of "8 * k"] by (simp add: add.commute)
qed

text \<open>Appending to the buffer of a context.\<close>

lemma length_buffer_copy: "j + length d \<le> length b \<Longrightarrow> length (buffer_copy b j d) = length b"
  by (simp add: buffer_copy_def)

lemma take_buffer_copy: "j + length d \<le> length b \<Longrightarrow> take (j + length d) (buffer_copy b j d) = take j b @ d"
  by (simp add: buffer_copy_def)

lemma fips_blocks_drop: "fips_blocks H m = fips_blocks H (take (64 * (length m div 64)) m)"
proof -
  have "length (take (64 * (length m div 64)) m) mod 64 = 0" by simp
  moreover have "length (drop (64 * (length m div 64)) m) < 64" by (simp add: minus_mult_div_eq_mod)
  ultimately show ?thesis
    using fips_blocks_append [of "take (64 * (length m div 64)) m" H "drop (64 * (length m div 64)) m"] by (simp add: fips_blocks_short)
qed

lemma whole_blocks: "(64 * k + x) mod 64 = x mod 64" "(64 * k + x) div 64 = k + x div 64" for k x :: nat
  by simp_all

lemma update_spec:
  assumes "sha_rep ctx m" "length d < 2 ^ 29"
  shows "sha_rep (sat_SHA1_Update ctx d) (m @ d)"
proof -
  define j q where "j = length m mod 64" and "q = 64 * (length m div 64)"
  have rep: "sha_state ctx = fips_blocks fips_IV m" "length (sha_buffer ctx) = 64" "take j (sha_buffer ctx) = drop q m"
    "count0 ctx = of_nat (8 * length m)" "count1 ctx = of_nat (8 * length m div 2 ^ 32)"
    using assms(1) by (simp_all only: sha_rep_def j_def q_def)
  have lm: "length m = q + j" "j < 64" by (simp_all add: j_def q_def)
  have off: "unat (drop_bit 3 (of_nat (8 * length m) :: u32) AND 63) = j"
    using count_offset [OF rep(4)] unfolding j_def rep(4) .
  note cnt = counts_step(1) [OF assms(2), of "length m"] counts_step(2) [OF assms(2), of "length m", unfolded counts_step(1) [OF assms(2)]]
  show ?thesis
  proof (cases "j + length d > 63")
    case True
    define i where "i = 64 - j"
    define buffer where "buffer = buffer_copy (sha_buffer ctx) j (take i d)"
    have i: "length (take i d) = i" "j + i = 64" using True lm by (simp_all add: i_def)
    have buf: "buffer = drop q m @ take i d" "length buffer = 64"
      using rep(2,3) i lm by (simp_all add: buffer_def buffer_copy_def)
    define P x where "P = take q m @ buffer" and "x = length (drop i d)"
    have P: "m @ d = P @ drop i d" "length P = q + 64" using buf lm by (simp_all add: P_def)
    have len: "length (m @ d) = (q + 64) + x" by (simp add: P x_def)
    have q0: "q mod 64 = 0" "(q + 64) mod 64 = 0" "64 * ((q + 64) div 64) = q + 64" by (simp_all add: q_def)
    have lmod: "length (m @ d) mod 64 = x mod 64" "64 * (length (m @ d) div 64) = q + 64 + 64 * (x div 64)"
    proof -
      have e: "q + 64 + x = 64 * Suc (length m div 64) + x" by (simp add: q_def)
      show "length (m @ d) mod 64 = x mod 64" unfolding len e by (simp only: whole_blocks)
      show "64 * (length (m @ d) div 64) = q + 64 + 64 * (x div 64)" unfolding len e whole_blocks by (simp add: q_def)
    qed
    define rest where "rest = drop (64 * (x div 64)) (drop i d)"
    have rl: "length rest = x mod 64" unfolding rest_def x_def length_drop by (simp add: minus_mult_div_eq_mod)
    have "fips_blocks fips_IV (take q m) = fips_blocks fips_IV m" unfolding q_def by (rule fips_blocks_drop [symmetric])
    then have "fips_blocks fips_IV P = fips_compress (fips_blocks fips_IV m) buffer"
      unfolding P_def using q0 lm buf(2) by (simp add: fips_blocks_append fips_blocks.simps [of _ buffer] fips_blocks_short)
    then have st: "fips_blocks (fips_compress (sha_state ctx) buffer) (drop i d) = fips_blocks fips_IV (m @ d)"
      unfolding P(1) rep(1) using P(2) q0 by (simp add: fips_blocks_append)
    have upd: "sat_SHA1_Update ctx d = \<lparr>sha_state = fips_blocks fips_IV (m @ d), count0 = of_nat (8 * length (m @ d)),
        count1 = of_nat (8 * length (m @ d) div 2 ^ 32), sha_buffer = buffer_copy buffer 0 rest\<rparr>"
      unfolding sat_SHA1_Update_def Let_def off rep(4,5) cnt i_def [symmetric] buffer_def [symmetric] SHA1_Transform_fips sha_blocks_fips
        prod.case st length_append x_def [symmetric] rest_def [symmetric]
      using True by (simp only: if_True)
    have "drop (64 * (length (m @ d) div 64)) (m @ d) = rest"
      unfolding lmod(2) unfolding P(1) rest_def using P(2) by simp
    moreover have "take (x mod 64) (buffer_copy buffer 0 rest) = rest" "length (buffer_copy buffer 0 rest) = 64"
      using take_buffer_copy [of 0 rest buffer] length_buffer_copy [of 0 rest buffer] rl buf(2) by (simp_all add: less_imp_le)
    ultimately show ?thesis unfolding sha_rep_def upd lmod(1) by simp
  next
    case False
    have len: "length (m @ d) mod 64 = j + length d" "64 * (length (m @ d) div 64) = q"
    proof -
      have e: "length (m @ d) = 64 * (length m div 64) + (j + length d)" by (simp add: j_def)
      show "length (m @ d) mod 64 = j + length d" "64 * (length (m @ d) div 64) = q"
        unfolding e whole_blocks using False by (simp_all add: q_def)
    qed
    have "fips_blocks fips_IV (m @ d) = fips_blocks fips_IV (take q (m @ d))"
      using fips_blocks_drop [of fips_IV "m @ d"] len(2) by simp
    also have "take q (m @ d) = take q m" using lm by simp
    also have "fips_blocks fips_IV (take q m) = fips_blocks fips_IV m" unfolding q_def by (rule fips_blocks_drop [symmetric])
    finally have st: "sha_state ctx = fips_blocks fips_IV (m @ d)" by (simp add: rep(1))
    have upd: "sat_SHA1_Update ctx d = \<lparr>sha_state = fips_blocks fips_IV (m @ d), count0 = of_nat (8 * length (m @ d)),
        count1 = of_nat (8 * length (m @ d) div 2 ^ 32), sha_buffer = buffer_copy (sha_buffer ctx) j d\<rparr>"
      unfolding sat_SHA1_Update_def Let_def off rep(4,5) cnt st length_append using False by (simp only: if_False)
    have "drop q (m @ d) = drop q m @ d" using lm by simp
    then show ?thesis unfolding sha_rep_def upd len
      using rep(2,3) False take_buffer_copy [of j d "sha_buffer ctx"] length_buffer_copy [of j d "sha_buffer ctx"] by simp
  qed
qed

section \<open>Padding and the digest\<close>

lemma pad_left_count: "pad_left (of_nat (8 * n)) = (120 - n mod 64) mod 64"
proof -
  have "unat (of_nat (8 * n) :: u32) = (8 * n) mod 2 ^ 32" by (simp only: unat_of_nat) (simp add: take_bit_eq_mod)
  moreover have "((8 * n) mod 2 ^ 32) div 8 mod 64 = n mod 64" by (simp only: byte_offset_32) simp
  ultimately show ?thesis by (simp only: pad_left_def)
qed

lemma pad_done: "c AND 504 = 448 \<longleftrightarrow> pad_left c = 0" for c :: u32
proof -
  have "c AND 504 = 448 \<longleftrightarrow> unat (c AND 504) = 448" using word_unat_eq_iff [of "c AND 504" 448] by simp
  also have "\<dots> \<longleftrightarrow> unat c div 8 mod 64 = 56" unfolding unat_and_504 by linarith
  finally show ?thesis using pad_value [of "unat c div 8 mod 64"] by (auto simp: pad_left_def)
qed

lemma pad_left_pred:
  assumes "pad_left (of_nat (8 * n)) = Suc k"
  shows "pad_left (of_nat (8 * (n + 1))) = k"
proof -
  define j where "j = n mod 64"
  have j: "j < 64" "Suc n mod 64 = (if j = 63 then 0 else Suc j)" by (simp_all add: j_def mod_Suc)
  have "(120 - j) mod 64 = Suc k" using assms by (simp only: pad_left_count j_def)
  then have "(if j \<le> 56 then 56 - j else 120 - j) = Suc k" using pad_value [OF j(1)] by simp
  moreover have "pad_left (of_nat (8 * (n + 1))) = (120 - (if j = 63 then 0 else Suc j)) mod 64"
    using j(2) by (simp only: pad_left_count Suc_eq_plus1)
  ultimately show ?thesis using j(1) pad_value [of 0] pad_value [of "Suc j"] by (auto split: if_splits)
qed

lemma sha_pad_spec:
  assumes "sha_rep ctx m"
  shows "sha_rep (sha_pad ctx) (m @ replicate (pad_left (of_nat (8 * length m))) 0)"
  using assms
proof (induction "pad_left (of_nat (8 * length m))" arbitrary: ctx m)
  case 0
  then show ?case using pad_done [of "count0 ctx"] by (simp add: sha_pad.simps [of ctx] sha_rep_def)
next
  case (Suc k)
  have c: "count0 ctx = of_nat (8 * length m)" using Suc.prems by (simp add: sha_rep_def)
  have "sha_pad ctx = sha_pad (sat_SHA1_Update ctx [0])"
    using Suc.hyps(2) pad_done [of "count0 ctx"] unfolding c by (subst sha_pad.simps) (simp add: c)
  moreover have rep: "sha_rep (sat_SHA1_Update ctx [0]) (m @ [0])" using update_spec [OF Suc.prems, of "[0]"] by simp
  moreover have k: "pad_left (of_nat (8 * length (m @ [0 :: u8]))) = k" using pad_left_pred [of "length m" k] Suc.hyps(2) by simp
  moreover have "pad_left (of_nat (8 * length m)) = Suc k" using Suc.hyps(2) by simp
  ultimately show ?case using Suc.hyps(1) [OF k [symmetric] rep] by (simp only: append_assoc append_Cons append_Nil replicate_Suc)
qed

lemma ucast_255: "ucast (w AND 255) = (ucast w :: u8)" for w :: u32
proof (rule bit_word_eqI)
  fix n assume "n < LENGTH(8)"
  moreover have m: "(255 :: u32) = mask 8" by (simp add: mask_eq_exp_minus_1)
  ultimately show "bit (ucast (w AND 255) :: u8) n = bit (ucast w :: u8) n" unfolding m by (auto simp: bit_simps)
qed

lemma be_bytes_eq: "be_bytes w = map (\<lambda>i. ucast (drop_bit (24 - 8 * i) w)) [0..<4]"
  by (simp add: be_bytes_def ucast_255 upt_rec)

lemma length_be_bytes: "length (be_bytes w) = 4"
  by (simp add: be_bytes_def)

lemma count_bytes:
  "be_bytes (of_nat (n div 2 ^ 32)) @ be_bytes (of_nat n) = map (\<lambda>i. ucast (drop_bit (56 - 8 * i) (of_nat n :: u64))) [0..<8]"
proof -
  have hi: "(of_nat (n div 2 ^ 32) :: u32) = ucast (drop_bit 32 (of_nat n :: u64))"
    unfolding drop_bit_eq_div [symmetric] by (rule bit_word_eqI) (auto simp: bit_simps bit_of_nat_iff)
  have lo: "(of_nat n :: u32) = ucast (of_nat n :: u64)"
    by (rule bit_word_eqI) (auto simp: bit_simps bit_of_nat_iff)
  have c: "ucast (drop_bit k (ucast x :: u32)) = (ucast (drop_bit k x) :: u8)" if "k \<le> 24" for k and x :: u64
    using that by (intro bit_word_eqI) (auto simp: bit_simps)
  show ?thesis unfolding hi lo be_bytes_eq by (simp add: c upt_rec)
qed

lemma fips_sha1_bytes:
  "fips_sha1 m = (let (a, b, c, d, e) = fips_blocks fips_IV (fips_pad m) in be_bytes a @ be_bytes b @ be_bytes c @ be_bytes d @ be_bytes e)"
  by (simp add: fips_sha1_def be_bytes_eq split: prod.splits)

lemma final_spec:
  assumes "sha_rep ctx m"
  shows "sat_SHA1_Final ctx = fips_sha1 m"
proof -
  define finalcount where "finalcount = be_bytes (count1 ctx) @ be_bytes (count0 ctx)"
  have fc: "finalcount = map (\<lambda>i. ucast (drop_bit (56 - 8 * i) (of_nat (8 * length m) :: u64))) [0..<8]"
    using assms unfolding finalcount_def sha_rep_def by (simp only: count_bytes)
  define z where "z = pad_left (of_nat (8 * length (m @ [0x80 :: u8])))"
  have z: "z = (119 - length m mod 64) mod 64"
  proof -
    define j where "j = length m mod 64"
    have "length (m @ [0x80 :: u8]) mod 64 = (if j = 63 then 0 else Suc j)" "j < 64" by (simp_all add: j_def mod_Suc)
    then show ?thesis unfolding z_def pad_left_count j_def [symmetric] by auto
  qed
  have 1: "sha_rep (sat_SHA1_Update ctx [0x80]) (m @ [0x80])" using update_spec [OF assms, of "[0x80]"] by simp
  have 2: "sha_rep (sha_pad (sat_SHA1_Update ctx [0x80])) ((m @ [0x80]) @ replicate z 0)"
    unfolding z_def by (rule sha_pad_spec [OF 1])
  have "length finalcount = 8" by (simp add: finalcount_def length_be_bytes)
  then have 3: "sha_rep (sat_SHA1_Update (sha_pad (sat_SHA1_Update ctx [0x80])) finalcount) (((m @ [0x80]) @ replicate z 0) @ finalcount)"
    using update_spec [OF 2, of finalcount] by simp
  have pad: "((m @ [0x80]) @ replicate z 0) @ finalcount = fips_pad m"
    unfolding fips_pad_def z fc by (simp only: append_assoc)
  have "sha_state (sat_SHA1_Update (sha_pad (sat_SHA1_Update ctx [0x80])) finalcount) = fips_blocks fips_IV (fips_pad m)"
    using 3 unfolding pad sha_rep_def by (rule conjunct1)
  then show ?thesis unfolding sat_SHA1_Final_def fips_sha1_bytes Let_def finalcount_def [symmetric] by (simp only:)
qed

section \<open>Properties\<close>

text \<open>
  C16: \<open>lsha1\<close> computes SHA-1: for every string shorter than \<open>2 ^ 29\<close> bytes the digest is the one of FIPS 180,
  whatever bytes the uninitialised buffer on the stack has.
\<close>

theorem sha1_correct:
  assumes "length stack = 64" "length str < 2 ^ 29"
  shows "lsha1 stack str = fips_sha1 str"
  using final_spec [OF update_spec [OF sha_rep_init [OF assms(1)] assms(2)]] by (simp add: lsha1_def)

theorem sha1_correct_witness: "lsha1 (replicate 64 0xcd) [97, 98, 99] = fips_sha1 [97, 98, 99]"
  by (rule sha1_correct) simp_all

lemma length_fips_sha1: "length (fips_sha1 m) = 20"
  by (simp add: fips_sha1_bytes length_be_bytes split: prod.splits)

lemma xor_key_bytes:
  assumes "\<And>i. i < 4 \<Longrightarrow> ucast (drop_bit (8 * i) x) = (b :: u8)"
  shows "xor_key key x = map (\<lambda>k. k XOR b) key"
  using assms by (auto simp: xor_key_def intro: nth_equalityI)

lemma pad_keys:
  "xor_key key 0x5c5c5c5c = map (\<lambda>k. k XOR 0x5c) key"
  "xor_key key (0x5c5c5c5c XOR 0x36363636) = map (\<lambda>k. k XOR 0x6a) key"
proof -
  have "\<forall>i \<in> set [0..<4]. ucast (drop_bit (8 * i) (0x5c5c5c5c :: u32)) = (0x5c :: u8)"
    "\<forall>i \<in> set [0..<4]. ucast (drop_bit (8 * i) (0x5c5c5c5c XOR 0x36363636 :: u32)) = (0x6a :: u8)" by code_simp+
  then show "xor_key key 0x5c5c5c5c = map (\<lambda>k. k XOR 0x5c) key" "xor_key key (0x5c5c5c5c XOR 0x36363636) = map (\<lambda>k. k XOR 0x6a) key"
    by (auto intro!: xor_key_bytes)
qed

text \<open>
  C37: \<open>lhmac_sha1\<close> computes the HMAC of RFC 2104 with SHA-1, for keys up to a block, which are padded, and
  for longer keys, which are hashed first; keys and texts are shorter than \<open>2 ^ 29\<close> bytes.
\<close>

theorem hmac_sha1_correct:
  assumes "length stack = 64" "length stack1 = 64" "length stack2 = 64" "length key < 2 ^ 29" "length str < 2 ^ 29"
  shows "lhmac_sha1 stack stack1 stack2 key str = rfc_hmac key str"
proof -
  define K where "K = (if length key > 64 then fips_sha1 key else key)"
  define R where "R = K @ replicate (64 - length K) 0"
  define opad ipad where "opad = map (\<lambda>k. k XOR (0x5c :: u8)) R" and "ipad = map (\<lambda>k. k XOR (0x36 :: u8)) R"
  have K: "length K \<le> 64" by (simp add: K_def length_fips_sha1)
  have len: "length opad = 64" "length ipad = 64" using K by (simp_all add: opad_def ipad_def R_def)
  have rep: "sha_rep (sat_SHA1_Update (sat_SHA1_Init s) x) x" if "length s = 64" "length x < 2 ^ 29" for s x
    using update_spec [OF sha_rep_init [OF that(1)] that(2)] by simp
  have rkey: "(if length key > BLOCKSIZE then buffer_copy (replicate BLOCKSIZE 0) 0 (sat_SHA1_Final (sat_SHA1_Update (sat_SHA1_Init stack) key))
      else buffer_copy (replicate BLOCKSIZE 0) 0 key) = R"
    using final_spec [OF rep [OF assms(1,4)]] by (simp add: BLOCKSIZE_def buffer_copy_def R_def K_def)
  have "(k XOR 0x5c) XOR 0x6a = k XOR 0x36" for k :: u8 by (simp add: xor.assoc)
  then have keys: "xor_key R 0x5c5c5c5c = opad" "xor_key opad (0x5c5c5c5c XOR 0x36363636) = ipad"
    unfolding pad_keys by (simp_all add: opad_def ipad_def)
  have "sha_rep (sat_SHA1_Update (sat_SHA1_Update (sat_SHA1_Init stack2) ipad) str) (ipad @ str)"
    using rep [OF assms(3), of ipad] len assms(5) by (intro update_spec) simp_all
  then have d2: "sat_SHA1_Final (sat_SHA1_Update (sat_SHA1_Update (sat_SHA1_Init stack2) ipad) str) = fips_sha1 (ipad @ str)"
    by (rule final_spec)
  have "sha_rep (sat_SHA1_Update (sat_SHA1_Update (sat_SHA1_Init stack1) opad) (fips_sha1 (ipad @ str))) (opad @ fips_sha1 (ipad @ str))"
    using rep [OF assms(2), of opad] len by (intro update_spec) (simp_all add: length_fips_sha1)
  then have "sat_SHA1_Final (sat_SHA1_Update (sat_SHA1_Update (sat_SHA1_Init stack1) opad) (fips_sha1 (ipad @ str))) = fips_sha1 (opad @ fips_sha1 (ipad @ str))"
    by (rule final_spec)
  moreover have "rfc_hmac key str = fips_sha1 (opad @ fips_sha1 (ipad @ str))"
    by (simp only: rfc_hmac_def Let_def K_def [symmetric] R_def [symmetric] opad_def [symmetric] ipad_def [symmetric])
  ultimately show ?thesis unfolding lhmac_sha1_def Let_def rkey keys d2 by simp
qed

theorem hmac_sha1_correct_witness:
  "lhmac_sha1 (replicate 64 1) (replicate 64 2) (replicate 64 3) [107, 101, 121] [104, 105] = rfc_hmac [107, 101, 121] [104, 105]"
  by (rule hmac_sha1_correct) simp_all

text \<open>
  From \<open>2 ^ 29\<close> bytes on, one update may count wrongly: the carry test compares the 32-bit counter with the
  64-bit \<open>len << 3\<close>, so that it adds a carry for every such update. Here the counters after the first
  update of \<open>2 ^ 29\<close> bytes stand for \<open>2 ^ 33\<close> bits.
\<close>

lemma update_count_wrong:
  assumes "length d = 2 ^ 29"
  shows "count0 (sat_SHA1_Update (sat_SHA1_Init stack) d) = 0" "count1 (sat_SHA1_Update (sat_SHA1_Init stack) d) = 2"
  using assms by (simp_all add: sat_SHA1_Update_def sat_SHA1_Init_def Let_def push_bit_eq_mult split: prod.splits)

end
