(* ===== verification/Crypt_Md5.thy ===== *)
theory Crypt_Md5
  imports Crypt_Dh Crypt_Sha1_Proofs
begin

text \<open>
  The keyed hashes of \<^verbatim>\<open>lualib-src/lua-crypt.c\<close> that are built from the block function of MD5, and the hash
  of a key. The reference definition is MD5 of RFC 1321; its table of sines is the table of the code.
\<close>

unbundle bit_operations_syntax

section \<open>Definitions\<close>

text \<open>The random numbers are an argument; a key whose bytes cancel out is changed.\<close>

definition lrandomkey :: "(nat \<Rightarrow> u32) \<Rightarrow> u8 list" where
  "lrandomkey random =
     (let tmp = map (\<lambda>i. ucast (random i AND 0xff)) [0..<8];
          x = fold (XOR) tmp 0
      in if x = 0 then tmp[0 := tmp ! 0 OR 1] else tmp)"

text \<open>The loop ends at the size, an \<open>int\<close>: the callers truncate the length of the string to it.\<close>

definition Hash :: "u8 list \<Rightarrow> int \<Rightarrow> u8 list" where
  "Hash str sz =
     (let (djb_hash, js_hash) =
        fold (\<lambda>c (djb_hash, js_hash).
          (djb_hash + (push_bit 5 djb_hash + ucast c), js_hash XOR (push_bit 5 js_hash + ucast c + drop_bit 2 js_hash)))
          (take (nat sz) str) (5381 :: u32, 1315423911 :: u32)
      in [ucast (djb_hash AND 0xff), ucast (drop_bit 8 djb_hash AND 0xff), ucast (drop_bit 16 djb_hash AND 0xff),
          ucast (drop_bit 24 djb_hash AND 0xff),
          ucast (js_hash AND 0xff), ucast (drop_bit 8 js_hash AND 0xff), ucast (drop_bit 16 js_hash AND 0xff),
          ucast (drop_bit 24 js_hash AND 0xff)])"

definition lhashkey :: "u8 list \<Rightarrow> u8 list" where
  "lhashkey key = Hash key (c_int (length key))"

definition md5_k :: "u32 list" where
  "md5_k =
    [0xd76aa478, 0xe8c7b756, 0x242070db, 0xc1bdceee, 0xf57c0faf, 0x4787c62a, 0xa8304613, 0xfd469501,
     0x698098d8, 0x8b44f7af, 0xffff5bb1, 0x895cd7be, 0x6b901122, 0xfd987193, 0xa679438e, 0x49b40821,
     0xf61e2562, 0xc040b340, 0x265e5a51, 0xe9b6c7aa, 0xd62f105d, 0x02441453, 0xd8a1e681, 0xe7d3fbc8,
     0x21e1cde6, 0xc33707d6, 0xf4d50d87, 0x455a14ed, 0xa9e3e905, 0xfcefa3f8, 0x676f02d9, 0x8d2a4c8a,
     0xfffa3942, 0x8771f681, 0x6d9d6122, 0xfde5380c, 0xa4beea44, 0x4bdecfa9, 0xf6bb4b60, 0xbebfbc70,
     0x289b7ec6, 0xeaa127fa, 0xd4ef3085, 0x04881d05, 0xd9d4d039, 0xe6db99e5, 0x1fa27cf8, 0xc4ac5665,
     0xf4292244, 0x432aff97, 0xab9423a7, 0xfc93a039, 0x655b59c3, 0x8f0ccc92, 0xffeff47d, 0x85845dd1,
     0x6fa87e4f, 0xfe2ce6e0, 0xa3014314, 0x4e0811a1, 0xf7537e82, 0xbd3af235, 0x2ad7d2bb, 0xeb86d391]"

definition md5_r :: "nat list" where
  "md5_r =
    [7, 12, 17, 22, 7, 12, 17, 22, 7, 12, 17, 22, 7, 12, 17, 22,
     5, 9, 14, 20, 5, 9, 14, 20, 5, 9, 14, 20, 5, 9, 14, 20,
     4, 11, 16, 23, 4, 11, 16, 23, 4, 11, 16, 23, 4, 11, 16, 23,
     6, 10, 15, 21, 6, 10, 15, 21, 6, 10, 15, 21, 6, 10, 15, 21]"

definition LEFTROTATE :: "u32 \<Rightarrow> nat \<Rightarrow> u32" where
  "LEFTROTATE x c = push_bit c x OR drop_bit (32 - c) x"

type_synonym md5_regs = "u32 \<times> u32 \<times> u32 \<times> u32"

definition md5_IV :: md5_regs where
  "md5_IV = (0x67452301, 0xefcdab89, 0x98badcfe, 0x10325476)"

text \<open>The body of the loop for \<open>i\<close>.\<close>

definition md5_body :: "u32 list \<Rightarrow> nat \<Rightarrow> md5_regs \<Rightarrow> md5_regs" where
  "md5_body w i s =
     (let (a, b, c, d) = s;
          (f, g) = (if i < 16 then ((b AND c) OR (NOT b AND d), i)
                    else if i < 32 then ((d AND b) OR (NOT d AND c), (5 * i + 1) mod 16)
                    else if i < 48 then (b XOR c XOR d, (3 * i + 5) mod 16)
                    else (c XOR (b OR NOT d), (7 * i) mod 16))
      in (d, b + LEFTROTATE (a + f + md5_k ! i + w ! g) (md5_r ! i), b, c))"

definition digest_md5 :: "u32 list \<Rightarrow> md5_regs" where
  "digest_md5 w = fold (md5_body w) [0..<64] md5_IV"

definition hmac :: "u32 \<times> u32 \<Rightarrow> u32 \<times> u32 \<Rightarrow> u32 \<times> u32" where
  "hmac x y =
     (let w = concat (replicate 4 [snd x, fst x, snd y, fst y]);
          (r0, r1, r2, r3) = digest_md5 w
      in (r2 XOR r3, r0 XOR r1))"

definition hmac_md5 :: "u32 \<times> u32 \<Rightarrow> u32 \<times> u32 \<Rightarrow> u32 \<times> u32" where
  "hmac_md5 x y =
     (let w = concat (replicate 3 [fst x, snd x, fst y, snd y]) @ [0x80, 0, 384, 0];
          (r0, r1, r2, r3) = digest_md5 w
      in ((r0 + 0x67452301) XOR (r2 + 0x98badcfe), (r1 + 0xefcdab89) XOR (r3 + 0x10325476)))"

definition pushqword :: "u32 \<times> u32 \<Rightarrow> u8 list" where
  "pushqword result =
     [ucast (fst result AND 0xff), ucast (drop_bit 8 (fst result) AND 0xff), ucast (drop_bit 16 (fst result) AND 0xff),
      ucast (drop_bit 24 (fst result) AND 0xff),
      ucast (snd result AND 0xff), ucast (drop_bit 8 (snd result) AND 0xff), ucast (drop_bit 16 (snd result) AND 0xff),
      ucast (drop_bit 24 (snd result) AND 0xff)]"

definition lhmac64 :: "u8 list \<Rightarrow> u8 list \<Rightarrow> string + u8 list" where
  "lhmac64 x y = (case read64 x y of Inl e \<Rightarrow> Inl e | Inr (x, y) \<Rightarrow> Inr (pushqword (hmac x y)))"

definition lhmac64_md5 :: "u8 list \<Rightarrow> u8 list \<Rightarrow> string + u8 list" where
  "lhmac64_md5 x y = (case read64 x y of Inl e \<Rightarrow> Inl e | Inr (x, y) \<Rightarrow> Inr (pushqword (hmac_md5 x y)))"

definition lhmac_hash :: "u8 list \<Rightarrow> u8 list \<Rightarrow> string + u8 list" where
  "lhmac_hash x str =
     (if length x \<noteq> 8 then Inl ''Invalid uint64 key''
      else (let h = Hash str (c_int (length str)) in Inr (pushqword (hmac (le32 h, le32 (drop 4 h)) (le32 x, le32 (drop 4 x))))))"

section \<open>RFC 1321\<close>

definition rfc_function :: "nat \<Rightarrow> u32 \<Rightarrow> u32 \<Rightarrow> u32 \<Rightarrow> u32" where
  "rfc_function i x y z =
     (if i < 16 then (x AND y) OR (NOT x AND z)
      else if i < 32 then (x AND z) OR (y AND NOT z)
      else if i < 48 then x XOR y XOR z
      else y XOR (x OR NOT z))"

definition rfc_index :: "nat \<Rightarrow> nat" where
  "rfc_index i = (if i < 16 then i else if i < 32 then (1 + 5 * i) mod 16 else if i < 48 then (5 + 3 * i) mod 16 else 7 * i mod 16)"

definition rfc_shift :: "nat \<Rightarrow> nat" where
  "rfc_shift i = (if i < 16 then [7, 12, 17, 22] else if i < 32 then [5, 9, 14, 20] else if i < 48 then [4, 11, 16, 23] else [6, 10, 15, 21]) ! (i mod 4)"

definition rfc_step :: "u32 list \<Rightarrow> nat \<Rightarrow> md5_regs \<Rightarrow> md5_regs" where
  "rfc_step X i s = (let (a, b, c, d) = s in
     (d, b + word_rotl (rfc_shift i) (a + rfc_function i b c d + X ! rfc_index i + md5_k ! i), b, c))"

definition rfc_block :: "u8 list \<Rightarrow> md5_regs \<Rightarrow> md5_regs" where
  "rfc_block m H =
     (let (a, b, c, d) = fold (rfc_step (map (\<lambda>i. le32 (drop (4 * i) m)) [0..<16])) [0..<64] H; (h0, h1, h2, h3) = H
      in (a + h0, b + h1, c + h2, d + h3))"

text \<open>The padded message ends with its length in bits, the low byte first.\<close>

definition rfc_pad :: "u8 list \<Rightarrow> u8 list" where
  "rfc_pad m = m @ [0x80] @ replicate ((119 - length m mod 64) mod 64) 0 @
     map (\<lambda>i. ucast (drop_bit (8 * i) (of_nat (8 * length m) :: u64))) [0..<8]"

fun rfc_blocks :: "md5_regs \<Rightarrow> u8 list \<Rightarrow> md5_regs" where
  "rfc_blocks H m = (if length m < 64 then H else rfc_blocks (rfc_block (take 64 m) H) (drop 64 m))"

declare rfc_blocks.simps [simp del]

definition le_bytes :: "u32 \<Rightarrow> u8 list" where
  "le_bytes w = map (\<lambda>i. ucast (drop_bit (8 * i) w)) [0..<4]"

definition rfc_md5 :: "u8 list \<Rightarrow> u8 list" where
  "rfc_md5 m = (let (a, b, c, d) = rfc_blocks md5_IV (rfc_pad m) in le_bytes a @ le_bytes b @ le_bytes c @ le_bytes d)"

section \<open>The keyed hash\<close>

lemma md5_shifts: "i < 64 \<Longrightarrow> md5_r ! i = rfc_shift i \<and> 0 < rfc_shift i \<and> rfc_shift i < 32"
proof -
  have "\<forall>i \<in> set [0..<64]. md5_r ! i = rfc_shift i \<and> 0 < rfc_shift i \<and> rfc_shift i < 32" by code_simp
  then show "i < 64 \<Longrightarrow> ?thesis" by simp
qed

lemma md5_body_rfc: "i < 64 \<Longrightarrow> md5_body w i s = rfc_step w i s"
proof -
  assume i: "i < 64"
  have rot: "LEFTROTATE x (md5_r ! i) = word_rotl (rfc_shift i) x" for x
    using md5_shifts [OF i] rol_word_rotl [of "rfc_shift i" x] by (simp add: LEFTROTATE_def rol_def)
  show ?thesis unfolding md5_body_def rfc_step_def rot
    by (cases s) (simp add: rfc_function_def rfc_index_def Let_def and.commute add_ac)
qed

lemma digest_md5_rfc: "digest_md5 w = fold (rfc_step w) [0..<64] md5_IV"
  unfolding digest_md5_def by (rule fold_cong) (simp_all add: md5_body_rfc fun_eq_iff)

lemma pushqword_bytes: "pushqword (x, y) = le_bytes x @ le_bytes y"
  by (simp add: pushqword_def le_bytes_def ucast_255 upt_rec)

lemma length_le_bytes: "length (le_bytes w) = 4"
  by (simp add: le_bytes_def)

lemma le_bytes_xor: "le_bytes (x XOR y) = map2 (XOR) (le_bytes x) (le_bytes y)"
  by (simp add: le_bytes_def upt_rec) (intro conjI bit_word_eqI; auto simp: bit_simps)

text \<open>The padded message of 48 bytes is one block, whose words are those of \<open>hmac_md5\<close>.\<close>

lemma md5_words:
  assumes "length a = 8" "length b = 8"
  shows "map (\<lambda>i. le32 (drop (4 * i) (rfc_pad (concat (replicate 3 (a @ b)))))) [0..<16] =
    concat (replicate 3 [le32 a, le32 (drop 4 a), le32 b, le32 (drop 4 b)]) @ [0x80, 0, 384, 0]"
    "length (rfc_pad (concat (replicate 3 (a @ b)))) = 64"
proof -
  obtain a0 a1 a2 a3 a4 a5 a6 a7 b0 b1 b2 b3 b4 b5 b6 b7 where
    ab: "a = [a0, a1, a2, a3, a4, a5, a6, a7]" "b = [b0, b1, b2, b3, b4, b5, b6, b7]"
    using assms by (auto simp: length_Suc_conv numeral_eq_Suc)
  have r3: "replicate 3 x = [x, x, x]" for x :: "'a list" by (simp add: numeral_eq_Suc)
  have r7: "replicate 7 (0 :: u8) = [0, 0, 0, 0, 0, 0, 0]" by (simp add: numeral_eq_Suc)
  have pad: "rfc_pad (concat (replicate 3 (a @ b))) = (a @ b) @ (a @ b) @ (a @ b) @ [0x80, 0, 0, 0, 0, 0, 0, 0, 0x80, 1, 0, 0, 0, 0, 0, 0]"
    unfolding rfc_pad_def r3 ab by (simp add: r7 upt_rec)
  have u: "[0..<16] = [0, 1, 2, 3, 4, 5, 6, 7, 8, 9, 10, 11, 12, 13, 14, 15 :: nat]" by (simp add: upt_rec)
  show "map (\<lambda>i. le32 (drop (4 * i) (rfc_pad (concat (replicate 3 (a @ b)))))) [0..<16] =
    concat (replicate 3 [le32 a, le32 (drop 4 a), le32 b, le32 (drop 4 b)]) @ [0x80, 0, 384, 0]"
    unfolding pad unfolding u r3 ab by (simp add: le32_def)
  show "length (rfc_pad (concat (replicate 3 (a @ b)))) = 64" unfolding pad by (simp add: assms)
qed

text \<open>
  The comment before \<open>lhmac64_md5\<close> holds: for keys \<open>a\<close> and \<open>b\<close> of eight bytes, its result is the exclusive
  or of the two halves of the MD5 digest, as RFC 1321 defines it, of \<open>a\<close> and \<open>b\<close> repeated three times.
\<close>

theorem hmac64_md5_correct:
  assumes "length a = 8" "length b = 8"
  defines "m \<equiv> rfc_md5 (concat (replicate 3 (a @ b)))"
  shows "lhmac64_md5 a b = Inr (map2 (XOR) (take 8 m) (drop 8 m))"
proof -
  define M where "M = rfc_pad (concat (replicate 3 (a @ b)))"
  obtain r0 r1 r2 r3 where r: "digest_md5 (concat (replicate 3 [le32 a, le32 (drop 4 a), le32 b, le32 (drop 4 b)]) @ [0x80, 0, 384, 0]) = (r0, r1, r2, r3)"
    by (metis surj_pair)
  have "rfc_blocks md5_IV M = rfc_block M md5_IV"
    using md5_words(2) [OF assms(1,2)] by (simp add: M_def rfc_blocks.simps [of md5_IV] rfc_blocks.simps [of _ "[]"])
  also have "\<dots> = (r0 + 0x67452301, r1 + 0xefcdab89, r2 + 0x98badcfe, r3 + 0x10325476)"
    unfolding rfc_block_def M_def md5_words(1) [OF assms(1,2)] digest_md5_rfc [symmetric] r by (simp add: md5_IV_def)
  finally have "m = le_bytes (r0 + 0x67452301) @ le_bytes (r1 + 0xefcdab89) @ le_bytes (r2 + 0x98badcfe) @ le_bytes (r3 + 0x10325476)"
    by (simp add: m_def rfc_md5_def M_def)
  then have "map2 (XOR) (take 8 m) (drop 8 m) =
      le_bytes ((r0 + 0x67452301) XOR (r2 + 0x98badcfe)) @ le_bytes ((r1 + 0xefcdab89) XOR (r3 + 0x10325476))"
    by (simp add: le_bytes_xor length_le_bytes)
  then show ?thesis using assms(1,2) r by (simp add: lhmac64_md5_def read64_def hmac_md5_def pushqword_bytes Let_def)
qed

theorem hmac64_md5_correct_witness:
  "lhmac64_md5 [1, 2, 3, 4, 5, 6, 7, 8] [9, 9, 9, 9, 9, 9, 9, 9] =
    Inr (map2 (XOR) (take 8 (rfc_md5 (concat (replicate 3 ([1, 2, 3, 4, 5, 6, 7, 8] @ [9, 9, 9, 9, 9, 9, 9, 9])))))
      (drop 8 (rfc_md5 (concat (replicate 3 ([1, 2, 3, 4, 5, 6, 7, 8] @ [9, 9, 9, 9, 9, 9, 9, 9]))))))"
  by (rule hmac64_md5_correct) simp_all

end
