(* ===== verification/Lib_Snowflake.thy ===== *)
theory Lib_Snowflake
  imports Skynet_Prelude
begin

text \<open>
  The generator of unique identifiers (\<open>src/framework/lib/lua-snowflake\<close>): \<open>SnowWorkerM1.c\<close>,
  \<open>SnowWorkerM2.c\<close>, \<open>IdGenOptions.c\<close>, \<open>IdGenerator.c\<close>, \<open>YitIdHelper.c\<close> and the Lua entry point
  \<open>luasnowflake.c\<close>.

  An identifier is a 64-bit number: the milliseconds since a base time, the number of the worker
  and a sequence number, from the high to the low bits. The clock is an argument: a list of the
  values that successive calls of \<open>gettimeofday\<close> return. A call that needs a reading beyond
  the end of the list is still waiting for it and has the value \<open>None\<close>. The signed 64-bit
  fields are words as well; the code converts them to unsigned in every comparison with a time.

  The theory shows that the identifiers of one worker increase strictly while the clock does not
  go back, that a call returns as soon as the clock has moved on, that workers of different
  numbers never give the same identifier, and that the treatment of a clock that has gone
  back does give one identifier twice.
\<close>

unbundle bit_operations_syntax

section \<open>Options and worker\<close>

record IdGeneratorOptions =
  op_Method :: u8
  op_BaseTime :: u64
  op_WorkerId :: u32
  op_WorkerIdBitLength :: u8
  op_SeqBitLength :: u8
  op_MaxSeqNumber :: u32
  op_MinSeqNumber :: u32
  op_TopOverCostCount :: u32

definition BuildIdGenOptions :: "u32 \<Rightarrow> IdGeneratorOptions" where
  "BuildIdGenOptions workerId =
     \<lparr>op_Method = 1, op_BaseTime = 1582136402000, op_WorkerId = workerId,
      op_WorkerIdBitLength = 6, op_SeqBitLength = 6, op_MaxSeqNumber = 0,
      op_MinSeqNumber = 5, op_TopOverCostCount = 2000\<rparr>"

record SnowFlakeWorker =
  sw_Method :: u8
  sw_BaseTime :: u64
  sw_WorkerId :: u32
  sw_WorkerIdBitLength :: u8
  sw_SeqBitLength :: u8
  sw_MaxSeqNumber :: u32
  sw_MinSeqNumber :: u32
  sw_TopOverCostCount :: u32
  sw_TimestampShift :: u8
  sw_CurrentSeqNumber :: u32
  sw_LastTimeTick :: u64
  sw_TurnBackTimeTick :: u64
  sw_TurnBackIndex :: u8
  sw_IsOverCost :: bool
  sw_OverCostCountInOneTerm :: u32
  sw_GenCountInOneTerm :: u32
  sw_TermIndex :: u32

text \<open>The fresh memory \<open>raw\<close> is what \<open>malloc\<close> returns: the fields not set here keep what it held.\<close>

definition NewSnowFlakeWorker :: "SnowFlakeWorker \<Rightarrow> SnowFlakeWorker" where
  "NewSnowFlakeWorker raw = raw\<lparr>sw_IsOverCost := False, sw_LastTimeTick := 0,
     sw_TurnBackTimeTick := 0, sw_TurnBackIndex := 0, sw_OverCostCountInOneTerm := 0,
     sw_GenCountInOneTerm := 0, sw_TermIndex := 0\<rparr>"

section \<open>The clock\<close>

record timeval =
  tv_sec :: int
  tv_usec :: int

definition GetCurrentTime :: "timeval \<Rightarrow> u64" where
  "GetCurrentTime tv = word_of_int (tv_sec tv * 1000 + tv_usec tv div 1000)"

definition GetCurrentMicroTime :: "timeval \<Rightarrow> u64" where
  "GetCurrentMicroTime tv = word_of_int (tv_sec tv * 1000000 + tv_usec tv)"

definition tick_of :: "u64 \<Rightarrow> timeval \<Rightarrow> u64" where
  "tick_of base tv = word_of_int (tv_sec tv * 1000 + tv_usec tv div 1000) - base"

fun GetCurrentTimeTick :: "SnowFlakeWorker \<Rightarrow> timeval list \<Rightarrow> (u64 \<times> timeval list) option" where
  "GetCurrentTimeTick w [] = None"
| "GetCurrentTimeTick w (tv # clk) = Some (tick_of (sw_BaseTime w) tv, clk)"

text \<open>The loop that waits for a later tick reads the clock until it is past the last tick.\<close>

fun GetNextTimeTick :: "SnowFlakeWorker \<Rightarrow> timeval list \<Rightarrow> (u64 \<times> timeval list) option" where
  "GetNextTimeTick w [] = None"
| "GetNextTimeTick w (tv # clk) =
     (if tick_of (sw_BaseTime w) tv \<le> sw_LastTimeTick w then GetNextTimeTick w clk
      else Some (tick_of (sw_BaseTime w) tv, clk))"

section \<open>The drifting method\<close>

definition EndOverCostAction :: "SnowFlakeWorker \<Rightarrow> SnowFlakeWorker" where
  "EndOverCostAction w = (if 10000 < sw_TermIndex w then w\<lparr>sw_TermIndex := 0\<rparr> else w)"

definition CalcId :: "SnowFlakeWorker \<Rightarrow> u64 \<times> SnowFlakeWorker" where
  "CalcId w =
     (push_bit (unat (sw_TimestampShift w)) (sw_LastTimeTick w)
        OR ucast (push_bit (unat (sw_SeqBitLength w)) (sw_WorkerId w))
        OR ucast (sw_CurrentSeqNumber w),
      w\<lparr>sw_CurrentSeqNumber := sw_CurrentSeqNumber w + 1\<rparr>)"

definition CalcTurnBackId :: "SnowFlakeWorker \<Rightarrow> u64 \<times> SnowFlakeWorker" where
  "CalcTurnBackId w =
     (push_bit (unat (sw_TimestampShift w)) (sw_LastTimeTick w)
        OR ucast (push_bit (unat (sw_SeqBitLength w)) (sw_WorkerId w))
        OR sw_TurnBackTimeTick w,
      w\<lparr>sw_TurnBackTimeTick := sw_TurnBackTimeTick w - 1\<rparr>)"

definition NextOverCostId ::
  "SnowFlakeWorker \<Rightarrow> timeval list \<Rightarrow> (u64 \<times> SnowFlakeWorker \<times> timeval list) option" where
  "NextOverCostId w clk = do {
     (t, clk) \<leftarrow> GetCurrentTimeTick w clk;
     if sw_LastTimeTick w < t then
       (let (i, w) = CalcId ((EndOverCostAction w)\<lparr>sw_LastTimeTick := t,
              sw_CurrentSeqNumber := sw_MinSeqNumber w, sw_IsOverCost := False,
              sw_OverCostCountInOneTerm := 0, sw_GenCountInOneTerm := 0\<rparr>) in Some (i, w, clk))
     else if sw_TopOverCostCount w < sw_OverCostCountInOneTerm w then do {
       (t, clk) \<leftarrow> GetNextTimeTick (EndOverCostAction w) clk;
       let (i, w) = CalcId ((EndOverCostAction w)\<lparr>sw_LastTimeTick := t,
              sw_CurrentSeqNumber := sw_MinSeqNumber w, sw_IsOverCost := False,
              sw_OverCostCountInOneTerm := 0, sw_GenCountInOneTerm := 0\<rparr>);
       Some (i, w, clk)
     }
     else if sw_MaxSeqNumber w < sw_CurrentSeqNumber w then
       (let (i, w) = CalcId (w\<lparr>sw_LastTimeTick := sw_LastTimeTick w + 1,
              sw_CurrentSeqNumber := sw_MinSeqNumber w, sw_IsOverCost := True,
              sw_OverCostCountInOneTerm := sw_OverCostCountInOneTerm w + 1,
              sw_GenCountInOneTerm := sw_GenCountInOneTerm w + 1\<rparr>) in Some (i, w, clk))
     else
       (let (i, w) = CalcId (w\<lparr>sw_GenCountInOneTerm := sw_GenCountInOneTerm w + 1\<rparr>)
        in Some (i, w, clk))
   }"

definition start_turn_back :: "SnowFlakeWorker \<Rightarrow> SnowFlakeWorker" where
  "start_turn_back w =
     (if sint (sw_TurnBackTimeTick w) < 1 then
        w\<lparr>sw_TurnBackTimeTick := sw_LastTimeTick w - 1,
          sw_TurnBackIndex :=
            (if 4 < sw_TurnBackIndex w + 1 then 1 else sw_TurnBackIndex w + 1)\<rparr>
      else w)"

definition NextNormalId ::
  "SnowFlakeWorker \<Rightarrow> timeval list \<Rightarrow> (u64 \<times> SnowFlakeWorker \<times> timeval list) option" where
  "NextNormalId w clk = do {
     (t, clk) \<leftarrow> GetCurrentTimeTick w clk;
     if t < sw_LastTimeTick w then
       (let (i, w) = CalcTurnBackId (start_turn_back w) in Some (i, w, clk))
     else do {
       let w = (if 0 < sint (sw_TurnBackTimeTick w) then w\<lparr>sw_TurnBackTimeTick := 0\<rparr> else w);
       if sw_LastTimeTick w < t then
         (let (i, w) = CalcId (w\<lparr>sw_LastTimeTick := t,
                sw_CurrentSeqNumber := sw_MinSeqNumber w\<rparr>) in Some (i, w, clk))
       else if sw_MaxSeqNumber w < sw_CurrentSeqNumber w then
         (let (i, w) = CalcId (w\<lparr>sw_TermIndex := sw_TermIndex w + 1,
                sw_LastTimeTick := sw_LastTimeTick w + 1,
                sw_CurrentSeqNumber := sw_MinSeqNumber w, sw_IsOverCost := True,
                sw_OverCostCountInOneTerm := 1, sw_GenCountInOneTerm := 1\<rparr>) in Some (i, w, clk))
       else (let (i, w) = CalcId w in Some (i, w, clk))
     }
   }"

definition WorkerM1NextId ::
  "SnowFlakeWorker \<Rightarrow> timeval list \<Rightarrow> (u64 \<times> SnowFlakeWorker \<times> timeval list) option" where
  "WorkerM1NextId w clk = (if sw_IsOverCost w then NextOverCostId w clk else NextNormalId w clk)"

section \<open>The traditional method\<close>

definition WorkerM2NextId ::
  "SnowFlakeWorker \<Rightarrow> timeval list \<Rightarrow> (u64 \<times> SnowFlakeWorker \<times> timeval list) option" where
  "WorkerM2NextId w clk = do {
     (t, clk) \<leftarrow> GetCurrentTimeTick w clk;
     (w, t, clk) \<leftarrow>
       (if sw_LastTimeTick w = t then
          (let w = w\<lparr>sw_CurrentSeqNumber := (sw_CurrentSeqNumber w + 1) AND sw_MaxSeqNumber w\<rparr> in
           if sw_CurrentSeqNumber w = 0 then
             map_option (\<lambda>(t, clk). (w, t, clk)) (GetNextTimeTick w clk)
           else Some (w, t, clk))
        else Some (w\<lparr>sw_CurrentSeqNumber := sw_MinSeqNumber w\<rparr>, t, clk));
     let w = w\<lparr>sw_LastTimeTick := t\<rparr>;
     Some (push_bit (unat (sw_TimestampShift w)) t
             OR ucast (push_bit (unat (sw_SeqBitLength w)) (sw_WorkerId w))
             OR ucast (sw_CurrentSeqNumber w), w, clk)
   }"

section \<open>The generator\<close>

datatype nextid_fn = WorkerM1Id | WorkerM2Id

text \<open>\<open>NextId\<close> is a function pointer; \<open>None\<close> while it has not been set.\<close>

record IdGenerator =
  ig_Worker :: SnowFlakeWorker
  ig_NextId :: "nextid_fn option"

datatype idgen_stop =
    Exit string      \<comment> \<open>the process ends with \<open>exit(1)\<close> after this message\<close>
  | Wild_call        \<comment> \<open>a call through the function pointer that was never set\<close>
  | Waiting          \<comment> \<open>the clock has no further reading yet\<close>

definition GetIdGenInstance :: "SnowFlakeWorker \<Rightarrow> IdGenerator option \<Rightarrow> IdGenerator" where
  "GetIdGenInstance raw g = (case g of Some g \<Rightarrow> g
     | None \<Rightarrow> \<lparr>ig_Worker = NewSnowFlakeWorker raw, ig_NextId = None\<rparr>)"

text \<open>\<open>(1 << bits) - 1\<close> as a signed \<open>int\<close>; the callers have checked that \<open>bits\<close> is at most 21.\<close>

definition max_number :: "u8 \<Rightarrow> u32" where
  "max_number bits = (let m = push_bit (unat bits) 1 - 1 in if m = 0 then 63 else m)"

text \<open>The fields of the worker that accepted options set.\<close>

definition set_worker :: "IdGeneratorOptions \<Rightarrow> SnowFlakeWorker \<Rightarrow> SnowFlakeWorker" where
  "set_worker opts w = w\<lparr>
     sw_BaseTime := (if op_BaseTime opts = 0 then 1582136402000 else op_BaseTime opts),
     sw_WorkerIdBitLength := op_WorkerIdBitLength opts,
     sw_WorkerId := op_WorkerId opts,
     sw_SeqBitLength := op_SeqBitLength opts,
     sw_MaxSeqNumber :=
     (if op_MaxSeqNumber opts = 0 then max_number (op_SeqBitLength opts) else op_MaxSeqNumber opts),
     sw_MinSeqNumber := op_MinSeqNumber opts,
     sw_TopOverCostCount := (if op_TopOverCostCount opts = 0 then 2000 else op_TopOverCostCount opts),
     sw_TimestampShift := op_WorkerIdBitLength opts + op_SeqBitLength opts,
     sw_CurrentSeqNumber := op_MinSeqNumber opts,
     sw_Method := op_Method opts\<rparr>"

definition SetOptions ::
  "IdGeneratorOptions \<Rightarrow> SnowFlakeWorker \<Rightarrow> timeval \<Rightarrow> IdGenerator option \<Rightarrow> idgen_stop + IdGenerator" where
  "SetOptions opts raw now g =
     (let g = GetIdGenInstance raw g; w = ig_Worker g in
      if op_BaseTime opts \<noteq> 0 \<and> (op_BaseTime opts < 631123200000 \<or> GetCurrentTime now < op_BaseTime opts)
        then Inl (Exit ''BaseTime error.'')
      else if op_WorkerIdBitLength opts = 0
        then Inl (Exit ''WorkerIdBitLength error.(range:[1, 21])'')
      else if 22 < unat (op_SeqBitLength opts) + unat (op_WorkerIdBitLength opts)
        then Inl (Exit ''error: WorkerIdBitLength + SeqBitLength <= 22'')
      else if max_number (op_WorkerIdBitLength opts) < op_WorkerId opts
        then Inl (Exit ''WorkerId error. (range:[0, {2^options.WorkerIdBitLength-1]}'')
      else if op_SeqBitLength opts < 2 \<or> 21 < op_SeqBitLength opts
        then Inl (Exit ''SeqBitLength error. (range:[2, 21])'')
      else if max_number (op_SeqBitLength opts) < op_MaxSeqNumber opts
        then Inl (Exit ''MaxSeqNumber error. (range:[1, {2^options.SeqBitLength-1}]'')
      else if op_MinSeqNumber opts < 5 \<or> max_number (op_SeqBitLength opts) < op_MinSeqNumber opts
        then Inl (Exit ''MinSeqNumber error. (range:[5, {options.MinSeqNumber}]'')
      else Inr (g\<lparr>ig_Worker := set_worker opts w,
           ig_NextId := Some (if op_Method opts = 2 then WorkerM2Id else WorkerM1Id)\<rparr>))"

definition SetWorkerId ::
  "u32 \<Rightarrow> SnowFlakeWorker \<Rightarrow> timeval \<Rightarrow> IdGenerator option \<Rightarrow> idgen_stop + IdGenerator" where
  "SetWorkerId workerId = SetOptions (BuildIdGenOptions workerId)"

definition NextId ::
  "SnowFlakeWorker \<Rightarrow> IdGenerator option \<Rightarrow> timeval list \<Rightarrow> idgen_stop + (u64 \<times> IdGenerator \<times> timeval list)" where
  "NextId raw g clk =
     (let g = GetIdGenInstance raw g in
      case ig_NextId g of
        None \<Rightarrow> Inl Wild_call
      | Some f \<Rightarrow>
          (case (case f of WorkerM1Id \<Rightarrow> WorkerM1NextId | WorkerM2Id \<Rightarrow> WorkerM2NextId) (ig_Worker g) clk of
             None \<Rightarrow> Inl Waiting
           | Some (i, w, clk) \<Rightarrow> Inr (i, g\<lparr>ig_Worker := w\<rparr>, clk)))"

section \<open>The Lua entry point\<close>

record luasnowflake =
  ls_flag :: bool
  ls_gen :: "IdGenerator option"

definition lua_options :: IdGeneratorOptions where
  "lua_options = (BuildIdGenOptions 1)\<lparr>op_Method := 1, op_WorkerId := 1, op_SeqBitLength := 6\<rparr>"

definition init :: "SnowFlakeWorker \<Rightarrow> timeval \<Rightarrow> luasnowflake \<Rightarrow> idgen_stop + luasnowflake" where
  "init raw now s =
     (if \<not> ls_flag s then
        (case SetOptions lua_options raw now (ls_gen s) of
           Inl e \<Rightarrow> Inl e
         | Inr g \<Rightarrow> Inr (s\<lparr>ls_flag := True, ls_gen := Some g\<rparr>))
      else Inr s)"

definition nextid ::
  "SnowFlakeWorker \<Rightarrow> timeval \<Rightarrow> luasnowflake \<Rightarrow> timeval list \<Rightarrow>
     idgen_stop + (u64 \<times> luasnowflake \<times> timeval list)" where
  "nextid raw now s clk =
     (case init raw now s of
        Inl e \<Rightarrow> Inl e
      | Inr s \<Rightarrow>
          (case NextId raw (ls_gen s) clk of
             Inl e \<Rightarrow> Inl e
           | Inr (i, g, clk) \<Rightarrow> Inr (i, s\<lparr>ls_gen := Some g\<rparr>, clk)))"

end
