(* ===== verification/Lib_Snowflake_Proofs.thy ===== *)
theory Lib_Snowflake_Proofs
  imports Lib_Snowflake
begin

text \<open>
  Correctness of the identifiers of \<open>Lib_Snowflake\<close>. The value \<open>next_val\<close> of a worker is a
  lower bound for every identifier it will give and an upper bound for those it gave; every
  step of the drifting and of the traditional method moves it up past the identifier given.
\<close>

unbundle bit_operations_syntax

section \<open>Sources of increasing identifiers\<close>

text \<open>Calling a method \<open>n\<close> times; \<open>None\<close> while one of the calls is still waiting.\<close>

fun run_ids :: "('w \<Rightarrow> 'c \<Rightarrow> (u64 \<times> 'w \<times> 'c) option) \<Rightarrow> nat \<Rightarrow> 'w \<Rightarrow> 'c \<Rightarrow> (u64 list \<times> 'w \<times> 'c) option" where
  "run_ids step 0 w c = Some ([], w, c)"
| "run_ids step (Suc n) w c = do {
     (i, w, c) \<leftarrow> step w c;
     (is, w, c) \<leftarrow> run_ids step n w c;
     Some (i # is, w, c)
   }"

text \<open>
  The contract of a method: its value is a bound between the identifiers given before and the
  next one, and every identifier carries a tag of the worker that never changes.
\<close>

locale id_source =
  fixes step :: "'w \<Rightarrow> 'c \<Rightarrow> (u64 \<times> 'w \<times> 'c) option"
    and ok :: "'w \<Rightarrow> 'c \<Rightarrow> bool"
    and val :: "'w \<Rightarrow> nat"
    and tag :: "'w \<Rightarrow> u64 \<Rightarrow> bool"
  assumes step_ok: "ok w c \<Longrightarrow> step w c = Some (i, w', c') \<Longrightarrow>
    ok w' c' \<and> val w \<le> unat i \<and> unat i < val w' \<and> tag w' = tag w \<and> tag w i"
begin

lemma run_spec:
  "ok w c \<Longrightarrow> run_ids step n w c = Some (is, w', c') \<Longrightarrow>
     ok w' c' \<and> sorted_wrt (<) is \<and> (\<forall>i\<in>set is. val w \<le> unat i \<and> tag w i) \<and> tag w' = tag w"
proof (induction n arbitrary: w c "is")
  case (Suc n)
  then obtain i v d js where *: "step w c = Some (i, v, d)" "run_ids step n v d = Some (js, w', c')"
    "is = i # js" by (auto simp: c_simps)
  have s: "ok v d \<and> val w \<le> unat i \<and> unat i < val v \<and> tag v = tag w \<and> tag w i"
    using step_ok Suc.prems(1) *(1) by blast
  have r: "ok w' c' \<and> sorted_wrt (<) js \<and> (\<forall>j\<in>set js. val v \<le> unat j \<and> tag v j) \<and> tag w' = tag v"
    using Suc.IH *(2) s by blast
  have "i < j" if "j \<in> set js" for j
    using r s that by (force simp: word_less_nat_alt)
  then show ?case using s r *(3) by force
qed simp

end

section \<open>The layout of an identifier\<close>

lemma or_add_nat:
  assumes "b < 2 ^ n"
  shows "push_bit n a OR b = a * 2 ^ n + (b :: nat)"
proof -
  have "push_bit n a AND b = 0"
    using assms by (intro bit_eqI) (auto simp: bit_simps not_le, metis bit_take_bit_iff take_bit_nat_eq_self not_le)
  then show ?thesis by (simp add: disjunctive_add_eq_or [symmetric] push_bit_eq_mult)
qed

definition make_id :: "nat \<Rightarrow> nat \<Rightarrow> nat \<Rightarrow> nat \<Rightarrow> nat \<Rightarrow> nat" where
  "make_id sh sb t wid sq = t * 2 ^ sh + wid * 2 ^ sb + sq"

lemma unat_push_bit_small:
  fixes x :: "'a::len word"
  assumes "unat x * 2 ^ n < 2 ^ LENGTH('a)"
  shows "unat (push_bit n x) = push_bit n (unat x)"
  unfolding unsigned_push_bit_eq
  using assms by (simp add: push_bit_eq_mult take_bit_nat_eq_self)

lemma unat_ucast_64: "unat (ucast x :: u64) = unat x" for x :: u32
proof -
  have "unat x < 2 ^ 32" by (rule order_less_le_trans [OF unsigned_less]) simp
  then show ?thesis by (simp add: unsigned_ucast_eq take_bit_nat_eq_self)
qed

lemma unat_layout:
  fixes t :: u64 and wid sq :: u32
  assumes "sh = wb + sb" "sh \<le> 22" "unat t < 2 ^ (63 - sh)" "unat wid < 2 ^ wb" "unat sq < 2 ^ sb"
  shows "unat (push_bit sh t OR ucast (push_bit sb wid) OR ucast sq) = make_id sh sb (unat t) (unat wid) (unat sq)"
proof -
  have w: "unat wid * 2 ^ sb + unat sq < 2 ^ sh"
  proof -
    have "unat wid * 2 ^ sb + unat sq < (unat wid + 1) * 2 ^ sb" using assms by simp
    also have "\<dots> \<le> 2 ^ wb * 2 ^ sb" using assms(4) by (intro mult_right_mono) simp_all
    finally show ?thesis using assms(1) by (simp add: power_add)
  qed
  have s: "(2::nat) ^ sh \<le> 2 ^ 22" using assms(2) by (intro power_increasing) simp_all
  have a: "unat (push_bit sb wid) = push_bit sb (unat wid)"
    using w s by (intro unat_push_bit_small) simp
  have "unat t * 2 ^ sh < 2 ^ (63 - sh) * 2 ^ sh" using assms(3) by simp
  also have "\<dots> = 2 ^ 63" using assms(2) by (simp flip: power_add)
  finally have b: "unat (push_bit sh t) = push_bit sh (unat t)"
    by (intro unat_push_bit_small) simp
  have "unat (push_bit sh t OR ucast (push_bit sb wid) OR ucast sq)
      = push_bit sh (unat t) OR push_bit sb (unat wid) OR unat sq"
    unfolding unsigned_or_eq a b unat_ucast_64 ..
  also have "\<dots> = push_bit sh (unat t) OR (unat wid * 2 ^ sb + unat sq)"
    using assms(5) by (simp add: or_add_nat or.assoc)
  also have "\<dots> = unat t * 2 ^ sh + (unat wid * 2 ^ sb + unat sq)"
    by (rule or_add_nat [OF w])
  finally show ?thesis by (simp add: make_id_def)
qed

lemma make_id_mono:
  assumes "sh = wb + sb" "wid < 2 ^ wb" "sq \<le> 2 ^ sb" "t < t'"
  shows "make_id sh sb t wid sq \<le> make_id sh sb t' wid sq'"
proof -
  have "wid * 2 ^ sb + sq \<le> (wid + 1) * 2 ^ sb" using assms by simp
  also have "\<dots> \<le> 2 ^ wb * 2 ^ sb" using assms(2) by (intro mult_right_mono) simp_all
  finally have "wid * 2 ^ sb + sq \<le> 2 ^ sh" using assms(1) by (simp add: power_add)
  then have "t * 2 ^ sh + wid * 2 ^ sb + sq \<le> (t + 1) * 2 ^ sh" by simp
  also have "\<dots> \<le> t' * 2 ^ sh" using assms(4) by (intro mult_right_mono) simp_all
  finally show ?thesis by (simp add: make_id_def)
qed

text \<open>The parts of an identifier can be read back.\<close>

lemma make_id_worker:
  assumes "sh = wb + sb" "wid < 2 ^ wb" "sq < 2 ^ sb"
  shows "make_id sh sb t wid sq div 2 ^ sb mod 2 ^ wb = wid"
    and "make_id sh sb t wid sq mod 2 ^ sb = sq"
    and "make_id sh sb t wid sq div 2 ^ sh = t"
proof -
  have e: "make_id sh sb t wid sq = sq + 2 ^ sb * (wid + 2 ^ wb * t)"
    using assms(1) by (simp add: make_id_def power_add algebra_simps)
  then have d: "make_id sh sb t wid sq div 2 ^ sb = wid + 2 ^ wb * t" using assms(3) by simp
  then show "make_id sh sb t wid sq div 2 ^ sb mod 2 ^ wb = wid" using assms(2) by simp
  show "make_id sh sb t wid sq mod 2 ^ sb = sq" using e assms(3) by simp
  have "make_id sh sb t wid sq div 2 ^ sh = make_id sh sb t wid sq div 2 ^ sb div 2 ^ wb"
    using assms(1) by (simp add: power_add div_mult2_eq mult.commute)
  then show "make_id sh sb t wid sq div 2 ^ sh = t" using d assms(2) by simp
qed

section \<open>Well-formed workers\<close>

definition worker_wf :: "SnowFlakeWorker \<Rightarrow> bool" where
  "worker_wf w \<longleftrightarrow>
     unat (sw_TimestampShift w) = unat (sw_WorkerIdBitLength w) + unat (sw_SeqBitLength w) \<and>
     unat (sw_TimestampShift w) \<le> 22 \<and>
     unat (sw_WorkerId w) < 2 ^ unat (sw_WorkerIdBitLength w) \<and>
     unat (sw_MinSeqNumber w) < 2 ^ unat (sw_SeqBitLength w) \<and>
     unat (sw_MaxSeqNumber w) < 2 ^ unat (sw_SeqBitLength w) \<and>
     unat (sw_CurrentSeqNumber w) \<le> 2 ^ unat (sw_SeqBitLength w)"

definition next_val :: "SnowFlakeWorker \<Rightarrow> nat" where
  "next_val w = make_id (unat (sw_TimestampShift w)) (unat (sw_SeqBitLength w))
     (unat (sw_LastTimeTick w)) (unat (sw_WorkerId w)) (unat (sw_CurrentSeqNumber w))"

definition same_layout :: "SnowFlakeWorker \<Rightarrow> SnowFlakeWorker \<Rightarrow> bool" where
  "same_layout w v \<longleftrightarrow> sw_TimestampShift v = sw_TimestampShift w \<and>
     sw_SeqBitLength v = sw_SeqBitLength w \<and> sw_WorkerIdBitLength v = sw_WorkerIdBitLength w \<and>
     sw_WorkerId v = sw_WorkerId w \<and> sw_MinSeqNumber v = sw_MinSeqNumber w \<and>
     sw_MaxSeqNumber v = sw_MaxSeqNumber w \<and> sw_TopOverCostCount v = sw_TopOverCostCount w \<and>
     sw_BaseTime v = sw_BaseTime w"

text \<open>The identifier \<open>i\<close> carries the number of the worker and is positive as a signed number.\<close>

definition id_of :: "SnowFlakeWorker \<Rightarrow> u64 \<Rightarrow> bool" where
  "id_of w i \<longleftrightarrow> unat i < 2 ^ 63 \<and>
     unat i div 2 ^ unat (sw_SeqBitLength w) mod 2 ^ unat (sw_WorkerIdBitLength w) = unat (sw_WorkerId w)"

lemma id_of_next_val:
  assumes "worker_wf w" "unat (sw_LastTimeTick w) < 2 ^ (63 - unat (sw_TimestampShift w))"
    "unat (sw_CurrentSeqNumber w) < 2 ^ unat (sw_SeqBitLength w)" "unat i = next_val w"
  shows "id_of w i"
proof -
  let ?sh = "unat (sw_TimestampShift w)" and ?t = "unat (sw_LastTimeTick w)"
  have d: "unat i div 2 ^ ?sh = ?t"
    unfolding assms(4) next_val_def using assms(1,3)
    by (intro make_id_worker(3) [where wb = "unat (sw_WorkerIdBitLength w)"]) (simp_all add: worker_wf_def)
  have "unat i < (?t + 1) * 2 ^ ?sh"
    using d dividend_less_times_div [of "2 ^ ?sh" "unat i"] by (simp add: algebra_simps)
  also have "\<dots> \<le> 2 ^ (63 - ?sh) * 2 ^ ?sh" using assms(2) by (intro mult_right_mono) simp_all
  also have "\<dots> = 2 ^ 63" using assms(1) by (simp add: worker_wf_def flip: power_add)
  finally have "unat i < 2 ^ 63" .
  moreover have "unat i div 2 ^ unat (sw_SeqBitLength w) mod 2 ^ unat (sw_WorkerIdBitLength w) = unat (sw_WorkerId w)"
    unfolding assms(4) next_val_def using assms(1,3)
    by (intro make_id_worker(1)) (simp_all add: worker_wf_def)
  ultimately show ?thesis by (simp add: id_of_def)
qed

lemma seq_bits_le: "worker_wf w \<Longrightarrow> (2::nat) ^ unat (sw_SeqBitLength w) \<le> 4194304"
proof -
  assume "worker_wf w"
  then have "unat (sw_SeqBitLength w) \<le> 22" by (simp add: worker_wf_def)
  then have "(2::nat) ^ unat (sw_SeqBitLength w) \<le> 2 ^ 22" by (intro power_increasing) simp_all
  then show ?thesis by simp
qed

lemma CalcId_spec:
  assumes "worker_wf w" "unat (sw_LastTimeTick w) < 2 ^ (63 - unat (sw_TimestampShift w))"
    "unat (sw_CurrentSeqNumber w) < 2 ^ unat (sw_SeqBitLength w)"
  shows "\<exists>i v. CalcId w = (i, v) \<and> unat i = next_val w \<and>
    v = w\<lparr>sw_CurrentSeqNumber := sw_CurrentSeqNumber w + 1\<rparr> \<and>
    unat (sw_CurrentSeqNumber v) = unat (sw_CurrentSeqNumber w) + 1 \<and> worker_wf v"
proof -
  have u: "unat (sw_CurrentSeqNumber w + 1) = unat (sw_CurrentSeqNumber w) + 1"
  proof -
    have "unat (sw_CurrentSeqNumber w) + 1 < 2 ^ 32"
      using assms(3) seq_bits_le [OF assms(1)] by simp
    then show ?thesis by (simp add: unat_word_ariths take_bit_nat_eq_self)
  qed
  show ?thesis
    using assms u
    by (auto simp: CalcId_def next_val_def worker_wf_def
        intro!: unat_layout [where wb = "unat (sw_WorkerIdBitLength w)"])
qed

section \<open>One step of the drifting method\<close>

text \<open>
  \<open>m1_inv w c\<close> relates a worker to a lower bound \<open>c\<close> of all later clock readings: outside a
  drift the last tick is not after \<open>c\<close>, and in a drift it is ahead by at most the number of
  drifts counted.
\<close>

definition m1_inv :: "SnowFlakeWorker \<Rightarrow> nat \<Rightarrow> bool" where
  "m1_inv w c \<longleftrightarrow> worker_wf w \<and>
     (if sw_IsOverCost w
      then unat (sw_LastTimeTick w) \<le> c + unat (sw_OverCostCountInOneTerm w) \<and>
           unat (sw_OverCostCountInOneTerm w) \<le> unat (sw_TopOverCostCount w) + 1
      else unat (sw_LastTimeTick w) \<le> c)"

definition tick_bound :: "SnowFlakeWorker \<Rightarrow> nat \<Rightarrow> bool" where
  "tick_bound w c \<longleftrightarrow> unat (sw_TopOverCostCount w) + 1 < 2 ^ 32 \<and>
     c + unat (sw_TopOverCostCount w) + 1 < 2 ^ (63 - unat (sw_TimestampShift w))"

lemma m1_inv_mono: "m1_inv w c \<Longrightarrow> c \<le> c' \<Longrightarrow> m1_inv w c'"
  by (auto simp: m1_inv_def split: if_splits)

text \<open>Every branch prepares a worker \<open>v\<close> whose value is not below the old one and calls \<open>CalcId\<close>.\<close>

lemma m1_emit:
  assumes "m1_inv v c" "tick_bound w c" "same_layout w v" "next_val w \<le> next_val v"
    "unat (sw_CurrentSeqNumber v) < 2 ^ unat (sw_SeqBitLength v)"
  shows "\<exists>i v'. CalcId v = (i, v') \<and> m1_inv v' c \<and> same_layout w v' \<and>
    next_val w \<le> unat i \<and> unat i < next_val v' \<and> id_of w i"
proof -
  have t: "unat (sw_LastTimeTick v) < 2 ^ (63 - unat (sw_TimestampShift v))"
    using assms(1-3) by (auto simp: m1_inv_def tick_bound_def same_layout_def split: if_splits)
  with assms CalcId_spec [of v] obtain i v' where *: "CalcId v = (i, v')" "unat i = next_val v"
    "v' = v\<lparr>sw_CurrentSeqNumber := sw_CurrentSeqNumber v + 1\<rparr>"
    "unat (sw_CurrentSeqNumber v') = unat (sw_CurrentSeqNumber v) + 1" "worker_wf v'"
    by (auto simp: m1_inv_def)
  moreover have "id_of w i"
    using id_of_next_val [of v i] assms(1,3,5) t *(2) by (simp add: m1_inv_def same_layout_def id_of_def)
  ultimately show ?thesis
    using assms by (auto simp: m1_inv_def same_layout_def next_val_def make_id_def)
qed

lemma next_val_later:
  assumes "worker_wf w" "same_layout w v" "sw_LastTimeTick w < sw_LastTimeTick v"
  shows "next_val w \<le> next_val v"
  using assms unfolding next_val_def same_layout_def worker_wf_def
  by (auto intro!: make_id_mono simp: word_less_nat_alt)

lemma GetNextTimeTick_spec:
  assumes "GetNextTimeTick w clk = Some (t, clk')"
  shows "\<exists>pre tv. clk = pre @ tv # clk' \<and> t = tick_of (sw_BaseTime w) tv \<and> sw_LastTimeTick w < t"
  using assms
proof (induction w clk rule: GetNextTimeTick.induct)
  case (2 w tv clk)
  show ?case
  proof (cases "tick_of (sw_BaseTime w) tv \<le> sw_LastTimeTick w")
    case True
    with 2 obtain pre u where "clk = pre @ u # clk'" "t = tick_of (sw_BaseTime w) u" "sw_LastTimeTick w < t"
      by auto
    then show ?thesis by (intro exI [of _ "tv # pre"] exI [of _ u]) simp
  next
    case False
    with 2(2) show ?thesis by (intro exI [of _ "[]"] exI [of _ tv]) auto
  qed
qed simp

lemma worker_wf_upd:
  "same_layout w v \<Longrightarrow> unat (sw_CurrentSeqNumber v) \<le> 2 ^ unat (sw_SeqBitLength v) \<Longrightarrow> worker_wf w \<Longrightarrow> worker_wf v"
  by (simp add: same_layout_def worker_wf_def)

lemma unat_suc:
  "unat x + 1 < 2 ^ LENGTH('a) \<Longrightarrow> unat (x + 1) = unat x + 1" for x :: "'a::len word"
  by (simp add: unat_word_ariths take_bit_nat_eq_self)

text \<open>Starting over at a later tick.\<close>

lemma m1_fresh:
  assumes "m1_inv w c" "same_layout w v" "sw_LastTimeTick w < sw_LastTimeTick v"
    "sw_CurrentSeqNumber v = sw_MinSeqNumber w" "\<not> sw_IsOverCost v" "unat (sw_LastTimeTick v) \<le> c'"
    "tick_bound w c'"
  shows "\<exists>i v'. CalcId v = (i, v') \<and> m1_inv v' c' \<and> same_layout w v' \<and>
    next_val w \<le> unat i \<and> unat i < next_val v' \<and> id_of w i"
proof (rule m1_emit)
  have w: "worker_wf w" using assms(1) by (simp add: m1_inv_def)
  then show "unat (sw_CurrentSeqNumber v) < 2 ^ unat (sw_SeqBitLength v)"
    using assms(2,4) by (simp add: worker_wf_def same_layout_def)
  with w assms show "m1_inv v c'" by (auto simp: m1_inv_def intro: worker_wf_upd)
  show "next_val w \<le> next_val v" using w assms by (intro next_val_later)
qed (use assms in simp_all)

text \<open>Going on in the same tick.\<close>

lemma m1_same:
  assumes "m1_inv w c" "same_layout w v" "sw_LastTimeTick v = sw_LastTimeTick w"
    "sw_CurrentSeqNumber v = sw_CurrentSeqNumber w" "sw_IsOverCost v = sw_IsOverCost w"
    "sw_OverCostCountInOneTerm v = sw_OverCostCountInOneTerm w"
    "\<not> sw_MaxSeqNumber w < sw_CurrentSeqNumber w" "tick_bound w c"
  shows "\<exists>i v'. CalcId v = (i, v') \<and> m1_inv v' c \<and> same_layout w v' \<and>
    next_val w \<le> unat i \<and> unat i < next_val v' \<and> id_of w i"
proof (rule m1_emit)
  show i: "m1_inv v c" using assms by (simp add: m1_inv_def same_layout_def worker_wf_def split: if_splits)
  show "unat (sw_CurrentSeqNumber v) < 2 ^ unat (sw_SeqBitLength v)"
    using assms by (auto simp: m1_inv_def worker_wf_def same_layout_def word_less_nat_alt not_less)
  show "next_val w \<le> next_val v" using assms by (simp add: next_val_def same_layout_def)
qed (use assms in simp_all)

text \<open>Drifting to the next tick.\<close>

lemma m1_drift:
  assumes "m1_inv w c" "same_layout w v" "sw_LastTimeTick v = sw_LastTimeTick w + 1"
    "sw_CurrentSeqNumber v = sw_MinSeqNumber w" "sw_IsOverCost v"
    "unat (sw_LastTimeTick v) \<le> c + unat (sw_OverCostCountInOneTerm v)"
    "unat (sw_OverCostCountInOneTerm v) \<le> unat (sw_TopOverCostCount w) + 1"
    "unat (sw_LastTimeTick v) = unat (sw_LastTimeTick w) + 1"
    "tick_bound w c"
  shows "\<exists>i v'. CalcId v = (i, v') \<and> m1_inv v' c \<and> same_layout w v' \<and>
    next_val w \<le> unat i \<and> unat i < next_val v' \<and> id_of w i"
proof (rule m1_emit)
  have w: "worker_wf w" using assms(1) by (simp add: m1_inv_def)
  then show s: "unat (sw_CurrentSeqNumber v) < 2 ^ unat (sw_SeqBitLength v)"
    using assms(2,4) by (simp add: worker_wf_def same_layout_def)
  have "worker_wf v" using w assms(2) s by (auto intro: worker_wf_upd)
  with assms show "m1_inv v c" by (simp add: m1_inv_def same_layout_def)
  have "sw_LastTimeTick w < sw_LastTimeTick v" using assms(8) by (simp add: word_less_nat_alt)
  with w assms(2) show "next_val w \<le> next_val v" by (intro next_val_later)
qed (use assms in simp_all)

section \<open>The drifting method as a source\<close>

definition clock_ok :: "u64 \<Rightarrow> nat \<Rightarrow> nat \<Rightarrow> timeval list \<Rightarrow> bool" where
  "clock_ok base c C clk \<longleftrightarrow> sorted (map (\<lambda>tv. unat (tick_of base tv)) clk) \<and>
     (\<forall>tv\<in>set clk. c \<le> unat (tick_of base tv) \<and> unat (tick_of base tv) \<le> C)"

lemma clock_ok_Cons:
  "clock_ok base c C (tv # clk) \<longleftrightarrow>
     c \<le> unat (tick_of base tv) \<and> unat (tick_of base tv) \<le> C \<and> clock_ok base (unat (tick_of base tv)) C clk"
  by (auto simp: clock_ok_def)

lemma clock_ok_app: "clock_ok base c C (pre @ clk) \<Longrightarrow> clock_ok base c C clk"
  by (auto simp: clock_ok_def sorted_append)

definition m1_ok :: "nat \<Rightarrow> SnowFlakeWorker \<Rightarrow> timeval list \<Rightarrow> bool" where
  "m1_ok C w clk \<longleftrightarrow> tick_bound w C \<and> (\<exists>c. m1_inv w c \<and> clock_ok (sw_BaseTime w) c C clk)"

lemma EndOverCostAction_fields [simp]:
  "sw_BaseTime (EndOverCostAction w) = sw_BaseTime w"
  "sw_LastTimeTick (EndOverCostAction w) = sw_LastTimeTick w"
  "same_layout w (EndOverCostAction w)"
  by (auto simp: EndOverCostAction_def same_layout_def)

lemma same_layout_upd [simp]:
  "same_layout w (v\<lparr>sw_LastTimeTick := t\<rparr>) = same_layout w v"
  "same_layout w (v\<lparr>sw_CurrentSeqNumber := x\<rparr>) = same_layout w v"
  "same_layout w (v\<lparr>sw_TurnBackTimeTick := t\<rparr>) = same_layout w v"
  "same_layout w (v\<lparr>sw_IsOverCost := b\<rparr>) = same_layout w v"
  "same_layout w (v\<lparr>sw_OverCostCountInOneTerm := x\<rparr>) = same_layout w v"
  "same_layout w (v\<lparr>sw_GenCountInOneTerm := x\<rparr>) = same_layout w v"
  "same_layout w (v\<lparr>sw_TermIndex := x\<rparr>) = same_layout w v"
  "same_layout w w"
  by (simp_all add: same_layout_def)

text \<open>What a step has to establish, for the clock that is left.\<close>

definition m1_done :: "nat \<Rightarrow> SnowFlakeWorker \<Rightarrow> u64 \<Rightarrow> SnowFlakeWorker \<Rightarrow> timeval list \<Rightarrow> bool" where
  "m1_done C w i v clk \<longleftrightarrow> (\<exists>c. m1_inv v c \<and> clock_ok (sw_BaseTime w) c C clk) \<and> same_layout w v \<and>
     next_val w \<le> unat i \<and> unat i < next_val v \<and> id_of w i"

lemma tick_bound_mono: "tick_bound w C \<Longrightarrow> c \<le> C \<Longrightarrow> tick_bound w c"
  by (simp add: tick_bound_def)

lemma drift_tick:
  assumes "m1_inv w c" "tick_bound w C" "c \<le> C"
  shows "unat (sw_LastTimeTick w + 1) = unat (sw_LastTimeTick w) + 1"
proof (rule unat_suc)
  have "unat (sw_LastTimeTick w) < 2 ^ (63 - unat (sw_TimestampShift w))"
    using assms by (auto simp: m1_inv_def tick_bound_def split: if_splits)
  moreover have "(2::nat) ^ (63 - unat (sw_TimestampShift w)) \<le> 2 ^ 63" by (intro power_increasing) simp_all
  ultimately have "unat (sw_LastTimeTick w) < 2 ^ 63" by (rule order_less_le_trans)
  then show "unat (sw_LastTimeTick w) + 1 < 2 ^ LENGTH(64)" by simp
qed


lemma NextOverCostId_step:
  assumes "m1_ok C w clk" "sw_IsOverCost w" "NextOverCostId w clk = Some (i, v, clk')"
  shows "m1_done C w i v clk'"
proof -
  from assms(3) obtain tv rest where clk: "clk = tv # rest" by (cases clk) (auto simp: NextOverCostId_def)
  from assms(1) obtain c where c: "m1_inv w c" "clock_ok (sw_BaseTime w) c C clk" "tick_bound w C"
    by (auto simp: m1_ok_def)
  let ?t = "tick_of (sw_BaseTime w) tv"
  have ck: "c \<le> unat ?t" "unat ?t \<le> C" "clock_ok (sw_BaseTime w) (unat ?t) C rest"
    using c(2) by (auto simp: clk clock_ok_Cons)
  note inv = m1_inv_mono [OF c(1) ck(1)] and tb = tick_bound_mono [OF c(3) ck(2)]
  note run = assms(3) [unfolded NextOverCostId_def clk, simplified]
  consider (later) "sw_LastTimeTick w < ?t"
    | (wait) "\<not> sw_LastTimeTick w < ?t" "sw_TopOverCostCount w < sw_OverCostCountInOneTerm w"
    | (drift) "\<not> sw_LastTimeTick w < ?t" "\<not> sw_TopOverCostCount w < sw_OverCostCountInOneTerm w"
        "sw_MaxSeqNumber w < sw_CurrentSeqNumber w"
    | (same) "\<not> sw_LastTimeTick w < ?t" "\<not> sw_TopOverCostCount w < sw_OverCostCountInOneTerm w"
        "\<not> sw_MaxSeqNumber w < sw_CurrentSeqNumber w" by blast
  then show ?thesis
  proof cases
    case later
    let ?v = "(EndOverCostAction w)\<lparr>sw_LastTimeTick := ?t,
              sw_CurrentSeqNumber := sw_MinSeqNumber w, sw_IsOverCost := False,
              sw_OverCostCountInOneTerm := 0, sw_GenCountInOneTerm := 0\<rparr>"
    have "CalcId ?v = (i, v)" "clk' = rest" using run later by (auto split: prod.splits)
    with m1_fresh [OF inv, of ?v "unat ?t"] later tb ck(3) show ?thesis by (auto simp: m1_done_def)
  next
    case wait
    let ?v = "\<lambda>t. (EndOverCostAction w)\<lparr>sw_LastTimeTick := t,
              sw_CurrentSeqNumber := sw_MinSeqNumber w, sw_IsOverCost := False,
              sw_OverCostCountInOneTerm := 0, sw_GenCountInOneTerm := 0\<rparr>"
    from wait obtain t where t: "GetNextTimeTick (EndOverCostAction w) rest = Some (t, clk')"
        and v: "CalcId (?v t) = (i, v)"
      using run by (cases "GetNextTimeTick (EndOverCostAction w) rest") (auto split: prod.splits)
    from GetNextTimeTick_spec [OF t] obtain pre u where u: "rest = pre @ u # clk'"
      "t = tick_of (sw_BaseTime w) u" "sw_LastTimeTick w < t" by auto
    have k: "unat t \<le> C" "unat ?t \<le> unat t" "clock_ok (sw_BaseTime w) (unat t) C clk'"
      using clock_ok_app [OF ck(3) [unfolded u(1)]] u(2) by (simp_all add: clock_ok_Cons)
    from m1_fresh [OF inv, of "?v t" "unat t"] tick_bound_mono [OF c(3) k(1)] u(3) v k(3)
    show ?thesis by (auto simp: m1_done_def)
  next
    case drift
    let ?v = "w\<lparr>sw_LastTimeTick := sw_LastTimeTick w + 1,
              sw_CurrentSeqNumber := sw_MinSeqNumber w, sw_IsOverCost := True,
              sw_OverCostCountInOneTerm := sw_OverCostCountInOneTerm w + 1,
              sw_GenCountInOneTerm := sw_GenCountInOneTerm w + 1\<rparr>"
    have "CalcId ?v = (i, v)" "clk' = rest" using run drift by (auto split: prod.splits)
    moreover have "unat (sw_OverCostCountInOneTerm w + 1) = unat (sw_OverCostCountInOneTerm w) + 1"
      using drift(2) tb by (intro unat_suc) (simp add: tick_bound_def word_less_nat_alt)
    moreover note drift_tick [OF inv tb order_refl]
    ultimately show ?thesis
      using m1_drift [OF inv, of ?v] drift(2) inv tb ck(3) assms(2)
      by (auto simp: m1_done_def m1_inv_def word_less_nat_alt)
  next
    case same
    let ?v = "w\<lparr>sw_GenCountInOneTerm := sw_GenCountInOneTerm w + 1\<rparr>"
    have "CalcId ?v = (i, v)" "clk' = rest" using run same by (auto split: prod.splits)
    with m1_same [OF inv, of ?v] same tb ck(3) show ?thesis by (auto simp: m1_done_def)
  qed
qed

lemma NextNormalId_step:
  assumes "m1_ok C w clk" "\<not> sw_IsOverCost w" "NextNormalId w clk = Some (i, v, clk')"
  shows "m1_done C w i v clk'"
proof -
  from assms(3) obtain tv rest where clk: "clk = tv # rest" by (cases clk) (auto simp: NextNormalId_def)
  from assms(1) obtain c where c: "m1_inv w c" "clock_ok (sw_BaseTime w) c C clk" "tick_bound w C"
    by (auto simp: m1_ok_def)
  let ?t = "tick_of (sw_BaseTime w) tv"
  have ck: "c \<le> unat ?t" "unat ?t \<le> C" "clock_ok (sw_BaseTime w) (unat ?t) C rest"
    using c(2) by (auto simp: clk clock_ok_Cons)
  note inv = m1_inv_mono [OF c(1) ck(1)] and tb = tick_bound_mono [OF c(3) ck(2)]
  have last: "\<not> ?t < sw_LastTimeTick w" using inv assms(2) by (simp add: m1_inv_def word_less_nat_alt)
  define u where "u = (if 0 < sint (sw_TurnBackTimeTick w) then w\<lparr>sw_TurnBackTimeTick := 0\<rparr> else w)"
  have u: "same_layout w u" "sw_LastTimeTick u = sw_LastTimeTick w" "sw_TermIndex u = sw_TermIndex w"
    "sw_CurrentSeqNumber u = sw_CurrentSeqNumber w" "\<not> sw_IsOverCost u" "\<not> sw_IsOverCost w"
    "sw_OverCostCountInOneTerm u = sw_OverCostCountInOneTerm w"
    "sw_MaxSeqNumber u = sw_MaxSeqNumber w" "sw_MinSeqNumber u = sw_MinSeqNumber w"
    using assms(2) by (simp_all add: u_def same_layout_def)
  note run = assms(3) [unfolded NextNormalId_def clk, simplified, folded u_def]
  consider (later) "sw_LastTimeTick w < ?t"
    | (drift) "sw_LastTimeTick w = ?t" "sw_MaxSeqNumber w < sw_CurrentSeqNumber w"
    | (same) "sw_LastTimeTick w = ?t" "\<not> sw_MaxSeqNumber w < sw_CurrentSeqNumber w"
    using last by force
  then show ?thesis
  proof cases
    case later
    let ?v = "u\<lparr>sw_LastTimeTick := ?t, sw_CurrentSeqNumber := sw_MinSeqNumber w\<rparr>"
    have "CalcId ?v = (i, v)" "clk' = rest" using run later last u by (auto split: prod.splits)
    with m1_fresh [OF inv, of ?v "unat ?t"] later tb ck(3) u show ?thesis by (auto simp: m1_done_def)
  next
    case drift
    let ?v = "u\<lparr>sw_TermIndex := sw_TermIndex w + 1, sw_LastTimeTick := sw_LastTimeTick w + 1,
                sw_CurrentSeqNumber := sw_MinSeqNumber w, sw_IsOverCost := True,
                sw_OverCostCountInOneTerm := 1, sw_GenCountInOneTerm := 1\<rparr>"
    have "CalcId ?v = (i, v)" "clk' = rest" using run drift last u by (auto split: prod.splits)
    moreover note drift_tick [OF inv tb order_refl]
    ultimately show ?thesis
      using m1_drift [OF inv, of ?v] drift inv tb ck(3) u by (auto simp: m1_done_def m1_inv_def)
  next
    case same
    have "CalcId u = (i, v)" "clk' = rest" using run same last u by (auto split: prod.splits)
    with m1_same [OF inv, of u] same tb ck(3) u show ?thesis by (auto simp: m1_done_def)
  qed
qed

lemma m1_done_ok: "m1_done C w i v clk \<Longrightarrow> m1_ok C w clk0 \<Longrightarrow> m1_ok C v clk"
  by (auto simp: m1_done_def m1_ok_def same_layout_def tick_bound_def)

lemma id_of_same: "same_layout w v \<Longrightarrow> id_of v = id_of w"
  by (rule ext) (simp add: same_layout_def id_of_def)

interpretation m1: id_source WorkerM1NextId "m1_ok C" next_val id_of for C
proof
  fix w clk i v clk'
  assume *: "m1_ok C w clk" "WorkerM1NextId w clk = Some (i, v, clk')"
  then have "m1_done C w i v clk'"
    by (auto simp: WorkerM1NextId_def intro: NextOverCostId_step NextNormalId_step split: if_splits)
  with *(1) show "m1_ok C v clk' \<and> next_val w \<le> unat i \<and> unat i < next_val v \<and> id_of v = id_of w \<and> id_of w i"
    using m1_done_ok id_of_same by (auto simp: m1_done_def)
qed

section \<open>The traditional method as a source\<close>

definition m2_ok :: "nat \<Rightarrow> SnowFlakeWorker \<Rightarrow> timeval list \<Rightarrow> bool" where
  "m2_ok C w clk \<longleftrightarrow> worker_wf w \<and> C < 2 ^ (63 - unat (sw_TimestampShift w)) \<and>
     sw_MaxSeqNumber w = mask (unat (sw_SeqBitLength w)) \<and>
     unat (sw_CurrentSeqNumber w) < 2 ^ unat (sw_SeqBitLength w) \<and>
     clock_ok (sw_BaseTime w) (unat (sw_LastTimeTick w)) C clk \<and> unat (sw_LastTimeTick w) \<le> C"

lemma m2_seq:
  assumes "worker_wf w" "unat (sw_CurrentSeqNumber w) < 2 ^ unat (sw_SeqBitLength w)"
  shows "unat ((sw_CurrentSeqNumber w + 1) AND mask (unat (sw_SeqBitLength w))) =
    (if unat (sw_CurrentSeqNumber w) + 1 = 2 ^ unat (sw_SeqBitLength w) then 0
     else unat (sw_CurrentSeqNumber w) + 1)"
proof -
  let ?b = "unat (sw_SeqBitLength w)" and ?c = "unat (sw_CurrentSeqNumber w)"
  have "?c + 1 < 2 ^ LENGTH(32)" using assms seq_bits_le [OF assms(1)] by simp
  then have "unat (sw_CurrentSeqNumber w + 1) = ?c + 1" by (rule unat_suc)
  then have "unat ((sw_CurrentSeqNumber w + 1) AND mask ?b) = (?c + 1) mod 2 ^ ?b"
    by (simp add: unsigned_take_bit_eq flip: take_bit_eq_mask) (simp add: take_bit_eq_mod)
  then show ?thesis using assms(2) by (auto simp: mod_less)
qed

lemma m2_emit:
  assumes "worker_wf w" "unat (sw_LastTimeTick w) < 2 ^ (63 - unat (sw_TimestampShift w))"
    "unat (sw_CurrentSeqNumber w) < 2 ^ unat (sw_SeqBitLength w)"
  shows "unat (push_bit (unat (sw_TimestampShift w)) (sw_LastTimeTick w)
             OR ucast (push_bit (unat (sw_SeqBitLength w)) (sw_WorkerId w))
             OR ucast (sw_CurrentSeqNumber w)) = next_val w"
  using assms unfolding next_val_def worker_wf_def
  by (intro unat_layout [where wb = "unat (sw_WorkerIdBitLength w)"]) auto

lemma M2_step:
  assumes "m2_ok C w clk" "WorkerM2NextId w clk = Some (i, v, clk')"
  shows "m2_ok C v clk' \<and> next_val w < unat i \<and> unat i = next_val v \<and> same_layout w v"
proof -
  from assms(2) obtain tv rest where clk: "clk = tv # rest" by (cases clk) (auto simp: WorkerM2NextId_def)
  let ?t = "tick_of (sw_BaseTime w) tv" and ?sb = "unat (sw_SeqBitLength w)"
  have wf: "worker_wf w" and m: "sw_MaxSeqNumber w = mask ?sb"
    and cur: "unat (sw_CurrentSeqNumber w) < 2 ^ ?sb" and C: "C < 2 ^ (63 - unat (sw_TimestampShift w))"
    and ck: "unat (sw_LastTimeTick w) \<le> unat ?t" "unat ?t \<le> C" "clock_ok (sw_BaseTime w) (unat ?t) C rest"
    using assms(1) by (auto simp: m2_ok_def clk clock_ok_Cons)
  \<comment> \<open>whichever branch is taken, a later tick or a later number of the same tick is used\<close>
  have fin: "m2_ok C v clk' \<and> next_val w < unat i \<and> unat i = next_val v \<and> same_layout w v"
    if v: "v = w\<lparr>sw_CurrentSeqNumber := q, sw_LastTimeTick := t\<rparr>"
      and i: "i = push_bit (unat (sw_TimestampShift v)) (sw_LastTimeTick v)
             OR ucast (push_bit (unat (sw_SeqBitLength v)) (sw_WorkerId v)) OR ucast (sw_CurrentSeqNumber v)"
      and q: "unat q < 2 ^ ?sb" and t: "unat t \<le> C" "clock_ok (sw_BaseTime w) (unat t) C clk'"
      and l: "unat (sw_LastTimeTick w) < unat t \<or> t = sw_LastTimeTick w \<and> unat (sw_CurrentSeqNumber w) < unat q"
    for q t
  proof -
    have "worker_wf v" using wf q by (simp add: v worker_wf_def)
    then have e: "unat i = next_val v" unfolding i using q t(1) C by (intro m2_emit) (simp_all add: v)
    have "next_val w < next_val v"
    proof (cases "t = sw_LastTimeTick w")
      case True
      with l show ?thesis by (simp add: v next_val_def make_id_def)
    next
      case False
      then have "next_val (w\<lparr>sw_CurrentSeqNumber := sw_CurrentSeqNumber w + 1\<rparr>) \<le> next_val v"
        using wf l cur v unat_suc [of "sw_CurrentSeqNumber w"] seq_bits_le [OF wf]
        by (intro next_val_later) (auto simp: worker_wf_def word_less_nat_alt same_layout_def)
      moreover have "next_val (w\<lparr>sw_CurrentSeqNumber := sw_CurrentSeqNumber w + 1\<rparr>) = next_val w + 1"
        using unat_suc [of "sw_CurrentSeqNumber w"] seq_bits_le [OF wf] cur by (simp add: next_val_def make_id_def)
      ultimately show ?thesis by simp
    qed
    then show ?thesis using e wf m q t C \<open>worker_wf v\<close> by (simp add: m2_ok_def v)
  qed
  let ?q = "(sw_CurrentSeqNumber w + 1) AND sw_MaxSeqNumber w"
  have seq: "unat ?q = (if unat (sw_CurrentSeqNumber w) + 1 = 2 ^ ?sb then 0 else unat (sw_CurrentSeqNumber w) + 1)"
    unfolding m by (rule m2_seq [OF wf cur])
  note run = assms(2) [unfolded WorkerM2NextId_def clk, simplified]
  consider (new) "sw_LastTimeTick w \<noteq> ?t"
    | (wait) "sw_LastTimeTick w = ?t" "?q = 0" | (same) "sw_LastTimeTick w = ?t" "?q \<noteq> 0" by blast
  then show ?thesis
  proof cases
    case new
    with ck(1) have "unat (sw_LastTimeTick w) < unat ?t" by (metis le_less unsigned_word_eqI)
    with new run wf ck show ?thesis
      by (intro fin [where q = "sw_MinSeqNumber w" and t = ?t]) (auto simp: worker_wf_def Let_def)
  next
    case wait
    then obtain t where t: "GetNextTimeTick (w\<lparr>sw_CurrentSeqNumber := 0\<rparr>) rest = Some (t, clk')"
      and v: "v = w\<lparr>sw_CurrentSeqNumber := 0, sw_LastTimeTick := t\<rparr>"
        "i = push_bit (unat (sw_TimestampShift v)) (sw_LastTimeTick v)
             OR ucast (push_bit (unat (sw_SeqBitLength v)) (sw_WorkerId v)) OR ucast (sw_CurrentSeqNumber v)"
      using run by (auto simp: Let_def c_simps)
    from GetNextTimeTick_spec [OF t] obtain pre u where u: "rest = pre @ u # clk'"
      "t = tick_of (sw_BaseTime w) u" "sw_LastTimeTick w < t" by auto
    have k: "unat t \<le> C" "clock_ok (sw_BaseTime w) (unat t) C clk'"
      using clock_ok_app [OF ck(3) [unfolded u(1)]] u(2) by (simp_all add: clock_ok_Cons)
    show ?thesis by (rule fin [OF v]) (use u k in \<open>simp_all add: word_less_nat_alt\<close>)
  next
    case same
    then have "unat ?q = unat (sw_CurrentSeqNumber w) + 1"
      using seq by (metis unat_eq_zero)
    moreover from this have "unat ?q < 2 ^ ?sb" using cur seq by (auto split: if_splits)
    ultimately show ?thesis
      using run same ck by (intro fin [where q = ?q and t = ?t]) (auto simp: Let_def)
  qed
qed

interpretation m2: id_source WorkerM2NextId "m2_ok C" "\<lambda>w. next_val w + 1" id_of for C
proof
  fix w clk i v clk'
  assume *: "m2_ok C w clk" "WorkerM2NextId w clk = Some (i, v, clk')"
  note s = M2_step [OF *]
  then have "id_of v i" by (intro id_of_next_val) (auto simp: m2_ok_def)
  with s show "m2_ok C v clk' \<and> next_val w + 1 \<le> unat i \<and> unat i < next_val v + 1 \<and> id_of v = id_of w \<and> id_of w i"
    using id_of_same by auto
qed

section \<open>Accepted options\<close>

lemma unat_max_number:
  assumes "b \<noteq> 0" "unat b \<le> 21"
  shows "max_number b = mask (unat b)" "unat (max_number b) < 2 ^ unat b"
proof -
  have n: "unat b \<noteq> 0" using assms(1) by (simp add: unat_eq_zero)
  have m: "mask (unat b) \<noteq> (0 :: u32)" using n by (simp add: mask_eq_0_iff)
  then show *: "max_number b = mask (unat b)"
    by (simp add: max_number_def mask_eq_exp_minus_1 push_bit_eq_mult)
  have "unat (mask (unat b) :: u32) = take_bit (unat b) (unat (- 1 :: u32))"
    by (simp add: unsigned_take_bit_eq flip: take_bit_minus_one_eq_mask)
  also have "\<dots> < 2 ^ unat b" by simp
  finally show "unat (max_number b) < 2 ^ unat b" by (simp add: *)
qed

lemma SetOptions_accepted:
  assumes "SetOptions opts raw now None = Inr g"
  shows "worker_wf (ig_Worker g)" "unat (sw_LastTimeTick (ig_Worker g)) = 0" "\<not> sw_IsOverCost (ig_Worker g)"
    "unat (sw_CurrentSeqNumber (ig_Worker g)) < 2 ^ unat (op_SeqBitLength opts)"
    "ig_NextId g = Some (if op_Method opts = 2 then WorkerM2Id else WorkerM1Id)"
    "sw_WorkerId (ig_Worker g) = op_WorkerId opts" "sw_SeqBitLength (ig_Worker g) = op_SeqBitLength opts"
    "sw_WorkerIdBitLength (ig_Worker g) = op_WorkerIdBitLength opts"
    "op_MaxSeqNumber opts = 0 \<Longrightarrow> sw_MaxSeqNumber (ig_Worker g) = mask (unat (op_SeqBitLength opts))"
proof -
  note d = assms [unfolded SetOptions_def Let_def GetIdGenInstance_def, simplified]
  have c: "op_WorkerIdBitLength opts \<noteq> 0" "unat (op_SeqBitLength opts) + unat (op_WorkerIdBitLength opts) \<le> 22"
    "op_WorkerId opts \<le> max_number (op_WorkerIdBitLength opts)"
    "2 \<le> op_SeqBitLength opts" "op_SeqBitLength opts \<le> 21"
    "op_MaxSeqNumber opts \<le> max_number (op_SeqBitLength opts)"
    "op_MinSeqNumber opts \<le> max_number (op_SeqBitLength opts)"
    using d by (auto split: if_splits)
  have s: "2 \<le> unat (op_SeqBitLength opts)" "unat (op_SeqBitLength opts) \<le> 21"
    using c(4,5) by (simp_all add: word_le_nat_alt)
  have wb: "unat (op_WorkerIdBitLength opts) \<le> 21" using c(2) s by simp
  have ms: "max_number (op_SeqBitLength opts) = mask (unat (op_SeqBitLength opts))"
      "unat (max_number (op_SeqBitLength opts)) < 2 ^ unat (op_SeqBitLength opts)"
    using s by (intro unat_max_number; force simp: word_le_nat_alt)+
  note mw = unat_max_number(2) [OF c(1) wb]
  have sh: "unat (op_WorkerIdBitLength opts + op_SeqBitLength opts) =
      unat (op_WorkerIdBitLength opts) + unat (op_SeqBitLength opts)"
    using c(2) by (simp add: unat_word_ariths take_bit_nat_eq_self)
  have g0: "g = \<lparr>ig_Worker = set_worker opts (NewSnowFlakeWorker raw),
      ig_NextId = Some (if op_Method opts = 2 then WorkerM2Id else WorkerM1Id)\<rparr>"
    using d by (auto split: if_splits)
  have g: "ig_NextId g = Some (if op_Method opts = 2 then WorkerM2Id else WorkerM1Id)"
    "sw_WorkerId (ig_Worker g) = op_WorkerId opts" "sw_SeqBitLength (ig_Worker g) = op_SeqBitLength opts"
    "sw_WorkerIdBitLength (ig_Worker g) = op_WorkerIdBitLength opts"
    "sw_MaxSeqNumber (ig_Worker g) =
       (if op_MaxSeqNumber opts = 0 then max_number (op_SeqBitLength opts) else op_MaxSeqNumber opts)"
    "sw_MinSeqNumber (ig_Worker g) = op_MinSeqNumber opts" "sw_CurrentSeqNumber (ig_Worker g) = op_MinSeqNumber opts"
    "sw_TimestampShift (ig_Worker g) = op_WorkerIdBitLength opts + op_SeqBitLength opts"
    "sw_LastTimeTick (ig_Worker g) = 0" "\<not> sw_IsOverCost (ig_Worker g)"
    unfolding g0 by (simp_all add: set_worker_def NewSnowFlakeWorker_def)
  have le: "unat (op_MinSeqNumber opts) < 2 ^ unat (op_SeqBitLength opts)"
      "unat (op_MaxSeqNumber opts) < 2 ^ unat (op_SeqBitLength opts)"
      "unat (op_WorkerId opts) < 2 ^ unat (op_WorkerIdBitLength opts)"
    using c(3,6,7) ms(2) mw by (simp_all add: word_le_nat_alt)
  show "worker_wf (ig_Worker g)" using le sh c(2) ms(2) by (simp add: worker_wf_def g less_imp_le)
  show "unat (sw_LastTimeTick (ig_Worker g)) = 0" "\<not> sw_IsOverCost (ig_Worker g)" by (simp_all add: g)
  show "unat (sw_CurrentSeqNumber (ig_Worker g)) < 2 ^ unat (op_SeqBitLength opts)" using le by (simp add: g)
  show "op_MaxSeqNumber opts = 0 \<Longrightarrow> sw_MaxSeqNumber (ig_Worker g) = mask (unat (op_SeqBitLength opts))"
    using ms by (simp add: g)
  show "ig_NextId g = Some (if op_Method opts = 2 then WorkerM2Id else WorkerM1Id)"
    "sw_WorkerId (ig_Worker g) = op_WorkerId opts" "sw_SeqBitLength (ig_Worker g) = op_SeqBitLength opts"
    "sw_WorkerIdBitLength (ig_Worker g) = op_WorkerIdBitLength opts" by (rule g)+
qed

section \<open>Runs of the generator\<close>

fun gen_ids :: "nat \<Rightarrow> IdGenerator \<Rightarrow> timeval list \<Rightarrow> idgen_stop + (u64 list \<times> IdGenerator \<times> timeval list)" where
  "gen_ids 0 g clk = Inr ([], g, clk)"
| "gen_ids (Suc n) g clk =
     (case NextId (ig_Worker g) (Some g) clk of
        Inl e \<Rightarrow> Inl e
      | Inr (i, g, clk) \<Rightarrow>
          (case gen_ids n g clk of Inl e \<Rightarrow> Inl e | Inr (is, g, clk) \<Rightarrow> Inr (i # is, g, clk)))"

definition method_of :: "nextid_fn \<Rightarrow> SnowFlakeWorker \<Rightarrow> timeval list \<Rightarrow> (u64 \<times> SnowFlakeWorker \<times> timeval list) option" where
  "method_of f = (case f of WorkerM1Id \<Rightarrow> WorkerM1NextId | WorkerM2Id \<Rightarrow> WorkerM2NextId)"

lemma gen_ids_run:
  "ig_NextId g = Some f \<Longrightarrow> gen_ids n g clk =
     (case run_ids (method_of f) n (ig_Worker g) clk of None \<Rightarrow> Inl Waiting
      | Some (is, w, clk) \<Rightarrow> Inr (is, g\<lparr>ig_Worker := w\<rparr>, clk))"
proof (induction n arbitrary: g clk)
  case (Suc n)
  have "NextId (ig_Worker g) (Some g) clk = (case method_of f (ig_Worker g) clk of None \<Rightarrow> Inl Waiting
      | Some (i, w, clk) \<Rightarrow> Inr (i, g\<lparr>ig_Worker := w\<rparr>, clk))"
    using Suc.prems by (simp add: NextId_def GetIdGenInstance_def method_of_def)
  moreover have "gen_ids n (g\<lparr>ig_Worker := w\<rparr>) d =
      (case run_ids (method_of f) n w d of None \<Rightarrow> Inl Waiting
       | Some (is, v, clk) \<Rightarrow> Inr (is, g\<lparr>ig_Worker := v\<rparr>, clk))" for w d
    using Suc.IH [of "g\<lparr>ig_Worker := w\<rparr>" d] Suc.prems by (auto split: option.splits)
  ultimately show ?case by (simp split: option.splits prod.splits)
qed simp

text \<open>The source that an accepted generator runs.\<close>

definition gen_ok :: "nextid_fn \<Rightarrow> nat \<Rightarrow> SnowFlakeWorker \<Rightarrow> timeval list \<Rightarrow> bool" where
  "gen_ok f = (case f of WorkerM1Id \<Rightarrow> m1_ok | WorkerM2Id \<Rightarrow> m2_ok)"

lemma SetOptions_gen_ok:
  assumes "SetOptions opts raw now None = Inr g" "op_Method opts = 2 \<longrightarrow> op_MaxSeqNumber opts = 0"
    "clock_ok (sw_BaseTime (ig_Worker g)) 0 C clk" "tick_bound (ig_Worker g) C"
  shows "\<exists>f. ig_NextId g = Some f \<and> gen_ok f C (ig_Worker g) clk"
proof -
  note a = SetOptions_accepted [OF assms(1)]
  have "gen_ok (if op_Method opts = 2 then WorkerM2Id else WorkerM1Id) C (ig_Worker g) clk"
    using a(1-4) a(7,9) assms(2-4)
    by (auto simp: gen_ok_def m1_ok_def m2_ok_def m1_inv_def tick_bound_def intro!: exI [of _ 0])
  then show ?thesis using a(5) by blast
qed

lemma run_gen_ok:
  assumes "gen_ok f C w clk" "run_ids (method_of f) n w clk = Some (is, w', clk')"
  shows "gen_ok f C w' clk'" "sorted_wrt (<) is" "\<forall>i\<in>set is. id_of w i" "id_of w' = id_of w"
  using assms m1.run_spec [of C w clk n "is" w' clk'] m2.run_spec [of C w clk n "is" w' clk']
  by (auto simp: gen_ok_def method_of_def split: nextid_fn.splits)

lemma GetNextTimeTick_returns:
  "u \<in> set clk \<Longrightarrow> sw_LastTimeTick w < tick_of (sw_BaseTime w) u \<Longrightarrow> \<exists>r. GetNextTimeTick w clk = Some r"
  by (induction w clk rule: GetNextTimeTick.induct) auto

lemma method_returns:
  assumes "gen_ok f C w (tv # rest)" "u \<in> set rest"
    "unat (tick_of (sw_BaseTime w) tv) + unat (sw_TopOverCostCount w) + 1 < unat (tick_of (sw_BaseTime w) u)"
  shows "\<exists>r. method_of f w (tv # rest) = Some r"
proof -
  have l: "unat (sw_LastTimeTick w) \<le> unat (tick_of (sw_BaseTime w) tv) + unat (sw_TopOverCostCount w) + 1"
    using assms(1) by (auto simp: gen_ok_def m1_ok_def m2_ok_def m1_inv_def clock_ok_Cons split: nextid_fn.splits if_splits)
  have "\<exists>r. GetNextTimeTick v rest = Some r"
    if "sw_LastTimeTick v = sw_LastTimeTick w" "sw_BaseTime v = sw_BaseTime w" for v
    using that l assms(2,3) by (intro GetNextTimeTick_returns [of u]) (simp_all add: word_less_nat_alt)
  then have g: "\<exists>t d. GetNextTimeTick (EndOverCostAction w) rest = Some (t, d)"
      "\<And>q. \<exists>t d. GetNextTimeTick (w\<lparr>sw_CurrentSeqNumber := q\<rparr>) rest = Some (t, d)"
    by auto
  show ?thesis
  proof (cases f)
    case WorkerM1Id
    then show ?thesis using g(1)
      by (auto simp: method_of_def WorkerM1NextId_def NextOverCostId_def NextNormalId_def Let_def split: prod.splits)
  next
    case WorkerM2Id
    then show ?thesis using g(2) [of "(sw_CurrentSeqNumber w + 1) AND sw_MaxSeqNumber w"]
      by (auto simp: method_of_def WorkerM2NextId_def Let_def)
  qed
qed

lemma gen_ids_spec:
  assumes "SetOptions opts raw now None = Inr g" "op_Method opts = 2 \<longrightarrow> op_MaxSeqNumber opts = 0"
    "clock_ok (sw_BaseTime (ig_Worker g)) 0 C clk" "tick_bound (ig_Worker g) C"
    "gen_ids n g clk = Inr (ids, g', clk')"
  shows "sorted_wrt (<) ids" "\<forall>i\<in>set ids. id_of (ig_Worker g) i"
    "\<exists>f. ig_NextId g = Some f \<and> ig_NextId g' = Some f \<and> gen_ok f C (ig_Worker g') clk'"
proof -
  obtain f where f: "ig_NextId g = Some f" "gen_ok f C (ig_Worker g) clk"
    using SetOptions_gen_ok assms(1-4) by blast
  obtain w where w: "run_ids (method_of f) n (ig_Worker g) clk = Some (ids, w, clk')"
    "g' = g\<lparr>ig_Worker := w\<rparr>"
    using assms(5) by (auto simp: gen_ids_run [OF f(1)] split: option.splits)
  from run_gen_ok [OF f(2) w(1)] f(1) show "sorted_wrt (<) ids" "\<forall>i\<in>set ids. id_of (ig_Worker g) i"
    "\<exists>f. ig_NextId g = Some f \<and> ig_NextId g' = Some f \<and> gen_ok f C (ig_Worker g') clk'" by (auto simp: w(2))
qed

lemma id_worker_bits:
  assumes "SetOptions opts raw now None = Inr g" "id_of (ig_Worker g) i"
  shows "unat i div 2 ^ unat (op_SeqBitLength opts) mod 2 ^ unat (op_WorkerIdBitLength opts) = unat (op_WorkerId opts)"
  using SetOptions_accepted(6-8) [OF assms(1)] assms(2) by (simp add: id_of_def)

section \<open>Well-formedness, whatever the clock shows\<close>

lemma CalcId_wf:
  assumes "worker_wf w" "same_layout w v"
    "sw_CurrentSeqNumber v = sw_MinSeqNumber w \<or>
     sw_CurrentSeqNumber v = sw_CurrentSeqNumber w \<and> \<not> sw_MaxSeqNumber w < sw_CurrentSeqNumber w"
  shows "worker_wf (snd (CalcId v))"
proof -
  have c: "unat (sw_CurrentSeqNumber v) < 2 ^ unat (sw_SeqBitLength v)"
    using assms by (auto simp: worker_wf_def same_layout_def word_less_nat_alt)
  have w: "worker_wf v" using assms(1,2) c by (simp add: worker_wf_def same_layout_def)
  have "unat (sw_CurrentSeqNumber v) + 1 < 2 ^ LENGTH(32)" using seq_bits_le [OF w] c by simp
  then have "unat (sw_CurrentSeqNumber v + 1) = unat (sw_CurrentSeqNumber v) + 1" by (rule unat_suc)
  with w c show ?thesis by (simp add: CalcId_def worker_wf_def)
qed

lemma NextOverCostId_wf:
  assumes "worker_wf w" "NextOverCostId w clk = Some (i, v, clk')"
  shows "worker_wf v"
  using assms(2) unfolding NextOverCostId_def
  by (auto simp: c_simps Let_def case_prod_unfold split: if_splits intro!: CalcId_wf [OF assms(1)])

lemma NextNormalId_wf:
  assumes "worker_wf w" "NextNormalId w clk = Some (i, v, clk')"
  shows "worker_wf v"
proof -
  have tb: "worker_wf (snd (CalcTurnBackId (start_turn_back w)))"
    using assms(1) by (simp add: CalcTurnBackId_def start_turn_back_def worker_wf_def)
  show ?thesis
    using assms(2) tb unfolding NextNormalId_def
    by (auto simp: c_simps Let_def case_prod_unfold split: if_splits intro!: CalcId_wf [OF assms(1)])
qed

lemma WorkerM2NextId_wf:
  assumes "worker_wf w" "WorkerM2NextId w clk = Some (i, v, clk')"
  shows "worker_wf v"
proof -
  let ?q = "(sw_CurrentSeqNumber w + 1) AND sw_MaxSeqNumber w"
  have q: "unat ?q \<le> unat (sw_MaxSeqNumber w)"
    unfolding word_le_nat_alt [symmetric] by (rule word_and_le1)
  obtain tv rest where clk: "clk = tv # rest" using assms(2) by (cases clk) (auto simp: WorkerM2NextId_def)
  note run = assms(2) [unfolded WorkerM2NextId_def clk, simplified]
  consider (new) "sw_LastTimeTick w \<noteq> tick_of (sw_BaseTime w) tv"
    | (wait) "sw_LastTimeTick w = tick_of (sw_BaseTime w) tv" "?q = 0"
    | (same) "sw_LastTimeTick w = tick_of (sw_BaseTime w) tv" "?q \<noteq> 0" by blast
  then have "same_layout w v \<and> (sw_CurrentSeqNumber v = ?q \<or> sw_CurrentSeqNumber v = sw_MinSeqNumber w)"
  proof cases
    case new
    with run show ?thesis by (auto simp: Let_def)
  next
    case wait
    with run show ?thesis by (auto simp: Let_def c_simps)
  next
    case same
    with run show ?thesis by (auto simp: Let_def)
  qed
  with q assms(1) show ?thesis by (auto simp: worker_wf_def same_layout_def)
qed

lemma method_wf:
  assumes "worker_wf w" "method_of f w clk = Some (i, v, clk')"
  shows "worker_wf v"
  using assms(2) by (cases f)
    (auto simp: method_of_def WorkerM1NextId_def split: if_splits
      intro: NextOverCostId_wf [OF assms(1)] NextNormalId_wf [OF assms(1)] WorkerM2NextId_wf [OF assms(1)])

lemma run_wf: "worker_wf w \<Longrightarrow> run_ids (method_of f) n w clk = Some (is, v, clk') \<Longrightarrow> worker_wf v"
proof (induction n arbitrary: w clk "is")
  case (Suc n)
  then obtain i u d js where "method_of f w clk = Some (i, u, d)" "run_ids (method_of f) n u d = Some (js, v, clk')"
    by (auto simp: c_simps)
  then show ?case using Suc.IH Suc.prems(1) method_wf by blast
qed simp

section \<open>The generator of the Lua entry point\<close>

definition no_worker :: SnowFlakeWorker where
  "no_worker = \<lparr>sw_Method = 0, sw_BaseTime = 0, sw_WorkerId = 0, sw_WorkerIdBitLength = 0,
     sw_SeqBitLength = 0, sw_MaxSeqNumber = 0, sw_MinSeqNumber = 0, sw_TopOverCostCount = 0,
     sw_TimestampShift = 0, sw_CurrentSeqNumber = 0, sw_LastTimeTick = 0, sw_TurnBackTimeTick = 0,
     sw_TurnBackIndex = 0, sw_IsOverCost = False, sw_OverCostCountInOneTerm = 0,
     sw_GenCountInOneTerm = 0, sw_TermIndex = 0\<rparr>"

definition ms_after :: "int \<Rightarrow> timeval" where
  "ms_after t = \<lparr>tv_sec = 1582136402 + t div 1000, tv_usec = t mod 1000 * 1000\<rparr>"

definition lua_gen :: IdGenerator where
  "lua_gen = \<lparr>ig_Worker = set_worker lua_options (NewSnowFlakeWorker no_worker), ig_NextId = Some WorkerM1Id\<rparr>"

definition ids_of :: "idgen_stop + (u64 list \<times> IdGenerator \<times> timeval list) \<Rightarrow> u64 list" where
  "ids_of r = (case r of Inl e \<Rightarrow> [] | Inr (ids, g, clk) \<Rightarrow> ids)"

lemma lua_gen: "SetOptions lua_options no_worker (ms_after 0) None = Inr lua_gen"
  by code_simp

definition gen_2 :: IdGenerator where
  "gen_2 = \<lparr>ig_Worker = set_worker (BuildIdGenOptions 2) (NewSnowFlakeWorker no_worker), ig_NextId = Some WorkerM1Id\<rparr>"

lemma gen_2: "SetOptions (BuildIdGenOptions 2) no_worker (ms_after 0) None = Inr gen_2"
  by code_simp

lemma gen_fields:
  "sw_BaseTime (ig_Worker lua_gen) = 1582136402000" "sw_TimestampShift (ig_Worker lua_gen) = 12"
  "sw_TopOverCostCount (ig_Worker lua_gen) = 2000"
  "sw_BaseTime (ig_Worker gen_2) = 1582136402000" "sw_TimestampShift (ig_Worker gen_2) = 12"
  "sw_TopOverCostCount (ig_Worker gen_2) = 2000"
  by code_simp+

lemma ms_after_ticks:
  "tick_of 1582136402000 (ms_after 6) = 6" "tick_of 1582136402000 (ms_after 2100) = 2100"
  by code_simp+

lemma gen_clock:
  "clock_ok (sw_BaseTime (ig_Worker lua_gen)) 0 2100 [ms_after 6, ms_after 6, ms_after 2100]"
  "tick_bound (ig_Worker lua_gen) 2100"
  "clock_ok (sw_BaseTime (ig_Worker gen_2)) 0 2100 [ms_after 6, ms_after 6, ms_after 2100]"
  "tick_bound (ig_Worker gen_2) 2100"
  by (simp_all add: clock_ok_def tick_bound_def gen_fields ms_after_ticks)

lemma ids_of_Inr: "ids_of r \<noteq> [] \<Longrightarrow> \<exists>g clk. r = Inr (ids_of r, g, clk)"
  by (auto simp: ids_of_def split: sum.splits)

section \<open>Properties\<close>

text \<open>
  C19: after accepted options (for method 2 with the default \<open>MaxSeqNumber\<close> 0), as long as the clock does not
  go back (\<open>clock_ok\<close>) and the ticks leave room for a full drift above the timestamp bits (\<open>tick_bound\<close>), the
  identifiers of successive calls increase strictly and are positive as signed 64-bit numbers.
\<close>

theorem snowflake_increasing:
  assumes "SetOptions opts raw now None = Inr g" "op_Method opts = 2 \<longrightarrow> op_MaxSeqNumber opts = 0"
    "clock_ok (sw_BaseTime (ig_Worker g)) 0 C clk" "tick_bound (ig_Worker g) C"
    "gen_ids n g clk = Inr (ids, g', clk')"
  shows "sorted_wrt (<) ids \<and> (\<forall>i\<in>set ids. unat i < 2 ^ 63)"
  using gen_ids_spec(1,2) [OF assms] by (auto simp: id_of_def)

theorem snowflake_increasing_witness:
  "ids_of (gen_ids 3 lua_gen [ms_after 6, ms_after 6, ms_after 2100]) = [24645, 24646, 8601669] \<and>
   sorted_wrt (<) (ids_of (gen_ids 3 lua_gen [ms_after 6, ms_after 6, ms_after 2100]))"
proof -
  let ?r = "gen_ids 3 lua_gen [ms_after 6, ms_after 6, ms_after 2100]"
  have i: "ids_of ?r = [24645, 24646, 8601669]" by code_simp
  then obtain g clk where "?r = Inr (ids_of ?r, g, clk)" using ids_of_Inr [of ?r] by auto
  from snowflake_increasing [OF lua_gen _ gen_clock(1,2) this] i
  show ?thesis by (simp add: lua_options_def BuildIdGenOptions_def)
qed

text \<open>
  Two generators whose options give them the same bit lengths and different worker numbers
  never give the same identifier, whatever their clocks show.
\<close>

theorem snowflake_workers_disjoint:
  assumes "SetOptions opts1 raw1 now1 None = Inr g1" "op_Method opts1 = 2 \<longrightarrow> op_MaxSeqNumber opts1 = 0"
    "clock_ok (sw_BaseTime (ig_Worker g1)) 0 C clk1" "tick_bound (ig_Worker g1) C"
    "gen_ids n1 g1 clk1 = Inr (ids1, h1, rest1)"
    "SetOptions opts2 raw2 now2 None = Inr g2" "op_Method opts2 = 2 \<longrightarrow> op_MaxSeqNumber opts2 = 0"
    "clock_ok (sw_BaseTime (ig_Worker g2)) 0 C clk2" "tick_bound (ig_Worker g2) C"
    "gen_ids n2 g2 clk2 = Inr (ids2, h2, rest2)"
    "op_SeqBitLength opts1 = op_SeqBitLength opts2" "op_WorkerIdBitLength opts1 = op_WorkerIdBitLength opts2"
    "op_WorkerId opts1 \<noteq> op_WorkerId opts2"
  shows "set ids1 \<inter> set ids2 = {}"
proof -
  have "unat (op_WorkerId opts1) = unat (op_WorkerId opts2)" if i: "i \<in> set ids1 \<inter> set ids2" for i
    using id_worker_bits [OF assms(1), of i] id_worker_bits [OF assms(6), of i] i assms(11,12)
      gen_ids_spec(2) [OF assms(1-5)] gen_ids_spec(2) [OF assms(6-10)] by auto
  then show ?thesis using assms(13) by (auto dest: unsigned_word_eqI)
qed

theorem snowflake_workers_disjoint_witness:
  "ids_of (gen_ids 2 lua_gen [ms_after 6, ms_after 6, ms_after 2100]) = [24645, 24646] \<and>
   set (ids_of (gen_ids 2 lua_gen [ms_after 6, ms_after 6, ms_after 2100])) \<inter>
   set (ids_of (gen_ids 2 gen_2 [ms_after 6, ms_after 6, ms_after 2100])) = {}"
proof -
  let ?r = "gen_ids 2 lua_gen [ms_after 6, ms_after 6, ms_after 2100]"
  let ?q = "gen_ids 2 gen_2 [ms_after 6, ms_after 6, ms_after 2100]"
  have i: "ids_of ?r = [24645, 24646]" and j: "ids_of ?q = [24709, 24710]" by code_simp+
  obtain g clk where r: "?r = Inr (ids_of ?r, g, clk)" using ids_of_Inr [of ?r] i by auto
  obtain h clk2 where q: "?q = Inr (ids_of ?q, h, clk2)" using ids_of_Inr [of ?q] j by auto
  from snowflake_workers_disjoint [OF lua_gen _ gen_clock(1,2) r gen_2 _ gen_clock(3,4) q] i
  show ?thesis by (simp add: lua_options_def BuildIdGenOptions_def)
qed

text \<open>
  C36: after accepted options (for method 2 with the default \<open>MaxSeqNumber\<close> 0) and any number of calls, with a
  clock that never goes back (\<open>clock_ok\<close>) and ticks that leave room for a full drift (\<open>tick_bound\<close>), the next
  call returns once the clock has moved on by more than the maximal number of drifts plus one milliseconds
  from its first reading. (With a clock that goes back the loop waits until it has caught up.)
\<close>

theorem snowflake_returns:
  assumes "SetOptions opts raw now None = Inr g" "op_Method opts = 2 \<longrightarrow> op_MaxSeqNumber opts = 0"
    "clock_ok (sw_BaseTime (ig_Worker g)) 0 C clk" "tick_bound (ig_Worker g) C"
    "gen_ids n g clk = Inr (ids, g', tv # rest)" "u \<in> set rest"
    "unat (tick_of (sw_BaseTime (ig_Worker g')) tv) + unat (sw_TopOverCostCount (ig_Worker g')) + 1
       < unat (tick_of (sw_BaseTime (ig_Worker g')) u)"
  shows "\<exists>i h clk'. NextId raw (Some g') (tv # rest) = Inr (i, h, clk')"
proof -
  obtain f where f: "ig_NextId g' = Some f" "gen_ok f C (ig_Worker g') (tv # rest)"
    using gen_ids_spec(3) [OF assms(1-5)] by blast
  from method_returns [OF f(2) assms(6,7)]
  obtain i v d where "method_of f (ig_Worker g') (tv # rest) = Some (i, v, d)" by force
  then show ?thesis using f(1) by (simp add: NextId_def GetIdGenInstance_def method_of_def)
qed

theorem snowflake_returns_witness:
  "\<exists>g i h clk. gen_ids 1 lua_gen [ms_after 6, ms_after 6, ms_after 2100] = Inr ([24645], g, [ms_after 6, ms_after 2100]) \<and>
     NextId no_worker (Some g) [ms_after 6, ms_after 2100] = Inr (i, h, clk)"
proof -
  let ?r = "gen_ids 1 lua_gen [ms_after 6, ms_after 6, ms_after 2100]"
  have "(case ?r of Inl e \<Rightarrow> False | Inr (ids, g, clk) \<Rightarrow> ids = [24645] \<and> clk = [ms_after 6, ms_after 2100] \<and>
      sw_BaseTime (ig_Worker g) = 1582136402000 \<and> sw_TopOverCostCount (ig_Worker g) = 2000)"
    by code_simp
  then obtain g where r: "?r = Inr ([24645], g, [ms_after 6, ms_after 2100])"
    and g: "sw_BaseTime (ig_Worker g) = 1582136402000" "sw_TopOverCostCount (ig_Worker g) = 2000"
    by (auto split: sum.splits)
  from snowflake_returns [OF lua_gen _ gen_clock(1,2) r, of "ms_after 2100"] r
  show ?thesis by (simp add: lua_options_def BuildIdGenOptions_def g ms_after_ticks)
qed

text \<open>
  When the clock goes back, an identifier is given twice: with the options of the Lua entry
  point the call at tick 6 and the next one, made when the clock shows tick 3, return the same
  identifier.
\<close>

theorem snowflake_turn_back_duplicate:
  "\<exists>i clk. SetOptions lua_options no_worker (ms_after 0) None = Inr lua_gen \<and>
     ids_of (gen_ids 2 lua_gen clk) = [i, i]"
proof (intro exI conjI)
  show "ids_of (gen_ids 2 lua_gen [ms_after 6, ms_after 3]) = [24645, 24645]" by code_simp
qed (rule lua_gen)

text \<open>
  C39: whatever the clock shows, and even when it goes back, every worker that accepted options set
  up and that gave any number of identifiers is well formed: its parts fit their bits and the
  sequence number never leaves them.
\<close>

theorem snowflake_worker_wf:
  assumes "SetOptions opts raw now None = Inr g" "gen_ids n g clk = Inr (ids, g', clk')"
  shows "worker_wf (ig_Worker g')"
proof -
  note a = SetOptions_accepted(1,5) [OF assms(1)]
  from assms(2) show ?thesis
    by (auto simp: gen_ids_run [OF a(2)] split: option.splits intro: run_wf [OF a(1)])
qed

theorem snowflake_worker_wf_witness:
  "\<exists>g clk. gen_ids 2 lua_gen [ms_after 6, ms_after 3] = Inr ([24645, 24645], g, clk) \<and> worker_wf (ig_Worker g)"
proof -
  let ?r = "gen_ids 2 lua_gen [ms_after 6, ms_after 3]"
  have i: "ids_of ?r = [24645, 24645]" by code_simp
  then obtain g clk where r: "?r = Inr (ids_of ?r, g, clk)" using ids_of_Inr [of ?r] by auto
  with snowflake_worker_wf [OF lua_gen r] i show ?thesis by auto
qed

end
