(* ===== verification/Zset_Skiplist.thy ===== *)
theory Zset_Skiplist
  imports Skynet_Libc "HOL-Library.List_Lexorder" "HOL-Library.Product_Lexorder"
begin

text \<open>
  The skip list behind the sorted sets of the framework (\<open>src/framework/lib/lua-zset\<close>):
  \<open>skiplist.c\<close>, \<open>skiplist.h\<close> and the Lua entry points of \<open>lua-skiplist.c\<close>.

  The nodes live in a heap, a map from addresses to nodes. A node has an object (a byte
  string, none in the header), a score, the pointer to the node before it, and for each of its
  levels the next node of that level and the span, the number of nodes of the lowest level
  that this step crosses. A cell of the level array that was never written is \<open>None\<close>. The spans
  and the ranks of the insertion are 32-bit words, the other counters 64-bit words, as in the code.

  The scores are of any linearly ordered type with a zero: \<open>double\<close> without NaN. The address that
  \<open>malloc\<close> returns and the values that \<open>random\<close> returns are arguments. A search that follows a
  chain of pointers is a \<open>partial_function\<close>: \<open>None\<close> is an invalid access or a search without end.
\<close>

unbundle bit_operations_syntax

section \<open>Data\<close>

definition SKIPLIST_MAXLEVEL :: nat where
  "SKIPLIST_MAXLEVEL = 32"

type_synonym slobj = "u8 list"
type_synonym sl_cell = "addr option \<times> u32"

record 'k skiplistNode =
  sn_obj :: "slobj option"
  sn_score :: 'k
  sn_backward :: "addr option"
  sn_level :: "sl_cell option list"

type_synonym 'k sl_heap = "addr \<rightharpoonup> 'k skiplistNode"

record 'k skiplist =
  sl_mem :: "'k sl_heap"
  sl_header :: addr
  sl_tail :: "addr option"
  sl_length :: u64
  sl_level :: nat

text \<open>Reading and writing the cell \<open>level[i]\<close> of the node at \<open>a\<close>, and its fields.\<close>

definition lv :: "'k sl_heap \<Rightarrow> addr \<Rightarrow> nat \<Rightarrow> sl_cell option" where
  "lv h a i = do { n \<leftarrow> h a; arr_get (sn_level n) i }"

definition lv_set :: "'k sl_heap \<Rightarrow> addr \<Rightarrow> nat \<Rightarrow> sl_cell \<Rightarrow> 'k sl_heap option" where
  "lv_set h a i c = do {
     n \<leftarrow> h a;
     l \<leftarrow> arr_set (sn_level n) i c;
     Some (h(a \<mapsto> n\<lparr>sn_level := l\<rparr>))
   }"

definition set_span :: "'k sl_heap \<Rightarrow> addr \<Rightarrow> nat \<Rightarrow> (u32 \<Rightarrow> u32) \<Rightarrow> 'k sl_heap option" where
  "set_span h a i g = do { (f, s) \<leftarrow> lv h a i; lv_set h a i (f, g s) }"

definition set_backward :: "'k sl_heap \<Rightarrow> addr \<Rightarrow> addr option \<Rightarrow> 'k sl_heap option" where
  "set_backward h a b = do { n \<leftarrow> h a; Some (h(a \<mapsto> n\<lparr>sn_backward := b\<rparr>)) }"

section \<open>Creation\<close>

text \<open>The backward pointer of a new node is written before it is read; here it starts as \<open>NULL\<close>.\<close>

definition slCreateNode :: "nat \<Rightarrow> 'k \<Rightarrow> slobj option \<Rightarrow> 'k skiplistNode" where
  "slCreateNode level score obj =
     \<lparr>sn_obj = obj, sn_score = score, sn_backward = None, sn_level = replicate level None\<rparr>"

definition slCreate :: "addr \<Rightarrow> 'k::zero skiplist" where
  "slCreate p =
     \<lparr>sl_mem = [p \<mapsto> (slCreateNode SKIPLIST_MAXLEVEL 0 None)
        \<lparr>sn_level := replicate SKIPLIST_MAXLEVEL (Some (None, 0))\<rparr>],
      sl_header = p, sl_tail = None, sl_length = 0, sl_level = 1\<rparr>"

text \<open>
  Each call of \<open>random\<close> consumes a value; the comparison with \<open>0.25 * 0xffff = 16383.75\<close> is the
  comparison of integers below. \<open>None\<close>: the values given are used up.
\<close>

fun random_level :: "u64 list \<Rightarrow> nat \<Rightarrow> (nat \<times> u64 list) option" where
  "random_level [] level = None"
| "random_level (r # rs) level =
     (if r AND 0xffff \<le> 16383 then random_level rs (level + 1) else Some (level, rs))"

definition slRandomLevel :: "u64 list \<Rightarrow> (nat \<times> u64 list) option" where
  "slRandomLevel rs = do {
     (level, rs) \<leftarrow> random_level rs 1;
     Some (if level < SKIPLIST_MAXLEVEL then level else SKIPLIST_MAXLEVEL, rs)
   }"

section \<open>Order of the objects\<close>

fun memcmp :: "u8 list \<Rightarrow> u8 list \<Rightarrow> nat \<Rightarrow> int" where
  "memcmp (x # xs) (y # ys) (Suc n) = (if x < y then -1 else if y < x then 1 else memcmp xs ys n)"
| "memcmp xs ys n = 0"

definition compareslObj :: "slobj \<Rightarrow> slobj \<Rightarrow> int" where
  "compareslObj a b =
     (let c = memcmp a b (if length a \<le> length b then length a else length b)
      in if c = 0 then to_int32 (int (length a) - int (length b)) else c)"

definition equalslObj :: "slobj \<Rightarrow> slobj \<Rightarrow> bool" where
  "equalslObj a b \<longleftrightarrow> compareslObj a b = 0"

section \<open>Searching\<close>

text \<open>
  The inner loop of every search: step to the next node of level \<open>i\<close> while the condition holds
  for it and for the spans crossed to reach it.
\<close>

partial_function (option) sl_walk ::
  "'k sl_heap \<Rightarrow> nat \<Rightarrow> (addr \<Rightarrow> 'a::len word \<Rightarrow> bool option) \<Rightarrow> addr \<Rightarrow> 'a word \<Rightarrow> (addr \<times> 'a word) option" where
  "sl_walk h i cond x acc = do {
     (f, s) \<leftarrow> lv h x i;
     case f of
       None \<Rightarrow> Some (x, acc)
     | Some y \<Rightarrow> do {
         b \<leftarrow> cond y (acc + ucast s);
         if b then sl_walk h i cond y (acc + ucast s) else Some (x, acc)
       }
   }"

text \<open>The equations for evaluation decide each step before they unfold the next one.\<close>

lemma sl_walk_code [code]:
  "sl_walk h i cond x acc =
     (case lv h x i of
        None \<Rightarrow> None
      | Some (f, s) \<Rightarrow>
          (case f of
             None \<Rightarrow> Some (x, acc)
           | Some y \<Rightarrow>
               (case cond y (acc + ucast s) of
                  None \<Rightarrow> None
                | Some b \<Rightarrow> if b then sl_walk h i cond y (acc + ucast s) else Some (x, acc))))"
  by (subst sl_walk.simps) (simp split: option.splits)

text \<open>The outer loop from level \<open>n - 1\<close> down: the arrays \<open>update\<close> and \<open>rank\<close>, and the last node.\<close>

primrec sl_search ::
  "'k sl_heap \<Rightarrow> (addr \<Rightarrow> 'a::len word \<Rightarrow> bool option) \<Rightarrow> nat \<Rightarrow> addr \<Rightarrow> 'a word \<Rightarrow> ((addr \<times> 'a word) list \<times> addr \<times> 'a word) option" where
  "sl_search h cond 0 x acc = Some ([], x, acc)"
| "sl_search h cond (Suc i) x acc = do {
     (x, acc) \<leftarrow> sl_walk h i cond x acc;
     (us, r) \<leftarrow> sl_search h cond i x acc;
     Some (us @ [(x, acc)], r)
   }"

text \<open>The condition of the insertion and the deletion: the node is before the key.\<close>

definition key_before :: "'k::linorder sl_heap \<Rightarrow> 'k \<Rightarrow> slobj \<Rightarrow> addr \<Rightarrow> bool option" where
  "key_before h score obj y = do {
     n \<leftarrow> h y;
     if sn_score n < score then Some True
     else if sn_score n = score then do { o1 \<leftarrow> sn_obj n; Some (compareslObj o1 obj < 0) }
     else Some False
   }"

definition key_upto :: "'k::linorder sl_heap \<Rightarrow> 'k \<Rightarrow> slobj \<Rightarrow> addr \<Rightarrow> bool option" where
  "key_upto h score obj y = do {
     n \<leftarrow> h y;
     if sn_score n < score then Some True
     else if sn_score n = score then do { o1 \<leftarrow> sn_obj n; Some (compareslObj o1 obj \<le> 0) }
     else Some False
   }"

section \<open>Insertion\<close>

text \<open>The levels above the current one: they start at the header and cross the whole list.\<close>

definition grow_levels ::
  "nat \<Rightarrow> 'k skiplist \<Rightarrow> (addr \<times> u32) list \<Rightarrow> ('k skiplist \<times> (addr \<times> u32) list) option" where
  "grow_levels level sl us =
     (if sl_level sl < level then do {
        h \<leftarrow> c_for [sl_level sl..<level]
               (\<lambda>i h. set_span h (sl_header sl) i (\<lambda>_. ucast (sl_length sl))) (sl_mem sl);
        Some (sl\<lparr>sl_mem := h, sl_level := level\<rparr>, us @ replicate (level - sl_level sl) (sl_header sl, 0))
      }
      else Some (sl, us))"

definition link_level ::
  "addr \<Rightarrow> (addr \<times> u32) list \<Rightarrow> nat \<Rightarrow> 'k sl_heap \<Rightarrow> 'k sl_heap option" where
  "link_level x us i h = do {
     (f, s) \<leftarrow> lv h (fst (us ! i)) i;
     h \<leftarrow> lv_set h x i (f, s - (snd (us ! 0) - snd (us ! i)));
     lv_set h (fst (us ! i)) i (Some x, (snd (us ! 0) - snd (us ! i)) + 1)
   }"

definition slInsert ::
  "u64 list \<Rightarrow> addr \<Rightarrow> 'k::linorder \<Rightarrow> slobj \<Rightarrow> 'k skiplist \<Rightarrow> ('k skiplist \<times> u64 list) option" where
  "slInsert rnd x score obj sl = do {
     (us, _) \<leftarrow> sl_search (sl_mem sl) (\<lambda>y _. key_before (sl_mem sl) score obj y) (sl_level sl) (sl_header sl) 0;
     (level, rnd) \<leftarrow> slRandomLevel rnd;
     (sl, us) \<leftarrow> grow_levels level sl us;
     let h = (sl_mem sl)(x \<mapsto> slCreateNode level score (Some obj));
     h \<leftarrow> c_for [0..<level] (link_level x us) h;
     h \<leftarrow> c_for [level..<sl_level sl] (\<lambda>i h. set_span h (fst (us ! i)) i (\<lambda>s. s + 1)) h;
     h \<leftarrow> set_backward h x (if fst (us ! 0) = sl_header sl then None else Some (fst (us ! 0)));
     (f, _) \<leftarrow> lv h x 0;
     (h, t) \<leftarrow> (case f of
         Some y \<Rightarrow> do { h \<leftarrow> set_backward h y (Some x); Some (h, sl_tail sl) }
       | None \<Rightarrow> Some (h, Some x));
     Some (sl\<lparr>sl_mem := h, sl_tail := t, sl_length := sl_length sl + 1\<rparr>, rnd)
   }"

section \<open>Deletion\<close>

definition unlink_level ::
  "addr \<Rightarrow> addr list \<Rightarrow> nat \<Rightarrow> 'k sl_heap \<Rightarrow> 'k sl_heap option" where
  "unlink_level x us i h = do {
     (f, s) \<leftarrow> lv h (us ! i) i;
     if f = Some x then do {
       (fx, sx) \<leftarrow> lv h x i;
       lv_set h (us ! i) i (fx, s + (sx - 1))
     }
     else lv_set h (us ! i) i (f, s - 1)
   }"

text \<open>The loop that lowers the level while the top level of the header is empty.\<close>

fun lower_level :: "'k sl_heap \<Rightarrow> addr \<Rightarrow> nat \<Rightarrow> nat option" where
  "lower_level h a (Suc (Suc l)) = do {
     (f, _) \<leftarrow> lv h a (Suc l);
     if f = None then lower_level h a (Suc l) else Some (Suc (Suc l))
   }"
| "lower_level h a l = Some l"

definition slDeleteNode :: "addr \<Rightarrow> addr list \<Rightarrow> 'k skiplist \<Rightarrow> 'k skiplist option" where
  "slDeleteNode x us sl = do {
     h \<leftarrow> c_for [0..<sl_level sl] (unlink_level x us) (sl_mem sl);
     n \<leftarrow> h x;
     (f, _) \<leftarrow> lv h x 0;
     (h, t) \<leftarrow> (case f of
         Some y \<Rightarrow> do { h \<leftarrow> set_backward h y (sn_backward n); Some (h, sl_tail sl) }
       | None \<Rightarrow> Some (h, sn_backward n));
     l \<leftarrow> lower_level h (sl_header sl) (sl_level sl);
     Some (sl\<lparr>sl_mem := h, sl_tail := t, sl_level := l, sl_length := sl_length sl - 1\<rparr>)
   }"

definition slFreeNode :: "addr \<Rightarrow> 'k skiplist \<Rightarrow> 'k skiplist option" where
  "slFreeNode x sl = do {
     n \<leftarrow> sl_mem sl x;
     _ \<leftarrow> sn_obj n;
     Some (sl\<lparr>sl_mem := (sl_mem sl)(x := None)\<rparr>)
   }"

definition slDelete :: "'k::linorder \<Rightarrow> slobj \<Rightarrow> 'k skiplist \<Rightarrow> (bool \<times> 'k skiplist) option" where
  "slDelete score obj sl = do {
     (us, x, _) \<leftarrow> sl_search (sl_mem sl) (\<lambda>y (_ :: u32). key_before (sl_mem sl) score obj y)
                    (sl_level sl) (sl_header sl) 0;
     (f, _) \<leftarrow> lv (sl_mem sl) x 0;
     case f of
       None \<Rightarrow> Some (False, sl)
     | Some x \<Rightarrow> do {
         n \<leftarrow> sl_mem sl x;
         b \<leftarrow> (if score = sn_score n then map_option (\<lambda>ob. equalslObj ob obj) (sn_obj n) else Some False);
         if b then do {
           sl \<leftarrow> slDeleteNode x (map fst us) sl;
           sl \<leftarrow> slFreeNode x sl;
           Some (True, sl)
         }
         else Some (False, sl)
       }
   }"

text \<open>
  Deletion by rank. The callback gets the object of each node that goes; the objects are
  collected in order. The callback must not change the list.
\<close>

partial_function (option) delete_ranks ::
  "addr list \<Rightarrow> u32 \<Rightarrow> addr option \<Rightarrow> u64 \<Rightarrow> slobj list \<Rightarrow> 'k skiplist \<Rightarrow> (slobj list \<times> 'k skiplist) option" where
  "delete_ranks us end x traversed removed sl =
     (case x of
        None \<Rightarrow> Some (removed, sl)
      | Some x \<Rightarrow>
          if traversed \<le> ucast end then do {
            (nxt, _) \<leftarrow> lv (sl_mem sl) x 0;
            sl \<leftarrow> slDeleteNode x us sl;
            n \<leftarrow> sl_mem sl x;
            ob \<leftarrow> sn_obj n;
            sl \<leftarrow> slFreeNode x sl;
            delete_ranks us end nxt (traversed + 1) (removed @ [ob]) sl
          }
          else Some (removed, sl))"

lemma delete_ranks_code [code]:
  "delete_ranks us end x traversed removed sl =
     (case x of
        None \<Rightarrow> Some (removed, sl)
      | Some x \<Rightarrow>
          if traversed \<le> ucast end then
            (case do {
               (nxt, _) \<leftarrow> lv (sl_mem sl) x 0;
               sl \<leftarrow> slDeleteNode x us sl;
               n \<leftarrow> sl_mem sl x;
               ob \<leftarrow> sn_obj n;
               sl \<leftarrow> slFreeNode x sl;
               Some (nxt, ob, sl)
             } of
               None \<Rightarrow> None
             | Some (nxt, ob, sl) \<Rightarrow> delete_ranks us end nxt (traversed + 1) (removed @ [ob]) sl)
          else Some (removed, sl))"
  by (subst delete_ranks.simps) (simp split: option.splits Option.bind_splits)

definition slDeleteByRank :: "u32 \<Rightarrow> u32 \<Rightarrow> 'k skiplist \<Rightarrow> (slobj list \<times> 'k skiplist) option" where
  "slDeleteByRank start end sl = do {
     (us, x, traversed) \<leftarrow> sl_search (sl_mem sl) (\<lambda>_ (t :: u64). Some (t < ucast start))
                             (sl_level sl) (sl_header sl) 0;
     (f, _) \<leftarrow> lv (sl_mem sl) x 0;
     delete_ranks (map fst us) end f (traversed + 1) [] sl
   }"

section \<open>Ranks\<close>

primrec rank_search ::
  "'k::linorder sl_heap \<Rightarrow> 'k \<Rightarrow> slobj \<Rightarrow> nat \<Rightarrow> addr \<Rightarrow> u64 \<Rightarrow> u64 option" where
  "rank_search h score obj 0 x rank = Some 0"
| "rank_search h score obj (Suc i) x rank = do {
     (x, rank) \<leftarrow> sl_walk h i (\<lambda>y _. key_upto h score obj y) x rank;
     n \<leftarrow> h x;
     if (case sn_obj n of None \<Rightarrow> False | Some ob \<Rightarrow> equalslObj ob obj) then Some rank
     else rank_search h score obj i x rank
   }"

definition slGetRank :: "'k::linorder \<Rightarrow> slobj \<Rightarrow> 'k skiplist \<Rightarrow> u64 option" where
  "slGetRank score obj sl = rank_search (sl_mem sl) score obj (sl_level sl) (sl_header sl) 0"

primrec node_search :: "'k sl_heap \<Rightarrow> u64 \<Rightarrow> nat \<Rightarrow> addr \<Rightarrow> u64 \<Rightarrow> addr option option" where
  "node_search h rank 0 x traversed = Some None"
| "node_search h rank (Suc i) x traversed = do {
     (x, traversed) \<leftarrow> sl_walk h i (\<lambda>_ t. Some (t \<le> rank)) x traversed;
     if traversed = rank then Some (Some x) else node_search h rank i x traversed
   }"

definition slGetNodeByRank :: "u64 \<Rightarrow> 'k skiplist \<Rightarrow> addr option option" where
  "slGetNodeByRank rank sl =
     (if rank = 0 \<or> sl_length sl < rank then Some None
      else node_search (sl_mem sl) rank (sl_level sl) (sl_header sl) 0)"

section \<open>Ranges of scores\<close>

definition slIsInRange :: "'k::linorder \<Rightarrow> 'k \<Rightarrow> 'k skiplist \<Rightarrow> bool option" where
  "slIsInRange mn mx sl =
     (if mx < mn then Some False
      else case sl_tail sl of
        None \<Rightarrow> Some False
      | Some t \<Rightarrow> do {
          nt \<leftarrow> sl_mem sl t;
          if sn_score nt < mn then Some False
          else do {
            (f, _) \<leftarrow> lv (sl_mem sl) (sl_header sl) 0;
            case f of
              None \<Rightarrow> Some False
            | Some y \<Rightarrow> do { n \<leftarrow> sl_mem sl y; Some (\<not> mx < sn_score n) }
          }
        })"

definition slFirstInRange :: "'k::linorder \<Rightarrow> 'k \<Rightarrow> 'k skiplist \<Rightarrow> addr option option" where
  "slFirstInRange mn mx sl = do {
     b \<leftarrow> slIsInRange mn mx sl;
     if \<not> b then Some None
     else do {
       (_, x, _) \<leftarrow> sl_search (sl_mem sl)
                      (\<lambda>y (_ :: u64). map_option (\<lambda>n. sn_score n < mn) (sl_mem sl y)) (sl_level sl) (sl_header sl) 0;
       (f, _) \<leftarrow> lv (sl_mem sl) x 0;
       Some f
     }
   }"

definition slLastInRange :: "'k::linorder \<Rightarrow> 'k \<Rightarrow> 'k skiplist \<Rightarrow> addr option option" where
  "slLastInRange mn mx sl = do {
     b \<leftarrow> slIsInRange mn mx sl;
     if \<not> b then Some None
     else do {
       (_, x, _) \<leftarrow> sl_search (sl_mem sl)
                      (\<lambda>y (_ :: u64). map_option (\<lambda>n. sn_score n \<le> mx) (sl_mem sl y)) (sl_level sl) (sl_header sl) 0;
       Some (Some x)
     }
   }"

section \<open>Destruction and printing\<close>

partial_function (option) free_nodes :: "addr option \<Rightarrow> 'k skiplist \<Rightarrow> 'k skiplist option" where
  "free_nodes x sl =
     (case x of
        None \<Rightarrow> Some sl
      | Some x \<Rightarrow> do {
          (nxt, _) \<leftarrow> lv (sl_mem sl) x 0;
          sl \<leftarrow> slFreeNode x sl;
          free_nodes nxt sl
        })"

lemma free_nodes_code [code]:
  "free_nodes x sl =
     (case x of
        None \<Rightarrow> Some sl
      | Some x \<Rightarrow>
          (case do { (nxt, _) \<leftarrow> lv (sl_mem sl) x 0; sl \<leftarrow> slFreeNode x sl; Some (nxt, sl) } of
             None \<Rightarrow> None
           | Some (nxt, sl) \<Rightarrow> free_nodes nxt sl))"
  by (subst free_nodes.simps) (simp split: option.splits Option.bind_splits)

text \<open>Freeing the list: what is left of the heap.\<close>

definition slFree :: "'k skiplist \<Rightarrow> 'k sl_heap option" where
  "slFree sl = do {
     (f, _) \<leftarrow> lv (sl_mem sl) (sl_header sl) 0;
     let sl = sl\<lparr>sl_mem := (sl_mem sl)(sl_header sl := None)\<rparr>;
     sl \<leftarrow> free_nodes f sl;
     Some (sl_mem sl)
   }"

partial_function (option) sl_collect ::
  "'k skiplist \<Rightarrow> (nat \<Rightarrow> 'k skiplistNode \<Rightarrow> bool) \<Rightarrow> bool \<Rightarrow> addr option \<Rightarrow> (nat \<times> ('k \<times> slobj) list) \<Rightarrow> ('k \<times> slobj) list option" where
  "sl_collect sl cont reverse x acc =
     (case x of
        None \<Rightarrow> Some (snd acc)
      | Some x \<Rightarrow> do {
          n \<leftarrow> sl_mem sl x;
          if cont (fst acc) n then do {
            ob \<leftarrow> sn_obj n;
            nxt \<leftarrow> (if reverse then Some (sn_backward n) else map_option fst (lv (sl_mem sl) x 0));
            sl_collect sl cont reverse nxt (fst acc + 1, snd acc @ [(sn_score n, ob)])
          }
          else Some (snd acc)
        })"

lemma sl_collect_code [code]:
  "sl_collect sl cont reverse x acc =
     (case x of
        None \<Rightarrow> Some (snd acc)
      | Some x \<Rightarrow>
          (case sl_mem sl x of
             None \<Rightarrow> None
           | Some n \<Rightarrow>
               if cont (fst acc) n then
                 (case do {
                    ob \<leftarrow> sn_obj n;
                    nxt \<leftarrow> (if reverse then Some (sn_backward n) else map_option fst (lv (sl_mem sl) x 0));
                    Some (ob, nxt)
                  } of
                    None \<Rightarrow> None
                  | Some (ob, nxt) \<Rightarrow> sl_collect sl cont reverse nxt (fst acc + 1, snd acc @ [(sn_score n, ob)]))
               else Some (snd acc)))"
  by (subst sl_collect.simps) (auto split: option.splits Option.bind_splits)

definition slDump :: "'k skiplist \<Rightarrow> ('k \<times> slobj) list option" where
  "slDump sl = do {
     (f, _) \<leftarrow> lv (sl_mem sl) (sl_header sl) 0;
     sl_collect sl (\<lambda>_ _. True) False f (0, [])
   }"

section \<open>The Lua entry points\<close>

definition zs_insert :: "u64 list \<Rightarrow> addr \<Rightarrow> 'k::linorder \<Rightarrow> slobj \<Rightarrow> 'k skiplist \<Rightarrow> ('k skiplist \<times> u64 list) option" where
  "zs_insert rnd x score obj sl = slInsert rnd x score obj sl"

definition zs_delete :: "'k::linorder \<Rightarrow> slobj \<Rightarrow> 'k skiplist \<Rightarrow> (bool \<times> 'k skiplist) option" where
  "zs_delete score obj sl = slDelete score obj sl"

definition zs_delete_by_rank :: "int \<Rightarrow> int \<Rightarrow> 'k skiplist \<Rightarrow> (nat \<times> slobj list \<times> 'k skiplist) option" where
  "zs_delete_by_rank r1 r2 sl =
     (let start = word_of_int r1 :: u32; end = word_of_int r2 :: u32;
          (start, end) = (if end < start then (end, start) else (start, end)) in
      do { (objs, sl) \<leftarrow> slDeleteByRank start end sl; Some (length objs, objs, sl) })"

definition zs_get_count :: "'k skiplist \<Rightarrow> u64" where
  "zs_get_count sl = sl_length sl"

definition zs_get_rank :: "'k::linorder \<Rightarrow> slobj \<Rightarrow> 'k skiplist \<Rightarrow> u64 option option" where
  "zs_get_rank score obj sl =
     map_option (\<lambda>rank. if rank = 0 then None else Some rank) (slGetRank score obj sl)"

text \<open>The number of entries wanted is an \<open>int\<close>; a negative one gives an empty table.\<close>

definition zs_get_rank_range :: "int \<Rightarrow> int \<Rightarrow> 'k skiplist \<Rightarrow> slobj list option" where
  "zs_get_rank_range a b sl =
     (let r1 = word_of_int a :: u64; r2 = word_of_int b :: u64; reverse = \<not> r1 \<le> r2;
          rangelen = to_int32 (uint (if reverse then r1 - r2 + 1 else r2 - r1 + 1)) in
      do {
        node \<leftarrow> slGetNodeByRank r1 sl;
        es \<leftarrow> sl_collect sl (\<lambda>n _. int n < rangelen) reverse node (0, []);
        Some (map snd es)
      })"

definition zs_get_score_range :: "'k::linorder \<Rightarrow> 'k \<Rightarrow> 'k skiplist \<Rightarrow> slobj list option" where
  "zs_get_score_range s1 s2 sl =
     (if s1 \<le> s2 then do {
        node \<leftarrow> slFirstInRange s1 s2 sl;
        es \<leftarrow> sl_collect sl (\<lambda>_ n. \<not> s2 < sn_score n) False node (0, []);
        Some (map snd es)
      }
      else do {
        node \<leftarrow> slLastInRange s2 s1 sl;
        es \<leftarrow> sl_collect sl (\<lambda>_ n. \<not> sn_score n < s2) True node (0, []);
        Some (map snd es)
      })"

definition node_member :: "'k skiplist \<Rightarrow> addr option \<Rightarrow> slobj option option" where
  "node_member sl x = (case x of None \<Rightarrow> Some None
     | Some x \<Rightarrow> do { n \<leftarrow> sl_mem sl x; ob \<leftarrow> sn_obj n; Some (Some ob) })"

definition zs_get_member_by_rank :: "int \<Rightarrow> 'k skiplist \<Rightarrow> slobj option option" where
  "zs_get_member_by_rank r sl = slGetNodeByRank (word_of_int r) sl \<bind> node_member sl"

definition zs_get_backward_member_by_score :: "'k::linorder \<Rightarrow> 'k skiplist \<Rightarrow> slobj option option" where
  "zs_get_backward_member_by_score s1 sl =
     (case sl_tail sl of
        None \<Rightarrow> Some None
      | Some t \<Rightarrow> do {
          n \<leftarrow> sl_mem sl t;
          slFirstInRange s1 (sn_score n) sl \<bind> node_member sl
        })"

definition zs_get_forward_member_by_score :: "'k::linorder \<Rightarrow> 'k skiplist \<Rightarrow> slobj option option" where
  "zs_get_forward_member_by_score s1 sl = do {
     (f, _) \<leftarrow> lv (sl_mem sl) (sl_header sl) 0;
     case f of
       None \<Rightarrow> Some None
     | Some y \<Rightarrow> do {
         n \<leftarrow> sl_mem sl y;
         slLastInRange (sn_score n) s1 sl \<bind> node_member sl
       }
   }"

end
