(* ===== verification/Zset_Search.thy ===== *)
theory Zset_Search
  imports Zset_Skiplist
begin

text \<open>
  The shape of a skip list and the correctness of its searches. The nodes of the list, in
  order, are a list of addresses; a cell of level \<open>i\<close> leads to the next node that is higher
  than \<open>i\<close> and its span is the number of nodes crossed. A search whose condition holds exactly
  on a prefix of the list ends at the last node of that prefix, and at every level leaves the last
  node of the prefix that is higher than the level.
\<close>

section \<open>Cells of a level\<close>

definition fwd :: "(addr \<Rightarrow> nat) \<Rightarrow> nat \<Rightarrow> addr list \<Rightarrow> addr option" where
  "fwd T i ys = (case dropWhile (\<lambda>a. T a \<le> i) ys of [] \<Rightarrow> None | y # _ \<Rightarrow> Some y)"

definition span_len :: "(addr \<Rightarrow> nat) \<Rightarrow> nat \<Rightarrow> addr list \<Rightarrow> nat" where
  "span_len T i ys = length (takeWhile (\<lambda>a. T a \<le> i) ys) + (if dropWhile (\<lambda>a. T a \<le> i) ys = [] then 0 else 1)"

named_theorems sl_simps \<open>rewrite rules for the cells of a level\<close>

lemma fwd_Nil [sl_simps]: "fwd T i [] = None" "span_len T i [] = 0"
  by (simp_all add: fwd_def span_len_def)

lemma fwd_Cons [sl_simps]:
  "fwd T i (y # ys) = (if T y \<le> i then fwd T i ys else Some y)"
  "span_len T i (y # ys) = (if T y \<le> i then Suc (span_len T i ys) else 1)"
  by (simp_all add: fwd_def span_len_def)

lemma fwd_low:
  "\<forall>b\<in>set vs. T b \<le> i \<Longrightarrow> fwd T i (vs @ ys) = fwd T i ys"
  "\<forall>b\<in>set vs. T b \<le> i \<Longrightarrow> span_len T i (vs @ ys) = length vs + span_len T i ys"
  by (induction vs) (auto simp: sl_simps)

lemma fwd_all_low:
  "\<forall>b\<in>set vs. T b \<le> i \<Longrightarrow> fwd T i vs = None"
  "\<forall>b\<in>set vs. T b \<le> i \<Longrightarrow> span_len T i vs = length vs"
  using fwd_low [of vs T i "[]"] by (simp_all add: sl_simps)

lemma fwd_high:
  "\<exists>b\<in>set vs. i < T b \<Longrightarrow> fwd T i (vs @ ys) = fwd T i (vs @ zs)"
  "\<exists>b\<in>set vs. i < T b \<Longrightarrow> span_len T i (vs @ ys) = span_len T i (vs @ zs)"
  by (induction vs) (auto simp: sl_simps)

lemma fwd_cong:
  "(\<And>b. b \<in> set ys \<Longrightarrow> T b = S b) \<Longrightarrow> fwd T i ys = fwd S i ys"
  "(\<And>b. b \<in> set ys \<Longrightarrow> T b = S b) \<Longrightarrow> span_len T i ys = span_len S i ys"
  by (induction ys) (auto simp: sl_simps)

lemma fwd_in: "fwd T i ys = Some y \<Longrightarrow> y \<in> set ys"
  by (induction ys) (auto simp: sl_simps split: if_splits)

lemma fwd_None_iff: "fwd T i ys = None \<longleftrightarrow> (\<forall>b\<in>set ys. T b \<le> i)"
  by (induction ys) (auto simp: sl_simps)

lemma span_len_le: "span_len T i ys \<le> length ys"
  by (induction ys) (auto simp: sl_simps)

definition cells :: "'k sl_heap \<Rightarrow> (addr \<Rightarrow> nat) \<Rightarrow> addr list \<Rightarrow> bool" where
  "cells h T xs \<longleftrightarrow> (\<forall>us a ys i. xs = us @ a # ys \<longrightarrow> i < T a \<longrightarrow>
     lv h a i = Some (fwd T i ys, of_nat (span_len T i ys)))"

lemma cellsD: "cells h T (us @ a # ys) \<Longrightarrow> i < T a \<Longrightarrow> lv h a i = Some (fwd T i ys, of_nat (span_len T i ys))"
  by (auto simp: cells_def)

section \<open>Searches\<close>

lemma ucast_of_nat: "m < 2 ^ 32 \<Longrightarrow> ucast (of_nat m :: u32) = (of_nat m :: 'a::len word)"
proof -
  assume "m < 2 ^ 32"
  then have "unat (of_nat m :: u32) = m" by (simp add: unsigned_of_nat take_bit_nat_eq_self)
  then show ?thesis by (metis of_nat_unat)
qed

lemma unat_of_nat_64: "m < 2 ^ 32 \<Longrightarrow> unat (of_nat m :: u64) = m"
  by (simp add: unsigned_of_nat take_bit_nat_eq_self)

lemma ucast_of_nat_64: "m < 2 ^ 32 \<Longrightarrow> ucast (of_nat m :: u64) = (of_nat m :: 'a::len word)"
  by (metis of_nat_unat unat_of_nat_64)

text \<open>The last node of a list that is higher than \<open>i\<close>, with its position.\<close>

definition is_upd :: "(addr \<Rightarrow> nat) \<Rightarrow> addr list \<Rightarrow> nat \<Rightarrow> addr \<Rightarrow> nat \<Rightarrow> bool" where
  "is_upd T P i a r \<longleftrightarrow> (\<exists>us vs. P = us @ a # vs \<and> i < T a \<and> (\<forall>b\<in>set vs. T b \<le> i) \<and> r = length us)"

lemma first_high:
  fixes T :: "addr \<Rightarrow> nat"
  assumes "\<not> (\<forall>b\<in>set vs. T b \<le> i)"
  obtains ws b vs' where "vs = ws @ b # vs'" "\<forall>c\<in>set ws. T c \<le> i" "i < T b"
proof -
  have "\<exists>b\<in>set vs. i < T b" using assms by (meson not_le)
  from split_list_first_prop [OF this] show ?thesis using that by (auto simp: not_less)
qed

text \<open>The condition holds for the nodes of \<open>P\<close> and fails for those of \<open>rs\<close>.\<close>

definition prefix_cond :: "(addr \<Rightarrow> 'a::len word \<Rightarrow> bool option) \<Rightarrow> addr list \<Rightarrow> addr list \<Rightarrow> bool" where
  "prefix_cond cond P rs \<longleftrightarrow> (\<forall>us y ys. P @ rs = us @ y # ys \<longrightarrow> us \<noteq> [] \<longrightarrow>
     cond y (of_nat (length us)) = Some (length us < length P))"

lemma prefix_condD:
  "prefix_cond cond P rs \<Longrightarrow> P @ rs = us @ y # ys \<Longrightarrow> us \<noteq> [] \<Longrightarrow>
     cond y (of_nat (length us)) = Some (length us < length P)"
  by (simp add: prefix_cond_def)

lemma sl_walk_end: "lv h x i = Some (None, s) \<Longrightarrow> sl_walk h i cond x acc = Some (x, acc)"
  by (subst sl_walk.simps) simp

lemma sl_walk_step:
  "lv h x i = Some (Some y, s) \<Longrightarrow> acc + ucast s = acc' \<Longrightarrow> cond y acc' = Some b \<Longrightarrow>
     sl_walk h i cond x acc = (if b then sl_walk h i cond y acc' else Some (x, acc))"
  by (subst sl_walk.simps) simp

lemma walk_spec:
  fixes cond :: "addr \<Rightarrow> 'a::len word \<Rightarrow> bool option"
  assumes C: "cells h T (P @ rs)" and n: "length (P @ rs) \<le> 2 ^ 32"
    and cond: "prefix_cond cond P rs"
  shows "P = us @ a # vs \<Longrightarrow> i < T a \<Longrightarrow>
    \<exists>b r. sl_walk h i cond a (of_nat (length us)) = Some (b, of_nat r) \<and> is_upd T P i b r"
proof (induction vs arbitrary: us a rule: length_induct)
  case (1 vs)
  have lv: "lv h a i = Some (fwd T i (vs @ rs), of_nat (span_len T i (vs @ rs)))"
    using cellsD [of h T us a "vs @ rs" i] C 1(2,3) by simp
  show ?case
  proof (cases "\<forall>b\<in>set vs. T b \<le> i")
    case True
    then have f: "fwd T i (vs @ rs) = fwd T i rs" "span_len T i (vs @ rs) = length vs + span_len T i rs"
      by (simp_all add: fwd_low)
    have "sl_walk h i cond a (of_nat (length us)) = Some (a, of_nat (length us))"
    proof (cases "\<forall>b\<in>set rs. T b \<le> i")
      case True
      then have "fwd T i (vs @ rs) = None" using f by (simp add: fwd_all_low)
      then show ?thesis using lv by (intro sl_walk_end) simp
    next
      case False
      then obtain ws b rs' where w: "rs = ws @ b # rs'" "\<forall>c\<in>set ws. T c \<le> i" "i < T b" by (rule first_high)
      have s: "fwd T i rs = Some b" "span_len T i rs = length ws + 1"
        using w by (simp_all add: fwd_low sl_simps)
      have l: "length (vs @ ws) + 1 < 2 ^ 32" using n 1(2) w(1) by simp
      have c: "cond b (of_nat (length (us @ a # vs @ ws))) = Some (length (us @ a # vs @ ws) < length P)"
        using 1(2) w(1) by (intro prefix_condD [OF cond, of _ _ rs']) simp_all
      have p: "(of_nat (length us) + ucast (of_nat (length vs + (length ws + 1)) :: u32) :: 'a word)
          = of_nat (length (us @ a # vs @ ws))"
        using l by (subst ucast_of_nat) simp_all
      have "lv h a i = Some (Some b, of_nat (length vs + (length ws + 1)))" using lv f s by simp
      from sl_walk_step [where cond = cond, OF this p c] show ?thesis using 1(2) by simp
    qed
    then show ?thesis using True 1(2,3) by (auto simp: is_upd_def)
  next
    case False
    then obtain ws b vs' where w: "vs = ws @ b # vs'" "\<forall>c\<in>set ws. T c \<le> i" "i < T b" by (rule first_high)
    have s: "fwd T i (vs @ rs) = Some b" "span_len T i (vs @ rs) = length ws + 1"
      using w by (simp_all add: fwd_low sl_simps)
    have l: "length ws + 1 < 2 ^ 32" using n 1(2) w(1) by simp
    have p: "(of_nat (length us) + ucast (of_nat (length ws + 1) :: u32) :: 'a word) = of_nat (length (us @ a # ws))"
      using l by (subst ucast_of_nat) simp_all
    have c: "cond b (of_nat (length (us @ a # ws))) = Some (length (us @ a # ws) < length P)"
      using 1(2) w(1) by (intro prefix_condD [OF cond, of _ _ "vs' @ rs"]) simp_all
    have step: "sl_walk h i cond a (of_nat (length us)) = sl_walk h i cond b (of_nat (length (us @ a # ws)))"
      using sl_walk_step [where cond = cond, OF _ p c] lv s 1(2) w(1) by simp
    have "length vs' < length vs" "P = (us @ a # ws) @ b # vs'" using w(1) 1(2) by simp_all
    with 1(1) w(3) show ?thesis unfolding step by blast
  qed
qed

lemma search_spec:
  fixes cond :: "addr \<Rightarrow> 'a::len word \<Rightarrow> bool option"
  assumes C: "cells h T (P @ rs)" and n: "length (P @ rs) \<le> 2 ^ 32"
    and cond: "prefix_cond cond P rs"
  shows "P = us @ a # vs \<Longrightarrow> l \<le> T a \<Longrightarrow>
    \<exists>ups x r. sl_search h cond l a (of_nat (length us)) = Some (ups, x, of_nat r) \<and> length ups = l \<and>
      (\<forall>i<l. \<exists>b q. ups ! i = (b, of_nat q) \<and> is_upd T P i b q) \<and> (0 < l \<longrightarrow> is_upd T P 0 x r)"
proof (induction l arbitrary: us a vs)
  case (Suc l)
  have "l < T a" using Suc.prems(2) by simp
  from walk_spec [OF C n cond Suc.prems(1) this]
  obtain b q where w: "sl_walk h l cond a (of_nat (length us)) = Some (b, of_nat q)" "is_upd T P l b q" by blast
  from w(2) obtain us' vs' where b: "P = us' @ b # vs'" "l < T b" "q = length us'" by (auto simp: is_upd_def)
  from Suc.IH [OF b(1) less_imp_le [OF b(2)]] obtain ups x r where
    r: "sl_search h cond l b (of_nat (length us')) = Some (ups, x, of_nat r)" "length ups = l"
      "\<forall>i<l. \<exists>b q. ups ! i = (b, of_nat q) \<and> is_upd T P i b q" "0 < l \<longrightarrow> is_upd T P 0 x r" by blast
  have s: "sl_search h cond (Suc l) a (of_nat (length us)) = Some (ups @ [(b, of_nat q)], x, of_nat r)"
    using w(1) r(1) b(3) by simp
  have "\<exists>c k. (ups @ [(b, of_nat q)]) ! i = (c, of_nat k) \<and> is_upd T P i c k" if "i < Suc l" for i
    using r(2,3) w(2) that by (cases "i = l") (auto simp: nth_append)
  moreover have "\<exists>r'. (of_nat r' :: 'a word) = of_nat r \<and> is_upd T P 0 x r'"
  proof (cases "l = 0")
    case True
    then have "x = b" "(of_nat r :: 'a word) = of_nat q" using r(1) b(3) by auto
    with True w(2) show ?thesis by metis
  qed (use r(4) in auto)
  ultimately show ?case using s r(2) by (metis length_append_singleton)
qed auto

text \<open>In a list whose nodes all have a level, the last search ends at the last node.\<close>

lemma is_upd_0: "is_upd T P 0 x r \<Longrightarrow> \<forall>b\<in>set (tl P). 1 \<le> T b \<Longrightarrow> P \<noteq> [] \<and> x = last P \<and> r = length P - 1"
proof -
  assume "is_upd T P 0 x r" and T: "\<forall>b\<in>set (tl P). 1 \<le> T b"
  then obtain us vs where P: "P = us @ x # vs" "\<forall>b\<in>set vs. T b \<le> 0" "r = length us" by (auto simp: is_upd_def)
  have "set vs \<subseteq> set (tl P)" using P(1) by (cases us) auto
  with P(2) T have "vs = []" by (cases vs) fastforce+
  with P show ?thesis by simp
qed

end
