(* ===== verification/Zset_Update.thy ===== *)
theory Zset_Update
  imports Zset_Search
begin

text \<open>
  The invariant of a skip list and its preservation by insertion and deletion, at the level of
  the addresses of the nodes: insertion puts the new node between two parts of the list, deletion
  takes a node out, and every cell, span, backward pointer, the tail, the length and the level are
  right afterwards.
\<close>

section \<open>Views of the heap\<close>

text \<open>A heap is seen through what nodes never change, their backward pointers and their cells.\<close>

definition core :: "'k sl_heap \<Rightarrow> addr \<Rightarrow> (slobj option \<times> 'k \<times> nat) option" where
  "core h a = map_option (\<lambda>n. (sn_obj n, sn_score n, length (sn_level n))) (h a)"

definition prev :: "'k sl_heap \<Rightarrow> addr \<Rightarrow> addr option option" where
  "prev h a = map_option sn_backward (h a)"

definition hgt :: "'k sl_heap \<Rightarrow> addr \<Rightarrow> nat" where
  "hgt h a = (case core h a of None \<Rightarrow> 0 | Some (ob, s, n) \<Rightarrow> n)"

lemma core_None: "core h a = None \<longleftrightarrow> h a = None"
  by (simp add: core_def)

lemma lv_set_ok:
  assumes "core h a = Some (ob, s, n)" "i < n"
  shows "\<exists>h'. lv_set h a i c = Some h' \<and> core h' = core h \<and> prev h' = prev h \<and>
    (\<forall>b j. lv h' b j = (if b = a \<and> j = i then Some c else lv h b j))"
proof -
  from assms obtain m where m: "h a = Some m" "i < length (sn_level m)" by (auto simp: core_def)
  let ?h = "h(a \<mapsto> m\<lparr>sn_level := (sn_level m)[i := Some c]\<rparr>)"
  have "lv_set h a i c = Some ?h" using m by (simp add: lv_set_def arr_set_def)
  then show ?thesis using m
    by (intro exI [of _ ?h] conjI ext allI) (auto simp: core_def prev_def lv_def arr_get_def nth_list_update)
qed

lemma lv_core: "lv h a i = Some c \<Longrightarrow> \<exists>ob s n. core h a = Some (ob, s, n) \<and> i < n"
  by (auto simp: lv_def core_def arr_get_def c_simps split: if_splits)

lemma set_span_ok:
  assumes "lv h a i = Some (f, s)"
  shows "\<exists>h'. set_span h a i g = Some h' \<and> core h' = core h \<and> prev h' = prev h \<and>
    (\<forall>b j. lv h' b j = (if b = a \<and> j = i then Some (f, g s) else lv h b j))"
  using lv_core [OF assms] lv_set_ok [of h a _ _ _ i "(f, g s)"] assms by (auto simp: set_span_def)

lemma set_backward_ok:
  assumes "core h a \<noteq> None"
  shows "\<exists>h'. set_backward h a p = Some h' \<and> core h' = core h \<and> lv h' = lv h \<and>
    (\<forall>b. prev h' b = (if b = a then Some p else prev h b))"
proof -
  from assms obtain m where m: "h a = Some m" by (auto simp: core_def)
  then show ?thesis
    by (intro exI [of _ "h(a \<mapsto> m\<lparr>sn_backward := p\<rparr>)"] conjI ext allI)
      (auto simp: set_backward_def core_def prev_def lv_def)
qed

lemma new_node_views:
  "core (h(x \<mapsto> slCreateNode l k ob)) = (core h)(x \<mapsto> (ob, k, l))"
  "prev (h(x \<mapsto> slCreateNode l k ob)) = (prev h)(x \<mapsto> None)"
  "lv (h(x \<mapsto> slCreateNode l k ob)) b i = (if b = x then None else lv h b i)"
  by (auto simp: core_def prev_def lv_def slCreateNode_def arr_get_def fun_eq_iff)

lemma free_node_views:
  "core (h(x := None)) = (core h)(x := None)"
  "prev (h(x := None)) = (prev h)(x := None)"
  "lv (h(x := None)) b i = (if b = x then None else lv h b i)"
  by (auto simp: core_def prev_def lv_def fun_eq_iff)

section \<open>The invariant\<close>

definition hts :: "'k skiplist \<Rightarrow> addr \<Rightarrow> nat" where
  "hts sl a = (if a = sl_header sl then sl_level sl else hgt (sl_mem sl) a)"

definition node_ok :: "nat \<Rightarrow> 'k sl_heap \<Rightarrow> addr \<Rightarrow> bool" where
  "node_ok l h a \<longleftrightarrow> (\<exists>ob s n. core h a = Some (Some ob, s, n) \<and> 1 \<le> n \<and> n \<le> l)"

definition backs :: "'k sl_heap \<Rightarrow> addr list \<Rightarrow> bool" where
  "backs h xs \<longleftrightarrow> (\<forall>us a ys. xs = us @ a # ys \<longrightarrow> prev h a = Some (if us = [] then None else Some (last us)))"

lemma backsD: "backs h xs \<Longrightarrow> xs = us @ a # ys \<Longrightarrow> prev h a = Some (if us = [] then None else Some (last us))"
  by (simp add: backs_def)

definition sl_shape :: "'k skiplist \<Rightarrow> addr list \<Rightarrow> bool" where
  "sl_shape sl xs \<longleftrightarrow>
     distinct (sl_header sl # xs) \<and> 1 \<le> sl_level sl \<and> sl_level sl \<le> SKIPLIST_MAXLEVEL \<and>
     (\<forall>a. core (sl_mem sl) a \<noteq> None \<longleftrightarrow> a \<in> set (sl_header sl # xs)) \<and>
     (\<exists>s. core (sl_mem sl) (sl_header sl) = Some (None, s, SKIPLIST_MAXLEVEL)) \<and>
     (\<forall>i. sl_level sl \<le> i \<longrightarrow> i < SKIPLIST_MAXLEVEL \<longrightarrow> (\<exists>s. lv (sl_mem sl) (sl_header sl) i = Some (None, s))) \<and>
     (\<forall>a\<in>set xs. node_ok (sl_level sl) (sl_mem sl) a) \<and>
     cells (sl_mem sl) (hts sl) (sl_header sl # xs) \<and> backs (sl_mem sl) xs \<and>
     sl_tail sl = (if xs = [] then None else Some (last xs)) \<and>
     sl_length sl = of_nat (length xs)"

lemma sl_shapeD:
  assumes "sl_shape sl xs"
  shows "distinct (sl_header sl # xs)" "1 \<le> sl_level sl" "sl_level sl \<le> SKIPLIST_MAXLEVEL"
    "core (sl_mem sl) a \<noteq> None \<longleftrightarrow> a \<in> set (sl_header sl # xs)"
    "\<exists>s. core (sl_mem sl) (sl_header sl) = Some (None, s, SKIPLIST_MAXLEVEL)"
    "sl_level sl \<le> i \<Longrightarrow> i < SKIPLIST_MAXLEVEL \<Longrightarrow> \<exists>s. lv (sl_mem sl) (sl_header sl) i = Some (None, s)"
    "\<forall>a\<in>set xs. node_ok (sl_level sl) (sl_mem sl) a"
    "cells (sl_mem sl) (hts sl) (sl_header sl # xs)" "backs (sl_mem sl) xs"
    "sl_tail sl = (if xs = [] then None else Some (last xs))" "sl_length sl = of_nat (length xs)"
  using assms by (auto simp: sl_shape_def)

lemma sl_shapeI:
  assumes "distinct (sl_header sl # xs)" "1 \<le> sl_level sl" "sl_level sl \<le> SKIPLIST_MAXLEVEL"
    "\<And>a. core (sl_mem sl) a \<noteq> None \<longleftrightarrow> a \<in> set (sl_header sl # xs)"
    "\<exists>s. core (sl_mem sl) (sl_header sl) = Some (None, s, SKIPLIST_MAXLEVEL)"
    "\<And>i. sl_level sl \<le> i \<Longrightarrow> i < SKIPLIST_MAXLEVEL \<Longrightarrow> \<exists>s. lv (sl_mem sl) (sl_header sl) i = Some (None, s)"
    "\<And>a. a \<in> set xs \<Longrightarrow> node_ok (sl_level sl) (sl_mem sl) a"
    "cells (sl_mem sl) (hts sl) (sl_header sl # xs)" "backs (sl_mem sl) xs"
    "sl_tail sl = (if xs = [] then None else Some (last xs))" "sl_length sl = of_nat (length xs)"
  shows "sl_shape sl xs"
  using assms unfolding sl_shape_def by blast

lemma node_ok_mono: "node_ok l h a \<Longrightarrow> core h' a = core h a \<Longrightarrow> l \<le> l' \<Longrightarrow> node_ok l' h' a"
  by (auto simp: node_ok_def)

lemma hts_simps [simp]: "hts sl (sl_header sl) = sl_level sl"
  by (simp add: hts_def)

lemma hts_node: "sl_shape sl xs \<Longrightarrow> a \<in> set xs \<Longrightarrow> hts sl a = hgt (sl_mem sl) a \<and> 1 \<le> hts sl a \<and> hts sl a \<le> sl_level sl"
  using sl_shapeD(1,7) [of sl xs] by (fastforce simp: hts_def node_ok_def hgt_def)

lemma slCreate_shape: "sl_shape (slCreate p) []"
proof -
  have "lv (sl_mem (slCreate p :: 'a skiplist)) p i = (if i < SKIPLIST_MAXLEVEL then Some (None, 0) else None)" for i
    by (simp add: slCreate_def lv_def arr_get_def)
  then show ?thesis
    by (auto simp: sl_shape_def cells_def backs_def slCreate_def core_def slCreateNode_def hts_def
        sl_simps Cons_eq_append_conv SKIPLIST_MAXLEVEL_def)
qed

section \<open>Splitting a list at a node\<close>

lemma split_cases:
  assumes "P @ x # R = us @ a # ys"
  obtains (before) vs where "P = us @ a # vs" "ys = vs @ x # R"
    | (at) "us = P" "a = x" "ys = R"
    | (after) ws where "us = P @ x # ws" "R = ws @ a # ys"
proof -
  from assms consider (l) zs where "us = P @ zs" "x # R = zs @ a # ys" | (r) zs where "P = us @ zs" "a # ys = zs @ x # R"
    by (auto simp: append_eq_append_conv2)
  then show ?thesis
  proof cases
    case l
    then show ?thesis using at after by (cases zs) auto
  next
    case r
    then show ?thesis using before at by (cases zs) auto
  qed
qed

lemma is_upd_unique:
  assumes "is_upd T P i a r" "distinct P" "P = us @ b # vs" "i < T b"
  shows "b = a \<longleftrightarrow> (\<forall>c\<in>set vs. T c \<le> i)"
proof -
  from assms(1) obtain us' vs' where a: "P = us' @ a # vs'" "i < T a" "\<forall>c\<in>set vs'. T c \<le> i"
    by (auto simp: is_upd_def)
  show ?thesis
  proof
    assume "b = a"
    then have "vs = vs'" using a(1) assms(2,3) by (auto simp: append_eq_append_conv2 append_eq_Cons_conv Cons_eq_append_conv)
    with a(3) show "\<forall>c\<in>set vs. T c \<le> i" by simp
  next
    assume *: "\<forall>c\<in>set vs. T c \<le> i"
    have "us' @ a # vs' = us @ b # vs" using a(1) assms(3) by simp
    then show "b = a"
    proof (cases rule: split_cases)
      case (before ws)
      then have "b \<in> set us'" by simp
      show ?thesis using before * a(2) by auto
    next
      case (after ws)
      then show ?thesis using a(3) assms(4) by auto
    qed simp
  qed
qed

section \<open>Raising the level\<close>

lemma is_upd_cong:
  assumes "is_upd T (p # P) i a r" "\<And>b. b \<in> set P \<Longrightarrow> T b = S b" "i < T p \<Longrightarrow> i < S p"
  shows "is_upd S (p # P) i a r"
proof -
  from assms(1) obtain us vs where *: "p # P = us @ a # vs" "i < T a" "\<forall>b\<in>set vs. T b \<le> i" "r = length us"
    by (auto simp: is_upd_def)
  have "set vs \<subseteq> set P" "a = p \<or> a \<in> set P" using *(1) by (cases us; auto)+
  then have "i < S a" "\<forall>b\<in>set vs. S b \<le> i" using *(2,3) assms(2,3) by (auto dest: subsetD) (metis subsetD)+
  with * show ?thesis by (auto simp: is_upd_def)
qed

lemma is_upd_header: "\<forall>b\<in>set P. T b \<le> i \<Longrightarrow> i < T p \<Longrightarrow> is_upd T (p # P) i p 0"
  by (auto simp: is_upd_def intro!: exI [of _ "[]"])

definition ups_ok :: "'k skiplist \<Rightarrow> addr list \<Rightarrow> (addr \<times> 'a::len word) list \<Rightarrow> bool" where
  "ups_ok sl ls us \<longleftrightarrow> length us = sl_level sl \<and>
     (\<forall>i < sl_level sl. \<exists>b q. us ! i = (b, of_nat q) \<and> is_upd (hts sl) (sl_header sl # ls) i b q)"

lemma grow_levels_ok:
  assumes sh: "sl_shape sl (ls @ rs)" and n: "length (ls @ rs) < 2 ^ 32" and l: "level \<le> SKIPLIST_MAXLEVEL"
    and us: "ups_ok sl ls us"
  shows "\<exists>sl' us'. grow_levels level sl us = Some (sl', us') \<and> sl_shape sl' (ls @ rs) \<and>
    sl_level sl' = max (sl_level sl) level \<and> sl_header sl' = sl_header sl \<and>
    core (sl_mem sl') = core (sl_mem sl) \<and> ups_ok sl' ls us'"
proof (cases "sl_level sl < level")
  case False
  then show ?thesis using sh us by (auto simp: grow_levels_def max_def)
next
  case True
  note d = sl_shapeD [OF sh]
  let ?h = "sl_mem sl" and ?p = "sl_header sl" and ?l = "sl_level sl"
  let ?n = "of_nat (length (ls @ rs)) :: u32"
  define I where "I k h' \<longleftrightarrow> core h' = core ?h \<and> prev h' = prev ?h \<and>
    (\<forall>b j. lv h' b j = (if b = ?p \<and> ?l \<le> j \<and> j < k then Some (None, ?n) else lv ?h b j))"
    for k and h' :: "'a sl_heap"
  have n64: "ucast (sl_length sl) = ?n"
    unfolding d(11) using n by (rule ucast_of_nat_64)
  have "\<exists>h'. c_for [?l..<level] (\<lambda>i h. set_span h ?p i (\<lambda>_. ucast (sl_length sl))) ?h = Some h' \<and> I level h'"
  proof (rule c_for_upt)
    show "I ?l ?h" by (auto simp: I_def)
  next
    fix i h'
    assume i: "?l \<le> i" "i < level" and I: "I i h'"
    then obtain s where "lv h' ?p i = Some (None, s)" using d(6) l by (fastforce simp: I_def)
    from set_span_ok [OF this, of "\<lambda>_. ?n"] show "\<exists>h''. set_span h' ?p i (\<lambda>_. ucast (sl_length sl)) = Some h'' \<and> I (Suc i) h''"
      unfolding n64 using I i by (fastforce simp: I_def less_Suc_eq)
  qed (use True in simp)
  then obtain h' where h': "c_for [?l..<level] (\<lambda>i h. set_span h ?p i (\<lambda>_. ucast (sl_length sl))) ?h = Some h'"
    "core h' = core ?h" "prev h' = prev ?h"
    and lv': "\<And>b j. lv h' b j = (if b = ?p \<and> ?l \<le> j \<and> j < level then Some (None, ?n) else lv ?h b j)"
    by (auto simp: I_def)
  let ?s = "sl\<lparr>sl_mem := h', sl_level := level\<rparr>"
  have T: "hts ?s b = hts sl b" if "b \<in> set (ls @ rs)" for b
    using d(1) that h'(2) by (auto simp: hts_def hgt_def)
  have low: "hts sl b \<le> ?l" if "b \<in> set (ls @ rs)" for b using hts_node [OF sh that] by simp
  have C: "cells h' (hts ?s) (?p # ls @ rs)"
    unfolding cells_def
  proof (intro allI impI)
    fix us a ys i
    assume s: "?p # ls @ rs = us @ a # ys" and i: "i < hts ?s a"
    have "set ys \<subseteq> set (ls @ rs)" using s by (cases us) auto
    then have f: "fwd (hts ?s) i ys = fwd (hts sl) i ys" "span_len (hts ?s) i ys = span_len (hts sl) i ys"
      using T by (auto intro: fwd_cong)
    show "lv h' a i = Some (fwd (hts ?s) i ys, of_nat (span_len (hts ?s) i ys))"
    proof (cases "a = ?p \<and> ?l \<le> i")
      case True
      then have "ys = ls @ rs" using s d(1) by (cases us) auto
      moreover from this have "\<forall>b\<in>set ys. hts sl b \<le> i" using low True by force
      moreover have "i < level" using True i by (simp add: hts_def)
      ultimately show ?thesis using True f fwd_all_low [of ys "hts sl" i] by (simp add: lv')
    next
      case False
      have "a = ?p \<or> a \<in> set (ls @ rs)" using s by (cases us) auto
      then have "i < hts sl a" using False i T by auto
      with d(8) s have "lv ?h a i = Some (fwd (hts sl) i ys, of_nat (span_len (hts sl) i ys))"
        by (simp add: cells_def)
      then show ?thesis using False by (auto simp: lv' f)
    qed
  qed
  have "sl_shape ?s (ls @ rs)"
  proof (rule sl_shapeI)
    show "backs (sl_mem ?s) (ls @ rs)" using d(9) by (simp add: backs_def h'(3))
    show "node_ok (sl_level ?s) (sl_mem ?s) a" if "a \<in> set (ls @ rs)" for a
      using d(7) that True by - (rule node_ok_mono [of ?l ?h], auto simp: h'(2))
  qed (use d C True l in \<open>auto simp: h'(2) lv'\<close>)
  moreover have "ups_ok ?s ls (us @ replicate (level - ?l) (?p, 0))"
    unfolding ups_ok_def
  proof (intro conjI allI impI)
    show "length (us @ replicate (level - ?l) (?p, 0)) = sl_level ?s" using us True by (simp add: ups_ok_def)
  next
    fix i
    assume i: "i < sl_level ?s"
    show "\<exists>b q. (us @ replicate (level - ?l) (?p, 0)) ! i = (b, of_nat q) \<and> is_upd (hts ?s) (sl_header ?s # ls) i b q"
    proof (cases "i < ?l")
      case True
      then obtain b q where b: "us ! i = (b, of_nat q)" "is_upd (hts sl) (?p # ls) i b q"
        using us by (auto simp: ups_ok_def)
      from is_upd_cong [OF b(2), of "hts ?s"] T i have "is_upd (hts ?s) (?p # ls) i b q" by (simp add: hts_def)
      then show ?thesis using True b(1) us by (auto simp: ups_ok_def nth_append)
    next
      case False
      then have "is_upd (hts ?s) (?p # ls) i ?p 0"
        using i T low by (intro is_upd_header) (force simp: hts_def)+
      then show ?thesis using False i us by (auto simp: ups_ok_def nth_append intro!: exI [of _ 0])
    qed
  qed
  ultimately show ?thesis using True h' by (auto simp: grow_levels_def max_def)
qed

section \<open>Insertion\<close>

lemma ups_0:
  assumes "sl_shape sl (ls @ rs)" "ups_ok sl ls us"
  shows "us ! 0 = (last (sl_header sl # ls), of_nat (length ls))"
proof -
  have "0 < sl_level sl" using sl_shapeD(2) [OF assms(1)] by simp
  then obtain b q where b: "us ! 0 = (b, of_nat q)" "is_upd (hts sl) (sl_header sl # ls) 0 b q"
    using assms(2) by (auto simp: ups_ok_def)
  have "\<forall>b\<in>set (tl (sl_header sl # ls)). 1 \<le> hts sl b" using hts_node [OF assms(1)]
    by (metis Un_iff list.sel(3) set_append)
  from is_upd_0 [OF b(2) this] b(1) show ?thesis by simp
qed

lemma upd_facts:
  assumes sh: "sl_shape sl (ls @ rs)" and us: "ups_ok sl ls us" and i: "i < sl_level sl"
  shows "\<exists>b uss vs. us ! i = (b, of_nat (length uss)) \<and> sl_header sl # ls = uss @ b # vs \<and>
    i < hts sl b \<and> (\<forall>c\<in>set vs. hts sl c \<le> i) \<and> is_upd (hts sl) (sl_header sl # ls) i b (length uss) \<and>
    lv (sl_mem sl) b i = Some (fwd (hts sl) i rs, of_nat (length vs + span_len (hts sl) i rs)) \<and>
    snd (us ! 0) - snd (us ! i) = of_nat (length vs) \<and> core (sl_mem sl) b \<noteq> None"
proof -
  from us i obtain b q where b: "us ! i = (b, of_nat q)" "is_upd (hts sl) (sl_header sl # ls) i b q"
    by (auto simp: ups_ok_def)
  from b(2) obtain uss vs where s: "sl_header sl # ls = uss @ b # vs" "i < hts sl b"
    "\<forall>c\<in>set vs. hts sl c \<le> i" "q = length uss" by (auto simp: is_upd_def)
  have "sl_header sl # ls @ rs = uss @ b # (vs @ rs)" using s(1) by (cases uss) auto
  with sl_shapeD(8) [OF sh] have "cells (sl_mem sl) (hts sl) (uss @ b # (vs @ rs))" by (simp only:)
  then have "lv (sl_mem sl) b i = Some (fwd (hts sl) i (vs @ rs), of_nat (span_len (hts sl) i (vs @ rs)))"
    using s(2) by (rule cellsD)
  moreover have "length ls = length uss + length vs" using arg_cong [OF s(1), of length] by simp
  then have "snd (us ! 0) - snd (us ! i) = of_nat (length vs)"
    using ups_0 [OF sh us] b(1) s(4) by simp
  moreover have "b \<in> set (sl_header sl # ls @ rs)" using s(1) by (cases uss) auto
  then have "core (sl_mem sl) b \<noteq> None" using sl_shapeD(4) [OF sh, of b] by simp
  ultimately show ?thesis using b s fwd_low [OF s(3), of rs] by (intro exI [of _ b] exI [of _ uss] exI [of _ vs]) simp
qed

lemma upd_mem: "ups_ok sl ls us \<Longrightarrow> i < sl_level sl \<Longrightarrow> fst (us ! i) \<in> set (sl_header sl # ls)"
proof -
  assume "ups_ok sl ls us" "i < sl_level sl"
  then obtain b q where "us ! i = (b, of_nat q)" "is_upd (hts sl) (sl_header sl # ls) i b q" by (auto simp: ups_ok_def)
  then show ?thesis unfolding is_upd_def by (metis fst_conv in_set_conv_decomp)
qed

text \<open>The cells after the insertion of \<open>x\<close> with \<open>level\<close> levels behind the nodes of \<open>us\<close>.\<close>

definition ins_cell ::
  "'k skiplist \<Rightarrow> addr list \<Rightarrow> (addr \<times> 'a::len word) list \<Rightarrow> addr \<Rightarrow> nat \<Rightarrow> (nat \<Rightarrow> u32) \<Rightarrow> addr \<Rightarrow> nat \<Rightarrow> sl_cell option" where
  "ins_cell sl rs us x level d b i =
     (if b = x then (if i < level then Some (fwd (hts sl) i rs, of_nat (span_len (hts sl) i rs)) else None)
      else if i < sl_level sl \<and> b = fst (us ! i) then
        (if i < level then Some (Some x, d i + 1) else map_option (\<lambda>(f, s). (f, s + 1)) (lv (sl_mem sl) b i))
      else lv (sl_mem sl) b i)"

lemma insert_loops:
  fixes us :: "(addr \<times> u32) list"
  assumes sh: "sl_shape sl (ls @ rs)" and us: "ups_ok sl ls us" and l: "1 \<le> level" "level \<le> sl_level sl"
    and x: "core (sl_mem sl) x = None"
  shows "\<exists>h1 h2. c_for [0..<level] (link_level x us) ((sl_mem sl)(x \<mapsto> slCreateNode level score (Some obj))) = Some h1 \<and>
    c_for [level..<sl_level sl] (\<lambda>i h. set_span h (fst (us ! i)) i (\<lambda>s. s + 1)) h1 = Some h2 \<and>
    core h2 = (core (sl_mem sl))(x \<mapsto> (Some obj, score, level)) \<and> prev h2 = (prev (sl_mem sl))(x \<mapsto> None) \<and>
    (\<forall>b i. lv h2 b i = ins_cell sl rs us x level (\<lambda>i. snd (us ! 0) - snd (us ! i)) b i)"
proof -
  let ?h = "sl_mem sl" and ?hx = "(sl_mem sl)(x \<mapsto> slCreateNode level score (Some obj))"
  let ?d = "\<lambda>i. snd (us ! 0) - snd (us ! i)"
  define I where "I k h' \<longleftrightarrow> core h' = (core ?h)(x \<mapsto> (Some obj, score, level)) \<and> prev h' = (prev ?h)(x \<mapsto> None) \<and>
    (\<forall>b i. lv h' b i = (if i < k then ins_cell sl rs us x level ?d b i else if b = x then None else lv ?h b i))"
    for k and h' :: "'a sl_heap"
  have "\<exists>h1. c_for [0..<level] (link_level x us) ?hx = Some h1 \<and> I level h1"
  proof (rule c_for_upt)
    show "I 0 ?hx" by (simp add: I_def new_node_views)
  next
    fix i h'
    assume i: "i < level" and I: "I i h'"
    have "i < sl_level sl" using i l by simp
    from upd_facts [OF sh us this] obtain b and uss vs :: "addr list" where b: "us ! i = (b, of_nat (length uss))"
      "lv ?h b i = Some (fwd (hts sl) i rs, of_nat (length vs + span_len (hts sl) i rs))"
      "?d i = of_nat (length vs)" "core ?h b \<noteq> None" by blast
    have bx: "b \<noteq> x" using b(4) x by auto
    have c0: "lv h' b i = Some (fwd (hts sl) i rs, of_nat (length vs + span_len (hts sl) i rs))"
      using I bx b(2) by (simp add: I_def)
    have "core h' x = Some (Some obj, score, level)" using I by (simp add: I_def)
    from lv_set_ok [OF this i, of "(fwd (hts sl) i rs, of_nat (span_len (hts sl) i rs))"] obtain h1 where
      h1: "lv_set h' x i (fwd (hts sl) i rs, of_nat (span_len (hts sl) i rs)) = Some h1" "core h1 = core h'" "prev h1 = prev h'"
        "\<forall>c j. lv h1 c j = (if c = x \<and> j = i then Some (fwd (hts sl) i rs, of_nat (span_len (hts sl) i rs)) else lv h' c j)"
      by blast
    obtain ob s m where "core h1 b = Some (ob, s, m)" "i < m" using lv_core [OF c0] h1(2) by auto
    from lv_set_ok [OF this, of "(Some x, ?d i + 1)"] obtain h2 where
      h2: "lv_set h1 b i (Some x, ?d i + 1) = Some h2" "core h2 = core h1" "prev h2 = prev h1"
        "\<forall>c j. lv h2 c j = (if c = b \<and> j = i then Some (Some x, ?d i + 1) else lv h1 c j)" by blast
    have "link_level x us i h' = Some h2"
      using h1(1) h2(1) b(1,3) by (simp add: link_level_def c0)
    moreover have "I (Suc i) h2"
      unfolding I_def using I h1(2-4) h2(2-4) i l b(1) bx by (auto simp: I_def ins_cell_def less_Suc_eq)
    ultimately show "\<exists>h''. link_level x us i h' = Some h'' \<and> I (Suc i) h''" by blast
  qed simp
  then obtain h1 where h1: "c_for [0..<level] (link_level x us) ?hx = Some h1" "I level h1" by blast
  have "\<exists>h2. c_for [level..<sl_level sl] (\<lambda>i h. set_span h (fst (us ! i)) i (\<lambda>s. s + 1)) h1 = Some h2 \<and> I (sl_level sl) h2"
  proof (rule c_for_upt)
    show "I level h1" by (rule h1)
  next
    fix i h'
    assume i: "level \<le> i" "i < sl_level sl" and I: "I i h'"
    from upd_facts [OF sh us i(2)] obtain b and uss vs :: "addr list" where b: "us ! i = (b, of_nat (length uss))"
      "lv ?h b i = Some (fwd (hts sl) i rs, of_nat (length vs + span_len (hts sl) i rs))" "core ?h b \<noteq> None" by blast
    have bx: "b \<noteq> x" using b(3) x by auto
    then have "lv h' b i = Some (fwd (hts sl) i rs, of_nat (length vs + span_len (hts sl) i rs))"
      using I b(2) by (simp add: I_def)
    from set_span_ok [OF this, of "\<lambda>s. s + 1"] obtain h2 where
      h2: "set_span h' b i (\<lambda>s. s + 1) = Some h2" "core h2 = core h'" "prev h2 = prev h'"
        "\<forall>c j. lv h2 c j = (if c = b \<and> j = i then Some (fwd (hts sl) i rs, of_nat (length vs + span_len (hts sl) i rs) + 1) else lv h' c j)"
      by blast
    have "I (Suc i) h2"
      unfolding I_def using I h2(2-4) i b bx by (auto simp: I_def ins_cell_def less_Suc_eq)
    then show "\<exists>h''. set_span h' (fst (us ! i)) i (\<lambda>s. s + 1) = Some h'' \<and> I (Suc i) h''" using h2(1) b(1) by auto
  qed (use l in simp)
  then obtain h2 where h2: "c_for [level..<sl_level sl] (\<lambda>i h. set_span h (fst (us ! i)) i (\<lambda>s. s + 1)) h1 = Some h2"
    "I (sl_level sl) h2" by blast
  have "lv ?h b i = None" if "sl_level sl \<le> i" "b = x" for b i using x that by (simp add: lv_def core_def)
  then have "lv h2 b i = ins_cell sl rs us x level ?d b i" for b i
    using h2(2) l x by (auto simp: I_def ins_cell_def)
  then show ?thesis using h1(1) h2 by (auto simp: I_def)
qed

lemma insert_cells:
  fixes us :: "(addr \<times> u32) list"
  assumes sh: "sl_shape sl (ls @ rs)" and us: "ups_ok sl ls us" and l: "1 \<le> level" "level \<le> sl_level sl"
    and x: "core (sl_mem sl) x = None"
    and lv: "\<And>b i. lv h b i = ins_cell sl rs us x level (\<lambda>i. snd (us ! 0) - snd (us ! i)) b i"
    and T: "\<And>a. a \<noteq> x \<Longrightarrow> T a = hts sl a" "T x = level"
  shows "cells h T (sl_header sl # ls @ x # rs)"
  unfolding cells_def
proof (intro allI impI)
  fix zs a ys i
  assume s: "sl_header sl # ls @ x # rs = zs @ a # ys" and i: "i < T a"
  have xn: "x \<notin> set (sl_header sl # ls @ rs)" using x sl_shapeD(4) [OF sh, of x] by simp
  have dis: "distinct (sl_header sl # ls)" using sl_shapeD(1) [OF sh] by simp
  have rsT: "fwd T i rs = fwd (hts sl) i rs" "span_len T i rs = span_len (hts sl) i rs"
    using xn T(1) by (intro fwd_cong; force)+
  from s have "(sl_header sl # ls) @ x # rs = zs @ a # ys" by simp
  then show "lv h a i = Some (fwd T i ys, of_nat (span_len T i ys))"
  proof (cases rule: split_cases)
    case at
    then show ?thesis using i T(2) rsT by (simp add: lv ins_cell_def)
  next
    case (after ws)
    then have a: "a \<noteq> x" "a \<in> set rs" "set ys \<subseteq> set rs" using xn by auto
    have "a \<notin> set (sl_header sl # ls)" using sl_shapeD(1) [OF sh] a(2) by auto
    moreover have "fst (us ! i) \<in> set (sl_header sl # ls)" if "i < sl_level sl"
      using upd_mem [OF us that] .
    ultimately have "lv h a i = lv (sl_mem sl) a i" using a(1) by (auto simp: lv ins_cell_def)
    moreover have "cells (sl_mem sl) (hts sl) ((sl_header sl # ls @ ws) @ a # ys)"
      using sl_shapeD(8) [OF sh] after(2) by simp
    from cellsD [OF this, of i] i T(1) a(1) have "lv (sl_mem sl) a i = Some (fwd (hts sl) i ys, of_nat (span_len (hts sl) i ys))"
      by simp
    moreover have "fwd T i ys = fwd (hts sl) i ys" "span_len T i ys = span_len (hts sl) i ys"
      using xn T(1) a(3) by (intro fwd_cong; force)+
    ultimately show ?thesis by simp
  next
    case (before vs)
    have "set (zs @ a # vs) = set (sl_header sl # ls)" unfolding before(1) ..
    then have ax: "a \<noteq> x" and vx: "x \<notin> set vs" using xn by auto
    have i': "i < hts sl a" using i T(1) ax by simp
    have il: "i < sl_level sl"
    proof -
      have "a = sl_header sl \<or> a \<in> set (ls @ rs)" using before(1) by (cases zs) auto
      then show ?thesis using i' hts_node [OF sh, of a] by fastforce
    qed
    have vT: "fwd T i (vs @ zs') = fwd (hts sl) i (vs @ zs') \<and> span_len T i (vs @ zs') = span_len (hts sl) i (vs @ zs')"
      if "x \<notin> set zs'" for zs' using vx T(1) that by (intro conjI fwd_cong; force)
    from upd_facts [OF sh us il] obtain b and uss ws :: "addr list" where b: "us ! i = (b, of_nat (length uss))"
      "sl_header sl # ls = uss @ b # ws" "is_upd (hts sl) (sl_header sl # ls) i b (length uss)"
      "lv (sl_mem sl) b i = Some (fwd (hts sl) i rs, of_nat (length ws + span_len (hts sl) i rs))"
      "snd (us ! 0) - snd (us ! i) = of_nat (length ws)" by blast
    note un = is_upd_unique [OF b(3) dis before(1) i']
    show ?thesis
    proof (cases "a = b")
      case True
      then have low: "\<forall>c\<in>set vs. hts sl c \<le> i" using un by simp
      have lowT: "\<forall>c\<in>set vs. T c \<le> i"
      proof
        fix c
        assume "c \<in> set vs"
        then have "T c = hts sl c" "hts sl c \<le> i" using low T(1) vx by metis+
        then show "T c \<le> i" by simp
      qed
      have e: "ws = vs" using b(2) before(1) True dis
        by (auto simp: append_eq_append_conv2 append_eq_Cons_conv Cons_eq_append_conv)
      show ?thesis
      proof (cases "i < level")
        case True
        with \<open>a = b\<close> il b(1,5) ax T(2) fwd_low [OF lowT, of "x # rs"] e show ?thesis
          by (simp add: lv ins_cell_def before(2) sl_simps)
      next
        case False
        with \<open>a = b\<close> il b(1,4) ax T(2) fwd_low [OF lowT, of "x # rs"] e rsT show ?thesis
          by (simp add: lv ins_cell_def before(2) sl_simps)
      qed
    next
      case False
      then obtain c where c: "c \<in> set vs" "i < hts sl c" using un by (meson not_le)
      moreover from this have "T c = hts sl c" using vx T(1) by metis
      ultimately have hi: "\<exists>c\<in>set vs. i < hts sl c" "\<exists>c\<in>set vs. i < T c" by (auto intro: bexI [of _ c])
      have "sl_header sl # ls @ rs = zs @ a # (vs @ rs)" using before(1) by (cases zs) auto
      with sl_shapeD(8) [OF sh] have "cells (sl_mem sl) (hts sl) (zs @ a # (vs @ rs))" by (simp only:)
      from cellsD [OF this i'] have "lv (sl_mem sl) a i = Some (fwd (hts sl) i (vs @ rs), of_nat (span_len (hts sl) i (vs @ rs)))" .
      moreover have "lv h a i = lv (sl_mem sl) a i" using False ax b(1) by (simp add: lv ins_cell_def)
      moreover have "x \<notin> set rs" using xn by simp
      ultimately show ?thesis
        using fwd_high [of vs i T "x # rs" rs] hi vT [of rs] by (simp add: before(2))
    qed
  qed
qed

lemma random_level_le: "random_level rs l = Some (k, rs') \<Longrightarrow> l \<le> k"
  by (induction rs l rule: random_level.induct) (auto split: if_splits)

lemma slRandomLevel_range: "slRandomLevel rs = Some (l, rs') \<Longrightarrow> 1 \<le> l \<and> l \<le> SKIPLIST_MAXLEVEL"
  by (auto simp: slRandomLevel_def c_simps SKIPLIST_MAXLEVEL_def dest: random_level_le split: if_splits)


lemma backs_insert:
  assumes "backs h (ls @ rs)" "distinct (ls @ x # rs)"
    and p: "\<And>b. prev h' b = (if b = x then Some (if ls = [] then None else Some (last ls))
      else if rs \<noteq> [] \<and> b = hd rs then Some (Some x) else prev h b)"
  shows "backs h' (ls @ x # rs)"
  unfolding backs_def
proof (intro allI impI)
  fix us a ys
  assume s: "ls @ x # rs = us @ a # ys"
  then show "prev h' a = Some (if us = [] then None else Some (last us))"
  proof (cases rule: split_cases)
    case (before vs)
    then have "a \<noteq> x" "\<not> (rs \<noteq> [] \<and> a = hd rs)" using assms(2) by (auto dest: hd_in_set)
    then show ?thesis using assms(1) before(1) by (auto simp: p backs_def)
  next
    case (after ws)
    have "a \<noteq> x" using assms(2) after(2) by auto
    show ?thesis
    proof (cases ws)
      case Nil
      then show ?thesis using after \<open>a \<noteq> x\<close> by (simp add: p)
    next
      case (Cons w ws')
      then have "a \<noteq> hd rs" using assms(2) after(2) by auto
      moreover have e: "ls @ rs = (ls @ ws) @ a # ys" using after(2) by simp
      have "prev h a = Some (Some (last ws))" using backsD [OF assms(1) e] Cons by simp
      ultimately show ?thesis using \<open>a \<noteq> x\<close> after Cons by (simp add: p)
    qed
  qed (simp add: p)
qed

lemma fwd_0: "\<forall>a\<in>set xs. 1 \<le> T a \<Longrightarrow> fwd T 0 xs = (if xs = [] then None else Some (hd xs))"
  by (cases xs) (auto simp: sl_simps)

lemma slInsert_shape:
  assumes sh: "sl_shape sl (ls @ rs)" and n: "length (ls @ rs) < 2 ^ 32 - 1"
    and cond: "prefix_cond (\<lambda>y (_ :: u32). key_before (sl_mem sl) score obj y) (sl_header sl # ls) rs"
    and rnd: "slRandomLevel rnd = Some (level, rnd')" and x: "core (sl_mem sl) x = None"
  shows "\<exists>sl'. slInsert rnd x score obj sl = Some (sl', rnd') \<and> sl_shape sl' (ls @ x # rs) \<and>
    sl_header sl' = sl_header sl \<and> core (sl_mem sl') = (core (sl_mem sl))(x \<mapsto> (Some obj, score, level))"
proof -
  have n': "length (ls @ rs) < 2 ^ 32" using n by simp
  note l = slRandomLevel_range [OF rnd]
  obtain us y r where us: "sl_search (sl_mem sl) (\<lambda>y (_ :: u32). key_before (sl_mem sl) score obj y)
      (sl_level sl) (sl_header sl) 0 = Some (us, y, of_nat r)" "ups_ok sl ls us"
    using search_spec [where us = "[]" and vs = ls, OF _ _ cond, of "sl_mem sl" "hts sl" "sl_header sl" "sl_level sl"]
      sl_shapeD(8) [OF sh] n by (auto simp: ups_ok_def)
  from grow_levels_ok [OF sh n' conjunct2 [OF l] us(2)] obtain s us' where
    g: "grow_levels level sl us = Some (s, us')" "sl_shape s (ls @ rs)" "level \<le> sl_level s"
      "sl_header s = sl_header sl" "core (sl_mem s) = core (sl_mem sl)" "ups_ok s ls us'" by force
  note d = sl_shapeD [OF g(2)] and u0 = ups_0 [OF g(2,6)]
  have x': "core (sl_mem s) x = None" using x g(5) by simp
  have xn: "x \<notin> set (sl_header s # ls @ rs)" using d(4) [of x] x' by simp
  from insert_loops [OF g(2,6) conjunct1 [OF l] g(3) x'] obtain h1 h2 where
    h: "c_for [0..<level] (link_level x us') ((sl_mem s)(x \<mapsto> slCreateNode level score (Some obj))) = Some h1"
      "c_for [level..<sl_level s] (\<lambda>i h. set_span h (fst (us' ! i)) i (\<lambda>s. s + 1)) h1 = Some h2"
      "core h2 = (core (sl_mem s))(x \<mapsto> (Some obj, score, level))" "prev h2 = (prev (sl_mem s))(x \<mapsto> None)"
    and lv2: "\<And>b i. lv h2 b i = ins_cell s rs us' x level (\<lambda>i. snd (us' ! 0) - snd (us' ! i)) b i" by blast
  let ?b = "if fst (us' ! 0) = sl_header s then None else Some (fst (us' ! 0))"
  have "ls \<noteq> [] \<Longrightarrow> last ls \<noteq> sl_header s" using d(1) by (metis Un_iff distinct.simps(2) last_in_set set_append)
  then have b: "?b = (if ls = [] then None else Some (last ls))" using u0 by auto
  let ?q = "if ls = [] then None else Some (last ls)"
  have "core h2 x \<noteq> None" using h(3) by simp
  from set_backward_ok [OF this, of ?q] obtain h3 where h3: "set_backward h2 x ?b = Some h3" "core h3 = core h2"
    "lv h3 = lv h2" "\<And>c. prev h3 c = (if c = x then Some ?q else prev h2 c)" unfolding b by blast
  have fx: "lv h3 x 0 = Some ((if rs = [] then None else Some (hd rs)), of_nat (span_len (hts s) 0 rs))"
  proof -
    have "\<forall>a\<in>set rs. 1 \<le> hts s a" using hts_node [OF g(2)] by (metis Un_iff set_append)
    from fwd_0 [OF this] show ?thesis using l by (simp add: h3(3) lv2 ins_cell_def)
  qed
  have "\<exists>h4. (case if rs = [] then None else Some (hd rs) of
         Some y \<Rightarrow> do { h \<leftarrow> set_backward h3 y (Some x); Some (h, sl_tail s) }
       | None \<Rightarrow> Some (h3, Some x)) = Some (h4, Some (last (x # rs))) \<and> core h4 = core h2 \<and> lv h4 = lv h2 \<and>
       (\<forall>c. prev h4 c = (if c = x then Some (if ls = [] then None else Some (last ls))
          else if rs \<noteq> [] \<and> c = hd rs then Some (Some x) else prev (sl_mem s) c))"
  proof (cases "rs = []")
    case True
    then show ?thesis using h3(2-4) h(4) by (intro exI [of _ h3]) auto
  next
    case False
    then have "hd rs \<in> set (sl_header s # ls @ rs)" by simp
    then have hr: "core h3 (hd rs) \<noteq> None" "hd rs \<noteq> x" using d(4) [of "hd rs"] h3(2) h(3) xn by auto
    from set_backward_ok [OF hr(1), of "Some x"] obtain h4 where "set_backward h3 (hd rs) (Some x) = Some h4"
      "core h4 = core h3" "lv h4 = lv h3" "\<And>c. prev h4 c = (if c = hd rs then Some (Some x) else prev h3 c)" by blast
    then show ?thesis using False h3(2-4) h(4) hr(2) d(10) by (intro exI [of _ h4]) auto
  qed
  then obtain h4 where h4: "(case if rs = [] then None else Some (hd rs) of
         Some y \<Rightarrow> do { h \<leftarrow> set_backward h3 y (Some x); Some (h, sl_tail s) }
       | None \<Rightarrow> Some (h3, Some x)) = Some (h4, Some (last (x # rs)))" "core h4 = core h2" "lv h4 = lv h2"
       "\<And>c. prev h4 c = (if c = x then Some (if ls = [] then None else Some (last ls))
          else if rs \<noteq> [] \<and> c = hd rs then Some (Some x) else prev (sl_mem s) c)" by auto
  let ?s = "s\<lparr>sl_mem := h4, sl_tail := Some (last (x # rs)), sl_length := sl_length s + 1\<rparr>"
  have "slInsert rnd x score obj sl = Some (?s, rnd')"
    by (simp add: slInsert_def us(1) rnd g(1) h(1,2) h3(1) fx h4(1) Let_def del: last.simps)
  moreover have "sl_shape ?s (ls @ x # rs)"
  proof (rule sl_shapeI)
    show "cells (sl_mem ?s) (hts ?s) (sl_header ?s # ls @ x # rs)"
    proof -
      have "cells h4 (hts ?s) (sl_header s # ls @ x # rs)"
        by (rule insert_cells [OF g(2,6) conjunct1 [OF l] g(3) x'])
          (use xn in \<open>auto simp: h4(2,3) lv2 hts_def hgt_def h(3)\<close>)
      then show ?thesis by simp
    qed
    show "backs (sl_mem ?s) (ls @ x # rs)"
      using backs_insert [OF d(9) _ h4(4)] d(1) xn by simp
    show "node_ok (sl_level ?s) (sl_mem ?s) a" if "a \<in> set (ls @ x # rs)" for a
      using that d(7) l g(3) by (auto simp: node_ok_def h4(2) h(3))
    show "core (sl_mem ?s) a \<noteq> None \<longleftrightarrow> a \<in> set (sl_header ?s # ls @ x # rs)" for a
      using d(4) [of a] by (auto simp: h4(2) h(3))
    show "\<exists>t. lv (sl_mem ?s) (sl_header ?s) i = Some (None, t)" if "sl_level ?s \<le> i" "i < SKIPLIST_MAXLEVEL" for i
      using d(6) [of i] that xn by (auto simp: h4(3) lv2 ins_cell_def)
  qed (use d xn in \<open>auto simp: h4(2) h(3)\<close>)
  ultimately show ?thesis using g(4,5) h(3) h4(2) by auto
qed

section \<open>Deletion\<close>

lemma lower_level_ok:
  "\<forall>i<l. \<exists>c. lv h a i = Some c \<Longrightarrow> 1 \<le> l \<Longrightarrow>
     \<exists>k. lower_level h a l = Some k \<and> 1 \<le> k \<and> k \<le> l \<and> (\<forall>i. k \<le> i \<longrightarrow> i < l \<longrightarrow> (\<exists>s. lv h a i = Some (None, s)))"
proof (induction h a l rule: lower_level.induct)
  case (1 h a l)
  from 1(2) obtain f s where c: "lv h a (Suc l) = Some (f, s)" by (metis lessI surj_pair)
  show ?case
  proof (cases f)
    case None
    have "\<forall>i<Suc l. \<exists>c. lv h a i = Some c" using 1(2) by auto
    with 1(1) c None obtain k where k: "lower_level h a (Suc l) = Some k" "1 \<le> k" "k \<le> Suc l"
      "\<forall>i. k \<le> i \<longrightarrow> i < Suc l \<longrightarrow> (\<exists>s. lv h a i = Some (None, s))" by fastforce
    then show ?thesis using c None by (intro exI [of _ k]) (auto simp: less_Suc_eq)
  qed (use c in auto)
qed auto

definition upds_at :: "'k skiplist \<Rightarrow> addr list \<Rightarrow> addr list \<Rightarrow> (nat \<Rightarrow> nat) \<Rightarrow> bool" where
  "upds_at sl ls us q \<longleftrightarrow> (\<forall>i < sl_level sl. is_upd (hts sl) (sl_header sl # ls) i (us ! i) (q i))"

definition del_cell :: "'k skiplist \<Rightarrow> addr list \<Rightarrow> addr list \<Rightarrow> addr list \<Rightarrow> (nat \<Rightarrow> nat) \<Rightarrow> addr \<Rightarrow> nat \<Rightarrow> sl_cell option" where
  "del_cell sl ls rs us q b i =
     (if i < sl_level sl \<and> b = us ! i
      then Some (fwd (hts sl) i rs, of_nat (length ls - q i + span_len (hts sl) i rs))
      else lv (sl_mem sl) b i)"

lemma del_facts:
  assumes sh: "sl_shape sl (ls @ x # rs)" and us: "upds_at sl ls us q" and i: "i < sl_level sl"
  obtains vs where "sl_header sl # ls = take (q i) (sl_header sl # ls) @ us ! i # vs" "i < hts sl (us ! i)"
    "\<forall>c\<in>set vs. hts sl c \<le> i" "length vs = length ls - q i"
    "lv (sl_mem sl) (us ! i) i = Some (fwd (hts sl) i (x # rs), of_nat (length vs + span_len (hts sl) i (x # rs)))"
    "us ! i \<in> set (sl_header sl # ls)"
proof -
  from us i obtain uss vs where s: "sl_header sl # ls = uss @ us ! i # vs" "i < hts sl (us ! i)"
    "\<forall>c\<in>set vs. hts sl c \<le> i" "q i = length uss" by (auto simp: upds_at_def is_upd_def)
  have e: "sl_header sl # ls @ x # rs = uss @ us ! i # (vs @ x # rs)" using s(1) by (cases uss) auto
  with sl_shapeD(8) [OF sh] have "cells (sl_mem sl) (hts sl) (uss @ us ! i # (vs @ x # rs))" by (simp only:)
  from cellsD [OF this s(2)] fwd_low [OF s(3), of "x # rs"]
  have "lv (sl_mem sl) (us ! i) i = Some (fwd (hts sl) i (x # rs), of_nat (length vs + span_len (hts sl) i (x # rs)))"
    by simp
  moreover have "length ls = length uss + length vs" using arg_cong [OF s(1), of length] by simp
  moreover have "us ! i \<in> set (sl_header sl # ls)" unfolding s(1) by simp
  moreover have "take (q i) (sl_header sl # ls) = uss" unfolding s(1,4) by simp
  ultimately show ?thesis using that [of vs] s by simp
qed

lemma unlink_loop:
  assumes sh: "sl_shape sl (ls @ x # rs)" and us: "upds_at sl ls us q"
  shows "\<exists>h'. c_for [0..<sl_level sl] (unlink_level x us) (sl_mem sl) = Some h' \<and> core h' = core (sl_mem sl) \<and>
    prev h' = prev (sl_mem sl) \<and> (\<forall>b i. lv h' b i = del_cell sl ls rs us q b i)"
proof -
  let ?h = "sl_mem sl"
  note d = sl_shapeD [OF sh]
  define I where "I k h' \<longleftrightarrow> core h' = core ?h \<and> prev h' = prev ?h \<and>
    (\<forall>b i. lv h' b i = (if i < k then del_cell sl ls rs us q b i else lv ?h b i))" for k and h' :: "'a sl_heap"
  have "\<exists>h'. c_for [0..<sl_level sl] (unlink_level x us) ?h = Some h' \<and> I (sl_level sl) h'"
  proof (rule c_for_upt)
    show "I 0 ?h" by (simp add: I_def)
  next
    fix i h'
    assume i: "i < sl_level sl" and I: "I i h'"
    from del_facts [OF sh us i] obtain vs :: "addr list" where v: "length vs = length ls - q i"
      "lv ?h (us ! i) i = Some (fwd (hts sl) i (x # rs), of_nat (length vs + span_len (hts sl) i (x # rs)))"
      "us ! i \<in> set (sl_header sl # ls)" by metis
    have lu: "lv h' (us ! i) i = Some (fwd (hts sl) i (x # rs), of_nat (length vs + span_len (hts sl) i (x # rs)))"
      using I v(2) by (simp add: I_def)
    let ?c = "(fwd (hts sl) i rs, of_nat (length ls - q i + span_len (hts sl) i rs)) :: sl_cell"
    obtain ob t m where "core h' (us ! i) = Some (ob, t, m)" "i < m" using lv_core [OF lu] by blast
    from lv_set_ok [OF this, of ?c] obtain h2 where h2: "lv_set h' (us ! i) i ?c = Some h2" "core h2 = core h'"
      "prev h2 = prev h'" "\<forall>b j. lv h2 b j = (if b = us ! i \<and> j = i then Some ?c else lv h' b j)" by blast
    have "unlink_level x us i h' = lv_set h' (us ! i) i ?c"
    proof (cases "hts sl x \<le> i")
      case True
      have "fwd (hts sl) i rs \<noteq> Some x" using fwd_in [of "hts sl" i rs x] d(1) by auto
      then show ?thesis using True v(1) by (simp add: unlink_level_def lu sl_simps)
    next
      case False
      have "cells ?h (hts sl) ((sl_header sl # ls) @ x # rs)" using d(8) by simp
      from cellsD [OF this, of i] False
      have "lv h' x i = Some (fwd (hts sl) i rs, of_nat (span_len (hts sl) i rs))" using I by (simp add: I_def)
      then show ?thesis using False v(1) by (simp add: unlink_level_def lu sl_simps)
    qed
    moreover have "I (Suc i) h2" unfolding I_def using I h2(2-4) i by (auto simp: I_def del_cell_def less_Suc_eq)
    ultimately show "\<exists>h''. unlink_level x us i h' = Some h'' \<and> I (Suc i) h''" using h2(1) by auto
  qed simp
  then show ?thesis by (auto simp: I_def del_cell_def)
qed

lemma delete_cells:
  assumes sh: "sl_shape sl (ls @ x # rs)" and us: "upds_at sl ls us q"
    and lv: "\<And>b i. b \<noteq> x \<Longrightarrow> lv h b i = del_cell sl ls rs us q b i"
    and T: "\<And>a. a \<in> set (ls @ rs) \<Longrightarrow> T a = hts sl a" "T (sl_header sl) \<le> sl_level sl"
  shows "cells h T (sl_header sl # ls @ rs)"
  unfolding cells_def
proof (intro allI impI)
  fix zs a ys i
  assume s: "sl_header sl # ls @ rs = zs @ a # ys" and i: "i < T a"
  note d = sl_shapeD [OF sh]
  have ys: "set ys \<subseteq> set (ls @ rs)" "a \<in> set (sl_header sl # ls @ rs)" using s by (cases zs; auto)+
  then have fT: "fwd T i ys = fwd (hts sl) i ys" "span_len T i ys = span_len (hts sl) i ys"
    using T(1) by (auto intro!: fwd_cong)
  have ax: "a \<noteq> x" using ys(2) d(1) by auto
  have i': "i < hts sl a"
  proof (cases "a = sl_header sl")
    case True
    then show ?thesis using i T(2) by simp
  next
    case False
    then show ?thesis using i T(1) ys(2) by auto
  qed
  have il: "i < sl_level sl"
  proof (cases "a = sl_header sl")
    case False
    then have "a \<in> set (ls @ x # rs)" using ys(2) by auto
    from hts_node [OF sh this] i' show ?thesis by simp
  qed (use i' in simp)
  from del_facts [OF sh us il] obtain ws where w: "sl_header sl # ls = take (q i) (sl_header sl # ls) @ us ! i # ws"
    "i < hts sl (us ! i)" "\<forall>c\<in>set ws. hts sl c \<le> i" "length ws = length ls - q i" "us ! i \<in> set (sl_header sl # ls)" by metis
  from s consider (l) vs where "sl_header sl # ls = zs @ a # vs" "ys = vs @ rs"
    | (r) us' where "zs = (sl_header sl # ls) @ us'" "rs = us' @ a # ys"
    by (force simp: append_eq_append_conv2 Cons_eq_append_conv append_eq_Cons_conv)
  then show "lv h a i = Some (fwd T i ys, of_nat (span_len T i ys))"
  proof cases
    case r
    then have "a \<noteq> us ! i" using w(5) d(1) by auto
    moreover have "cells (sl_mem sl) (hts sl) ((sl_header sl # ls @ x # us') @ a # ys)" using d(8) r(2) by simp
    from cellsD [OF this i'] have "lv (sl_mem sl) a i = Some (fwd (hts sl) i ys, of_nat (span_len (hts sl) i ys))" .
    ultimately show ?thesis by (simp add: lv [OF ax] del_cell_def fT)
  next
    case l
    have u: "is_upd (hts sl) (sl_header sl # ls) i (us ! i) (q i)" using us il by (simp add: upds_at_def)
    have "distinct (sl_header sl # ls)" using d(1) by simp
    note un = is_upd_unique [OF u this l(1) i']
    show ?thesis
    proof (cases "a = us ! i")
      case True
      then have "\<forall>c\<in>set vs. hts sl c \<le> i" using un by simp
      moreover have "vs = ws" using l(1) w(1) True \<open>distinct (sl_header sl # ls)\<close>
        by (auto simp: append_eq_append_conv2 append_eq_Cons_conv Cons_eq_append_conv)
      ultimately show ?thesis using True il w(4) fwd_low [of ws "hts sl" i rs]
        unfolding lv [OF ax] fT by (simp add: del_cell_def l(2))
    next
      case False
      then have hi: "\<exists>c\<in>set vs. i < hts sl c" using un by (meson not_le)
      have "sl_header sl # ls @ x # rs = zs @ a # (vs @ x # rs)" using l(1) by (cases zs) auto
      with d(8) have "cells (sl_mem sl) (hts sl) (zs @ a # (vs @ x # rs))" by (simp only:)
      from cellsD [OF this i'] fwd_high [OF hi, of "x # rs" rs] False show ?thesis
        unfolding lv [OF ax] fT by (simp add: del_cell_def l(2))
    qed
  qed
qed


lemma backs_delete:
  assumes "backs h (ls @ x # rs)" "distinct (ls @ x # rs)"
    and p: "\<And>b. b \<noteq> x \<Longrightarrow> prev h' b = (if rs \<noteq> [] \<and> b = hd rs then prev h x else prev h b)"
  shows "backs h' (ls @ rs)"
  unfolding backs_def
proof (intro allI impI)
  fix us a ys
  assume s: "ls @ rs = us @ a # ys"
  have "a \<in> set (ls @ rs)" unfolding s by simp
  then have ax: "a \<noteq> x" using assms(2) by auto
  have px: "prev h x = Some (if ls = [] then None else Some (last ls))" using backsD [OF assms(1) refl] .
  from s consider (l) vs where "ls = us @ a # vs" | (r) ws where "us = ls @ ws" "rs = ws @ a # ys"
    by (auto simp: append_eq_append_conv2 Cons_eq_append_conv append_eq_Cons_conv)
  then show "prev h' a = Some (if us = [] then None else Some (last us))"
  proof cases
    case l
    then have "\<not> (rs \<noteq> [] \<and> a = hd rs)" using assms(2) by (auto dest: hd_in_set)
    moreover have e: "ls @ x # rs = us @ a # (vs @ x # rs)" using l by simp
    ultimately show ?thesis using backsD [OF assms(1) e] by (auto simp: p [OF ax])
  next
    case r
    show ?thesis
    proof (cases ws)
      case Nil
      then show ?thesis using r px by (simp add: p [OF ax])
    next
      case (Cons w ws')
      then have "a \<noteq> hd rs" using assms(2) r(2) by auto
      moreover have e: "ls @ x # rs = (ls @ x # ws) @ a # ys" using r(2) by simp
      have "prev h a = Some (Some (last ws))" using backsD [OF assms(1) e] Cons by simp
      ultimately show ?thesis using r Cons by (simp add: p [OF ax])
    qed
  qed
qed

text \<open>
  \<open>slDeleteNode\<close> followed by \<open>slFreeNode\<close>: the node is taken out. The update array stays valid for
  further deletions behind the same prefix.
\<close>

lemma slDeleteNode_shape:
  assumes sh: "sl_shape sl (ls @ x # rs)" and us: "upds_at sl ls us q"
  shows "\<exists>sl1 sl2. slDeleteNode x us sl = Some sl1 \<and> core (sl_mem sl1) = core (sl_mem sl) \<and>
    slFreeNode x sl1 = Some sl2 \<and> sl_shape sl2 (ls @ rs) \<and> sl_header sl2 = sl_header sl \<and>
    core (sl_mem sl2) = (core (sl_mem sl))(x := None) \<and> upds_at sl2 ls us q"
proof -
  note d = sl_shapeD [OF sh]
  let ?p = "sl_header sl" and ?l = "sl_level sl"
  from unlink_loop [OF sh us] obtain h where h: "c_for [0..<?l] (unlink_level x us) (sl_mem sl) = Some h"
    "core h = core (sl_mem sl)" "prev h = prev (sl_mem sl)" "\<And>b i. lv h b i = del_cell sl ls rs us q b i" by blast
  have xn: "x \<noteq> ?p" "x \<notin> set (ls @ rs)" using d(1) by auto
  have hx: "1 \<le> hts sl x" using hts_node [OF sh, of x] by simp
  obtain ob t m where cx: "core h x = Some (Some ob, t, m)" using d(7) by (auto simp: h(2) node_ok_def)
  then obtain n where n: "h x = Some n" "sn_obj n = Some ob" by (auto simp: core_def)
  let ?q = "if ls = [] then None else Some (last ls)"
  have px: "sn_backward n = ?q"
  proof -
    have "prev h x = Some ?q" unfolding h(3) by (rule backsD [OF d(9) refl])
    then show ?thesis by (simp add: prev_def n(1))
  qed
  have "x \<noteq> us ! i" if "i < ?l" for i
    using del_facts [OF sh us that] xn by (metis UnCI set_ConsD set_append)
  moreover have "cells (sl_mem sl) (hts sl) ((?p # ls) @ x # rs)" using d(8) by simp
  note cellsD [OF this, of 0]
  ultimately have "lv h x 0 = Some (fwd (hts sl) 0 rs, of_nat (span_len (hts sl) 0 rs))"
    using hx by (auto simp: h(4) del_cell_def)
  moreover have "\<forall>a\<in>set rs. 1 \<le> hts sl a" using hts_node [OF sh] by (metis Un_iff list.set_intros(2) set_append)
  ultimately have fx: "lv h x 0 = Some (if rs = [] then None else Some (hd rs), of_nat (span_len (hts sl) 0 rs))"
    by (simp add: fwd_0)
  have "\<exists>h2. (case if rs = [] then None else Some (hd rs) of
         Some y \<Rightarrow> do { h \<leftarrow> set_backward h y ?q; Some (h, sl_tail sl) }
       | None \<Rightarrow> Some (h, ?q)) = Some (h2, if ls @ rs = [] then None else Some (last (ls @ rs))) \<and>
       core h2 = core h \<and> lv h2 = lv h \<and>
       (\<forall>b. prev h2 b = (if rs \<noteq> [] \<and> b = hd rs then Some ?q else prev (sl_mem sl) b))"
  proof (cases "rs = []")
    case True
    then show ?thesis using h(3) by (intro exI [of _ h]) auto
  next
    case False
    then have "hd rs \<in> set (?p # ls @ x # rs)" by simp
    then have "core h (hd rs) \<noteq> None" using d(4) [of "hd rs"] h(2) by simp
    from set_backward_ok [OF this, of ?q] obtain h2 where "set_backward h (hd rs) ?q = Some h2"
      "core h2 = core h" "lv h2 = lv h" "\<And>c. prev h2 c = (if c = hd rs then Some ?q else prev h c)" by blast
    then show ?thesis using False d(10) h(3) by (intro exI [of _ h2]) auto
  qed
  then obtain h2 where h2: "(case if rs = [] then None else Some (hd rs) of
         Some y \<Rightarrow> do { h \<leftarrow> set_backward h y ?q; Some (h, sl_tail sl) }
       | None \<Rightarrow> Some (h, ?q)) = Some (h2, if ls @ rs = [] then None else Some (last (ls @ rs)))"
       "core h2 = core h" "lv h2 = lv h"
       "\<And>b. prev h2 b = (if rs \<noteq> [] \<and> b = hd rs then Some ?q else prev (sl_mem sl) b)" by blast
  have C: "cells (h2(x := None)) T (?p # ls @ rs)"
    if "\<And>a. a \<in> set (ls @ rs) \<Longrightarrow> T a = hts sl a" "T ?p \<le> ?l" for T
    by (rule delete_cells [OF sh us _ that]) (simp_all add: free_node_views h2(3) h(4))
  have full: "cells (h2(x := None)) (hts sl) (?p # ls @ rs)" by (rule C) simp_all
  have hd_lv: "lv h2 ?p i = Some (fwd (hts sl) i (ls @ rs), of_nat (span_len (hts sl) i (ls @ rs)))" if "i < ?l" for i
    using cellsD [of _ _ "[]", simplified, OF full] that xn(1) by (auto simp: free_node_views)
  then have "\<forall>i<?l. \<exists>c. lv h2 ?p i = Some c" by blast
  from lower_level_ok [OF this d(2)] obtain k where k: "lower_level h2 ?p ?l = Some k" "1 \<le> k" "k \<le> ?l"
    "\<forall>i. k \<le> i \<longrightarrow> i < ?l \<longrightarrow> (\<exists>s. lv h2 ?p i = Some (None, s))" by blast
  let ?t = "if ls @ rs = [] then None else Some (last (ls @ rs))"
  let ?s1 = "sl\<lparr>sl_mem := h2, sl_tail := ?t, sl_level := k, sl_length := sl_length sl - 1\<rparr>"
  let ?s2 = "?s1\<lparr>sl_mem := h2(x := None)\<rparr>"
  have "slDeleteNode x us sl = Some ?s1"
    by (simp only: slDeleteNode_def h(1) n(1) fx px h2(1) k(1) Option.bind.simps prod.case)
  moreover have "core h2 x = Some (Some ob, t, m)" using cx h2(2) by simp
  then obtain n2 where "h2 x = Some n2" "sn_obj n2 \<noteq> None" by (auto simp: core_def)
  then have "slFreeNode x ?s1 = Some ?s2" by (auto simp: slFreeNode_def)
  moreover have T: "hts ?s2 a = hts sl a" if "a \<in> set (ls @ rs)" for a
    using that xn(2) d(1) by (auto simp: hts_def hgt_def free_node_views h2(2) h(2))
  have low: "hts sl a \<le> k" if "a \<in> set (ls @ rs)" for a
  proof (rule ccontr)
    assume "\<not> hts sl a \<le> k"
    then have "k < hts sl a" by simp
    moreover have "hts sl a \<le> ?l" using hts_node [OF sh, of a] that by auto
    ultimately have "k < ?l" by simp
    with k(4) hd_lv have "fwd (hts sl) k (ls @ rs) = None" by force
    with that \<open>k < hts sl a\<close> show False unfolding fwd_None_iff by (meson not_le)
  qed
  moreover have "sl_shape ?s2 (ls @ rs)"
  proof (rule sl_shapeI)
    show "cells (sl_mem ?s2) (hts ?s2) (sl_header ?s2 # ls @ rs)"
      using C [of "hts ?s2"] T k(3) by (simp add: hts_def)
    show "backs (sl_mem ?s2) (ls @ rs)"
      using backs_delete [OF d(9), of "h2(x := None)"] backsD [OF d(9) refl] d(1)
      by (simp add: free_node_views h2(4))
    show "node_ok (sl_level ?s2) (sl_mem ?s2) a" if "a \<in> set (ls @ rs)" for a
    proof -
      have "node_ok ?l (sl_mem sl) a" using d(7) that by auto
      moreover have "a \<noteq> ?p" "a \<noteq> x" using that d(1) by auto
      ultimately show ?thesis using low [OF that]
        by (auto simp: node_ok_def hts_def hgt_def free_node_views h2(2) h(2))
    qed
    show "core (sl_mem ?s2) a \<noteq> None \<longleftrightarrow> a \<in> set (sl_header ?s2 # ls @ rs)" for a
      using d(4) [of a] xn by (auto simp: free_node_views h2(2) h(2))
    show "\<exists>s. lv (sl_mem ?s2) (sl_header ?s2) i = Some (None, s)" if "sl_level ?s2 \<le> i" "i < SKIPLIST_MAXLEVEL" for i
      using that k(4) d(6) [of i] xn(1) del_facts [OF sh us]
      by (cases "i < ?l") (auto simp: free_node_views h2(3) h(4) del_cell_def)
  qed (use d k xn in \<open>auto simp: free_node_views h2(2) h(2)\<close>)
  moreover have "upds_at ?s2 ls us q"
    unfolding upds_at_def
  proof (intro allI impI)
    fix i
    assume i: "i < sl_level ?s2"
    then have "is_upd (hts sl) (?p # ls) i (us ! i) (q i)" using us k(3) by (simp add: upds_at_def)
    from is_upd_cong [OF this, of "hts ?s2"] T i show "is_upd (hts ?s2) (sl_header ?s2 # ls) i (us ! i) (q i)"
      by (simp add: hts_def)
  qed
  ultimately show ?thesis
    by (intro exI [of _ ?s1] exI [of _ ?s2]) (simp add: free_node_views h2(2) h(2))
qed

end
