(* ===== verification/Zset_Proofs.thy ===== *)
theory Zset_Proofs
  imports Zset_Update
begin

text \<open>
  What the operations of the skip list do to the sorted list of (score, object) pairs that it
  stands for: insertion, deletion, deletion by rank, ranks, ranges, destruction. The locale at
  the end states the contract of a sorted bag and what any sequence of operations does.
\<close>

section \<open>The order of objects\<close>

lemma memcmp_order:
  "(memcmp a b (min (length a) (length b)) < 0 \<or> memcmp a b (min (length a) (length b)) = 0 \<and> length a < length b \<longleftrightarrow> a < b) \<and>
   (memcmp a b (min (length a) (length b)) = 0 \<and> length a = length b \<longleftrightarrow> a = b)"
proof (induction a arbitrary: b)
  case Nil
  then show ?case by (cases b) auto
next
  case (Cons x a)
  show ?case
  proof (cases b)
    case (Cons y b')
    then show ?thesis using Cons.IH [of b'] by auto
  qed auto
qed

lemma compareslObj_order:
  assumes "length a < 2 ^ 31" "length b < 2 ^ 31"
  shows "compareslObj a b < 0 \<longleftrightarrow> a < b" "compareslObj a b = 0 \<longleftrightarrow> a = b" "compareslObj a b \<le> 0 \<longleftrightarrow> a \<le> b"
proof -
  have "to_int32 (int (length a) - int (length b)) = int (length a) - int (length b)"
    using assms by (intro to_int32_id) (simp_all add: INT_MIN_def INT_MAX_def)
  then have c: "compareslObj a b = (let c = memcmp a b (min (length a) (length b)) in
      if c = 0 then int (length a) - int (length b) else c)"
    by (simp add: compareslObj_def min_def Let_def)
  show lt: "compareslObj a b < 0 \<longleftrightarrow> a < b" and eq: "compareslObj a b = 0 \<longleftrightarrow> a = b"
    using memcmp_order [of a b] by (auto simp: c Let_def)
  show "compareslObj a b \<le> 0 \<longleftrightarrow> a \<le> b" using lt eq by (auto simp: le_less)
qed

section \<open>Abstraction\<close>

definition key :: "'k sl_heap \<Rightarrow> addr \<Rightarrow> 'k \<times> slobj" where
  "key h a = (case core h a of Some (Some ob, s, n) \<Rightarrow> (s, ob) | _ \<Rightarrow> undefined)"

definition small :: "('k \<times> slobj) list \<Rightarrow> bool" where
  "small es \<longleftrightarrow> (\<forall>e\<in>set es. length (snd e) < 2 ^ 31) \<and> length es < 2 ^ 32"

definition sl_rep :: "'k::linorder skiplist \<Rightarrow> addr list \<Rightarrow> ('k \<times> slobj) list \<Rightarrow> bool" where
  "sl_rep sl xs es \<longleftrightarrow> sl_shape sl xs \<and> es = map (key (sl_mem sl)) xs \<and> sorted es \<and> small es"

lemma node_key:
  assumes "node_ok l h y" "key h y = (s, ob)"
  shows "\<exists>n. h y = Some n \<and> sn_obj n = Some ob \<and> sn_score n = s"
  using assms by (auto simp: node_ok_def key_def core_def)

lemma key_before_ok:
  assumes "node_ok l h y" "length (snd (key h y)) < 2 ^ 31" "length obj < 2 ^ 31"
  shows "key_before h score obj y = Some (key h y < (score, obj))"
    and "key_upto h score obj y = Some (key h y \<le> (score, obj))"
proof -
  obtain s ob where k: "key h y = (s, ob)" by fastforce
  obtain n where n: "h y = Some n" "sn_obj n = Some ob" "sn_score n = s" using node_key [OF assms(1) k] by blast
  have l: "length ob < 2 ^ 31" using assms(2) k by simp
  note c = compareslObj_order [OF l assms(3)]
  show "key_before h score obj y = Some (key h y < (score, obj))"
    by (auto simp: key_before_def n k c)
  show "key_upto h score obj y = Some (key h y \<le> (score, obj))"
    by (auto simp: key_upto_def n k c)
qed

section \<open>Prefixes of a sorted list\<close>

lemma prefix_condI:
  assumes "\<And>j. j < length ls \<Longrightarrow> cond (ls ! j) (of_nat (Suc j)) = Some True"
    "\<And>j. j < length rs \<Longrightarrow> cond (rs ! j) (of_nat (Suc (length ls + j))) = Some False"
  shows "prefix_cond cond (p # ls) rs"
  unfolding prefix_cond_def
proof (intro allI impI)
  fix us y ys
  assume s: "(p # ls) @ rs = us @ y # ys" and u: "us \<noteq> []"
  then obtain j where j: "length us = Suc j" by (cases us) auto
  have y: "y = (ls @ rs) ! j" "j < length (ls @ rs)"
  proof -
    have "((p # ls) @ rs) ! length us = y" unfolding s by simp
    then show "y = (ls @ rs) ! j" using j by simp
    show "j < length (ls @ rs)" using arg_cong [OF s, of length] j by simp
  qed
  show "cond y (of_nat (length us)) = Some (length us < length (p # ls))"
  proof (cases "j < length ls")
    case True
    then show ?thesis using assms(1) [OF True] y j by (simp add: nth_append)
  next
    case False
    then have "j - length ls < length rs" "length ls + (j - length ls) = j" using y(2) by auto
    with assms(2) [of "j - length ls"] False y(1) j show ?thesis by (simp add: nth_append)
  qed
qed

lemma sorted_dropWhile:
  fixes f :: "'b \<Rightarrow> 'c::linorder"
  assumes "sorted (map f xs)" "y \<in> set (dropWhile (\<lambda>a. f a < k) xs)"
  shows "k \<le> f y"
  using assms
proof (induction xs)
  case (Cons x xs)
  show ?case
  proof (cases "f x < k")
    case False
    then show ?thesis using Cons.prems by fastforce
  qed (use Cons in simp)
qed simp

lemma sorted_dropWhile_le:
  fixes f :: "'b \<Rightarrow> 'c::linorder"
  assumes "sorted (map f xs)" "y \<in> set (dropWhile (\<lambda>a. f a \<le> k) xs)"
  shows "k < f y"
  using assms
proof (induction xs)
  case (Cons x xs)
  show ?case
  proof (cases "f x \<le> k")
    case False
    then show ?thesis using Cons.prems by fastforce
  qed (use Cons in simp)
qed simp

lemma insort_split: "insort k es = takeWhile (\<lambda>e. e < k) es @ k # dropWhile (\<lambda>e. e < k) es"
  by (induction es) auto

lemma rep_parts:
  assumes "sl_rep sl xs es"
  shows "sl_shape sl xs" "es = map (key (sl_mem sl)) xs" "sorted es" "length xs < 2 ^ 32"
    "y \<in> set xs \<Longrightarrow> node_ok (sl_level sl) (sl_mem sl) y"
    "y \<in> set xs \<Longrightarrow> length (snd (key (sl_mem sl) y)) < 2 ^ 31"
  using assms sl_shapeD(7) [of sl xs] by (auto simp: sl_rep_def small_def)

lemma prefix_takeWhile:
  assumes "\<And>y acc. y \<in> set xs \<Longrightarrow> cond y acc = Some (Q y)" "\<And>y. y \<in> set (dropWhile Q xs) \<Longrightarrow> \<not> Q y"
  shows "prefix_cond cond (p # takeWhile Q xs) (dropWhile Q xs)"
proof (rule prefix_condI)
  show "cond (takeWhile Q xs ! j) (of_nat (Suc j)) = Some True" if "j < length (takeWhile Q xs)" for j
    using set_takeWhileD [OF nth_mem [OF that]] assms(1) by simp
  show "cond (dropWhile Q xs ! j) (of_nat (Suc (length (takeWhile Q xs) + j))) = Some False"
    if "j < length (dropWhile Q xs)" for j
    using nth_mem [OF that] assms(1,2) set_dropWhileD by metis
qed

lemma prefix_before:
  assumes r: "sl_rep sl xs es" and o: "length obj < 2 ^ 31"
  shows "prefix_cond (\<lambda>y (_ :: 'a::len word). key_before (sl_mem sl) score obj y)
    (p # takeWhile (\<lambda>a. key (sl_mem sl) a < (score, obj)) xs) (dropWhile (\<lambda>a. key (sl_mem sl) a < (score, obj)) xs)"
proof (rule prefix_takeWhile)
  show "key_before (sl_mem sl) score obj y = Some (key (sl_mem sl) y < (score, obj))" if "y \<in> set xs" for y
    using rep_parts(5,6) [OF r that] o by (rule key_before_ok)
qed (use sorted_dropWhile [of "key (sl_mem sl)" xs] rep_parts(2,3) [OF r] in \<open>simp add: not_less\<close>)

lemma prefix_upto:
  assumes r: "sl_rep sl xs es" and o: "length obj < 2 ^ 31"
  shows "prefix_cond (\<lambda>y (_ :: 'a::len word). key_upto (sl_mem sl) score obj y)
    (p # takeWhile (\<lambda>a. key (sl_mem sl) a \<le> (score, obj)) xs) (dropWhile (\<lambda>a. key (sl_mem sl) a \<le> (score, obj)) xs)"
proof (rule prefix_takeWhile)
  show "key_upto (sl_mem sl) score obj y = Some (key (sl_mem sl) y \<le> (score, obj))" if "y \<in> set xs" for y
    using rep_parts(5,6) [OF r that] o by (rule key_before_ok)
qed (use sorted_dropWhile_le [of "key (sl_mem sl)" xs] rep_parts(2,3) [OF r] in \<open>simp add: not_le\<close>)

section \<open>Insertion and deletion\<close>

lemma search_shape:
  fixes cond :: "addr \<Rightarrow> 'a::len word \<Rightarrow> bool option"
  assumes "sl_shape sl (ls @ rs)" "length (ls @ rs) < 2 ^ 32" "prefix_cond cond (sl_header sl # ls) rs"
  shows "\<exists>us. sl_search (sl_mem sl) cond (sl_level sl) (sl_header sl) 0
      = Some (us, last (sl_header sl # ls), of_nat (length ls)) \<and> ups_ok sl ls us"
proof -
  note d = sl_shapeD [OF assms(1)]
  have "cells (sl_mem sl) (hts sl) ((sl_header sl # ls) @ rs)" using d(8) by simp
  from search_spec [OF this _ assms(3), of "[]" "sl_header sl" ls "sl_level sl"] assms(2)
  obtain us x r where u: "sl_search (sl_mem sl) cond (sl_level sl) (sl_header sl) 0 = Some (us, x, of_nat r)"
    "ups_ok sl ls us" "is_upd (hts sl) (sl_header sl # ls) 0 x r" using d(2) by (auto simp: ups_ok_def)
  have "\<forall>b\<in>set (tl (sl_header sl # ls)). 1 \<le> hts sl b" using hts_node [OF assms(1)] by (metis Un_iff list.sel(3) set_append)
  from is_upd_0 [OF u(3) this] u show ?thesis by simp
qed

lemma ups_upds: "ups_ok sl ls us \<Longrightarrow> \<exists>q. upds_at sl ls (map fst us) q"
proof -
  assume u: "ups_ok sl ls us"
  have "\<forall>i. \<exists>q. i < sl_level sl \<longrightarrow> is_upd (hts sl) (sl_header sl # ls) i (map fst us ! i) q"
  proof
    fix i
    show "\<exists>q. i < sl_level sl \<longrightarrow> is_upd (hts sl) (sl_header sl # ls) i (map fst us ! i) q"
      using u by (cases "i < sl_level sl") (fastforce simp: ups_ok_def)+
  qed
  from choice [OF this] show ?thesis by (auto simp: upds_at_def)
qed

lemma next_of_prefix:
  assumes "sl_shape sl (ls @ rs)"
  shows "\<exists>s. lv (sl_mem sl) (last (sl_header sl # ls)) 0 = Some (if rs = [] then None else Some (hd rs), s)"
proof -
  note d = sl_shapeD [OF assms]
  have "sl_header sl # ls @ rs = butlast (sl_header sl # ls) @ last (sl_header sl # ls) # rs"
    using append_butlast_last_id [of "sl_header sl # ls"] by (metis append.assoc append_Cons append_Nil list.distinct(1))
  with d(8) have "cells (sl_mem sl) (hts sl) (butlast (sl_header sl # ls) @ last (sl_header sl # ls) # rs)" by (simp only:)
  note c = cellsD [OF this, of 0]
  have "0 < hts sl (last (sl_header sl # ls))"
  proof (cases "ls = []")
    case False
    then have "last ls \<in> set (ls @ rs)" by simp
    from hts_node [OF assms this] False show ?thesis by simp
  qed (use d(2) in simp)
  moreover have "\<forall>a\<in>set rs. 1 \<le> hts sl a" using hts_node [OF assms] by (metis Un_iff set_append)
  ultimately show ?thesis using c by (simp add: fwd_0)
qed

lemma key_cong: "core h' a = core h a \<Longrightarrow> key h' a = key h a"
  by (simp add: key_def)

lemma slInsert_rep:
  assumes r: "sl_rep sl xs es" and o: "length obj < 2 ^ 31" and n: "length es < 2 ^ 32 - 1"
    and rnd: "slRandomLevel rnd = Some (level, rnd')" and x: "sl_mem sl x = None"
  shows "\<exists>sl' xs'. slInsert rnd x score obj sl = Some (sl', rnd') \<and> sl_rep sl' xs' (insort (score, obj) es) \<and>
    set xs' = insert x (set xs) \<and> sl_header sl' = sl_header sl"
proof -
  define ls where "ls = takeWhile (\<lambda>a. key (sl_mem sl) a < (score, obj)) xs"
  define rs where "rs = dropWhile (\<lambda>a. key (sl_mem sl) a < (score, obj)) xs"
  have xs: "xs = ls @ rs" by (simp add: ls_def rs_def)
  note p = rep_parts [OF r]
  have sh: "sl_shape sl (ls @ rs)" using p(1) xs by simp
  have len: "length (ls @ rs) < 2 ^ 32 - 1" using n p(2) xs by simp
  have x': "core (sl_mem sl) x = None" using x by (simp add: core_None)
  from slInsert_shape [OF sh len prefix_before [OF r o, of score, folded ls_def rs_def] rnd x'] obtain sl' where
    i: "slInsert rnd x score obj sl = Some (sl', rnd')" "sl_shape sl' (ls @ x # rs)"
      "sl_header sl' = sl_header sl" "core (sl_mem sl') = (core (sl_mem sl))(x \<mapsto> (Some obj, score, level))" by blast
  have xn: "x \<notin> set xs" using sl_shapeD(4) [OF p(1), of x] x' by simp
  have k: "map (key (sl_mem sl')) ys = map (key (sl_mem sl)) ys" if "set ys \<subseteq> set xs" for ys
    using that xn i(4) by (auto intro!: key_cong)
  have kx: "key (sl_mem sl') x = (score, obj)" by (simp add: key_def i(4))
  have tw: "takeWhile (\<lambda>e. e < (score, obj)) es = map (key (sl_mem sl)) ls"
      "dropWhile (\<lambda>e. e < (score, obj)) es = map (key (sl_mem sl)) rs"
    unfolding p(2) ls_def rs_def by (simp_all add: takeWhile_map dropWhile_map o_def)
  have "set ls \<subseteq> set xs" "set rs \<subseteq> set xs" using xs by auto
  then have "map (key (sl_mem sl')) (ls @ x # rs) = insort (score, obj) es"
    unfolding insort_split tw using k kx by simp
  moreover have "small (insort (score, obj) es)" using r o n by (auto simp: sl_rep_def small_def set_insort_key)
  ultimately have "sl_rep sl' (ls @ x # rs) (insort (score, obj) es)"
    using i(2) p(3) by (simp add: sl_rep_def sorted_insort)
  then show ?thesis using i xs by (intro exI [of _ sl'] exI [of _ "ls @ x # rs"]) auto
qed

lemma slDelete_rep:
  assumes r: "sl_rep sl xs es" and o: "length obj < 2 ^ 31"
  shows "\<exists>sl' xs'. slDelete score obj sl = Some ((score, obj) \<in> set es, sl') \<and> sl_rep sl' xs' (remove1 (score, obj) es) \<and>
    set xs' \<subseteq> set xs \<and> sl_header sl' = sl_header sl"
proof -
  define ls where "ls = takeWhile (\<lambda>a. key (sl_mem sl) a < (score, obj)) xs"
  define rs where "rs = dropWhile (\<lambda>a. key (sl_mem sl) a < (score, obj)) xs"
  have xs: "xs = ls @ rs" by (simp add: ls_def rs_def)
  note p = rep_parts [OF r]
  have sh: "sl_shape sl (ls @ rs)" using p(1) xs by simp
  have len: "length (ls @ rs) < 2 ^ 32" using p(4) xs by simp
  have cond: "prefix_cond (\<lambda>y (_ :: u32). key_before (sl_mem sl) score obj y) (sl_header sl # ls) rs"
    by (rule prefix_before [OF r o, of score, folded ls_def rs_def])
  from search_shape [OF sh len cond]
  obtain us where us: "sl_search (sl_mem sl) (\<lambda>y (_ :: u32). key_before (sl_mem sl) score obj y) (sl_level sl) (sl_header sl) 0
      = Some (us, last (sl_header sl # ls), of_nat (length ls))" "ups_ok sl ls us" by blast
  from next_of_prefix [OF sh] obtain t where
    nx: "lv (sl_mem sl) (last (sl_header sl # ls)) 0 = Some (if rs = [] then None else Some (hd rs), t)" by blast
  have nls: "(score, obj) \<notin> set (map (key (sl_mem sl)) ls)" by (auto simp: ls_def dest: set_takeWhileD)
  show ?thesis
  proof (cases rs)
    case Nil
    then have "(score, obj) \<notin> set es" using nls p(2) xs by simp
    moreover have "slDelete score obj sl = Some (False, sl)" using Nil nx us(1) by (simp add: slDelete_def)
    ultimately show ?thesis using r by (auto simp: remove1_idem)
  next
    case (Cons x rs')
    obtain s ob where kx: "key (sl_mem sl) x = (s, ob)" by fastforce
    have xm: "x \<in> set xs" using xs Cons by simp
    from node_key [OF p(5) [OF xm] kx] obtain m where m: "sl_mem sl x = Some m" "sn_obj m = Some ob" "sn_score m = s" by blast
    have lo: "length ob < 2 ^ 31" using p(6) [OF xm] kx by simp
    have nx': "lv (sl_mem sl) (last (sl_header sl # ls)) 0 = Some (Some x, t)" using nx Cons by simp
    have eq: "(if score = sn_score m then map_option (\<lambda>ob. equalslObj ob obj) (sn_obj m) else Some False)
        = Some (key (sl_mem sl) x = (score, obj))"
      using kx m by (auto simp: equalslObj_def compareslObj_order(2) [OF lo o])
    show ?thesis
    proof (cases "key (sl_mem sl) x = (score, obj)")
      case False
      have "k \<noteq> (score, obj)" if "k \<in> set (map (key (sl_mem sl)) rs)" for k
      proof -
        have "(score, obj) \<le> key (sl_mem sl) x"
          using sorted_dropWhile [of "key (sl_mem sl)" xs x] p(2,3) Cons rs_def by (metis list.set_intros(1))
        moreover have "sorted (map (key (sl_mem sl)) rs)" using p(2,3) xs by (simp add: sorted_append)
        ultimately show ?thesis using that False Cons by (auto simp: less_le_not_le)
      qed
      then have "(score, obj) \<notin> set es" using nls p(2) xs by auto
      moreover have "slDelete score obj sl = Some (False, sl)"
        using False by (simp add: slDelete_def us(1) nx' m(1) eq del: last.simps)
      ultimately show ?thesis using r by (auto simp: remove1_idem)
    next
      case True
      have sh': "sl_shape sl (ls @ x # rs')" using sh Cons by simp
      from ups_upds [OF us(2)] obtain q where "upds_at sl ls (map fst us) q" by blast
      from slDeleteNode_shape [OF sh' this] obtain s1 s2 where
        d: "slDeleteNode x (map fst us) sl = Some s1" "slFreeNode x s1 = Some s2" "sl_shape s2 (ls @ rs')"
          "sl_header s2 = sl_header sl" "core (sl_mem s2) = (core (sl_mem sl))(x := None)" by blast
      have "x \<notin> set (ls @ rs')" using sl_shapeD(1) [OF sh'] by auto
      then have k: "map (key (sl_mem s2)) (ls @ rs') = map (key (sl_mem sl)) (ls @ rs')"
        by (auto intro!: key_cong simp: d(5))
      have es: "es = map (key (sl_mem sl)) ls @ (score, obj) # map (key (sl_mem sl)) rs'"
        using p(2) xs Cons True by simp
      then have rem: "remove1 (score, obj) es = map (key (sl_mem sl)) (ls @ rs')" using nls by (simp add: remove1_append)
      moreover have "sorted (remove1 (score, obj) es)" using p(3) by (rule sorted_remove1)
      moreover have "small (remove1 (score, obj) es)"
        using r set_remove1_subset [of "(score, obj)" es] by (auto simp: sl_rep_def small_def length_remove1)
      ultimately have "sl_rep s2 (ls @ rs') (remove1 (score, obj) es)" using d(3) k by (simp add: sl_rep_def)
      moreover have "slDelete score obj sl = Some (True, s2)"
        using True by (simp add: slDelete_def us(1) nx' m(1) eq d(1,2) del: last.simps)
      ultimately show ?thesis using es d(4) xs Cons
        by (intro exI [of _ s2] exI [of _ "ls @ rs'"]) auto
    qed
  qed
qed

section \<open>Deletion by rank\<close>

lemma of_nat_le_64: "a < 2 ^ 33 \<Longrightarrow> b < 2 ^ 33 \<Longrightarrow> (of_nat a :: u64) \<le> of_nat b \<longleftrightarrow> a \<le> b"
  "a < 2 ^ 33 \<Longrightarrow> b < 2 ^ 33 \<Longrightarrow> (of_nat a :: u64) < of_nat b \<longleftrightarrow> a < b"
  by (simp_all add: word_le_nat_alt word_less_nat_alt unsigned_of_nat take_bit_nat_eq_self)

lemma unat_u32_less: "unat (w :: u32) < 2 ^ 32"
  using unsigned_less [of w, where 'a = nat] by simp

lemma ucast_u32: "ucast (w :: u32) = (of_nat (unat w) :: u64)"
  by simp

lemma prefix_rank:
  assumes "length xs < 2 ^ 32" "b < 2 ^ 33"
  shows "prefix_cond (\<lambda>_ t. Some (t \<le> (of_nat b :: u64))) (p # take b xs) (drop b xs)"
  by (rule prefix_condI) (use assms in \<open>auto simp: of_nat_le_64 simp del: of_nat_Suc of_nat_add\<close>)

lemma prefix_rank_less:
  assumes "length xs < 2 ^ 32"
  shows "prefix_cond (\<lambda>_ t. Some (t < (ucast (start :: u32) :: u64))) (p # take (unat start - 1) xs) (drop (unat start - 1) xs)"
  unfolding ucast_u32
  by (rule prefix_condI)
    (use assms unat_u32_less [of start] in \<open>auto simp: of_nat_le_64 simp del: of_nat_Suc of_nat_add of_nat_unat\<close>)

lemma delete_ranks_shape:
  assumes "sl_shape sl (ls @ rs)" "upds_at sl ls us q" "t + length rs < 2 ^ 33"
  shows "\<exists>sl'. delete_ranks us end (if rs = [] then None else Some (hd rs)) (of_nat t) removed sl
      = Some (removed @ map (snd \<circ> key (sl_mem sl)) (take (unat end + 1 - t) rs), sl') \<and>
    sl_shape sl' (ls @ drop (unat end + 1 - t) rs) \<and> sl_header sl' = sl_header sl \<and>
    (\<forall>a\<in>set (ls @ drop (unat end + 1 - t) rs). core (sl_mem sl') a = core (sl_mem sl) a)"
  using assms
proof (induction rs arbitrary: sl t removed)
  case Nil
  then show ?case by (subst delete_ranks.simps) simp
next
  case (Cons x rs)
  note d = sl_shapeD [OF Cons.prems(1)]
  have c: "(of_nat t :: u64) \<le> ucast end \<longleftrightarrow> t \<le> unat end"
    unfolding ucast_u32 using Cons.prems(3) unat_u32_less [of "end"] by (intro of_nat_le_64) simp_all
  show ?case
  proof (cases "t \<le> unat end")
    case False
    then show ?thesis using Cons.prems(1) c by (subst delete_ranks.simps) simp
  next
    case True
    from slDeleteNode_shape [OF Cons.prems(1,2)] obtain s1 s2 where
      s: "slDeleteNode x us sl = Some s1" "core (sl_mem s1) = core (sl_mem sl)" "slFreeNode x s1 = Some s2"
        "sl_shape s2 (ls @ rs)" "sl_header s2 = sl_header sl" "core (sl_mem s2) = (core (sl_mem sl))(x := None)"
        "upds_at s2 ls us q" by blast
    have "node_ok (sl_level sl) (sl_mem sl) x" using d(7) by simp
    then obtain ob k m where cx: "core (sl_mem sl) x = Some (Some ob, k, m)" by (auto simp: node_ok_def)
    then have "core (sl_mem s1) x = Some (Some ob, k, m)" using s(2) by simp
    then obtain n where n: "sl_mem s1 x = Some n" "sn_obj n = Some ob" by (auto simp: core_def)
    have kx: "snd (key (sl_mem sl) x) = ob" using cx by (simp add: key_def)
    have "sl_shape sl ((ls @ [x]) @ rs)" using Cons.prems(1) by simp
    from next_of_prefix [OF this] obtain v where
      nx: "lv (sl_mem sl) x 0 = Some (if rs = [] then None else Some (hd rs), v)" by auto
    have step: "delete_ranks us end (Some x) (of_nat t) removed sl =
        delete_ranks us end (if rs = [] then None else Some (hd rs)) (of_nat (Suc t)) (removed @ [ob]) s2"
      using True c nx s(1,3) n by (subst delete_ranks.simps) (simp add: add.commute)
    have xn: "x \<notin> set (ls @ rs)" using d(1) by auto
    have kk: "map (snd \<circ> key (sl_mem s2)) (take (unat end + 1 - Suc t) rs) = map (snd \<circ> key (sl_mem sl)) (take (unat end + 1 - Suc t) rs)"
      using xn by (auto simp: s(6) dest: in_set_takeD intro!: arg_cong [of _ _ snd] key_cong)
    have e: "unat end + 1 - t = Suc (unat end + 1 - Suc t)" using True by simp
    from Cons.IH [OF s(4,7), of "Suc t" "removed @ [ob]"] Cons.prems(3) obtain s3 where
      s3: "delete_ranks us end (if rs = [] then None else Some (hd rs)) (of_nat (Suc t)) (removed @ [ob]) s2
        = Some ((removed @ [ob]) @ map (snd \<circ> key (sl_mem sl)) (take (unat end + 1 - Suc t) rs), s3)"
        "sl_shape s3 (ls @ drop (unat end + 1 - Suc t) rs)" "sl_header s3 = sl_header s2"
        "\<forall>a\<in>set (ls @ drop (unat end + 1 - Suc t) rs). core (sl_mem s3) a = core (sl_mem s2) a"
      unfolding kk by auto
    show ?thesis
      unfolding e using step s3 s(5,6) xn kx by (intro exI [of _ s3]) (auto dest: in_set_dropD)
  qed
qed

lemma slDeleteByRank_rep:
  fixes start "end" :: u32
  assumes r: "sl_rep sl xs es"
  defines "i \<equiv> unat start - 1" and "m \<equiv> unat end - (unat start - 1)"
  shows "\<exists>sl' xs'. slDeleteByRank start end sl = Some (map snd (take m (drop i es)), sl') \<and>
    sl_rep sl' xs' (take i es @ drop m (drop i es)) \<and> set xs' \<subseteq> set xs \<and> sl_header sl' = sl_header sl"
proof -
  note p = rep_parts [OF r]
  let ?ls = "take i xs" and ?rs = "drop i xs"
  have sh: "sl_shape sl (?ls @ ?rs)" using p(1) by simp
  have "length (?ls @ ?rs) < 2 ^ 32" using p(4) by simp
  from search_shape [OF sh this prefix_rank_less [OF p(4), of start, folded i_def]] obtain us where
    us: "sl_search (sl_mem sl) (\<lambda>_ (t :: u64). Some (t < ucast start)) (sl_level sl) (sl_header sl) 0
      = Some (us, last (sl_header sl # ?ls), of_nat (length ?ls))" "ups_ok sl ?ls us" by blast
  from next_of_prefix [OF sh] obtain v where
    nx: "lv (sl_mem sl) (last (sl_header sl # ?ls)) 0 = Some (if ?rs = [] then None else Some (hd ?rs), v)" by blast
  from ups_upds [OF us(2)] obtain q where q: "upds_at sl ?ls (map fst us) q" by blast
  define t where "t = length ?ls + 1"
  have "t + length ?rs < 2 ^ 33" using p(4) by (simp add: t_def)
  from delete_ranks_shape [OF sh q this, of "end" "[]"] obtain sl' where
    d: "delete_ranks (map fst us) end (if ?rs = [] then None else Some (hd ?rs)) (of_nat t) [] sl
        = Some (map (snd \<circ> key (sl_mem sl)) (take (unat end + 1 - t) ?rs), sl')"
      "sl_shape sl' (?ls @ drop (unat end + 1 - t) ?rs)" "sl_header sl' = sl_header sl"
      "\<forall>a\<in>set (?ls @ drop (unat end + 1 - t) ?rs). core (sl_mem sl') a = core (sl_mem sl) a" by auto
  have m: "take (unat end + 1 - t) ?rs = take m ?rs \<and> drop (unat end + 1 - t) ?rs = drop m ?rs"
    by (cases "i < length xs") (simp_all add: t_def m_def i_def)
  have "slDeleteByRank start end sl = Some (map snd (take m (drop i es)), sl')"
    unfolding slDeleteByRank_def using d(1) m
    by (simp add: us(1) nx p(2) take_map drop_map t_def add.commute del: last.simps)
  moreover have k: "map (key (sl_mem sl')) (?ls @ drop m ?rs) = take i es @ drop m (drop i es)"
    using d(4) m by (auto simp: p(2) take_map drop_map intro!: key_cong)
  have "sorted (take i es @ drop m (drop i es))"
    using p(3) by (simp add: sorted_append sorted_wrt_take sorted_wrt_drop)
      (metis append_take_drop_id drop_drop in_set_dropD sorted_append)
  moreover have "small (take i es @ drop m (drop i es))"
    using r by (auto simp: sl_rep_def small_def dest: in_set_takeD in_set_dropD)
  ultimately have "sl_rep sl' (?ls @ drop m ?rs) (take i es @ drop m (drop i es))"
    using d(2) m k by (simp add: sl_rep_def)
  then show ?thesis using \<open>slDeleteByRank start end sl = _\<close> d(3)
    by (intro exI [of _ sl'] exI [of _ "?ls @ drop m ?rs"]) (auto dest: in_set_takeD in_set_dropD)
qed

end
