(* ===== verification/Zset_Queries.thy ===== *)
theory Zset_Queries
  imports Zset_Proofs
begin

text \<open>
  The queries of the skip list against the sorted list it stands for: the node of a rank, the rank
  of an element, the collected ranges of ranks and of scores, and the release of all nodes.
\<close>

lemma hts_pos: "sl_shape sl xs \<Longrightarrow> set ys \<subseteq> set xs \<Longrightarrow> \<forall>b\<in>set ys. 1 \<le> hts sl b"
  using hts_node by blast

section \<open>The node of a rank\<close>

lemma node_search_spec:
  assumes C: "cells h T (P @ rs)" and n: "length (P @ rs) \<le> 2 ^ 32"
    and cond: "prefix_cond (\<lambda>_ t. Some (t \<le> (of_nat r :: u64))) P rs"
    and r: "length P = Suc r" and T: "\<forall>b\<in>set (tl P). 1 \<le> T b"
  shows "P = us @ a # vs \<Longrightarrow> l \<le> T a \<Longrightarrow> 0 < l \<Longrightarrow>
    node_search h (of_nat r) l a (of_nat (length us)) = Some (Some (last P))"
proof (induction l arbitrary: us a vs)
  case (Suc l)
  have "l < T a" using Suc.prems(2) by simp
  from walk_spec [OF C n cond Suc.prems(1) this] obtain b q where
    w: "sl_walk h l (\<lambda>_ t. Some (t \<le> (of_nat r :: u64))) a (of_nat (length us)) = Some (b, of_nat q)" "is_upd T P l b q" by blast
  from w(2) obtain us' vs' where b: "P = us' @ b # vs'" "l < T b" "q = length us'" by (auto simp: is_upd_def)
  have eq: "(of_nat q :: u64) = of_nat r \<longleftrightarrow> q = r"
  proof -
    have "q < 2 ^ 33" "r < 2 ^ 33" using n r b(1,3) by auto
    then show ?thesis using of_nat_le_64(1) [of q r] of_nat_le_64(1) [of r q] by (auto intro: antisym)
  qed
  show ?case
  proof (cases "q = r")
    case True
    then have "b = last P" using b(1,3) r by simp
    then show ?thesis using w(1) True by simp
  next
    case False
    have "0 < l"
    proof (rule ccontr)
      assume "\<not> 0 < l"
      with w(2) have "is_upd T P 0 b q" by simp
      from is_upd_0 [OF this T] r False show False by simp
    qed
    with Suc.IH [OF b(1)] b(2) have "node_search h (of_nat r) l b (of_nat (length us')) = Some (Some (last P))" by simp
    then show ?thesis using w(1) eq False b(3) by simp
  qed
qed simp

lemma slGetNodeByRank_rep:
  assumes rep: "sl_rep sl xs es"
  shows "slGetNodeByRank rank sl =
    Some (if rank = 0 \<or> length es < unat rank then None else Some (xs ! (unat rank - 1)))"
proof (cases "rank = 0 \<or> length es < unat rank")
  case True
  note p = rep_parts [OF rep] and d = sl_shapeD [OF rep_parts(1) [OF rep]]
  have "sl_length sl < rank \<longleftrightarrow> length es < unat rank"
    using p(2,4) by (simp add: d(11) word_less_nat_alt unat_of_nat_64)
  with True show ?thesis by (auto simp: slGetNodeByRank_def)
next
  case False
  note p = rep_parts [OF rep] and d = sl_shapeD [OF rep_parts(1) [OF rep]]
  let ?r = "unat rank"
  have le: "sl_length sl < rank \<longleftrightarrow> length es < ?r"
    using p(2,4) by (simp add: d(11) word_less_nat_alt unat_of_nat_64)
  have r: "?r \<le> length xs" "1 \<le> ?r" using False p(2) unat_eq_zero [of rank] by auto
  have C: "cells (sl_mem sl) (hts sl) ((sl_header sl # take ?r xs) @ drop ?r xs)" using d(8) by simp
  have n: "length ((sl_header sl # take ?r xs) @ drop ?r xs) \<le> 2 ^ 32" using p(4) by simp
  have "?r < 2 ^ 33" using r p(4) by simp
  note c = prefix_rank [OF p(4) this, of "sl_header sl"]
  have T: "\<forall>b\<in>set (tl (sl_header sl # take ?r xs)). 1 \<le> hts sl b"
    using hts_pos [OF p(1), of "take ?r xs"] by (simp add: set_take_subset)
  have l: "length (sl_header sl # take ?r xs) = Suc ?r" using r by simp
  have "node_search (sl_mem sl) (of_nat ?r) (sl_level sl) (sl_header sl) (of_nat (length ([] :: addr list)))
      = Some (Some (last (sl_header sl # take ?r xs)))"
    by (rule node_search_spec [OF C n c l T]) (use d(2) in auto)
  moreover have "last (sl_header sl # take ?r xs) = xs ! (?r - 1)"
    using r by (cases xs) (auto simp: last_conv_nth min_def)
  ultimately show ?thesis using False le by (simp add: slGetNodeByRank_def del: last.simps)
qed

section \<open>The rank of an element\<close>

text \<open>
  The search returns the position of the first node it stops at whose object is the one sought;
  \<open>hit\<close> says which nodes those are.
\<close>

lemma rank_search_spec:
  assumes C: "cells h T (P @ rs)" and n: "length (P @ rs) \<le> 2 ^ 32"
    and cond: "prefix_cond (\<lambda>y (_ :: u64). key_upto h score obj y) P rs"
    and T: "\<forall>b\<in>set (tl P). 1 \<le> T b"
    and hit: "\<And>b. b \<in> set P \<Longrightarrow> \<exists>m. h b = Some m \<and> (case sn_obj m of None \<Rightarrow> False | Some ob \<Rightarrow> equalslObj ob obj) = hit b"
    and one: "\<And>us b vs. P = us @ b # vs \<Longrightarrow> hit b \<Longrightarrow> vs = []"
  shows "P = us @ a # vs \<Longrightarrow> l \<le> T a \<Longrightarrow> 0 < l \<Longrightarrow>
    rank_search h score obj l a (of_nat (length us)) = Some (if hit (last P) then of_nat (length P - 1) else 0)"
proof (induction l arbitrary: us a vs)
  case (Suc l)
  have "l < T a" using Suc.prems(2) by simp
  from walk_spec [OF C n cond Suc.prems(1) this] obtain b q where
    w: "sl_walk h l (\<lambda>y (_ :: u64). key_upto h score obj y) a (of_nat (length us)) = Some (b, of_nat q)" "is_upd T P l b q" by blast
  from w(2) obtain us' vs' where b: "P = us' @ b # vs'" "l < T b" "q = length us'" by (auto simp: is_upd_def)
  obtain m where m: "h b = Some m" "(case sn_obj m of None \<Rightarrow> False | Some ob \<Rightarrow> equalslObj ob obj) = hit b"
    using hit [of b] b(1) by auto
  show ?case
  proof (cases "hit b")
    case True
    then have "b = last P" "q = length P - 1" using one [OF b(1)] b(1,3) by simp_all
    then show ?thesis using w(1) m True by simp
  next
    case False
    have step: "rank_search h score obj (Suc l) a (of_nat (length us)) = rank_search h score obj l b (of_nat (length us'))"
      using w(1) m False b(3) by simp
    show ?thesis
    proof (cases "l = 0")
      case True
      with w(2) is_upd_0 [OF _ T] have "b = last P" by blast
      then show ?thesis using step True False by simp
    next
      case False
      then show ?thesis using step Suc.IH [OF b(1)] b(2) by simp
    qed
  qed
qed simp

lemma rank_search_rep:
  assumes rep: "sl_rep sl xs es" and o: "length obj < 2 ^ 31" and dist: "distinct (map snd es)"
    and no: "\<And>s. (s, obj) \<in> set es \<Longrightarrow> s = score"
  shows "slGetRank score obj sl =
    Some (if (score, obj) \<in> set es then of_nat (length (takeWhile (\<lambda>e. e \<le> (score, obj)) es)) else 0)"
proof -
  note p = rep_parts [OF rep] and d = sl_shapeD [OF rep_parts(1) [OF rep]]
  let ?h = "sl_mem sl" and ?p = "sl_header sl"
  define ls where "ls = takeWhile (\<lambda>a. key ?h a \<le> (score, obj)) xs"
  define rs where "rs = dropWhile (\<lambda>a. key ?h a \<le> (score, obj)) xs"
  have xs: "xs = ls @ rs" by (simp add: ls_def rs_def)
  define hit where "hit b \<longleftrightarrow> b \<noteq> ?p \<and> snd (key ?h b) = obj" for b
  have C: "cells ?h (hts sl) ((?p # ls) @ rs)" using d(8) xs by simp
  have n: "length ((?p # ls) @ rs) \<le> 2 ^ 32" using p(4) xs by simp
  have T: "\<forall>b\<in>set (tl (?p # ls)). 1 \<le> hts sl b" using hts_pos [OF p(1), of ls] xs by simp
  have hit: "\<exists>m. ?h b = Some m \<and> (case sn_obj m of None \<Rightarrow> False | Some ob \<Rightarrow> equalslObj ob obj) = hit b"
    if "b \<in> set (?p # ls)" for b
  proof (cases "b = ?p")
    case True
    then show ?thesis using d(5) by (auto simp: core_def hit_def)
  next
    case False
    then have b: "b \<in> set xs" using that xs by simp
    obtain s ob where k: "key ?h b = (s, ob)" by fastforce
    from node_key [OF p(5) [OF b] k] p(6) [OF b] k o show ?thesis
      using False by (auto simp: hit_def equalslObj_def compareslObj_order(2))
  qed
  \<comment> \<open>the objects are distinct, so that only the last node can carry the one sought\<close>
  have one: "vs = []" if s: "?p # ls = us @ b # vs" and hb: "hit b" for us b vs
  proof (rule ccontr)
    assume "vs \<noteq> []"
    then obtain c vs' where vs: "vs = c # vs'" by (cases vs) auto
    have "b \<noteq> ?p" using hb by (simp add: hit_def)
    then obtain us' where ls: "ls = us' @ b # c # vs'" using s vs by (cases us) auto
    have "key ?h b \<in> set es" using p(2) xs ls by simp
    moreover have kb: "key ?h b = (fst (key ?h b), obj)" using hb by (simp add: hit_def prod_eq_iff)
    ultimately have "key ?h b = (score, obj)" using no by metis
    moreover have "sorted (map (key ?h) ls)" using p(2,3) xs by (simp add: sorted_append)
    then have "key ?h b \<le> key ?h c" by (simp add: ls sorted_append)
    moreover have "c \<in> set (takeWhile (\<lambda>a. key ?h a \<le> (score, obj)) xs)" using ls ls_def by (metis in_set_conv_decomp append_Cons append_Nil list.set_intros(1) Un_iff set_append list.set_intros(2))
    then have "key ?h c \<le> (score, obj)" by (auto dest: set_takeWhileD)
    ultimately have "snd (key ?h c) = snd (key ?h b)" by simp
    moreover have "distinct (map snd es)" by (rule dist)
    ultimately show False using p(2) xs ls by simp
  qed
  have "rank_search ?h score obj (sl_level sl) ?p (of_nat (length ([] :: addr list)))
      = Some (if hit (last (?p # ls)) then of_nat (length (?p # ls) - 1) else 0)"
    by (rule rank_search_spec [OF C n prefix_upto [OF rep o, of score, folded ls_def rs_def] T hit one]) (use d(2) in auto)
  moreover have "hit (last (?p # ls)) \<longleftrightarrow> (score, obj) \<in> set es"
  proof
    assume h: "hit (last (?p # ls))"
    then have "ls \<noteq> []" by (auto simp: hit_def)
    then have "key ?h (last ls) \<in> set es" using p(2) xs by simp
    moreover have "snd (key ?h (last ls)) = obj" using h \<open>ls \<noteq> []\<close> by (simp add: hit_def)
    ultimately show "(score, obj) \<in> set es" using no [of "fst (key ?h (last ls))"] by (metis prod.collapse)
  next
    assume "(score, obj) \<in> set es"
    then obtain a where a: "a \<in> set xs" "key ?h a = (score, obj)" using p(2) by auto
    have "a \<notin> set rs" using sorted_dropWhile_le [of "key ?h" xs a] p(2,3) a(2) by (auto simp: rs_def)
    then have "a \<in> set (?p # ls)" "a \<noteq> ?p" using a(1) xs d(1) by auto
    then obtain us vs where s: "?p # ls = us @ a # vs" by (meson split_list)
    moreover have "hit a" using a(2) \<open>a \<noteq> ?p\<close> by (simp add: hit_def)
    ultimately show "hit (last (?p # ls))" using one [OF s] by simp
  qed
  moreover have "length ls = length (takeWhile (\<lambda>e. e \<le> (score, obj)) es)"
    by (simp add: p(2) ls_def takeWhile_map o_def)
  ultimately show ?thesis by (simp add: slGetRank_def del: last.simps)
qed

section \<open>Collecting nodes\<close>

primrec coll :: "(nat \<Rightarrow> 'k skiplistNode \<Rightarrow> bool) \<Rightarrow> 'k sl_heap \<Rightarrow> nat \<Rightarrow> addr list \<Rightarrow> ('k \<times> slobj) list" where
  "coll cont h c [] = []"
| "coll cont h c (a # as) = (if cont c (the (h a)) then key h a # coll cont h (c + 1) as else [])"

lemma node_ok_key:
  assumes "node_ok l h a"
  shows "\<exists>n. h a = Some n \<and> sn_obj n = Some (snd (key h a)) \<and> sn_score n = fst (key h a)"
  using node_key [OF assms, of "fst (key h a)" "snd (key h a)"] by simp

lemma collect_forward:
  assumes "sl_shape sl (us @ rs)"
  shows "sl_collect sl cont False (if rs = [] then None else Some (hd rs)) (c, acc) = Some (acc @ coll cont (sl_mem sl) c rs)"
  using assms
proof (induction rs arbitrary: us c acc)
  case Nil
  then show ?case by (subst sl_collect.simps) simp
next
  case (Cons a rs)
  have "node_ok (sl_level sl) (sl_mem sl) a" using sl_shapeD(7) [OF Cons.prems] by simp
  from node_ok_key [OF this] obtain n where n: "sl_mem sl a = Some n" "sn_obj n = Some (snd (key (sl_mem sl) a))"
    "sn_score n = fst (key (sl_mem sl) a)" by blast
  have sh: "sl_shape sl ((us @ [a]) @ rs)" using Cons.prems by simp
  from next_of_prefix [OF sh] obtain v where
    nx: "lv (sl_mem sl) a 0 = Some (if rs = [] then None else Some (hd rs), v)" by auto
  show ?case
  proof (cases "cont c n")
    case True
    have "sl_collect sl cont False (Some a) (c, acc) =
        sl_collect sl cont False (if rs = [] then None else Some (hd rs)) (c + 1, acc @ [key (sl_mem sl) a])"
      using True n nx by (subst sl_collect.simps) simp
    then show ?thesis using Cons.IH [OF sh, of "c + 1" "acc @ [key (sl_mem sl) a]"] True n(1) by simp
  next
    case False
    then show ?thesis using n(1) by (subst sl_collect.simps) simp
  qed
qed

lemma collect_backward:
  assumes "sl_shape sl (ls @ rs)"
  shows "sl_collect sl cont True (if ls = [] then None else Some (last ls)) (c, acc) = Some (acc @ coll cont (sl_mem sl) c (rev ls))"
  using assms
proof (induction ls arbitrary: rs c acc rule: rev_induct)
  case Nil
  then show ?case by (subst sl_collect.simps) simp
next
  case (snoc a ls)
  have "node_ok (sl_level sl) (sl_mem sl) a" using sl_shapeD(7) [OF snoc.prems] by simp
  from node_ok_key [OF this] obtain n where n: "sl_mem sl a = Some n" "sn_obj n = Some (snd (key (sl_mem sl) a))"
    "sn_score n = fst (key (sl_mem sl) a)" by blast
  have sh: "sl_shape sl (ls @ a # rs)" using snoc.prems by simp
  have "prev (sl_mem sl) a = Some (if ls = [] then None else Some (last ls))"
    by (rule backsD [OF sl_shapeD(9) [OF sh] refl])
  then have b: "sn_backward n = (if ls = [] then None else Some (last ls))" by (simp add: prev_def n(1))
  show ?case
  proof (cases "cont c n")
    case True
    have "sl_collect sl cont True (Some a) (c, acc) =
        sl_collect sl cont True (if ls = [] then None else Some (last ls)) (c + 1, acc @ [key (sl_mem sl) a])"
      using True n b by (subst sl_collect.simps) simp
    then show ?thesis using snoc.IH [OF sh, of "c + 1" "acc @ [key (sl_mem sl) a]"] True n(1) by simp
  next
    case False
    then show ?thesis using n(1) by (subst sl_collect.simps) simp
  qed
qed

lemma coll_score:
  assumes "\<forall>a\<in>set as. node_ok l h a"
  shows "coll (\<lambda>_ n. Q (sn_score n)) h c as = takeWhile (\<lambda>e. Q (fst e)) (map (key h) as)"
  using assms
proof (induction as arbitrary: c)
  case (Cons a as)
  from node_ok_key [of l h a] Cons.prems obtain n where "h a = Some n" "sn_score n = fst (key h a)" by auto
  then show ?case using Cons by simp
qed simp

lemma coll_count: "coll (\<lambda>n _. int n < r) h c as = take (nat (r - int c)) (map (key h) as)"
proof (induction as arbitrary: c)
  case (Cons a as)
  have "nat (r - int c) = Suc (nat (r - int (c + 1)))" if "int c < r" using that by simp
  then show ?case using Cons [of "c + 1"] by (auto simp del: of_nat_Suc)
qed simp

section \<open>Ranges of scores\<close>

lemma sorted_fst: "sorted es \<Longrightarrow> sorted (map fst es)" for es :: "('a::linorder \<times> 'b::linorder) list"
  by (induction es) (auto simp: less_eq_prod_def)

lemma slIsInRange_rep:
  assumes rep: "sl_rep sl xs es"
  shows "slIsInRange mn mx sl = Some (mn \<le> mx \<and> es \<noteq> [] \<and> mn \<le> fst (last es) \<and> fst (hd es) \<le> mx)"
proof (cases "xs = []")
  case True
  then show ?thesis using sl_shapeD(10) [OF rep_parts(1) [OF rep]] rep_parts(2) [OF rep] by (simp add: slIsInRange_def)
next
  case False
  note p = rep_parts [OF rep] and d = sl_shapeD [OF rep_parts(1) [OF rep]]
  have "last xs \<in> set xs" "hd xs \<in> set xs" using False by simp_all
  then obtain n m where n: "sl_mem sl (last xs) = Some n" "sn_score n = fst (key (sl_mem sl) (last xs))"
    and m: "sl_mem sl (hd xs) = Some m" "sn_score m = fst (key (sl_mem sl) (hd xs))"
    using node_ok_key [OF p(5)] by meson
  have "sl_shape sl ([] @ xs)" using p(1) by simp
  from next_of_prefix [OF this] obtain v where nx: "lv (sl_mem sl) (sl_header sl) 0 = Some (Some (hd xs), v)" using False by auto
  show ?thesis using False n m nx d(10)
    by (auto simp: slIsInRange_def p(2) last_map hd_map not_less not_le)
qed

lemma score_prefix:
  assumes rep: "sl_rep sl xs es"
  shows "prefix_cond (\<lambda>y (_ :: 'a::len word). map_option (\<lambda>n. sn_score n < k) (sl_mem sl y))
      (p # takeWhile (\<lambda>a. fst (key (sl_mem sl) a) < k) xs) (dropWhile (\<lambda>a. fst (key (sl_mem sl) a) < k) xs)"
    and "prefix_cond (\<lambda>y (_ :: 'a::len word). map_option (\<lambda>n. sn_score n \<le> k) (sl_mem sl y))
      (p # takeWhile (\<lambda>a. fst (key (sl_mem sl) a) \<le> k) xs) (dropWhile (\<lambda>a. fst (key (sl_mem sl) a) \<le> k) xs)"
proof -
  note r = rep_parts [OF rep]
  have s: "sorted (map (\<lambda>a. fst (key (sl_mem sl) a)) xs)" using sorted_fst [OF r(3)] r(2) by (simp add: o_def)
  have n: "\<exists>n. sl_mem sl y = Some n \<and> sn_score n = fst (key (sl_mem sl) y)" if "y \<in> set xs" for y
    using node_ok_key [OF r(5) [OF that]] by blast
  show "prefix_cond (\<lambda>y (_ :: 'a::len word). map_option (\<lambda>n. sn_score n < k) (sl_mem sl y))
      (p # takeWhile (\<lambda>a. fst (key (sl_mem sl) a) < k) xs) (dropWhile (\<lambda>a. fst (key (sl_mem sl) a) < k) xs)"
  proof (rule prefix_takeWhile)
    show "map_option (\<lambda>n. sn_score n < k) (sl_mem sl y) = Some (fst (key (sl_mem sl) y) < k)" if "y \<in> set xs" for y
      using n [OF that] by auto
  qed (use sorted_dropWhile [OF s] in \<open>simp add: not_less\<close>)
  show "prefix_cond (\<lambda>y (_ :: 'a::len word). map_option (\<lambda>n. sn_score n \<le> k) (sl_mem sl y))
      (p # takeWhile (\<lambda>a. fst (key (sl_mem sl) a) \<le> k) xs) (dropWhile (\<lambda>a. fst (key (sl_mem sl) a) \<le> k) xs)"
  proof (rule prefix_takeWhile)
    show "map_option (\<lambda>n. sn_score n \<le> k) (sl_mem sl y) = Some (fst (key (sl_mem sl) y) \<le> k)" if "y \<in> set xs" for y
      using n [OF that] by auto
  qed (use sorted_dropWhile_le [OF s] in \<open>simp add: not_le\<close>)
qed

end
