(* ===== verification/Zset_Contract.thy ===== *)
theory Zset_Contract
  imports Zset_Queries
begin

text \<open>
  The contract of the sorted set: ranges, release, and the refinement of a sorted list by any
  sequence of insertions and deletions, with the properties of the component and their witnesses.
\<close>

section \<open>Ranges\<close>

lemma takeWhile_filter:
  fixes es :: "('k::linorder \<times> 'b) list"
  shows "sorted (map fst es) \<Longrightarrow> takeWhile (\<lambda>e. fst e \<le> s) es = filter (\<lambda>e. fst e \<le> s) es"
proof (induction es)
  case (Cons e es)
  show ?case
  proof (cases "fst e \<le> s")
    case False
    then have "\<not> fst x \<le> s" if "x \<in> set es" for x using that Cons.prems by force
    then show ?thesis using False by (simp add: filter_empty_conv)
  qed (use Cons in simp)
qed simp

lemma dropWhile_filter:
  fixes es :: "('k::linorder \<times> 'b) list"
  shows "sorted (map fst es) \<Longrightarrow> dropWhile (\<lambda>e. fst e < s) es = filter (\<lambda>e. s \<le> fst e) es"
proof (induction es)
  case (Cons e es)
  show ?case
  proof (cases "fst e < s")
    case False
    then have "s \<le> fst x" if "x \<in> set es" for x using that Cons.prems by force
    then show ?thesis using False by (simp add: filter_True)
  qed (use Cons in simp)
qed simp

lemma takeWhile_rev_filter:
  fixes es :: "('k::linorder \<times> 'b) list"
  shows "sorted (map fst es) \<Longrightarrow> takeWhile (\<lambda>e. \<not> fst e < s) (rev es) = rev (filter (\<lambda>e. s \<le> fst e) es)"
proof (induction es rule: rev_induct)
  case (snoc e es)
  show ?case
  proof (cases "fst e < s")
    case True
    then have "\<not> s \<le> fst x" if "x \<in> set es" for x using that snoc.prems by (fastforce simp: sorted_append)
    then show ?thesis using True by (simp add: filter_empty_conv)
  qed (use snoc in \<open>simp add: sorted_append not_less\<close>)
qed simp

lemma sorted_filter_fst: "sorted (map fst es) \<Longrightarrow> sorted (map fst (filter P es))"
  by (induction es) auto

lemma sorted_hd_last:
  fixes es :: "('k::linorder \<times> 'b) list"
  assumes "sorted (map fst es)" "e \<in> set es"
  shows "fst (hd es) \<le> fst e" "fst e \<le> fst (last es)"
proof -
  show "fst (hd es) \<le> fst e" using assms by (cases es) auto
  show "fst e \<le> fst (last es)" using assms by (cases es rule: rev_cases) (auto simp: sorted_append)
qed

lemma slFirstInRange_rep:
  assumes rep: "sl_rep sl xs es" and b: "slIsInRange mn mx sl = Some True"
  defines "rs \<equiv> dropWhile (\<lambda>a. fst (key (sl_mem sl) a) < mn) xs"
  shows "slFirstInRange mn mx sl = Some (if rs = [] then None else Some (hd rs))"
proof -
  define ls where "ls = takeWhile (\<lambda>a. fst (key (sl_mem sl) a) < mn) xs"
  have xs: "xs = ls @ rs" by (simp add: ls_def rs_def)
  have sh: "sl_shape sl (ls @ rs)" and n: "length (ls @ rs) < 2 ^ 32" using rep_parts(1,4) [OF rep] xs by simp_all
  from search_shape [OF sh n score_prefix(1) [OF rep, of mn "sl_header sl", folded ls_def rs_def]] obtain us where
    us: "sl_search (sl_mem sl) (\<lambda>y (_ :: u64). map_option (\<lambda>n. sn_score n < mn) (sl_mem sl y)) (sl_level sl) (sl_header sl) 0
      = Some (us, last (sl_header sl # ls), of_nat (length ls))" by blast
  from next_of_prefix [OF sh] obtain v where
    "lv (sl_mem sl) (last (sl_header sl # ls)) 0 = Some (if rs = [] then None else Some (hd rs), v)" by blast
  then show ?thesis by (simp add: slFirstInRange_def b us del: last.simps)
qed

lemma slLastInRange_rep:
  assumes rep: "sl_rep sl xs es" and b: "slIsInRange mn mx sl = Some True"
  defines "ls \<equiv> takeWhile (\<lambda>a. fst (key (sl_mem sl) a) \<le> mx) xs"
  shows "slLastInRange mn mx sl = Some (Some (last (sl_header sl # ls)))"
proof -
  define rs where "rs = dropWhile (\<lambda>a. fst (key (sl_mem sl) a) \<le> mx) xs"
  have xs: "xs = ls @ rs" by (simp add: ls_def rs_def)
  have sh: "sl_shape sl (ls @ rs)" and n: "length (ls @ rs) < 2 ^ 32" using rep_parts(1,4) [OF rep] xs by simp_all
  from search_shape [OF sh n score_prefix(2) [OF rep, of mx "sl_header sl", folded ls_def rs_def]] obtain us where
    us: "sl_search (sl_mem sl) (\<lambda>y (_ :: u64). map_option (\<lambda>n. sn_score n \<le> mx) (sl_mem sl y)) (sl_level sl) (sl_header sl) 0
      = Some (us, last (sl_header sl # ls), of_nat (length ls))" by blast
  then show ?thesis by (simp add: slLastInRange_def b us del: last.simps)
qed

lemma collect_None: "sl_collect sl cont reverse None (c, acc) = Some acc"
  by (subst sl_collect.simps) simp

lemma zs_score_range_rep:
  assumes rep: "sl_rep sl xs es"
  shows "zs_get_score_range s1 s2 sl =
    Some (if s1 \<le> s2 then map snd (filter (\<lambda>e. s1 \<le> fst e \<and> fst e \<le> s2) es)
      else rev (map snd (filter (\<lambda>e. s2 \<le> fst e \<and> fst e \<le> s1) es)))"
proof -
  note p = rep_parts [OF rep] and d = sl_shapeD [OF rep_parts(1) [OF rep]] and r = slIsInRange_rep [OF rep]
  have so: "sorted (map fst es)" by (rule sorted_fst [OF p(3)])
  have none: "filter (\<lambda>e. a \<le> fst e \<and> fst e \<le> b) es = []" if "slIsInRange a b sl \<noteq> Some True" "a \<le> b" for a b
    using that sorted_hd_last [OF so] by (fastforce simp: r filter_empty_conv)
  show ?thesis
  proof (cases "s1 \<le> s2")
    case le: True
    show ?thesis
    proof (cases "slIsInRange s1 s2 sl = Some True")
      case True
      define ls where "ls = takeWhile (\<lambda>a. fst (key (sl_mem sl) a) < s1) xs"
      define rs where "rs = dropWhile (\<lambda>a. fst (key (sl_mem sl) a) < s1) xs"
      have xs: "xs = ls @ rs" by (simp add: ls_def rs_def)
      have sh: "sl_shape sl (ls @ rs)" using p(1) xs by simp
      have ok: "\<forall>a\<in>set rs. node_ok (sl_level sl) (sl_mem sl) a" using p(5) xs by simp
      have rs: "map (key (sl_mem sl)) rs = filter (\<lambda>e. s1 \<le> fst e) es"
        using dropWhile_filter [OF so, of s1] by (simp add: p(2) rs_def dropWhile_map o_def)
      have "coll (\<lambda>_ n. \<not> s2 < sn_score n) (sl_mem sl) 0 rs = filter (\<lambda>e. s1 \<le> fst e \<and> fst e \<le> s2) es"
        using coll_score [OF ok, of "\<lambda>s. \<not> s2 < s"] takeWhile_filter [OF sorted_filter_fst [OF so], of s2 "\<lambda>e. s1 \<le> fst e"]
        by (simp add: rs not_less conj_commute)
      then have c: "sl_collect sl (\<lambda>_ n. \<not> s2 < sn_score n) False (if rs = [] then None else Some (hd rs)) (0, [])
          = Some (filter (\<lambda>e. s1 \<le> fst e \<and> fst e \<le> s2) es)"
        by (simp add: collect_forward [OF sh])
      have f: "slFirstInRange s1 s2 sl = Some (if rs = [] then None else Some (hd rs))"
        unfolding rs_def by (rule slFirstInRange_rep [OF rep True])
      show ?thesis using le by (simp only: zs_get_score_range_def f c Option.bind.simps if_True)
    next
      case False
      then have "slFirstInRange s1 s2 sl = Some None" using r [of s1 s2] by (auto simp: slFirstInRange_def)
      then show ?thesis using le none [OF False le] by (simp add: zs_get_score_range_def collect_None)
    qed
  next
    case gt: False
    then have le: "s2 \<le> s1" by simp
    show ?thesis
    proof (cases "slIsInRange s2 s1 sl = Some True")
      case True
      define ls where "ls = takeWhile (\<lambda>a. fst (key (sl_mem sl) a) \<le> s1) xs"
      define rs where "rs = dropWhile (\<lambda>a. fst (key (sl_mem sl) a) \<le> s1) xs"
      have xs: "xs = ls @ rs" by (simp add: ls_def rs_def)
      have sh: "sl_shape sl (ls @ rs)" using p(1) xs by simp
      have ok: "\<forall>a\<in>set (rev ls). node_ok (sl_level sl) (sl_mem sl) a" using p(5) xs by simp
      have ls: "map (key (sl_mem sl)) ls = filter (\<lambda>e. fst e \<le> s1) es"
        using takeWhile_filter [OF so, of s1] by (simp add: p(2) ls_def takeWhile_map o_def)
      have ne: "ls \<noteq> []"
      proof
        assume "ls = []"
        then have "filter (\<lambda>e. fst e \<le> s1) es = []" using ls by simp
        moreover have "hd es \<in> set es" "fst (hd es) \<le> s1" using True r [of s2 s1] by auto
        ultimately show False by (metis filter_empty_conv)
      qed
      have "coll (\<lambda>_ n. \<not> sn_score n < s2) (sl_mem sl) 0 (rev ls) = rev (filter (\<lambda>e. s2 \<le> fst e \<and> fst e \<le> s1) es)"
        using coll_score [OF ok, of "\<lambda>s. \<not> s < s2"] takeWhile_rev_filter [OF sorted_filter_fst [OF so], of s2 "\<lambda>e. fst e \<le> s1"]
        by (simp add: ls rev_map [symmetric] conj_commute)
      moreover have "slLastInRange s2 s1 sl = Some (if ls = [] then None else Some (last ls))"
        using slLastInRange_rep [OF rep True] ne by (simp add: ls_def)
      ultimately show ?thesis using gt collect_backward [OF sh, where c = 0 and acc = "[]"] ne
        by (simp add: zs_get_score_range_def rev_map)
    next
      case False
      then have "slLastInRange s2 s1 sl = Some None" using r [of s2 s1] by (auto simp: slLastInRange_def)
      then show ?thesis using gt none [OF False le] by (simp add: zs_get_score_range_def collect_None)
    qed
  qed
qed

lemma zs_rank_range_rep:
  assumes rep: "sl_rep sl xs es" and a: "1 \<le> a" "a < 2 ^ 31" and b: "1 \<le> b" "b < 2 ^ 31"
  shows "zs_get_rank_range (int a) (int b) sl =
    Some (if a \<le> b then map snd (take (b - a + 1) (drop (a - 1) es))
      else if a \<le> length es then map snd (take (a - b + 1) (rev (take a es))) else [])"
proof -
  note p = rep_parts [OF rep]
  have w: "unat (of_nat n :: u64) = n" if "n < 2 ^ 31" for n
    using that by (simp add: unsigned_of_nat take_bit_nat_eq_self)
  have le: "(word_of_int (int a) :: u64) \<le> word_of_int (int b) \<longleftrightarrow> a \<le> b"
    using w [OF a(2)] w [OF b(2)] by (simp add: word_le_nat_alt)
  have node: "slGetNodeByRank (word_of_int (int a)) sl = Some (if length es < a then None else Some (xs ! (a - 1)))"
    using slGetNodeByRank_rep [OF rep, of "word_of_int (int a)"] w [OF a(2)] a(1) by (auto simp: unat_eq_zero [symmetric])
  have rl: "to_int32 (uint ((word_of_int (int m) :: u64) - word_of_int (int n) + 1)) = int (m - n + 1)"
    if "n \<le> m" "m < 2 ^ 31" "1 \<le> n" for m n
  proof -
    have e: "(word_of_int (int m) :: u64) - word_of_int (int n) + 1 = of_nat (m - n + 1)" using that(1) by simp
    have l: "m - n + 1 < 2 ^ 31" using that by simp
    then have u: "uint (of_nat (m - n + 1) :: u64) = int (m - n + 1)"
      by (simp only: unsigned_of_nat) (simp add: take_bit_nat_eq_self del: of_nat_add)
    show ?thesis unfolding e u using l by (intro to_int32_id) (simp_all add: INT_MIN_def INT_MAX_def)
  qed
  show ?thesis
  proof (cases "length es < a")
    case True
    then show ?thesis by (simp add: zs_get_rank_range_def Let_def node collect_None del: of_int_of_nat_eq)
  next
    case False
    then have ax: "a - 1 < length xs" "a \<le> length xs" using p(2) a(1) by auto
    show ?thesis
    proof (cases "a \<le> b")
      case True
      have sh: "sl_shape sl (take (a - 1) xs @ drop (a - 1) xs)" using p(1) by simp
      have h: "(if drop (a - 1) xs = [] then None else Some (hd (drop (a - 1) xs))) = Some (xs ! (a - 1))"
        using ax by (simp add: hd_drop_conv_nth)
      have "coll (\<lambda>n _. int n < int (b - a + 1)) (sl_mem sl) 0 (drop (a - 1) xs) = take (b - a + 1) (drop (a - 1) es)"
        unfolding coll_count by (simp add: p(2) drop_map nat_add_distrib)
      then have "sl_collect sl (\<lambda>n _. int n < int (b - a + 1)) False (Some (xs ! (a - 1))) (0, [])
          = Some (take (b - a + 1) (drop (a - 1) es))"
        using collect_forward [OF sh, where c = 0 and acc = "[]"] unfolding h by simp
      then show ?thesis using True False le rl [OF True b(2) a(1)]
        by (simp add: zs_get_rank_range_def Let_def node del: of_int_of_nat_eq of_nat_add of_nat_Suc)
    next
      case gt: False
      then have ba: "b \<le> a" by simp
      have sh: "sl_shape sl (take a xs @ drop a xs)" using p(1) by simp
      have h: "(if take a xs = [] then None else Some (last (take a xs))) = Some (xs ! (a - 1))"
        using ax a(1) by (auto simp: last_conv_nth min_def)
      have "coll (\<lambda>n _. int n < int (a - b + 1)) (sl_mem sl) 0 (rev (take a xs)) = take (a - b + 1) (rev (take a es))"
        unfolding coll_count by (simp add: p(2) take_map rev_map nat_add_distrib)
      then have "sl_collect sl (\<lambda>n _. int n < int (a - b + 1)) True (Some (xs ! (a - 1))) (0, [])
          = Some (take (a - b + 1) (rev (take a es)))"
        using collect_backward [OF sh, where c = 0 and acc = "[]"] unfolding h by simp
      then show ?thesis using gt False le rl [OF ba a(2) b(1)]
        by (simp add: zs_get_rank_range_def Let_def node del: of_int_of_nat_eq of_nat_add of_nat_Suc)
    qed
  qed
qed

section \<open>Release\<close>

lemma free_nodes_rep:
  assumes "sl_shape sl (us @ rs)" "sl_mem s = sl_mem sl |` set rs"
  shows "free_nodes (if rs = [] then None else Some (hd rs)) s = Some (s\<lparr>sl_mem := Map.empty\<rparr>)"
  using assms
proof (induction rs arbitrary: us s)
  case Nil
  then show ?case by (subst free_nodes.simps) (cases s, simp)
next
  case (Cons a rs)
  have "node_ok (sl_level sl) (sl_mem sl) a" using sl_shapeD(7) [OF Cons.prems(1)] by simp
  from node_ok_key [OF this] obtain n where n: "sl_mem sl a = Some n" "sn_obj n = Some (snd (key (sl_mem sl) a))" by blast
  have sh: "sl_shape sl ((us @ [a]) @ rs)" using Cons.prems(1) by simp
  from next_of_prefix [OF sh] obtain v where "lv (sl_mem sl) a 0 = Some (if rs = [] then None else Some (hd rs), v)" by auto
  then have nx: "lv (sl_mem s) a 0 = Some (if rs = [] then None else Some (hd rs), v)"
    by (simp add: lv_def Cons.prems(2) n(1))
  let ?s = "s\<lparr>sl_mem := (sl_mem s)(a := None)\<rparr>"
  have f: "slFreeNode a s = Some ?s" using n by (simp add: slFreeNode_def Cons.prems(2))
  have "a \<notin> set rs" using sl_shapeD(1) [OF Cons.prems(1)] by simp
  then have "sl_mem ?s = sl_mem sl |` set rs" by (auto simp: Cons.prems(2) restrict_map_def fun_eq_iff)
  from Cons.IH [OF sh this] have "free_nodes (if rs = [] then None else Some (hd rs)) ?s = Some (s\<lparr>sl_mem := Map.empty\<rparr>)" by simp
  then show ?case using nx f by (subst free_nodes.simps) simp
qed

lemma slFree_rep:
  assumes "sl_rep sl xs es"
  shows "slFree sl = Some Map.empty"
proof -
  note p = rep_parts [OF assms] and d = sl_shapeD [OF rep_parts(1) [OF assms]]
  have sh: "sl_shape sl ([] @ xs)" using p(1) by simp
  from next_of_prefix [OF sh] obtain v where
    nx: "lv (sl_mem sl) (sl_header sl) 0 = Some (if xs = [] then None else Some (hd xs), v)" by auto
  let ?s = "sl\<lparr>sl_mem := (sl_mem sl)(sl_header sl := None)\<rparr>"
  have "sl_mem sl a = None" if "a \<notin> set xs" "a \<noteq> sl_header sl" for a
    using d(4) [of a] that by (simp add: core_def)
  then have "sl_mem ?s = sl_mem sl |` set xs" using d(1) by (auto simp: restrict_map_def fun_eq_iff)
  from free_nodes_rep [OF sh this] show ?thesis by (simp add: slFree_def nx Let_def)
qed

section \<open>The contract of a sorted bag\<close>

datatype ('r, 'e) bag_op = Ins 'r 'e | Del 'e

fun bag_run ::
  "('r \<Rightarrow> 'e \<Rightarrow> 's \<Rightarrow> 's option) \<Rightarrow> ('e \<Rightarrow> 's \<Rightarrow> (bool \<times> 's) option) \<Rightarrow> ('r, 'e) bag_op list \<Rightarrow> 's \<Rightarrow> (bool list \<times> 's) option" where
  "bag_run ins del [] s = Some ([], s)"
| "bag_run ins del (Ins r e # ops) s = do { s \<leftarrow> ins r e s; bag_run ins del ops s }"
| "bag_run ins del (Del e # ops) s = do {
     (b, s) \<leftarrow> del e s;
     (bs, s) \<leftarrow> bag_run ins del ops s;
     Some (b # bs, s)
   }"

text \<open>The same operations on a sorted list.\<close>

fun sorted_run :: "('r, 'e::linorder) bag_op list \<Rightarrow> 'e list \<Rightarrow> bool list \<times> 'e list" where
  "sorted_run [] es = ([], es)"
| "sorted_run (Ins r e # ops) es = sorted_run ops (insort e es)"
| "sorted_run (Del e # ops) es = (let (bs, es') = sorted_run ops (remove1 e es) in ((e \<in> set es) # bs, es'))"

text \<open>Whether every operation of a run finds what it needs: memory, random numbers, valid elements.\<close>

fun run_ready ::
  "('r \<Rightarrow> 'e \<Rightarrow> 's \<Rightarrow> bool) \<Rightarrow> ('e \<Rightarrow> bool) \<Rightarrow> ('r \<Rightarrow> 'e \<Rightarrow> 's \<Rightarrow> 's option) \<Rightarrow>
    ('e \<Rightarrow> 's \<Rightarrow> (bool \<times> 's) option) \<Rightarrow> ('r, 'e) bag_op list \<Rightarrow> 's \<Rightarrow> bool" where
  "run_ready ready valid ins del [] s = True"
| "run_ready ready valid ins del (Ins r e # ops) s =
     (ready r e s \<and> (case ins r e s of None \<Rightarrow> True | Some s \<Rightarrow> run_ready ready valid ins del ops s))"
| "run_ready ready valid ins del (Del e # ops) s =
     (valid e \<and> (case del e s of None \<Rightarrow> True | Some (b, s) \<Rightarrow> run_ready ready valid ins del ops s))"

locale sorted_bag =
  fixes rep :: "'s \<Rightarrow> 'e::linorder list \<Rightarrow> bool"
    and ready :: "'r \<Rightarrow> 'e \<Rightarrow> 's \<Rightarrow> bool"
    and valid :: "'e \<Rightarrow> bool"
    and ins :: "'r \<Rightarrow> 'e \<Rightarrow> 's \<Rightarrow> 's option"
    and del :: "'e \<Rightarrow> 's \<Rightarrow> (bool \<times> 's) option"
  assumes ins_rep: "rep s es \<Longrightarrow> ready r e s \<Longrightarrow> \<exists>s'. ins r e s = Some s' \<and> rep s' (insort e es)"
    and del_rep: "rep s es \<Longrightarrow> valid e \<Longrightarrow> \<exists>s'. del e s = Some (e \<in> set es, s') \<and> rep s' (remove1 e es)"
begin

lemma run_refines:
  "rep s es \<Longrightarrow> run_ready ready valid ins del ops s \<Longrightarrow>
     \<exists>s'. bag_run ins del ops s = Some (fst (sorted_run ops es), s') \<and> rep s' (snd (sorted_run ops es))"
proof (induction ops arbitrary: s es)
  case (Cons oper ops)
  show ?case
  proof (cases oper)
    case (Ins r e)
    with ins_rep Cons.prems obtain s' where i: "ins r e s = Some s'" "rep s' (insort e es)" by fastforce
    with Cons.prems(2) Ins have "run_ready ready valid ins del ops s'" by simp
    from Cons.IH [OF i(2) this] show ?thesis using Ins i(1) by simp
  next
    case (Del e)
    with del_rep Cons.prems obtain s' where i: "del e s = Some (e \<in> set es, s')" "rep s' (remove1 e es)" by fastforce
    with Cons.prems(2) Del have "run_ready ready valid ins del ops s'" by simp
    from Cons.IH [OF i(2) this] show ?thesis using Del i(1) by (auto simp: case_prod_unfold Let_def)
  qed
qed simp

end

definition zs_ready :: "u64 list \<times> addr \<Rightarrow> 'k \<times> slobj \<Rightarrow> 'k skiplist \<Rightarrow> bool" where
  "zs_ready r e sl \<longleftrightarrow> slRandomLevel (fst r) \<noteq> None \<and> sl_mem sl (snd r) = None \<and> int (length (snd e)) < 2 ^ 31 \<and>
     uint (sl_length sl) < 2 ^ 32 - 1"

definition zs_valid :: "'k \<times> slobj \<Rightarrow> bool" where
  "zs_valid e \<longleftrightarrow> int (length (snd e)) < 2 ^ 31"

definition zs_add :: "u64 list \<times> addr \<Rightarrow> 'k::linorder \<times> slobj \<Rightarrow> 'k skiplist \<Rightarrow> 'k skiplist option" where
  "zs_add r e sl = map_option fst (zs_insert (fst r) (snd r) (fst e) (snd e) sl)"

definition zs_rem :: "'k::linorder \<times> slobj \<Rightarrow> 'k skiplist \<Rightarrow> (bool \<times> 'k skiplist) option" where
  "zs_rem e sl = zs_delete (fst e) (snd e) sl"

definition zs_rep :: "'k::linorder skiplist \<Rightarrow> ('k \<times> slobj) list \<Rightarrow> bool" where
  "zs_rep sl es \<longleftrightarrow> (\<exists>xs. sl_rep sl xs es)"

interpretation zs: sorted_bag zs_rep zs_ready zs_valid zs_add zs_rem
proof
  fix s :: "'a::linorder skiplist" and es r and e :: "'a \<times> slobj"
  assume "zs_rep s es" and r: "zs_ready r e s"
  then obtain xs where x: "sl_rep s xs es" by (auto simp: zs_rep_def)
  obtain score obj where e: "e = (score, obj)" by fastforce
  have "unat (sl_length s) = length es"
    using sl_shapeD(11) [OF rep_parts(1) [OF x]] rep_parts(2,4) [OF x] by (simp add: unat_of_nat_64)
  then have "uint (sl_length s) = int (length es)" by (simp add: uint_nat)
  moreover obtain level rnd' where "slRandomLevel (fst r) = Some (level, rnd')" using r by (auto simp: zs_ready_def)
  ultimately show "\<exists>s'. zs_add r e s = Some s' \<and> zs_rep s' (insort e es)"
    using slInsert_rep [OF x, of obj "fst r" level rnd' "snd r" score] r
    by (auto simp: zs_ready_def zs_add_def zs_insert_def zs_rep_def e)
next
  fix s :: "'a::linorder skiplist" and es and e :: "'a \<times> slobj"
  assume "zs_rep s es" and v: "zs_valid e"
  then obtain xs where x: "sl_rep s xs es" by (auto simp: zs_rep_def)
  obtain score obj where e: "e = (score, obj)" by fastforce
  from slDelete_rep [OF x, of obj score] v show "\<exists>s'. zs_rem e s = Some (e \<in> set es, s') \<and> zs_rep s' (remove1 e es)"
    by (auto simp: zs_valid_def zs_rem_def zs_delete_def zs_rep_def e)
qed

lemma slCreate_rep: "zs_rep (slCreate p :: 'k::{linorder,zero} skiplist) []"
  using slCreate_shape [of p] by (auto simp: zs_rep_def sl_rep_def small_def)

lemma slDump_rep: "zs_rep sl es \<Longrightarrow> slDump sl = Some es"
proof -
  assume "zs_rep sl es"
  then obtain xs where x: "sl_rep sl xs es" by (auto simp: zs_rep_def)
  note p = rep_parts [OF x]
  have sh: "sl_shape sl ([] @ xs)" using p(1) by simp
  from next_of_prefix [OF sh] obtain v where
    nx: "lv (sl_mem sl) (sl_header sl) 0 = Some (if xs = [] then None else Some (hd xs), v)" by auto
  have "coll (\<lambda>_ n. True) (sl_mem sl) 0 xs = map (key (sl_mem sl)) xs"
    using coll_score [of xs "sl_level sl" "sl_mem sl" "\<lambda>_. True" 0] p(5) by (simp add: takeWhile_eq_all_conv)
  with collect_forward [OF sh, where c = 0 and acc = "[]"] p(2) show ?thesis by (simp add: slDump_def nx)
qed

lemma takeWhile_split:
  "(\<And>x. x \<in> set as \<Longrightarrow> P x) \<Longrightarrow> (\<And>x. x \<in> set bs \<Longrightarrow> \<not> P x) \<Longrightarrow> takeWhile P (as @ bs) = as"
  by (induction as) (cases bs, auto)

lemma sorted_takeWhile_length:
  assumes "sorted es" "distinct es" "j < length es"
  shows "length (takeWhile (\<lambda>e. e \<le> es ! j) es) = Suc j"
proof -
  have s: "es = take (Suc j) es @ drop (Suc j) es" by simp
  have "takeWhile (\<lambda>e. e \<le> es ! j) (take (Suc j) es @ drop (Suc j) es) = take (Suc j) es"
  proof -
    have "x \<le> es ! j" if "x \<in> set (take (Suc j) es)" for x
      using that assms(1,3) by (auto simp: in_set_conv_nth sorted_iff_nth_mono)
    moreover have "\<not> x \<le> es ! j" if "x \<in> set (drop (Suc j) es)" for x
    proof -
      from that obtain i where i: "i < length es - Suc j" "x = es ! (Suc j + i)" by (auto simp: in_set_conv_nth)
      have "es ! j \<le> x" "es ! j \<noteq> x" using i assms by (auto simp: sorted_iff_nth_mono nth_eq_iff_index_eq)
      then show ?thesis by simp
    qed
    ultimately show ?thesis by (rule takeWhile_split)
  qed
  then show ?thesis using assms(3) s by simp
qed

section \<open>Properties\<close>

text \<open>
  C14: any sequence of insertions and deletions on a new skip list behaves as on a sorted list: every
  deletion reports whether the element was there, the nodes in order are the sorted list, the
  count is its length, and releasing the skip list frees every node.
\<close>

theorem zset_refines_sorted_list:
  fixes p :: addr and ops :: "(u64 list \<times> addr, 'k::{linorder,zero} \<times> slobj) bag_op list"
  assumes "run_ready zs_ready zs_valid zs_add zs_rem ops (slCreate p)"
  shows "\<exists>sl. bag_run zs_add zs_rem ops (slCreate p) = Some (fst (sorted_run ops []), sl) \<and>
    slDump sl = Some (snd (sorted_run ops [])) \<and> zs_get_count sl = of_nat (length (snd (sorted_run ops []))) \<and>
    slFree sl = Some Map.empty"
proof -
  from zs.run_refines [OF slCreate_rep assms] obtain sl where
    r: "bag_run zs_add zs_rem ops (slCreate p) = Some (fst (sorted_run ops []), sl)" "zs_rep sl (snd (sorted_run ops []))" by blast
  then obtain xs where x: "sl_rep sl xs (snd (sorted_run ops []))" by (auto simp: zs_rep_def)
  have "zs_get_count sl = of_nat (length (snd (sorted_run ops [])))"
    using sl_shapeD(11) [OF rep_parts(1) [OF x]] rep_parts(2) [OF x] by (simp add: zs_get_count_def)
  then show ?thesis using r slDump_rep slFree_rep [OF x] by blast
qed

definition zs_sample :: "(u64 list \<times> addr, int \<times> slobj) bag_op list" where
  "zs_sample = [Ins ([65535], 1) (5, [1]), Ins ([0, 65535], 2) (3, [2]), Ins ([0, 0, 65535], 3) (5, [0, 7]), Del (5, [1])]"

definition zs_sample_list :: "int skiplist" where
  "zs_sample_list = (case bag_run zs_add zs_rem zs_sample (slCreate 0) of None \<Rightarrow> slCreate 0 | Some (bs, sl) \<Rightarrow> sl)"

lemma zs_sample_ready: "run_ready zs_ready zs_valid zs_add zs_rem zs_sample (slCreate 0)"
  by code_simp

lemma zs_sample_sorted: "sorted_run zs_sample [] = ([True], [(3, [2]), (5, [0, 7])])"
  by code_simp

lemma zs_sample_rep: "zs_rep zs_sample_list [(3, [2]), (5, [0, 7])]"
  using zs.run_refines [OF slCreate_rep zs_sample_ready] by (auto simp: zs_sample_sorted zs_sample_list_def)

theorem zset_refines_sorted_list_witness:
  "\<exists>sl. bag_run zs_add zs_rem zs_sample (slCreate 0) = Some ([True], sl) \<and> slDump sl = Some [(3, [2]), (5, [0, 7])]"
  using zset_refines_sorted_list [OF zs_sample_ready] by (auto simp: zs_sample_sorted)

text \<open>
  C32: deletion by rank removes exactly the elements of the ranks from \<open>a\<close> to \<open>b\<close>, in either order of
  the arguments, reports their objects in order and returns their number.
\<close>

theorem zset_delete_by_rank:
  assumes "zs_rep sl es" "1 \<le> a" "a \<le> b" "b < 2 ^ 32"
  shows "\<exists>sl'. zs_delete_by_rank (int a) (int b) sl
      = Some (length (take (b + 1 - a) (drop (a - 1) es)), map snd (take (b + 1 - a) (drop (a - 1) es)), sl') \<and>
    zs_delete_by_rank (int b) (int a) sl = zs_delete_by_rank (int a) (int b) sl \<and>
    slDump sl' = Some (take (a - 1) es @ drop b es) \<and> zs_rep sl' (take (a - 1) es @ drop b es)"
proof -
  from assms(1) obtain xs where x: "sl_rep sl xs es" by (auto simp: zs_rep_def)
  have u: "unat (of_nat n :: u32) = n" if "n < 2 ^ 32" for n
    using that by (simp add: unsigned_of_nat take_bit_nat_eq_self)
  have ua: "unat (of_nat a :: u32) = a" and ub: "unat (of_nat b :: u32) = b" using u assms by auto
  have lt: "\<not> (of_nat b :: u32) < of_nat a" using assms(3) ua ub by (simp add: word_less_nat_alt)
  from slDeleteByRank_rep [OF x, of "of_nat a" "of_nat b"] obtain sl' xs' where
    d: "slDeleteByRank (of_nat a) (of_nat b) sl = Some (map snd (take (b - (a - 1)) (drop (a - 1) es)), sl')"
      "sl_rep sl' xs' (take (a - 1) es @ drop (b - (a - 1)) (drop (a - 1) es))" unfolding ua ub by blast
  have e: "b - (a - 1) = b + 1 - a" "drop (b - (a - 1)) (drop (a - 1) es) = drop b es" using assms(2,3) by auto
  note d = d [unfolded e(2), unfolded e(1)]
  have "zs_delete_by_rank (int a) (int b) sl
      = Some (length (take (b + 1 - a) (drop (a - 1) es)), map snd (take (b + 1 - a) (drop (a - 1) es)), sl')"
    using d(1) lt by (simp add: zs_delete_by_rank_def Let_def)
  moreover have "zs_delete_by_rank (int b) (int a) sl = zs_delete_by_rank (int a) (int b) sl"
  proof (cases "a = b")
    case False
    then have "(of_nat a :: u32) < of_nat b" using assms(3) ua ub by (simp add: word_less_nat_alt)
    then show ?thesis using lt by (simp add: zs_delete_by_rank_def Let_def)
  qed simp
  moreover have "zs_rep sl' (take (a - 1) es @ drop b es)" using d(2) by (auto simp: zs_rep_def)
  ultimately show ?thesis using slDump_rep by blast
qed

theorem zset_delete_by_rank_witness:
  "\<exists>sl. zs_delete_by_rank 2 1 zs_sample_list = Some (2, [[2], [0, 7]], sl) \<and> slDump sl = Some []"
  using zset_delete_by_rank [OF zs_sample_rep, of 1 2] by auto

text \<open>
  C33: in a set whose objects are distinct, the element at position \<open>j\<close> has rank \<open>j + 1\<close>, and asking
  for that rank gives its object back.
\<close>

theorem zset_rank_roundtrip:
  assumes "zs_rep sl es" "distinct (map snd es)" "j < length es" "es ! j = (score, obj)"
  shows "zs_get_rank score obj sl = Some (Some (of_nat (j + 1))) \<and>
    zs_get_member_by_rank (int (j + 1)) sl = Some (Some obj)"
proof -
  from assms(1) obtain xs where x: "sl_rep sl xs es" by (auto simp: zs_rep_def)
  note p = rep_parts [OF x]
  have m: "(score, obj) \<in> set es" using assms(3,4) nth_mem by metis
  have j: "j + 1 < 2 ^ 32 + 1" "j < length xs" using assms(3) p(2,4) by auto
  have "small es" using x unfolding sl_rep_def by blast
  then have o: "length obj < 2 ^ 31" using m by (force simp: small_def)
  have s: "s = score" if "(s, obj) \<in> set es" for s
    using assms(2) that m by (metis distinct_map inj_onD snd_conv fst_conv)
  have "distinct es" using assms(2) by (simp add: distinct_map)
  from sorted_takeWhile_length [OF p(3) this assms(3)] rank_search_rep [OF x o assms(2) s] m
  have r: "slGetRank score obj sl = Some (of_nat (Suc j))" by (simp add: assms(4))
  have w: "unat (of_nat (Suc j) :: u64) = Suc j" using j by (simp only: unsigned_of_nat) (simp add: take_bit_nat_eq_self)
  then have nz: "(of_nat (Suc j) :: u64) \<noteq> 0" by (metis nat.distinct(1) unsigned_0)
  have "xs ! j \<in> set xs" using j by simp
  from node_ok_key [OF p(5) [OF this]] obtain n where n: "sl_mem sl (xs ! j) = Some n" "sn_obj n = Some (snd (key (sl_mem sl) (xs ! j)))" by blast
  have "key (sl_mem sl) (xs ! j) = (score, obj)" using assms(4) p(2) j by simp
  moreover have "slGetNodeByRank (of_nat (Suc j)) sl = Some (Some (xs ! j))"
    using slGetNodeByRank_rep [OF x, of "of_nat (Suc j)"] w nz assms(3) by (simp del: of_nat_Suc)
  ultimately show ?thesis using r nz n
    by (simp add: zs_get_rank_def zs_get_member_by_rank_def node_member_def del: of_nat_Suc of_nat_add)
qed

theorem zset_rank_roundtrip_witness:
  "zs_get_rank 5 [0, 7] zs_sample_list = Some (Some 2) \<and> zs_get_member_by_rank 2 zs_sample_list = Some (Some [0, 7])"
  using zset_rank_roundtrip [OF zs_sample_rep, of 1 5 "[0, 7]"] by simp

text \<open>
  The range of scores from \<open>s1\<close> to \<open>s2\<close> is the list of the objects with a score between the two,
  ascending, and descending when the bounds are given in the other order.
\<close>

theorem zset_score_range:
  assumes "zs_rep sl es"
  shows "zs_get_score_range s1 s2 sl =
    Some (if s1 \<le> s2 then map snd (filter (\<lambda>e. s1 \<le> fst e \<and> fst e \<le> s2) es)
      else rev (map snd (filter (\<lambda>e. s2 \<le> fst e \<and> fst e \<le> s1) es)))"
proof -
  from assms obtain xs where "sl_rep sl xs es" by (auto simp: zs_rep_def)
  then show ?thesis by (rule zs_score_range_rep)
qed

theorem zset_score_range_witness:
  "zs_get_score_range 9 0 zs_sample_list = Some [[0, 7], [2]]"
  using zset_score_range [OF zs_sample_rep, of 9 0] by simp

text \<open>
  The rank of an element is looked up by its object only: for a score that the object does
  not have, \<open>slGetRank\<close> may give a rank instead of 0.
\<close>

theorem zset_rank_ignores_score:
  "\<exists>sl es. zs_rep sl es \<and> ((8 :: int), [0, 7]) \<notin> set es \<and> slGetRank 8 [0, 7] sl = Some 2"
proof -
  have "slGetRank 8 [0, 7] zs_sample_list = Some 2" by code_simp
  moreover have "((8 :: int), [0, 7]) \<notin> set [(3, [2 :: u8]), (5, [0, 7])]" by simp
  ultimately show ?thesis using zs_sample_rep by blast
qed

end
