(* ===== verification/Socket_Data.thy ===== *)
theory Socket_Data
  imports Skynet_Libc
begin

text \<open>
  The data of the socket server (\<open>skynet-src/socket_server.c\<close>, \<open>socket_server.h\<close>, \<open>socket_buffer.h\<close>,
  \<open>socket_poll.h\<close>), its system calls and its memory.

  The state is the record \<open>socket_server\<close>: the fields of the structure of the same name, and
  what the code acts on: the memory of data buffers with the next address that \<open>malloc\<close> gives, the
  pipe that carries the requests of the workers to the socket thread, and the trace of the system
  calls made so far. A slot of the table holds the write buffers that its two lists link,
  as a map from addresses.

  The operating system is a record \<open>kernel\<close> of functions: each gets the trace so far, so its
  answer may differ from call to call. The name resolver, \<open>strerror\<close> and \<open>inet_ntop\<close> are in it too.
  The locks of the slots make one step of the section they guard; whether \<open>spinlock_trylock\<close>
  finds the lock free is an answer of the record.

  A pointer to data is a block and an offset. Reading outside a block, reading or freeing a
  released block, a failed assertion and a call of a missing function are \<open>None\<close>.
\<close>

section \<open>Constants\<close>

datatype socket_type = SOCKET_TYPE_INVALID | SOCKET_TYPE_RESERVE | SOCKET_TYPE_PLISTEN
  | SOCKET_TYPE_LISTEN | SOCKET_TYPE_CONNECTING | SOCKET_TYPE_CONNECTED
  | SOCKET_TYPE_HALFCLOSE_READ | SOCKET_TYPE_HALFCLOSE_WRITE | SOCKET_TYPE_PACCEPT | SOCKET_TYPE_BIND

text \<open>The results of the handlers; the code's \<open>-1\<close> is the \<open>None\<close> of an option.\<close>

datatype socket_result = SOCKET_DATA | SOCKET_CLOSE | SOCKET_OPEN | SOCKET_ACCEPT | SOCKET_ERR
  | SOCKET_EXIT | SOCKET_UDP | SOCKET_WARNING | SOCKET_RST | SOCKET_MORE

datatype socket_buffer_type = SOCKET_BUFFER_MEMORY | SOCKET_BUFFER_OBJECT | SOCKET_BUFFER_RAWPOINTER

datatype priority = PRIORITY_HIGH | PRIORITY_LOW

definition MAX_INFO :: nat where "MAX_INFO = 128"
definition MAX_SOCKET :: int where "MAX_SOCKET = 65536"
definition MIN_READ_BUFFER :: int where "MIN_READ_BUFFER = 64"
definition UDP_ADDRESS_SIZE :: nat where "UDP_ADDRESS_SIZE = 19"
definition WARNING_SIZE :: int where "WARNING_SIZE = 1048576"
definition USEROBJECT :: int where "USEROBJECT = 18446744073709551615"

definition PROTOCOL_TCP :: u8 where "PROTOCOL_TCP = 0"
definition PROTOCOL_UDP :: u8 where "PROTOCOL_UDP = 1"
definition PROTOCOL_UDPv6 :: u8 where "PROTOCOL_UDPv6 = 2"
definition PROTOCOL_UNKNOWN :: u8 where "PROTOCOL_UNKNOWN = 255"

lemmas protocol_defs = PROTOCOL_TCP_def PROTOCOL_UDP_def PROTOCOL_UDPv6_def PROTOCOL_UNKNOWN_def

definition HASH_ID :: "int \<Rightarrow> nat" where
  "HASH_ID sid = nat (sid mod MAX_SOCKET)"

definition ID_TAG16 :: "int \<Rightarrow> int" where
  "ID_TAG16 sid = (sid div 65536) mod 65536"

section \<open>Structures\<close>

type_synonym ptr = "(addr \<times> int) option"

record write_buffer =
  wb_next :: "addr option"
  wb_buffer :: ptr
  wb_ptr :: ptr
  wb_sz :: int
  wb_userobject :: bool
  wb_udp :: "u8 list option" \<comment> \<open>the address of a \<open>write_buffer_udp\<close>\<close>

record wb_list =
  wl_head :: "addr option"
  wl_tail :: "addr option"

record socket_stat =
  st_rtime :: u64
  st_wtime :: u64
  st_read :: u64
  st_write :: u64

text \<open>The union \<open>p\<close>: the size of the next read of a stream, or the default address of a UDP socket.\<close>

datatype socket_p = P_size int | P_address "u8 list"

record socket =
  sk_opaque :: u64
  sk_wbs :: "addr \<rightharpoonup> write_buffer"
  sk_high :: wb_list
  sk_low :: wb_list
  sk_wb_size :: int
  sk_stat :: socket_stat
  sk_sending :: int
  sk_fd :: int
  sk_id :: int
  sk_type :: socket_type
  sk_protocol :: u8
  sk_reading :: bool
  sk_writing :: bool
  sk_closing :: bool
  sk_udpconnecting :: int
  sk_warn_size :: int
  sk_p :: socket_p
  sk_dw_offset :: int
  sk_dw_buffer :: ptr
  sk_dw_size :: int

record request_open =
  ro_id :: int
  ro_port :: int
  ro_opaque :: u64
  ro_host :: string

record request_send =
  rq_id :: int
  rq_sz :: int
  rq_buffer :: ptr

record request_close =
  rc_id :: int
  rc_shutdown :: bool
  rc_opaque :: u64

record request_listen =
  rl_id :: int
  rl_fd :: int
  rl_opaque :: u64

record request_bind =
  rb_id :: int
  rb_fd :: int
  rb_opaque :: u64

record request_resumepause =
  rp_id :: int
  rp_opaque :: u64

record request_setopt =
  rt_id :: int
  rt_what :: string
  rt_value :: int

text \<open>An address family.\<close>

datatype family = AF_INET | AF_INET6 | AF_OTHER

record request_udp =
  ru_id :: int
  ru_fd :: int
  ru_family :: family
  ru_opaque :: u64

text \<open>The body of a request, a member of the union of \<open>request_package\<close>.\<close>

datatype request_body = U_open request_open | U_send request_send | U_send_udp request_send "u8 list"
  | U_close request_close | U_listen request_listen | U_bind request_bind
  | U_resumepause request_resumepause | U_setopt request_setopt | U_udp request_udp
  | U_set_udp int "u8 list" | U_none

text \<open>A request as it crosses the pipe: the type, the length in one byte, and the body.\<close>

record request_package =
  pk_type :: char
  pk_len :: u8
  pk_body :: request_body

text \<open>A socket address: port and host as the bytes of the structure, in network order.\<close>

datatype sockaddr_all = V4 "u8 list" "u8 list" | V6 "u8 list" "u8 list"

record send_object =
  so_buffer :: ptr
  so_sz :: int
  so_free :: "socket_buffer_type" \<comment> \<open>which of \<open>FREE\<close>, \<open>soi.free\<close> and \<open>dummy_free\<close>\<close>

record socket_sendbuffer =
  sb_id :: int
  sb_type :: socket_buffer_type
  sb_buffer :: ptr
  sb_sz :: int

text \<open>The data of an event: none, a text, or a buffer that the receiver frees.\<close>

datatype event_data = Data_null | Data_text string | Data_buffer addr

record socket_message =
  rs_id :: int
  rs_opaque :: u64
  rs_ud :: int
  rs_data :: event_data

record event =
  ev_s :: "nat option"
  ev_read :: bool
  ev_write :: bool
  ev_error :: bool
  ev_eof :: bool

record socket_object_interface =
  soi_buffer :: "ptr \<Rightarrow> ptr"
  soi_size :: "ptr \<Rightarrow> int"

section \<open>System calls\<close>

datatype errno = EINTR | EAGAIN | EINPROGRESS | EMFILE | ENFILE | E_OTHER int

text \<open>The trace. A write on a stream carries the id of the socket and the bytes that were taken.\<close>

datatype sys = Sys_write int int "u8 list" | Sys_sendto int int "u8 list" sockaddr_all int
  | Sys_read int int | Sys_recvfrom int | Sys_accept int | Sys_close int | Sys_shutdown int bool
  | Sys_epoll_add int "nat option" | Sys_epoll_mod int nat bool bool | Sys_epoll_del int | Sys_wait
  | Sys_keepalive int | Sys_nonblocking int | Sys_setsockopt int string int | Sys_getsockopt int
  | Sys_socket family | Sys_connect int sockaddr_all | Sys_bind int sockaddr_all | Sys_listen int int
  | Sys_dup int | Sys_getaddrinfo string int | Sys_select | Sys_trylock int | Sys_pipe
  | Sys_object_free ptr | Sys_error string

record kernel =
  k_write :: "sys list \<Rightarrow> int \<Rightarrow> u8 list \<Rightarrow> int \<times> errno"
  k_sendto :: "sys list \<Rightarrow> int \<Rightarrow> u8 list \<Rightarrow> sockaddr_all \<Rightarrow> int \<times> errno"
  k_read :: "sys list \<Rightarrow> int \<Rightarrow> int \<Rightarrow> errno + u8 list"
  k_recvfrom :: "sys list \<Rightarrow> int \<Rightarrow> errno + (u8 list \<times> sockaddr_all)"
  k_accept :: "sys list \<Rightarrow> int \<Rightarrow> errno + (int \<times> sockaddr_all)"
  k_close :: "sys list \<Rightarrow> int \<Rightarrow> bool"
  k_dup :: "sys list \<Rightarrow> int"
  k_epoll_create :: "sys list \<Rightarrow> int"
  k_epoll_ctl :: "sys list \<Rightarrow> int \<Rightarrow> bool"
  k_epoll_wait :: "sys list \<Rightarrow> errno + event list"
  k_select :: "sys list \<Rightarrow> bool"
  k_pipe :: "sys list \<Rightarrow> (int \<times> int) option"
  k_pipe_write :: "sys list \<Rightarrow> errno list" \<comment> \<open>the failed attempts before the request is written\<close>
  k_pipe_read :: "sys list \<Rightarrow> errno option" \<comment> \<open>an error other than \<open>EINTR\<close>\<close>
  k_getsockopt :: "sys list \<Rightarrow> int \<Rightarrow> errno + errno option"
  k_setsockopt :: "sys list \<Rightarrow> int \<Rightarrow> bool"
  k_getpeername :: "sys list \<Rightarrow> int \<Rightarrow> sockaddr_all option"
  k_getsockname :: "sys list \<Rightarrow> int \<Rightarrow> sockaddr_all option"
  k_inet_ntop :: "sockaddr_all \<Rightarrow> string option"
  k_getaddrinfo :: "sys list \<Rightarrow> string \<Rightarrow> int \<Rightarrow> int + (family \<times> sockaddr_all) list"
  k_socket :: "sys list \<Rightarrow> family \<Rightarrow> int"
  k_connect :: "sys list \<Rightarrow> int \<Rightarrow> sockaddr_all \<Rightarrow> errno option"
  k_bind :: "sys list \<Rightarrow> int \<Rightarrow> bool"
  k_listen :: "sys list \<Rightarrow> int \<Rightarrow> bool"
  k_trylock :: "sys list \<Rightarrow> bool"
  k_errno :: "sys list \<Rightarrow> errno" \<comment> \<open>\<open>errno\<close> where it is read later than after the call that set it\<close>
  k_strerror :: "errno \<Rightarrow> string"
  k_gai_strerror :: "int \<Rightarrow> string"
  k_stack :: "u8 list" \<comment> \<open>what the bytes of a buffer on the stack hold that were not written\<close>

record socket_server =
  ss_time :: u64
  ss_reserve_fd :: int
  ss_recvctrl_fd :: int
  ss_sendctrl_fd :: int
  ss_checkctrl :: bool
  ss_event_fd :: int
  ss_alloc_id :: int
  ss_event_n :: nat
  ss_event_index :: nat
  ss_soi :: "socket_object_interface option"
  ss_ev :: "event list"
  ss_slot :: "nat \<Rightarrow> socket"
  ss_buffer :: string
  ss_mem :: "addr \<rightharpoonup> u8 list"
  ss_brk :: addr
  ss_pipe :: "request_package list"
  ss_trace :: "sys list"

definition sys_log :: "sys \<Rightarrow> socket_server \<Rightarrow> socket_server" where
  "sys_log e ss = ss\<lparr>ss_trace := ss_trace ss @ [e]\<rparr>"

definition upd_slot :: "nat \<Rightarrow> (socket \<Rightarrow> socket) \<Rightarrow> socket_server \<Rightarrow> socket_server" where
  "upd_slot i f ss = ss\<lparr>ss_slot := (ss_slot ss)(i := f (ss_slot ss i))\<rparr>"

section \<open>Memory\<close>

definition mem_read :: "(addr \<rightharpoonup> u8 list) \<Rightarrow> ptr \<Rightarrow> int \<Rightarrow> u8 list option" where
  "mem_read m p n =
     (if n = 0 then Some []
      else case p of
        None \<Rightarrow> None
      | Some (b, off) \<Rightarrow> do {
          xs \<leftarrow> m b;
          if 0 \<le> off \<and> 0 \<le> n \<and> off + n \<le> int (length xs) then Some (take (nat n) (drop (nat off) xs))
          else None
        })"

definition ptr_add :: "ptr \<Rightarrow> int \<Rightarrow> ptr" where
  "ptr_add p n = map_option (\<lambda>(b, off). (b, off + n)) p"

definition MALLOC :: "u8 list \<Rightarrow> socket_server \<Rightarrow> addr \<times> socket_server" where
  "MALLOC xs ss = (ss_brk ss, ss\<lparr>ss_mem := (ss_mem ss)(ss_brk ss \<mapsto> xs), ss_brk := ss_brk ss + 1\<rparr>)"

definition FREE :: "ptr \<Rightarrow> socket_server \<Rightarrow> socket_server option" where
  "FREE p ss = (case p of
     None \<Rightarrow> Some ss
   | Some (b, off) \<Rightarrow>
       if off = 0 \<and> ss_mem ss b \<noteq> None then Some (ss\<lparr>ss_mem := (ss_mem ss)(b := None)\<rparr>) else None)"

definition soi_free :: "ptr \<Rightarrow> socket_server \<Rightarrow> socket_server option" where
  "soi_free p ss = (case ss_soi ss of None \<Rightarrow> None | Some _ \<Rightarrow> Some (sys_log (Sys_object_free p) ss))"

end
