(* ===== verification/Socket_Write.thy ===== *)
theory Socket_Write
  imports Socket_Data
begin

text \<open>
  The slots of the socket server and the sending of data (\<open>socket_server.c\<close>, lines 282 to 1081):
  reservation of ids, the lists of write buffers, closing, and the routines that write the lists
  to the file descriptor. A slot is named by its index; \<open>PRIORITY_HIGH\<close> and \<open>PRIORITY_LOW\<close>
  name the list of a slot that a routine gets a pointer to.
\<close>

section \<open>Calls of the operating system\<close>

definition skynet_error_log :: "string \<Rightarrow> socket_server \<Rightarrow> socket_server" where
  "skynet_error_log msg = sys_log (Sys_error msg)"

definition sys_close :: "kernel \<Rightarrow> int \<Rightarrow> socket_server \<Rightarrow> bool \<times> socket_server" where
  "sys_close K fd ss = (k_close K (ss_trace ss) fd, sys_log (Sys_close fd) ss)"

definition sp_add :: "kernel \<Rightarrow> int \<Rightarrow> nat option \<Rightarrow> socket_server \<Rightarrow> bool \<times> socket_server" where
  "sp_add K sock ud ss = (\<not> k_epoll_ctl K (ss_trace ss) sock, sys_log (Sys_epoll_add sock ud) ss)"

definition sp_del :: "int \<Rightarrow> socket_server \<Rightarrow> socket_server" where
  "sp_del sock ss = sys_log (Sys_epoll_del sock) ss"

definition sp_enable :: "kernel \<Rightarrow> int \<Rightarrow> nat \<Rightarrow> bool \<Rightarrow> bool \<Rightarrow> socket_server \<Rightarrow> bool \<times> socket_server" where
  "sp_enable K sock ud read_enable write_enable ss =
     (\<not> k_epoll_ctl K (ss_trace ss) sock, sys_log (Sys_epoll_mod sock ud read_enable write_enable) ss)"

definition sp_nonblocking :: "int \<Rightarrow> socket_server \<Rightarrow> socket_server" where
  "sp_nonblocking fd ss = sys_log (Sys_nonblocking fd) ss"

definition socket_keepalive :: "int \<Rightarrow> socket_server \<Rightarrow> socket_server" where
  "socket_keepalive fd ss = sys_log (Sys_keepalive fd) ss"

text \<open>
  \<open>write\<close> and \<open>sendto\<close> of \<open>sz\<close> bytes at \<open>p\<close> for the socket \<open>sid\<close>: the number of bytes taken or a
  negative number with its \<open>errno\<close>.
\<close>

definition sys_write ::
  "kernel \<Rightarrow> int \<Rightarrow> int \<Rightarrow> ptr \<Rightarrow> int \<Rightarrow> socket_server \<Rightarrow> (int \<times> errno \<times> socket_server) option" where
  "sys_write K sid fd p sz ss = do {
     d \<leftarrow> mem_read (ss_mem ss) p sz;
     let (n, e) = k_write K (ss_trace ss) fd d in
     Some (n, e, sys_log (Sys_write sid fd (take (nat n) d)) ss)
   }"

definition sys_sendto ::
  "kernel \<Rightarrow> int \<Rightarrow> int \<Rightarrow> ptr \<Rightarrow> int \<Rightarrow> sockaddr_all \<Rightarrow> socket_server \<Rightarrow> (int \<times> errno \<times> socket_server) option" where
  "sys_sendto K sid fd p sz sa ss = do {
     d \<leftarrow> mem_read (ss_mem ss) p sz;
     let (n, e) = k_sendto K (ss_trace ss) fd d sa in
     Some (n, e, sys_log (Sys_sendto sid fd d sa n) ss)
   }"

section \<open>Buffers\<close>

definition socket_invalid :: "socket \<Rightarrow> int \<Rightarrow> bool" where
  "socket_invalid s sid \<longleftrightarrow> sk_id s \<noteq> sid \<or> sk_type s = SOCKET_TYPE_INVALID"

definition send_object_init :: "socket_server \<Rightarrow> ptr \<Rightarrow> int \<Rightarrow> (bool \<times> send_object) option" where
  "send_object_init ss obj sz =
     (if sz = USEROBJECT then do {
        I \<leftarrow> ss_soi ss;
        Some (True, \<lparr>so_buffer = soi_buffer I obj, so_sz = soi_size I obj, so_free = SOCKET_BUFFER_OBJECT\<rparr>)
      } else Some (False, \<lparr>so_buffer = obj, so_sz = sz, so_free = SOCKET_BUFFER_MEMORY\<rparr>))"

definition send_object_init_from_sendbuffer :: "socket_server \<Rightarrow> socket_sendbuffer \<Rightarrow> send_object option" where
  "send_object_init_from_sendbuffer ss buf =
     (case sb_type buf of
        SOCKET_BUFFER_MEMORY \<Rightarrow> map_option snd (send_object_init ss (sb_buffer buf) (sb_sz buf))
      | SOCKET_BUFFER_OBJECT \<Rightarrow> map_option snd (send_object_init ss (sb_buffer buf) USEROBJECT)
      | SOCKET_BUFFER_RAWPOINTER \<Rightarrow>
          Some \<lparr>so_buffer = sb_buffer buf, so_sz = sb_sz buf, so_free = SOCKET_BUFFER_RAWPOINTER\<rparr>)"

text \<open>\<open>so.free_func\<close>: \<open>FREE\<close>, the function of the user objects or \<open>dummy_free\<close>.\<close>

definition free_func :: "send_object \<Rightarrow> ptr \<Rightarrow> socket_server \<Rightarrow> socket_server option" where
  "free_func so p ss =
     (case so_free so of
        SOCKET_BUFFER_MEMORY \<Rightarrow> FREE p ss
      | SOCKET_BUFFER_OBJECT \<Rightarrow> soi_free p ss
      | SOCKET_BUFFER_RAWPOINTER \<Rightarrow> Some ss)"

definition free_buffer :: "socket_sendbuffer \<Rightarrow> socket_server \<Rightarrow> socket_server option" where
  "free_buffer buf ss =
     (case sb_type buf of
        SOCKET_BUFFER_MEMORY \<Rightarrow> FREE (sb_buffer buf) ss
      | SOCKET_BUFFER_OBJECT \<Rightarrow> soi_free (sb_buffer buf) ss
      | SOCKET_BUFFER_RAWPOINTER \<Rightarrow> Some ss)"

text \<open>A raw pointer is copied into memory of the server.\<close>

definition clone_buffer :: "socket_sendbuffer \<Rightarrow> socket_server \<Rightarrow> (ptr \<times> int \<times> socket_server) option" where
  "clone_buffer buf ss =
     (case sb_type buf of
        SOCKET_BUFFER_MEMORY \<Rightarrow> Some (sb_buffer buf, sb_sz buf, ss)
      | SOCKET_BUFFER_OBJECT \<Rightarrow> Some (sb_buffer buf, USEROBJECT, ss)
      | SOCKET_BUFFER_RAWPOINTER \<Rightarrow> do {
          d \<leftarrow> mem_read (ss_mem ss) (sb_buffer buf) (sb_sz buf);
          let (a, ss) = MALLOC d ss in
          Some (Some (a, 0), sb_sz buf, ss)
        })"

definition write_buffer_free :: "nat \<Rightarrow> addr \<Rightarrow> socket_server \<Rightarrow> socket_server option" where
  "write_buffer_free i a ss = do {
     wb \<leftarrow> sk_wbs (ss_slot ss i) a;
     ss \<leftarrow> (if wb_userobject wb then soi_free (wb_buffer wb) ss else FREE (wb_buffer wb) ss);
     Some (upd_slot i (\<lambda>s. s\<lparr>sk_wbs := (sk_wbs s)(a := None)\<rparr>) ss)
   }"

section \<open>Lists of write buffers\<close>

fun wl :: "priority \<Rightarrow> socket \<Rightarrow> wb_list" where
  "wl PRIORITY_HIGH s = sk_high s"
| "wl PRIORITY_LOW s = sk_low s"

fun set_wl :: "priority \<Rightarrow> wb_list \<Rightarrow> socket \<Rightarrow> socket" where
  "set_wl PRIORITY_HIGH l s = s\<lparr>sk_high := l\<rparr>"
| "set_wl PRIORITY_LOW l s = s\<lparr>sk_low := l\<rparr>"

definition clear_wb_list :: wb_list where
  "clear_wb_list = \<lparr>wl_head = None, wl_tail = None\<rparr>"

partial_function (option) free_wbs :: "nat \<Rightarrow> addr option \<Rightarrow> socket_server \<Rightarrow> socket_server option" where
  "free_wbs i wb ss = (case wb of
     None \<Rightarrow> Some ss
   | Some tmp \<Rightarrow> do {
       b \<leftarrow> sk_wbs (ss_slot ss i) tmp;
       ss \<leftarrow> write_buffer_free i tmp ss;
       free_wbs i (wb_next b) ss
     })"

definition free_wb_list :: "nat \<Rightarrow> priority \<Rightarrow> socket_server \<Rightarrow> socket_server option" where
  "free_wb_list i pr ss = do {
     ss \<leftarrow> free_wbs i (wl_head (wl pr (ss_slot ss i))) ss;
     Some (upd_slot i (set_wl pr clear_wb_list) ss)
   }"

definition check_wb_list :: "wb_list \<Rightarrow> unit option" where
  "check_wb_list l = do { c_assert (wl_head l = None); c_assert (wl_tail l = None) }"

definition list_uncomplete :: "nat \<Rightarrow> priority \<Rightarrow> socket_server \<Rightarrow> bool option" where
  "list_uncomplete i pr ss =
     (case wl_head (wl pr (ss_slot ss i)) of
        None \<Rightarrow> Some False
      | Some a \<Rightarrow> do { wb \<leftarrow> sk_wbs (ss_slot ss i) a; Some (wb_ptr wb \<noteq> wb_buffer wb) })"

definition raise_uncomplete :: "nat \<Rightarrow> socket_server \<Rightarrow> socket_server option" where
  "raise_uncomplete i ss = do {
     tmp \<leftarrow> wl_head (sk_low (ss_slot ss i));
     wb \<leftarrow> sk_wbs (ss_slot ss i) tmp;
     let low = \<lparr>wl_head = wb_next wb,
                wl_tail = (if wb_next wb = None then None else wl_tail (sk_low (ss_slot ss i)))\<rparr>;
     c_assert (wl_head (sk_high (ss_slot ss i)) = None);
     Some (upd_slot i (\<lambda>s. s\<lparr>sk_low := low, sk_wbs := (sk_wbs s)(tmp \<mapsto> wb\<lparr>wb_next := None\<rparr>),
       sk_high := \<lparr>wl_head = Some tmp, wl_tail = Some tmp\<rparr>\<rparr>) ss)
   }"

definition send_buffer_empty :: "socket \<Rightarrow> bool" where
  "send_buffer_empty s \<longleftrightarrow> wl_head (sk_high s) = None \<and> wl_head (sk_low s) = None"

text \<open>\<open>udp\<close> is the address of a \<open>write_buffer_udp\<close>; a plain \<open>write_buffer\<close> has none.\<close>

definition append_sendbuffer' ::
  "nat \<Rightarrow> priority \<Rightarrow> request_send \<Rightarrow> u8 list option \<Rightarrow> socket_server \<Rightarrow> (addr \<times> socket_server) option" where
  "append_sendbuffer' i pr request udp ss = do {
     let a = ss_brk ss;
     let l = wl pr (ss_slot ss i);
     (uo, so) \<leftarrow> send_object_init ss (rq_buffer request) (rq_sz request);
     let buf = \<lparr>wb_next = None, wb_buffer = rq_buffer request, wb_ptr = so_buffer so, wb_sz = so_sz so,
                wb_userobject = uo, wb_udp = udp\<rparr>;
     let ss = upd_slot i (\<lambda>s. s\<lparr>sk_wbs := (sk_wbs s)(a \<mapsto> buf)\<rparr>) (ss\<lparr>ss_brk := a + 1\<rparr>);
     (case wl_head l of
        None \<Rightarrow> Some (a, upd_slot i (set_wl pr \<lparr>wl_head = Some a, wl_tail = Some a\<rparr>) ss)
      | Some h \<Rightarrow> do {
          t \<leftarrow> wl_tail l;
          tb \<leftarrow> sk_wbs (ss_slot ss i) t;
          c_assert (wb_next tb = None);
          Some (a, upd_slot i (\<lambda>s. set_wl pr \<lparr>wl_head = Some h, wl_tail = Some a\<rparr>
            (s\<lparr>sk_wbs := (sk_wbs s)(t \<mapsto> tb\<lparr>wb_next := Some a\<rparr>)\<rparr>)) ss)
        })
   }"

text \<open>\<open>append_sendbuffer\<close> (high), \<open>append_sendbuffer_low\<close> and \<open>append_sendbuffer_udp\<close>.\<close>

definition append_counted ::
  "nat \<Rightarrow> priority \<Rightarrow> request_send \<Rightarrow> u8 list option \<Rightarrow> socket_server \<Rightarrow> socket_server option" where
  "append_counted i pr request udp ss = do {
     (a, ss) \<leftarrow> append_sendbuffer' i pr request udp ss;
     buf \<leftarrow> sk_wbs (ss_slot ss i) a;
     Some (upd_slot i (\<lambda>s. s\<lparr>sk_wb_size := sk_wb_size s + wb_sz buf\<rparr>) ss)
   }"

definition append_sendbuffer :: "nat \<Rightarrow> request_send \<Rightarrow> socket_server \<Rightarrow> socket_server option" where
  "append_sendbuffer i request = append_counted i PRIORITY_HIGH request None"

definition append_sendbuffer_low :: "nat \<Rightarrow> request_send \<Rightarrow> socket_server \<Rightarrow> socket_server option" where
  "append_sendbuffer_low i request = append_counted i PRIORITY_LOW request None"

definition append_sendbuffer_udp ::
  "nat \<Rightarrow> priority \<Rightarrow> request_send \<Rightarrow> u8 list \<Rightarrow> socket_server \<Rightarrow> socket_server option" where
  "append_sendbuffer_udp i pr request udp_address =
     append_counted i pr request (Some (take UDP_ADDRESS_SIZE udp_address))"

section \<open>Slots\<close>

text \<open>
  The counter is an atomic \<open>int\<close> that wraps; when the id is negative the counter is masked and
  the id taken again. In one step the compare-and-swap succeeds.
\<close>

definition next_id :: "socket_server \<Rightarrow> int \<times> socket_server" where
  "next_id ss =
     (let sid = to_int32 (ss_alloc_id ss + 1); ss = ss\<lparr>ss_alloc_id := sid\<rparr>
      in if sid < 0 then (let a = ss_alloc_id ss mod 2147483648 in (a, ss\<lparr>ss_alloc_id := a\<rparr>))
         else (sid, ss))"

definition reserve_slot :: "int \<Rightarrow> socket \<Rightarrow> socket" where
  "reserve_slot sid s = s\<lparr>sk_type := SOCKET_TYPE_RESERVE, sk_id := sid, sk_protocol := PROTOCOL_UNKNOWN,
     sk_udpconnecting := 0, sk_fd := -1\<rparr>"

function reserve_from :: "int \<Rightarrow> socket_server \<Rightarrow> int \<times> socket_server" where
  "reserve_from i ss =
     (if i < MAX_SOCKET then
        (let (sid, ss) = next_id ss in
         if sk_type (ss_slot ss (HASH_ID sid)) = SOCKET_TYPE_INVALID
         then (sid, upd_slot (HASH_ID sid) (reserve_slot sid) ss)
         else reserve_from (i + 1) ss)
      else (-1, ss))"
  by auto
termination by (relation "measure (\<lambda>(i, ss). nat (MAX_SOCKET - i))") auto

definition reserve_id :: "socket_server \<Rightarrow> int \<times> socket_server" where
  "reserve_id = reserve_from 0"

definition enable_write :: "kernel \<Rightarrow> nat \<Rightarrow> bool \<Rightarrow> socket_server \<Rightarrow> bool \<times> socket_server" where
  "enable_write K i enable ss =
     (let s = ss_slot ss i in
      if sk_writing s \<noteq> enable then
        sp_enable K (sk_fd s) i (sk_reading s) enable (upd_slot i (\<lambda>s. s\<lparr>sk_writing := enable\<rparr>) ss)
      else (False, ss))"

definition enable_read :: "kernel \<Rightarrow> nat \<Rightarrow> bool \<Rightarrow> socket_server \<Rightarrow> bool \<times> socket_server" where
  "enable_read K i enable ss =
     (let s = ss_slot ss i in
      if sk_reading s \<noteq> enable then
        sp_enable K (sk_fd s) i enable (sk_writing s) (upd_slot i (\<lambda>s. s\<lparr>sk_reading := enable\<rparr>) ss)
      else (False, ss))"

definition set_type :: "nat \<Rightarrow> socket_type \<Rightarrow> socket_server \<Rightarrow> socket_server" where
  "set_type i t = upd_slot i (\<lambda>s. s\<lparr>sk_type := t\<rparr>)"

text \<open>The fields that \<open>new_fd\<close> sets.\<close>

definition fresh_slot :: "int \<Rightarrow> int \<Rightarrow> u8 \<Rightarrow> u64 \<Rightarrow> socket \<Rightarrow> socket" where
  "fresh_slot sid fd protocol opaque s = s\<lparr>sk_id := sid, sk_fd := fd, sk_reading := True,
     sk_writing := False, sk_closing := False, sk_sending := ID_TAG16 sid * 65536,
     sk_protocol := protocol, sk_p := P_size MIN_READ_BUFFER, sk_opaque := opaque,
     sk_wb_size := 0, sk_warn_size := 0, sk_dw_buffer := None, sk_dw_size := 0,
     sk_stat := \<lparr>st_rtime = 0, st_wtime = 0, st_read = 0, st_write = 0\<rparr>\<rparr>"

text \<open>The result is \<open>True\<close> for a pointer to the slot and \<open>False\<close> for \<open>NULL\<close>.\<close>

definition new_fd ::
  "kernel \<Rightarrow> int \<Rightarrow> int \<Rightarrow> u8 \<Rightarrow> u64 \<Rightarrow> bool \<Rightarrow> socket_server \<Rightarrow> (bool \<times> socket_server) option" where
  "new_fd K sid fd protocol opaque reading ss = do {
     let i = HASH_ID sid;
     c_assert (sk_type (ss_slot ss i) = SOCKET_TYPE_RESERVE);
     let (failed, ss) = sp_add K fd (Some i) ss;
     if failed then Some (False, set_type i SOCKET_TYPE_INVALID ss)
     else do {
       check_wb_list (sk_high (ss_slot ss i));
       check_wb_list (sk_low (ss_slot ss i));
       let ss = upd_slot i (fresh_slot sid fd protocol opaque) ss;
       let (failed, ss) = enable_read K i reading ss;
       if failed then Some (False, set_type i SOCKET_TYPE_INVALID ss) else Some (True, ss)
     }
   }"

definition stat_read :: "nat \<Rightarrow> int \<Rightarrow> socket_server \<Rightarrow> socket_server" where
  "stat_read i n ss = upd_slot i (\<lambda>s. s\<lparr>sk_stat := (sk_stat s)
     \<lparr>st_read := st_read (sk_stat s) + word_of_int (to_int32 n), st_rtime := ss_time ss\<rparr>\<rparr>) ss"

definition stat_write :: "nat \<Rightarrow> int \<Rightarrow> socket_server \<Rightarrow> socket_server" where
  "stat_write i n ss = upd_slot i (\<lambda>s. s\<lparr>sk_stat := (sk_stat s)
     \<lparr>st_write := st_write (sk_stat s) + word_of_int (to_int32 n), st_wtime := ss_time ss\<rparr>\<rparr>) ss"

section \<open>Closing\<close>

definition report_to :: "socket \<Rightarrow> event_data \<Rightarrow> socket_message" where
  "report_to s d = \<lparr>rs_id = sk_id s, rs_opaque = sk_opaque s, rs_ud = 0, rs_data = d\<rparr>"

text \<open>The middle of \<open>force_close\<close>: the descriptor of a bound socket is not closed.\<close>

definition close_fd :: "kernel \<Rightarrow> nat \<Rightarrow> socket_server \<Rightarrow> socket_server" where
  "close_fd K i ss =
     (let s = ss_slot ss i;
          ss = sp_del (sk_fd s) ss;
          ss = (if sk_type s \<noteq> SOCKET_TYPE_BIND then
                  (let (ok, ss) = sys_close K (sk_fd s) ss
                   in if ok then ss else skynet_error_log ''close socket:'' ss)
                else ss)
      in set_type i SOCKET_TYPE_INVALID ss)"

text \<open>The end of \<open>force_close\<close>: the rest of a direct write is freed.\<close>

definition free_direct :: "nat \<Rightarrow> socket_server \<Rightarrow> socket_server option" where
  "free_direct i ss =
     (let s = ss_slot ss i in
      if sk_dw_buffer s \<noteq> None then do {
        ss \<leftarrow> free_buffer \<lparr>sb_id = sk_id s,
          sb_type = (if sk_dw_size s = USEROBJECT then SOCKET_BUFFER_OBJECT else SOCKET_BUFFER_MEMORY),
          sb_buffer = sk_dw_buffer s, sb_sz = sk_dw_size s\<rparr> ss;
        Some (upd_slot i (\<lambda>s. s\<lparr>sk_dw_buffer := None\<rparr>) ss)
      } else Some ss)"

definition force_close ::
  "kernel \<Rightarrow> nat \<Rightarrow> socket_server \<Rightarrow> (socket_message \<times> socket_server) option" where
  "force_close K i ss = do {
     let result = report_to (ss_slot ss i) Data_null;
     let type = sk_type (ss_slot ss i);
     if type = SOCKET_TYPE_INVALID then Some (result, ss)
     else do {
       c_assert (type \<noteq> SOCKET_TYPE_RESERVE);
       ss \<leftarrow> free_wb_list i PRIORITY_HIGH ss;
       ss \<leftarrow> free_wb_list i PRIORITY_LOW ss;
       ss \<leftarrow> free_direct i (close_fd K i ss);
       Some (result, ss)
     }
   }"

definition report_error :: "nat \<Rightarrow> string \<Rightarrow> socket_server \<Rightarrow> socket_result option \<times> socket_message \<times> socket_server" where
  "report_error i err ss = (Some SOCKET_ERR, report_to (ss_slot ss i) (Data_text err), ss)"

type_synonym handled = "(socket_result option \<times> socket_message \<times> socket_server) option"

definition close_write :: "kernel \<Rightarrow> nat \<Rightarrow> socket_message \<Rightarrow> socket_server \<Rightarrow> handled" where
  "close_write K i result ss =
     (let s = ss_slot ss i in
      if sk_closing s then do { (result, ss) \<leftarrow> force_close K i ss; Some (Some SOCKET_RST, result, ss) }
      else if sk_type s = SOCKET_TYPE_HALFCLOSE_READ then
        do { (result, ss) \<leftarrow> force_close K i ss; Some (Some SOCKET_RST, result, ss) }
      else if sk_type s = SOCKET_TYPE_HALFCLOSE_WRITE then Some (Some SOCKET_RST, result, ss)
      else
        (let ss = set_type i SOCKET_TYPE_HALFCLOSE_WRITE ss;
             ss = sys_log (Sys_shutdown (sk_fd s) True) ss;
             (_, ss) = enable_write K i False ss
         in Some (report_error i (k_strerror K (k_errno K (ss_trace ss))) ss)))"

section \<open>Writing the lists\<close>

text \<open>
  The loop of the stream. The inner loop only repeats an interrupted \<open>write\<close> of the same buffer,
  which is what the next round does.
\<close>

partial_function (option) send_list_tcp ::
  "kernel \<Rightarrow> nat \<Rightarrow> priority \<Rightarrow> socket_message \<Rightarrow> socket_server \<Rightarrow> handled" where
  "send_list_tcp K i pr result ss =
     (let s = ss_slot ss i; l = wl pr s in
      case wl_head l of
        None \<Rightarrow> Some (None, result, upd_slot i (set_wl pr (l\<lparr>wl_tail := None\<rparr>)) ss)
      | Some tmp \<Rightarrow> do {
          wb \<leftarrow> sk_wbs s tmp;
          (sz, err, ss) \<leftarrow> sys_write K (sk_id s) (sk_fd s) (wb_ptr wb) (wb_sz wb) ss;
          if sz < 0 then
            (if err = EINTR then send_list_tcp K i pr result ss
             else if err = EAGAIN then Some (None, result, ss)
             else close_write K i result ss)
          else do {
            let ss = stat_write i sz ss;
            let ss = upd_slot i (\<lambda>s. s\<lparr>sk_wb_size := sk_wb_size s - sz\<rparr>) ss;
            if sz \<noteq> wb_sz wb then
              Some (None, result, upd_slot i (\<lambda>s. s\<lparr>sk_wbs := (sk_wbs s)
                (tmp \<mapsto> wb\<lparr>wb_ptr := ptr_add (wb_ptr wb) sz, wb_sz := wb_sz wb - sz\<rparr>)\<rparr>) ss)
            else do {
              let ss = upd_slot i (set_wl pr (l\<lparr>wl_head := wb_next wb\<rparr>)) ss;
              ss \<leftarrow> write_buffer_free i tmp ss;
              send_list_tcp K i pr result ss
            }
          }
        })"

text \<open>The address of a packet: type, port and host. The result \<open>0\<close> of the code is \<open>None\<close>.\<close>

definition udp_socket_address :: "socket \<Rightarrow> u8 list \<Rightarrow> sockaddr_all option" where
  "udp_socket_address s udp_address =
     (let type = udp_address ! 0; port = take 2 (drop 1 udp_address) in
      if type \<noteq> sk_protocol s then None
      else if sk_protocol s = PROTOCOL_UDP then Some (V4 port (take 4 (drop 3 udp_address)))
      else if sk_protocol s = PROTOCOL_UDPv6 then Some (V6 port (take 16 (drop 3 udp_address)))
      else None)"

text \<open>The bytes of an address; a family that does not fit the protocol is not read as another one.\<close>

fun gen_udp_address :: "u8 \<Rightarrow> sockaddr_all \<Rightarrow> u8 list option" where
  "gen_udp_address protocol (V4 port host) =
     (if protocol = PROTOCOL_UDP then Some (protocol # port @ host) else None)"
| "gen_udp_address protocol (V6 port host) =
     (if protocol = PROTOCOL_UDP then None else Some (protocol # port @ host))"

definition drop_udp :: "nat \<Rightarrow> priority \<Rightarrow> addr \<Rightarrow> socket_server \<Rightarrow> socket_server option" where
  "drop_udp i pr tmp ss = do {
     wb \<leftarrow> sk_wbs (ss_slot ss i) tmp;
     let ss = upd_slot i (\<lambda>s. s\<lparr>sk_wb_size := sk_wb_size s - wb_sz wb\<rparr>) ss;
     let ss = upd_slot i (\<lambda>s. set_wl pr \<lparr>wl_head = wb_next wb,
       wl_tail = (if wb_next wb = None then None else wl_tail (wl pr s))\<rparr> s) ss;
     write_buffer_free i tmp ss
   }"

text \<open>A plain write buffer in the list is read as a \<open>write_buffer_udp\<close>: an access behind its end.\<close>

partial_function (option) send_list_udp ::
  "kernel \<Rightarrow> nat \<Rightarrow> priority \<Rightarrow> socket_message \<Rightarrow> socket_server \<Rightarrow> handled" where
  "send_list_udp K i pr result ss =
     (let s = ss_slot ss i; l = wl pr s in
      case wl_head l of
        None \<Rightarrow> Some (None, result, upd_slot i (set_wl pr (l\<lparr>wl_tail := None\<rparr>)) ss)
      | Some tmp \<Rightarrow> do {
          wb \<leftarrow> sk_wbs s tmp;
          udp_address \<leftarrow> wb_udp wb;
          (case udp_socket_address s udp_address of
             None \<Rightarrow> do {
               ss \<leftarrow> drop_udp i pr tmp
                 (skynet_error_log (''socket-server : udp ('' @ fmt_d (sk_id s) @ '') type mismatch.'') ss);
               Some (None, result, ss)
             }
           | Some sa \<Rightarrow> do {
               (n, err, ss) \<leftarrow> sys_sendto K (sk_id s) (sk_fd s) (wb_ptr wb) (wb_sz wb) sa ss;
               if n < 0 then
                 (if err = EINTR \<or> err = EAGAIN then Some (None, result, ss)
                  else do {
                    ss \<leftarrow> drop_udp i pr tmp (skynet_error_log (''socket-server : udp ('' @ fmt_d (sk_id s) @
                      '') sendto error '' @ k_strerror K err @ ''.'') ss);
                    Some (None, result, ss)
                  })
               else do {
                 let ss = stat_write i (wb_sz wb) ss;
                 let ss = upd_slot i (\<lambda>s. s\<lparr>sk_wb_size := sk_wb_size s - wb_sz wb\<rparr>) ss;
                 let ss = upd_slot i (set_wl pr (l\<lparr>wl_head := wb_next wb\<rparr>)) ss;
                 ss \<leftarrow> write_buffer_free i tmp ss;
                 send_list_udp K i pr result ss
               }
             })
        })"

definition send_list :: "kernel \<Rightarrow> nat \<Rightarrow> priority \<Rightarrow> socket_message \<Rightarrow> socket_server \<Rightarrow> handled" where
  "send_list K i pr result ss =
     (if sk_protocol (ss_slot ss i) = PROTOCOL_TCP then send_list_tcp K i pr result ss
      else send_list_udp K i pr result ss)"

text \<open>
  \<open>send_buffer_\<close>, in the four steps of its comment: \<open>flush_done\<close> is the last one, when both lists
  are empty.
\<close>

definition flush_done :: "kernel \<Rightarrow> nat \<Rightarrow> socket_message \<Rightarrow> socket_server \<Rightarrow> handled" where
  "flush_done K i result ss = do {
     let s = ss_slot ss i;
     c_assert (send_buffer_empty s \<and> sk_wb_size s = 0);
     if sk_closing s then do { (result, ss) \<leftarrow> force_close K i ss; Some (None, result, ss) }
     else do {
       let (err, ss) = enable_write K i False ss;
       if err then Some (report_error i ''disable write failed'' ss)
       else if 0 < sk_warn_size (ss_slot ss i) then
         Some (Some SOCKET_WARNING, report_to (ss_slot ss i) Data_null,
           upd_slot i (\<lambda>s. s\<lparr>sk_warn_size := 0\<rparr>) ss)
       else Some (None, result, ss)
     }
   }"

definition send_buffer' :: "kernel \<Rightarrow> nat \<Rightarrow> socket_message \<Rightarrow> socket_server \<Rightarrow> handled" where
  "send_buffer' K i result ss = do {
     u \<leftarrow> list_uncomplete i PRIORITY_LOW ss;
     c_assert (\<not> u);
     (ret, result, ss) \<leftarrow> send_list K i PRIORITY_HIGH result ss;
     if ret \<noteq> None then
       (if ret = Some SOCKET_ERR then Some (Some SOCKET_ERR, result, ss) else Some (None, result, ss))
     else if wl_head (sk_high (ss_slot ss i)) = None then
       (if wl_head (sk_low (ss_slot ss i)) \<noteq> None then do {
          (ret, result, ss) \<leftarrow> send_list K i PRIORITY_LOW result ss;
          if ret \<noteq> None then
            (if ret = Some SOCKET_ERR then Some (Some SOCKET_ERR, result, ss) else Some (None, result, ss))
          else do {
            u \<leftarrow> list_uncomplete i PRIORITY_LOW ss;
            if u then do { ss \<leftarrow> raise_uncomplete i ss; Some (None, result, ss) }
            else if wl_head (sk_low (ss_slot ss i)) \<noteq> None then Some (None, result, ss)
            else flush_done K i result ss
          }
        } else flush_done K i result ss)
     else Some (None, result, ss)
   }"

text \<open>The rest of a direct write becomes the first buffer of the high list.\<close>

definition push_direct :: "nat \<Rightarrow> socket_server \<Rightarrow> socket_server option" where
  "push_direct i ss =
     (let s = ss_slot ss i in
      if sk_dw_buffer s \<noteq> None then do {
        let a = ss_brk ss;
        (uo, so) \<leftarrow> send_object_init ss (sk_dw_buffer s) (sk_dw_size s);
        let buf = \<lparr>wb_next = wl_head (sk_high s), wb_buffer = sk_dw_buffer s,
                   wb_ptr = ptr_add (so_buffer so) (sk_dw_offset s),
                   wb_sz = (so_sz so - sk_dw_offset s) mod 18446744073709551616,
                   wb_userobject = uo, wb_udp = None\<rparr>;
        let high = \<lparr>wl_head = Some a,
                    wl_tail = (if wl_head (sk_high s) = None then Some a else wl_tail (sk_high s))\<rparr>;
        Some (upd_slot i (\<lambda>s. s\<lparr>sk_wbs := (sk_wbs s)(a \<mapsto> buf), sk_high := high,
          sk_wb_size := sk_wb_size s + wb_sz buf, sk_dw_buffer := None\<rparr>) (ss\<lparr>ss_brk := a + 1\<rparr>))
      } else Some ss)"

definition socket_trylock :: "kernel \<Rightarrow> nat \<Rightarrow> socket_server \<Rightarrow> bool \<times> socket_server" where
  "socket_trylock K i ss = (k_trylock K (ss_trace ss), sys_log (Sys_trylock (int i)) ss)"

definition send_buffer :: "kernel \<Rightarrow> nat \<Rightarrow> socket_message \<Rightarrow> socket_server \<Rightarrow> handled" where
  "send_buffer K i result ss =
     (let (ok, ss) = socket_trylock K i ss in
      if \<not> ok then Some (None, result, ss)
      else do { ss \<leftarrow> push_direct i ss; send_buffer' K i result ss })"

definition trigger_write :: "kernel \<Rightarrow> request_send \<Rightarrow> socket_message \<Rightarrow> socket_server \<Rightarrow> handled" where
  "trigger_write K request result ss =
     (let sid = rq_id request; i = HASH_ID sid in
      if socket_invalid (ss_slot ss i) sid then Some (None, result, ss)
      else let (err, ss) = enable_write K i True ss
           in if err then Some (report_error i ''enable write failed'' ss) else Some (None, result, ss))"

text \<open>The end of \<open>send_socket\<close>: a warning when the waiting data passes the next limit.\<close>

definition warn_wb :: "nat \<Rightarrow> socket_message \<Rightarrow> socket_server \<Rightarrow> handled" where
  "warn_wb i result ss =
     (let s = ss_slot ss i in
      if WARNING_SIZE \<le> sk_wb_size s \<and> sk_warn_size s \<le> sk_wb_size s then
        Some (Some SOCKET_WARNING,
          (report_to s Data_null)\<lparr>rs_ud := (if sk_wb_size s mod 1024 = 0 then sk_wb_size s div 1024
                                           else sk_wb_size s div 1024 + 1)\<rparr>,
          upd_slot i (\<lambda>s. s\<lparr>sk_warn_size := (if sk_warn_size s = 0 then WARNING_SIZE * 2
                                             else sk_warn_size s * 2)\<rparr>) ss)
      else Some (None, result, ss))"

text \<open>After an append to empty lists the write event is enabled.\<close>

definition enable_and_warn :: "kernel \<Rightarrow> nat \<Rightarrow> socket_message \<Rightarrow> socket_server \<Rightarrow> handled" where
  "enable_and_warn K i result ss =
     (let (err, ss) = enable_write K i True ss
      in if err then Some (report_error i ''enable write failed'' ss) else warn_wb i result ss)"

text \<open>The default address of a slot, when no address is given; a stream has none.\<close>

definition default_address :: "socket \<Rightarrow> u8 list option \<Rightarrow> u8 list option" where
  "default_address s udp_address = (case udp_address of
     Some a \<Rightarrow> Some a
   | None \<Rightarrow> (case sk_p s of P_address a \<Rightarrow> Some a | P_size n \<Rightarrow> None))"

definition send_socket ::
  "kernel \<Rightarrow> request_send \<Rightarrow> socket_message \<Rightarrow> priority \<Rightarrow> u8 list option \<Rightarrow> socket_server \<Rightarrow> handled" where
  "send_socket K request result pr udp_address ss = do {
     let sid = rq_id request;
     let i = HASH_ID sid;
     let s = ss_slot ss i;
     (_, so) \<leftarrow> send_object_init ss (rq_buffer request) (rq_sz request);
     if sk_type s = SOCKET_TYPE_INVALID \<or> sk_id s \<noteq> sid \<or> sk_type s = SOCKET_TYPE_HALFCLOSE_WRITE
        \<or> sk_type s = SOCKET_TYPE_PACCEPT \<or> sk_closing s
     then do { ss \<leftarrow> free_func so (rq_buffer request) ss; Some (None, result, ss) }
     else if sk_type s = SOCKET_TYPE_PLISTEN \<or> sk_type s = SOCKET_TYPE_LISTEN then do {
       ss \<leftarrow> free_func so (rq_buffer request)
         (skynet_error_log (''socket-server: write to listen fd '' @ fmt_d sid @ ''.'') ss);
       Some (None, result, ss)
     }
     else if send_buffer_empty s then
       (if sk_protocol s = PROTOCOL_TCP then do {
          ss \<leftarrow> append_sendbuffer i request ss;
          enable_and_warn K i result ss
        } else do {
          a \<leftarrow> default_address s udp_address;
          (case udp_socket_address s a of
             None \<Rightarrow> do {
               ss \<leftarrow> free_func so (rq_buffer request)
                 (skynet_error_log (''socket-server: udp socket ('' @ fmt_d sid @ '') type mismatch.'') ss);
               Some (None, result, ss)
             }
           | Some sa \<Rightarrow> do {
               (n, _, ss) \<leftarrow> sys_sendto K (sk_id s) (sk_fd s) (so_buffer so) (so_sz so) sa ss;
               if n \<noteq> so_sz so then do {
                 ss \<leftarrow> append_sendbuffer_udp i pr request a ss;
                 enable_and_warn K i result ss
               } else do {
                 ss \<leftarrow> free_func so (rq_buffer request) (stat_write i n ss);
                 Some (None, result, ss)
               }
             })
        })
     else if sk_protocol s = PROTOCOL_TCP then do {
       ss \<leftarrow> (if pr = PRIORITY_LOW then append_sendbuffer_low i request ss
             else append_sendbuffer i request ss);
       warn_wb i result ss
     }
     else do {
       a \<leftarrow> default_address s udp_address;
       ss \<leftarrow> append_sendbuffer_udp i pr request a ss;
       warn_wb i result ss
     }
   }"

end
