(* ===== verification/Socket_Poll.thy ===== *)
theory Socket_Poll
  imports Socket_Write
begin

text \<open>
  The socket thread (\<open>socket_server.c\<close>, lines 604 to 683 and 1083 to 1784): the requests that
  arrive through the pipe, the events of the file descriptors, and the loop of
  \<open>socket_server_poll\<close>.
\<close>

section \<open>Opening\<close>

text \<open>
  The loop of \<open>open_socket\<close> over the addresses: \<open>None\<close> when every one failed, otherwise the
  descriptor, its address and whether \<open>connect\<close> was done at once.
\<close>

fun open_try ::
  "kernel \<Rightarrow> (family \<times> sockaddr_all) list \<Rightarrow> socket_server \<Rightarrow> (int \<times> sockaddr_all \<times> bool) option \<times> socket_server" where
  "open_try K [] ss = (None, ss)"
| "open_try K ((fam, sa) # ai_list) ss =
     (let sock = k_socket K (ss_trace ss) fam; ss = sys_log (Sys_socket fam) ss in
      if sock < 0 then open_try K ai_list ss
      else
        (let ss = sp_nonblocking sock (socket_keepalive sock ss);
             err = k_connect K (ss_trace ss) sock sa; ss = sys_log (Sys_connect sock sa) ss in
         if err \<noteq> None \<and> err \<noteq> Some EINPROGRESS then
           (let (_, ss) = sys_close K sock ss in open_try K ai_list ss)
         else (Some (sock, sa, err = None), ss)))"

definition open_failed ::
  "kernel \<Rightarrow> int \<Rightarrow> u64 \<Rightarrow> int option \<Rightarrow> string \<Rightarrow> socket_server \<Rightarrow> socket_result option \<times> socket_message \<times> socket_server" where
  "open_failed K sid opaque sock err ss =
     (let ss = (case sock of None \<Rightarrow> ss | Some fd \<Rightarrow> snd (sys_close K fd ss));
          ss = set_type (HASH_ID sid) SOCKET_TYPE_INVALID ss
      in (Some SOCKET_ERR, \<lparr>rs_id = sid, rs_opaque = opaque, rs_ud = 0, rs_data = Data_text err\<rparr>, ss))"

definition open_socket :: "kernel \<Rightarrow> request_open \<Rightarrow> socket_server \<Rightarrow> handled" where
  "open_socket K request ss =
     (let sid = ro_id request; i = HASH_ID sid; opaque = ro_opaque request;
          result = \<lparr>rs_id = sid, rs_opaque = opaque, rs_ud = 0, rs_data = Data_null\<rparr>;
          ai = k_getaddrinfo K (ss_trace ss) (ro_host request) (ro_port request);
          ss = sys_log (Sys_getaddrinfo (ro_host request) (ro_port request)) ss in
      case ai of
        Inl status \<Rightarrow> Some (open_failed K sid opaque None (k_gai_strerror K status) ss)
      | Inr ai_list \<Rightarrow>
          (case open_try K ai_list ss of
             (None, ss) \<Rightarrow> Some (open_failed K sid opaque None (k_strerror K (k_errno K (ss_trace ss))) ss)
           | (Some (sock, sa, connected), ss) \<Rightarrow> do {
               (ns, ss) \<leftarrow> new_fd K sid sock PROTOCOL_TCP opaque True ss;
               if \<not> ns then
                 Some (open_failed K sid opaque (Some sock) ''reach skynet socket number limit'' ss)
               else if connected then
                 (let ss = set_type i SOCKET_TYPE_CONNECTED ss in
                  case k_inet_ntop K sa of
                    Some name \<Rightarrow>
                      Some (Some SOCKET_OPEN, result\<lparr>rs_data := Data_text name\<rparr>, ss\<lparr>ss_buffer := name\<rparr>)
                  | None \<Rightarrow> Some (Some SOCKET_OPEN, result, ss))
               else
                 (let (err, ss) = enable_write K i True ss in
                  if err then Some (open_failed K sid opaque (Some sock) ''enable write failed'' ss)
                  else Some (None, result, set_type i SOCKET_TYPE_CONNECTING ss))
             }))"

text \<open>The port of an address, from network order.\<close>

fun sin_port :: "sockaddr_all \<Rightarrow> int" where
  "sin_port (V4 port host) = uint (port ! 0) * 256 + uint (port ! 1)"
| "sin_port (V6 port host) = uint (port ! 0) * 256 + uint (port ! 1)"

definition listen_socket :: "kernel \<Rightarrow> request_listen \<Rightarrow> socket_server \<Rightarrow> handled" where
  "listen_socket K request ss = do {
     let sid = rl_id request;
     let listen_fd = rl_fd request;
     let result = \<lparr>rs_id = sid, rs_opaque = rl_opaque request, rs_ud = 0, rs_data = Data_text ''listen''\<rparr>;
     (s, ss) \<leftarrow> new_fd K sid listen_fd PROTOCOL_TCP (rl_opaque request) False ss;
     if \<not> s then
       (let (_, ss) = sys_close K listen_fd ss in
        Some (Some SOCKET_ERR, result\<lparr>rs_data := Data_text ''reach skynet socket number limit''\<rparr>,
          set_type (HASH_ID sid) SOCKET_TYPE_INVALID ss))
     else
       (let ss = set_type (HASH_ID sid) SOCKET_TYPE_PLISTEN ss;
            errtext = Data_text (k_strerror K (k_errno K (ss_trace ss))) in
        case k_getsockname K (ss_trace ss) listen_fd of
          None \<Rightarrow> Some (Some SOCKET_ERR, result\<lparr>rs_data := errtext\<rparr>, ss)
        | Some u \<Rightarrow>
            (case k_inet_ntop K u of
               None \<Rightarrow> Some (Some SOCKET_ERR, result\<lparr>rs_data := errtext\<rparr>, ss)
             | Some name \<Rightarrow>
                 Some (Some SOCKET_OPEN, result\<lparr>rs_data := Data_text name, rs_ud := sin_port u\<rparr>,
                   ss\<lparr>ss_buffer := name\<rparr>)))
   }"

definition bind_socket :: "kernel \<Rightarrow> request_bind \<Rightarrow> socket_server \<Rightarrow> handled" where
  "bind_socket K request ss = do {
     let sid = rb_id request;
     let result = \<lparr>rs_id = sid, rs_opaque = rb_opaque request, rs_ud = 0, rs_data = Data_text ''binding''\<rparr>;
     (s, ss) \<leftarrow> new_fd K sid (rb_fd request) PROTOCOL_TCP (rb_opaque request) True ss;
     if \<not> s then
       Some (Some SOCKET_ERR, result\<lparr>rs_data := Data_text ''reach skynet socket number limit''\<rparr>, ss)
     else
       Some (Some SOCKET_OPEN, result,
         set_type (HASH_ID sid) SOCKET_TYPE_BIND (sp_nonblocking (rb_fd request) ss))
   }"

definition add_udp_socket :: "kernel \<Rightarrow> request_udp \<Rightarrow> socket_server \<Rightarrow> socket_server option" where
  "add_udp_socket K udp ss = do {
     let i = HASH_ID (ru_id udp);
     let protocol = (if ru_family udp = AF_INET6 then PROTOCOL_UDPv6 else PROTOCOL_UDP);
     (ns, ss) \<leftarrow> new_fd K (ru_id udp) (ru_fd udp) protocol (ru_opaque udp) True ss;
     if \<not> ns then
       Some (set_type i SOCKET_TYPE_INVALID (snd (sys_close K (ru_fd udp) ss)))
     else
       Some (upd_slot i (\<lambda>s. s\<lparr>sk_p := P_address (replicate UDP_ADDRESS_SIZE 0)\<rparr>)
         (set_type i SOCKET_TYPE_CONNECTED ss))
   }"

section \<open>Closing, starting and stopping\<close>

definition nomore_sending_data :: "socket \<Rightarrow> bool" where
  "nomore_sending_data s \<longleftrightarrow>
     (send_buffer_empty s \<and> sk_dw_buffer s = None \<and> sk_sending s mod 65536 = 0)
     \<or> sk_type s = SOCKET_TYPE_HALFCLOSE_WRITE"

definition close_read :: "kernel \<Rightarrow> nat \<Rightarrow> socket_server \<Rightarrow> socket_message \<times> socket_server" where
  "close_read K i ss =
     (let ss = set_type i SOCKET_TYPE_HALFCLOSE_READ ss;
          (_, ss) = enable_read K i False ss;
          ss = sys_log (Sys_shutdown (sk_fd (ss_slot ss i)) False) ss
      in (report_to (ss_slot ss i) Data_null, ss))"

definition halfclose_read :: "socket \<Rightarrow> bool" where
  "halfclose_read s \<longleftrightarrow> sk_type s = SOCKET_TYPE_HALFCLOSE_READ"

definition close_socket :: "kernel \<Rightarrow> request_close \<Rightarrow> socket_message \<Rightarrow> socket_server \<Rightarrow> handled" where
  "close_socket K request result ss =
     (let sid = rc_id request; i = HASH_ID sid; s = ss_slot ss i in
      if socket_invalid s sid then Some (None, result, ss)
      else
        (let shutdown_read = halfclose_read s in
         if rc_shutdown request \<or> nomore_sending_data s then do {
           (result, ss) \<leftarrow> force_close K i ss;
           Some (if shutdown_read then None else Some SOCKET_CLOSE, result, ss)
         }
         else
           (let ss = upd_slot i (\<lambda>s. s\<lparr>sk_closing := True\<rparr>) ss in
            if \<not> shutdown_read then
              (let (result, ss) = close_read K i ss in Some (Some SOCKET_CLOSE, result, ss))
            else Some (None, result, ss))))"

definition resume_socket :: "kernel \<Rightarrow> request_resumepause \<Rightarrow> socket_server \<Rightarrow> handled" where
  "resume_socket K request ss =
     (let sid = rp_id request; i = HASH_ID sid; s = ss_slot ss i;
          result = \<lparr>rs_id = sid, rs_opaque = rp_opaque request, rs_ud = 0, rs_data = Data_null\<rparr> in
      if socket_invalid s sid then
        Some (Some SOCKET_ERR, result\<lparr>rs_data := Data_text ''invalid socket''\<rparr>, ss)
      else if halfclose_read s then
        Some (Some SOCKET_ERR, result\<lparr>rs_data := Data_text ''socket closed''\<rparr>, ss)
      else
        (let (err, ss) = enable_read K i True ss in
         if err then Some (Some SOCKET_ERR, result\<lparr>rs_data := Data_text ''enable read failed''\<rparr>, ss)
         else if sk_type s = SOCKET_TYPE_PACCEPT \<or> sk_type s = SOCKET_TYPE_PLISTEN then
           Some (Some SOCKET_OPEN, result\<lparr>rs_data := Data_text ''start''\<rparr>,
             upd_slot i (\<lambda>s. s\<lparr>sk_opaque := rp_opaque request\<rparr>)
               (set_type i (if sk_type s = SOCKET_TYPE_PACCEPT then SOCKET_TYPE_CONNECTED
                            else SOCKET_TYPE_LISTEN) ss))
         else if sk_type s = SOCKET_TYPE_CONNECTED then
           Some (Some SOCKET_OPEN, result\<lparr>rs_data := Data_text ''transfer''\<rparr>,
             upd_slot i (\<lambda>s. s\<lparr>sk_opaque := rp_opaque request\<rparr>) ss)
         else Some (None, result, ss)))"

definition pause_socket :: "kernel \<Rightarrow> request_resumepause \<Rightarrow> socket_message \<Rightarrow> socket_server \<Rightarrow> handled" where
  "pause_socket K request result ss =
     (let sid = rp_id request; i = HASH_ID sid in
      if socket_invalid (ss_slot ss i) sid then Some (None, result, ss)
      else
        (let (err, ss) = enable_read K i False ss
         in if err then Some (report_error i ''enable read failed'' ss) else Some (None, result, ss)))"

definition setopt_socket :: "request_setopt \<Rightarrow> socket_server \<Rightarrow> socket_server" where
  "setopt_socket request ss =
     (let sid = rt_id request; s = ss_slot ss (HASH_ID sid) in
      if socket_invalid s sid then ss
      else sys_log (Sys_setsockopt (sk_fd s) (rt_what request) (rt_value request)) ss)"

text \<open>The bytes of the request end with its address; what follows them was not written.\<close>

definition set_udp_address ::
  "kernel \<Rightarrow> int \<Rightarrow> u8 list \<Rightarrow> socket_message \<Rightarrow> socket_server \<Rightarrow> handled" where
  "set_udp_address K sid address result ss =
     (let i = HASH_ID sid; s = ss_slot ss i; bytes = address @ k_stack K; type = bytes ! 0 in
      if socket_invalid s sid then Some (None, result, ss)
      else if type \<noteq> sk_protocol s then Some (report_error i ''protocol mismatch'' ss)
      else
        (case sk_p s of
           P_size n \<Rightarrow> None
         | P_address old \<Rightarrow>
             (let n = (if type = PROTOCOL_UDP then 1 + 2 + 4 else 1 + 2 + 16) in
              Some (None, result, upd_slot i (\<lambda>s. s\<lparr>sk_p := P_address (take n bytes @ drop n old),
                sk_udpconnecting := sk_udpconnecting s - 1\<rparr>) ss))))"

definition dec_sending_ref :: "int \<Rightarrow> socket_server \<Rightarrow> socket_server option" where
  "dec_sending_ref sid ss =
     (let i = HASH_ID sid; s = ss_slot ss i in
      if sk_id s = sid \<and> sk_protocol s = PROTOCOL_TCP then do {
        c_assert (sk_sending s mod 65536 \<noteq> 0);
        Some (upd_slot i (\<lambda>s. s\<lparr>sk_sending := sk_sending s - 1\<rparr>) ss)
      } else Some ss)"

section \<open>Requests\<close>

definition has_cmd :: "kernel \<Rightarrow> socket_server \<Rightarrow> bool \<times> socket_server" where
  "has_cmd K ss = (ss_pipe ss \<noteq> [] \<and> k_select K (ss_trace ss), sys_log Sys_select ss)"

text \<open>
  Reading a request takes the first one of the pipe; after a read error the code goes on with a
  buffer that was never written.
\<close>

definition block_readpipe :: "kernel \<Rightarrow> socket_server \<Rightarrow> (request_package \<times> socket_server) option" where
  "block_readpipe K ss =
     (case (k_pipe_read K (ss_trace ss), ss_pipe ss) of
        (None, p # ps) \<Rightarrow> Some (p, sys_log Sys_pipe (ss\<lparr>ss_pipe := ps\<rparr>))
      | _ \<Rightarrow> None)"

definition void_result :: "socket_message \<Rightarrow> socket_server option \<Rightarrow> handled" where
  "void_result result m = do { ss \<leftarrow> m; Some (None, result, ss) }"

definition ctrl_send ::
  "kernel \<Rightarrow> priority \<Rightarrow> request_send \<Rightarrow> socket_message \<Rightarrow> socket_server \<Rightarrow> handled" where
  "ctrl_send K pr request result ss = do {
     (ret, result, ss) \<leftarrow> send_socket K request result pr None ss;
     ss \<leftarrow> dec_sending_ref (rq_id request) ss;
     Some (ret, result, ss)
   }"

text \<open>The structure that the code casts the buffer to is the one that was written for the type.\<close>

definition ctrl_cmd :: "kernel \<Rightarrow> socket_message \<Rightarrow> socket_server \<Rightarrow> handled" where
  "ctrl_cmd K result ss = do {
     (p, ss) \<leftarrow> block_readpipe K ss;
     let type = pk_type p;
     if type = CHR ''R'' then (case pk_body p of U_resumepause r \<Rightarrow> resume_socket K r ss | _ \<Rightarrow> None)
     else if type = CHR ''S'' then (case pk_body p of U_resumepause r \<Rightarrow> pause_socket K r result ss | _ \<Rightarrow> None)
     else if type = CHR ''B'' then (case pk_body p of U_bind r \<Rightarrow> bind_socket K r ss | _ \<Rightarrow> None)
     else if type = CHR ''L'' then (case pk_body p of U_listen r \<Rightarrow> listen_socket K r ss | _ \<Rightarrow> None)
     else if type = CHR ''K'' then (case pk_body p of U_close r \<Rightarrow> close_socket K r result ss | _ \<Rightarrow> None)
     else if type = CHR ''O'' then (case pk_body p of U_open r \<Rightarrow> open_socket K r ss | _ \<Rightarrow> None)
     else if type = CHR ''X'' then
       Some (Some SOCKET_EXIT, \<lparr>rs_id = 0, rs_opaque = 0, rs_ud = 0, rs_data = Data_null\<rparr>, ss)
     else if type = CHR ''W'' then (case pk_body p of U_send r \<Rightarrow> trigger_write K r result ss | _ \<Rightarrow> None)
     else if type = CHR ''D'' then
       (case pk_body p of U_send r \<Rightarrow> ctrl_send K PRIORITY_HIGH r result ss | _ \<Rightarrow> None)
     else if type = CHR ''P'' then
       (case pk_body p of U_send r \<Rightarrow> ctrl_send K PRIORITY_LOW r result ss | _ \<Rightarrow> None)
     else if type = CHR ''A'' then
       (case pk_body p of
          U_send_udp r a \<Rightarrow>
            send_socket K r result PRIORITY_HIGH (Some (take UDP_ADDRESS_SIZE (a @ k_stack K))) ss
        | _ \<Rightarrow> None)
     else if type = CHR ''C'' then
       (case pk_body p of U_set_udp sid a \<Rightarrow> set_udp_address K sid a result ss | _ \<Rightarrow> None)
     else if type = CHR ''T'' then
       (case pk_body p of U_setopt r \<Rightarrow> Some (None, result, setopt_socket r ss) | _ \<Rightarrow> None)
     else if type = CHR ''U'' then
       (case pk_body p of U_udp r \<Rightarrow> void_result result (add_udp_socket K r ss) | _ \<Rightarrow> None)
     else Some (None, result, skynet_error_log (''socket-server: Unknown ctrl '' @ [type] @ ''.'') ss)
   }"

section \<open>Events\<close>

definition forward_message_tcp :: "kernel \<Rightarrow> nat \<Rightarrow> socket_message \<Rightarrow> socket_server \<Rightarrow> handled" where
  "forward_message_tcp K i result ss =
     (case sk_p (ss_slot ss i) of
        P_address a \<Rightarrow> None
      | P_size sz \<Rightarrow> do {
          let fd = sk_fd (ss_slot ss i);
          let r = k_read K (ss_trace ss) fd sz;
          let ss = sys_log (Sys_read fd sz) ss;
          let s = ss_slot ss i;
          (case r of
             Inl err \<Rightarrow>
               if err = EINTR \<or> err = EAGAIN then Some (None, result, ss)
               else Some (report_error i (k_strerror K err) ss)
           | Inr bytes \<Rightarrow>
               if bytes = [] then
                 (if sk_closing s then
                    (if nomore_sending_data s then
                       do { (result, ss) \<leftarrow> force_close K i ss; Some (None, result, ss) }
                     else Some (None, result, ss))
                  else if sk_type s = SOCKET_TYPE_HALFCLOSE_READ then Some (None, result, ss)
                  else if sk_type s = SOCKET_TYPE_HALFCLOSE_WRITE then
                    do { (result, ss) \<leftarrow> force_close K i ss; Some (Some SOCKET_CLOSE, result, ss) }
                  else (let (result, ss) = close_read K i ss in Some (Some SOCKET_CLOSE, result, ss)))
               else if halfclose_read s then Some (None, result, ss)
               else do {
                 let n = int (length bytes);
                 let (a, ss) = MALLOC bytes ss;
                 let ss = stat_read i n ss;
                 let result = \<lparr>rs_id = sk_id s, rs_opaque = sk_opaque s, rs_ud = n, rs_data = Data_buffer a\<rparr>;
                 if n = sz then do {
                   c_assert (sz * 2 \<le> INT_MAX);
                   Some (Some SOCKET_MORE, result, upd_slot i (\<lambda>s. s\<lparr>sk_p := P_size (sz * 2)\<rparr>) ss)
                 }
                 else if MIN_READ_BUFFER < sz \<and> n * 2 < sz then
                   Some (Some SOCKET_DATA, result, upd_slot i (\<lambda>s. s\<lparr>sk_p := P_size (sz div 2)\<rparr>) ss)
                 else Some (Some SOCKET_DATA, result, ss)
               })
        })"

fun is_v4 :: "sockaddr_all \<Rightarrow> bool" where
  "is_v4 (V4 port host) = True"
| "is_v4 (V6 port host) = False"

text \<open>\<open>slen == sizeof(sa.v4)\<close> tells an IPv4 address. The address follows the data in the buffer.\<close>

definition forward_message_udp :: "kernel \<Rightarrow> nat \<Rightarrow> socket_message \<Rightarrow> socket_server \<Rightarrow> handled" where
  "forward_message_udp K i result ss = do {
     let fd = sk_fd (ss_slot ss i);
     let r = k_recvfrom K (ss_trace ss) fd;
     let ss = sys_log (Sys_recvfrom fd) ss;
     (case r of
        Inl err \<Rightarrow>
          if err = EINTR \<or> err = EAGAIN then Some (None, result, ss)
          else do {
            (result, ss) \<leftarrow> force_close K i ss;
            Some (Some SOCKET_ERR, result\<lparr>rs_data := Data_text (k_strerror K err)\<rparr>, ss)
          }
      | Inr (bytes, sa) \<Rightarrow> do {
          let n = int (length bytes);
          let ss = stat_read i n ss;
          let s = ss_slot ss i;
          let protocol = (if is_v4 sa then PROTOCOL_UDP else PROTOCOL_UDPv6);
          if sk_protocol s \<noteq> protocol then Some (None, result, ss)
          else do {
            address \<leftarrow> gen_udp_address protocol sa;
            let (a, ss) = MALLOC (bytes @ address) ss;
            Some (Some SOCKET_UDP,
              \<lparr>rs_id = sk_id s, rs_opaque = sk_opaque s, rs_ud = n, rs_data = Data_buffer a\<rparr>, ss)
          }
        })
   }"

definition report_connect :: "kernel \<Rightarrow> nat \<Rightarrow> socket_message \<Rightarrow> socket_server \<Rightarrow> handled" where
  "report_connect K i result ss = do {
     let fd = sk_fd (ss_slot ss i);
     let code = k_getsockopt K (ss_trace ss) fd;
     let ss = sys_log (Sys_getsockopt fd) ss;
     let err = (case code of Inl e \<Rightarrow> Some e | Inr e \<Rightarrow> e);
     (case err of
        Some e \<Rightarrow> do {
          (result, ss) \<leftarrow> force_close K i ss;
          Some (Some SOCKET_ERR, result\<lparr>rs_data := Data_text (k_strerror K e)\<rparr>, ss)
        }
      | None \<Rightarrow> do {
          let ss = set_type i SOCKET_TYPE_CONNECTED ss;
          let s = ss_slot ss i;
          let result = report_to s Data_null;
          let (failed, ss) = (if nomore_sending_data s then enable_write K i False ss else (False, ss));
          if failed then do {
            (result, ss) \<leftarrow> force_close K i ss;
            Some (Some SOCKET_ERR, result\<lparr>rs_data := Data_text ''disable write failed''\<rparr>, ss)
          }
          else
            (case k_getpeername K (ss_trace ss) fd of
               None \<Rightarrow> Some (Some SOCKET_OPEN, result, ss)
             | Some u \<Rightarrow>
                 (case k_inet_ntop K u of
                    None \<Rightarrow> Some (Some SOCKET_OPEN, result, ss)
                  | Some name \<Rightarrow>
                      Some (Some SOCKET_OPEN, result\<lparr>rs_data := Data_text name\<rparr>, ss\<lparr>ss_buffer := name\<rparr>)))
        })
   }"

text \<open>\<open>snprintf\<close> cuts the text to the size of the buffer.\<close>

definition getname :: "kernel \<Rightarrow> sockaddr_all \<Rightarrow> nat \<Rightarrow> bool \<times> string" where
  "getname K u sz =
     (case k_inet_ntop K u of
        Some tmp \<Rightarrow> (True, take (sz - 1) (tmp @ '':'' @ fmt_d (sin_port u)))
      | None \<Rightarrow> (False, []))"

text \<open>At the limit of open files the reserved descriptor makes room to accept and drop a connection.\<close>

definition drop_connection :: "kernel \<Rightarrow> int \<Rightarrow> socket_server \<Rightarrow> socket_server" where
  "drop_connection K fd ss =
     (if 0 \<le> ss_reserve_fd ss then
        (let (_, ss) = sys_close K (ss_reserve_fd ss) ss;
             r = k_accept K (ss_trace ss) fd;
             ss = sys_log (Sys_accept fd) ss;
             ss = (case r of Inl _ \<Rightarrow> ss | Inr (client_fd, _) \<Rightarrow> snd (sys_close K client_fd ss))
         in (sys_log (Sys_dup 1) ss)\<lparr>ss_reserve_fd := k_dup K (ss_trace ss)\<rparr>)
      else ss)"

text \<open>The result is the number that the code returns: 1, 0 or -1.\<close>

definition report_accept ::
  "kernel \<Rightarrow> nat \<Rightarrow> socket_message \<Rightarrow> socket_server \<Rightarrow> (int \<times> socket_message \<times> socket_server) option" where
  "report_accept K i result ss =
     (let s = ss_slot ss i; r = k_accept K (ss_trace ss) (sk_fd s);
          ss = sys_log (Sys_accept (sk_fd s)) ss in
      case r of
        Inl err \<Rightarrow>
          if err = EMFILE \<or> err = ENFILE then
            Some (-1, report_to s (Data_text (k_strerror K err)), drop_connection K (sk_fd s) ss)
          else Some (0, result, ss)
      | Inr (client_fd, u) \<Rightarrow>
          (let (sid, ss) = reserve_id ss in
           if sid < 0 then Some (0, result, snd (sys_close K client_fd ss))
           else do {
             let ss = sp_nonblocking client_fd (socket_keepalive client_fd ss);
             (ns, ss) \<leftarrow> new_fd K sid client_fd PROTOCOL_TCP (sk_opaque s) False ss;
             if \<not> ns then Some (0, result, snd (sys_close K client_fd ss))
             else do {
               let ss = stat_read i 1 ss;
               let ss = set_type (HASH_ID sid) SOCKET_TYPE_PACCEPT ss;
               let (ok, name) = getname K u MAX_INFO;
               let ss = ss\<lparr>ss_buffer := name\<rparr>;
               Some (1, \<lparr>rs_id = sk_id s, rs_opaque = sk_opaque s, rs_ud = sid,
                 rs_data = (if ok then Data_text name else Data_null)\<rparr>, ss)
             }
           }))"

text \<open>The events of the rest of the batch; the first one of the closed socket is cleared.\<close>

fun clear_event :: "(nat \<Rightarrow> socket) \<Rightarrow> int \<Rightarrow> event list \<Rightarrow> event list" where
  "clear_event slots sid [] = []"
| "clear_event slots sid (e # es) =
     (case ev_s e of
        None \<Rightarrow> e # clear_event slots sid es
      | Some i \<Rightarrow>
          if socket_invalid (slots i) sid \<and> sk_id (slots i) = sid then e\<lparr>ev_s := None\<rparr> # es
          else e # clear_event slots sid es)"

definition clear_closed_event :: "socket_message \<Rightarrow> socket_result \<Rightarrow> socket_server \<Rightarrow> socket_server" where
  "clear_closed_event result type ss =
     (if type = SOCKET_CLOSE \<or> type = SOCKET_ERR then
        ss\<lparr>ss_ev := take (ss_event_index ss) (ss_ev ss) @
          clear_event (ss_slot ss) (rs_id result) (drop (ss_event_index ss) (take (ss_event_n ss) (ss_ev ss))) @
          drop (ss_event_n ss) (ss_ev ss)\<rparr>
      else ss)"

section \<open>The loop of the socket thread\<close>

text \<open>
  One round of the loop. The first component of the result is \<open>None\<close> when the loop goes on, and
  otherwise what the function returns. A batch of events is the answer of \<open>epoll_wait\<close>, which the code asks
  for at most \<open>MAX_EVENT\<close> of them; the model takes a batch of any size.
\<close>

definition wait_events :: "kernel \<Rightarrow> bool \<Rightarrow> socket_server \<Rightarrow> bool \<times> bool \<times> socket_server" where
  "wait_events K mo ss =
     (if ss_event_index ss = ss_event_n ss then
        (let r = k_epoll_wait K (ss_trace ss);
             ss = (sys_log Sys_wait ss)\<lparr>ss_checkctrl := True, ss_event_index := 0\<rparr> in
         case r of
           Inl err \<Rightarrow>
             (False, False, (if err = EINTR then ss
                else skynet_error_log (''socket-server: '' @ k_strerror K err) ss)\<lparr>ss_event_n := 0\<rparr>)
         | Inr es \<Rightarrow>
             if es = [] then
               (False, False, (if k_errno K (ss_trace ss) = EINTR then ss else skynet_error_log
                  (''socket-server: '' @ k_strerror K (k_errno K (ss_trace ss))) ss)\<lparr>ss_event_n := 0\<rparr>)
             else (True, False, ss\<lparr>ss_event_n := length es, ss_ev := es\<rparr>))
      else (True, mo, ss))"

definition step_back :: "socket_server \<Rightarrow> socket_server" where
  "step_back ss = ss\<lparr>ss_event_index := ss_event_index ss - 1\<rparr>"

text \<open>An event on an open socket: the branch \<open>default\<close> of the switch.\<close>

definition read_event :: "kernel \<Rightarrow> event \<Rightarrow> nat \<Rightarrow> socket_message \<Rightarrow> socket_server \<Rightarrow> handled" where
  "read_event K e i result ss = do {
     let tcp = (sk_protocol (ss_slot ss i) = PROTOCOL_TCP);
     (type, result, ss) \<leftarrow> (if tcp then forward_message_tcp K i result ss
                            else forward_message_udp K i result ss);
     if tcp \<and> type = Some SOCKET_MORE then Some (Some SOCKET_DATA, result, step_back ss)
     else if \<not> tcp \<and> type = Some SOCKET_UDP then Some (Some SOCKET_UDP, result, step_back ss)
     else if ev_write e \<and> type \<noteq> Some SOCKET_CLOSE \<and> type \<noteq> Some SOCKET_ERR then
       Some (type, result, (step_back ss)\<lparr>ss_ev := (ss_ev ss)
         [ss_event_index ss - 1 := e\<lparr>ev_read := False\<rparr>]\<rparr>)
     else Some (type, result, ss)
   }"

definition error_event :: "kernel \<Rightarrow> nat \<Rightarrow> socket_message \<Rightarrow> socket_server \<Rightarrow> handled" where
  "error_event K i result ss =
     (let fd = sk_fd (ss_slot ss i); code = k_getsockopt K (ss_trace ss) fd;
          ss = sys_log (Sys_getsockopt fd) ss;
          err = (case code of Inl e \<Rightarrow> k_strerror K e | Inr (Some e) \<Rightarrow> k_strerror K e
                 | Inr None \<Rightarrow> ''Unknown error'')
      in Some (report_error i err ss))"

definition eof_event :: "kernel \<Rightarrow> nat \<Rightarrow> socket_message \<Rightarrow> socket_server \<Rightarrow> handled" where
  "eof_event K i result ss = do {
     let halfclose = halfclose_read (ss_slot ss i);
     (result, ss) \<leftarrow> force_close K i ss;
     Some (if halfclose then None else Some SOCKET_CLOSE, result, ss)
   }"

definition dispatch_event :: "kernel \<Rightarrow> event \<Rightarrow> nat \<Rightarrow> socket_message \<Rightarrow> socket_server \<Rightarrow> handled" where
  "dispatch_event K e i result ss =
     (case sk_type (ss_slot ss i) of
        SOCKET_TYPE_CONNECTING \<Rightarrow> report_connect K i result ss
      | SOCKET_TYPE_LISTEN \<Rightarrow> do {
          (ok, result, ss) \<leftarrow> report_accept K i result ss;
          Some (if 0 < ok then Some SOCKET_ACCEPT else if ok < 0 then Some SOCKET_ERR else None, result, ss)
        }
      | SOCKET_TYPE_INVALID \<Rightarrow> Some (None, result, skynet_error_log ''socket-server: invalid socket'' ss)
      | _ \<Rightarrow>
          if ev_read e then read_event K e i result ss
          else if ev_write e then send_buffer K i result ss
          else if ev_error e then error_event K i result ss
          else if ev_eof e then eof_event K i result ss
          else Some (None, result, ss))"

type_synonym polled = "(socket_result option \<times> socket_message \<times> bool \<times> socket_server) option"

definition next_event :: "kernel \<Rightarrow> socket_message \<Rightarrow> bool \<Rightarrow> socket_server \<Rightarrow> polled" where
  "next_event K result mo ss = do {
     let (ok, mo, ss) = wait_events K mo ss;
     if \<not> ok then Some (None, result, mo, ss)
     else do {
       e \<leftarrow> (if ss_event_index ss < length (ss_ev ss) then Some (ss_ev ss ! ss_event_index ss) else None);
       let ss = ss\<lparr>ss_event_index := ss_event_index ss + 1\<rparr>;
       (case ev_s e of
          None \<Rightarrow> Some (None, result, mo, ss)
        | Some i \<Rightarrow> do {
            (type, result, ss) \<leftarrow> dispatch_event K e i result ss;
            Some (type, result, mo, ss)
          })
     }
   }"

definition poll_round :: "kernel \<Rightarrow> socket_message \<Rightarrow> bool \<Rightarrow> socket_server \<Rightarrow> polled" where
  "poll_round K result mo ss =
     (if ss_checkctrl ss then do {
        let (has, ss) = has_cmd K ss;
        if has then do {
          (type, result, ss) \<leftarrow> ctrl_cmd K result ss;
          Some (case type of None \<Rightarrow> (None, result, mo, ss)
                | Some t \<Rightarrow> (Some t, result, mo, clear_closed_event result t ss))
        }
        else next_event K result mo (ss\<lparr>ss_checkctrl := False\<rparr>)
      } else next_event K result mo ss)"

text \<open>The loop may wait for ever: \<open>None\<close> is also a call that does not return.\<close>

partial_function (option) socket_server_poll ::
  "kernel \<Rightarrow> socket_message \<Rightarrow> bool \<Rightarrow> socket_server
    \<Rightarrow> (socket_result \<times> socket_message \<times> bool \<times> socket_server) option" where
  "socket_server_poll K result mo ss = do {
     (type, result, mo, ss) \<leftarrow> poll_round K result mo ss;
     (case type of
        None \<Rightarrow> socket_server_poll K result mo ss
      | Some t \<Rightarrow> Some (t, result, mo, ss))
   }"

end
