(* ===== verification/Socket_Request.thy ===== *)
theory Socket_Request
  imports Socket_Poll
begin

text \<open>
  The functions of the socket server that other threads call (\<open>socket_server.c\<close>, lines 380 to 431,
  514 to 533 and 1786 to 2331): creation and release, requests through the pipe, the direct write
  of \<open>socket_server_send\<close>, the binding of ports, UDP and the report of all sockets.
  The constants are the sizes of the request structures on a 64-bit machine.
\<close>

section \<open>Creation and release\<close>

text \<open>
  The slots get the type \<open>INVALID\<close> and empty lists; their other fields are what the memory held
  before, the argument \<open>old\<close>. A text of the code's \<open>NULL\<close> is \<open>None\<close> of the inner option.
\<close>

definition init_slot :: "socket \<Rightarrow> socket" where
  "init_slot s = s\<lparr>sk_type := SOCKET_TYPE_INVALID, sk_high := clear_wb_list, sk_low := clear_wb_list,
     sk_wbs := Map.empty\<rparr>"

definition socket_server_create ::
  "kernel \<Rightarrow> u64 \<Rightarrow> (nat \<Rightarrow> socket) \<Rightarrow> (socket_server option \<times> sys list) option" where
  "socket_server_create K time old =
     (let tr = [] :: sys list; efd = k_epoll_create K tr in
      if efd = -1 then Some (None, [Sys_error ''socket-server: create event pool failed.''])
      else case k_pipe K tr of
        None \<Rightarrow> Some (None, [Sys_close efd, Sys_error ''socket-server: create socket pair failed.''])
      | Some (fd0, fd1) \<Rightarrow>
          if \<not> k_epoll_ctl K tr fd0 then
            Some (None, [Sys_epoll_add fd0 None,
              Sys_error ''socket-server: can't add server fd to event pool.'',
              Sys_close fd0, Sys_close fd1, Sys_close efd])
          else do {
            let tr = [Sys_epoll_add fd0 None];
            c_assert (fd0 < 1024);
            Some (Some \<lparr>ss_time = time, ss_reserve_fd = k_dup K tr, ss_recvctrl_fd = fd0,
              ss_sendctrl_fd = fd1, ss_checkctrl = True, ss_event_fd = efd, ss_alloc_id = 0,
              ss_event_n = 0, ss_event_index = 0, ss_soi = None, ss_ev = [],
              ss_slot = (\<lambda>i. init_slot (old i)), ss_buffer = [], ss_mem = Map.empty, ss_brk = 0,
              ss_pipe = [], ss_trace = tr @ [Sys_dup 1]\<rparr>, tr @ [Sys_dup 1])
          })"

definition socket_server_updatetime :: "u64 \<Rightarrow> socket_server \<Rightarrow> socket_server" where
  "socket_server_updatetime time ss = ss\<lparr>ss_time := time\<rparr>"

definition socket_server_release :: "kernel \<Rightarrow> socket_server \<Rightarrow> socket_server option" where
  "socket_server_release K ss = do {
     ss \<leftarrow> c_for [0..<nat MAX_SOCKET] (\<lambda>i ss.
       if sk_type (ss_slot ss i) \<noteq> SOCKET_TYPE_RESERVE then map_option snd (force_close K i ss)
       else Some ss) ss;
     let (_, ss) = sys_close K (ss_sendctrl_fd ss) ss;
     let (_, ss) = sys_close K (ss_recvctrl_fd ss) ss;
     let (_, ss) = sys_close K (ss_event_fd ss) ss;
     Some (if 0 \<le> ss_reserve_fd ss then snd (sys_close K (ss_reserve_fd ss) ss) else ss)
   }"

section \<open>Requests through the pipe\<close>

definition sizeof_open :: nat where "sizeof_open = 24"
definition sizeof_send :: nat where "sizeof_send = 24"
definition sizeof_close :: nat where "sizeof_close = 16"
definition sizeof_listen :: nat where "sizeof_listen = 24"
definition sizeof_bind :: nat where "sizeof_bind = 16"
definition sizeof_resumepause :: nat where "sizeof_resumepause = 16"
definition sizeof_setopt :: nat where "sizeof_setopt = 12"
definition sizeof_udp :: nat where "sizeof_udp = 24"
definition sizeof_set_udp :: nat where "sizeof_set_udp = 24"

lemmas sizeof_request_defs = sizeof_open_def sizeof_send_def sizeof_close_def sizeof_listen_def
  sizeof_bind_def sizeof_resumepause_def sizeof_setopt_def sizeof_udp_def sizeof_set_udp_def

text \<open>A failed write of the pipe is repeated; other errors than an interruption are reported.\<close>

fun pipe_errors :: "kernel \<Rightarrow> errno list \<Rightarrow> socket_server \<Rightarrow> socket_server" where
  "pipe_errors K [] ss = ss"
| "pipe_errors K (e # es) ss = pipe_errors K es
     (if e = EINTR then ss
      else skynet_error_log (''socket-server : send ctrl command error '' @ k_strerror K e @ ''.'') ss)"

definition send_request :: "kernel \<Rightarrow> char \<Rightarrow> nat \<Rightarrow> request_body \<Rightarrow> socket_server \<Rightarrow> socket_server" where
  "send_request K type len body ss =
     (let ss = pipe_errors K (k_pipe_write K (ss_trace ss)) ss
      in (sys_log Sys_pipe ss)\<lparr>ss_pipe := ss_pipe ss @
           [\<lparr>pk_type = type, pk_len = word_of_nat len, pk_body = body\<rparr>]\<rparr>)"

definition open_request :: "u64 \<Rightarrow> string \<Rightarrow> int \<Rightarrow> socket_server \<Rightarrow> request_open option \<times> socket_server" where
  "open_request opaque addr port ss =
     (if length addr + sizeof_open \<ge> 256 then
        (None, skynet_error_log (''socket-server : Invalid addr '' @ addr @ ''.'') ss)
      else
        (let (sid, ss) = reserve_id ss in
         if sid < 0 then (None, ss)
         else (Some \<lparr>ro_id = sid, ro_port = port, ro_opaque = opaque, ro_host = addr\<rparr>, ss)))"

definition socket_server_connect :: "kernel \<Rightarrow> u64 \<Rightarrow> string \<Rightarrow> int \<Rightarrow> socket_server \<Rightarrow> int \<times> socket_server" where
  "socket_server_connect K opaque addr port ss =
     (case open_request opaque addr port ss of
        (None, ss) \<Rightarrow> (-1, ss)
      | (Some r, ss) \<Rightarrow> (ro_id r, send_request K CHR ''O'' (sizeof_open + length addr) (U_open r) ss))"

definition can_direct_write :: "socket \<Rightarrow> int \<Rightarrow> bool" where
  "can_direct_write s sid \<longleftrightarrow> sk_id s = sid \<and> nomore_sending_data s \<and> sk_type s = SOCKET_TYPE_CONNECTED
     \<and> sk_udpconnecting s = 0"

text \<open>With the 16 bits of the count full the code waits for the socket thread: no result.\<close>

definition inc_sending_ref :: "nat \<Rightarrow> int \<Rightarrow> socket_server \<Rightarrow> socket_server option" where
  "inc_sending_ref i sid ss =
     (let s = ss_slot ss i in
      if sk_protocol s \<noteq> PROTOCOL_TCP then Some ss
      else if sk_sending s div 65536 = ID_TAG16 sid then
        (if sk_sending s mod 65536 = 65535 then None
         else Some (upd_slot i (\<lambda>s. s\<lparr>sk_sending := sk_sending s + 1\<rparr>) ss))
      else Some ss)"

text \<open>The request of a send through the pipe, for both priorities.\<close>

definition send_by_pipe ::
  "kernel \<Rightarrow> char \<Rightarrow> nat \<Rightarrow> socket_sendbuffer \<Rightarrow> socket_server \<Rightarrow> (int \<times> socket_server) option" where
  "send_by_pipe K type i buf ss = do {
     ss \<leftarrow> inc_sending_ref i (sb_id buf) ss;
     (buffer, sz, ss) \<leftarrow> clone_buffer buf ss;
     Some (0, send_request K type sizeof_send
       (U_send \<lparr>rq_id = sb_id buf, rq_sz = sz, rq_buffer = buffer\<rparr>) ss)
   }"

text \<open>The part of \<open>socket_server_send\<close> under the lock.\<close>

definition direct_write ::
  "kernel \<Rightarrow> nat \<Rightarrow> socket_sendbuffer \<Rightarrow> socket_server \<Rightarrow> (int \<times> socket_server) option" where
  "direct_write K i buf ss = do {
     let s = ss_slot ss i;
     so \<leftarrow> send_object_init_from_sendbuffer ss buf;
     sa \<leftarrow> (if sk_protocol s = PROTOCOL_TCP then Some None
            else map_option (\<lambda>a. Some (udp_socket_address s a)) (default_address s None));
     if sa = Some None then do {
       ss \<leftarrow> free_func so (sb_buffer buf) (skynet_error_log
         (''socket-server : set udp ('' @ fmt_d (sb_id buf) @ '') address first.'') ss);
       Some (-1, ss)
     }
     else do {
       (n, _, ss) \<leftarrow> (case sa of
          Some (Some a) \<Rightarrow> sys_sendto K (sk_id s) (sk_fd s) (so_buffer so) (so_sz so) a ss
        | _ \<Rightarrow> sys_write K (sk_id s) (sk_fd s) (so_buffer so) (so_sz so) ss);
       let n = (if n < 0 then 0 else n);
       let ss = stat_write i n ss;
       if n = so_sz so then do { ss \<leftarrow> free_func so (sb_buffer buf) ss; Some (0, ss) }
       else do {
         (buffer, sz, ss) \<leftarrow> clone_buffer buf ss;
         let ss = upd_slot i (\<lambda>s. s\<lparr>sk_dw_buffer := buffer, sk_dw_size := sz, sk_dw_offset := to_int32 n\<rparr>) ss;
         Some (0, send_request K CHR ''W'' sizeof_send
           (U_send \<lparr>rq_id = sb_id buf, rq_sz = 0, rq_buffer = None\<rparr>) ss)
       }
     }
   }"

definition socket_server_send ::
  "kernel \<Rightarrow> socket_sendbuffer \<Rightarrow> socket_server \<Rightarrow> (int \<times> socket_server) option" where
  "socket_server_send K buf ss =
     (let sid = sb_id buf; i = HASH_ID sid; s = ss_slot ss i in
      if socket_invalid s sid \<or> sk_closing s then do { ss \<leftarrow> free_buffer buf ss; Some (-1, ss) }
      else
        (let (locked, ss) = (if can_direct_write s sid then socket_trylock K i ss else (False, ss)) in
         if locked \<and> can_direct_write (ss_slot ss i) sid then direct_write K i buf ss
         else send_by_pipe K CHR ''D'' i buf ss))"

definition socket_server_send_lowpriority ::
  "kernel \<Rightarrow> socket_sendbuffer \<Rightarrow> socket_server \<Rightarrow> (int \<times> socket_server) option" where
  "socket_server_send_lowpriority K buf ss =
     (let sid = sb_id buf; i = HASH_ID sid in
      if socket_invalid (ss_slot ss i) sid then do { ss \<leftarrow> free_buffer buf ss; Some (-1, ss) }
      else send_by_pipe K CHR ''P'' i buf ss)"

definition socket_server_exit :: "kernel \<Rightarrow> socket_server \<Rightarrow> socket_server" where
  "socket_server_exit K = send_request K CHR ''X'' 0 U_none"

definition socket_server_close :: "kernel \<Rightarrow> u64 \<Rightarrow> int \<Rightarrow> socket_server \<Rightarrow> socket_server" where
  "socket_server_close K opaque sid =
     send_request K CHR ''K'' sizeof_close (U_close \<lparr>rc_id = sid, rc_shutdown = False, rc_opaque = opaque\<rparr>)"

definition socket_server_shutdown :: "kernel \<Rightarrow> u64 \<Rightarrow> int \<Rightarrow> socket_server \<Rightarrow> socket_server" where
  "socket_server_shutdown K opaque sid =
     send_request K CHR ''K'' sizeof_close (U_close \<lparr>rc_id = sid, rc_shutdown = True, rc_opaque = opaque\<rparr>)"

text \<open>The descriptor and family of a new bound socket, \<open>None\<close> for the result \<open>-1\<close>.\<close>

definition do_bind ::
  "kernel \<Rightarrow> string option \<Rightarrow> int \<Rightarrow> socket_server \<Rightarrow> (int \<times> family) option \<times> socket_server" where
  "do_bind K host port ss =
     (let host = (if host = None \<or> host = Some [] then ''0.0.0.0'' else the host);
          ai = k_getaddrinfo K (ss_trace ss) host port;
          ss = sys_log (Sys_getaddrinfo host port) ss in
      case ai of
        Inr ((family, sa) # _) \<Rightarrow>
          (let fd = k_socket K (ss_trace ss) family; ss = sys_log (Sys_socket family) ss in
           if fd < 0 then (None, ss)
           else
             (let ok = k_setsockopt K (ss_trace ss) fd;
                  ss = sys_log (Sys_setsockopt fd ''SO_REUSEADDR'' 1) ss in
              if \<not> ok then (None, snd (sys_close K fd ss))
              else
                (let ok = k_bind K (ss_trace ss) fd; ss = sys_log (Sys_bind fd sa) ss
                 in if \<not> ok then (None, snd (sys_close K fd ss)) else (Some (fd, family), ss))))
      | _ \<Rightarrow> (None, ss))"

definition do_listen ::
  "kernel \<Rightarrow> string option \<Rightarrow> int \<Rightarrow> int \<Rightarrow> socket_server \<Rightarrow> int option \<times> socket_server" where
  "do_listen K host port backlog ss =
     (case do_bind K host port ss of
        (None, ss) \<Rightarrow> (None, ss)
      | (Some (fd, _), ss) \<Rightarrow>
          (let ok = k_listen K (ss_trace ss) fd; ss = sys_log (Sys_listen fd backlog) ss
           in if \<not> ok then (None, snd (sys_close K fd ss)) else (Some fd, ss)))"

definition socket_server_listen ::
  "kernel \<Rightarrow> u64 \<Rightarrow> string option \<Rightarrow> int \<Rightarrow> int \<Rightarrow> socket_server \<Rightarrow> int \<times> socket_server" where
  "socket_server_listen K opaque addr port backlog ss =
     (case do_listen K addr port backlog ss of
        (None, ss) \<Rightarrow> (-1, ss)
      | (Some fd, ss) \<Rightarrow>
          (let (sid, ss) = reserve_id ss in
           if sid < 0 then (sid, snd (sys_close K fd ss))
           else (sid, send_request K CHR ''L'' sizeof_listen
             (U_listen \<lparr>rl_id = sid, rl_fd = fd, rl_opaque = opaque\<rparr>) ss)))"

definition socket_server_bind :: "kernel \<Rightarrow> u64 \<Rightarrow> int \<Rightarrow> socket_server \<Rightarrow> int \<times> socket_server" where
  "socket_server_bind K opaque fd ss =
     (let (sid, ss) = reserve_id ss in
      if sid < 0 then (-1, ss)
      else (sid, send_request K CHR ''B'' sizeof_bind
        (U_bind \<lparr>rb_id = sid, rb_fd = fd, rb_opaque = opaque\<rparr>) ss))"

definition socket_server_start :: "kernel \<Rightarrow> u64 \<Rightarrow> int \<Rightarrow> socket_server \<Rightarrow> socket_server" where
  "socket_server_start K opaque sid =
     send_request K CHR ''R'' sizeof_resumepause (U_resumepause \<lparr>rp_id = sid, rp_opaque = opaque\<rparr>)"

definition socket_server_pause :: "kernel \<Rightarrow> u64 \<Rightarrow> int \<Rightarrow> socket_server \<Rightarrow> socket_server" where
  "socket_server_pause K opaque sid =
     send_request K CHR ''S'' sizeof_resumepause (U_resumepause \<lparr>rp_id = sid, rp_opaque = opaque\<rparr>)"

definition socket_server_nodelay :: "kernel \<Rightarrow> int \<Rightarrow> socket_server \<Rightarrow> socket_server" where
  "socket_server_nodelay K sid =
     send_request K CHR ''T'' sizeof_setopt (U_setopt \<lparr>rt_id = sid, rt_what = ''TCP_NODELAY'', rt_value = 1\<rparr>)"

definition socket_server_userobject :: "socket_object_interface \<Rightarrow> socket_server \<Rightarrow> socket_server" where
  "socket_server_userobject soi ss = ss\<lparr>ss_soi := Some soi\<rparr>"

section \<open>UDP\<close>

definition socket_server_udp ::
  "kernel \<Rightarrow> u64 \<Rightarrow> string option \<Rightarrow> int \<Rightarrow> socket_server \<Rightarrow> int \<times> socket_server" where
  "socket_server_udp K opaque addr port ss =
     (let (r, ss) =
        (if port \<noteq> 0 \<or> addr \<noteq> None then do_bind K addr port ss
         else (let fd = k_socket K (ss_trace ss) AF_INET
               in (if fd < 0 then None else Some (fd, AF_INET), sys_log (Sys_socket AF_INET) ss))) in
      case r of
        None \<Rightarrow> (-1, ss)
      | Some (fd, family) \<Rightarrow>
          (let (sid, ss) = reserve_id (sp_nonblocking fd ss) in
           if sid < 0 then (-1, snd (sys_close K fd ss))
           else (sid, send_request K CHR ''U'' sizeof_udp
             (U_udp \<lparr>ru_id = sid, ru_fd = fd, ru_family = family, ru_opaque = opaque\<rparr>) ss)))"

text \<open>The number of bytes of an address by its first byte.\<close>

definition udp_address_size :: "u8 \<Rightarrow> nat option" where
  "udp_address_size type =
     (if type = PROTOCOL_UDP then Some (1 + 2 + 4)
      else if type = PROTOCOL_UDPv6 then Some (1 + 2 + 16) else None)"

text \<open>The direct write of a packet: \<open>None\<close> in the first component when the socket thread has to try.\<close>

definition direct_sendto ::
  "kernel \<Rightarrow> nat \<Rightarrow> u8 list \<Rightarrow> socket_sendbuffer \<Rightarrow> socket_server \<Rightarrow> (int option \<times> socket_server) option" where
  "direct_sendto K i udp_address buf ss = do {
     let s = ss_slot ss i;
     so \<leftarrow> send_object_init_from_sendbuffer ss buf;
     (case udp_socket_address s udp_address of
        None \<Rightarrow> do { ss \<leftarrow> free_func so (sb_buffer buf) ss; Some (Some (-1), ss) }
      | Some sa \<Rightarrow> do {
          (n, _, ss) \<leftarrow> sys_sendto K (sk_id s) (sk_fd s) (so_buffer so) (so_sz so) sa ss;
          if 0 \<le> n then do {
            ss \<leftarrow> free_func so (sb_buffer buf) (stat_write i n ss);
            Some (Some 0, ss)
          } else Some (None, ss)
        })
   }"

definition socket_server_udp_send ::
  "kernel \<Rightarrow> u8 list \<Rightarrow> socket_sendbuffer \<Rightarrow> socket_server \<Rightarrow> (int \<times> socket_server) option" where
  "socket_server_udp_send K udp_address buf ss =
     (let sid = sb_id buf; i = HASH_ID sid; s = ss_slot ss i in
      if socket_invalid s sid then do { ss \<leftarrow> free_buffer buf ss; Some (-1, ss) }
      else case udp_address_size (udp_address ! 0) of
        None \<Rightarrow> do { ss \<leftarrow> free_buffer buf ss; Some (-1, ss) }
      | Some addrsz \<Rightarrow> do {
          let (locked, ss) = (if can_direct_write s sid then socket_trylock K i ss else (False, ss));
          (done, ss) \<leftarrow> (if locked \<and> can_direct_write (ss_slot ss i) sid
                         then direct_sendto K i udp_address buf ss else Some (None, ss));
          (case done of
             Some r \<Rightarrow> Some (r, ss)
           | None \<Rightarrow> do {
               (buffer, sz, ss) \<leftarrow> clone_buffer buf ss;
               Some (0, send_request K CHR ''A'' (sizeof_send + addrsz)
                 (U_send_udp \<lparr>rq_id = sid, rq_sz = sz, rq_buffer = buffer\<rparr> (take addrsz udp_address)) ss)
             })
        })"

definition socket_server_udp_connect ::
  "kernel \<Rightarrow> int \<Rightarrow> string \<Rightarrow> int \<Rightarrow> socket_server \<Rightarrow> (int \<times> socket_server) option" where
  "socket_server_udp_connect K sid addr port ss =
     (let i = HASH_ID sid in
      if socket_invalid (ss_slot ss i) sid then Some (-1, ss)
      else
        (let ss = upd_slot i (\<lambda>s. s\<lparr>sk_udpconnecting := sk_udpconnecting s + 1\<rparr>) ss;
             ai = k_getaddrinfo K (ss_trace ss) addr port;
             ss = sys_log (Sys_getaddrinfo addr port) ss in
         case ai of
           Inl _ \<Rightarrow> Some (-1, ss)
         | Inr [] \<Rightarrow> None
         | Inr ((family, sa) # _) \<Rightarrow>
             if family = AF_OTHER then Some (-1, ss)
             else do {
               let protocol = (if family = AF_INET then PROTOCOL_UDP else PROTOCOL_UDPv6);
               address \<leftarrow> gen_udp_address protocol sa;
               Some (0, send_request K CHR ''C'' (sizeof_set_udp - UDP_ADDRESS_SIZE + length address)
                 (U_set_udp sid address) ss)
             }))"

text \<open>The address behind the data of a UDP event.\<close>

definition socket_server_udp_address :: "socket_server \<Rightarrow> socket_message \<Rightarrow> u8 list option option" where
  "socket_server_udp_address ss msg =
     (case rs_data msg of
        Data_buffer a \<Rightarrow> do {
          address \<leftarrow> map_option (drop (nat (rs_ud msg))) (ss_mem ss a);
          if address = [] then None
          else (case udp_address_size (address ! 0) of
                  None \<Rightarrow> Some None
                | Some addrsz \<Rightarrow> Some (Some (take addrsz address)))
        }
      | _ \<Rightarrow> None)"

section \<open>Report\<close>

datatype socket_info_type = SOCKET_INFO_UNKNOWN | SOCKET_INFO_LISTEN | SOCKET_INFO_TCP | SOCKET_INFO_UDP
  | SOCKET_INFO_BIND | SOCKET_INFO_CLOSING

record socket_info =
  si_id :: int
  si_type :: socket_info_type
  si_opaque :: u64
  si_read :: u64
  si_write :: u64
  si_rtime :: u64
  si_wtime :: u64
  si_wbuffer :: int
  si_reading :: bool
  si_writing :: bool
  si_name :: "string option" \<comment> \<open>\<open>None\<close>: not written\<close>

definition info_name :: "kernel \<Rightarrow> sockaddr_all option \<Rightarrow> string option" where
  "info_name K u = map_option (\<lambda>u. snd (getname K u 128)) u"

definition fill_info :: "socket \<Rightarrow> socket_info_type \<Rightarrow> string option \<Rightarrow> socket_info" where
  "fill_info s t name = \<lparr>si_id = sk_id s, si_type = t, si_opaque = sk_opaque s, si_read = st_read (sk_stat s),
     si_write = st_write (sk_stat s), si_rtime = st_rtime (sk_stat s), si_wtime = st_wtime (sk_stat s),
     si_wbuffer = sk_wb_size s, si_reading = sk_reading s, si_writing = sk_writing s, si_name = name\<rparr>"

definition query_info :: "kernel \<Rightarrow> sys list \<Rightarrow> socket \<Rightarrow> socket_info option" where
  "query_info K tr s =
     (let closing = (sk_type s = SOCKET_TYPE_HALFCLOSE_READ \<or> sk_type s = SOCKET_TYPE_HALFCLOSE_WRITE) in
      if sk_type s = SOCKET_TYPE_BIND then Some (fill_info s SOCKET_INFO_BIND (Some []))
      else if sk_type s = SOCKET_TYPE_LISTEN then
        Some (fill_info s SOCKET_INFO_LISTEN (info_name K (k_getsockname K tr (sk_fd s))))
      else if closing \<or> sk_type s = SOCKET_TYPE_CONNECTED then
        (if sk_protocol s = PROTOCOL_TCP then
           Some (fill_info s (if closing then SOCKET_INFO_CLOSING else SOCKET_INFO_TCP)
             (info_name K (k_getpeername K tr (sk_fd s))))
         else Some (fill_info s SOCKET_INFO_UDP
           (info_name K (case sk_p s of P_address a \<Rightarrow> udp_socket_address s a | P_size n \<Rightarrow> None))))
      else None)"

text \<open>Each entry is put before the ones made so far.\<close>

definition socket_server_info :: "kernel \<Rightarrow> socket_server \<Rightarrow> socket_info list" where
  "socket_server_info K ss =
     fold (\<lambda>i si. case query_info K (ss_trace ss) (ss_slot ss i) of None \<Rightarrow> si | Some t \<Rightarrow> t # si)
       [0..<nat MAX_SOCKET] []"

end
