(* ===== verification/Socket_Lists.thy ===== *)
theory Socket_Lists
  imports Socket_Request
begin

text \<open>
  The lists of write buffers of a slot as lists: what freeing, appending and the routines that
  write to the file descriptor do to them.
\<close>

section \<open>Rules for the state\<close>

lemma upd_slot_simps [simp]:
  "ss_slot (upd_slot i f ss) j = (if j = i then f (ss_slot ss i) else ss_slot ss j)"
  "ss_mem (upd_slot i f ss) = ss_mem ss" "ss_brk (upd_slot i f ss) = ss_brk ss"
  "ss_pipe (upd_slot i f ss) = ss_pipe ss" "ss_trace (upd_slot i f ss) = ss_trace ss"
  "ss_alloc_id (upd_slot i f ss) = ss_alloc_id ss" "ss_soi (upd_slot i f ss) = ss_soi ss"
  "ss_ev (upd_slot i f ss) = ss_ev ss" "ss_event_n (upd_slot i f ss) = ss_event_n ss"
  "ss_event_index (upd_slot i f ss) = ss_event_index ss" "ss_time (upd_slot i f ss) = ss_time ss"
  by (simp_all add: upd_slot_def)

lemma sys_log_simps [simp]:
  "ss_slot (sys_log e ss) = ss_slot ss"
  "ss_mem (sys_log e ss) = ss_mem ss" "ss_brk (sys_log e ss) = ss_brk ss"
  "ss_pipe (sys_log e ss) = ss_pipe ss" "ss_trace (sys_log e ss) = ss_trace ss @ [e]"
  "ss_alloc_id (sys_log e ss) = ss_alloc_id ss" "ss_soi (sys_log e ss) = ss_soi ss"
  "ss_ev (sys_log e ss) = ss_ev ss" "ss_event_n (sys_log e ss) = ss_event_n ss"
  "ss_event_index (sys_log e ss) = ss_event_index ss" "ss_time (sys_log e ss) = ss_time ss"
  by (simp_all add: sys_log_def)

lemma set_wl_simps [simp]:
  "wl pr (set_wl pr l s) = l" "pr \<noteq> pr' \<Longrightarrow> wl pr' (set_wl pr l s) = wl pr' s"
  "sk_wbs (set_wl pr l s) = sk_wbs s" "sk_fd (set_wl pr l s) = sk_fd s" "sk_id (set_wl pr l s) = sk_id s"
  "sk_type (set_wl pr l s) = sk_type s" "sk_wb_size (set_wl pr l s) = sk_wb_size s"
  "sk_protocol (set_wl pr l s) = sk_protocol s" "sk_dw_buffer (set_wl pr l s) = sk_dw_buffer s"
  "sk_dw_size (set_wl pr l s) = sk_dw_size s" "sk_dw_offset (set_wl pr l s) = sk_dw_offset s"
  "sk_sending (set_wl pr l s) = sk_sending s" "sk_p (set_wl pr l s) = sk_p s"
  "sk_closing (set_wl pr l s) = sk_closing s" "sk_opaque (set_wl pr l s) = sk_opaque s"
  "sk_writing (set_wl pr l s) = sk_writing s" "sk_reading (set_wl pr l s) = sk_reading s"
  "sk_warn_size (set_wl pr l s) = sk_warn_size s" "sk_stat (set_wl pr l s) = sk_stat s"
  "sk_udpconnecting (set_wl pr l s) = sk_udpconnecting s"
  by (cases pr; cases pr'; simp)+

lemma wl_update_simps [simp]:
  "wl pr (s\<lparr>sk_wbs := w\<rparr>) = wl pr s" "wl pr (s\<lparr>sk_wb_size := n\<rparr>) = wl pr s"
  "wl pr (s\<lparr>sk_stat := st\<rparr>) = wl pr s" "wl pr (s\<lparr>sk_type := t\<rparr>) = wl pr s"
  "wl pr (s\<lparr>sk_writing := b\<rparr>) = wl pr s" "wl pr (s\<lparr>sk_dw_buffer := p\<rparr>) = wl pr s"
  by (cases pr; simp)+

section \<open>Chains of buffers\<close>

type_synonym wbs = "(addr \<times> write_buffer) list"

fun wb_chain :: "(addr \<rightharpoonup> write_buffer) \<Rightarrow> addr option \<Rightarrow> wbs \<Rightarrow> bool" where
  "wb_chain W p [] = (p = None)"
| "wb_chain W p ((a, wb) # xs) = (p = Some a \<and> W a = Some wb \<and> wb_chain W (wb_next wb) xs)"

definition wl_ok :: "(addr \<rightharpoonup> write_buffer) \<Rightarrow> wb_list \<Rightarrow> wbs \<Rightarrow> bool" where
  "wl_ok W l xs \<longleftrightarrow> wb_chain W (wl_head l) xs \<and> wl_tail l = (if xs = [] then None else Some (fst (last xs)))"

lemma wb_chain_cong:
  "(\<And>a. a \<in> fst ` set xs \<Longrightarrow> W' a = W a) \<Longrightarrow> wb_chain W' p xs = wb_chain W p xs"
  by (induction W p xs rule: wb_chain.induct) auto

lemma wb_chain_dom: "wb_chain W p xs \<Longrightarrow> (a, wb) \<in> set xs \<Longrightarrow> W a = Some wb"
  by (induction W p xs rule: wb_chain.induct) auto

lemma wl_ok_cong: "(\<And>a. a \<in> fst ` set xs \<Longrightarrow> W' a = W a) \<Longrightarrow> wl_ok W' l xs = wl_ok W l xs"
  unfolding wl_ok_def using wb_chain_cong by metis

lemma wb_chain_upd: "a \<notin> fst ` set xs \<Longrightarrow> wb_chain (W(a := v)) p xs = wb_chain W p xs"
  by (rule wb_chain_cong) (metis fun_upd_other)

lemma wl_ok_upd: "a \<notin> fst ` set xs \<Longrightarrow> wl_ok (W(a := v)) l xs = wl_ok W l xs"
  by (rule wl_ok_cong) (metis fun_upd_other)

lemma wl_ok_empty [simp]: "wl_ok W clear_wb_list []"
  by (simp add: wl_ok_def clear_wb_list_def)

lemma wl_ok_Nil: "wl_ok W l [] \<longleftrightarrow> l = clear_wb_list"
  by (cases l) (simp add: wl_ok_def clear_wb_list_def)

lemma wl_ok_head_None: "wl_ok W l xs \<Longrightarrow> wl_head l = None \<longleftrightarrow> xs = []"
  by (cases xs) (auto simp: wl_ok_def)

text \<open>A buffer after the last one.\<close>

fun link_last :: "addr \<Rightarrow> wbs \<Rightarrow> wbs" where
  "link_last a [] = []"
| "link_last a [(t, tb)] = [(t, tb\<lparr>wb_next := Some a\<rparr>)]"
| "link_last a (x # y # xs) = x # link_last a (y # xs)"

lemma link_last_fst [simp]: "map fst (link_last a xs) = map fst xs"
  by (induction a xs rule: link_last.induct) auto

lemma link_last_fst_set: "fst ` set (link_last a xs) = fst ` set xs"
  by (metis link_last_fst set_map)

lemma link_last_map:
  "(\<And>wb n. f (wb\<lparr>wb_next := n\<rparr>) = f wb) \<Longrightarrow> map (\<lambda>x. f (snd x)) (link_last a xs) = map (\<lambda>x. f (snd x)) xs"
  by (induction a xs rule: link_last.induct) auto

lemma wb_chain_snoc:
  "wb_chain W p xs \<Longrightarrow> xs \<noteq> [] \<Longrightarrow> distinct (map fst xs) \<Longrightarrow> a \<notin> fst ` set xs \<Longrightarrow> wb_next buf = None \<Longrightarrow>
   last xs = (t, tb) \<Longrightarrow>
   wb_chain (W(a \<mapsto> buf, t \<mapsto> tb\<lparr>wb_next := Some a\<rparr>)) p (link_last a xs @ [(a, buf)])"
proof (induction a xs arbitrary: p rule: link_last.induct)
  case (2 a t' tb')
  then show ?case by simp
next
  case (3 a x y ys)
  obtain b wb where x: "x = (b, wb)" by force
  have t: "t \<in> fst ` set (y # ys)"
    using "3.prems" (6) by (metis fst_conv image_eqI last_ConsR last_in_set list.distinct(1))
  have tail: "wb_chain (W(a \<mapsto> buf, t \<mapsto> tb\<lparr>wb_next := Some a\<rparr>)) (wb_next wb) (link_last a (y # ys) @ [(a, buf)])"
    using "3.prems" x by (intro "3.IH") auto
  have "b \<noteq> t" using t "3.prems" (3) x by auto
  moreover have "b \<noteq> a" using "3.prems" (4) x by auto
  ultimately have "(W(a \<mapsto> buf, t \<mapsto> tb\<lparr>wb_next := Some a\<rparr>)) b = Some wb" using "3.prems" (1) x by simp
  with tail show ?case using "3.prems" (1) x by (simp del: fun_upd_apply)
qed simp

section \<open>Buffers in memory\<close>

definition wb_blk :: "write_buffer \<Rightarrow> addr" where
  "wb_blk wb = fst (the (wb_buffer wb))"

text \<open>A buffer that owns a block and whose rest lies in it.\<close>

definition wb_good :: "(addr \<rightharpoonup> u8 list) \<Rightarrow> write_buffer \<Rightarrow> bool" where
  "wb_good m wb \<longleftrightarrow> \<not> wb_userobject wb \<and> wb_buffer wb = Some (wb_blk wb, 0) \<and>
     (\<exists>off xs. wb_ptr wb = Some (wb_blk wb, off) \<and> m (wb_blk wb) = Some xs \<and> 0 \<le> off \<and> 0 \<le> wb_sz wb \<and>
        off + wb_sz wb \<le> int (length xs))"

definition wb_data :: "(addr \<rightharpoonup> u8 list) \<Rightarrow> write_buffer \<Rightarrow> u8 list" where
  "wb_data m wb = take (nat (wb_sz wb)) (drop (nat (snd (the (wb_ptr wb)))) (the (m (fst (the (wb_ptr wb))))))"

lemma wb_good_read:
  "wb_good m wb \<Longrightarrow> mem_read m (wb_ptr wb) (wb_sz wb) = Some (wb_data m wb)"
  by (auto simp: wb_good_def mem_read_def wb_data_def)

lemma wb_good_length: "wb_good m wb \<Longrightarrow> int (length (wb_data m wb)) = wb_sz wb"
  by (auto simp: wb_good_def wb_data_def)

lemma wb_good_cong: "m' (wb_blk wb) = m (wb_blk wb) \<Longrightarrow> wb_good m' wb = wb_good m wb"
  by (auto simp: wb_good_def)

lemma wb_data_cong: "wb_good m wb \<Longrightarrow> m' (wb_blk wb) = m (wb_blk wb) \<Longrightarrow> wb_data m' wb = wb_data m wb"
  by (auto simp: wb_good_def wb_data_def)

definition wbs_data :: "(addr \<rightharpoonup> u8 list) \<Rightarrow> wbs \<Rightarrow> u8 list" where
  "wbs_data m xs = concat (map (\<lambda>x. wb_data m (snd x)) xs)"

definition wbs_blks :: "wbs \<Rightarrow> addr list" where
  "wbs_blks xs = map (\<lambda>x. wb_blk (snd x)) xs"

definition wbs_size :: "wbs \<Rightarrow> int" where
  "wbs_size xs = sum_list (map (\<lambda>x. wb_sz (snd x)) xs)"

lemma wbs_simps [simp]:
  "wbs_data m [] = []" "wbs_data m (x # xs) = wb_data m (snd x) @ wbs_data m xs"
  "wbs_data m (xs @ ys) = wbs_data m xs @ wbs_data m ys"
  "wbs_blks [] = []" "wbs_blks (x # xs) = wb_blk (snd x) # wbs_blks xs"
  "wbs_blks (xs @ ys) = wbs_blks xs @ wbs_blks ys"
  "wbs_size [] = 0" "wbs_size (x # xs) = wb_sz (snd x) + wbs_size xs"
  "wbs_size (xs @ ys) = wbs_size xs + wbs_size ys"
  by (simp_all add: wbs_data_def wbs_blks_def wbs_size_def)

lemma wb_next_simps [simp]:
  "wb_blk (wb\<lparr>wb_next := n\<rparr>) = wb_blk wb" "wb_data m (wb\<lparr>wb_next := n\<rparr>) = wb_data m wb"
  "wb_good m (wb\<lparr>wb_next := n\<rparr>) = wb_good m wb"
  by (simp_all add: wb_blk_def wb_data_def wb_good_def)

lemma link_last_simps [simp]:
  "wbs_data m (link_last a xs) = wbs_data m xs" "wbs_blks (link_last a xs) = wbs_blks xs"
  "wbs_size (link_last a xs) = wbs_size xs"
  by (simp_all add: wbs_data_def wbs_blks_def wbs_size_def link_last_map)

lemma wbs_data_cong:
  "(\<And>a wb. (a, wb) \<in> set xs \<Longrightarrow> wb_good m wb \<and> m' (wb_blk wb) = m (wb_blk wb)) \<Longrightarrow> wbs_data m' xs = wbs_data m xs"
  unfolding wbs_data_def
  by (intro arg_cong [where f = concat] map_cong refl wb_data_cong) (metis prod.collapse)+

section \<open>Freeing a list\<close>

lemma write_buffer_free_good:
  assumes "sk_wbs (ss_slot ss i) a = Some wb" "wb_good (ss_mem ss) wb"
  shows "write_buffer_free i a ss =
    Some (upd_slot i (\<lambda>s. s\<lparr>sk_wbs := (sk_wbs s)(a := None)\<rparr>) (ss\<lparr>ss_mem := (ss_mem ss)(wb_blk wb := None)\<rparr>))"
  using assms by (auto simp: write_buffer_free_def FREE_def wb_good_def)

lemma upd_slot_twice: "upd_slot i f (upd_slot i g ss) = upd_slot i (\<lambda>s. f (g s)) ss"
  by (simp add: upd_slot_def)

lemma upd_slot_mem: "(upd_slot i f ss)\<lparr>ss_mem := m\<rparr> = upd_slot i f (ss\<lparr>ss_mem := m\<rparr>)"
  by (simp add: upd_slot_def)

lemma restrict_compl_insert: "(W(a := None)) |` (- A) = W |` (- insert a A)"
  by (auto simp: restrict_map_def fun_eq_iff)

lemma free_wbs_chain:
  assumes "wb_chain (sk_wbs (ss_slot ss i)) p xs" "distinct (map fst xs)" "distinct (wbs_blks xs)"
    and "\<And>a wb. (a, wb) \<in> set xs \<Longrightarrow> wb_good (ss_mem ss) wb"
  shows "free_wbs i p ss = Some (upd_slot i (\<lambda>s. s\<lparr>sk_wbs := sk_wbs s |` (- fst ` set xs)\<rparr>)
    (ss\<lparr>ss_mem := ss_mem ss |` (- set (wbs_blks xs))\<rparr>))"
  using assms
proof (induction xs arbitrary: p ss)
  case Nil
  have "free_wbs i None ss = Some ss" by (subst free_wbs.simps) simp
  then show ?case using Nil(1) by (simp add: upd_slot_def)
next
  case (Cons x xs)
  obtain a wb where x: "x = (a, wb)" by force
  let ?ss = "upd_slot i (\<lambda>s. s\<lparr>sk_wbs := (sk_wbs s)(a := None)\<rparr>)
    (ss\<lparr>ss_mem := (ss_mem ss)(wb_blk wb := None)\<rparr>)"
  have W: "sk_wbs (ss_slot ss i) a = Some wb" "p = Some a" using Cons.prems(1) x by auto
  have free: "write_buffer_free i a ss = Some ?ss"
    by (rule write_buffer_free_good [OF W(1)]) (use Cons.prems(4) x in auto)
  have fresh: "\<And>b wc. (b, wc) \<in> set xs \<Longrightarrow> b \<noteq> a \<and> wb_blk wc \<noteq> wb_blk wb"
    using Cons.prems(2,3) x by (force simp: wbs_blks_def)
  have chain: "wb_chain (sk_wbs (ss_slot ?ss i)) (wb_next wb) xs"
    using Cons.prems(1) x
    by (subst wb_chain_cong [where W = "sk_wbs (ss_slot ss i)"]) (auto dest: fresh)
  have good: "wb_good (ss_mem ?ss) wc" if "(b, wc) \<in> set xs" for b wc
    using Cons.prems(4) [of b wc] that fresh [OF that]
    by (subst wb_good_cong [where m = "ss_mem ss"]) auto
  have IH: "free_wbs i (wb_next wb) ?ss =
    Some (upd_slot i (\<lambda>s. s\<lparr>sk_wbs := sk_wbs s |` (- fst ` set xs)\<rparr>)
      (?ss\<lparr>ss_mem := ss_mem ?ss |` (- set (wbs_blks xs))\<rparr>))"
    using Cons.prems(2,3) x by (intro Cons.IH chain good) auto
  have "free_wbs i p ss = free_wbs i (wb_next wb) ?ss"
    using W by (subst free_wbs.simps) (simp add: free)
  then show ?case
    unfolding IH x by (simp add: upd_slot_twice upd_slot_mem restrict_compl_insert
      del: restrict_fun_upd fun_upd_None_restrict)
qed

end
