(* ===== verification/Socket_Inv.thy ===== *)
theory Socket_Inv
  imports Socket_Lists
begin

text \<open>
  The invariant of a slot of the socket server, and that every routine of the socket thread that
  works on an open slot returns and keeps it.
\<close>

section \<open>Assumptions on the operating system\<close>

text \<open>
  What the calls document: \<open>write\<close> takes at most the bytes it was given and is not interrupted for
  ever; \<open>read\<close> gives at most the bytes asked for, here less than a gigabyte at once;
  the resolver gives at least one address, of the family it says; the pipe between the threads
  can be read. The stack buffer of a request is larger than an address.
\<close>

definition interrupted :: "int \<times> errno \<Rightarrow> bool" where
  "interrupted r \<longleftrightarrow> fst r < 0 \<and> snd r = EINTR"

definition kernel_ok :: "kernel \<Rightarrow> bool" where
  "kernel_ok K \<longleftrightarrow>
     (\<forall>tr fd d. fst (k_write K tr fd d) \<le> int (length d)) \<and>
     (\<forall>tr sid fd d. \<exists>n. \<not> interrupted (k_write K (tr @ replicate n (Sys_write sid fd [])) fd d)) \<and>
     (\<forall>tr fd n bytes. k_read K tr fd n = Inr bytes \<longrightarrow> int (length bytes) \<le> n \<and> length bytes < 1073741824) \<and>
     (\<forall>tr host port ai. k_getaddrinfo K tr host port = Inr ai \<longrightarrow>
        ai \<noteq> [] \<and> (\<forall>x \<in> set ai. fst x = AF_OTHER \<or> (fst x = AF_INET) = is_v4 (snd x))) \<and>
     (\<forall>tr. k_pipe_read K tr = None) \<and> UDP_ADDRESS_SIZE \<le> length (k_stack K)"

lemma kernel_okD:
  assumes "kernel_ok K"
  shows "k_write K tr fd d = (n, e) \<Longrightarrow> n \<le> int (length d)"
    and "\<exists>n. \<not> interrupted (k_write K (tr @ replicate n (Sys_write sid fd [])) fd d)"
    and "k_read K tr fd m = Inr bytes \<Longrightarrow> int (length bytes) \<le> m"
    and "k_read K tr fd m = Inr bytes \<Longrightarrow> length bytes < 1073741824"
    and "k_pipe_read K tr = None" and "UDP_ADDRESS_SIZE \<le> length (k_stack K)"
    and "k_getaddrinfo K tr host port = Inr ai \<Longrightarrow>
      ai \<noteq> [] \<and> (\<forall>x \<in> set ai. fst x = AF_OTHER \<or> (fst x = AF_INET) = is_v4 (snd x))"
proof -
  show "n \<le> int (length d)" if "k_write K tr fd d = (n, e)"
    using assms that unfolding kernel_ok_def by (metis fst_conv)
  show "ai \<noteq> [] \<and> (\<forall>x \<in> set ai. fst x = AF_OTHER \<or> (fst x = AF_INET) = is_v4 (snd x))"
    if "k_getaddrinfo K tr host port = Inr ai"
    using assms that unfolding kernel_ok_def by blast
qed (use assms in \<open>simp_all add: kernel_ok_def\<close>)

section \<open>The invariant of a slot\<close>

definition live :: "socket \<Rightarrow> bool" where
  "live s \<longleftrightarrow> sk_type s \<noteq> SOCKET_TYPE_INVALID \<and> sk_type s \<noteq> SOCKET_TYPE_RESERVE"

definition dw_blks :: "socket \<Rightarrow> addr list" where
  "dw_blks s = (case sk_dw_buffer s of None \<Rightarrow> [] | Some (b, off) \<Rightarrow> [b])"

text \<open>The rest of a direct write: only a stream has one, and its offset lies in its block.\<close>

definition dw_good :: "(addr \<rightharpoonup> u8 list) \<Rightarrow> socket \<Rightarrow> bool" where
  "dw_good m s \<longleftrightarrow> (case sk_dw_buffer s of
     None \<Rightarrow> True
   | Some (b, off) \<Rightarrow> off = 0 \<and> sk_protocol s = PROTOCOL_TCP \<and> 0 \<le> sk_dw_offset s \<and>
       sk_dw_offset s \<le> sk_dw_size s \<and> sk_dw_size s \<le> INT_MAX \<and>
       (\<exists>xs. m b = Some xs \<and> sk_dw_size s \<le> int (length xs)))"

definition dw_data :: "(addr \<rightharpoonup> u8 list) \<Rightarrow> socket \<Rightarrow> u8 list" where
  "dw_data m s = (case sk_dw_buffer s of
     None \<Rightarrow> []
   | Some (b, off) \<Rightarrow> drop (nat (sk_dw_offset s)) (take (nat (sk_dw_size s)) (the (m b))))"

text \<open>
  The two lists are linked without a cycle and hold all the buffers of the slot; the addresses of
  the buffers were allocated before.
\<close>

definition links_ok :: "addr \<Rightarrow> socket \<Rightarrow> wbs \<Rightarrow> wbs \<Rightarrow> bool" where
  "links_ok brk s hs ls \<longleftrightarrow>
     wl_ok (sk_wbs s) (sk_high s) hs \<and> wl_ok (sk_wbs s) (sk_low s) ls \<and>
     distinct (map fst (hs @ ls)) \<and> dom (sk_wbs s) = fst ` set (hs @ ls) \<and>
     (\<forall>a \<in> fst ` set (hs @ ls). a < brk)"

text \<open>
  \<open>ow\<close> tells which slot owns a block of memory: each buffer and the direct write own a block of
  their own. The buffers of a UDP socket have an address.
\<close>

definition owns_ok ::
  "(addr \<rightharpoonup> u8 list) \<Rightarrow> (addr \<Rightarrow> nat option) \<Rightarrow> nat \<Rightarrow> socket \<Rightarrow> wbs \<Rightarrow> bool" where
  "owns_ok m ow i s xs \<longleftrightarrow>
     (\<forall>x \<in> set xs. wb_good m (snd x) \<and> ow (wb_blk (snd x)) = Some i \<and>
        (sk_protocol s \<noteq> PROTOCOL_TCP \<longrightarrow> wb_udp (snd x) \<noteq> None)) \<and>
     distinct (wbs_blks xs @ dw_blks s) \<and> dw_good m s \<and> (\<forall>b \<in> set (dw_blks s). ow b = Some i)"

definition bufs_ok ::
  "(addr \<rightharpoonup> u8 list) \<Rightarrow> addr \<Rightarrow> (addr \<Rightarrow> nat option) \<Rightarrow> nat \<Rightarrow> socket \<Rightarrow> wbs \<Rightarrow> wbs \<Rightarrow> bool" where
  "bufs_ok m brk ow i s hs ls \<longleftrightarrow> links_ok brk s hs ls \<and> owns_ok m ow i s (hs @ ls)"

text \<open>
  The counter of waiting bytes is exact and no buffer of the low list was started.
\<close>

definition conn_ok :: "socket \<Rightarrow> wbs \<Rightarrow> wbs \<Rightarrow> bool" where
  "conn_ok s hs ls \<longleftrightarrow>
     sk_protocol s \<in> {PROTOCOL_TCP, PROTOCOL_UDP, PROTOCOL_UDPv6} \<and>
     sk_wb_size s = wbs_size hs + wbs_size ls \<and>
     (\<forall>x \<in> set ls. wb_ptr (snd x) = wb_buffer (snd x)) \<and>
     (case sk_p s of
        P_size n \<Rightarrow> sk_protocol s = PROTOCOL_TCP \<and> 0 < n \<and> n \<le> INT_MAX
      | P_address a \<Rightarrow> sk_protocol s \<noteq> PROTOCOL_TCP \<and> length a = UDP_ADDRESS_SIZE)"

definition closed_ok :: "socket \<Rightarrow> bool" where
  "closed_ok s \<longleftrightarrow> sk_high s = clear_wb_list \<and> sk_low s = clear_wb_list \<and> sk_wbs s = Map.empty"

definition slot_inv :: "(addr \<rightharpoonup> u8 list) \<Rightarrow> addr \<Rightarrow> (addr \<Rightarrow> nat option) \<Rightarrow> nat \<Rightarrow> socket \<Rightarrow> bool" where
  "slot_inv m brk ow i s \<longleftrightarrow>
     (if live s then \<exists>hs ls. bufs_ok m brk ow i s hs ls \<and> conn_ok s hs ls else closed_ok s)"

lemma links_ok_mono: "links_ok brk s hs ls \<Longrightarrow> brk \<le> brk' \<Longrightarrow> links_ok brk' s hs ls"
  unfolding links_ok_def by (meson order_less_le_trans)

lemma owns_ok_cong:
  assumes "owns_ok m ow i s xs" and m: "\<And>b. ow b = Some i \<Longrightarrow> m' b = m b"
  shows "owns_ok m' ow i s xs"
proof -
  have "wb_good m' (snd x)" if "x \<in> set xs" for x
    using assms m wb_good_cong [of m' "snd x" m] that unfolding owns_ok_def by blast
  moreover have "dw_good m' s"
    using assms m unfolding owns_ok_def dw_good_def dw_blks_def by (auto split: option.splits)
  ultimately show ?thesis using assms(1) unfolding owns_ok_def by blast
qed

lemma slot_inv_mono:
  assumes "slot_inv m brk ow i s" "brk \<le> brk'" and m: "\<And>b. ow b = Some i \<Longrightarrow> m' b = m b"
  shows "slot_inv m' brk' ow i s"
proof -
  have "owns_ok m' ow i s xs" if "owns_ok m ow i s xs" for xs
    using that m by (rule owns_ok_cong)
  then show ?thesis
    using assms(1) links_ok_mono [OF _ assms(2)] unfolding slot_inv_def bufs_ok_def
    by (auto split: if_splits) blast
qed

section \<open>What a socket sent and still holds\<close>

text \<open>The bytes that were written for a socket, and the bytes of a stream that wait in its slot.\<close>

fun written :: "int \<Rightarrow> sys \<Rightarrow> u8 list" where
  "written sid (Sys_write x fd d) = (if x = sid then d else [])"
| "written sid _ = []"

definition wire :: "int \<Rightarrow> sys list \<Rightarrow> u8 list" where
  "wire sid tr = concat (map (written sid) tr)"

lemma wire_simps [simp]:
  "wire sid [] = []" "wire sid (e # tr) = written sid e @ wire sid tr"
  "wire sid (tr @ tr') = wire sid tr @ wire sid tr'"
  by (simp_all add: wire_def)

definition pending :: "(addr \<rightharpoonup> u8 list) \<Rightarrow> socket \<Rightarrow> u8 list \<Rightarrow> bool" where
  "pending m s bs \<longleftrightarrow> sk_low s = clear_wb_list \<and>
     (\<exists>hs. wl_ok (sk_wbs s) (sk_high s) hs \<and> bs = dw_data m s @ wbs_data m hs)"

section \<open>Steps that only touch one slot\<close>

definition frame :: "(addr \<Rightarrow> nat option) \<Rightarrow> nat \<Rightarrow> socket_server \<Rightarrow> socket_server \<Rightarrow> bool" where
  "frame ow i ss ss' \<longleftrightarrow>
     (\<forall>j. j \<noteq> i \<longrightarrow> ss_slot ss' j = ss_slot ss j) \<and> ss_pipe ss' = ss_pipe ss \<and>
     ss_alloc_id ss' = ss_alloc_id ss \<and> ss_soi ss' = ss_soi ss \<and> ss_ev ss' = ss_ev ss \<and>
     ss_event_n ss' = ss_event_n ss \<and> ss_event_index ss' = ss_event_index ss \<and> ss_brk ss \<le> ss_brk ss' \<and>
     (\<forall>b. ow b \<noteq> Some i \<longrightarrow> b < ss_brk ss \<longrightarrow> ss_mem ss' b = ss_mem ss b) \<and>
     (\<forall>b. ss_brk ss' \<le> b \<longrightarrow> ss_mem ss' b = None) \<and>
     (\<forall>x. x \<noteq> sk_id (ss_slot ss i) \<longrightarrow> wire x (ss_trace ss') = wire x (ss_trace ss))"

definition keep :: "socket \<Rightarrow> socket \<Rightarrow> bool" where
  "keep s s' \<longleftrightarrow> sk_id s' = sk_id s \<and> sk_protocol s' = sk_protocol s \<and> sk_sending s' = sk_sending s \<and>
     (live s' \<longrightarrow> live s) \<and>
     (sk_type s' = SOCKET_TYPE_RESERVE \<longleftrightarrow> sk_type s = SOCKET_TYPE_RESERVE) \<and>
     (sk_type s = SOCKET_TYPE_HALFCLOSE_READ \<longrightarrow>
        sk_type s' = SOCKET_TYPE_HALFCLOSE_READ \<or> sk_type s' = SOCKET_TYPE_INVALID)"

text \<open>
  \<open>stream add\<close>: while the slot of a stream stays open and its low list is not used, what was
  written and what waits are together what they were before, followed by \<open>add\<close>.
\<close>

definition stream :: "u8 list \<Rightarrow> nat \<Rightarrow> socket_server \<Rightarrow> socket_server \<Rightarrow> bool" where
  "stream add i ss ss' \<longleftrightarrow>
     (\<forall>bs. live (ss_slot ss' i) \<longrightarrow> sk_protocol (ss_slot ss i) = PROTOCOL_TCP \<longrightarrow>
        pending (ss_mem ss) (ss_slot ss i) bs \<longrightarrow>
        (\<exists>bs'. pending (ss_mem ss') (ss_slot ss' i) bs' \<and>
           wire (sk_id (ss_slot ss i)) (ss_trace ss') @ bs' = wire (sk_id (ss_slot ss i)) (ss_trace ss) @ bs @ add))"

definition sinv :: "(addr \<Rightarrow> nat option) \<Rightarrow> nat \<Rightarrow> socket_server \<Rightarrow> bool" where
  "sinv ow i ss \<longleftrightarrow> slot_inv (ss_mem ss) (ss_brk ss) ow i (ss_slot ss i) \<and>
     (\<forall>b. ss_brk ss \<le> b \<longrightarrow> ss_mem ss b = None)"

definition grow :: "(addr \<Rightarrow> nat option) \<Rightarrow> nat \<Rightarrow> socket_server \<Rightarrow> socket_server \<Rightarrow> bool" where
  "grow ow i ss ss' \<longleftrightarrow> frame ow i ss ss' \<and> sinv ow i ss' \<and> keep (ss_slot ss i) (ss_slot ss' i)"

definition evolve :: "(addr \<Rightarrow> nat option) \<Rightarrow> nat \<Rightarrow> socket_server \<Rightarrow> socket_server \<Rightarrow> bool" where
  "evolve ow i ss ss' \<longleftrightarrow>
     frame ow i ss ss' \<and> sinv ow i ss' \<and> keep (ss_slot ss i) (ss_slot ss' i) \<and> stream [] i ss ss'"

lemma evolve_grow: "evolve ow i ss ss' \<longleftrightarrow> grow ow i ss ss' \<and> stream [] i ss ss'"
  by (auto simp: evolve_def grow_def)

lemma frame_trans:
  "frame ow i ss ss' \<Longrightarrow> frame ow i ss' ss'' \<Longrightarrow> sk_id (ss_slot ss' i) = sk_id (ss_slot ss i) \<Longrightarrow> frame ow i ss ss''"
  unfolding frame_def by (elim conjE, intro conjI allI impI) auto

lemma keep_trans: "keep s s' \<Longrightarrow> keep s' s'' \<Longrightarrow> keep s s''"
  unfolding keep_def live_def by metis

lemma stream_trans:
  assumes "stream xs i ss ss'" "stream ys i ss' ss''" "keep (ss_slot ss i) (ss_slot ss' i)"
    "keep (ss_slot ss' i) (ss_slot ss'' i)"
  shows "stream (xs @ ys) i ss ss''"
  unfolding stream_def
proof (intro allI impI)
  fix bs
  assume l: "live (ss_slot ss'' i)" and p: "sk_protocol (ss_slot ss i) = PROTOCOL_TCP"
    and pe: "pending (ss_mem ss) (ss_slot ss i) bs"
  have l': "live (ss_slot ss' i)" using l assms(4) by (simp add: keep_def)
  have p': "sk_protocol (ss_slot ss' i) = PROTOCOL_TCP" using p assms(3) by (simp add: keep_def)
  let ?w = "\<lambda>ss. wire (sk_id (ss_slot ss i)) (ss_trace ss)"
  have ids: "sk_id (ss_slot ss' i) = sk_id (ss_slot ss i)" using assms(3) by (simp add: keep_def)
  from assms(1) [unfolded stream_def, rule_format, OF l' p pe] obtain bs' where
    1: "pending (ss_mem ss') (ss_slot ss' i) bs'"
      "wire (sk_id (ss_slot ss i)) (ss_trace ss') @ bs' = wire (sk_id (ss_slot ss i)) (ss_trace ss) @ bs @ xs"
    by blast
  from assms(2) [unfolded stream_def, rule_format, OF l p' 1(1)] obtain bs'' where
    2: "pending (ss_mem ss'') (ss_slot ss'' i) bs''"
      "wire (sk_id (ss_slot ss' i)) (ss_trace ss'') @ bs'' = wire (sk_id (ss_slot ss' i)) (ss_trace ss') @ bs' @ ys"
    by blast
  have "wire (sk_id (ss_slot ss i)) (ss_trace ss'') @ bs'' =
      (wire (sk_id (ss_slot ss i)) (ss_trace ss') @ bs') @ ys"
    using 2(2) ids by simp
  also have "\<dots> = wire (sk_id (ss_slot ss i)) (ss_trace ss) @ bs @ xs @ ys"
    using 1(2) by simp
  finally show "\<exists>bs'. pending (ss_mem ss'') (ss_slot ss'' i) bs' \<and>
      wire (sk_id (ss_slot ss i)) (ss_trace ss'') @ bs' = wire (sk_id (ss_slot ss i)) (ss_trace ss) @ bs @ xs @ ys"
    using 2(1) by blast
qed

lemma evolve_trans: "evolve ow i ss ss' \<Longrightarrow> evolve ow i ss' ss'' \<Longrightarrow> evolve ow i ss ss''"
  unfolding evolve_def
proof (elim conjE, intro conjI)
  assume a: "frame ow i ss ss'" "frame ow i ss' ss''" "stream [] i ss ss'" "stream [] i ss' ss''"
    and k: "keep (ss_slot ss i) (ss_slot ss' i)" "keep (ss_slot ss' i) (ss_slot ss'' i)"
  show "frame ow i ss ss''" using frame_trans [OF a(1,2)] k(1) by (simp add: keep_def)
  show "keep (ss_slot ss i) (ss_slot ss'' i)" using keep_trans [OF k] .
  show "stream [] i ss ss''" using stream_trans [OF a(3,4) k] by simp
qed

lemma grow_trans: "grow ow i ss ss' \<Longrightarrow> grow ow i ss' ss'' \<Longrightarrow> grow ow i ss ss''"
  unfolding grow_def using frame_trans keep_trans by (metis keep_def)

text \<open>A step that leaves memory and the buffers of the slot as they are.\<close>

definition same_bufs :: "socket \<Rightarrow> socket \<Rightarrow> bool" where
  "same_bufs s s' \<longleftrightarrow> sk_wbs s' = sk_wbs s \<and> sk_high s' = sk_high s \<and> sk_low s' = sk_low s \<and>
     sk_dw_buffer s' = sk_dw_buffer s \<and> sk_dw_size s' = sk_dw_size s \<and> sk_dw_offset s' = sk_dw_offset s \<and>
     sk_wb_size s' = sk_wb_size s \<and> sk_id s' = sk_id s \<and> sk_protocol s' = sk_protocol s \<and>
     sk_sending s' = sk_sending s"

definition same_world :: "nat \<Rightarrow> socket_server \<Rightarrow> socket_server \<Rightarrow> bool" where
  "same_world i ss ss' \<longleftrightarrow>
     (\<forall>j. j \<noteq> i \<longrightarrow> ss_slot ss' j = ss_slot ss j) \<and> ss_pipe ss' = ss_pipe ss \<and>
     ss_alloc_id ss' = ss_alloc_id ss \<and> ss_soi ss' = ss_soi ss \<and> ss_ev ss' = ss_ev ss \<and>
     ss_event_n ss' = ss_event_n ss \<and> ss_event_index ss' = ss_event_index ss \<and> ss_brk ss' = ss_brk ss \<and>
     ss_mem ss' = ss_mem ss \<and> (\<forall>x. wire x (ss_trace ss') = wire x (ss_trace ss))"

lemma same_bufs_dw:
  "same_bufs s s' \<Longrightarrow> dw_blks s' = dw_blks s \<and> dw_good m s' = dw_good m s \<and> dw_data m s' = dw_data m s"
  by (auto simp: same_bufs_def dw_blks_def dw_good_def dw_data_def split: option.splits)

lemma bufs_ok_same: "same_bufs s s' \<Longrightarrow> bufs_ok m brk ow i s' hs ls = bufs_ok m brk ow i s hs ls"
  using same_bufs_dw [of s s' m] by (simp only: bufs_ok_def links_ok_def owns_ok_def same_bufs_def)

lemma conn_ok_same: "same_bufs s s' \<Longrightarrow> sk_p s' = sk_p s \<Longrightarrow> conn_ok s' hs ls = conn_ok s hs ls"
  unfolding conn_ok_def same_bufs_def by (cases "sk_p s") simp_all

lemma evolve_same:
  assumes "sinv ow i ss" "same_world i ss ss'" "same_bufs (ss_slot ss i) (ss_slot ss' i)"
    "sk_p (ss_slot ss' i) = sk_p (ss_slot ss i)" "live (ss_slot ss i)" "live (ss_slot ss' i)"
    "sk_type (ss_slot ss i) = SOCKET_TYPE_HALFCLOSE_READ \<Longrightarrow> sk_type (ss_slot ss' i) = SOCKET_TYPE_HALFCLOSE_READ"
  shows "evolve ow i ss ss'"
proof -
  have "frame ow i ss ss'" using assms(1,2) unfolding frame_def same_world_def sinv_def by auto
  moreover have "slot_inv (ss_mem ss') (ss_brk ss') ow i (ss_slot ss' i)"
    using assms bufs_ok_same [OF assms(3)] conn_ok_same [OF assms(3,4)]
    unfolding slot_inv_def same_world_def sinv_def by auto
  moreover have "keep (ss_slot ss i) (ss_slot ss' i)"
    using assms unfolding keep_def same_bufs_def live_def by auto
  moreover have "stream [] i ss ss'"
    using assms(2,3) same_bufs_dw [OF assms(3), of "ss_mem ss"]
    unfolding stream_def pending_def same_bufs_def same_world_def by auto
  ultimately show ?thesis using assms(1,2) by (simp add: evolve_def sinv_def same_world_def)
qed

end
