(* ===== verification/Socket_Flush.thy ===== *)
theory Socket_Flush
  imports Socket_Inv
begin

text \<open>
  Closing a slot and writing its lists: the routines \<open>force_close\<close>, \<open>close_write\<close>, \<open>send_list\<close>
  and \<open>send_buffer\<close> return and keep the invariant of the slot, and the bytes of a stream leave in
  the order in which they wait.
\<close>

section \<open>Events and types\<close>

lemma same_world_log: "(\<And>x. written x e = []) \<Longrightarrow> same_world i ss (sys_log e ss)"
  by (simp add: same_world_def)

lemma same_world_trans: "same_world i ss ss' \<Longrightarrow> same_world i ss' ss'' \<Longrightarrow> same_world i ss ss''"
  by (simp add: same_world_def)

lemma same_world_upd: "same_world i ss (upd_slot i f ss)"
  by (simp add: same_world_def)

lemma same_world_refl: "same_world i ss ss"
  by (simp add: same_world_def)

lemma enable_write_slot:
  "enable_write K i b ss = (e, ss') \<Longrightarrow>
   ss_slot ss' i = (ss_slot ss i)\<lparr>sk_writing := b\<rparr> \<and> same_world i ss ss'"
  by (auto simp: enable_write_def sp_enable_def Let_def same_world_def split: if_splits)

lemma enable_read_slot:
  "enable_read K i b ss = (e, ss') \<Longrightarrow>
   ss_slot ss' i = (ss_slot ss i)\<lparr>sk_reading := b\<rparr> \<and> same_world i ss ss'"
  by (auto simp: enable_read_def sp_enable_def Let_def same_world_def split: if_splits)

section \<open>Closing\<close>

lemma restrict_empty: "dom W \<subseteq> A \<Longrightarrow> W |` (- A) = Map.empty"
  by (auto simp: restrict_map_def fun_eq_iff dom_def)

lemma restrict_twice: "W |` (- A) |` (- B) = W |` (- (A \<union> B))"
  by (auto simp: restrict_map_def fun_eq_iff)

text \<open>The slot and the memory after both lists were freed.\<close>

definition freed_lists :: "nat \<Rightarrow> wbs \<Rightarrow> socket_server \<Rightarrow> socket_server" where
  "freed_lists i xs ss = upd_slot i (\<lambda>s. s\<lparr>sk_wbs := Map.empty, sk_high := clear_wb_list, sk_low := clear_wb_list\<rparr>)
     (ss\<lparr>ss_mem := ss_mem ss |` (- set (wbs_blks xs))\<rparr>)"

lemma free_both:
  assumes b: "bufs_ok (ss_mem ss) brk ow i (ss_slot ss i) hs ls"
  shows "(free_wb_list i PRIORITY_HIGH ss \<bind> free_wb_list i PRIORITY_LOW) = Some (freed_lists i (hs @ ls) ss)"
proof -
  let ?s = "ss_slot ss i" let ?W = "sk_wbs ?s" let ?m = "ss_mem ss"
  have ch: "wb_chain ?W (wl_head (sk_high ?s)) hs" and cl: "wb_chain ?W (wl_head (sk_low ?s)) ls"
    and d: "distinct (map fst (hs @ ls))" and dom: "dom ?W = fst ` set (hs @ ls)"
    using b by (auto simp: bufs_ok_def links_ok_def wl_ok_def)
  have g: "wb_good ?m wb" if "(a, wb) \<in> set (hs @ ls)" for a wb
    using b that unfolding bufs_ok_def owns_ok_def by fastforce
  have gh: "\<And>a wb. (a, wb) \<in> set hs \<Longrightarrow> wb_good ?m wb" using g by auto
  have db: "distinct (wbs_blks (hs @ ls))" using b by (auto simp: bufs_ok_def owns_ok_def)
  let ?ss1 = "upd_slot i (\<lambda>s. s\<lparr>sk_wbs := sk_wbs s |` (- fst ` set hs)\<rparr>)
    (ss\<lparr>ss_mem := ?m |` (- set (wbs_blks hs))\<rparr>)"
  let ?ss2 = "upd_slot i (set_wl PRIORITY_HIGH clear_wb_list) ?ss1"
  have 1: "free_wb_list i PRIORITY_HIGH ss = Some ?ss2"
    using free_wbs_chain [OF ch] d db gh by (simp add: free_wb_list_def)
  have cl2: "wb_chain (sk_wbs (ss_slot ?ss2 i)) (wl_head (sk_low (ss_slot ?ss2 i))) ls"
    using cl d by (simp, subst wb_chain_cong [where W = ?W]) (auto simp: restrict_map_def)
  have g2: "wb_good (ss_mem ?ss2) wb" if "(a, wb) \<in> set ls" for a wb
  proof -
    have "wb_blk wb \<notin> set (wbs_blks hs)" using that db by (force simp: wbs_blks_def)
    then show ?thesis using g [of a wb] that by (subst wb_good_cong [where m = ?m]) auto
  qed
  have "free_wbs i (wl_head (wl PRIORITY_LOW (ss_slot ?ss2 i))) ?ss2 =
    Some (upd_slot i (\<lambda>s. s\<lparr>sk_wbs := sk_wbs s |` (- fst ` set ls)\<rparr>)
      (?ss2\<lparr>ss_mem := ss_mem ?ss2 |` (- set (wbs_blks ls))\<rparr>))"
    using cl2 d db g2 by (simp add: free_wbs_chain)
  then have 2: "free_wb_list i PRIORITY_LOW ?ss2 = Some (upd_slot i (set_wl PRIORITY_LOW clear_wb_list)
      (upd_slot i (\<lambda>s. s\<lparr>sk_wbs := sk_wbs s |` (- fst ` set ls)\<rparr>)
        (?ss2\<lparr>ss_mem := ss_mem ?ss2 |` (- set (wbs_blks ls))\<rparr>)))"
    by (simp add: free_wb_list_def)
  have e: "?W |` (- fst ` set hs) |` (- fst ` set ls) = Map.empty"
    unfolding restrict_twice by (rule restrict_empty) (simp add: dom image_Un)
  show ?thesis
    unfolding 1 bind.bind_lunit 2
    using e by (simp add: freed_lists_def upd_slot_def restrict_twice fun_eq_iff)
qed


lemma freed_lists_simps [simp]:
  "ss_slot (freed_lists i xs ss) j = (if j = i then (ss_slot ss i)\<lparr>sk_wbs := Map.empty,
     sk_high := clear_wb_list, sk_low := clear_wb_list\<rparr> else ss_slot ss j)"
  "ss_mem (freed_lists i xs ss) = ss_mem ss |` (- set (wbs_blks xs))"
  "ss_brk (freed_lists i xs ss) = ss_brk ss" "ss_trace (freed_lists i xs ss) = ss_trace ss"
  by (simp_all add: freed_lists_def)

text \<open>What the step of a slot to the type \<open>INVALID\<close> leaves.\<close>

definition shut :: "(addr \<Rightarrow> nat option) \<Rightarrow> nat \<Rightarrow> socket_server \<Rightarrow> socket_server \<Rightarrow> bool" where
  "shut ow i ss ss' \<longleftrightarrow> frame ow i ss ss' \<and> keep (ss_slot ss i) (ss_slot ss' i) \<and>
     sk_type (ss_slot ss' i) = SOCKET_TYPE_INVALID \<and> closed_ok (ss_slot ss' i)"

lemma force_close_shut:
  assumes b: "bufs_ok (ss_mem ss) brk ow i (ss_slot ss i) hs ls" and l: "live (ss_slot ss i)"
    and m: "\<And>b. ss_brk ss \<le> b \<Longrightarrow> ss_mem ss b = None"
  shows "\<exists>ss'. force_close K i ss = Some (report_to (ss_slot ss i) Data_null, ss') \<and> shut ow i ss ss'"
proof -
  let ?s = "ss_slot ss i"
  define ss2 where "ss2 = close_fd K i (freed_lists i (hs @ ls) ss)"
  have s2: "ss_slot ss2 j = (if j = i then ?s\<lparr>sk_wbs := Map.empty, sk_high := clear_wb_list,
      sk_low := clear_wb_list, sk_type := SOCKET_TYPE_INVALID\<rparr> else ss_slot ss j)" for j
    by (simp add: ss2_def close_fd_def Let_def set_type_def sp_del_def sys_close_def skynet_error_log_def)
  have m2: "ss_mem ss2 = ss_mem ss |` (- set (wbs_blks (hs @ ls)))"
    by (simp add: ss2_def close_fd_def Let_def set_type_def sp_del_def sys_close_def skynet_error_log_def)
  have w2: "ss_pipe ss2 = ss_pipe ss \<and> ss_alloc_id ss2 = ss_alloc_id ss \<and> ss_soi ss2 = ss_soi ss \<and>
      ss_ev ss2 = ss_ev ss \<and> ss_event_n ss2 = ss_event_n ss \<and> ss_event_index ss2 = ss_event_index ss \<and>
      ss_brk ss2 = ss_brk ss \<and> (\<forall>x. wire x (ss_trace ss2) = wire x (ss_trace ss))"
    by (simp add: ss2_def close_fd_def Let_def set_type_def sp_del_def sys_close_def
        skynet_error_log_def freed_lists_def)
  have own: "ow c = Some i" if "c \<in> set (wbs_blks (hs @ ls)) \<union> set (dw_blks ?s)" for c
    using b that by (auto simp: bufs_ok_def owns_ok_def wbs_blks_def)
  have fc: "force_close K i ss = map_option (\<lambda>ss'. (report_to ?s Data_null, ss')) (free_direct i ss2)"
    using l free_both [OF b] unfolding force_close_def live_def ss2_def
    by (simp add: bind_assoc [symmetric] del: bind_assoc) (auto simp: map_conv_bind_option comp_def)
  obtain ss3 where fd: "free_direct i ss2 = Some ss3" and
    s3: "\<And>j. ss_slot ss3 j = (if j = i then (ss_slot ss2 i)\<lparr>sk_dw_buffer := None\<rparr> else ss_slot ss j)" and
    m3: "ss_mem ss3 = ss_mem ss |` (- (set (wbs_blks (hs @ ls)) \<union> set (dw_blks ?s)))" and
    w3: "ss3 = ss2\<lparr>ss_slot := ss_slot ss3, ss_mem := ss_mem ss3\<rparr>"
  proof (cases "sk_dw_buffer ?s")
    case None
    then show thesis
      using that [of ss2] by (simp add: free_direct_def s2 m2 dw_blks_def)
  next
    case (Some p)
    then obtain c where p: "p = (c, 0)" and dw: "dw_blks ?s = [c]" and sz: "sk_dw_size ?s \<noteq> USEROBJECT"
      and mc: "ss_mem ss c \<noteq> None"
      using b unfolding bufs_ok_def owns_ok_def dw_good_def dw_blks_def
      by (auto simp: INT_MAX_def USEROBJECT_def split: option.splits)
    have "c \<notin> set (wbs_blks (hs @ ls))" using b dw unfolding bufs_ok_def owns_ok_def by auto
    then have "ss_mem ss2 c \<noteq> None" using mc m2 by simp
    then show thesis
      using that [of "upd_slot i (\<lambda>s. s\<lparr>sk_dw_buffer := None\<rparr>) (ss2\<lparr>ss_mem := (ss_mem ss2)(c := None)\<rparr>)"] Some p sz dw
      by (simp add: free_direct_def s2 m2 free_buffer_def FREE_def upd_slot_def restrict_map_def fun_eq_iff)
  qed
  have fr: "frame ow i ss ss3"
    unfolding frame_def
  proof (intro conjI allI impI)
    show "ss_mem ss3 b = ss_mem ss b" if "ow b \<noteq> Some i" for b
      using own [of b] that m3 by (auto simp: restrict_map_def)
    show "ss_mem ss3 b = None" if "ss_brk ss3 \<le> b" for b
      using that w2 m [of b] by (subst (asm) w3) (simp add: m3 restrict_map_def)
  qed (use s3 w2 in \<open>(subst w3, simp)+\<close>)
  have "shut ow i ss ss3"
    using l s3 [of i] s2 [of i] by (simp add: shut_def fr keep_def live_def closed_ok_def)
  then show ?thesis using fc fd by simp
qed


lemma shut_evolve: "shut ow i ss ss' \<Longrightarrow> sinv ow i ss \<Longrightarrow> evolve ow i ss ss'"
  by (auto simp: shut_def evolve_def sinv_def slot_inv_def live_def stream_def frame_def)

lemma force_close_ok:
  assumes "sinv ow i ss" "live (ss_slot ss i)"
  shows "\<exists>ss'. force_close K i ss = Some (report_to (ss_slot ss i) Data_null, ss') \<and> shut ow i ss ss' \<and> evolve ow i ss ss'"
proof -
  obtain hs ls where "bufs_ok (ss_mem ss) (ss_brk ss) ow i (ss_slot ss i) hs ls"
    using assms unfolding sinv_def slot_inv_def by auto
  from force_close_shut [OF this assms(2), where K = K] show ?thesis
    using assms(1) shut_evolve unfolding sinv_def by blast
qed

text \<open>After a failed write the slot is closed, or its type is set and an error is reported.\<close>

lemma close_write_cases:
  assumes b: "bufs_ok (ss_mem ss) brk ow i (ss_slot ss i) hs ls" and l: "live (ss_slot ss i)"
    and m: "\<And>b. ss_brk ss \<le> b \<Longrightarrow> ss_mem ss b = None"
  shows "\<exists>t r' ss'. close_write K i r ss = Some (Some t, r', ss') \<and> t \<in> {SOCKET_RST, SOCKET_ERR} \<and>
    (shut ow i ss ss' \<or>
     same_world i ss ss' \<and> (\<exists>ty w. ss_slot ss' i = (ss_slot ss i)\<lparr>sk_type := ty, sk_writing := w\<rparr> \<and>
       (ty = sk_type (ss_slot ss i) \<or> sk_type (ss_slot ss i) \<noteq> SOCKET_TYPE_HALFCLOSE_READ \<and>
          ty = SOCKET_TYPE_HALFCLOSE_WRITE)))"
proof -
  let ?s = "ss_slot ss i"
  obtain ss' where fc: "force_close K i ss = Some (report_to ?s Data_null, ss')" "shut ow i ss ss'"
    using force_close_shut [OF b l m] by blast
  consider "sk_closing ?s \<or> sk_type ?s = SOCKET_TYPE_HALFCLOSE_READ"
    | "\<not> sk_closing ?s" "sk_type ?s = SOCKET_TYPE_HALFCLOSE_WRITE"
    | "\<not> sk_closing ?s" "sk_type ?s \<noteq> SOCKET_TYPE_HALFCLOSE_READ" "sk_type ?s \<noteq> SOCKET_TYPE_HALFCLOSE_WRITE"
    by blast
  then show ?thesis
  proof cases
    case 1
    then have "close_write K i r ss = Some (Some SOCKET_RST, report_to ?s Data_null, ss')"
      using fc(1) by (auto simp: close_write_def Let_def)
    then show ?thesis using fc(2) by blast
  next
    case 2
    then have "close_write K i r ss = Some (Some SOCKET_RST, r, ss)"
      by (simp add: close_write_def Let_def)
    moreover have "?s = ?s\<lparr>sk_type := sk_type ?s, sk_writing := sk_writing ?s\<rparr>" by simp
    ultimately show ?thesis using same_world_refl [of i ss] by blast
  next
    case 3
    let ?ss1 = "sys_log (Sys_shutdown (sk_fd ?s) True) (set_type i SOCKET_TYPE_HALFCLOSE_WRITE ss)"
    obtain e ss2 where ew: "enable_write K i False ?ss1 = (e, ss2)" by force
    have w: "same_world i ss ?ss1" by (simp add: same_world_def set_type_def)
    have "close_write K i r ss = Some (report_error i (k_strerror K (k_errno K (ss_trace ss2))) ss2)"
      using 3 by (simp add: close_write_def Let_def ew)
    moreover have "ss_slot ss2 i = ?s\<lparr>sk_type := SOCKET_TYPE_HALFCLOSE_WRITE, sk_writing := False\<rparr>"
      using enable_write_slot [OF ew] by (simp add: set_type_def)
    moreover have "same_world i ss ss2" using same_world_trans [OF w] enable_write_slot [OF ew] by blast
    ultimately show ?thesis using 3(2) unfolding report_error_def by blast
  qed
qed

section \<open>The list that is written\<close>

text \<open>
  While a list is written its tail is only right as long as the list is not empty. \<open>xs\<close> is the
  list that is written, \<open>ys\<close> the other one.
\<close>

fun other :: "priority \<Rightarrow> priority" where
  "other PRIORITY_HIGH = PRIORITY_LOW"
| "other PRIORITY_LOW = PRIORITY_HIGH"

lemma other_neq [simp]: "other pr \<noteq> pr" "pr \<noteq> other pr"
  by (cases pr; simp)+

definition flush_ok ::
  "(addr \<rightharpoonup> u8 list) \<Rightarrow> addr \<Rightarrow> (addr \<Rightarrow> nat option) \<Rightarrow> nat \<Rightarrow> priority \<Rightarrow> socket \<Rightarrow> wbs \<Rightarrow> wbs \<Rightarrow> bool" where
  "flush_ok m brk ow i pr s xs ys \<longleftrightarrow>
     wb_chain (sk_wbs s) (wl_head (wl pr s)) xs \<and> (xs \<noteq> [] \<longrightarrow> wl_tail (wl pr s) = Some (fst (last xs))) \<and>
     wl_ok (sk_wbs s) (wl (other pr) s) ys \<and> distinct (map fst (xs @ ys)) \<and>
     dom (sk_wbs s) = fst ` set (xs @ ys) \<and> (\<forall>a \<in> fst ` set (xs @ ys). a < brk) \<and>
     owns_ok m ow i s (xs @ ys) \<and> sk_wb_size s = wbs_size xs + wbs_size ys"

lemma owns_ok_swap: "owns_ok m ow i s (xs @ ys) = owns_ok m ow i s (ys @ xs)"
  unfolding owns_ok_def by auto

text \<open>With its tail in order the written list is a list of the slot again.\<close>

definition hi :: "priority \<Rightarrow> 'a \<Rightarrow> 'a \<Rightarrow> 'a" where
  "hi pr x y = (case pr of PRIORITY_HIGH \<Rightarrow> x | PRIORITY_LOW \<Rightarrow> y)"

lemma flush_bufs:
  "flush_ok m brk ow i pr s xs ys \<and> (xs = [] \<longrightarrow> wl_tail (wl pr s) = None) \<longleftrightarrow>
   bufs_ok m brk ow i s (hi pr xs ys) (hi pr ys xs) \<and> sk_wb_size s = wbs_size xs + wbs_size ys"
proof (cases pr)
  case PRIORITY_HIGH
  then show ?thesis by (auto simp: flush_ok_def bufs_ok_def links_ok_def wl_ok_def hi_def)
next
  case PRIORITY_LOW
  then show ?thesis
    by (auto simp: flush_ok_def bufs_ok_def links_ok_def wl_ok_def hi_def owns_ok_swap [of m ow i s ys])
qed


definition same_dw :: "socket \<Rightarrow> socket \<Rightarrow> bool" where
  "same_dw s s' \<longleftrightarrow> sk_dw_buffer s' = sk_dw_buffer s \<and> sk_dw_size s' = sk_dw_size s \<and>
     sk_dw_offset s' = sk_dw_offset s \<and> sk_protocol s' = sk_protocol s"

lemma same_dwD:
  "same_dw s s' \<Longrightarrow> dw_blks s' = dw_blks s \<and> dw_good m s' = dw_good m s \<and> dw_data m s' = dw_data m s"
  by (auto simp: same_dw_def dw_blks_def dw_good_def dw_data_def split: option.splits)

lemma owns_ok_slot: "same_dw s s' \<Longrightarrow> owns_ok m ow i s' xs = owns_ok m ow i s xs"
  using same_dwD [of s s' m] by (simp only: owns_ok_def same_dw_def)

lemma wbs_blks_mem: "y \<in> set xs \<Longrightarrow> wb_blk (snd y) \<in> set (wbs_blks xs)"
  by (simp add: wbs_blks_def)

lemma owns_ok_tl:
  assumes "owns_ok m ow i s (x # xs)"
  shows "owns_ok (m(wb_blk (snd x) := None)) ow i s xs"
proof -
  let ?m = "m(wb_blk (snd x) := None)"
  have d: "wb_blk (snd x) \<notin> set (wbs_blks xs)" "wb_blk (snd x) \<notin> set (dw_blks s)"
    using assms by (auto simp: owns_ok_def)
  have "wb_good ?m (snd y)" if "y \<in> set xs" for y
  proof -
    have "wb_blk (snd y) \<noteq> wb_blk (snd x)" using wbs_blks_mem [OF that] d(1) by metis
    then show ?thesis using assms that by (subst wb_good_cong [where m = m]) (auto simp: owns_ok_def)
  qed
  moreover have "dw_good ?m s"
    using assms d(2) by (auto simp: owns_ok_def dw_good_def dw_blks_def split: option.splits)
  ultimately show ?thesis using assms by (simp add: owns_ok_def)
qed

lemma owns_data_tl:
  assumes "owns_ok m ow i s (x # xs)" "set ys \<subseteq> set xs"
  shows "wbs_data (m(wb_blk (snd x) := None)) ys = wbs_data m ys"
    "dw_data (m(wb_blk (snd x) := None)) s = dw_data m s"
proof -
  have d: "wb_blk (snd x) \<notin> set (wbs_blks xs)" "wb_blk (snd x) \<notin> set (dw_blks s)"
    using assms by (auto simp: owns_ok_def)
  show "wbs_data (m(wb_blk (snd x) := None)) ys = wbs_data m ys"
  proof (intro wbs_data_cong conjI)
    fix a wb
    assume "(a, wb) \<in> set ys"
    then have y: "(a, wb) \<in> set xs" using assms(2) by blast
    show "wb_good m wb" using assms(1) y by (fastforce simp: owns_ok_def)
    have "wb_blk wb \<noteq> wb_blk (snd x)" using wbs_blks_mem [OF y] d(1) by auto
    then show "(m(wb_blk (snd x) := None)) (wb_blk wb) = m (wb_blk wb)" by simp
  qed
  show "dw_data (m(wb_blk (snd x) := None)) s = dw_data m s"
    using d(2) by (auto simp: dw_data_def dw_blks_def split: option.splits)
qed

lemma flush_pop:
  assumes "flush_ok m brk ow i pr s ((a, wb) # xs) ys"
    and "sk_wbs s' = (sk_wbs s)(a := None)"
    "wl_head (wl pr s') = wb_next wb \<and> (xs \<noteq> [] \<longrightarrow> wl_tail (wl pr s') = wl_tail (wl pr s))"
    "wl (other pr) s' = wl (other pr) s" "sk_wb_size s' = sk_wb_size s - wb_sz wb" "same_dw s s'"
  shows "flush_ok (m(wb_blk wb := None)) brk ow i pr s' xs ys"
proof -
  have a: "a \<notin> fst ` set xs" "a \<notin> fst ` set ys"
    using assms(1) by (auto simp: flush_ok_def)
  have "wb_chain (sk_wbs s') (wl_head (wl pr s')) xs"
    using assms(1,2,3) a(1) by (subst wb_chain_cong [where W = "sk_wbs s"]) (auto simp: flush_ok_def)
  moreover have "wl_ok (sk_wbs s') (wl (other pr) s') ys"
    using assms(1,2,4) a(2) by (subst wl_ok_cong [where W = "sk_wbs s"]) (auto simp: flush_ok_def)
  moreover have "dom (sk_wbs s') = fst ` set (xs @ ys)"
    using assms(1,2) a by (auto simp: flush_ok_def)
  moreover have "owns_ok (m(wb_blk wb := None)) ow i s' (xs @ ys)"
    using assms(1,6) owns_ok_tl [of m ow i s "(a, wb)" "xs @ ys"]
    by (simp add: flush_ok_def owns_ok_slot)
  moreover have "xs \<noteq> [] \<longrightarrow> wl_tail (wl pr s') = Some (fst (last xs))"
    using assms(1,3) by (auto simp: flush_ok_def)
  ultimately show ?thesis using assms(1,5) by (simp add: flush_ok_def)
qed

text \<open>A buffer of which \<open>n\<close> bytes were written.\<close>

definition advance :: "int \<Rightarrow> write_buffer \<Rightarrow> write_buffer" where
  "advance n wb = wb\<lparr>wb_ptr := ptr_add (wb_ptr wb) n, wb_sz := wb_sz wb - n\<rparr>"

lemma advance_simps [simp]:
  "wb_blk (advance n wb) = wb_blk wb" "wb_next (advance n wb) = wb_next wb"
  "wb_udp (advance n wb) = wb_udp wb" "wb_sz (advance n wb) = wb_sz wb - n"
  by (simp_all add: advance_def wb_blk_def)

lemma advance_good:
  assumes "wb_good m wb" "0 \<le> n" "n \<le> wb_sz wb"
  shows "wb_good m (advance n wb)" "wb_data m (advance n wb) = drop (nat n) (wb_data m wb)"
  using assms
  by (auto simp: wb_good_def advance_def ptr_add_def wb_blk_def wb_data_def drop_take nat_add_distrib
      nat_diff_distrib add.commute)

lemma flush_partial:
  assumes "flush_ok m brk ow i pr s ((a, wb) # xs) ys" "0 \<le> n" "n \<le> wb_sz wb"
    and "sk_wbs s' = (sk_wbs s)(a \<mapsto> advance n wb)" "wl pr s' = wl pr s"
    "wl (other pr) s' = wl (other pr) s" "sk_wb_size s' = sk_wb_size s - n" "same_dw s s'"
  shows "flush_ok m brk ow i pr s' ((a, advance n wb) # xs) ys"
proof -
  have a: "a \<notin> fst ` set xs" "a \<notin> fst ` set ys"
    using assms(1) by (auto simp: flush_ok_def)
  have "wb_chain (sk_wbs s') (wb_next wb) xs"
    using assms(1,4) a(1) by (subst wb_chain_cong [where W = "sk_wbs s"]) (auto simp: flush_ok_def)
  moreover have "wl_ok (sk_wbs s') (wl (other pr) s') ys"
    using assms(1,4,6) a(2) by (subst wl_ok_cong [where W = "sk_wbs s"]) (auto simp: flush_ok_def)
  moreover have "dom (sk_wbs s') = fst ` set (((a, advance n wb) # xs) @ ys)"
    using assms(1,4) by (auto simp: flush_ok_def)
  moreover have "owns_ok m ow i s' (((a, advance n wb) # xs) @ ys)"
    unfolding owns_ok_slot [OF assms(8)]
    using assms(1-3) advance_good(1) [of m wb n] by (simp add: flush_ok_def owns_ok_def)
  moreover have "wb_chain (sk_wbs s') (wl_head (wl pr s')) ((a, advance n wb) # xs)"
    using calculation(1) assms(1,4,5) by (simp add: flush_ok_def)
  moreover have "wl_tail (wl pr s') = Some (fst (last ((a, advance n wb) # xs)))"
    using assms(1,5) by (simp add: flush_ok_def)
  moreover have "sk_wb_size s' = wbs_size ((a, advance n wb) # xs) + wbs_size ys"
    using assms(1,7) by (simp add: flush_ok_def)
  moreover have "distinct (map fst (((a, advance n wb) # xs) @ ys))"
    "\<forall>b \<in> fst ` set (((a, advance n wb) # xs) @ ys). b < brk"
    using assms(1) by (simp_all add: flush_ok_def)
  ultimately show ?thesis unfolding flush_ok_def by blast
qed


section \<open>Writing a stream\<close>

definition retried :: "nat \<Rightarrow> int \<Rightarrow> int \<Rightarrow> socket_server \<Rightarrow> socket_server" where
  "retried k sid fd ss = ss\<lparr>ss_trace := ss_trace ss @ replicate k (Sys_write sid fd [])\<rparr>"

lemma wire_replicate [simp]: "wire x (replicate k (Sys_write sid fd [])) = []"
  by (induction k) auto

lemma retried_world: "same_world i ss (retried k sid fd ss) \<and> ss_slot (retried k sid fd ss) = ss_slot ss"
  by (simp add: same_world_def retried_def)

lemma send_tcp_intr:
  assumes "wl_head (wl pr (ss_slot ss i)) = Some a" "sk_wbs (ss_slot ss i) a = Some wb"
    "mem_read (ss_mem ss) (wb_ptr wb) (wb_sz wb) = Some d"
    "interrupted (k_write K (ss_trace ss) (sk_fd (ss_slot ss i)) d)"
  shows "send_list_tcp K i pr r ss =
    send_list_tcp K i pr r (retried 1 (sk_id (ss_slot ss i)) (sk_fd (ss_slot ss i)) ss)"
  using assms
  by (subst send_list_tcp.simps)
    (auto simp: sys_write_def interrupted_def sys_log_def retried_def Let_def split: prod.splits)

lemma send_tcp_skip:
  assumes "wl_head (wl pr (ss_slot ss i)) = Some a" "sk_wbs (ss_slot ss i) a = Some wb"
    "mem_read (ss_mem ss) (wb_ptr wb) (wb_sz wb) = Some d" "sid = sk_id (ss_slot ss i)"
    "fd = sk_fd (ss_slot ss i)"
    "\<not> interrupted (k_write K (ss_trace ss @ replicate n (Sys_write sid fd [])) fd d)"
  shows "\<exists>k. send_list_tcp K i pr r ss = send_list_tcp K i pr r (retried k sid fd ss) \<and>
    \<not> interrupted (k_write K (ss_trace (retried k sid fd ss)) fd d)"
  using assms
proof (induction n arbitrary: ss)
  case 0
  then show ?case by (intro exI [of _ 0]) (simp add: retried_def)
next
  case (Suc n)
  show ?case
  proof (cases "interrupted (k_write K (ss_trace ss) fd d)")
    case True
    let ?ss = "retried 1 sid fd ss"
    have step: "send_list_tcp K i pr r ss = send_list_tcp K i pr r ?ss"
      using send_tcp_intr [OF Suc.prems(1-3)] True Suc.prems(4,5) by simp
    have "\<exists>k. send_list_tcp K i pr r ?ss = send_list_tcp K i pr r (retried k sid fd ?ss) \<and>
      \<not> interrupted (k_write K (ss_trace (retried k sid fd ?ss)) fd d)"
      using Suc.prems by (intro Suc.IH) (simp_all add: retried_def)
    then obtain k where "send_list_tcp K i pr r ?ss = send_list_tcp K i pr r (retried k sid fd ?ss)"
      "\<not> interrupted (k_write K (ss_trace (retried k sid fd ?ss)) fd d)" by blast
    moreover have "retried k sid fd ?ss = retried (Suc k) sid fd ss" by (simp add: retried_def)
    ultimately show ?thesis using step by metis
  next
    case False
    then show ?thesis by (intro exI [of _ 0]) (simp add: retried_def)
  qed
qed

text \<open>
  What writing a list leaves: the slot is closed, or a rest of the list waits and the bytes
  written with the bytes of the rest are the bytes of the list. Only the first buffer of the
  rest may have been started, and none has when an error ended the loop.
\<close>

definition rest_ok :: "nat \<Rightarrow> (addr \<Rightarrow> nat option) \<Rightarrow> priority \<Rightarrow> wbs \<Rightarrow> wbs \<Rightarrow> socket_server \<Rightarrow>
    socket_result option \<Rightarrow> socket_server \<Rightarrow> wbs \<Rightarrow> bool" where
  "rest_ok i ow pr xs ys ss t ss' xs' \<longleftrightarrow>
     flush_ok (ss_mem ss') (ss_brk ss') ow i pr (ss_slot ss' i) xs' ys \<and>
     (xs' = [] \<longrightarrow> wl_tail (wl pr (ss_slot ss' i)) = None) \<and>
     set (tl xs') \<subseteq> set xs \<and> (t \<noteq> None \<longrightarrow> set xs' \<subseteq> set xs) \<and>
     (sk_protocol (ss_slot ss i) = PROTOCOL_TCP \<longrightarrow>
       wire (sk_id (ss_slot ss i)) (ss_trace ss') @ wbs_data (ss_mem ss') xs' =
       wire (sk_id (ss_slot ss i)) (ss_trace ss) @ wbs_data (ss_mem ss) xs) \<and>
     wbs_data (ss_mem ss') ys = wbs_data (ss_mem ss) ys \<and>
     dw_data (ss_mem ss') (ss_slot ss' i) = dw_data (ss_mem ss) (ss_slot ss i) \<and>
     sk_p (ss_slot ss' i) = sk_p (ss_slot ss i)"

definition flushed :: "nat \<Rightarrow> (addr \<Rightarrow> nat option) \<Rightarrow> priority \<Rightarrow> wbs \<Rightarrow> wbs \<Rightarrow> socket_server \<Rightarrow>
    socket_result option \<Rightarrow> socket_server \<Rightarrow> bool" where
  "flushed i ow pr xs ys ss t ss' \<longleftrightarrow>
     t \<in> {None, Some SOCKET_RST, Some SOCKET_ERR} \<and>
     (shut ow i ss ss' \<and> t \<noteq> None \<or>
      frame ow i ss ss' \<and> keep (ss_slot ss i) (ss_slot ss' i) \<and> live (ss_slot ss' i) \<and>
      (\<exists>xs'. rest_ok i ow pr xs ys ss t ss' xs'))"

text \<open>A first step that writes nothing, or the whole of the first buffer.\<close>

lemma flushed_world:
  assumes "same_world i ss ss1" "ss_slot ss1 = ss_slot ss" "flushed i ow pr xs ys ss1 t ss'"
  shows "flushed i ow pr xs ys ss t ss'"
  using assms unfolding flushed_def rest_ok_def shut_def frame_def same_world_def by auto


lemma same_bufs_wl: "same_bufs s s' \<Longrightarrow> wl pr s' = wl pr s"
  by (cases pr) (simp_all add: same_bufs_def)

lemma same_bufs_same_dw: "same_bufs s s' \<Longrightarrow> same_dw s s'"
  by (simp add: same_bufs_def same_dw_def)

lemma flush_ok_same:
  "same_bufs s s' \<Longrightarrow> flush_ok m brk ow i pr s' xs ys = flush_ok m brk ow i pr s xs ys"
  using same_bufs_wl [of s s'] owns_ok_slot [OF same_bufs_same_dw, of s s']
  by (simp add: flush_ok_def same_bufs_def)

lemma set_tl_subset: "set (tl xs) \<subseteq> set xs"
  by (cases xs) auto

lemma flushed_idle:
  assumes f: "flush_ok (ss_mem ss) (ss_brk ss) ow i pr (ss_slot ss i) xs ys"
    and m: "\<And>b. ss_brk ss \<le> b \<Longrightarrow> ss_mem ss b = None"
    and tl: "xs = [] \<longrightarrow> wl_tail (wl pr (ss_slot ss i)) = None"
    and w: "same_world i ss ss'" and sb: "same_bufs (ss_slot ss i) (ss_slot ss' i)"
    and p: "sk_p (ss_slot ss' i) = sk_p (ss_slot ss i)"
    and k: "keep (ss_slot ss i) (ss_slot ss' i)" "live (ss_slot ss' i)"
    and t: "t \<in> {None, Some SOCKET_RST, Some SOCKET_ERR}"
  shows "flushed i ow pr xs ys ss t ss'"
proof -
  have fr: "frame ow i ss ss'" using w m by (simp add: frame_def same_world_def)
  have "rest_ok i ow pr xs ys ss t ss' xs"
    using f tl w p same_bufs_wl [OF sb] flush_ok_same [OF sb] same_bufs_dw [OF sb, of "ss_mem ss"]
      set_tl_subset [of xs] unfolding rest_ok_def same_world_def by simp
  then show ?thesis unfolding flushed_def using fr k t by blast
qed

lemma close_write_flushed:
  assumes f: "flush_ok (ss_mem ss) (ss_brk ss) ow i pr (ss_slot ss i) xs ys" and "xs \<noteq> []"
    and l: "live (ss_slot ss i)" and m: "\<And>b. ss_brk ss \<le> b \<Longrightarrow> ss_mem ss b = None"
  shows "\<exists>t r' ss'. close_write K i r ss = Some (t, r', ss') \<and> flushed i ow pr xs ys ss t ss'"
proof -
  have b: "bufs_ok (ss_mem ss) (ss_brk ss) ow i (ss_slot ss i) (hi pr xs ys) (hi pr ys xs)"
    using f assms(2) flush_bufs [of "ss_mem ss" "ss_brk ss" ow i pr "ss_slot ss i" xs ys] by blast
  obtain t r' ss' where cw: "close_write K i r ss = Some (Some t, r', ss')" "t \<in> {SOCKET_RST, SOCKET_ERR}"
    and c: "shut ow i ss ss' \<or> same_world i ss ss' \<and>
      (\<exists>ty w. ss_slot ss' i = (ss_slot ss i)\<lparr>sk_type := ty, sk_writing := w\<rparr> \<and>
        (ty = sk_type (ss_slot ss i) \<or> sk_type (ss_slot ss i) \<noteq> SOCKET_TYPE_HALFCLOSE_READ \<and>
          ty = SOCKET_TYPE_HALFCLOSE_WRITE))"
    using close_write_cases [OF b l m, where K = K and r = r] by blast
  have "flushed i ow pr xs ys ss (Some t) ss'"
    using c
  proof
    assume "shut ow i ss ss'"
    then show ?thesis using cw(2) unfolding flushed_def by auto
  next
    assume "same_world i ss ss' \<and>
      (\<exists>ty w. ss_slot ss' i = (ss_slot ss i)\<lparr>sk_type := ty, sk_writing := w\<rparr> \<and>
        (ty = sk_type (ss_slot ss i) \<or> sk_type (ss_slot ss i) \<noteq> SOCKET_TYPE_HALFCLOSE_READ \<and>
          ty = SOCKET_TYPE_HALFCLOSE_WRITE))"
    then obtain ty w where w: "same_world i ss ss'"
      and s': "ss_slot ss' i = (ss_slot ss i)\<lparr>sk_type := ty, sk_writing := w\<rparr>"
      and ty: "ty = sk_type (ss_slot ss i) \<or> sk_type (ss_slot ss i) \<noteq> SOCKET_TYPE_HALFCLOSE_READ \<and>
          ty = SOCKET_TYPE_HALFCLOSE_WRITE" by blast
    show ?thesis
      using assms(2) cw(2) l ty by (intro flushed_idle [OF f m _ w]) (auto simp: s' same_bufs_def keep_def live_def)
  qed
  then show ?thesis using cw(1) by blast
qed

text \<open>One round of the loop in which the first buffer was written in part.\<close>

lemma flushed_partial:
  assumes f: "flush_ok (ss_mem ss) (ss_brk ss) ow i pr (ss_slot ss i) ((a, wb) # xs) ys"
    and l: "live (ss_slot ss i)" and m: "\<And>b. ss_brk ss \<le> b \<Longrightarrow> ss_mem ss b = None"
    and n: "0 \<le> n" "n \<le> wb_sz wb"
    and ss': "ss' = upd_slot i (\<lambda>s. s\<lparr>sk_wbs := (sk_wbs s)(a \<mapsto> advance n wb)\<rparr>)
      (upd_slot i (\<lambda>s. s\<lparr>sk_wb_size := sk_wb_size s - n\<rparr>) (stat_write i n
        (sys_log (Sys_write (sk_id (ss_slot ss i)) fd (take (nat n) (wb_data (ss_mem ss) wb))) ss)))"
  shows "flushed i ow pr ((a, wb) # xs) ys ss None ss'"
proof -
  let ?s' = "ss_slot ss' i"
  have s': "sk_wbs ?s' = (sk_wbs (ss_slot ss i))(a \<mapsto> advance n wb)" "wl q ?s' = wl q (ss_slot ss i)"
    "sk_wb_size ?s' = sk_wb_size (ss_slot ss i) - n" "same_dw (ss_slot ss i) ?s'"
    "sk_p ?s' = sk_p (ss_slot ss i)" "keep (ss_slot ss i) ?s'" "live ?s'"
    "sk_id ?s' = sk_id (ss_slot ss i)" for q
    using l by (simp_all add: ss' stat_write_def same_dw_def keep_def live_def)
  have w: "ss_mem ss' = ss_mem ss" "ss_brk ss' = ss_brk ss"
    "wire x (ss_trace ss') = wire x (ss_trace ss) @ (if x = sk_id (ss_slot ss i) then take (nat n) (wb_data (ss_mem ss) wb) else [])" for x
    by (simp_all add: ss' stat_write_def)
  have g: "wb_good (ss_mem ss) wb" using f by (simp add: flush_ok_def owns_ok_def)
  have "frame ow i ss ss'" using w m by (simp add: frame_def) (simp add: ss' stat_write_def)
  moreover have "rest_ok i ow pr ((a, wb) # xs) ys ss None ss' ((a, advance n wb) # xs)"
    using flush_partial [OF f n s'(1) s'(2) s'(2) s'(3,4)] w s'(5) same_dwD [OF s'(4), of "ss_mem ss"]
      advance_good(2) [OF g n]
    by (auto simp: rest_ok_def)
  ultimately show ?thesis using s'(6,7) unfolding flushed_def by blast
qed

text \<open>One round in which all of it was written, followed by what the loop does with the rest.\<close>

lemma flushed_pop:
  assumes f: "flush_ok (ss_mem ss) (ss_brk ss) ow i pr (ss_slot ss i) ((a, wb) # xs) ys"
    and l: "live (ss_slot ss i)" and m: "\<And>b. ss_brk ss \<le> b \<Longrightarrow> ss_mem ss b = None"
    and s1: "sk_wbs (ss_slot ss1 i) = (sk_wbs (ss_slot ss i))(a := None)"
      "wl_head (wl pr (ss_slot ss1 i)) = wb_next wb \<and>
        (xs \<noteq> [] \<longrightarrow> wl_tail (wl pr (ss_slot ss1 i)) = wl_tail (wl pr (ss_slot ss i)))"
      "wl (other pr) (ss_slot ss1 i) = wl (other pr) (ss_slot ss i)"
      "sk_wb_size (ss_slot ss1 i) = sk_wb_size (ss_slot ss i) - wb_sz wb" "same_dw (ss_slot ss i) (ss_slot ss1 i)"
      "sk_p (ss_slot ss1 i) = sk_p (ss_slot ss i)" "keep (ss_slot ss i) (ss_slot ss1 i)" "live (ss_slot ss1 i)"
    and fr: "frame ow i ss ss1" and m1: "ss_mem ss1 = (ss_mem ss)(wb_blk wb := None)" "ss_brk ss1 = ss_brk ss"
    and w: "sk_protocol (ss_slot ss i) = PROTOCOL_TCP \<Longrightarrow>
      wire (sk_id (ss_slot ss i)) (ss_trace ss1) = wire (sk_id (ss_slot ss i)) (ss_trace ss) @ wb_data (ss_mem ss) wb"
  shows "flush_ok (ss_mem ss1) (ss_brk ss1) ow i pr (ss_slot ss1 i) xs ys"
    and "flushed i ow pr xs ys ss1 t ss' \<Longrightarrow> flushed i ow pr ((a, wb) # xs) ys ss t ss'"
proof -
  show "flush_ok (ss_mem ss1) (ss_brk ss1) ow i pr (ss_slot ss1 i) xs ys"
    using flush_pop [OF f s1(1-5)] m1 by simp
  have own: "owns_ok (ss_mem ss) ow i (ss_slot ss i) ((a, wb) # xs @ ys)" using f by (simp add: flush_ok_def)
  have data: "wbs_data (ss_mem ss1) xs = wbs_data (ss_mem ss) xs" "wbs_data (ss_mem ss1) ys = wbs_data (ss_mem ss) ys"
    "dw_data (ss_mem ss1) (ss_slot ss1 i) = dw_data (ss_mem ss) (ss_slot ss i)"
    using owns_data_tl [OF own, of xs] owns_data_tl [OF own, of ys] same_dwD [OF s1(5)] m1 by simp_all
  have id1: "sk_id (ss_slot ss1 i) = sk_id (ss_slot ss i)"
    and pr1: "sk_protocol (ss_slot ss1 i) = sk_protocol (ss_slot ss i)" using s1(7) by (simp_all add: keep_def)
  assume fl: "flushed i ow pr xs ys ss1 t ss'"
  have "rest_ok i ow pr ((a, wb) # xs) ys ss t ss' xs'" if "rest_ok i ow pr xs ys ss1 t ss' xs'" for xs'
    using that data w s1(6) unfolding rest_ok_def id1 pr1 by auto
  moreover have "frame ow i ss ss'" if "frame ow i ss1 ss'"
    using frame_trans [OF fr that id1] .
  moreover have "keep (ss_slot ss i) (ss_slot ss' i)" if "keep (ss_slot ss1 i) (ss_slot ss' i)"
    using keep_trans [OF s1(7) that] .
  ultimately show "flushed i ow pr ((a, wb) # xs) ys ss t ss'"
    using fl unfolding flushed_def shut_def by blast
qed


text \<open>The state after the first buffer left the list and was freed.\<close>

lemma popped:
  assumes f: "flush_ok (ss_mem ss) (ss_brk ss) ow i pr (ss_slot ss i) ((a, wb) # xs) ys"
    and l: "live (ss_slot ss i)" and m: "\<And>b. ss_brk ss \<le> b \<Longrightarrow> ss_mem ss b = None"
    and e: "\<And>x. x \<noteq> sk_id (ss_slot ss i) \<Longrightarrow> written x e = []"
    and ss1: "ss1 = upd_slot i (set_wl pr ((wl pr (ss_slot ss i))\<lparr>wl_head := wb_next wb\<rparr>))
      (upd_slot i (\<lambda>s. s\<lparr>sk_wb_size := sk_wb_size s - wb_sz wb\<rparr>) (stat_write i n (sys_log e ss)))"
  shows "\<exists>ss2. write_buffer_free i a ss1 = Some ss2 \<and> live (ss_slot ss2 i) \<and> ss_mem ss2 = (ss_mem ss)(wb_blk wb := None) \<and>
    ss_brk ss2 = ss_brk ss \<and> sk_protocol (ss_slot ss2 i) = sk_protocol (ss_slot ss i) \<and> sk_p (ss_slot ss2 i) = sk_p (ss_slot ss i) \<and>
    frame ow i ss ss2 \<and> keep (ss_slot ss i) (ss_slot ss2 i) \<and> same_dw (ss_slot ss i) (ss_slot ss2 i) \<and>
    sk_wbs (ss_slot ss2 i) = (sk_wbs (ss_slot ss i))(a := None) \<and>
    wl_head (wl pr (ss_slot ss2 i)) = wb_next wb \<and>
    (xs \<noteq> [] \<longrightarrow> wl_tail (wl pr (ss_slot ss2 i)) = wl_tail (wl pr (ss_slot ss i))) \<and>
    wl (other pr) (ss_slot ss2 i) = wl (other pr) (ss_slot ss i) \<and>
    sk_wb_size (ss_slot ss2 i) = sk_wb_size (ss_slot ss i) - wb_sz wb \<and> ss_trace ss2 = ss_trace ss @ [e]"
proof -
  have W: "sk_wbs (ss_slot ss1 i) a = Some wb" "ss_mem ss1 = ss_mem ss" "ss_brk ss1 = ss_brk ss"
    using f by (simp_all add: flush_ok_def ss1 stat_write_def)
  have g: "wb_good (ss_mem ss1) wb" and o: "ow (wb_blk wb) = Some i"
    using f W(2) by (simp_all add: flush_ok_def owns_ok_def)
  let ?ss2 = "upd_slot i (\<lambda>s. s\<lparr>sk_wbs := (sk_wbs s)(a := None)\<rparr>) (ss1\<lparr>ss_mem := (ss_mem ss1)(wb_blk wb := None)\<rparr>)"
  have s2: "ss_slot ss1 i = set_wl pr ((wl pr (ss_slot ss i))\<lparr>wl_head := wb_next wb\<rparr>)
      ((ss_slot (stat_write i n (sys_log e ss)) i)\<lparr>sk_wb_size := sk_wb_size (ss_slot ss i) - wb_sz wb\<rparr>)"
    by (simp add: ss1 stat_write_def)
  have "frame ow i ss ?ss2"
    using o m e by (auto simp: frame_def ss1 stat_write_def)
  then show ?thesis
    using write_buffer_free_good [OF W(1) g] l W(2,3)
    by (intro exI [of _ ?ss2]) (simp add: s2 stat_write_def live_def keep_def same_dw_def ss1)
qed

lemma flushed_nil:
  assumes "flush_ok (ss_mem ss) (ss_brk ss) ow i pr (ss_slot ss i) [] ys" "live (ss_slot ss i)"
    and "\<And>b. ss_brk ss \<le> b \<Longrightarrow> ss_mem ss b = None"
  shows "flushed i ow pr [] ys ss None (upd_slot i (set_wl pr ((wl pr (ss_slot ss i))\<lparr>wl_tail := None\<rparr>)) ss)"
    (is "flushed i ow pr [] ys ss None ?ss")
proof -
  have sd: "same_dw (ss_slot ss i) (ss_slot ?ss i)" by (simp add: same_dw_def)
  have "flush_ok (ss_mem ?ss) (ss_brk ?ss) ow i pr (ss_slot ?ss i) [] ys"
    using assms(1) owns_ok_slot [OF sd] by (simp add: flush_ok_def)
  then have "rest_ok i ow pr [] ys ss None ?ss []"
    using same_dwD [OF sd] by (simp add: rest_ok_def)
  moreover have "frame ow i ss ?ss" using assms(3) by (simp add: frame_def)
  moreover have "keep (ss_slot ss i) (ss_slot ?ss i)" "live (ss_slot ?ss i)"
    using assms(2) by (simp_all add: keep_def live_def)
  ultimately show ?thesis unfolding flushed_def by blast
qed

lemma send_tcp_flushed:
  assumes K: "kernel_ok K"
    and "flush_ok (ss_mem ss) (ss_brk ss) ow i pr (ss_slot ss i) xs ys" "live (ss_slot ss i)"
    and "\<And>b. ss_brk ss \<le> b \<Longrightarrow> ss_mem ss b = None"
  shows "\<exists>t r' ss'. send_list_tcp K i pr r ss = Some (t, r', ss') \<and> flushed i ow pr xs ys ss t ss'"
  using assms(2-)
proof (induction xs arbitrary: ss)
  case Nil
  let ?l = "wl pr (ss_slot ss i)"
  let ?ss = "upd_slot i (set_wl pr (?l\<lparr>wl_tail := None\<rparr>)) ss"
  have "send_list_tcp K i pr r ss = Some (None, r, ?ss)"
    using Nil(1) by (subst send_list_tcp.simps) (simp add: flush_ok_def Let_def)
  moreover have "flushed i ow pr [] ys ss None ?ss" using flushed_nil [OF Nil(1,2)] Nil(3) by blast
  ultimately show ?case by blast
next
  case (Cons x xs)
  obtain a wb where x: "x = (a, wb)" by force
  let ?s = "ss_slot ss i" let ?d = "wb_data (ss_mem ss) wb"
  note f = Cons.prems(1) [unfolded x] and l = Cons.prems(2) and m = Cons.prems(3)
  have h: "wl_head (wl pr ?s) = Some a" "sk_wbs ?s a = Some wb" and g: "wb_good (ss_mem ss) wb"
    using f by (simp_all add: flush_ok_def owns_ok_def)
  obtain n where "\<not> interrupted (k_write K (ss_trace ss @ replicate n (Sys_write (sk_id ?s) (sk_fd ?s) [])) (sk_fd ?s) ?d)"
    using kernel_okD(2) [OF K] by blast
  from send_tcp_skip [OF h wb_good_read [OF g] refl refl this, of r] obtain k where
    skip: "send_list_tcp K i pr r ss = send_list_tcp K i pr r (retried k (sk_id ?s) (sk_fd ?s) ss)"
    and nint: "\<not> interrupted (k_write K (ss_trace (retried k (sk_id ?s) (sk_fd ?s) ss)) (sk_fd ?s) ?d)" by blast
  define ss0 where "ss0 = retried k (sk_id ?s) (sk_fd ?s) ss"
  have w0: "same_world i ss ss0" "ss_slot ss0 = ss_slot ss" "ss_mem ss0 = ss_mem ss" "ss_brk ss0 = ss_brk ss"
    using retried_world [of i ss k] by (simp_all add: ss0_def retried_def)
  have f0: "flush_ok (ss_mem ss0) (ss_brk ss0) ow i pr (ss_slot ss0 i) ((a, wb) # xs) ys"
    and m0: "\<And>b. ss_brk ss0 \<le> b \<Longrightarrow> ss_mem ss0 b = None" and l0: "live (ss_slot ss0 i)"
    using f m l w0 by simp_all
  obtain n e where kw: "k_write K (ss_trace ss0) (sk_fd ?s) ?d = (n, e)" by force
  have nsz: "n \<le> wb_sz wb" using kernel_okD(1) [OF K kw] wb_good_length [OF g] by simp
  define ev where "ev = Sys_write (sk_id ?s) (sk_fd ?s) (take (nat n) ?d)"
  have body: "send_list_tcp K i pr r ss0 =
    (if n < 0 then if e = EAGAIN then Some (None, r, sys_log ev ss0) else close_write K i r (sys_log ev ss0)
     else if n \<noteq> wb_sz wb then Some (None, r, upd_slot i (\<lambda>s. s\<lparr>sk_wbs := (sk_wbs s)(a \<mapsto> advance n wb)\<rparr>)
       (upd_slot i (\<lambda>s. s\<lparr>sk_wb_size := sk_wb_size s - n\<rparr>) (stat_write i n (sys_log ev ss0))))
     else write_buffer_free i a (upd_slot i (set_wl pr ((wl pr ?s)\<lparr>wl_head := wb_next wb\<rparr>))
       (upd_slot i (\<lambda>s. s\<lparr>sk_wb_size := sk_wb_size s - wb_sz wb\<rparr>) (stat_write i n (sys_log ev ss0)))) \<bind> send_list_tcp K i pr r)"
    using h wb_good_read [OF g] kw nint
    by (subst send_list_tcp.simps)
      (auto simp: w0 sys_write_def Let_def interrupted_def ss0_def [symmetric] ev_def advance_def)
  have "\<exists>t r' ss'. send_list_tcp K i pr r ss0 = Some (t, r', ss') \<and> flushed i ow pr ((a, wb) # xs) ys ss0 t ss'"
  proof (cases "n < 0")
    case True
    let ?ss1 = "sys_log ev ss0"
    have w1: "same_world i ss0 ?ss1" using True by (intro same_world_log) (simp add: ev_def)
    have f1: "flush_ok (ss_mem ?ss1) (ss_brk ?ss1) ow i pr (ss_slot ?ss1 i) ((a, wb) # xs) ys"
      using f0 by simp
    show ?thesis
    proof (cases "e = EAGAIN")
      case True
      have "flushed i ow pr ((a, wb) # xs) ys ss0 None ?ss1"
        using l0 by (intro flushed_idle [OF f0 m0 _ w1]) (auto simp: same_bufs_def keep_def live_def)
      then show ?thesis using body \<open>n < 0\<close> True by simp
    next
      case False
      obtain t r' ss' where "close_write K i r ?ss1 = Some (t, r', ss')" "flushed i ow pr ((a, wb) # xs) ys ?ss1 t ss'"
        using close_write_flushed [OF f1 _ _, where K = K and r = r] m0 l0 by auto
      then show ?thesis using flushed_world [OF w1] body \<open>n < 0\<close> False by simp
    qed
  next
    case nn: False
    show ?thesis
    proof (cases "n = wb_sz wb")
      case False
      then show ?thesis
        using body nn flushed_partial [OF f0 l0 m0 _ _ refl, of n] nsz
        by (simp add: ev_def w0)
    next
      case True
      have nd: "take (nat n) ?d = ?d" using wb_good_length [OF g] True by simp
      define ss1 where "ss1 = upd_slot i (set_wl pr ((wl pr ?s)\<lparr>wl_head := wb_next wb\<rparr>))
        (upd_slot i (\<lambda>s. s\<lparr>sk_wb_size := sk_wb_size s - wb_sz wb\<rparr>) (stat_write i n (sys_log ev ss0)))"
      obtain ss2 where free: "write_buffer_free i a ss1 = Some ss2"
        and p: "live (ss_slot ss2 i)" "ss_mem ss2 = (ss_mem ss0)(wb_blk wb := None)" "ss_brk ss2 = ss_brk ss0"
          "sk_protocol (ss_slot ss2 i) = sk_protocol (ss_slot ss0 i)" "sk_p (ss_slot ss2 i) = sk_p (ss_slot ss0 i)"
          "frame ow i ss0 ss2" "keep (ss_slot ss0 i) (ss_slot ss2 i)" "same_dw (ss_slot ss0 i) (ss_slot ss2 i)"
          "sk_wbs (ss_slot ss2 i) = (sk_wbs (ss_slot ss0 i))(a := None)"
          "wl_head (wl pr (ss_slot ss2 i)) = wb_next wb \<and>
            (xs \<noteq> [] \<longrightarrow> wl_tail (wl pr (ss_slot ss2 i)) = wl_tail (wl pr (ss_slot ss0 i)))"
          "wl (other pr) (ss_slot ss2 i) = wl (other pr) (ss_slot ss0 i)"
          "sk_wb_size (ss_slot ss2 i) = sk_wb_size (ss_slot ss0 i) - wb_sz wb" "ss_trace ss2 = ss_trace ss0 @ [ev]"
        using popped [OF f0 l0 m0, of ev ss1 n] by (auto simp: ev_def nd w0 ss1_def)
      have wi: "wire (sk_id (ss_slot ss0 i)) (ss_trace ss2) = wire (sk_id (ss_slot ss0 i)) (ss_trace ss0) @ wb_data (ss_mem ss0) wb"
        using p(13) by (simp add: ev_def nd w0)
      note pop = flushed_pop [OF f0 l0 m0 p(9-12) p(8,5,7,1,6,2,3) wi]
      have "\<exists>t r' ss'. send_list_tcp K i pr r ss2 = Some (t, r', ss') \<and> flushed i ow pr xs ys ss2 t ss'"
        using m0 p(2,3) by (intro Cons.IH pop(1) p(1)) simp_all
      then show ?thesis using body nn True free pop(2) by (auto simp: ss1_def)
    qed
  qed
  then show ?case using flushed_world [OF w0(1,2)] skip x unfolding ss0_def by metis
qed


section \<open>Writing packets\<close>

lemma drop_udp_flushed:
  assumes f: "flush_ok (ss_mem ss) (ss_brk ss) ow i pr (ss_slot ss i) ((a, wb) # xs) ys"
    and l: "live (ss_slot ss i)" and m: "\<And>b. ss_brk ss \<le> b \<Longrightarrow> ss_mem ss b = None"
    and p: "sk_protocol (ss_slot ss i) \<noteq> PROTOCOL_TCP"
  shows "\<exists>ss'. drop_udp i pr a ss = Some ss' \<and> flushed i ow pr ((a, wb) # xs) ys ss None ss'"
proof -
  define ss1 where "ss1 = upd_slot i (\<lambda>s. set_wl pr \<lparr>wl_head = wb_next wb,
       wl_tail = (if wb_next wb = None then None else wl_tail (wl pr s))\<rparr> s)
     (upd_slot i (\<lambda>s. s\<lparr>sk_wb_size := sk_wb_size s - wb_sz wb\<rparr>) ss)"
  have W: "sk_wbs (ss_slot ss1 i) a = Some wb" "ss_mem ss1 = ss_mem ss" "ss_brk ss1 = ss_brk ss"
    using f by (simp_all add: flush_ok_def ss1_def)
  have g: "wb_good (ss_mem ss1) wb" and o: "ow (wb_blk wb) = Some i"
    using f W(2) by (simp_all add: flush_ok_def owns_ok_def)
  define ss2 where "ss2 = upd_slot i (\<lambda>s. s\<lparr>sk_wbs := (sk_wbs s)(a := None)\<rparr>)
    (ss1\<lparr>ss_mem := (ss_mem ss1)(wb_blk wb := None)\<rparr>)"
  have d: "drop_udp i pr a ss = Some ss2"
    using f write_buffer_free_good [OF W(1) g] by (simp add: drop_udp_def flush_ok_def ss1_def ss2_def)
  have nx: "wb_next wb = None \<longleftrightarrow> xs = []" using f by (cases xs) (auto simp: flush_ok_def)
  have s2: "sk_wbs (ss_slot ss2 i) = (sk_wbs (ss_slot ss i))(a := None)"
      "wl_head (wl pr (ss_slot ss2 i)) = wb_next wb \<and>
        (xs \<noteq> [] \<longrightarrow> wl_tail (wl pr (ss_slot ss2 i)) = wl_tail (wl pr (ss_slot ss i)))"
      "wl (other pr) (ss_slot ss2 i) = wl (other pr) (ss_slot ss i)"
      "sk_wb_size (ss_slot ss2 i) = sk_wb_size (ss_slot ss i) - wb_sz wb" "same_dw (ss_slot ss i) (ss_slot ss2 i)"
      "sk_p (ss_slot ss2 i) = sk_p (ss_slot ss i)" "keep (ss_slot ss i) (ss_slot ss2 i)" "live (ss_slot ss2 i)"
    using l nx by (simp_all add: ss2_def ss1_def same_dw_def keep_def live_def)
  have fr: "frame ow i ss ss2" using o m by (auto simp: frame_def ss2_def ss1_def)
  have m2: "ss_mem ss2 = (ss_mem ss)(wb_blk wb := None)" "ss_brk ss2 = ss_brk ss"
    by (simp_all add: ss2_def ss1_def)
  note pop = flushed_pop [OF f l _ s2 fr m2]
  have f2: "flush_ok (ss_mem ss2) (ss_brk ss2) ow i pr (ss_slot ss2 i) xs ys" using pop(1) m p by simp
  have tl: "xs = [] \<longrightarrow> wl_tail (wl pr (ss_slot ss2 i)) = None"
    using nx by (simp add: ss2_def ss1_def)
  have "flushed i ow pr xs ys ss2 None ss2"
    using s2(7,8) m m2
    by (intro flushed_idle [OF f2 _ tl same_world_refl]) (auto simp: same_bufs_def keep_def)
  then show ?thesis using d pop(2) m p by simp
qed

lemma send_udp_flushed:
  assumes "flush_ok (ss_mem ss) (ss_brk ss) ow i pr (ss_slot ss i) xs ys" "live (ss_slot ss i)"
    and "\<And>b. ss_brk ss \<le> b \<Longrightarrow> ss_mem ss b = None" "sk_protocol (ss_slot ss i) \<noteq> PROTOCOL_TCP"
  shows "\<exists>r' ss'. send_list_udp K i pr r ss = Some (None, r', ss') \<and> flushed i ow pr xs ys ss None ss'"
  using assms
proof (induction xs arbitrary: ss)
  case Nil
  let ?l = "wl pr (ss_slot ss i)"
  let ?ss = "upd_slot i (set_wl pr (?l\<lparr>wl_tail := None\<rparr>)) ss"
  have "send_list_udp K i pr r ss = Some (None, r, ?ss)"
    using Nil(1) by (subst send_list_udp.simps) (simp add: flush_ok_def Let_def)
  then show ?case using flushed_nil [OF Nil(1,2)] Nil(3) by blast
next
  case (Cons x xs)
  obtain a wb where x: "x = (a, wb)" by force
  let ?s = "ss_slot ss i" let ?d = "wb_data (ss_mem ss) wb"
  note f = Cons.prems(1) [unfolded x] and l = Cons.prems(2) and m = Cons.prems(3) and np = Cons.prems(4)
  have h: "wl_head (wl pr ?s) = Some a" "sk_wbs ?s a = Some wb" and g: "wb_good (ss_mem ss) wb"
    using f by (simp_all add: flush_ok_def owns_ok_def)
  obtain ua where ua: "wb_udp wb = Some ua" using f np by (auto simp: flush_ok_def owns_ok_def)
  have dropped: "\<exists>ss'. drop_udp i pr a ss0 = Some ss' \<and> flushed i ow pr ((a, wb) # xs) ys ss None ss'"
    if w: "same_world i ss ss0" "ss_slot ss0 = ss_slot ss" for ss0
  proof -
    have "\<exists>ss'. drop_udp i pr a ss0 = Some ss' \<and> flushed i ow pr ((a, wb) # xs) ys ss0 None ss'"
      using f l m np w by (intro drop_udp_flushed) (auto simp: same_world_def)
    then show ?thesis using flushed_world [OF w] by blast
  qed
  show ?case
  proof (cases "udp_socket_address ?s ua")
    case None
    obtain ss' where "drop_udp i pr a (skynet_error_log (''socket-server : udp ('' @ fmt_d (sk_id ?s) @ '') type mismatch.'') ss)
      = Some ss'" "flushed i ow pr ((a, wb) # xs) ys ss None ss'"
      using dropped [of "skynet_error_log (''socket-server : udp ('' @ fmt_d (sk_id ?s) @ '') type mismatch.'') ss"]
      by (auto simp: skynet_error_log_def same_world_def)
    then show ?thesis
      using h ua None x by (subst send_list_udp.simps) (simp add: Let_def)
  next
    case (Some sa)
    obtain n e where ks: "k_sendto K (ss_trace ss) (sk_fd ?s) ?d sa = (n, e)" by force
    define ev where "ev = Sys_sendto (sk_id ?s) (sk_fd ?s) ?d sa n"
    define errss where "errss = skynet_error_log (''socket-server : udp ('' @ fmt_d (sk_id ?s) @
        '') sendto error '' @ k_strerror K e @ ''.'') (sys_log ev ss)"
    define ss1 where "ss1 = upd_slot i (set_wl pr ((wl pr ?s)\<lparr>wl_head := wb_next wb\<rparr>))
        (upd_slot i (\<lambda>s. s\<lparr>sk_wb_size := sk_wb_size s - wb_sz wb\<rparr>) (stat_write i (wb_sz wb) (sys_log ev ss)))"
    have body: "send_list_udp K i pr r ss =
      (if n < 0 then if e = EINTR \<or> e = EAGAIN then Some (None, r, sys_log ev ss)
         else drop_udp i pr a errss \<bind> (\<lambda>ss. Some (None, r, ss))
       else write_buffer_free i a ss1 \<bind> send_list_udp K i pr r)"
      using h ua Some wb_good_read [OF g] ks
      by (subst send_list_udp.simps) (auto simp: sys_sendto_def Let_def ev_def errss_def ss1_def)
    consider "n < 0" "e = EINTR \<or> e = EAGAIN" | "n < 0" "\<not> (e = EINTR \<or> e = EAGAIN)" | "0 \<le> n" by linarith
    then show ?thesis
    proof cases
      case 1
      have "flushed i ow pr ((a, wb) # xs) ys ss None (sys_log ev ss)"
        using l m by (intro flushed_idle [OF f _ _ same_world_log])
          (auto simp: same_bufs_def keep_def live_def ev_def)
      then show ?thesis using body 1 x by simp
    next
      case 2
      have "same_world i ss errss" "ss_slot errss = ss_slot ss"
        by (simp_all add: errss_def ev_def skynet_error_log_def same_world_def)
      then show ?thesis using dropped [of errss] body 2 x by auto
    next
      case 3
      obtain ss2 where free: "write_buffer_free i a ss1 = Some ss2"
        and p: "live (ss_slot ss2 i)" "ss_mem ss2 = (ss_mem ss)(wb_blk wb := None)" "ss_brk ss2 = ss_brk ss"
          "sk_protocol (ss_slot ss2 i) = sk_protocol ?s" "sk_p (ss_slot ss2 i) = sk_p ?s"
          "frame ow i ss ss2" "keep ?s (ss_slot ss2 i)" "same_dw ?s (ss_slot ss2 i)"
          "sk_wbs (ss_slot ss2 i) = (sk_wbs ?s)(a := None)"
          "wl_head (wl pr (ss_slot ss2 i)) = wb_next wb \<and>
            (xs \<noteq> [] \<longrightarrow> wl_tail (wl pr (ss_slot ss2 i)) = wl_tail (wl pr ?s))"
          "wl (other pr) (ss_slot ss2 i) = wl (other pr) ?s"
          "sk_wb_size (ss_slot ss2 i) = sk_wb_size ?s - wb_sz wb"
        using popped [OF f l m, of ev ss1 "wb_sz wb"] by (auto simp: ev_def ss1_def)
      note pop = flushed_pop [OF f l m p(9-12) p(8,5,7,1,6,2,3)]
      have "\<exists>r' ss'. send_list_udp K i pr r ss2 = Some (None, r', ss') \<and> flushed i ow pr xs ys ss2 None ss'"
        using m p(2,3,4) np by (intro Cons.IH pop(1) p(1)) simp_all
      then show ?thesis using body 3 free pop(2) np x by auto
    qed
  qed
qed


section \<open>Sending what waits\<close>

lemma send_list_flushed:
  assumes "kernel_ok K" "flush_ok (ss_mem ss) (ss_brk ss) ow i pr (ss_slot ss i) xs ys" "live (ss_slot ss i)"
    and "\<And>b. ss_brk ss \<le> b \<Longrightarrow> ss_mem ss b = None"
  shows "\<exists>t r' ss'. send_list K i pr r ss = Some (t, r', ss') \<and> flushed i ow pr xs ys ss t ss'"
proof (cases "sk_protocol (ss_slot ss i) = PROTOCOL_TCP")
  case True
  then show ?thesis using send_tcp_flushed [OF assms] by (simp add: send_list_def)
next
  case False
  then show ?thesis using send_udp_flushed [OF assms(2,3,4) False, where K = K and r = r] by (simp add: send_list_def) blast
qed

lemma evolveI:
  assumes "frame ow i ss ss'" "keep (ss_slot ss i) (ss_slot ss' i)" "live (ss_slot ss' i)"
    "bufs_ok (ss_mem ss') (ss_brk ss') ow i (ss_slot ss' i) hs ls" "conn_ok (ss_slot ss' i) hs ls"
    "stream [] i ss ss'"
  shows "evolve ow i ss ss'"
  using assms unfolding evolve_def sinv_def slot_inv_def by (auto simp: frame_def)

lemma wl_ok_unique: "wl_ok W l xs \<Longrightarrow> wl_ok W l ys \<Longrightarrow> ys = xs"
proof -
  have "wb_chain W p xs \<Longrightarrow> wb_chain W p ys \<Longrightarrow> ys = xs" for p
  proof (induction W p xs arbitrary: ys rule: wb_chain.induct)
    case (1 W p)
    then show ?case by (cases ys) auto
  next
    case (2 W p a wb xs)
    from "2.prems" obtain ys' where ys: "ys = (a, wb) # ys'" "wb_chain W (wb_next wb) ys'"
      by (cases ys) auto
    from "2.prems" (1) have "wb_chain W (wb_next wb) xs" by simp
    from "2.IH" [OF this ys(2)] ys(1) show ?case by simp
  qed
  then show "wl_ok W l xs \<Longrightarrow> wl_ok W l ys \<Longrightarrow> ys = xs" unfolding wl_ok_def by blast
qed

lemma high_flushed:
  assumes s: "sinv ow i ss" and b: "bufs_ok (ss_mem ss) (ss_brk ss) ow i (ss_slot ss i) hs ls"
    and c: "conn_ok (ss_slot ss i) hs ls" and l: "live (ss_slot ss i)"
    and f: "flushed i ow PRIORITY_HIGH hs ls ss t ss'"
    and dw: "sk_protocol (ss_slot ss i) = PROTOCOL_TCP \<Longrightarrow> sk_dw_buffer (ss_slot ss i) = None"
  shows "evolve ow i ss ss' \<and> (live (ss_slot ss' i) \<longrightarrow>
    (\<exists>hs'. bufs_ok (ss_mem ss') (ss_brk ss') ow i (ss_slot ss' i) hs' ls \<and> conn_ok (ss_slot ss' i) hs' ls)) \<and>
    (t = None \<longrightarrow> live (ss_slot ss' i))"
proof (cases "shut ow i ss ss'")
  case True
  then show ?thesis using shut_evolve [OF True s] f by (auto simp: shut_def live_def flushed_def)
next
  case False
  then obtain hs' where fr: "frame ow i ss ss'" and k: "keep (ss_slot ss i) (ss_slot ss' i)"
    and l': "live (ss_slot ss' i)" and r: "rest_ok i ow PRIORITY_HIGH hs ls ss t ss' hs'"
    using f unfolding flushed_def by blast
  have b': "bufs_ok (ss_mem ss') (ss_brk ss') ow i (ss_slot ss' i) hs' ls"
    and sz: "sk_wb_size (ss_slot ss' i) = wbs_size hs' + wbs_size ls"
    using r flush_bufs [of "ss_mem ss'" "ss_brk ss'" ow i PRIORITY_HIGH "ss_slot ss' i" hs' ls]
    by (auto simp: rest_ok_def hi_def)
  have c': "conn_ok (ss_slot ss' i) hs' ls"
    using c sz k r by (cases "sk_p (ss_slot ss i)") (auto simp: conn_ok_def keep_def rest_ok_def)
  have "stream [] i ss ss'"
    unfolding stream_def
  proof (intro allI impI)
    fix bs
    assume p: "sk_protocol (ss_slot ss i) = PROTOCOL_TCP" and pe: "pending (ss_mem ss) (ss_slot ss i) bs"
    from pe obtain hs0 where h0: "wl_ok (sk_wbs (ss_slot ss i)) (sk_high (ss_slot ss i)) hs0"
      "bs = dw_data (ss_mem ss) (ss_slot ss i) @ wbs_data (ss_mem ss) hs0" and lo: "sk_low (ss_slot ss i) = clear_wb_list"
      unfolding pending_def by blast
    have hs0: "hs0 = hs" using b h0(1) wl_ok_unique unfolding bufs_ok_def links_ok_def by blast
    have ls: "ls = []" using b lo wl_ok_unique [OF _ wl_ok_empty] unfolding bufs_ok_def links_ok_def by metis
    have d: "dw_data (ss_mem ss) (ss_slot ss i) = []" "dw_data (ss_mem ss') (ss_slot ss' i) = []"
      using dw [OF p] r by (auto simp: rest_ok_def dw_data_def)
    have "pending (ss_mem ss') (ss_slot ss' i) (wbs_data (ss_mem ss') hs')"
      using b' ls d by (auto simp: pending_def bufs_ok_def links_ok_def wl_ok_Nil)
    then show "\<exists>bs'. pending (ss_mem ss') (ss_slot ss' i) bs' \<and>
      wire (sk_id (ss_slot ss i)) (ss_trace ss') @ bs' = wire (sk_id (ss_slot ss i)) (ss_trace ss) @ bs @ []"
      using r p h0(2) hs0 d by (auto simp: rest_ok_def)
  qed
  then show ?thesis using evolveI [OF fr k l' b' c'] b' c' l' by blast
qed

end
