(* ===== verification/Socket_Send.thy ===== *)
theory Socket_Send
  imports Socket_Flush
begin

text \<open>
  The routines that send and append: \<open>send_buffer\<close> and \<open>send_socket\<close> return and keep the invariant
  of the slot.
\<close>

section \<open>The end of sending\<close>

lemma sinvE:
  assumes "sinv ow i ss" "live (ss_slot ss i)"
  obtains hs ls where "bufs_ok (ss_mem ss) (ss_brk ss) ow i (ss_slot ss i) hs ls" "conn_ok (ss_slot ss i) hs ls"
    and "\<And>b. ss_brk ss \<le> b \<Longrightarrow> ss_mem ss b = None"
  using assms unfolding sinv_def slot_inv_def by auto

text \<open>Updates of the fields that the invariant does not mention.\<close>

lemma evolve_field:
  assumes "sinv ow i ss" "live (ss_slot ss i)" "same_world i ss ss'"
    and "ss_slot ss' i = (ss_slot ss i)\<lparr>sk_writing := w, sk_reading := r, sk_warn_size := ws, sk_stat := st,
      sk_closing := c, sk_opaque := opq, sk_udpconnecting := u\<rparr>"
  shows "evolve ow i ss ss'"
  using assms by (intro evolve_same) (auto simp: same_bufs_def live_def)

lemma sinv_evolve: "evolve ow i ss ss' \<Longrightarrow> sinv ow i ss'"
  by (simp add: evolve_def)

lemma enable_write_evolve:
  assumes "sinv ow i ss" "live (ss_slot ss i)" "enable_write K i b ss = (e, ss')"
  shows "evolve ow i ss ss' \<and> live (ss_slot ss' i) \<and> ss_slot ss' i = (ss_slot ss i)\<lparr>sk_writing := b\<rparr>"
proof -
  have w: "ss_slot ss' i = (ss_slot ss i)\<lparr>sk_writing := b\<rparr>" "same_world i ss ss'"
    using enable_write_slot [OF assms(3)] by auto
  have "evolve ow i ss ss'"
    using assms(1,2) w by (intro evolve_same) (auto simp: same_bufs_def live_def)
  then show ?thesis using w assms(2) by (simp add: live_def)
qed

lemma enable_read_evolve:
  assumes "sinv ow i ss" "live (ss_slot ss i)" "enable_read K i b ss = (e, ss')"
  shows "evolve ow i ss ss' \<and> live (ss_slot ss' i) \<and> ss_slot ss' i = (ss_slot ss i)\<lparr>sk_reading := b\<rparr>"
proof -
  have w: "ss_slot ss' i = (ss_slot ss i)\<lparr>sk_reading := b\<rparr>" "same_world i ss ss'"
    using enable_read_slot [OF assms(3)] by auto
  have "evolve ow i ss ss'"
    using assms(1,2) w by (intro evolve_same) (auto simp: same_bufs_def live_def)
  then show ?thesis using w assms(2) by (simp add: live_def)
qed

lemma flush_done_ok:
  assumes s: "sinv ow i ss" and l: "live (ss_slot ss i)" and e: "send_buffer_empty (ss_slot ss i)"
  shows "\<exists>t r' ss'. flush_done K i r ss = Some (t, r', ss') \<and> evolve ow i ss ss' \<and> t \<noteq> Some SOCKET_CLOSE"
proof -
  let ?s = "ss_slot ss i"
  obtain hs ls where b: "bufs_ok (ss_mem ss) (ss_brk ss) ow i ?s hs ls" and c: "conn_ok ?s hs ls"
    using sinvE [OF s l] by blast
  have "hs = []" "ls = []"
    using b e wl_ok_head_None unfolding bufs_ok_def links_ok_def send_buffer_empty_def by blast+
  then have a: "send_buffer_empty ?s \<and> sk_wb_size ?s = 0" using c e by (simp add: conn_ok_def)
  show ?thesis
  proof (cases "sk_closing ?s")
    case True
    obtain ss' where "force_close K i ss = Some (report_to ?s Data_null, ss')" "evolve ow i ss ss'"
      using force_close_ok [OF s l] by blast
    then show ?thesis using a True by (simp add: flush_done_def)
  next
    case False
    obtain err ss1 where ew: "enable_write K i False ss = (err, ss1)" by force
    have 1: "evolve ow i ss ss1" "live (ss_slot ss1 i)" using enable_write_evolve [OF s l ew] by auto
    let ?ss2 = "upd_slot i (\<lambda>s. s\<lparr>sk_warn_size := 0\<rparr>) ss1"
    have "evolve ow i ss1 ?ss2"
      using sinv_evolve [OF 1(1)] 1(2) same_world_upd
      by (intro evolve_same) (auto simp: same_bufs_def live_def)
    then have "evolve ow i ss ?ss2" using evolve_trans 1(1) by blast
    then show ?thesis using a False ew 1(1) by (simp add: flush_done_def report_error_def)
  qed
qed

section \<open>The direct write in the list\<close>

lemma dw_dataE:
  assumes "dw_good m s" "sk_dw_buffer s = Some (c, off)"
  obtains xs where "off = 0" "m c = Some xs" "0 \<le> sk_dw_offset s" "sk_dw_offset s \<le> sk_dw_size s"
    "sk_dw_size s \<le> INT_MAX" "sk_dw_size s \<le> int (length xs)" "sk_protocol s = PROTOCOL_TCP"
  using assms by (auto simp: dw_good_def)

lemma push_direct_ok:
  assumes s: "sinv ow i ss" and l: "live (ss_slot ss i)"
  shows "\<exists>ss'. push_direct i ss = Some ss' \<and> evolve ow i ss ss' \<and> live (ss_slot ss' i) \<and>
    sk_dw_buffer (ss_slot ss' i) = None \<and> sk_type (ss_slot ss' i) = sk_type (ss_slot ss i)"
proof (cases "sk_dw_buffer (ss_slot ss i)")
  case None
  have "evolve ow i ss ss"
    using s l by (intro evolve_same same_world_refl) (auto simp: same_bufs_def)
  then show ?thesis using None l by (simp add: push_direct_def)
next
  case (Some p)
  obtain c off where p: "p = (c, off)" by force
  let ?s = "ss_slot ss i" let ?m = "ss_mem ss" let ?a = "ss_brk ss"
  obtain hs ls where b: "bufs_ok ?m ?a ow i ?s hs ls" and cn: "conn_ok ?s hs ls"
    and m: "\<And>b. ?a \<le> b \<Longrightarrow> ?m b = None"
    using sinvE [OF s l] by blast
  obtain xs where x: "off = 0" "?m c = Some xs" "0 \<le> sk_dw_offset ?s" "sk_dw_offset ?s \<le> sk_dw_size ?s"
    "sk_dw_size ?s \<le> INT_MAX" "sk_dw_size ?s \<le> int (length xs)" "sk_protocol ?s = PROTOCOL_TCP"
    using dw_dataE [of ?m ?s c off] b Some p unfolding bufs_ok_def owns_ok_def by auto
  define buf where "buf = \<lparr>wb_next = wl_head (sk_high ?s), wb_buffer = Some (c, 0),
    wb_ptr = Some (c, sk_dw_offset ?s), wb_sz = sk_dw_size ?s - sk_dw_offset ?s, wb_userobject = False, wb_udp = None\<rparr>"
  define high where "high = \<lparr>wl_head = Some ?a,
    wl_tail = (if wl_head (sk_high ?s) = None then Some ?a else wl_tail (sk_high ?s))\<rparr>"
  define ss' where "ss' = upd_slot i (\<lambda>s. s\<lparr>sk_wbs := (sk_wbs s)(?a \<mapsto> buf), sk_high := high,
    sk_wb_size := sk_wb_size s + wb_sz buf, sk_dw_buffer := None\<rparr>) (ss\<lparr>ss_brk := ?a + 1\<rparr>)"
  let ?s' = "ss_slot ss' i"
  have pd: "push_direct i ss = Some ss'"
    using Some p x(1,3,4,5) by (simp add: push_direct_def Let_def send_object_init_def USEROBJECT_def INT_MAX_def
        ptr_add_def buf_def high_def ss'_def)
  have blk: "wb_blk buf = c" by (simp add: buf_def wb_blk_def)
  have good: "wb_good ?m buf" using x by (simp add: wb_good_def blk) (simp add: buf_def)
  have fresh: "?a \<notin> fst ` set hs" "?a \<notin> fst ` set ls"
    using b unfolding bufs_ok_def links_ok_def by (auto dest!: bspec)
  have wlh: "wl_ok (sk_wbs ?s) (sk_high ?s) hs" "wl_ok (sk_wbs ?s) (sk_low ?s) ls"
    using b by (auto simp: bufs_ok_def links_ok_def)
  have high': "wl_ok ((sk_wbs ?s)(?a \<mapsto> buf)) high ((?a, buf) # hs)"
  proof -
    have "wb_chain ((sk_wbs ?s)(?a \<mapsto> buf)) (wl_head (sk_high ?s)) hs"
      using wlh(1) fresh(1) by (simp add: wb_chain_upd wl_ok_def)
    then show ?thesis
      using wlh(1) wl_ok_head_None [OF wlh(1)] by (auto simp: wl_ok_def high_def buf_def)
  qed
  have low': "wl_ok ((sk_wbs ?s)(?a \<mapsto> buf)) (sk_low ?s) ls"
    using wlh(2) fresh(2) by (simp add: wl_ok_upd)
  have "links_ok (?a + 1) ?s' ((?a, buf) # hs) ls"
  proof -
    have "\<forall>x \<in> set hs \<union> set ls. fst x < Suc ?a" "dom (sk_wbs ?s) = fst ` (set hs \<union> set ls)"
      "distinct (map fst (hs @ ls))"
      using b by (auto simp: bufs_ok_def links_ok_def less_Suc_eq)
    then show ?thesis using high' low' fresh by (simp add: links_ok_def ss'_def)
  qed
  moreover have "owns_ok ?m ow i ?s' (((?a, buf) # hs) @ ls)"
  proof -
    have "c \<notin> set (wbs_blks (hs @ ls))" "ow c = Some i"
      using b Some p unfolding bufs_ok_def owns_ok_def by (auto simp: dw_blks_def)
    moreover have "dw_blks ?s' = []" "dw_good ?m ?s'" by (simp_all add: ss'_def dw_blks_def dw_good_def)
    ultimately show ?thesis
      using b good blk x(7) unfolding bufs_ok_def owns_ok_def by (auto simp: ss'_def)
  qed
  ultimately have b': "bufs_ok (ss_mem ss') (ss_brk ss') ow i ?s' ((?a, buf) # hs) ls"
    by (simp add: bufs_ok_def ss'_def)
  have c': "conn_ok ?s' ((?a, buf) # hs) ls" using cn by (simp add: conn_ok_def ss'_def split: socket_p.splits)
  have fr: "frame ow i ss ss'" using m by (simp add: frame_def ss'_def)
  have k: "keep ?s ?s'" "live ?s'" "sk_type ?s' = sk_type ?s" "sk_dw_buffer ?s' = None"
    using l by (simp_all add: keep_def live_def ss'_def)
  have data: "wb_data ?m buf = dw_data ?m ?s"
    using Some p x(2,3,4) by (simp add: wb_data_def buf_def dw_data_def drop_take nat_diff_distrib)
  have "stream [] i ss ss'"
    unfolding stream_def
  proof (intro allI impI)
    fix bs
    assume pe: "pending ?m ?s bs"
    then have lo: "sk_low ?s = clear_wb_list" and bs: "bs = dw_data ?m ?s @ wbs_data ?m hs"
      using wlh(1) wl_ok_unique unfolding pending_def by blast+
    have "pending (ss_mem ss') ?s' bs"
      unfolding pending_def using lo high' bs data
      by (intro conjI exI [of _ "(?a, buf) # hs"]) (simp_all add: ss'_def dw_data_def)
    then show "\<exists>bs'. pending (ss_mem ss') ?s' bs' \<and>
      wire (sk_id ?s) (ss_trace ss') @ bs' = wire (sk_id ?s) (ss_trace ss) @ bs @ []"
      by (auto simp: ss'_def)
  qed
  then have "evolve ow i ss ss'" using evolveI [OF fr k(1,2) b' c'] by blast
  then show ?thesis using pd k by blast
qed


section \<open>Both lists\<close>

lemma low_flushed:
  assumes s: "sinv ow i ss" and b: "bufs_ok (ss_mem ss) (ss_brk ss) ow i (ss_slot ss i) [] ls"
    and c: "conn_ok (ss_slot ss i) [] ls" and ls: "ls \<noteq> []"
    and f: "flushed i ow PRIORITY_LOW ls [] ss t ss'" and l': "live (ss_slot ss' i)"
  shows "\<exists>ls'. bufs_ok (ss_mem ss') (ss_brk ss') ow i (ss_slot ss' i) [] ls' \<and> frame ow i ss ss' \<and>
    keep (ss_slot ss i) (ss_slot ss' i) \<and> (\<forall>x \<in> set (tl ls'). wb_ptr (snd x) = wb_buffer (snd x)) \<and>
    ((\<forall>x \<in> set ls'. wb_ptr (snd x) = wb_buffer (snd x)) \<longrightarrow> conn_ok (ss_slot ss' i) [] ls' \<and> evolve ow i ss ss') \<and>
    (t \<noteq> None \<longrightarrow> (\<forall>x \<in> set ls'. wb_ptr (snd x) = wb_buffer (snd x))) \<and>
    sk_wb_size (ss_slot ss' i) = wbs_size ls' \<and> sk_p (ss_slot ss' i) = sk_p (ss_slot ss i)"
proof -
  from f l' obtain ls' where fr: "frame ow i ss ss'" and k: "keep (ss_slot ss i) (ss_slot ss' i)"
    and r: "rest_ok i ow PRIORITY_LOW ls [] ss t ss' ls'"
    unfolding flushed_def shut_def live_def by auto
  have b': "bufs_ok (ss_mem ss') (ss_brk ss') ow i (ss_slot ss' i) [] ls'"
    and sz: "sk_wb_size (ss_slot ss' i) = wbs_size ls'"
    using r flush_bufs [of "ss_mem ss'" "ss_brk ss'" ow i PRIORITY_LOW "ss_slot ss' i" ls' "[]"]
    by (auto simp: rest_ok_def hi_def)
  have st: "stream [] i ss ss'"
  proof -
    have "sk_low (ss_slot ss i) \<noteq> clear_wb_list"
    proof
      assume "sk_low (ss_slot ss i) = clear_wb_list"
      then have "wl_ok (sk_wbs (ss_slot ss i)) (sk_low (ss_slot ss i)) []" by simp
      then show False using b ls wl_ok_unique unfolding bufs_ok_def links_ok_def by metis
    qed
    then show ?thesis by (simp add: stream_def pending_def)
  qed
  have c': "conn_ok (ss_slot ss' i) [] ls'" if "\<forall>x \<in> set ls'. wb_ptr (snd x) = wb_buffer (snd x)"
    using c sz k r that by (cases "sk_p (ss_slot ss i)") (auto simp: conn_ok_def keep_def rest_ok_def)
  have low: "\<forall>x \<in> set ls. wb_ptr (snd x) = wb_buffer (snd x)" using c by (simp add: conn_ok_def)
  show ?thesis
    using b' fr k r low sz evolveI [OF fr k l' b'] c' st
    by (intro exI [of _ ls']) (auto simp: rest_ok_def)
qed

lemma raise_uncomplete_ok:
  assumes b: "bufs_ok (ss_mem ss) (ss_brk ss) ow i (ss_slot ss i) [] ((a, wb) # ls)"
  shows "\<exists>ss'. raise_uncomplete i ss = Some ss' \<and> same_world i ss ss' \<and>
    bufs_ok (ss_mem ss) (ss_brk ss) ow i (ss_slot ss' i) [(a, wb\<lparr>wb_next := None\<rparr>)] ls \<and>
    (\<exists>hi lo W. ss_slot ss' i = (ss_slot ss i)\<lparr>sk_low := lo, sk_wbs := W, sk_high := hi\<rparr>)"
proof -
  let ?s = "ss_slot ss i"
  have wh: "wl_ok (sk_wbs ?s) (sk_high ?s) []" and wlo: "wl_ok (sk_wbs ?s) (sk_low ?s) ((a, wb) # ls)"
    and d: "distinct (map fst ((a, wb) # ls))"
    using b by (auto simp: bufs_ok_def links_ok_def)
  have h: "wl_head (sk_low ?s) = Some a" "sk_wbs ?s a = Some wb" "wb_chain (sk_wbs ?s) (wb_next wb) ls"
    "wl_head (sk_high ?s) = None" using wlo wh by (auto simp: wl_ok_def)
  let ?W = "(sk_wbs ?s)(a \<mapsto> wb\<lparr>wb_next := None\<rparr>)"
  let ?lo = "\<lparr>wl_head = wb_next wb, wl_tail = (if wb_next wb = None then None else wl_tail (sk_low ?s))\<rparr>"
  let ?hi = "\<lparr>wl_head = Some a, wl_tail = Some a\<rparr>"
  let ?s' = "?s\<lparr>sk_low := ?lo, sk_wbs := ?W, sk_high := ?hi\<rparr>"
  let ?ss = "upd_slot i (\<lambda>s. s\<lparr>sk_low := ?lo, sk_wbs := (sk_wbs s)(a \<mapsto> wb\<lparr>wb_next := None\<rparr>), sk_high := ?hi\<rparr>) ss"
  have r: "raise_uncomplete i ss = Some ?ss" using h by (simp add: raise_uncomplete_def)
  have "wb_chain ?W (wb_next wb) ls"
    using h(3) d by (simp add: wb_chain_upd)
  moreover have "wb_next wb = None \<longleftrightarrow> ls = []" using h(3) by (cases ls) auto
  ultimately have lo': "wl_ok ?W ?lo ls" using wlo by (auto simp: wl_ok_def)
  have "links_ok (ss_brk ss) ?s' [(a, wb\<lparr>wb_next := None\<rparr>)] ls"
    using b lo' by (auto simp: bufs_ok_def links_ok_def wl_ok_def)
  moreover have "owns_ok (ss_mem ss) ow i ?s' ((a, wb\<lparr>wb_next := None\<rparr>) # ls)"
  proof -
    have "same_dw ?s ?s'" by (simp add: same_dw_def)
    note o = owns_ok_slot [OF this]
    show ?thesis unfolding o using b by (auto simp: bufs_ok_def owns_ok_def)
  qed
  ultimately have "bufs_ok (ss_mem ss) (ss_brk ss) ow i ?s' [(a, wb\<lparr>wb_next := None\<rparr>)] ls"
    by (simp add: bufs_ok_def)
  then show ?thesis using r same_world_upd [of i ss] by (intro exI [of _ ?ss]) auto
qed


lemma evolve_refl: "sinv ow i ss \<Longrightarrow> live (ss_slot ss i) \<Longrightarrow> evolve ow i ss ss"
  by (intro evolve_same same_world_refl) (auto simp: same_bufs_def)

text \<open>The part of \<open>send_buffer_\<close> that follows an empty high list.\<close>

lemma send_low_ok:
  assumes K: "kernel_ok K" and s: "sinv ow i ss" and l: "live (ss_slot ss i)"
    and h: "wl_head (sk_high (ss_slot ss i)) = None"
  shows "\<exists>t r' ss'. (if wl_head (sk_low (ss_slot ss i)) \<noteq> None then do {
      (ret, r, ss) \<leftarrow> send_list K i PRIORITY_LOW r ss;
      if ret \<noteq> None then
        (if ret = Some SOCKET_ERR then Some (Some SOCKET_ERR, r, ss) else Some (None, r, ss))
      else do {
        u \<leftarrow> list_uncomplete i PRIORITY_LOW ss;
        if u then do { ss \<leftarrow> raise_uncomplete i ss; Some (None, r, ss) }
        else if wl_head (sk_low (ss_slot ss i)) \<noteq> None then Some (None, r, ss)
        else flush_done K i r ss
      }
    } else flush_done K i r ss) = Some (t, r', ss') \<and> evolve ow i ss ss' \<and> t \<noteq> Some SOCKET_CLOSE"
proof -
  let ?s = "ss_slot ss i"
  obtain hs ls where b: "bufs_ok (ss_mem ss) (ss_brk ss) ow i ?s hs ls" and c: "conn_ok ?s hs ls"
    and m: "\<And>b. ss_brk ss \<le> b \<Longrightarrow> ss_mem ss b = None" using sinvE [OF s l] by blast
  have hs: "hs = []" using b h wl_ok_head_None unfolding bufs_ok_def links_ok_def by blast
  have lsh: "wl_head (sk_low ?s) = None \<longleftrightarrow> ls = []"
    using b wl_ok_head_None unfolding bufs_ok_def links_ok_def by blast
  show ?thesis
  proof (cases "ls = []")
    case True
    then have "send_buffer_empty ?s" using h lsh by (simp add: send_buffer_empty_def)
    from flush_done_ok [OF s l this, of K r] show ?thesis using lsh True by simp
  next
    case False
    have fo: "flush_ok (ss_mem ss) (ss_brk ss) ow i PRIORITY_LOW ?s ls []"
      using b c flush_bufs [of "ss_mem ss" "ss_brk ss" ow i PRIORITY_LOW ?s ls "[]"]
      by (simp add: hi_def conn_ok_def hs)
    obtain t r1 ss1 where sl: "send_list K i PRIORITY_LOW r ss = Some (t, r1, ss1)"
      and fl: "flushed i ow PRIORITY_LOW ls [] ss t ss1"
      using send_list_flushed [OF K fo l m, where r = r] by blast
    show ?thesis
    proof (cases "live (ss_slot ss1 i)")
      case False
      then have sh: "shut ow i ss ss1" "t = Some SOCKET_RST \<or> t = Some SOCKET_ERR"
        using fl by (auto simp: flushed_def)
      then show ?thesis using sl lsh \<open>ls \<noteq> []\<close> shut_evolve [OF sh(1) s] by auto
    next
      case l1: True
      let ?s1 = "ss_slot ss1 i"
      obtain ls' where lf: "bufs_ok (ss_mem ss1) (ss_brk ss1) ow i ?s1 [] ls'" "frame ow i ss ss1" "keep ?s ?s1"
        "\<forall>x \<in> set (tl ls'). wb_ptr (snd x) = wb_buffer (snd x)"
        "(\<forall>x \<in> set ls'. wb_ptr (snd x) = wb_buffer (snd x)) \<longrightarrow> conn_ok ?s1 [] ls' \<and> evolve ow i ss ss1"
        "t \<noteq> None \<longrightarrow> (\<forall>x \<in> set ls'. wb_ptr (snd x) = wb_buffer (snd x))"
        "sk_wb_size ?s1 = wbs_size ls'" "sk_p ?s1 = sk_p ?s"
        using low_flushed [OF s b [unfolded hs] c [unfolded hs] False fl l1] by blast
      have w1: "wb_chain (sk_wbs ?s1) (wl_head (sk_low ?s1)) ls'"
        using lf(1) by (simp add: bufs_ok_def links_ok_def wl_ok_def)
      show ?thesis
      proof (cases "t = None")
        case False
        then show ?thesis using sl lsh \<open>ls \<noteq> []\<close> lf(5,6) by auto
      next
        case t: True
        show ?thesis
        proof (cases ls')
          case Nil
          then have e: "evolve ow i ss ss1" using lf(5) by simp
          have h1: "wl_head (sk_high ?s1) = None" "wl_head (sk_low ?s1) = None"
            using lf(1) Nil by (auto simp: bufs_ok_def links_ok_def wl_ok_def)
          then have "send_buffer_empty ?s1" by (simp add: send_buffer_empty_def)
          from flush_done_ok [OF sinv_evolve [OF e] l1 this, of K r1] show ?thesis
            using sl t lsh \<open>ls \<noteq> []\<close> h1 evolve_trans [OF e] by (auto simp: list_uncomplete_def)
        next
          case (Cons x lt)
          obtain a wb where x: "x = (a, wb)" by force
          have hd1: "wl_head (sk_low ?s1) = Some a" "sk_wbs ?s1 a = Some wb" using w1 Cons x by auto
          show ?thesis
          proof (cases "wb_ptr wb = wb_buffer wb")
            case True
            then have "evolve ow i ss ss1" using lf(4,5) Cons x by auto
            then show ?thesis using sl t lsh \<open>ls \<noteq> []\<close> hd1 True by (simp add: list_uncomplete_def)
          next
            case False
            obtain ss2 where r2: "raise_uncomplete i ss1 = Some ss2" "same_world i ss1 ss2"
              and b2: "bufs_ok (ss_mem ss1) (ss_brk ss1) ow i (ss_slot ss2 i) [(a, wb\<lparr>wb_next := None\<rparr>)] lt"
              and s2: "\<exists>hi lo W. ss_slot ss2 i = ?s1\<lparr>sk_low := lo, sk_wbs := W, sk_high := hi\<rparr>"
              using raise_uncomplete_ok [OF lf(1) [unfolded Cons x]] by blast
            have m2: "ss_mem ss2 = ss_mem ss1" "ss_brk ss2 = ss_brk ss1" using r2(2) by (simp_all add: same_world_def)
            have k2: "keep ?s (ss_slot ss2 i)" "live (ss_slot ss2 i)"
              using s2 lf(3) l1 by (auto simp: keep_def live_def)
            have "conn_ok (ss_slot ss2 i) [(a, wb\<lparr>wb_next := None\<rparr>)] lt"
              using s2 c lf(3,4,7,8) Cons x by (auto simp: conn_ok_def keep_def split: socket_p.splits)
            moreover have "frame ow i ss ss2"
              using r2(2) lf(2) by (auto simp: frame_def same_world_def)
            moreover have "stream [] i ss ss2"
            proof -
              have "sk_low ?s \<noteq> clear_wb_list" using lsh \<open>ls \<noteq> []\<close> by (auto simp: clear_wb_list_def)
              then show ?thesis by (simp add: stream_def pending_def)
            qed
            ultimately have "evolve ow i ss ss2" using evolveI k2 b2 m2 by metis
            then show ?thesis using sl t lsh \<open>ls \<noteq> []\<close> hd1 False r2(1) by (simp add: list_uncomplete_def)
          qed
        qed
      qed
    qed
  qed
qed

lemma send_buffer'_ok:
  assumes K: "kernel_ok K" and s: "sinv ow i ss" and l: "live (ss_slot ss i)"
    and dw: "sk_dw_buffer (ss_slot ss i) = None"
  shows "\<exists>t r' ss'. send_buffer' K i r ss = Some (t, r', ss') \<and> evolve ow i ss ss' \<and> t \<noteq> Some SOCKET_CLOSE"
proof -
  let ?s = "ss_slot ss i"
  obtain hs ls where b: "bufs_ok (ss_mem ss) (ss_brk ss) ow i ?s hs ls" and c: "conn_ok ?s hs ls"
    and m: "\<And>b. ss_brk ss \<le> b \<Longrightarrow> ss_mem ss b = None" using sinvE [OF s l] by blast
  have "wb_chain (sk_wbs ?s) (wl_head (sk_low ?s)) ls" using b by (simp add: bufs_ok_def links_ok_def wl_ok_def)
  then have u: "list_uncomplete i PRIORITY_LOW ss = Some False"
    using c by (cases ls) (auto simp: list_uncomplete_def conn_ok_def)
  have fo: "flush_ok (ss_mem ss) (ss_brk ss) ow i PRIORITY_HIGH ?s hs ls"
    using b c flush_bufs [of "ss_mem ss" "ss_brk ss" ow i PRIORITY_HIGH ?s hs ls]
    by (simp add: hi_def conn_ok_def)
  obtain t r1 ss1 where sl: "send_list K i PRIORITY_HIGH r ss = Some (t, r1, ss1)"
    and fl: "flushed i ow PRIORITY_HIGH hs ls ss t ss1"
    using send_list_flushed [OF K fo l m, where r = r] by blast
  have e: "evolve ow i ss ss1" and l1: "t = None \<Longrightarrow> live (ss_slot ss1 i)"
    using high_flushed [OF s b c l fl] dw by auto
  have tt: "t \<in> {None, Some SOCKET_RST, Some SOCKET_ERR}" using fl by (simp add: flushed_def)
  show ?thesis
  proof (cases "t = None \<and> wl_head (sk_high (ss_slot ss1 i)) = None")
    case True
    then obtain t' r' ss' where low: "(if wl_head (sk_low (ss_slot ss1 i)) \<noteq> None then do {
        (ret, r, ss) \<leftarrow> send_list K i PRIORITY_LOW r1 ss1;
        if ret \<noteq> None then
          (if ret = Some SOCKET_ERR then Some (Some SOCKET_ERR, r, ss) else Some (None, r, ss))
        else do {
          u \<leftarrow> list_uncomplete i PRIORITY_LOW ss;
          if u then do { ss \<leftarrow> raise_uncomplete i ss; Some (None, r, ss) }
          else if wl_head (sk_low (ss_slot ss i)) \<noteq> None then Some (None, r, ss)
          else flush_done K i r ss
        }
      } else flush_done K i r1 ss1) = Some (t', r', ss')" "evolve ow i ss1 ss'" "t' \<noteq> Some SOCKET_CLOSE"
      using send_low_ok [OF K sinv_evolve [OF e] l1, where r = r1] by blast
    have "send_buffer' K i r ss = Some (t', r', ss')"
      unfolding low(1) [symmetric] using u sl True by (simp add: send_buffer'_def)
    then show ?thesis using evolve_trans [OF e low(2)] low(3) by blast
  next
    case False
    then show ?thesis using u sl tt e by (auto simp: send_buffer'_def)
  qed
qed

lemma send_buffer_ok:
  assumes K: "kernel_ok K" and s: "sinv ow i ss" and l: "live (ss_slot ss i)"
  shows "\<exists>t r' ss'. send_buffer K i r ss = Some (t, r', ss') \<and> evolve ow i ss ss' \<and> t \<noteq> Some SOCKET_CLOSE"
proof -
  let ?ss = "sys_log (Sys_trylock (int i)) ss"
  have e0: "evolve ow i ss ?ss"
    using s l same_world_log [of "Sys_trylock (int i)" i ss] by (intro evolve_same) (auto simp: same_bufs_def)
  have s0: "sinv ow i ?ss" "live (ss_slot ?ss i)" using sinv_evolve [OF e0] l by auto
  show ?thesis
  proof (cases "k_trylock K (ss_trace ss)")
    case True
    obtain ss1 where p: "push_direct i ?ss = Some ss1" "evolve ow i ?ss ss1" "live (ss_slot ss1 i)"
      "sk_dw_buffer (ss_slot ss1 i) = None"
      using push_direct_ok [OF s0] by blast
    obtain t r' ss' where "send_buffer' K i r ss1 = Some (t, r', ss')" "evolve ow i ss1 ss'" "t \<noteq> Some SOCKET_CLOSE"
      using send_buffer'_ok [OF K sinv_evolve [OF p(2)] p(3,4), where r = r] by blast
    moreover have "evolve ow i ss ss'"
      using evolve_trans [OF e0 evolve_trans [OF p(2)]] calculation(2) by blast
    ultimately show ?thesis using True p(1) by (simp add: send_buffer_def socket_trylock_def)
  next
    case False
    then show ?thesis using e0 by (simp add: send_buffer_def socket_trylock_def)
  qed
qed

end
