(* ===== verification/Socket_Append.thy ===== *)
theory Socket_Append
  imports Socket_Send
begin

text \<open>
  \<open>send_socket\<close>: data that arrives for a socket is appended to a list of its slot, sent at once as a
  packet, or freed; the invariant of the slot is kept, and data for the high list of a stream
  follows what the stream holds already.
\<close>

section \<open>Data that belongs to a slot\<close>

text \<open>The block of a request: owned by the slot, held in memory and not yet used by the slot.\<close>

definition fresh_blk :: "addr \<Rightarrow> socket \<Rightarrow> bool" where
  "fresh_blk b s \<longleftrightarrow> (\<forall>a wb. sk_wbs s a = Some wb \<longrightarrow> wb_blk wb \<noteq> b) \<and> b \<notin> set (dw_blks s)"

definition req_ok :: "(addr \<rightharpoonup> u8 list) \<Rightarrow> request_send \<Rightarrow> addr \<Rightarrow> bool" where
  "req_ok m rq b \<longleftrightarrow> rq_buffer rq = Some (b, 0) \<and> 0 \<le> rq_sz rq \<and> rq_sz rq \<le> INT_MAX \<and>
     (\<exists>xs. m b = Some xs \<and> rq_sz rq \<le> int (length xs))"

definition req_data :: "(addr \<rightharpoonup> u8 list) \<Rightarrow> request_send \<Rightarrow> u8 list" where
  "req_data m rq = take (nat (rq_sz rq)) (the (m (fst (the (rq_buffer rq)))))"

lemma req_object:
  "req_ok m rq b \<Longrightarrow> send_object_init ss (rq_buffer rq) (rq_sz rq) =
    Some (False, \<lparr>so_buffer = Some (b, 0), so_sz = rq_sz rq, so_free = SOCKET_BUFFER_MEMORY\<rparr>)"
  by (auto simp: req_ok_def send_object_init_def USEROBJECT_def INT_MAX_def)

lemma blk_chain: "bufs_ok m brk ow i s hs ls \<Longrightarrow> x \<in> set (hs @ ls) \<Longrightarrow> sk_wbs s (fst x) = Some (snd x)"
  using wb_chain_dom [of "sk_wbs s" "wl_head (sk_high s)" hs "fst x" "snd x"]
    wb_chain_dom [of "sk_wbs s" "wl_head (sk_low s)" ls "fst x" "snd x"]
  unfolding bufs_ok_def links_ok_def wl_ok_def by auto

lemma fresh_blk_bufs:
  assumes "bufs_ok m brk ow i s hs ls" "fresh_blk b s"
  shows "b \<notin> set (wbs_blks (hs @ ls))" "b \<notin> set (dw_blks s)"
proof -
  show "b \<notin> set (wbs_blks (hs @ ls))"
  proof
    assume "b \<in> set (wbs_blks (hs @ ls))"
    then obtain x where "x \<in> set (hs @ ls)" "wb_blk (snd x) = b" by (auto simp: wbs_blks_def)
    then show False using blk_chain [OF assms(1)] assms(2) unfolding fresh_blk_def by blast
  qed
  show "b \<notin> set (dw_blks s)" using assms(2) by (simp add: fresh_blk_def)
qed

lemma owns_ok_free:
  assumes "owns_ok m ow i s xs" "b \<notin> set (wbs_blks xs)" "b \<notin> set (dw_blks s)"
  shows "owns_ok (m(b := v)) ow i s xs"
proof -
  have "wb_good (m(b := v)) (snd y)" if "y \<in> set xs" for y
  proof -
    have "wb_blk (snd y) \<noteq> b" using wbs_blks_mem [OF that] assms(2) by metis
    then show ?thesis using assms(1) that by (subst wb_good_cong [where m = m]) (auto simp: owns_ok_def)
  qed
  moreover have "dw_good (m(b := v)) s"
    using assms(1,3) by (auto simp: owns_ok_def dw_good_def dw_blks_def split: option.splits)
  ultimately show ?thesis using assms(1) by (simp add: owns_ok_def)
qed

lemma pending_free:
  assumes "bufs_ok m brk ow i s hs ls" "fresh_blk b s" "pending m s bs"
  shows "pending (m(b := v)) s bs"
proof -
  obtain hs' where p: "sk_low s = clear_wb_list" "wl_ok (sk_wbs s) (sk_high s) hs'"
    "bs = dw_data m s @ wbs_data m hs'" using assms(3) unfolding pending_def by blast
  have hs: "hs' = hs" using assms(1) p(2) wl_ok_unique unfolding bufs_ok_def links_ok_def by blast
  note nb = fresh_blk_bufs [OF assms(1,2)]
  have "wbs_data (m(b := v)) hs = wbs_data m hs"
  proof (intro wbs_data_cong conjI)
    fix a wb
    assume a: "(a, wb) \<in> set hs"
    have "(a, wb) \<in> set (hs @ ls)" using a by simp
    then show "wb_good m wb" using assms(1) unfolding bufs_ok_def owns_ok_def by (metis snd_conv)
    have "wb_blk wb \<noteq> b" using wbs_blks_mem [OF a] nb(1) by auto
    then show "(m(b := v)) (wb_blk wb) = m (wb_blk wb)" by simp
  qed
  moreover have "dw_data (m(b := v)) s = dw_data m s"
    using nb(2) by (auto simp: dw_data_def dw_blks_def split: option.splits)
  ultimately show ?thesis using p hs unfolding pending_def by metis
qed

text \<open>Freeing the block, or any step that writes nothing, leaves the slot as it is.\<close>

lemma free_req_ok:
  assumes s: "sinv ow i ss" and o: "ow b = Some i" and f: "fresh_blk b (ss_slot ss i)"
    and r: "req_ok (ss_mem ss) rq b" and w: "same_world i ss ss1"
    and sl: "same_bufs (ss_slot ss i) (ss_slot ss1 i)" "sk_p (ss_slot ss1 i) = sk_p (ss_slot ss i)"
      "sk_type (ss_slot ss1 i) = sk_type (ss_slot ss i)"
  shows "\<exists>ss'. FREE (rq_buffer rq) ss1 = Some ss' \<and> evolve ow i ss ss' \<and> ss_slot ss' i = ss_slot ss1 i"
proof -
  let ?s = "ss_slot ss1 i" let ?ss' = "ss1\<lparr>ss_mem := (ss_mem ss1)(b := None)\<rparr>"
  have m: "ss_mem ss1 = ss_mem ss" "ss_brk ss1 = ss_brk ss" using w by (simp_all add: same_world_def)
  have fr: "FREE (rq_buffer rq) ss1 = Some ?ss'" using r m by (auto simp: FREE_def req_ok_def)
  have f1: "fresh_blk b ?s" using f sl(1) same_bufs_dw [OF sl(1)] by (simp add: fresh_blk_def same_bufs_def)
  have lv: "live ?s = live (ss_slot ss i)" using sl(3) by (simp add: live_def)
  have nm: "\<And>c. ss_brk ss \<le> c \<Longrightarrow> ss_mem ss c = None" using s by (simp add: sinv_def)
  have inv: "slot_inv (ss_mem ss) (ss_brk ss) ow i ?s"
  proof (cases "live ?s")
    case True
    then show ?thesis
      using s lv bufs_ok_same [OF sl(1)] conn_ok_same [OF sl(1,2)] unfolding sinv_def slot_inv_def by simp
  next
    case False
    then show ?thesis using s lv sl(1) unfolding sinv_def slot_inv_def closed_ok_def same_bufs_def by simp
  qed
  have "slot_inv ((ss_mem ss)(b := None)) (ss_brk ss) ow i ?s"
  proof (cases "live ?s")
    case True
    then obtain hs ls where b: "bufs_ok (ss_mem ss) (ss_brk ss) ow i ?s hs ls" "conn_ok ?s hs ls"
      using inv unfolding slot_inv_def by auto
    have "bufs_ok ((ss_mem ss)(b := None)) (ss_brk ss) ow i ?s hs ls"
      using b(1) owns_ok_free fresh_blk_bufs [OF b(1) f1] unfolding bufs_ok_def by blast
    then show ?thesis using b(2) True unfolding slot_inv_def by auto
  qed (use inv in \<open>simp add: slot_inv_def\<close>)
  then have sv: "sinv ow i ?ss'" using nm m by (simp add: sinv_def)
  have fm: "frame ow i ss ?ss'" using w nm o by (auto simp: frame_def same_world_def)
  have kp: "keep (ss_slot ss i) (ss_slot ?ss' i)" using sl by (auto simp: keep_def same_bufs_def live_def)
  have "stream [] i ss ?ss'"
    unfolding stream_def
  proof (intro allI impI)
    fix bs
    assume l': "live (ss_slot ?ss' i)" and pe: "pending (ss_mem ss) (ss_slot ss i) bs"
    then obtain hs ls where b: "bufs_ok (ss_mem ss) (ss_brk ss) ow i ?s hs ls"
      using inv unfolding slot_inv_def by auto
    have "pending (ss_mem ss) ?s bs"
      using pe sl(1) same_bufs_dw [OF sl(1), of "ss_mem ss"] by (simp add: pending_def same_bufs_def)
    from pending_free [OF b f1 this, of None] show "\<exists>bs'. pending (ss_mem ?ss') (ss_slot ?ss' i) bs' \<and>
        wire (sk_id (ss_slot ss i)) (ss_trace ?ss') @ bs' = wire (sk_id (ss_slot ss i)) (ss_trace ss) @ bs @ []"
      using w m by (auto simp: same_world_def)
  qed
  then show ?thesis using fr sv fm kp by (simp add: evolve_def)
qed

section \<open>Appending\<close>

lemma wb_chain_last: "wb_chain W p xs \<Longrightarrow> xs \<noteq> [] \<Longrightarrow> wb_next (snd (last xs)) = None"
  by (induction W p xs rule: wb_chain.induct) auto

lemma link_last_all:
  "(\<And>wb n. P (wb\<lparr>wb_next := n\<rparr>) = P wb) \<Longrightarrow> (\<forall>x \<in> set (link_last a xs). P (snd x)) = (\<forall>x \<in> set xs. P (snd x))"
  by (induction a xs rule: link_last.induct) auto

lemma owns_ok_snoc:
  assumes "owns_ok m ow i s (xs @ ys)" "wb_good m buf" "ow (wb_blk buf) = Some i"
    "sk_protocol s \<noteq> PROTOCOL_TCP \<longrightarrow> wb_udp buf \<noteq> None"
    "wb_blk buf \<notin> set (wbs_blks (xs @ ys))" "wb_blk buf \<notin> set (dw_blks s)"
  shows "owns_ok m ow i s ((link_last a xs @ [(a, buf)]) @ ys)"
proof -
  let ?P = "\<lambda>wb. wb_good m wb \<and> ow (wb_blk wb) = Some i \<and> (sk_protocol s \<noteq> PROTOCOL_TCP \<longrightarrow> wb_udp wb \<noteq> None)"
  have "(\<forall>x \<in> set (link_last a xs). ?P (snd x)) = (\<forall>x \<in> set xs. ?P (snd x))"
    by (rule link_last_all) simp
  then show ?thesis using assms unfolding owns_ok_def by auto
qed

text \<open>The slot after an append.\<close>

lemma append_counted_ok:
  assumes s: "sinv ow i ss" and l: "live (ss_slot ss i)" and o: "ow b = Some i"
    and f: "fresh_blk b (ss_slot ss i)" and r: "req_ok (ss_mem ss) rq b"
    and u: "sk_protocol (ss_slot ss i) \<noteq> PROTOCOL_TCP \<longrightarrow> udp \<noteq> None"
  shows "\<exists>ss'. append_counted i pr rq udp ss = Some ss' \<and> grow ow i ss ss' \<and> live (ss_slot ss' i) \<and>
    (pr = PRIORITY_HIGH \<longrightarrow> stream (req_data (ss_mem ss) rq) i ss ss') \<and> ss_trace ss' = ss_trace ss"
proof -
  let ?s = "ss_slot ss i" let ?m = "ss_mem ss" let ?a = "ss_brk ss" let ?W = "sk_wbs ?s"
  obtain hs ls where b: "bufs_ok ?m ?a ow i ?s hs ls" and cn: "conn_ok ?s hs ls"
    and m: "\<And>c. ?a \<le> c \<Longrightarrow> ?m c = None" using sinvE [OF s l] by blast
  define xs where "xs = hi pr hs ls"
  define ys where "ys = hi pr ls hs"
  have f0: "flush_ok ?m ?a ow i pr ?s xs ys" "xs = [] \<longrightarrow> wl_tail (wl pr ?s) = None"
    using b cn flush_bufs [of ?m ?a ow i pr ?s xs ys]
    by (cases pr; auto simp: xs_def ys_def hi_def conn_ok_def)+
  define buf where "buf = \<lparr>wb_next = None, wb_buffer = Some (b, 0), wb_ptr = Some (b, 0), wb_sz = rq_sz rq,
    wb_userobject = False, wb_udp = udp\<rparr>"
  have blk: "wb_blk buf = b" by (simp add: buf_def wb_blk_def)
  have good: "wb_good ?m buf" using r by (auto simp: wb_good_def blk req_ok_def) (auto simp: buf_def)
  have fresh: "?a \<notin> fst ` set xs" "?a \<notin> fst ` set ys"
    using f0(1) by (auto simp: flush_ok_def dest!: bspec)
  define xs' where "xs' = link_last ?a xs @ [(?a, buf)]"
  define W' where "W' = (if xs = [] then ?W(?a \<mapsto> buf)
    else ?W(?a \<mapsto> buf, fst (last xs) \<mapsto> (snd (last xs))\<lparr>wb_next := Some ?a\<rparr>))"
  define l' where "l' = \<lparr>wl_head = (if xs = [] then Some ?a else wl_head (wl pr ?s)), wl_tail = Some ?a\<rparr>"
  define ss' where "ss' = upd_slot i (\<lambda>s. (set_wl pr l' (s\<lparr>sk_wbs := W'\<rparr>))\<lparr>sk_wb_size := sk_wb_size s + rq_sz rq\<rparr>)
    (ss\<lparr>ss_brk := ?a + 1\<rparr>)"
  have ch: "wb_chain ?W (wl_head (wl pr ?s)) xs" using f0(1) by (simp add: flush_ok_def)
  have rb: "rq_buffer rq = Some (b, 0)" using r by (simp add: req_ok_def)
  note so = req_object [OF r, of ss, unfolded rb]
  have ap: "append_counted i pr rq udp ss = Some ss'"
  proof (cases "xs = []")
    case True
    then have "wl_head (wl pr ?s) = None" using ch by simp
    then show ?thesis using True
      by (simp add: append_counted_def append_sendbuffer'_def rb so ss'_def W'_def l'_def buf_def upd_slot_def Let_def)
  next
    case False
    obtain h where h: "wl_head (wl pr ?s) = Some h" using ch False by (cases xs) auto
    have t: "wl_tail (wl pr ?s) = Some (fst (last xs))" "?W (fst (last xs)) = Some (snd (last xs))"
      using f0(1) False wb_chain_dom [OF ch, of "fst (last xs)" "snd (last xs)"] by (auto simp: flush_ok_def)
    have "fst (last xs) \<noteq> ?a" using fresh(1) False by (metis image_eqI last_in_set)
    moreover have "wb_next (snd (last xs)) = None"
      using wb_chain_last [OF ch False] .
    ultimately show ?thesis using h t False
      by (simp add: append_counted_def append_sendbuffer'_def rb so ss'_def W'_def l'_def buf_def upd_slot_def Let_def)
  qed
  let ?s' = "ss_slot ss' i"
  have s': "sk_wbs ?s' = W'" "wl pr ?s' = l'" "wl (other pr) ?s' = wl (other pr) ?s"
    "sk_wb_size ?s' = sk_wb_size ?s + rq_sz rq" "same_dw ?s ?s'" "keep ?s ?s'" "live ?s'" "sk_p ?s' = sk_p ?s"
    using l by (cases pr; simp add: ss'_def same_dw_def keep_def live_def)+
  have mb: "ss_mem ss' = ?m" "ss_brk ss' = ?a + 1" by (simp_all add: ss'_def)
  have dxy: "distinct (map fst (xs @ ys))" using f0(1) by (simp add: flush_ok_def)
  have chx: "wb_chain W' (wl_head l') xs'" and tlx: "xs' \<noteq> [] \<and> wl_tail l' = Some (fst (last xs'))"
    using wb_chain_snoc [OF ch _ _ fresh(1), of buf "fst (last xs)" "snd (last xs)"] dxy
    by (cases "xs = []"; simp add: xs'_def W'_def l'_def buf_def)+
  have wly: "wl_ok W' (wl (other pr) ?s) ys"
  proof -
    have "xs \<noteq> [] \<Longrightarrow> fst (last xs) \<notin> fst ` set ys" using dxy by (metis (no_types, lifting) disjoint_iff
        distinct_append image_eqI last_in_set list.set_map map_append)
    then show ?thesis using f0(1) fresh(2) by (simp add: W'_def wl_ok_upd flush_ok_def)
  qed
  have nb: "b \<notin> set (wbs_blks (xs @ ys))" "b \<notin> set (dw_blks ?s)"
    using fresh_blk_bufs [OF b f] by (cases pr; auto simp: xs_def ys_def hi_def)+
  have "owns_ok ?m ow i ?s (xs' @ ys)"
    unfolding xs'_def using f0(1) good o u nb blk by (intro owns_ok_snoc) (auto simp: flush_ok_def buf_def)
  then have own: "owns_ok ?m ow i ?s' (xs' @ ys)" using owns_ok_slot [OF s'(5)] by simp
  have dom': "dom W' = fst ` set (xs' @ ys)" and lt: "\<forall>x \<in> fst ` set (xs' @ ys). x < ?a + 1"
    and dx: "distinct (map fst (xs' @ ys))"
  proof -
    have "dom ?W = fst ` set (xs @ ys)" "\<forall>x \<in> fst ` set (xs @ ys). x < ?a" using f0(1) by (auto simp: flush_ok_def)
    moreover have "xs \<noteq> [] \<Longrightarrow> fst (last xs) \<in> fst ` set xs" by simp
    moreover have sx: "fst ` set (xs' @ ys) = insert ?a (fst ` set (xs @ ys))"
      by (auto simp: xs'_def link_last_fst_set image_Un)
    ultimately show "dom W' = fst ` set (xs' @ ys)" "\<forall>x \<in> fst ` set (xs' @ ys). x < ?a + 1"
      unfolding sx by (auto simp: W'_def less_Suc_eq)
    show "distinct (map fst (xs' @ ys))" using dxy fresh by (simp add: xs'_def link_last_fst_set)
  qed
  have "flush_ok ?m (?a + 1) ow i pr ?s' xs' ys"
    unfolding flush_ok_def using s' chx tlx wly own dom' lt dx f0(1)
    by (simp add: xs'_def flush_ok_def buf_def)
  then have b': "bufs_ok (ss_mem ss') (ss_brk ss') ow i ?s' (hi pr xs' ys) (hi pr ys xs')"
    unfolding mb using flush_bufs [of ?m "?a + 1" ow i pr ?s' xs' ys] tlx by blast
  have cp: "\<forall>x \<in> set ls. wb_ptr (snd x) = wb_buffer (snd x)" using cn by (simp add: conn_ok_def)
  have "\<forall>x \<in> set (hi pr ys xs'). wb_ptr (snd x) = wb_buffer (snd x)"
  proof (cases pr)
    case PRIORITY_LOW
    have "(\<forall>x \<in> set (link_last ?a ls). wb_ptr (snd x) = wb_buffer (snd x)) =
      (\<forall>x \<in> set ls. wb_ptr (snd x) = wb_buffer (snd x))" by (rule link_last_all) simp
    then show ?thesis using PRIORITY_LOW cp by (auto simp: hi_def xs'_def xs_def buf_def)
  qed (use cp in \<open>simp add: hi_def ys_def\<close>)
  moreover have "sk_wb_size ?s' = wbs_size (hi pr xs' ys) + wbs_size (hi pr ys xs')"
    using cn s'(4) by (cases pr) (simp_all add: conn_ok_def hi_def xs'_def ys_def xs_def buf_def)
  ultimately have c': "conn_ok ?s' (hi pr xs' ys) (hi pr ys xs')"
    using cn s'(5,8) by (simp add: conn_ok_def same_dw_def split: socket_p.splits)
  have fr: "frame ow i ss ss'" using m by (simp add: frame_def ss'_def)
  have sv: "sinv ow i ss'" using b' c' s'(7) m unfolding sinv_def slot_inv_def by (auto simp: ss'_def)
  have "stream (req_data ?m rq) i ss ss'" if hp: "pr = PRIORITY_HIGH"
    unfolding stream_def
  proof (intro allI impI)
    fix bs
    assume pe: "pending ?m ?s bs"
    have wlh: "wl_ok ?W (sk_high ?s) hs" using b by (simp add: bufs_ok_def links_ok_def)
    have lo: "sk_low ?s = clear_wb_list" and bs: "bs = dw_data ?m ?s @ wbs_data ?m hs"
      using pe wlh wl_ok_unique unfolding pending_def by blast+
    have "wl_ok (sk_wbs ?s') (sk_high ?s') xs'" using chx tlx s'(1,2) hp by (simp add: wl_ok_def)
    moreover have "sk_low ?s' = clear_wb_list" using s'(3) lo hp by simp
    moreover have "wbs_data ?m xs' = wbs_data ?m hs @ req_data ?m rq"
      using rb hp by (simp add: xs'_def xs_def hi_def wb_data_def buf_def req_data_def)
    moreover have "dw_data ?m ?s' = dw_data ?m ?s" using same_dwD [OF s'(5)] by simp
    ultimately have "pending (ss_mem ss') ?s' (bs @ req_data ?m rq)"
      unfolding pending_def bs by (intro conjI exI [of _ xs']) (simp_all add: ss'_def)
    then show "\<exists>bs'. pending (ss_mem ss') ?s' bs' \<and>
      wire (sk_id ?s) (ss_trace ss') @ bs' = wire (sk_id ?s) (ss_trace ss) @ bs @ req_data ?m rq"
      by (auto simp: ss'_def)
  qed
  then show ?thesis using ap fr sv s'(6,7) unfolding grow_def by (auto simp: ss'_def)
qed


section \<open>A request to send\<close>

lemma warn_wb_ok:
  assumes s: "sinv ow i ss" and l: "live (ss_slot ss i)"
  shows "\<exists>t r' ss'. warn_wb i r ss = Some (t, r', ss') \<and> evolve ow i ss ss' \<and> t \<noteq> Some SOCKET_CLOSE"
proof -
  let ?ss = "upd_slot i (\<lambda>s. s\<lparr>sk_warn_size := (if sk_warn_size s = 0 then WARNING_SIZE * 2 else sk_warn_size s * 2)\<rparr>) ss"
  have "evolve ow i ss ?ss"
    using s l same_world_upd by (intro evolve_same) (auto simp: same_bufs_def live_def)
  then show ?thesis using evolve_refl [OF s l] by (simp add: warn_wb_def Let_def)
qed

lemma enable_and_warn_ok:
  assumes s: "sinv ow i ss" and l: "live (ss_slot ss i)"
  shows "\<exists>t r' ss'. enable_and_warn K i r ss = Some (t, r', ss') \<and> evolve ow i ss ss' \<and> t \<noteq> Some SOCKET_CLOSE"
proof -
  obtain e ss1 where ew: "enable_write K i True ss = (e, ss1)" by force
  have 1: "evolve ow i ss ss1" "live (ss_slot ss1 i)" using enable_write_evolve [OF s l ew] by auto
  obtain t r' ss' where 2: "warn_wb i r ss1 = Some (t, r', ss')" "evolve ow i ss1 ss'" "t \<noteq> Some SOCKET_CLOSE"
    using warn_wb_ok [OF sinv_evolve [OF 1(1)] 1(2)] by blast
  show ?thesis using ew 1 2 evolve_trans [OF 1(1) 2(2)] by (simp add: enable_and_warn_def report_error_def)
qed

text \<open>The stream of a slot takes data that is sent to it with high priority.\<close>

definition accepts :: "socket \<Rightarrow> int \<Rightarrow> bool" where
  "accepts s sid \<longleftrightarrow> sk_id s = sid \<and> sk_protocol s = PROTOCOL_TCP \<and> \<not> sk_closing s \<and>
     sk_type s \<in> {SOCKET_TYPE_CONNECTING, SOCKET_TYPE_CONNECTED, SOCKET_TYPE_HALFCLOSE_READ, SOCKET_TYPE_BIND}"

lemma stream_nil_left:
  assumes "stream d i ss ss1" "evolve ow i ss1 ss'" "keep (ss_slot ss i) (ss_slot ss1 i)"
  shows "stream d i ss ss'"
  using stream_trans [OF assms(1), of "[]" ss'] assms(2,3) by (simp add: evolve_def)

lemma append_then_ok:
  assumes s: "sinv ow i ss" and l: "live (ss_slot ss i)" and o: "ow b = Some i"
    and f: "fresh_blk b (ss_slot ss i)" and r: "req_ok (ss_mem ss) rq b"
    and u: "sk_protocol (ss_slot ss i) \<noteq> PROTOCOL_TCP \<longrightarrow> udp \<noteq> None"
    and g: "\<And>ss1. sinv ow i ss1 \<Longrightarrow> live (ss_slot ss1 i) \<Longrightarrow>
      \<exists>t r' ss'. g ss1 = Some (t, r', ss') \<and> evolve ow i ss1 ss' \<and> t \<noteq> Some SOCKET_CLOSE"
  shows "\<exists>t r' ss'. (append_counted i pr rq udp ss \<bind> g) = Some (t, r', ss') \<and> grow ow i ss ss' \<and>
    t \<noteq> Some SOCKET_CLOSE \<and> (pr = PRIORITY_HIGH \<longrightarrow> stream (req_data (ss_mem ss) rq) i ss ss')"
proof -
  obtain ss1 where a: "append_counted i pr rq udp ss = Some ss1" "grow ow i ss ss1" "live (ss_slot ss1 i)"
    "pr = PRIORITY_HIGH \<longrightarrow> stream (req_data (ss_mem ss) rq) i ss ss1"
    using append_counted_ok [OF s l o f r u] by blast
  obtain t r' ss' where 2: "g ss1 = Some (t, r', ss')" "evolve ow i ss1 ss'" "t \<noteq> Some SOCKET_CLOSE"
    using g a(2,3) by (meson grow_def)
  show ?thesis
    using a 2 grow_trans [OF a(2)] stream_nil_left [OF _ 2(2)] by (simp add: evolve_grow grow_def)
qed

lemma send_socket_ok:
  assumes s: "sinv ow (HASH_ID (rq_id rq)) ss" and o: "ow b = Some (HASH_ID (rq_id rq))"
    and f: "fresh_blk b (ss_slot ss (HASH_ID (rq_id rq)))" and r: "req_ok (ss_mem ss) rq b"
    and nr: "\<not> (sk_type (ss_slot ss (HASH_ID (rq_id rq))) = SOCKET_TYPE_RESERVE \<and>
      sk_id (ss_slot ss (HASH_ID (rq_id rq))) = rq_id rq)"
  shows "\<exists>t r' ss'. send_socket K rq res pr ua ss = Some (t, r', ss') \<and> grow ow (HASH_ID (rq_id rq)) ss ss' \<and>
    t \<noteq> Some SOCKET_CLOSE \<and> (accepts (ss_slot ss (HASH_ID (rq_id rq))) (rq_id rq) \<longrightarrow> pr = PRIORITY_HIGH \<longrightarrow>
      stream (req_data (ss_mem ss) rq) (HASH_ID (rq_id rq)) ss ss')"
proof -
  define i where "i = HASH_ID (rq_id rq)"
  let ?s = "ss_slot ss i" let ?so = "\<lparr>so_buffer = Some (b, 0), so_sz = rq_sz rq, so_free = SOCKET_BUFFER_MEMORY\<rparr>"
  let ?Q = "\<lambda>t r' ss'. grow ow i ss ss' \<and> t \<noteq> Some SOCKET_CLOSE \<and>
    (accepts ?s (rq_id rq) \<longrightarrow> pr = PRIORITY_HIGH \<longrightarrow> stream (req_data (ss_mem ss) rq) i ss ss')"
  note s = s [folded i_def] and o = o [folded i_def] and f = f [folded i_def]
  have ff: "free_func ?so p = FREE p" for p by (simp add: free_func_def fun_eq_iff)
  have freed: "\<exists>t r' ss'. (FREE (rq_buffer rq) ss1 \<bind> (\<lambda>ss. Some (None, res, ss))) = Some (t, r', ss') \<and> ?Q t r' ss'"
    if "same_world i ss ss1" "same_bufs ?s (ss_slot ss1 i)" "sk_p (ss_slot ss1 i) = sk_p ?s"
      "sk_type (ss_slot ss1 i) = sk_type ?s" "\<not> accepts ?s (rq_id rq)" for ss1
  proof -
    from free_req_ok [OF s o f r that(1-4)]
    obtain ss' where "FREE (rq_buffer rq) ss1 = Some ss'" "evolve ow i ss ss'" by blast
    then show ?thesis using that(5) by (simp add: evolve_grow)
  qed
  have "\<exists>t r' ss'. send_socket K rq res pr ua ss = Some (t, r', ss') \<and> ?Q t r' ss'"
  proof (cases "sk_type ?s = SOCKET_TYPE_INVALID \<or> sk_id ?s \<noteq> rq_id rq \<or> sk_type ?s = SOCKET_TYPE_HALFCLOSE_WRITE
        \<or> sk_type ?s = SOCKET_TYPE_PACCEPT \<or> sk_closing ?s")
    case True
    then have na: "\<not> accepts ?s (rq_id rq)" by (auto simp: accepts_def)
    show ?thesis
      using freed [OF same_world_refl _ refl refl na] True
      unfolding send_socket_def Let_def i_def [symmetric] req_object [OF r]
      by (simp add: ff same_bufs_def)
  next
    case 1: False
    show ?thesis
    proof (cases "sk_type ?s = SOCKET_TYPE_PLISTEN \<or> sk_type ?s = SOCKET_TYPE_LISTEN")
      case True
      then have na: "\<not> accepts ?s (rq_id rq)" by (auto simp: accepts_def)
      show ?thesis
        using freed [OF same_world_log _ _ _ na] 1 True
        unfolding send_socket_def Let_def i_def [symmetric] req_object [OF r]
        by (simp add: ff same_bufs_def skynet_error_log_def)
    next
      case 2: False
      have l: "live ?s" using 1 nr by (auto simp: live_def i_def)
      then obtain hs ls where cn: "conn_ok ?s hs ls" using sinvE [OF s] by blast
      show ?thesis
      proof (cases "sk_protocol ?s = PROTOCOL_TCP")
        case tcp: True
        have w: "\<exists>t r' ss'. (append_counted i q rq None ss \<bind> g) = Some (t, r', ss') \<and> grow ow i ss ss' \<and>
            t \<noteq> Some SOCKET_CLOSE \<and> (q = PRIORITY_HIGH \<longrightarrow> stream (req_data (ss_mem ss) rq) i ss ss')"
          if "g = enable_and_warn K i res \<or> g = warn_wb i res" for q g
          using append_then_ok [OF s l o f r, of None g q] tcp that warn_wb_ok enable_and_warn_ok by blast
        show ?thesis
        proof (cases "send_buffer_empty ?s")
          case True
          then show ?thesis
            using 1 2 tcp w [of "enable_and_warn K i res" PRIORITY_HIGH]
            unfolding send_socket_def Let_def i_def [symmetric] req_object [OF r]
            by (simp add: append_sendbuffer_def del: bind_eq_Some_conv) blast
        next
          case False
          then show ?thesis
            using 1 2 tcp w [of "warn_wb i res" pr]
            unfolding send_socket_def Let_def i_def [symmetric] req_object [OF r]
            by (cases pr; simp add: append_sendbuffer_def append_sendbuffer_low_def del: bind_eq_Some_conv; blast)
        qed
      next
        case udp: False
        then have na: "\<not> accepts ?s (rq_id rq)" by (simp add: accepts_def)
        obtain a where a: "default_address ?s ua = Some a"
          using cn udp by (cases ua) (auto simp: default_address_def conn_ok_def split: socket_p.splits)
        have w: "\<exists>t r' ss'. (append_sendbuffer_udp i pr rq a ss1 \<bind> g) = Some (t, r', ss') \<and> ?Q t r' ss'"
          if "g = enable_and_warn K i res \<or> g = warn_wb i res" "same_world i ss ss1" "ss_slot ss1 i = ?s" for g ss1
        proof -
          note hyps = that
          have s1: "evolve ow i ss ss1" "sinv ow i ss1"
            using evolve_same [OF s that(2)] that(3) l sinv_evolve by (auto simp: same_bufs_def)
          have m1: "req_ok (ss_mem ss1) rq b" using r that(2) by (simp add: same_world_def)
          obtain t r' ss' where "(append_sendbuffer_udp i pr rq a ss1 \<bind> g) = Some (t, r', ss')" "grow ow i ss1 ss'"
            "t \<noteq> Some SOCKET_CLOSE"
            using append_then_ok [OF s1(2) _ o _ m1, of "Some (take UDP_ADDRESS_SIZE a)" g pr] l f hyps(1,3)
              warn_wb_ok enable_and_warn_ok unfolding append_sendbuffer_udp_def by (simp) blast
          then show ?thesis using grow_trans s1(1) na by (simp add: evolve_grow) blast
        qed
        show ?thesis
        proof (cases "send_buffer_empty ?s")
          case False
          then show ?thesis
            using 1 2 udp a w [of "warn_wb i res", OF _ same_world_refl refl]
            unfolding send_socket_def Let_def i_def [symmetric] req_object [OF r]
            by (simp del: bind_eq_Some_conv)
        next
          case em: True
          show ?thesis
          proof (cases "udp_socket_address ?s a")
            case None
            then show ?thesis
              using 1 2 udp a em freed [OF same_world_log _ _ _ na]
              unfolding send_socket_def Let_def i_def [symmetric] req_object [OF r]
              by (simp add: ff same_bufs_def skynet_error_log_def)
          next
            case (Some sa)
            have "\<exists>d. mem_read (ss_mem ss) (Some (b, 0)) (rq_sz rq) = Some d"
              using r by (auto simp: mem_read_def req_ok_def)
            then obtain d where d: "mem_read (ss_mem ss) (Some (b, 0)) (rq_sz rq) = Some d" by blast
            obtain n e where k: "k_sendto K (ss_trace ss) (sk_fd ?s) d sa = (n, e)" by force
            define ev where "ev = Sys_sendto (sk_id ?s) (sk_fd ?s) d sa n"
            have body: "send_socket K rq res pr ua ss =
              (if n \<noteq> rq_sz rq then append_sendbuffer_udp i pr rq a (sys_log ev ss) \<bind> enable_and_warn K i res
               else FREE (rq_buffer rq) (stat_write i n (sys_log ev ss)) \<bind> (\<lambda>ss. Some (None, res, ss)))"
              using 1 2 udp a em Some d k
              unfolding send_socket_def Let_def i_def [symmetric] req_object [OF r]
              by (simp add: sys_sendto_def ff ev_def)
            have w1: "same_world i ss (sys_log ev ss)" by (intro same_world_log) (simp add: ev_def)
            show ?thesis
            proof (cases "n = rq_sz rq")
              case True
              have "same_world i ss (stat_write i n (sys_log ev ss))"
                using same_world_trans [OF w1 same_world_upd] by (simp add: stat_write_def)
              from freed [OF this _ _ _ na] show ?thesis
                using body True by (simp add: stat_write_def same_bufs_def)
            next
              case False
              then show ?thesis using body w [of "enable_and_warn K i res", OF _ w1] by simp
            qed
          qed
        qed
      qed
    qed
  qed
  then show ?thesis by (simp only: i_def)
qed

end
