(* ===== verification/Socket_Handlers.thy ===== *)
theory Socket_Handlers
  imports Socket_Append
begin

text \<open>
  The handlers of requests and events on an open slot: each returns and keeps the invariant
  of the slot, and \<open>SOCKET_CLOSE\<close> is only reported by a step after which the slot is closed for
  reading.
\<close>

definition closes_ok :: "nat \<Rightarrow> socket_server \<Rightarrow> socket_result option \<Rightarrow> socket_message \<Rightarrow> socket_server \<Rightarrow> bool" where
  "closes_ok i ss t r ss' \<longleftrightarrow> (t = Some SOCKET_CLOSE \<longrightarrow>
     live (ss_slot ss i) \<and> sk_type (ss_slot ss i) \<noteq> SOCKET_TYPE_HALFCLOSE_READ \<and> rs_id r = sk_id (ss_slot ss i) \<and>
     (sk_type (ss_slot ss' i) = SOCKET_TYPE_HALFCLOSE_READ \<or> sk_type (ss_slot ss' i) = SOCKET_TYPE_INVALID))"

definition handled_ok :: "(addr \<Rightarrow> nat option) \<Rightarrow> nat \<Rightarrow> socket_server \<Rightarrow> handled \<Rightarrow> bool" where
  "handled_ok ow i ss h \<longleftrightarrow>
     (\<exists>t r ss'. h = Some (t, r, ss') \<and> evolve ow i ss ss' \<and> closes_ok i ss t r ss')"

lemma handled_okI:
  "h = Some (t, r, ss') \<Longrightarrow> evolve ow i ss ss' \<Longrightarrow> closes_ok i ss t r ss' \<Longrightarrow> handled_ok ow i ss h"
  unfolding handled_ok_def by blast

lemma closes_ok_other: "t \<noteq> Some SOCKET_CLOSE \<Longrightarrow> closes_ok i ss t r ss'"
  by (simp add: closes_ok_def)

text \<open>A step that only logs.\<close>

lemma evolve_log:
  assumes "sinv ow i ss" "live (ss_slot ss i)" "\<And>x. written x e = []"
  shows "evolve ow i ss (sys_log e ss)"
  using assms same_world_log [OF assms(3)] by (intro evolve_same) (auto simp: same_bufs_def)

lemma shut_report:
  assumes "shut ow i ss ss'" "sk_type (ss_slot ss i) \<noteq> SOCKET_TYPE_HALFCLOSE_READ" "live (ss_slot ss i)"
  shows "closes_ok i ss t (report_to (ss_slot ss i) d) ss'"
  using assms by (simp add: closes_ok_def shut_def report_to_def)

text \<open>Both ways in which a handler ends by closing the slot.\<close>

lemma force_close_handled:
  assumes s: "sinv ow i ss" and l: "live (ss_slot ss i)"
    and t: "t = Some SOCKET_CLOSE \<longrightarrow> sk_type (ss_slot ss i) \<noteq> SOCKET_TYPE_HALFCLOSE_READ"
  shows "handled_ok ow i ss (force_close K i ss \<bind> (\<lambda>(r, ss). Some (t, r, ss)))"
    and "t \<noteq> Some SOCKET_CLOSE \<Longrightarrow> handled_ok ow i ss (force_close K i ss \<bind> (\<lambda>(r, ss). Some (t, r\<lparr>rs_data := d\<rparr>, ss)))"
proof -
  obtain ss' where f: "force_close K i ss = Some (report_to (ss_slot ss i) Data_null, ss')" "shut ow i ss ss'"
    "evolve ow i ss ss'" using force_close_ok [OF s l] by blast
  show "handled_ok ow i ss (force_close K i ss \<bind> (\<lambda>(r, ss). Some (t, r, ss)))"
    using f t l shut_report [OF f(2)] closes_ok_other by (intro handled_okI [of _ t _ ss']) auto
  show "handled_ok ow i ss (force_close K i ss \<bind> (\<lambda>(r, ss). Some (t, r\<lparr>rs_data := d\<rparr>, ss)))" if "t \<noteq> Some SOCKET_CLOSE"
    using f that closes_ok_other by (intro handled_okI [of _ t _ ss']) auto
qed

lemma close_read_handled:
  assumes s: "sinv ow i ss" and l: "live (ss_slot ss i)" and nh: "sk_type (ss_slot ss i) \<noteq> SOCKET_TYPE_HALFCLOSE_READ"
  shows "handled_ok ow i ss (let (r, ss) = close_read K i ss in Some (Some SOCKET_CLOSE, r, ss))"
proof -
  let ?ss1 = "set_type i SOCKET_TYPE_HALFCLOSE_READ ss"
  have s1: "ss_slot ?ss1 i = (ss_slot ss i)\<lparr>sk_type := SOCKET_TYPE_HALFCLOSE_READ\<rparr>" "same_world i ss ?ss1"
    by (simp_all add: set_type_def same_world_upd)
  obtain e ss2 where er: "enable_read K i False ?ss1 = (e, ss2)" by force
  have s2: "ss_slot ss2 i = (ss_slot ss i)\<lparr>sk_type := SOCKET_TYPE_HALFCLOSE_READ, sk_reading := False\<rparr>"
    "same_world i ss ss2"
    using enable_read_slot [OF er] s1 same_world_trans by auto
  let ?ss3 = "sys_log (Sys_shutdown (sk_fd (ss_slot ss2 i)) False) ss2"
  have "same_world i ss ?ss3" using same_world_trans [OF s2(2) same_world_log] by simp
  then have "evolve ow i ss ?ss3"
    using s l nh s2 by (intro evolve_same) (auto simp: same_bufs_def live_def)
  moreover have "close_read K i ss = (report_to (ss_slot ?ss3 i) Data_null, ?ss3)"
    by (simp add: close_read_def Let_def er)
  ultimately show ?thesis
    using l nh s2 by (intro handled_okI [of _ "Some SOCKET_CLOSE" _ ?ss3]) (auto simp: closes_ok_def report_to_def)
qed

section \<open>Requests\<close>

lemma closing_evolve:
  assumes "sinv ow i ss" "live (ss_slot ss i)"
  shows "evolve ow i ss (upd_slot i (\<lambda>s. s\<lparr>sk_closing := True\<rparr>) ss)"
  using assms same_world_upd by (intro evolve_same) (auto simp: same_bufs_def live_def)

lemma handled_trans:
  assumes "evolve ow i ss ss1" "handled_ok ow i ss1 h"
  shows "handled_ok ow i ss h"
proof -
  obtain t r ss' where h: "h = Some (t, r, ss')" "evolve ow i ss1 ss'" "closes_ok i ss1 t r ss'"
    using assms(2) unfolding handled_ok_def by blast
  have k: "keep (ss_slot ss i) (ss_slot ss1 i)" using assms(1) by (simp add: evolve_def)
  have "closes_ok i ss t r ss'" using h(3) k by (auto simp: closes_ok_def keep_def live_def)
  then show ?thesis using h evolve_trans [OF assms(1)] by (intro handled_okI) auto
qed

lemma close_socket_handled:
  assumes s: "sinv ow (HASH_ID (rc_id rq)) ss"
    and nr: "\<not> (sk_type (ss_slot ss (HASH_ID (rc_id rq))) = SOCKET_TYPE_RESERVE \<and>
      sk_id (ss_slot ss (HASH_ID (rc_id rq))) = rc_id rq)"
  shows "close_socket K rq r ss = Some (None, r, ss) \<or> handled_ok ow (HASH_ID (rc_id rq)) ss (close_socket K rq r ss)"
proof -
  define i where "i = HASH_ID (rc_id rq)"
  note s = s [folded i_def]
  let ?s = "ss_slot ss i"
  have "close_socket K rq r ss = Some (None, r, ss) \<or> handled_ok ow i ss (close_socket K rq r ss)"
  proof (cases "socket_invalid ?s (rc_id rq)")
    case True
    then show ?thesis by (simp add: close_socket_def Let_def i_def)
  next
    case False
    have l: "live ?s" using False nr by (auto simp: socket_invalid_def live_def i_def)
    show ?thesis
    proof (cases "rc_shutdown rq \<or> nomore_sending_data ?s")
      case True
      have "close_socket K rq r ss = (force_close K i ss \<bind> (\<lambda>(r, ss). Some (if halfclose_read ?s then None else Some SOCKET_CLOSE, r, ss)))"
        using False True by (simp add: close_socket_def Let_def i_def)
      then show ?thesis
        using force_close_handled(1) [OF s l, of "if halfclose_read ?s then None else Some SOCKET_CLOSE" K]
        by (simp add: halfclose_read_def split: if_splits)
    next
      case nm: False
      let ?ss = "upd_slot i (\<lambda>s. s\<lparr>sk_closing := True\<rparr>) ss"
      note e = closing_evolve [OF s l]
      show ?thesis
      proof (cases "halfclose_read ?s")
        case True
        then have "close_socket K rq r ss = Some (None, r, ?ss)"
          using False nm by (simp add: close_socket_def Let_def i_def)
        then show ?thesis using e by (auto intro: handled_okI closes_ok_other)
      next
        case nh: False
        have "handled_ok ow i ?ss (let (r, ss) = close_read K i ?ss in Some (Some SOCKET_CLOSE, r, ss))"
          using l nh sinv_evolve [OF e] by (intro close_read_handled) (auto simp: live_def halfclose_read_def)
        moreover have "close_socket K rq r ss = (let (r, ss) = close_read K i ?ss in Some (Some SOCKET_CLOSE, r, ss))"
          using False nm nh by (simp add: close_socket_def Let_def i_def split: prod.splits)
        ultimately show ?thesis using handled_trans [OF e] by simp
      qed
    qed
  qed
  then show ?thesis by (simp only: i_def)
qed


text \<open>A request that may find its socket gone.\<close>

definition req_done :: "(addr \<Rightarrow> nat option) \<Rightarrow> nat \<Rightarrow> socket_server \<Rightarrow> handled \<Rightarrow> bool" where
  "req_done ow i ss h \<longleftrightarrow> (\<exists>t r. h = Some (t, r, ss) \<and> t \<noteq> Some SOCKET_CLOSE) \<or>
     live (ss_slot ss i) \<and> handled_ok ow i ss h"

lemma close_socket_done:
  assumes "sinv ow (HASH_ID (rc_id rq)) ss"
    and "\<not> (sk_type (ss_slot ss (HASH_ID (rc_id rq))) = SOCKET_TYPE_RESERVE \<and>
      sk_id (ss_slot ss (HASH_ID (rc_id rq))) = rc_id rq)"
  shows "req_done ow (HASH_ID (rc_id rq)) ss (close_socket K rq r ss)"
proof (cases "socket_invalid (ss_slot ss (HASH_ID (rc_id rq))) (rc_id rq)")
  case True
  then show ?thesis by (simp add: close_socket_def Let_def req_done_def)
next
  case False
  then have "live (ss_slot ss (HASH_ID (rc_id rq)))" using assms(2) by (auto simp: socket_invalid_def live_def)
  then show ?thesis using close_socket_handled [OF assms, of K r] unfolding req_done_def by auto
qed

lemma enable_handled:
  assumes "sinv ow i ss" "live (ss_slot ss i)"
  shows "handled_ok ow i ss (let (err, ss) = enable_write K i b ss
      in if err then Some (report_error i msg ss) else Some (None, r, ss))"
    and "handled_ok ow i ss (let (err, ss) = enable_read K i b ss
      in if err then Some (report_error i msg ss) else Some (None, r, ss))"
proof -
  obtain e ss1 where w: "enable_write K i b ss = (e, ss1)" by force
  show "handled_ok ow i ss (let (err, ss) = enable_write K i b ss
      in if err then Some (report_error i msg ss) else Some (None, r, ss))"
    using enable_write_evolve [OF assms w] unfolding w
    by (cases e) (auto simp: report_error_def intro!: handled_okI closes_ok_other)
  obtain e2 ss2 where w2: "enable_read K i b ss = (e2, ss2)" by force
  show "handled_ok ow i ss (let (err, ss) = enable_read K i b ss
      in if err then Some (report_error i msg ss) else Some (None, r, ss))"
    using enable_read_evolve [OF assms w2] unfolding w2
    by (cases e2) (auto simp: report_error_def intro!: handled_okI closes_ok_other)
qed

lemma trigger_write_done:
  assumes s: "sinv ow (HASH_ID (rq_id rq)) ss"
    and nr: "\<not> (sk_type (ss_slot ss (HASH_ID (rq_id rq))) = SOCKET_TYPE_RESERVE \<and>
      sk_id (ss_slot ss (HASH_ID (rq_id rq))) = rq_id rq)"
  shows "req_done ow (HASH_ID (rq_id rq)) ss (trigger_write K rq r ss)"
proof (cases "socket_invalid (ss_slot ss (HASH_ID (rq_id rq))) (rq_id rq)")
  case False
  then have l: "live (ss_slot ss (HASH_ID (rq_id rq)))" using nr by (auto simp: socket_invalid_def live_def)
  from enable_handled(1) [OF s l] show ?thesis
    using False l by (simp add: trigger_write_def Let_def req_done_def)
qed (simp add: trigger_write_def Let_def req_done_def)

lemma pause_socket_done:
  assumes s: "sinv ow (HASH_ID (rp_id rq)) ss"
    and nr: "\<not> (sk_type (ss_slot ss (HASH_ID (rp_id rq))) = SOCKET_TYPE_RESERVE \<and>
      sk_id (ss_slot ss (HASH_ID (rp_id rq))) = rp_id rq)"
  shows "req_done ow (HASH_ID (rp_id rq)) ss (pause_socket K rq r ss)"
proof (cases "socket_invalid (ss_slot ss (HASH_ID (rp_id rq))) (rp_id rq)")
  case False
  then have l: "live (ss_slot ss (HASH_ID (rp_id rq)))" using nr by (auto simp: socket_invalid_def live_def)
  from enable_handled(2) [OF s l] show ?thesis
    using False l by (simp add: pause_socket_def Let_def req_done_def)
qed (simp add: pause_socket_def Let_def req_done_def)

lemma resume_socket_done:
  assumes s: "sinv ow (HASH_ID (rp_id rq)) ss"
    and nr: "\<not> (sk_type (ss_slot ss (HASH_ID (rp_id rq))) = SOCKET_TYPE_RESERVE \<and>
      sk_id (ss_slot ss (HASH_ID (rp_id rq))) = rp_id rq)"
  shows "req_done ow (HASH_ID (rp_id rq)) ss (resume_socket K rq ss)"
proof -
  define i where "i = HASH_ID (rp_id rq)"
  note s = s [folded i_def]
  let ?s = "ss_slot ss i"
  have "req_done ow i ss (resume_socket K rq ss)"
  proof (cases "socket_invalid ?s (rp_id rq) \<or> halfclose_read ?s")
    case True
    then show ?thesis by (auto simp: resume_socket_def Let_def req_done_def i_def [symmetric])
  next
    case False
    have l: "live ?s" using False nr by (auto simp: socket_invalid_def live_def i_def)
    obtain e ss1 where er: "enable_read K i True ss = (e, ss1)" by force
    have 1: "evolve ow i ss ss1" "live (ss_slot ss1 i)" "ss_slot ss1 i = ?s\<lparr>sk_reading := True\<rparr>"
      using enable_read_evolve [OF s l er] by auto
    have upd: "evolve ow i ss (upd_slot i (\<lambda>s. s\<lparr>sk_opaque := q\<rparr>) (set_type i ty ss1))"
      if "ty \<noteq> SOCKET_TYPE_INVALID" "ty \<noteq> SOCKET_TYPE_RESERVE" for ty q
    proof -
      have "same_world i ss1 (upd_slot i (\<lambda>s. s\<lparr>sk_opaque := q\<rparr>) (set_type i ty ss1))"
        by (simp add: same_world_def set_type_def)
      then have "evolve ow i ss1 (upd_slot i (\<lambda>s. s\<lparr>sk_opaque := q\<rparr>) (set_type i ty ss1))"
        using that sinv_evolve [OF 1(1)] 1(2,3) False
        by (intro evolve_same) (auto simp: same_bufs_def live_def set_type_def halfclose_read_def)
      then show ?thesis using evolve_trans [OF 1(1)] by blast
    qed
    have upd2: "evolve ow i ss (upd_slot i (\<lambda>s. s\<lparr>sk_opaque := q\<rparr>) ss1)" for q
    proof -
      have "evolve ow i ss1 (upd_slot i (\<lambda>s. s\<lparr>sk_opaque := q\<rparr>) ss1)"
        using sinv_evolve [OF 1(1)] 1(2) same_world_upd by (intro evolve_same) (auto simp: same_bufs_def live_def)
      then show ?thesis using evolve_trans [OF 1(1)] by blast
    qed
    have "handled_ok ow i ss (resume_socket K rq ss)"
      using False er 1(1) upd upd2
      by (auto simp: resume_socket_def Let_def i_def [symmetric] intro!: handled_okI closes_ok_other)
    then show ?thesis using l by (simp add: req_done_def)
  qed
  then show ?thesis by (simp only: i_def)
qed

lemma setopt_socket_done:
  assumes s: "sinv ow (HASH_ID (rt_id rq)) ss"
    and nr: "\<not> (sk_type (ss_slot ss (HASH_ID (rt_id rq))) = SOCKET_TYPE_RESERVE \<and>
      sk_id (ss_slot ss (HASH_ID (rt_id rq))) = rt_id rq)"
  shows "req_done ow (HASH_ID (rt_id rq)) ss (Some (None, r, setopt_socket rq ss))"
proof (cases "socket_invalid (ss_slot ss (HASH_ID (rt_id rq))) (rt_id rq)")
  case False
  then have l: "live (ss_slot ss (HASH_ID (rt_id rq)))" using nr by (auto simp: socket_invalid_def live_def)
  show ?thesis
    using False l evolve_log [OF s l] unfolding req_done_def
    by (auto simp: setopt_socket_def Let_def intro!: handled_okI closes_ok_other)
qed (simp add: setopt_socket_def Let_def req_done_def)

lemma set_udp_address_done:
  assumes K: "kernel_ok K" and s: "sinv ow (HASH_ID sid) ss"
    and nr: "\<not> (sk_type (ss_slot ss (HASH_ID sid)) = SOCKET_TYPE_RESERVE \<and> sk_id (ss_slot ss (HASH_ID sid)) = sid)"
    and a: "a \<noteq> []" "a ! 0 \<noteq> PROTOCOL_TCP"
  shows "req_done ow (HASH_ID sid) ss (set_udp_address K sid a r ss)"
proof -
  define i where "i = HASH_ID sid"
  note s = s [folded i_def]
  let ?s = "ss_slot ss i"
  have hd: "(a @ k_stack K) ! 0 = a ! 0" using a(1) by (simp add: nth_append)
  have "req_done ow i ss (set_udp_address K sid a r ss)"
  proof (cases "socket_invalid ?s sid")
    case True
    then show ?thesis by (simp add: set_udp_address_def Let_def req_done_def i_def [symmetric])
  next
    case False
    have l: "live ?s" using False nr by (auto simp: socket_invalid_def live_def i_def)
    obtain hs ls where b: "bufs_ok (ss_mem ss) (ss_brk ss) ow i ?s hs ls" and c: "conn_ok ?s hs ls"
      using sinvE [OF s l] by blast
    show ?thesis
    proof (cases "a ! 0 = sk_protocol ?s")
      case ne: False
      then show ?thesis using False l evolve_refl [OF s l] unfolding req_done_def
        by (auto simp: set_udp_address_def Let_def hd report_error_def i_def [symmetric] intro!: handled_okI closes_ok_other)
    next
      case eq: True
      obtain old where old: "sk_p ?s = P_address old" "length old = UDP_ADDRESS_SIZE"
        using c eq a(2) by (auto simp: conn_ok_def split: socket_p.splits)
      define n where "n = (if a ! 0 = PROTOCOL_UDP then 7 else 19 :: nat)"
      define p where "p = P_address (take n (a @ k_stack K) @ drop n old)"
      define ss' where "ss' = upd_slot i (\<lambda>s. s\<lparr>sk_p := p, sk_udpconnecting := sk_udpconnecting s - 1\<rparr>) ss"
      have r: "set_udp_address K sid a r ss = Some (None, r, ss')"
        using False eq old by (simp add: set_udp_address_def Let_def hd i_def [symmetric] n_def p_def ss'_def)
      have sb: "same_bufs ?s (ss_slot ss' i)" by (simp add: ss'_def same_bufs_def)
      have k: "keep ?s (ss_slot ss' i)" "live (ss_slot ss' i)" using l by (simp_all add: keep_def live_def ss'_def)
      have "n \<le> length (a @ k_stack K)" "n \<le> UDP_ADDRESS_SIZE"
        using kernel_okD(6) [OF K] by (simp_all add: n_def UDP_ADDRESS_SIZE_def)
      then have "length (take n (a @ k_stack K) @ drop n old) = UDP_ADDRESS_SIZE"
        using old(2) by (simp only: length_append length_take length_drop)
      then have c': "conn_ok (ss_slot ss' i) hs ls"
        using c eq a(2) by (simp add: conn_ok_def ss'_def p_def)
      have m: "\<And>b. ss_brk ss \<le> b \<Longrightarrow> ss_mem ss b = None" using s by (simp add: sinv_def)
      have fr: "frame ow i ss ss'" using m by (simp add: frame_def ss'_def)
      have b': "bufs_ok (ss_mem ss') (ss_brk ss') ow i (ss_slot ss' i) hs ls"
        using b bufs_ok_same [OF sb] by (simp add: ss'_def)
      have "stream [] i ss ss'" using eq a(2) by (simp add: stream_def)
      then have "evolve ow i ss ss'" using evolveI [OF fr k b' c'] by blast
      then show ?thesis using r l unfolding req_done_def by (auto intro: handled_okI closes_ok_other)
    qed
  qed
  then show ?thesis by (simp only: i_def)
qed

section \<open>Events\<close>

text \<open>Data for the receiver of an event is a block of its own.\<close>

lemma fresh_of_ow:
  assumes b: "bufs_ok m brk ow i s hs ls" and o: "ow c \<noteq> Some i"
  shows "fresh_blk c s"
  unfolding fresh_blk_def
proof (intro conjI allI impI)
  fix a wb
  assume a: "sk_wbs s a = Some wb"
  then have "a \<in> fst ` set (hs @ ls)" using b unfolding bufs_ok_def links_ok_def by blast
  then obtain x where x: "x \<in> set (hs @ ls)" "a = fst x" by blast
  then have "wb = snd x" using blk_chain [OF b x(1)] a by simp
  then show "wb_blk wb \<noteq> c" using b x(1) o unfolding bufs_ok_def owns_ok_def by metis
next
  show "c \<notin> set (dw_blks s)" using b o unfolding bufs_ok_def owns_ok_def by blast
qed

lemma malloc_evolve:
  assumes s: "sinv ow i ss" and l: "live (ss_slot ss i)" and o: "ow (ss_brk ss) \<noteq> Some i"
  shows "evolve ow i ss (snd (MALLOC d ss))"
proof -
  let ?ss = "snd (MALLOC d ss)"
  obtain hs ls where b: "bufs_ok (ss_mem ss) (ss_brk ss) ow i (ss_slot ss i) hs ls" and c: "conn_ok (ss_slot ss i) hs ls"
    and m: "\<And>b. ss_brk ss \<le> b \<Longrightarrow> ss_mem ss b = None" using sinvE [OF s l] by blast
  have mem: "ss_mem ?ss = (ss_mem ss)(ss_brk ss \<mapsto> d)" "ss_brk ?ss = ss_brk ss + 1" "ss_slot ?ss = ss_slot ss"
    by (simp_all add: MALLOC_def)
  have own: "owns_ok (ss_mem ss) ow i (ss_slot ss i) (hs @ ls)" using b by (simp add: bufs_ok_def)
  have fb: "fresh_blk (ss_brk ss) (ss_slot ss i)" using fresh_of_ow [OF b o] .
  note nb = fresh_blk_bufs [OF b fb]
  have b': "bufs_ok (ss_mem ?ss) (ss_brk ?ss) ow i (ss_slot ?ss i) hs ls"
    using b owns_ok_free [OF own nb] links_ok_mono [of "ss_brk ss"] unfolding bufs_ok_def mem by simp
  have fr: "frame ow i ss ?ss" using m by (auto simp: frame_def MALLOC_def)
  have "stream [] i ss ?ss"
    unfolding stream_def
  proof (intro allI impI)
    fix bs
    assume pe: "pending (ss_mem ss) (ss_slot ss i) bs"
    from pending_free [OF b fb pe] show "\<exists>bs'. pending (ss_mem ?ss) (ss_slot ?ss i) bs' \<and>
        wire (sk_id (ss_slot ss i)) (ss_trace ?ss) @ bs' = wire (sk_id (ss_slot ss i)) (ss_trace ss) @ bs @ []"
      by (auto simp: MALLOC_def)
  qed
  then show ?thesis
    using evolveI [OF fr _ _ b' _] l c unfolding mem(3) by (simp add: keep_def)
qed


lemma stat_read_evolve:
  assumes "sinv ow i ss" "live (ss_slot ss i)"
  shows "evolve ow i ss (stat_read i n ss)"
  using assms same_world_upd unfolding stat_read_def by (intro evolve_same) (auto simp: same_bufs_def live_def)

text \<open>The size of the next read.\<close>

lemma p_size_evolve:
  assumes s: "sinv ow i ss" and l: "live (ss_slot ss i)" and p: "sk_p (ss_slot ss i) = P_size m"
    and n: "0 < n" "n \<le> INT_MAX"
  shows "evolve ow i ss (upd_slot i (\<lambda>s. s\<lparr>sk_p := P_size n\<rparr>) ss)"
proof -
  let ?ss = "upd_slot i (\<lambda>s. s\<lparr>sk_p := P_size n\<rparr>) ss"
  obtain hs ls where b: "bufs_ok (ss_mem ss) (ss_brk ss) ow i (ss_slot ss i) hs ls" and c: "conn_ok (ss_slot ss i) hs ls"
    and m: "\<And>b. ss_brk ss \<le> b \<Longrightarrow> ss_mem ss b = None" using sinvE [OF s l] by blast
  have sb: "same_bufs (ss_slot ss i) (ss_slot ?ss i)" by (simp add: same_bufs_def)
  have fr: "frame ow i ss ?ss" using m by (simp add: frame_def)
  have k: "keep (ss_slot ss i) (ss_slot ?ss i)" "live (ss_slot ?ss i)" using l by (simp_all add: keep_def live_def)
  have b': "bufs_ok (ss_mem ?ss) (ss_brk ?ss) ow i (ss_slot ?ss i) hs ls" using b bufs_ok_same [OF sb] by simp
  have c': "conn_ok (ss_slot ?ss i) hs ls" using c p n by (simp add: conn_ok_def)
  have "stream [] i ss ?ss"
    using same_bufs_dw [OF sb, of "ss_mem ss"] sb unfolding stream_def pending_def same_bufs_def by auto
  then show ?thesis using evolveI [OF fr k b' c'] by blast
qed

lemma forward_tcp_handled:
  assumes K: "kernel_ok K" and s: "sinv ow i ss" and l: "live (ss_slot ss i)"
    and o: "\<forall>b. ss_brk ss \<le> b \<longrightarrow> ow b = None" and tcp: "sk_protocol (ss_slot ss i) = PROTOCOL_TCP"
  shows "handled_ok ow i ss (forward_message_tcp K i r ss)"
proof -
  let ?s = "ss_slot ss i"
  obtain hs ls where "conn_ok ?s hs ls" using sinvE [OF s l] by blast
  then obtain sz where sz: "sk_p ?s = P_size sz" "0 < sz" "sz \<le> INT_MAX"
    using tcp by (auto simp: conn_ok_def split: socket_p.splits)
  let ?ss1 = "sys_log (Sys_read (sk_fd ?s) sz) ss"
  have e1: "evolve ow i ss ?ss1" using evolve_log [OF s l] by simp
  have s1: "sinv ow i ?ss1" "live (ss_slot ?ss1 i)" using sinv_evolve [OF e1] l by simp_all
  show ?thesis
  proof (cases "k_read K (ss_trace ss) (sk_fd ?s) sz")
    case (Inl err)
    then show ?thesis using e1 sz(1)
      by (auto simp: forward_message_tcp_def report_error_def Let_def intro!: handled_okI closes_ok_other)
  next
    case (Inr bytes)
    have none: "handled_ok ow i ss (Some (None, r, ?ss1))" using e1 by (auto intro: handled_okI closes_ok_other)
    show ?thesis
    proof (cases "bytes = []")
      case True
      note fc = force_close_handled(1) [OF s1, of None K, simplified]
      note fc2 = force_close_handled(1) [OF s1, of "Some SOCKET_CLOSE" K, simplified]
      have "handled_ok ow i ?ss1 (let (r, ss) = close_read K i ?ss1 in Some (Some SOCKET_CLOSE, r, ss))"
        if "sk_type ?s \<noteq> SOCKET_TYPE_HALFCLOSE_READ" using that by (intro close_read_handled s1) simp
      then show ?thesis
        using True Inr sz(1) none handled_trans [OF e1 fc] handled_trans [OF e1 fc2] handled_trans [OF e1]
        by (simp add: forward_message_tcp_def Let_def split: prod.splits)
    next
      case nb: False
      show ?thesis
      proof (cases "halfclose_read ?s")
        case True
        then show ?thesis using nb Inr sz(1) none by (simp add: forward_message_tcp_def Let_def)
      next
        case nh: False
        let ?n = "int (length bytes)"
        define ss2 where "ss2 = snd (MALLOC bytes ?ss1)"
        define ss3 where "ss3 = stat_read i ?n ss2"
        define m where "m = \<lparr>rs_id = sk_id ?s, rs_opaque = sk_opaque ?s, rs_ud = ?n, rs_data = Data_buffer (ss_brk ss)\<rparr>"
        have e2: "evolve ow i ss ss2"
          using malloc_evolve [OF s1, of bytes] o evolve_trans [OF e1] by (simp add: ss2_def)
        have l2: "live (ss_slot ss2 i)" using l by (simp add: ss2_def MALLOC_def)
        have e3: "evolve ow i ss ss3"
          using stat_read_evolve [OF sinv_evolve [OF e2] l2] evolve_trans [OF e2] by (simp add: ss3_def)
        have l3: "live (ss_slot ss3 i)" and p3: "sk_p (ss_slot ss3 i) = P_size sz"
          using l sz(1) by (simp_all add: ss3_def ss2_def MALLOC_def stat_read_def live_def)
        have upd: "evolve ow i ss (upd_slot i (\<lambda>s. s\<lparr>sk_p := P_size n\<rparr>) ss3)" if "0 < n" "n \<le> INT_MAX" for n
          using p_size_evolve [OF sinv_evolve [OF e3] l3 p3 that] evolve_trans [OF e3] by blast
        have lt: "?n < 1073741824" using kernel_okD(4) [OF K Inr] by simp
        have "forward_message_tcp K i r ss =
          (if ?n = sz then Some (Some SOCKET_MORE, m, upd_slot i (\<lambda>s. s\<lparr>sk_p := P_size (sz * 2)\<rparr>) ss3)
           else if MIN_READ_BUFFER < sz \<and> ?n * 2 < sz
           then Some (Some SOCKET_DATA, m, upd_slot i (\<lambda>s. s\<lparr>sk_p := P_size (sz div 2)\<rparr>) ss3)
           else Some (Some SOCKET_DATA, m, ss3))"
          using nb nh Inr sz(1) lt
          by (auto simp: forward_message_tcp_def Let_def ss3_def ss2_def m_def MALLOC_def INT_MAX_def)
        then show ?thesis
          using e3 upd [of "sz * 2"] upd [of "sz div 2"] sz(2,3) lt
          by (auto simp: INT_MAX_def MIN_READ_BUFFER_def intro!: handled_okI closes_ok_other)
      qed
    qed
  qed
qed

lemma forward_udp_handled:
  assumes s: "sinv ow i ss" and l: "live (ss_slot ss i)" and o: "\<forall>b. ss_brk ss \<le> b \<longrightarrow> ow b = None"
  shows "handled_ok ow i ss (forward_message_udp K i r ss)"
proof -
  let ?s = "ss_slot ss i" let ?ss1 = "sys_log (Sys_recvfrom (sk_fd ?s)) ss"
  have e1: "evolve ow i ss ?ss1" using evolve_log [OF s l] by simp
  have s1: "sinv ow i ?ss1" "live (ss_slot ?ss1 i)" using sinv_evolve [OF e1] l by simp_all
  show ?thesis
  proof (cases "k_recvfrom K (ss_trace ss) (sk_fd ?s)")
    case (Inl err)
    note fc = force_close_handled(2) [OF s1, of "Some SOCKET_ERR" K, simplified]
    show ?thesis using Inl e1 handled_trans [OF e1 fc]
      by (auto simp: forward_message_udp_def Let_def intro!: handled_okI closes_ok_other)
  next
    case (Inr x)
    obtain bytes sa where x: "x = (bytes, sa)" by force
    let ?ss2 = "stat_read i (int (length bytes)) ?ss1"
    have e2: "evolve ow i ss ?ss2" using stat_read_evolve [OF s1] evolve_trans [OF e1] by blast
    have l2: "live (ss_slot ?ss2 i)" using l by (simp add: stat_read_def live_def)
    let ?p = "if is_v4 sa then PROTOCOL_UDP else PROTOCOL_UDPv6"
    obtain ad where ad: "gen_udp_address ?p sa = Some ad"
      by (cases sa) (auto simp: protocol_defs)
    have e3: "evolve ow i ss (snd (MALLOC (bytes @ ad) ?ss2))"
      using malloc_evolve [OF sinv_evolve [OF e2] l2] o evolve_trans [OF e2] by (simp add: stat_read_def)
    show ?thesis
      using Inr x ad e2 e3
      by (auto simp: forward_message_udp_def Let_def MALLOC_def intro!: handled_okI closes_ok_other)
  qed
qed

lemma report_connect_handled:
  assumes s: "sinv ow i ss" and ty: "sk_type (ss_slot ss i) = SOCKET_TYPE_CONNECTING"
  shows "handled_ok ow i ss (report_connect K i r ss)"
proof -
  let ?s = "ss_slot ss i" let ?ss1 = "sys_log (Sys_getsockopt (sk_fd ?s)) ss"
  have l: "live ?s" using ty by (simp add: live_def)
  have e1: "evolve ow i ss ?ss1" using evolve_log [OF s l] by simp
  have s1: "sinv ow i ?ss1" "live (ss_slot ?ss1 i)" using sinv_evolve [OF e1] l by simp_all
  define err where "err = (case k_getsockopt K (ss_trace ss) (sk_fd ?s) of Inl e \<Rightarrow> Some e | Inr e \<Rightarrow> e)"
  show ?thesis
  proof (cases err)
    case (Some e)
    note fc = force_close_handled(2) [OF s1, of "Some SOCKET_ERR" K, simplified]
    show ?thesis using Some handled_trans [OF e1 fc] by (simp add: report_connect_def Let_def err_def)
  next
    case None
    define ss2 where "ss2 = set_type i SOCKET_TYPE_CONNECTED ?ss1"
    have s2: "ss_slot ss2 i = ?s\<lparr>sk_type := SOCKET_TYPE_CONNECTED\<rparr>" by (simp add: ss2_def set_type_def)
    have w2: "same_world i ?ss1 ss2" by (simp add: ss2_def set_type_def same_world_upd)
    have e2: "evolve ow i ss ss2"
      using evolve_trans [OF e1 evolve_same [OF s1(1) w2]] s2 ty by (simp add: same_bufs_def live_def)
    have l2: "live (ss_slot ss2 i)" using s2 by (simp add: live_def)
    obtain failed ss3 where en: "(if nomore_sending_data (ss_slot ss2 i) then enable_write K i False ss2 else (False, ss2)) = (failed, ss3)"
      by force
    have e3: "evolve ow i ss ss3" "live (ss_slot ss3 i)"
      using enable_write_evolve [OF sinv_evolve [OF e2] l2, of K False failed ss3] en e2 l2 evolve_trans [OF e2]
      by (auto split: if_splits)
    note fc = force_close_handled(2) [OF sinv_evolve [OF e3(1)] e3(2), of "Some SOCKET_ERR" K, simplified]
    have buf: "evolve ow i ss (ss3\<lparr>ss_buffer := nm\<rparr>)" for nm
    proof -
      have "evolve ow i ss3 (ss3\<lparr>ss_buffer := nm\<rparr>)"
        using sinv_evolve [OF e3(1)] e3(2) by (intro evolve_same) (auto simp: same_bufs_def same_world_def)
      then show ?thesis using evolve_trans [OF e3(1)] by blast
    qed
    have "report_connect K i r ss =
      (if failed then force_close K i ss3 \<bind> (\<lambda>(r, ss). Some (Some SOCKET_ERR, r\<lparr>rs_data := Data_text ''disable write failed''\<rparr>, ss))
       else case k_getpeername K (ss_trace ss3) (sk_fd ?s) of
               None \<Rightarrow> Some (Some SOCKET_OPEN, report_to (ss_slot ss2 i) Data_null, ss3)
             | Some u \<Rightarrow> (case k_inet_ntop K u of
                    None \<Rightarrow> Some (Some SOCKET_OPEN, report_to (ss_slot ss2 i) Data_null, ss3)
                  | Some name \<Rightarrow> Some (Some SOCKET_OPEN, (report_to (ss_slot ss2 i) Data_null)\<lparr>rs_data := Data_text name\<rparr>,
                      ss3\<lparr>ss_buffer := name\<rparr>)))"
      using None en unfolding report_connect_def Let_def err_def ss2_def by simp
    then show ?thesis
      using e3(1) buf handled_trans [OF e3(1) fc]
      by (auto split: option.splits intro!: handled_okI closes_ok_other)
  qed
qed

lemma error_event_handled:
  assumes s: "sinv ow i ss" and l: "live (ss_slot ss i)"
  shows "handled_ok ow i ss (error_event K i r ss)"
  using evolve_log [OF s l]
  by (auto simp: error_event_def report_error_def Let_def intro!: handled_okI closes_ok_other)

lemma eof_event_handled:
  assumes s: "sinv ow i ss" and l: "live (ss_slot ss i)"
  shows "handled_ok ow i ss (eof_event K i r ss)"
  using force_close_handled(1) [OF s l, of "if halfclose_read (ss_slot ss i) then None else Some SOCKET_CLOSE" K]
  by (simp add: eof_event_def halfclose_read_def split: if_splits)

lemma send_buffer_handled:
  assumes "kernel_ok K" "sinv ow i ss" "live (ss_slot ss i)"
  shows "handled_ok ow i ss (send_buffer K i r ss)"
  using send_buffer_ok [OF assms, of r] by (auto intro: handled_okI closes_ok_other)

end
