(* ===== verification/Socket_Ids.thy ===== *)
theory Socket_Ids
  imports Socket_Handlers
begin

text \<open>
  The ids of sockets: \<open>reserve_id\<close> walks over the whole table, also over the end of the counter, and
  takes the first free slot. Ids that are handed out within one run of the counter are new.
\<close>

definition id_at :: "socket_server \<Rightarrow> int \<Rightarrow> int" where
  "id_at ss k = (ss_alloc_id ss + k) mod 2147483648"

definition slot_free :: "socket_server \<Rightarrow> int \<Rightarrow> bool" where
  "slot_free ss sid \<longleftrightarrow> sk_type (ss_slot ss (HASH_ID sid)) = SOCKET_TYPE_INVALID"

definition id_range :: "socket_server \<Rightarrow> bool" where
  "id_range ss \<longleftrightarrow> 0 \<le> ss_alloc_id ss \<and> ss_alloc_id ss \<le> INT_MAX"

text \<open>What \<open>reserve_id\<close> leaves after the \<open>k\<close>-th id.\<close>

definition reserved :: "socket_server \<Rightarrow> int \<Rightarrow> socket_server" where
  "reserved ss k = upd_slot (HASH_ID (id_at ss k)) (reserve_slot (id_at ss k)) (ss\<lparr>ss_alloc_id := id_at ss k\<rparr>)"

lemma next_id_at: "id_range ss \<Longrightarrow> next_id ss = (id_at ss 1, ss\<lparr>ss_alloc_id := id_at ss 1\<rparr>)"
proof (cases "ss_alloc_id ss = INT_MAX")
  case True
  then show ?thesis by (simp add: next_id_def id_at_def INT_MAX_def to_int32_def)
next
  case False
  assume "id_range ss"
  then have "0 \<le> ss_alloc_id ss" "ss_alloc_id ss < 2147483647" using False by (simp_all add: id_range_def INT_MAX_def)
  then show ?thesis by (simp add: next_id_def Let_def id_at_def to_int32_def add.commute)
qed

lemma id_at_step: "id_at (ss\<lparr>ss_alloc_id := id_at ss 1\<rparr>) k = id_at ss (k + 1)"
  using mod_add_left_eq [of "ss_alloc_id ss + 1" 2147483648 k] by (simp add: id_at_def ac_simps)

lemma id_range_at: "id_range (ss\<lparr>ss_alloc_id := id_at ss k\<rparr>)" "0 \<le> id_at ss k" "id_at ss k \<le> INT_MAX"
  by (simp_all add: id_range_def id_at_def INT_MAX_def)

declare reserve_from.simps [simp del]

lemma reserve_from_at:
  assumes "id_range ss" "n \<le> 65536"
  shows "(\<exists>k. 1 \<le> k \<and> k \<le> int n \<and> slot_free ss (id_at ss k) \<and> (\<forall>j. 1 \<le> j \<and> j < k \<longrightarrow> \<not> slot_free ss (id_at ss j)) \<and>
        reserve_from (65536 - int n) ss = (id_at ss k, reserved ss k)) \<or>
     ((\<forall>k. 1 \<le> k \<and> k \<le> int n \<longrightarrow> \<not> slot_free ss (id_at ss k)) \<and>
        reserve_from (65536 - int n) ss = (-1, if n = 0 then ss else ss\<lparr>ss_alloc_id := id_at ss (int n)\<rparr>))"
  using assms
proof (induction n arbitrary: ss)
  case 0
  then show ?case by (intro disjI2) (auto simp: reserve_from.simps MAX_SOCKET_def)
next
  case (Suc n)
  let ?ss = "ss\<lparr>ss_alloc_id := id_at ss 1\<rparr>"
  have step: "reserve_from (65536 - int (Suc n)) ss =
      (if slot_free ss (id_at ss 1) then (id_at ss 1, reserved ss 1) else reserve_from (65536 - int n) ?ss)"
    using next_id_at [OF Suc.prems(1)]
    by (subst reserve_from.simps) (simp add: MAX_SOCKET_def slot_free_def reserved_def)
  show ?case
  proof (cases "slot_free ss (id_at ss 1)")
    case True
    then show ?thesis using step by (intro disjI1 exI [of _ 1]) auto
  next
    case False
    have free: "slot_free ?ss x = slot_free ss x" for x by (simp add: slot_free_def)
    have res: "reserved ?ss k = reserved ss (k + 1)" for k by (simp add: reserved_def id_at_step)
    from Suc.IH [OF id_range_at(1), of ss 1] Suc.prems(2) consider
      (found) k where "1 \<le> k" "k \<le> int n" "slot_free ss (id_at ss (k + 1))"
        "\<forall>j. 1 \<le> j \<and> j < k \<longrightarrow> \<not> slot_free ss (id_at ss (j + 1))"
        "reserve_from (65536 - int n) ?ss = (id_at ss (k + 1), reserved ss (k + 1))"
    | (none) "\<forall>k. 1 \<le> k \<and> k \<le> int n \<longrightarrow> \<not> slot_free ss (id_at ss (k + 1))"
        "reserve_from (65536 - int n) ?ss = (-1, if n = 0 then ?ss else ?ss\<lparr>ss_alloc_id := id_at ss (int n + 1)\<rparr>)"
      by (auto simp: free res id_at_step)
    then show ?thesis
    proof cases
      case found
      have "\<not> slot_free ss (id_at ss j)" if "1 \<le> j" "j < k + 1" for j
        using found(4) [rule_format, of "j - 1"] False that by (cases "j = 1") auto
      then show ?thesis using found step False by (intro disjI1 exI [of _ "k + 1"]) auto
    next
      case none
      have "\<not> slot_free ss (id_at ss k)" if "1 \<le> k" "k \<le> int (Suc n)" for k
        using none(1) [rule_format, of "k - 1"] False that by (cases "k = 1") auto
      then show ?thesis using none(2) step False by (intro disjI2) (auto simp: add.commute)
    qed
  qed
qed

lemma HASH_ID_at: "HASH_ID (id_at ss k) = nat ((ss_alloc_id ss + k) mod 65536)"
  using mod_mod_cancel [of 65536 2147483648 "ss_alloc_id ss + k"] by (simp add: HASH_ID_def MAX_SOCKET_def id_at_def)

lemma HASH_ID_less: "HASH_ID x < nat MAX_SOCKET"
  by (simp add: HASH_ID_def MAX_SOCKET_def nat_less_iff)

lemma slot_reached:
  assumes "i < nat MAX_SOCKET"
  shows "\<exists>k. 1 \<le> k \<and> k \<le> 65536 \<and> HASH_ID (id_at ss k) = i"
proof -
  let ?k = "(int i - ss_alloc_id ss - 1) mod 65536 + 1"
  have "(ss_alloc_id ss + ?k) mod 65536 = (ss_alloc_id ss + 1 + (int i - ss_alloc_id ss - 1)) mod 65536"
    using mod_add_right_eq [of "ss_alloc_id ss + 1" "int i - ss_alloc_id ss - 1" 65536] by (simp add: algebra_simps)
  also have "\<dots> = int i" using assms by (simp add: MAX_SOCKET_def)
  finally show ?thesis by (intro exI [of _ ?k]) (simp add: HASH_ID_at)
qed

lemma reserve_id_cases:
  assumes "id_range ss"
  obtains (found) k where "1 \<le> k" "k \<le> 65536" "slot_free ss (id_at ss k)"
      "\<And>j. 1 \<le> j \<Longrightarrow> j < k \<Longrightarrow> \<not> slot_free ss (id_at ss j)" "reserve_id ss = (id_at ss k, reserved ss k)"
  | (full) "\<And>i. i < nat MAX_SOCKET \<Longrightarrow> sk_type (ss_slot ss i) \<noteq> SOCKET_TYPE_INVALID"
      "reserve_id ss = (-1, ss\<lparr>ss_alloc_id := id_at ss 65536\<rparr>)"
proof -
  have r: "reserve_from (65536 - int 65536) = reserve_id" by (simp add: reserve_id_def)
  from reserve_from_at [OF assms order_refl, unfolded r] show ?thesis
  proof (elim disjE exE conjE)
    fix k
    assume "1 \<le> k" "k \<le> int 65536" "slot_free ss (id_at ss k)"
      "\<forall>j. 1 \<le> j \<and> j < k \<longrightarrow> \<not> slot_free ss (id_at ss j)" "reserve_id ss = (id_at ss k, reserved ss k)"
    then show ?thesis by (intro found) auto
  next
    assume a: "\<forall>k. 1 \<le> k \<and> k \<le> int 65536 \<longrightarrow> \<not> slot_free ss (id_at ss k)"
      "reserve_id ss = (-1, if 65536 = (0 :: nat) then ss else ss\<lparr>ss_alloc_id := id_at ss (int 65536)\<rparr>)"
    have "sk_type (ss_slot ss i) \<noteq> SOCKET_TYPE_INVALID" if "i < nat MAX_SOCKET" for i
      using slot_reached [OF that, of ss] a(1) by (auto simp: slot_free_def)
    then show ?thesis using a(2) by (intro full) auto
  qed
qed

end
