(* ===== verification/Socket_Global.thy ===== *)
theory Socket_Global
  imports Socket_Ids
begin

text \<open>
  The invariant of the whole socket server: its slots, the ids, the requests in the pipe and the
  events of the current batch; and what a step does to the byte streams.
\<close>

section \<open>Requests in the pipe\<close>

text \<open>The request to send that a message carries, with its block of memory, and the socket it is for.\<close>

definition pk_send :: "request_package \<Rightarrow> request_send option" where
  "pk_send p = (case pk_body p of
     U_send r \<Rightarrow> if pk_type p = CHR ''W'' then None else Some r
   | U_send_udp r a \<Rightarrow> Some r
   | _ \<Rightarrow> None)"

definition pk_id :: "request_package \<Rightarrow> int option" where
  "pk_id p = (case pk_body p of
     U_open r \<Rightarrow> Some (ro_id r) | U_send r \<Rightarrow> Some (rq_id r) | U_send_udp r a \<Rightarrow> Some (rq_id r)
   | U_close r \<Rightarrow> Some (rc_id r) | U_listen r \<Rightarrow> Some (rl_id r) | U_bind r \<Rightarrow> Some (rb_id r)
   | U_resumepause r \<Rightarrow> Some (rp_id r) | U_setopt r \<Rightarrow> Some (rt_id r) | U_udp r \<Rightarrow> Some (ru_id r)
   | U_set_udp sid a \<Rightarrow> Some sid | U_none \<Rightarrow> None)"

text \<open>The type of a message fits its body.\<close>

definition pk_wf :: "request_package \<Rightarrow> bool" where
  "pk_wf p \<longleftrightarrow> (case pk_body p of
     U_open r \<Rightarrow> pk_type p = CHR ''O'' | U_send r \<Rightarrow> pk_type p \<in> {CHR ''W'', CHR ''D'', CHR ''P''}
   | U_send_udp r a \<Rightarrow> pk_type p = CHR ''A'' | U_close r \<Rightarrow> pk_type p = CHR ''K''
   | U_listen r \<Rightarrow> pk_type p = CHR ''L'' | U_bind r \<Rightarrow> pk_type p = CHR ''B''
   | U_resumepause r \<Rightarrow> pk_type p \<in> {CHR ''R'', CHR ''S''} | U_setopt r \<Rightarrow> pk_type p = CHR ''T''
   | U_udp r \<Rightarrow> pk_type p = CHR ''U''
   | U_set_udp sid a \<Rightarrow> pk_type p = CHR ''C'' \<and> a \<noteq> [] \<and> a ! 0 \<noteq> PROTOCOL_TCP
   | U_none \<Rightarrow> pk_type p = CHR ''X'')"

text \<open>The messages that open a reserved slot.\<close>

definition opens :: "request_package \<Rightarrow> bool" where
  "opens p \<longleftrightarrow> (case pk_body p of U_open r \<Rightarrow> True | U_listen r \<Rightarrow> True | U_bind r \<Rightarrow> True | U_udp r \<Rightarrow> True | _ \<Rightarrow> False)"

definition req_blk :: "request_send \<Rightarrow> addr" where
  "req_blk r = fst (the (rq_buffer r))"

definition pipe_blks :: "request_package list \<Rightarrow> addr list" where
  "pipe_blks ps = map req_blk (List.map_filter pk_send ps)"

definition for_id :: "int \<Rightarrow> request_package list \<Rightarrow> request_package list" where
  "for_id sid ps = filter (\<lambda>p. map_option rq_id (pk_send p) = Some sid) ps"

definition pcount :: "int \<Rightarrow> request_package list \<Rightarrow> int" where
  "pcount sid ps = int (length (filter (\<lambda>p. pk_type p \<noteq> CHR ''A'') (for_id sid ps)))"

text \<open>Every reserved id has one message that opens it, and no message for it comes earlier.\<close>

fun opening_ok :: "int set \<Rightarrow> request_package list \<Rightarrow> bool" where
  "opening_ok R [] \<longleftrightarrow> R = {}"
| "opening_ok R (p # ps) \<longleftrightarrow>
     (if opens p then (\<exists>x \<in> R. pk_id p = Some x \<and> opening_ok (R - {x}) ps)
      else pk_id p \<notin> Some ` R \<and> opening_ok R ps)"

definition reserved_ids :: "socket_server \<Rightarrow> int set" where
  "reserved_ids ss = {sk_id (ss_slot ss i) |i. sk_type (ss_slot ss i) = SOCKET_TYPE_RESERVE}"

section \<open>The invariant\<close>

definition ids_ok :: "socket_server \<Rightarrow> bool" where
  "ids_ok ss \<longleftrightarrow> id_range ss \<and>
     (\<forall>i. sk_type (ss_slot ss i) \<noteq> SOCKET_TYPE_INVALID \<longrightarrow>
        HASH_ID (sk_id (ss_slot ss i)) = i \<and> sk_id (ss_slot ss i) \<le> ss_alloc_id ss) \<and>
     (\<forall>i. sk_type (ss_slot ss i) = SOCKET_TYPE_RESERVE \<longrightarrow> sk_protocol (ss_slot ss i) = PROTOCOL_UNKNOWN) \<and>
     (\<forall>p \<in> set (ss_pipe ss). \<forall>x. pk_id p = Some x \<longrightarrow> x \<le> ss_alloc_id ss)"

definition pipe_ok :: "(addr \<Rightarrow> nat option) \<Rightarrow> socket_server \<Rightarrow> bool" where
  "pipe_ok ow ss \<longleftrightarrow>
     (\<forall>p \<in> set (ss_pipe ss). pk_wf p) \<and>
     (\<forall>p \<in> set (ss_pipe ss). \<forall>r. pk_send p = Some r \<longrightarrow> req_ok (ss_mem ss) r (req_blk r) \<and> ow (req_blk r) = None) \<and>
     distinct (pipe_blks (ss_pipe ss)) \<and> opening_ok (reserved_ids ss) (ss_pipe ss)"

text \<open>
  The low half of \<open>sending\<close> is the number of requests to send in the pipe, the high half belongs to
  the id.
\<close>

definition count_ok :: "int \<Rightarrow> socket \<Rightarrow> int \<Rightarrow> bool" where
  "count_ok sid s c \<longleftrightarrow> sk_id s = sid \<longrightarrow>
     (sk_type s = SOCKET_TYPE_RESERVE \<longrightarrow> c = 0) \<and>
     (sk_protocol s = PROTOCOL_TCP \<longrightarrow> live s \<or> c \<noteq> 0 \<longrightarrow> c < 65536 \<and> sk_sending s = ID_TAG16 sid * 65536 + c)"

definition counts_ok :: "socket_server \<Rightarrow> bool" where
  "counts_ok ss \<longleftrightarrow> (\<forall>sid. count_ok sid (ss_slot ss (HASH_ID sid)) (pcount sid (ss_pipe ss)))"

text \<open>The events that are still to be taken.\<close>

definition event_slots :: "socket_server \<Rightarrow> nat set" where
  "event_slots ss = {i. Some i \<in> ev_s ` set (drop (ss_event_index ss) (take (ss_event_n ss) (ss_ev ss)))}"

definition events_ok :: "socket_server \<Rightarrow> bool" where
  "events_ok ss \<longleftrightarrow> ss_event_index ss \<le> ss_event_n ss \<and> ss_event_n ss \<le> length (ss_ev ss) \<and>
     (\<forall>i \<in> event_slots ss. sk_type (ss_slot ss i) \<noteq> SOCKET_TYPE_RESERVE)"

definition server_inv :: "(addr \<Rightarrow> nat option) \<Rightarrow> socket_server \<Rightarrow> bool" where
  "server_inv ow ss \<longleftrightarrow> (\<forall>i. sinv ow i ss) \<and> (\<forall>b. ss_brk ss \<le> b \<longrightarrow> ow b = None) \<and>
     ids_ok ss \<and> pipe_ok ow ss \<and> counts_ok ss \<and> events_ok ss"

lemma server_invD:
  assumes "server_inv ow ss"
  shows "sinv ow i ss" and "ss_brk ss \<le> b \<Longrightarrow> ow b = None" and "ids_ok ss" and "pipe_ok ow ss"
    and "counts_ok ss" and "events_ok ss" and "ss_brk ss \<le> b \<Longrightarrow> ss_mem ss b = None"
  using assms by (auto simp: server_inv_def sinv_def)

section \<open>What a step does to the streams\<close>

text \<open>
  The bytes of the stream of a socket that only gets data of high priority: those written, those
  waiting in its slot, and those in the pipe.
\<close>

definition stream_rel :: "int \<Rightarrow> socket_server \<Rightarrow> u8 list \<Rightarrow> bool" where
  "stream_rel sid ss bs \<longleftrightarrow>
     live (ss_slot ss (HASH_ID sid)) \<and> sk_id (ss_slot ss (HASH_ID sid)) = sid \<and>
     sk_protocol (ss_slot ss (HASH_ID sid)) = PROTOCOL_TCP \<and>
     (\<forall>p \<in> set (for_id sid (ss_pipe ss)). pk_type p = CHR ''D'') \<and>
     (\<exists>q. pending (ss_mem ss) (ss_slot ss (HASH_ID sid)) q \<and>
        bs = wire sid (ss_trace ss) @ q @ concat (map (req_data (ss_mem ss)) (List.map_filter pk_send (for_id sid (ss_pipe ss)))))"

text \<open>An id under which nothing is reported as closed any more.\<close>

definition id_closed :: "int \<Rightarrow> socket_server \<Rightarrow> bool" where
  "id_closed sid ss \<longleftrightarrow> sid \<le> ss_alloc_id ss \<and>
     (sk_id (ss_slot ss (HASH_ID sid)) = sid \<longrightarrow>
        sk_type (ss_slot ss (HASH_ID sid)) \<in> {SOCKET_TYPE_INVALID, SOCKET_TYPE_HALFCLOSE_READ})"

text \<open>
  \<open>moves add\<close>: the streams of the sockets that take data and stay open get the bytes of \<open>add\<close>
  (\<open>None\<close>: nothing is said), and a closed id stays closed.
\<close>

definition moves :: "(int \<Rightarrow> u8 list option) \<Rightarrow> socket_server \<Rightarrow> socket_server \<Rightarrow> bool" where
  "moves add ss ss' \<longleftrightarrow>
     (\<forall>sid bs d. stream_rel sid ss bs \<longrightarrow> accepts (ss_slot ss (HASH_ID sid)) sid \<longrightarrow>
        live (ss_slot ss' (HASH_ID sid)) \<longrightarrow> sk_id (ss_slot ss' (HASH_ID sid)) = sid \<longrightarrow>
        add sid = Some d \<longrightarrow> stream_rel sid ss' (bs @ d)) \<and>
     (\<forall>sid. id_closed sid ss \<longrightarrow> id_closed sid ss')"

definition still :: "int \<Rightarrow> u8 list option" where
  "still sid = Some []"

section \<open>Facts on the pipe\<close>

lemma for_id_simps [simp]:
  "for_id sid [] = []"
  "for_id sid (p # ps) = (if map_option rq_id (pk_send p) = Some sid then [p] else []) @ for_id sid ps"
  "for_id sid (ps @ qs) = for_id sid ps @ for_id sid qs"
  by (simp_all add: for_id_def)

lemma pcount_simps [simp]:
  "pcount sid [] = 0"
  "pcount sid (p # ps) = (if map_option rq_id (pk_send p) = Some sid \<and> pk_type p \<noteq> CHR ''A'' then 1 else 0) + pcount sid ps"
  "pcount sid (ps @ qs) = pcount sid ps + pcount sid qs"
  "0 \<le> pcount sid ps"
  by (simp_all add: pcount_def)

lemma map_filter_append [simp]: "List.map_filter f (xs @ ys) = List.map_filter f xs @ List.map_filter f ys"
  by (simp add: List.map_filter_def)

lemma pipe_blks_simps [simp]:
  "pipe_blks [] = []"
  "pipe_blks (p # ps) = (case pk_send p of None \<Rightarrow> pipe_blks ps | Some r \<Rightarrow> req_blk r # pipe_blks ps)"
  "pipe_blks (ps @ qs) = pipe_blks ps @ pipe_blks qs"
  by (simp_all add: pipe_blks_def split: option.splits)

lemma pipe_blks_set: "b \<in> set (pipe_blks ps) \<longleftrightarrow> (\<exists>p \<in> set ps. \<exists>r. pk_send p = Some r \<and> b = req_blk r)"
  by (induction ps) (auto split: option.splits)

lemma for_id_set: "p \<in> set (for_id sid ps) \<longleftrightarrow> p \<in> set ps \<and> (\<exists>r. pk_send p = Some r \<and> rq_id r = sid)"
  by (auto simp: for_id_def)

lemma pcount_zero: "pcount sid ps = 0 \<longleftrightarrow> (\<forall>p \<in> set (for_id sid ps). pk_type p = CHR ''A'')"
  by (simp add: pcount_def filter_empty_conv)

lemma opens_send: "opens p \<Longrightarrow> pk_send p = None"
  by (simp add: opens_def pk_send_def split: request_body.splits)

lemma pk_send_id: "pk_send p = Some r \<Longrightarrow> pk_id p = Some (rq_id r)"
  by (auto simp: pk_send_def pk_id_def split: request_body.splits if_splits)

lemma opening_ok_append: "opening_ok R ps \<Longrightarrow> \<not> opens p \<Longrightarrow> opening_ok R (ps @ [p])"
  by (induction ps arbitrary: R) (auto split: if_splits)

lemma opening_ok_new:
  assumes "opening_ok R ps" "opens p" "pk_id p = Some x" "\<forall>q \<in> set ps. pk_id q \<noteq> Some x" "x \<notin> R"
  shows "opening_ok (insert x R) (ps @ [p])"
  using assms
proof (induction ps arbitrary: R)
  case (Cons q ps)
  show ?case
  proof (cases "opens q")
    case True
    then obtain y where y: "y \<in> R" "pk_id q = Some y" "opening_ok (R - {y}) ps" using Cons.prems(1) by auto
    have "opening_ok (insert x (R - {y})) (ps @ [p])" using Cons.IH [OF y(3)] Cons.prems by auto
    moreover have "insert x (R - {y}) = insert x R - {y}" using Cons.prems(4) y(2) by auto
    ultimately show ?thesis using True y by auto
  next
    case False
    then show ?thesis using Cons by auto
  qed
qed auto

lemma opening_ok_head:
  assumes "opening_ok R (p # ps)"
  shows "opens p \<Longrightarrow> \<exists>x \<in> R. pk_id p = Some x \<and> opening_ok (R - {x}) ps"
    and "\<not> opens p \<Longrightarrow> opening_ok R ps \<and> (\<forall>x. pk_id p = Some x \<longrightarrow> x \<notin> R)"
  using assms by (auto split: if_splits)

lemma reserved_idsD:
  assumes "ids_ok ss"
  shows "x \<in> reserved_ids ss \<longleftrightarrow> sk_type (ss_slot ss (HASH_ID x)) = SOCKET_TYPE_RESERVE \<and> sk_id (ss_slot ss (HASH_ID x)) = x"
proof -
  have "HASH_ID (sk_id (ss_slot ss i)) = i" if "sk_type (ss_slot ss i) = SOCKET_TYPE_RESERVE" for i
    using assms that unfolding ids_ok_def by (metis socket_type.distinct(1))
  then show ?thesis unfolding reserved_ids_def by (auto simp del: HASH_ID_def) metis
qed

section \<open>Steps on one slot\<close>

text \<open>Data that a step does not reach.\<close>

lemma pending_cong:
  assumes s: "sinv ow i ss" and l: "live (ss_slot ss i)" and m: "\<And>b. ow b = Some i \<Longrightarrow> m' b = ss_mem ss b"
    and p: "pending (ss_mem ss) (ss_slot ss i) q"
  shows "pending m' (ss_slot ss i) q"
proof -
  let ?s = "ss_slot ss i"
  obtain hs ls where b: "bufs_ok (ss_mem ss) (ss_brk ss) ow i ?s hs ls" using sinvE [OF s l] by blast
  obtain hs' where q: "sk_low ?s = clear_wb_list" "wl_ok (sk_wbs ?s) (sk_high ?s) hs'"
    "q = dw_data (ss_mem ss) ?s @ wbs_data (ss_mem ss) hs'" using p unfolding pending_def by blast
  have hs: "hs' = hs" using b q(2) wl_ok_unique unfolding bufs_ok_def links_ok_def by blast
  have own: "owns_ok (ss_mem ss) ow i ?s (hs @ ls)" using b by (simp add: bufs_ok_def)
  have "wbs_data m' hs = wbs_data (ss_mem ss) hs"
  proof (intro wbs_data_cong conjI)
    fix a wb
    assume "(a, wb) \<in> set hs"
    then have x: "(a, wb) \<in> set (hs @ ls)" by simp
    then show "wb_good (ss_mem ss) wb" using own unfolding owns_ok_def by (metis snd_conv)
    show "m' (wb_blk wb) = ss_mem ss (wb_blk wb)" using own x m unfolding owns_ok_def by (metis snd_conv)
  qed
  moreover have "dw_data m' ?s = dw_data (ss_mem ss) ?s"
    using own m by (auto simp: owns_ok_def dw_data_def dw_blks_def split: option.splits)
  ultimately show ?thesis using q hs unfolding pending_def by metis
qed

lemma req_data_cong: "m' (req_blk r) = m (req_blk r) \<Longrightarrow> req_data m' r = req_data m r"
  by (simp add: req_data_def req_blk_def)

lemma req_datas_cong:
  assumes "\<And>b. b \<in> set (pipe_blks ps) \<Longrightarrow> m' b = m b"
  shows "map (req_data m') (List.map_filter pk_send (for_id sid ps)) = map (req_data m) (List.map_filter pk_send (for_id sid ps))"
proof (rule map_cong [OF refl])
  fix r
  assume "r \<in> set (List.map_filter pk_send (for_id sid ps))"
  then obtain p where "p \<in> set ps" "pk_send p = Some r"
    by (auto simp: List.map_filter_def for_id_set)
  then show "req_data m' r = req_data m r"
    using assms pipe_blks_set by (intro req_data_cong) blast
qed

lemma stream_rel_same:
  assumes s: "sinv ow (HASH_ID sid) ss" and r: "stream_rel sid ss bs"
    and sl: "ss_slot ss' (HASH_ID sid) = ss_slot ss (HASH_ID sid)" and w: "wire sid (ss_trace ss') = wire sid (ss_trace ss)"
    and f: "for_id sid (ss_pipe ss') = for_id sid (ss_pipe ss)"
    and m: "\<And>b. ow b = Some (HASH_ID sid) \<Longrightarrow> ss_mem ss' b = ss_mem ss b"
    and mp: "\<And>b. b \<in> set (pipe_blks (ss_pipe ss)) \<Longrightarrow> ss_mem ss' b = ss_mem ss b"
  shows "stream_rel sid ss' bs"
proof -
  have l: "live (ss_slot ss (HASH_ID sid))" using r by (simp add: stream_rel_def)
  note pc = pending_cong [where m' = "ss_mem ss'", OF s l m]
  have q: "map (req_data (ss_mem ss')) (List.map_filter pk_send (for_id sid (ss_pipe ss))) =
      map (req_data (ss_mem ss)) (List.map_filter pk_send (for_id sid (ss_pipe ss)))"
    using mp by (rule req_datas_cong)
  show ?thesis using r pc unfolding stream_rel_def sl w f q by blast
qed

text \<open>A step of one slot that keeps what others rely on.\<close>

lemma sinv_frame:
  assumes "server_inv ow ss" "frame ow i ss ss'" "sinv ow i ss'"
  shows "sinv ow j ss'"
proof (cases "j = i")
  case False
  have "slot_inv (ss_mem ss') (ss_brk ss') ow j (ss_slot ss j)"
  proof (rule slot_inv_mono [of "ss_mem ss" "ss_brk ss"])
    show "slot_inv (ss_mem ss) (ss_brk ss) ow j (ss_slot ss j)" using server_invD(1) [OF assms(1), of j] by (simp add: sinv_def)
    show "ss_brk ss \<le> ss_brk ss'" using assms(2) by (simp add: frame_def)
    fix b
    assume o: "ow b = Some j"
    then have "b < ss_brk ss" using server_invD(2) [OF assms(1), of b] by (metis not_le option.distinct(1))
    then show "ss_mem ss' b = ss_mem ss b" using assms(2) o False unfolding frame_def by simp
  qed
  then show ?thesis using assms(2,3) False by (simp add: sinv_def frame_def)
qed (use assms in simp)

lemma pipe_blks_mem:
  assumes "server_inv ow ss" "b \<in> set (pipe_blks (ss_pipe ss))"
  shows "ow b = None" "b < ss_brk ss"
proof -
  obtain p r where p: "p \<in> set (ss_pipe ss)" "pk_send p = Some r" "b = req_blk r" using assms(2) by (auto simp: pipe_blks_set)
  have r: "req_ok (ss_mem ss) r b" "ow b = None" using server_invD(4) [OF assms(1)] p unfolding pipe_ok_def by auto
  then show "ow b = None" by simp
  show "b < ss_brk ss" using r(1) server_invD(7) [OF assms(1), of b] by (force simp: req_ok_def not_le [symmetric])
qed

lemma keep_reserved_ids:
  assumes "frame ow i ss ss'" "keep (ss_slot ss i) (ss_slot ss' i)"
  shows "sk_type (ss_slot ss' j) = SOCKET_TYPE_RESERVE \<longleftrightarrow> sk_type (ss_slot ss j) = SOCKET_TYPE_RESERVE"
    and "sk_id (ss_slot ss' j) = sk_id (ss_slot ss j)" and "sk_protocol (ss_slot ss' j) = sk_protocol (ss_slot ss j)"
    and "sk_sending (ss_slot ss' j) = sk_sending (ss_slot ss j)" and "live (ss_slot ss' j) \<Longrightarrow> live (ss_slot ss j)"
  using assms unfolding frame_def keep_def by (metis)+

lemma inv_grow:
  assumes v: "server_inv ow ss" and g: "grow ow i ss ss'"
  shows "server_inv ow ss'"
proof -
  have f: "frame ow i ss ss'" and k: "keep (ss_slot ss i) (ss_slot ss' i)" and si: "sinv ow i ss'"
    using g by (simp_all add: grow_def)
  note kr = keep_reserved_ids [OF f k]
  have fs: "ss_pipe ss' = ss_pipe ss" "ss_alloc_id ss' = ss_alloc_id ss" "ss_ev ss' = ss_ev ss"
    "ss_event_n ss' = ss_event_n ss" "ss_event_index ss' = ss_event_index ss" "ss_brk ss \<le> ss_brk ss'"
    using f by (simp_all add: frame_def)
  have rs: "reserved_ids ss' = reserved_ids ss" by (simp add: reserved_ids_def kr)
  have inv: "sk_type (ss_slot ss' j) \<noteq> SOCKET_TYPE_INVALID \<Longrightarrow> sk_type (ss_slot ss j) \<noteq> SOCKET_TYPE_INVALID" for j
    using kr(1,5) [of j] unfolding live_def by auto
  have "ids_ok ss'" using server_invD(3) [OF v] inv unfolding ids_ok_def id_range_def fs kr by blast
  moreover have "pipe_ok ow ss'"
  proof -
    have "req_ok (ss_mem ss') r (req_blk r)" if "p \<in> set (ss_pipe ss)" "pk_send p = Some r" for p r
    proof -
      have b: "req_blk r \<in> set (pipe_blks (ss_pipe ss))" using that pipe_blks_set by blast
      note pb = pipe_blks_mem [OF v b]
      have "ss_mem ss' (req_blk r) = ss_mem ss (req_blk r)" using f pb unfolding frame_def by simp
      then show ?thesis using server_invD(4) [OF v] that unfolding pipe_ok_def req_ok_def by auto
    qed
    then show ?thesis using server_invD(4) [OF v] unfolding pipe_ok_def fs rs by blast
  qed
  moreover have "counts_ok ss'"
    using server_invD(5) [OF v] kr(5) unfolding counts_ok_def count_ok_def fs kr by blast
  moreover have "events_ok ss'"
    using server_invD(6) [OF v] unfolding events_ok_def event_slots_def fs kr by blast
  moreover have "\<forall>b. ss_brk ss' \<le> b \<longrightarrow> ow b = None" using server_invD(2) [OF v] fs(6) by auto
  ultimately show ?thesis using sinv_frame [OF v f si] unfolding server_inv_def by blast
qed

lemma keep_id_closed:
  assumes "frame ow i ss ss'" "keep (ss_slot ss i) (ss_slot ss' i)" "id_closed sid ss"
  shows "id_closed sid ss'"
proof (cases "HASH_ID sid = i")
  case True
  have "sk_type (ss_slot ss i) = SOCKET_TYPE_INVALID \<Longrightarrow> sk_type (ss_slot ss' i) = SOCKET_TYPE_INVALID"
    using assms(2) unfolding keep_def live_def by metis
  then show ?thesis using assms True unfolding id_closed_def keep_def frame_def by auto
qed (use assms in \<open>auto simp: id_closed_def frame_def\<close>)

text \<open>The streams of the other sockets do not change.\<close>

lemma stream_rel_frame:
  assumes v: "server_inv ow ss" and f: "frame ow i ss ss'" and r: "stream_rel sid ss bs" and i: "HASH_ID sid \<noteq> i"
    and l: "live (ss_slot ss i)"
  shows "stream_rel sid ss' bs"
proof (rule stream_rel_same [OF server_invD(1) [OF v] r])
  show "ss_slot ss' (HASH_ID sid) = ss_slot ss (HASH_ID sid)" using f i by (simp add: frame_def)
  show "for_id sid (ss_pipe ss') = for_id sid (ss_pipe ss)" using f by (simp add: frame_def)
  have "sid \<noteq> sk_id (ss_slot ss i)"
    using server_invD(3) [OF v] l i unfolding ids_ok_def live_def by metis
  then show "wire sid (ss_trace ss') = wire sid (ss_trace ss)" using f by (simp add: frame_def)
  show "ss_mem ss' b = ss_mem ss b" if o: "ow b = Some (HASH_ID sid)" for b
  proof -
    have "b < ss_brk ss" using o server_invD(2) [OF v, of b] by (metis not_le option.distinct(1))
    then show ?thesis using f o i unfolding frame_def by simp
  qed
  show "ss_mem ss' b = ss_mem ss b" if "b \<in> set (pipe_blks (ss_pipe ss))" for b
    using f pipe_blks_mem [OF v that] unfolding frame_def by simp
qed

text \<open>A step of one open slot that adds \<open>d\<close> to its stream, before the data in the pipe.\<close>

definition pipe_data :: "int \<Rightarrow> socket_server \<Rightarrow> u8 list" where
  "pipe_data sid ss = concat (map (req_data (ss_mem ss)) (List.map_filter pk_send (for_id sid (ss_pipe ss))))"

lemma stream_rel_insert:
  assumes v: "server_inv ow ss" and f: "frame ow i ss ss'" and k: "keep (ss_slot ss i) (ss_slot ss' i)"
    and st: "stream d i ss ss'" and i: "HASH_ID sid = i" and l: "live (ss_slot ss' i)"
    and s: "sk_id (ss_slot ss i) = sid" "sk_protocol (ss_slot ss i) = PROTOCOL_TCP"
    and a: "\<forall>p \<in> set (for_id sid (ss_pipe ss)). pk_type p = CHR ''D''" and q: "pending (ss_mem ss) (ss_slot ss i) q"
  shows "stream_rel sid ss' (wire sid (ss_trace ss) @ q @ d @ pipe_data sid ss)"
proof -
  let ?D = "\<lambda>m. concat (map (req_data m) (List.map_filter pk_send (for_id sid (ss_pipe ss))))"
  have fp: "ss_pipe ss' = ss_pipe ss" using f by (simp add: frame_def)
  obtain q' where q': "pending (ss_mem ss') (ss_slot ss' i) q'"
    "wire sid (ss_trace ss') @ q' = wire sid (ss_trace ss) @ q @ d"
    using st [unfolded stream_def, rule_format, OF l s(2) q] s(1) by blast
  have "?D (ss_mem ss') = ?D (ss_mem ss)"
  proof (rule arg_cong [where f = concat], rule req_datas_cong)
    fix b
    assume "b \<in> set (pipe_blks (ss_pipe ss))"
    from pipe_blks_mem [OF v this] show "ss_mem ss' b = ss_mem ss b" using f unfolding frame_def by simp
  qed
  then have "wire sid (ss_trace ss) @ q @ d @ pipe_data sid ss = wire sid (ss_trace ss') @ q' @ ?D (ss_mem ss')"
    using arg_cong [OF q'(2), of "\<lambda>x. x @ ?D (ss_mem ss)"] by (simp add: pipe_data_def)
  then show ?thesis using a s k q'(1) l unfolding stream_rel_def i fp keep_def by auto
qed

lemma stream_rel_slot:
  assumes v: "server_inv ow ss" and f: "frame ow i ss ss'" and k: "keep (ss_slot ss i) (ss_slot ss' i)"
    and st: "stream d i ss ss'" and r: "stream_rel sid ss bs" and i: "HASH_ID sid = i" and l: "live (ss_slot ss' i)"
    and d: "d = [] \<or> for_id sid (ss_pipe ss) = []"
  shows "stream_rel sid ss' (bs @ d)"
proof -
  obtain q where q: "pending (ss_mem ss) (ss_slot ss i) q" "bs = wire sid (ss_trace ss) @ q @ pipe_data sid ss"
    using r i unfolding stream_rel_def pipe_data_def by blast
  have s: "sk_id (ss_slot ss i) = sid" "sk_protocol (ss_slot ss i) = PROTOCOL_TCP"
    "\<forall>p \<in> set (for_id sid (ss_pipe ss)). pk_type p = CHR ''D''" using r i by (simp_all add: stream_rel_def)
  have "d @ pipe_data sid ss = pipe_data sid ss @ d" using d by (auto simp: pipe_data_def List.map_filter_def)
  then show ?thesis using stream_rel_insert [OF v f k st i l s q(1)] q(2) by simp
qed

lemma moves_evolve:
  assumes v: "server_inv ow ss" and e: "evolve ow i ss ss'" and l: "live (ss_slot ss i)"
  shows "moves still ss ss'"
proof -
  have f: "frame ow i ss ss'" "keep (ss_slot ss i) (ss_slot ss' i)" "stream [] i ss ss'" using e by (simp_all add: evolve_def)
  have "stream_rel sid ss' bs" if "stream_rel sid ss bs" "live (ss_slot ss' (HASH_ID sid))" for sid bs
    using stream_rel_slot [OF v f that(1)] stream_rel_frame [OF v f(1) that(1) _ l] that(2) by (cases "HASH_ID sid = i") auto
  then show ?thesis using keep_id_closed [OF f(1,2)] unfolding moves_def still_def by auto
qed

text \<open>Steps that leave slots, pipe and memory as they are.\<close>

definition calm :: "socket_server \<Rightarrow> socket_server \<Rightarrow> bool" where
  "calm ss ss' \<longleftrightarrow> ss_slot ss' = ss_slot ss \<and> ss_pipe ss' = ss_pipe ss \<and> ss_mem ss' = ss_mem ss \<and>
     ss_brk ss' = ss_brk ss \<and> ss_alloc_id ss' = ss_alloc_id ss \<and> (\<forall>x. wire x (ss_trace ss') = wire x (ss_trace ss))"

lemma calm_rel: "calm ss ss' \<Longrightarrow> stream_rel sid ss' bs = stream_rel sid ss bs \<and> id_closed sid ss' = id_closed sid ss"
  unfolding calm_def stream_rel_def id_closed_def by simp

lemma calm_inv: "calm ss ss' \<Longrightarrow> server_inv ow ss \<Longrightarrow> events_ok ss' \<Longrightarrow> server_inv ow ss'"
  unfolding calm_def server_inv_def sinv_def ids_ok_def id_range_def pipe_ok_def reserved_ids_def counts_ok_def by simp

lemma moves_calm: "calm ss ss' \<Longrightarrow> moves still ss ss'"
  using calm_rel [of ss ss'] by (simp add: moves_def still_def)

lemma calm_moves_left: "calm ss ss1 \<Longrightarrow> moves add ss1 ss' \<Longrightarrow> moves add ss ss'"
  using calm_rel [of ss ss1] unfolding moves_def by (simp add: calm_def)

lemma calm_moves_right: "moves add ss ss1 \<Longrightarrow> calm ss1 ss' \<Longrightarrow> moves add ss ss'"
  using calm_rel [of ss1 ss'] unfolding moves_def by (simp add: calm_def)

lemma calm_refl: "calm ss ss"
  by (simp add: calm_def)

lemma calm_trans: "calm ss ss1 \<Longrightarrow> calm ss1 ss2 \<Longrightarrow> calm ss ss2"
  by (simp add: calm_def)

lemma calm_log: "(\<And>x. written x e = []) \<Longrightarrow> calm ss (sys_log e ss)"
  by (simp add: calm_def)

lemma events_ok_same:
  "ss_ev ss' = ss_ev ss \<Longrightarrow> ss_event_n ss' = ss_event_n ss \<Longrightarrow> ss_event_index ss' = ss_event_index ss \<Longrightarrow>
    ss_slot ss' = ss_slot ss \<Longrightarrow> events_ok ss' = events_ok ss"
  by (simp add: events_ok_def event_slots_def)

end
