(* ===== verification/Socket_Opening.thy ===== *)
theory Socket_Opening
  imports Socket_Global
begin

text \<open>
  Reserving an id and opening its slot: the messages that open a slot find it reserved, and the
  slot is open with empty lists or free again afterwards.
\<close>

section \<open>Opening a reserved slot\<close>

text \<open>A slot without data.\<close>

definition ready :: "int \<Rightarrow> socket \<Rightarrow> bool" where
  "ready sid s \<longleftrightarrow> sk_dw_buffer s = None \<and> sk_wb_size s = 0 \<and> sk_sending s = ID_TAG16 sid * 65536 \<and>
     sk_protocol s \<in> {PROTOCOL_TCP, PROTOCOL_UDP, PROTOCOL_UDPv6} \<and>
     (case sk_p s of P_size n \<Rightarrow> sk_protocol s = PROTOCOL_TCP \<and> 0 < n \<and> n \<le> INT_MAX
      | P_address a \<Rightarrow> sk_protocol s \<noteq> PROTOCOL_TCP \<and> length a = UDP_ADDRESS_SIZE)"

lemma slot_inv_ready:
  assumes "closed_ok s" "live s \<longrightarrow> ready sid s"
  shows "slot_inv m brk ow i s"
proof (cases "live s")
  case True
  have "links_ok brk s [] []" using assms(1) by (simp add: links_ok_def closed_ok_def)
  moreover have "owns_ok m ow i s []" using assms(2) True
    by (simp add: owns_ok_def ready_def dw_good_def dw_blks_def)
  moreover have "conn_ok s [] []" using assms(2) True
    unfolding conn_ok_def ready_def wbs_size_def by simp
  ultimately show ?thesis using True unfolding slot_inv_def bufs_ok_def by fastforce
qed (use assms in \<open>simp add: slot_inv_def\<close>)

text \<open>What opening the slot \<open>i\<close> for the id \<open>sid\<close> leaves: a slot that is open or free.\<close>

definition opened :: "int \<Rightarrow> socket_server \<Rightarrow> socket_server \<Rightarrow> bool" where
  "opened sid ss ss' \<longleftrightarrow> same_world (HASH_ID sid) ss ss' \<and>
     sk_id (ss_slot ss' (HASH_ID sid)) = sid \<and> closed_ok (ss_slot ss' (HASH_ID sid)) \<and>
     sk_type (ss_slot ss' (HASH_ID sid)) \<noteq> SOCKET_TYPE_RESERVE \<and>
     (live (ss_slot ss' (HASH_ID sid)) \<longrightarrow> ready sid (ss_slot ss' (HASH_ID sid)))"

text \<open>A reserved slot after \<open>new_fd\<close>.\<close>

definition newly :: "int \<Rightarrow> u8 \<Rightarrow> socket_server \<Rightarrow> socket_server \<Rightarrow> bool" where
  "newly sid pro ss ss' \<longleftrightarrow> same_world (HASH_ID sid) ss ss' \<and>
     sk_id (ss_slot ss' (HASH_ID sid)) = sid \<and> closed_ok (ss_slot ss' (HASH_ID sid)) \<and>
     sk_dw_buffer (ss_slot ss' (HASH_ID sid)) = None \<and> sk_wb_size (ss_slot ss' (HASH_ID sid)) = 0 \<and>
     sk_sending (ss_slot ss' (HASH_ID sid)) = ID_TAG16 sid * 65536 \<and>
     sk_protocol (ss_slot ss' (HASH_ID sid)) = pro \<and> sk_p (ss_slot ss' (HASH_ID sid)) = P_size MIN_READ_BUFFER"

lemma new_fd_ok:
  assumes "sk_type (ss_slot ss (HASH_ID sid)) = SOCKET_TYPE_RESERVE" "sk_id (ss_slot ss (HASH_ID sid)) = sid"
    "closed_ok (ss_slot ss (HASH_ID sid))"
  shows "\<exists>ok ss'. new_fd K sid fd pro opaque reading ss = Some (ok, ss') \<and>
    (if ok then newly sid pro ss ss'
     else same_world (HASH_ID sid) ss ss' \<and> sk_id (ss_slot ss' (HASH_ID sid)) = sid \<and>
       closed_ok (ss_slot ss' (HASH_ID sid)) \<and> sk_type (ss_slot ss' (HASH_ID sid)) = SOCKET_TYPE_INVALID)"
proof -
  define i where "i = HASH_ID sid"
  note a = assms [folded i_def]
  let ?ss1 = "sys_log (Sys_epoll_add fd (Some i)) ss"
  let ?ss2 = "upd_slot i (fresh_slot sid fd pro opaque) ?ss1"
  obtain e ss3 where er: "enable_read K i reading ?ss2 = (e, ss3)" by force
  note sl = enable_read_slot [OF er]
  have w1: "same_world i ss ?ss1" by (rule same_world_log) simp
  have w2: "same_world i ss ?ss2" using same_world_trans [OF w1 same_world_upd] .
  have w3: "same_world i ss ss3" using same_world_trans [OF w2] sl by blast
  have s3: "ss_slot ss3 i = (fresh_slot sid fd pro opaque (ss_slot ss i))\<lparr>sk_reading := reading\<rparr>" using sl by simp
  have c3: "closed_ok (ss_slot ss3 i)" using a(3) unfolding s3 by (simp add: closed_ok_def fresh_slot_def)
  have ck: "check_wb_list (sk_high (ss_slot ss i)) = Some ()" "check_wb_list (sk_low (ss_slot ss i)) = Some ()"
    using a(3) by (simp_all add: closed_ok_def check_wb_list_def clear_wb_list_def)
  have inv: "same_world i ss (set_type i SOCKET_TYPE_INVALID ?ss1)" "same_world i ss (set_type i SOCKET_TYPE_INVALID ss3)"
    using same_world_trans [OF w1 same_world_upd] same_world_trans [OF w3 same_world_upd] by (simp_all add: set_type_def)
  have op: "newly sid pro ss ss3" using w3 c3 unfolding newly_def i_def [symmetric] s3 by (simp add: fresh_slot_def)
  show ?thesis
    unfolding i_def [symmetric]
    using a ck er inv c3 op w3
    by (cases "k_epoll_ctl K (ss_trace ss) fd"; cases e)
      (auto simp: new_fd_def i_def [symmetric] Let_def sp_add_def set_type_def closed_ok_def s3 fresh_slot_def)
qed

text \<open>The ways from there to an open or a free slot.\<close>

lemma newly_set_type:
  assumes "newly sid PROTOCOL_TCP ss ss1" "t \<noteq> SOCKET_TYPE_RESERVE"
  shows "opened sid ss (set_type (HASH_ID sid) t ss1)"
  using assms same_world_trans [OF _ same_world_upd]
  unfolding newly_def opened_def ready_def set_type_def closed_ok_def
  by (auto simp: MIN_READ_BUFFER_def INT_MAX_def)

lemma same_world_opened:
  assumes "opened sid ss ss1" "same_world (HASH_ID sid) ss1 ss'" "ss_slot ss' (HASH_ID sid) = ss_slot ss1 (HASH_ID sid)"
  shows "opened sid ss ss'"
  using assms same_world_trans unfolding opened_def by metis

lemma free_opened:
  assumes "same_world (HASH_ID sid) ss ss1" "sk_id (ss_slot ss1 (HASH_ID sid)) = sid" "closed_ok (ss_slot ss1 (HASH_ID sid))"
  shows "opened sid ss (set_type (HASH_ID sid) SOCKET_TYPE_INVALID ss1)"
  using assms same_world_trans [OF assms(1) same_world_upd] by (simp add: opened_def set_type_def closed_ok_def live_def)

definition opened_ok :: "int \<Rightarrow> socket_server \<Rightarrow> handled \<Rightarrow> bool" where
  "opened_ok sid ss h \<longleftrightarrow> (\<exists>t r ss'. h = Some (t, r, ss') \<and> opened sid ss ss' \<and> t \<noteq> Some SOCKET_CLOSE)"

lemma opened_okI: "h = Some (t, r, ss') \<Longrightarrow> opened sid ss ss' \<Longrightarrow> t \<noteq> Some SOCKET_CLOSE \<Longrightarrow> opened_ok sid ss h"
  unfolding opened_ok_def by blast

lemma opened_ok_calm:
  assumes "same_world (HASH_ID sid) ss ss1" "opened_ok sid ss1 h"
  shows "opened_ok sid ss h"
proof -
  obtain t r ss' where h: "h = Some (t, r, ss')" "opened sid ss1 ss'" "t \<noteq> Some SOCKET_CLOSE"
    using assms(2) unfolding opened_ok_def by blast
  have "opened sid ss ss'" using h(2) same_world_trans [OF assms(1)] unfolding opened_def by blast
  then show ?thesis using h opened_okI by blast
qed

definition reserved_slot :: "int \<Rightarrow> socket_server \<Rightarrow> bool" where
  "reserved_slot sid ss \<longleftrightarrow> sk_type (ss_slot ss (HASH_ID sid)) = SOCKET_TYPE_RESERVE \<and>
     sk_id (ss_slot ss (HASH_ID sid)) = sid \<and> closed_ok (ss_slot ss (HASH_ID sid))"

lemma new_fdE:
  assumes "reserved_slot sid ss"
  obtains (new) ss' where "new_fd K sid fd pro opaque reading ss = Some (True, ss')" "newly sid pro ss ss'"
  | (failed) ss' where "new_fd K sid fd pro opaque reading ss = Some (False, ss')"
      "same_world (HASH_ID sid) ss ss'" "sk_id (ss_slot ss' (HASH_ID sid)) = sid" "closed_ok (ss_slot ss' (HASH_ID sid))"
      "sk_type (ss_slot ss' (HASH_ID sid)) = SOCKET_TYPE_INVALID"
  using new_fd_ok [of ss sid K fd pro opaque reading] assms unfolding reserved_slot_def by (metis (full_types))

lemma newly_free:
  assumes "newly sid pro ss ss1"
  shows "opened sid ss (set_type (HASH_ID sid) SOCKET_TYPE_INVALID ss1)"
  using assms free_opened unfolding newly_def by blast

lemma sys_close_world: "same_world i ss (snd (sys_close K fd ss))" "ss_slot (snd (sys_close K fd ss)) = ss_slot ss"
  by (simp_all add: sys_close_def same_world_log)

lemma bind_socket_opened:
  assumes "reserved_slot (rb_id rq) ss"
  shows "opened_ok (rb_id rq) ss (bind_socket K rq ss)"
  using assms
proof (cases rule: new_fdE [where K = K and fd = "rb_fd rq" and pro = PROTOCOL_TCP and opaque = "rb_opaque rq" and reading = True])
  case (new ss')
  let ?ss = "sp_nonblocking (rb_fd rq) ss'"
  have "newly (rb_id rq) PROTOCOL_TCP ss ?ss"
    using new(2) same_world_trans [OF _ same_world_log] by (simp add: newly_def sp_nonblocking_def)
  from newly_set_type [OF this, of SOCKET_TYPE_BIND] show ?thesis
    using new(1) by (intro opened_okI) (auto simp: bind_socket_def Let_def)
next
  case (failed ss')
  then have "opened (rb_id rq) ss ss'" by (simp add: opened_def live_def)
  then show ?thesis using failed(1) by (intro opened_okI) (auto simp: bind_socket_def Let_def)
qed

lemma listen_socket_opened:
  assumes "reserved_slot (rl_id rq) ss"
  shows "opened_ok (rl_id rq) ss (listen_socket K rq ss)"
  using assms
proof (cases rule: new_fdE [where K = K and fd = "rl_fd rq" and pro = PROTOCOL_TCP and opaque = "rl_opaque rq" and reading = False])
  case (new ss')
  let ?ss = "set_type (HASH_ID (rl_id rq)) SOCKET_TYPE_PLISTEN ss'"
  have o: "opened (rl_id rq) ss ?ss" using newly_set_type [OF new(2)] by simp
  have "opened (rl_id rq) ss (?ss\<lparr>ss_buffer := nm\<rparr>)" for nm
    using o by (rule same_world_opened) (simp_all add: same_world_def)
  then show ?thesis using o new(1)
    by (auto simp: listen_socket_def Let_def split: option.splits intro!: opened_okI)
next
  case (failed ss')
  let ?ss = "snd (sys_close K (rl_fd rq) ss')"
  have "opened (rl_id rq) ss (set_type (HASH_ID (rl_id rq)) SOCKET_TYPE_INVALID ?ss)"
    using failed same_world_trans [OF failed(2) sys_close_world(1)] by (intro free_opened) (simp_all add: sys_close_world)
  then show ?thesis using failed(1)
    by (auto simp: listen_socket_def Let_def split: prod.splits intro!: opened_okI)
qed

lemma add_udp_socket_opened:
  assumes "reserved_slot (ru_id rq) ss"
  shows "opened_ok (ru_id rq) ss (void_result r (add_udp_socket K rq ss))"
proof -
  let ?pro = "if ru_family rq = AF_INET6 then PROTOCOL_UDPv6 else PROTOCOL_UDP"
  let ?i = "HASH_ID (ru_id rq)"
  from assms show ?thesis
  proof (cases rule: new_fdE [where K = K and fd = "ru_fd rq" and pro = ?pro and opaque = "ru_opaque rq" and reading = True])
    case (new ss')
    let ?ss = "upd_slot ?i (\<lambda>s. s\<lparr>sk_p := P_address (replicate UDP_ADDRESS_SIZE 0)\<rparr>) (set_type ?i SOCKET_TYPE_CONNECTED ss')"
    have w: "same_world ?i ss ?ss"
      using new(2) same_world_trans [OF _ same_world_trans [OF same_world_upd same_world_upd]] by (simp add: newly_def set_type_def)
    have "opened (ru_id rq) ss ?ss"
      using new(2) w unfolding newly_def opened_def by (simp add: set_type_def closed_ok_def ready_def protocol_defs)
    then show ?thesis using new(1) by (intro opened_okI) (auto simp: add_udp_socket_def void_result_def Let_def)
  next
    case (failed ss')
    have "opened (ru_id rq) ss (set_type ?i SOCKET_TYPE_INVALID (snd (sys_close K (ru_fd rq) ss')))"
      using failed same_world_trans [OF failed(2) sys_close_world(1)] by (intro free_opened) (simp_all add: sys_close_world)
    then show ?thesis using failed(1) by (intro opened_okI) (auto simp: add_udp_socket_def void_result_def Let_def)
  qed
qed

text \<open>Only the trace, and in it no written byte.\<close>

definition logs :: "socket_server \<Rightarrow> socket_server \<Rightarrow> bool" where
  "logs ss ss' \<longleftrightarrow> (\<exists>tr. ss' = ss\<lparr>ss_trace := ss_trace ss @ tr\<rparr> \<and> (\<forall>x. wire x tr = []))"

lemma logs_refl [simp]: "logs ss ss"
  unfolding logs_def by (intro exI [of _ "[]"]) simp

lemma logs_trans: "logs ss ss1 \<Longrightarrow> logs ss1 ss2 \<Longrightarrow> logs ss ss2"
  unfolding logs_def by (elim exE conjE, rule_tac x = "tr @ tra" in exI) simp

lemma logs_log: "logs ss ss1 \<Longrightarrow> (\<And>x. written x e = []) \<Longrightarrow> logs ss (sys_log e ss1)"
  by (rule logs_trans) (auto simp: logs_def sys_log_def intro!: exI [of _ "[e]"])

lemma logs_world: "logs ss ss' \<Longrightarrow> same_world i ss ss' \<and> ss_slot ss' = ss_slot ss \<and> calm ss ss'"
  by (auto simp: logs_def same_world_def calm_def)

lemma open_try_logs: "open_try K ai ss = (x, ss') \<Longrightarrow> logs ss ss'"
proof (induction ai arbitrary: ss x ss')
  case (Cons a ai)
  obtain fam sa where a: "a = (fam, sa)" by force
  let ?ss1 = "sys_log (Sys_socket fam) ss" let ?sock = "k_socket K (ss_trace ss) fam"
  let ?ss2 = "sp_nonblocking ?sock (socket_keepalive ?sock ?ss1)"
  let ?ss3 = "sys_log (Sys_connect ?sock sa) ?ss2"
  have l: "logs ss ?ss1" "logs ss ?ss3" "logs ss (snd (sys_close K ?sock ?ss3))"
    unfolding sp_nonblocking_def socket_keepalive_def sys_close_def by (simp_all add: logs_log)
  consider "open_try K ai ?ss1 = (x, ss')" | "open_try K ai (snd (sys_close K ?sock ?ss3)) = (x, ss')" | "ss' = ?ss3"
    using Cons.prems unfolding a by (auto simp: Let_def split: if_splits prod.splits)
  then show ?case using Cons.IH l logs_trans by cases blast+
qed simp

lemma open_failed_opened:
  assumes "same_world (HASH_ID sid) ss ss1" "sk_id (ss_slot ss1 (HASH_ID sid)) = sid" "closed_ok (ss_slot ss1 (HASH_ID sid))"
  shows "opened_ok sid ss (Some (open_failed K sid opaque sock err ss1))"
proof -
  let ?ss = "case sock of None \<Rightarrow> ss1 | Some fd \<Rightarrow> snd (sys_close K fd ss1)"
  have "same_world (HASH_ID sid) ss ?ss" "ss_slot ?ss = ss_slot ss1"
    using assms(1) same_world_trans [OF assms(1) sys_close_world(1)] by (simp_all add: sys_close_world split: option.splits)
  then have "opened sid ss (set_type (HASH_ID sid) SOCKET_TYPE_INVALID ?ss)" using assms by (intro free_opened) simp_all
  then show ?thesis unfolding open_failed_def Let_def by (auto intro: opened_okI)
qed

lemma open_socket_opened:
  assumes r: "reserved_slot (ro_id rq) ss"
  shows "opened_ok (ro_id rq) ss (open_socket K rq ss)"
proof -
  define sid where "sid = ro_id rq"
  let ?i = "HASH_ID sid" let ?ss1 = "sys_log (Sys_getaddrinfo (ro_host rq) (ro_port rq)) ss"
  note r = r [folded sid_def]
  have l1: "logs ss ?ss1" by (simp add: logs_log)
  have fail: "opened_ok sid ss (Some (open_failed K sid opaque sock err ss2))" if "logs ss ss2" for opaque sock err ss2
    using logs_world [OF that] r by (intro open_failed_opened) (auto simp: reserved_slot_def)
  have "opened_ok sid ss (open_socket K rq ss)"
  proof (cases "k_getaddrinfo K (ss_trace ss) (ro_host rq) (ro_port rq)")
    case (Inl e)
    then show ?thesis using fail [OF l1] by (simp add: open_socket_def Let_def sid_def)
  next
    case (Inr ai)
    obtain x ss2 where t: "open_try K ai ?ss1 = (x, ss2)" by force
    have l2: "logs ss ss2" using logs_trans [OF l1 open_try_logs [OF t]] .
    show ?thesis
    proof (cases x)
      case None
      then show ?thesis using Inr t fail [OF l2] by (simp add: open_socket_def Let_def sid_def)
    next
      case (Some y)
      obtain sock sa con where y: "y = (sock, sa, con)" by (cases y)
      have r2: "reserved_slot sid ss2" using r logs_world [OF l2] by (simp add: reserved_slot_def)
      have w2: "same_world ?i ss ss2" using logs_world [OF l2] by blast
      show ?thesis
      using r2
      proof (cases rule: new_fdE [where K = K and fd = sock and pro = PROTOCOL_TCP and opaque = "ro_opaque rq" and reading = True])
        case (failed ss3)
        have "opened_ok sid ss (Some (open_failed K sid (ro_opaque rq) (Some sock) ''reach skynet socket number limit'' ss3))"
          using failed same_world_trans [OF w2 failed(2)] by (intro open_failed_opened) simp_all
        then show ?thesis using Inr t Some y failed(1) by (simp add: open_socket_def Let_def sid_def)
      next
        case (new ss3)
        have n: "newly sid PROTOCOL_TCP ss ss3" using new(2) same_world_trans [OF w2] by (simp add: newly_def)
        show ?thesis
        proof (cases con)
          case True
          let ?ss4 = "set_type ?i SOCKET_TYPE_CONNECTED ss3"
          have o: "opened sid ss ?ss4" using newly_set_type [OF n] by simp
          have "opened sid ss (?ss4\<lparr>ss_buffer := nm\<rparr>)" for nm
            using o by (rule same_world_opened) (simp_all add: same_world_def)
          then show ?thesis using o Inr t Some y new(1) True
            by (auto simp: open_socket_def Let_def sid_def [symmetric] split: option.splits intro!: opened_okI)
        next
          case False
          obtain e ss4 where ew: "enable_write K ?i True ss3 = (e, ss4)" by force
          note sl = enable_write_slot [OF ew]
          have w4: "same_world ?i ss ss4" using n same_world_trans sl unfolding newly_def by blast
          have n4: "newly sid PROTOCOL_TCP ss ss4" using n w4 sl by (simp add: newly_def closed_ok_def)
          have f4: "opened_ok sid ss (Some (open_failed K sid (ro_opaque rq) (Some sock) ''enable write failed'' ss4))"
            using n4 by (intro open_failed_opened) (simp_all add: newly_def)
          show ?thesis using newly_set_type [OF n4, of SOCKET_TYPE_CONNECTING] f4 Inr t Some y new(1) False ew
            by (cases e) (auto simp: open_socket_def Let_def sid_def [symmetric] intro!: opened_okI)
        qed
      qed
    qed
  qed
  then show ?thesis by (simp only: sid_def)
qed

section \<open>The invariant when a slot is reserved and opened\<close>

text \<open>One slot gets a new content without data; memory and the rest stay.\<close>

lemma sinv_slot:
  assumes v: "server_inv ow ss" and m: "ss_mem ss' = ss_mem ss" "ss_brk ss' = ss_brk ss"
    and o: "\<And>j. j \<noteq> i \<Longrightarrow> ss_slot ss' j = ss_slot ss j"
    and s: "closed_ok (ss_slot ss' i)" "live (ss_slot ss' i) \<longrightarrow> ready sid (ss_slot ss' i)"
  shows "sinv ow j ss'"
proof (cases "j = i")
  case True
  then show ?thesis using slot_inv_ready [OF s] server_invD(7) [OF v] m by (simp add: sinv_def)
next
  case False
  then show ?thesis using server_invD(1) [OF v, of j] o m by (simp add: sinv_def)
qed

lemma inv_open:
  assumes v: "server_inv ow ss" and p: "ss_pipe ss = p # ps" "opens p" "pk_id p = Some sid"
    and w: "opened sid (sys_log Sys_pipe (ss\<lparr>ss_pipe := ps\<rparr>)) ss'"
  shows "server_inv ow ss' \<and> moves still ss ss'"
proof -
  let ?i = "HASH_ID sid"
  have sw: "\<And>j. j \<noteq> ?i \<Longrightarrow> ss_slot ss' j = ss_slot ss j" "ss_pipe ss' = ps" "ss_alloc_id ss' = ss_alloc_id ss"
    "ss_ev ss' = ss_ev ss" "ss_event_n ss' = ss_event_n ss" "ss_event_index ss' = ss_event_index ss"
    "ss_brk ss' = ss_brk ss" "ss_mem ss' = ss_mem ss" "\<And>x. wire x (ss_trace ss') = wire x (ss_trace ss)"
    using w unfolding opened_def same_world_def by simp_all
  have sl: "sk_id (ss_slot ss' ?i) = sid" "closed_ok (ss_slot ss' ?i)" "sk_type (ss_slot ss' ?i) \<noteq> SOCKET_TYPE_RESERVE"
    "live (ss_slot ss' ?i) \<longrightarrow> ready sid (ss_slot ss' ?i)"
    using w by (simp_all add: opened_def)
  have ids: "ids_ok ss" and po: "pipe_ok ow ss" and co: "counts_ok ss" and ev: "events_ok ss"
    using server_invD [OF v] by blast+
  have R: "sid \<in> reserved_ids ss" "opening_ok (reserved_ids ss - {sid}) ps"
    using po p opening_ok_head(1) [of "reserved_ids ss" p ps] unfolding pipe_ok_def by auto
  have rs: "sk_type (ss_slot ss ?i) = SOCKET_TYPE_RESERVE" "sk_id (ss_slot ss ?i) = sid"
    using R(1) reserved_idsD [OF ids] by auto
  have al: "sid \<le> ss_alloc_id ss" using ids p unfolding ids_ok_def by (metis list.set_intros(1))
  have ids': "ids_ok ss'"
  proof -
    have "HASH_ID (sk_id (ss_slot ss' j)) = j \<and> sk_id (ss_slot ss' j) \<le> ss_alloc_id ss"
      if "sk_type (ss_slot ss' j) \<noteq> SOCKET_TYPE_INVALID" for j
      using ids that sw(1) [of j] sl(1) al unfolding ids_ok_def by (cases "j = ?i") auto
    moreover have "sk_protocol (ss_slot ss' j) = PROTOCOL_UNKNOWN" if "sk_type (ss_slot ss' j) = SOCKET_TYPE_RESERVE" for j
      using ids that sw(1) [of j] sl(3) unfolding ids_ok_def by (cases "j = ?i") auto
    ultimately show ?thesis using ids p(1) unfolding ids_ok_def id_range_def sw by auto
  qed
  have "reserved_ids ss' = reserved_ids ss - {sid}"
  proof (rule set_eqI)
    fix x
    show "x \<in> reserved_ids ss' \<longleftrightarrow> x \<in> reserved_ids ss - {sid}"
      using sl(3) rs sw(1) [of "HASH_ID x"]
      unfolding Diff_iff reserved_idsD [OF ids'] reserved_idsD [OF ids] by (cases "HASH_ID x = ?i") auto
  qed
  then have "pipe_ok ow ss'" using po R(2) p opens_send [OF p(2)] unfolding pipe_ok_def sw by auto
  moreover have "counts_ok ss'"
    unfolding counts_ok_def sw
  proof
    fix x
    have c: "count_ok x (ss_slot ss (HASH_ID x)) (pcount x ps)"
    proof -
      have "pcount x (p # ps) = pcount x ps" using opens_send [OF p(2)] by simp
      then show ?thesis using co p(1) unfolding counts_ok_def by metis
    qed
    show "count_ok x (ss_slot ss' (HASH_ID x)) (pcount x ps)"
    proof (cases "HASH_ID x = ?i")
      case True
      show ?thesis
      proof (cases "x = sid")
        case True
        then have "pcount sid ps = 0" using c rs by (simp add: count_ok_def)
        then show ?thesis using True sl(1,3,4) by (auto simp: count_ok_def ready_def)
      qed (use True sl(1) in \<open>simp add: count_ok_def\<close>)
    qed (use c sw(1) in simp)
  qed
  moreover have "events_ok ss'"
  proof -
    have "sk_type (ss_slot ss' j) \<noteq> SOCKET_TYPE_RESERVE" if "sk_type (ss_slot ss j) \<noteq> SOCKET_TYPE_RESERVE" for j
      using that sl(3) sw(1) by (cases "j = ?i") auto
    then show ?thesis using ev unfolding events_ok_def event_slots_def sw by blast
  qed
  moreover have "\<forall>b. ss_brk ss' \<le> b \<longrightarrow> ow b = None" using server_invD(2) [OF v] sw by auto
  ultimately have "server_inv ow ss'"
    using sinv_slot [OF v sw(8,7) sw(1) sl(2,4)] ids' unfolding server_inv_def by blast
  moreover have "stream_rel x ss' bs" if "stream_rel x ss bs" for x bs
  proof -
    have h: "HASH_ID x \<noteq> ?i" using that rs(1) unfolding stream_rel_def live_def by metis
    have f: "for_id x (ss_pipe ss') = for_id x (ss_pipe ss)" using opens_send [OF p(2)] by (simp add: sw p(1))
    show ?thesis by (rule stream_rel_same [OF server_invD(1) [OF v] that sw(1) [OF h] sw(9) f]) (simp_all add: sw)
  qed
  moreover have "id_closed x ss'" if "id_closed x ss" for x
  proof (cases "HASH_ID x = ?i")
    case True
    have "\<not> id_closed sid ss" using rs by (simp add: id_closed_def)
    then have "x \<noteq> sid" using that by blast
    then show ?thesis using that sl(1) unfolding id_closed_def sw(3) True by simp
  next
    case False
    show ?thesis using that unfolding id_closed_def sw(3) sw(1) [OF False] .
  qed
  ultimately show ?thesis unfolding moves_def still_def by auto
qed

text \<open>
  A free slot is taken for a new id: reserved, with the message that will open it at the end of
  the pipe, or opened at once.
\<close>

definition taken :: "int \<Rightarrow> request_package list \<Rightarrow> socket_server \<Rightarrow> socket_server \<Rightarrow> bool" where
  "taken sid ps ss ss' \<longleftrightarrow>
     (\<forall>j. j \<noteq> HASH_ID sid \<longrightarrow> ss_slot ss' j = ss_slot ss j) \<and> ss_alloc_id ss' = sid \<and>
     ss_pipe ss' = ss_pipe ss @ ps \<and> ss_mem ss' = ss_mem ss \<and> ss_brk ss' = ss_brk ss \<and>
     ss_ev ss' = ss_ev ss \<and> ss_event_n ss' = ss_event_n ss \<and> ss_event_index ss' = ss_event_index ss \<and>
     (\<forall>x. wire x (ss_trace ss') = wire x (ss_trace ss)) \<and>
     sk_id (ss_slot ss' (HASH_ID sid)) = sid \<and> closed_ok (ss_slot ss' (HASH_ID sid)) \<and>
     (live (ss_slot ss' (HASH_ID sid)) \<longrightarrow> ready sid (ss_slot ss' (HASH_ID sid))) \<and>
     (if sk_type (ss_slot ss' (HASH_ID sid)) = SOCKET_TYPE_RESERVE
      then sk_protocol (ss_slot ss' (HASH_ID sid)) = PROTOCOL_UNKNOWN \<and> HASH_ID sid \<notin> event_slots ss \<and>
        (\<exists>p. ps = [p] \<and> opens p \<and> pk_wf p \<and> pk_id p = Some sid)
      else ps = [])"

lemma inv_take:
  assumes v: "server_inv ow ss" and f: "sk_type (ss_slot ss (HASH_ID sid)) = SOCKET_TYPE_INVALID"
    and x: "ss_alloc_id ss < sid" "sid \<le> INT_MAX" and t: "taken sid ps ss ss'"
  shows "server_inv ow ss' \<and> moves still ss ss'"
proof -
  let ?i = "HASH_ID sid"
  have sl: "\<And>j. j \<noteq> ?i \<Longrightarrow> ss_slot ss' j = ss_slot ss j" using t unfolding taken_def by blast
  have sw: "ss_pipe ss' = ss_pipe ss @ ps" "ss_alloc_id ss' = sid" "ss_ev ss' = ss_ev ss"
    "ss_event_n ss' = ss_event_n ss" "ss_event_index ss' = ss_event_index ss" "ss_brk ss' = ss_brk ss"
    "ss_mem ss' = ss_mem ss" "\<And>x. wire x (ss_trace ss') = wire x (ss_trace ss)" "sk_id (ss_slot ss' ?i) = sid"
    "closed_ok (ss_slot ss' ?i)" "live (ss_slot ss' ?i) \<longrightarrow> ready sid (ss_slot ss' ?i)"
    using t unfolding taken_def by simp_all
  define R where "R \<longleftrightarrow> sk_type (ss_slot ss' ?i) = SOCKET_TYPE_RESERVE"
  have ps: "R \<Longrightarrow> sk_protocol (ss_slot ss' ?i) = PROTOCOL_UNKNOWN \<and> ?i \<notin> event_slots ss \<and>
        (\<exists>p. ps = [p] \<and> opens p \<and> pk_wf p \<and> pk_id p = Some sid)" "\<not> R \<Longrightarrow> ps = []"
    using t unfolding taken_def R_def by metis+
  have ids: "ids_ok ss" and po: "pipe_ok ow ss" and co: "counts_ok ss" and ev: "events_ok ss"
    using server_invD [OF v] by blast+
  have ns: "\<forall>p \<in> set ps. pk_send p = None \<and> pk_wf p \<and> pk_id p = Some sid"
    using ps opens_send by (cases R) auto
  have old: "\<forall>p \<in> set (ss_pipe ss). pk_id p \<noteq> Some sid" "\<And>j. sk_type (ss_slot ss j) \<noteq> SOCKET_TYPE_INVALID \<Longrightarrow> sk_id (ss_slot ss j) \<noteq> sid"
    using ids x(1) unfolding ids_ok_def by (metis not_le)+
  have fp: "for_id y ps = []" "pipe_blks ps = []" "pcount y ps = 0" for y
    using ns by (auto simp: for_id_def pipe_blks_def List.map_filter_def filter_empty_conv pcount_def)
  have ids': "ids_ok ss'"
  proof -
    have "HASH_ID (sk_id (ss_slot ss' j)) = j \<and> sk_id (ss_slot ss' j) \<le> sid"
      if "sk_type (ss_slot ss' j) \<noteq> SOCKET_TYPE_INVALID" for j
      using ids that sl [of j] sw(9) x(1) unfolding ids_ok_def by (cases "j = ?i") auto
    moreover have "sk_protocol (ss_slot ss' j) = PROTOCOL_UNKNOWN" if "sk_type (ss_slot ss' j) = SOCKET_TYPE_RESERVE" for j
      using ids that sl [of j] ps(1) unfolding ids_ok_def R_def by (cases "j = ?i") auto
    moreover have "y \<le> sid" if "p \<in> set (ss_pipe ss @ ps)" "pk_id p = Some y" for p y
      using that ns ids x(1) unfolding ids_ok_def by fastforce
    ultimately show ?thesis using x(2) ids x(1) unfolding ids_ok_def id_range_def sw(1,2) by auto
  qed
  have rid: "reserved_ids ss' = (if R then insert sid (reserved_ids ss) else reserved_ids ss)"
  proof (rule set_eqI)
    fix y
    have "y \<in> reserved_ids ss' \<longleftrightarrow> R \<and> y = sid \<or> y \<in> reserved_ids ss"
      unfolding reserved_idsD [OF ids'] reserved_idsD [OF ids]
    proof (cases "HASH_ID y = ?i")
      case True
      show "(sk_type (ss_slot ss' (HASH_ID y)) = SOCKET_TYPE_RESERVE \<and> sk_id (ss_slot ss' (HASH_ID y)) = y) \<longleftrightarrow>
        (R \<and> y = sid \<or> sk_type (ss_slot ss (HASH_ID y)) = SOCKET_TYPE_RESERVE \<and> sk_id (ss_slot ss (HASH_ID y)) = y)"
        unfolding True using f sw(9) by (auto simp: R_def)
    next
      case False
      then show "(sk_type (ss_slot ss' (HASH_ID y)) = SOCKET_TYPE_RESERVE \<and> sk_id (ss_slot ss' (HASH_ID y)) = y) \<longleftrightarrow>
        (R \<and> y = sid \<or> sk_type (ss_slot ss (HASH_ID y)) = SOCKET_TYPE_RESERVE \<and> sk_id (ss_slot ss (HASH_ID y)) = y)"
        using sl [OF False] by auto
    qed
    then show "y \<in> reserved_ids ss' \<longleftrightarrow> y \<in> (if R then insert sid (reserved_ids ss) else reserved_ids ss)" by auto
  qed
  have "sid \<notin> reserved_ids ss" using f unfolding reserved_idsD [OF ids] by simp
  then have "opening_ok (reserved_ids ss') (ss_pipe ss')"
    using ps po opening_ok_new [of "reserved_ids ss" "ss_pipe ss" _ sid] old(1) unfolding rid sw(1) pipe_ok_def by (cases R) auto
  then have "pipe_ok ow ss'" using po ns fp(2) unfolding pipe_ok_def sw(1,7) by auto
  moreover have "counts_ok ss'"
    unfolding counts_ok_def sw(1)
  proof
    fix y
    have c: "count_ok y (ss_slot ss (HASH_ID y)) (pcount y (ss_pipe ss))" using co by (simp add: counts_ok_def)
    have "for_id sid (ss_pipe ss) = []" using old(1) pk_send_id by (auto simp: for_id_def filter_empty_conv)
    then have z: "pcount sid (ss_pipe ss) = 0" by (simp add: pcount_def)
    show "count_ok y (ss_slot ss' (HASH_ID y)) (pcount y (ss_pipe ss @ ps))"
    proof (cases "HASH_ID y = ?i")
      case True
      show ?thesis unfolding True
      proof (cases "y = sid")
        case True
        then show "count_ok y (ss_slot ss' ?i) (pcount y (ss_pipe ss @ ps))"
          using z sw(11) fp(3) by (auto simp: count_ok_def ready_def)
      next
        case False
        then show "count_ok y (ss_slot ss' ?i) (pcount y (ss_pipe ss @ ps))" using sw(9) by (simp add: count_ok_def)
      qed
    next
      case False
      then show ?thesis using c sl [OF False] fp(3) by simp
    qed
  qed
  moreover have "events_ok ss'"
  proof -
    have es: "event_slots ss' = event_slots ss" by (simp add: event_slots_def sw)
    have "sk_type (ss_slot ss' j) \<noteq> SOCKET_TYPE_RESERVE" if "j \<in> event_slots ss" for j
      using that ev ps(1) sl [of j] unfolding events_ok_def R_def by (cases "j = ?i") auto
    then show ?thesis using ev unfolding events_ok_def es sw by blast
  qed
  moreover have "\<forall>b. ss_brk ss' \<le> b \<longrightarrow> ow b = None" using server_invD(2) [OF v] sw by auto
  ultimately have "server_inv ow ss'"
    using sinv_slot [OF v sw(7,6) sl sw(10,11)] ids' unfolding server_inv_def by blast
  moreover have "stream_rel y ss' bs" if "stream_rel y ss bs" for y bs
  proof -
    have h: "HASH_ID y \<noteq> ?i" using that f unfolding stream_rel_def live_def by metis
    show ?thesis
      by (rule stream_rel_same [OF server_invD(1) [OF v] that sl [OF h] sw(8)]) (simp_all add: sw fp)
  qed
  moreover have "id_closed y ss'" if "id_closed y ss" for y
  proof -
    have y: "y \<le> ss_alloc_id ss" using that by (simp add: id_closed_def)
    show ?thesis
    proof (cases "HASH_ID y = ?i")
      case True
      then show ?thesis using y x(1) sw(9) unfolding id_closed_def sw(2) True by simp
    next
      case False
      show ?thesis using that y x(1) unfolding id_closed_def sw(2) sl [OF False] by simp
    qed
  qed
  ultimately show ?thesis unfolding moves_def still_def by auto
qed

end
