(* ===== verification/Socket_Pipe.thy ===== *)
theory Socket_Pipe
  imports Socket_Opening
begin

text \<open>
  Messages that enter and leave the pipe, and the blocks of memory they carry.
\<close>

section \<open>Messages without data\<close>

lemma inv_pop_request:
  assumes v: "server_inv ow ss" and p: "ss_pipe ss = p # ps" "\<not> opens p" "pk_send p = None"
  shows "server_inv ow (sys_log Sys_pipe (ss\<lparr>ss_pipe := ps\<rparr>)) \<and> moves still ss (sys_log Sys_pipe (ss\<lparr>ss_pipe := ps\<rparr>))"
proof -
  let ?ss = "sys_log Sys_pipe (ss\<lparr>ss_pipe := ps\<rparr>)"
  have "ids_ok ?ss" using server_invD(3) [OF v] p(1) by (simp add: ids_ok_def id_range_def)
  moreover have "pipe_ok ow ?ss"
    using server_invD(4) [OF v] p opening_ok_head(2) [of _ p ps] by (simp add: pipe_ok_def reserved_ids_def)
  moreover have "counts_ok ?ss" using server_invD(5) [OF v] p by (simp add: counts_ok_def)
  moreover have "events_ok ?ss" using server_invD(6) [OF v] by (simp add: events_ok_def event_slots_def)
  ultimately have "server_inv ow ?ss" using v by (simp add: server_inv_def sinv_def)
  moreover have "moves still ss ?ss"
    using p by (simp add: moves_def still_def stream_rel_def id_closed_def)
  ultimately show ?thesis by blast
qed

lemma pipe_errors_logs: "logs ss (pipe_errors K es ss)"
proof (induction es arbitrary: ss)
  case (Cons e es)
  let ?ss = "if e = EINTR then ss
      else skynet_error_log (''socket-server : send ctrl command error '' @ k_strerror K e @ ''.'') ss"
  have "logs ss ?ss" by (auto simp: skynet_error_log_def intro!: logs_log)
  from logs_trans [OF this Cons] show ?case by simp
qed simp

text \<open>What \<open>send_request\<close> leaves.\<close>

lemma send_requestE:
  obtains tr where "send_request K t n body ss = ss\<lparr>ss_trace := ss_trace ss @ tr,
      ss_pipe := ss_pipe ss @ [\<lparr>pk_type = t, pk_len = word_of_nat n, pk_body = body\<rparr>]\<rparr>" "\<And>x. wire x tr = []"
proof -
  obtain tr where t: "pipe_errors K (k_pipe_write K (ss_trace ss)) ss = ss\<lparr>ss_trace := ss_trace ss @ tr\<rparr>" "\<And>x. wire x tr = []"
    using pipe_errors_logs [of ss K] unfolding logs_def by blast
  show ?thesis
    by (rule that [of "tr @ [Sys_pipe]"]) (simp_all add: send_request_def t sys_log_def)
qed

lemma inv_append:
  assumes v: "server_inv ow ss" and p: "pk_wf p" "\<not> opens p" "pk_send p = None" "\<forall>x. pk_id p = Some x \<longrightarrow> x \<le> ss_alloc_id ss"
    and tr: "\<And>x. wire x tr = []"
  shows "server_inv ow (ss\<lparr>ss_trace := ss_trace ss @ tr, ss_pipe := ss_pipe ss @ [p]\<rparr>) \<and>
    moves still ss (ss\<lparr>ss_trace := ss_trace ss @ tr, ss_pipe := ss_pipe ss @ [p]\<rparr>)"
proof -
  let ?ss = "ss\<lparr>ss_trace := ss_trace ss @ tr, ss_pipe := ss_pipe ss @ [p]\<rparr>"
  have "ids_ok ?ss" using server_invD(3) [OF v] p(4) by (auto simp: ids_ok_def id_range_def)
  moreover have "pipe_ok ow ?ss"
    using server_invD(4) [OF v] p opening_ok_append [OF _ p(2)] by (auto simp: pipe_ok_def reserved_ids_def)
  moreover have "counts_ok ?ss" using server_invD(5) [OF v] p by (simp add: counts_ok_def)
  moreover have "events_ok ?ss" using server_invD(6) [OF v] by (simp add: events_ok_def event_slots_def)
  ultimately have "server_inv ow ?ss" using v by (simp add: server_inv_def sinv_def)
  moreover have "moves still ss ?ss"
    using p tr by (simp add: moves_def still_def stream_rel_def id_closed_def)
  ultimately show ?thesis by blast
qed

section \<open>Memory\<close>

text \<open>A block that neither a slot nor a message owns may change.\<close>

lemma inv_block:
  assumes v: "server_inv ow ss" and b: "ow b = None" "b \<notin> set (pipe_blks (ss_pipe ss))"
    and brk: "ss_brk ss \<le> brk" "\<forall>c. brk \<le> c \<longrightarrow> ((ss_mem ss)(b := v')) c = None"
  shows "server_inv ow (ss\<lparr>ss_mem := (ss_mem ss)(b := v'), ss_brk := brk\<rparr>) \<and>
    moves still ss (ss\<lparr>ss_mem := (ss_mem ss)(b := v'), ss_brk := brk\<rparr>)"
proof -
  let ?ss = "ss\<lparr>ss_mem := (ss_mem ss)(b := v'), ss_brk := brk\<rparr>"
  have "sinv ow i ?ss" for i
  proof -
    have "slot_inv ((ss_mem ss)(b := v')) brk ow i (ss_slot ss i)"
      by (rule slot_inv_mono [of "ss_mem ss" "ss_brk ss"]) (use server_invD(1) [OF v] brk b in \<open>auto simp: sinv_def\<close>)
    then show ?thesis using brk(2) by (simp add: sinv_def)
  qed
  moreover have "pipe_ok ow ?ss"
  proof -
    have "req_ok ((ss_mem ss)(b := v')) r (req_blk r)" if "p \<in> set (ss_pipe ss)" "pk_send p = Some r" for p r
    proof -
      have "req_blk r \<noteq> b" using that b(2) pipe_blks_set by blast
      moreover have "req_ok (ss_mem ss) r (req_blk r)" using server_invD(4) [OF v] that unfolding pipe_ok_def by blast
      ultimately show ?thesis by (simp add: req_ok_def)
    qed
    then show ?thesis using server_invD(4) [OF v] by (simp add: pipe_ok_def reserved_ids_def)
  qed
  moreover have "ids_ok ?ss" using server_invD(3) [OF v] by (simp add: ids_ok_def id_range_def)
  moreover have "counts_ok ?ss" using server_invD(5) [OF v] by (simp add: counts_ok_def)
  moreover have "events_ok ?ss" using server_invD(6) [OF v] by (simp add: events_ok_def event_slots_def)
  moreover have "\<forall>c. ss_brk ?ss \<le> c \<longrightarrow> ow c = None" using server_invD(2) [OF v] brk(1) by auto
  ultimately have i: "server_inv ow ?ss" unfolding server_inv_def by blast
  have "stream_rel sid ?ss bs" if "stream_rel sid ss bs" for sid bs
    by (rule stream_rel_same [OF server_invD(1) [OF v] that]) (use b in auto)
  then show ?thesis using i by (simp add: moves_def still_def id_closed_def)
qed

lemma inv_malloc:
  assumes v: "server_inv ow ss"
  shows "server_inv ow (snd (MALLOC d ss)) \<and> moves still ss (snd (MALLOC d ss))"
proof -
  have "ss_brk ss \<notin> set (pipe_blks (ss_pipe ss))" using pipe_blks_mem(2) [OF v] by blast
  then show ?thesis
    using inv_block [OF v, of "ss_brk ss" "ss_brk ss + 1" "Some d"] server_invD(2,7) [OF v] by (simp add: MALLOC_def)
qed

text \<open>A block of the caller, and that it is freed.\<close>

definition loose :: "(addr \<Rightarrow> nat option) \<Rightarrow> addr \<Rightarrow> u8 list \<Rightarrow> socket_server \<Rightarrow> bool" where
  "loose ow b d ss \<longleftrightarrow> ow b = None \<and> b \<notin> set (pipe_blks (ss_pipe ss)) \<and> ss_mem ss b = Some d \<and> b < ss_brk ss"

lemma loose_malloc:
  assumes v: "server_inv ow ss"
  shows "loose ow (ss_brk ss) d (snd (MALLOC d ss))"
  using pipe_blks_mem(2) [OF v] server_invD(2) [OF v] by (auto simp: loose_def MALLOC_def)

lemma inv_free:
  assumes v: "server_inv ow ss" and l: "loose ow b d ss"
  shows "\<exists>ss'. FREE (Some (b, 0)) ss = Some ss' \<and> server_inv ow ss' \<and> moves still ss ss' \<and> ss_slot ss' = ss_slot ss"
proof -
  have "server_inv ow (ss\<lparr>ss_mem := (ss_mem ss)(b := None)\<rparr>) \<and> moves still ss (ss\<lparr>ss_mem := (ss_mem ss)(b := None)\<rparr>)"
    using inv_block [OF v, of b "ss_brk ss" None] l server_invD(7) [OF v] by (simp add: loose_def)
  then show ?thesis using l by (simp add: FREE_def loose_def)
qed

end
