(* ===== verification/Socket_Sending.thy ===== *)
theory Socket_Sending
  imports Socket_Pipe
begin

text \<open>
  The functions that send: data goes through the pipe, in a message that is counted in \<open>sending\<close>,
  or is written at once when nothing waits.
\<close>

section \<open>Composition\<close>

lemma moves_rel:
  assumes "moves add ss ss'" "stream_rel sid ss bs" "accepts (ss_slot ss (HASH_ID sid)) sid"
    "live (ss_slot ss' (HASH_ID sid))" "sk_id (ss_slot ss' (HASH_ID sid)) = sid" "add sid = Some d"
  shows "stream_rel sid ss' (bs @ d)"
  using assms unfolding moves_def by blast

lemma movesI:
  assumes "\<And>sid bs d. stream_rel sid ss bs \<Longrightarrow> accepts (ss_slot ss (HASH_ID sid)) sid \<Longrightarrow>
      live (ss_slot ss' (HASH_ID sid)) \<Longrightarrow> sk_id (ss_slot ss' (HASH_ID sid)) = sid \<Longrightarrow>
      add sid = Some d \<Longrightarrow> stream_rel sid ss' (bs @ d)"
    "\<And>sid. id_closed sid ss \<Longrightarrow> id_closed sid ss'"
  shows "moves add ss ss'"
  using assms unfolding moves_def by blast

lemma moves_closed: "moves add ss ss' \<Longrightarrow> id_closed sid ss \<Longrightarrow> id_closed sid ss'"
  unfolding moves_def by blast

lemma moves_left:
  assumes "moves still ss ss1" "ss_slot ss1 = ss_slot ss" "moves add ss1 ss'"
  shows "moves add ss ss'"
proof (rule movesI)
  fix sid bs d
  assume a: "stream_rel sid ss bs" "accepts (ss_slot ss (HASH_ID sid)) sid" "live (ss_slot ss' (HASH_ID sid))"
    "sk_id (ss_slot ss' (HASH_ID sid)) = sid" "add sid = Some d"
  have "stream_rel sid ss1 (bs @ [])"
    using moves_rel [OF assms(1) a(1,2)] a(1) by (simp add: assms(2) still_def stream_rel_def)
  then show "stream_rel sid ss' (bs @ d)" using moves_rel [OF assms(3) _ _ a(3-5)] a(2) by (simp add: assms(2))
qed (use assms(1,3) moves_closed in blast)

lemma moves_right:
  assumes "moves add ss ss1" "moves still ss1 ss'" "ss_slot ss' = ss_slot ss1"
    "\<And>sid. accepts (ss_slot ss (HASH_ID sid)) sid \<Longrightarrow> accepts (ss_slot ss1 (HASH_ID sid)) sid"
  shows "moves add ss ss'"
proof (rule movesI)
  fix sid bs d
  assume a: "stream_rel sid ss bs" "accepts (ss_slot ss (HASH_ID sid)) sid" "live (ss_slot ss' (HASH_ID sid))"
    "sk_id (ss_slot ss' (HASH_ID sid)) = sid" "add sid = Some d"
  have "stream_rel sid ss1 (bs @ d)" using moves_rel [OF assms(1) a(1,2)] a(3-5) assms(3) by simp
  from moves_rel [OF assms(2) this assms(4) [OF a(2)] a(3,4)] show "stream_rel sid ss' (bs @ d)" by (simp add: still_def)
qed (use assms(1,2) moves_closed in blast)

section \<open>Messages with data\<close>

definition counted_slot :: "request_package \<Rightarrow> socket \<Rightarrow> socket" where
  "counted_slot p s = (if sk_protocol s = PROTOCOL_TCP \<and> pk_type p \<noteq> CHR ''A'' then s\<lparr>sk_sending := sk_sending s + 1\<rparr> else s)"

lemma sending_simps [simp]:
  "pending m (s\<lparr>sk_sending := n\<rparr>) = pending m s" "slot_inv m brk ow i (s\<lparr>sk_sending := n\<rparr>) = slot_inv m brk ow i s"
  "live (s\<lparr>sk_sending := n\<rparr>) = live s"
proof -
  have o: "owns_ok m ow i (s\<lparr>sk_sending := n\<rparr>) xs = owns_ok m ow i s xs" for xs
    by (cases "sk_dw_buffer s") (auto simp: owns_ok_def dw_good_def dw_blks_def)
  have c: "conn_ok (s\<lparr>sk_sending := n\<rparr>) hs ls = conn_ok s hs ls" for hs ls
    by (cases "sk_p s") (simp_all add: conn_ok_def)
  show "pending m (s\<lparr>sk_sending := n\<rparr>) = pending m s"
    by (cases "sk_dw_buffer s") (auto simp: fun_eq_iff pending_def dw_data_def)
  show "slot_inv m brk ow i (s\<lparr>sk_sending := n\<rparr>) = slot_inv m brk ow i s"
    using o c by (simp add: slot_inv_def live_def bufs_ok_def links_ok_def closed_ok_def)
qed (simp_all add: live_def)

lemma counted_slot_simps [simp]:
  "sk_id (counted_slot p s) = sk_id s" "sk_type (counted_slot p s) = sk_type s" "sk_protocol (counted_slot p s) = sk_protocol s"
  "live (counted_slot p s) = live s" "pending m (counted_slot p s) = pending m s"
  "slot_inv m brk ow i (counted_slot p s) = slot_inv m brk ow i s"
  by (simp_all add: counted_slot_def)

definition sent :: "int \<Rightarrow> u8 list option \<Rightarrow> int \<Rightarrow> u8 list option" where
  "sent sid d x = (if x = sid then d else Some [])"

lemma inv_send_msg:
  assumes v: "server_inv ow ss" and b: "loose ow b d ss" and sz: "int (length d) \<le> INT_MAX"
    and l: "live (ss_slot ss (HASH_ID sid))" "sk_id (ss_slot ss (HASH_ID sid)) = sid"
    and p: "pk_wf p" "pk_send p = Some \<lparr>rq_id = sid, rq_sz = int (length d), rq_buffer = Some (b, 0)\<rparr>"
    and c: "sk_protocol (ss_slot ss (HASH_ID sid)) = PROTOCOL_TCP \<longrightarrow> pcount sid (ss_pipe ss) < 65535" and u: "sk_protocol (ss_slot ss (HASH_ID sid)) = PROTOCOL_TCP \<longrightarrow> pk_type p \<noteq> CHR ''A''"
    and tr: "\<And>x. wire x tr = []"
    and ss': "ss' = upd_slot (HASH_ID sid) (counted_slot p) (ss\<lparr>ss_trace := ss_trace ss @ tr, ss_pipe := ss_pipe ss @ [p]\<rparr>)"
  shows "server_inv ow ss' \<and> moves (sent sid (if pk_type p = CHR ''D'' then Some d else None)) ss ss'"
proof -
  let ?i = "HASH_ID sid" let ?r = "\<lparr>rq_id = sid, rq_sz = int (length d), rq_buffer = Some (b, 0)\<rparr>"
  have ss: "ss_mem ss' = ss_mem ss" "ss_brk ss' = ss_brk ss" "ss_pipe ss' = ss_pipe ss @ [p]" "ss_alloc_id ss' = ss_alloc_id ss"
    "ss_ev ss' = ss_ev ss" "ss_event_n ss' = ss_event_n ss" "ss_event_index ss' = ss_event_index ss"
    "\<And>j. ss_slot ss' j = (if j = ?i then counted_slot p (ss_slot ss j) else ss_slot ss j)"
    "\<And>x. wire x (ss_trace ss') = wire x (ss_trace ss)"
    using tr by (simp_all add: ss')
  have keepers: "sk_id (ss_slot ss' j) = sk_id (ss_slot ss j)" "sk_type (ss_slot ss' j) = sk_type (ss_slot ss j)"
    "sk_protocol (ss_slot ss' j) = sk_protocol (ss_slot ss j)" "live (ss_slot ss' j) = live (ss_slot ss j)"
    "slot_inv m brk ow j (ss_slot ss' j) = slot_inv m brk ow j (ss_slot ss j)" "pending m (ss_slot ss' j) = pending m (ss_slot ss j)" for j m brk
    by (simp_all add: ss(8))
  have op: "\<not> opens p" "pk_id p = Some sid" using opens_send p(2) pk_send_id [OF p(2)] by auto
  have ids: "ids_ok ss" using server_invD(3) [OF v] .
  have al: "sid \<le> ss_alloc_id ss" using ids l unfolding ids_ok_def live_def by metis
  have rb: "req_blk ?r = b" by (simp add: req_blk_def)
  have rq: "req_ok (ss_mem ss) ?r b" using b sz by (simp add: req_ok_def loose_def)
  have "ids_ok ss'" using ids op(2) al unfolding ids_ok_def id_range_def ss keepers by auto
  moreover have "pipe_ok ow ss'"
  proof -
    have "reserved_ids ss' = reserved_ids ss" unfolding reserved_ids_def keepers ..
    then show ?thesis
      using server_invD(4) [OF v] p b rq rb opening_ok_append [OF _ op(1)] unfolding pipe_ok_def ss
      by (auto simp: loose_def)
  qed
  moreover have "counts_ok ss'"
    unfolding counts_ok_def ss
  proof
    fix x
    have co: "count_ok x (ss_slot ss (HASH_ID x)) (pcount x (ss_pipe ss))" using server_invD(5) [OF v] by (simp add: counts_ok_def)
    have pc: "pcount x (ss_pipe ss @ [p]) = pcount x (ss_pipe ss) + (if x = sid \<and> pk_type p \<noteq> CHR ''A'' then 1 else 0)"
      using p(2) by simp
    show "count_ok x (if HASH_ID x = ?i then counted_slot p (ss_slot ss (HASH_ID x)) else ss_slot ss (HASH_ID x)) (pcount x (ss_pipe ss @ [p]))"
    proof (cases "x = sid")
      case True
      then show ?thesis using co c l u unfolding pc by (auto simp: count_ok_def counted_slot_def live_def)
    next
      case False
      then show ?thesis using co l(2) unfolding pc by (auto simp: count_ok_def)
    qed
  qed
  moreover have "events_ok ss'" using server_invD(6) [OF v] unfolding events_ok_def event_slots_def ss(5-7) keepers .
  moreover have "sinv ow j ss'" for j using server_invD(1) [OF v, of j] unfolding sinv_def ss(1,2) keepers .
  ultimately have "server_inv ow ss'" using server_invD(2) [OF v] unfolding server_inv_def ss(2) by blast
  moreover have "stream_rel x ss' (bs @ e)"
    if s: "stream_rel x ss bs" and a: "sent sid (if pk_type p = CHR ''D'' then Some d else None) x = Some e" for x bs e
  proof (cases "x = sid")
    case False
    then have "e = []" "for_id x (ss_pipe ss') = for_id x (ss_pipe ss)" using a p(2) by (simp_all add: sent_def ss)
    then show ?thesis using s unfolding stream_rel_def keepers ss(1,9) by auto
  next
    case True
    then have "pk_type p = CHR ''D''" "e = d" using a by (auto simp: sent_def split: if_splits)
    moreover have "req_data (ss_mem ss) ?r = d" using b by (simp add: req_data_def loose_def)
    ultimately show ?thesis using s True p(2) unfolding stream_rel_def keepers ss(1,3,9) by (auto simp: List.map_filter_simps)
  qed
  ultimately show ?thesis by (simp add: moves_def id_closed_def keepers ss(4))
qed

text \<open>The data of a caller: a block of memory that it gives away, or a pointer to data that is copied.\<close>

definition buf_of :: "int \<Rightarrow> socket_buffer_type \<Rightarrow> addr \<Rightarrow> u8 list \<Rightarrow> socket_sendbuffer" where
  "buf_of sid t b d = \<lparr>sb_id = sid, sb_type = t, sb_buffer = Some (b, 0), sb_sz = int (length d)\<rparr>"

lemma buf_of_simps [simp]:
  "sb_id (buf_of sid t b d) = sid" "sb_type (buf_of sid t b d) = t" "sb_buffer (buf_of sid t b d) = Some (b, 0)"
  "sb_sz (buf_of sid t b d) = int (length d)"
  by (simp_all add: buf_of_def)

lemma mem_read_all: "m b = Some d \<Longrightarrow> mem_read m (Some (b, 0)) (int (length d)) = Some d"
  by (simp add: mem_read_def)

text \<open>The block that \<open>clone_buffer\<close> gives, and the state with it.\<close>

lemma clone_ok:
  assumes v: "server_inv ow ss" and b: "loose ow b d ss" and t: "t \<noteq> SOCKET_BUFFER_OBJECT"
  obtains c ss1 where "\<And>f tr. clone_buffer (buf_of sid t b d) (upd_slot i f (ss\<lparr>ss_trace := tr\<rparr>)) =
      Some (Some (c, 0), int (length d), upd_slot i f (ss1\<lparr>ss_trace := tr\<rparr>))"
    "server_inv ow ss1" "loose ow c d ss1" "moves still ss ss1" "ss_slot ss1 = ss_slot ss" "ss_pipe ss1 = ss_pipe ss"
    "ss_alloc_id ss1 = ss_alloc_id ss" "ss_trace ss1 = ss_trace ss"
proof (cases t)
  case SOCKET_BUFFER_MEMORY
  then show ?thesis
    by (intro that [of b ss] v b moves_calm calm_refl) (simp_all add: clone_buffer_def)
next
  case SOCKET_BUFFER_RAWPOINTER
  have r: "mem_read (ss_mem ss) (Some (b, 0)) (int (length d)) = Some d"
    using b by (intro mem_read_all) (simp add: loose_def)
  have "clone_buffer (buf_of sid t b d) (upd_slot i f (ss\<lparr>ss_trace := tr\<rparr>)) =
      Some (Some (ss_brk ss, 0), int (length d), upd_slot i f ((snd (MALLOC d ss))\<lparr>ss_trace := tr\<rparr>))" for f tr
    using r SOCKET_BUFFER_RAWPOINTER by (simp add: clone_buffer_def MALLOC_def upd_slot_def)
  then show ?thesis
    using inv_malloc [OF v] loose_malloc [OF v] by (intro that [of "ss_brk ss" "snd (MALLOC d ss)"]) (auto simp: MALLOC_def)
qed (use t in simp)

lemma inc_sending:
  assumes v: "server_inv ow ss" and l: "live (ss_slot ss (HASH_ID sid))" "sk_id (ss_slot ss (HASH_ID sid)) = sid"
    and c: "sk_protocol (ss_slot ss (HASH_ID sid)) = PROTOCOL_TCP \<longrightarrow> pcount sid (ss_pipe ss) < 65535" and p: "pk_type p \<noteq> CHR ''A''"
  shows "inc_sending_ref (HASH_ID sid) sid ss = Some (upd_slot (HASH_ID sid) (counted_slot p) ss)"
proof (cases "sk_protocol (ss_slot ss (HASH_ID sid)) = PROTOCOL_TCP")
  case True
  have "count_ok sid (ss_slot ss (HASH_ID sid)) (pcount sid (ss_pipe ss))" using server_invD(5) [OF v] by (simp add: counts_ok_def)
  then have s: "sk_sending (ss_slot ss (HASH_ID sid)) = ID_TAG16 sid * 65536 + pcount sid (ss_pipe ss)"
    using True l unfolding count_ok_def by blast
  have "0 \<le> pcount sid (ss_pipe ss)" by simp
  then have "sk_sending (ss_slot ss (HASH_ID sid)) div 65536 = ID_TAG16 sid"
    "sk_sending (ss_slot ss (HASH_ID sid)) mod 65536 = pcount sid (ss_pipe ss)"
    using c True unfolding s by (auto simp: div_pos_pos_trivial mod_pos_pos_trivial)
  then show ?thesis using True c p by (simp add: inc_sending_ref_def Let_def upd_slot_def counted_slot_def)
next
  case False
  then show ?thesis by (simp add: inc_sending_ref_def Let_def upd_slot_def counted_slot_def)
qed

lemma send_by_pipe_ok:
  assumes v: "server_inv ow ss" and b: "loose ow b d ss" and t: "t \<noteq> SOCKET_BUFFER_OBJECT" and sz: "int (length d) \<le> INT_MAX"
    and l: "live (ss_slot ss (HASH_ID sid))" "sk_id (ss_slot ss (HASH_ID sid)) = sid"
    and c: "sk_protocol (ss_slot ss (HASH_ID sid)) = PROTOCOL_TCP \<longrightarrow> pcount sid (ss_pipe ss) < 65535" and ty: "ty \<in> {CHR ''D'', CHR ''P''}"
  shows "\<exists>ss'. send_by_pipe K ty (HASH_ID sid) (buf_of sid t b d) ss = Some (0, ss') \<and> server_inv ow ss' \<and>
    moves (sent sid (if ty = CHR ''D'' then Some d else None)) ss ss'"
proof -
  let ?i = "HASH_ID sid"
  obtain e ss1 where cl: "\<And>f tr. clone_buffer (buf_of sid t b d) (upd_slot ?i f (ss\<lparr>ss_trace := tr\<rparr>)) =
      Some (Some (e, 0), int (length d), upd_slot ?i f (ss1\<lparr>ss_trace := tr\<rparr>))"
    "server_inv ow ss1" "loose ow e d ss1" "moves still ss ss1" "ss_slot ss1 = ss_slot ss" "ss_pipe ss1 = ss_pipe ss"
    "ss_trace ss1 = ss_trace ss"
    using clone_ok [OF v b t] by metis
  let ?r = "\<lparr>rq_id = sid, rq_sz = int (length d), rq_buffer = Some (e, 0)\<rparr>"
  define p where "p = \<lparr>pk_type = ty, pk_len = word_of_nat sizeof_send, pk_body = U_send ?r\<rparr>"
  have p: "pk_wf p" "pk_send p = Some ?r" "pk_type p = ty" "pk_type p \<noteq> CHR ''A''"
    using ty by (auto simp: p_def pk_wf_def pk_send_def)
  obtain tr where s: "send_request K ty sizeof_send (U_send ?r) (upd_slot ?i (counted_slot p) ss1) =
      (upd_slot ?i (counted_slot p) ss1)\<lparr>ss_trace := ss_trace ss1 @ tr, ss_pipe := ss_pipe ss1 @ [p]\<rparr>" "\<And>x. wire x tr = []"
    by (rule send_requestE [of K ty sizeof_send "U_send ?r" "upd_slot ?i (counted_slot p) ss1"]) (simp add: p_def)
  let ?ss' = "upd_slot ?i (counted_slot p) (ss1\<lparr>ss_trace := ss_trace ss1 @ tr, ss_pipe := ss_pipe ss1 @ [p]\<rparr>)"
  have "clone_buffer (buf_of sid t b d) (upd_slot ?i (counted_slot p) ss) = Some (Some (e, 0), int (length d), upd_slot ?i (counted_slot p) ss1)"
  proof -
    have "ss1\<lparr>ss_trace := ss_trace ss\<rparr> = ss1" unfolding cl(7) [symmetric] by simp
    then show ?thesis using cl(1) [of "counted_slot p" "ss_trace ss"] by simp
  qed
  then have "send_by_pipe K ty ?i (buf_of sid t b d) ss = Some (0, ?ss')"
    using inc_sending [OF v l c p(4)] s(1) by (simp add: send_by_pipe_def upd_slot_def)
  moreover have "server_inv ow ?ss' \<and> moves (sent sid (if ty = CHR ''D'' then Some d else None)) ss1 ?ss'"
    using inv_send_msg [OF cl(2,3) sz _ _ p(1,2) _ _ s(2) refl] l c p cl by simp
  ultimately show ?thesis using moves_left [OF cl(4,5)] by blast
qed

section \<open>Direct writes\<close>

text \<open>A slot takes over a block.\<close>

lemma slot_inv_own: "ow b = None \<Longrightarrow> slot_inv m brk ow j s \<Longrightarrow> slot_inv m brk (ow(b \<mapsto> i)) j s"
proof -
  assume a: "ow b = None" "slot_inv m brk ow j s"
  have "owns_ok m (ow(b \<mapsto> i)) j s xs" if "owns_ok m ow j s xs" for xs
    using that a(1) unfolding owns_ok_def by fastforce
  then show ?thesis using a(2) unfolding slot_inv_def bufs_ok_def by (auto split: if_splits)
qed

lemma inv_own:
  assumes v: "server_inv ow ss" and b: "ow b = None" "b \<notin> set (pipe_blks (ss_pipe ss))" "b < ss_brk ss"
  shows "server_inv (ow(b \<mapsto> i)) ss"
proof -
  have "sinv (ow(b \<mapsto> i)) j ss" for j
    using slot_inv_own [of ow b _ _ j _ i, OF b(1)] server_invD(1) [OF v, of j] by (simp add: sinv_def)
  moreover have "pipe_ok (ow(b \<mapsto> i)) ss"
    using server_invD(4) [OF v] b(2) pipe_blks_set unfolding pipe_ok_def by fastforce
  ultimately show ?thesis using v b(3) unfolding server_inv_def by (auto simp: not_le [symmetric])
qed

lemma moves_sent:
  assumes v: "server_inv ow ss" and g: "grow ow i ss ss'" "stream d i ss ss'" and l: "live (ss_slot ss i)"
    and i: "HASH_ID sid = i" and idd: "sk_id (ss_slot ss i) = sid" and z: "pcount sid (ss_pipe ss) = 0"
  shows "moves (sent sid (Some d)) ss ss'"
proof (rule movesI)
  have f: "frame ow i ss ss'" "keep (ss_slot ss i) (ss_slot ss' i)" using g(1) by (simp_all add: grow_def)
  fix x bs e
  assume a: "stream_rel x ss bs" "live (ss_slot ss' (HASH_ID x))" "sent sid (Some d) x = Some e"
    "sk_id (ss_slot ss' (HASH_ID x)) = x"
  show "stream_rel x ss' (bs @ e)"
  proof (cases "HASH_ID x = i")
    case False
    then have "e = []" using a(3) i by (auto simp: sent_def split: if_splits)
    then show ?thesis using stream_rel_frame [OF v f(1) a(1) False l] by simp
  next
    case True
    have "for_id x (ss_pipe ss) = []" if "x = sid"
    proof -
      have "\<forall>p \<in> set (for_id x (ss_pipe ss)). pk_type p = CHR ''A''" "\<forall>p \<in> set (for_id x (ss_pipe ss)). pk_type p = CHR ''D''"
        using z a(1) that unfolding pcount_zero stream_rel_def by blast+
      then show ?thesis by (cases "for_id x (ss_pipe ss)") auto
    qed
    moreover have "x = sid" using a(1) True idd unfolding stream_rel_def by simp
    ultimately show ?thesis using stream_rel_slot [OF v f g(2) a(1) True] a(2,3) True by (simp add: sent_def)
  qed
next
  show "id_closed x ss'" if "id_closed x ss" for x
    using keep_id_closed [OF _ _ that] g(1) unfolding grow_def by blast
qed

text \<open>The bytes of a direct write that were taken are on the wire, the others wait in the slot.\<close>

lemma direct_grow:
  assumes v: "server_inv ow ss" and l: "live (ss_slot ss i)" "sk_protocol (ss_slot ss i) = PROTOCOL_TCP"
    and e: "send_buffer_empty (ss_slot ss i)" "sk_dw_buffer (ss_slot ss i) = None"
    and n: "0 \<le> n" "n \<le> int (length d)" "int (length d) \<le> INT_MAX" and id: "sid = sk_id (ss_slot ss i)"
    and c: "n < int (length d) \<Longrightarrow> ow c = Some i \<and> ss_mem ss c = Some d"
    and s': "s' = (ss_slot ss i)\<lparr>sk_stat := st, sk_dw_buffer := (if n = int (length d) then None else Some (c, 0)),
      sk_dw_size := dsz, sk_dw_offset := dof\<rparr>" "n < int (length d) \<Longrightarrow> dsz = int (length d) \<and> dof = n"
    and ss': "ss' = ss\<lparr>ss_trace := ss_trace ss @ [Sys_write sid fd (take (nat n) d)], ss_slot := (ss_slot ss)(i := s')\<rparr>"
  shows "grow ow i ss ss' \<and> stream d i ss ss'"
proof -
  let ?s = "ss_slot ss i"
  obtain hs ls where b: "bufs_ok (ss_mem ss) (ss_brk ss) ow i ?s hs ls" and co: "conn_ok ?s hs ls"
    using sinvE [OF server_invD(1) [OF v] l(1)] by blast
  have lk: "links_ok (ss_brk ss) ?s hs ls" and own: "owns_ok (ss_mem ss) ow i ?s (hs @ ls)" using b by (simp_all add: bufs_ok_def)
  have hl: "hs = []" "ls = []"
    using lk e(1) wl_ok_head_None unfolding links_ok_def send_buffer_empty_def by blast+
  have s: "ss_slot ss' i = s'" "ss_mem ss' = ss_mem ss" "ss_brk ss' = ss_brk ss" by (simp_all add: ss')
  have bs: "bufs_ok (ss_mem ss) (ss_brk ss) ow i s' [] []"
  proof -
    have "dw_good (ss_mem ss) s'" "\<forall>b \<in> set (dw_blks s'). ow b = Some i" "distinct (dw_blks s')"
      using c n l(2) s'(2) by (auto simp: dw_good_def dw_blks_def s'(1))
    then show ?thesis using lk unfolding bufs_ok_def links_ok_def owns_ok_def hl by (auto simp: s'(1) wbs_blks_def)
  qed
  have "conn_ok s' [] []" using co unfolding hl conn_ok_def by (cases "sk_p ?s") (auto simp: s'(1))
  moreover have "live s'" using l(1) by (simp add: s'(1) live_def)
  ultimately have "slot_inv (ss_mem ss) (ss_brk ss) ow i s'" using bs unfolding slot_inv_def by auto
  then have "sinv ow i ss'" using server_invD(7) [OF v] unfolding sinv_def s by blast
  moreover have "frame ow i ss ss'" using server_invD(7) [OF v] id by (simp add: frame_def ss')
  moreover have "keep ?s s'" by (simp add: keep_def s'(1) live_def)
  moreover have "stream d i ss ss'"
    unfolding stream_def
  proof (intro allI impI)
    fix q
    assume "pending (ss_mem ss) ?s q"
    then obtain xs where p: "sk_low ?s = clear_wb_list" "wl_ok (sk_wbs ?s) (sk_high ?s) xs" "q = wbs_data (ss_mem ss) xs"
      using e(2) by (auto simp: pending_def dw_data_def)
    have "wl_ok (sk_wbs ?s) (sk_high ?s) []" using lk unfolding links_ok_def hl by blast
    from wl_ok_unique [OF this p(2)] have q: "sk_low ?s = clear_wb_list" "wl_ok (sk_wbs ?s) (sk_high ?s) []" "q = []"
      using p by (simp_all add: wbs_data_def)
    have "dw_data (ss_mem ss) s' = drop (nat n) d"
      using c n s'(2) by (auto simp: dw_data_def s'(1))
    then have "pending (ss_mem ss) s' (drop (nat n) d)" using q(1,2) unfolding pending_def by (auto simp: s'(1) intro!: exI [of _ "[]"])
    then show "\<exists>bs'. pending (ss_mem ss') (ss_slot ss' i) bs' \<and> wire (sk_id ?s) (ss_trace ss') @ bs' = wire (sk_id ?s) (ss_trace ss) @ q @ d"
      unfolding s q(3) by (intro exI [of _ "drop (nat n) d"]) (simp add: ss' id)
  qed
  ultimately show ?thesis unfolding grow_def s by blast
qed

lemma can_direct:
  assumes v: "server_inv ow ss" and c: "can_direct_write (ss_slot ss (HASH_ID sid)) sid"
    and tcp: "sk_protocol (ss_slot ss (HASH_ID sid)) = PROTOCOL_TCP"
  shows "live (ss_slot ss (HASH_ID sid))" "sk_id (ss_slot ss (HASH_ID sid)) = sid"
    "send_buffer_empty (ss_slot ss (HASH_ID sid))" "sk_dw_buffer (ss_slot ss (HASH_ID sid)) = None"
    "pcount sid (ss_pipe ss) = 0"
proof -
  let ?s = "ss_slot ss (HASH_ID sid)"
  have s: "sk_id ?s = sid" "sk_type ?s = SOCKET_TYPE_CONNECTED" "send_buffer_empty ?s" "sk_dw_buffer ?s = None"
    "sk_sending ?s mod 65536 = 0"
    using c by (auto simp: can_direct_write_def nomore_sending_data_def)
  then show l: "live ?s" by (simp add: live_def)
  show "sk_id ?s = sid" "send_buffer_empty ?s" "sk_dw_buffer ?s = None" using s by auto
  have "count_ok sid ?s (pcount sid (ss_pipe ss))" using server_invD(5) [OF v] by (simp add: counts_ok_def)
  then have "pcount sid (ss_pipe ss) < 65536" "sk_sending ?s = ID_TAG16 sid * 65536 + pcount sid (ss_pipe ss)"
    using tcp s(1) l unfolding count_ok_def by blast+
  moreover have "0 \<le> pcount sid (ss_pipe ss)" by simp
  ultimately show "pcount sid (ss_pipe ss) = 0" using s(5) by simp
qed

lemma sendbuffer_object:
  assumes "t \<noteq> SOCKET_BUFFER_OBJECT" "int (length d) \<le> INT_MAX"
  shows "send_object_init_from_sendbuffer ss (buf_of sid t b d) =
    Some \<lparr>so_buffer = Some (b, 0), so_sz = int (length d), so_free = t\<rparr>"
  using assms by (cases t) (simp_all add: send_object_init_from_sendbuffer_def send_object_init_def USEROBJECT_def INT_MAX_def)

text \<open>The data of the caller after the call: freed, or as it was when the caller keeps it.\<close>

lemma free_object_ok:
  assumes v: "server_inv ow ss" and b: "loose ow b d ss" and t: "t \<noteq> SOCKET_BUFFER_OBJECT"
  shows "\<exists>ss'. free_func \<lparr>so_buffer = p, so_sz = n, so_free = t\<rparr> (Some (b, 0)) ss = Some ss' \<and>
      free_buffer (buf_of sid t b d) ss = Some ss' \<and> server_inv ow ss' \<and> moves still ss ss' \<and> ss_slot ss' = ss_slot ss"
  using inv_free [OF v b] v moves_calm [OF calm_refl, of ss] t
  by (cases t) (auto simp: free_func_def free_buffer_def)

lemma direct_write_ok:
  assumes K: "kernel_ok K" and v: "server_inv ow ss" and b: "loose ow b d ss" and t: "t \<noteq> SOCKET_BUFFER_OBJECT"
    and sz: "int (length d) \<le> INT_MAX" and can: "can_direct_write (ss_slot ss (HASH_ID sid)) sid"
    and tcp: "sk_protocol (ss_slot ss (HASH_ID sid)) = PROTOCOL_TCP"
  shows "\<exists>r ss' ow'. direct_write K (HASH_ID sid) (buf_of sid t b d) ss = Some (r, ss') \<and> server_inv ow' ss' \<and>
    moves (sent sid (Some d)) ss ss'"
proof -
  define i where "i = HASH_ID sid"
  let ?s = "ss_slot ss i"
  note cd = can_direct [OF v can tcp, folded i_def] and tcp = tcp [folded i_def]
  obtain k e where w: "k_write K (ss_trace ss) (sk_fd ?s) d = (k, e)" by force
  define n where "n = (if k < 0 then 0 else k)"
  have n: "0 \<le> n" "n \<le> int (length d)" "take (nat k) d = take (nat n) d"
    using kernel_okD(1) [OF K w] by (auto simp: n_def)
  have md: "ss_mem ss b = Some d" using b by (simp add: loose_def)
  define st where "st = (sk_stat ?s)\<lparr>st_write := st_write (sk_stat ?s) + word_of_int (to_int32 n), st_wtime := ss_time ss\<rparr>"
  let ?e = "Sys_write sid (sk_fd ?s) (take (nat n) d)"
  have wr: "sys_write K sid (sk_fd ?s) (Some (b, 0)) (int (length d)) ss = Some (k, e, sys_log ?e ss)"
    using w n(3) mem_read_all [of "ss_mem ss" b d, OF md] by (simp add: sys_write_def)
  have sw: "stat_write i n (sys_log ?e ss) = upd_slot i (\<lambda>s. s\<lparr>sk_stat := st\<rparr>) (sys_log ?e ss)"
    by (simp add: stat_write_def st_def upd_slot_def)
  show ?thesis
  proof (cases "n = int (length d)")
    case True
    let ?ss1 = "upd_slot i (\<lambda>s. s\<lparr>sk_stat := st\<rparr>) (sys_log ?e ss)"
    have eq: "?s\<lparr>sk_stat := st, sk_dw_buffer := None\<rparr> = ?s\<lparr>sk_stat := st\<rparr>" using cd(4) by (cases ?s) simp
    have g: "grow ow i ss ?ss1 \<and> stream d i ss ?ss1"
      by (rule direct_grow [OF v cd(1) tcp cd(3,4) n(1,2) sz cd(2) [symmetric], where fd = "sk_fd ?s" and st = st and dsz = "sk_dw_size ?s" and dof = "sk_dw_offset ?s"])
        (use True eq in \<open>simp_all add: upd_slot_def sys_log_def\<close>)
    have m: "moves (sent sid (Some d)) ss ?ss1" using moves_sent [OF v _ _ cd(1) i_def [symmetric] cd(2,5)] g by blast
    have v1: "server_inv ow ?ss1" using inv_grow [OF v] g by blast
    have b1: "loose ow b d ?ss1" using b by (simp add: loose_def)
    obtain ss' where f: "free_func \<lparr>so_buffer = Some (b, 0), so_sz = int (length d), so_free = t\<rparr> (Some (b, 0)) ?ss1 = Some ss'"
      "server_inv ow ss'" "moves still ?ss1 ss'" "ss_slot ss' = ss_slot ?ss1"
      using free_object_ok [OF v1 b1 t] by blast
    have "moves (sent sid (Some d)) ss ss'"
      by (rule moves_right [OF m f(3,4)]) (auto simp: accepts_def upd_slot_def)
    moreover have "direct_write K i (buf_of sid t b d) ss = Some (0, ss')"
      using sendbuffer_object [OF t sz] tcp cd(2) wr True sw f(1)
      by (simp add: direct_write_def Let_def n_def [symmetric])
    ultimately show ?thesis using f(2) unfolding i_def by blast
  next
    case False
    have lt: "n < int (length d)" using False n(2) by simp
    let ?f = "\<lambda>s. s\<lparr>sk_stat := st\<rparr>"
    obtain c ss1 where cl: "\<And>f tr. clone_buffer (buf_of sid t b d) (upd_slot i f (ss\<lparr>ss_trace := tr\<rparr>)) =
        Some (Some (c, 0), int (length d), upd_slot i f (ss1\<lparr>ss_trace := tr\<rparr>))"
      "server_inv ow ss1" "loose ow c d ss1" "moves still ss ss1" "ss_slot ss1 = ss_slot ss" "ss_pipe ss1 = ss_pipe ss"
      "ss_alloc_id ss1 = ss_alloc_id ss" "ss_trace ss1 = ss_trace ss"
      using clone_ok [OF v b t, of sid i] by metis
    let ?g = "\<lambda>s. s\<lparr>sk_dw_buffer := Some (c, 0), sk_dw_size := int (length d), sk_dw_offset := to_int32 n\<rparr>"
    let ?ss2 = "upd_slot i ?g (upd_slot i ?f (ss1\<lparr>ss_trace := ss_trace ss @ [?e]\<rparr>))"
    have v1: "server_inv (ow(c \<mapsto> i)) ss1" using inv_own [OF cl(2)] cl(3) by (simp add: loose_def)
    have ni: "to_int32 n = n" using n sz by (intro to_int32_id) (auto simp: INT_MIN_def)
    have g: "grow (ow(c \<mapsto> i)) i ss1 ?ss2 \<and> stream d i ss1 ?ss2"
      by (rule direct_grow [OF v1 _ _ _ _ n(1,2) sz, where st = st and dsz = "int (length d)" and dof = n and c = c and sid = sid])
        (use lt cd tcp cl(3,5,8) ni in \<open>simp_all add: upd_slot_def loose_def\<close>)
    have v2: "server_inv (ow(c \<mapsto> i)) ?ss2" using inv_grow [OF v1] g by blast
    have m2: "moves (sent sid (Some d)) ss ?ss2"
    proof (rule moves_left [OF cl(4,5)])
      show "moves (sent sid (Some d)) ss1 ?ss2"
        by (rule moves_sent [OF v1 _ _ _ i_def [symmetric]]) (use g cd cl(5,6) in simp_all)
    qed
    define r where "r = \<lparr>rq_id = sid, rq_sz = 0, rq_buffer = None\<rparr>"
    define p where "p = \<lparr>pk_type = CHR ''W'', pk_len = word_of_nat sizeof_send, pk_body = U_send r\<rparr>"
    have p: "pk_wf p" "\<not> opens p" "pk_send p = None" "\<forall>x. pk_id p = Some x \<longrightarrow> x \<le> ss_alloc_id ?ss2"
      using server_invD(3) [OF v] cd(1,2) cl(7) unfolding ids_ok_def live_def
      by (auto simp: p_def r_def pk_wf_def opens_def pk_send_def pk_id_def)
    obtain tr where s: "send_request K CHR ''W'' sizeof_send (U_send r) ?ss2 =
        ?ss2\<lparr>ss_trace := ss_trace ?ss2 @ tr, ss_pipe := ss_pipe ?ss2 @ [p]\<rparr>" "\<And>x. wire x tr = []"
      using send_requestE [of K "CHR ''W''" sizeof_send "U_send r" ?ss2] unfolding p_def by metis
    let ?ss' = "?ss2\<lparr>ss_trace := ss_trace ?ss2 @ tr, ss_pipe := ss_pipe ?ss2 @ [p]\<rparr>"
    note ap = inv_append [OF v2 p s(2)]
    have "moves (sent sid (Some d)) ss ?ss'"
      by (rule moves_right [OF m2 ap [THEN conjunct2]]) (auto simp: accepts_def upd_slot_def cl(5))
    moreover have "direct_write K i (buf_of sid t b d) ss = Some (0, ?ss')"
    proof -
      have "clone_buffer (buf_of sid t b d) (upd_slot i ?f (sys_log ?e ss)) =
          Some (Some (c, 0), int (length d), upd_slot i ?f (ss1\<lparr>ss_trace := ss_trace ss @ [?e]\<rparr>))"
        using cl(1) by (simp add: sys_log_def)
      then show ?thesis
        using sendbuffer_object [OF t sz] tcp cd(2) wr False sw s(1)
        by (simp add: direct_write_def Let_def n_def [symmetric] r_def [symmetric])
    qed
    ultimately show ?thesis using ap unfolding i_def by blast
  qed
qed

section \<open>The functions of the interface\<close>

lemma moves_vacuous:
  assumes "moves still ss ss'" "\<And>bs. stream_rel sid ss bs \<Longrightarrow> accepts (ss_slot ss (HASH_ID sid)) sid \<Longrightarrow> False"
  shows "moves (sent sid e) ss ss'"
proof (rule movesI)
  fix x bs d
  assume a: "stream_rel x ss bs" "accepts (ss_slot ss (HASH_ID x)) x" "live (ss_slot ss' (HASH_ID x))"
    "sk_id (ss_slot ss' (HASH_ID x)) = x" "sent sid e x = Some d"
  have "x \<noteq> sid" using a(1,2) assms(2) by blast
  then have "d = []" using a(5) by (simp add: sent_def)
  then show "stream_rel x ss' (bs @ d)" using moves_rel [OF assms(1) a(1-4)] by (simp add: still_def)
qed (use assms(1) moves_closed in blast)

lemma inv_log:
  assumes "server_inv ow ss" "\<And>x. written x e = []"
  shows "server_inv ow (sys_log e ss) \<and> calm ss (sys_log e ss)"
  using assms calm_log [of e ss] calm_inv [OF calm_log, of e ow ss] server_invD(6) [OF assms(1)] events_ok_same [of "sys_log e ss" ss] by simp

text \<open>What a caller has to keep to: a stream, not being opened, with less than 65535 requests in the pipe.\<close>

definition may_send :: "int \<Rightarrow> socket_server \<Rightarrow> bool" where
  "may_send sid ss \<longleftrightarrow> socket_invalid (ss_slot ss (HASH_ID sid)) sid \<or>
     (sk_type (ss_slot ss (HASH_ID sid)) \<noteq> SOCKET_TYPE_RESERVE \<and> pcount sid (ss_pipe ss) < 65535)"

lemma may_send_live: "may_send sid ss \<Longrightarrow> \<not> socket_invalid (ss_slot ss (HASH_ID sid)) sid \<Longrightarrow>
    live (ss_slot ss (HASH_ID sid)) \<and> sk_id (ss_slot ss (HASH_ID sid)) = sid \<and> pcount sid (ss_pipe ss) < 65535"
  by (auto simp: may_send_def socket_invalid_def live_def)

lemma socket_server_send_ok:
  assumes K: "kernel_ok K" and v: "server_inv ow ss" and b: "loose ow b d ss" and t: "t \<noteq> SOCKET_BUFFER_OBJECT"
    and sz: "int (length d) \<le> INT_MAX" and m: "may_send sid ss"
    and tcp: "socket_invalid (ss_slot ss (HASH_ID sid)) sid \<or> sk_protocol (ss_slot ss (HASH_ID sid)) = PROTOCOL_TCP"
  shows "\<exists>r ss' ow'. socket_server_send K (buf_of sid t b d) ss = Some (r, ss') \<and> server_inv ow' ss' \<and>
    moves (sent sid (Some d)) ss ss'"
proof -
  define i where "i = HASH_ID sid"
  let ?s = "ss_slot ss i"
  show ?thesis
  proof (cases "socket_invalid ?s sid \<or> sk_closing ?s")
    case True
    obtain ss' where f: "free_buffer (buf_of sid t b d) ss = Some ss'" "server_inv ow ss'" "moves still ss ss'"
      using free_object_ok [OF v b t] by blast
    have "moves (sent sid (Some d)) ss ss'"
      using True by (intro moves_vacuous [OF f(3)]) (auto simp: accepts_def socket_invalid_def i_def)
    moreover have "socket_server_send K (buf_of sid t b d) ss = Some (-1, ss')"
      using True f(1) by (simp add: socket_server_send_def Let_def i_def)
    ultimately show ?thesis using f(2) by blast
  next
    case False
    have l: "live ?s" "sk_id ?s = sid" "pcount sid (ss_pipe ss) < 65535" using may_send_live [OF m] False by (auto simp: i_def)
    have tcp: "sk_protocol ?s = PROTOCOL_TCP" using tcp False by (simp add: i_def)
    define ss1 where "ss1 = sys_log (Sys_trylock (int i)) ss"
    have s1: "server_inv ow ss1" "calm ss ss1" "ss_slot ss1 = ss_slot ss" "ss_pipe ss1 = ss_pipe ss" "loose ow b d ss1"
      using inv_log [OF v, of "Sys_trylock (int i)"] b by (auto simp: ss1_def loose_def)
    have pipe: "\<exists>ss'. send_by_pipe K CHR ''D'' i (buf_of sid t b d) ss0 = Some (0, ss') \<and> server_inv ow ss' \<and>
        moves (sent sid (Some d)) ss ss'" if "ss0 = ss \<or> ss0 = ss1" for ss0
      using that send_by_pipe_ok [OF v b t sz, of sid "CHR ''D''" K] send_by_pipe_ok [OF s1(1,5) t sz, of sid "CHR ''D''" K]
        l s1(3,4) calm_moves_left [OF s1(2)] unfolding i_def by fastforce
    show ?thesis
    proof (cases "can_direct_write ?s sid")
      case can: True
      show ?thesis
      proof (cases "k_trylock K (ss_trace ss)")
        case True
        have "socket_server_send K (buf_of sid t b d) ss = direct_write K i (buf_of sid t b d) ss1"
          using False can True by (simp add: socket_server_send_def Let_def socket_trylock_def i_def [symmetric] ss1_def)
        moreover have "\<exists>r ss' ow'. direct_write K i (buf_of sid t b d) ss1 = Some (r, ss') \<and> server_inv ow' ss' \<and>
            moves (sent sid (Some d)) ss1 ss'"
          using direct_write_ok [OF K s1(1,5) t sz, of sid] can tcp s1(3) by (simp add: i_def)
        ultimately show ?thesis using calm_moves_left [OF s1(2)] by metis
      next
        case nolock: False
        have "socket_server_send K (buf_of sid t b d) ss = send_by_pipe K CHR ''D'' i (buf_of sid t b d) ss1"
          using False can nolock by (simp add: socket_server_send_def Let_def socket_trylock_def i_def [symmetric] ss1_def)
        then show ?thesis using pipe [of ss1] by auto
      qed
    next
      case cannot: False
      have "socket_server_send K (buf_of sid t b d) ss = send_by_pipe K CHR ''D'' i (buf_of sid t b d) ss"
        using False cannot by (simp add: socket_server_send_def Let_def i_def [symmetric])
      then show ?thesis using pipe [of ss] by auto
    qed
  qed
qed

lemma socket_server_send_lowpriority_ok:
  assumes v: "server_inv ow ss" and b: "loose ow b d ss" and t: "t \<noteq> SOCKET_BUFFER_OBJECT"
    and sz: "int (length d) \<le> INT_MAX" and m: "may_send sid ss"
  shows "\<exists>r ss'. socket_server_send_lowpriority K (buf_of sid t b d) ss = Some (r, ss') \<and> server_inv ow ss' \<and>
    moves (sent sid None) ss ss'"
proof (cases "socket_invalid (ss_slot ss (HASH_ID sid)) sid")
  case True
  obtain ss' where f: "free_buffer (buf_of sid t b d) ss = Some ss'" "server_inv ow ss'" "moves still ss ss'"
    using free_object_ok [OF v b t] by blast
  have "moves (sent sid None) ss ss'"
    using True by (intro moves_vacuous [OF f(3)]) (auto simp: accepts_def socket_invalid_def)
  then show ?thesis using True f by (simp add: socket_server_send_lowpriority_def Let_def)
next
  case False
  have l: "live (ss_slot ss (HASH_ID sid))" "sk_id (ss_slot ss (HASH_ID sid)) = sid" "pcount sid (ss_pipe ss) < 65535"
    using may_send_live [OF m False] by auto
  from send_by_pipe_ok [OF v b t sz l(1,2), of "CHR ''P''" K] l(3) show ?thesis
    using False by (auto simp: socket_server_send_lowpriority_def Let_def)
qed

end
