(* ===== verification/Socket_Ops.thy ===== *)
theory Socket_Ops
  imports Socket_Sending
begin

text \<open>
  The other functions that workers call: requests without data, packets, and the functions that
  reserve an id.
\<close>

section \<open>Requests without data\<close>

lemma send_request_ok:
  assumes v: "server_inv ow ss" and p: "pk_wf p" "\<not> opens p" "pk_send p = None" "\<forall>x. pk_id p = Some x \<longrightarrow> x \<le> ss_alloc_id ss"
    and e: "p = \<lparr>pk_type = t, pk_len = word_of_nat n, pk_body = body\<rparr>"
  shows "server_inv ow (send_request K t n body ss) \<and> moves still ss (send_request K t n body ss)"
proof -
  obtain tr where s: "send_request K t n body ss = ss\<lparr>ss_trace := ss_trace ss @ tr, ss_pipe := ss_pipe ss @ [p]\<rparr>" "\<And>x. wire x tr = []"
    using send_requestE [of K t n body ss] unfolding e by metis
  then show ?thesis using inv_append [OF v p s(2)] by simp
qed

lemma send_request_slot: "ss_slot (send_request K t n body ss) = ss_slot ss"
  by (rule send_requestE [of K t n body ss]) simp

lemmas request_defs = pk_wf_def opens_def pk_send_def pk_id_def

lemma plain_requests_ok:
  assumes v: "server_inv ow ss" and a: "sid \<le> ss_alloc_id ss"
  shows "server_inv ow (socket_server_close K q sid ss) \<and> moves still ss (socket_server_close K q sid ss)"
    and "server_inv ow (socket_server_shutdown K q sid ss) \<and> moves still ss (socket_server_shutdown K q sid ss)"
    and "server_inv ow (socket_server_start K q sid ss) \<and> moves still ss (socket_server_start K q sid ss)"
    and "server_inv ow (socket_server_pause K q sid ss) \<and> moves still ss (socket_server_pause K q sid ss)"
    and "server_inv ow (socket_server_nodelay K sid ss) \<and> moves still ss (socket_server_nodelay K sid ss)"
  unfolding socket_server_close_def socket_server_shutdown_def socket_server_start_def socket_server_pause_def
    socket_server_nodelay_def
  using a by (intro send_request_ok [OF v _ _ _ _ refl]; simp add: request_defs)+

lemma exit_ok:
  assumes v: "server_inv ow ss"
  shows "server_inv ow (socket_server_exit K ss) \<and> moves still ss (socket_server_exit K ss)"
  unfolding socket_server_exit_def by (intro send_request_ok [OF v _ _ _ _ refl]) (simp_all add: request_defs)

section \<open>UDP\<close>

text \<open>A field of a slot changes that no other part relies on.\<close>

lemma inv_touch:
  assumes v: "server_inv ow ss" and f: "same_bufs (ss_slot ss i) (f (ss_slot ss i))" "sk_p (f (ss_slot ss i)) = sk_p (ss_slot ss i)"
    "sk_type (f (ss_slot ss i)) = sk_type (ss_slot ss i)"
  shows "server_inv ow (upd_slot i f ss) \<and> moves still ss (upd_slot i f ss)"
proof -
  let ?ss = "upd_slot i f ss"
  have k: "sk_id (ss_slot ?ss j) = sk_id (ss_slot ss j)" "sk_type (ss_slot ?ss j) = sk_type (ss_slot ss j)"
    "sk_protocol (ss_slot ?ss j) = sk_protocol (ss_slot ss j)" "sk_sending (ss_slot ?ss j) = sk_sending (ss_slot ss j)" for j
    using f by (auto simp: upd_slot_def same_bufs_def)
  have l: "live (ss_slot ?ss j) = live (ss_slot ss j)" for j by (simp only: live_def k)
  have sb: "same_bufs (ss_slot ss j) (ss_slot ?ss j)" "sk_p (ss_slot ?ss j) = sk_p (ss_slot ss j)" for j
    using f by (auto simp: upd_slot_def same_bufs_def)
  have si: "sinv ow j ?ss" for j
  proof -
    have "slot_inv m brk ow j (ss_slot ?ss j) = slot_inv m brk ow j (ss_slot ss j)" for m brk
      using bufs_ok_same [OF sb(1)] conn_ok_same [OF sb] sb(1) [of j]
      unfolding slot_inv_def l closed_ok_def same_bufs_def by simp
    then show ?thesis using server_invD(1) [OF v, of j] unfolding sinv_def by (simp add: upd_slot_def)
  qed
  have u: "ss_mem ?ss = ss_mem ss" "ss_brk ?ss = ss_brk ss" "ss_pipe ?ss = ss_pipe ss" "ss_alloc_id ?ss = ss_alloc_id ss"
    "ss_ev ?ss = ss_ev ss" "ss_event_n ?ss = ss_event_n ss" "ss_event_index ?ss = ss_event_index ss" "ss_trace ?ss = ss_trace ss"
    by (simp_all add: upd_slot_def)
  have i: "server_inv ow ?ss"
    using v si unfolding server_inv_def ids_ok_def id_range_def pipe_ok_def reserved_ids_def counts_ok_def count_ok_def
      events_ok_def event_slots_def k l u by blast
  have "pending m (ss_slot ?ss j) q = pending m (ss_slot ss j) q" for m j q
    using same_bufs_dw [OF sb(1) [of j], of m] sb(1) [of j] unfolding pending_def same_bufs_def by simp
  then show ?thesis
    using i unfolding moves_def still_def stream_rel_def id_closed_def k l u by simp
qed

lemma udp_connect_ok:
  assumes K: "kernel_ok K" and v: "server_inv ow ss" and a: "sid \<le> ss_alloc_id ss"
  shows "\<exists>r ss'. socket_server_udp_connect K sid host port ss = Some (r, ss') \<and> server_inv ow ss' \<and> moves still ss ss'"
proof (cases "socket_invalid (ss_slot ss (HASH_ID sid)) sid")
  case True
  then show ?thesis using v moves_calm [OF calm_refl] by (simp add: socket_server_udp_connect_def Let_def)
next
  case False
  let ?f = "\<lambda>s :: socket. s\<lparr>sk_udpconnecting := sk_udpconnecting s + 1\<rparr>" let ?i = "HASH_ID sid"
  let ?ss1 = "upd_slot ?i ?f ss" let ?ss2 = "sys_log (Sys_getaddrinfo host port) ?ss1"
  have 1: "server_inv ow ?ss1 \<and> moves still ss ?ss1" by (rule inv_touch [OF v]) (simp_all add: same_bufs_def)
  have 2: "server_inv ow ?ss2" "calm ?ss1 ?ss2" using inv_log [of ow ?ss1] 1 by auto
  have m2: "moves still ss ?ss2" using calm_moves_right 1 2 by blast
  show ?thesis
  proof (cases "k_getaddrinfo K (ss_trace ss) host port")
    case (Inl e)
    then show ?thesis using False 2 m2 by (simp add: socket_server_udp_connect_def Let_def)
  next
    case (Inr ai)
    have ai: "ai \<noteq> []" "\<forall>x \<in> set ai. fst x = AF_OTHER \<or> (fst x = AF_INET) = is_v4 (snd x)"
      using kernel_okD(7) [OF K Inr] by auto
    obtain fam sa rest where x: "ai = (fam, sa) # rest" using ai(1) by (cases ai) auto
    show ?thesis
    proof (cases "fam = AF_OTHER")
      case True
      then show ?thesis using False Inr x 2 m2 by (simp add: socket_server_udp_connect_def Let_def)
    next
      case nf: False
      let ?pro = "if fam = AF_INET then PROTOCOL_UDP else PROTOCOL_UDPv6"
      obtain ad where ad: "gen_udp_address ?pro sa = Some ad" "ad \<noteq> []" "ad ! 0 \<noteq> PROTOCOL_TCP"
        using ai(2) nf x by (cases sa) (auto simp: protocol_defs)
      let ?n = "sizeof_set_udp - UDP_ADDRESS_SIZE + length ad"
      let ?ss3 = "send_request K CHR ''C'' ?n (U_set_udp sid ad) ?ss2"
      have 3: "server_inv ow ?ss3 \<and> moves still ?ss2 ?ss3"
        by (rule send_request_ok [OF 2(1) _ _ _ _ refl]) (use ad a in \<open>simp_all add: request_defs\<close>)
      have "accepts (ss_slot ?ss2 j) x = accepts (ss_slot ss j) x" for j x by (simp add: accepts_def upd_slot_def)
      then have "moves still ss ?ss3" using moves_right [OF m2 _ send_request_slot] 3 by simp
      moreover have "socket_server_udp_connect K sid host port ss = Some (0, ?ss3)"
        using False Inr x nf ad(1) by (simp add: socket_server_udp_connect_def Let_def)
      ultimately show ?thesis using 3 by blast
    qed
  qed
qed

lemma udp_pipe_ok:
  assumes v: "server_inv ow ss" and b: "loose ow b d ss" and t: "t \<noteq> SOCKET_BUFFER_OBJECT" and sz: "int (length d) \<le> INT_MAX"
    and l: "live (ss_slot ss (HASH_ID sid))" "sk_id (ss_slot ss (HASH_ID sid)) = sid"
    and u: "sk_protocol (ss_slot ss (HASH_ID sid)) \<noteq> PROTOCOL_TCP"
  shows "\<exists>ss'. (clone_buffer (buf_of sid t b d) ss \<bind> (\<lambda>(buffer, sz, ss). Some (0, send_request K CHR ''A'' n
      (U_send_udp \<lparr>rq_id = sid, rq_sz = sz, rq_buffer = buffer\<rparr> a) ss))) = Some (0 :: int, ss') \<and> server_inv ow ss' \<and> moves (sent sid None) ss ss'"
proof -
  let ?i = "HASH_ID sid"
  obtain e ss1 where cl: "\<And>f tr. clone_buffer (buf_of sid t b d) (upd_slot ?i f (ss\<lparr>ss_trace := tr\<rparr>)) =
      Some (Some (e, 0), int (length d), upd_slot ?i f (ss1\<lparr>ss_trace := tr\<rparr>))"
    "server_inv ow ss1" "loose ow e d ss1" "moves still ss ss1" "ss_slot ss1 = ss_slot ss" "ss_trace ss1 = ss_trace ss"
    using clone_ok [OF v b t] by metis
  have same: "upd_slot i (\<lambda>s. s) x = x" for i x by (simp add: upd_slot_def)
  have tr: "ss1\<lparr>ss_trace := ss_trace ss\<rparr> = ss1" unfolding cl(6) [symmetric] by simp
  have c: "clone_buffer (buf_of sid t b d) ss = Some (Some (e, 0), int (length d), ss1)"
    using cl(1) [of "\<lambda>s. s" "ss_trace ss"] unfolding same tr by simp
  let ?r = "\<lparr>rq_id = sid, rq_sz = int (length d), rq_buffer = Some (e, 0)\<rparr>"
  define p where "p = \<lparr>pk_type = CHR ''A'', pk_len = word_of_nat n, pk_body = U_send_udp ?r a\<rparr>"
  have p: "pk_wf p" "pk_send p = Some ?r" "pk_type p = CHR ''A''" by (simp_all add: p_def pk_wf_def pk_send_def)
  have cs: "counted_slot p = (\<lambda>s. s)" using p(3) by (simp add: fun_eq_iff counted_slot_def)
  obtain tr where s: "send_request K CHR ''A'' n (U_send_udp ?r a) ss1 =
      ss1\<lparr>ss_trace := ss_trace ss1 @ tr, ss_pipe := ss_pipe ss1 @ [p]\<rparr>" "\<And>x. wire x tr = []"
    using send_requestE [of K "CHR ''A''" n "U_send_udp ?r a" ss1] unfolding p_def by metis
  have "server_inv ow (ss1\<lparr>ss_trace := ss_trace ss1 @ tr, ss_pipe := ss_pipe ss1 @ [p]\<rparr>) \<and>
      moves (sent sid None) ss1 (ss1\<lparr>ss_trace := ss_trace ss1 @ tr, ss_pipe := ss_pipe ss1 @ [p]\<rparr>)"
    using inv_send_msg [OF cl(2,3) sz _ _ p(1,2) _ _ s(2) refl] l u p(3) cl(5) unfolding cs same by simp
  then show ?thesis using c s(1) moves_left [OF cl(4,5)] by simp
qed

lemma direct_sendto_ok:
  assumes v: "server_inv ow ss" and b: "loose ow b d ss" and t: "t \<noteq> SOCKET_BUFFER_OBJECT" and sz: "int (length d) \<le> INT_MAX"
  shows "\<exists>r ss'. direct_sendto K i a (buf_of sid t b d) ss = Some (r, ss') \<and> server_inv ow ss' \<and> moves still ss ss' \<and>
    (r = None \<longrightarrow> calm ss ss' \<and> loose ow b d ss')"
proof (cases "udp_socket_address (ss_slot ss i) a")
  case None
  obtain ss' where "free_func \<lparr>so_buffer = Some (b, 0), so_sz = int (length d), so_free = t\<rparr> (Some (b, 0)) ss = Some ss'"
      "server_inv ow ss'" "moves still ss ss'"
    using free_object_ok [OF v b t] by blast
  then show ?thesis using None sendbuffer_object [OF t sz] by (simp add: direct_sendto_def Let_def)
next
  case (Some sa)
  let ?s = "ss_slot ss i"
  obtain n e where w: "k_sendto K (ss_trace ss) (sk_fd ?s) d sa = (n, e)" by force
  let ?ss1 = "sys_log (Sys_sendto (sk_id ?s) (sk_fd ?s) d sa n) ss"
  have 1: "server_inv ow ?ss1" "calm ss ?ss1" using inv_log [OF v] by auto
  have md: "mem_read (ss_mem ss) (Some (b, 0)) (int (length d)) = Some d" using b by (intro mem_read_all) (simp add: loose_def)
  have so: "sys_sendto K (sk_id ?s) (sk_fd ?s) (Some (b, 0)) (int (length d)) sa ss = Some (n, e, ?ss1)"
    using w md by (simp add: sys_sendto_def)
  let ?ss2 = "stat_write i n ?ss1"
  have 2: "server_inv ow ?ss2 \<and> moves still ?ss1 ?ss2"
    unfolding stat_write_def by (rule inv_touch [OF 1(1)]) (simp_all add: same_bufs_def)
  have b2: "loose ow b d ?ss1" "loose ow b d ?ss2" using b by (simp_all add: loose_def stat_write_def)
  obtain ss3 where f: "free_func \<lparr>so_buffer = Some (b, 0), so_sz = int (length d), so_free = t\<rparr> (Some (b, 0)) ?ss2 = Some ss3"
      "server_inv ow ss3" "moves still ?ss2 ss3" "ss_slot ss3 = ss_slot ?ss2"
    using free_object_ok [OF _ b2(2) t] 2 by blast
  have acc: "accepts (ss_slot ?ss2 j) x = accepts (ss_slot ss j) x" for j x by (simp add: accepts_def stat_write_def upd_slot_def)
  have "moves still ss ss3"
    using moves_right [OF calm_moves_left [OF 1(2)] f(3,4)] 2 acc by simp
  then show ?thesis
    using Some sendbuffer_object [OF t sz] so f 1 b2(1) moves_calm [OF 1(2)] by (simp add: direct_sendto_def Let_def)
qed

lemma socket_server_udp_send_ok:
  assumes v: "server_inv ow ss" and b: "loose ow b d ss" and t: "t \<noteq> SOCKET_BUFFER_OBJECT"
    and sz: "int (length d) \<le> INT_MAX" and m: "may_send sid ss"
    and u: "socket_invalid (ss_slot ss (HASH_ID sid)) sid \<or> sk_protocol (ss_slot ss (HASH_ID sid)) \<noteq> PROTOCOL_TCP"
  shows "\<exists>r ss'. socket_server_udp_send K a (buf_of sid t b d) ss = Some (r, ss') \<and> server_inv ow ss' \<and> moves still ss ss'"
proof -
  define i where "i = HASH_ID sid"
  let ?s = "ss_slot ss i" let ?buf = "buf_of sid t b d"
  obtain ssf where f: "free_buffer ?buf ss = Some ssf" "server_inv ow ssf" "moves still ss ssf"
    using free_object_ok [OF v b t] by blast
  show ?thesis
  proof (cases "socket_invalid ?s sid \<or> udp_address_size (a ! 0) = None")
    case True
    then show ?thesis using f by (auto simp: socket_server_udp_send_def Let_def i_def split: option.splits)
  next
    case False
    then obtain addrsz where az: "udp_address_size (a ! 0) = Some addrsz" by auto
    have l: "live ?s" "sk_id ?s = sid" using may_send_live [OF m] False by (auto simp: i_def)
    have u: "sk_protocol ?s \<noteq> PROTOCOL_TCP" using u False by (simp add: i_def)
    define snd_it where "snd_it ss0 = (clone_buffer ?buf ss0 \<bind> (\<lambda>(buffer, sz, ss). Some (0 :: int, send_request K CHR ''A'' (sizeof_send + addrsz)
      (U_send_udp \<lparr>rq_id = sid, rq_sz = sz, rq_buffer = buffer\<rparr> (take addrsz a)) ss)))" for ss0
    have pipe: "\<exists>ss'. snd_it ss0 = Some (0, ss') \<and> server_inv ow ss' \<and> moves still ss ss'"
      if c: "server_inv ow ss0" "loose ow b d ss0" "calm ss ss0" for ss0
    proof -
      have sl: "ss_slot ss0 = ss_slot ss" using c(3) by (simp add: calm_def)
      obtain ss' where s: "snd_it ss0 = Some (0, ss')" "server_inv ow ss'" "moves (sent sid None) ss0 ss'"
        using udp_pipe_ok [OF c(1,2) t sz, of sid K "sizeof_send + addrsz" "take addrsz a"] l u sl unfolding i_def snd_it_def by auto
      have "moves still ss ss'"
      proof (rule movesI)
        fix x bs e
        assume a: "stream_rel x ss bs" "accepts (ss_slot ss (HASH_ID x)) x" "live (ss_slot ss' (HASH_ID x))"
          "sk_id (ss_slot ss' (HASH_ID x)) = x" "still x = Some e"
        have "x \<noteq> sid" using a(2) u by (auto simp: accepts_def i_def)
        then show "stream_rel x ss' (bs @ e)"
          using moves_rel [OF calm_moves_left [OF c(3) s(3)] a(1-4)] a(5) by (simp add: sent_def still_def)
      qed (use moves_closed [OF calm_moves_left [OF c(3) s(3)]] in blast)
      then show ?thesis using s by blast
    qed
    define ss1 where "ss1 = sys_log (Sys_trylock (int i)) ss"
    have s1: "server_inv ow ss1" "calm ss ss1" "ss_slot ss1 = ss_slot ss" "loose ow b d ss1"
      using inv_log [OF v, of "Sys_trylock (int i)"] b by (auto simp: ss1_def loose_def)
    have run: "socket_server_udp_send K a ?buf ss =
      (if can_direct_write ?s sid then
        (if k_trylock K (ss_trace ss) then
          (direct_sendto K i a ?buf ss1 \<bind> (\<lambda>(r, ss). case r of Some r \<Rightarrow> Some (r, ss) | None \<Rightarrow> snd_it ss))
         else snd_it ss1)
       else snd_it ss)"
      using False az unfolding socket_server_udp_send_def snd_it_def ss1_def
      by (simp add: Let_def socket_trylock_def i_def [symmetric])
    obtain r ss2 where d: "direct_sendto K i a ?buf ss1 = Some (r, ss2)" "server_inv ow ss2" "moves still ss1 ss2"
      "r = None \<longrightarrow> calm ss1 ss2 \<and> loose ow b d ss2"
      using direct_sendto_ok [OF s1(1,4) t sz, of K i a sid] by blast
    show ?thesis
      using run d pipe [OF v b calm_refl] pipe [OF s1(1,4,2)] pipe [OF d(2)] calm_trans [OF s1(2)] calm_moves_left [OF s1(2)]
      by (cases r) (auto split: if_splits)
  qed
qed

section \<open>Reserving\<close>

lemma inv_full:
  assumes v: "server_inv ow ss" and n: "ss_alloc_id ss \<le> n" "n \<le> INT_MAX"
  shows "server_inv ow (ss\<lparr>ss_alloc_id := n\<rparr>) \<and> moves still ss (ss\<lparr>ss_alloc_id := n\<rparr>)"
proof -
  let ?ss = "ss\<lparr>ss_alloc_id := n\<rparr>"
  have "ids_ok ?ss" using server_invD(3) [OF v] n unfolding ids_ok_def id_range_def by fastforce
  then have "server_inv ow ?ss"
    using v by (simp add: server_inv_def sinv_def pipe_ok_def reserved_ids_def counts_ok_def events_ok_def event_slots_def)
  moreover have "moves still ss ?ss" using n by (auto simp: moves_def still_def stream_rel_def id_closed_def)
  ultimately show ?thesis by blast
qed

text \<open>The counter does not wrap, and no event of the batch waits for the slot.\<close>

definition has_room :: "socket_server \<Rightarrow> bool" where
  "has_room ss \<longleftrightarrow> ss_alloc_id ss + 65536 \<le> INT_MAX"

definition may_reserve :: "socket_server \<Rightarrow> bool" where
  "may_reserve ss \<longleftrightarrow> has_room ss \<and> HASH_ID (fst (reserve_id ss)) \<notin> event_slots ss"

lemma reserve_cases:
  assumes v: "server_inv ow ss" and r: "has_room ss"
  obtains (found) sid where "reserve_id ss = (sid, upd_slot (HASH_ID sid) (reserve_slot sid) (ss\<lparr>ss_alloc_id := sid\<rparr>))"
      "ss_alloc_id ss < sid" "sid \<le> INT_MAX" "0 \<le> sid" "sk_type (ss_slot ss (HASH_ID sid)) = SOCKET_TYPE_INVALID"
  | (full) n where "reserve_id ss = (-1, ss\<lparr>ss_alloc_id := n\<rparr>)" "ss_alloc_id ss \<le> n" "n \<le> INT_MAX"
proof -
  have ir: "id_range ss" using server_invD(3) [OF v] by (simp add: ids_ok_def)
  have at: "id_at ss k = ss_alloc_id ss + k" if "1 \<le> k" "k \<le> 65536" for k
    using r ir that by (simp add: id_at_def has_room_def id_range_def INT_MAX_def)
  show ?thesis
    using ir
  proof (cases rule: reserve_id_cases)
    case (found k)
    then show ?thesis using at [OF found(1,2)] ir r
      by (intro that(1) [of "id_at ss k"]) (auto simp: reserved_def slot_free_def id_range_def has_room_def)
  next
    case full
    then show ?thesis using at [of 65536] r by (intro that(2) [of "id_at ss 65536"]) (auto simp: has_room_def)
  qed
qed

lemma reserve_from_trace:
  "reserve_from i (ss\<lparr>ss_trace := t\<rparr>) = (case reserve_from i ss of (x, s) \<Rightarrow> (x, s\<lparr>ss_trace := t\<rparr>))"
proof (induction i ss rule: reserve_from.induct)
  case (1 i ss)
  obtain sid ss1 where n: "next_id ss = (sid, ss1)" by force
  have n': "next_id (ss\<lparr>ss_trace := t\<rparr>) = (sid, ss1\<lparr>ss_trace := t\<rparr>)"
    using n by (auto simp: next_id_def Let_def split: if_splits)
  show ?case
    using 1 [OF _ n [symmetric] refl] by (subst (1 2) reserve_from.simps) (simp add: n n' upd_slot_def)
qed

lemma logs_inv: "server_inv ow ss \<Longrightarrow> logs ss ss' \<Longrightarrow> server_inv ow ss' \<and> calm ss ss' \<and> event_slots ss' = event_slots ss"
  using calm_inv [of ss ss' ow] events_ok_same [of ss' ss] server_invD(6) [of ow ss]
  by (auto simp: logs_def calm_def event_slots_def)

lemma reserve_step:
  assumes v: "server_inv ow ss" and r: "may_reserve ss" and l: "logs ss ss0"
    and p: "\<And>sid. pk_wf (p sid) \<and> opens (p sid) \<and> pk_id (p sid) = Some sid"
      "\<And>sid. p sid = \<lparr>pk_type = t, pk_len = word_of_nat n, pk_body = body sid\<rparr>"
    and id: "reserve_id ss0 = (sid, ss1)"
  shows "sid < 0 \<Longrightarrow> logs ss1 ss2 \<Longrightarrow> server_inv ow ss2 \<and> moves still ss ss2"
    and "\<not> sid < 0 \<Longrightarrow> server_inv ow (send_request K t n (body sid) ss1) \<and> moves still ss (send_request K t n (body sid) ss1)"
proof -
  have v0: "server_inv ow ss0" "calm ss ss0" "event_slots ss0 = event_slots ss" using logs_inv [OF v l] by auto
  have room: "has_room ss0" using r v0(2) by (simp add: may_reserve_def has_room_def calm_def)
  obtain tr where "ss0 = ss\<lparr>ss_trace := tr\<rparr>" using l unfolding logs_def by blast
  then have ev: "HASH_ID sid \<notin> event_slots ss0"
    using r id reserve_from_trace [of 0 tr ss] unfolding may_reserve_def v0(3) reserve_id_def by (simp split: prod.splits)
  show "server_inv ow ss2 \<and> moves still ss ss2" if n: "sid < 0" "logs ss1 ss2"
    using v0(1) room
  proof (cases rule: reserve_cases)
    case (found x)
    then show ?thesis using id n by simp
  next
    case (full n)
    then have "server_inv ow ss1 \<and> moves still ss0 ss1" using inv_full [OF v0(1)] id by simp
    then show ?thesis
      using logs_inv [of ow ss1, OF _ \<open>logs ss1 ss2\<close>] calm_moves_right calm_moves_left [OF v0(2)] by blast
  qed
  show "server_inv ow (send_request K t n (body sid) ss1) \<and> moves still ss (send_request K t n (body sid) ss1)" if "\<not> sid < 0"
    using v0(1) room
  proof (cases rule: reserve_cases)
    case (found x)
    have x: "x = sid" "ss1 = upd_slot (HASH_ID sid) (reserve_slot sid) (ss0\<lparr>ss_alloc_id := sid\<rparr>)" using found(1) id by auto
    obtain tr where s: "send_request K t n (body sid) ss1 = ss1\<lparr>ss_trace := ss_trace ss1 @ tr, ss_pipe := ss_pipe ss1 @ [p sid]\<rparr>"
      "\<And>x. wire x tr = []" using send_requestE [of K t n "body sid" ss1] unfolding p(2) by metis
    have "closed_ok (ss_slot ss0 (HASH_ID sid))"
      using server_invD(1) [OF v0(1), of "HASH_ID sid"] found(5) unfolding x(1) sinv_def slot_inv_def live_def by simp
    then have "taken sid [p sid] ss0 (send_request K t n (body sid) ss1)"
      using p(1) ev s(2) unfolding s(1) unfolding x(2) taken_def by (simp add: reserve_slot_def closed_ok_def live_def)
    from inv_take [OF v0(1) _ _ _ this] show ?thesis using found x(1) calm_moves_left [OF v0(2)] by blast
  next
    case (full n)
    then show ?thesis using id that by simp
  qed
qed

lemma logs_step: "(\<And>x. written x e = []) \<Longrightarrow> logs ss (sys_log e ss)"
  by (rule logs_log) simp_all

lemma close_logs: "logs ss (snd (sys_close K fd ss))"
  by (auto simp: sys_close_def intro!: logs_step)

lemma connect_ok:
  assumes v: "server_inv ow ss" and r: "may_reserve ss" and c: "socket_server_connect K opaque addr port ss = (x, ss')"
  shows "server_inv ow ss' \<and> moves still ss ss'"
proof -
  define body where "body sid = U_open \<lparr>ro_id = sid, ro_port = port, ro_opaque = opaque, ro_host = addr\<rparr>" for sid
  define n where "n = sizeof_open + length addr"
  define p where "p sid = \<lparr>pk_type = CHR ''O'', pk_len = word_of_nat n, pk_body = body sid\<rparr>" for sid
  have p: "pk_wf (p sid) \<and> opens (p sid) \<and> pk_id (p sid) = Some sid" for sid by (simp add: p_def body_def request_defs)
  obtain sid ss1 where id: "reserve_id ss = (sid, ss1)" by force
  note st = reserve_step [OF v r logs_refl p p_def id]
  have lg: "logs ss (skynet_error_log e ss)" for e by (auto simp: skynet_error_log_def intro!: logs_step)
  have er: "server_inv ow (skynet_error_log e ss) \<and> moves still ss (skynet_error_log e ss)" for e
    using logs_inv [OF v lg] moves_calm by blast
  show ?thesis using c st(1) [OF _ logs_refl] st(2) [where K = K] er
    by (auto simp: socket_server_connect_def open_request_def id Let_def body_def n_def split: if_splits)
qed

lemma bind_ok:
  assumes v: "server_inv ow ss" and r: "may_reserve ss" and c: "socket_server_bind K opaque fd ss = (x, ss')"
  shows "server_inv ow ss' \<and> moves still ss ss'"
proof -
  define body where "body sid = U_bind \<lparr>rb_id = sid, rb_fd = fd, rb_opaque = opaque\<rparr>" for sid
  define p where "p sid = \<lparr>pk_type = CHR ''B'', pk_len = word_of_nat sizeof_bind, pk_body = body sid\<rparr>" for sid
  have p: "pk_wf (p sid) \<and> opens (p sid) \<and> pk_id (p sid) = Some sid" for sid by (simp add: p_def body_def request_defs)
  obtain sid ss1 where id: "reserve_id ss = (sid, ss1)" by force
  note st = reserve_step [OF v r logs_refl p p_def id]
  show ?thesis using c st(1) [OF _ logs_refl] st(2) [where K = K]
    by (auto simp: socket_server_bind_def id Let_def body_def split: if_splits)
qed

lemma do_bind_logs: "do_bind K host port ss = (x, ss') \<Longrightarrow> logs ss ss'"
proof -
  assume a: "do_bind K host port ss = (x, ss')"
  have l: "logs ss s \<Longrightarrow> logs ss (snd (sys_close K fd s))" for s fd using logs_trans close_logs by blast
  show ?thesis using a unfolding do_bind_def Let_def
    by (auto split: sum.splits list.splits if_splits prod.splits intro!: l logs_log)
qed

lemma do_listen_logs:
  assumes "do_listen K host port backlog ss = (x, ss')"
  shows "logs ss ss'"
proof -
  obtain y ss1 where b: "do_bind K host port ss = (y, ss1)" by force
  note l1 = do_bind_logs [OF b]
  have l: "logs ss s \<Longrightarrow> logs ss (snd (sys_close K fd s))" for s fd using logs_trans close_logs by blast
  show ?thesis using assms b l1 unfolding do_listen_def Let_def
    by (auto split: option.splits if_splits prod.splits intro!: l logs_log)
qed

lemma listen_ok:
  assumes v: "server_inv ow ss" and r: "may_reserve ss" and c: "socket_server_listen K opaque addr port backlog ss = (x, ss')"
  shows "server_inv ow ss' \<and> moves still ss ss'"
proof -
  obtain y ss0 where b: "do_listen K addr port backlog ss = (y, ss0)" by force
  note l0 = do_listen_logs [OF b]
  show ?thesis
  proof (cases y)
    case None
    then show ?thesis using c b logs_inv [OF v l0] moves_calm by (auto simp: socket_server_listen_def)
  next
    case (Some fd)
    define body where "body sid = U_listen \<lparr>rl_id = sid, rl_fd = fd, rl_opaque = opaque\<rparr>" for sid
    define p where "p sid = \<lparr>pk_type = CHR ''L'', pk_len = word_of_nat sizeof_listen, pk_body = body sid\<rparr>" for sid
    have p: "pk_wf (p sid) \<and> opens (p sid) \<and> pk_id (p sid) = Some sid" for sid by (simp add: p_def body_def request_defs)
    obtain sid ss1 where id: "reserve_id ss0 = (sid, ss1)" by force
    note st = reserve_step [OF v r l0 p p_def id]
    show ?thesis using c b Some st(1) [OF _ close_logs [of ss1 K fd]] st(2) [where K = K]
      by (auto simp: socket_server_listen_def id Let_def body_def split: if_splits)
  qed
qed

lemma udp_ok:
  assumes v: "server_inv ow ss" and r: "may_reserve ss" and c: "socket_server_udp K opaque addr port ss = (x, ss')"
  shows "server_inv ow ss' \<and> moves still ss ss'"
proof -
  obtain y ss0 where b: "(if port \<noteq> 0 \<or> addr \<noteq> None then do_bind K addr port ss
         else (let fd = k_socket K (ss_trace ss) AF_INET
               in (if fd < 0 then None else Some (fd, AF_INET), sys_log (Sys_socket AF_INET) ss))) = (y, ss0)" by force
  have l0: "logs ss ss0" using b do_bind_logs [of K addr port ss] by (auto simp: Let_def split: if_splits intro!: logs_step)
  show ?thesis
  proof (cases y)
    case None
    then show ?thesis using c logs_inv [OF v l0] moves_calm unfolding socket_server_udp_def b by auto
  next
    case (Some z)
    obtain fd fam where z: "z = (fd, fam)" by force
    define body where "body sid = U_udp \<lparr>ru_id = sid, ru_fd = fd, ru_family = fam, ru_opaque = opaque\<rparr>" for sid
    define p where "p sid = \<lparr>pk_type = CHR ''U'', pk_len = word_of_nat sizeof_udp, pk_body = body sid\<rparr>" for sid
    have p: "pk_wf (p sid) \<and> opens (p sid) \<and> pk_id (p sid) = Some sid" for sid by (simp add: p_def body_def request_defs)
    have l1: "logs ss (sp_nonblocking fd ss0)" using l0 by (auto simp: sp_nonblocking_def intro!: logs_log)
    obtain sid ss1 where id: "reserve_id (sp_nonblocking fd ss0) = (sid, ss1)" by force
    note st = reserve_step [OF v r l1 p p_def id]
    show ?thesis using c Some z st(1) [OF _ close_logs [of ss1 K fd]] st(2) [where K = K] unfolding socket_server_udp_def b
      by (auto simp: id body_def split: if_splits)
  qed
qed

end
