(* ===== verification/Socket_Rounds.thy ===== *)
theory Socket_Rounds
  imports Socket_Ops
begin

text \<open>
  One round of the loop of the socket thread: a request of the pipe or an event. Every round
  returns, keeps the invariant, moves the streams only by what the requests carry, and reports
  \<open>SOCKET_CLOSE\<close> only for an id that was open for reading and is not any more.
\<close>

definition report_ok :: "socket_result option \<Rightarrow> socket_message \<Rightarrow> socket_server \<Rightarrow> socket_server \<Rightarrow> bool" where
  "report_ok t r ss ss' \<longleftrightarrow> (t = Some SOCKET_CLOSE \<longrightarrow> \<not> id_closed (rs_id r) ss \<and> id_closed (rs_id r) ss')"

definition round_ok :: "socket_server \<Rightarrow> handled \<Rightarrow> bool" where
  "round_ok ss h \<longleftrightarrow> (\<exists>t r ss' ow. h = Some (t, r, ss') \<and> server_inv ow ss' \<and> moves still ss ss' \<and> report_ok t r ss ss')"

lemma round_okI:
  "h = Some (t, r, ss') \<Longrightarrow> server_inv ow ss' \<Longrightarrow> moves still ss ss' \<Longrightarrow> report_ok t r ss ss' \<Longrightarrow> round_ok ss h"
  unfolding round_ok_def by blast

lemma report_ok_other: "t \<noteq> Some SOCKET_CLOSE \<Longrightarrow> report_ok t r ss ss'"
  by (simp add: report_ok_def)

lemma handled_round:
  assumes v: "server_inv ow ss" and l: "live (ss_slot ss i)" and h: "handled_ok ow i ss h"
  shows "round_ok ss h"
proof -
  obtain t r ss' where h: "h = Some (t, r, ss')" "evolve ow i ss ss'" "closes_ok i ss t r ss'"
    using h unfolding handled_ok_def by blast
  have g: "grow ow i ss ss'" using h(2) by (simp add: evolve_grow)
  have ids: "HASH_ID (sk_id (ss_slot ss i)) = i" "sk_id (ss_slot ss i) \<le> ss_alloc_id ss"
    using server_invD(3) [OF v] l unfolding ids_ok_def live_def by auto
  have k: "sk_id (ss_slot ss' i) = sk_id (ss_slot ss i)" "ss_alloc_id ss' = ss_alloc_id ss"
    using h(2) by (simp_all add: evolve_def keep_def frame_def)
  have "report_ok t r ss ss'"
    using h(3) l ids k unfolding report_ok_def closes_ok_def id_closed_def live_def by auto
  then show ?thesis using h(1) inv_grow [OF v g] moves_evolve [OF v h(2) l] by (intro round_okI)
qed

lemma same_round: "server_inv ow ss \<Longrightarrow> t \<noteq> Some SOCKET_CLOSE \<Longrightarrow> round_ok ss (Some (t, r, ss))"
  using moves_calm [OF calm_refl] report_ok_other by (intro round_okI) auto

lemma done_round:
  assumes "server_inv ow ss" "req_done ow i ss h"
  shows "round_ok ss h"
  using assms same_round handled_round unfolding req_done_def by blast

lemma round_left:
  assumes m: "moves still ss ss1" and s: "ss_slot ss1 = ss_slot ss" "ss_alloc_id ss1 = ss_alloc_id ss" and h: "round_ok ss1 h"
  shows "round_ok ss h"
proof -
  obtain t r ss' ow where h: "h = Some (t, r, ss')" "server_inv ow ss'" "moves still ss1 ss'" "report_ok t r ss1 ss'"
    using h unfolding round_ok_def by blast
  have "report_ok t r ss ss'" using h(4) by (simp add: report_ok_def id_closed_def s)
  then show ?thesis using h moves_left [OF m s(1)] by (intro round_okI) auto
qed

section \<open>Requests to send\<close>

lemma stream_relD:
  assumes "stream_rel sid ss bs"
  shows "live (ss_slot ss (HASH_ID sid))" "sk_id (ss_slot ss (HASH_ID sid)) = sid"
    "sk_protocol (ss_slot ss (HASH_ID sid)) = PROTOCOL_TCP" "\<forall>p \<in> set (for_id sid (ss_pipe ss)). pk_type p = CHR ''D''"
  using assms by (simp_all add: stream_rel_def)

lemma count_ok_same: "count_ok x s c \<Longrightarrow> (sk_id s' = x \<Longrightarrow> s' = s) \<Longrightarrow> count_ok x s' c"
  by (auto simp: count_ok_def)

definition decd :: "int \<Rightarrow> socket \<Rightarrow> socket" where
  "decd sid s = (if sk_id s = sid \<and> sk_protocol s = PROTOCOL_TCP then s\<lparr>sk_sending := sk_sending s - 1\<rparr> else s)"

lemma decd_simps [simp]:
  "sk_id (decd sid s) = sk_id s" "sk_type (decd sid s) = sk_type s" "sk_protocol (decd sid s) = sk_protocol s"
  "live (decd sid s) = live s" "pending m (decd sid s) = pending m s" "slot_inv m brk ow i (decd sid s) = slot_inv m brk ow i s"
  "sk_closing (decd sid s) = sk_closing s"
  by (simp_all add: decd_def)

text \<open>Taking the message and counting it down commutes with the step of the slot between them.\<close>

lemma grow_decd:
  assumes "grow ow i ss ss1"
  shows "grow ow i (upd_slot i (decd sid) ss) (upd_slot i (decd sid) ss1)"
    and "stream d i ss ss1 \<Longrightarrow> stream d i (upd_slot i (decd sid) ss) (upd_slot i (decd sid) ss1)"
proof -
  have k: "keep (ss_slot ss i) (ss_slot ss1 i)" using assms by (simp add: grow_def)
  have "keep (decd sid (ss_slot ss i)) (decd sid (ss_slot ss1 i))" using k by (auto simp: keep_def decd_def live_def)
  then show "grow ow i (upd_slot i (decd sid) ss) (upd_slot i (decd sid) ss1)"
    using assms unfolding grow_def frame_def sinv_def by (simp add: upd_slot_def)
  show "stream d i ss ss1 \<Longrightarrow> stream d i (upd_slot i (decd sid) ss) (upd_slot i (decd sid) ss1)"
    unfolding stream_def by (simp add: upd_slot_def)
qed

lemma inv_pop_send:
  assumes v: "server_inv ow ss" and p: "ss_pipe ss = p # ps" "pk_send p = Some rq"
    and f: "f = (if pk_type p = CHR ''A'' then (\<lambda>s. s) else decd (rq_id rq))"
    and ssd: "ssd = upd_slot (HASH_ID (rq_id rq)) f (sys_log Sys_pipe (ss\<lparr>ss_pipe := ps\<rparr>))"
  shows "server_inv ow ssd"
    and "\<exists>d. loose ow (req_blk rq) d ssd \<and> req_ok (ss_mem ssd) rq (req_blk rq)"
    and "\<not> (sk_type (ss_slot ss (HASH_ID (rq_id rq))) = SOCKET_TYPE_RESERVE \<and> sk_id (ss_slot ss (HASH_ID (rq_id rq))) = rq_id rq)"
proof -
  let ?i = "HASH_ID (rq_id rq)"
  have u: "ss_mem ssd = ss_mem ss" "ss_brk ssd = ss_brk ss" "ss_pipe ssd = ps" "ss_alloc_id ssd = ss_alloc_id ss"
    "ss_ev ssd = ss_ev ss" "ss_event_n ssd = ss_event_n ss" "ss_event_index ssd = ss_event_index ss"
    "\<And>j. ss_slot ssd j = (if j = ?i then f (ss_slot ss j) else ss_slot ss j)"
    by (simp_all add: ssd upd_slot_def)
  have k: "sk_id (ss_slot ssd j) = sk_id (ss_slot ss j)" "sk_type (ss_slot ssd j) = sk_type (ss_slot ss j)"
    "sk_protocol (ss_slot ssd j) = sk_protocol (ss_slot ss j)" "live (ss_slot ssd j) = live (ss_slot ss j)"
    "slot_inv m brk ow j (ss_slot ssd j) = slot_inv m brk ow j (ss_slot ss j)" for j m brk
    by (simp_all add: u(8) f)
  have no: "\<not> opens p" "pk_id p = Some (rq_id rq)" using opens_send p(2) pk_send_id [OF p(2)] by auto
  have po: "pipe_ok ow ss" and ids: "ids_ok ss" using server_invD [OF v] by blast+
  have "opening_ok (reserved_ids ss) (p # ps)" using po unfolding pipe_ok_def p(1) by blast
  from opening_ok_head(2) [OF this no(1)] have hd: "opening_ok (reserved_ids ss) ps" "rq_id rq \<notin> reserved_ids ss"
    using no(2) by simp_all
  show nr: "\<not> (sk_type (ss_slot ss ?i) = SOCKET_TYPE_RESERVE \<and> sk_id (ss_slot ss ?i) = rq_id rq)"
    using hd(2) reserved_idsD [OF ids] by blast
  have rq: "req_ok (ss_mem ss) rq (req_blk rq)" "ow (req_blk rq) = None" "req_blk rq \<notin> set (pipe_blks ps)"
    using po p unfolding pipe_ok_def by auto
  have "req_blk rq < ss_brk ss" using pipe_blks_mem(2) [OF v, of "req_blk rq"] p by simp
  then show "\<exists>d. loose ow (req_blk rq) d ssd \<and> req_ok (ss_mem ssd) rq (req_blk rq)"
    using rq unfolding loose_def u(1-3) by (auto simp: req_ok_def)
  have "ids_ok ssd" using ids p(1) unfolding ids_ok_def id_range_def u(3,4) k by auto
  moreover have "pipe_ok ow ssd"
  proof -
    have "reserved_ids ssd = reserved_ids ss" unfolding reserved_ids_def k ..
    then show ?thesis using po hd(1) p unfolding pipe_ok_def u(1,3) by auto
  qed
  moreover have "counts_ok ssd"
    unfolding counts_ok_def u(3,8)
  proof
    fix x
    have co: "count_ok x (ss_slot ss (HASH_ID x)) (pcount x (p # ps))" using server_invD(5) [OF v] p(1) by (simp add: counts_ok_def)
    have pos: "1 + pcount x ps \<noteq> 0" using pcount_simps(4) [of x ps] by linarith
    show "count_ok x (if HASH_ID x = ?i then f (ss_slot ss (HASH_ID x)) else ss_slot ss (HASH_ID x)) (pcount x ps)"
    proof (cases "x = rq_id rq \<and> pk_type p \<noteq> CHR ''A''")
      case True
      then show ?thesis using co p(2) nr pos f by (auto simp: count_ok_def decd_def)
    next
      case False
      then have "pcount x (p # ps) = pcount x ps" using p(2) by auto
      then have c: "count_ok x (ss_slot ss (HASH_ID x)) (pcount x ps)" using co by simp
      show ?thesis by (rule count_ok_same [OF c]) (use False f in \<open>auto simp: decd_def split: if_splits\<close>)
    qed
  qed
  moreover have "events_ok ssd" using server_invD(6) [OF v] unfolding events_ok_def event_slots_def u(5-7) k .
  moreover have "sinv ow j ssd" for j using server_invD(1) [OF v, of j] unfolding sinv_def u(1,2) k .
  ultimately show "server_inv ow ssd" using server_invD(2) [OF v] unfolding server_inv_def u(2) by blast
qed

text \<open>What taking the message of a send does to the streams, when the slot then takes its data.\<close>

lemma moves_pop_send:
  assumes v: "server_inv ow ss" and p: "ss_pipe ss = p # ps" "pk_send p = Some rq"
    and f: "f = (if pk_type p = CHR ''A'' then (\<lambda>s. s) else decd (rq_id rq))"
    and i: "i = HASH_ID (rq_id rq)" and ssd: "ssd = upd_slot i f (sys_log Sys_pipe (ss\<lparr>ss_pipe := ps\<rparr>))"
    and vd: "server_inv ow' ssd" and g: "grow ow' i ssd ss'" and l: "live (ss_slot ss i)"
    and st: "accepts (ss_slot ss i) (rq_id rq) \<Longrightarrow> pk_type p = CHR ''D'' \<Longrightarrow> stream (req_data (ss_mem ss) rq) i ssd ss'"
    and other: "\<And>x. x \<noteq> rq_id rq \<Longrightarrow> HASH_ID x = i \<Longrightarrow> sk_id (ss_slot ss i) \<noteq> x"
  shows "moves still ss ss'"
proof (rule movesI)
  have u: "ss_mem ssd = ss_mem ss" "ss_pipe ssd = ps" "ss_trace ssd = ss_trace ss @ [Sys_pipe]" "ss_alloc_id ssd = ss_alloc_id ss"
    "\<And>j. ss_slot ssd j = (if j = i then f (ss_slot ss j) else ss_slot ss j)"
    by (simp_all add: ssd upd_slot_def sys_log_def)
  have k: "sk_id (ss_slot ssd j) = sk_id (ss_slot ss j)" "sk_type (ss_slot ssd j) = sk_type (ss_slot ss j)"
    "sk_protocol (ss_slot ssd j) = sk_protocol (ss_slot ss j)" "live (ss_slot ssd j) = live (ss_slot ss j)"
    "pending m (ss_slot ssd j) = pending m (ss_slot ss j)" for j m
    by (simp_all add: u(5) f)
  have fk: "frame ow' i ssd ss'" "keep (ss_slot ssd i) (ss_slot ss' i)" using g by (simp_all add: grow_def)
  fix x bs d
  assume a: "stream_rel x ss bs" "accepts (ss_slot ss (HASH_ID x)) x" "live (ss_slot ss' (HASH_ID x))" "still x = Some d"
  have d: "d = []" using a(4) by (simp add: still_def)
  show "stream_rel x ss' (bs @ d)"
  proof (cases "x = rq_id rq")
    case True
    have hx: "HASH_ID x = i" using True i by simp
    have ty: "pk_type p = CHR ''D''" using a(1) p True unfolding stream_rel_def by simp
    obtain q where q: "pending (ss_mem ss) (ss_slot ss i) q"
      "bs = wire x (ss_trace ss) @ q @ req_data (ss_mem ss) rq @ pipe_data x ssd"
      using a(1) p True unfolding stream_rel_def hx pipe_data_def u(1,2) by (auto simp: List.map_filter_simps)
    have "stream_rel x ss' (wire x (ss_trace ssd) @ q @ req_data (ss_mem ss) rq @ pipe_data x ssd)"
    proof (rule stream_rel_insert [OF vd fk _ hx])
      show "stream (req_data (ss_mem ss) rq) i ssd ss'" using st [OF _ ty] a(2) hx True by simp
      show "live (ss_slot ss' i)" using a(3) hx by simp
      show "sk_id (ss_slot ssd i) = x" "sk_protocol (ss_slot ssd i) = PROTOCOL_TCP"
        using stream_relD(2,3) [OF a(1)] unfolding k hx by this+
      show "\<forall>p \<in> set (for_id x (ss_pipe ssd)). pk_type p = CHR ''D''" 
        using stream_relD(4) [OF a(1)] unfolding p(1) u(2) for_id_simps set_append by blast
      show "pending (ss_mem ssd) (ss_slot ssd i) q" using q(1) unfolding u(1) k .
    qed
    then show ?thesis using q(2) d unfolding u(3) by simp
  next
    case False
    have "HASH_ID x \<noteq> i" using a(1) other [OF False] unfolding stream_rel_def by metis
    moreover have "stream_rel x ssd bs" using a(1) p False unfolding stream_rel_def k u(1-3) by simp
    ultimately show ?thesis using stream_rel_frame [OF vd fk(1)] l k(4) d by auto
  qed
next
  show "id_closed x ss'" if "id_closed x ss" for x
  proof -
    have "id_closed x ssd" using that unfolding id_closed_def ssd by (auto simp: upd_slot_def f)
    then show ?thesis using keep_id_closed [of ow' i ssd ss'] g by (simp add: grow_def)
  qed
qed

lemma moves_then:
  assumes "moves add ss ss1" "moves still ss1 ss'"
    "\<And>sid. accepts (ss_slot ss (HASH_ID sid)) sid \<Longrightarrow> live (ss_slot ss' (HASH_ID sid)) \<Longrightarrow> sk_id (ss_slot ss' (HASH_ID sid)) = sid
      \<Longrightarrow> live (ss_slot ss1 (HASH_ID sid)) \<and> accepts (ss_slot ss1 (HASH_ID sid)) sid"
  shows "moves add ss ss'"
proof (rule movesI)
  fix sid bs d
  assume a: "stream_rel sid ss bs" "accepts (ss_slot ss (HASH_ID sid)) sid" "live (ss_slot ss' (HASH_ID sid))"
    "sk_id (ss_slot ss' (HASH_ID sid)) = sid" "add sid = Some d"
  note l = assms(3) [OF a(2-4)]
  have "sk_id (ss_slot ss1 (HASH_ID sid)) = sid" using l unfolding accepts_def by blast
  then have "stream_rel sid ss1 (bs @ d)" using moves_rel [OF assms(1) a(1,2)] a(5) l by simp
  from moves_rel [OF assms(2) this _ a(3,4)] l show "stream_rel sid ss' (bs @ d)" by (simp add: still_def)
qed (use assms(1,2) moves_closed in blast)

text \<open>The data of a message whose socket is gone.\<close>

lemma moves_pop_drop:
  assumes p: "ss_pipe ss = p # ps" "pk_send p = Some rq"
    and f: "f = (if pk_type p = CHR ''A'' then (\<lambda>s. s) else decd (rq_id rq))" and i: "i = HASH_ID (rq_id rq)"
    and ssd: "ssd = upd_slot i f (sys_log Sys_pipe (ss\<lparr>ss_pipe := ps\<rparr>))"
    and l: "\<not> (live (ss_slot ss i) \<and> sk_id (ss_slot ss i) = rq_id rq)"
  shows "moves still ss ssd"
proof (rule movesI)
  have k: "sk_id (ss_slot ssd j) = sk_id (ss_slot ss j)" "sk_type (ss_slot ssd j) = sk_type (ss_slot ss j)"
    "sk_protocol (ss_slot ssd j) = sk_protocol (ss_slot ss j)" "live (ss_slot ssd j) = live (ss_slot ss j)"
    "pending m (ss_slot ssd j) = pending m (ss_slot ss j)" "ss_alloc_id ssd = ss_alloc_id ss" for j m
    by (simp_all add: ssd f upd_slot_def)
  have u: "ss_mem ssd = ss_mem ss" "ss_pipe ssd = ps" "ss_trace ssd = ss_trace ss @ [Sys_pipe]" by (simp_all add: ssd upd_slot_def sys_log_def)
  show "id_closed x ssd" if "id_closed x ss" for x using that unfolding id_closed_def k .
  fix x bs d
  assume a: "stream_rel x ss bs" "still x = Some d"
  have x: "x \<noteq> rq_id rq" using stream_relD(1,2) [OF a(1)] l i by blast
  show "stream_rel x ssd (bs @ d)" using a p x unfolding stream_rel_def k u still_def by simp
qed

lemma dec_sending_ok:
  assumes v: "server_inv ow ss" and p: "ss_pipe ss = p # ps" "pk_send p = Some rq" "pk_type p \<noteq> CHR ''A''"
    and k: "sk_id (ss_slot ss1 i) = sk_id (ss_slot ss i)" "sk_protocol (ss_slot ss1 i) = sk_protocol (ss_slot ss i)"
      "sk_sending (ss_slot ss1 i) = sk_sending (ss_slot ss i)" and i: "i = HASH_ID (rq_id rq)"
  shows "dec_sending_ref (rq_id rq) ss1 = Some (upd_slot i (decd (rq_id rq)) ss1)"
proof (cases "sk_id (ss_slot ss i) = rq_id rq \<and> sk_protocol (ss_slot ss i) = PROTOCOL_TCP")
  case True
  let ?c = "pcount (rq_id rq) (p # ps)"
  have c: "1 \<le> ?c" using p(2,3) pcount_simps(4) [of "rq_id rq" ps] by simp
  have "count_ok (rq_id rq) (ss_slot ss i) ?c" using server_invD(5) [OF v] p(1) i by (simp add: counts_ok_def del: pcount_simps)
  then have "?c < 65536" "sk_sending (ss_slot ss i) = ID_TAG16 (rq_id rq) * 65536 + ?c"
    using True c unfolding count_ok_def by auto
  then have "sk_sending (ss_slot ss i) mod 65536 \<noteq> 0" using c by simp
  then show ?thesis using True k i by (simp add: dec_sending_ref_def Let_def decd_def upd_slot_def)
next
  case False
  then show ?thesis using k i by (auto simp: dec_sending_ref_def Let_def decd_def upd_slot_def)
qed

lemma fresh_blk_live:
  assumes "sinv ow i ss" "live (ss_slot ss i)" "ow c \<noteq> Some i"
  shows "fresh_blk c (ss_slot ss i)"
  using sinvE [OF assms(1,2)] fresh_of_ow assms(3) by metis

lemma req_ok_buffer: "req_ok m rq b \<Longrightarrow> rq_buffer rq = Some (b, 0)"
  by (simp add: req_ok_def)

text \<open>
  The message \<open>p\<close> of a send is taken and its data given to the slot; the last step counts it down
  unless it is a packet.
\<close>

lemma send_popped:
  assumes v: "server_inv ow ss" and p: "ss_pipe ss = p # ps" "pk_send p = Some rq"
    and f: "f = (if pk_type p = CHR ''A'' then (\<lambda>s. s) else decd (rq_id rq))" and i: "i = HASH_ID (rq_id rq)"
    and pr: "pk_type p = CHR ''D'' \<Longrightarrow> pr = PRIORITY_HIGH"
  shows "\<exists>t r' ss1 ow'. send_socket K rq res pr ua (sys_log Sys_pipe (ss\<lparr>ss_pipe := ps\<rparr>)) = Some (t, r', ss1) \<and> t \<noteq> Some SOCKET_CLOSE \<and>
    server_inv ow' (upd_slot i f ss1) \<and> moves still ss (upd_slot i f ss1) \<and>
    sk_id (ss_slot ss1 i) = sk_id (ss_slot ss i) \<and> sk_protocol (ss_slot ss1 i) = sk_protocol (ss_slot ss i) \<and>
    sk_sending (ss_slot ss1 i) = sk_sending (ss_slot ss i)"
proof -
  define ss0 where "ss0 = sys_log Sys_pipe (ss\<lparr>ss_pipe := ps\<rparr>)"
  define ssd where "ssd = upd_slot i f ss0"
  define b where "b = req_blk rq"
  note pop = inv_pop_send [OF v p f ssd_def [unfolded ss0_def i]]
  obtain d where d: "loose ow b d ssd" "req_ok (ss_mem ssd) rq b" using pop(2) unfolding b_def by blast
  have s0: "ss_slot ss0 = ss_slot ss" "ss_mem ss0 = ss_mem ss" "ss_brk ss0 = ss_brk ss" by (simp_all add: ss0_def)
  have sd: "ss_mem ssd = ss_mem ss" "ss_brk ssd = ss_brk ss" by (simp_all add: ssd_def s0)
  show ?thesis unfolding ss0_def [symmetric]
  proof (cases "live (ss_slot ss i) \<and> sk_id (ss_slot ss i) = rq_id rq")
    case True
    let ?ow = "ow(b \<mapsto> i)"
    have vd: "server_inv ?ow ssd" using inv_own [OF pop(1), of b i] d(1) by (simp add: loose_def)
    have "slot_inv (ss_mem ss) (ss_brk ss) ?ow i (ss_slot ss i)"
      using slot_inv_own [of ow b "ss_mem ss" "ss_brk ss" i "ss_slot ss i" i] d(1) server_invD(1) [OF v, of i] by (simp add: loose_def sinv_def)
    then have si: "sinv ?ow i ss0" using server_invD(7) [OF v] by (simp add: sinv_def s0)
    have fb: "fresh_blk b (ss_slot ss0 i)"
      using fresh_blk_live [OF server_invD(1) [OF v], of i b] True d(1) by (simp add: loose_def s0)
    have rq: "req_ok (ss_mem ss0) rq b" using d(2) by (simp add: sd s0)
    obtain t r' ss1 where s: "send_socket K rq res pr ua ss0 = Some (t, r', ss1)" "grow ?ow i ss0 ss1" "t \<noteq> Some SOCKET_CLOSE"
      "accepts (ss_slot ss0 i) (rq_id rq) \<longrightarrow> pr = PRIORITY_HIGH \<longrightarrow> stream (req_data (ss_mem ss0) rq) i ss0 ss1"
      using send_socket_ok [OF si [unfolded i] _ fb [unfolded i] rq, of K res pr ua] pop(3) i unfolding s0 by auto
    have g: "grow ?ow i ssd (upd_slot i f ss1)"
      using grow_decd(1) [OF s(2)] s(2) unfolding ssd_def f by (simp add: upd_slot_def)
    have st: "stream (req_data (ss_mem ss) rq) i ssd (upd_slot i f ss1)"
      if "accepts (ss_slot ss i) (rq_id rq)" "pk_type p = CHR ''D''"
      using grow_decd(2) [OF s(2)] s(4) that pr unfolding ssd_def f s0 by simp
    have "moves still ss (upd_slot i f ss1)"
      by (rule moves_pop_send [OF v p f i ssd_def [unfolded ss0_def] vd g]) (use True st in auto)
    moreover have "keep (ss_slot ss i) (ss_slot ss1 i)" using s(2) by (simp add: grow_def s0)
    ultimately show "\<exists>t r' ss1 ow'. send_socket K rq res pr ua ss0 = Some (t, r', ss1) \<and> t \<noteq> Some SOCKET_CLOSE \<and>
      server_inv ow' (upd_slot i f ss1) \<and> moves still ss (upd_slot i f ss1) \<and>
      sk_id (ss_slot ss1 i) = sk_id (ss_slot ss i) \<and> sk_protocol (ss_slot ss1 i) = sk_protocol (ss_slot ss i) \<and>
      sk_sending (ss_slot ss1 i) = sk_sending (ss_slot ss i)"
      using s(1,3) inv_grow [OF vd g] unfolding keep_def by blast
  next
    case False
    let ?ss1 = "ss0\<lparr>ss_mem := (ss_mem ss0)(b := None)\<rparr>"
    have rb: "rq_buffer rq = Some (b, 0)" using req_ok_buffer [OF d(2)] .
    have fr: "FREE (Some (b, 0)) ss0 = Some ?ss1" using d(1) by (simp add: FREE_def loose_def sd s0)
    have gone: "sk_type (ss_slot ss i) = SOCKET_TYPE_INVALID \<or> sk_id (ss_slot ss i) \<noteq> rq_id rq"
      using False pop(3) unfolding live_def i by blast
    have "send_object_init ss0 (rq_buffer rq) (rq_sz rq) = Some (False, \<lparr>so_buffer = Some (b, 0), so_sz = rq_sz rq, so_free = SOCKET_BUFFER_MEMORY\<rparr>)"
      using req_object [of "ss_mem ss0" rq b ss0] d(2) by (simp add: sd s0)
    then have s: "send_socket K rq res pr ua ss0 = Some (None, res, ?ss1)"
      using gone fr unfolding send_socket_def rb Let_def i by (auto simp: free_func_def s0)
    obtain ss' where q: "FREE (Some (b, 0)) ssd = Some ss'" "server_inv ow ss'" "moves still ssd ss'" "ss_slot ss' = ss_slot ssd"
      using inv_free [OF pop(1) d(1)] by blast
    have "ss' = upd_slot i f ?ss1" using q(1) d(1) by (auto simp: FREE_def loose_def ssd_def upd_slot_def split: if_splits)
    moreover have "moves still ss ss'"
      by (rule moves_then [OF moves_pop_drop [OF p f i ssd_def [unfolded ss0_def] False] q(3)])
        (auto simp: q(4) ssd_def upd_slot_def f accepts_def s0 split: if_splits)
    ultimately show "\<exists>t r' ss1 ow'. send_socket K rq res pr ua ss0 = Some (t, r', ss1) \<and> t \<noteq> Some SOCKET_CLOSE \<and>
      server_inv ow' (upd_slot i f ss1) \<and> moves still ss (upd_slot i f ss1) \<and>
      sk_id (ss_slot ss1 i) = sk_id (ss_slot ss i) \<and> sk_protocol (ss_slot ss1 i) = sk_protocol (ss_slot ss i) \<and>
      sk_sending (ss_slot ss1 i) = sk_sending (ss_slot ss i)"
      using s q(2) by (intro exI [of _ None] exI [of _ res] exI [of _ ?ss1] exI [of _ ow]) (simp add: s0)
  qed
qed

section \<open>All requests\<close>

lemma popE:
  assumes K: "kernel_ok K" and p: "ss_pipe ss = p # ps"
  shows "block_readpipe K ss = Some (p, sys_log Sys_pipe (ss\<lparr>ss_pipe := ps\<rparr>))"
  using kernel_okD(5) [OF K] p by (simp add: block_readpipe_def)

lemma open_round:
  assumes v: "server_inv ow ss" and p: "ss_pipe ss = p # ps" "opens p" "pk_id p = Some sid"
    and h: "reserved_slot sid (sys_log Sys_pipe (ss\<lparr>ss_pipe := ps\<rparr>)) \<Longrightarrow> opened_ok sid (sys_log Sys_pipe (ss\<lparr>ss_pipe := ps\<rparr>)) h"
  shows "round_ok ss h"
proof -
  have ids: "ids_ok ss" and po: "pipe_ok ow ss" using server_invD [OF v] by blast+
  have "opening_ok (reserved_ids ss) (p # ps)" using po p(1) unfolding pipe_ok_def by simp
  from opening_ok_head(1) [OF this p(2)] have "sid \<in> reserved_ids ss" using p(3) by auto
  then have "sk_type (ss_slot ss (HASH_ID sid)) = SOCKET_TYPE_RESERVE \<and> sk_id (ss_slot ss (HASH_ID sid)) = sid"
    using reserved_idsD [OF ids] by blast
  moreover then have "closed_ok (ss_slot ss (HASH_ID sid))"
    using server_invD(1) [OF v, of "HASH_ID sid"] by (simp add: sinv_def slot_inv_def live_def)
  ultimately have "reserved_slot sid (sys_log Sys_pipe (ss\<lparr>ss_pipe := ps\<rparr>))" by (simp add: reserved_slot_def)
  from h [OF this] obtain t r ss' where h: "h = Some (t, r, ss')" "opened sid (sys_log Sys_pipe (ss\<lparr>ss_pipe := ps\<rparr>)) ss'" "t \<noteq> Some SOCKET_CLOSE"
    unfolding opened_ok_def by blast
  from inv_open [OF v p h(2)] show ?thesis using h by (intro round_okI) (auto simp: report_ok_other)
qed

lemma plain_round:
  assumes v: "server_inv ow ss" and p: "ss_pipe ss = p # ps" "\<not> opens p" "pk_send p = None" "pk_id p = Some sid"
    and h: "sinv ow (HASH_ID sid) (sys_log Sys_pipe (ss\<lparr>ss_pipe := ps\<rparr>)) \<Longrightarrow>
      \<not> (sk_type (ss_slot ss (HASH_ID sid)) = SOCKET_TYPE_RESERVE \<and> sk_id (ss_slot ss (HASH_ID sid)) = sid) \<Longrightarrow>
      req_done ow (HASH_ID sid) (sys_log Sys_pipe (ss\<lparr>ss_pipe := ps\<rparr>)) h"
  shows "round_ok ss h"
proof -
  let ?ss = "sys_log Sys_pipe (ss\<lparr>ss_pipe := ps\<rparr>)"
  note pop = inv_pop_request [OF v p(1-3)]
  have "opening_ok (reserved_ids ss) (p # ps)" using server_invD(4) [OF v] p(1) unfolding pipe_ok_def by simp
  from opening_ok_head(2) [OF this p(2)] have "sid \<notin> reserved_ids ss" using p(4) by auto
  then have "\<not> (sk_type (ss_slot ss (HASH_ID sid)) = SOCKET_TYPE_RESERVE \<and> sk_id (ss_slot ss (HASH_ID sid)) = sid)"
    using reserved_idsD [OF server_invD(3) [OF v]] by blast
  from h [OF server_invD(1) [OF conjunct1 [OF pop]] this] have "round_ok ?ss h" by (rule done_round [OF conjunct1 [OF pop]])
  then show ?thesis by (rule round_left [OF conjunct2 [OF pop], rotated 2]) simp_all
qed

lemma send_round:
  assumes v: "server_inv ow ss" and p: "ss_pipe ss = p # ps" "pk_send p = Some rq"
    and pr: "pk_type p = CHR ''D'' \<Longrightarrow> pr = PRIORITY_HIGH"
  shows "pk_type p \<noteq> CHR ''A'' \<Longrightarrow> round_ok ss (ctrl_send K pr rq res (sys_log Sys_pipe (ss\<lparr>ss_pipe := ps\<rparr>)))"
    and "pk_type p = CHR ''A'' \<Longrightarrow> round_ok ss (send_socket K rq res pr ua (sys_log Sys_pipe (ss\<lparr>ss_pipe := ps\<rparr>)))"
proof -
  let ?ss0 = "sys_log Sys_pipe (ss\<lparr>ss_pipe := ps\<rparr>)"
  define i where "i = HASH_ID (rq_id rq)"
  note sp = send_popped [OF v p refl i_def pr, of K res]
  show "round_ok ss (ctrl_send K pr rq res ?ss0)" if a: "pk_type p \<noteq> CHR ''A''"
  proof -
    obtain t r' ss1 ow' where s: "send_socket K rq res pr None ?ss0 = Some (t, r', ss1)" "t \<noteq> Some SOCKET_CLOSE"
      "server_inv ow' (upd_slot i (decd (rq_id rq)) ss1)" "moves still ss (upd_slot i (decd (rq_id rq)) ss1)"
      "sk_id (ss_slot ss1 i) = sk_id (ss_slot ss i)" "sk_protocol (ss_slot ss1 i) = sk_protocol (ss_slot ss i)"
      "sk_sending (ss_slot ss1 i) = sk_sending (ss_slot ss i)"
      using sp [of None] a by auto
    have "ctrl_send K pr rq res ?ss0 = Some (t, r', upd_slot i (decd (rq_id rq)) ss1)"
      using s(1) dec_sending_ok [OF v p a s(5-7) i_def] by (simp add: ctrl_send_def)
    then show ?thesis using s by (intro round_okI) (auto simp: report_ok_other)
  qed
  show "round_ok ss (send_socket K rq res pr ua ?ss0)" if a: "pk_type p = CHR ''A''"
  proof -
    have same: "upd_slot i (\<lambda>s. s) x = x" for x by (simp add: upd_slot_def)
    obtain t r' ss1 ow' where s: "send_socket K rq res pr ua ?ss0 = Some (t, r', ss1)" "t \<noteq> Some SOCKET_CLOSE"
      "server_inv ow' ss1" "moves still ss ss1"
      using sp [of ua] a by (auto simp: same)
    then show ?thesis by (intro round_okI) (auto simp: report_ok_other)
  qed
qed

lemma ctrl_round:
  assumes K: "kernel_ok K" and v: "server_inv ow ss" and p: "ss_pipe ss = p # ps"
  shows "round_ok ss (ctrl_cmd K res ss)"
proof -
  let ?ss0 = "sys_log Sys_pipe (ss\<lparr>ss_pipe := ps\<rparr>)"
  have wf: "pk_wf p" using server_invD(4) [OF v] p by (simp add: pipe_ok_def)
  note pop = popE [OF K p]
  have id0: "ss_slot ?ss0 = ss_slot ss" by simp
  show ?thesis
  proof (cases "pk_body p")
    case (U_open r)
    then have "ctrl_cmd K res ss = open_socket K r ?ss0" using wf pop by (simp add: ctrl_cmd_def pk_wf_def)
    then show ?thesis using open_socket_opened U_open by (intro open_round [OF v p, where sid = "ro_id r"]) (simp_all add: request_defs)
  next
    case (U_listen r)
    then have "ctrl_cmd K res ss = listen_socket K r ?ss0" using wf pop by (simp add: ctrl_cmd_def pk_wf_def)
    then show ?thesis using listen_socket_opened U_listen by (intro open_round [OF v p, where sid = "rl_id r"]) (simp_all add: request_defs)
  next
    case (U_bind r)
    then have "ctrl_cmd K res ss = bind_socket K r ?ss0" using wf pop by (simp add: ctrl_cmd_def pk_wf_def)
    then show ?thesis using bind_socket_opened U_bind by (intro open_round [OF v p, where sid = "rb_id r"]) (simp_all add: request_defs)
  next
    case (U_udp r)
    then have "ctrl_cmd K res ss = void_result res (add_udp_socket K r ?ss0)" using wf pop by (simp add: ctrl_cmd_def pk_wf_def)
    then show ?thesis using add_udp_socket_opened U_udp by (intro open_round [OF v p, where sid = "ru_id r"]) (simp_all add: request_defs)
  next
    case (U_close r)
    then have c: "ctrl_cmd K res ss = close_socket K r res ?ss0" using wf pop by (simp add: ctrl_cmd_def pk_wf_def)
    show ?thesis unfolding c
      by (rule plain_round [OF v p, where sid = "rc_id r"]) (use U_close close_socket_done [of ow r ?ss0 K res] in \<open>simp_all add: request_defs\<close>)
  next
    case (U_setopt r)
    then have c: "ctrl_cmd K res ss = Some (None, res, setopt_socket r ?ss0)" using wf pop by (simp add: ctrl_cmd_def pk_wf_def)
    show ?thesis unfolding c
      by (rule plain_round [OF v p, where sid = "rt_id r"]) (use U_setopt setopt_socket_done [of ow r ?ss0 res] in \<open>simp_all add: request_defs\<close>)
  next
    case (U_set_udp sid a)
    then have c: "ctrl_cmd K res ss = set_udp_address K sid a res ?ss0" using wf pop by (simp add: ctrl_cmd_def pk_wf_def)
    show ?thesis unfolding c
      by (rule plain_round [OF v p, where sid = sid])
        (use U_set_udp wf set_udp_address_done [OF K, of ow sid ?ss0 a res] in \<open>simp_all add: request_defs\<close>)
  next
    case (U_resumepause r)
    then consider "pk_type p = CHR ''R''" "ctrl_cmd K res ss = resume_socket K r ?ss0"
      | "pk_type p = CHR ''S''" "ctrl_cmd K res ss = pause_socket K r res ?ss0"
      using wf pop by (auto simp: ctrl_cmd_def pk_wf_def)
    then show ?thesis
    proof cases
      case 1
      show ?thesis unfolding 1(2)
        by (rule plain_round [OF v p, where sid = "rp_id r"]) (use U_resumepause resume_socket_done [of ow r ?ss0 K] in \<open>simp_all add: request_defs\<close>)
    next
      case 2
      show ?thesis unfolding 2(2)
        by (rule plain_round [OF v p, where sid = "rp_id r"]) (use U_resumepause pause_socket_done [of ow r ?ss0 K res] in \<open>simp_all add: request_defs\<close>)
    qed
  next
    case (U_send r)
    consider "pk_type p = CHR ''W''" "ctrl_cmd K res ss = trigger_write K r res ?ss0"
      | "pk_type p = CHR ''D''" "ctrl_cmd K res ss = ctrl_send K PRIORITY_HIGH r res ?ss0"
      | "pk_type p = CHR ''P''" "ctrl_cmd K res ss = ctrl_send K PRIORITY_LOW r res ?ss0"
      using wf pop U_send by (auto simp: ctrl_cmd_def pk_wf_def)
    then show ?thesis
    proof cases
      case 1
      show ?thesis unfolding 1(2)
        by (rule plain_round [OF v p, where sid = "rq_id r"]) (use U_send 1(1) trigger_write_done [of ow r ?ss0 K res] in \<open>simp_all add: request_defs\<close>)
    next
      case 2
      show ?thesis unfolding 2(2) by (rule send_round(1) [OF v p]) (use U_send 2(1) in \<open>simp_all add: pk_send_def\<close>)
    next
      case 3
      show ?thesis unfolding 3(2) by (rule send_round(1) [OF v p]) (use U_send 3(1) in \<open>simp_all add: pk_send_def\<close>)
    qed
  next
    case (U_send_udp r a)
    then have c: "pk_type p = CHR ''A''" "ctrl_cmd K res ss =
        send_socket K r res PRIORITY_HIGH (Some (take UDP_ADDRESS_SIZE (a @ k_stack K))) ?ss0"
      using wf pop by (auto simp: ctrl_cmd_def pk_wf_def)
    show ?thesis unfolding c(2) by (rule send_round(2) [OF v p]) (use U_send_udp c(1) in \<open>simp_all add: pk_send_def\<close>)
  next
    case U_none
    then have c: "ctrl_cmd K res ss = Some (Some SOCKET_EXIT, \<lparr>rs_id = 0, rs_opaque = 0, rs_ud = 0, rs_data = Data_null\<rparr>, ?ss0)"
      using wf pop by (simp add: ctrl_cmd_def pk_wf_def)
    have "server_inv ow ?ss0 \<and> moves still ss ?ss0" by (rule inv_pop_request [OF v p]) (simp_all add: U_none request_defs)
    then show ?thesis unfolding c by (intro round_okI) (auto simp: report_ok_other)
  qed
qed

end
