(* ===== verification/Socket_Events.thy ===== *)
theory Socket_Events
  imports Socket_Rounds
begin

text \<open>
  The events of file descriptors, and the whole round of the socket thread.
\<close>

section \<open>The batch of events\<close>

text \<open>A calm change of the state that only concerns the batch.\<close>

lemma round_calm:
  assumes h: "round_ok ss (Some (t, r, ss1))" and c: "calm ss1 ss'"
    and e: "events_ok ss1 \<Longrightarrow> events_ok ss'"
  shows "round_ok ss (Some (t, r, ss'))"
proof -
  obtain ow where h: "server_inv ow ss1" "moves still ss ss1" "report_ok t r ss ss1" using h unfolding round_ok_def by auto
  have "report_ok t r ss ss'" using h(3) calm_rel [OF c] by (simp add: report_ok_def)
  then show ?thesis
    using calm_inv [OF c h(1) e [OF server_invD(6) [OF h(1)]]] calm_moves_right [OF h(2) c] by (intro round_okI) auto
qed

lemma calm_round:
  assumes v: "server_inv ow ss" and c: "calm ss ss1" and h: "round_ok ss1 h"
  shows "round_ok ss h"
  by (rule round_left [OF moves_calm [OF c] _ _ h]) (use c in \<open>simp_all add: calm_def\<close>)

lemma clear_event_length [simp]: "length (clear_event sl sid es) = length es"
  by (induction es) (auto split: option.splits)

lemma clear_event_slots: "Some i \<in> ev_s ` set (clear_event sl sid es) \<Longrightarrow> Some i \<in> ev_s ` set es"
  by (induction es) (auto split: option.splits if_splits)

lemma clear_closed_event_ok:
  "calm ss (clear_closed_event r t ss)" "events_ok ss \<Longrightarrow> events_ok (clear_closed_event r t ss)"
proof -
  let ?ss = "clear_closed_event r t ss"
  show "calm ss ?ss" by (simp add: clear_closed_event_def calm_def)
  assume e: "events_ok ss"
  then have n: "ss_event_index ss \<le> ss_event_n ss" "ss_event_n ss \<le> length (ss_ev ss)" by (simp_all add: events_ok_def)
  have same: "ss_event_index ?ss = ss_event_index ss" "ss_event_n ?ss = ss_event_n ss" "ss_slot ?ss = ss_slot ss"
    by (simp_all add: clear_closed_event_def)
  have dr: "drop (ss_event_index ss) (take (ss_event_n ss) (ss_ev ?ss)) =
      (if t = SOCKET_CLOSE \<or> t = SOCKET_ERR
       then clear_event (ss_slot ss) (rs_id r) (drop (ss_event_index ss) (take (ss_event_n ss) (ss_ev ss)))
       else drop (ss_event_index ss) (take (ss_event_n ss) (ss_ev ss)))"
    using n by (simp add: clear_closed_event_def)
  have "event_slots ?ss \<subseteq> event_slots ss"
  proof
    fix j
    assume "j \<in> event_slots ?ss"
    then have "Some j \<in> ev_s ` set (drop (ss_event_index ss) (take (ss_event_n ss) (ss_ev ?ss)))"
      by (simp only: event_slots_def same mem_Collect_eq)
    then have "Some j \<in> ev_s ` set (drop (ss_event_index ss) (take (ss_event_n ss) (ss_ev ss)))"
      unfolding dr using clear_event_slots by (cases "t = SOCKET_CLOSE \<or> t = SOCKET_ERR") (simp_all only: if_True if_False)
    then show "j \<in> event_slots ss" by (simp only: event_slots_def mem_Collect_eq)
  qed
  then show "events_ok ?ss" using e n unfolding events_ok_def same by (auto simp: clear_closed_event_def)
qed

text \<open>The event that is being handled may be put back.\<close>

lemma step_back_ok:
  assumes e: "events_ok ss" and i: "0 < ss_event_index ss" "ev_s (ss_ev ss ! (ss_event_index ss - 1)) = Some i"
    "sk_type (ss_slot ss i) \<noteq> SOCKET_TYPE_RESERVE"
  shows "events_ok (step_back ss)"
    and "ev_s ev = Some i \<Longrightarrow> events_ok ((step_back ss)\<lparr>ss_ev := (ss_ev ss)[ss_event_index ss - 1 := ev]\<rparr>)"
proof -
  let ?k = "ss_event_index ss - 1"
  have n: "ss_event_index ss \<le> ss_event_n ss" "ss_event_n ss \<le> length (ss_ev ss)"
    "\<forall>j \<in> event_slots ss. sk_type (ss_slot ss j) \<noteq> SOCKET_TYPE_RESERVE" using e by (simp_all add: events_ok_def)
  have k: "drop ?k (take (ss_event_n ss) xs) = xs ! ?k # drop (ss_event_index ss) (take (ss_event_n ss) xs)"
    if "length xs = length (ss_ev ss)" for xs :: "event list"
    using n i(1) that Cons_nth_drop_Suc [of ?k "take (ss_event_n ss) xs"] by simp
  have "event_slots (step_back ss) \<subseteq> insert i (event_slots ss)"
    using k [of "ss_ev ss"] i(2) by (auto simp: event_slots_def step_back_def)
  then show "events_ok (step_back ss)" using n i(3) unfolding events_ok_def by (auto simp: step_back_def)
  let ?ss = "(step_back ss)\<lparr>ss_ev := (ss_ev ss)[?k := ev]\<rparr>"
  assume ev: "ev_s ev = Some i"
  have "drop (ss_event_index ss) (take (ss_event_n ss) ((ss_ev ss)[?k := ev])) = drop (ss_event_index ss) (take (ss_event_n ss) (ss_ev ss))"
    using i(1) by (simp add: take_update_swap drop_update_swap)
  then have "event_slots ?ss \<subseteq> insert i (event_slots ss)"
    using k [of "(ss_ev ss)[?k := ev]"] ev i(1) n by (auto simp: event_slots_def step_back_def)
  then show "events_ok ?ss" using n i(3) unfolding events_ok_def by (auto simp: step_back_def)
qed

section \<open>Events on an open slot\<close>

lemma read_event_round:
  assumes K: "kernel_ok K" and v: "server_inv ow ss" and l: "live (ss_slot ss i)" and e: "ev_s e = Some i"
    and x: "0 < ss_event_index ss" "ss_ev ss ! (ss_event_index ss - 1) = e"
  shows "round_ok ss (read_event K e i res ss)"
proof -
  let ?h = "if sk_protocol (ss_slot ss i) = PROTOCOL_TCP then forward_message_tcp K i res ss else forward_message_udp K i res ss"
  have o: "\<forall>b. ss_brk ss \<le> b \<longrightarrow> ow b = None" using server_invD(2) [OF v] by blast
  have hd: "handled_ok ow i ss ?h"
    using forward_tcp_handled [OF K server_invD(1) [OF v] l o] forward_udp_handled [OF server_invD(1) [OF v] l o] by simp
  then obtain t r ss1 where h: "?h = Some (t, r, ss1)" "evolve ow i ss ss1" unfolding handled_ok_def by blast
  have rd: "round_ok ss (Some (t, r, ss1))" using handled_round [OF v l hd] unfolding h(1) .
  have f: "ss_ev ss1 = ss_ev ss" "ss_event_index ss1 = ss_event_index ss" "sk_type (ss_slot ss1 i) \<noteq> SOCKET_TYPE_RESERVE"
    using h(2) l by (auto simp: evolve_def frame_def keep_def live_def)
  have c: "calm ss1 (step_back ss1)" "calm ss1 ((step_back ss1)\<lparr>ss_ev := es\<rparr>)" for es
    by (simp_all add: calm_def step_back_def)
  have sb: "events_ok ss1 \<Longrightarrow> events_ok (step_back ss1)"
    "events_ok ss1 \<Longrightarrow> events_ok ((step_back ss1)\<lparr>ss_ev := (ss_ev ss1)[ss_event_index ss1 - 1 := e\<lparr>ev_read := False\<rparr>]\<rparr>)"
    using step_back_ok [of ss1 i] x f e by auto
  have cl: "round_ok ss (Some (t', r, step_back ss1))" if "t' \<noteq> Some SOCKET_CLOSE" for t'
  proof (rule round_calm [OF _ c(1) sb(1)])
    show "round_ok ss (Some (t', r, ss1))" using rd that unfolding round_ok_def report_ok_def by auto
  qed
  let ?tcp = "sk_protocol (ss_slot ss i) = PROTOCOL_TCP"
  have eq: "read_event K e i res ss =
    (if ?tcp \<and> t = Some SOCKET_MORE then Some (Some SOCKET_DATA, r, step_back ss1)
     else if \<not> ?tcp \<and> t = Some SOCKET_UDP then Some (Some SOCKET_UDP, r, step_back ss1)
     else if ev_write e \<and> t \<noteq> Some SOCKET_CLOSE \<and> t \<noteq> Some SOCKET_ERR then
       Some (t, r, (step_back ss1)\<lparr>ss_ev := (ss_ev ss1)[ss_event_index ss1 - 1 := e\<lparr>ev_read := False\<rparr>]\<rparr>)
     else Some (t, r, ss1))"
    using h(1) unfolding read_event_def Let_def by (simp split: if_splits)
  show ?thesis
    unfolding eq using rd round_calm [OF rd c(2) sb(2)] cl [of "Some SOCKET_DATA"] cl [of "Some SOCKET_UDP"] by simp
qed

section \<open>Accepting a connection\<close>

lemma drop_connection_calm:
  "calm ss (drop_connection K fd ss)" "events_ok (drop_connection K fd ss) = events_ok ss"
  by (auto simp: drop_connection_def sys_close_def Let_def calm_def events_ok_def event_slots_def split: sum.splits)

lemma opened_taken:
  assumes o: "opened sid ss3 ss'" and l: "logs (upd_slot (HASH_ID sid) (reserve_slot sid) (ss\<lparr>ss_alloc_id := sid\<rparr>)) ss3"
  shows "taken sid [] ss ss'"
proof -
  have w: "same_world (HASH_ID sid) ss3 ss'" using o by (simp add: opened_def)
  have "same_world (HASH_ID sid) (upd_slot (HASH_ID sid) (reserve_slot sid) (ss\<lparr>ss_alloc_id := sid\<rparr>)) ss3" using logs_world [OF l] by blast
  from same_world_trans [OF this w] show ?thesis
    using o unfolding taken_def opened_def same_world_def by simp
qed

lemma accept_taken:
  assumes v: "server_inv ow ss" and t: "taken sid [] ss ss'" and i: "ss_alloc_id ss < sid" "sid \<le> INT_MAX"
    "sk_type (ss_slot ss (HASH_ID sid)) = SOCKET_TYPE_INVALID" "live (ss_slot ss i)"
  shows "server_inv ow (stat_read i n ss') \<and> moves still ss (stat_read i n ss')"
proof -
  have 1: "server_inv ow ss'" "moves still ss ss'" using inv_take [OF v i(3,1,2) t] by auto
  have 2: "server_inv ow (stat_read i n ss') \<and> moves still ss' (stat_read i n ss')"
    unfolding stat_read_def by (rule inv_touch [OF 1(1)]) (simp_all add: same_bufs_def)
  have "live (ss_slot ss' j) \<and> accepts (ss_slot ss' j) x" if "accepts (ss_slot ss j) x" "live (ss_slot (stat_read i n ss') j)" for j x
  proof -
    have "j \<noteq> HASH_ID sid" using that(1) i(3) by (auto simp: accepts_def)
    then show ?thesis using that t unfolding taken_def by (auto simp: stat_read_def upd_slot_def live_def split: if_splits)
  qed
  then show ?thesis using moves_then [OF 1(2) conjunct2 [OF 2]] 2 by blast
qed

lemma stat_set_type: "i \<noteq> j \<Longrightarrow> set_type j t (stat_read i n ss) = stat_read i n (set_type j t ss)"
  by (simp add: set_type_def stat_read_def upd_slot_def fun_upd_twist)

lemma report_accept_ok:
  assumes v: "server_inv ow ss" and ty: "sk_type (ss_slot ss i) = SOCKET_TYPE_LISTEN" and room: "has_room ss"
  shows "\<exists>ok r ss'. report_accept K i res ss = Some (ok, r, ss') \<and> server_inv ow ss' \<and> moves still ss ss'"
proof -
  let ?fd = "sk_fd (ss_slot ss i)"
  define ss1 where "ss1 = sys_log (Sys_accept ?fd) ss"
  have 1: "server_inv ow ss1" "calm ss ss1" using inv_log [OF v, of "Sys_accept ?fd"] by (simp_all add: ss1_def)
  have s1: "ss_slot ss1 = ss_slot ss" "ss_alloc_id ss1 = ss_alloc_id ss" by (simp_all add: ss1_def)
  show ?thesis
  proof (cases "k_accept K (ss_trace ss) ?fd")
    case (Inl err)
    have "server_inv ow (drop_connection K ?fd ss1)"
      using calm_inv [OF drop_connection_calm(1) 1(1)] drop_connection_calm(2) server_invD(6) [OF 1(1)] by blast
    moreover have "moves still ss (drop_connection K ?fd ss1)"
      using moves_calm [OF calm_trans [OF 1(2) drop_connection_calm(1)]] .
    ultimately show ?thesis using Inl 1 moves_calm [OF 1(2)] by (simp add: report_accept_def Let_def ss1_def)
  next
    case (Inr x)
    obtain cfd u where x: "x = (cfd, u)" by force
    have room1: "has_room ss1" using room by (simp add: has_room_def s1)
    from 1(1) room1 show ?thesis
    proof (cases rule: reserve_cases)
      case (full n)
      let ?ss2 = "snd (sys_close K cfd (ss1\<lparr>ss_alloc_id := n\<rparr>))"
      have f: "server_inv ow (ss1\<lparr>ss_alloc_id := n\<rparr>) \<and> moves still ss1 (ss1\<lparr>ss_alloc_id := n\<rparr>)" using inv_full [OF 1(1) full(2,3)] .
      note c = logs_inv [OF conjunct1 [OF f] close_logs [of _ K cfd]]
      have "moves still ss ?ss2" using calm_moves_right [OF calm_moves_left [OF 1(2)]] f c by blast
      moreover have "report_accept K i res ss = Some (0, res, ?ss2)"
        using Inr x full(1) by (simp add: report_accept_def Let_def ss1_def)
      ultimately show ?thesis using c by blast
    next
      case (found sid)
      let ?j = "HASH_ID sid"
      define ss2 where "ss2 = upd_slot ?j (reserve_slot sid) (ss1\<lparr>ss_alloc_id := sid\<rparr>)"
      define ss3 where "ss3 = sp_nonblocking cfd (socket_keepalive cfd ss2)"
      have l3: "logs ss2 ss3" unfolding ss3_def sp_nonblocking_def socket_keepalive_def by (intro logs_log) simp_all
      have "closed_ok (ss_slot ss1 ?j)"
        using server_invD(1) [OF 1(1), of ?j] found(5) by (simp add: sinv_def slot_inv_def live_def)
      then have r3: "reserved_slot sid ss3"
        using logs_world [OF l3] by (simp add: reserved_slot_def ss2_def reserve_slot_def closed_ok_def)
      have li: "live (ss_slot ss1 i)" "i \<noteq> ?j" using ty found(5) by (auto simp: live_def s1)
      note tk = accept_taken [OF 1(1) opened_taken [OF _ l3 [unfolded ss2_def]] found(2,3,5) li(1)]
      show ?thesis using r3
      proof (cases rule: new_fdE [where K = K and fd = cfd and pro = PROTOCOL_TCP and opaque = "sk_opaque (ss_slot ss i)" and reading = False])
        case (failed ss4)
        have o: "opened sid ss3 ss4" using failed by (simp add: opened_def live_def)
        have t4: "server_inv ow ss4 \<and> moves still ss1 ss4"
          using inv_take [OF 1(1) found(5,2,3) opened_taken [OF o l3 [unfolded ss2_def]]] .
        note c = logs_inv [OF conjunct1 [OF t4] close_logs [of _ K cfd]]
        have "moves still ss (snd (sys_close K cfd ss4))" using calm_moves_right [OF calm_moves_left [OF 1(2)]] t4 c by blast
        moreover have "report_accept K i res ss = Some (0, res, snd (sys_close K cfd ss4))"
          using Inr x found(1,4) failed(1) unfolding ss3_def ss2_def ss1_def by (simp add: report_accept_def Let_def)
        ultimately show ?thesis using c by blast
      next
        case (new ss4)
        let ?ss5 = "stat_read i 1 (set_type ?j SOCKET_TYPE_PACCEPT ss4)"
        have t5: "server_inv ow ?ss5 \<and> moves still ss1 ?ss5" by (rule tk) (use newly_set_type [OF new(2)] in simp)
        obtain ok nm where g: "getname K u MAX_INFO = (ok, nm)" by force
        let ?ss6 = "?ss5\<lparr>ss_buffer := nm\<rparr>"
        have "calm ?ss5 ?ss6" by (simp add: calm_def)
        moreover have "events_ok ?ss6" using server_invD(6) t5 events_ok_same [of ?ss6 ?ss5] by auto
        ultimately have "server_inv ow ?ss6 \<and> moves still ss ?ss6"
          using t5 calm_inv calm_moves_right [OF calm_moves_left [OF 1(2)]] by blast
        moreover have "report_accept K i res ss = Some (1, \<lparr>rs_id = sk_id (ss_slot ss i), rs_opaque = sk_opaque (ss_slot ss i), rs_ud = sid,
            rs_data = (if ok then Data_text nm else Data_null)\<rparr>, ?ss6)"
          using Inr x found(1,4) new(1) g stat_set_type [OF li(2), of SOCKET_TYPE_PACCEPT 1 ss4] unfolding ss3_def ss2_def ss1_def
          by (simp add: report_accept_def Let_def)
        ultimately show ?thesis by blast
      qed
    qed
  qed
qed

section \<open>The round\<close>

lemma dispatch_round:
  assumes K: "kernel_ok K" and v: "server_inv ow ss" and nr: "sk_type (ss_slot ss i) \<noteq> SOCKET_TYPE_RESERVE" and room: "has_room ss"
    and e: "ev_s e = Some i" and x: "0 < ss_event_index ss" "ss_ev ss ! (ss_event_index ss - 1) = e"
  shows "round_ok ss (dispatch_event K e i res ss)"
proof -
  note s = server_invD(1) [OF v, of i]
  consider (inv) "sk_type (ss_slot ss i) = SOCKET_TYPE_INVALID" | (con) "sk_type (ss_slot ss i) = SOCKET_TYPE_CONNECTING"
    | (lis) "sk_type (ss_slot ss i) = SOCKET_TYPE_LISTEN"
    | (other) "live (ss_slot ss i)" "sk_type (ss_slot ss i) \<noteq> SOCKET_TYPE_CONNECTING" "sk_type (ss_slot ss i) \<noteq> SOCKET_TYPE_LISTEN"
    using nr by (auto simp: live_def)
  then show ?thesis
  proof cases
    case inv
    let ?ss = "skynet_error_log ''socket-server: invalid socket'' ss"
    have "server_inv ow ?ss \<and> calm ss ?ss" unfolding skynet_error_log_def by (rule inv_log [OF v]) simp
    then show ?thesis using inv moves_calm by (intro round_okI) (auto simp: dispatch_event_def report_ok_other)
  next
    case con
    have "live (ss_slot ss i)" using con by (simp add: live_def)
    from handled_round [OF v this report_connect_handled [OF s con]] show ?thesis using con by (simp add: dispatch_event_def)
  next
    case lis
    obtain ok r ss' where "report_accept K i res ss = Some (ok, r, ss')" "server_inv ow ss'" "moves still ss ss'"
      using report_accept_ok [OF v lis room, of K res] by blast
    then show ?thesis using lis by (intro round_okI [where ow = ow]) (auto simp: dispatch_event_def report_ok_other)
  next
    case other
    have "dispatch_event K e i res ss =
      (if ev_read e then read_event K e i res ss
       else if ev_write e then send_buffer K i res ss
       else if ev_error e then error_event K i res ss
       else if ev_eof e then eof_event K i res ss
       else Some (None, res, ss))"
      using other by (cases "sk_type (ss_slot ss i)") (simp_all add: dispatch_event_def live_def)
    then show ?thesis
      using read_event_round [OF K v other(1) e x] handled_round [OF v other(1)] send_buffer_handled [OF K s other(1)]
        error_event_handled [OF s other(1)] eof_event_handled [OF s other(1)] same_round [OF v] by simp
  qed
qed

definition polled_ok :: "socket_server \<Rightarrow> polled \<Rightarrow> bool" where
  "polled_ok ss h \<longleftrightarrow> (\<exists>t r mo ss' ow. h = Some (t, r, mo, ss') \<and> server_inv ow ss' \<and> moves still ss ss' \<and> report_ok t r ss ss')"

lemma round_polled: "round_ok ss h \<Longrightarrow> polled_ok ss (h \<bind> (\<lambda>(t, r, ss). Some (t, r, mo, ss)))"
  unfolding round_ok_def polled_ok_def by auto

lemma calm_polled:
  assumes "calm ss ss1" "polled_ok ss1 h"
  shows "polled_ok ss h"
  using assms(2) calm_moves_left [OF assms(1)] calm_rel [OF assms(1)] unfolding polled_ok_def report_ok_def by metis

text \<open>The kernel reports events only for sockets that were added to it.\<close>

definition epoll_ok :: "kernel \<Rightarrow> socket_server \<Rightarrow> bool" where
  "epoll_ok K ss \<longleftrightarrow> (\<forall>es. k_epoll_wait K (ss_trace ss) = Inr es \<longrightarrow>
     (\<forall>e \<in> set es. \<forall>i. ev_s e = Some i \<longrightarrow> sk_type (ss_slot ss i) \<noteq> SOCKET_TYPE_RESERVE))"

lemma wait_events_ok:
  assumes v: "server_inv ow ss" and ep: "epoll_ok K ss" and w: "wait_events K mo ss = (ok, mo', ss')"
  shows "server_inv ow ss'" "calm ss ss'" "ok \<Longrightarrow> ss_event_index ss' < ss_event_n ss'"
proof -
  have ev: "events_ok ss" using server_invD(6) [OF v] .
  have c: "calm ss ss'"
    using w by (auto simp: wait_events_def Let_def calm_def skynet_error_log_def split: if_splits sum.splits)
  show "calm ss ss'" by fact
  have "events_ok ss' \<and> (ok \<longrightarrow> ss_event_index ss' < ss_event_n ss')"
  proof (cases "ss_event_index ss = ss_event_n ss")
    case False
    then show ?thesis using w ev by (auto simp: wait_events_def events_ok_def)
  next
    case True
    show ?thesis
    proof (cases "k_epoll_wait K (ss_trace ss)")
      case (Inl err)
      then show ?thesis using w True
        by (auto simp: wait_events_def Let_def events_ok_def event_slots_def skynet_error_log_def split: if_splits)
    next
      case (Inr es)
      then have "\<forall>e \<in> set es. \<forall>i. ev_s e = Some i \<longrightarrow> sk_type (ss_slot ss i) \<noteq> SOCKET_TYPE_RESERVE" using ep by (simp add: epoll_ok_def)
      then have "sk_type (ss_slot ss i) \<noteq> SOCKET_TYPE_RESERVE" if "Some i \<in> ev_s ` set es" for i using that by (metis imageE)
      then show ?thesis using w True Inr
        by (auto simp: wait_events_def Let_def events_ok_def event_slots_def skynet_error_log_def split: if_splits)
    qed
  qed
  then show "server_inv ow ss'" "ok \<Longrightarrow> ss_event_index ss' < ss_event_n ss'" using calm_inv [OF c v] by auto
qed

lemma next_event_polled:
  assumes K: "kernel_ok K" and v: "server_inv ow ss" and room: "has_room ss" and ep: "epoll_ok K ss"
  shows "polled_ok ss (next_event K res mo ss)"
proof -
  obtain ok mo' ss1 where w: "wait_events K mo ss = (ok, mo', ss1)" by (cases "wait_events K mo ss")
  note 1 = wait_events_ok [OF v ep w]
  show ?thesis
  proof (cases ok)
    case False
    then show ?thesis using w 1 moves_calm [OF 1(2)] unfolding polled_ok_def by (auto simp: next_event_def report_ok_other)
  next
    case True
    let ?k = "ss_event_index ss1" let ?e = "ss_ev ss1 ! ?k" let ?ss2 = "ss1\<lparr>ss_event_index := ?k + 1\<rparr>"
    have ev: "?k < ss_event_n ss1" "ss_event_n ss1 \<le> length (ss_ev ss1)"
      "\<forall>i \<in> event_slots ss1. sk_type (ss_slot ss1 i) \<noteq> SOCKET_TYPE_RESERVE"
      using 1(3) [OF True] server_invD(6) [OF 1(1)] by (auto simp: events_ok_def)
    have dr: "drop ?k (take (ss_event_n ss1) (ss_ev ss1)) = ?e # drop (Suc ?k) (take (ss_event_n ss1) (ss_ev ss1))"
      using ev(1,2) Cons_nth_drop_Suc [of ?k "take (ss_event_n ss1) (ss_ev ss1)"] by simp
    have c2: "calm ss1 ?ss2" by (simp add: calm_def)
    have "event_slots ?ss2 \<subseteq> event_slots ss1" using dr by (auto simp: event_slots_def)
    then have "events_ok ?ss2" using ev by (auto simp: events_ok_def)
    then have v2: "server_inv ow ?ss2" using calm_inv [OF c2 1(1)] by blast
    have eq: "next_event K res mo ss = (case ev_s ?e of None \<Rightarrow> Some (None, res, mo', ?ss2)
        | Some i \<Rightarrow> dispatch_event K ?e i res ?ss2 \<bind> (\<lambda>(t, r, ss). Some (t, r, mo', ss)))"
      using w True ev(1,2) by (cases "ev_s ?e") (simp_all add: next_event_def Let_def)
    have "polled_ok ?ss2 (next_event K res mo ss)"
    proof (cases "ev_s ?e")
      case None
      then show ?thesis unfolding eq polled_ok_def using v2 moves_calm [OF calm_refl] by (auto simp: report_ok_other)
    next
      case (Some i)
      have "i \<in> event_slots ss1" using dr Some by (auto simp: event_slots_def)
      then have nr: "sk_type (ss_slot ?ss2 i) \<noteq> SOCKET_TYPE_RESERVE" using ev(3) by simp
      have rm: "has_room ?ss2" using room 1(2) by (simp add: has_room_def calm_def)
      have "round_ok ?ss2 (dispatch_event K ?e i res ?ss2)"
        by (rule dispatch_round [OF K v2 nr rm Some]) simp_all
      from round_polled [OF this, of mo'] show ?thesis unfolding eq by (simp add: Some)
    qed
    then show ?thesis using calm_polled [OF 1(2)] calm_polled [OF c2] by blast
  qed
qed

lemma poll_round_polled:
  assumes K: "kernel_ok K" and v: "server_inv ow ss" and room: "has_room ss"
    and ep: "epoll_ok K ss" "epoll_ok K (sys_log Sys_select ss)"
  shows "polled_ok ss (poll_round K res mo ss)"
proof (cases "ss_checkctrl ss")
  case False
  then show ?thesis using next_event_polled [OF K v room ep(1)] by (simp add: poll_round_def)
next
  case True
  let ?ss1 = "sys_log Sys_select ss"
  have 1: "server_inv ow ?ss1" "calm ss ?ss1" using inv_log [OF v, of Sys_select] by simp_all
  show ?thesis
  proof (cases "ss_pipe ss \<noteq> [] \<and> k_select K (ss_trace ss)")
    case has: True
    then obtain p ps where p: "ss_pipe ?ss1 = p # ps" by (cases "ss_pipe ss") auto
    obtain t r ss2 ow2 where c: "ctrl_cmd K res ?ss1 = Some (t, r, ss2)" "server_inv ow2 ss2" "moves still ?ss1 ss2" "report_ok t r ?ss1 ss2"
      using ctrl_round [OF K 1(1) p, of res] unfolding round_ok_def by blast
    have rd: "round_ok ?ss1 (Some (t, r, ss2))" using c by (auto simp: round_ok_def)
    let ?h = "case t of None \<Rightarrow> Some (t, r, ss2) | Some t' \<Rightarrow> Some (t, r, clear_closed_event r t' ss2)"
    have "round_ok ?ss1 ?h"
      using rd round_calm [OF rd clear_closed_event_ok(1) clear_closed_event_ok(2)] by (cases t) simp_all
    then have "polled_ok ?ss1 (?h \<bind> (\<lambda>(t, r, ss). Some (t, r, mo, ss)))" by (rule round_polled)
    moreover have "poll_round K res mo ss = (?h \<bind> (\<lambda>(t, r, ss). Some (t, r, mo, ss)))"
      using True has c(1) by (simp add: poll_round_def has_cmd_def Let_def split: option.splits)
    ultimately show ?thesis using calm_polled [OF 1(2)] by simp
  next
    case no: False
    let ?ss2 = "?ss1\<lparr>ss_checkctrl := False\<rparr>"
    have c2: "calm ?ss1 ?ss2" by (simp add: calm_def)
    have "events_ok ?ss2" using server_invD(6) [OF 1(1)] events_ok_same [of ?ss2 ?ss1] by simp
    then have v2: "server_inv ow ?ss2" using calm_inv [OF c2 1(1)] by blast
    have "polled_ok ?ss2 (next_event K res mo ?ss2)"
      using next_event_polled [OF K v2] room ep(2) by (simp add: has_room_def epoll_ok_def)
    moreover have "poll_round K res mo ss = next_event K res mo ?ss2"
      using True no by (auto simp: poll_round_def has_cmd_def Let_def)
    ultimately show ?thesis using calm_polled [OF calm_trans [OF 1(2) c2]] by simp
  qed
qed

end
