(* ===== verification/Socket_Cases.thy ===== *)
theory Socket_Cases
  imports Socket_Ids
begin

text \<open>
  A concrete operating system and a fresh socket server, for the evaluation of the operations on
  concrete inputs.
\<close>

definition demo_addr :: sockaddr_all where
  "demo_addr = V4 [31, 144] [127, 0, 0, 1]"

text \<open>Every call succeeds: all bytes are written, one packet and no stream data can be read.\<close>

definition demo_kernel :: kernel where
  "demo_kernel = \<lparr>
     k_write = (\<lambda>tr fd d. (int (length d), EAGAIN)),
     k_sendto = (\<lambda>tr fd d sa. (int (length d), EAGAIN)),
     k_read = (\<lambda>tr fd n. Inl EAGAIN),
     k_recvfrom = (\<lambda>tr fd. Inr ([1, 2, 3], demo_addr)),
     k_accept = (\<lambda>tr fd. Inr (9, demo_addr)),
     k_close = (\<lambda>tr fd. True), k_dup = (\<lambda>tr. 4), k_epoll_create = (\<lambda>tr. 3),
     k_epoll_ctl = (\<lambda>tr fd. True), k_epoll_wait = (\<lambda>tr. Inl EINTR), k_select = (\<lambda>tr. True),
     k_pipe = (\<lambda>tr. Some (5, 6)), k_pipe_write = (\<lambda>tr. []), k_pipe_read = (\<lambda>tr. None),
     k_getsockopt = (\<lambda>tr fd. Inr None), k_setsockopt = (\<lambda>tr fd. True),
     k_getpeername = (\<lambda>tr fd. Some demo_addr), k_getsockname = (\<lambda>tr fd. Some demo_addr),
     k_inet_ntop = (\<lambda>sa. Some ''127.0.0.1''),
     k_getaddrinfo = (\<lambda>tr host port. Inr [(AF_INET, demo_addr)]),
     k_socket = (\<lambda>tr fam. 7), k_connect = (\<lambda>tr fd sa. None), k_bind = (\<lambda>tr fd. True),
     k_listen = (\<lambda>tr fd. True), k_trylock = (\<lambda>tr. True), k_errno = (\<lambda>tr. EINTR),
     k_strerror = (\<lambda>e. ''error''), k_gai_strerror = (\<lambda>e. ''gai''), k_stack = replicate 256 0\<rparr>"

definition demo_slot :: socket where
  "demo_slot = \<lparr>sk_opaque = 0, sk_wbs = Map.empty, sk_high = clear_wb_list, sk_low = clear_wb_list,
     sk_wb_size = 0, sk_stat = \<lparr>st_rtime = 0, st_wtime = 0, st_read = 0, st_write = 0\<rparr>,
     sk_sending = 0, sk_fd = 0, sk_id = 0, sk_type = SOCKET_TYPE_INVALID, sk_protocol = 0,
     sk_reading = False, sk_writing = False, sk_closing = False, sk_udpconnecting = 0,
     sk_warn_size = 0, sk_p = P_size 0, sk_dw_offset = 0, sk_dw_buffer = None, sk_dw_size = 0\<rparr>"

definition demo_server :: socket_server where
  "demo_server = \<lparr>ss_time = 0, ss_reserve_fd = 4, ss_recvctrl_fd = 5, ss_sendctrl_fd = 6,
     ss_checkctrl = True, ss_event_fd = 3, ss_alloc_id = 0, ss_event_n = 0, ss_event_index = 0,
     ss_soi = None, ss_ev = [], ss_slot = (\<lambda>i. init_slot demo_slot), ss_buffer = [], ss_mem = Map.empty, ss_brk = 0,
     ss_pipe = [], ss_trace = [Sys_epoll_add 5 None, Sys_dup 1]\<rparr>"

lemma demo_kernel_ok: "kernel_ok demo_kernel"
  by (auto simp: kernel_ok_def demo_kernel_def interrupted_def UDP_ADDRESS_SIZE_def demo_addr_def)

lemma demo_created: "socket_server_create demo_kernel 0 (\<lambda>i. demo_slot) = Some (Some demo_server, ss_trace demo_server)"
  by (simp add: socket_server_create_def demo_kernel_def demo_server_def)

definition demo_msg :: socket_message where
  "demo_msg = \<lparr>rs_id = 0, rs_opaque = 0, rs_ud = 0, rs_data = Data_null\<rparr>"

definition demo_poll :: "kernel \<Rightarrow> socket_server option \<Rightarrow> socket_server option" where
  "demo_poll K m = m \<bind> poll_round K demo_msg False \<bind> (\<lambda>(t, r, mo, ss). Some ss)"

definition demo_send :: "kernel \<Rightarrow> int \<Rightarrow> u8 list \<Rightarrow> socket_server option \<Rightarrow> socket_server option" where
  "demo_send K sid d m = do {
     ss \<leftarrow> m;
     let (a, ss) = MALLOC d ss;
     (r, ss) \<leftarrow> socket_server_send K \<lparr>sb_id = sid, sb_type = SOCKET_BUFFER_MEMORY,
       sb_buffer = Some (a, 0), sb_sz = int (length d)\<rparr> ss;
     Some ss
   }"

definition demo_send_low :: "kernel \<Rightarrow> int \<Rightarrow> socket_buffer_type \<Rightarrow> u8 list \<Rightarrow> socket_server option \<Rightarrow> socket_server option" where
  "demo_send_low K sid t d m = do {
     ss \<leftarrow> m;
     let (a, ss) = MALLOC d ss;
     (r, ss) \<leftarrow> socket_server_send_lowpriority K \<lparr>sb_id = sid, sb_type = t,
       sb_buffer = Some (a, 0), sb_sz = int (length d)\<rparr> ss;
     Some ss
   }"

definition demo_connect :: "socket_server option \<Rightarrow> socket_server option" where
  "demo_connect m = map_option (\<lambda>ss. snd (socket_server_connect demo_kernel 0 ''localhost'' 8080 ss)) m"

definition demo_event :: "nat option \<Rightarrow> bool \<Rightarrow> bool \<Rightarrow> event" where
  "demo_event i r w = \<lparr>ev_s = i, ev_read = r, ev_write = w, ev_error = False, ev_eof = False\<rparr>"

definition demo_epoll :: "event list \<Rightarrow> kernel \<Rightarrow> kernel" where
  "demo_epoll es K = K\<lparr>k_epoll_wait := (\<lambda>tr. Inr es)\<rparr>"

definition demo_udp :: "socket_server option" where
  "demo_udp = Some (snd (socket_server_udp demo_kernel 0 None 0 demo_server))
     \<bind> socket_server_udp_connect demo_kernel 1 ''localhost'' 53 \<bind> (\<lambda>(r, ss). Some ss)"

text \<open>
  One turn of the loop of \<open>send_list_tcp\<close>: the end of the loop on the left, the state of the next turn
  on the right.
\<close>

definition tcp_turn :: "kernel \<Rightarrow> nat \<Rightarrow> priority \<Rightarrow> addr \<Rightarrow> socket_message \<Rightarrow> socket_server \<Rightarrow> (handled + socket_server) option" where
  "tcp_turn K i pr tmp result ss = (let s = ss_slot ss i; l = wl pr s in do {
     wb \<leftarrow> sk_wbs s tmp;
     (sz, err, ss) \<leftarrow> sys_write K (sk_id s) (sk_fd s) (wb_ptr wb) (wb_sz wb) ss;
     if sz < 0 then
       (if err = EINTR then Some (Inr ss)
        else if err = EAGAIN then Some (Inl (Some (None, result, ss)))
        else Some (Inl (close_write K i result ss)))
     else do {
       let ss = stat_write i sz ss;
       let ss = upd_slot i (\<lambda>s. s\<lparr>sk_wb_size := sk_wb_size s - sz\<rparr>) ss;
       if sz \<noteq> wb_sz wb then
         Some (Inl (Some (None, result, upd_slot i (\<lambda>s. s\<lparr>sk_wbs := (sk_wbs s)
           (tmp \<mapsto> wb\<lparr>wb_ptr := ptr_add (wb_ptr wb) sz, wb_sz := wb_sz wb - sz\<rparr>)\<rparr>) ss)))
       else do {
         let ss = upd_slot i (set_wl pr (l\<lparr>wl_head := wb_next wb\<rparr>)) ss;
         ss \<leftarrow> write_buffer_free i tmp ss;
         Some (Inr ss)
       }
     }
   })"

lemma send_list_tcp_code [code]:
  "send_list_tcp K i pr result ss =
     (case wl_head (wl pr (ss_slot ss i)) of
        None \<Rightarrow> Some (None, result, upd_slot i (set_wl pr ((wl pr (ss_slot ss i))\<lparr>wl_tail := None\<rparr>)) ss)
      | Some tmp \<Rightarrow>
          (case tcp_turn K i pr tmp result ss of
             None \<Rightarrow> None
           | Some x \<Rightarrow> (case x of Inl h \<Rightarrow> h | Inr ss \<Rightarrow> send_list_tcp K i pr result ss)))"
  by (subst send_list_tcp.simps)
    (auto simp: tcp_turn_def Let_def split: option.splits Option.bind_splits prod.splits if_splits)

definition udp_turn :: "kernel \<Rightarrow> nat \<Rightarrow> priority \<Rightarrow> addr \<Rightarrow> socket_message \<Rightarrow> socket_server \<Rightarrow> (handled + socket_server) option" where
  "udp_turn K i pr tmp result ss = (let s = ss_slot ss i; l = wl pr s in do {
     wb \<leftarrow> sk_wbs s tmp;
     udp_address \<leftarrow> wb_udp wb;
     (case udp_socket_address s udp_address of
        None \<Rightarrow> do {
          ss \<leftarrow> drop_udp i pr tmp
            (skynet_error_log (''socket-server : udp ('' @ fmt_d (sk_id s) @ '') type mismatch.'') ss);
          Some (Inl (Some (None, result, ss)))
        }
      | Some sa \<Rightarrow> do {
          (n, err, ss) \<leftarrow> sys_sendto K (sk_id s) (sk_fd s) (wb_ptr wb) (wb_sz wb) sa ss;
          if n < 0 then
            (if err = EINTR \<or> err = EAGAIN then Some (Inl (Some (None, result, ss)))
             else do {
               ss \<leftarrow> drop_udp i pr tmp (skynet_error_log (''socket-server : udp ('' @ fmt_d (sk_id s) @
                 '') sendto error '' @ k_strerror K err @ ''.'') ss);
               Some (Inl (Some (None, result, ss)))
             })
          else do {
            let ss = stat_write i (wb_sz wb) ss;
            let ss = upd_slot i (\<lambda>s. s\<lparr>sk_wb_size := sk_wb_size s - wb_sz wb\<rparr>) ss;
            let ss = upd_slot i (set_wl pr (l\<lparr>wl_head := wb_next wb\<rparr>)) ss;
            ss \<leftarrow> write_buffer_free i tmp ss;
            Some (Inr ss)
          }
        })
   })"

lemma send_list_udp_code [code]:
  "send_list_udp K i pr result ss =
     (case wl_head (wl pr (ss_slot ss i)) of
        None \<Rightarrow> Some (None, result, upd_slot i (set_wl pr ((wl pr (ss_slot ss i))\<lparr>wl_tail := None\<rparr>)) ss)
      | Some tmp \<Rightarrow>
          (case udp_turn K i pr tmp result ss of
             None \<Rightarrow> None
           | Some x \<Rightarrow> (case x of Inl h \<Rightarrow> h | Inr ss \<Rightarrow> send_list_udp K i pr result ss)))"
  by (subst send_list_udp.simps)
    (auto simp: udp_turn_def Let_def split: option.splits Option.bind_splits prod.splits if_splits)

lemma free_wbs_code [code]:
  "free_wbs i wb ss = (case wb of
     None \<Rightarrow> Some ss
   | Some tmp \<Rightarrow>
       (case do { b \<leftarrow> sk_wbs (ss_slot ss i) tmp; ss \<leftarrow> write_buffer_free i tmp ss; Some (wb_next b, ss) } of
          None \<Rightarrow> None
        | Some (nxt, ss) \<Rightarrow> free_wbs i nxt ss))"
  by (subst free_wbs.simps) (simp split: option.splits Option.bind_splits)

text \<open>The buffers of the kernel are full.\<close>

definition demo_full :: kernel where
  "demo_full = demo_kernel\<lparr>k_sendto := (\<lambda>tr fd d sa. (-1, EAGAIN)), k_write := (\<lambda>tr fd d. (-1, EAGAIN))\<rparr>"

text \<open>The connection with id 1, open.\<close>

definition demo_open :: "socket_server option" where
  "demo_open = demo_poll demo_kernel (demo_connect (Some demo_server))"

definition demo_objects :: socket_object_interface where
  "demo_objects = \<lparr>soi_buffer = (\<lambda>p. ptr_add p 1), soi_size = (\<lambda>p. 2)\<rparr>"

text \<open>
  A send on the id that \<open>socket_server_connect\<close> returned, before the socket thread has processed
  the request to connect, is not counted; once the connection is open, taking the data from the
  pipe fails the assertion of \<open>dec_sending_ref\<close>. The same send after the connection is open is fine.
\<close>

theorem send_before_open_aborts:
  "\<not> Option.is_none (demo_poll demo_kernel (demo_send demo_kernel 1 [65] (demo_connect (Some demo_server)))) \<and>
   demo_poll demo_kernel (demo_poll demo_kernel (demo_send demo_kernel 1 [65] (demo_connect (Some demo_server)))) = None \<and>
   \<not> Option.is_none (demo_poll demo_kernel (demo_send demo_full 1 [65] demo_open))"
  by (intro conjI; code_simp)

text \<open>
  When the direct write of \<open>socket_server_send\<close> on a UDP socket fails, the rest becomes a plain
  write buffer, and the next write event reads the address of a packet behind its end.
\<close>

theorem udp_direct_write_overrun:
  "\<not> Option.is_none (demo_poll demo_kernel
     (demo_send demo_full 1 [65] (demo_poll demo_kernel (demo_poll demo_kernel demo_udp)))) \<and>
   demo_poll (demo_epoll [demo_event (Some 1) False True] demo_kernel) (demo_poll demo_kernel
     (demo_send demo_full 1 [65] (demo_poll demo_kernel (demo_poll demo_kernel demo_udp)))) = None"
  by (intro conjI; code_simp)

definition demo_two_low :: "socket_buffer_type \<Rightarrow> socket_server option" where
  "demo_two_low t = demo_poll demo_full (demo_poll demo_full
     (demo_send_low demo_full 1 t [0, 65, 66] (demo_send_low demo_full 1 t [0, 65, 66]
       (map_option (socket_server_userobject demo_objects) demo_open))))"

text \<open>
  Two user objects sent with low priority fail the assertion of \<open>send_buffer_\<close> at the next write
  event, since the data of an object does not start at the object and so counts as half sent;
  two blocks of memory do not.
\<close>

theorem low_priority_object_aborts:
  "\<not> Option.is_none (demo_two_low SOCKET_BUFFER_OBJECT) \<and>
   demo_poll (demo_epoll [demo_event (Some 1) False True] demo_full) (demo_two_low SOCKET_BUFFER_OBJECT) = None \<and>
   \<not> Option.is_none (demo_poll (demo_epoll [demo_event (Some 1) False True] demo_full) (demo_two_low SOCKET_BUFFER_MEMORY))"
  by (intro conjI; code_simp)

text \<open>
  The connections 1 and 2, the first one half closed after the end of its input; then a batch of
  three events arrives, and the first connection is shut down by a request.
\<close>

definition demo_batch :: kernel where
  "demo_batch = demo_epoll [demo_event None True False, demo_event (Some 2) True False, demo_event (Some 1) True False]
     (demo_kernel\<lparr>k_recvfrom := (\<lambda>tr fd. Inl (E_OTHER 9))\<rparr>)"

definition demo_half :: "socket_server option" where
  "demo_half = demo_poll (demo_epoll [demo_event (Some 1) True False] (demo_kernel\<lparr>k_read := (\<lambda>tr fd n. Inr [])\<rparr>))
     (demo_poll demo_kernel (demo_connect demo_open))"

definition demo_shut :: "socket_server option" where
  "demo_shut = demo_poll demo_batch (demo_poll demo_batch
     (map_option (socket_server_shutdown demo_kernel 0 1) (demo_poll demo_batch demo_half)))"

definition at_alloc :: "int \<Rightarrow> socket_server option \<Rightarrow> socket_server option" where
  "at_alloc n = map_option (\<lambda>ss. ss\<lparr>ss_alloc_id := n\<rparr>)"

text \<open>
  A connection that was half closed before is closed without a report, so its event of the batch is not
  cleared; when the slot is reserved again before that event is taken (here the counter has come
  round to it), the event fails the assertion of \<open>force_close\<close>. With a slot that is not reserved again the event
  is ignored.
\<close>

theorem stale_event_aborts:
  "\<not> Option.is_none (demo_connect (at_alloc 65536 demo_shut)) \<and>
   demo_poll demo_batch (demo_connect (at_alloc 65536 demo_shut)) = None \<and>
   \<not> Option.is_none (demo_poll demo_batch (demo_connect demo_shut))"
  by (intro conjI; code_simp)

text \<open>
  A \<open>socket_server_udp_connect\<close> whose host cannot be resolved leaves its socket marked as
  connecting: it will never be written to directly again.
\<close>

theorem udp_connect_failure_sticks:
  assumes "\<not> socket_invalid (ss_slot ss (HASH_ID sid)) sid" "0 \<le> sk_udpconnecting (ss_slot ss (HASH_ID sid))"
    and "k_getaddrinfo K (ss_trace ss) addr port = Inl e"
  shows "\<exists>ss'. socket_server_udp_connect K sid addr port ss = Some (-1, ss') \<and> ss_pipe ss' = ss_pipe ss \<and>
    \<not> can_direct_write (ss_slot ss' (HASH_ID sid)) sid \<and>
    sk_type (ss_slot ss' (HASH_ID sid)) = sk_type (ss_slot ss (HASH_ID sid))"
  using assms by (simp add: socket_server_udp_connect_def can_direct_write_def Let_def)

end
