(* ===== verification/Socket_Run.thy ===== *)
theory Socket_Run
  imports Socket_Events Socket_Cases
begin

text \<open>
  The socket server as a machine: the calls of the workers and the rounds of the socket thread as
  operations, in any order, each with its own answers of the operating system.
\<close>

section \<open>Machines that report\<close>

fun run_ops :: "('op \<Rightarrow> 's \<Rightarrow> ('r \<times> 's) option) \<Rightarrow> 'op list \<Rightarrow> 's \<Rightarrow> ('r list \<times> 's) option" where
  "run_ops run [] s = Some ([], s)"
| "run_ops run (op # ops) s = do { (r, s) \<leftarrow> run op s; (rs, s) \<leftarrow> run_ops run ops s; Some (r # rs, s) }"

text \<open>Every operation of the list is permitted in the state in which it is called.\<close>

fun permitted :: "('op \<Rightarrow> 's \<Rightarrow> ('r \<times> 's) option) \<Rightarrow> ('op \<Rightarrow> 's \<Rightarrow> bool) \<Rightarrow> 'op list \<Rightarrow> 's \<Rightarrow> bool" where
  "permitted run ok [] s \<longleftrightarrow> True"
| "permitted run ok (op # ops) s \<longleftrightarrow> ok op s \<and> (case run op s of None \<Rightarrow> True | Some (r, s') \<Rightarrow> permitted run ok ops s')"

text \<open>
  An interface: operations that return as long as they are permitted; streams that the operations
  extend while they are open; and ids that are reported as closed once.
\<close>

locale stream_machine =
  fixes run :: "'op \<Rightarrow> 's \<Rightarrow> ('r \<times> 's) option" and ok :: "'op \<Rightarrow> 's \<Rightarrow> bool" and inv :: "'s \<Rightarrow> bool"
    and rel :: "'i \<Rightarrow> 's \<Rightarrow> 'b list \<Rightarrow> bool" and takes :: "'i \<Rightarrow> 's \<Rightarrow> bool" and up :: "'i \<Rightarrow> 's \<Rightarrow> bool"
    and add :: "'op \<Rightarrow> 'i \<Rightarrow> 'b list option" and closed :: "'i \<Rightarrow> 's \<Rightarrow> bool" and closes :: "'r \<Rightarrow> 'i option"
  assumes returns: "inv s \<Longrightarrow> ok op s \<Longrightarrow> \<exists>r s'. run op s = Some (r, s') \<and> inv s'"
    and adds: "inv s \<Longrightarrow> ok op s \<Longrightarrow> run op s = Some (r, s') \<Longrightarrow> rel i s bs \<Longrightarrow> takes i s \<Longrightarrow> up i s' \<Longrightarrow>
      add op i = Some d \<Longrightarrow> rel i s' (bs @ d)"
    and takes_up: "takes i s \<Longrightarrow> up i s"
    and stays_closed: "inv s \<Longrightarrow> ok op s \<Longrightarrow> run op s = Some (r, s') \<Longrightarrow> closed i s \<Longrightarrow> closed i s'"
    and close_once: "inv s \<Longrightarrow> ok op s \<Longrightarrow> run op s = Some (r, s') \<Longrightarrow> closes r = Some i \<Longrightarrow> \<not> closed i s \<and> closed i s'"
begin

lemma run_returns:
  "inv s \<Longrightarrow> permitted run ok ops s \<Longrightarrow> \<exists>rs s'. run_ops run ops s = Some (rs, s') \<and> inv s'"
proof (induction ops arbitrary: s)
  case (Cons op ops)
  then obtain r s1 where 1: "run op s = Some (r, s1)" "inv s1" using returns by (metis permitted.simps(2))
  then show ?case using Cons.IH [OF 1(2)] Cons.prems(2) by auto
qed simp

lemma run_step:
  assumes "inv s" "permitted run ok (op # ops) s" "run_ops run (op # ops) s = Some (rs, s')"
  obtains r rs' s1 where "run op s = Some (r, s1)" "rs = r # rs'" "run_ops run ops s1 = Some (rs', s')" "inv s1" "ok op s" "permitted run ok ops s1"
proof -
  have o: "ok op s" using assms(2) by simp
  obtain r s1 where 1: "run op s = Some (r, s1)" "inv s1" using returns [OF assms(1) o] by blast
  moreover obtain rs' where "rs = r # rs'" "run_ops run ops s1 = Some (rs', s')"
    using assms(3) 1(1) by (auto split: bind_splits)
  ultimately show ?thesis using that o assms(2) by auto
qed

lemma closed_run:
  "inv s \<Longrightarrow> permitted run ok ops s \<Longrightarrow> run_ops run ops s = Some (rs, s') \<Longrightarrow> closed i s \<Longrightarrow>
    closed i s' \<and> i \<notin> set (List.map_filter closes rs)"
proof (induction ops arbitrary: s rs)
  case Nil
  then show ?case by simp
next
  case (Cons op ops)
  obtain r rs' s1 where 1: "run op s = Some (r, s1)" "rs = r # rs'" "run_ops run ops s1 = Some (rs', s')" "inv s1" "ok op s" "permitted run ok ops s1"
    using run_step [OF Cons.prems(1-3)] by blast
  have "closed i s1" using stays_closed [OF Cons.prems(1) 1(5,1) Cons.prems(4)] .
  moreover have "closes r \<noteq> Some i" using close_once [OF Cons.prems(1) 1(5,1)] Cons.prems(4) by blast
  ultimately show ?case using Cons.IH [OF 1(4,6,3)] 1(2) by (auto split: option.splits)
qed

lemma closes_distinct:
  "inv s \<Longrightarrow> permitted run ok ops s \<Longrightarrow> run_ops run ops s = Some (rs, s') \<Longrightarrow> distinct (List.map_filter closes rs)"
proof (induction ops arbitrary: s rs)
  case Nil
  then show ?case by simp
next
  case (Cons op ops)
  obtain r rs' s1 where 1: "run op s = Some (r, s1)" "rs = r # rs'" "run_ops run ops s1 = Some (rs', s')" "inv s1" "ok op s" "permitted run ok ops s1"
    using run_step [OF Cons.prems] by blast
  have "i \<notin> set (List.map_filter closes rs')" if "closes r = Some i" for i
    using closed_run [OF 1(4,6,3)] close_once [OF Cons.prems(1) 1(5,1) that] by blast
  then show ?case using Cons.IH [OF 1(4,6,3)] 1(2) by (auto split: option.splits)
qed

lemma stream_run:
  "inv s \<Longrightarrow> permitted run (\<lambda>op s. ok op s \<and> takes i s \<and> add op i \<noteq> None) ops s \<Longrightarrow>
    run_ops run ops s = Some (rs, s') \<Longrightarrow> rel i s bs \<Longrightarrow> up i s' \<Longrightarrow>
    rel i s' (bs @ concat (map (\<lambda>op. the (add op i)) ops))"
proof (induction ops arbitrary: s rs bs)
  case (Cons op ops)
  have o: "ok op s" "takes i s" "add op i \<noteq> None" using Cons.prems(2) by auto
  obtain r s1 where 1: "run op s = Some (r, s1)" "inv s1" using returns [OF Cons.prems(1) o(1)] by blast
  obtain rs' where 2: "run_ops run ops s1 = Some (rs', s')" using Cons.prems(3) 1(1) by (auto split: bind_splits)
  have p: "permitted run (\<lambda>op s. ok op s \<and> takes i s \<and> add op i \<noteq> None) ops s1" using Cons.prems(2) 1(1) by simp
  have "up i s1"
  proof (cases ops)
    case Nil
    then show ?thesis using 2 Cons.prems(5) by simp
  next
    case (Cons op' ops')
    then show ?thesis using p takes_up by simp
  qed
  then have "rel i s1 (bs @ the (add op i))" using adds [OF Cons.prems(1) o(1) 1(1) Cons.prems(4) o(2)] o(3) by auto
  from Cons.IH [OF 1(2) p 2 this Cons.prems(5)] show ?case by simp
qed simp

end

section \<open>The operations\<close>

text \<open>The data of a send is a block of memory that the caller has allocated.\<close>

datatype sop = Op_connect u64 string int | Op_listen u64 "string option" int int | Op_bind u64 int
  | Op_udp u64 "string option" int | Op_send socket_buffer_type int "u8 list"
  | Op_send_lowpriority socket_buffer_type int "u8 list" | Op_udp_send "u8 list" socket_buffer_type int "u8 list"
  | Op_udp_connect int string int | Op_close u64 int | Op_shutdown u64 int | Op_start u64 int | Op_pause u64 int
  | Op_nodelay int | Op_exit | Op_userobject socket_object_interface | Op_updatetime u64 | Op_poll socket_message bool

type_synonym op_report = "(socket_result \<times> int) option"

definition unit_op :: "socket_server \<Rightarrow> (op_report \<times> socket_server) option" where
  "unit_op ss = Some (None, ss)"

definition alloc_op :: "(socket_sendbuffer \<Rightarrow> socket_server \<Rightarrow> (int \<times> socket_server) option) \<Rightarrow> socket_buffer_type \<Rightarrow> int \<Rightarrow>
    u8 list \<Rightarrow> socket_server \<Rightarrow> (op_report \<times> socket_server) option" where
  "alloc_op f t sid d ss = (let (b, ss) = MALLOC d ss in map_option (\<lambda>(r, ss). (None, ss)) (f (buf_of sid t b d) ss))"

fun run_op :: "kernel \<times> sop \<Rightarrow> socket_server \<Rightarrow> (op_report \<times> socket_server) option" where
  "run_op (K, Op_connect q addr port) ss = unit_op (snd (socket_server_connect K q addr port ss))"
| "run_op (K, Op_listen q addr port backlog) ss = unit_op (snd (socket_server_listen K q addr port backlog ss))"
| "run_op (K, Op_bind q fd) ss = unit_op (snd (socket_server_bind K q fd ss))"
| "run_op (K, Op_udp q addr port) ss = unit_op (snd (socket_server_udp K q addr port ss))"
| "run_op (K, Op_send t sid d) ss = alloc_op (socket_server_send K) t sid d ss"
| "run_op (K, Op_send_lowpriority t sid d) ss = alloc_op (socket_server_send_lowpriority K) t sid d ss"
| "run_op (K, Op_udp_send a t sid d) ss = alloc_op (socket_server_udp_send K a) t sid d ss"
| "run_op (K, Op_udp_connect sid addr port) ss = map_option (\<lambda>(r, ss). (None, ss)) (socket_server_udp_connect K sid addr port ss)"
| "run_op (K, Op_close q sid) ss = unit_op (socket_server_close K q sid ss)"
| "run_op (K, Op_shutdown q sid) ss = unit_op (socket_server_shutdown K q sid ss)"
| "run_op (K, Op_start q sid) ss = unit_op (socket_server_start K q sid ss)"
| "run_op (K, Op_pause q sid) ss = unit_op (socket_server_pause K q sid ss)"
| "run_op (K, Op_nodelay sid) ss = unit_op (socket_server_nodelay K sid ss)"
| "run_op (K, Op_exit) ss = unit_op (socket_server_exit K ss)"
| "run_op (K, Op_userobject soi) ss = unit_op (socket_server_userobject soi ss)"
| "run_op (K, Op_updatetime n) ss = unit_op (socket_server_updatetime n ss)"
| "run_op (K, Op_poll r mo) ss = map_option (\<lambda>(t, r, mo, ss). (map_option (\<lambda>t. (t, rs_id r)) t, ss)) (poll_round K r mo ss)"

text \<open>
  The conditions on the caller. Data is no user object and shorter than 2 GB; a send is for an id
  whose socket is gone or has been opened, with less than 65535 requests of it in the pipe, and
  \<open>socket_server_send\<close> for a stream, \<open>socket_server_udp_send\<close> for a UDP socket; requests name ids that were
  handed out. An id is reserved before the counter wraps, for a slot without a waiting event. Each
  excluded case is a way to a failed assertion, see the theorems of \<open>Socket_Cases\<close>.
\<close>

definition data_ok :: "socket_buffer_type \<Rightarrow> u8 list \<Rightarrow> bool" where
  "data_ok t d \<longleftrightarrow> t \<noteq> SOCKET_BUFFER_OBJECT \<and> int (length d) \<le> INT_MAX"

definition of_protocol :: "(u8 \<Rightarrow> bool) \<Rightarrow> int \<Rightarrow> socket_server \<Rightarrow> bool" where
  "of_protocol P sid ss \<longleftrightarrow> socket_invalid (ss_slot ss (HASH_ID sid)) sid \<or> P (sk_protocol (ss_slot ss (HASH_ID sid)))"

fun call_ok :: "kernel \<Rightarrow> sop \<Rightarrow> socket_server \<Rightarrow> bool" where
  "call_ok K (Op_connect q addr port) ss = may_reserve ss"
| "call_ok K (Op_listen q addr port backlog) ss = may_reserve ss"
| "call_ok K (Op_bind q fd) ss = may_reserve ss"
| "call_ok K (Op_udp q addr port) ss = may_reserve ss"
| "call_ok K (Op_send t sid d) ss \<longleftrightarrow> data_ok t d \<and> may_send sid ss \<and> of_protocol (\<lambda>p. p = PROTOCOL_TCP) sid ss"
| "call_ok K (Op_send_lowpriority t sid d) ss \<longleftrightarrow> data_ok t d \<and> may_send sid ss"
| "call_ok K (Op_udp_send a t sid d) ss \<longleftrightarrow> data_ok t d \<and> may_send sid ss \<and> a \<noteq> [] \<and> of_protocol (\<lambda>p. p \<noteq> PROTOCOL_TCP) sid ss"
| "call_ok K (Op_poll r mo) ss \<longleftrightarrow> has_room ss \<and> epoll_ok K ss \<and> epoll_ok K (sys_log Sys_select ss)"
| "call_ok K (Op_udp_connect sid addr port) ss \<longleftrightarrow> sid \<le> ss_alloc_id ss"
| "call_ok K (Op_close q sid) ss \<longleftrightarrow> sid \<le> ss_alloc_id ss"
| "call_ok K (Op_shutdown q sid) ss \<longleftrightarrow> sid \<le> ss_alloc_id ss"
| "call_ok K (Op_start q sid) ss \<longleftrightarrow> sid \<le> ss_alloc_id ss"
| "call_ok K (Op_pause q sid) ss \<longleftrightarrow> sid \<le> ss_alloc_id ss"
| "call_ok K (Op_nodelay sid) ss \<longleftrightarrow> sid \<le> ss_alloc_id ss"
| "call_ok K op ss = True"

definition op_ok :: "kernel \<times> sop \<Rightarrow> socket_server \<Rightarrow> bool" where
  "op_ok x ss \<longleftrightarrow> kernel_ok (fst x) \<and> call_ok (fst x) (snd x) ss"

text \<open>What an operation adds to a stream; of a stream with data of low priority nothing is said.\<close>

fun sent_by :: "sop \<Rightarrow> int \<Rightarrow> u8 list option" where
  "sent_by (Op_send t sid d) = sent sid (Some d)"
| "sent_by (Op_send_lowpriority t sid d) = sent sid None"
| "sent_by op = still"

definition closed_report :: "op_report \<Rightarrow> int option" where
  "closed_report r = (case r of Some (SOCKET_CLOSE, sid) \<Rightarrow> Some sid | _ \<Rightarrow> None)"

section \<open>Every step\<close>

definition step_ok :: "(int \<Rightarrow> u8 list option) \<Rightarrow> socket_server \<Rightarrow> (op_report \<times> socket_server) option \<Rightarrow> bool" where
  "step_ok add ss h \<longleftrightarrow> (\<exists>r ss' ow. h = Some (r, ss') \<and> server_inv ow ss' \<and> moves add ss ss' \<and>
     (\<forall>sid. closed_report r = Some sid \<longrightarrow> \<not> id_closed sid ss \<and> id_closed sid ss'))"

lemma unit_step: "server_inv ow ss' \<and> moves add ss ss' \<Longrightarrow> step_ok add ss (unit_op ss')"
  unfolding step_ok_def unit_op_def by (auto simp: closed_report_def)

lemma unit_calm:
  assumes v: "server_inv ow ss" and c: "calm ss ss'"
    and e: "ss_ev ss' = ss_ev ss" "ss_event_n ss' = ss_event_n ss" "ss_event_index ss' = ss_event_index ss"
  shows "step_ok still ss (unit_op ss')"
proof (rule unit_step, intro conjI)
  have "events_ok ss'" using server_invD(6) [OF v] events_ok_same [OF e] c by (simp add: calm_def)
  then show "server_inv ow ss'" using calm_inv [OF c v] by blast
qed (rule moves_calm [OF c])

lemma alloc_step:
  assumes v: "server_inv ow ss" and f: "\<And>ss1. server_inv ow ss1 \<Longrightarrow> loose ow (ss_brk ss) d ss1 \<Longrightarrow>
      ss_slot ss1 = ss_slot ss \<Longrightarrow> ss_pipe ss1 = ss_pipe ss \<Longrightarrow>
      \<exists>r ss' ow'. f (buf_of sid t (ss_brk ss) d) ss1 = Some (r, ss') \<and> server_inv ow' ss' \<and> moves add ss1 ss'"
  shows "step_ok add ss (alloc_op f t sid d ss)"
proof -
  define ss1 where "ss1 = snd (MALLOC d ss)"
  have m: "MALLOC d ss = (ss_brk ss, ss1)" "ss_slot ss1 = ss_slot ss" "ss_pipe ss1 = ss_pipe ss" by (simp_all add: ss1_def MALLOC_def)
  have 1: "server_inv ow ss1" "moves still ss ss1" "loose ow (ss_brk ss) d ss1"
    using inv_malloc [OF v] loose_malloc [OF v] by (simp_all add: ss1_def)
  obtain r ss' ow' where s: "f (buf_of sid t (ss_brk ss) d) ss1 = Some (r, ss')" "server_inv ow' ss'" "moves add ss1 ss'"
    using f [OF 1(1,3) m(2,3)] by blast
  then show ?thesis
    using moves_left [OF 1(2) m(2) s(3)] unfolding step_ok_def alloc_op_def m(1) by (auto simp: closed_report_def)
qed

lemma poll_step:
  assumes "polled_ok ss (poll_round K r mo ss)"
  shows "step_ok still ss (run_op (K, Op_poll r mo) ss)"
proof -
  obtain t r' mo' ss' ow where h: "poll_round K r mo ss = Some (t, r', mo', ss')" "server_inv ow ss'" "moves still ss ss'" "report_ok t r' ss ss'"
    using assms unfolding polled_ok_def by blast
  have "closed_report (map_option (\<lambda>t. (t, rs_id r')) t) = Some sid \<Longrightarrow> t = Some SOCKET_CLOSE \<and> sid = rs_id r'" for sid
    by (cases t; cases "the t") (simp_all add: closed_report_def)
  then show ?thesis using h unfolding step_ok_def report_ok_def by auto
qed

lemma op_step:
  assumes v: "server_inv ow ss" and o: "op_ok (K, op) ss"
  shows "step_ok (sent_by op) ss (run_op (K, op) ss)"
proof -
  have K: "kernel_ok K" and c: "call_ok K op ss" using o by (simp_all add: op_ok_def)
  note plain = plain_requests_ok [OF v, of _ K]
  show ?thesis
  proof (cases op)
    case (Op_connect q addr port)
    then show ?thesis using connect_ok [OF v _ surjective_pairing] c by (auto intro!: unit_step [where ow = ow])
  next
    case (Op_listen q addr port backlog)
    then show ?thesis using listen_ok [OF v _ surjective_pairing] c by (auto intro!: unit_step [where ow = ow])
  next
    case (Op_bind q fd)
    then show ?thesis using bind_ok [OF v _ surjective_pairing] c by (auto intro!: unit_step [where ow = ow])
  next
    case (Op_udp q addr port)
    then show ?thesis using udp_ok [OF v _ surjective_pairing] c by (auto intro!: unit_step [where ow = ow])
  next
    case (Op_send t sid d)
    show ?thesis unfolding Op_send run_op.simps sent_by.simps
      by (rule alloc_step [OF v], rule socket_server_send_ok [OF K])
        (use c Op_send in \<open>simp_all add: data_ok_def of_protocol_def may_send_def\<close>)
  next
    case (Op_send_lowpriority t sid d)
    show ?thesis unfolding Op_send_lowpriority run_op.simps sent_by.simps
    proof (rule alloc_step [OF v])
      fix ss1
      assume "server_inv ow ss1" "loose ow (ss_brk ss) d ss1" "ss_slot ss1 = ss_slot ss" "ss_pipe ss1 = ss_pipe ss"
      then show "\<exists>r ss' ow'. socket_server_send_lowpriority K (buf_of sid t (ss_brk ss) d) ss1 = Some (r, ss') \<and>
          server_inv ow' ss' \<and> moves (sent sid None) ss1 ss'"
        using socket_server_send_lowpriority_ok [of ow ss1 "ss_brk ss" d t sid K] c Op_send_lowpriority
        by (auto simp: data_ok_def may_send_def)
    qed
  next
    case (Op_udp_send a t sid d)
    show ?thesis unfolding Op_udp_send run_op.simps sent_by.simps
    proof (rule alloc_step [OF v])
      fix ss1
      assume "server_inv ow ss1" "loose ow (ss_brk ss) d ss1" "ss_slot ss1 = ss_slot ss" "ss_pipe ss1 = ss_pipe ss"
      then show "\<exists>r ss' ow'. socket_server_udp_send K a (buf_of sid t (ss_brk ss) d) ss1 = Some (r, ss') \<and>
          server_inv ow' ss' \<and> moves still ss1 ss'"
        using socket_server_udp_send_ok [of ow ss1 "ss_brk ss" d t sid K a] c Op_udp_send
        by (auto simp: data_ok_def may_send_def of_protocol_def)
    qed
  next
    case (Op_udp_connect sid addr port)
    then show ?thesis using udp_connect_ok [OF K v, of sid addr port] c unfolding step_ok_def by (auto simp: closed_report_def)
  next
    case Op_exit
    then show ?thesis using exit_ok [OF v, of K] by (auto intro!: unit_step [where ow = ow])
  next
    case (Op_userobject soi)
    then show ?thesis by (auto intro!: unit_calm [OF v] simp: calm_def socket_server_userobject_def)
  next
    case (Op_updatetime n)
    then show ?thesis by (auto intro!: unit_calm [OF v] simp: calm_def socket_server_updatetime_def)
  next
    case (Op_poll r mo)
    then show ?thesis using poll_step [OF poll_round_polled [OF K v, of r mo]] c by (auto simp del: run_op.simps)
  qed (use plain c in \<open>auto intro!: unit_step [where ow = ow]\<close>)
qed

lemma created_inv:
  assumes "socket_server_create K time old = Some (Some ss, tr)"
  shows "server_inv (\<lambda>b. None) ss"
proof -
  have s: "ss_slot ss = (\<lambda>i. init_slot (old i))" "ss_alloc_id ss = 0" "ss_pipe ss = []" "ss_mem ss = Map.empty" "ss_brk ss = 0"
    "ss_ev ss = []" "ss_event_n ss = 0" "ss_event_index ss = 0"
    using assms by (auto simp: socket_server_create_def Let_def split: if_splits option.splits prod.splits bind_splits)
  have i: "closed_ok (init_slot x)" "sk_type (init_slot x) = SOCKET_TYPE_INVALID" "\<not> live (init_slot x)" for x
    by (simp_all add: init_slot_def closed_ok_def live_def)
  have "sinv (\<lambda>b. None) j ss" for j by (simp add: sinv_def slot_inv_def s i)
  moreover have "ids_ok ss" by (simp add: ids_ok_def id_range_def s i INT_MAX_def)
  moreover have "pipe_ok (\<lambda>b. None) ss" by (simp add: pipe_ok_def s i reserved_ids_def)
  moreover have "counts_ok ss" by (simp add: counts_ok_def count_ok_def s i)
  moreover have "events_ok ss" by (simp add: events_ok_def event_slots_def s)
  ultimately show ?thesis by (simp add: server_inv_def)
qed

interpretation sockets: stream_machine run_op op_ok "\<lambda>ss. \<exists>ow. server_inv ow ss" stream_rel
  "\<lambda>sid ss. accepts (ss_slot ss (HASH_ID sid)) sid"
  "\<lambda>sid ss. live (ss_slot ss (HASH_ID sid)) \<and> sk_id (ss_slot ss (HASH_ID sid)) = sid"
  "\<lambda>x. sent_by (snd x)" id_closed closed_report
proof
  fix s s' :: socket_server and op :: "kernel \<times> sop" and r i bs d
  show "accepts (ss_slot s (HASH_ID i)) i \<Longrightarrow> live (ss_slot s (HASH_ID i)) \<and> sk_id (ss_slot s (HASH_ID i)) = i"
    by (auto simp: accepts_def live_def)
  assume v: "\<exists>ow. server_inv ow s" and o: "op_ok op s"
  have st: "step_ok (sent_by (snd op)) s (run_op op s)" using v o op_step [of _ s "fst op" "snd op"] by auto
  then show "\<exists>r s'. run_op op s = Some (r, s') \<and> (\<exists>ow. server_inv ow s')" unfolding step_ok_def by blast
  assume r: "run_op op s = Some (r, s')"
  have m: "moves (sent_by (snd op)) s s'" "\<And>x. closed_report r = Some x \<Longrightarrow> \<not> id_closed x s \<and> id_closed x s'"
    using st r unfolding step_ok_def by auto
  show "stream_rel i s' (bs @ d)" if "stream_rel i s bs" "accepts (ss_slot s (HASH_ID i)) i"
    "live (ss_slot s' (HASH_ID i)) \<and> sk_id (ss_slot s' (HASH_ID i)) = i" "sent_by (snd op) i = Some d"
    using moves_rel [OF m(1) that(1,2)] that(3,4) by blast
  show "id_closed i s \<Longrightarrow> id_closed i s'" using moves_closed [OF m(1)] .
  show "closed_report r = Some i \<Longrightarrow> \<not> id_closed i s \<and> id_closed i s'" using m(2) .
qed

end
