(* ===== verification/Socket_Contract.thy ===== *)
theory Socket_Contract
  imports Socket_Run
begin

text \<open>
  The properties of the socket server: every permitted sequence of calls returns, streams keep
  their order, an id is reported as closed once, the counters are exact, a free slot is found,
  and the answer to a packet goes to its sender.
\<close>

section \<open>Evaluation of the conditions\<close>

lemma set_map_filter: "set (List.map_filter f xs) = {y. Some y \<in> f ` set xs}"
  by (induction xs) (auto split: option.splits)

lemma event_slots_code [code]:
  "event_slots ss = set (List.map_filter ev_s (drop (ss_event_index ss) (take (ss_event_n ss) (ss_ev ss))))"
  by (simp add: event_slots_def set_map_filter)

lemma epoll_ok_code [code]:
  "epoll_ok K ss = (case k_epoll_wait K (ss_trace ss) of Inl e \<Rightarrow> True | Inr es \<Rightarrow>
     list_all (\<lambda>e. case ev_s e of None \<Rightarrow> True | Some i \<Rightarrow> sk_type (ss_slot ss i) \<noteq> SOCKET_TYPE_RESERVE) es)"
  by (auto simp: epoll_ok_def list_all_iff split: sum.splits option.splits)

text \<open>The condition on the operating system is proved apart.\<close>

definition calls_ok :: "kernel \<times> sop \<Rightarrow> socket_server \<Rightarrow> bool" where
  "calls_ok x ss = call_ok (fst x) (snd x) ss"

lemma permitted_calls:
  "\<forall>x \<in> set ops. kernel_ok (fst x) \<Longrightarrow> permitted run_op calls_ok ops ss \<Longrightarrow> permitted run_op op_ok ops ss"
  by (induction ops arbitrary: ss) (auto simp: op_ok_def calls_ok_def split: option.splits)

lemma permitted_mono:
  "(\<And>op s. ok op s \<Longrightarrow> ok' op s) \<Longrightarrow> permitted run ok ops s \<Longrightarrow> permitted run ok' ops s"
  by (induction ops arbitrary: s) (auto split: option.splits)

lemma demo_full_ok: "kernel_ok demo_full"
  by (auto simp: kernel_ok_def demo_full_def demo_kernel_def interrupted_def UDP_ADDRESS_SIZE_def demo_addr_def)

lemma demo_epoll_ok: "kernel_ok K \<Longrightarrow> kernel_ok (demo_epoll es K)"
  by (simp add: kernel_ok_def demo_epoll_def)

text \<open>
  A session: a connection is opened, one block is written at once, a second one waits because the
  kernel takes nothing; and one in which the connection is closed twice.
\<close>

definition demo_open_ops :: "(kernel \<times> sop) list" where
  "demo_open_ops = [(demo_kernel, Op_connect 0 ''localhost'' 8080), (demo_kernel, Op_poll demo_msg False)]"

definition demo_stream_ops :: "(kernel \<times> sop) list" where
  "demo_stream_ops = [(demo_kernel, Op_send SOCKET_BUFFER_MEMORY 1 [65, 66]), (demo_full, Op_send SOCKET_BUFFER_RAWPOINTER 1 [67])]"

definition demo_close_ops :: "(kernel \<times> sop) list" where
  "demo_close_ops = [(demo_kernel, Op_close 0 1), (demo_kernel, Op_poll demo_msg False), (demo_kernel, Op_close 0 1),
     (demo_kernel, Op_poll demo_msg False)]"

lemma demo_kernels:
  "\<forall>x \<in> set (demo_open_ops @ demo_stream_ops @ demo_close_ops). kernel_ok (fst x)"
  using demo_kernel_ok demo_full_ok by (auto simp: demo_open_ops_def demo_stream_ops_def demo_close_ops_def)

definition demo_opened :: socket_server where
  "demo_opened = snd (the (run_ops run_op demo_open_ops demo_server))"

lemma demo_open_run: "run_ops run_op demo_open_ops demo_server = Some ([None, Some (SOCKET_OPEN, 1)], demo_opened)"
proof -
  have "map_option fst (run_ops run_op demo_open_ops demo_server) = Some [None, Some (SOCKET_OPEN, 1)]" by code_simp
  then show ?thesis by (auto simp: demo_opened_def)
qed

lemma demo_open_permitted: "permitted run_op op_ok demo_open_ops demo_server"
proof (rule permitted_calls)
  show "permitted run_op calls_ok demo_open_ops demo_server" by code_simp
qed (use demo_kernels in auto)

lemma demo_close_permitted: "permitted run_op op_ok demo_close_ops demo_opened"
proof (rule permitted_calls)
  show "permitted run_op calls_ok demo_close_ops demo_opened" by code_simp
qed (use demo_kernels in auto)

lemma permitted_append:
  "permitted run ok ops s \<Longrightarrow> run_ops run ops s = Some (rs, s') \<Longrightarrow> permitted run ok ops' s' \<Longrightarrow> permitted run ok (ops @ ops') s"
  by (induction ops arbitrary: s rs) (auto split: option.splits Option.bind_splits)

lemma run_ops_append:
  "run_ops run (ops @ ops') s = run_ops run ops s \<bind> (\<lambda>(rs, s). run_ops run ops' s \<bind> (\<lambda>(rs', s). Some (rs @ rs', s)))"
  by (induction ops arbitrary: s) (auto split: Option.bind_split)

definition takes_ok :: "int \<Rightarrow> kernel \<times> sop \<Rightarrow> socket_server \<Rightarrow> bool" where
  "takes_ok sid x s \<longleftrightarrow> op_ok x s \<and> accepts (ss_slot s (HASH_ID sid)) sid \<and> sent_by (snd x) sid \<noteq> None"

lemma permitted_takes:
  "\<forall>x \<in> set ops. kernel_ok (fst x) \<Longrightarrow>
    permitted run_op (\<lambda>x s. calls_ok x s \<and> accepts (ss_slot s (HASH_ID sid)) sid \<and> sent_by (snd x) sid \<noteq> None) ops ss \<Longrightarrow>
    permitted run_op (takes_ok sid) ops ss"
  by (induction ops arbitrary: ss) (auto simp: takes_ok_def op_ok_def calls_ok_def split: option.splits)

lemma demo_stream_permitted: "permitted run_op (takes_ok 1) demo_stream_ops demo_opened"
proof (rule permitted_takes)
  show "permitted run_op (\<lambda>x s. calls_ok x s \<and> accepts (ss_slot s (HASH_ID 1)) 1 \<and> sent_by (snd x) 1 \<noteq> None) demo_stream_ops demo_opened"
    by code_simp
qed (use demo_kernels in auto)

lemma demo_opened_rel: "stream_rel 1 demo_opened []"
proof -
  let ?s = "ss_slot demo_opened (HASH_ID 1)"
  have s: "sk_type ?s = SOCKET_TYPE_CONNECTED" "sk_id ?s = 1" "sk_protocol ?s = PROTOCOL_TCP" "ss_pipe demo_opened = []"
    "sk_low ?s = clear_wb_list" "sk_high ?s = clear_wb_list" "sk_dw_buffer ?s = None" "wire 1 (ss_trace demo_opened) = []"
    by code_simp+
  have "pending (ss_mem demo_opened) ?s []"
    unfolding pending_def s by (intro conjI exI [of _ "[]"]) (simp_all add: dw_data_def s wbs_data_def)
  then show ?thesis by (simp add: stream_rel_def live_def s List.map_filter_def)
qed

section \<open>Runs\<close>

text \<open>The states of a server that was created and then called as permitted.\<close>

definition served :: "(kernel \<times> sop) list \<Rightarrow> op_report list \<Rightarrow> socket_server \<Rightarrow> bool" where
  "served ops reps ss \<longleftrightarrow> (\<exists>K time old ss0 tr. socket_server_create K time old = Some (Some ss0, tr) \<and>
     permitted run_op op_ok ops ss0 \<and> run_ops run_op ops ss0 = Some (reps, ss))"

lemma served_inv: "served ops reps ss \<Longrightarrow> \<exists>ow. server_inv ow ss"
  unfolding served_def using created_inv sockets.run_returns by (metis option.inject prod.inject)

lemma demo_served: "served demo_open_ops [None, Some (SOCKET_OPEN, 1)] demo_opened"
  unfolding served_def using demo_created demo_open_permitted demo_open_run by blast

text \<open>
  C4: every sequence of permitted calls of the workers and rounds of the socket thread, from the
  creation of the server on and with any answers of the operating system, runs to its end: no
  assertion fails, no memory is read outside a block or after it was freed, and none is freed
  twice.
\<close>

theorem socket_calls_return:
  assumes "socket_server_create K time old = Some (Some ss, tr)" "permitted run_op op_ok ops ss"
  shows "\<exists>reps ss'. run_ops run_op ops ss = Some (reps, ss')"
  using sockets.run_returns [OF _ assms(2)] created_inv [OF assms(1)] by blast

theorem socket_calls_return_witness:
  "\<exists>reps ss'. run_ops run_op (demo_open_ops @ demo_close_ops) demo_server = Some (reps, ss')"
  by (rule socket_calls_return [OF demo_created permitted_append [OF demo_open_permitted demo_open_run demo_close_permitted]])

text \<open>
  C5: the stream of a connection keeps its order: while the connection takes data and gets
  none of low priority, what was written to its descriptor is at every time a beginning of what was
  sent to it, in the order of the calls, whether the data went through the pipe, waits in the
  slot or was written at once; the rest waits.
\<close>

theorem socket_stream_order:
  assumes "served pre reps ss" "stream_rel sid ss bs" "permitted run_op (takes_ok sid) ops ss"
    "run_ops run_op ops ss = Some (reps', ss')"
    "live (ss_slot ss' (HASH_ID sid))" "sk_id (ss_slot ss' (HASH_ID sid)) = sid"
  shows "\<exists>wait. bs @ concat (map (\<lambda>x. the (sent_by (snd x) sid)) ops) = wire sid (ss_trace ss') @ wait \<and>
    stream_rel sid ss' (bs @ concat (map (\<lambda>x. the (sent_by (snd x) sid)) ops))"
proof -
  have "permitted run_op (\<lambda>x s. op_ok x s \<and> accepts (ss_slot s (HASH_ID sid)) sid \<and> sent_by (snd x) sid \<noteq> None) ops ss"
    by (rule permitted_mono [OF _ assms(3)]) (simp add: takes_ok_def)
  from sockets.stream_run [OF served_inv [OF assms(1)] this assms(4,2)] assms(5,6)
  have "stream_rel sid ss' (bs @ concat (map (\<lambda>x. the (sent_by (snd x) sid)) ops))" by blast
  then show ?thesis unfolding stream_rel_def by blast
qed

theorem socket_stream_order_witness:
  "\<exists>reps ss wait. run_ops run_op demo_stream_ops demo_opened = Some (reps, ss) \<and>
    [65, 66, 67] = wire 1 (ss_trace ss) @ wait"
proof -
  let ?f = "\<lambda>(r, ss). (sk_type (ss_slot ss (HASH_ID 1)), sk_id (ss_slot ss (HASH_ID 1)))"
  have "map_option ?f (run_ops run_op demo_stream_ops demo_opened) = Some (SOCKET_TYPE_CONNECTED, 1)" by code_simp
  then obtain reps ss where r: "run_ops run_op demo_stream_ops demo_opened = Some (reps, ss)"
    "sk_type (ss_slot ss (HASH_ID 1)) = SOCKET_TYPE_CONNECTED" "sk_id (ss_slot ss (HASH_ID 1)) = 1"
    by auto
  have "live (ss_slot ss (HASH_ID 1))" using r(2) by (simp add: live_def)
  from socket_stream_order [OF demo_served demo_opened_rel demo_stream_permitted r(1) this r(3)] r(1)
  show ?thesis by (auto simp: demo_stream_ops_def sent_def)
qed

text \<open>
  C10: \<open>SOCKET_CLOSE\<close> is reported at most once for each id, however a connection is closed.
\<close>

theorem socket_close_once:
  assumes "served ops reps ss"
  shows "distinct (List.map_filter closed_report reps)"
proof -
  obtain K time old ss0 tr where s: "socket_server_create K time old = Some (Some ss0, tr)"
    "permitted run_op op_ok ops ss0" "run_ops run_op ops ss0 = Some (reps, ss)" using assms unfolding served_def by blast
  have "\<exists>ow. server_inv ow ss0" using created_inv [OF s(1)] by blast
  from sockets.closes_distinct [OF this s(2,3)] show ?thesis .
qed

theorem socket_close_once_witness:
  "\<exists>reps ss. run_ops run_op (demo_open_ops @ demo_close_ops) demo_server = Some (reps, ss) \<and>
    distinct (List.map_filter closed_report reps) \<and> reps = [None, Some (SOCKET_OPEN, 1), None, Some (SOCKET_CLOSE, 1), None, None]"
proof -
  have "map_option fst (run_ops run_op demo_close_ops demo_opened) = Some [None, Some (SOCKET_CLOSE, 1), None, None]" by code_simp
  then obtain ss where r: "run_ops run_op (demo_open_ops @ demo_close_ops) demo_server =
      Some ([None, Some (SOCKET_OPEN, 1), None, Some (SOCKET_CLOSE, 1), None, None], ss)"
    by (auto simp: run_ops_append demo_open_run)
  have "served (demo_open_ops @ demo_close_ops) [None, Some (SOCKET_OPEN, 1), None, Some (SOCKET_CLOSE, 1), None, None] ss"
    unfolding served_def using demo_created permitted_append [OF demo_open_permitted demo_open_run demo_close_permitted] r by blast
  from socket_close_once [OF this] r show ?thesis by blast
qed

text \<open>
  C15: the counters of an open connection are exact in every state: \<open>wb_size\<close> is the number of bytes in its
  two lists, and \<open>sending\<close> holds the tag of its id and the number of its requests to send in the
  pipe, which stays below 65536.
\<close>

theorem socket_counters_exact:
  assumes "served ops reps ss" "live (ss_slot ss i)" "sk_protocol (ss_slot ss i) = PROTOCOL_TCP"
  shows "(\<exists>hs ls. wl_ok (sk_wbs (ss_slot ss i)) (sk_high (ss_slot ss i)) hs \<and> wl_ok (sk_wbs (ss_slot ss i)) (sk_low (ss_slot ss i)) ls \<and>
      sk_wb_size (ss_slot ss i) = wbs_size hs + wbs_size ls) \<and>
    sk_sending (ss_slot ss i) = ID_TAG16 (sk_id (ss_slot ss i)) * 65536 + pcount (sk_id (ss_slot ss i)) (ss_pipe ss) \<and>
    pcount (sk_id (ss_slot ss i)) (ss_pipe ss) < 65536 \<and> HASH_ID (sk_id (ss_slot ss i)) = i"
proof -
  let ?s = "ss_slot ss i"
  obtain ow where v: "server_inv ow ss" using served_inv [OF assms(1)] by blast
  obtain hs ls where "bufs_ok (ss_mem ss) (ss_brk ss) ow i ?s hs ls" "conn_ok ?s hs ls"
    using sinvE [OF server_invD(1) [OF v] assms(2)] by blast
  then have 1: "\<exists>hs ls. wl_ok (sk_wbs ?s) (sk_high ?s) hs \<and> wl_ok (sk_wbs ?s) (sk_low ?s) ls \<and> sk_wb_size ?s = wbs_size hs + wbs_size ls"
    unfolding bufs_ok_def links_ok_def conn_ok_def by blast
  have h: "HASH_ID (sk_id ?s) = i" using server_invD(3) [OF v] assms(2) unfolding ids_ok_def live_def by blast
  have "count_ok (sk_id ?s) ?s (pcount (sk_id ?s) (ss_pipe ss))"
    using server_invD(5) [OF v] h unfolding counts_ok_def by metis
  then have "sk_sending ?s = ID_TAG16 (sk_id ?s) * 65536 + pcount (sk_id ?s) (ss_pipe ss) \<and> pcount (sk_id ?s) (ss_pipe ss) < 65536"
    using assms(2,3) unfolding count_ok_def by blast
  with 1 h show ?thesis by blast
qed

theorem socket_counters_exact_witness:
  "sk_sending (ss_slot demo_opened (HASH_ID 1)) = 0 \<and>
    (\<exists>hs ls. sk_wb_size (ss_slot demo_opened (HASH_ID 1)) = wbs_size hs + wbs_size ls)"
proof -
  let ?s = "ss_slot demo_opened (HASH_ID 1)"
  have s: "sk_type ?s = SOCKET_TYPE_CONNECTED" "sk_protocol ?s = PROTOCOL_TCP" "sk_id ?s = 1" "ss_pipe demo_opened = []" "ID_TAG16 1 = 0"
    by code_simp+
  have "live ?s" by (simp add: live_def s)
  from socket_counters_exact [OF demo_served this s(2)] show ?thesis unfolding s by (auto simp: pcount_def)
qed

lemma release_loop:
  "server_inv ow ss \<Longrightarrow> \<exists>ss'. c_for is (\<lambda>i ss. if sk_type (ss_slot ss i) \<noteq> SOCKET_TYPE_RESERVE
      then map_option snd (force_close K i ss) else Some ss) ss = Some ss' \<and> server_inv ow ss' \<and>
    (\<forall>i. live (ss_slot ss' i) \<longrightarrow> live (ss_slot ss i) \<and> i \<notin> set is)"
proof (induction "is" arbitrary: ss)
  case (Cons i "is")
  let ?f = "\<lambda>i ss. if sk_type (ss_slot ss i) \<noteq> SOCKET_TYPE_RESERVE then map_option snd (force_close K i ss) else Some ss"
  have "\<exists>ss1. ?f i ss = Some ss1 \<and> server_inv ow ss1 \<and> (\<forall>j. live (ss_slot ss1 j) \<longrightarrow> live (ss_slot ss j) \<and> j \<noteq> i)"
  proof (cases "live (ss_slot ss i)")
    case True
    obtain ss1 where f: "force_close K i ss = Some (report_to (ss_slot ss i) Data_null, ss1)" "shut ow i ss ss1" "evolve ow i ss ss1"
      using force_close_ok [OF server_invD(1) [OF Cons.prems] True] by blast
    have g: "grow ow i ss ss1" using f(3) by (simp add: evolve_grow)
    have "live (ss_slot ss j) \<and> j \<noteq> i" if "live (ss_slot ss1 j)" for j
      using that f(2) unfolding shut_def frame_def live_def by (cases "j = i") auto
    then show ?thesis using f(1) inv_grow [OF Cons.prems g] True by (simp add: live_def)
  next
    case False
    then have "?f i ss = Some ss" by (auto simp: live_def force_close_def)
    then show ?thesis using Cons.prems False by auto
  qed
  then obtain ss1 where 1: "?f i ss = Some ss1" "server_inv ow ss1" "\<And>j. live (ss_slot ss1 j) \<Longrightarrow> live (ss_slot ss j) \<and> j \<noteq> i" by blast
  from Cons.IH [OF 1(2)] 1(1,3) show ?case by fastforce
qed simp

text \<open>
  C29: the release of the server, in every state that permitted calls and rounds reach, returns and leaves
  no slot open: every socket is closed, whatever was waiting on it, and its write buffers are freed. (A slot
  that is reserved and not yet opened stays reserved.)
\<close>

theorem socket_release:
  assumes "served ops reps ss"
  shows "\<exists>ss'. socket_server_release K ss = Some ss' \<and>
    (\<forall>i < nat MAX_SOCKET. \<not> live (ss_slot ss' i) \<and> sk_wbs (ss_slot ss' i) = Map.empty)"
proof -
  obtain ow where v: "server_inv ow ss" using served_inv [OF assms] by blast
  obtain ss1 where l: "c_for [0..<nat MAX_SOCKET] (\<lambda>i ss. if sk_type (ss_slot ss i) \<noteq> SOCKET_TYPE_RESERVE
      then map_option snd (force_close K i ss) else Some ss) ss = Some ss1" "server_inv ow ss1"
    "\<forall>i. live (ss_slot ss1 i) \<longrightarrow> live (ss_slot ss i) \<and> i \<notin> set [0..<nat MAX_SOCKET]" using release_loop [OF v] by blast
  have e: "\<not> live (ss_slot ss1 i) \<and> sk_wbs (ss_slot ss1 i) = Map.empty" if "i < nat MAX_SOCKET" for i
  proof -
    have "\<not> live (ss_slot ss1 i)" using l(3) that by auto
    then show ?thesis using server_invD(1) [OF l(2), of i] by (simp add: sinv_def slot_inv_def closed_ok_def)
  qed
  show ?thesis using l(1) e by (simp add: socket_server_release_def sys_close_def)
qed

theorem socket_release_witness:
  "\<exists>ss. socket_server_release demo_kernel demo_opened = Some ss \<and> \<not> live (ss_slot ss (HASH_ID 1))"
  using socket_release [OF demo_served, of demo_kernel] HASH_ID_less [of 1] by blast

section \<open>Ids\<close>

text \<open>
  C27: \<open>reserve_id\<close> finds a free slot exactly when there is one: the first one after the last id in the
  order of the ids, also when the counter passes the largest \<open>int\<close>; the id is not negative and its
  slot is reserved for it. With no free slot the result is \<open>-1\<close> and no slot changes.
\<close>

theorem reserve_id_finds:
  assumes "0 \<le> ss_alloc_id ss" "ss_alloc_id ss \<le> INT_MAX"
  shows "if \<exists>i < nat MAX_SOCKET. sk_type (ss_slot ss i) = SOCKET_TYPE_INVALID
    then \<exists>k. 1 \<le> k \<and> k \<le> 65536 \<and> slot_free ss (id_at ss k) \<and> (\<forall>j. 1 \<le> j \<and> j < k \<longrightarrow> \<not> slot_free ss (id_at ss j)) \<and>
      0 \<le> id_at ss k \<and> id_at ss k \<le> INT_MAX \<and> reserve_id ss = (id_at ss k, upd_slot (HASH_ID (id_at ss k)) (reserve_slot (id_at ss k))
        (ss\<lparr>ss_alloc_id := id_at ss k\<rparr>))
    else fst (reserve_id ss) = -1 \<and> ss_slot (snd (reserve_id ss)) = ss_slot ss"
proof -
  have "id_range ss" using assms by (simp add: id_range_def)
  then show ?thesis
  proof (cases rule: reserve_id_cases)
    case (found k)
    then have "\<exists>i < nat MAX_SOCKET. sk_type (ss_slot ss i) = SOCKET_TYPE_INVALID" using HASH_ID_less unfolding slot_free_def by blast
    then show ?thesis using found id_range_at(2,3) [of ss k] unfolding reserved_def by auto
  next
    case full
    then show ?thesis by auto
  qed
qed

theorem reserve_id_finds_witness:
  "reserve_id (demo_server\<lparr>ss_alloc_id := 2147483647\<rparr>) = (0, upd_slot 0 (reserve_slot 0) demo_server)"
proof -
  let ?ss = "demo_server\<lparr>ss_alloc_id := 2147483647\<rparr>"
  have s: "ss_slot ?ss i = init_slot demo_slot" for i by (simp add: demo_server_def)
  have f: "slot_free ?ss x" for x unfolding slot_free_def s by (simp add: init_slot_def)
  have "\<exists>i < nat MAX_SOCKET. sk_type (ss_slot ?ss i) = SOCKET_TYPE_INVALID"
    unfolding s by (intro exI [of _ 0]) (simp add: init_slot_def MAX_SOCKET_def)
  with reserve_id_finds [of ?ss] obtain k where k: "1 \<le> k" "\<forall>j. 1 \<le> j \<and> j < k \<longrightarrow> \<not> slot_free ?ss (id_at ?ss j)"
    "reserve_id ?ss = (id_at ?ss k, upd_slot (HASH_ID (id_at ?ss k)) (reserve_slot (id_at ?ss k)) (?ss\<lparr>ss_alloc_id := id_at ?ss k\<rparr>))"
    by (auto simp: INT_MAX_def)
  have "\<not> 1 < k" using k(2) f by blast
  then have "k = 1" using k(1) by linarith
  moreover have "id_at ?ss 1 = 0" by (simp add: id_at_def)
  ultimately show ?thesis using k(3) by (simp add: HASH_ID_def demo_server_def)
qed

section \<open>Packets\<close>

fun sockaddr_ok :: "sockaddr_all \<Rightarrow> bool" where
  "sockaddr_ok (V4 port host) \<longleftrightarrow> length port = 2 \<and> length host = 4"
| "sockaddr_ok (V6 port host) \<longleftrightarrow> length port = 2 \<and> length host = 16"

lemma gen_udp_roundtrip:
  assumes "sockaddr_ok sa" "pro = (if is_v4 sa then PROTOCOL_UDP else PROTOCOL_UDPv6)" "sk_protocol s = pro"
  obtains a where "gen_udp_address pro sa = Some a" "udp_address_size (a ! 0) = Some (length a)" "udp_socket_address s a = Some sa" "a \<noteq> []"
  using assms by (cases sa) (auto simp: udp_address_size_def udp_socket_address_def protocol_defs)

lemma udp_socket_address_cong:
  "sk_protocol s' = sk_protocol s \<Longrightarrow> udp_socket_address s' a = udp_socket_address s a"
  by (simp add: udp_socket_address_def Let_def)

text \<open>The call of \<open>sendto\<close>, and the request for the socket thread to make it.\<close>

definition sends_packet :: "int \<Rightarrow> int \<Rightarrow> u8 list \<Rightarrow> sockaddr_all \<Rightarrow> (int \<Rightarrow> bool) \<Rightarrow> socket_server \<Rightarrow> socket_server \<Rightarrow> bool" where
  "sends_packet sid fd d sa P ss ss' \<longleftrightarrow>
     (\<exists>tr n. ss_trace ss' = ss_trace ss @ tr \<and> P n \<and> Sys_sendto sid fd d sa n \<in> set tr)"

definition asks_for_packet :: "int \<Rightarrow> u8 list \<Rightarrow> u8 list \<Rightarrow> socket_server \<Rightarrow> request_package \<Rightarrow> bool" where
  "asks_for_packet sid d a ss p \<longleftrightarrow> pk_type p = CHR ''A'' \<and>
     (\<exists>e. pk_body p = U_send_udp \<lparr>rq_id = sid, rq_sz = int (length d), rq_buffer = Some (e, 0)\<rparr> a \<and> ss_mem ss e = Some d)"

text \<open>The bytes of an address, which the request carries and the socket thread reads with what is behind them.\<close>

lemma udp_address_padded:
  assumes "gen_udp_address pro sa = Some a" "sockaddr_ok sa" "pro = (if is_v4 sa then PROTOCOL_UDP else PROTOCOL_UDPv6)"
    "sk_protocol s = pro" "x = a \<or> x = take UDP_ADDRESS_SIZE (a @ st)"
  shows "udp_socket_address s x = Some sa"
  using assms by (cases sa) (auto simp: udp_socket_address_def protocol_defs UDP_ADDRESS_SIZE_def)

lemma udp_send_answer:
  assumes a: "udp_address_size (a ! 0) = Some (length a)" "udp_socket_address (ss_slot ss (HASH_ID sid)) a = Some sa"
    and v: "\<not> socket_invalid (ss_slot ss (HASH_ID sid)) sid" and d: "data_ok t d"
  shows "\<exists>ss'. run_op (K, Op_udp_send a t sid d) ss = Some (None, ss') \<and>
    (sends_packet sid (sk_fd (ss_slot ss (HASH_ID sid))) d sa (\<lambda>n. 0 \<le> n) ss ss' \<or>
     (\<exists>p. ss_pipe ss' = ss_pipe ss @ [p] \<and> asks_for_packet sid d a ss' p))"
proof -
  define i where "i = HASH_ID sid"
  let ?b = "ss_brk ss" and ?s = "ss_slot ss i"
  let ?buf = "buf_of sid t ?b d"
  define ok where "ok x \<longleftrightarrow> ss_mem x ?b = Some d \<and> ss_brk x = Suc ?b \<and> ss_pipe x = ss_pipe ss \<and> ss_slot x = ss_slot ss \<and>
    (\<exists>tr. ss_trace x = ss_trace ss @ tr)" for x :: socket_server
  have t: "t = SOCKET_BUFFER_MEMORY \<or> t = SOCKET_BUFFER_RAWPOINTER" "int (length d) \<le> INT_MAX" "t \<noteq> SOCKET_BUFFER_OBJECT"
    using d by (cases t; simp add: data_ok_def)+
  define snd_it where "snd_it x = (clone_buffer ?buf x \<bind> (\<lambda>(buffer, sz, ss). Some (0 :: int, send_request K CHR ''A'' (sizeof_send + length a)
    (U_send_udp \<lparr>rq_id = sid, rq_sz = sz, rq_buffer = buffer\<rparr> (take (length a) a)) ss)))" for x
  have pipe: "\<exists>r ss'. snd_it x = Some (r, ss') \<and> (\<exists>p. ss_pipe ss' = ss_pipe ss @ [p] \<and> asks_for_packet sid d a ss' p)" if x: "ok x" for x
  proof -
    have r: "mem_read (ss_mem x) (Some (?b, 0)) (int (length d)) = Some d" using x by (intro mem_read_all) (simp add: ok_def)
    define e where "e = (if t = SOCKET_BUFFER_MEMORY then ?b else ss_brk x)"
    obtain y where y: "clone_buffer ?buf x = Some (Some (e, 0), int (length d), y)" "ss_mem y e = Some d" "ss_pipe y = ss_pipe ss"
      using t(1) r x by (auto simp: clone_buffer_def e_def MALLOC_def ok_def)
    obtain tr where "send_request K CHR ''A'' (sizeof_send + length a)
        (U_send_udp \<lparr>rq_id = sid, rq_sz = int (length d), rq_buffer = Some (e, 0)\<rparr> a) y =
      y\<lparr>ss_trace := ss_trace y @ tr, ss_pipe := ss_pipe y @ [\<lparr>pk_type = CHR ''A'', pk_len = word_of_nat (sizeof_send + length a),
        pk_body = U_send_udp \<lparr>rq_id = sid, rq_sz = int (length d), rq_buffer = Some (e, 0)\<rparr> a\<rparr>]\<rparr>"
      by (rule send_requestE)
    with y show ?thesis by (simp add: snd_it_def asks_for_packet_def)
  qed
  let ?ss0 = "snd (MALLOC d ss)" and ?ss1 = "sys_log (Sys_trylock (int i)) (snd (MALLOC d ss))"
  have ok: "ok ?ss0" "ok ?ss1" by (simp_all add: ok_def MALLOC_def sys_log_def)
  obtain n err where w: "k_sendto K (ss_trace ?ss1) (sk_fd ?s) d sa = (n, err)" by force
  let ?ss2 = "sys_log (Sys_sendto (sk_id ?s) (sk_fd ?s) d sa n) ?ss1"
  have so: "sys_sendto K (sk_id ?s) (sk_fd ?s) (Some (?b, 0)) (int (length d)) sa ?ss1 = Some (n, err, ?ss2)"
    using w mem_read_all [of "ss_mem ?ss1" ?b d] ok(2) by (simp add: sys_sendto_def ok_def)
  obtain ss3 where f: "free_func \<lparr>so_buffer = Some (?b, 0), so_sz = int (length d), so_free = t\<rparr> (Some (?b, 0)) (stat_write i n ?ss2) = Some ss3"
      "ss_trace ss3 = ss_trace ?ss2"
    using t(1) by (auto simp: free_func_def FREE_def stat_write_def sys_log_def MALLOC_def)
  have dir: "direct_sendto K i a ?buf ?ss1 = (if 0 \<le> n then Some (Some 0, ss3) else Some (None, ?ss2))"
    using a(2) so f(1) sendbuffer_object [OF t(3,2)] ok(2) by (simp add: direct_sendto_def Let_def i_def [symmetric] ok_def)
  have ok2: "ok ?ss2" by (simp add: ok_def MALLOC_def sys_log_def)
  have run: "socket_server_udp_send K a ?buf ?ss0 =
    (if can_direct_write ?s sid then
      (if k_trylock K (ss_trace ?ss0) then
        (direct_sendto K i a ?buf ?ss1 \<bind> (\<lambda>(r, ss). case r of Some r \<Rightarrow> Some (r, ss) | None \<Rightarrow> snd_it ss))
       else snd_it ?ss1)
     else snd_it ?ss0)"
    using v a(1) ok unfolding socket_server_udp_send_def snd_it_def
    by (simp add: Let_def socket_trylock_def i_def [symmetric] ok_def)
  have op: "run_op (K, Op_udp_send a t sid d) ss = map_option (\<lambda>(r, ss). (None, ss)) (socket_server_udp_send K a ?buf ?ss0)"
    by (simp add: alloc_op_def MALLOC_def)
  consider (direct) "can_direct_write ?s sid" "k_trylock K (ss_trace ?ss0)" "0 \<le> n"
    | (queued) x where "ok x" "socket_server_udp_send K a ?buf ?ss0 = snd_it x"
    using run dir ok ok2 by (cases "can_direct_write ?s sid"; cases "k_trylock K (ss_trace ?ss0)"; cases "0 \<le> n") (auto simp: bind_eq_Some_conv)
  then show ?thesis
  proof cases
    case direct
    then have "run_op (K, Op_udp_send a t sid d) ss = Some (None, ss3)" unfolding op run dir by simp
    moreover have "sends_packet sid (sk_fd ?s) d sa (\<lambda>n. 0 \<le> n) ss ss3"
      using direct(1,3) f(2) unfolding sends_packet_def
      by (intro exI [of _ "[Sys_trylock (int i), Sys_sendto sid (sk_fd ?s) d sa n]"] exI [of _ n]) (simp add: sys_log_def MALLOC_def can_direct_write_def)
    ultimately show ?thesis unfolding i_def by blast
  next
    case queued
    from pipe [OF queued(1)] show ?thesis unfolding op queued(2) by auto
  qed
qed

text \<open>The socket thread takes the request, on an open socket with nothing waiting.\<close>

definition udp_idle :: "int \<Rightarrow> socket_server \<Rightarrow> bool" where
  "udp_idle sid ss \<longleftrightarrow> (let s = ss_slot ss (HASH_ID sid) in
     sk_id s = sid \<and> sk_type s = SOCKET_TYPE_CONNECTED \<and> \<not> sk_closing s \<and> send_buffer_empty s)"

lemma enable_and_warn_trace: "\<exists>t m ss' tr. enable_and_warn K i result ss = Some (t, m, ss') \<and> ss_trace ss' = ss_trace ss @ tr"
  by (auto simp: enable_and_warn_def enable_write_def sp_enable_def report_error_def warn_wb_def upd_slot_def sys_log_def Let_def
      split: if_splits)

lemma udp_request_sent:
  assumes p: "ss_pipe ss = p # ps" "asks_for_packet sid d a ss p" "k_pipe_read K (ss_trace ss) = None" and u: "udp_idle sid ss"
    and a: "udp_socket_address (ss_slot ss (HASH_ID sid)) (take UDP_ADDRESS_SIZE (a @ k_stack K)) = Some sa"
    and d: "int (length d) \<le> INT_MAX"
  shows "\<exists>t m ss'. ctrl_cmd K result ss = Some (t, m, ss') \<and>
    sends_packet sid (sk_fd (ss_slot ss (HASH_ID sid))) d sa (\<lambda>n. True) ss ss'"
proof -
  define i where "i = HASH_ID sid"
  let ?s = "ss_slot ss i"
  obtain e where e: "pk_type p = CHR ''A''" "ss_mem ss e = Some d"
    "pk_body p = U_send_udp \<lparr>rq_id = sid, rq_sz = int (length d), rq_buffer = Some (e, 0)\<rparr> a"
    using p(2) by (auto simp: asks_for_packet_def)
  let ?rq = "\<lparr>rq_id = sid, rq_sz = int (length d), rq_buffer = Some (e, 0)\<rparr>"
  let ?x = "take UDP_ADDRESS_SIZE (a @ k_stack K)" and ?ss1 = "sys_log Sys_pipe (ss\<lparr>ss_pipe := ps\<rparr>)"
  have c: "ctrl_cmd K result ss = send_socket K ?rq result PRIORITY_HIGH (Some ?x) ?ss1"
    using p(1,3) e by (simp add: ctrl_cmd_def block_readpipe_def)
  have x: "udp_socket_address ?s ?x = Some sa" using a by (simp only: i_def)
  then have tcp: "sk_protocol ?s \<noteq> PROTOCOL_TCP" by (auto simp: udp_socket_address_def protocol_defs Let_def split: if_splits)
  obtain n err where w: "k_sendto K (ss_trace ?ss1) (sk_fd ?s) d sa = (n, err)" by force
  let ?ss2 = "sys_log (Sys_sendto sid (sk_fd ?s) d sa n) ?ss1"
  have so: "sys_sendto K sid (sk_fd ?s) (Some (e, 0)) (int (length d)) sa ?ss1 = Some (n, err, ?ss2)"
    using w mem_read_all [of "ss_mem ?ss1" e d] e(2) by (simp add: sys_sendto_def)
  have ob: "send_object_init y (Some (e, 0)) (int (length d)) =
    Some (False, \<lparr>so_buffer = Some (e, 0), so_sz = int (length d), so_free = SOCKET_BUFFER_MEMORY\<rparr>)" for y
    using d by (simp add: send_object_init_def USEROBJECT_def INT_MAX_def)
  have s: "sk_id ?s = sid" "sk_type ?s = SOCKET_TYPE_CONNECTED" "\<not> sk_closing ?s" "send_buffer_empty ?s"
    using u by (simp_all add: udp_idle_def i_def [symmetric] Let_def)
  have send: "send_socket K ?rq result PRIORITY_HIGH (Some ?x) ?ss1 =
    (if n \<noteq> int (length d) then append_sendbuffer_udp i PRIORITY_HIGH ?rq ?x ?ss2 \<bind> enable_and_warn K i result
     else free_func \<lparr>so_buffer = Some (e, 0), so_sz = int (length d), so_free = SOCKET_BUFFER_MEMORY\<rparr> (Some (e, 0)) (stat_write i n ?ss2) \<bind>
       (\<lambda>ss. Some (None, result, ss)))"
    using s x tcp so ob by (simp add: send_socket_def Let_def i_def [symmetric] default_address_def)
  have sent: "sends_packet sid (sk_fd ?s) d sa (\<lambda>n. True) ss ss'" if "ss_trace ss' = ss_trace ?ss2 @ tr" for ss' tr
    using that unfolding sends_packet_def
    by (intro exI [of _ "[Sys_pipe, Sys_sendto sid (sk_fd ?s) d sa n] @ tr"] exI [of _ n]) (simp add: sys_log_def)
  show ?thesis
  proof (cases "n = int (length d)")
    case True
    then show ?thesis unfolding c send using e(2) sent [of _ "[]"]
      by (auto simp: free_func_def FREE_def stat_write_def sys_log_def i_def [symmetric])
  next
    case False
    have "wl_head (sk_high ?s) = None" using s(4) by (simp add: send_buffer_empty_def)
    then obtain y where y: "append_sendbuffer_udp i PRIORITY_HIGH ?rq ?x ?ss2 = Some y" "ss_trace y = ss_trace ?ss2"
      by (simp add: append_sendbuffer_udp_def append_counted_def append_sendbuffer'_def ob Let_def upd_slot_def sys_log_def)
    from enable_and_warn_trace [of K i result y] y sent show ?thesis unfolding c send using False by (auto simp: i_def [symmetric])
  qed
qed

text \<open>
  C28: a packet is given to its service with the address of its sender behind the data:
  \<open>socket_server_udp_address\<close> finds the address in the message. A send to that address on the same socket, in
  whatever state the server is then with the socket open, either calls \<open>sendto\<close> with the data and the sender's
  address at once, or puts a request with the data and the address into the pipe, behind the others; and when
  the socket thread takes such a request from the pipe, with the socket open and nothing waiting on it, it calls
  \<open>sendto\<close> with the data and the sender's address.
\<close>

theorem udp_answer_to_sender:
  assumes "k_recvfrom K (ss_trace ss) (sk_fd (ss_slot ss i)) = Inr (bytes, sa)" "sockaddr_ok sa"
    "sk_protocol (ss_slot ss i) = (if is_v4 sa then PROTOCOL_UDP else PROTOCOL_UDPv6)"
    and sid: "sid = sk_id (ss_slot ss i)" and answer: "data_ok t d" "\<not> socket_invalid (ss_slot ss2 (HASH_ID sid)) sid"
      "sk_protocol (ss_slot ss2 (HASH_ID sid)) = sk_protocol (ss_slot ss i)"
  shows "\<exists>a m ss' b. forward_message_udp K i r ss = Some (Some SOCKET_UDP, m, ss') \<and> rs_id m = sid \<and>
    rs_data m = Data_buffer b \<and> ss_mem ss' b = Some (bytes @ a) \<and> rs_ud m = int (length bytes) \<and>
    socket_server_udp_address ss' m = Some (Some a) \<and>
    (\<exists>ss4. run_op (K2, Op_udp_send a t sid d) ss2 = Some (None, ss4) \<and>
      (sends_packet sid (sk_fd (ss_slot ss2 (HASH_ID sid))) d sa (\<lambda>n. 0 \<le> n) ss2 ss4 \<or>
       (\<exists>q. ss_pipe ss4 = ss_pipe ss2 @ [q] \<and> asks_for_packet sid d a ss4 q))) \<and>
    (\<forall>K3 result ss3 p ps. ss_pipe ss3 = p # ps \<and> asks_for_packet sid d a ss3 p \<and> k_pipe_read K3 (ss_trace ss3) = None \<and>
        udp_idle sid ss3 \<and> sk_protocol (ss_slot ss3 (HASH_ID sid)) = sk_protocol (ss_slot ss i) \<longrightarrow>
      (\<exists>u m3 ss4. ctrl_cmd K3 result ss3 = Some (u, m3, ss4) \<and>
        sends_packet sid (sk_fd (ss_slot ss3 (HASH_ID sid))) d sa (\<lambda>n. True) ss3 ss4))"
proof -
  let ?pro = "if is_v4 sa then PROTOCOL_UDP else PROTOCOL_UDPv6"
  obtain a where a: "gen_udp_address ?pro sa = Some a" "udp_address_size (a ! 0) = Some (length a)" "a \<noteq> []"
    using gen_udp_roundtrip [OF assms(2) refl assms(3)] by blast
  note ad = udp_address_padded [OF a(1) assms(2) refl]
  let ?ss = "stat_read i (int (length bytes)) (sys_log (Sys_recvfrom (sk_fd (ss_slot ss i))) ss)"
  let ?m = "\<lparr>rs_id = sk_id (ss_slot ss i), rs_opaque = sk_opaque (ss_slot ss i), rs_ud = int (length bytes), rs_data = Data_buffer (ss_brk ss)\<rparr>"
  have "forward_message_udp K i r ss = Some (Some SOCKET_UDP, ?m, snd (MALLOC (bytes @ a) ?ss))"
    using assms(1,3) a(1) by (simp add: forward_message_udp_def Let_def MALLOC_def stat_read_def)
  moreover have "udp_socket_address (ss_slot ss2 (HASH_ID sid)) a = Some sa" using ad answer(3) assms(3) by simp
  from udp_send_answer [OF a(2) this answer(2,1), of K2]
  have "\<exists>ss4. run_op (K2, Op_udp_send a t sid d) ss2 = Some (None, ss4) \<and>
      (sends_packet sid (sk_fd (ss_slot ss2 (HASH_ID sid))) d sa (\<lambda>n. 0 \<le> n) ss2 ss4 \<or>
       (\<exists>q. ss_pipe ss4 = ss_pipe ss2 @ [q] \<and> asks_for_packet sid d a ss4 q))" .
  moreover have "\<exists>u m3 ss4. ctrl_cmd K3 result ss3 = Some (u, m3, ss4) \<and>
        sends_packet sid (sk_fd (ss_slot ss3 (HASH_ID sid))) d sa (\<lambda>n. True) ss3 ss4"
    if u: "ss_pipe ss3 = p # ps \<and> asks_for_packet sid d a ss3 p \<and> k_pipe_read K3 (ss_trace ss3) = None \<and>
        udp_idle sid ss3 \<and> sk_protocol (ss_slot ss3 (HASH_ID sid)) = sk_protocol (ss_slot ss i)" for K3 result ss3 p ps
  proof -
    have "udp_socket_address (ss_slot ss3 (HASH_ID sid)) (take UDP_ADDRESS_SIZE (a @ k_stack K3)) = Some sa"
      using u assms(3) by (intro ad [where st = "k_stack K3"] disjI2 refl) simp
    with u answer(1) show ?thesis by (intro udp_request_sent [of ss3 p ps sid d a K3 sa]) (simp_all add: data_ok_def)
  qed
  ultimately show ?thesis using a(2,3) sid
    by (intro exI [of _ a] exI [of _ ?m] exI) (auto simp: MALLOC_def stat_read_def socket_server_udp_address_def)
qed

text \<open>An open UDP socket, and the request of an answer at the head of the pipe.\<close>

definition udp_open :: socket_server where
  "udp_open = upd_slot 0 (\<lambda>s. s\<lparr>sk_protocol := PROTOCOL_UDP, sk_type := SOCKET_TYPE_CONNECTED\<rparr>) demo_server"

definition udp_asked :: "u8 list \<Rightarrow> socket_server" where
  "udp_asked a = udp_open\<lparr>ss_mem := [0 \<mapsto> [7, 8]], ss_brk := 1, ss_pipe := [\<lparr>pk_type = CHR ''A'', pk_len = 31,
     pk_body = U_send_udp \<lparr>rq_id = 0, rq_sz = 2, rq_buffer = Some (0, 0)\<rparr> a\<rparr>]\<rparr>"

theorem udp_answer_to_sender_witness:
  "\<exists>a m ss ss4 u m4 ss5. forward_message_udp demo_kernel 0 demo_msg udp_open = Some (Some SOCKET_UDP, m, ss) \<and>
    socket_server_udp_address ss m = Some (Some a) \<and>
    run_op (demo_kernel, Op_udp_send a SOCKET_BUFFER_MEMORY 0 [7, 8]) udp_open = Some (None, ss4) \<and>
    ctrl_cmd demo_kernel demo_msg (udp_asked a) = Some (u, m4, ss5) \<and> sends_packet 0 0 [7, 8] demo_addr (\<lambda>n. True) (udp_asked a) ss5"
proof -
  have 1: "k_recvfrom demo_kernel (ss_trace udp_open) (sk_fd (ss_slot udp_open 0)) = Inr ([1, 2, 3], demo_addr)"
    by (simp add: demo_kernel_def)
  have 2: "sockaddr_ok demo_addr" "sk_protocol (ss_slot udp_open 0) = (if is_v4 demo_addr then PROTOCOL_UDP else PROTOCOL_UDPv6)"
    by (simp_all add: demo_addr_def udp_open_def)
  have h: "HASH_ID 0 = 0" by (simp add: HASH_ID_def)
  have s: "ss_slot udp_open 0 = (init_slot demo_slot)\<lparr>sk_protocol := PROTOCOL_UDP, sk_type := SOCKET_TYPE_CONNECTED\<rparr>"
    by (simp add: udp_open_def demo_server_def)
  have 3: "0 = sk_id (ss_slot udp_open 0)" "data_ok SOCKET_BUFFER_MEMORY [7, 8]" "\<not> socket_invalid (ss_slot udp_open (HASH_ID 0)) 0"
    by (simp_all add: h s init_slot_def demo_slot_def data_ok_def INT_MAX_def socket_invalid_def)
  have 4: "udp_idle 0 (udp_asked a)" "sk_fd (ss_slot (udp_asked a) (HASH_ID 0)) = 0" for a
    by (simp_all add: udp_asked_def udp_idle_def h s init_slot_def demo_slot_def send_buffer_empty_def clear_wb_list_def)
  have 5: "ss_pipe (udp_asked a) = [\<lparr>pk_type = CHR ''A'', pk_len = 31, pk_body = U_send_udp \<lparr>rq_id = 0, rq_sz = 2, rq_buffer = Some (0, 0)\<rparr> a\<rparr>]"
    "k_pipe_read demo_kernel (ss_trace (udp_asked a)) = None" "ss_slot (udp_asked a) = ss_slot udp_open" "asks_for_packet 0 [7, 8] a (udp_asked a)
      \<lparr>pk_type = CHR ''A'', pk_len = 31, pk_body = U_send_udp \<lparr>rq_id = 0, rq_sz = 2, rq_buffer = Some (0, 0)\<rparr> a\<rparr>" for a
    by (simp_all add: udp_asked_def demo_kernel_def asks_for_packet_def)
  have 6: "ss_pipe (udp_asked a) = p # [] \<and> asks_for_packet 0 [7, 8] a (udp_asked a) p \<and> k_pipe_read demo_kernel (ss_trace (udp_asked a)) = None \<and>
      udp_idle 0 (udp_asked a) \<and> sk_protocol (ss_slot (udp_asked a) (HASH_ID 0)) = sk_protocol (ss_slot udp_open 0)"
    if "p = \<lparr>pk_type = CHR ''A'', pk_len = 31, pk_body = U_send_udp \<lparr>rq_id = 0, rq_sz = 2, rq_buffer = Some (0, 0)\<rparr> a\<rparr>" for a p
    using 4(1) 5 that h by simp
  have 7: "sk_protocol (ss_slot udp_open (HASH_ID 0)) = sk_protocol (ss_slot udp_open 0)" by (simp only: h)
  from udp_answer_to_sender [OF 1 2 3 7, of demo_msg demo_kernel] obtain a m ss b where
    w: "forward_message_udp demo_kernel 0 demo_msg udp_open = Some (Some SOCKET_UDP, m, ss)"
      "socket_server_udp_address ss m = Some (Some a)"
      "\<exists>ss4. run_op (demo_kernel, Op_udp_send a SOCKET_BUFFER_MEMORY 0 [7, 8]) udp_open = Some (None, ss4)"
      "\<And>ss3 p ps. ss_pipe ss3 = p # ps \<and> asks_for_packet 0 [7, 8] a ss3 p \<and> k_pipe_read demo_kernel (ss_trace ss3) = None \<and>
        udp_idle 0 ss3 \<and> sk_protocol (ss_slot ss3 (HASH_ID 0)) = sk_protocol (ss_slot udp_open 0) \<Longrightarrow>
      \<exists>u m3 ss4. ctrl_cmd demo_kernel demo_msg ss3 = Some (u, m3, ss4) \<and>
        sends_packet 0 (sk_fd (ss_slot ss3 (HASH_ID 0))) [7, 8] demo_addr (\<lambda>n. True) ss3 ss4"
    by blast
  from w(1-3) w(4) [OF 6 [OF refl]] show ?thesis unfolding 4(2) by blast
qed

end
