(* ===== verification/Spec2Isabelle.thy ===== *)
theory Spec2Isabelle
  imports Skynet_Sched Skynet_Launch Gate_Framing Skynet_Netpack Skynet_Seri_Proofs Crypt_Text
    Crypt_Des Crypt_Md5 Lib_Snowflake_Proofs Zset_Contract Socket_Contract
begin

text \<open>
  A model of the C core of the game-server framework sncpp (\<open>src/framework\<close>): the skynet actor
  kernel, its gate service, the packet, serialisation and cryptography libraries that skynet
  offers to Lua, and libraries of the framework itself.

  \<^bold>\<open>The program.\<close> A skynet node is one process. Services (actors) are created from modules, get a
  32-bit handle and a message queue, and only talk by messages. Worker threads take a queue from a
  global list, pop messages from it and call the service; a timer thread turns expired timers
  into messages; a socket thread turns socket events into messages; a monitor thread looks for
  services that do not return. The gate service cuts the byte streams of its connections into
  packets for the services behind it. Lua services use C libraries to pack messages, to assemble
  packets and to compute digests, ciphers and identifiers.

  \<^bold>\<open>Conventions\<close> (\<open>Skynet_Prelude\<close>, \<open>Skynet_Libc\<close>). A C function that may fail an assertion, read
  memory that was never written or that is out of range, or run for ever has an \<open>option\<close> result
  whose \<open>None\<close> stands for that; \<open>uint32_t\<close> and \<open>uint64_t\<close> are words and wrap; structures are records,
  pointers to heap objects are addresses into a finite map, \<open>NULL\<close> is \<open>None\<close>. Loops whose end is not
  evident are \<open>partial_function (option)\<close>, and the theorems prove that they return. A spin lock
  makes the section it guards one step. What the code takes from outside (the entry points of
  modules, the harbor service, clocks, random numbers, Lua values) is an argument of the
  definitions.

  \<^bold>\<open>The kernel.\<close>
  \<^item> \<open>Skynet_Mq\<close> (\<open>skynet_mq.c\<close>): the growing ring of a service and the global list of queues,
    over a heap of queues. Both refine a list (locale of a first-in first-out queue in the prelude);
    a push links an idle queue into the global list.
  \<^item> \<open>Skynet_Handle\<close> (\<open>skynet_handle.c\<close>): the hash table of handles with its growth, and the sorted
    array of names with binary search. A handle is fresh, names exactly its service until it is
    retired, and a name is found after it was inserted.
  \<^item> \<open>Skynet_Timer\<close> (\<open>skynet_timer.c\<close>): the five-level wheel. A timer fires exactly at its tick; the
    thread catches up with the clock.
  \<^item> \<open>Skynet_Node\<close>, \<open>Skynet_Server\<close>, \<open>Skynet_Cmd\<close> (\<open>skynet_server.c\<close>, \<open>skynet_module.c\<close>, \<open>skynet_harbor.c\<close>,
    \<open>skynet_env.c\<close>, \<open>skynet_error.c\<close>, \<open>skynet_log.c\<close>, \<open>skynet_monitor.c\<close>, \<open>skynet_start.c\<close>): contexts and
    their reference counts, sending, dispatch, launch, exit and every text command, on one record
    \<open>node\<close> of the state of the process. The entry points of a module are functions on the node.
  \<^item> \<open>Skynet_Tokens\<close>, \<open>Skynet_Sched\<close>: the protocol of queues, workers and releases as a step
    relation over the interleavings of the sections under a lock, with the registration of a new service
    and the creation of its queue as two steps: a queue is in the global list or held by one worker,
    never both or twice; a queue with messages is never forgotten; no queue is used after it is
    freed; no queue operation fails an assertion. The last two leave out one state, in which a handle is
    visible and its queue not yet created: there a push fails (\<open>push_before_queue\<close>).
  \<^item> \<open>Skynet_Mailbox\<close>, \<open>Skynet_Messages\<close>, \<open>Skynet_Launch\<close>, \<open>Skynet_Linked\<close>: the composition of the
    components: a message sent is the last one in the mailbox of its destination with
    its type, session and source, a message for a dead service is released, the release of a queue
    reports every waiting message to its sender, a timeout is delivered, a launch succeeds or is
    undone, whatever messages the \<open>init\<close> of the new service sent and whatever callback it set.

  \<^bold>\<open>The gate.\<close> \<open>Gate_Databuffer\<close> (\<open>databuffer.h\<close>), \<open>Gate_Hashid\<close> (\<open>hashid.h\<close>) and \<open>Gate_Service\<close>
  (\<open>service_gate.c\<close>) model the receive buffer, the table of connections and the service with its
  commands and socket events; \<open>Gate_Framing\<close> shows that packets arrive whole and in order however the
  stream was split, and that a header with the top bit set blocks the connection.

  \<^bold>\<open>The socket server\<close> (\<open>socket_server.c\<close>, \<open>socket_epoll.h\<close>). \<open>Socket_Data\<close> has its structures, the memory
  of data buffers, the pipe of requests and the record \<open>kernel\<close> of the answers of the operating system,
  each a function of the trace of calls made so far; \<open>Socket_Write\<close> the slots, the two lists of
  write buffers and the routines that write them; \<open>Socket_Poll\<close> the requests and events that the socket
  thread handles, a round and the loop of \<open>socket_server_poll\<close>; \<open>Socket_Request\<close> the functions that
  other threads call.
  \<^item> \<open>Socket_Lists\<close>, \<open>Socket_Inv\<close>: the linked lists of a slot, who owns each block of memory, and the
    invariant of a slot. \<open>Socket_Flush\<close>, \<open>Socket_Send\<close>, \<open>Socket_Append\<close>, \<open>Socket_Handlers\<close>: each routine on
    one slot returns, keeps the invariant, and takes bytes from the front of what waits.
  \<^item> \<open>Socket_Ids\<close>, \<open>Socket_Global\<close>: the reservation of ids, and the invariant \<open>server_inv\<close> of the server
    with its pipe: the requests that wait, the counts of sends, the events of the batch.
    \<open>Socket_Opening\<close>, \<open>Socket_Pipe\<close>, \<open>Socket_Sending\<close>, \<open>Socket_Ops\<close>, \<open>Socket_Rounds\<close>, \<open>Socket_Events\<close>: every operation
    and every round keeps it.
  \<^item> \<open>Socket_Run\<close>: the locale \<open>stream_machine\<close> of operations that return, streams that they extend and
    ids that close once, and its interpretation \<open>sockets\<close> on the server. A call of a worker and a round of the
    socket thread are one step each, in any order; finer interleavings of the two are not modelled, and
    whether a trylock succeeds is an answer of the environment. \<open>Socket_Contract\<close>: every
    permitted sequence of operations returns, streams keep their order, an id is closed once, the
    counters are exact, a free slot is found, the answer to a packet goes to its sender, the server
    can be released.
  \<^item> \<open>Socket_Cases\<close>: an operating system on which the operations are evaluated, and the calls that lead
    to a failed assertion or a bad access. They are what the condition \<open>call_ok\<close> of \<open>Socket_Run\<close> excludes.
  The hypothesis \<open>kernel_ok\<close> says that a call takes at most the bytes it was given, that a read gives
  at most the bytes asked for and fewer than \<open>2\<^sup>3\<^sup>0\<close>, that a write is not interrupted for ever, that the resolver gives an address when it succeeds and that
  reading the pipe does not fail. The ids do not wrap within a run: at \<open>2\<^sup>3\<^sup>1\<close> opened sockets they do.

  \<^bold>\<open>Libraries of skynet.\<close> \<open>Skynet_Netpack\<close> (\<open>lua-netpack.c\<close>): the packet assembler for many sockets.
  \<open>Skynet_Seri\<close>, \<open>Skynet_Seri_Proofs\<close> (\<open>lua-seri.c\<close>): packing and unpacking of Lua values; the fuel of
  the unpacker is four per byte plus four, and \<open>unpack_terminates\<close> proves that this is enough for
  every buffer. \<open>Crypt_Dh\<close>, \<open>Crypt_Text\<close>, \<open>Crypt_Des\<close>, \<open>Crypt_Md5\<close>, \<open>Crypt_Sha1\<close>, \<open>Crypt_Sha1_Proofs\<close>
  (\<open>lua-crypt.c\<close>, \<open>lsha1.c\<close>): key exchange, hexadecimal and base-64 codecs, DES, MD5 and SHA-1
  with their keyed forms, against reference definitions of the standards.

  \<^bold>\<open>Libraries of the framework.\<close> \<open>Lib_Snowflake\<close>, \<open>Lib_Snowflake_Proofs\<close> (\<open>lib/lua-snowflake\<close>): the generator
  of unique identifiers with both methods, over a list of clock readings. \<open>Zset_Skiplist\<close>, \<open>Zset_Search\<close>,
  \<open>Zset_Update\<close>, \<open>Zset_Proofs\<close>, \<open>Zset_Queries\<close>, \<open>Zset_Contract\<close> (\<open>lib/lua-zset\<close>: \<open>skiplist.c\<close>,
  \<open>lua-skiplist.c\<close>): the skip list with spans over a heap of nodes; it refines a sorted list under
  insertion, deletion and deletion by rank, ranks and elements correspond, and the release frees
  every node. Scores are of a linear order (no NaN), there are fewer than \<open>2\<^sup>3\<^sup>2\<close> elements, and the
  addresses of \<open>malloc\<close> and the values of \<open>random\<close> are arguments.

  \<^bold>\<open>Bounds.\<close> Sizes that the code keeps in an \<open>int\<close> carry the hypothesis under which they do not
  overflow (for instance fewer than \<open>2\<^sup>3\<^sup>0 - 1\<close> messages that wait in a ring, fewer than \<open>2\<^sup>2\<^sup>4\<close> handles, texts
  of fewer than \<open>2\<^sup>3\<^sup>1 - 8\<close> bytes for DES and \<open>3 * 2\<^sup>2\<^sup>9 - 2\<close> for base-64); what the text codecs do above is a
  case of the definitions. A property that needs one states it, and its witness shows that it can hold.

  \<^bold>\<open>Not modelled.\<close> The polling of events with \<open>kqueue\<close>, the daemon, \<open>main\<close> and the memory
  hooks (input and output on file descriptors, process creation, allocator statistics); the Lua
  interpreter and the third-party packages under \<open>3rd\<close>; the remaining C libraries for Lua under
  \<open>lualib-src\<close> and \<open>framework/lib\<close>, most of which are packaged third-party code or bindings of the
  Lua API; the Lua applications. The manifest names each of them.
\<close>

end
